(* ===== verification/Prelude.thy ===== *)
theory Prelude
  imports Main "HOL-Library.Word" "HOL-Library.Monad_Syntax"
begin

text \<open>
  Shared vocabulary of the development: the fixed-width integer types of
  \<^verbatim>\<open>kernel/include/types.h\<close>, the error numbers of \<^verbatim>\<open>kernel/include/fs/vfs.h\<close>, and the
  generic facts on bytes, bitmaps, words and lists that the component theories use.
\<close>

unbundle bit_operations_syntax

section \<open>Integer types\<close>

type_synonym u8 = "8 word"
type_synonym u16 = "16 word"
type_synonym u32 = "32 word"
type_synonym u64 = "64 word"
type_synonym bytes = "u8 list"

text \<open>A pointer is an address; \<^verbatim>\<open>NULL\<close> is 0. C never lets a pointer into an object wrap
  around the address space, so addresses are natural numbers.\<close>

type_synonym ptr = nat

abbreviation (input) NULL :: ptr where "NULL \<equiv> 0"

section \<open>Error numbers\<close>

abbreviation (input) EPERM :: int where "EPERM \<equiv> 1"
abbreviation (input) ENOENT :: int where "ENOENT \<equiv> 2"
abbreviation (input) ESRCH :: int where "ESRCH \<equiv> 3"
abbreviation (input) EIO :: int where "EIO \<equiv> 5"
abbreviation (input) EBADF :: int where "EBADF \<equiv> 9"
abbreviation (input) EAGAIN :: int where "EAGAIN \<equiv> 11"
abbreviation (input) ENOMEM :: int where "ENOMEM \<equiv> 12"
abbreviation (input) EFAULT :: int where "EFAULT \<equiv> 14"
abbreviation (input) EBUSY :: int where "EBUSY \<equiv> 16"
abbreviation (input) EEXIST :: int where "EEXIST \<equiv> 17"
abbreviation (input) ENODEV :: int where "ENODEV \<equiv> 19"
abbreviation (input) ENOTDIR :: int where "ENOTDIR \<equiv> 20"
abbreviation (input) EISDIR :: int where "EISDIR \<equiv> 21"
abbreviation (input) EINVAL :: int where "EINVAL \<equiv> 22"
abbreviation (input) EMFILE :: int where "EMFILE \<equiv> 24"
abbreviation (input) EFBIG :: int where "EFBIG \<equiv> 27"
abbreviation (input) EPIPE :: int where "EPIPE \<equiv> 32"
abbreviation (input) ENOSYS :: int where "ENOSYS \<equiv> 38"
abbreviation (input) ENOTEMPTY :: int where "ENOTEMPTY \<equiv> 39"

section \<open>Bits and bitmaps\<close>

named_theorems bitmap_simps \<open>rewriting of single bits of a byte bitmap\<close>

lemma and_push_bit_1_eq_0 [bitmap_simps]:
  fixes x :: "'a::len word"
  shows "x AND push_bit n 1 = 0 \<longleftrightarrow> \<not> bit x n"
  by (simp add: push_bit_of_1 and_exp_eq_0_iff_not_bit)

definition bm_bit :: "bytes \<Rightarrow> nat \<Rightarrow> bool" where
  "bm_bit bm i \<longleftrightarrow> bit (bm ! (i div 8)) (i mod 8)"

lemma bm_bit_set:
  assumes "i div 8 < length bm"
  shows "bm_bit (bm[i div 8 := bm ! (i div 8) OR push_bit (i mod 8) 1]) j \<longleftrightarrow> j = i \<or> bm_bit bm j"
proof (cases "j div 8 = i div 8")
  case True
  then have "j = i \<longleftrightarrow> j mod 8 = i mod 8" by (metis div_mult_mod_eq)
  moreover have "j mod 8 < 8" by simp
  ultimately show ?thesis
    using True assms by (auto simp: bm_bit_def bit_or_iff bit_push_bit_iff bit_1_iff simp del: push_bit_of_1)
next
  case False
  then show ?thesis by (auto simp: bm_bit_def)
qed

lemma bm_bit_clear:
  assumes "i div 8 < length bm"
  shows "bm_bit (bm[i div 8 := bm ! (i div 8) AND NOT (push_bit (i mod 8) 1)]) j
    \<longleftrightarrow> j \<noteq> i \<and> bm_bit bm j"
proof (cases "j div 8 = i div 8")
  case True
  then have "j = i \<longleftrightarrow> j mod 8 = i mod 8" by (metis div_mult_mod_eq)
  moreover have "j mod 8 < 8" by simp
  ultimately show ?thesis
    using True assms
    by (auto simp: bm_bit_def bit_and_iff bit_not_iff bit_push_bit_iff bit_1_iff simp del: push_bit_of_1)
next
  case False
  then show ?thesis by (auto simp: bm_bit_def)
qed

section \<open>Words and natural numbers\<close>

lemma unat_of_nat_small:
  "n < 2 ^ LENGTH('a) \<Longrightarrow> unat (of_nat n :: 'a::len word) = n"
  by (simp add: unat_of_nat take_bit_eq_mod)

lemma unat_mult_page:
  assumes "i < 2 ^ 52"
  shows "unat (of_nat i * 4096 :: u64) = i * 4096"
  using unat_of_nat_small [of "i * 4096", where 'a = 64] assms by simp

lemma unat_drop_bit:
  fixes w :: "'a::len word"
  shows "unat (drop_bit n w) = unat w div 2 ^ n"
  unfolding unat_drop_bit_eq by (rule drop_bit_eq_div)

text \<open>Rounding down to a multiple of a power of two, written with a mask as the C code does.\<close>

lemma and_not_mask_word:
  fixes a :: "'a::len word"
  shows "a AND NOT (mask n) = push_bit n (drop_bit n a)"
  by (rule bit_word_eqI) (auto simp: bit_simps)

lemma unat_and_not_mask:
  fixes a :: "'a::len word"
  shows "unat (a AND NOT (mask n)) = unat a div 2 ^ n * 2 ^ n"
proof -
  have "unat a div 2 ^ n * 2 ^ n \<le> unat a" by simp
  also have "unat a < 2 ^ LENGTH('a)" by (rule unsigned_less)
  finally show ?thesis
    unfolding and_not_mask_word unsigned_push_bit_eq unat_drop_bit
    by (simp add: take_bit_eq_mod push_bit_eq_mult)
qed

section \<open>Lists\<close>

lemma find_upt_Some:
  "find P [0..<n] = Some j \<longleftrightarrow> j < n \<and> P j \<and> (\<forall>k<j. \<not> P k)"
  by (auto simp: find_Some_iff)

lemma find_upt_None: "find P [0..<n] = None \<longleftrightarrow> (\<forall>j<n. \<not> P j)"
  by (auto simp: find_None_iff)

section \<open>Byte loops\<close>

text \<open>The byte-wise loops of the kernel over a flat memory: \<^verbatim>\<open>p[i] = v\<close>, \<^verbatim>\<open>d[i] = s[i]\<close> upwards,
  and \<^verbatim>\<open>*--d = *--s\<close> downwards.\<close>

type_synonym memory = "ptr \<Rightarrow> u8"

fun byte_fill :: "nat \<Rightarrow> ptr \<Rightarrow> u8 \<Rightarrow> memory \<Rightarrow> memory" where
  "byte_fill 0 p v m = m"
| "byte_fill (Suc n) p v m = byte_fill n (p + 1) v (m(p := v))"

fun byte_copy :: "nat \<Rightarrow> ptr \<Rightarrow> ptr \<Rightarrow> memory \<Rightarrow> memory" where
  "byte_copy 0 d s m = m"
| "byte_copy (Suc n) d s m = byte_copy n (d + 1) (s + 1) (m(d := m s))"

fun byte_copy_back :: "nat \<Rightarrow> ptr \<Rightarrow> ptr \<Rightarrow> memory \<Rightarrow> memory" where
  "byte_copy_back 0 d s m = m"
| "byte_copy_back (Suc n) d s m = byte_copy_back n d s (m(d + n := m (s + n)))"

lemma byte_fill_eq: "byte_fill n p v m a = (if p \<le> a \<and> a < p + n then v else m a)"
  by (induction n arbitrary: p m) auto

lemma byte_copy_eq:
  "d \<le> s \<or> s + n \<le> d \<Longrightarrow>
   byte_copy n d s m a = (if d \<le> a \<and> a < d + n then m (s + (a - d)) else m a)"
proof (induction n arbitrary: d s m)
  case (Suc n)
  have "byte_copy n (d + 1) (s + 1) (m(d := m s)) a =
      (if d + 1 \<le> a \<and> a < d + 1 + n then (m(d := m s)) (s + 1 + (a - (d + 1))) else (m(d := m s)) a)"
    using Suc.prems by (intro Suc.IH) auto
  moreover have "s + 1 + (a - (d + 1)) = s + (a - d)" if "d + 1 \<le> a" using that by simp
  moreover have "s + (a - d) \<noteq> d" if "d + 1 \<le> a" and "a < d + 1 + n" using that Suc.prems by auto
  ultimately show ?case by auto
qed auto

lemma byte_copy_back_eq:
  "s \<le> d \<or> d + n \<le> s \<Longrightarrow>
   byte_copy_back n d s m a = (if d \<le> a \<and> a < d + n then m (s + (a - d)) else m a)"
proof (induction n arbitrary: m)
  case (Suc n)
  have "byte_copy_back n d s (m(d + n := m (s + n))) a =
      (if d \<le> a \<and> a < d + n then (m(d + n := m (s + n))) (s + (a - d)) else (m(d + n := m (s + n))) a)"
    using Suc.prems by (intro Suc.IH) auto
  moreover have "s + (a - d) \<noteq> d + n" if "d \<le> a" and "a < d + n" using that Suc.prems by auto
  ultimately show ?case by (auto simp: less_Suc_eq)
qed auto

definition read_bytes :: "memory \<Rightarrow> ptr \<Rightarrow> nat \<Rightarrow> bytes" where
  "read_bytes m p n = map m [p..<p + n]"

lemma length_read_bytes [simp]: "length (read_bytes m p n) = n"
  by (simp add: read_bytes_def)

lemma nth_read_bytes [simp]: "i < n \<Longrightarrow> read_bytes m p n ! i = m (p + i)"
  by (simp add: read_bytes_def)

lemma read_bytes_cong:
  "(\<And>a. p \<le> a \<Longrightarrow> a < p + n \<Longrightarrow> m a = m' a) \<Longrightarrow> read_bytes m p n = read_bytes m' p n"
  by (simp add: read_bytes_def)

section \<open>Step relations\<close>

text \<open>A property that holds initially and that every step keeps holds in every reachable state.\<close>

locale safe_system =
  fixes init :: "'s \<Rightarrow> bool" and step :: "'s \<Rightarrow> 's \<Rightarrow> bool" and inv :: "'s \<Rightarrow> bool"
  assumes inv_init: "init s \<Longrightarrow> inv s"
    and inv_step: "inv s \<Longrightarrow> step s t \<Longrightarrow> inv t"
begin

lemma inv_reachable:
  assumes "step\<^sup>*\<^sup>* s t" and "init s"
  shows "inv t"
  using assms by (induction rule: rtranclp_induct) (auto intro: inv_init inv_step)

end

text \<open>A small number survives the conversion to \<^verbatim>\<open>int\<close>.\<close>

lemma sint_of_small: "n < 2 ^ 31 \<Longrightarrow> sint (of_nat n :: u32) = int n"
  by (simp add: sint_uint uint_nat unat_of_nat signed_take_bit_int_eq_self take_bit_nat_eq_self take_bit_int_eq_self)

lemma sint_ucast_small: "unat w < 2 ^ 31 \<Longrightarrow> sint (ucast (w :: u64) :: u32) = int (unat w)"
  using sint_of_small [of "unat w"] by (simp only: of_nat_unat)

end
