(* ===== verification/Linked_List.thy ===== *)
theory Linked_List
  imports Prelude
begin

text \<open>
  Doubly linked lists threaded through a store: the shape of the free list of
  \<^verbatim>\<open>kernel/mm/kmalloc.c\<close> and of the run queue of \<^verbatim>\<open>kernel/sched/sched.c\<close>. The predicate
  \<open>dll nx pv prev x xs lst e\<close> says that following \<open>nx\<close> from \<open>x\<close> visits exactly the
  addresses \<open>xs\<close> and then reaches \<open>e\<close>, that \<open>pv\<close> points one step back everywhere, with
  \<open>prev\<close> before the first, and that \<open>lst\<close> is the last address visited. The lemmas say what
  the pointer updates of the code do to the list.
\<close>

section \<open>The list predicate\<close>

fun dll :: "(ptr \<Rightarrow> ptr) \<Rightarrow> (ptr \<Rightarrow> ptr) \<Rightarrow> ptr \<Rightarrow> ptr \<Rightarrow> ptr list \<Rightarrow> ptr \<Rightarrow> ptr \<Rightarrow> bool" where
  "dll nx pv prev x [] lst e \<longleftrightarrow> x = e \<and> lst = prev"
| "dll nx pv prev x (a # as) lst e \<longleftrightarrow> x = a \<and> a \<noteq> NULL \<and> pv a = prev \<and> dll nx pv a (nx a) as lst e"

named_theorems dll_intros \<open>how the pointer updates of the code change a doubly linked list\<close>

lemma dll_append [simp]:
  "dll nx pv prev x (as @ bs) lst e \<longleftrightarrow> (\<exists>m y. dll nx pv prev x as m y \<and> dll nx pv m y bs lst e)"
  by (induction as arbitrary: prev x) auto

lemma dll_cong:
  "\<lbrakk> \<And>a. a \<in> set xs \<Longrightarrow> nx a = nx' a; \<And>a. a \<in> set xs \<Longrightarrow> pv a = pv' a \<rbrakk>
   \<Longrightarrow> dll nx pv prev x xs lst e = dll nx' pv' prev x xs lst e"
  by (induction xs arbitrary: prev x) auto

lemma dll_last: "dll nx pv prev x xs lst e \<Longrightarrow> lst = (if xs = [] then prev else last xs)"
  by (induction xs arbitrary: prev x) auto

lemma dll_first: "dll nx pv prev x xs lst e \<Longrightarrow> x = (if xs = [] then e else hd xs)"
  by (cases xs) auto

lemma dll_nonnull: "dll nx pv prev x xs lst e \<Longrightarrow> a \<in> set xs \<Longrightarrow> a \<noteq> NULL"
  by (induction xs arbitrary: prev x) auto

lemma dll_next:
  "dll nx pv prev x (us @ b # vs) lst e \<Longrightarrow> nx b = (if vs = [] then e else hd vs)"
  by (auto simp del: dll.simps(2) dest!: dll_first [of _ _ _ "nx b"]) (auto dest: dll_first)

lemma dll_prev:
  "dll nx pv prev x (us @ b # vs) lst e \<Longrightarrow> pv b = (if us = [] then prev else last us)"
  by (auto dest: dll_last)

lemma dll_change_end:
  assumes "dll nx pv prev x us m e" and "us \<noteq> []" and "distinct us"
    and "\<And>a. a \<in> set us \<Longrightarrow> nx' a = (if a = m then e' else nx a)"
    and "\<And>a. a \<in> set us \<Longrightarrow> pv' a = pv a"
  shows "dll nx' pv' prev x us m e'"
  using assms
proof (induction us arbitrary: prev x)
  case (Cons a us)
  show ?case
  proof (cases "us = []")
    case True
    with Cons.prems show ?thesis by simp
  next
    case False
    have "m = last us" using Cons.prems(1) False by (auto dest: dll_last)
    then have "a \<noteq> m" using Cons.prems(3) False by auto
    moreover have "dll nx' pv' a (nx a) us m e'"
      using Cons.prems False by (intro Cons.IH) auto
    ultimately show ?thesis using Cons.prems by simp
  qed
qed simp

lemma dll_change_start:
  assumes "dll nx pv prev x vs lst e" and "distinct vs"
    and "\<And>a. a \<in> set vs \<Longrightarrow> nx' a = nx a"
    and "\<And>a. a \<in> set vs \<Longrightarrow> pv' a = (if a = x then prev' else pv a)"
  shows "dll nx' pv' prev' x vs (if vs = [] then prev' else lst) e"
proof (cases vs)
  case (Cons a as)
  have "dll nx' pv' a (nx a) as lst e = dll nx pv a (nx a) as lst e"
    using assms Cons by (intro dll_cong) auto
  then show ?thesis using assms Cons by auto
qed (use assms in simp)

section \<open>The updates of the code\<close>

text \<open>Unlinking: the neighbours of \<open>b\<close> are joined.\<close>

lemma dll_unlink [dll_intros]:
  assumes l: "dll nx pv NULL x (us @ b # vs) lst NULL" and d: "distinct (us @ b # vs)"
    and nx': "\<And>a. a \<in> set (us @ vs) \<Longrightarrow> nx' a = (if a = pv b then nx b else nx a)"
    and pv': "\<And>a. a \<in> set (us @ vs) \<Longrightarrow> pv' a = (if a = nx b then pv b else pv a)"
  shows "dll nx' pv' NULL (if pv b = NULL then nx b else x) (us @ vs)
           (if nx b = NULL then pv b else lst) NULL"
proof -
  let ?m = "pv b" and ?y = "nx b"
  from l obtain y where us: "dll nx pv NULL x us ?m y" "y = b" and b: "b \<noteq> NULL"
    and vs: "dll nx pv b ?y vs lst NULL" by auto
  have m: "?m = (if us = [] then NULL else last us)" using us(1) by (rule dll_last)
  have y: "?y = (if vs = [] then NULL else hd vs)" using vs by (rule dll_first)
  have mn: "?m = NULL \<longleftrightarrow> us = []" using m dll_nonnull [OF us(1)] by auto
  have yn: "?y = NULL \<longleftrightarrow> vs = []" using y dll_nonnull [OF vs] by auto
  have yus: "?y \<notin> set us" using d y dll_nonnull [OF us(1)] by (auto split: if_splits)
  have mvs: "?m \<notin> set vs" 
  proof (cases "us = []")
    case False
    then have "?m \<in> set us" using m by simp
    with d show ?thesis by auto
  qed (use m dll_nonnull [OF vs] in auto)
  have pvus: "pv' a = pv a" if "a \<in> set us" for a using pv' [of a] that yus by auto
  have nxus: "nx' a = (if a = ?m then ?y else nx a)" if "a \<in> set us" for a using nx' [of a] that by auto
  have nxvs: "nx' a = nx a" if "a \<in> set vs" for a using nx' [of a] that mvs by auto
  have pvvs: "pv' a = (if a = ?y then ?m else pv a)" if "a \<in> set vs" for a using pv' [of a] that by auto
  have V: "dll nx' pv' ?m ?y vs (if vs = [] then ?m else lst) NULL"
    using d nxvs pvvs by (intro dll_change_start [OF vs]) auto
  show ?thesis
  proof (cases "us = []")
    case True
    with V mn yn show ?thesis by auto
  next
    case False
    have "dll nx' pv' NULL x us ?m ?y"
      using False d nxus pvus by (intro dll_change_end [OF us(1)]) auto
    with V have "dll nx' pv' NULL x (us @ vs) (if vs = [] then ?m else lst) NULL"
      unfolding dll_append by blast
    with False mn yn show ?thesis by (simp only: if_False split: if_split)
  qed
qed

text \<open>Pushing \<open>b\<close> in front of the list.\<close>

lemma dll_push_front [dll_intros]:
  assumes l: "dll nx pv NULL x xs lst NULL" and d: "distinct xs" and b: "b \<noteq> NULL" "b \<notin> set xs"
    and "nx' b = x" and "pv' b = NULL"
    and nx': "\<And>a. a \<in> set xs \<Longrightarrow> nx' a = nx a"
    and pv': "\<And>a. a \<in> set xs \<Longrightarrow> pv' a = (if a = x then b else pv a)"
  shows "dll nx' pv' NULL b (b # xs) (if xs = [] then b else lst) NULL"
  using dll_change_start [OF l d nx' pv'] assms by auto

text \<open>Appending \<open>t\<close> behind the last element.\<close>

lemma dll_snoc [dll_intros]:
  assumes l: "dll nx pv NULL x xs lst NULL" and d: "distinct xs" and t: "t \<noteq> NULL" "t \<notin> set xs"
    and "nx' t = NULL" and "pv' t = lst"
    and nx': "\<And>a. a \<in> set xs \<Longrightarrow> nx' a = (if a = lst then t else nx a)"
    and pv': "\<And>a. a \<in> set xs \<Longrightarrow> pv' a = pv a"
  shows "dll nx' pv' NULL (if xs = [] then t else x) (xs @ [t]) t NULL"
proof (cases "xs = []")
  case True
  then show ?thesis using assms by auto
next
  case False
  have "dll nx' pv' NULL x xs lst t" using l False d nx' pv' by (rule dll_change_end)
  then show ?thesis using assms False by auto
qed

text \<open>Inserting \<open>c\<close> directly behind \<open>b\<close>.\<close>

lemma dll_insert_after [dll_intros]:
  assumes l: "dll nx pv NULL x (us @ b # vs) lst NULL" and d: "distinct (us @ b # vs)"
    and c: "c \<noteq> NULL" "c \<notin> set (us @ b # vs)"
    and "nx' c = nx b" and "pv' c = b"
    and nx': "\<And>a. a \<in> set (us @ b # vs) \<Longrightarrow> nx' a = (if a = b then c else nx a)"
    and pv': "\<And>a. a \<in> set (us @ b # vs) \<Longrightarrow> pv' a = (if a = nx b then c else pv a)"
  shows "dll nx' pv' NULL x (us @ b # c # vs) (if vs = [] then c else lst) NULL"
proof -
  from l obtain m where us: "dll nx pv NULL x us m b" and b: "b \<noteq> NULL" "pv b = m"
    and vs: "dll nx pv b (nx b) vs lst NULL" by auto
  have y: "nx b = (if vs = [] then NULL else hd vs)" using vs by (rule dll_first)
  have nbus: "nx b \<notin> set (us @ [b])"
    using d y dll_nonnull [OF us] b(1) by (auto split: if_splits)
  have "dll nx' pv' NULL x us m b = dll nx pv NULL x us m b"
    using nx' pv' nbus d by (intro dll_cong) auto
  moreover have "dll nx' pv' c (nx b) vs (if vs = [] then c else lst) NULL"
    using d nx' pv' by (intro dll_change_start [OF vs]) auto
  moreover have "nx' b = c" using nx' [of b] by simp
  moreover have "pv' b = m" using pv' [of b] b nbus by auto
  ultimately show ?thesis using assms(5,6) us b c by auto
qed

section \<open>Singly linked lists\<close>

text \<open>\<open>slist nx x xs\<close>: following \<open>nx\<close> from \<open>x\<close> visits exactly \<open>xs\<close> and ends in \<^verbatim>\<open>NULL\<close>.\<close>

fun slist :: "(ptr \<Rightarrow> ptr) \<Rightarrow> ptr \<Rightarrow> ptr list \<Rightarrow> bool" where
  "slist nx x [] \<longleftrightarrow> x = NULL"
| "slist nx x (a # as) \<longleftrightarrow> x = a \<and> a \<noteq> NULL \<and> slist nx (nx a) as"

lemma slist_cong: "(\<And>a. a \<in> set xs \<Longrightarrow> nx a = nx' a) \<Longrightarrow> slist nx x xs = slist nx' x xs"
  by (induction xs arbitrary: x) auto

lemma slist_upd [simp]: "b \<notin> set xs \<Longrightarrow> slist (nx(b := v)) x xs = slist nx x xs"
  by (rule slist_cong) auto

lemma slist_NULL [simp]: "slist nx NULL xs \<longleftrightarrow> xs = []"
  by (cases xs) auto

lemma slist_unique: "slist nx x xs \<Longrightarrow> slist nx x ys \<Longrightarrow> xs = ys"
proof (induction xs arbitrary: x ys)
  case Nil
  then show ?case by (cases ys) auto
next
  case (Cons a xs)
  then show ?case by (cases ys) auto
qed

lemma slist_nonnull: "slist nx x xs \<Longrightarrow> a \<in> set xs \<Longrightarrow> a \<noteq> NULL"
  by (induction xs arbitrary: x) auto

lemma slist_append: "slist nx x (as @ bs) \<Longrightarrow> \<exists>y. slist nx y bs"
  by (induction as arbitrary: x) auto

lemma slist_distinct: "slist nx x xs \<Longrightarrow> distinct xs"
proof (induction xs arbitrary: x)
  case (Cons a xs)
  have "a \<notin> set xs"
  proof
    assume "a \<in> set xs"
    then obtain us vs where s: "xs = us @ a # vs" by (meson split_list)
    then have "slist nx (nx a) (us @ a # vs)" using Cons.prems by simp
    then obtain y where "slist nx y (a # vs)" using slist_append by blast
    then have "slist nx (nx a) vs" by simp
    with Cons.prems s have "vs = us @ a # vs" by (auto dest: slist_unique)
    then have "length vs = length (us @ a # vs)" by simp
    then show False by simp
  qed
  with Cons show ?case by auto
qed simp

lemma slist_remove_first: "slist nx x (t # vs) \<Longrightarrow> slist nx (nx t) vs"
  by simp

lemma slist_remove:
  assumes "slist nx x (us @ t # vs)" and "us \<noteq> []"
  shows "slist (nx(last us := nx t)) x (us @ vs)"
proof -
  have d: "distinct (us @ t # vs)" by (rule slist_distinct [OF assms(1)])
  show ?thesis using assms d
  proof (induction us arbitrary: x)
    case (Cons a us)
    show ?case
    proof (cases "us = []")
      case True
      then have v: "a \<notin> set vs" using Cons.prems by auto
      have "slist (nx(a := nx t)) (nx t) vs = slist nx (nx t) vs" by (rule slist_upd [OF v])
      then show ?thesis using Cons.prems(1) True by (simp add: fun_upd_def)
    next
      case False
      then have "slist (nx(last us := nx t)) (nx a) (us @ vs)" using Cons by (simp add: fun_upd_def)
      moreover have "last us \<noteq> a" using Cons.prems(3) False last_in_set [OF False] by auto
      ultimately show ?thesis using Cons.prems(1) False by (simp add: fun_upd_def)
    qed
  qed simp
qed

end
