(* ===== verification/Kmalloc.thy ===== *)
theory Kmalloc
  imports Linked_List
begin

text \<open>
  The kernel heap, \<^verbatim>\<open>kernel/mm/kmalloc.c\<close>: first-fit allocation from one doubly linked free
  list, splitting on allocation and merging with the next physical block on release. Block
  headers and payload bytes are two stores over the same addresses (\<open>hdrs\<close> gives the header
  at an address, \<open>mem\<close> the byte), which is what the code sees as long as nobody writes
  outside a block of their own. Block sizes are natural numbers; the counters keep their
  64-bit width. Each operation is one critical section of \<^verbatim>\<open>heap_lock\<close> and is modelled as
  one step. The free-list walk of \<^verbatim>\<open>_kmalloc\<close> may not end on a corrupted list, so
  allocation returns an \<^typ>\<open>'a option\<close> and \<^term>\<open>None\<close> is a walk that does not end.
\<close>

section \<open>State\<close>

record block_header =
  bh_size :: nat
  bh_magic :: u32
  bh_flags :: u32
  bh_owner :: int
  bh_next :: ptr
  bh_prev :: ptr

definition HEAP_SIZE :: nat where "HEAP_SIZE = 128 * 1024 * 1024"
definition MIN_ALLOC :: u64 where "MIN_ALLOC = 32"
definition MAX_ALLOC :: u64 where "MAX_ALLOC = 32 * 1024 * 1024"
definition HEAP_BASE :: ptr where "HEAP_BASE = 0x42000000"
definition BLOCK_MAGIC_FREE :: u32 where "BLOCK_MAGIC_FREE = 0xDEADBEEF"
definition BLOCK_MAGIC_USED :: u32 where "BLOCK_MAGIC_USED = 0xCAFEBABE"
definition BLOCK_FLAG_FREE :: u32 where "BLOCK_FLAG_FREE = 1"
definition GFP_KERNEL :: u32 where "GFP_KERNEL = 0"
definition GFP_ZERO :: u32 where "GFP_ZERO = 2"

text \<open>\<^verbatim>\<open>sizeof(struct block_header)\<close> on the 64-bit targets.\<close>

definition HDR :: nat where "HDR = 40"

text \<open>\<open>heap_region\<close> is the build-time location of the heap: \<^verbatim>\<open>HEAP_BASE\<close>, or the static
  \<^verbatim>\<open>x86_64_heap_storage\<close> array on x86-64.\<close>

record kheap =
  heap_region :: ptr
  heap_start :: ptr
  heap_end :: ptr
  free_list :: ptr
  heap_total :: u64
  heap_used :: u64
  heap_initialized :: bool
  hdrs :: "ptr \<Rightarrow> block_header"
  mem :: memory

definition upd_hdr :: "ptr \<Rightarrow> (block_header \<Rightarrow> block_header) \<Rightarrow> kheap \<Rightarrow> kheap" where
  "upd_hdr b f h = h\<lparr>hdrs := (hdrs h)(b := f (hdrs h b))\<rparr>"

abbreviation "set_next b v \<equiv> upd_hdr b (bh_next_update (\<lambda>_. v))"
abbreviation "set_prev b v \<equiv> upd_hdr b (bh_prev_update (\<lambda>_. v))"
abbreviation "bsize h b \<equiv> bh_size (hdrs h b)"
abbreviation "bmagic h b \<equiv> bh_magic (hdrs h b)"
abbreviation "bnext h b \<equiv> bh_next (hdrs h b)"
abbreviation "bprev h b \<equiv> bh_prev (hdrs h b)"

section \<open>Helper functions\<close>

definition align_up :: "u64 \<Rightarrow> u64 \<Rightarrow> u64" where
  "align_up val align = (val + align - 1) AND NOT (align - 1)"

definition block_data :: "ptr \<Rightarrow> ptr" where "block_data block = block + HDR"

definition data_to_block :: "ptr \<Rightarrow> ptr" where "data_to_block p = p - HDR"

text \<open>\<^verbatim>\<open>kfree_block_locked\<close> in its two halves: marking the block free and pushing it on the free
  list, then merging it with the next physical block if that one is free.\<close>

definition push_free :: "ptr \<Rightarrow> kheap \<Rightarrow> kheap" where
  "push_free block h =
     (let h = h\<lparr>heap_used := heap_used h - of_nat (bsize h block)\<rparr>;
          h = upd_hdr block (\<lambda>b. b\<lparr>bh_magic := BLOCK_MAGIC_FREE, bh_flags := BLOCK_FLAG_FREE, bh_owner := 0,
                               bh_next := free_list h, bh_prev := NULL\<rparr>) h;
          h = (if free_list h \<noteq> NULL then set_prev (free_list h) block h else h)
      in h\<lparr>free_list := block\<rparr>)"

definition coalesce_next :: "ptr \<Rightarrow> kheap \<Rightarrow> kheap" where
  "coalesce_next block h =
     (let next_physical = block + bsize h block
      in if next_physical < heap_end h \<and> bmagic h next_physical = BLOCK_MAGIC_FREE then
           (let h = (if bprev h next_physical \<noteq> NULL
                     then set_next (bprev h next_physical) (bnext h next_physical) h
                     else h\<lparr>free_list := bnext h next_physical\<rparr>);
                h = (if bnext h next_physical \<noteq> NULL
                     then set_prev (bnext h next_physical) (bprev h next_physical) h
                     else h);
                h = upd_hdr block (bh_size_update (\<lambda>s. s + bsize h next_physical)) h
            in upd_hdr next_physical (\<lambda>b. b\<lparr>bh_magic := 0, bh_owner := 0\<rparr>) h)
         else h)"

definition kfree_block_locked :: "ptr \<Rightarrow> kheap \<Rightarrow> kheap" where
  "kfree_block_locked block h = coalesce_next block (push_free block h)"

section \<open>Initialisation\<close>

definition kmalloc_init :: "kheap \<Rightarrow> kheap" where
  "kmalloc_init h =
     (let h = h\<lparr>heap_start := heap_region h, heap_end := heap_region h + HEAP_SIZE,
                heap_total := of_nat HEAP_SIZE, heap_used := 0, free_list := heap_region h\<rparr>;
          h = upd_hdr (free_list h)
                (\<lambda>_. \<lparr>bh_size = HEAP_SIZE, bh_magic = BLOCK_MAGIC_FREE, bh_flags = BLOCK_FLAG_FREE,
                      bh_owner = 0, bh_next = NULL, bh_prev = NULL\<rparr>) h
      in h\<lparr>heap_initialized := True\<rparr>)"

section \<open>Allocation\<close>

datatype fit = Corrupted | Fit ptr ptr

text \<open>The first-fit loop; \<open>Fit NULL _\<close> when the list ends without a suitable block.\<close>

partial_function (option) find_fit :: "kheap \<Rightarrow> nat \<Rightarrow> ptr \<Rightarrow> ptr \<Rightarrow> fit option" where
  "find_fit h total_size block prev_free =
     (if block = NULL then Some (Fit NULL prev_free)
      else if bmagic h block \<noteq> BLOCK_MAGIC_FREE then Some Corrupted
      else if bsize h block \<ge> total_size then Some (Fit block prev_free)
      else find_fit h total_size (bnext h block) block)"

definition split_block :: "ptr \<Rightarrow> nat \<Rightarrow> kheap \<Rightarrow> kheap" where
  "split_block block total_size h =
     (if bsize h block \<ge> total_size + HDR + unat MIN_ALLOC then
        (let new_block = block + total_size;
             h = upd_hdr new_block
                   (\<lambda>_. \<lparr>bh_size = bsize h block - total_size, bh_magic = BLOCK_MAGIC_FREE,
                         bh_flags = BLOCK_FLAG_FREE, bh_owner = 0,
                         bh_next = bnext h block, bh_prev = block\<rparr>) h;
             h = (if bnext h block \<noteq> NULL then set_prev (bnext h block) new_block h else h)
         in upd_hdr block (\<lambda>b. b\<lparr>bh_size := total_size, bh_next := new_block\<rparr>) h)
      else h)"

definition take_block :: "ptr \<Rightarrow> ptr \<Rightarrow> kheap \<Rightarrow> kheap" where
  "take_block block prev_free h =
     (let h = (if prev_free \<noteq> NULL then set_next prev_free (bnext h block) h
               else h\<lparr>free_list := bnext h block\<rparr>);
          h = (if bnext h block \<noteq> NULL then set_prev (bnext h block) prev_free h else h);
          h = upd_hdr block (\<lambda>b. b\<lparr>bh_magic := BLOCK_MAGIC_USED, bh_flags := 0, bh_owner := 0,
                                     bh_next := NULL\<rparr>) h
      in h\<lparr>heap_used := heap_used h + of_nat (bsize h block)\<rparr>)"

definition kmalloc :: "u64 \<Rightarrow> u32 \<Rightarrow> kheap \<Rightarrow> (ptr \<times> kheap) option" where
  "kmalloc sz flags h =
     (let h = (if \<not> heap_initialized h then kmalloc_init h else h) in
      if \<not> heap_initialized h then Some (NULL, h)
      else if sz = 0 \<or> sz > MAX_ALLOC then Some (NULL, h)
      else
        (let total_size = unat (align_up (sz + of_nat HDR) MIN_ALLOC) in
         case find_fit h total_size (free_list h) NULL of
           None \<Rightarrow> None
         | Some Corrupted \<Rightarrow> Some (NULL, h)
         | Some (Fit block prev_free) \<Rightarrow>
             if block = NULL then Some (NULL, h)
             else
               (let h = take_block block prev_free (split_block block total_size h);
                    p = block_data block
                in Some (p, if flags AND GFP_ZERO \<noteq> 0
                            then h\<lparr>mem := byte_fill (unat sz) p 0 (mem h)\<rparr> else h))))"

definition kzalloc :: "u64 \<Rightarrow> u32 \<Rightarrow> kheap \<Rightarrow> (ptr \<times> kheap) option" where
  "kzalloc sz flags h = kmalloc sz (flags OR GFP_ZERO) h"

section \<open>Deallocation\<close>

definition kfree :: "ptr \<Rightarrow> kheap \<Rightarrow> kheap" where
  "kfree p h =
     (if p = NULL then h
      else let block = data_to_block p in
        if bmagic h block \<noteq> BLOCK_MAGIC_USED then h
        else kfree_block_locked block h)"

definition kmalloc_set_owner :: "ptr \<Rightarrow> int \<Rightarrow> kheap \<Rightarrow> int \<times> kheap" where
  "kmalloc_set_owner p own h = (0, h)"

definition kmalloc_collect_owner :: "int \<Rightarrow> kheap \<Rightarrow> u64 \<times> kheap" where
  "kmalloc_collect_owner own h = (0, h)"

section \<open>Reallocation\<close>

definition krealloc :: "ptr \<Rightarrow> u64 \<Rightarrow> u32 \<Rightarrow> kheap \<Rightarrow> (ptr \<times> kheap) option" where
  "krealloc p new_size flags h =
     (if p = NULL then kmalloc new_size flags h
      else if new_size = 0 then Some (NULL, kfree p h)
      else
        (let block = data_to_block p;
             old_size = of_nat (bsize h block) - of_nat HDR;
             old_owner = bh_owner (hdrs h block)
         in if new_size \<le> old_size then Some (p, h)
            else (case kmalloc new_size flags h of
                    None \<Rightarrow> None
                  | Some (new_ptr, h) \<Rightarrow>
                      if new_ptr = NULL then Some (NULL, h)
                      else
                        (let h = snd (kmalloc_set_owner new_ptr old_owner h);
                             h = h\<lparr>mem := byte_copy (unat old_size) new_ptr p (mem h)\<rparr>
                         in Some (new_ptr, kfree p h)))))"

section \<open>Statistics\<close>

definition kmalloc_get_stats :: "kheap \<Rightarrow> u64 \<times> u64 \<times> u64" where
  "kmalloc_get_stats h = (heap_total h, heap_used h, heap_total h - heap_used h)"

section \<open>The physical block list\<close>

text \<open>The blocks in address order, found by adding sizes from the start of the heap.\<close>

function phys_walk :: "(ptr \<Rightarrow> block_header) \<Rightarrow> ptr \<Rightarrow> ptr \<Rightarrow> ptr list" where
  "phys_walk hs a e =
     (if a < e \<and> 0 < bh_size (hs a) then a # phys_walk hs (a + bh_size (hs a)) e else [])"
  by pat_completeness auto
termination
  by (relation "measure (\<lambda>(hs, a, e). e - a)") auto

declare phys_walk.simps [simp del]

definition blocks :: "kheap \<Rightarrow> ptr list" where
  "blocks h = phys_walk (hdrs h) (heap_start h) (heap_end h)"

text \<open>\<open>tiled hs a bs e\<close>: the blocks \<open>bs\<close> tile the addresses from \<open>a\<close> to \<open>e\<close> without a gap, and
  every size is a positive multiple of the allocation granule that leaves room for a header.\<close>

fun tiled :: "(ptr \<Rightarrow> block_header) \<Rightarrow> ptr \<Rightarrow> ptr list \<Rightarrow> ptr \<Rightarrow> bool" where
  "tiled hs a [] e \<longleftrightarrow> a = e"
| "tiled hs a (b # bs) e \<longleftrightarrow>
     b = a \<and> 64 \<le> bh_size (hs b) \<and> 32 dvd bh_size (hs b) \<and> tiled hs (a + bh_size (hs b)) bs e"

definition used_bytes :: "(ptr \<Rightarrow> block_header) \<Rightarrow> ptr list \<Rightarrow> nat" where
  "used_bytes hs bs = sum_list (map (\<lambda>b. bh_size (hs b)) (filter (\<lambda>b. bh_magic (hs b) = BLOCK_MAGIC_USED) bs))"

text \<open>The representation invariant, with the physical block list and the free list exposed.\<close>

definition heap_wf :: "kheap \<Rightarrow> ptr list \<Rightarrow> ptr list \<Rightarrow> bool" where
  "heap_wf h bs fs \<longleftrightarrow>
     heap_initialized h \<and> 0 < heap_start h
     \<and> heap_total h = of_nat (heap_end h - heap_start h) \<and> heap_end h - heap_start h < 2 ^ 64
     \<and> tiled (hdrs h) (heap_start h) bs (heap_end h)
     \<and> (\<forall>b \<in> set bs. bmagic h b = BLOCK_MAGIC_FREE \<or> bmagic h b = BLOCK_MAGIC_USED)
     \<and> (\<exists>lst. dll (bnext h) (bprev h) NULL (free_list h) fs lst NULL)
     \<and> distinct fs \<and> set fs = {b \<in> set bs. bmagic h b = BLOCK_MAGIC_FREE}
     \<and> heap_used h = of_nat (used_bytes (hdrs h) bs)"

definition heap_inv :: "kheap \<Rightarrow> bool" where
  "heap_inv h \<longleftrightarrow> (\<exists>fs. heap_wf h (blocks h) fs)"

text \<open>The abstract view of the heap: which payloads are live, and how long they are.\<close>

definition live_of :: "(ptr \<Rightarrow> block_header) \<Rightarrow> ptr list \<Rightarrow> ptr \<rightharpoonup> nat" where
  "live_of hs bs p =
     (if HDR \<le> p \<and> p - HDR \<in> set bs \<and> bh_magic (hs (p - HDR)) = BLOCK_MAGIC_USED
      then Some (bh_size (hs (p - HDR)) - HDR) else None)"

definition live :: "kheap \<Rightarrow> ptr \<rightharpoonup> nat" where
  "live h = live_of (hdrs h) (blocks h)"

lemma magic_distinct [simp]: "BLOCK_MAGIC_FREE \<noteq> BLOCK_MAGIC_USED" "BLOCK_MAGIC_USED \<noteq> BLOCK_MAGIC_FREE"
  "0 \<noteq> BLOCK_MAGIC_FREE" "0 \<noteq> BLOCK_MAGIC_USED"
  by (simp_all add: BLOCK_MAGIC_FREE_def BLOCK_MAGIC_USED_def)

lemma tiled_append:
  "tiled hs a (xs @ ys) e \<longleftrightarrow> (\<exists>m. tiled hs a xs m \<and> tiled hs m ys e)"
  by (induction xs arbitrary: a) auto

lemma tiled_cong:
  "(\<And>b. b \<in> set bs \<Longrightarrow> bh_size (hs b) = bh_size (hs' b)) \<Longrightarrow> tiled hs a bs e = tiled hs' a bs e"
  by (induction bs arbitrary: a) auto

lemma tiled_le: "tiled hs a bs e \<Longrightarrow> a \<le> e"
  by (induction bs arbitrary: a) (auto dest!: add_leD1)

lemma tiled_bounds:
  "tiled hs a bs e \<Longrightarrow> b \<in> set bs \<Longrightarrow> a \<le> b \<and> b + bh_size (hs b) \<le> e \<and> 64 \<le> bh_size (hs b)"
proof (induction bs arbitrary: a)
  case (Cons c bs)
  then have t: "tiled hs (a + bh_size (hs c)) bs e" by auto
  show ?case
  proof (cases "b = c")
    case True
    then show ?thesis using Cons.prems tiled_le [OF t] by auto
  next
    case False
    then show ?thesis using Cons.IH [OF t] Cons.prems by auto
  qed
qed simp

lemma tiled_distinct: "tiled hs a bs e \<Longrightarrow> distinct bs"
proof (induction bs arbitrary: a)
  case (Cons c bs)
  then have "tiled hs (a + bh_size (hs c)) bs e" "64 \<le> bh_size (hs c)" "c = a" by auto
  then have "c \<notin> set bs" using tiled_bounds by fastforce
  with Cons show ?case by auto
qed simp

lemma tiled_apart:
  assumes "tiled hs a bs e" and "b \<in> set bs" and "c \<in> set bs" and "b < c"
  shows "b + bh_size (hs b) \<le> c"
  using assms
proof (induction bs arbitrary: a)
  case (Cons d bs)
  have t: "tiled hs (a + bh_size (hs d)) bs e" and d: "d = a" using Cons.prems by auto
  show ?case
  proof (cases "b = d")
    case True
    then have "c \<in> set bs" using Cons.prems by auto
    then show ?thesis using tiled_bounds [OF t] True d by auto
  next
    case False
    then have "b \<in> set bs" using Cons.prems by auto
    moreover have "c \<noteq> d" using tiled_bounds [OF t \<open>b \<in> set bs\<close>] Cons.prems(4) d by auto
    ultimately show ?thesis using Cons.IH [OF t] Cons.prems by auto
  qed
qed simp

lemma tiled_phys_walk: "tiled hs a bs e \<Longrightarrow> phys_walk hs a e = bs"
proof (induction bs arbitrary: a)
  case Nil
  then show ?case by (simp add: phys_walk.simps)
next
  case (Cons b bs)
  then have "a < e" using tiled_bounds [OF Cons.prems, of b] by auto
  with Cons show ?case by (subst phys_walk.simps) auto
qed

lemma heap_wf_blocks: "heap_wf h bs fs \<Longrightarrow> blocks h = bs"
  unfolding heap_wf_def blocks_def by (blast intro: tiled_phys_walk)

lemma heap_wf_inv: "heap_wf h bs fs \<Longrightarrow> heap_inv h"
  using heap_wf_blocks [of h bs fs] by (auto simp: heap_inv_def)

lemma heap_wf_live: "heap_wf h bs fs \<Longrightarrow> live h = live_of (hdrs h) bs"
  by (simp add: live_def heap_wf_blocks)

lemma total_size_eq:
  assumes "sz \<le> MAX_ALLOC"
  shows "unat (align_up (sz + of_nat HDR) MIN_ALLOC) = (unat sz + 71) div 32 * 32"
proof -
  have sz: "unat sz \<le> 33554432" using assms by (simp add: MAX_ALLOC_def word_le_nat_alt)
  have "unat (sz + of_nat HDR + MIN_ALLOC - 1) = unat sz + 71"
  proof -
    have "sz + of_nat HDR + MIN_ALLOC - 1 = of_nat (unat sz + 71)"
      by (simp add: HDR_def MIN_ALLOC_def)
    moreover have "unat (of_nat (unat sz + 71) :: u64) = unat sz + 71"
      using sz by (intro unat_of_nat_small) simp
    ultimately show ?thesis by (simp only:)
  qed
  moreover have "MIN_ALLOC - 1 = mask 5" by (simp add: MIN_ALLOC_def mask_eq_exp_minus_1)
  ultimately show ?thesis
    unfolding align_up_def by (simp add: unat_and_not_mask)
qed

section \<open>Allocation keeps the invariant\<close>

lemma upd_hdr_simps [simp]:
  "hdrs (upd_hdr b f h) = (hdrs h)(b := f (hdrs h b))"
  "heap_start (upd_hdr b f h) = heap_start h" "heap_end (upd_hdr b f h) = heap_end h"
  "free_list (upd_hdr b f h) = free_list h" "heap_total (upd_hdr b f h) = heap_total h"
  "heap_used (upd_hdr b f h) = heap_used h" "heap_region (upd_hdr b f h) = heap_region h"
  "heap_initialized (upd_hdr b f h) = heap_initialized h" "mem (upd_hdr b f h) = mem h"
  by (simp_all add: upd_hdr_def)

lemma find_fit_spec:
  assumes "dll (bnext h) (bprev h) prev x fs lst NULL" and "\<forall>b \<in> set fs. bmagic h b = BLOCK_MAGIC_FREE"
  shows "(\<exists>us b vs. fs = us @ b # vs \<and> tsz \<le> bsize h b \<and> (\<forall>u \<in> set us. bsize h u < tsz)
            \<and> find_fit h tsz x prev = Some (Fit b (if us = [] then prev else last us)))
       \<or> ((\<forall>u \<in> set fs. bsize h u < tsz) \<and> (\<exists>pf. find_fit h tsz x prev = Some (Fit NULL pf)))"
  using assms
proof (induction fs arbitrary: prev x)
  case Nil
  then show ?case by (subst find_fit.simps) (auto simp: find_fit.simps)
next
  case (Cons a fs)
  then have a: "x = a" "a \<noteq> NULL" "dll (bnext h) (bprev h) a (bnext h a) fs lst NULL"
    "bmagic h a = BLOCK_MAGIC_FREE" by auto
  show ?case
  proof (cases "tsz \<le> bsize h a")
    case True
    then have "find_fit h tsz x prev = Some (Fit a prev)" using a by (subst find_fit.simps) simp
    with True show ?thesis by (intro disjI1 exI [of _ "[]"]) auto
  next
    case False
    have step: "find_fit h tsz x prev = find_fit h tsz (bnext h a) a"
      using a False by (subst find_fit.simps) simp
    from Cons.IH [OF a(3)] Cons.prems(2)
    consider us b vs where "fs = us @ b # vs" "tsz \<le> bsize h b" "\<forall>u \<in> set us. bsize h u < tsz"
        "find_fit h tsz (bnext h a) a = Some (Fit b (if us = [] then a else last us))"
      | pf where "\<forall>u \<in> set fs. bsize h u < tsz" "find_fit h tsz (bnext h a) a = Some (Fit NULL pf)"
      by auto
    then show ?thesis
    proof cases
      case 1
      then show ?thesis
        using step False by (intro disjI1 exI [of _ "a # us"] exI [of _ b] exI [of _ vs]) auto
    next
      case 2
      then show ?thesis using step False by auto
    qed
  qed
qed

text \<open>Splitting a free block inserts the remainder behind it, in address order and in the free
  list; nothing live changes.\<close>

lemma used_bytes_append: "used_bytes hs (xs @ ys) = used_bytes hs xs + used_bytes hs ys"
  by (simp add: used_bytes_def)

lemma used_bytes_Cons:
  "used_bytes hs (b # bs) = (if bh_magic (hs b) = BLOCK_MAGIC_USED then bh_size (hs b) else 0) + used_bytes hs bs"
  by (simp add: used_bytes_def)

lemma used_bytes_cong:
  assumes "\<And>b. b \<in> set bs \<Longrightarrow> bh_size (hs b) = bh_size (hs' b) \<and> bh_magic (hs b) = bh_magic (hs' b)"
  shows "used_bytes hs bs = used_bytes hs' bs"
  using assms by (induction bs) (auto simp: used_bytes_Cons used_bytes_def [of _ "[]"])

lemma split_block_hdrs:
  assumes "tsz + HDR + unat MIN_ALLOC \<le> bsize h b" and "0 < tsz" and "bnext h b \<noteq> b"
    and "bnext h b \<noteq> b + tsz"
  shows "hdrs (split_block b tsz h) a =
      (if a = b + tsz then \<lparr>bh_size = bsize h b - tsz, bh_magic = BLOCK_MAGIC_FREE,
                       bh_flags = BLOCK_FLAG_FREE, bh_owner = 0, bh_next = bnext h b, bh_prev = b\<rparr>
       else if a = b then (hdrs h b)\<lparr>bh_size := tsz, bh_next := b + tsz\<rparr>
       else if a = bnext h b \<and> a \<noteq> NULL then (hdrs h a)\<lparr>bh_prev := b + tsz\<rparr>
       else hdrs h a)"
proof -
  have "b + tsz \<noteq> b" "b \<noteq> b + tsz" using assms(2) by auto
  then show ?thesis using assms by (simp add: split_block_def Let_def)
qed

lemma split_block_frame [simp]:
  "heap_initialized (split_block b t h) = heap_initialized h" "heap_start (split_block b t h) = heap_start h"
  "heap_end (split_block b t h) = heap_end h" "heap_total (split_block b t h) = heap_total h"
  "heap_used (split_block b t h) = heap_used h" "mem (split_block b t h) = mem h"
  "free_list (split_block b t h) = free_list h" "heap_region (split_block b t h) = heap_region h"
  by (simp_all add: split_block_def Let_def)

lemma tiled_insert:
  assumes til: "tiled hs a (xs @ b # ys) e" and t: "64 \<le> t" "32 dvd t" "t + 64 \<le> bh_size (hs b)"
    and b: "bh_size (hs' b) = t" and c: "bh_size (hs' (b + t)) = bh_size (hs b) - t"
    and o: "\<And>z. z \<in> set xs \<union> set ys \<Longrightarrow> bh_size (hs' z) = bh_size (hs z)"
  shows "tiled hs' a (xs @ b # (b + t) # ys) e"
proof -
  obtain m where m: "tiled hs a xs m" "tiled hs m (b # ys) e" using til by (auto simp: tiled_append)
  have "tiled hs' a xs m = tiled hs a xs m" using o by (intro tiled_cong) auto
  moreover have "tiled hs' (b + bh_size (hs b)) ys e = tiled hs (b + bh_size (hs b)) ys e"
    using o by (intro tiled_cong) auto
  ultimately show ?thesis using m t b c unfolding tiled_append by (intro exI [of _ m]) auto
qed

lemma heap_wfD:
  assumes "heap_wf h bs fs"
  shows "heap_initialized h" "0 < heap_start h" "heap_total h = of_nat (heap_end h - heap_start h)"
    "heap_end h - heap_start h < 2 ^ 64" "tiled (hdrs h) (heap_start h) bs (heap_end h)"
    "\<forall>b \<in> set bs. bmagic h b = BLOCK_MAGIC_FREE \<or> bmagic h b = BLOCK_MAGIC_USED"
    "\<exists>lst. dll (bnext h) (bprev h) NULL (free_list h) fs lst NULL" "distinct fs"
    "set fs = {b \<in> set bs. bmagic h b = BLOCK_MAGIC_FREE}"
    "heap_used h = of_nat (used_bytes (hdrs h) bs)"
  using assms by (simp_all add: heap_wf_def)

lemma heap_wf_free:
  assumes "heap_wf h bs fs" and "b \<in> set fs"
  shows "b \<in> set bs" "bmagic h b = BLOCK_MAGIC_FREE"
  using assms heap_wfD(9) by auto

lemma heap_wf_block_nonnull: "heap_wf h bs fs \<Longrightarrow> b \<in> set bs \<Longrightarrow> b \<noteq> NULL"
  using tiled_bounds [OF heap_wfD(5)] heap_wfD(2) by fastforce

lemma split_block_wf:
  assumes wf: "heap_wf h bs (us @ b # vs)" and t: "64 \<le> tsz" "32 dvd tsz" "tsz \<le> bsize h b"
  shows "\<exists>bs' vs'. heap_wf (split_block b tsz h) bs' (us @ b # vs')
    \<and> live_of (hdrs (split_block b tsz h)) bs' = live_of (hdrs h) bs
    \<and> tsz \<le> bsize (split_block b tsz h) b"
proof (cases "tsz + HDR + unat MIN_ALLOC \<le> bsize h b")
  case False
  then have "split_block b tsz h = h" by (simp add: split_block_def)
  with wf t show ?thesis by auto
next
  case True
  define c where "c = b + tsz"
  define h' where "h' = split_block b tsz h"
  note til = heap_wfD(5) [OF wf] and dst = heap_wfD(8) [OF wf] and fl = heap_wfD(9) [OF wf]
  obtain lst where dl: "dll (bnext h) (bprev h) NULL (free_list h) (us @ b # vs) lst NULL"
    using heap_wfD(7) [OF wf] by blast
  have bbs: "b \<in> set bs" and bm: "bmagic h b = BLOCK_MAGIC_FREE" using heap_wf_free [OF wf] by auto
  obtain xs ys where bs: "bs = xs @ b # ys" using bbs by (meson split_list)
  have cb: "c \<noteq> b" and c0: "c \<noteq> NULL" using t by (auto simp: c_def)
  have cn: "c \<notin> set bs"
  proof
    assume "c \<in> set bs"
    then have "b + bsize h b \<le> c" using tiled_apart [OF til bbs, of c] t by (simp add: c_def)
    with True show False by (simp add: HDR_def MIN_ALLOC_def c_def)
  qed
  have cf: "c \<notin> set (us @ b # vs)" using cn fl by blast
  have nb: "bnext h b = (if vs = [] then NULL else hd vs)" using dl by (rule dll_next)
  have nbs: "bnext h b = NULL \<or> bnext h b \<in> set vs" using nb by simp
  have nbb: "bnext h b \<noteq> b" using nbs dst heap_wf_block_nonnull [OF wf bbs] by auto
  have nbc: "bnext h b \<noteq> c" using nbs cf c0 by auto
  have hdrs': "hdrs h' a =
      (if a = c then \<lparr>bh_size = bsize h b - tsz, bh_magic = BLOCK_MAGIC_FREE,
                       bh_flags = BLOCK_FLAG_FREE, bh_owner = 0, bh_next = bnext h b, bh_prev = b\<rparr>
       else if a = b then (hdrs h b)\<lparr>bh_size := tsz, bh_next := c\<rparr>
       else if a = bnext h b \<and> a \<noteq> NULL then (hdrs h a)\<lparr>bh_prev := c\<rparr>
       else hdrs h a)" for a
    unfolding h'_def c_def using True t nbb nbc by (intro split_block_hdrs) (auto simp: c_def)
  let ?bs = "xs @ b # c # ys"
  have sz: "bsize h' a = bsize h a" if "a \<noteq> b" "a \<noteq> c" for a using that by (simp add: hdrs')
  have mg: "bmagic h' a = bmagic h a" if "a \<noteq> c" for a using that by (simp add: hdrs')
  have nx: "bnext h' a = (if a = b then c else bnext h a)" if "a \<noteq> c" for a using that by (simp add: hdrs')
  have pv: "bprev h' a = (if a = bnext h b then c else bprev h a)" if "a \<noteq> c" "a \<noteq> NULL" for a
    using that nbb by (simp add: hdrs')
  have mc: "bmagic h' c = BLOCK_MAGIC_FREE" "bnext h' c = bnext h b" "bprev h' c = b"
    "bsize h' c = bsize h b - tsz" "bsize h' b = tsz" using cb by (simp_all add: hdrs')
  have mgb: "bmagic h' a = bmagic h a" if "a \<in> set bs" for a using that cn by (intro mg) auto
  have notin: "b \<notin> set xs" "b \<notin> set ys" "c \<notin> set xs" "c \<notin> set ys"
    using tiled_distinct [OF til] cn by (simp_all add: bs)
  have til': "tiled (hdrs h') (heap_start h) ?bs (heap_end h)"
    unfolding c_def
  proof (rule tiled_insert [of "hdrs h"])
    show "bsize h' z = bsize h z" if "z \<in> set xs \<union> set ys" for z
      using that notin by (intro sz) auto
  qed (use t til mc True in \<open>simp_all add: bs c_def HDR_def MIN_ALLOC_def\<close>)
  have dl': "dll (bnext h') (bprev h') NULL (free_list h) (us @ b # c # vs) (if vs = [] then c else lst) NULL"
  proof (rule dll_insert_after [OF dl dst c0 cf])
    fix a assume a: "a \<in> set (us @ b # vs)"
    then have "a \<noteq> c" "a \<noteq> NULL" using cf dll_nonnull [OF dl] by auto
    then show "bnext h' a = (if a = b then c else bnext h a)"
      "bprev h' a = (if a = bnext h b then c else bprev h a)" by (simp_all add: nx pv)
  qed (simp_all add: mc)
  have ub: "used_bytes (hdrs h') ?bs = used_bytes (hdrs h) bs"
  proof -
    have "used_bytes (hdrs h') xs = used_bytes (hdrs h) xs" "used_bytes (hdrs h') ys = used_bytes (hdrs h) ys"
      using sz mg notin by (metis used_bytes_cong)+
    then show ?thesis using bm cb mc mg [of b] by (simp add: bs used_bytes_append used_bytes_Cons)
  qed
  have "set (us @ b # c # vs) = {a \<in> set ?bs. bmagic h' a = BLOCK_MAGIC_FREE}"
  proof -
    have "set ?bs = insert c (set bs)" by (auto simp: bs)
    then have "{a \<in> set ?bs. bmagic h' a = BLOCK_MAGIC_FREE} = insert c {a \<in> set bs. bmagic h a = BLOCK_MAGIC_FREE}"
      using mc(1) mgb cn by auto
    also have "\<dots> = insert c (set (us @ b # vs))" by (simp only: fl)
    finally show ?thesis by auto
  qed
  moreover have "\<forall>a \<in> set ?bs. bmagic h' a = BLOCK_MAGIC_FREE \<or> bmagic h' a = BLOCK_MAGIC_USED"
    using heap_wfD(6) [OF wf] mg mc(1) by (metis (no_types) bs in_set_conv_decomp set_ConsD set_append UnE UnI1 UnI2 list.set_intros)
  ultimately have "heap_wf h' ?bs (us @ b # c # vs)"
    using heap_wfD(1-4,10) [OF wf] til' dl' dst cf
    unfolding heap_wf_def ub by (auto simp: h'_def)
  moreover have "live_of (hdrs h') ?bs = live_of (hdrs h) bs"
  proof
    fix p
    show "live_of (hdrs h') ?bs p = live_of (hdrs h) bs p"
    proof (cases "p - HDR = c \<or> p - HDR = b")
      case True
      then show ?thesis using mc(1) mg [of b] bm cb cn by (auto simp: live_of_def)
    next
      case False
      then show ?thesis by (simp add: live_of_def bs sz mg)
    qed
  qed
  moreover have "tsz \<le> bsize h' b" using mc by simp
  ultimately show ?thesis unfolding h'_def by blast
qed

text \<open>Taking a block out of the free list makes exactly its payload live.\<close>

lemma take_block_frame [simp]:
  "heap_initialized (take_block b p h) = heap_initialized h" "heap_start (take_block b p h) = heap_start h"
  "heap_end (take_block b p h) = heap_end h" "heap_total (take_block b p h) = heap_total h"
  "mem (take_block b p h) = mem h" "heap_region (take_block b p h) = heap_region h"
  by (simp_all add: take_block_def Let_def)

lemma take_block_fields:
  assumes "b \<noteq> NULL" and "p \<noteq> b" and "bnext h b \<noteq> b" and "bnext h b = NULL \<or> bnext h b \<noteq> p"
  shows "bsize (take_block b p h) a = bsize h a"
    and "bmagic (take_block b p h) a = (if a = b then BLOCK_MAGIC_USED else bmagic h a)"
    and "a \<noteq> b \<Longrightarrow> a \<noteq> NULL \<Longrightarrow> bnext (take_block b p h) a = (if a = p then bnext h b else bnext h a)"
    and "a \<noteq> b \<Longrightarrow> a \<noteq> NULL \<Longrightarrow> bprev (take_block b p h) a = (if a = bnext h b then p else bprev h a)"
    and "free_list (take_block b p h) = (if p = NULL then bnext h b else free_list h)"
    and "heap_used (take_block b p h) = heap_used h + of_nat (bsize h b)"
  using assms by (simp_all add: take_block_def Let_def)

lemma used_bytes_mark:
  assumes "bs = xs @ b # ys" and "distinct bs" and "bh_magic (hs b) = BLOCK_MAGIC_FREE"
    and "\<And>a. bh_size (hs' a) = bh_size (hs a)"
    and "\<And>a. bh_magic (hs' a) = (if a = b then BLOCK_MAGIC_USED else bh_magic (hs a))"
  shows "used_bytes hs' bs = used_bytes hs bs + bh_size (hs b)"
proof -
  have "used_bytes hs' xs = used_bytes hs xs" "used_bytes hs' ys = used_bytes hs ys"
    using assms by (auto intro!: used_bytes_cong)
  then show ?thesis using assms(1,3,4) assms(5) [of b] by (simp add: used_bytes_append used_bytes_Cons)
qed

lemma take_block_wf:
  assumes wf: "heap_wf h bs (us @ b # vs)" and p: "p = (if us = [] then NULL else last us)"
  shows "heap_wf (take_block b p h) bs (us @ vs)"
    and "live_of (hdrs (take_block b p h)) bs = (live_of (hdrs h) bs)(b + HDR \<mapsto> bsize h b - HDR)"
proof -
  define h' where "h' = take_block b p h"
  note til = heap_wfD(5) [OF wf] and dst = heap_wfD(8) [OF wf] and fl = heap_wfD(9) [OF wf]
  obtain lst where dl: "dll (bnext h) (bprev h) NULL (free_list h) (us @ b # vs) lst NULL"
    using heap_wfD(7) [OF wf] by blast
  have bbs: "b \<in> set bs" and bm: "bmagic h b = BLOCK_MAGIC_FREE" using heap_wf_free [OF wf] by auto
  have b0: "b \<noteq> NULL" using heap_wf_block_nonnull [OF wf bbs] .
  have pb: "bprev h b = p" using dll_prev [OF dl] p by simp
  have nb: "bnext h b = NULL \<or> bnext h b \<in> set vs" using dll_next [OF dl] by simp
  have pus: "p = NULL \<or> p \<in> set us" using p by simp
  have side: "p \<noteq> b" "bnext h b \<noteq> b" "bnext h b = NULL \<or> bnext h b \<noteq> p"
    using nb pus b0 dst by auto
  note f = take_block_fields [OF b0 side, folded h'_def]
  have "dll (bnext h') (bprev h') NULL (if bprev h b = NULL then bnext h b else free_list h) (us @ vs)
          (if bnext h b = NULL then bprev h b else lst) NULL"
  proof (rule dll_unlink [OF dl dst])
    fix a assume a: "a \<in> set (us @ vs)"
    then have "a \<noteq> b" "a \<noteq> NULL" using dst dll_nonnull [OF dl, of a] by auto
    then show "bnext h' a = (if a = bprev h b then bnext h b else bnext h a)"
      "bprev h' a = (if a = bnext h b then bprev h b else bprev h a)" by (simp_all add: f pb)
  qed
  then have dl': "\<exists>lst. dll (bnext h') (bprev h') NULL (free_list h') (us @ vs) lst NULL"
    unfolding f(5) pb by blast
  have til': "tiled (hdrs h') (heap_start h) bs (heap_end h)"
    using til tiled_cong [of bs "hdrs h" "hdrs h'"] f(1) by simp
  obtain xs ys where bs: "bs = xs @ b # ys" using bbs by (meson split_list)
  have ub: "used_bytes (hdrs h') bs = used_bytes (hdrs h) bs + bsize h b"
    using bs tiled_distinct [OF til] bm f(1,2) by (rule used_bytes_mark)
  have fs': "set (us @ vs) = {a \<in> set bs. bmagic h' a = BLOCK_MAGIC_FREE}"
  proof -
    have "{a \<in> set bs. bmagic h' a = BLOCK_MAGIC_FREE} = set (us @ b # vs) - {b}"
      unfolding fl using f(2) by auto
    then show ?thesis using dst by auto
  qed
  have "\<forall>a \<in> set bs. bmagic h' a = BLOCK_MAGIC_FREE \<or> bmagic h' a = BLOCK_MAGIC_USED"
    using heap_wfD(6) [OF wf] f(2) by auto
  then have "heap_wf h' bs (us @ vs)"
    using heap_wfD(1-4,10) [OF wf] til' dl' dst fs' f(6) ub
    unfolding heap_wf_def by (simp add: h'_def)
  then show "heap_wf (take_block b p h) bs (us @ vs)" unfolding h'_def .
  have "live_of (hdrs h') bs = (live_of (hdrs h) bs)(b + HDR \<mapsto> bsize h b - HDR)"
  proof
    fix q
    show "live_of (hdrs h') bs q = ((live_of (hdrs h) bs)(b + HDR \<mapsto> bsize h b - HDR)) q"
      using bbs f(1,2) by (cases "q = b + HDR") (auto simp: live_of_def)
  qed
  then show "live_of (hdrs (take_block b p h)) bs = (live_of (hdrs h) bs)(b + HDR \<mapsto> bsize h b - HDR)"
    unfolding h'_def .
qed

subsection \<open>What \<^verbatim>\<open>kmalloc\<close> does\<close>

text \<open>The size of the block that a request needs, header included.\<close>

definition need :: "u64 \<Rightarrow> nat" where "need sz = (unat sz + 71) div 32 * 32"

definition can_alloc :: "u64 \<Rightarrow> kheap \<Rightarrow> bool" where
  "can_alloc sz h \<longleftrightarrow> sz \<noteq> 0 \<and> sz \<le> MAX_ALLOC
     \<and> (\<exists>b \<in> set (blocks h). bmagic h b = BLOCK_MAGIC_FREE \<and> need sz \<le> bsize h b)"

lemma need_facts: "sz \<noteq> 0 \<Longrightarrow> 64 \<le> need sz" "32 dvd need sz" "unat sz + HDR \<le> need sz"
proof -
  show "32 dvd need sz" by (simp add: need_def)
  show "unat sz + HDR \<le> need sz" by (simp add: need_def HDR_def) 
  assume "sz \<noteq> 0"
  then have "0 < unat sz" by (simp add: unat_gt_0)
  then show "64 \<le> need sz" by (simp add: need_def)
qed

lemma live_of_free:
  "bh_magic (hs b) = BLOCK_MAGIC_FREE \<Longrightarrow> live_of hs bs (b + HDR) = None"
  by (simp add: live_of_def)

text \<open>The first-fit policy in terms of the free list: \<open>b\<close> is the first free block that is large enough.\<close>

lemma kmalloc_wf:
  assumes wf: "heap_wf h bs fs" and sz: "sz \<noteq> 0" "sz \<le> MAX_ALLOC"
  shows "(\<exists>us b vs h' bs' fs' n. fs = us @ b # vs \<and> need sz \<le> bsize h b \<and> (\<forall>u \<in> set us. bsize h u < need sz)
           \<and> kmalloc sz flags h = Some (b + HDR, h') \<and> heap_wf h' bs' fs'
           \<and> unat sz \<le> n \<and> live h' = (live h)(b + HDR \<mapsto> n) \<and> live h (b + HDR) = None
           \<and> heap_start h' = heap_start h \<and> heap_end h' = heap_end h
           \<and> mem h' = (if flags AND GFP_ZERO \<noteq> 0 then byte_fill (unat sz) (b + HDR) 0 (mem h) else mem h))
       \<or> ((\<forall>u \<in> set fs. bsize h u < need sz) \<and> kmalloc sz flags h = Some (NULL, h))"
proof -
  obtain lst where dl: "dll (bnext h) (bprev h) NULL (free_list h) fs lst NULL"
    using heap_wfD(7) [OF wf] by blast
  have fr: "\<forall>b \<in> set fs. bmagic h b = BLOCK_MAGIC_FREE" using heap_wf_free [OF wf] by blast
  have tot: "unat (align_up (sz + of_nat HDR) MIN_ALLOC) = need sz"
    using total_size_eq [OF sz(2)] by (simp add: need_def)
  have km: "kmalloc sz flags h =
      (case find_fit h (need sz) (free_list h) NULL of
           None \<Rightarrow> None
         | Some Corrupted \<Rightarrow> Some (NULL, h)
         | Some (Fit block prev_free) \<Rightarrow>
             if block = NULL then Some (NULL, h)
             else
               (let h = take_block block prev_free (split_block block (need sz) h);
                    p = block_data block
                in Some (p, if flags AND GFP_ZERO \<noteq> 0
                            then h\<lparr>mem := byte_fill (unat sz) p 0 (mem h)\<rparr> else h)))"
    using sz(1) leD [OF sz(2)] heap_wfD(1) [OF wf] unfolding kmalloc_def tot Let_def by simp
  from find_fit_spec [OF dl fr, of "need sz"]
  consider us b vs where "fs = us @ b # vs" "need sz \<le> bsize h b" "\<forall>u \<in> set us. bsize h u < need sz"
        "find_fit h (need sz) (free_list h) NULL = Some (Fit b (if us = [] then NULL else last us))"
      | pf where "\<forall>u \<in> set fs. bsize h u < need sz" "find_fit h (need sz) (free_list h) NULL = Some (Fit NULL pf)"
    by auto
  then show ?thesis
  proof cases
    case 2
    then show ?thesis using km by simp
  next
    case 1
    let ?p = "if us = [] then NULL else last us"
    let ?h1 = "split_block b (need sz) h" and ?h2 = "take_block b ?p (split_block b (need sz) h)"
    have wf1: "heap_wf h bs (us @ b # vs)" using wf 1(1) by simp
    obtain bs' vs' where sp: "heap_wf ?h1 bs' (us @ b # vs')" "live_of (hdrs ?h1) bs' = live_of (hdrs h) bs"
        "need sz \<le> bsize ?h1 b"
      using split_block_wf [OF wf1 _ _ 1(2)] need_facts [of sz] sz(1) by blast
    note tk = take_block_wf [OF sp(1) refl]
    let ?h3 = "if flags AND GFP_ZERO \<noteq> 0 then ?h2\<lparr>mem := byte_fill (unat sz) (b + HDR) 0 (mem ?h2)\<rparr> else ?h2"
    have b: "b \<in> set bs" "bmagic h b = BLOCK_MAGIC_FREE" using heap_wf_free [OF wf1] by auto
    have k: "kmalloc sz flags h = Some (b + HDR, ?h3)"
      using heap_wf_block_nonnull [OF wf b(1)] unfolding km 1(4) by (simp add: block_data_def Let_def)
    have wf3: "heap_wf ?h3 bs' (us @ vs')" using tk(1) by (simp add: heap_wf_def)
    have "hdrs ?h3 = hdrs ?h2" by simp
    then have "live ?h3 = (live h)(b + HDR \<mapsto> bsize ?h1 b - HDR)"
      using heap_wf_live [OF wf3] heap_wf_live [OF wf] tk(2) sp(2) by simp
    moreover have "unat sz \<le> bsize ?h1 b - HDR" using sp(3) need_facts(3) [of sz] by simp
    moreover have "live h (b + HDR) = None"
      using b(2) heap_wf_live [OF wf] live_of_free [of "hdrs h" b bs] by simp
    moreover have "mem ?h3 = (if flags AND GFP_ZERO \<noteq> 0 then byte_fill (unat sz) (b + HDR) 0 (mem h) else mem h)"
      by simp
    moreover have "heap_start ?h3 = heap_start h" "heap_end ?h3 = heap_end h" by simp_all
    ultimately show ?thesis using 1(1-3) k wf3 by blast
  qed
qed

section \<open>Release keeps the invariant\<close>

lemma push_free_frame [simp]:
  "heap_initialized (push_free b h) = heap_initialized h" "heap_start (push_free b h) = heap_start h"
  "heap_end (push_free b h) = heap_end h" "heap_total (push_free b h) = heap_total h"
  "mem (push_free b h) = mem h" "heap_region (push_free b h) = heap_region h"
  by (simp_all add: push_free_def Let_def)

lemma push_free_fields:
  assumes "free_list h \<noteq> b"
  shows "bsize (push_free b h) a = bsize h a"
    and "bmagic (push_free b h) a = (if a = b then BLOCK_MAGIC_FREE else bmagic h a)"
    and "bnext (push_free b h) a = (if a = b then free_list h else bnext h a)"
    and "a \<noteq> NULL \<Longrightarrow> bprev (push_free b h) a = (if a = b then NULL else if a = free_list h then b else bprev h a)"
    and "free_list (push_free b h) = b"
    and "heap_used (push_free b h) = heap_used h - of_nat (bsize h b)"
  using assms by (simp_all add: push_free_def Let_def)

lemma push_free_wf:
  assumes wf: "heap_wf h bs fs" and b: "b \<in> set bs" and u: "bmagic h b = BLOCK_MAGIC_USED"
  shows "heap_wf (push_free b h) bs (b # fs)"
    and "live_of (hdrs (push_free b h)) bs = (live_of (hdrs h) bs)(b + HDR := None)"
proof -
  define h' where "h' = push_free b h"
  note til = heap_wfD(5) [OF wf] and dst = heap_wfD(8) [OF wf] and fl = heap_wfD(9) [OF wf]
  obtain lst where dl: "dll (bnext h) (bprev h) NULL (free_list h) fs lst NULL"
    using heap_wfD(7) [OF wf] by blast
  have b0: "b \<noteq> NULL" using heap_wf_block_nonnull [OF wf b] .
  have bf: "b \<notin> set fs" using u fl by auto
  have "free_list h = (if fs = [] then NULL else hd fs)" using dl by (rule dll_first)
  then have fb: "free_list h \<noteq> b" using bf b0 by (auto split: if_splits)
  note f = push_free_fields [OF fb, folded h'_def]
  have dl': "dll (bnext h') (bprev h') NULL b (b # fs) (if fs = [] then b else lst) NULL"
  proof (rule dll_push_front [OF dl dst b0 bf])
    fix a assume a: "a \<in> set fs"
    then have "a \<noteq> b" "a \<noteq> NULL" using bf dll_nonnull [OF dl] by auto
    then show "bnext h' a = bnext h a" "bprev h' a = (if a = free_list h then b else bprev h a)"
      by (simp_all add: f)
  qed (use b0 in \<open>simp_all add: f\<close>)
  obtain xs ys where bs: "bs = xs @ b # ys" using b by (meson split_list)
  have "used_bytes (hdrs h) bs = used_bytes (hdrs h') bs + bsize h' b"
    using bs tiled_distinct [OF til] f(1,2) u by (intro used_bytes_mark) auto
  then have ub: "heap_used h' = of_nat (used_bytes (hdrs h') bs)"
    using heap_wfD(10) [OF wf] f(1,6) by simp
  have til': "tiled (hdrs h') (heap_start h) bs (heap_end h)"
    using til tiled_cong [of bs "hdrs h" "hdrs h'"] f(1) by simp
  have fs': "set (b # fs) = {a \<in> set bs. bmagic h' a = BLOCK_MAGIC_FREE}"
    using f(2) fl b by auto
  have "\<forall>a \<in> set bs. bmagic h' a = BLOCK_MAGIC_FREE \<or> bmagic h' a = BLOCK_MAGIC_USED"
    using heap_wfD(6) [OF wf] f(2) by auto
  then have "heap_wf h' bs (b # fs)"
    using heap_wfD(1-4) [OF wf] til' dl' dst fs' bf ub f(5)
    unfolding heap_wf_def by (auto simp: h'_def)
  then show "heap_wf (push_free b h) bs (b # fs)" unfolding h'_def .
  have "live_of (hdrs h') bs = (live_of (hdrs h) bs)(b + HDR := None)"
  proof
    fix q
    show "live_of (hdrs h') bs q = ((live_of (hdrs h) bs)(b + HDR := None)) q"
      using f(1,2) by (cases "q = b + HDR") (auto simp: live_of_def)
  qed
  then show "live_of (hdrs (push_free b h)) bs = (live_of (hdrs h) bs)(b + HDR := None)"
    unfolding h'_def .
qed

text \<open>Merging: in a well-formed heap the block behind \<open>b\<close>, if there is one, is the next in address order.\<close>

lemma tiled_next:
  assumes "tiled hs a (xs @ b # ys) e" and "b + bh_size (hs b) < e"
  shows "\<exists>zs. ys = (b + bh_size (hs b)) # zs"
proof -
  have "tiled hs (b + bh_size (hs b)) ys e" using assms(1) by (auto simp: tiled_append)
  then show ?thesis using assms(2) by (cases ys) auto
qed

lemma tiled_merge:
  assumes til: "tiled hs a (xs @ b # c # zs) e"
    and b: "bh_size (hs' b) = bh_size (hs b) + bh_size (hs c)"
    and o: "\<And>z. z \<in> set xs \<union> set zs \<Longrightarrow> bh_size (hs' z) = bh_size (hs z)"
  shows "tiled hs' a (xs @ b # zs) e"
proof -
  obtain m where m: "tiled hs a xs m" "tiled hs m (b # c # zs) e" using til by (auto simp: tiled_append)
  have "tiled hs' a xs m = tiled hs a xs m" using o by (intro tiled_cong) auto
  moreover have "tiled hs' (b + bh_size (hs b) + bh_size (hs c)) zs e = tiled hs (b + bh_size (hs b) + bh_size (hs c)) zs e"
    using o by (intro tiled_cong) auto
  ultimately show ?thesis using m b unfolding tiled_append by (intro exI [of _ m]) (auto simp: add.assoc)
qed

lemma coalesce_next_frame [simp]:
  "heap_initialized (coalesce_next b h) = heap_initialized h" "heap_start (coalesce_next b h) = heap_start h"
  "heap_end (coalesce_next b h) = heap_end h" "heap_total (coalesce_next b h) = heap_total h"
  "mem (coalesce_next b h) = mem h" "heap_region (coalesce_next b h) = heap_region h"
  "heap_used (coalesce_next b h) = heap_used h"
  by (simp_all add: coalesce_next_def Let_def)

lemma coalesce_next_eq:
  assumes c: "c = b + bsize h b" and "c < heap_end h" and "bmagic h c = BLOCK_MAGIC_FREE"
    and "bprev h c \<noteq> c" and "bnext h c \<noteq> c"
  shows "coalesce_next b h =
    (let h1 = (if bprev h c \<noteq> NULL then set_next (bprev h c) (bnext h c) h else h\<lparr>free_list := bnext h c\<rparr>);
         h2 = (if bnext h c \<noteq> NULL then set_prev (bnext h c) (bprev h c) h1 else h1)
     in upd_hdr c (\<lambda>b. b\<lparr>bh_magic := 0, bh_owner := 0\<rparr>) (upd_hdr b (bh_size_update (\<lambda>s. s + bsize h c)) h2))"
proof -
  define h1 where "h1 = (if bprev h c \<noteq> NULL then set_next (bprev h c) (bnext h c) h else h\<lparr>free_list := bnext h c\<rparr>)"
  define h2 where "h2 = (if bnext h c \<noteq> NULL then set_prev (bnext h c) (bprev h c) h1 else h1)"
  have h1: "bnext h1 c = bnext h c" "bprev h1 c = bprev h c" using assms(4) by (simp_all add: h1_def)
  have h2: "bsize h2 c = bsize h c" using assms(4,5) by (simp add: h2_def h1_def)
  show ?thesis
    unfolding coalesce_next_def c [symmetric] Let_def h1_def [symmetric] h1 h2_def [symmetric] h2
    using assms(2,3) by simp
qed

lemma coalesce_fields:
  fixes pc nc sc c b :: nat and h :: kheap
  assumes "c \<noteq> b"
  defines "h1 \<equiv> if pc \<noteq> NULL then set_next pc nc h else h\<lparr>free_list := nc\<rparr>"
  defines "h2 \<equiv> if nc \<noteq> NULL then set_prev nc pc h1 else h1"
  defines "h3 \<equiv> upd_hdr c (\<lambda>b. b\<lparr>bh_magic := 0, bh_owner := 0\<rparr>) (upd_hdr b (bh_size_update (\<lambda>s. s + sc)) h2)"
  shows "bsize h3 a = (if a = b then bsize h b + sc else bsize h a)"
    and "bmagic h3 a = (if a = c then 0 else bmagic h a)"
    and "a \<noteq> NULL \<Longrightarrow> bnext h3 a = (if a = pc then nc else bnext h a)"
    and "a \<noteq> NULL \<Longrightarrow> bprev h3 a = (if a = nc then pc else bprev h a)"
    and "free_list h3 = (if pc = NULL then nc else free_list h)"
proof -
  have h1: "hdrs h1 = (if pc = NULL then hdrs h else (hdrs h)(pc := (hdrs h pc)\<lparr>bh_next := nc\<rparr>))"
    by (simp add: h1_def)
  have h2: "hdrs h2 = (if nc = NULL then hdrs h1 else (hdrs h1)(nc := (hdrs h1 nc)\<lparr>bh_prev := pc\<rparr>))"
    by (simp add: h2_def)
  have s1: "bsize h1 x = bsize h x" "bmagic h1 x = bmagic h x" "bprev h1 x = bprev h x" for x
    by (simp_all add: h1)
  have s2: "bsize h2 x = bsize h x" "bmagic h2 x = bmagic h x" "bnext h2 x = bnext h1 x" for x
    by (simp_all add: h2 s1)
  have s3: "bsize h3 x = (if x = b then bsize h2 x + sc else bsize h2 x)" "bmagic h3 x = (if x = c then 0 else bmagic h2 x)"
     "bnext h3 x = bnext h2 x" "bprev h3 x = bprev h2 x" for x
    using assms(1) by (simp_all add: h3_def)
  show "bsize h3 a = (if a = b then bsize h b + sc else bsize h a)" "bmagic h3 a = (if a = c then 0 else bmagic h a)"
    by (simp_all add: s2 s3)
  show "bnext h3 a = (if a = pc then nc else bnext h a)" if "a \<noteq> NULL" using that by (simp add: s2 s3 h1)
  show "bprev h3 a = (if a = nc then pc else bprev h a)" if "a \<noteq> NULL" using that by (simp add: s1 s3 h2)
  show "free_list h3 = (if pc = NULL then nc else free_list h)" by (simp add: h3_def h2_def h1_def)
qed

lemma coalesce_next_fields:
  assumes c: "c = b + bsize h b" "c < heap_end h" "bmagic h c = BLOCK_MAGIC_FREE"
    and p: "bprev h c \<noteq> c" and n: "bnext h c \<noteq> c" and cb: "c \<noteq> b"
  shows "bsize (coalesce_next b h) a = (if a = b then bsize h b + bsize h c else bsize h a)"
    and "bmagic (coalesce_next b h) a = (if a = c then 0 else bmagic h a)"
    and "a \<noteq> NULL \<Longrightarrow> bnext (coalesce_next b h) a = (if a = bprev h c then bnext h c else bnext h a)"
    and "a \<noteq> NULL \<Longrightarrow> bprev (coalesce_next b h) a = (if a = bnext h c then bprev h c else bprev h a)"
    and "free_list (coalesce_next b h) = (if bprev h c = NULL then bnext h c else free_list h)"
  unfolding coalesce_next_eq [OF c p n] Let_def by (rule coalesce_fields [OF cb]; assumption)+

lemma coalesce_next_magic: "bmagic (coalesce_next b h) a = bmagic h a \<or> bmagic (coalesce_next b h) a = 0"
proof -
  have l: "bmagic (set_next x v h') a = bmagic h' a" "bmagic (set_prev x v h') a = bmagic h' a"
    "bmagic (upd_hdr x (bh_size_update f) h') a = bmagic h' a" for x v f h' by simp_all
  have fl: "bmagic (h\<lparr>free_list := v\<rparr>) a = bmagic h a" for v by simp
  have z: "bmagic (upd_hdr x (\<lambda>b. b\<lparr>bh_magic := 0, bh_owner := 0\<rparr>) h') a = (if a = x then 0 else bmagic h' a)" for x h'
    by simp
  show ?thesis
    unfolding coalesce_next_def Let_def by (simp only: l fl z if_distrib [of "\<lambda>h. bmagic h a"] if_cancel split: if_split) simp
qed

lemma coalesce_next_wf:
  assumes wf: "heap_wf h bs fs" and b: "b \<in> set fs"
  shows "\<exists>bs' fs'. heap_wf (coalesce_next b h) bs' fs'
    \<and> live_of (hdrs (coalesce_next b h)) bs' = live_of (hdrs h) bs"
proof (cases "b + bsize h b < heap_end h \<and> bmagic h (b + bsize h b) = BLOCK_MAGIC_FREE")
  case False
  then have "coalesce_next b h = h" by (simp only: coalesce_next_def Let_def if_False)
  with wf show ?thesis by auto
next
  case True
  define c where "c = b + bsize h b"
  define h' where "h' = coalesce_next b h"
  note til = heap_wfD(5) [OF wf] and dst = heap_wfD(8) [OF wf] and fl = heap_wfD(9) [OF wf]
  have bbs: "b \<in> set bs" and bm: "bmagic h b = BLOCK_MAGIC_FREE" using heap_wf_free [OF wf b] by auto
  obtain xs ys where "bs = xs @ b # ys" using bbs by (meson split_list)
  moreover from this obtain zs where "ys = c # zs" using tiled_next [of "hdrs h" _ xs b ys] til True c_def by (metis (no_types))
  ultimately have bs: "bs = xs @ b # c # zs" by simp
  have sb: "64 \<le> bsize h b" using tiled_bounds [OF til bbs] by simp
  have cbs: "c \<in> set bs" and cb: "c \<noteq> b" using sb by (auto simp: bs c_def)
  have c0: "c \<noteq> NULL" using heap_wf_block_nonnull [OF wf cbs] .
  have cm: "bmagic h c = BLOCK_MAGIC_FREE" using True c_def by simp
  have cf: "c \<in> set fs" using cbs cm fl by auto
  obtain us vs where fs: "fs = us @ c # vs" using cf by (meson split_list)
  obtain lst where dl: "dll (bnext h) (bprev h) NULL (free_list h) (us @ c # vs) lst NULL"
    using heap_wfD(7) [OF wf] fs by blast
  have nc: "bnext h c = NULL \<or> bnext h c \<in> set vs" using dll_next [OF dl] by simp
  have pc: "bprev h c = NULL \<or> bprev h c \<in> set us" using dll_prev [OF dl] by simp
  have side: "bprev h c \<noteq> c" "bnext h c \<noteq> c"
    using nc pc c0 dst fs by auto
  have ce: "c < heap_end h" using True by (simp add: c_def)
  note f = coalesce_next_fields [OF c_def ce cm side(1,2) cb, folded h'_def]
  have dst': "distinct (us @ c # vs)" using dst fs by simp
  have "dll (bnext h') (bprev h') NULL (if bprev h c = NULL then bnext h c else free_list h) (us @ vs)
          (if bnext h c = NULL then bprev h c else lst) NULL"
  proof (rule dll_unlink [OF dl dst'])
    fix a assume a: "a \<in> set (us @ vs)"
    then have "a \<noteq> c" "a \<noteq> NULL" using dst' dll_nonnull [OF dl, of a] by auto
    then show "bnext h' a = (if a = bprev h c then bnext h c else bnext h a)"
      "bprev h' a = (if a = bnext h c then bprev h c else bprev h a)" by (simp_all add: f)
  qed
  then have dl': "\<exists>lst. dll (bnext h') (bprev h') NULL (free_list h') (us @ vs) lst NULL"
    unfolding f(5) by blast
  have dbs: "b \<notin> set xs" "b \<notin> set zs" "c \<notin> set xs" "c \<notin> set zs"
    using tiled_distinct [OF til] by (auto simp: bs)
  let ?bs = "xs @ b # zs"
  have sbs: "set ?bs = set bs - {c}" using dbs cb by (auto simp: bs)
  have til': "tiled (hdrs h') (heap_start h) ?bs (heap_end h)"
    using til unfolding bs
    by (rule tiled_merge) (use dbs in \<open>auto simp: f(1)\<close>)
  have ub: "used_bytes (hdrs h') ?bs = used_bytes (hdrs h) bs"
  proof -
    have "used_bytes (hdrs h') xs = used_bytes (hdrs h) xs" "used_bytes (hdrs h') zs = used_bytes (hdrs h) zs"
      using dbs f(1,2) by (auto intro!: used_bytes_cong)
    then show ?thesis using bm cm cb f(2) [of b] by (simp add: bs used_bytes_append used_bytes_Cons)
  qed
  have fs': "set (us @ vs) = {a \<in> set ?bs. bmagic h' a = BLOCK_MAGIC_FREE}"
  proof -
    have "set (us @ vs) = set fs - {c}" using dst' fs by auto
    also have "\<dots> = {a \<in> set ?bs. bmagic h' a = BLOCK_MAGIC_FREE}" unfolding fl sbs using f(2) by auto
    finally show ?thesis .
  qed
  have "\<forall>a \<in> set ?bs. bmagic h' a = BLOCK_MAGIC_FREE \<or> bmagic h' a = BLOCK_MAGIC_USED"
    unfolding sbs using heap_wfD(6) [OF wf] f(2) by auto
  then have "heap_wf h' ?bs (us @ vs)"
    using heap_wfD(1-4,10) [OF wf] til' dl' dst' fs' ub
    unfolding heap_wf_def by (simp add: h'_def)
  moreover have "live_of (hdrs h') ?bs = live_of (hdrs h) bs"
  proof
    fix p
    show "live_of (hdrs h') ?bs p = live_of (hdrs h) bs p"
      using bm cm cb f(1,2) unfolding live_of_def sbs by auto
  qed
  ultimately show ?thesis unfolding h'_def by blast
qed

lemma kfree_wf:
  assumes wf: "heap_wf h bs fs" and l: "live h p \<noteq> None"
  shows "\<exists>bs' fs'. heap_wf (kfree p h) bs' fs' \<and> live (kfree p h) = (live h)(p := None)"
proof -
  define b where "b = p - HDR"
  have b: "b \<in> set bs" "bmagic h b = BLOCK_MAGIC_USED" "p = b + HDR"
    using l by (auto simp: heap_wf_live [OF wf] live_of_def b_def split: if_splits)
  note pf = push_free_wf [OF wf b(1,2)]
  obtain bs' fs' where c: "heap_wf (coalesce_next b (push_free b h)) bs' fs'"
      "live_of (hdrs (coalesce_next b (push_free b h))) bs' = live_of (hdrs (push_free b h)) bs"
    using coalesce_next_wf [OF pf(1), of b] by auto
  have k: "kfree p h = coalesce_next b (push_free b h)"
    using b by (simp add: kfree_def kfree_block_locked_def data_to_block_def Let_def HDR_def)
  show ?thesis
    using c heap_wf_live [OF c(1)] heap_wf_live [OF wf] pf(2) b(3) unfolding k by auto
qed

section \<open>Initialisation establishes the invariant\<close>

lemma kmalloc_init_wf:
  assumes "0 < heap_region h"
  shows "heap_wf (kmalloc_init h) [heap_region h] [heap_region h]"
  using assms
  by (simp add: heap_wf_def kmalloc_init_def Let_def used_bytes_def HEAP_SIZE_def)

lemma kmalloc_init_live: "0 < heap_region h \<Longrightarrow> live (kmalloc_init h) = Map.empty"
  using heap_wf_live [OF kmalloc_init_wf]
  by (auto simp: live_of_def kmalloc_init_def Let_def fun_eq_iff)

section \<open>The allocator contract\<close>

text \<open>What the rest of the kernel relies on. A client sees a set of live payloads with their
  lengths; allocation either fails and changes nothing or adds one fresh payload, and releasing a
  live payload removes exactly that one.\<close>

locale allocator =
  fixes inv :: "'s \<Rightarrow> bool"
    and lv :: "'s \<Rightarrow> ptr \<rightharpoonup> nat"
    and alloc :: "u64 \<Rightarrow> 's \<Rightarrow> (ptr \<times> 's) option"
    and release :: "ptr \<Rightarrow> 's \<Rightarrow> 's"
  assumes lv_nonnull: "\<lbrakk> inv s; lv s p = Some n \<rbrakk> \<Longrightarrow> p \<noteq> NULL"
    and lv_apart: "\<lbrakk> inv s; lv s p = Some n; lv s q = Some m; p < q \<rbrakk> \<Longrightarrow> p + n \<le> q"
    and alloc_total: "inv s \<Longrightarrow> \<exists>p s'. alloc sz s = Some (p, s')"
    and alloc_fails: "\<lbrakk> inv s; alloc sz s = Some (NULL, s') \<rbrakk> \<Longrightarrow> s' = s"
    and alloc_fresh: "\<lbrakk> inv s; alloc sz s = Some (p, s'); p \<noteq> NULL \<rbrakk> \<Longrightarrow> lv s p = None"
    and alloc_inv: "\<lbrakk> inv s; alloc sz s = Some (p, s') \<rbrakk> \<Longrightarrow> inv s'"
    and alloc_adds: "\<lbrakk> inv s; alloc sz s = Some (p, s'); p \<noteq> NULL \<rbrakk> \<Longrightarrow> \<exists>n \<ge> unat sz. lv s' = (lv s)(p \<mapsto> n)"
    and release_NULL: "release NULL s = s"
    and release_inv: "\<lbrakk> inv s; lv s p \<noteq> None \<rbrakk> \<Longrightarrow> inv (release p s)"
    and release_lv: "\<lbrakk> inv s; lv s p \<noteq> None \<rbrakk> \<Longrightarrow> lv (release p s) = (lv s)(p := None)"
begin

lemma alloc_live: "\<lbrakk> inv s; alloc sz s = Some (p, s'); p \<noteq> NULL \<rbrakk> \<Longrightarrow> lv s' p \<noteq> None"
  using alloc_adds by fastforce

text \<open>Both operations as one map update each, whether or not the allocation succeeded and whether or
  not the released pointer is \<^verbatim>\<open>NULL\<close>.\<close>

lemma lv_NULL: "inv s \<Longrightarrow> lv s NULL = None"
  using lv_nonnull [of s NULL] by (cases "lv s NULL") auto

lemma alloc_upd:
  assumes "inv s" and "alloc sz s = Some (p, s')"
  obtains e where "inv s'" "lv s' = (lv s)(p := e)" "lv s p = None" "e = None \<longleftrightarrow> p = NULL" "\<forall>n. e = Some n \<longrightarrow> unat sz \<le> n"
proof (cases "p = NULL")
  case True
  then have "s' = s" using assms alloc_fails by blast
  with True show ?thesis using that [of None] assms(1) lv_NULL [OF assms(1)] by (auto simp: fun_upd_idem)
next
  case False
  obtain n where "unat sz \<le> n" "lv s' = (lv s)(p \<mapsto> n)" using alloc_adds [OF assms False] by blast
  with False show ?thesis using that [of "Some n"] alloc_inv [OF assms] alloc_fresh [OF assms False] by auto
qed

lemma release_upd:
  assumes "inv s" and "p = NULL \<or> lv s p \<noteq> None"
  shows "inv (release p s)" "lv (release p s) = (lv s)(p := None)"
  using assms release_NULL release_inv release_lv lv_NULL by (auto simp: fun_upd_idem)

text \<open>Allocate and release: the set of live payloads is what it was.\<close>

lemma alloc_release:
  assumes "inv s" and "alloc sz s = Some (p, s')"
  shows "inv (release p s') \<and> lv (release p s') = lv s"
proof (cases "p = NULL")
  case True
  then show ?thesis using assms alloc_fails [of s sz s'] release_NULL by auto
next
  case False
  have l: "lv s' p \<noteq> None" and i: "inv s'" using assms False alloc_live alloc_inv by blast+
  obtain n where "lv s' = (lv s)(p \<mapsto> n)" using alloc_adds [OF assms False] by blast
  then have "lv (release p s') = lv s"
    using release_lv [OF i l] alloc_fresh [OF assms False] by (simp add: fun_upd_idem)
  with release_inv [OF i l] show ?thesis by simp
qed

text \<open>A new payload overlaps no live one.\<close>

lemma alloc_apart:
  assumes "inv s" and "alloc sz s = Some (p, s')" and "p \<noteq> NULL" and "lv s q = Some m"
  shows "p \<noteq> q" and "p + unat sz \<le> q \<or> q + m \<le> p"
proof -
  obtain n where n: "unat sz \<le> n" "lv s' = (lv s)(p \<mapsto> n)" using alloc_adds [OF assms(1-3)] by blast
  show pq: "p \<noteq> q" using alloc_fresh [OF assms(1-3)] assms(4) by auto
  have i: "inv s'" using alloc_inv assms by blast
  have "lv s' p = Some n" "lv s' q = Some m" using n pq assms(4) by auto
  then show "p + unat sz \<le> q \<or> q + m \<le> p"
    using lv_apart [OF i, of p n q m] lv_apart [OF i, of q m p n] pq n(1) by fastforce
qed

end

lemma live_ofD:
  assumes "heap_wf h bs fs" and "live h p = Some n"
  shows "p - HDR \<in> set bs" "bmagic h (p - HDR) = BLOCK_MAGIC_USED" "p = (p - HDR) + HDR"
    "n = bsize h (p - HDR) - HDR" "HDR + 24 \<le> bsize h (p - HDR)"
    "heap_start h + HDR \<le> p" "p + n \<le> heap_end h"
proof -
  show a: "p - HDR \<in> set bs" and "bmagic h (p - HDR) = BLOCK_MAGIC_USED" and c: "p = (p - HDR) + HDR"
    and d: "n = bsize h (p - HDR) - HDR"
    using assms by (auto simp: heap_wf_live [OF assms(1)] live_of_def split: if_splits)
  note b = tiled_bounds [OF heap_wfD(5) [OF assms(1)] a]
  show e: "HDR + 24 \<le> bsize h (p - HDR)" using b by (simp add: HDR_def)
  show "heap_start h + HDR \<le> p" using b c by linarith
  show "p + n \<le> heap_end h" using b c d e by linarith
qed

lemma live_apart:
  assumes "heap_wf h bs fs" and "live h p = Some n" and "live h q = Some m" and "p < q"
  shows "p + n + HDR \<le> q"
proof -
  note P = live_ofD [OF assms(1,2)] and Q = live_ofD [OF assms(1,3)]
  have "p - HDR < q - HDR" using P(3) Q(3) assms(4) by linarith
  then have "(p - HDR) + bsize h (p - HDR) \<le> q - HDR"
    using tiled_apart [OF heap_wfD(5) [OF assms(1)] P(1) Q(1)] by simp
  then show ?thesis using P(3,4,5) Q(3) by linarith
qed

lemma kmalloc_refuses: "heap_initialized h \<Longrightarrow> sz = 0 \<or> sz > MAX_ALLOC \<Longrightarrow> kmalloc sz flags h = Some (NULL, h)"
  by (auto simp: kmalloc_def)

lemma kmalloc_cases:
  assumes "heap_inv h"
  shows "(can_alloc sz h \<and> (\<exists>p h' n. kmalloc sz flags h = Some (p, h') \<and> p \<noteq> NULL \<and> heap_inv h' \<and> unat sz \<le> n
            \<and> live h p = None \<and> live h' = (live h)(p \<mapsto> n) \<and> heap_start h' = heap_start h \<and> heap_end h' = heap_end h
            \<and> mem h' = (if flags AND GFP_ZERO \<noteq> 0 then byte_fill (unat sz) p 0 (mem h) else mem h)))
       \<or> (\<not> can_alloc sz h \<and> kmalloc sz flags h = Some (NULL, h))"
proof (cases "sz \<noteq> 0 \<and> sz \<le> MAX_ALLOC")
  case False
  then show ?thesis
    using assms kmalloc_refuses [of h sz flags] heap_wfD(1) by (auto simp: can_alloc_def heap_inv_def not_le)
next
  case True
  obtain fs where wf: "heap_wf h (blocks h) fs" using assms by (auto simp: heap_inv_def)
  from kmalloc_wf [OF wf, of sz flags] True
  consider us b vs h' bs' fs' n where "fs = us @ b # vs" "need sz \<le> bsize h b"
      "kmalloc sz flags h = Some (b + HDR, h')" "heap_wf h' bs' fs'" "unat sz \<le> n"
      "live h' = (live h)(b + HDR \<mapsto> n)" "live h (b + HDR) = None"
      "heap_start h' = heap_start h" "heap_end h' = heap_end h"
      "mem h' = (if flags AND GFP_ZERO \<noteq> 0 then byte_fill (unat sz) (b + HDR) 0 (mem h) else mem h)"
    | "\<forall>u \<in> set fs. bsize h u < need sz" "kmalloc sz flags h = Some (NULL, h)"
    by metis
  then show ?thesis
  proof cases
    case 1
    have "b \<in> set fs" using 1(1) by simp
    then have "can_alloc sz h" using heap_wf_free [OF wf] 1(2) True by (auto simp: can_alloc_def)
    moreover have "b + HDR \<noteq> NULL" by (simp add: HDR_def)
    ultimately show ?thesis using 1(3,5-10) heap_wf_inv [OF 1(4)] by blast
  next
    case 2
    then have "\<not> can_alloc sz h" using heap_wfD(9) [OF wf] by (auto simp: can_alloc_def)
    with 2 show ?thesis by blast
  qed
qed

interpretation kh: allocator heap_inv live "\<lambda>sz h. kmalloc sz flags h" kfree for flags
proof
  fix s :: kheap and p n q m sz s'
  show "p \<noteq> NULL" if "heap_inv s" "live s p = Some n"
    using that live_ofD(3) by (fastforce simp: heap_inv_def HDR_def)
  show "p + n \<le> q" if "heap_inv s" "live s p = Some n" "live s q = Some m" "p < q"
    using that live_apart [of s "blocks s" _ p n q m] unfolding heap_inv_def by fastforce
  assume i: "heap_inv s"
  note c = kmalloc_cases [OF i, of sz flags]
  show "\<exists>p s'. kmalloc sz flags s = Some (p, s')" using c by blast
  show "s' = s" if "kmalloc sz flags s = Some (NULL, s')" using c that by auto
  show "live s p = None" if "kmalloc sz flags s = Some (p, s')" "p \<noteq> NULL" using c that by auto
  show "heap_inv s'" if "kmalloc sz flags s = Some (p, s')" using c that i by auto
  show "\<exists>n \<ge> unat sz. live s' = (live s)(p \<mapsto> n)" if "kmalloc sz flags s = Some (p, s')" "p \<noteq> NULL"
    using c that by auto
next
  show "kfree NULL s = s" for s by (simp add: kfree_def)
next
  show "heap_inv (kfree p s)" "live (kfree p s) = (live s)(p := None)"
    if "heap_inv s" "live s p \<noteq> None" for s p
    using that kfree_wf [of s "blocks s"] heap_wf_inv by (auto simp: heap_inv_def) blast+
qed

lemma mem_update_inv [simp]:
  "blocks (h\<lparr>mem := m\<rparr>) = blocks h" "live (h\<lparr>mem := m\<rparr>) = live h" "heap_inv (h\<lparr>mem := m\<rparr>) = heap_inv h"
  by (simp_all add: blocks_def live_def heap_inv_def heap_wf_def)

lemma kfree_mem: "mem (kfree p h) = mem h"
  by (simp add: kfree_def kfree_block_locked_def Let_def)

lemma live_old_size:
  assumes "heap_inv h" and "live h p = Some n"
  shows "unat (of_nat (bsize h (data_to_block p)) - of_nat HDR :: u64) = n" and "p \<noteq> NULL"
proof -
  obtain fs where wf: "heap_wf h (blocks h) fs" using assms(1) by (auto simp: heap_inv_def)
  note P = live_ofD [OF wf assms(2)] and b = tiled_bounds [OF heap_wfD(5) [OF wf] live_ofD(1) [OF wf assms(2)]]
  have "bsize h (p - HDR) < 2 ^ 64" using b heap_wfD(4) [OF wf] by linarith
  moreover have "of_nat (bsize h (p - HDR)) - of_nat HDR = (of_nat (bsize h (p - HDR) - HDR) :: u64)"
    using P(5) by (simp add: of_nat_diff)
  ultimately show "unat (of_nat (bsize h (data_to_block p)) - of_nat HDR :: u64) = n"
    using unat_of_nat_small [of "bsize h (p - HDR) - HDR", where 'a = 64] P(4)
    by (simp add: data_to_block_def less_imp_diff_less)
  show "p \<noteq> NULL" by (rule kh.lv_nonnull [OF assms])
qed

lemma used_bytes_le: "tiled hs a bs e \<Longrightarrow> used_bytes hs bs \<le> e - a"
proof (induction bs arbitrary: a)
  case (Cons b bs)
  then have "used_bytes hs bs \<le> e - (a + bh_size (hs b))" and "a + bh_size (hs b) \<le> e"
    using tiled_le by auto
  then show ?case by (auto simp: used_bytes_Cons)
qed (simp add: used_bytes_def)

section \<open>Properties\<close>

text \<open>A heap before \<^verbatim>\<open>kmalloc_init\<close> ran, for the examples.\<close>

definition kheap_boot :: kheap where
  "kheap_boot = \<lparr>heap_region = HEAP_BASE, heap_start = 0, heap_end = 0, free_list = 0, heap_total = 0, heap_used = 0,
     heap_initialized = False, hdrs = (\<lambda>_. \<lparr>bh_size = 0, bh_magic = 0, bh_flags = 0, bh_owner = 0,
     bh_next = 0, bh_prev = 0\<rparr>), mem = (\<lambda>_. 0)\<rparr>"

lemma boot_heap: "heap_inv (kmalloc_init kheap_boot)" "live (kmalloc_init kheap_boot) = Map.empty"
  "blocks (kmalloc_init kheap_boot) = [HEAP_BASE]"
  using heap_wf_inv [OF kmalloc_init_wf, of kheap_boot] kmalloc_init_live [of kheap_boot]
    heap_wf_blocks [OF kmalloc_init_wf, of kheap_boot]
  by (simp_all add: kheap_boot_def HEAP_BASE_def)

lemma boot_can_alloc: "sz \<noteq> 0 \<Longrightarrow> sz \<le> MAX_ALLOC \<Longrightarrow> can_alloc sz (kmalloc_init kheap_boot)"
proof -
  assume sz: "sz \<noteq> 0" "sz \<le> MAX_ALLOC"
  have "unat sz \<le> 33554432" using sz by (simp add: MAX_ALLOC_def word_le_nat_alt)
  then have "need sz \<le> HEAP_SIZE" by (simp add: need_def HEAP_SIZE_def)
  then show ?thesis
    using sz by (simp add: can_alloc_def boot_heap) (simp add: kmalloc_init_def Let_def kheap_boot_def)
qed

text \<open>C1. On a well-formed heap \<^verbatim>\<open>kmalloc\<close> always returns. It succeeds exactly when the size is
  between 1 and \<^verbatim>\<open>MAX_ALLOC\<close> and some free block holds the request rounded up with its header; a
  success adds one fresh payload of at least the requested length to the live ones and keeps the heap
  well-formed, with the payload bytes zeroed if \<^verbatim>\<open>GFP_ZERO\<close> was given and no other byte written;
  a failure changes nothing.\<close>

theorem kmalloc_correct:
  assumes "heap_inv h"
  shows "\<exists>p h'. kmalloc sz flags h = Some (p, h') \<and> heap_inv h' \<and> (p \<noteq> NULL \<longleftrightarrow> can_alloc sz h)
    \<and> (p = NULL \<longrightarrow> h' = h)
    \<and> (p \<noteq> NULL \<longrightarrow> live h p = None \<and> (\<exists>n \<ge> unat sz. live h' = (live h)(p \<mapsto> n))
         \<and> (\<forall>a. mem h' a = (if flags AND GFP_ZERO \<noteq> 0 \<and> p \<le> a \<and> a < p + unat sz then 0 else mem h a)))"
proof -
  from kmalloc_cases [OF assms, of sz flags]
  consider p h' n where "can_alloc sz h" "kmalloc sz flags h = Some (p, h')" "p \<noteq> NULL" "heap_inv h'" "unat sz \<le> n"
      "live h p = None" "live h' = (live h)(p \<mapsto> n)"
      "mem h' = (if flags AND GFP_ZERO \<noteq> 0 then byte_fill (unat sz) p 0 (mem h) else mem h)"
    | "\<not> can_alloc sz h" "kmalloc sz flags h = Some (NULL, h)" by blast
  then show ?thesis
  proof cases
    case 1
    have "\<forall>a. mem h' a = (if flags AND GFP_ZERO \<noteq> 0 \<and> p \<le> a \<and> a < p + unat sz then 0 else mem h a)"
      using 1(8) by (simp add: byte_fill_eq)
    with 1(1-7) show ?thesis by blast
  next
    case 2
    with assms show ?thesis by auto
  qed
qed

theorem kmalloc_correct_witness:
  "\<exists>p h'. kmalloc 100 0 (kmalloc_init kheap_boot) = Some (p, h') \<and> heap_inv h' \<and> p \<noteq> NULL
     \<and> (\<exists>n \<ge> 100. live h' = [p \<mapsto> n])"
  using kmalloc_correct [OF boot_heap(1), of 100 0] boot_can_alloc [of 100]
  by (auto simp: boot_heap MAX_ALLOC_def)

text \<open>Live payloads lie inside the heap and are pairwise disjoint, with room for the block header
  between any two of them.\<close>

theorem kmalloc_live_disjoint:
  assumes "heap_inv h" and "live h p = Some n"
  shows "heap_start h + HDR \<le> p \<and> p + n \<le> heap_end h
    \<and> (\<forall>q m. live h q = Some m \<and> q \<noteq> p \<longrightarrow> p + n + HDR \<le> q \<or> q + m + HDR \<le> p)"
proof -
  obtain fs where wf: "heap_wf h (blocks h) fs" using assms(1) by (auto simp: heap_inv_def)
  show ?thesis
    using live_ofD(6,7) [OF wf assms(2)] live_apart [OF wf] assms(2) by (auto simp: neq_iff)
qed

theorem kmalloc_live_disjoint_witness:
  "\<exists>p h' n. kmalloc 100 0 (kmalloc_init kheap_boot) = Some (p, h') \<and> live h' p = Some n
     \<and> heap_start h' + HDR \<le> p \<and> p + n \<le> heap_end h'"
proof -
  obtain p h' where k: "kmalloc 100 0 (kmalloc_init kheap_boot) = Some (p, h')" "p \<noteq> NULL" "heap_inv h'"
    using kmalloc_cases [OF boot_heap(1), of 100 0] boot_can_alloc [of 100] by (auto simp: MAX_ALLOC_def)
  then obtain n where "live h' p = Some n" using kh.alloc_live [OF boot_heap(1) k(1,2)] by auto
  with k kmalloc_live_disjoint [OF k(3), of p n] show ?thesis by blast
qed

text \<open>C2. Releasing a live payload removes exactly that payload, keeps the heap well-formed and writes no
  payload byte; a second \<^verbatim>\<open>kfree\<close> of the same pointer right after it is caught by the magic number and
  changes nothing.\<close>

theorem kfree_correct:
  assumes "heap_inv h" and "live h p = Some n"
  shows "heap_inv (kfree p h) \<and> live (kfree p h) = (live h)(p := None) \<and> mem (kfree p h) = mem h
    \<and> kfree p (kfree p h) = kfree p h"
proof -
  have l: "live h p \<noteq> None" using assms(2) by simp
  obtain fs where wf: "heap_wf h (blocks h) fs" using assms(1) by (auto simp: heap_inv_def)
  note P = live_ofD [OF wf assms(2)]
  define b where "b = p - HDR"
  have k: "kfree p h = coalesce_next b (push_free b h)"
    using P(2,3) by (simp add: kfree_def kfree_block_locked_def data_to_block_def Let_def b_def HDR_def)
  have "bmagic (push_free b h) b = BLOCK_MAGIC_FREE"
    using heap_wf_free(2) [OF push_free_wf(1) [OF wf P(1,2)]] by (simp add: b_def)
  then have "bmagic (kfree p h) b \<noteq> BLOCK_MAGIC_USED"
    unfolding k using coalesce_next_magic [of b "push_free b h" b] by auto
  then have "kfree p (kfree p h) = kfree p h"
    by (simp add: kfree_def [of p "kfree p h"] data_to_block_def b_def)
  then show ?thesis
    using kh.release_inv [OF assms(1) l] kh.release_lv [OF assms(1) l] by (simp add: k)
qed

theorem kfree_correct_witness:
  "\<exists>p h' n. kmalloc 100 0 (kmalloc_init kheap_boot) = Some (p, h') \<and> live h' p = Some n
     \<and> live (kfree p h') = (live h')(p := None) \<and> kfree p (kfree p h') = kfree p h'"
proof -
  obtain p h' where k: "kmalloc 100 0 (kmalloc_init kheap_boot) = Some (p, h')" "p \<noteq> NULL" "heap_inv h'"
    using kmalloc_cases [OF boot_heap(1), of 100 0] boot_can_alloc [of 100] by (auto simp: MAX_ALLOC_def)
  then obtain n where "live h' p = Some n" using kh.alloc_live [OF boot_heap(1) k(1,2)] by auto
  with k kfree_correct [OF k(3), of p n] show ?thesis by blast
qed

text \<open>\<^verbatim>\<open>krealloc\<close> of a live payload to a non-zero size always returns. On failure it returns
  \<^verbatim>\<open>NULL\<close> and the heap is untouched, so the old payload is still live; on success the old payload has been
  replaced by one of at least the new length that starts with the old contents.\<close>

theorem krealloc_correct:
  assumes inv: "heap_inv h" and lp: "live h p = Some n" and nz: "new_size \<noteq> 0"
  shows "\<exists>q h'. krealloc p new_size flags h = Some (q, h') \<and> heap_inv h'
    \<and> (q = NULL \<longrightarrow> h' = h)
    \<and> (q \<noteq> NULL \<longrightarrow> (\<exists>m \<ge> unat new_size. live h' = (live h)(p := None, q \<mapsto> m))
         \<and> read_bytes (mem h') q (min n (unat new_size)) = read_bytes (mem h) p (min n (unat new_size)))"
proof -
  let ?old = "of_nat (bsize h (data_to_block p)) - of_nat HDR :: u64"
  have old: "unat ?old = n" and p0: "p \<noteq> NULL" using live_old_size [OF inv lp] by auto
  show ?thesis
  proof (cases "new_size \<le> ?old")
    case True
    then have "krealloc p new_size flags h = Some (p, h)" using p0 nz by (simp add: krealloc_def Let_def)
    moreover have "unat new_size \<le> n" using True old by (simp add: word_le_nat_alt)
    moreover have "live h = (live h)(p := None, p \<mapsto> n)" using lp by (auto simp: fun_eq_iff)
    ultimately show ?thesis using inv p0 by (intro exI [of _ p] exI [of _ h]) auto
  next
    case False
    then have ns: "n < unat new_size" using old by (simp add: word_le_nat_alt)
    obtain q h1 where k: "kmalloc new_size flags h = Some (q, h1)" using kh.alloc_total [OF inv] by blast
    show ?thesis
    proof (cases "q = NULL")
      case True
      then have "krealloc p new_size flags h = Some (NULL, h1)"
        using k p0 nz False by (simp add: krealloc_def Let_def)
      moreover have "h1 = h" using kh.alloc_fails [OF inv] k True by blast
      ultimately show ?thesis using inv by blast
    next
      case q0: False
      define h2 where "h2 = h1\<lparr>mem := byte_copy n q p (mem h1)\<rparr>"
      have r: "krealloc p new_size flags h = Some (q, kfree p h2)"
        using k p0 nz False q0 old by (simp add: krealloc_def Let_def kmalloc_set_owner_def h2_def)
      have i2: "heap_inv h2" using kh.alloc_inv [OF inv k] by (simp add: h2_def)
      obtain m where m: "unat new_size \<le> m" "live h2 = (live h)(q \<mapsto> m)"
        using kh.alloc_adds [OF inv k q0] by (auto simp: h2_def)
      have pq: "q \<noteq> p" and ap: "q + unat new_size \<le> p \<or> p + n \<le> q"
        using kh.alloc_apart [OF inv k q0 lp] by auto
      have l2: "live h2 p \<noteq> None" using m lp pq by simp
      have "live (kfree p h2) = (live h)(p := None, q \<mapsto> m)"
        using kh.release_lv [OF i2 l2] m pq by (simp add: fun_upd_twist)
      moreover have "mem h1 a = mem h a" if "p \<le> a" "a < p + n" for a
        using kmalloc_cases [OF inv, of new_size flags] k q0 that ap by (auto simp: byte_fill_eq)
      then have "read_bytes (mem (kfree p h2)) q n = read_bytes (mem h) p n"
        using ap ns by (intro nth_equalityI) (auto simp: kfree_mem h2_def byte_copy_eq)
      ultimately show ?thesis
        using r m(1) kh.release_inv [OF i2 l2] q0 ns by (intro exI [of _ q] exI [of _ "kfree p h2"]) auto
    qed
  qed
qed

theorem krealloc_correct_witness:
  "\<exists>p h q h'. kmalloc 24 0 (kmalloc_init kheap_boot) = Some (p, h) \<and> live h p \<noteq> None
     \<and> krealloc p 1000 0 h = Some (q, h') \<and> heap_inv h'"
proof -
  obtain p h' where k: "kmalloc 24 0 (kmalloc_init kheap_boot) = Some (p, h')" "p \<noteq> NULL" "heap_inv h'"
    using kmalloc_cases [OF boot_heap(1), of 24 0] boot_can_alloc [of 24] by (auto simp: MAX_ALLOC_def)
  then obtain n where "live h' p = Some n" using kh.alloc_live [OF boot_heap(1) k(1,2)] by auto
  with k krealloc_correct [OF k(3), of p n 1000 0] show ?thesis by auto
qed

text \<open>The heap statistics are exact: used bytes are the sizes of the used blocks, used and free
  add up to the total, and neither counter wraps.\<close>

theorem kmalloc_stats_exact:
  assumes "heap_inv h" and "kmalloc_get_stats h = (tot, used, free_mem)"
  shows "unat used = used_bytes (hdrs h) (blocks h) \<and> unat tot = heap_end h - heap_start h
    \<and> unat used + unat free_mem = unat tot"
proof -
  obtain fs where wf: "heap_wf h (blocks h) fs" using assms(1) by (auto simp: heap_inv_def)
  let ?u = "used_bytes (hdrs h) (blocks h)" and ?t = "heap_end h - heap_start h"
  have le: "?u \<le> ?t" using used_bytes_le heap_wfD(5) [OF wf] by blast
  have e: "used = of_nat ?u" "tot = of_nat ?t" "free_mem = tot - used"
    using assms(2) heap_wfD(3,10) [OF wf] by (auto simp: kmalloc_get_stats_def)
  have u: "unat used = ?u" and t: "unat tot = ?t"
    unfolding e(1,2) using le heap_wfD(4) [OF wf] by (auto intro!: unat_of_nat_small)
  then have "used \<le> tot" using le by (simp add: word_le_nat_alt)
  then have "unat free_mem = ?t - ?u" using u t e(3) by (simp add: unat_sub)
  with u t le show ?thesis by simp
qed

theorem kmalloc_stats_exact_witness:
  "kmalloc_get_stats (kmalloc_init kheap_boot) = (of_nat HEAP_SIZE, 0, of_nat HEAP_SIZE)
   \<and> unat (of_nat HEAP_SIZE :: u64) = heap_end (kmalloc_init kheap_boot) - heap_start (kmalloc_init kheap_boot)"
proof -
  have s: "kmalloc_get_stats (kmalloc_init kheap_boot) = (of_nat HEAP_SIZE, 0, of_nat HEAP_SIZE)"
    by (simp add: kmalloc_get_stats_def kmalloc_init_def Let_def)
  show ?thesis using kmalloc_stats_exact [OF boot_heap(1) s] s by blast
qed

end
