(* ===== verification/Pipe.thy ===== *)
theory Pipe
  imports Kmalloc
begin

text \<open>
  Pipes, \<^verbatim>\<open>kernel/ipc/pipe.c\<close>: a ring buffer of \<^verbatim>\<open>PIPE_SIZE\<close> bytes in a heap block, shared by
  readers and writers. The code holds the pipe's spinlock except while it waits, so an operation is
  a sequence of critical sections; each section is one function here, and a section that ends in the
  wait loop reports \<open>RBlocked\<close> or \<open>WBlocked\<close>. The step relation \<open>pipe_step\<close> interleaves the
  sections of any number of threads. Positions and counts (\<^verbatim>\<open>size_t\<close>) are natural numbers; the one
  subtraction that can wrap is written out. The ring bytes are read and written in the memory of the
  kernel heap of \<^verbatim>\<open>Kmalloc\<close>.
\<close>

section \<open>State\<close>

definition PIPE_SIZE :: nat where "PIPE_SIZE = 4096"

record pipe =
  p_buffer :: ptr
  read_pos :: nat
  write_pos :: nat
  p_count :: nat
  readers :: int
  writers :: int
  p_lock :: bool

definition pipe_lock :: "pipe \<Rightarrow> bool \<times> pipe" where
  "pipe_lock p = (p_lock p, p\<lparr>p_lock := True\<rparr>)"

definition pipe_unlock :: "pipe \<Rightarrow> pipe" where
  "pipe_unlock p = p\<lparr>p_lock := False\<rparr>"

section \<open>Reading\<close>

text \<open>The copy loop: \<open>n\<close> bytes from the ring to the caller.\<close>

fun ring_get :: "nat \<Rightarrow> memory \<Rightarrow> pipe \<Rightarrow> bytes \<times> pipe" where
  "ring_get 0 m p = ([], p)"
| "ring_get (Suc n) m p =
     (let b = m (p_buffer p + read_pos p);
          (bs, p) = ring_get n m (p\<lparr>read_pos := (read_pos p + 1) mod PIPE_SIZE\<rparr>)
      in (b # bs, p))"

datatype read_result = RDone int bytes | RBlocked nat

text \<open>From the test of the wait loop to the unlock: either the loop unlocks and spins, or the bytes
  are copied.\<close>

definition pipe_read_locked :: "nat \<Rightarrow> memory \<Rightarrow> pipe \<Rightarrow> read_result \<times> pipe" where
  "pipe_read_locked cnt m p =
     (if p_count p = 0 \<and> writers p > 0 then (RBlocked cnt, pipe_unlock p)
      else let to_read = (if cnt < p_count p then cnt else p_count p);
               (bs, p) = ring_get to_read m p;
               p = p\<lparr>p_count := p_count p - to_read\<rparr>
           in (RDone (int to_read) bs, pipe_unlock p))"

definition pipe_read :: "nat \<Rightarrow> memory \<Rightarrow> pipe \<Rightarrow> read_result \<times> pipe" where
  "pipe_read cnt m p =
     (let p = snd (pipe_lock p) in
      if writers p = 0 \<and> p_count p = 0 then (RDone 0 [], pipe_unlock p)
      else pipe_read_locked cnt m p)"

text \<open>Back from the wait: the lock is taken again and the wait loop tested again.\<close>

definition pipe_read_resume :: "nat \<Rightarrow> memory \<Rightarrow> pipe \<Rightarrow> read_result \<times> pipe" where
  "pipe_read_resume cnt m p = pipe_read_locked cnt m (snd (pipe_lock p))"

section \<open>Writing\<close>

fun ring_put :: "bytes \<Rightarrow> memory \<Rightarrow> pipe \<Rightarrow> memory \<times> pipe" where
  "ring_put [] m p = (m, p)"
| "ring_put (b # bs) m p =
     ring_put bs (m(p_buffer p + write_pos p := b)) (p\<lparr>write_pos := (write_pos p + 1) mod PIPE_SIZE\<rparr>)"

datatype write_result = WDone int | WBlocked nat

definition pipe_space :: "pipe \<Rightarrow> nat" where
  "pipe_space p = (if p_count p \<le> PIPE_SIZE then PIPE_SIZE - p_count p else 2 ^ 64 + PIPE_SIZE - p_count p)"

text \<open>The outer loop with \<open>written\<close> bytes done, up to the point where it unlocks: at the end, in the
  wait loop, or because the readers have gone. It would not end on a full pipe with a negative
  reader count, hence the option.\<close>

partial_function (option) pipe_write_locked ::
    "bytes \<Rightarrow> nat \<Rightarrow> memory \<Rightarrow> pipe \<Rightarrow> (write_result \<times> memory \<times> pipe) option" where
  "pipe_write_locked buf written m p =
     (if written < length buf then
        if p_count p \<ge> PIPE_SIZE \<and> readers p > 0 then Some (WBlocked written, m, pipe_unlock p)
        else if readers p = 0 then
          Some (WDone (if written > 0 then int written else - EPIPE), m, pipe_unlock p)
        else
          (let space = pipe_space p;
               to_write = (if length buf - written < space then length buf - written else space);
               (m, p) = ring_put (take to_write (drop written buf)) m p;
               p = p\<lparr>p_count := p_count p + to_write\<rparr>
           in pipe_write_locked buf (written + to_write) m p)
      else Some (WDone (int written), m, pipe_unlock p))"

definition pipe_write :: "bytes \<Rightarrow> memory \<Rightarrow> pipe \<Rightarrow> (write_result \<times> memory \<times> pipe) option" where
  "pipe_write buf m p =
     (let p = snd (pipe_lock p) in
      if readers p = 0 then Some (WDone (- EPIPE), m, pipe_unlock p)
      else pipe_write_locked buf 0 m p)"

definition pipe_write_resume :: "bytes \<Rightarrow> nat \<Rightarrow> memory \<Rightarrow> pipe \<Rightarrow> (write_result \<times> memory \<times> pipe) option" where
  "pipe_write_resume buf written m p = pipe_write_locked buf written m (snd (pipe_lock p))"

section \<open>Creation and release\<close>

text \<open>The objects of the component by address: the pipes and the open files that refer to them.\<close>

datatype pipe_ops = No_ops | Read_ops | Write_ops

record pfile =
  f_op :: pipe_ops
  f_flags :: u32
  private_data :: ptr
  f_count :: int

record pipe_sys =
  kh :: kheap
  pipes :: "ptr \<Rightarrow> pipe"
  files :: "ptr \<Rightarrow> pfile"

definition O_RDONLY :: u32 where "O_RDONLY = 0"
definition O_WRONLY :: u32 where "O_WRONLY = 1"

text \<open>\<^verbatim>\<open>sizeof(struct pipe)\<close> and \<^verbatim>\<open>sizeof(struct file)\<close> on the 64-bit targets.\<close>

definition SIZEOF_PIPE :: u64 where "SIZEOF_PIPE = 48"
definition SIZEOF_FILE :: u64 where "SIZEOF_FILE = 48"

definition do_pipe :: "pipe_sys \<Rightarrow> ((int \<times> ptr \<times> ptr) \<times> pipe_sys) option" where
  "do_pipe s = do {
     (p, h) \<leftarrow> kzalloc SIZEOF_PIPE GFP_KERNEL (kh s);
     let s = s\<lparr>kh := h\<rparr>;
     if p = NULL then Some ((- ENOMEM, NULL, NULL), s)
     else do {
       (buf, h) \<leftarrow> kmalloc (of_nat PIPE_SIZE) GFP_KERNEL (kh s);
       let s = s\<lparr>kh := h\<rparr>;
       if buf = NULL then Some ((- ENOMEM, NULL, NULL), s\<lparr>kh := kfree p (kh s)\<rparr>)
       else do {
         let s = s\<lparr>pipes := (pipes s)(p := \<lparr>p_buffer = buf, read_pos = 0, write_pos = 0, p_count = 0,
                                          readers = 1, writers = 1, p_lock = False\<rparr>)\<rparr>;
         (rf, h) \<leftarrow> kzalloc SIZEOF_FILE GFP_KERNEL (kh s);
         let s = s\<lparr>kh := h\<rparr>;
         (wrf, h) \<leftarrow> kzalloc SIZEOF_FILE GFP_KERNEL (kh s);
         let s = s\<lparr>kh := h\<rparr>;
         if rf = NULL \<or> wrf = NULL then
           Some ((- ENOMEM, NULL, NULL),
                 s\<lparr>kh := kfree p (kfree (p_buffer (pipes s p)) (kfree wrf (kfree rf (kh s))))\<rparr>)
         else
           Some ((0, rf, wrf),
                 s\<lparr>files := (files s)
                     (rf := \<lparr>f_op = Read_ops, f_flags = O_RDONLY, private_data = p, f_count = 1\<rparr>,
                      wrf := \<lparr>f_op = Write_ops, f_flags = O_WRONLY, private_data = p, f_count = 1\<rparr>)\<rparr>)
       }
     }
   }"

definition pipe_free_unused :: "ptr \<Rightarrow> pipe_sys \<Rightarrow> pipe_sys" where
  "pipe_free_unused p s =
     (if readers (pipes s p) = 0 \<and> writers (pipes s p) = 0
      then s\<lparr>pipes := (pipes s)(p := pipe_unlock (pipes s p)),
             kh := kfree p (kfree (p_buffer (pipes s p)) (kh s))\<rparr>
      else s\<lparr>pipes := (pipes s)(p := pipe_unlock (pipes s p))\<rparr>)"

definition pipe_release_read :: "ptr \<Rightarrow> pipe_sys \<Rightarrow> int \<times> pipe_sys" where
  "pipe_release_read file s =
     (let p = private_data (files s file) in
      if p = NULL then (0, s)
      else (0, pipe_free_unused p
                 (s\<lparr>pipes := (pipes s)(p := (snd (pipe_lock (pipes s p)))\<lparr>readers := readers (pipes s p) - 1\<rparr>)\<rparr>)))"

definition pipe_release_write :: "ptr \<Rightarrow> pipe_sys \<Rightarrow> int \<times> pipe_sys" where
  "pipe_release_write file s =
     (let p = private_data (files s file) in
      if p = NULL then (0, s)
      else (0, pipe_free_unused p
                 (s\<lparr>pipes := (pipes s)(p := (snd (pipe_lock (pipes s p)))\<lparr>writers := writers (pipes s p) - 1\<rparr>)\<rparr>)))"

text \<open>The file-level entry points: a file without a pipe gives \<^verbatim>\<open>-EIO\<close>.\<close>

definition pipe_file_read :: "ptr \<Rightarrow> nat \<Rightarrow> pipe_sys \<Rightarrow> read_result \<times> pipe_sys" where
  "pipe_file_read file cnt s =
     (let p = private_data (files s file) in
      if p = NULL then (RDone (- EIO) [], s)
      else let (r, q) = pipe_read cnt (mem (kh s)) (pipes s p) in (r, s\<lparr>pipes := (pipes s)(p := q)\<rparr>))"

definition pipe_file_write :: "ptr \<Rightarrow> bytes \<Rightarrow> pipe_sys \<Rightarrow> (write_result \<times> pipe_sys) option" where
  "pipe_file_write file buf s =
     (let p = private_data (files s file) in
      if p = NULL then Some (WDone (- EIO), s)
      else map_option (\<lambda>(r, m, q). (r, s\<lparr>pipes := (pipes s)(p := q), kh := (kh s)\<lparr>mem := m\<rparr>\<rparr>))
             (pipe_write buf (mem (kh s)) (pipes s p)))"

section \<open>Interleaving\<close>

text \<open>Any number of threads use one pipe. A thread is idle, or waits in the loop of a read or of a
  write. \<open>ps_in\<close> and \<open>ps_out\<close> record the bytes accepted from writers and handed to readers so far.\<close>

datatype pthread = Idle | Reading nat | Writing bytes nat

record psys =
  ps_pipe :: pipe
  ps_mem :: memory
  ps_thr :: "nat \<Rightarrow> pthread"
  ps_in :: bytes
  ps_out :: bytes

fun after_read :: "read_result \<Rightarrow> pthread" where
  "after_read (RDone _ _) = Idle"
| "after_read (RBlocked n) = Reading n"

fun handed :: "read_result \<Rightarrow> bytes" where
  "handed (RDone _ bs) = bs"
| "handed (RBlocked _) = []"

fun after_write :: "bytes \<Rightarrow> write_result \<Rightarrow> pthread" where
  "after_write buf (WDone _) = Idle"
| "after_write buf (WBlocked w) = Writing buf w"

fun accepted :: "write_result \<Rightarrow> nat" where
  "accepted (WDone r) = nat r"
| "accepted (WBlocked w) = w"

inductive pipe_step :: "psys \<Rightarrow> psys \<Rightarrow> bool" where
  read_call: "\<lbrakk> ps_thr s t = Idle; \<not> p_lock (ps_pipe s); 0 < readers (ps_pipe s);
      pipe_read n (ps_mem s) (ps_pipe s) = (r, q) \<rbrakk>
    \<Longrightarrow> pipe_step s (s\<lparr>ps_pipe := q, ps_thr := (ps_thr s)(t := after_read r), ps_out := ps_out s @ handed r\<rparr>)"
| read_again: "\<lbrakk> ps_thr s t = Reading n; \<not> p_lock (ps_pipe s);
      pipe_read_resume n (ps_mem s) (ps_pipe s) = (r, q) \<rbrakk>
    \<Longrightarrow> pipe_step s (s\<lparr>ps_pipe := q, ps_thr := (ps_thr s)(t := after_read r), ps_out := ps_out s @ handed r\<rparr>)"
| write_call: "\<lbrakk> ps_thr s t = Idle; \<not> p_lock (ps_pipe s); 0 < writers (ps_pipe s);
      pipe_write buf (ps_mem s) (ps_pipe s) = Some (r, m, q) \<rbrakk>
    \<Longrightarrow> pipe_step s (s\<lparr>ps_pipe := q, ps_mem := m, ps_thr := (ps_thr s)(t := after_write buf r),
                      ps_in := ps_in s @ take (accepted r) buf\<rparr>)"
| write_again: "\<lbrakk> ps_thr s t = Writing buf w; \<not> p_lock (ps_pipe s);
      pipe_write_resume buf w (ps_mem s) (ps_pipe s) = Some (r, m, q) \<rbrakk>
    \<Longrightarrow> pipe_step s (s\<lparr>ps_pipe := q, ps_mem := m, ps_thr := (ps_thr s)(t := after_write buf r),
                      ps_in := ps_in s @ drop w (take (accepted r) buf)\<rparr>)"
| close_read: "\<lbrakk> \<not> p_lock (ps_pipe s); 0 < readers (ps_pipe s) \<rbrakk>
    \<Longrightarrow> pipe_step s (s\<lparr>ps_pipe := (ps_pipe s)\<lparr>readers := readers (ps_pipe s) - 1\<rparr>\<rparr>)"
| close_write: "\<lbrakk> \<not> p_lock (ps_pipe s); 0 < writers (ps_pipe s) \<rbrakk>
    \<Longrightarrow> pipe_step s (s\<lparr>ps_pipe := (ps_pipe s)\<lparr>writers := writers (ps_pipe s) - 1\<rparr>\<rparr>)"

definition psys_init :: "ptr \<Rightarrow> memory \<Rightarrow> psys" where
  "psys_init buf m = \<lparr>ps_pipe = \<lparr>p_buffer = buf, read_pos = 0, write_pos = 0, p_count = 0, readers = 1,
     writers = 1, p_lock = False\<rparr>, ps_mem = m, ps_thr = (\<lambda>_. Idle), ps_in = [], ps_out = []\<rparr>"

definition pipe_reachable :: "ptr \<Rightarrow> memory \<Rightarrow> psys \<Rightarrow> bool" where
  "pipe_reachable buf m s = pipe_step\<^sup>*\<^sup>* (psys_init buf m) s"

section \<open>The ring buffer holds a queue\<close>

definition ring_at :: "pipe \<Rightarrow> nat \<Rightarrow> ptr" where
  "ring_at p i = p_buffer p + i mod PIPE_SIZE"

definition contents :: "memory \<Rightarrow> pipe \<Rightarrow> bytes" where
  "contents m p = map (\<lambda>i. m (ring_at p (read_pos p + i))) [0..<p_count p]"

definition pipe_ok :: "pipe \<Rightarrow> bool" where
  "pipe_ok p \<longleftrightarrow> p_count p \<le> PIPE_SIZE \<and> read_pos p < PIPE_SIZE
     \<and> write_pos p = (read_pos p + p_count p) mod PIPE_SIZE"

lemma PIPE_SIZE_pos [simp]: "0 < PIPE_SIZE" by (simp add: PIPE_SIZE_def)

lemma mod_shift_inj:
  assumes "(w + i) mod n = (w + j) mod n" and "i < n" and "j < n"
  shows "i = (j::nat)"
proof -
  have "n dvd (i - j)" if "j \<le> i" using assms(1) that by (simp add: mod_eq_dvd_iff_nat)
  moreover have "n dvd (j - i)" if "i \<le> j" using assms(1) [symmetric] that by (simp add: mod_eq_dvd_iff_nat)
  ultimately show ?thesis using assms(2,3) by (cases "j \<le> i") (auto dest!: dvd_imp_le)
qed

lemma ring_get_eq:
  "read_pos p < PIPE_SIZE \<Longrightarrow>
   ring_get n m p = (map (\<lambda>i. m (ring_at p (read_pos p + i))) [0..<n],
                     p\<lparr>read_pos := (read_pos p + n) mod PIPE_SIZE\<rparr>)"
proof (induction n arbitrary: p)
  case (Suc n)
  let ?p = "p\<lparr>read_pos := (read_pos p + 1) mod PIPE_SIZE\<rparr>"
  have "ring_get n m ?p = (map (\<lambda>i. m (ring_at ?p (read_pos ?p + i))) [0..<n],
                     ?p\<lparr>read_pos := (read_pos ?p + n) mod PIPE_SIZE\<rparr>)"
    by (rule Suc.IH) simp
  moreover have "ring_at ?p (read_pos ?p + i) = ring_at p (read_pos p + Suc i)" for i
    by (simp add: ring_at_def mod_Suc_eq mod_add_left_eq)
  moreover have "m (p_buffer p + read_pos p) = m (ring_at p (read_pos p))"
    using Suc.prems by (simp add: ring_at_def)
  moreover have "[0..<Suc n] = 0 # map Suc [0..<n]" by (metis map_Suc_upt upt_conv_Cons zero_less_Suc)
  ultimately show ?case by (simp add: Let_def mod_add_left_eq)
qed simp

lemma ring_put_pipe:
  "write_pos p < PIPE_SIZE \<Longrightarrow> snd (ring_put bs m p) = p\<lparr>write_pos := (write_pos p + length bs) mod PIPE_SIZE\<rparr>"
  by (induction bs arbitrary: m p) (simp_all add: mod_add_left_eq)

lemma ring_put_other:
  assumes "\<And>i. i < length bs \<Longrightarrow> a \<noteq> ring_at p (write_pos p + i)" and "write_pos p < PIPE_SIZE"
  shows "fst (ring_put bs m p) a = m a"
  using assms
proof (induction bs arbitrary: m p)
  case (Cons b bs)
  let ?p = "p\<lparr>write_pos := (write_pos p + 1) mod PIPE_SIZE\<rparr>"
  have e: "ring_at ?p (write_pos ?p + i) = ring_at p (write_pos p + Suc i)" for i
    by (simp add: ring_at_def mod_Suc_eq mod_add_left_eq)
  have "a \<noteq> ring_at ?p (write_pos ?p + i)" if "i < length bs" for i
    using Cons.prems(1) [of "Suc i"] that unfolding e by simp
  then have "fst (ring_put bs (m(p_buffer p + write_pos p := b)) ?p) a = (m(p_buffer p + write_pos p := b)) a"
    by (intro Cons.IH) simp_all
  moreover have "a \<noteq> p_buffer p + write_pos p"
    using Cons.prems(1) [of 0] Cons.prems(2) by (simp add: ring_at_def)
  ultimately show ?case by simp
qed simp

lemma ring_put_new:
  assumes "length bs \<le> PIPE_SIZE" and "write_pos p < PIPE_SIZE" and "i < length bs"
  shows "fst (ring_put bs m p) (ring_at p (write_pos p + i)) = bs ! i"
  using assms
proof (induction bs arbitrary: m p i)
  case (Cons b bs)
  let ?p = "p\<lparr>write_pos := (write_pos p + 1) mod PIPE_SIZE\<rparr>"
  have e: "ring_at ?p (write_pos ?p + i) = ring_at p (write_pos p + Suc i)" for i
    by (simp add: ring_at_def mod_Suc_eq mod_add_left_eq)
  have len: "length bs < PIPE_SIZE" using Cons.prems(1) by simp
  show ?case
  proof (cases i)
    case 0
    have "ring_at p (write_pos p) \<noteq> ring_at ?p (write_pos ?p + j)" if "j < length bs" for j
      using mod_shift_inj [of "write_pos p" 0 PIPE_SIZE "Suc j"] that len unfolding e by (auto simp: ring_at_def)
    then have "fst (ring_put bs (m(p_buffer p + write_pos p := b)) ?p) (ring_at p (write_pos p)) = b"
      using Cons.prems(2) by (subst ring_put_other) (auto simp: ring_at_def)
    then show ?thesis using 0 by simp
  next
    case (Suc j)
    then show ?thesis
      using Cons.IH [of ?p j "m(p_buffer p + write_pos p := b)"] Cons.prems len unfolding e by (simp add: fun_upd_def)
  qed
qed simp

text \<open>Taking \<open>n\<close> bytes removes the first \<open>n\<close>; putting bytes that fit appends them.\<close>

lemma pipe_ok_get:
  assumes "pipe_ok p" and "n \<le> p_count p"
  shows "fst (ring_get n m p) = take n (contents m p)"
    and "pipe_ok ((snd (ring_get n m p))\<lparr>p_count := p_count p - n\<rparr>)"
    and "contents m ((snd (ring_get n m p))\<lparr>p_count := p_count p - n\<rparr>) = drop n (contents m p)"
proof -
  have rp: "read_pos p < PIPE_SIZE" using assms by (simp add: pipe_ok_def)
  show "fst (ring_get n m p) = take n (contents m p)"
    using assms(2) by (simp add: ring_get_eq [OF rp] contents_def take_map)
  show "pipe_ok ((snd (ring_get n m p))\<lparr>p_count := p_count p - n\<rparr>)"
  proof -
    obtain k where "p_count p = n + k" using assms(2) le_Suc_ex by blast
    then show ?thesis using assms by (auto simp: ring_get_eq [OF rp] pipe_ok_def mod_add_left_eq add.assoc)
  qed
  show "contents m ((snd (ring_get n m p))\<lparr>p_count := p_count p - n\<rparr>) = drop n (contents m p)"
    by (intro nth_equalityI)
      (auto simp: ring_get_eq [OF rp] contents_def ring_at_def mod_add_left_eq add.assoc)
qed

lemma pipe_ok_put:
  assumes ok: "pipe_ok p" and len: "length bs \<le> PIPE_SIZE - p_count p"
  shows "pipe_ok ((snd (ring_put bs m p))\<lparr>p_count := p_count p + length bs\<rparr>)"
    and "contents (fst (ring_put bs m p)) ((snd (ring_put bs m p))\<lparr>p_count := p_count p + length bs\<rparr>)
           = contents m p @ bs"
proof -
  have wp: "write_pos p < PIPE_SIZE" and cnt: "p_count p \<le> PIPE_SIZE" using ok by (auto simp: pipe_ok_def)
  note pp = ring_put_pipe [OF wp, of bs m]
  show "pipe_ok ((snd (ring_put bs m p))\<lparr>p_count := p_count p + length bs\<rparr>)"
    using ok len by (auto simp: pp pipe_ok_def mod_add_left_eq add.assoc)
  let ?p = "(snd (ring_put bs m p))\<lparr>p_count := p_count p + length bs\<rparr>"
  have at: "ring_at ?p (read_pos ?p + i) = ring_at p (read_pos p + i)" for i by (simp add: pp ring_at_def)
  have w: "ring_at p (write_pos p + j) = ring_at p (read_pos p + (p_count p + j))" for j
    using ok by (simp add: ring_at_def pipe_ok_def mod_add_left_eq add.assoc)
  show "contents (fst (ring_put bs m p)) ?p = contents m p @ bs"
  proof (rule nth_equalityI)
    show "length (contents (fst (ring_put bs m p)) ?p) = length (contents m p @ bs)"
      by (simp add: contents_def)
    fix i assume "i < length (contents (fst (ring_put bs m p)) ?p)"
    then have i: "i < p_count p + length bs" by (simp add: contents_def)
    have l: "contents (fst (ring_put bs m p)) ?p ! i = fst (ring_put bs m p) (ring_at p (read_pos p + i))"
      using i at by (simp add: contents_def)
    show "contents (fst (ring_put bs m p)) ?p ! i = (contents m p @ bs) ! i"
    proof (cases "i < p_count p")
      case True
      have "ring_at p (read_pos p + i) \<noteq> ring_at p (write_pos p + j)" if "j < length bs" for j
      proof -
        have "p_count p + j < PIPE_SIZE" "i < PIPE_SIZE" using that len cnt True by linarith+
        then show ?thesis
          using mod_shift_inj [of "read_pos p" i PIPE_SIZE "p_count p + j"] True
          unfolding w by (auto simp: ring_at_def)
      qed
      then have "fst (ring_put bs m p) (ring_at p (read_pos p + i)) = m (ring_at p (read_pos p + i))"
        using wp by (intro ring_put_other) auto
      then show ?thesis using l True by (simp add: contents_def nth_append)
    next
      case False
      then have "fst (ring_put bs m p) (ring_at p (read_pos p + i)) = bs ! (i - p_count p)"
        using ring_put_new [of bs p "i - p_count p" m] i len wp unfolding w by simp
      then show ?thesis using l False by (simp add: contents_def nth_append)
    qed
  qed
qed

section \<open>The queue contract\<close>

text \<open>A bounded first-in-first-out queue as the reading and writing ends see it.\<close>

locale bounded_fifo =
  fixes ok :: "'s \<Rightarrow> bool" and cont :: "'s \<Rightarrow> 'a list" and cap :: nat
    and put :: "'a list \<Rightarrow> 's \<Rightarrow> 's" and get :: "nat \<Rightarrow> 's \<Rightarrow> 'a list \<times> 's"
  assumes cont_bound: "ok s \<Longrightarrow> length (cont s) \<le> cap"
    and put_ok: "\<lbrakk> ok s; length bs \<le> cap - length (cont s) \<rbrakk> \<Longrightarrow> ok (put bs s)"
    and put_cont: "\<lbrakk> ok s; length bs \<le> cap - length (cont s) \<rbrakk> \<Longrightarrow> cont (put bs s) = cont s @ bs"
    and get_ok: "\<lbrakk> ok s; n \<le> length (cont s) \<rbrakk> \<Longrightarrow> ok (snd (get n s))"
    and get_take: "\<lbrakk> ok s; n \<le> length (cont s) \<rbrakk> \<Longrightarrow> fst (get n s) = take n (cont s)"
    and get_cont: "\<lbrakk> ok s; n \<le> length (cont s) \<rbrakk> \<Longrightarrow> cont (snd (get n s)) = drop n (cont s)"
begin

text \<open>What went in is what came out followed by what is still inside: kept by both operations.\<close>

lemma history_put:
  "\<lbrakk> ok s; length bs \<le> cap - length (cont s); ins = outs @ cont s \<rbrakk> \<Longrightarrow> ins @ bs = outs @ cont (put bs s)"
  by (simp add: put_cont)

lemma history_get:
  "\<lbrakk> ok s; n \<le> length (cont s); ins = outs @ cont s \<rbrakk> \<Longrightarrow> ins = (outs @ fst (get n s)) @ cont (snd (get n s))"
  by (simp add: get_take get_cont)

text \<open>A queue that was empty returns exactly what was put.\<close>

lemma put_get:
  "\<lbrakk> ok s; cont s = []; length bs \<le> cap \<rbrakk> \<Longrightarrow> fst (get (length bs) (put bs s)) = bs"
  using put_ok [of s bs] put_cont [of s bs] by (simp add: get_take)

end

definition queue_put :: "bytes \<Rightarrow> memory \<times> pipe \<Rightarrow> memory \<times> pipe" where
  "queue_put bs = (\<lambda>(m, p). let (m', q) = ring_put bs m p in (m', q\<lparr>p_count := p_count p + length bs\<rparr>))"

definition queue_get :: "nat \<Rightarrow> memory \<times> pipe \<Rightarrow> bytes \<times> memory \<times> pipe" where
  "queue_get n = (\<lambda>(m, p). let (bs, q) = ring_get n m p in (bs, m, q\<lparr>p_count := p_count p - n\<rparr>))"

lemma length_contents [simp]: "length (contents m p) = p_count p"
  by (simp add: contents_def)

interpretation pq: bounded_fifo "\<lambda>(m, p). pipe_ok p" "\<lambda>(m, p). contents m p" PIPE_SIZE queue_put queue_get
proof
  fix s :: "memory \<times> pipe" and bs n
  obtain m p where s: "s = (m, p)" by (cases s)
  assume "case s of (m, p) \<Rightarrow> pipe_ok p"
  then have ok: "pipe_ok p" by (simp add: s)
  then show "length (case s of (m, p) \<Rightarrow> contents m p) \<le> PIPE_SIZE" by (simp add: s pipe_ok_def)
  show "case queue_put bs s of (m, p) \<Rightarrow> pipe_ok p"
    "(case queue_put bs s of (m, p) \<Rightarrow> contents m p) = (case s of (m, p) \<Rightarrow> contents m p) @ bs"
    if "length bs \<le> PIPE_SIZE - length (case s of (m, p) \<Rightarrow> contents m p)"
    using pipe_ok_put [OF ok, of bs m] that by (simp_all add: s queue_put_def split_beta)
  show "case snd (queue_get n s) of (m, p) \<Rightarrow> pipe_ok p"
    "fst (queue_get n s) = take n (case s of (m, p) \<Rightarrow> contents m p)"
    "(case snd (queue_get n s) of (m, p) \<Rightarrow> contents m p) = drop n (case s of (m, p) \<Rightarrow> contents m p)"
    if "n \<le> length (case s of (m, p) \<Rightarrow> contents m p)"
    using pipe_ok_get [OF ok, of n m] that by (simp_all add: s queue_get_def split_beta)
qed

section \<open>The critical sections\<close>

lemma unlock_simps [simp]:
  "pipe_ok (pipe_unlock p) = pipe_ok p" "contents m (pipe_unlock p) = contents m p"
  "pipe_ok (snd (pipe_lock p)) = pipe_ok p" "contents m (snd (pipe_lock p)) = contents m p"
  "readers (snd (pipe_lock p)) = readers p" "writers (snd (pipe_lock p)) = writers p"
  "p_count (snd (pipe_lock p)) = p_count p" "readers (pipe_unlock p) = readers p"
  "writers (pipe_unlock p) = writers p" "p_count (pipe_unlock p) = p_count p" "\<not> p_lock (pipe_unlock p)"
  "p_buffer (pipe_unlock p) = p_buffer p" "p_buffer (snd (pipe_lock p)) = p_buffer p"
  by (simp_all add: pipe_unlock_def pipe_lock_def pipe_ok_def contents_def ring_at_def)

lemma ring_get_frame:
  "p_count (snd (ring_get n m p)) = p_count p" "readers (snd (ring_get n m p)) = readers p"
  "writers (snd (ring_get n m p)) = writers p" "p_buffer (snd (ring_get n m p)) = p_buffer p"
  by (induction n arbitrary: p) (simp_all add: split_beta Let_def)

lemma ring_put_frame:
  "p_count (snd (ring_put bs m p)) = p_count p" "readers (snd (ring_put bs m p)) = readers p"
  "writers (snd (ring_put bs m p)) = writers p" "p_buffer (snd (ring_put bs m p)) = p_buffer p"
  by (induction bs arbitrary: m p) simp_all

lemma pipe_read_locked_spec:
  assumes "pipe_ok p"
  shows "\<exists>q. pipe_read_locked n m p =
      ((if contents m p = [] \<and> writers p > 0 then RBlocked n
        else RDone (int (min n (p_count p))) (take n (contents m p))), q)
    \<and> pipe_ok q \<and> contents m q = drop n (contents m p)
    \<and> readers q = readers p \<and> writers q = writers p \<and> p_buffer q = p_buffer p \<and> \<not> p_lock q"
proof -
  have e: "contents m p = [] \<longleftrightarrow> p_count p = 0" by (metis length_contents length_0_conv)
  have d: "drop n (contents m p) = drop (min n (p_count p)) (contents m p)"
    "take n (contents m p) = take (min n (p_count p)) (contents m p)" by (simp_all add: min_def)
  have ii: "(if n < p_count p then n else p_count p) = min n (p_count p)" by simp
  show ?thesis
    using pipe_ok_get [OF assms, of "min n (p_count p)" m] assms
    unfolding pipe_read_locked_def ii d e
    by (auto simp: split_beta Let_def ring_get_frame)
qed

lemma pipe_write_locked_spec:
  assumes ok: "pipe_ok p" and r: "0 < readers p" and w: "written \<le> length buf"
  defines "k \<equiv> min (length buf - written) (PIPE_SIZE - p_count p)"
  shows "\<exists>m' q. pipe_write_locked buf written m p =
      Some ((if written + k = length buf then WDone (int (length buf)) else WBlocked (written + k)), m', q)
    \<and> pipe_ok q \<and> contents m' q = contents m p @ take k (drop written buf)
    \<and> readers q = readers p \<and> writers q = writers p \<and> p_buffer q = p_buffer p \<and> \<not> p_lock q"
proof (cases "written = length buf \<or> p_count p \<ge> PIPE_SIZE")
  case True
  then have "k = 0" by (auto simp: k_def)
  then show ?thesis
    using True r ok w by (subst pipe_write_locked.simps) auto
next
  case False
  let ?bs = "take k (drop written buf)"
  let ?m = "fst (ring_put ?bs m p)" and ?q = "(snd (ring_put ?bs m p))\<lparr>p_count := p_count p + k\<rparr>"
  have len: "length ?bs = k" "k \<le> PIPE_SIZE - p_count p" by (auto simp: k_def)
  have put: "pipe_ok ?q" "contents ?m ?q = contents m p @ ?bs"
    using pipe_ok_put [OF ok, of ?bs m] len by simp_all
  have sp: "(if length buf - written < pipe_space p then length buf - written else pipe_space p) = k"
    using False by (auto simp: pipe_space_def k_def)
  have step: "pipe_write_locked buf written m p = pipe_write_locked buf (written + k) ?m ?q"
    using False r w sp
    by (subst pipe_write_locked.simps) (simp add: Let_def split_beta ring_put_frame)
  have q: "readers ?q = readers p" "writers ?q = writers p" "p_buffer ?q = p_buffer p" "p_count ?q = p_count p + k"
    by (simp_all add: ring_put_frame)
  show ?thesis
  proof (cases "written + k = length buf")
    case True
    then show ?thesis unfolding step using put q by (subst pipe_write_locked.simps) auto
  next
    case f: False
    then have "p_count p + k = PIPE_SIZE" "written + k < length buf" using False w by (auto simp: k_def)
    then show ?thesis unfolding step using put q r f by (subst pipe_write_locked.simps) auto
  qed
qed

section \<open>Invariant of the interleaved system\<close>

definition psys_inv :: "psys \<Rightarrow> bool" where
  "psys_inv s \<longleftrightarrow> pipe_ok (ps_pipe s) \<and> \<not> p_lock (ps_pipe s) \<and> 0 \<le> readers (ps_pipe s) \<and> 0 \<le> writers (ps_pipe s)
     \<and> ps_in s = ps_out s @ contents (ps_mem s) (ps_pipe s)
     \<and> (\<forall>t buf w. ps_thr s t = Writing buf w \<longrightarrow> w < length buf)"

lemma pipe_read_spec:
  assumes "pipe_ok p" and "pipe_read n m p = (r, q) \<or> pipe_read_resume n m p = (r, q)"
  shows "pipe_ok q" "contents m p = handed r @ contents m q" "readers q = readers p" "writers q = writers p"
    "\<not> p_lock q"
proof -
  have "pipe_ok (snd (pipe_lock p))" using assms(1) by simp
  from pipe_read_locked_spec [OF this, of n m] assms
  show "pipe_ok q" "contents m p = handed r @ contents m q" "readers q = readers p" "writers q = writers p"
    "\<not> p_lock q"
    by (auto simp: pipe_read_def pipe_read_resume_def Let_def split: if_splits)
qed

lemma pipe_write_again_spec:
  assumes ok: "pipe_ok p" and r0: "0 \<le> readers p" and w: "w < length buf"
  shows "\<exists>r m' q. pipe_write_resume buf w m p = Some (r, m', q) \<and> pipe_ok q
    \<and> contents m' q = contents m p @ drop w (take (accepted r) buf)
    \<and> readers q = readers p \<and> writers q = writers p \<and> \<not> p_lock q
    \<and> (case r of WDone k \<Rightarrow> readers p = 0 \<or> k = int (length buf)
       | WBlocked w' \<Rightarrow> w' < length buf \<and> w' = w + (PIPE_SIZE - p_count p))"
proof (cases "readers p = 0")
  case True
  then show ?thesis
    using ok w unfolding pipe_write_resume_def by (subst pipe_write_locked.simps) auto
next
  case False
  then have r: "0 < readers (snd (pipe_lock p))" using r0 by simp
  let ?k = "min (length buf - w) (PIPE_SIZE - p_count p)"
  have d: "drop w (take (w + ?k) buf) = take ?k (drop w buf)" by (metis drop_take diff_add_inverse)
  have d': "drop w buf = take ?k (drop w buf)" if "w + ?k = length buf" using that w by (auto simp: min_def)
  show ?thesis
    using pipe_write_locked_spec [of "snd (pipe_lock p)" w buf m] ok r w d d'
    by (auto simp: pipe_write_resume_def split: if_splits)
qed

lemma pipe_write_eq_resume:
  assumes "buf \<noteq> []"
  shows "pipe_write buf m p = pipe_write_resume buf 0 m p"
  using assms by (auto simp: pipe_write_def pipe_write_resume_def Let_def pipe_write_locked.simps [of buf 0])

lemma pipe_write_call_spec:
  assumes ok: "pipe_ok p" and r0: "0 \<le> readers p"
  shows "\<exists>r m' q. pipe_write buf m p = Some (r, m', q) \<and> pipe_ok q
    \<and> contents m' q = contents m p @ take (accepted r) buf
    \<and> readers q = readers p \<and> writers q = writers p \<and> \<not> p_lock q
    \<and> (case r of WDone k \<Rightarrow> readers p = 0 \<or> k = int (length buf)
       | WBlocked w' \<Rightarrow> w' < length buf \<and> w' = PIPE_SIZE - p_count p)"
proof (cases "buf = []")
  case True
  then show ?thesis
    using ok by (auto simp: pipe_write_def Let_def pipe_write_locked.simps [of "[]"])
next
  case False
  then show ?thesis
    using pipe_write_again_spec [OF ok r0, of 0 buf m] by (simp add: pipe_write_eq_resume cong: write_result.case_cong)
qed

lemma psys_inv_init: "psys_inv (psys_init buf m)"
  by (simp add: psys_inv_def psys_init_def pipe_ok_def contents_def)

lemma psys_inv_step:
  assumes "pipe_step s s'" and "psys_inv s"
  shows "psys_inv s'"
  using assms
proof (induction rule: pipe_step.induct)
  case (read_call s t n r q)
  then show ?case
    using pipe_read_spec [of "ps_pipe s" n "ps_mem s" r q] by (cases r) (auto simp: psys_inv_def)
next
  case (read_again s t n r q)
  then show ?case
    using pipe_read_spec [of "ps_pipe s" n "ps_mem s" r q] by (cases r) (auto simp: psys_inv_def)
next
  case (write_call s t buf r m q)
  then show ?case
    using pipe_write_call_spec [of "ps_pipe s" buf "ps_mem s"] by (cases r) (auto simp: psys_inv_def)
next
  case (write_again s t buf w r m q)
  then have w: "w < length buf" by (auto simp: psys_inv_def)
  from write_again show ?case
    using pipe_write_again_spec [OF _ _ w, of "ps_pipe s" "ps_mem s"] by (cases r) (auto simp: psys_inv_def)
next
  case (close_read s)
  then show ?case by (auto simp: psys_inv_def pipe_ok_def contents_def ring_at_def)
next
  case (close_write s)
  then show ?case by (auto simp: psys_inv_def pipe_ok_def contents_def ring_at_def)
qed

lemma psys_inv_reachable:
  assumes "pipe_reachable buf m s"
  shows "psys_inv s"
  using assms unfolding pipe_reachable_def
  by (induction rule: rtranclp_induct) (auto intro: psys_inv_init psys_inv_step)

section \<open>Creation and release over the heap\<close>

text \<open>What \<^verbatim>\<open>do_pipe\<close> leaves behind: on success four fresh heap objects and an empty open pipe, on failure
  the same live objects as before.\<close>

definition fresh_pipe :: "pipe_sys \<Rightarrow> ptr \<Rightarrow> ptr \<Rightarrow> pipe_sys \<Rightarrow> bool" where
  "fresh_pipe s rf wrf s' \<longleftrightarrow>
     (let p = private_data (files s' rf); b = p_buffer (pipes s' p) in
      rf \<noteq> NULL \<and> wrf \<noteq> NULL \<and> p \<noteq> NULL \<and> b \<noteq> NULL
      \<and> private_data (files s' wrf) = p \<and> f_op (files s' rf) = Read_ops \<and> f_op (files s' wrf) = Write_ops
      \<and> distinct [p, b, rf, wrf] \<and> {p, b, rf, wrf} \<inter> dom (live (kh s)) = {}
      \<and> dom (live (kh s')) = dom (live (kh s)) \<union> {p, b, rf, wrf}
      \<and> (\<exists>n \<ge> PIPE_SIZE. live (kh s') b = Some n)
      \<and> pipe_ok (pipes s' p) \<and> contents (mem (kh s')) (pipes s' p) = []
      \<and> readers (pipes s' p) = 1 \<and> writers (pipes s' p) = 1)"

lemma do_pipe_cases:
  assumes inv: "heap_inv (kh s)"
  shows "\<exists>r rf wrf s'. do_pipe s = Some ((r, rf, wrf), s') \<and> heap_inv (kh s')
    \<and> (r = 0 \<and> fresh_pipe s rf wrf s' \<or> r = - ENOMEM \<and> live (kh s') = live (kh s))"
proof -
  note kz = kzalloc_def
  obtain p h1 where a1: "kmalloc SIZEOF_PIPE (GFP_KERNEL OR GFP_ZERO) (kh s) = Some (p, h1)"
    using kh.alloc_total [OF inv] by blast
  obtain e1 where i1: "heap_inv h1" "live h1 = (live (kh s))(p := e1)" "live (kh s) p = None" "e1 = None \<longleftrightarrow> p = NULL"
    using kh.alloc_upd [OF inv a1] .
  show ?thesis
  proof (cases "p = NULL")
    case True
    then have "do_pipe s = Some ((- ENOMEM, NULL, NULL), s\<lparr>kh := h1\<rparr>)" by (simp add: do_pipe_def kz a1)
    moreover have "live h1 = live (kh s)" using i1 True by (simp add: fun_upd_idem)
    ultimately show ?thesis using i1(1) by auto
  next
    case p0: False
    obtain b h2 where a2: "kmalloc (of_nat PIPE_SIZE) GFP_KERNEL h1 = Some (b, h2)"
      using kh.alloc_total [OF i1(1)] by blast
    obtain e2 where i2: "heap_inv h2" "live h2 = (live h1)(b := e2)" "live h1 b = None" "e2 = None \<longleftrightarrow> b = NULL"
      "\<forall>n. e2 = Some n \<longrightarrow> unat (of_nat PIPE_SIZE :: u64) \<le> n"
      using kh.alloc_upd [OF i1(1) a2] .
    have pb: "p \<noteq> b" using i1 i2 p0 by auto
    show ?thesis
    proof (cases "b = NULL")
      case True
      have "live h2 p \<noteq> None" using i1 i2 p0 pb by auto
      note f = kh.release_upd [OF i2(1), of p, OF disjI2, OF this]
      have "do_pipe s = Some ((- ENOMEM, NULL, NULL), s\<lparr>kh := kfree p h2\<rparr>)"
        using p0 True by (simp add: do_pipe_def kz a1 a2)
      moreover have "live (kfree p h2) = live (kh s)"
        using f(2) i1 i2 True kh.lv_NULL [OF inv] by (auto simp: fun_eq_iff)
      ultimately show ?thesis using f(1) by auto
    next
      case b0: False
      obtain rf h3 where a3: "kmalloc SIZEOF_FILE (GFP_KERNEL OR GFP_ZERO) h2 = Some (rf, h3)"
        using kh.alloc_total [OF i2(1)] by blast
      obtain e3 where i3: "heap_inv h3" "live h3 = (live h2)(rf := e3)" "live h2 rf = None" "e3 = None \<longleftrightarrow> rf = NULL"
        using kh.alloc_upd [OF i2(1) a3] .
      obtain wrf h4 where a4: "kmalloc SIZEOF_FILE (GFP_KERNEL OR GFP_ZERO) h3 = Some (wrf, h4)"
        using kh.alloc_total [OF i3(1)] by blast
      obtain e4 where i4: "heap_inv h4" "live h4 = (live h3)(wrf := e4)" "live h3 wrf = None" "e4 = None \<longleftrightarrow> wrf = NULL"
        using kh.alloc_upd [OF i3(1) a4] .
      let ?np = "\<lparr>p_buffer = b, read_pos = 0, write_pos = 0, p_count = 0, readers = 1, writers = 1, p_lock = False\<rparr>"
      have d: "p \<noteq> rf" "b \<noteq> rf" "p \<noteq> wrf" "b \<noteq> wrf" "rf \<noteq> NULL \<or> wrf \<noteq> NULL \<longrightarrow> rf \<noteq> wrf"
        using i1 i2 i3 i4 p0 b0 pb by (auto simp: fun_upd_def split: if_splits)
      have z: "live (kh s) NULL = None" using kh.lv_NULL [OF inv] .
      show ?thesis
      proof (cases "rf = NULL \<or> wrf = NULL")
        case True
        have l4: "rf = NULL \<or> live h4 rf \<noteq> None" using i3 i4 d by auto
        note f1 = kh.release_upd [OF i4(1) l4]
        have "wrf = NULL \<or> live (kfree rf h4) wrf \<noteq> None" using f1(2) i4 d by auto
        note f2 = kh.release_upd [OF f1(1) this]
        have "live (kfree wrf (kfree rf h4)) b \<noteq> None" using f2(2) f1(2) i2 i3 i4 d b0 by auto
        note f3 = kh.release_upd [OF f2(1) disjI2, OF this]
        have "live (kfree b (kfree wrf (kfree rf h4))) p \<noteq> None" using f3(2) f2(2) f1(2) i1 i2 i3 i4 d p0 pb by auto
        note f4 = kh.release_upd [OF f3(1) disjI2, OF this]
        have "do_pipe s = Some ((- ENOMEM, NULL, NULL),
            s\<lparr>pipes := (pipes s)(p := ?np), kh := kfree p (kfree b (kfree wrf (kfree rf h4)))\<rparr>)"
          using p0 b0 True by (auto simp: do_pipe_def kz a1 a2 a3 a4)
        moreover have "live (kfree p (kfree b (kfree wrf (kfree rf h4)))) = live (kh s)"
        proof
          fix x
          show "live (kfree p (kfree b (kfree wrf (kfree rf h4)))) x = live (kh s) x"
            unfolding f4(2) f3(2) f2(2) f1(2) i4(2) i3(2) i2(2) i1(2)
            using i1(3) i2(3) i3(3) i4(3) i1(2) i2(2) i3(2) by (auto split: if_splits)
        qed
        ultimately show ?thesis using f4(1) by auto
      next
        case False
        let ?s = "s\<lparr>pipes := (pipes s)(p := ?np), kh := h4, files := (files s)
             (rf := \<lparr>f_op = Read_ops, f_flags = O_RDONLY, private_data = p, f_count = 1\<rparr>,
              wrf := \<lparr>f_op = Write_ops, f_flags = O_WRONLY, private_data = p, f_count = 1\<rparr>)\<rparr>"
        have "do_pipe s = Some ((0, rf, wrf), ?s)"
          using p0 b0 False by (simp add: do_pipe_def kz a1 a2 a3 a4)
        moreover have "fresh_pipe s rf wrf ?s"
        proof -
          have "live (kh s) b = None" "live (kh s) rf = None" "live (kh s) wrf = None"
            using i1 i2 i3 i4 d pb by (auto split: if_splits)
          moreover have "\<exists>n\<ge>PIPE_SIZE. live h4 b = Some n"
            using i2(2,4,5) b0 i3(2) i4(2) d by (auto simp: PIPE_SIZE_def)
          moreover have "dom (live h4) = dom (live (kh s)) \<union> {p, b, rf, wrf}"
            unfolding i4(2) i3(2) i2(2) i1(2) using i1(4) i2(4) i3(4) i4(4) p0 b0 False by auto
          ultimately show ?thesis
            using p0 b0 False d pb i1(3)
            by (auto simp: fresh_pipe_def Let_def pipe_ok_def contents_def)
        qed
        ultimately show ?thesis using i4(1) by auto
      qed
    qed
  qed
qed

text \<open>Closing both ends, in either order, frees the pipe and its buffer and nothing else.\<close>

lemma kfree_pair:
  assumes "heap_inv h" and "live h b \<noteq> None" and "live h p \<noteq> None" and "p \<noteq> b"
  shows "heap_inv (kfree p (kfree b h))" "dom (live (kfree p (kfree b h))) = dom (live h) - {p, b}"
proof -
  note f = kh.release_upd [OF assms(1) disjI2, OF assms(2)]
  have "live (kfree b h) p \<noteq> None" using f(2) assms(3,4) by simp
  note g = kh.release_upd [OF f(1) disjI2, OF this]
  show "heap_inv (kfree p (kfree b h))" by (rule g(1))
  show "dom (live (kfree p (kfree b h))) = dom (live h) - {p, b}" unfolding g(2) f(2) by auto
qed

lemma release_both:
  assumes inv: "heap_inv (kh s')" and fp: "fresh_pipe s rf wrf s'"
  shows "heap_inv (kh (snd (pipe_release_write wrf (snd (pipe_release_read rf s')))))"
    and "dom (live (kh (snd (pipe_release_write wrf (snd (pipe_release_read rf s')))))) = dom (live (kh s)) \<union> {rf, wrf}"
    and "kh (snd (pipe_release_read rf (snd (pipe_release_write wrf s')))) =
         kh (snd (pipe_release_write wrf (snd (pipe_release_read rf s'))))"
proof -
  define p where "p = private_data (files s' rf)"
  define b where "b = p_buffer (pipes s' p)"
  note fp' = fp [unfolded fresh_pipe_def Let_def, folded p_def, folded b_def]
  have k: "kh (snd (pipe_release_write wrf (snd (pipe_release_read rf s')))) = kfree p (kfree b (kh s'))"
    "kh (snd (pipe_release_read rf (snd (pipe_release_write wrf s')))) = kfree p (kfree b (kh s'))"
    using fp' by (simp_all add: pipe_release_read_def pipe_release_write_def pipe_free_unused_def Let_def
        p_def [symmetric] pipe_lock_def pipe_unlock_def b_def)
  have "live (kh s') b \<noteq> None" "live (kh s') p \<noteq> None" "p \<noteq> b" using fp' by auto
  note f = kfree_pair [OF inv this]
  show "heap_inv (kh (snd (pipe_release_write wrf (snd (pipe_release_read rf s')))))"
    unfolding k by (rule f(1))
  show "dom (live (kh (snd (pipe_release_write wrf (snd (pipe_release_read rf s')))))) = dom (live (kh s)) \<union> {rf, wrf}"
    unfolding k f(2) using fp' by auto
  show "kh (snd (pipe_release_read rf (snd (pipe_release_write wrf s')))) =
        kh (snd (pipe_release_write wrf (snd (pipe_release_read rf s'))))" unfolding k ..
qed

section \<open>Properties\<close>



text \<open>Waiting readers and writers do not deadlock: in every reachable state, a reader in its wait
  loop returns as soon as it takes the lock while the pipe holds a byte or has no writer left, and a writer in
  its wait loop always returns from the section, moving at least one byte if the pipe has room
  and readers, and giving up if it has no readers. So of a waiting reader and a waiting writer at
  least one makes progress.\<close>

theorem pipe_waiters_progress:
  assumes "pipe_reachable buf m s"
  shows "(\<forall>n. contents (ps_mem s) (ps_pipe s) \<noteq> [] \<or> writers (ps_pipe s) = 0 \<longrightarrow>
        fst (pipe_read_resume n (ps_mem s) (ps_pipe s)) =
          RDone (int (min n (p_count (ps_pipe s)))) (take n (contents (ps_mem s) (ps_pipe s))))
    \<and> (\<forall>t data w. ps_thr s t = Writing data w \<longrightarrow>
        (\<exists>r m' q. pipe_write_resume data w (ps_mem s) (ps_pipe s) = Some (r, m', q)
          \<and> (readers (ps_pipe s) = 0 \<longrightarrow> r = WDone (if w > 0 then int w else - EPIPE))
          \<and> (readers (ps_pipe s) > 0 \<and> length (contents (ps_mem s) (ps_pipe s)) < PIPE_SIZE \<longrightarrow> w < accepted r)))"
proof (intro conjI allI impI)
  note inv = psys_inv_reachable [OF assms]
  then have ok: "pipe_ok (snd (pipe_lock (ps_pipe s)))" and ok': "pipe_ok (ps_pipe s)"
    and r0: "0 \<le> readers (ps_pipe s)" by (auto simp: psys_inv_def)
  fix n
  assume "contents (ps_mem s) (ps_pipe s) \<noteq> [] \<or> writers (ps_pipe s) = 0"
  then show "fst (pipe_read_resume n (ps_mem s) (ps_pipe s)) =
          RDone (int (min n (p_count (ps_pipe s)))) (take n (contents (ps_mem s) (ps_pipe s)))"
    using pipe_read_locked_spec [OF ok, of n "ps_mem s"] by (auto simp: pipe_read_resume_def)
next
  note inv = psys_inv_reachable [OF assms]
  then have ok: "pipe_ok (ps_pipe s)" and r0: "0 \<le> readers (ps_pipe s)" by (auto simp: psys_inv_def)
  fix t data w
  assume "ps_thr s t = Writing data w"
  then have w: "w < length data" using inv by (auto simp: psys_inv_def)
  from pipe_write_again_spec [OF ok r0 w, of "ps_mem s"] obtain r m' q
    where r: "pipe_write_resume data w (ps_mem s) (ps_pipe s) = Some (r, m', q)"
      "case r of WDone k \<Rightarrow> readers (ps_pipe s) = 0 \<or> k = int (length data)
       | WBlocked w' \<Rightarrow> w' < length data \<and> w' = w + (PIPE_SIZE - p_count (ps_pipe s))" by blast
  have "r = WDone (if w > 0 then int w else - EPIPE)" if "readers (ps_pipe s) = 0"
    using r(1) w that unfolding pipe_write_resume_def by (subst (asm) pipe_write_locked.simps) (auto split: if_splits)
  moreover have "w < accepted r" if "readers (ps_pipe s) > 0" "length (contents (ps_mem s) (ps_pipe s)) < PIPE_SIZE"
    using r(2) w that by (cases r) auto
  ultimately show "\<exists>r m' q. pipe_write_resume data w (ps_mem s) (ps_pipe s) = Some (r, m', q)
          \<and> (readers (ps_pipe s) = 0 \<longrightarrow> r = WDone (if w > 0 then int w else - EPIPE))
          \<and> (readers (ps_pipe s) > 0 \<and> length (contents (ps_mem s) (ps_pipe s)) < PIPE_SIZE \<longrightarrow> w < accepted r)"
    using r(1) by blast
qed

theorem pipe_waiters_progress_witness:
  "fst (pipe_read_resume 5 (\<lambda>_. 0) (ps_pipe ((psys_init 4096 (\<lambda>_. 0))
      \<lparr>ps_pipe := (ps_pipe (psys_init 4096 (\<lambda>_. 0)))\<lparr>writers := 0\<rparr>\<rparr>))) = RDone 0 []"
proof -
  let ?i = "psys_init 4096 (\<lambda>_. 0)"
  let ?s = "?i\<lparr>ps_pipe := (ps_pipe ?i)\<lparr>writers := 0\<rparr>\<rparr>"
  have "pipe_step ?i ?s" using pipe_step.close_write [of ?i] by (simp add: psys_init_def)
  then have re: "pipe_reachable 4096 (\<lambda>_. 0) ?s" unfolding pipe_reachable_def by blast
  show ?thesis using pipe_waiters_progress [OF re] by (auto simp: psys_init_def contents_def)
qed


text \<open>\<^verbatim>\<open>do_pipe\<close> always returns. It either yields two open files on a fresh, empty pipe, whose four
  heap objects are new and distinct and whose buffer holds \<^verbatim>\<open>PIPE_SIZE\<close> bytes, or it fails with
  \<^verbatim>\<open>-ENOMEM\<close> and leaks nothing, whichever of its four allocations failed. After a success, closing both
  ends releases the pipe and its buffer exactly once.\<close>

theorem do_pipe_no_leak:
  assumes "heap_inv (kh s)"
  shows "\<exists>r rf wrf s'. do_pipe s = Some ((r, rf, wrf), s') \<and> heap_inv (kh s')
    \<and> (r = 0 \<and> fresh_pipe s rf wrf s'
         \<and> dom (live (kh (snd (pipe_release_write wrf (snd (pipe_release_read rf s')))))) = dom (live (kh s)) \<union> {rf, wrf}
       \<or> r = - ENOMEM \<and> live (kh s') = live (kh s))"
  using do_pipe_cases [OF assms] release_both(2) by blast

definition pipe_boot :: pipe_sys where
  "pipe_boot = \<lparr>kh = kmalloc_init kheap_boot, pipes = (\<lambda>_. \<lparr>p_buffer = 0, read_pos = 0, write_pos = 0, p_count = 0,
     readers = 0, writers = 0, p_lock = False\<rparr>), files = (\<lambda>_. \<lparr>f_op = No_ops, f_flags = 0, private_data = 0, f_count = 0\<rparr>)\<rparr>"

theorem do_pipe_no_leak_witness:
  "\<exists>r rf wrf s'. do_pipe pipe_boot = Some ((r, rf, wrf), s') \<and> heap_inv (kh s')
    \<and> (r = 0 \<and> fresh_pipe pipe_boot rf wrf s' \<or> r = - ENOMEM \<and> live (kh s') = Map.empty)"
proof -
  have "heap_inv (kh pipe_boot)" "live (kh pipe_boot) = Map.empty" using boot_heap by (simp_all add: pipe_boot_def)
  then show ?thesis using do_pipe_no_leak [of pipe_boot] by auto
qed

end
