(* ===== verification/Pmm.thy ===== *)
theory Pmm
  imports Prelude
begin

text \<open>
  The physical memory manager, \<^verbatim>\<open>kernel/mm/pmm.c\<close>: the bitmap allocator of early boot
  and the buddy allocator behind it. Physical addresses are 64-bit words, so every
  address computation wraps as \<^verbatim>\<open>phys_addr_t\<close> does. A \<^verbatim>\<open>struct page *\<close> is an index into
  \<^verbatim>\<open>page_array\<close> (\<^verbatim>\<open>NULL\<close> is \<^term>\<open>None\<close>). Operations return \<^typ>\<open>'a option\<close>: \<^term>\<open>None\<close>
  stands for an execution without a defined result, that is a \<^verbatim>\<open>NULL\<close> dereference, a page
  index beyond the page array, or a loop that never ends.
\<close>

section \<open>State\<close>

record page =
  pg_flags :: u32
  pg_order :: u32
  pg_next :: "nat option"
  pg_slab :: u64
  pg_refcount :: int

definition PAGE_SIZE :: u64 where "PAGE_SIZE = push_bit 12 1"
definition PHYS_TO_PFN :: "u64 \<Rightarrow> u64" where "PHYS_TO_PFN addr = drop_bit 12 addr"
definition PAGE_ALIGN :: "u64 \<Rightarrow> u64" where
  "PAGE_ALIGN addr = (addr + PAGE_SIZE - 1) AND NOT (PAGE_SIZE - 1)"
definition PAGE_ALIGN_DOWN :: "u64 \<Rightarrow> u64" where
  "PAGE_ALIGN_DOWN addr = addr AND NOT (PAGE_SIZE - 1)"

definition PAGE_FLAG_FREE :: u32 where "PAGE_FLAG_FREE = 0"
definition PAGE_FLAG_USED :: u32 where "PAGE_FLAG_USED = 1"

definition MAX_ORDER :: nat where "MAX_ORDER = 11"
definition MEMORY_BASE :: u64 where "MEMORY_BASE = 0x40000000"
definition MEMORY_SIZE :: u64 where "MEMORY_SIZE = 256 * 1024 * 1024"
definition EARLY_BITMAP_SIZE :: nat where "EARLY_BITMAP_SIZE = 8192"

record pmm =
  free_lists :: "nat option list"
  page_array :: "page list option"
  total_pages :: u64
  free_pages_count :: u64
  total_memory :: u64
  memory_start :: u64
  memory_end :: u64
  early_bitmap :: bytes
  early_mode :: bool

text \<open>The static data before \<^verbatim>\<open>pmm_init\<close>: zeroed, with \<^verbatim>\<open>early_mode\<close> set.\<close>

definition pmm_boot :: pmm where
  "pmm_boot = \<lparr>free_lists = replicate (MAX_ORDER + 1) None, page_array = None, total_pages = 0,
     free_pages_count = 0, total_memory = 0, memory_start = 0, memory_end = 0,
     early_bitmap = replicate EARLY_BITMAP_SIZE 0, early_mode = True\<rparr>"

section \<open>Helper functions\<close>

definition order_to_pages :: "nat \<Rightarrow> u64" where
  "order_to_pages order = push_bit order 1"

definition order_to_size :: "nat \<Rightarrow> u64" where
  "order_to_size order = order_to_pages order * PAGE_SIZE"

function size_to_order_loop :: "u64 \<Rightarrow> nat \<Rightarrow> nat" where
  "size_to_order_loop pages order =
     (if push_bit order 1 < pages \<and> order < MAX_ORDER
      then size_to_order_loop pages (Suc order) else order)"
  by pat_completeness auto
termination
  by (relation "measure (\<lambda>(pages, order). MAX_ORDER - order)") auto

definition size_to_order :: "u64 \<Rightarrow> nat" where
  "size_to_order sz =
     (let pages = (sz + PAGE_SIZE - 1) div PAGE_SIZE in size_to_order_loop pages 0)"

section \<open>Early boot allocator\<close>

definition early_pfn :: "pmm \<Rightarrow> u64 \<Rightarrow> nat" where
  "early_pfn s addr = unat (PHYS_TO_PFN (addr - memory_start s))"

definition early_mark_used :: "u64 \<Rightarrow> pmm \<Rightarrow> pmm" where
  "early_mark_used addr s =
     (let pfn = early_pfn s addr in
      if pfn < EARLY_BITMAP_SIZE * 8
      then s\<lparr>early_bitmap := (early_bitmap s)
             [pfn div 8 := early_bitmap s ! (pfn div 8) OR push_bit (pfn mod 8) 1]\<rparr>
      else s)"

definition early_mark_free :: "u64 \<Rightarrow> pmm \<Rightarrow> pmm" where
  "early_mark_free addr s =
     (let pfn = early_pfn s addr in
      if pfn < EARLY_BITMAP_SIZE * 8
      then s\<lparr>early_bitmap := (early_bitmap s)
             [pfn div 8 := early_bitmap s ! (pfn div 8) AND NOT (push_bit (pfn mod 8) 1)]\<rparr>
      else s)"

definition early_is_free :: "pmm \<Rightarrow> u64 \<Rightarrow> bool" where
  "early_is_free s addr =
     (let pfn = early_pfn s addr in
      if pfn \<ge> EARLY_BITMAP_SIZE * 8 then False
      else early_bitmap s ! (pfn div 8) AND push_bit (pfn mod 8) 1 = 0)"

text \<open>\<^verbatim>\<open>early_alloc_page\<close>: the first clear bit of the first byte that is not \<^verbatim>\<open>0xFF\<close>; a byte
  without a clear bit would let the outer loop go on.\<close>

function early_alloc_from :: "nat \<Rightarrow> pmm \<Rightarrow> u64 \<times> pmm" where
  "early_alloc_from i s =
     (if i < EARLY_BITMAP_SIZE then
        (if early_bitmap s ! i \<noteq> 0xFF then
           (case find (\<lambda>j. early_bitmap s ! i AND push_bit j 1 = 0) [0..<8] of
              Some j \<Rightarrow>
                (memory_start s + of_nat (i * 8 + j) * PAGE_SIZE,
                 s\<lparr>early_bitmap := (early_bitmap s)[i := early_bitmap s ! i OR push_bit j 1]\<rparr>)
            | None \<Rightarrow> early_alloc_from (Suc i) s)
         else early_alloc_from (Suc i) s)
      else (0, s))"
  by pat_completeness auto
termination
  by (relation "measure (\<lambda>(i, s). EARLY_BITMAP_SIZE - i)") auto

definition early_alloc_page :: "pmm \<Rightarrow> u64 \<times> pmm" where
  "early_alloc_page s = early_alloc_from 0 s"

section \<open>Pages and physical addresses\<close>

definition pmm_page_to_phys :: "pmm \<Rightarrow> nat option \<Rightarrow> u64" where
  "pmm_page_to_phys s page =
     (case (page_array s, page) of
        (Some _, Some index) \<Rightarrow> memory_start s + of_nat index * PAGE_SIZE
      | _ \<Rightarrow> 0)"

definition pmm_phys_to_page :: "pmm \<Rightarrow> u64 \<Rightarrow> nat option" where
  "pmm_phys_to_page s addr =
     (if page_array s = None \<or> addr < memory_start s \<or> memory_end s \<le> addr then None
      else Some (unat (PHYS_TO_PFN (addr - memory_start s))))"

text \<open>Reading and writing through a page pointer.\<close>

definition page_read :: "pmm \<Rightarrow> nat option \<Rightarrow> page option" where
  "page_read s p =
     (case (page_array s, p) of
        (Some pa, Some i) \<Rightarrow> if i < length pa then Some (pa ! i) else None
      | _ \<Rightarrow> None)"

definition page_write :: "nat option \<Rightarrow> page \<Rightarrow> pmm \<Rightarrow> pmm option" where
  "page_write p pg s =
     (case (page_array s, p) of
        (Some pa, Some i) \<Rightarrow> if i < length pa then Some (s\<lparr>page_array := Some (pa[i := pg])\<rparr>) else None
      | _ \<Rightarrow> None)"

section \<open>Buddy allocator\<close>

definition buddy_address :: "u64 \<Rightarrow> nat \<Rightarrow> u64" where
  "buddy_address addr order = addr XOR push_bit order PAGE_SIZE"

definition buddy_add_to_list :: "u64 \<Rightarrow> nat \<Rightarrow> pmm \<Rightarrow> pmm option" where
  "buddy_add_to_list addr order s =
     (let p = pmm_phys_to_page s addr in
      do { pg \<leftarrow> page_read s p;
           s \<leftarrow> page_write p (pg\<lparr>pg_order := of_nat order, pg_flags := PAGE_FLAG_FREE,
                                pg_next := free_lists s ! order\<rparr>) s;
           Some (s\<lparr>free_lists := (free_lists s)[order := p]\<rparr>) })"

definition buddy_remove_from_list :: "nat \<Rightarrow> pmm \<Rightarrow> (u64 \<times> pmm) option" where
  "buddy_remove_from_list order s =
     (let p = free_lists s ! order in
      if p = None then Some (0, s)
      else do { pg \<leftarrow> page_read s p;
                let s = s\<lparr>free_lists := (free_lists s)[order := pg_next pg]\<rparr>;
                s \<leftarrow> page_write p (pg\<lparr>pg_next := None, pg_flags := PAGE_FLAG_USED\<rparr>) s;
                Some (pmm_page_to_phys s p, s) })"

text \<open>The inner \<^verbatim>\<open>while (o > order)\<close> loop that splits a larger block.\<close>

fun buddy_split :: "nat \<Rightarrow> u64 \<Rightarrow> nat \<Rightarrow> pmm \<Rightarrow> pmm option" where
  "buddy_split order addr 0 s = Some s"
| "buddy_split order addr (Suc o') s =
     (if Suc o' > order
      then do { s \<leftarrow> buddy_add_to_list (buddy_address addr o') o' s;
                buddy_split order addr o' s }
      else Some s)"

function buddy_alloc :: "nat \<Rightarrow> nat \<Rightarrow> pmm \<Rightarrow> (u64 \<times> pmm) option" where
  "buddy_alloc order ord s =
     (if ord \<le> MAX_ORDER then
        (case buddy_remove_from_list ord s of
           None \<Rightarrow> None
         | Some (addr, s) \<Rightarrow>
             if addr \<noteq> 0 then
               (case buddy_split order addr ord s of
                  None \<Rightarrow> None
                | Some s \<Rightarrow>
                    Some (addr, s\<lparr>free_pages_count := free_pages_count s - order_to_pages order\<rparr>))
             else buddy_alloc order (Suc ord) s)
      else Some (0, s))"
  by pat_completeness auto
termination
  by (relation "measure (\<lambda>(order, ord, s). Suc MAX_ORDER - ord)") auto

text \<open>The coalescing loop of \<^verbatim>\<open>pmm_free_pages\<close>. A buddy outside the memory range gives a
  \<^verbatim>\<open>NULL\<close> page, which the condition tests for before it reads the page.\<close>

function buddy_coalesce :: "u64 \<Rightarrow> nat \<Rightarrow> pmm \<Rightarrow> (u64 \<times> nat) option" where
  "buddy_coalesce addr order s =
     (if order < MAX_ORDER then
        (let buddy = buddy_address addr order; p = pmm_phys_to_page s buddy in
         if p = None then Some (addr, order)
         else
           (case page_read s p of
              None \<Rightarrow> None
            | Some pg \<Rightarrow>
                if pg_flags pg = PAGE_FLAG_FREE \<and> pg_order pg = of_nat order
                then buddy_coalesce (if buddy < addr then buddy else addr) (Suc order) s
                else Some (addr, order)))
      else Some (addr, order))"
  by pat_completeness auto
termination
  by (relation "measure (\<lambda>(addr, order, s). MAX_ORDER - order)") auto

section \<open>Public functions\<close>

partial_function (option) mark_kernel_pages :: "u64 \<Rightarrow> u64 \<Rightarrow> pmm \<Rightarrow> pmm option" where
  "mark_kernel_pages addr stop s =
     (if addr < stop then mark_kernel_pages (addr + PAGE_SIZE) stop (early_mark_used addr s)
      else Some s)"

definition count_free_pages :: "pmm \<Rightarrow> nat" where
  "count_free_pages s =
     length (filter (\<lambda>i. early_bitmap s ! (i div 8) AND push_bit (i mod 8) 1 = 0)
       [0..<min (unat (total_pages s)) (EARLY_BITMAP_SIZE * 8)])"

text \<open>\<^verbatim>\<open>__kernel_start\<close> and \<^verbatim>\<open>__kernel_end\<close> come from the linker script and are arguments.\<close>

definition pmm_init :: "u64 \<Rightarrow> u64 \<Rightarrow> pmm \<Rightarrow> (int \<times> pmm) option" where
  "pmm_init kernel_start kernel_end s =
     (let s = s\<lparr>memory_start := MEMORY_BASE, memory_end := MEMORY_BASE + MEMORY_SIZE,
                total_memory := MEMORY_SIZE, total_pages := MEMORY_SIZE div PAGE_SIZE,
                free_lists := replicate (MAX_ORDER + 1) None\<rparr> in
      do { s \<leftarrow> mark_kernel_pages (PAGE_ALIGN_DOWN kernel_start) (PAGE_ALIGN kernel_end) s;
           Some (0, s\<lparr>free_pages_count := of_nat (count_free_pages s)\<rparr>) })"

definition mark_run :: "u64 \<Rightarrow> nat \<Rightarrow> pmm \<Rightarrow> pmm" where
  "mark_run start count s =
     fold (\<lambda>i s. early_mark_used (start + of_nat i * PAGE_SIZE) s) [0..<count] s"

definition free_run :: "u64 \<Rightarrow> nat \<Rightarrow> pmm \<Rightarrow> pmm" where
  "free_run start count s =
     fold (\<lambda>i s. early_mark_free (start + of_nat i * PAGE_SIZE) s) [0..<count] s"

partial_function (option) early_scan ::
  "nat \<Rightarrow> u64 \<Rightarrow> u64 \<Rightarrow> nat \<Rightarrow> pmm \<Rightarrow> (u64 \<times> pmm) option" where
  "early_scan count addr start found s =
     (if addr < memory_end s then
        (if early_is_free s addr then
           (let start = (if found = 0 then addr else start) in
            if Suc found = count
            then Some (start, (mark_run start count s)
                   \<lparr>free_pages_count := free_pages_count s - of_nat count\<rparr>)
            else early_scan count (addr + PAGE_SIZE) start (Suc found) s)
         else early_scan count (addr + PAGE_SIZE) start 0 s)
      else Some (0, s))"

definition pmm_alloc_pages :: "nat \<Rightarrow> pmm \<Rightarrow> (u64 \<times> pmm) option" where
  "pmm_alloc_pages order s =
     (if order > MAX_ORDER then Some (0, s)
      else if early_mode s
      then early_scan (unat (order_to_pages order)) (memory_start s) 0 0 s
      else buddy_alloc order order s)"

definition pmm_alloc_page :: "pmm \<Rightarrow> (u64 \<times> pmm) option" where
  "pmm_alloc_page s = pmm_alloc_pages 0 s"

definition pmm_free_pages :: "u64 \<Rightarrow> nat \<Rightarrow> pmm \<Rightarrow> pmm option" where
  "pmm_free_pages addr order s =
     (if addr = 0 \<or> order > MAX_ORDER then Some s
      else if early_mode s then
        (let count = unat (order_to_pages order) in
         Some ((free_run addr count s)\<lparr>free_pages_count := free_pages_count s + of_nat count\<rparr>))
      else
        (case buddy_coalesce addr order s of
           None \<Rightarrow> None
         | Some (addr, order) \<Rightarrow>
             (case buddy_add_to_list addr order s of
                None \<Rightarrow> None
              | Some s \<Rightarrow>
                  Some (s\<lparr>free_pages_count := free_pages_count s + order_to_pages order\<rparr>))))"

definition pmm_free_page :: "u64 \<Rightarrow> pmm \<Rightarrow> pmm option" where
  "pmm_free_page addr s = pmm_free_pages addr 0 s"

definition pmm_get_free_memory :: "pmm \<Rightarrow> u64" where
  "pmm_get_free_memory s = free_pages_count s * PAGE_SIZE"

definition pmm_get_total_memory :: "pmm \<Rightarrow> u64" where
  "pmm_get_total_memory s = total_memory s"

section \<open>Well-formed states and the page view of the bitmap\<close>

definition N_PAGES :: nat where "N_PAGES = 65536"

text \<open>The configuration that \<^verbatim>\<open>pmm_init\<close> leaves behind: early mode, the fixed memory range and
  a bitmap with one bit per page.\<close>

definition pmm_wf :: "pmm \<Rightarrow> bool" where
  "pmm_wf s \<longleftrightarrow> early_mode s \<and> length (early_bitmap s) = EARLY_BITMAP_SIZE
     \<and> memory_start s = MEMORY_BASE \<and> memory_end s = MEMORY_BASE + MEMORY_SIZE
     \<and> total_pages s = of_nat N_PAGES \<and> total_memory s = MEMORY_SIZE"

definition page_addr :: "nat \<Rightarrow> u64" where
  "page_addr i = MEMORY_BASE + of_nat i * PAGE_SIZE"

definition page_free :: "pmm \<Rightarrow> nat \<Rightarrow> bool" where
  "page_free s i \<longleftrightarrow> i < N_PAGES \<and> \<not> bm_bit (early_bitmap s) i"

definition free_set :: "pmm \<Rightarrow> nat set" where
  "free_set s = {i. page_free s i}"

text \<open>The accounting invariant: the free counter is the number of clear bits.\<close>

definition pmm_inv :: "pmm \<Rightarrow> bool" where
  "pmm_inv s \<longleftrightarrow> pmm_wf s \<and> free_pages_count s = of_nat (card (free_set s))"

text \<open>The reference allocator: the first run of \<^term>\<open>count\<close> consecutive free pages.\<close>

definition run_at :: "pmm \<Rightarrow> nat \<Rightarrow> nat \<Rightarrow> bool" where
  "run_at s count j \<longleftrightarrow> (\<forall>k<count. page_free s (j + k))"

definition first_run :: "pmm \<Rightarrow> nat \<Rightarrow> nat option" where
  "first_run s count = find (run_at s count) [0..<N_PAGES]"

lemmas pmm_const_defs = PAGE_SIZE_def MEMORY_BASE_def MEMORY_SIZE_def EARLY_BITMAP_SIZE_def
  N_PAGES_def MAX_ORDER_def

lemma PAGE_SIZE_eq: "PAGE_SIZE = 4096"
  by (simp add: PAGE_SIZE_def push_bit_of_1)

lemma page_addr_less_end:
  assumes "i \<le> N_PAGES"
  shows "page_addr i < MEMORY_BASE + MEMORY_SIZE \<longleftrightarrow> i < N_PAGES"
proof -
  have "unat (page_addr i) = 0x40000000 + i * 4096"
    unfolding page_addr_def PAGE_SIZE_eq MEMORY_BASE_def
    using assms unat_mult_page [of i] by (subst unat_plus_simple [THEN iffD1])
      (auto simp: N_PAGES_def word_le_nat_alt unat_word_ariths)
  then show ?thesis
    by (auto simp: word_less_nat_alt MEMORY_BASE_def MEMORY_SIZE_def N_PAGES_def)
qed

lemma page_addr_add: "page_addr i + of_nat k * PAGE_SIZE = page_addr (i + k)"
  by (simp add: page_addr_def algebra_simps)

lemma page_addr_Suc: "page_addr i + PAGE_SIZE = page_addr (Suc i)"
  using page_addr_add [of i 1] by simp

lemma early_pfn_page_addr:
  assumes "i < N_PAGES" and "memory_start s = MEMORY_BASE"
  shows "early_pfn s (page_addr i) = i"
  using assms unat_mult_page [of i]
  by (simp add: early_pfn_def PHYS_TO_PFN_def page_addr_def PAGE_SIZE_eq unat_drop_bit N_PAGES_def)

lemma page_addr_inj:
  assumes "i < N_PAGES" and "k < N_PAGES"
  shows "page_addr i = page_addr k \<longleftrightarrow> i = k"
proof
  assume e: "page_addr i = page_addr k"
  let ?s = "pmm_boot\<lparr>memory_start := MEMORY_BASE\<rparr>"
  have s: "memory_start ?s = MEMORY_BASE" by simp
  have "i = early_pfn ?s (page_addr i)" by (rule early_pfn_page_addr [OF assms(1) s, symmetric])
  also have "\<dots> = early_pfn ?s (page_addr k)" by (simp only: e)
  also have "\<dots> = k" by (rule early_pfn_page_addr [OF assms(2) s])
  finally show "i = k" .
qed simp

lemma pmm_wf_update [simp]:
  "pmm_wf (s\<lparr>free_pages_count := c\<rparr>) = pmm_wf s"
  "length bm = length (early_bitmap s) \<Longrightarrow> pmm_wf (s\<lparr>early_bitmap := bm\<rparr>) = pmm_wf s"
  by (auto simp: pmm_wf_def)

lemma page_free_update [simp]: "page_free (s\<lparr>free_pages_count := c\<rparr>) i = page_free s i"
  by (simp add: page_free_def)

lemma early_is_free_page_addr:
  assumes "pmm_wf s" and "i < N_PAGES"
  shows "early_is_free s (page_addr i) \<longleftrightarrow> page_free s i"
  using assms early_pfn_page_addr [of i s] and_push_bit_1_eq_0 [of "early_bitmap s ! (i div 8)" "i mod 8"]
  by (auto simp: early_is_free_def page_free_def Let_def pmm_wf_def bm_bit_def
      EARLY_BITMAP_SIZE_def N_PAGES_def simp del: push_bit_of_1)

text \<open>What marking does: only the bitmap changes, and in it only the bits of the run.\<close>

lemma early_mark_frame:
  "early_mark_used a s = s\<lparr>early_bitmap := early_bitmap (early_mark_used a s)\<rparr>"
  "early_mark_free a s = s\<lparr>early_bitmap := early_bitmap (early_mark_free a s)\<rparr>"
  by (simp_all add: early_mark_used_def early_mark_free_def Let_def)

lemma length_early_mark [simp]:
  "length (early_bitmap (early_mark_used a s)) = length (early_bitmap s)"
  "length (early_bitmap (early_mark_free a s)) = length (early_bitmap s)"
  by (simp_all add: early_mark_used_def early_mark_free_def Let_def)

lemma pmm_wf_early_mark [simp]:
  "pmm_wf s \<Longrightarrow> pmm_wf (early_mark_used a s)"
  "pmm_wf s \<Longrightarrow> pmm_wf (early_mark_free a s)"
  using pmm_wf_update(2) [of "early_bitmap (early_mark_used a s)" s]
    pmm_wf_update(2) [of "early_bitmap (early_mark_free a s)" s]
  by (simp_all flip: early_mark_frame)

lemma bm_bit_early_mark:
  assumes "pmm_wf s" and "i < N_PAGES"
  shows "bm_bit (early_bitmap (early_mark_used (page_addr i) s)) j \<longleftrightarrow> j = i \<or> bm_bit (early_bitmap s) j"
    and "bm_bit (early_bitmap (early_mark_free (page_addr i) s)) j \<longleftrightarrow> j \<noteq> i \<and> bm_bit (early_bitmap s) j"
proof -
  have pfn: "early_pfn s (page_addr i) = i" and len: "i div 8 < length (early_bitmap s)"
    and lt: "i < EARLY_BITMAP_SIZE * 8"
    using assms early_pfn_page_addr [of i s]
    by (simp_all add: pmm_wf_def EARLY_BITMAP_SIZE_def N_PAGES_def)
  show "bm_bit (early_bitmap (early_mark_used (page_addr i) s)) j \<longleftrightarrow> j = i \<or> bm_bit (early_bitmap s) j"
    using bm_bit_set [OF len] lt pfn by (simp add: early_mark_used_def del: push_bit_of_1)
  show "bm_bit (early_bitmap (early_mark_free (page_addr i) s)) j \<longleftrightarrow> j \<noteq> i \<and> bm_bit (early_bitmap s) j"
    using bm_bit_clear [OF len] lt pfn by (simp add: early_mark_free_def del: push_bit_of_1)
qed

lemma mark_run_Suc:
  "mark_run (page_addr j) (Suc n) s = early_mark_used (page_addr (j + n)) (mark_run (page_addr j) n s)"
  by (simp add: mark_run_def page_addr_add)

lemma free_run_Suc:
  "free_run (page_addr j) (Suc n) s = early_mark_free (page_addr (j + n)) (free_run (page_addr j) n s)"
  by (simp add: free_run_def page_addr_add)

lemma run_0 [simp]: "mark_run a 0 s = s" "free_run a 0 s = s"
  by (simp_all add: mark_run_def free_run_def)

lemma run_frame:
  "mark_run (page_addr j) n s = s\<lparr>early_bitmap := early_bitmap (mark_run (page_addr j) n s)\<rparr>"
  "free_run (page_addr j) n s = s\<lparr>early_bitmap := early_bitmap (free_run (page_addr j) n s)\<rparr>"
proof (induction n)
  case 0
  { case 1 show ?case by simp
  next case 2 show ?case by simp }
next
  case (Suc n)
  { case 1 show ?case
      unfolding mark_run_Suc
      by (subst early_mark_frame, subst Suc(1)) simp
  next case 2 show ?case
      unfolding free_run_Suc
      by (subst early_mark_frame, subst Suc(2)) simp }
qed

lemma pmm_wf_run [simp]:
  "pmm_wf s \<Longrightarrow> pmm_wf (mark_run (page_addr j) n s)"
  "pmm_wf s \<Longrightarrow> pmm_wf (free_run (page_addr j) n s)"
  by (induction n) (simp_all add: mark_run_Suc free_run_Suc)

lemma bm_bit_mark_run:
  assumes "pmm_wf s" and "j + count \<le> N_PAGES"
  shows "bm_bit (early_bitmap (mark_run (page_addr j) count s)) i
    \<longleftrightarrow> (j \<le> i \<and> i < j + count) \<or> bm_bit (early_bitmap s) i"
  using assms(2)
  by (induction count) (auto simp: mark_run_Suc bm_bit_early_mark assms(1))

lemma bm_bit_free_run:
  assumes "pmm_wf s" and "j + count \<le> N_PAGES"
  shows "bm_bit (early_bitmap (free_run (page_addr j) count s)) i
    \<longleftrightarrow> \<not> (j \<le> i \<and> i < j + count) \<and> bm_bit (early_bitmap s) i"
  using assms(2)
  by (induction count) (auto simp: free_run_Suc bm_bit_early_mark assms(1))

lemma run_at_less: "0 < count \<Longrightarrow> run_at s count j \<Longrightarrow> j + count \<le> N_PAGES"
  unfolding run_at_def page_free_def
  by (metis Suc_leI Suc_pred add_Suc_right lessI)

section \<open>The early allocator is first fit\<close>

lemma early_scan_spec:
  assumes wf: "pmm_wf s" and c: "found < count" and i: "i \<le> N_PAGES" "found \<le> i"
    and run: "\<forall>k. i - found \<le> k \<and> k < i \<longrightarrow> page_free s k"
    and start: "0 < found \<Longrightarrow> start = page_addr (i - found)"
    and max: "\<forall>j < i - found. \<not> run_at s count j"
  shows "early_scan count (page_addr i) start found s =
    (case first_run s count of
       None \<Rightarrow> Some (0, s)
     | Some j \<Rightarrow> Some (page_addr j, (mark_run (page_addr j) count s)
                  \<lparr>free_pages_count := free_pages_count s - of_nat count\<rparr>))"
  using c i run start max
proof (induction "N_PAGES - i" arbitrary: i found start)
  case 0
  then have i: "i = N_PAGES" by simp
  have "\<not> run_at s count j" for j
  proof
    assume r: "run_at s count j"
    then have "j + count \<le> N_PAGES" using run_at_less [OF _ r] 0 by simp
    then show False using 0 r i by auto
  qed
  then have "first_run s count = None" by (simp add: first_run_def find_upt_None)
  then show ?case
    using wf page_addr_less_end [of i] i by (subst early_scan.simps) (simp add: pmm_wf_def)
next
  case (Suc d)
  then have i: "i < N_PAGES" by simp
  have lt: "page_addr i < memory_end s"
    using wf i page_addr_less_end [of i] by (simp add: pmm_wf_def)
  have fr: "early_is_free s (page_addr i) \<longleftrightarrow> page_free s i"
    using wf i by (rule early_is_free_page_addr)
  have eq: "(if found = 0 then page_addr i else start) = page_addr (i - found)"
    using Suc.prems(5) by simp
  show ?case
  proof (cases "page_free s i")
    case True
    have run': "\<forall>k. Suc i - Suc found \<le> k \<and> k < Suc i \<longrightarrow> page_free s k"
      using Suc.prems(4) True by (auto simp: less_Suc_eq)
    show ?thesis
    proof (cases "Suc found = count")
      case c: True
      have "run_at s count (i - found)"
        unfolding run_at_def using c Suc.prems(3)
        by (auto intro!: run' [rule_format])
      moreover have "\<forall>k < i - found. \<not> run_at s count k" using Suc.prems(6) .
      ultimately have "first_run s count = Some (i - found)"
        using i by (auto simp: first_run_def find_upt_Some)
      then show ?thesis
        by (subst early_scan.simps) (simp add: lt fr True c eq Let_def)
    next
      case c: False
      have "early_scan count (page_addr i) start found s =
          early_scan count (page_addr (Suc i)) (page_addr (i - found)) (Suc found) s"
        by (subst early_scan.simps) (simp add: lt fr True c eq Let_def page_addr_Suc)
      also have "\<dots> = (case first_run s count of
           None \<Rightarrow> Some (0, s)
         | Some j \<Rightarrow> Some (page_addr j, (mark_run (page_addr j) count s)
                      \<lparr>free_pages_count := free_pages_count s - of_nat count\<rparr>))"
        using Suc.hyps(2) Suc.prems c run' i by (intro Suc.hyps(1)) auto
      finally show ?thesis .
    qed
  next
    case False
    have max': "\<forall>j < Suc i - 0. \<not> run_at s count j"
    proof (intro allI impI notI)
      fix j assume j: "j < Suc i - 0" and r: "run_at s count j"
      have "i - found \<le> j" using Suc.prems(6) r by (meson not_le)
      then have "i - j < count" using Suc.prems(1) by linarith
      then have "page_free s (j + (i - j))" using r by (simp add: run_at_def)
      with j False show False by simp
    qed
    have "early_scan count (page_addr i) start found s = early_scan count (page_addr (Suc i)) start 0 s"
      by (subst early_scan.simps) (simp add: lt fr False page_addr_Suc)
    also have "\<dots> = (case first_run s count of
         None \<Rightarrow> Some (0, s)
       | Some j \<Rightarrow> Some (page_addr j, (mark_run (page_addr j) count s)
                    \<lparr>free_pages_count := free_pages_count s - of_nat count\<rparr>))"
      using Suc.hyps(2) Suc.prems(1) i max' by (intro Suc.hyps(1)) auto
    finally show ?thesis .
  qed
qed

lemma unat_order_to_pages: "order \<le> MAX_ORDER \<Longrightarrow> unat (order_to_pages order) = 2 ^ order"
  unfolding order_to_pages_def push_bit_of_1 MAX_ORDER_def
proof -
  assume "order \<le> 11"
  then have "(2::nat) ^ order < 2 ^ 64" by (intro power_strict_increasing) auto
  then show "unat (2 ^ order :: u64) = 2 ^ order"
    using unat_of_nat_small [of "2 ^ order", where 'a = 64] by (simp only: of_nat_power of_nat_numeral) simp
qed

lemma pmm_alloc_pages_first_fit_eq:
  assumes "pmm_wf s" and "order \<le> MAX_ORDER"
  shows "pmm_alloc_pages order s =
    (case first_run s (2 ^ order) of
       None \<Rightarrow> Some (0, s)
     | Some j \<Rightarrow> Some (page_addr j, (mark_run (page_addr j) (2 ^ order) s)
                  \<lparr>free_pages_count := free_pages_count s - 2 ^ order\<rparr>))"
proof -
  have start: "memory_start s = page_addr 0" using assms(1) by (simp add: pmm_wf_def page_addr_def)
  have "early_scan (2 ^ order) (page_addr 0) 0 0 s =
    (case first_run s (2 ^ order) of
       None \<Rightarrow> Some (0, s)
     | Some j \<Rightarrow> Some (page_addr j, (mark_run (page_addr j) (2 ^ order) s)
                  \<lparr>free_pages_count := free_pages_count s - of_nat (2 ^ order)\<rparr>))"
    by (rule early_scan_spec [OF assms(1)]) simp_all
  moreover have "(of_nat (2 ^ order) :: u64) = 2 ^ order" by (simp only: of_nat_power of_nat_numeral)
  ultimately show ?thesis
    using assms unat_order_to_pages [OF assms(2)] start
    by (simp add: pmm_alloc_pages_def pmm_wf_def split: option.split)
qed

text \<open>C17. In early mode \<^verbatim>\<open>pmm_alloc_pages\<close> terminates and is first fit: it returns the address
  of the lowest run of \<^verbatim>\<open>2^order\<close> consecutive free pages, marks exactly that run used and
  takes it off the counter; it returns 0 and changes nothing when no such run exists.\<close>

theorem pmm_alloc_pages_first_fit:
  assumes "pmm_wf s" and "order \<le> MAX_ORDER"
  shows "pmm_alloc_pages order s =
    (case first_run s (2 ^ order) of
       None \<Rightarrow> Some (0, s)
     | Some j \<Rightarrow> Some (page_addr j, (mark_run (page_addr j) (2 ^ order) s)
                  \<lparr>free_pages_count := free_pages_count s - 2 ^ order\<rparr>))"
  using assms by (rule pmm_alloc_pages_first_fit_eq)

section \<open>Accounting\<close>

lemma finite_free_set [simp]: "finite (free_set s)"
  by (rule finite_subset [of _ "{..<N_PAGES}"]) (auto simp: free_set_def page_free_def)

lemma free_set_mark_run:
  "pmm_wf s \<Longrightarrow> j + n \<le> N_PAGES \<Longrightarrow> free_set (mark_run (page_addr j) n s) = free_set s - {j..<j + n}"
  by (auto simp: free_set_def page_free_def bm_bit_mark_run)

lemma free_set_free_run:
  "pmm_wf s \<Longrightarrow> j + n \<le> N_PAGES \<Longrightarrow> free_set (free_run (page_addr j) n s) = free_set s \<union> {j..<j + n}"
  by (auto simp: free_set_def page_free_def bm_bit_free_run)

lemma free_set_count [simp]: "free_set (s\<lparr>free_pages_count := c\<rparr>) = free_set s"
  by (simp add: free_set_def)

lemma run_at_free_set: "run_at s n j \<longleftrightarrow> {j..<j + n} \<subseteq> free_set s"
proof -
  have "i \<in> free_set s" if "run_at s n j" and "j \<le> i" and "i < j + n" for i
    using that le_add_diff_inverse [of j i] unfolding run_at_def free_set_def
    by (metis add_less_cancel_left mem_Collect_eq)
  moreover have "run_at s n j" if "{j..<j + n} \<subseteq> free_set s"
    using that by (auto simp: run_at_def free_set_def subset_iff)
  ultimately show ?thesis by auto
qed

lemma page_addr_nonzero: "j < N_PAGES \<Longrightarrow> page_addr j \<noteq> 0"
proof -
  assume j: "j < N_PAGES"
  then have "unat (page_addr j) = 0x40000000 + j * 4096"
    unfolding page_addr_def PAGE_SIZE_eq MEMORY_BASE_def
    using unat_mult_page [of j] by (subst unat_plus_simple [THEN iffD1])
      (auto simp: N_PAGES_def word_le_nat_alt unat_word_ariths)
  then show ?thesis by auto
qed

lemma mark_run_inv:
  assumes inv: "pmm_inv s" and r: "run_at s n j" and n: "0 < n"
  shows "pmm_inv ((mark_run (page_addr j) n s)\<lparr>free_pages_count := free_pages_count s - of_nat n\<rparr>)"
proof -
  have wf: "pmm_wf s" using inv by (simp add: pmm_inv_def)
  have jn: "j + n \<le> N_PAGES" using n r by (rule run_at_less)
  have sub: "{j..<j + n} \<subseteq> free_set s" using r by (simp add: run_at_free_set)
  then have "card (free_set s - {j..<j + n}) = card (free_set s) - n"
    by (simp add: card_Diff_subset)
  moreover have "n \<le> card (free_set s)" using card_mono [OF finite_free_set sub] by simp
  ultimately show ?thesis
    using inv wf jn by (simp add: pmm_inv_def free_set_mark_run of_nat_diff)
qed

lemma free_run_inv:
  assumes inv: "pmm_inv s" and used: "{j..<j + n} \<inter> free_set s = {}" and jn: "j + n \<le> N_PAGES"
  shows "pmm_inv ((free_run (page_addr j) n s)\<lparr>free_pages_count := free_pages_count s + of_nat n\<rparr>)"
proof -
  have wf: "pmm_wf s" using inv by (simp add: pmm_inv_def)
  have "card (free_set s \<union> {j..<j + n}) = card (free_set s) + n"
    using used by (subst card_Un_disjoint) (auto simp: Int_commute)
  then show ?thesis using inv wf jn by (simp add: pmm_inv_def free_set_free_run)
qed

lemma of_nat_exp_u64: "(of_nat (2 ^ n) :: u64) = 2 ^ n"
  by (simp only: of_nat_power of_nat_numeral)

lemma pmm_alloc_pages_spec:
  assumes inv: "pmm_inv s" and ord: "order \<le> MAX_ORDER"
  shows "\<exists>a s'. pmm_alloc_pages order s = Some (a, s') \<and> pmm_inv s'
    \<and> (a = 0 \<longrightarrow> s' = s)
    \<and> (a \<noteq> 0 \<longrightarrow> (\<exists>j. a = page_addr j \<and> {j..<j + 2 ^ order} \<subseteq> free_set s
                     \<and> free_set s' = free_set s - {j..<j + 2 ^ order}))"
proof (cases "first_run s (2 ^ order)")
  case None
  then show ?thesis using inv ord
    by (simp add: pmm_alloc_pages_first_fit_eq pmm_inv_def)
next
  case (Some j)
  then have r: "run_at s (2 ^ order) j" and jl: "j < N_PAGES"
    by (auto simp: first_run_def find_upt_Some)
  then have jn: "j + 2 ^ order \<le> N_PAGES" by (intro run_at_less [OF _ r]) simp
  have wf: "pmm_wf s" using inv by (simp add: pmm_inv_def)
  let ?s = "(mark_run (page_addr j) (2 ^ order) s)\<lparr>free_pages_count := free_pages_count s - 2 ^ order\<rparr>"
  have "pmm_inv ?s" using mark_run_inv [OF inv r] by (simp only: of_nat_exp_u64) simp
  moreover have "free_set ?s = free_set s - {j..<j + 2 ^ order}"
    using free_set_mark_run [OF wf jn] by simp
  moreover have "pmm_alloc_pages order s = Some (page_addr j, ?s)"
    using pmm_alloc_pages_first_fit_eq [OF wf ord] Some by simp
  ultimately show ?thesis
    using r page_addr_nonzero [OF jl] by (auto simp: run_at_free_set)
qed

text \<open>Allocation keeps the accounting invariant, and what it returns is either 0 with an
  unchanged state or the first of \<^verbatim>\<open>2^order\<close> consecutive pages that were all free; exactly
  those pages leave the free set, so no page is ever handed out twice.\<close>

theorem pmm_alloc_pages_inv:
  assumes inv: "pmm_inv s" and ord: "order \<le> MAX_ORDER"
  shows "\<exists>a s'. pmm_alloc_pages order s = Some (a, s') \<and> pmm_inv s'
    \<and> (a = 0 \<longrightarrow> s' = s)
    \<and> (a \<noteq> 0 \<longrightarrow> (\<exists>j. a = page_addr j \<and> {j..<j + 2 ^ order} \<subseteq> free_set s
                     \<and> free_set s' = free_set s - {j..<j + 2 ^ order}))"
  using assms by (rule pmm_alloc_pages_spec)

lemma bitmap_eqI:
  assumes len: "length bm = length bm'" and eq: "\<And>i. bm_bit bm i \<longleftrightarrow> bm_bit bm' i"
  shows "bm = bm'"
proof (rule nth_equalityI [OF len])
  fix i assume "i < length bm"
  show "bm ! i = bm' ! i"
  proof (rule bit_word_eqI)
    fix n assume "n < LENGTH(8)"
    then show "bit (bm ! i) n \<longleftrightarrow> bit (bm' ! i) n"
      using eq [of "i * 8 + n"] by (simp add: bm_bit_def)
  qed
qed

lemma free_run_mark_run:
  assumes wf: "pmm_wf s" and r: "run_at s n j" and jn: "j + n \<le> N_PAGES"
  shows "early_bitmap (free_run (page_addr j) n (mark_run (page_addr j) n s)) = early_bitmap s"
proof (rule bitmap_eqI)
  show "length (early_bitmap (free_run (page_addr j) n (mark_run (page_addr j) n s)))
    = length (early_bitmap s)"
    using pmm_wf_run(2) [OF pmm_wf_run(1) [OF wf], of j n j n] wf by (simp add: pmm_wf_def)
next
  fix i
  have "\<not> bm_bit (early_bitmap s) i" if "j \<le> i" and "i < j + n"
    using that r by (auto simp: run_at_free_set free_set_def page_free_def)
  then show "bm_bit (early_bitmap (free_run (page_addr j) n (mark_run (page_addr j) n s))) i
    = bm_bit (early_bitmap s) i"
    using wf jn by (auto simp: bm_bit_free_run bm_bit_mark_run)
qed

lemma run_count_update:
  "free_run (page_addr j) n (s\<lparr>free_pages_count := c\<rparr>) = (free_run (page_addr j) n s)\<lparr>free_pages_count := c\<rparr>"
proof (induction n)
  case (Suc n)
  then show ?case
    by (simp add: free_run_Suc early_mark_free_def Let_def early_pfn_def)
qed simp

text \<open>Freeing what was allocated restores the allocator exactly: the very same state,
  bitmap and counter included.\<close>

theorem pmm_alloc_free_roundtrip:
  assumes wf: "pmm_wf s" and ord: "order \<le> MAX_ORDER"
    and alloc: "pmm_alloc_pages order s = Some (a, s')" and a: "a \<noteq> 0"
  shows "pmm_free_pages a order s' = Some s"
proof -
  from alloc a obtain j where j: "first_run s (2 ^ order) = Some j" "a = page_addr j"
      "s' = (mark_run (page_addr j) (2 ^ order) s)\<lparr>free_pages_count := free_pages_count s - 2 ^ order\<rparr>"
    using pmm_alloc_pages_first_fit_eq [OF wf ord] by (auto split: option.splits)
  then have r: "run_at s (2 ^ order) j" by (auto simp: first_run_def find_upt_Some)
  then have jn: "j + 2 ^ order \<le> N_PAGES" by (intro run_at_less [OF _ r]) simp
  let ?m = "mark_run (page_addr j) (2 ^ order) s"
  have m: "?m = s\<lparr>early_bitmap := early_bitmap ?m\<rparr>" by (rule run_frame)
  have "free_run (page_addr j) (2 ^ order) ?m = s\<lparr>early_bitmap := early_bitmap s\<rparr>"
    by (subst run_frame, subst m) (simp add: free_run_mark_run [OF wf r jn])
  then have "free_run (page_addr j) (2 ^ order) ?m = s" by simp
  moreover have "early_mode s'" using wf j(3) by (subst (asm) m) (simp add: pmm_wf_def)
  ultimately show ?thesis
    using ord a j(2,3) unat_order_to_pages [OF ord]
    by (simp add: pmm_free_pages_def run_count_update of_nat_exp_u64)
qed

text \<open>A free is not checked. Freeing a page that is already free leaves the set of free
  pages as it is and still raises the counter, so the accounting invariant is lost and
  \<^verbatim>\<open>pmm_get_free_memory\<close> reports one page too many.\<close>

theorem pmm_double_free_miscounts:
  assumes inv: "pmm_inv s" and j: "page_free s j"
  shows "\<exists>s'. pmm_free_page (page_addr j) s = Some s' \<and> free_set s' = free_set s
    \<and> free_pages_count s' = of_nat (card (free_set s)) + 1 \<and> \<not> pmm_inv s'"
proof -
  have wf: "pmm_wf s" using inv by (simp add: pmm_inv_def)
  have jl: "j + 1 \<le> N_PAGES" using j by (simp add: page_free_def)
  let ?s = "(free_run (page_addr j) 1 s)\<lparr>free_pages_count := free_pages_count s + 1\<rparr>"
  have "unat (order_to_pages 0) = 1" using unat_order_to_pages [of 0] by simp
  then have "pmm_free_page (page_addr j) s = Some ?s"
    using wf page_addr_nonzero [of j] jl
    by (simp add: pmm_free_page_def pmm_free_pages_def pmm_wf_def)
  moreover have fs: "free_set ?s = free_set s"
    using free_set_free_run [OF wf jl] j by (auto simp: free_set_def)
  moreover have "free_pages_count ?s = of_nat (card (free_set s)) + 1"
    using inv by (simp add: pmm_inv_def)
  moreover have "\<not> pmm_inv ?s"
    using fs inv by (simp add: pmm_inv_def)
  ultimately show ?thesis by blast
qed

text \<open>The two single-page operations, as the other components use them.\<close>

lemma pmm_free_page_spec:
  assumes inv: "pmm_inv s" and j: "j < N_PAGES" "j \<notin> free_set s"
  obtains s' where "pmm_free_page (page_addr j) s = Some s'" and "pmm_inv s'"
    and "free_set s' = insert j (free_set s)"
proof -
  have wf: "pmm_wf s" using inv by (simp add: pmm_inv_def)
  let ?s = "(free_run (page_addr j) 1 s)\<lparr>free_pages_count := free_pages_count s + 1\<rparr>"
  have "unat (order_to_pages 0) = 1" using unat_order_to_pages [of 0] by simp
  then have "pmm_free_page (page_addr j) s = Some ?s"
    using wf page_addr_nonzero [OF j(1)] by (simp add: pmm_free_page_def pmm_free_pages_def pmm_wf_def)
  moreover have "pmm_inv ?s" using free_run_inv [OF inv, of j 1] j by simp
  moreover have "free_set ?s = insert j (free_set s)" using free_set_free_run [OF wf, of j 1] j by auto
  ultimately show thesis by (rule that)
qed

lemma pmm_alloc_page_spec:
  assumes "pmm_inv s"
  obtains (none) "pmm_alloc_page s = Some (0, s)" and "free_set s = {}"
  | (page) j s' where "pmm_alloc_page s = Some (page_addr j, s')" and "page_addr j \<noteq> 0" and "j < N_PAGES"
      and "pmm_inv s'" and "j \<in> free_set s" and "free_set s' = free_set s - {j}"
proof -
  obtain a s' where a: "pmm_alloc_page s = Some (a, s')" and inv': "pmm_inv s'"
    and z: "a = 0 \<longrightarrow> s' = s"
    and nz: "a \<noteq> 0 \<longrightarrow> (\<exists>j. a = page_addr j \<and> {j..<j + 2 ^ 0} \<subseteq> free_set s
                     \<and> free_set s' = free_set s - {j..<j + 2 ^ 0})"
    using pmm_alloc_pages_spec [OF assms, of 0] by (auto simp: pmm_alloc_page_def)
  show thesis
  proof (cases "a = 0")
    case True
    have wf: "pmm_wf s" using assms by (simp add: pmm_inv_def)
    have "first_run s (2 ^ 0) = None"
    proof (rule ccontr)
      assume "first_run s (2 ^ 0) \<noteq> None"
      then obtain j where j: "first_run s (2 ^ 0) = Some j" by blast
      then have "j < N_PAGES" by (simp add: first_run_def find_upt_Some)
      then show False
        using a True pmm_alloc_pages_first_fit_eq [OF wf, of 0] page_addr_nonzero [of j]
        by (simp only: pmm_alloc_page_def j) simp
    qed
    then have "free_set s = {}"
      by (auto simp: first_run_def find_upt_None run_at_def free_set_def page_free_def)
    then show ?thesis using a z True none by simp
  next
    case False
    with nz obtain j where "a = page_addr j" "j \<in> free_set s" "free_set s' = free_set s - {j}" by auto
    moreover from this have "j < N_PAGES" by (simp add: free_set_def page_free_def)
    ultimately show ?thesis using False a inv' page by simp
  qed
qed

section \<open>Initialisation\<close>

lemma PAGE_SIZE_mask: "PAGE_SIZE - 1 = mask 12"
  by (simp add: PAGE_SIZE_eq mask_eq_exp_minus_1)

lemma align_down_mult: "(a :: u64) AND NOT (PAGE_SIZE - 1) = of_nat (unat a div 4096) * 4096"
proof -
  have "of_nat (unat (a AND NOT (PAGE_SIZE - 1))) = (of_nat (unat a div 4096 * 4096) :: u64)"
    unfolding PAGE_SIZE_mask unat_and_not_mask by simp
  then show ?thesis by simp
qed

text \<open>Marking a page-aligned address outside the memory range, below it included, changes
  nothing: the wrapped page number lies beyond the bitmap.\<close>

lemma bm_bit_early_mark_aligned:
  assumes wf: "pmm_wf s" and i: "i < N_PAGES"
  shows "bm_bit (early_bitmap (early_mark_used (of_nat p * 4096) s)) i
    \<longleftrightarrow> of_nat p * 4096 = page_addr i \<or> bm_bit (early_bitmap s) i"
proof (cases "early_pfn s (of_nat p * 4096) < N_PAGES")
  case True
  let ?a = "of_nat p * 4096 :: u64" and ?k = "early_pfn s (of_nat p * 4096)"
  have st: "memory_start s = of_nat 0x40000 * 4096" using wf by (simp add: pmm_wf_def MEMORY_BASE_def)
  have "?a - memory_start s = (of_nat p - of_nat 0x40000) * 4096"
    unfolding st by (simp only: left_diff_distrib)
  then obtain w :: u64 where w: "?a - memory_start s = w * 4096" by blast
  have "unat (w * 4096) = unat (w * 4096) div 4096 * 4096"
    by (simp add: unat_word_ariths dvd_mod)
  then have "unat (?a - memory_start s) = ?k * 4096"
    by (simp add: w early_pfn_def PHYS_TO_PFN_def unat_drop_bit)
  then have "of_nat (unat (?a - memory_start s)) = (of_nat (?k * 4096) :: u64)" by simp
  then have "?a - memory_start s = of_nat ?k * 4096" by simp
  then have "?a = page_addr ?k"
    using wf by (simp add: page_addr_def PAGE_SIZE_eq pmm_wf_def algebra_simps)
  moreover have "page_addr ?k = page_addr i \<longleftrightarrow> ?k = i"
    using True i by (rule page_addr_inj)
  ultimately show ?thesis using bm_bit_early_mark(1) [OF wf True, of i] by auto
next
  case False
  then have "early_mark_used (of_nat p * 4096) s = s"
    by (simp add: early_mark_used_def N_PAGES_def EARLY_BITMAP_SIZE_def)
  moreover have "of_nat p * 4096 \<noteq> page_addr i"
    using False i early_pfn_page_addr [of i s] wf by (auto simp: pmm_wf_def)
  ultimately show ?thesis by simp
qed

lemma mark_kernel_pages_spec:
  assumes wf: "pmm_wf s" and q: "q < 2 ^ 52" and p: "p < 2 ^ 52"
  shows "\<exists>s'. mark_kernel_pages (of_nat p * 4096) (of_nat q * 4096) s = Some s' \<and> pmm_wf s'
    \<and> (\<forall>i < N_PAGES. bm_bit (early_bitmap s') i \<longleftrightarrow>
         bm_bit (early_bitmap s) i \<or> (\<exists>k. p \<le> k \<and> k < q \<and> of_nat k * 4096 = page_addr i))"
  using p wf
proof (induction "q - p" arbitrary: p s)
  case 0
  then have "\<not> of_nat p * 4096 < (of_nat q * 4096 :: u64)"
    using unat_mult_page [OF q] unat_mult_page [of p] by (simp add: word_less_nat_alt)
  then show ?case using 0 by (subst mark_kernel_pages.simps) auto
next
  case (Suc d)
  then have pq: "p < q" by simp
  then have lt: "of_nat p * 4096 < (of_nat q * 4096 :: u64)"
    using unat_mult_page [OF q] unat_mult_page [OF Suc.prems(1)] by (simp add: word_less_nat_alt)
  let ?s = "early_mark_used (of_nat p * 4096) s"
  have wf': "pmm_wf ?s" using Suc.prems(2) by simp
  have nxt: "of_nat p * 4096 + PAGE_SIZE = of_nat (Suc p) * 4096" by (simp add: PAGE_SIZE_eq algebra_simps)
  have step: "mark_kernel_pages (of_nat p * 4096) (of_nat q * 4096) s =
      mark_kernel_pages (of_nat (Suc p) * 4096) (of_nat q * 4096) ?s"
    by (subst mark_kernel_pages.simps) (simp only: lt nxt if_True)
  obtain s' where s': "mark_kernel_pages (of_nat (Suc p) * 4096) (of_nat q * 4096) ?s = Some s'" "pmm_wf s'"
      "\<forall>i < N_PAGES. bm_bit (early_bitmap s') i \<longleftrightarrow>
         bm_bit (early_bitmap ?s) i \<or> (\<exists>k. Suc p \<le> k \<and> k < q \<and> of_nat k * 4096 = page_addr i)"
  proof -
    have d: "d = q - Suc p" and p': "Suc p < 2 ^ 52" using Suc.hyps(2) pq q by simp_all
    from Suc.hyps(1) [OF d p' wf'] that show thesis by blast
  qed
  have "bm_bit (early_bitmap s') i \<longleftrightarrow>
         bm_bit (early_bitmap s) i \<or> (\<exists>k. p \<le> k \<and> k < q \<and> of_nat k * 4096 = page_addr i)"
    if "i < N_PAGES" for i
    using s'(3) that pq bm_bit_early_mark_aligned [OF Suc.prems(2) that, of p]
    by (metis Suc_leD Suc_leI le_eq_less_or_eq)
  then show ?case using step s' by auto
qed

lemma card_free_set: "total_pages s = of_nat N_PAGES \<Longrightarrow> count_free_pages s = card (free_set s)"
proof -
  assume t: "total_pages s = of_nat N_PAGES"
  have "unat (of_nat N_PAGES :: u64) = N_PAGES" by (rule unat_of_nat_small) (simp add: N_PAGES_def)
  then have "min (unat (total_pages s)) (EARLY_BITMAP_SIZE * 8) = N_PAGES"
    using t by (simp add: N_PAGES_def EARLY_BITMAP_SIZE_def)
  moreover have "free_set s = set (filter (\<lambda>i. early_bitmap s ! (i div 8) AND push_bit (i mod 8) 1 = 0) [0..<N_PAGES])"
    by (auto simp: free_set_def page_free_def bm_bit_def and_push_bit_1_eq_0 simp del: push_bit_of_1)
  ultimately show ?thesis
    unfolding count_free_pages_def by (simp add: distinct_card del: set_filter push_bit_of_1)
qed

lemma page_addr_mult: "page_addr i = of_nat (0x40000 + i) * 4096"
  by (simp add: page_addr_def MEMORY_BASE_def PAGE_SIZE_eq algebra_simps)

lemma page_addr_between:
  assumes p: "p < 2 ^ 52" and q: "q < 2 ^ 52" and i: "i < N_PAGES"
  shows "(\<exists>k. p \<le> k \<and> k < q \<and> of_nat k * 4096 = page_addr i)
      \<longleftrightarrow> of_nat p * 4096 \<le> page_addr i \<and> page_addr i < of_nat q * 4096"
proof -
  have k: "0x40000 + i < 2 ^ 52" using i by (simp add: N_PAGES_def)
  have le: "of_nat p * 4096 \<le> page_addr i \<longleftrightarrow> p \<le> 0x40000 + i"
    unfolding page_addr_mult word_le_nat_alt unat_mult_page [OF p] unat_mult_page [OF k]
    by (simp only: mult_le_cancel2) simp
  have lt: "page_addr i < of_nat q * 4096 \<longleftrightarrow> 0x40000 + i < q"
    unfolding page_addr_mult word_less_nat_alt unat_mult_page [OF q] unat_mult_page [OF k]
    by (simp only: mult_less_cancel2) simp
  have "k' = 0x40000 + i" if "k' < q" and "of_nat k' * 4096 = page_addr i" for k'
  proof -
    have "unat (of_nat k' * 4096 :: u64) = k' * 4096" using that(1) q by (intro unat_mult_page) simp
    then have "k' * 4096 = (0x40000 + i) * 4096"
      using unat_mult_page [OF k] that(2) unfolding page_addr_mult by simp
    then show ?thesis by simp
  qed
  then have "of_nat k' * 4096 = page_addr i \<longleftrightarrow> k' = 0x40000 + i" if "k' < q" for k'
    using that page_addr_mult [of i] by metis
  then show ?thesis unfolding le lt by auto
qed

definition pmm_configured :: pmm where
  "pmm_configured = pmm_boot\<lparr>memory_start := MEMORY_BASE, memory_end := MEMORY_BASE + MEMORY_SIZE,
    total_memory := MEMORY_SIZE, total_pages := MEMORY_SIZE div PAGE_SIZE,
    free_lists := replicate (MAX_ORDER + 1) None\<rparr>"

lemma pmm_wf_configured: "pmm_wf pmm_configured"
  by (simp add: pmm_wf_def pmm_configured_def pmm_boot_def MEMORY_SIZE_def PAGE_SIZE_eq N_PAGES_def)

lemma bm_bit_configured: "i < N_PAGES \<Longrightarrow> \<not> bm_bit (early_bitmap pmm_configured) i"
proof -
  assume "i < N_PAGES"
  then have "i div 8 < EARLY_BITMAP_SIZE" by (simp add: EARLY_BITMAP_SIZE_def N_PAGES_def)
  then show ?thesis by (simp add: bm_bit_def pmm_configured_def pmm_boot_def)
qed

lemma unat_div_4096_less: "unat (w :: u64) div 4096 < 2 ^ 52"
  using unsigned_less [of w, where 'a = nat] by (simp add: less_mult_imp_div_less)

lemma pmm_init_spec:
  "\<exists>s. pmm_init kernel_start kernel_end pmm_boot = Some (0, s) \<and> pmm_inv s
    \<and> (\<forall>i. page_free s i \<longleftrightarrow> i < N_PAGES \<and>
          \<not> (PAGE_ALIGN_DOWN kernel_start \<le> page_addr i \<and> page_addr i < PAGE_ALIGN kernel_end))"
proof -
  let ?p = "unat kernel_start div 4096" and ?q = "unat (kernel_end + PAGE_SIZE - 1) div 4096"
  have down: "PAGE_ALIGN_DOWN kernel_start = of_nat ?p * 4096"
    unfolding PAGE_ALIGN_DOWN_def by (rule align_down_mult)
  have up: "PAGE_ALIGN kernel_end = of_nat ?q * 4096"
    unfolding PAGE_ALIGN_def by (rule align_down_mult)
  note pq = unat_div_4096_less [of kernel_start] unat_div_4096_less [of "kernel_end + PAGE_SIZE - 1"]
  obtain s where s: "mark_kernel_pages (of_nat ?p * 4096) (of_nat ?q * 4096) pmm_configured = Some s"
      "pmm_wf s"
      "\<forall>i < N_PAGES. bm_bit (early_bitmap s) i \<longleftrightarrow>
         bm_bit (early_bitmap pmm_configured) i \<or> (\<exists>k. ?p \<le> k \<and> k < ?q \<and> of_nat k * 4096 = page_addr i)"
    using mark_kernel_pages_spec [OF pmm_wf_configured pq(2,1)] by blast
  let ?s1 = "s\<lparr>free_pages_count := of_nat (count_free_pages s)\<rparr>"
  have "pmm_init kernel_start kernel_end pmm_boot = Some (0, ?s1)"
    unfolding pmm_init_def Let_def down up pmm_configured_def [symmetric] s(1) by simp
  moreover have "pmm_inv ?s1" using s(2) by (simp add: pmm_inv_def card_free_set pmm_wf_def)
  moreover have "page_free ?s1 i \<longleftrightarrow> i < N_PAGES \<and>
      \<not> (PAGE_ALIGN_DOWN kernel_start \<le> page_addr i \<and> page_addr i < PAGE_ALIGN kernel_end)" for i
    using s(3) page_addr_between [OF pq] bm_bit_configured unfolding down up page_free_def by auto
  ultimately show ?thesis by blast
qed

text \<open>\<^verbatim>\<open>pmm_init\<close> always terminates, whatever the linker symbols are; it establishes the
  accounting invariant, and on the zeroed boot bitmap it reserves exactly the pages that
  lie between the rounded-down start and the rounded-up end of the kernel image.\<close>

theorem pmm_init_reserves_kernel:
  "\<exists>s. pmm_init kernel_start kernel_end pmm_boot = Some (0, s) \<and> pmm_inv s
    \<and> (\<forall>i. page_free s i \<longleftrightarrow> i < N_PAGES \<and>
          \<not> (PAGE_ALIGN_DOWN kernel_start \<le> page_addr i \<and> page_addr i < PAGE_ALIGN kernel_end))"
  by (rule pmm_init_spec)

section \<open>The buddy allocator\<close>

lemma buddy_address_involution: "buddy_address (buddy_address a n) n = a"
  by (simp add: buddy_address_def xor.assoc)

text \<open>Two used pages at the bottom of memory, with the buddy allocator switched on.\<close>

definition buddy_two_pages :: pmm where
  "buddy_two_pages = \<lparr>free_lists = replicate 12 None,
     page_array = Some (replicate 2 \<lparr>pg_flags = 1, pg_order = 0, pg_next = None, pg_slab = 0, pg_refcount = 0\<rparr>),
     total_pages = 2, free_pages_count = 0, total_memory = 0x2000,
     memory_start = 0x40000000, memory_end = 0x40002000, early_bitmap = [], early_mode = False\<rparr>"

text \<open>The buddy path of \<^verbatim>\<open>pmm_free_pages\<close> leaves a merged buddy on its old free list and
  adds the merged order to the counter. Freeing two single pages that are buddies reports
  three free pages, and the first page is then on the order-0 and the order-1 list at once.\<close>

theorem buddy_free_counts_merged_page_twice:
  "\<exists>s. (pmm_free_page 0x40000000 buddy_two_pages \<bind> pmm_free_page 0x40001000) = Some s
     \<and> free_pages_count s = 3 \<and> free_lists s ! 0 = Some 0 \<and> free_lists s ! 1 = Some 0"
proof -
  have "map_option (\<lambda>s. (free_pages_count s, free_lists s ! 0, free_lists s ! 1))
      (pmm_free_page 0x40000000 buddy_two_pages \<bind> pmm_free_page 0x40001000)
    = Some (3, Some 0, Some 0)"
    by code_simp
  then show ?thesis by auto
qed

section \<open>Witnesses\<close>

definition pmm_ready :: pmm where
  "pmm_ready = pmm_configured\<lparr>free_pages_count := of_nat N_PAGES\<rparr>"

lemma free_set_ready: "free_set pmm_ready = {..<N_PAGES}"
  using bm_bit_configured by (auto simp: pmm_ready_def free_set_def page_free_def)

lemma pmm_inv_ready: "pmm_inv pmm_ready"
  using pmm_wf_configured by (simp add: pmm_inv_def free_set_ready) (simp add: pmm_ready_def)

lemma pmm_wf_ready: "pmm_wf pmm_ready"
  using pmm_inv_ready by (simp add: pmm_inv_def)

lemma first_run_ready: "n \<le> N_PAGES \<Longrightarrow> first_run pmm_ready n = Some 0"
  by (auto simp: first_run_def find_upt_Some run_at_free_set free_set_ready) (simp add: N_PAGES_def)

theorem pmm_alloc_pages_first_fit_witness:
  "pmm_wf pmm_ready \<and> 3 \<le> MAX_ORDER \<and>
   pmm_alloc_pages 3 pmm_ready = Some (page_addr 0,
     (mark_run (page_addr 0) 8 pmm_ready)\<lparr>free_pages_count := free_pages_count pmm_ready - 8\<rparr>)"
proof -
  have ord: "3 \<le> MAX_ORDER" by (simp add: MAX_ORDER_def)
  show ?thesis
    using pmm_alloc_pages_first_fit [OF pmm_wf_ready ord] first_run_ready [of 8] pmm_wf_ready ord
    by (simp add: N_PAGES_def)
qed

theorem pmm_alloc_pages_inv_witness:
  "pmm_inv pmm_ready \<and> 3 \<le> MAX_ORDER \<and>
   (\<exists>a s'. pmm_alloc_pages 3 pmm_ready = Some (a, s') \<and> pmm_inv s')"
proof -
  have ord: "3 \<le> MAX_ORDER" by (simp add: MAX_ORDER_def)
  show ?thesis using pmm_alloc_pages_inv [OF pmm_inv_ready ord] pmm_inv_ready ord by blast
qed

theorem pmm_alloc_free_roundtrip_witness:
  "pmm_wf pmm_ready \<and> 3 \<le> MAX_ORDER \<and>
   (\<exists>a s'. pmm_alloc_pages 3 pmm_ready = Some (a, s') \<and> a \<noteq> 0 \<and> pmm_free_pages a 3 s' = Some pmm_ready)"
proof -
  have ord: "3 \<le> MAX_ORDER" by (simp add: MAX_ORDER_def)
  obtain s' where s': "pmm_alloc_pages 3 pmm_ready = Some (page_addr 0, s')"
    using pmm_alloc_pages_first_fit_eq [OF pmm_wf_ready ord] first_run_ready [of 8]
    by (simp add: N_PAGES_def)
  moreover have a: "page_addr 0 \<noteq> 0" by (rule page_addr_nonzero) (simp add: N_PAGES_def)
  ultimately show ?thesis
    using pmm_alloc_free_roundtrip [OF pmm_wf_ready ord s' a] pmm_wf_ready ord by blast
qed

theorem pmm_double_free_miscounts_witness:
  "pmm_inv pmm_ready \<and> page_free pmm_ready 5 \<and>
   (\<exists>s'. pmm_free_page (page_addr 5) pmm_ready = Some s' \<and> \<not> pmm_inv s')"
proof -
  have "5 \<in> free_set pmm_ready" by (simp add: free_set_ready) (simp add: N_PAGES_def)
  then have f: "page_free pmm_ready 5" by (simp add: free_set_def)
  show ?thesis using pmm_double_free_miscounts [OF pmm_inv_ready f] pmm_inv_ready f by blast
qed

end
