(* ===== verification/Sched.thy ===== *)
theory Sched
  imports Linked_List Pmm
begin

text \<open>
  The scheduler, \<^verbatim>\<open>kernel/sched/sched.c\<close>: a static pool of tasks, a doubly linked run queue and the
  switch to the head of that queue. A task is addressed by a pointer: 1 is \<^verbatim>\<open>&init_task\<close> and \<open>2 + i\<close>
  is \<^verbatim>\<open>&task_pool[i]\<close>. Kernel stacks come from the page allocator. Fields of
  \<^verbatim>\<open>struct task_struct\<close> that neither the scheduler nor the signal code touches (child lists and times)
  are left out; loading an address space is recorded in \<open>loaded_mm\<close>, and the register
  switch itself (\<^verbatim>\<open>cpu_switch_to\<close>, assembly) has no effect on the state modelled here.
\<close>

section \<open>State\<close>

datatype task_state = TASK_RUNNING | TASK_INTERRUPTIBLE | TASK_UNINTERRUPTIBLE | TASK_STOPPED | TASK_ZOMBIE | TASK_DEAD

record cpu_context =
  cc_x19 :: u64
  cc_sp :: u64
  cc_pc :: u64

record task_struct =
  t_state :: task_state
  t_prio :: int
  t_static_prio :: int
  t_nice :: int
  t_pid :: int
  t_tgid :: int
  t_uid :: u32
  t_gid :: u32
  t_comm :: string
  t_ctx :: cpu_context
  t_mm :: ptr
  t_active_mm :: ptr
  t_stack :: u64
  t_stack_size :: u64
  t_parent :: ptr
  t_next :: ptr
  t_prev :: ptr
  t_exit_code :: int
  t_signals :: ptr
  t_pending_signals :: u64
  t_blocked_signals :: u64
  t_flags :: u32

definition MAX_TASKS :: nat where "MAX_TASKS = 256"
definition TASK_COMM_LEN :: nat where "TASK_COMM_LEN = 16"
definition PRIO_DEFAULT :: int where "PRIO_DEFAULT = 0"
definition PF_KTHREAD :: u32 where "PF_KTHREAD = 1"
definition PF_EXITING :: u32 where "PF_EXITING = 2"
definition PF_IDLE :: u32 where "PF_IDLE = 4"
definition PF_THREAD :: u32 where "PF_THREAD = 32"
definition CLONE_VM :: u32 where "CLONE_VM = 0x100"
definition CLONE_THREAD :: u32 where "CLONE_THREAD = 0x10000"
definition KERNEL_STACK_SIZE :: u64 where "KERNEL_STACK_SIZE = 16 * 1024"

record rq =
  rq_current :: ptr
  rq_idle :: ptr
  rq_head :: ptr
  rq_tail :: ptr
  rq_nr_running :: nat
  rq_clock :: u64

record sched =
  runqueue :: rq
  tasks :: "ptr \<Rightarrow> task_struct"
  task_pool_index :: nat
  next_pid :: int
  mm_users :: "ptr \<Rightarrow> int"
  loaded_mm :: ptr
  phys :: pmm

definition INIT_TASK :: ptr where "INIT_TASK = 1"
definition POOL :: "nat \<Rightarrow> ptr" where "POOL i = 2 + i"

definition zero_task :: task_struct where
  "zero_task = \<lparr>t_state = TASK_RUNNING, t_prio = 0, t_static_prio = 0, t_nice = 0, t_pid = 0, t_tgid = 0,
     t_uid = 0, t_gid = 0, t_comm = replicate 16 (CHR 0x00), t_ctx = \<lparr>cc_x19 = 0, cc_sp = 0, cc_pc = 0\<rparr>,
     t_mm = NULL, t_active_mm = NULL, t_stack = 0, t_stack_size = 0, t_parent = NULL, t_next = NULL,
     t_prev = NULL, t_exit_code = 0, t_signals = NULL, t_pending_signals = 0, t_blocked_signals = 0, t_flags = 0\<rparr>"

definition init_task :: task_struct where
  "init_task = zero_task\<lparr>t_state := TASK_RUNNING, t_prio := PRIO_DEFAULT, t_static_prio := PRIO_DEFAULT,
     t_nice := 0, t_pid := 0, t_tgid := 0, t_comm := ''swapper'' @ replicate 9 (CHR 0x00),
     t_flags := PF_KTHREAD OR PF_IDLE\<rparr>"

definition upd_task :: "ptr \<Rightarrow> (task_struct \<Rightarrow> task_struct) \<Rightarrow> sched \<Rightarrow> sched" where
  "upd_task t f s = s\<lparr>tasks := (tasks s)(t := f (tasks s t))\<rparr>"

definition upd_rq :: "(rq \<Rightarrow> rq) \<Rightarrow> sched \<Rightarrow> sched" where
  "upd_rq f s = s\<lparr>runqueue := f (runqueue s)\<rparr>"

section \<open>Helper functions\<close>

definition alloc_task :: "sched \<Rightarrow> ptr \<times> sched" where
  "alloc_task s =
     (if task_pool_index s \<ge> MAX_TASKS then (NULL, s)
      else let task = POOL (task_pool_index s)
           in (task, upd_task task (\<lambda>_. zero_task) (s\<lparr>task_pool_index := Suc (task_pool_index s)\<rparr>)))"

function stack_order :: "u64 \<Rightarrow> nat \<Rightarrow> nat" where
  "stack_order sz order =
     (if push_bit order PAGE_SIZE < sz \<and> order < 10 then stack_order sz (Suc order) else order)"
  by pat_completeness auto
termination
  by (relation "measure (\<lambda>(sz, order). 10 - order)") auto

definition alloc_stack :: "u64 \<Rightarrow> sched \<Rightarrow> (u64 \<times> sched) option" where
  "alloc_stack sz s =
     map_option (\<lambda>(paddr, pm). (paddr, s\<lparr>phys := pm\<rparr>)) (pmm_alloc_pages (stack_order sz 0) (phys s))"

definition enqueue_task :: "ptr \<Rightarrow> sched \<Rightarrow> sched" where
  "enqueue_task task s =
     (let s = upd_task task (t_state_update (\<lambda>_. TASK_RUNNING)) s;
          s = (if rq_head (runqueue s) = NULL
               then upd_task task (\<lambda>t. t\<lparr>t_next := NULL, t_prev := NULL\<rparr>)
                      (upd_rq (\<lambda>r. r\<lparr>rq_head := task, rq_tail := task\<rparr>) s)
               else let tail = rq_tail (runqueue s);
                        s = upd_task task (\<lambda>t. t\<lparr>t_prev := tail, t_next := NULL\<rparr>) s;
                        s = upd_task tail (t_next_update (\<lambda>_. task)) s
                    in upd_rq (rq_tail_update (\<lambda>_. task)) s)
      in upd_rq (rq_nr_running_update Suc) s)"

definition dequeue_task :: "ptr \<Rightarrow> sched \<Rightarrow> sched" where
  "dequeue_task task s =
     (let s = (if t_prev (tasks s task) \<noteq> NULL
               then upd_task (t_prev (tasks s task)) (t_next_update (\<lambda>_. t_next (tasks s task))) s
               else upd_rq (rq_head_update (\<lambda>_. t_next (tasks s task))) s);
          s = (if t_next (tasks s task) \<noteq> NULL
               then upd_task (t_next (tasks s task)) (t_prev_update (\<lambda>_. t_prev (tasks s task))) s
               else upd_rq (rq_tail_update (\<lambda>_. t_prev (tasks s task))) s);
          s = upd_task task (\<lambda>t. t\<lparr>t_next := NULL, t_prev := NULL\<rparr>) s
      in if rq_nr_running (runqueue s) > 0 then upd_rq (rq_nr_running_update (\<lambda>n. n - 1)) s else s)"

definition pick_next_task :: "sched \<Rightarrow> ptr" where
  "pick_next_task s =
     (let nxt = rq_head (runqueue s) in if nxt = NULL then rq_idle (runqueue s) else nxt)"

section \<open>Public functions\<close>

definition sched_init :: "sched \<Rightarrow> sched" where
  "sched_init s =
     upd_rq (\<lambda>r. r\<lparr>rq_current := INIT_TASK, rq_idle := INIT_TASK, rq_head := NULL, rq_tail := NULL,
                 rq_nr_running := 0, rq_clock := 0\<rparr>) s"

definition context_switch :: "ptr \<Rightarrow> ptr \<Rightarrow> sched \<Rightarrow> sched" where
  "context_switch prv nxt s =
     (let s = (if t_mm (tasks s nxt) \<noteq> NULL \<and> t_mm (tasks s nxt) \<noteq> t_mm (tasks s prv)
               then s\<lparr>loaded_mm := t_mm (tasks s nxt)\<rparr> else s)
      in upd_task nxt (\<lambda>t. t\<lparr>t_active_mm := (if t_mm t \<noteq> NULL then t_mm t else t_active_mm (tasks s prv))\<rparr>) s)"

definition schedule :: "sched \<Rightarrow> sched" where
  "schedule s =
     (let prv = rq_current (runqueue s);
          nxt = pick_next_task s
      in if nxt = prv then s
         else
           (let s = (if t_state (tasks s prv) = TASK_RUNNING \<and> prv \<noteq> rq_idle (runqueue s)
                     then enqueue_task prv (dequeue_task prv s) else s);
                s = upd_rq (rq_current_update (\<lambda>_. nxt)) s
            in context_switch prv nxt s))"

definition wake_up_process :: "ptr \<Rightarrow> sched \<Rightarrow> int \<times> sched" where
  "wake_up_process task s =
     (if task = NULL then (0, s)
      else if t_state (tasks s task) = TASK_RUNNING then (0, s)
      else (1, enqueue_task task (upd_task task (t_state_update (\<lambda>_. TASK_RUNNING)) s)))"

definition default_comm :: string where
  "default_comm = map (\<lambda>i. ''task'' ! (if i < 4 then i else 0)) [0..<TASK_COMM_LEN - 1] @ [CHR 0x00]"

definition create_task :: "u64 \<Rightarrow> u64 \<Rightarrow> u32 \<Rightarrow> sched \<Rightarrow> (ptr \<times> sched) option" where
  "create_task entry arg flags s =
     (let (task, s) = alloc_task s in
      if task = NULL then Some (NULL, s)
      else
        (case alloc_stack KERNEL_STACK_SIZE s of
           None \<Rightarrow> None
         | Some (stack, s) \<Rightarrow>
             if stack = 0 then Some (NULL, s)
             else
               (let pid = next_pid s;
                    s = s\<lparr>next_pid := pid + 1\<rparr>;
                    s = upd_task task
                          (\<lambda>t. t\<lparr>t_state := TASK_RUNNING, t_prio := PRIO_DEFAULT, t_static_prio := PRIO_DEFAULT,
                                 t_nice := 0, t_pid := pid, t_tgid := pid, t_flags := flags, t_stack := stack,
                                 t_stack_size := KERNEL_STACK_SIZE, t_parent := rq_current (runqueue s),
                                 t_ctx := (t_ctx t)\<lparr>cc_sp := stack + KERNEL_STACK_SIZE, cc_pc := entry, cc_x19 := arg\<rparr>,
                                 t_comm := default_comm\<rparr>) s
                in Some (task, enqueue_task task s))))"

definition exit_task :: "int \<Rightarrow> sched \<Rightarrow> sched" where
  "exit_task code s =
     (let cur = rq_current (runqueue s);
          s = upd_task cur (\<lambda>t. t\<lparr>t_exit_code := code, t_state := TASK_ZOMBIE, t_flags := t_flags t OR PF_EXITING\<rparr>) s;
          s = dequeue_task cur s
      in schedule s)"

section \<open>Threads\<close>

function copy_comm :: "nat \<Rightarrow> string \<Rightarrow> string \<Rightarrow> string" where
  "copy_comm i pcomm comm =
     (if i < TASK_COMM_LEN - 10 \<and> pcomm ! i \<noteq> CHR 0x00
      then copy_comm (Suc i) pcomm (comm[i := pcomm ! i])
      else comm[i := CHR 0x00])"
  by pat_completeness auto
termination
  by (relation "measure (\<lambda>(i, pcomm, comm). TASK_COMM_LEN - i)") auto

definition create_thread :: "u64 \<Rightarrow> u64 \<Rightarrow> u64 \<Rightarrow> u32 \<Rightarrow> sched \<Rightarrow> (int \<times> sched) option" where
  "create_thread entry arg stack clone_flags s =
     (let par = rq_current (runqueue s);
          (task, s) = alloc_task s
      in if task = NULL then Some (- 1, s)
         else
           (let p = tasks s par;
                pid = next_pid s;
                s = s\<lparr>next_pid := pid + 1\<rparr>;
                s = upd_task task
                      (\<lambda>t. t\<lparr>t_state := TASK_RUNNING, t_prio := t_prio p, t_static_prio := t_static_prio p,
                             t_nice := t_nice p, t_pid := pid,
                             t_tgid := (if clone_flags AND CLONE_THREAD \<noteq> 0 then t_tgid p else pid),
                             t_flags := PF_THREAD, t_parent := par, t_uid := t_uid p, t_gid := t_gid p,
                             t_comm := copy_comm 0 (t_comm p) (t_comm t),
                             t_mm := t_mm p, t_active_mm := t_active_mm p\<rparr>) s;
                s = (if clone_flags AND CLONE_VM \<noteq> 0 \<and> t_mm p \<noteq> NULL
                     then s\<lparr>mm_users := (mm_users s)(t_mm p := mm_users s (t_mm p) + 1)\<rparr> else s);
                run = (\<lambda>s. let s = upd_task task (\<lambda>t. t\<lparr>t_ctx := (t_ctx t)\<lparr>cc_pc := entry, cc_x19 := arg\<rparr>\<rparr>) s
                           in (pid, enqueue_task task s))
            in if stack \<noteq> 0 then
                 Some (run (upd_task task (\<lambda>t. t\<lparr>t_stack := stack, t_stack_size := 0,
                                                  t_ctx := (t_ctx t)\<lparr>cc_sp := stack\<rparr>\<rparr>) s))
               else
                 (case alloc_stack KERNEL_STACK_SIZE s of
                    None \<Rightarrow> None
                  | Some (stk, s) \<Rightarrow>
                      (let s = upd_task task (t_stack_update (\<lambda>_. stk)) s in
                       if stk = 0 then Some (- 1, s)
                       else Some (run (upd_task task
                              (\<lambda>t. t\<lparr>t_stack_size := KERNEL_STACK_SIZE,
                                     t_ctx := (t_ctx t)\<lparr>cc_sp := stk + KERNEL_STACK_SIZE\<rparr>\<rparr>) s))))))"

definition get_task_by_pid :: "int \<Rightarrow> sched \<Rightarrow> ptr" where
  "get_task_by_pid pid s =
     (if t_pid (tasks s INIT_TASK) = pid then INIT_TASK
      else case find (\<lambda>i. t_pid (tasks s (POOL i)) = pid \<and> t_state (tasks s (POOL i)) \<noteq> TASK_DEAD)
                  [0..<task_pool_index s] of
             None \<Rightarrow> NULL
           | Some i \<Rightarrow> POOL i)"

definition sched_kill_task :: "int \<Rightarrow> sched \<Rightarrow> int \<times> sched" where
  "sched_kill_task pid s =
     (let task = get_task_by_pid pid s in
      if task = NULL then (- ESRCH, s)
      else if t_pid (tasks s task) = 0 \<or> t_flags (tasks s task) AND PF_IDLE \<noteq> 0 then (- EPERM, s)
      else
        (let s = upd_task task (\<lambda>t. t\<lparr>t_flags := t_flags t OR PF_EXITING,
                                      t_pending_signals := t_pending_signals t OR push_bit 9 1\<rparr>) s;
             s = (if t_state (tasks s task) = TASK_INTERRUPTIBLE \<or> t_state (tasks s task) = TASK_UNINTERRUPTIBLE
                  then enqueue_task task (upd_task task (t_state_update (\<lambda>_. TASK_RUNNING)) s) else s)
         in (0, s)))"

definition get_current :: "sched \<Rightarrow> ptr" where
  "get_current s = rq_current (runqueue s)"

declare stack_order.simps [simp del] copy_comm.simps [simp del]

section \<open>The run queue as a list\<close>

abbreviation "tnext s t \<equiv> t_next (tasks s t)"
abbreviation "tprev s t \<equiv> t_prev (tasks s t)"
abbreviation "qhead s \<equiv> rq_head (runqueue s)"
abbreviation "qtail s \<equiv> rq_tail (runqueue s)"

text \<open>\<open>rq_rep s q\<close>: following the links from the head visits exactly the tasks \<open>q\<close>, in that order, the
  tail is the last of them and \<^verbatim>\<open>nr_running\<close> counts them.\<close>

definition rq_rep :: "sched \<Rightarrow> ptr list \<Rightarrow> bool" where
  "rq_rep s q \<longleftrightarrow> dll (tnext s) (tprev s) NULL (qhead s) q (qtail s) NULL \<and> distinct q
     \<and> rq_nr_running (runqueue s) = length q"

lemma upd_task_simps [simp]:
  "tasks (upd_task t f s) = (tasks s)(t := f (tasks s t))" "runqueue (upd_task t f s) = runqueue s"
  "task_pool_index (upd_task t f s) = task_pool_index s" "next_pid (upd_task t f s) = next_pid s"
  "mm_users (upd_task t f s) = mm_users s" "loaded_mm (upd_task t f s) = loaded_mm s" "phys (upd_task t f s) = phys s"
  by (simp_all add: upd_task_def)

lemma upd_rq_simps [simp]:
  "tasks (upd_rq f s) = tasks s" "runqueue (upd_rq f s) = f (runqueue s)"
  "task_pool_index (upd_rq f s) = task_pool_index s" "next_pid (upd_rq f s) = next_pid s"
  "mm_users (upd_rq f s) = mm_users s" "loaded_mm (upd_rq f s) = loaded_mm s" "phys (upd_rq f s) = phys s"
  by (simp_all add: upd_rq_def)

lemma rq_rep_head: "rq_rep s q \<Longrightarrow> qhead s = (if q = [] then NULL else hd q)"
  by (auto simp: rq_rep_def dest: dll_first)

lemma rq_rep_tail: "rq_rep s q \<Longrightarrow> qtail s = (if q = [] then NULL else last q)"
  by (auto simp: rq_rep_def dest: dll_last)

lemma rq_rep_nonnull: "rq_rep s q \<Longrightarrow> t \<in> set q \<Longrightarrow> t \<noteq> NULL"
  by (auto simp: rq_rep_def dest: dll_nonnull)

lemma rq_rep_cong:
  assumes "rq_rep s q" and "\<And>t. t \<in> set q \<Longrightarrow> tnext s' t = tnext s t \<and> tprev s' t = tprev s t"
    and "qhead s' = qhead s" "qtail s' = qtail s" "rq_nr_running (runqueue s') = rq_nr_running (runqueue s)"
  shows "rq_rep s' q"
  using assms dll_cong [of q "tnext s'" "tnext s" "tprev s'" "tprev s"] by (simp add: rq_rep_def)

lemma enqueue_task_fields:
  assumes "qhead s = NULL \<or> qtail s \<noteq> t"
  shows "tnext (enqueue_task t s) a = (if a = t then NULL else if qhead s \<noteq> NULL \<and> a = qtail s then t else tnext s a)"
    and "tprev (enqueue_task t s) a = (if a = t then (if qhead s = NULL then NULL else qtail s) else tprev s a)"
    and "qhead (enqueue_task t s) = (if qhead s = NULL then t else qhead s)"
    and "qtail (enqueue_task t s) = t"
    and "rq_nr_running (runqueue (enqueue_task t s)) = Suc (rq_nr_running (runqueue s))"
  using assms by (auto simp: enqueue_task_def Let_def)

lemma enqueue_task_frame:
  "t_state (tasks (enqueue_task t s) a) = (if a = t then TASK_RUNNING else t_state (tasks s a))"
  "t_pid (tasks (enqueue_task t s) a) = t_pid (tasks s a)"
  "t_signals (tasks (enqueue_task t s) a) = t_signals (tasks s a)"
  "t_flags (tasks (enqueue_task t s) a) = t_flags (tasks s a)"
  "rq_current (runqueue (enqueue_task t s)) = rq_current (runqueue s)"
  "rq_idle (runqueue (enqueue_task t s)) = rq_idle (runqueue s)"
  "task_pool_index (enqueue_task t s) = task_pool_index s" "next_pid (enqueue_task t s) = next_pid s"
  "phys (enqueue_task t s) = phys s"
  by (simp_all add: enqueue_task_def Let_def)

lemma enqueue_task_rep:
  assumes r: "rq_rep s q" and t: "t \<noteq> NULL" "t \<notin> set q"
  shows "rq_rep (enqueue_task t s) (q @ [t])"
proof -
  have h: "qhead s = NULL \<longleftrightarrow> q = []" using rq_rep_head [OF r] rq_rep_nonnull [OF r] by (auto split: if_splits)
  have "qhead s = NULL \<or> qtail s \<noteq> t" using rq_rep_tail [OF r] t h by auto
  note f = enqueue_task_fields [OF this]
  have tl: "qtail s = NULL" if "q = []" using rq_rep_tail [OF r] that by simp
  have "dll (tnext (enqueue_task t s)) (tprev (enqueue_task t s)) NULL (if q = [] then t else qhead s) (q @ [t]) t NULL"
    using r t by (intro dll_snoc [of "tnext s" "tprev s" _ _ "qtail s"]) (auto simp: rq_rep_def f h tl)
  then show ?thesis using r t by (simp add: rq_rep_def f h)
qed

lemma dequeue_task_fields:
  assumes "t \<noteq> NULL" and "tprev s t \<noteq> t" and "tnext s t \<noteq> t"
  shows "a \<noteq> t \<Longrightarrow> a \<noteq> NULL \<Longrightarrow> tnext (dequeue_task t s) a = (if a = tprev s t then tnext s t else tnext s a)"
    and "a \<noteq> t \<Longrightarrow> a \<noteq> NULL \<Longrightarrow> tprev (dequeue_task t s) a = (if a = tnext s t then tprev s t else tprev s a)"
    and "qhead (dequeue_task t s) = (if tprev s t = NULL then tnext s t else qhead s)"
    and "qtail (dequeue_task t s) = (if tnext s t = NULL then tprev s t else qtail s)"
    and "rq_nr_running (runqueue (dequeue_task t s)) = rq_nr_running (runqueue s) - 1"
proof -
  define u v where "u = tprev s t" and "v = tnext s t"
  define s1 where "s1 = (if u \<noteq> NULL then upd_task u (t_next_update (\<lambda>_. v)) s else upd_rq (rq_head_update (\<lambda>_. v)) s)"
  define s2 where "s2 = (if v \<noteq> NULL then upd_task v (t_prev_update (\<lambda>_. u)) s1 else upd_rq (rq_tail_update (\<lambda>_. u)) s1)"
  have uv: "u \<noteq> t" "v \<noteq> t" using assms by (auto simp: u_def v_def)
  have s1: "tnext s1 t = v" "tprev s1 t = u" using uv by (simp_all add: s1_def u_def v_def)
  have d: "dequeue_task t s = (let s3 = upd_task t (\<lambda>t. t\<lparr>t_next := NULL, t_prev := NULL\<rparr>) s2 in
      if rq_nr_running (runqueue s3) > 0 then upd_rq (rq_nr_running_update (\<lambda>n. n - 1)) s3 else s3)"
    unfolding dequeue_task_def u_def [symmetric] v_def [symmetric] Let_def s1_def [symmetric] s1 s2_def [symmetric] ..
  have n1: "tnext s1 x = (if u \<noteq> NULL \<and> x = u then v else tnext s x)" "tprev s1 x = tprev s x" for x by (simp_all add: s1_def)
  have n2: "tnext s2 x = tnext s1 x" "tprev s2 x = (if v \<noteq> NULL \<and> x = v then u else tprev s1 x)" for x by (simp_all add: s2_def)
  have q2: "qhead s2 = (if u = NULL then v else qhead s)" "qtail s2 = (if v = NULL then u else qtail s)"
    "rq_nr_running (runqueue s2) = rq_nr_running (runqueue s)" by (simp_all add: s2_def s1_def)
  show "a \<noteq> t \<Longrightarrow> a \<noteq> NULL \<Longrightarrow> tnext (dequeue_task t s) a = (if a = tprev s t then tnext s t else tnext s a)"
    "a \<noteq> t \<Longrightarrow> a \<noteq> NULL \<Longrightarrow> tprev (dequeue_task t s) a = (if a = tnext s t then tprev s t else tprev s a)"
    "qhead (dequeue_task t s) = (if tprev s t = NULL then tnext s t else qhead s)"
    "qtail (dequeue_task t s) = (if tnext s t = NULL then tprev s t else qtail s)"
    "rq_nr_running (runqueue (dequeue_task t s)) = rq_nr_running (runqueue s) - 1"
    unfolding u_def [symmetric] v_def [symmetric] d Let_def by (simp_all add: n1 n2 q2)
qed

lemma dequeue_task_frame:
  "t_state (tasks (dequeue_task t s) a) = t_state (tasks s a)"
  "t_pid (tasks (dequeue_task t s) a) = t_pid (tasks s a)"
  "rq_current (runqueue (dequeue_task t s)) = rq_current (runqueue s)"
  "rq_idle (runqueue (dequeue_task t s)) = rq_idle (runqueue s)"
  "task_pool_index (dequeue_task t s) = task_pool_index s" "next_pid (dequeue_task t s) = next_pid s"
  "phys (dequeue_task t s) = phys s"
  by (simp_all add: dequeue_task_def Let_def)

lemma dequeue_task_rep:
  assumes r: "rq_rep s q" and t: "t \<in> set q"
  shows "rq_rep (dequeue_task t s) (remove1 t q)"
proof -
  obtain us vs where q: "q = us @ t # vs" "t \<notin> set us" using t by (metis split_list_first)
  have dl: "dll (tnext s) (tprev s) NULL (qhead s) (us @ t # vs) (qtail s) NULL" and d: "distinct (us @ t # vs)"
    using r q by (simp_all only: rq_rep_def)
  have t0: "t \<noteq> NULL" using rq_rep_nonnull [OF r t] .
  have "tnext s t = NULL \<or> tnext s t \<in> set vs" using dll_next [OF dl] by simp
  moreover have "tprev s t = NULL \<or> tprev s t \<in> set us" using dll_prev [OF dl] by simp
  ultimately have "tprev s t \<noteq> t" "tnext s t \<noteq> t" using t0 d by auto
  note f = dequeue_task_fields [OF t0 this]
  have "dll (tnext (dequeue_task t s)) (tprev (dequeue_task t s)) NULL (qhead (dequeue_task t s)) (us @ vs)
          (qtail (dequeue_task t s)) NULL"
    unfolding f(3,4)
  proof (rule dll_unlink [OF dl d])
    fix a assume a: "a \<in> set (us @ vs)"
    then have "a \<noteq> t" "a \<noteq> NULL" using d dll_nonnull [OF dl, of a] by auto
    then show "tnext (dequeue_task t s) a = (if a = tprev s t then tnext s t else tnext s a)"
      "tprev (dequeue_task t s) a = (if a = tnext s t then tprev s t else tprev s a)" by (rule f(1), rule f(2))
  qed
  moreover have "remove1 t q = us @ vs" using q by (simp add: remove1_append)
  moreover have "rq_nr_running (runqueue (dequeue_task t s)) = length (us @ vs)"
    using r q by (simp add: rq_rep_def f(5))
  ultimately show ?thesis using d by (simp add: rq_rep_def del: dll_append)
qed

section \<open>The run queue contract\<close>

text \<open>What \<^verbatim>\<open>schedule\<close>, \<^verbatim>\<open>create_task\<close> and \<^verbatim>\<open>exit_task\<close> rely on: tasks are appended at the end and removed
  from anywhere, and the rest keeps its order.\<close>

locale run_queue =
  fixes rep :: "'s \<Rightarrow> ptr list \<Rightarrow> bool" and enq :: "ptr \<Rightarrow> 's \<Rightarrow> 's" and deq :: "ptr \<Rightarrow> 's \<Rightarrow> 's"
  assumes rep_distinct: "rep s q \<Longrightarrow> distinct q"
    and rep_nonnull: "rep s q \<Longrightarrow> t \<in> set q \<Longrightarrow> t \<noteq> NULL"
    and enq_rep: "\<lbrakk> rep s q; t \<noteq> NULL; t \<notin> set q \<rbrakk> \<Longrightarrow> rep (enq t s) (q @ [t])"
    and deq_rep: "\<lbrakk> rep s q; t \<in> set q \<rbrakk> \<Longrightarrow> rep (deq t s) (remove1 t q)"
begin

text \<open>Moving a queued task to the end.\<close>

lemma requeue:
  assumes "rep s q" and "t \<in> set q"
  shows "rep (enq t (deq t s)) (remove1 t q @ [t])"
  using assms deq_rep [OF assms] rep_nonnull [OF assms] rep_distinct [OF assms(1)]
  by (intro enq_rep) (auto simp: set_remove1_eq)

text \<open>A task that was appended and removed again leaves the queue as it was.\<close>

lemma enq_deq:
  assumes "rep s q" and "t \<noteq> NULL" and "t \<notin> set q"
  shows "rep (deq t (enq t s)) q"
  using deq_rep [OF enq_rep [OF assms], of t] assms(3) by (simp add: remove1_append)

end

interpretation sq: run_queue rq_rep enqueue_task dequeue_task
proof
  show "distinct q" if "rq_rep s q" for s q using that by (simp add: rq_rep_def)
qed (fact rq_rep_nonnull enqueue_task_rep dequeue_task_rep)+

section \<open>What the scheduler does\<close>

lemma context_switch_frame [simp]:
  "runqueue (context_switch p n s) = runqueue s" "task_pool_index (context_switch p n s) = task_pool_index s"
  "next_pid (context_switch p n s) = next_pid s" "phys (context_switch p n s) = phys s"
  "tnext (context_switch p n s) a = tnext s a" "tprev (context_switch p n s) a = tprev s a"
  "t_state (tasks (context_switch p n s) a) = t_state (tasks s a)"
  "t_pid (tasks (context_switch p n s) a) = t_pid (tasks s a)"
  by (simp_all add: context_switch_def Let_def)

lemma rq_rep_switch:
  assumes "rq_rep s q"
  shows "rq_rep (context_switch p n (upd_rq (rq_current_update (\<lambda>_. c)) s)) q"
  using assms by (rule rq_rep_cong) simp_all

text \<open>A task of the pool, and a well-formed scheduler: the run queue is a proper list of pool tasks and the
  current task is either the idle task or one of the queue.\<close>

definition sched_inv :: "sched \<Rightarrow> ptr list \<Rightarrow> bool" where
  "sched_inv s q \<longleftrightarrow> rq_rep s q \<and> rq_idle (runqueue s) = INIT_TASK
     \<and> task_pool_index s \<le> MAX_TASKS \<and> set q \<subseteq> POOL ` {..<task_pool_index s}
     \<and> (\<forall>i < task_pool_index s. t_pid (tasks s (POOL i)) < next_pid s) \<and> 0 < next_pid s
     \<and> t_pid (tasks s INIT_TASK) = 0 \<and> pmm_inv (phys s)"

lemma POOL_simps [simp]: "POOL i \<noteq> NULL" "POOL i \<noteq> INIT_TASK" "INIT_TASK \<noteq> POOL i" "POOL i = POOL j \<longleftrightarrow> i = j"
  by (simp_all add: POOL_def INIT_TASK_def)

lemma idle_notin_queue: "sched_inv s q \<Longrightarrow> INIT_TASK \<notin> set q"
proof
  assume "sched_inv s q" and "INIT_TASK \<in> set q"
  then obtain i where "INIT_TASK = POOL i" by (auto simp: sched_inv_def)
  then show False using POOL_simps(2) [of i] by simp
qed

lemma schedule_cases:
  assumes inv: "sched_inv s q" and cur: "rq_current (runqueue s) = INIT_TASK \<or> rq_current (runqueue s) \<in> set q
      \<or> t_state (tasks s (rq_current (runqueue s))) \<noteq> TASK_RUNNING"
  shows "sched_inv (schedule s)
      (if q = [] \<or> rq_current (runqueue s) = hd q \<or> rq_current (runqueue s) = INIT_TASK
          \<or> t_state (tasks s (rq_current (runqueue s))) \<noteq> TASK_RUNNING then q
       else remove1 (rq_current (runqueue s)) q @ [rq_current (runqueue s)])"
    and "rq_current (runqueue (schedule s)) = (if q = [] then INIT_TASK else hd q)"
proof -
  define cur where "cur = rq_current (runqueue s)"
  have rep: "rq_rep s q" and idle: "rq_idle (runqueue s) = INIT_TASK" using inv by (auto simp: sched_inv_def)
  have pick: "pick_next_task s = (if q = [] then INIT_TASK else hd q)"
    using rq_rep_head [OF rep] rq_rep_nonnull [OF rep, of "hd q"] idle
    by (cases "q = []") (auto simp: pick_next_task_def Let_def)
  show "rq_current (runqueue (schedule s)) = (if q = [] then INIT_TASK else hd q)"
    using pick by (auto simp: schedule_def Let_def)
  let ?q = "if q = [] \<or> cur = hd q \<or> cur = INIT_TASK \<or> t_state (tasks s cur) \<noteq> TASK_RUNNING then q
       else remove1 cur q @ [cur]"
  have "rq_rep (schedule s) ?q"
  proof (cases "pick_next_task s = cur")
    case True
    then have "schedule s = s" by (simp add: schedule_def cur_def)
    moreover have "q = [] \<or> cur = hd q" using True pick by (auto split: if_splits)
    ultimately show ?thesis using rep by auto
  next
    case False
    have ne: "q = [] \<or> cur \<noteq> hd q" using False pick by (auto split: if_splits)
    let ?s = "if t_state (tasks s cur) = TASK_RUNNING \<and> cur \<noteq> INIT_TASK then enqueue_task cur (dequeue_task cur s) else s"
    have e: "schedule s = context_switch cur (pick_next_task s)
        (upd_rq (rq_current_update (\<lambda>_. pick_next_task s)) ?s)"
      using False idle by (simp add: schedule_def Let_def cur_def [symmetric])
    have "rq_rep ?s ?q"
      using rep sq.requeue [OF rep, of cur] cur ne by (auto simp: cur_def)
    then show ?thesis unfolding e by (rule rq_rep_switch)
  qed
  moreover have "set ?q \<subseteq> set q" using cur set_remove1_subset [of cur q] by (auto simp: cur_def)
  moreover have "t_pid (tasks (schedule s) a) = t_pid (tasks s a)" for a
    by (simp add: schedule_def Let_def enqueue_task_frame dequeue_task_frame)
  moreover have "rq_idle (runqueue (schedule s)) = INIT_TASK" "task_pool_index (schedule s) = task_pool_index s"
    "next_pid (schedule s) = next_pid s" "phys (schedule s) = phys s"
    using idle by (simp_all add: schedule_def Let_def enqueue_task_frame dequeue_task_frame)
  ultimately have "sched_inv (schedule s) ?q" using inv unfolding sched_inv_def by auto
  then show "sched_inv (schedule s)
      (if q = [] \<or> rq_current (runqueue s) = hd q \<or> rq_current (runqueue s) = INIT_TASK
          \<or> t_state (tasks s (rq_current (runqueue s))) \<noteq> TASK_RUNNING then q
       else remove1 (rq_current (runqueue s)) q @ [rq_current (runqueue s)])" by (simp only: cur_def)
qed

lemma alloc_task_spec:
  assumes "sched_inv s q" and "alloc_task s = (t, s')"
  shows "if t = NULL then s' = s \<and> task_pool_index s = MAX_TASKS
    else t = POOL (task_pool_index s) \<and> task_pool_index s < MAX_TASKS \<and> task_pool_index s' = Suc (task_pool_index s)
      \<and> sched_inv s' q \<and> t \<notin> set q \<and> tasks s' = (tasks s)(t := zero_task) \<and> next_pid s' = next_pid s
      \<and> runqueue s' = runqueue s \<and> phys s' = phys s"
proof (cases "task_pool_index s \<ge> MAX_TASKS")
  case True
  then show ?thesis using assms by (auto simp: alloc_task_def sched_inv_def)
next
  case False
  let ?i = "task_pool_index s" and ?t = "POOL (task_pool_index s)"
  have t: "t = ?t" "s' = upd_task ?t (\<lambda>_. zero_task) (s\<lparr>task_pool_index := Suc ?i\<rparr>)"
    using assms(2) False by (auto simp: alloc_task_def Let_def)
  have nq: "?t \<notin> set q" using assms(1) by (auto simp: sched_inv_def)
  have "rq_rep s q" using assms(1) by (simp add: sched_inv_def)
  then have "rq_rep s' q" unfolding t using nq by (elim rq_rep_cong) auto
  then have "sched_inv s' q"
    using assms(1) False unfolding sched_inv_def t by (auto simp: zero_task_def less_Suc_eq)
  then show ?thesis using False nq t by auto
qed

lemma kernel_stack_order: "stack_order KERNEL_STACK_SIZE 0 = 2"
  by (simp add: stack_order.simps KERNEL_STACK_SIZE_def PAGE_SIZE_eq)

lemma alloc_stack_spec:
  assumes "pmm_inv (phys s)"
  shows "\<exists>a pm. alloc_stack KERNEL_STACK_SIZE s = Some (a, s\<lparr>phys := pm\<rparr>) \<and> pmm_inv pm
    \<and> (a = 0 \<longrightarrow> pm = phys s)
    \<and> (a \<noteq> 0 \<longrightarrow> (\<exists>j. a = page_addr j \<and> {j..<j + 4} \<subseteq> free_set (phys s) \<and> free_set pm = free_set (phys s) - {j..<j + 4}))"
  using pmm_alloc_pages_spec [OF assms, of 2] by (auto simp: alloc_stack_def kernel_stack_order MAX_ORDER_def)

lemma sched_inv_phys: "sched_inv s q \<Longrightarrow> pmm_inv pm \<Longrightarrow> sched_inv (s\<lparr>phys := pm\<rparr>) q"
  by (auto simp: sched_inv_def rq_rep_def)

text \<open>Finishing a new task: a fresh pool slot gets its pid and is appended to the queue.\<close>

lemma start_task:
  assumes inv: "sched_inv s q" and i: "t = POOL i" "i < task_pool_index s" and nq: "t \<notin> set q"
    and f: "\<And>x. t_pid (f x) = next_pid s"
  defines "s' \<equiv> enqueue_task t (upd_task t f (s\<lparr>next_pid := next_pid s + 1\<rparr>))"
  shows "sched_inv s' (q @ [t])" and "t_pid (tasks s' t) = next_pid s" and "t_state (tasks s' t) = TASK_RUNNING"
    and "get_task_by_pid (next_pid s) s' = t"
proof -
  let ?s = "upd_task t f (s\<lparr>next_pid := next_pid s + 1\<rparr>)"
  have "rq_rep s q" using inv by (simp add: sched_inv_def)
  then have "rq_rep ?s q" by (rule rq_rep_cong) (use nq in auto)
  then have "rq_rep s' (q @ [t])" unfolding s'_def using i nq by (intro enqueue_task_rep) auto
  moreover have pid: "t_pid (tasks s' a) = (if a = t then next_pid s else t_pid (tasks s a))" for a
    by (simp add: s'_def enqueue_task_frame f)
  moreover have fr: "rq_idle (runqueue s') = rq_idle (runqueue s)" "task_pool_index s' = task_pool_index s"
    "next_pid s' = next_pid s + 1" "phys s' = phys s"
    by (simp_all add: s'_def enqueue_task_frame)
  ultimately show "sched_inv s' (q @ [t])"
    using inv i unfolding sched_inv_def by (auto simp: fr pid intro: less_trans)
  show "t_pid (tasks s' t) = next_pid s" by (simp add: pid)
  show st: "t_state (tasks s' t) = TASK_RUNNING" by (simp add: s'_def enqueue_task_frame)
  have old: "t_pid (tasks s (POOL j)) \<noteq> next_pid s" if "j < task_pool_index s" for j
    using inv that unfolding sched_inv_def by fastforce
  have "t_pid (tasks s' INIT_TASK) \<noteq> next_pid s"
    using inv i POOL_simps(2) [of i] by (auto simp: pid sched_inv_def)
  moreover have "find (\<lambda>j. t_pid (tasks s' (POOL j)) = next_pid s \<and> t_state (tasks s' (POOL j)) \<noteq> TASK_DEAD)
      [0..<task_pool_index s'] = Some i"
    using i st old by (auto simp: find_upt_Some pid fr)
  ultimately show "get_task_by_pid (next_pid s) s' = t" using i by (simp add: get_task_by_pid_def)
qed

lemma create_task_spec:
  assumes inv: "sched_inv s q"
  shows "\<exists>t s'. create_task entry arg flags s = Some (t, s') \<and> sched_inv s' (if t = NULL then q else q @ [t])
    \<and> (t \<noteq> NULL \<longrightarrow> t \<notin> set q \<and> get_task_by_pid (next_pid s) s' = t \<and> t_state (tasks s' t) = TASK_RUNNING
         \<and> (\<exists>j. t_stack (tasks s' t) = page_addr j \<and> cc_sp (t_ctx (tasks s' t)) = page_addr j + KERNEL_STACK_SIZE
              \<and> {j..<j + 4} \<subseteq> free_set (phys s) \<and> free_set (phys s') = free_set (phys s) - {j..<j + 4}))
    \<and> (t = NULL \<longrightarrow> phys s' = phys s)"
proof -
  obtain t s1 where a: "alloc_task s = (t, s1)" by (cases "alloc_task s")
  note al = alloc_task_spec [OF inv a]
  show ?thesis
  proof (cases "t = NULL")
    case True
    then show ?thesis using a al inv by (auto simp: create_task_def)
  next
    case t0: False
    have inv1: "sched_inv s1 q" using al t0 by simp
    then have pi: "pmm_inv (phys s1)" by (simp add: sched_inv_def)
    obtain st pm where st: "alloc_stack KERNEL_STACK_SIZE s1 = Some (st, s1\<lparr>phys := pm\<rparr>)" "pmm_inv pm"
        "st = 0 \<longrightarrow> pm = phys s1"
        "st \<noteq> 0 \<longrightarrow> (\<exists>j. st = page_addr j \<and> {j..<j + 4} \<subseteq> free_set (phys s1) \<and> free_set pm = free_set (phys s1) - {j..<j + 4})"
      using alloc_stack_spec [OF pi] by blast
    have inv2: "sched_inv (s1\<lparr>phys := pm\<rparr>) q" by (rule sched_inv_phys [OF inv1 st(2)])
    show ?thesis
    proof (cases "st = 0")
      case True
      then have "create_task entry arg flags s = Some (NULL, s1\<lparr>phys := pm\<rparr>)"
        using a t0 st(1) by (simp add: create_task_def)
      then show ?thesis using inv2 True st(3) al t0 by auto
    next
      case st0: False
      let ?s = "s1\<lparr>phys := pm\<rparr>"
      let ?f = "\<lambda>t. t\<lparr>t_state := TASK_RUNNING, t_prio := PRIO_DEFAULT, t_static_prio := PRIO_DEFAULT,
                 t_nice := 0, t_pid := next_pid ?s, t_tgid := next_pid ?s, t_flags := flags, t_stack := st,
                 t_stack_size := KERNEL_STACK_SIZE, t_parent := rq_current (runqueue s1),
                 t_ctx := (t_ctx t)\<lparr>cc_sp := st + KERNEL_STACK_SIZE, cc_pc := entry, cc_x19 := arg\<rparr>,
                 t_comm := default_comm\<rparr>"
      let ?s' = "enqueue_task t (upd_task t ?f (?s\<lparr>next_pid := next_pid ?s + 1\<rparr>))"
      have c: "create_task entry arg flags s = Some (t, ?s')"
        using a t0 st0 st(1) by (simp add: create_task_def Let_def)
      have t: "t = POOL (task_pool_index s)" "t \<notin> set q" "task_pool_index s < task_pool_index ?s"
        "next_pid ?s = next_pid s" "runqueue s1 = runqueue s" "phys s1 = phys s"
        using al t0 by auto
      have f: "\<And>x. t_pid (?f x) = next_pid ?s" by simp
      note start = start_task [OF inv2 t(1,3,2) f]
      have "t_parent (tasks ?s' t) = rq_current (runqueue s)" "t_stack (tasks ?s' t) = st"
        "cc_sp (t_ctx (tasks ?s' t)) = st + KERNEL_STACK_SIZE" "phys ?s' = pm"
        using t(5) by (auto simp: enqueue_task_def Let_def)
      then show ?thesis
        using c start t st0 t0 st(4) by (intro exI [of _ t] exI [of _ ?s']) simp
    qed
  qed
qed

section \<open>Properties\<close>

text \<open>Two ready tasks behind the idle task or one of them, for the examples.\<close>

definition sched_two :: "ptr \<Rightarrow> sched" where
  "sched_two c =
     \<lparr>runqueue = \<lparr>rq_current = c, rq_idle = INIT_TASK, rq_head = 2, rq_tail = 3, rq_nr_running = 2, rq_clock = 0\<rparr>,
      tasks = (\<lambda>_. zero_task)(INIT_TASK := init_task, 2 := zero_task\<lparr>t_pid := 1, t_next := 3\<rparr>,
                             3 := zero_task\<lparr>t_pid := 2, t_prev := 2\<rparr>),
      task_pool_index = 2, next_pid = 3, mm_users = (\<lambda>_. 0), loaded_mm = NULL, phys = pmm_ready\<rparr>"

lemma sched_two_inv: "sched_inv (sched_two c) [2, 3]"
proof -
  have "set [2, 3] \<subseteq> POOL ` {..<2}" by (auto simp: POOL_def image_iff Bex_def)
  moreover have "rq_rep (sched_two c) [2, 3]" by (simp add: rq_rep_def sched_two_def zero_task_def INIT_TASK_def)
  moreover have "\<forall>i < 2. t_pid (tasks (sched_two c) (POOL i)) < 3"
    by (auto simp: sched_two_def POOL_def INIT_TASK_def zero_task_def less_2_cases_iff)
  moreover have "t_pid (tasks (sched_two c) INIT_TASK) = 0"
    by (simp add: sched_two_def INIT_TASK_def init_task_def zero_task_def)
  ultimately show ?thesis
    by (simp add: sched_inv_def pmm_inv_ready) (simp add: sched_two_def MAX_TASKS_def pmm_inv_ready)
qed

text \<open>\<^verbatim>\<open>create_task\<close> always returns. On success the new task is appended to the run queue with a pid that
  no other task has, so \<^verbatim>\<open>get_task_by_pid\<close> finds it, and it owns a kernel stack of four pages that were free; on
  failure the run queue and the page allocator are as before.\<close>

theorem create_task_correct:
  assumes "sched_inv s q"
  shows "\<exists>t s'. create_task entry arg flags s = Some (t, s') \<and> sched_inv s' (if t = NULL then q else q @ [t])
    \<and> (t \<noteq> NULL \<longrightarrow> t \<notin> set q \<and> get_task_by_pid (next_pid s) s' = t \<and> t_state (tasks s' t) = TASK_RUNNING
         \<and> (\<exists>j. t_stack (tasks s' t) = page_addr j \<and> cc_sp (t_ctx (tasks s' t)) = page_addr j + KERNEL_STACK_SIZE
              \<and> {j..<j + 4} \<subseteq> free_set (phys s) \<and> free_set (phys s') = free_set (phys s) - {j..<j + 4}))
    \<and> (t = NULL \<longrightarrow> phys s' = phys s)"
  using assms by (rule create_task_spec)

text \<open>C9. \<^verbatim>\<open>schedule\<close> keeps the run queue well-formed and makes its head the current task, or the idle
  task if the queue is empty; a current task that is still runnable and not the head moves to the end.\<close>

theorem schedule_correct:
  assumes "sched_inv s q" and "rq_current (runqueue s) = INIT_TASK \<or> rq_current (runqueue s) \<in> set q"
  shows "rq_current (runqueue (schedule s)) = (if q = [] then INIT_TASK else hd q)
    \<and> sched_inv (schedule s)
      (if q = [] \<or> rq_current (runqueue s) = hd q \<or> rq_current (runqueue s) = INIT_TASK
          \<or> t_state (tasks s (rq_current (runqueue s))) \<noteq> TASK_RUNNING then q
       else remove1 (rq_current (runqueue s)) q @ [rq_current (runqueue s)])"
  using schedule_cases [OF assms(1)] assms(2) by blast

lemma schedule_head:
  assumes "sched_inv s q" and "q \<noteq> []" and "rq_current (runqueue s) = hd q"
  shows "schedule s = s"
proof -
  have "rq_rep s q" using assms(1) by (simp add: sched_inv_def)
  then have "pick_next_task s = hd q"
    using assms(2) rq_rep_head [of s q] rq_rep_nonnull [of s q "hd q"] by (simp add: pick_next_task_def Let_def)
  then show ?thesis using assms(3) by (simp add: schedule_def)
qed

text \<open>C24. There is no rotation, although the comment in \<^verbatim>\<open>pick_next_task\<close> calls it round-robin: the current
  task stays at the head of the queue, so once a task runs, calling \<^verbatim>\<open>schedule\<close> any number of times leaves it
  running, however many other tasks are ready.\<close>

theorem schedule_never_rotates:
  assumes "sched_inv s q" and "q \<noteq> []" and "rq_current (runqueue s) = INIT_TASK \<or> rq_current (runqueue s) = hd q"
  shows "rq_current (runqueue ((schedule ^^ Suc n) s)) = hd q"
proof -
  have c: "rq_current (runqueue (schedule s)) = hd q" and i: "sched_inv (schedule s) q"
    using schedule_cases [OF assms(1)] assms(2,3) by auto
  have "schedule (schedule s) = schedule s" using schedule_head [OF i assms(2)] c by simp
  then have "(schedule ^^ n) (schedule s) = schedule s" by (induction n) auto
  then show ?thesis using c by (simp add: funpow_swap1)
qed

lemma exit_task_spec:
  assumes inv: "sched_inv s q" and cur: "rq_current (runqueue s) = t" "t \<in> set q"
  shows "sched_inv (exit_task code s) (remove1 t q)
    \<and> rq_current (runqueue (exit_task code s)) = (if remove1 t q = [] then INIT_TASK else hd (remove1 t q))
    \<and> t_state (tasks (exit_task code s) t) = TASK_ZOMBIE \<and> t_exit_code (tasks (exit_task code s) t) = code"
proof -
  let ?s1 = "upd_task t (\<lambda>t. t\<lparr>t_exit_code := code, t_state := TASK_ZOMBIE, t_flags := t_flags t OR PF_EXITING\<rparr>) s"
  let ?s2 = "dequeue_task t ?s1"
  have e: "exit_task code s = schedule ?s2" using cur by (simp add: exit_task_def Let_def)
  have "rq_rep s q" using inv by (simp add: sched_inv_def)
  then have "rq_rep ?s1 q" by (rule rq_rep_cong) auto
  then have r2: "rq_rep ?s2 (remove1 t q)" using cur(2) by (rule dequeue_task_rep)
  have inv2: "sched_inv ?s2 (remove1 t q)"
    using inv r2 notin_set_remove1 [of _ q t] unfolding sched_inv_def
    by (auto simp: dequeue_task_frame dest: notin_set_remove1)
  have st: "t_state (tasks ?s2 t) = TASK_ZOMBIE" by (simp add: dequeue_task_frame)
  have c2: "rq_current (runqueue ?s2) = t" using cur by (simp add: dequeue_task_frame)
  have ne: "t \<noteq> hd (remove1 t q)" if "remove1 t q \<noteq> []"
  proof -
    have "t \<notin> set (remove1 t q)" using \<open>rq_rep s q\<close> by (simp add: rq_rep_def)
    then show ?thesis using that by (metis hd_in_set)
  qed
  note sc = schedule_cases [OF inv2, unfolded c2, OF disjI2, OF disjI2]
  have keep: "t_state (tasks (schedule ?s2) t) = TASK_ZOMBIE" "t_exit_code (tasks (schedule ?s2) t) = t_exit_code (tasks ?s2 t)"
    using st c2 by (simp_all add: schedule_def Let_def context_switch_def)
  have "t_exit_code (tasks ?s2 t) = code" by (simp add: dequeue_task_def Let_def)
  then show ?thesis using sc st keep unfolding e by simp
qed

text \<open>\<^verbatim>\<open>exit_task\<close> by a queued task makes it a zombie with its exit code, takes it off the run queue and
  passes the processor to the next task in line, or to the idle task.\<close>

theorem exit_task_correct:
  assumes inv: "sched_inv s q" and cur: "rq_current (runqueue s) = t" "t \<in> set q"
  shows "sched_inv (exit_task code s) (remove1 t q)
    \<and> rq_current (runqueue (exit_task code s)) = (if remove1 t q = [] then INIT_TASK else hd (remove1 t q))
    \<and> t_state (tasks (exit_task code s) t) = TASK_ZOMBIE \<and> t_exit_code (tasks (exit_task code s) t) = code"
  using assms by (rule exit_task_spec)

section \<open>Witnesses\<close>

theorem create_task_correct_witness:
  "\<exists>t s'. create_task 0x1000 7 0 (sched_two INIT_TASK) = Some (t, s')
     \<and> sched_inv s' (if t = NULL then [2, 3] else [2, 3] @ [t])"
  using create_task_correct [OF sched_two_inv [of INIT_TASK], where entry = "0x1000" and arg = 7 and flags = 0] by blast

theorem schedule_correct_witness:
  "rq_current (runqueue (schedule (sched_two 3))) = 2 \<and> sched_inv (schedule (sched_two 3)) [2, 3]"
  using schedule_correct [OF sched_two_inv [of 3]] by (simp add: sched_two_def INIT_TASK_def split: if_splits)

theorem schedule_never_rotates_witness:
  "rq_current (runqueue ((schedule ^^ Suc 100) (sched_two INIT_TASK))) = 2"
  using schedule_never_rotates [OF sched_two_inv [of INIT_TASK], where n = 100]
  by (simp add: sched_two_def del: funpow.simps)

theorem exit_task_correct_witness:
  "sched_inv (exit_task 9 (sched_two 2)) [3] \<and> rq_current (runqueue (exit_task 9 (sched_two 2))) = 3"
  using exit_task_correct [OF sched_two_inv [of 2], where t = 2 and code = 9] by (simp add: sched_two_def)

end
