(* ===== verification/Signal.thy ===== *)
theory Signal
  imports Sched
begin

text \<open>
  Signals, \<^verbatim>\<open>kernel/sched/signal.c\<close>: per-task pending and blocked masks and a table of actions, taken
  from a static pool of 64. Handlers are addresses; 0 is \<^verbatim>\<open>SIG_DFL\<close>, 1 is \<^verbatim>\<open>SIG_IGN\<close>, anything else is
  code the kernel calls. What such a handler does is a parameter, a function on the state.
\<close>

section \<open>State\<close>

definition SIGKILL :: nat where "SIGKILL = 9"
definition SIGCHLD :: nat where "SIGCHLD = 17"
definition SIGCONT :: nat where "SIGCONT = 18"
definition SIGSTOP :: nat where "SIGSTOP = 19"
definition SIGTSTP :: nat where "SIGTSTP = 20"
definition SIGTTIN :: nat where "SIGTTIN = 21"
definition SIGTTOU :: nat where "SIGTTOU = 22"
definition SIGURG :: nat where "SIGURG = 23"
definition SIGWINCH :: nat where "SIGWINCH = 28"
definition NSIG :: nat where "NSIG = 32"
definition SIG_DFL :: u64 where "SIG_DFL = 0"
definition SIG_IGN :: u64 where "SIG_IGN = 1"

lemmas sig_defs = SIGKILL_def SIGCHLD_def SIGCONT_def SIGSTOP_def SIGTSTP_def SIGTTIN_def SIGTTOU_def
  SIGURG_def SIGWINCH_def NSIG_def

record sigaction =
  sa_handler :: u64
  sa_mask :: u64
  sa_flags :: int
  sa_restorer :: u64

record signal_struct =
  pending :: u64
  blocked :: u64
  actions :: "sigaction list"

text \<open>The scheduler with the signal pool; entry \<open>i\<close> of the pool has address \<open>1 + i\<close>.\<close>

record sigsys =
  sch :: sched
  sigs :: "ptr \<Rightarrow> signal_struct"
  sig_pool_idx :: nat

definition SIG_POOL :: "nat \<Rightarrow> ptr" where "SIG_POOL i = 1 + i"

abbreviation "sig_of s t \<equiv> t_signals (tasks (sch s) t)"

definition upd_sig :: "ptr \<Rightarrow> (signal_struct \<Rightarrow> signal_struct) \<Rightarrow> sigsys \<Rightarrow> sigsys" where
  "upd_sig a f s = s\<lparr>sigs := (sigs s)(a := f (sigs s a))\<rparr>"

definition sigbit :: "nat \<Rightarrow> u64" where "sigbit sig = push_bit sig 1"

section \<open>Operations\<close>

definition sig_default_term :: "nat \<Rightarrow> sigsys \<Rightarrow> sigsys" where
  "sig_default_term sig s = s\<lparr>sch := exit_task (int sig) (sch s)\<rparr>"

definition sig_default_ignore :: "nat \<Rightarrow> sigsys \<Rightarrow> sigsys" where
  "sig_default_ignore sig s = s"

definition sig_default_stop :: "nat \<Rightarrow> sigsys \<Rightarrow> sigsys" where
  "sig_default_stop sig s =
     s\<lparr>sch := schedule (upd_task (get_current (sch s)) (t_state_update (\<lambda>_. TASK_STOPPED)) (sch s))\<rparr>"

definition sig_default_cont :: "nat \<Rightarrow> sigsys \<Rightarrow> sigsys" where
  "sig_default_cont sig s =
     s\<lparr>sch := upd_task (get_current (sch s)) (t_state_update (\<lambda>_. TASK_RUNNING)) (sch s)\<rparr>"

definition signal_init :: "ptr \<Rightarrow> sigsys \<Rightarrow> sigsys" where
  "signal_init task s =
     (let reset = (\<lambda>s. upd_sig (sig_of s task)
            (\<lambda>g. g\<lparr>pending := 0, blocked := 0,
                   actions := map (\<lambda>a. a\<lparr>sa_handler := SIG_DFL, sa_mask := 0, sa_flags := 0\<rparr>) (actions g)\<rparr>) s)
      in if sig_of s task = NULL then
           if sig_pool_idx s < 64 then
             reset (s\<lparr>sch := upd_task task (t_signals_update (\<lambda>_. SIG_POOL (sig_pool_idx s))) (sch s),
                      sig_pool_idx := Suc (sig_pool_idx s)\<rparr>)
           else s
         else reset s)"

definition kill_task :: "ptr \<Rightarrow> int \<Rightarrow> sigsys \<Rightarrow> int \<times> sigsys" where
  "kill_task task sig s =
     (if sig < 0 \<or> sig \<ge> int NSIG then (- 1, s)
      else if task = NULL \<or> sig_of s task = NULL then (- 1, s)
      else
        (let s = upd_sig (sig_of s task) (\<lambda>g. g\<lparr>pending := pending g OR sigbit (nat sig)\<rparr>) s;
             s = (if t_state (tasks (sch s) task) = TASK_INTERRUPTIBLE
                  then s\<lparr>sch := snd (wake_up_process task (sch s))\<rparr> else s)
         in (0, s)))"

text \<open>The default action of a signal.\<close>

definition sig_default :: "nat \<Rightarrow> sigsys \<Rightarrow> sigsys" where
  "sig_default sig s =
     (if sig \<in> {SIGCHLD, SIGURG, SIGWINCH} then sig_default_ignore sig s
      else if sig = SIGCONT then sig_default_cont sig s
      else if sig \<in> {SIGSTOP, SIGTSTP, SIGTTIN, SIGTTOU} then sig_default_stop sig s
      else sig_default_term sig s)"

text \<open>Delivery of one signal. \<^verbatim>\<open>exit_task\<close> does not return, so the flag of the result tells whether
  control comes back to the loop.\<close>

definition sig_terminates :: "nat \<Rightarrow> bool" where
  "sig_terminates sig \<longleftrightarrow> sig \<notin> {SIGCHLD, SIGURG, SIGWINCH, SIGCONT, SIGSTOP, SIGTSTP, SIGTTIN, SIGTTOU}"

definition deliver :: "(u64 \<Rightarrow> nat \<Rightarrow> sigsys \<Rightarrow> sigsys) \<Rightarrow> ptr \<Rightarrow> nat \<Rightarrow> sigsys \<Rightarrow> bool \<times> sigsys" where
  "deliver run_handler task sig s =
     (let s = upd_sig (sig_of s task) (\<lambda>g. g\<lparr>pending := pending g AND NOT (sigbit sig)\<rparr>) s;
          h = sa_handler (actions (sigs s (sig_of s task)) ! sig)
      in if h = SIG_IGN then (True, sig_default_ignore sig s)
         else if h = SIG_DFL then (\<not> sig_terminates sig, sig_default sig s)
         else (True, run_handler h sig s))"

fun do_signal_loop :: "(u64 \<Rightarrow> nat \<Rightarrow> sigsys \<Rightarrow> sigsys) \<Rightarrow> ptr \<Rightarrow> u64 \<Rightarrow> nat list \<Rightarrow> sigsys \<Rightarrow> sigsys" where
  "do_signal_loop rh task pnd [] s = s"
| "do_signal_loop rh task pnd (sig # rest) s =
     (if pnd AND sigbit sig = 0 then do_signal_loop rh task pnd rest s
      else let (back, s) = deliver rh task sig s
           in if back then do_signal_loop rh task pnd rest s else s)"

definition do_signal :: "(u64 \<Rightarrow> nat \<Rightarrow> sigsys \<Rightarrow> sigsys) \<Rightarrow> ptr \<Rightarrow> sigsys \<Rightarrow> sigsys" where
  "do_signal rh task s =
     (if task = NULL \<or> sig_of s task = NULL then s
      else
        (let g = sigs s (sig_of s task);
             pnd = pending g AND NOT (blocked g)
         in if pnd = 0 then s else do_signal_loop rh task pnd [1..<NSIG] s))"

text \<open>\<open>set = None\<close> is a \<^verbatim>\<open>NULL\<close> pointer; the second component is what \<^verbatim>\<open>*oldset\<close> receives.\<close>

definition sigprocmask :: "int \<Rightarrow> u64 option \<Rightarrow> sigsys \<Rightarrow> int \<times> u64 option \<times> sigsys" where
  "sigprocmask how st s =
     (let a = sig_of s (get_current (sch s)) in
      if a = NULL then (- 1, None, s)
      else
        (let old = blocked (sigs s a);
             unmaskable = NOT (sigbit SIGKILL OR sigbit SIGSTOP);
             fin = (\<lambda>b. (0, Some old, upd_sig a (\<lambda>g. g\<lparr>blocked := b AND unmaskable\<rparr>) s))
         in case st of
              None \<Rightarrow> fin old
            | Some m \<Rightarrow>
                if how = 0 then fin (old OR m)
                else if how = 1 then fin (old AND NOT m)
                else if how = 2 then fin m
                else (- 1, Some old, s)))"

definition sigaction_syscall :: "int \<Rightarrow> sigaction option \<Rightarrow> sigsys \<Rightarrow> int \<times> sigaction option \<times> sigsys" where
  "sigaction_syscall sig act s =
     (let a = sig_of s (get_current (sch s)) in
      if sig < 1 \<or> sig \<ge> int NSIG then (- 1, None, s)
      else if sig = int SIGKILL \<or> sig = int SIGSTOP then (- 1, None, s)
      else if a = NULL then (- 1, None, s)
      else
        (let old = actions (sigs s a) ! nat sig
         in (0, Some old,
             case act of
               None \<Rightarrow> s
             | Some x \<Rightarrow> upd_sig a (\<lambda>g. g\<lparr>actions := (actions g)[nat sig := x]\<rparr>) s)))"

text \<open>The result and the value stored in \<^verbatim>\<open>*wstatus\<close>.\<close>

definition do_waitpid :: "int \<Rightarrow> sigsys \<Rightarrow> int \<times> int \<times> sigsys" where
  "do_waitpid pid s =
     (pid, 0, s\<lparr>sch := schedule (upd_task (get_current (sch s)) (t_state_update (\<lambda>_. TASK_INTERRUPTIBLE)) (sch s))\<rparr>)"

section \<open>Unblockable signals\<close>

text \<open>What every operation keeps: the two signals that cannot be caught or blocked have their default
  action and a clear mask bit.\<close>

definition sig_ok :: "signal_struct \<Rightarrow> bool" where
  "sig_ok g \<longleftrightarrow> length (actions g) = NSIG \<and> \<not> bit (blocked g) SIGKILL \<and> \<not> bit (blocked g) SIGSTOP
     \<and> sa_handler (actions g ! SIGKILL) = SIG_DFL \<and> sa_handler (actions g ! SIGSTOP) = SIG_DFL"

definition sigs_ok :: "sigsys \<Rightarrow> bool" where
  "sigs_ok s \<longleftrightarrow> (\<forall>a. sig_ok (sigs s a))"

lemma upd_sig_simps [simp]:
  "sigs (upd_sig a f s) = (sigs s)(a := f (sigs s a))" "sch (upd_sig a f s) = sch s"
  "sig_pool_idx (upd_sig a f s) = sig_pool_idx s"
  by (simp_all add: upd_sig_def)

lemma bit_sigbit [simp]: "bit (sigbit n) m \<longleftrightarrow> m = n \<and> n < 64"
  by (auto simp: sigbit_def bit_simps simp del: push_bit_of_1)

lemma and_sigbit: "w AND sigbit n = 0 \<longleftrightarrow> \<not> bit w n"
  unfolding sigbit_def by (rule and_push_bit_1_eq_0)

lemma sigprocmask_ok:
  assumes "sigs_ok s"
  shows "sigs_ok (snd (snd (sigprocmask how st s)))"
proof -
  have "sig_ok (g\<lparr>blocked := b AND NOT (sigbit SIGKILL OR sigbit SIGSTOP)\<rparr>)" if "sig_ok g" for g b
    using that by (simp add: sig_ok_def bit_and_iff bit_not_iff bit_or_iff)
  then have "sigs_ok (upd_sig a (\<lambda>g. g\<lparr>blocked := b AND NOT (sigbit SIGKILL OR sigbit SIGSTOP)\<rparr>) s)" for a b
    using assms by (simp add: sigs_ok_def)
  then show ?thesis using assms by (cases st) (simp_all add: sigprocmask_def Let_def)
qed

lemma sigaction_ok:
  assumes "sigs_ok s"
  shows "sigs_ok (snd (snd (sigaction_syscall sig act s)))"
proof -
  have "sig_ok (g\<lparr>actions := (actions g)[n := x]\<rparr>)" if "sig_ok g" "n \<noteq> SIGKILL" "n \<noteq> SIGSTOP" for g n x
    using that by (simp add: sig_ok_def)
  then have "sigs_ok (upd_sig a (\<lambda>g. g\<lparr>actions := (actions g)[n := x]\<rparr>) s)" if "n \<noteq> SIGKILL" "n \<noteq> SIGSTOP" for a n x
    using assms that by (simp add: sigs_ok_def)
  moreover have "nat sig \<noteq> SIGKILL \<and> nat sig \<noteq> SIGSTOP" if "1 \<le> sig" "sig \<noteq> int SIGKILL" "sig \<noteq> int SIGSTOP"
    using that by auto
  ultimately show ?thesis using assms by (cases act) (simp_all add: sigaction_syscall_def Let_def)
qed

lemma kill_task_ok:
  assumes "sigs_ok s"
  shows "sigs_ok (snd (kill_task t sig s))"
  using assms by (auto simp: kill_task_def sigs_ok_def sig_ok_def Let_def)

lemma signal_init_ok:
  assumes "sigs_ok s"
  shows "sigs_ok (signal_init t s)"
  using assms by (auto simp: signal_init_def sigs_ok_def sig_ok_def Let_def sig_defs)

lemma sig_default_sigs [simp]: "sigs (sig_default sig s) = sigs s"
  by (simp add: sig_default_def sig_default_ignore_def sig_default_cont_def sig_default_stop_def sig_default_term_def)

lemma deliver_ok:
  assumes "sigs_ok s" and "\<And>h sig s. sigs_ok s \<Longrightarrow> sigs_ok (rh h sig s)"
  shows "sigs_ok (snd (deliver rh t sig s))"
proof -
  have "sigs_ok (upd_sig (sig_of s t) (\<lambda>g. g\<lparr>pending := pending g AND NOT (sigbit sig)\<rparr>) s)" (is "sigs_ok ?s")
    using assms(1) by (simp add: sigs_ok_def sig_ok_def)
  moreover have "sigs_ok (sig_default sig ?s)" "sigs_ok (sig_default_ignore sig ?s)"
    using calculation by (simp_all add: sigs_ok_def sig_default_ignore_def)
  ultimately show ?thesis using assms(2) by (simp add: deliver_def Let_def)
qed

lemma do_signal_ok:
  assumes "sigs_ok s" and "\<And>h sig s. sigs_ok s \<Longrightarrow> sigs_ok (rh h sig s)"
  shows "sigs_ok (do_signal rh t s)"
proof -
  have "sigs_ok s \<Longrightarrow> sigs_ok (do_signal_loop rh t pnd sg s)" for pnd sg s
    by (induction sg arbitrary: s) (use deliver_ok [OF _ assms(2)] in \<open>auto simp: split_beta Let_def\<close>)
  then show ?thesis using assms(1) by (simp add: do_signal_def Let_def)
qed

text \<open>A signal that is the only one pending is the only one delivered.\<close>

lemma do_signal_loop_single:
  assumes "\<forall>n \<in> set sg. bit pnd n \<longrightarrow> n = sig" and "sig \<in> set sg" and "bit pnd sig"
    and "fst (deliver rh t sig s) = False"
  shows "do_signal_loop rh t pnd sg s = snd (deliver rh t sig s)"
  using assms(1,2)
proof (induction sg)
  case (Cons n sg)
  show ?case
  proof (cases "n = sig")
    case True
    then show ?thesis using assms(3,4) by (simp add: and_sigbit split_beta Let_def)
  next
    case False
    then have "do_signal_loop rh t pnd (n # sg) s = do_signal_loop rh t pnd sg s"
      using Cons.prems(1) by (simp add: and_sigbit)
    then show ?thesis using Cons False by simp
  qed
qed simp

text \<open>Delivering \<^verbatim>\<open>SIGKILL\<close> to the current task ends it.\<close>

lemma deliver_SIGKILL:
  assumes "sigs_ok s"
  shows "fst (deliver rh t SIGKILL s) = False"
    and "sch (snd (deliver rh t SIGKILL s)) = exit_task 9 (sch s)"
proof -
  let ?s = "upd_sig (sig_of s t) (\<lambda>g. g\<lparr>pending := pending g AND NOT (sigbit SIGKILL)\<rparr>) s"
  have "sa_handler (actions (sigs ?s (sig_of ?s t)) ! SIGKILL) = SIG_DFL"
    using assms by (simp add: sigs_ok_def sig_ok_def)
  then have "deliver rh t SIGKILL s = (\<not> sig_terminates SIGKILL, sig_default SIGKILL ?s)"
    by (simp add: deliver_def Let_def SIG_DFL_def SIG_IGN_def)
  moreover have "sig_terminates SIGKILL" "sig_default SIGKILL ?s = sig_default_term SIGKILL ?s"
    by (simp_all add: sig_terminates_def sig_default_def sig_defs)
  ultimately show "fst (deliver rh t SIGKILL s) = False" "sch (snd (deliver rh t SIGKILL s)) = exit_task 9 (sch s)"
    by (simp_all add: sig_default_term_def SIGKILL_def)
qed

section \<open>Properties\<close>

text \<open>One signal operation, with any arguments.\<close>

inductive sig_step :: "(u64 \<Rightarrow> nat \<Rightarrow> sigsys \<Rightarrow> sigsys) \<Rightarrow> sigsys \<Rightarrow> sigsys \<Rightarrow> bool" for rh where
  sig_init: "sig_step rh s (signal_init t s)"
| sig_mask: "sig_step rh s (snd (snd (sigprocmask how st s)))"
| sig_action: "sig_step rh s (snd (snd (sigaction_syscall sig act s)))"
| sig_kill: "sig_step rh s (snd (kill_task t sig s))"
| sig_deliver: "sig_step rh s (do_signal rh t s)"
| sig_wait: "sig_step rh s (snd (snd (do_waitpid pid s)))"

text \<open>C25. No sequence of \<^verbatim>\<open>signal_init\<close>, \<^verbatim>\<open>sigprocmask\<close>, \<^verbatim>\<open>sigaction_syscall\<close>, \<^verbatim>\<open>kill_task\<close> and signal
  delivery blocks \<^verbatim>\<open>SIGKILL\<close> or \<^verbatim>\<open>SIGSTOP\<close> or gives them a handler, whatever masks and actions are
  requested and as long as user handlers do not reach into the signal tables themselves.\<close>

theorem sigkill_sigstop_protected:
  assumes "(sig_step rh)\<^sup>*\<^sup>* s s'" and "sigs_ok s" and "\<And>h sig s. sigs_ok s \<Longrightarrow> sigs_ok (rh h sig s)"
  shows "\<not> bit (blocked (sigs s' a)) SIGKILL \<and> \<not> bit (blocked (sigs s' a)) SIGSTOP
    \<and> sa_handler (actions (sigs s' a) ! SIGKILL) = SIG_DFL \<and> sa_handler (actions (sigs s' a) ! SIGSTOP) = SIG_DFL"
proof -
  have "sigs_ok s'" using assms(1,2)
  proof (induction rule: rtranclp_induct)
    case (step s' s'')
    have ok: "sigs_ok s'" using step.IH step.prems by simp
    then have "sigs_ok (snd (snd (do_waitpid pid s')))" for pid by (simp add: do_waitpid_def sigs_ok_def)
    note all_ok = this signal_init_ok [OF ok] sigprocmask_ok [OF ok] sigaction_ok [OF ok] kill_task_ok [OF ok]
      do_signal_ok [OF ok assms(3)]
    from step.hyps(2) show ?case by (cases rule: sig_step.cases) (auto intro: all_ok)
  qed
  then show ?thesis by (simp add: sigs_ok_def sig_ok_def)
qed

text \<open>Sending \<^verbatim>\<open>SIGKILL\<close> with \<^verbatim>\<open>kill_task\<close> to the running task and delivering its signals terminates it,
  whatever it has blocked: it leaves the run queue as a zombie with exit code 9.\<close>

theorem kill_task_SIGKILL_terminates:
  assumes inv: "sched_inv (sch s) q" and ok: "sigs_ok s"
    and cur: "get_current (sch s) = t" "t \<in> set q" "t_state (tasks (sch s) t) = TASK_RUNNING"
    and sg: "sig_of s t \<noteq> NULL" "pending (sigs s (sig_of s t)) = 0"
    and k: "kill_task t (int SIGKILL) s = (r, s1)"
  shows "r = 0 \<and> sched_inv (sch (do_signal rh t s1)) (remove1 t q)
    \<and> t_state (tasks (sch (do_signal rh t s1)) t) = TASK_ZOMBIE
    \<and> t_exit_code (tasks (sch (do_signal rh t s1)) t) = 9"
proof -
  have t0: "t \<noteq> NULL" using inv cur(2) sq.rep_nonnull by (auto simp: sched_inv_def)
  have s1: "r = 0" "s1 = upd_sig (sig_of s t) (\<lambda>g. g\<lparr>pending := pending g OR sigbit SIGKILL\<rparr>) s"
    using k t0 sg(1) cur(3) by (auto simp: kill_task_def Let_def NSIG_def SIGKILL_def)
  have ok1: "sigs_ok s1" using kill_task_ok [OF ok, of t "int SIGKILL"] k by simp
  let ?g = "sigs s1 (sig_of s1 t)"
  have p: "pending ?g = sigbit SIGKILL" using sg(2) by (simp add: s1)
  have b: "bit (pending ?g AND NOT (blocked ?g)) n \<longleftrightarrow> n = SIGKILL" for n
    using ok1 unfolding p by (auto simp: bit_and_iff bit_not_iff sigs_ok_def sig_ok_def SIGKILL_def)
  then have nz: "pending ?g AND NOT (blocked ?g) \<noteq> 0" by (metis bit_0_eq bot_apply bot_bool_def)
  have "do_signal rh t s1 = do_signal_loop rh t (pending ?g AND NOT (blocked ?g)) [1..<NSIG] s1"
    using t0 sg(1) nz by (simp add: do_signal_def Let_def s1)
  also have "\<dots> = snd (deliver rh t SIGKILL s1)"
    using b deliver_SIGKILL(1) [OF ok1] by (intro do_signal_loop_single) (auto simp: sig_defs)
  finally have "sch (do_signal rh t s1) = exit_task 9 (sch s)"
    using deliver_SIGKILL(2) [OF ok1] by (simp add: s1)
  then show ?thesis
    using exit_task_spec [OF inv, of t 9] cur by (simp add: s1(1) get_current_def)
qed

text \<open>\<^verbatim>\<open>sched_kill_task\<close> reports success but never kills: it sets the bit in
  \<^verbatim>\<open>task->pending_signals\<close>, which nothing reads, while \<^verbatim>\<open>do_signal\<close> looks at \<^verbatim>\<open>task->signals->pending\<close>.
  With no other signal pending, delivering signals afterwards changes nothing.\<close>

theorem sched_kill_task_not_delivered:
  assumes "sched_kill_task pid (sch s) = (0, sc)" and "t = get_task_by_pid pid (sch s)"
    and "pending (sigs s (sig_of s t)) AND NOT (blocked (sigs s (sig_of s t))) = 0"
  shows "bit (t_pending_signals (tasks sc t)) SIGKILL \<and> do_signal rh t (s\<lparr>sch := sc\<rparr>) = s\<lparr>sch := sc\<rparr>"
proof -
  have k: "t_signals (tasks sc t) = sig_of s t" "bit (t_pending_signals (tasks sc t)) 9"
    using assms(1,2)
    by (auto simp: sched_kill_task_def Let_def enqueue_task_frame bit_or_iff bit_push_bit_iff enqueue_task_def
        simp del: push_bit_of_1 split: if_splits)
  then show ?thesis using assms(3) by (simp add: do_signal_def Let_def SIGKILL_def)
qed

text \<open>Two ready tasks, the first one running with a signal table.\<close>

definition sig_two :: sigsys where
  "sig_two = \<lparr>sch = upd_task 2 (t_signals_update (\<lambda>_. SIG_POOL 0)) (sched_two 2),
     sigs = (\<lambda>_. \<lparr>pending = 0, blocked = 0, actions = replicate NSIG
       \<lparr>sa_handler = SIG_DFL, sa_mask = 0, sa_flags = 0, sa_restorer = 0\<rparr>\<rparr>), sig_pool_idx = 1\<rparr>"

text \<open>\<^verbatim>\<open>do_waitpid\<close> marks the caller as sleeping but leaves it on the run queue, so the signal that wakes
  it queues it a second time. With two tasks ready, a wait by the first followed by a signal to it cuts the other
  one off: the queue that starts at the head ends after the first task, while \<^verbatim>\<open>nr_running\<close>
  says that three tasks are queued.\<close>

theorem waitpid_wakeup_loses_task:
  "let s1 = snd (snd (do_waitpid 2 sig_two));
       s2 = sch (snd (kill_task 2 (int SIGCHLD) s1))
   in rq_rep (sch s1) [2, 3] \<and> qhead s2 = 2 \<and> tnext s2 2 = NULL \<and> tnext s2 3 = 2
      \<and> rq_nr_running (runqueue s2) = 3 \<and> (\<forall>q. \<not> rq_rep s2 q)"
proof -
  define s1 where "s1 = snd (snd (do_waitpid 2 sig_two))"
  define s2 where "s2 = sch (snd (kill_task 2 (int SIGCHLD) s1))"
  have e1: "sch s1 = upd_task 2 (t_state_update (\<lambda>_. TASK_INTERRUPTIBLE)) (sch sig_two)" "sigs s1 = sigs sig_two"
    by (simp_all add: s1_def do_waitpid_def sig_two_def sched_two_def get_current_def schedule_def pick_next_task_def)
  have r1: "rq_rep (sch s1) [2, 3]"
    unfolding e1 by (simp add: sig_two_def sched_two_def rq_rep_def zero_task_def INIT_TASK_def)
  have e2: "s2 = enqueue_task 2 (upd_task 2 (t_state_update (\<lambda>_. TASK_RUNNING)) (sch s1))"
    unfolding s2_def
    by (simp add: kill_task_def NSIG_def SIGCHLD_def e1 wake_up_process_def)
      (simp add: sig_two_def SIG_POOL_def Let_def)
  have f: "qhead s2 = 2" "tnext s2 2 = NULL" "tnext s2 3 = 2" "rq_nr_running (runqueue s2) = 3"
    unfolding e2 e1 by (simp_all add: enqueue_task_def sig_two_def sched_two_def Let_def INIT_TASK_def)
  have "\<not> rq_rep s2 q" for q
  proof
    assume r: "rq_rep s2 q"
    then have "dll (tnext s2) (tprev s2) NULL 2 q (qtail s2) NULL" by (simp add: rq_rep_def f)
    then obtain q' where "q = 2 # q'" "dll (tnext s2) (tprev s2) 2 NULL q' (qtail s2) NULL"
      using f(2) by (cases q) auto
    then have "q = [2]" by (cases q') auto
    then show False using r f(4) by (simp add: rq_rep_def)
  qed
  then show ?thesis using r1 f unfolding s1_def [symmetric] Let_def s2_def [symmetric] by simp
qed

section \<open>Witnesses\<close>

lemma sig_two_ok: "sigs_ok sig_two"
  by (simp add: sig_two_def sigs_ok_def sig_ok_def sig_defs)

lemma sig_two_inv: "sched_inv (sch sig_two) [2, 3]"
proof -
  have "rq_rep (sched_two 2) [2, 3]" using sched_two_inv [of 2] by (simp add: sched_inv_def)
  then have "rq_rep (sch sig_two) [2, 3]" by (rule rq_rep_cong) (auto simp: sig_two_def)
  then show ?thesis
    using sched_two_inv [of 2] unfolding sched_inv_def by (auto simp: sig_two_def)
qed

theorem sigkill_sigstop_protected_witness:
  "\<not> bit (blocked (sigs (snd (snd (sigprocmask 2 (Some (NOT 0)) sig_two))) 1)) SIGKILL"
proof -
  have "(sig_step (\<lambda>h sig s. s))\<^sup>*\<^sup>* sig_two (snd (snd (sigprocmask 2 (Some (NOT 0)) sig_two)))"
    using sig_mask [of "\<lambda>h sig s. s"] by blast
  from sigkill_sigstop_protected [OF this sig_two_ok] show ?thesis by blast
qed

theorem kill_task_SIGKILL_terminates_witness:
  "\<exists>s1. kill_task 2 (int SIGKILL) sig_two = (0, s1)
     \<and> t_state (tasks (sch (do_signal (\<lambda>h sig s. s) 2 s1)) 2) = TASK_ZOMBIE"
proof -
  obtain r s1 where k: "kill_task 2 (int SIGKILL) sig_two = (r, s1)" by (cases "kill_task 2 (int SIGKILL) sig_two")
  have c: "get_current (sch sig_two) = 2" "2 \<in> set [2, 3 :: nat]" "t_state (tasks (sch sig_two) 2) = TASK_RUNNING"
    "sig_of sig_two 2 \<noteq> NULL" "pending (sigs sig_two (sig_of sig_two 2)) = 0"
    by (simp_all add: sig_two_def sched_two_def get_current_def zero_task_def SIG_POOL_def INIT_TASK_def)
  show ?thesis using kill_task_SIGKILL_terminates [OF sig_two_inv sig_two_ok c k] k by blast
qed

theorem sched_kill_task_not_delivered_witness:
  "\<exists>sc. sched_kill_task 1 (sch sig_two) = (0, sc) \<and> do_signal (\<lambda>h sig s. s) 2 (sig_two\<lparr>sch := sc\<rparr>) = sig_two\<lparr>sch := sc\<rparr>"
proof -
  have t: "get_task_by_pid 1 (sch sig_two) = 2"
    by (simp add: get_task_by_pid_def sig_two_def sched_two_def init_task_def zero_task_def POOL_def INIT_TASK_def upt_rec)
  have "fst (sched_kill_task 1 (sch sig_two)) = 0"
    using t by (simp add: sched_kill_task_def Let_def) (simp add: sig_two_def sched_two_def zero_task_def INIT_TASK_def)
  then obtain sc where k: "sched_kill_task 1 (sch sig_two) = (0, sc)" by (metis prod.collapse)
  have "pending (sigs sig_two (sig_of sig_two 2)) AND NOT (blocked (sigs sig_two (sig_of sig_two 2))) = 0"
    by (simp add: sig_two_def)
  with sched_kill_task_not_delivered [OF k t [symmetric]] k show ?thesis by blast
qed

end
