(* ===== verification/Cstring.thy ===== *)
theory Cstring
  imports Prelude
begin

text \<open>
  The byte and string functions of the C library (\<^verbatim>\<open>libc/src/string.c\<close>) and of the kernel
  (\<^verbatim>\<open>kernel/lib/string.c\<close>, names with a \<open>k_\<close> prefix where both exist) over a flat byte memory. A function that runs
  to a terminating zero need not end, so it returns an option and \<^term>\<open>None\<close> is a scan that never ends;
  functions with a length argument are total. Pointers returned by the code are addresses, results of type
  \<^verbatim>\<open>int\<close> are integers.
\<close>

section \<open>Memory functions\<close>

definition memcpy :: "ptr \<Rightarrow> ptr \<Rightarrow> nat \<Rightarrow> memory \<Rightarrow> memory" where
  "memcpy dest src n m = byte_copy n dest src m"

definition memmove :: "ptr \<Rightarrow> ptr \<Rightarrow> nat \<Rightarrow> memory \<Rightarrow> memory" where
  "memmove dest src n m = (if dest < src then byte_copy n dest src m else byte_copy_back n dest src m)"

definition memset :: "ptr \<Rightarrow> int \<Rightarrow> nat \<Rightarrow> memory \<Rightarrow> memory" where
  "memset s c n m = byte_fill n s (of_int c) m"

fun memcmp :: "ptr \<Rightarrow> ptr \<Rightarrow> nat \<Rightarrow> memory \<Rightarrow> int" where
  "memcmp p1 p2 0 m = 0"
| "memcmp p1 p2 (Suc n) m =
     (if m p1 \<noteq> m p2 then uint (m p1) - uint (m p2) else memcmp (p1 + 1) (p2 + 1) n m)"

fun memchr :: "ptr \<Rightarrow> int \<Rightarrow> nat \<Rightarrow> memory \<Rightarrow> ptr" where
  "memchr p c 0 m = NULL"
| "memchr p c (Suc n) m = (if m p = of_int c then p else memchr (p + 1) c n m)"

definition bzero :: "ptr \<Rightarrow> nat \<Rightarrow> memory \<Rightarrow> memory" where
  "bzero s n m = memset s 0 n m"

section \<open>String functions\<close>

text \<open>\<^verbatim>\<open>while (*p) p++\<close>\<close>

partial_function (option) str_end :: "ptr \<Rightarrow> memory \<Rightarrow> ptr option" where
  "str_end p m = (if m p \<noteq> 0 then str_end (p + 1) m else Some p)"

definition strlen :: "ptr \<Rightarrow> memory \<Rightarrow> nat option" where
  "strlen s m = map_option (\<lambda>p. p - s) (str_end s m)"

function strnlen_loop :: "ptr \<Rightarrow> nat \<Rightarrow> nat \<Rightarrow> memory \<Rightarrow> nat" where
  "strnlen_loop s maxlen len m =
     (if len < maxlen \<and> m (s + len) \<noteq> 0 then strnlen_loop s maxlen (len + 1) m else len)"
  by pat_completeness auto
termination
  by (relation "measure (\<lambda>(s, maxlen, len, m). maxlen - len)") auto

definition strnlen :: "ptr \<Rightarrow> nat \<Rightarrow> memory \<Rightarrow> nat" where
  "strnlen s maxlen m = strnlen_loop s maxlen 0 m"

definition strlcpy :: "ptr \<Rightarrow> ptr \<Rightarrow> nat \<Rightarrow> memory \<Rightarrow> (nat \<times> memory) option" where
  "strlcpy dest src sz m =
     (case strlen src m of
        None \<Rightarrow> None
      | Some src_len \<Rightarrow>
          if sz > 0 then
            (let copy_len = (if src_len \<ge> sz then sz - 1 else src_len)
             in Some (src_len, (memcpy dest src copy_len m)(dest + copy_len := 0)))
          else Some (src_len, m))"

text \<open>\<^verbatim>\<open>while ((*d++ = *src++))\<close>\<close>

partial_function (option) str_copy :: "ptr \<Rightarrow> ptr \<Rightarrow> memory \<Rightarrow> memory option" where
  "str_copy d src m =
     (if m src = 0 then Some (m(d := m src)) else str_copy (d + 1) (src + 1) (m(d := m src)))"

definition strcat :: "ptr \<Rightarrow> ptr \<Rightarrow> memory \<Rightarrow> memory option" where
  "strcat dest src m = (case str_end dest m of None \<Rightarrow> None | Some d \<Rightarrow> str_copy d src m)"

fun strncat_loop :: "ptr \<Rightarrow> ptr \<Rightarrow> nat \<Rightarrow> memory \<Rightarrow> memory" where
  "strncat_loop d src 0 m = m"
| "strncat_loop d src (Suc n) m =
     (let c = m src; m = m(d := c)
      in if c = 0 then m
         else strncat_loop (d + 1) (src + 1) n (if n = 0 then m(d + 1 := 0) else m))"

definition strncat :: "ptr \<Rightarrow> ptr \<Rightarrow> nat \<Rightarrow> memory \<Rightarrow> memory option" where
  "strncat dest src n m = map_option (\<lambda>d. strncat_loop d src n m) (str_end dest m)"

partial_function (option) strcmp :: "ptr \<Rightarrow> ptr \<Rightarrow> memory \<Rightarrow> int option" where
  "strcmp s1 s2 m =
     (if m s1 \<noteq> 0 \<and> m s1 = m s2 then strcmp (s1 + 1) (s2 + 1) m else Some (uint (m s1) - uint (m s2)))"

fun strncmp_loop :: "ptr \<Rightarrow> ptr \<Rightarrow> nat \<Rightarrow> memory \<Rightarrow> int" where
  "strncmp_loop s1 s2 0 m = uint (m s1) - uint (m s2)"
| "strncmp_loop s1 s2 (Suc n) m =
     (if n \<noteq> 0 \<and> m s1 \<noteq> 0 \<and> m s1 = m s2 then strncmp_loop (s1 + 1) (s2 + 1) n m
      else uint (m s1) - uint (m s2))"

definition strncmp :: "ptr \<Rightarrow> ptr \<Rightarrow> nat \<Rightarrow> memory \<Rightarrow> int" where
  "strncmp s1 s2 n m = (if n = 0 then 0 else strncmp_loop s1 s2 n m)"

definition tolower :: "int \<Rightarrow> int" where
  "tolower c = (if c \<ge> 65 \<and> c \<le> 90 then c + (97 - 65) else c)"

text \<open>\<^verbatim>\<open>char\<close> is signed: \<open>schar\<close> is the value of \<^verbatim>\<open>*s\<close>.\<close>

definition schar :: "u8 \<Rightarrow> int" where "schar b = sint b"

partial_function (option) strcasecmp :: "ptr \<Rightarrow> ptr \<Rightarrow> memory \<Rightarrow> int option" where
  "strcasecmp s1 s2 m =
     (if m s1 \<noteq> 0 \<and> tolower (schar (m s1)) = tolower (schar (m s2)) then strcasecmp (s1 + 1) (s2 + 1) m
      else Some (tolower (uint (m s1)) - tolower (uint (m s2))))"

fun strncasecmp_loop :: "ptr \<Rightarrow> ptr \<Rightarrow> nat \<Rightarrow> memory \<Rightarrow> int" where
  "strncasecmp_loop s1 s2 0 m = tolower (uint (m s1)) - tolower (uint (m s2))"
| "strncasecmp_loop s1 s2 (Suc n) m =
     (if n \<noteq> 0 \<and> m s1 \<noteq> 0 \<and> tolower (schar (m s1)) = tolower (schar (m s2))
      then strncasecmp_loop (s1 + 1) (s2 + 1) n m
      else tolower (uint (m s1)) - tolower (uint (m s2)))"

definition strncasecmp :: "ptr \<Rightarrow> ptr \<Rightarrow> nat \<Rightarrow> memory \<Rightarrow> int" where
  "strncasecmp s1 s2 n m = (if n = 0 then 0 else strncasecmp_loop s1 s2 n m)"

partial_function (option) strchr :: "ptr \<Rightarrow> int \<Rightarrow> memory \<Rightarrow> ptr option" where
  "strchr s c m =
     (if m s \<noteq> 0 then (if m s = of_int c then Some s else strchr (s + 1) c m)
      else Some (if c = 0 then s else NULL))"

partial_function (option) strrchr_loop :: "ptr \<Rightarrow> int \<Rightarrow> ptr \<Rightarrow> memory \<Rightarrow> (ptr \<times> ptr) option" where
  "strrchr_loop s c lst m =
     (if m s \<noteq> 0 then strrchr_loop (s + 1) c (if m s = of_int c then s else lst) m else Some (s, lst))"

definition strrchr :: "ptr \<Rightarrow> int \<Rightarrow> memory \<Rightarrow> ptr option" where
  "strrchr s c m = map_option (\<lambda>(s, lst). if c = 0 then s else lst) (strrchr_loop s c NULL m)"

partial_function (option) strstr_loop :: "ptr \<Rightarrow> ptr \<Rightarrow> nat \<Rightarrow> memory \<Rightarrow> ptr option" where
  "strstr_loop haystack needle needle_len m =
     (if m haystack \<noteq> 0 then
        (if strncmp haystack needle needle_len m = 0 then Some haystack
         else strstr_loop (haystack + 1) needle needle_len m)
      else Some NULL)"

definition strstr :: "ptr \<Rightarrow> ptr \<Rightarrow> memory \<Rightarrow> ptr option" where
  "strstr haystack needle m =
     (case strlen needle m of
        None \<Rightarrow> None
      | Some needle_len \<Rightarrow>
          if needle_len = 0 then Some haystack else strstr_loop haystack needle needle_len m)"

section \<open>Error strings\<close>

definition error_strings :: "string list" where
  "error_strings = [''Success'', ''Operation not permitted'', ''No such file or directory'', ''No such process'',
     ''Interrupted system call'', ''I/O error'', ''No such device or address'', ''Argument list too long'',
     ''Exec format error'', ''Bad file number'', ''No child processes'', ''Try again'', ''Out of memory'',
     ''Permission denied'']"

text \<open>The do-while loop that fills \<^verbatim>\<open>num\<close> with the digits, least significant first.\<close>

function num_digits :: "nat \<Rightarrow> string" where
  "num_digits k = char_of (48 + k mod 10) # (if k div 10 > 0 then num_digits (k div 10) else [])"
  by pat_completeness auto
termination
  by (relation "measure id") auto

text \<open>Negating the smallest \<^verbatim>\<open>int\<close> is undefined.\<close>

definition strerror :: "int \<Rightarrow> string option" where
  "strerror errnum =
     (if errnum \<ge> 0 \<and> errnum < int (length error_strings) then Some (error_strings ! nat errnum)
      else if errnum = - (2 ^ 31) then None
      else Some (''Unknown error '' @ (if errnum < 0 then ''-'' else '''') @ rev (num_digits (nat \<bar>errnum\<bar>))))"

section \<open>The kernel's copies\<close>

definition k_memcpy :: "ptr \<Rightarrow> ptr \<Rightarrow> nat \<Rightarrow> memory \<Rightarrow> memory" where
  "k_memcpy dest src n m = byte_copy n dest src m"

definition k_memset :: "ptr \<Rightarrow> int \<Rightarrow> nat \<Rightarrow> memory \<Rightarrow> memory" where
  "k_memset s c n m = byte_fill n s (of_int c) m"

definition k_memmove :: "ptr \<Rightarrow> ptr \<Rightarrow> nat \<Rightarrow> memory \<Rightarrow> memory" where
  "k_memmove dest src n m = (if dest < src then byte_copy n dest src m else byte_copy_back n dest src m)"

fun k_memcmp :: "ptr \<Rightarrow> ptr \<Rightarrow> nat \<Rightarrow> memory \<Rightarrow> int" where
  "k_memcmp p1 p2 0 m = 0"
| "k_memcmp p1 p2 (Suc n) m =
     (if m p1 \<noteq> m p2 then uint (m p1) - uint (m p2) else k_memcmp (p1 + 1) (p2 + 1) n m)"

partial_function (option) k_strlen_loop :: "ptr \<Rightarrow> nat \<Rightarrow> memory \<Rightarrow> nat option" where
  "k_strlen_loop s len m = (if m (s + len) \<noteq> 0 then k_strlen_loop s (len + 1) m else Some len)"

definition k_strlen :: "ptr \<Rightarrow> memory \<Rightarrow> nat option" where
  "k_strlen s m = k_strlen_loop s 0 m"

definition k_strlcpy :: "ptr \<Rightarrow> ptr \<Rightarrow> nat \<Rightarrow> memory \<Rightarrow> (nat \<times> memory) option" where
  "k_strlcpy dest src sz m =
     (case k_strlen src m of
        None \<Rightarrow> None
      | Some src_len \<Rightarrow>
          if sz > 0 then
            (let copy_len = (if src_len \<ge> sz then sz - 1 else src_len)
             in Some (src_len, (k_memcpy dest src copy_len m)(dest + copy_len := 0)))
          else Some (src_len, m))"

partial_function (option) k_strcmp :: "ptr \<Rightarrow> ptr \<Rightarrow> memory \<Rightarrow> int option" where
  "k_strcmp s1 s2 m =
     (if m s1 \<noteq> 0 \<and> m s1 = m s2 then k_strcmp (s1 + 1) (s2 + 1) m else Some (uint (m s1) - uint (m s2)))"

text \<open>The kernel counts with \<^verbatim>\<open>n--\<close>: when the count runs out \<open>n\<close> wraps to the largest \<^verbatim>\<open>size_t\<close>, which the
  test after the loop recognises.\<close>

fun k_strncmp_loop :: "ptr \<Rightarrow> ptr \<Rightarrow> nat \<Rightarrow> memory \<Rightarrow> int" where
  "k_strncmp_loop s1 s2 0 m = 0"
| "k_strncmp_loop s1 s2 (Suc n) m =
     (if m s1 \<noteq> 0 \<and> m s1 = m s2 then k_strncmp_loop (s1 + 1) (s2 + 1) n m
      else uint (m s1) - uint (m s2))"

definition k_strncmp :: "ptr \<Rightarrow> ptr \<Rightarrow> nat \<Rightarrow> memory \<Rightarrow> int" where
  "k_strncmp s1 s2 n m = (if n = 0 then 0 else k_strncmp_loop s1 s2 n m)"

declare strnlen_loop.simps [simp del] num_digits.simps [simp del]

section \<open>Strings in memory\<close>

text \<open>\<open>cstr m p s\<close>: the non-zero bytes \<open>s\<close> lie at \<open>p\<close>, followed by a zero.\<close>

definition cstr :: "memory \<Rightarrow> ptr \<Rightarrow> bytes \<Rightarrow> bool" where
  "cstr m p s \<longleftrightarrow> (\<forall>i < length s. m (p + i) = s ! i \<and> s ! i \<noteq> 0) \<and> m (p + length s) = 0"

lemma cstr_Nil [simp]: "cstr m p [] \<longleftrightarrow> m p = 0"
  by (simp add: cstr_def)

lemma cstr_Cons [simp]: "cstr m p (c # s) \<longleftrightarrow> m p = c \<and> c \<noteq> 0 \<and> cstr m (p + 1) s"
  by (auto simp: cstr_def less_Suc_eq_0_disj)

lemma str_end_cstr: "cstr m p s \<Longrightarrow> str_end p m = Some (p + length s)"
  by (induction s arbitrary: p) (auto simp: str_end.simps)

lemma strlen_cstr: "cstr m p s \<Longrightarrow> strlen p m = Some (length s)"
  by (simp add: strlen_def str_end_cstr)

lemma cstr_cong: "cstr m p s \<Longrightarrow> (\<And>a. p \<le> a \<Longrightarrow> a \<le> p + length s \<Longrightarrow> m' a = m a) \<Longrightarrow> cstr m' p s"
  by (auto simp: cstr_def)

lemma cstr_unique: "cstr m p s \<Longrightarrow> cstr m p t \<Longrightarrow> s = t"
proof (induction s arbitrary: p t)
  case Nil
  then show ?case by (cases t) auto
next
  case (Cons c s)
  then show ?case by (cases t) auto
qed

section \<open>Comparison\<close>

text \<open>The reference comparison: the difference of the first bytes that differ, a string that ends
  counting as a zero byte.\<close>

fun str_diff :: "bytes \<Rightarrow> bytes \<Rightarrow> int" where
  "str_diff [] [] = 0"
| "str_diff [] (b # t) = - uint b"
| "str_diff (a # s) [] = uint a"
| "str_diff (a # s) (b # t) = (if a = b then str_diff s t else uint a - uint b)"

lemma uint_pos: "(b :: u8) \<noteq> 0 \<Longrightarrow> 0 < uint b"
  using uint_0_iff [of b] uint_ge_0 [of b] by linarith

lemma str_diff_0:
  assumes "\<forall>b \<in> set s. b \<noteq> 0" and "\<forall>b \<in> set t. b \<noteq> 0"
  shows "str_diff s t = 0 \<longleftrightarrow> s = t"
  using assms by (induction s t rule: str_diff.induct) (auto simp: word_uint_eq_iff dest: uint_pos)

lemma str_diff_neg:
  assumes "\<forall>b \<in> set s. b \<noteq> 0" and "\<forall>b \<in> set t. b \<noteq> 0"
  shows "str_diff s t < 0 \<longleftrightarrow> (s, t) \<in> lexord {(a, b). a < b}"
  using assms
proof (induction s t rule: str_diff.induct)
  case (4 a s b t)
  then show ?case by (auto simp: word_less_def)
qed (auto dest: uint_pos)

lemma cstr_nonzero: "cstr m p s \<Longrightarrow> \<forall>b \<in> set s. b \<noteq> 0"
  by (auto simp: cstr_def in_set_conv_nth)

lemma strcmp_cstr: "cstr m p s \<Longrightarrow> cstr m q t \<Longrightarrow> strcmp p q m = Some (str_diff s t)"
proof (induction s t arbitrary: p q rule: str_diff.induct)
  case (4 a s b t)
  then show ?case by (subst strcmp.simps) auto
qed (auto simp: strcmp.simps)

lemma k_strcmp_cstr: "cstr m p s \<Longrightarrow> cstr m q t \<Longrightarrow> k_strcmp p q m = Some (str_diff s t)"
proof (induction s t arbitrary: p q rule: str_diff.induct)
  case (4 a s b t)
  then show ?case by (subst k_strcmp.simps) auto
qed (auto simp: k_strcmp.simps)

lemma strncmp_loop_cstr:
  "cstr m p s \<Longrightarrow> cstr m q t \<Longrightarrow> strncmp_loop p q (Suc n) m = str_diff (take (Suc n) s) (take (Suc n) t)"
proof (induction n arbitrary: p q s t)
  case 0
  then show ?case by (cases s; cases t) auto
next
  case (Suc n)
  then show ?case by (cases s; cases t) auto
qed

lemma strncmp_cstr: "cstr m p s \<Longrightarrow> cstr m q t \<Longrightarrow> strncmp p q n m = str_diff (take n s) (take n t)"
  using strncmp_loop_cstr by (cases n) (auto simp: strncmp_def simp del: strncmp_loop.simps)

lemma k_strncmp_cstr: "cstr m p s \<Longrightarrow> cstr m q t \<Longrightarrow> k_strncmp p q n m = str_diff (take n s) (take n t)"
proof -
  have "cstr m p s \<Longrightarrow> cstr m q t \<Longrightarrow> k_strncmp_loop p q n m = str_diff (take n s) (take n t)" for p q s t
  proof (induction n arbitrary: p q s t)
    case (Suc n)
    then show ?case by (cases s; cases t) auto
  qed simp
  then show "cstr m p s \<Longrightarrow> cstr m q t \<Longrightarrow> k_strncmp p q n m = str_diff (take n s) (take n t)"
    by (simp add: k_strncmp_def)
qed

lemma strncmp_prefix:
  assumes "cstr m p s" and "cstr m q t"
  shows "strncmp p q (length t) m = 0 \<longleftrightarrow> take (length t) s = t"
proof -
  have "\<forall>b \<in> set (take (length t) s). b \<noteq> 0" "\<forall>b \<in> set (take (length t) t). b \<noteq> 0"
    using cstr_nonzero [OF assms(1)] cstr_nonzero [OF assms(2)] by (auto dest: in_set_takeD)
  from str_diff_0 [OF this] show ?thesis unfolding strncmp_cstr [OF assms] by simp
qed

lemma cstr_drop: "cstr m p s \<Longrightarrow> i \<le> length s \<Longrightarrow> cstr m (p + i) (drop i s)"
  by (auto simp: cstr_def add.assoc)

section \<open>Copying and searching\<close>

lemma strlcpy_cstr:
  assumes s: "cstr m src s" and dis: "dest \<le> src \<or> src + length s < dest"
  shows "\<exists>m'. strlcpy dest src sz m = Some (length s, m')
    \<and> (0 < sz \<longrightarrow> cstr m' dest (take (sz - 1) s))
    \<and> (\<forall>a. a < dest \<or> dest + min sz (length s + 1) \<le> a \<longrightarrow> m' a = m a)"
proof (cases "sz = 0")
  case True
  then show ?thesis using strlen_cstr [OF s] by (simp add: strlcpy_def)
next
  case False
  define k where "k = min (sz - 1) (length s)"
  have k: "(if length s \<ge> sz then sz - 1 else length s) = k" using False by (auto simp: k_def)
  let ?m = "(byte_copy k dest src m)(dest + k := 0)"
  have c: "byte_copy k dest src m a = (if dest \<le> a \<and> a < dest + k then m (src + (a - dest)) else m a)" for a
    using dis by (intro byte_copy_eq) (auto simp: k_def)
  have "strlcpy dest src sz m = Some (length s, ?m)"
    using strlen_cstr [OF s] False k by (simp add: strlcpy_def memcpy_def Let_def)
  moreover have "cstr ?m dest (take (sz - 1) s)"
    using s unfolding cstr_def fun_upd_apply c by (auto simp: k_def)
  moreover have "?m a = m a" if "a < dest \<or> dest + min sz (length s + 1) \<le> a" for a
    using that False unfolding fun_upd_apply c by (auto simp: k_def min_def split: if_splits)
  ultimately show ?thesis by blast
qed

text \<open>What the loop of \<^verbatim>\<open>strncat\<close> leaves at \<open>d\<close>: at most \<open>n\<close> bytes of the source and a zero.\<close>

lemma strncat_loop_eq:
  assumes "cstr m src t" and "d + n < src \<or> src + length t < d"
  shows "strncat_loop d src n m =
    (\<lambda>a. if d \<le> a \<and> a < d + min n (length t) then t ! (a - d)
         else if a = d + min n (length t) \<and> n \<noteq> 0 then 0 else m a)"
  using assms
proof (induction n arbitrary: d src t m)
  case (Suc n)
  show ?case
  proof (cases t)
    case Nil
    then show ?thesis using Suc.prems by (auto simp: fun_eq_iff)
  next
    case (Cons c t')
    let ?m = "if n = 0 then m(d := c, d + 1 := 0) else m(d := c)"
    have c: "m src = c" "c \<noteq> 0" "cstr m (src + 1) t'" using Suc.prems Cons by auto
    have "cstr ?m (src + 1) t'" using c(3) Suc.prems(2) Cons by (elim cstr_cong) auto
    then have "strncat_loop (d + 1) (src + 1) n ?m =
      (\<lambda>a. if d + 1 \<le> a \<and> a < d + 1 + min n (length t') then t' ! (a - (d + 1))
         else if a = d + 1 + min n (length t') \<and> n \<noteq> 0 then 0 else ?m a)"
      using Suc.prems(2) Cons by (intro Suc.IH) auto
    then have "strncat_loop d src (Suc n) m =
      (\<lambda>a. if d + 1 \<le> a \<and> a < d + 1 + min n (length t') then t' ! (a - (d + 1))
         else if a = d + 1 + min n (length t') \<and> n \<noteq> 0 then 0 else ?m a)"
      using c by (simp add: Let_def)
    also have "\<dots> = (\<lambda>a. if d \<le> a \<and> a < d + min (Suc n) (length t) then t ! (a - d)
         else if a = d + min (Suc n) (length t) \<and> Suc n \<noteq> 0 then 0 else m a)"
      using Cons by (auto simp: fun_eq_iff nth_Cons' Suc_diff_le not_less_eq_eq)
    finally show ?thesis .
  qed
qed (auto simp: fun_eq_iff)

lemma strncat_cstr:
  assumes d: "cstr m dest s" and t: "cstr m src t" and dis: "dest + length s + n < src \<or> src + length t < dest"
  shows "\<exists>m'. strncat dest src n m = Some m' \<and> cstr m' dest (s @ take n t)"
proof -
  let ?d = "dest + length s"
  have eq: "strncat_loop ?d src n m = (\<lambda>a. if ?d \<le> a \<and> a < ?d + min n (length t) then t ! (a - ?d)
         else if a = ?d + min n (length t) \<and> n \<noteq> 0 then 0 else m a)"
    using dis by (intro strncat_loop_eq [OF t]) auto
  have "cstr (strncat_loop ?d src n m) dest (s @ take n t)"
    using d t unfolding cstr_def eq by (auto simp: nth_append min.commute)
  then show ?thesis using str_end_cstr [OF d] by (simp add: strncat_def)
qed

lemma strstr_loop_cstr:
  assumes "cstr m p t" and "t \<noteq> []"
  shows "cstr m h s \<Longrightarrow> strstr_loop h p (length t) m =
    Some (case find (\<lambda>i. take (length t) (drop i s) = t) [0..<length s] of None \<Rightarrow> NULL | Some i \<Rightarrow> h + i)"
proof (induction s arbitrary: h)
  case Nil
  then show ?case by (subst strstr_loop.simps) simp
next
  case (Cons c s)
  have c: "m h = c" "c \<noteq> 0" "cstr m (h + 1) s" using Cons.prems by auto
  have hit: "strncmp h p (length t) m = 0 \<longleftrightarrow> take (length t) (c # s) = t"
    by (rule strncmp_prefix [OF Cons.prems assms(1)])
  have up: "[0..<length (c # s)] = 0 # map Suc [0..<length s]" by (metis length_Cons map_Suc_upt upt_conv_Cons zero_less_Suc)
  have fm: "find P (map Suc xs) = map_option Suc (find (P \<circ> Suc) xs)" for P xs by (induction xs) auto
  show ?case
  proof (cases "take (length t) (c # s) = t")
    case True
    then show ?thesis using c hit unfolding up by (subst strstr_loop.simps) simp
  next
    case False
    then have "strstr_loop h p (length t) m = strstr_loop (h + 1) p (length t) m"
      using c hit by (subst strstr_loop.simps) simp
    then show ?thesis
      using Cons.IH [OF c(3)] False unfolding up
      by (simp add: fm comp_def split: option.split)
  qed
qed

lemma k_strlen_cstr: "cstr m p s \<Longrightarrow> k_strlen p m = Some (length s)"
proof -
  assume c: "cstr m p s"
  have "k \<le> length s \<Longrightarrow> k_strlen_loop p (length s - k) m = Some (length s)" for k
  proof (induction k)
    case 0
    then show ?case using c by (subst k_strlen_loop.simps) (simp add: cstr_def)
  next
    case (Suc k)
    then have "length s - Suc k < length s" by simp
    then have "m (p + (length s - Suc k)) \<noteq> 0" using c unfolding cstr_def by metis
    moreover have "length s - Suc k + 1 = length s - k" using Suc.prems by simp
    ultimately show ?case using Suc by (subst k_strlen_loop.simps) simp
  qed
  from this [of "length s"] show ?thesis by (simp add: k_strlen_def)
qed

section \<open>Properties\<close>

text \<open>\<^verbatim>\<open>memmove\<close> is correct for overlapping buffers too: the destination receives the bytes the source had
  before the call and no other byte changes. \<^verbatim>\<open>memcpy\<close> agrees with it whenever the destination does not start
  inside the source.\<close>

theorem memmove_correct:
  "memmove dest src n m a = (if dest \<le> a \<and> a < dest + n then m (src + (a - dest)) else m a)
   \<and> (dest \<le> src \<or> src + n \<le> dest \<longrightarrow> memcpy dest src n m = memmove dest src n m)"
proof -
  have mm: "memmove dest src n m = (\<lambda>a. if dest \<le> a \<and> a < dest + n then m (src + (a - dest)) else m a)"
    by (auto simp: fun_eq_iff memmove_def byte_copy_eq byte_copy_back_eq)
  moreover have "memcpy dest src n m = memmove dest src n m" if "dest \<le> src \<or> src + n \<le> dest"
    unfolding mm using that by (auto simp: fun_eq_iff memcpy_def byte_copy_eq)
  ultimately show ?thesis by simp
qed

theorem memmove_correct_witness:
  "memcpy 2 10 5 (\<lambda>a. of_nat a) = memmove 2 10 5 (\<lambda>a. of_nat a)
   \<and> memmove 2 0 4 (\<lambda>a. of_nat a) 5 = 3"
  using memmove_correct [of 2 10 5 "\<lambda>a. of_nat a"] memmove_correct [of 2 0 4 "\<lambda>a. of_nat a" 5] by simp


text \<open>\<^verbatim>\<open>strlcpy\<close> returns the length of the source; for a non-zero size the destination ends up holding the
  source cut to \<^verbatim>\<open>size - 1\<close> bytes and terminated, and nothing outside the first \<^verbatim>\<open>size\<close> bytes of the
  destination is written. The kernel's version does exactly the same.\<close>

theorem strlcpy_correct:
  assumes "cstr m src s" and "dest \<le> src \<or> src + length s < dest"
  shows "\<exists>m'. strlcpy dest src sz m = Some (length s, m') \<and> k_strlcpy dest src sz m = Some (length s, m')
    \<and> (0 < sz \<longrightarrow> cstr m' dest (take (sz - 1) s))
    \<and> (\<forall>a. a < dest \<or> dest + sz \<le> a \<longrightarrow> m' a = m a)"
proof -
  have "k_strlcpy dest src sz m = strlcpy dest src sz m"
    using strlen_cstr [OF assms(1)] k_strlen_cstr [OF assms(1)]
    by (simp add: k_strlcpy_def strlcpy_def k_memcpy_def memcpy_def)
  then show ?thesis using strlcpy_cstr [OF assms, of sz] by auto
qed

text \<open>\<^verbatim>\<open>strstr\<close> returns the first occurrence of the needle: the lowest address in the haystack where the
  needle's bytes begin, or \<^verbatim>\<open>NULL\<close> when it does not occur.\<close>

theorem strstr_first:
  assumes "cstr m h s" and "cstr m p t" and "h \<noteq> NULL"
  shows "\<exists>r. strstr h p m = Some r
    \<and> (r = NULL \<longleftrightarrow> (\<forall>i \<le> length s. take (length t) (drop i s) \<noteq> t))
    \<and> (r \<noteq> NULL \<longrightarrow> (\<exists>i \<le> length s. r = h + i \<and> take (length t) (drop i s) = t
          \<and> (\<forall>j < i. take (length t) (drop j s) \<noteq> t)))"
proof (cases "t = []")
  case True
  then show ?thesis using strlen_cstr [OF assms(2)] assms(3) by (auto simp: strstr_def)
next
  case False
  let ?f = "find (\<lambda>i. take (length t) (drop i s) = t) [0..<length s]"
  have e: "strstr h p m = Some (case ?f of None \<Rightarrow> NULL | Some i \<Rightarrow> h + i)"
    using strstr_loop_cstr [OF assms(2) False assms(1)] strlen_cstr [OF assms(2)] False by (simp add: strstr_def)
  show ?thesis
  proof (cases ?f)
    case None
    then have n: "\<forall>i < length s. take (length t) (drop i s) \<noteq> t" by (simp only: find_upt_None)
    then have "\<forall>i \<le> length s. take (length t) (drop i s) \<noteq> t" using False by (auto simp: le_less)
    then show ?thesis using e None by auto
  next
    case (Some i)
    then have "i < length s" "take (length t) (drop i s) = t" "\<forall>j < i. take (length t) (drop j s) \<noteq> t"
      by (auto simp only: find_upt_Some)
    then show ?thesis using e Some assms(3) by (intro exI [of _ "h + i"]) (auto intro!: exI [of _ i] less_imp_le)
  qed
qed

section \<open>Witnesses\<close>

text \<open>A memory with the strings \<open>abc\<close> at 16 and \<open>bc\<close> at 32.\<close>

definition two_strings :: memory where
  "two_strings = (\<lambda>_. 0)(16 := 97, 17 := 98, 18 := 99, 32 := 98, 33 := 99)"

lemma two_strings_cstr: "cstr two_strings 16 [97, 98, 99]" "cstr two_strings 32 [98, 99]"
  by (simp_all add: two_strings_def)


theorem strlcpy_correct_witness:
  "\<exists>m'. strlcpy 64 16 3 two_strings = Some (3, m') \<and> cstr m' 64 [97, 98]"
  using strlcpy_correct [OF two_strings_cstr(1), of 64 3] by auto

theorem strstr_first_witness: "strstr 16 32 two_strings = Some 17"
proof -
  let ?s = "[97, 98, 99 :: u8]" and ?t = "[98, 99 :: u8]"
  obtain r where r: "strstr 16 32 two_strings = Some r"
    "r = NULL \<longleftrightarrow> (\<forall>i \<le> length ?s. take (length ?t) (drop i ?s) \<noteq> ?t)"
    "r \<noteq> NULL \<longrightarrow> (\<exists>i \<le> length ?s. r = 16 + i \<and> take (length ?t) (drop i ?s) = ?t
          \<and> (\<forall>j < i. take (length ?t) (drop j ?s) \<noteq> ?t))"
    using strstr_first [OF two_strings_cstr zero_neq_numeral [symmetric]]
    by (elim exE conjE) (rule that; assumption)
  have "take (length ?t) (drop 1 ?s) = ?t" "1 \<le> length ?s" by simp_all
  then have "r \<noteq> NULL" using r(2) by blast
  then obtain i where i: "i \<le> length ?s" "r = 16 + i" "take (length ?t) (drop i ?s) = ?t" using r(3) by blast
  then have "i = 1" by (auto simp: le_Suc_eq)
  then show ?thesis using r(1) i(2) by simp
qed

end
