(* ===== verification/Dns.thy ===== *)
theory Dns
  imports Prelude
begin

text \<open>
  The DNS resolver, \<^verbatim>\<open>kernel/net/dns.c\<close>: the label encoding of names and its decoding with compression
  pointers, the query packet, the response parser and the cache. A C string argument is its list of bytes
  before the terminating zero. Output buffers are written front to back, so they are modelled as the list of bytes
  written; whether such a list still fits the buffer is a theorem, not an assumption. Decoding follows
  pointers without a bound and may not end: its result is an option. The parser may read behind
  the packet: \<^term>\<open>None\<close> there is an out-of-bounds read.
\<close>

section \<open>Constants and byte order\<close>

definition DNS_MAX_NAME_LEN :: nat where "DNS_MAX_NAME_LEN = 255"
definition DNS_HEADER_SIZE :: nat where "DNS_HEADER_SIZE = 12"
definition DNS_TYPE_A :: u16 where "DNS_TYPE_A = 1"
definition DNS_FLAG_QR :: u16 where "DNS_FLAG_QR = 0x8000"
definition DNS_FLAG_RD :: u16 where "DNS_FLAG_RD = 0x0100"
definition DNS_RCODE_MASK :: u16 where "DNS_RCODE_MASK = 0x000F"
definition DNS_CACHE_SIZE :: nat where "DNS_CACHE_SIZE = 64"

definition dns_htons :: "u16 \<Rightarrow> u16" where
  "dns_htons x = push_bit 8 (x AND 0xFF) OR (drop_bit 8 x AND 0xFF)"

definition dns_ntohs :: "u16 \<Rightarrow> u16" where
  "dns_ntohs x = dns_htons x"

text \<open>A 16-bit field of a packed structure on the little-endian targets.\<close>

definition store16 :: "u16 \<Rightarrow> bytes" where
  "store16 w = [ucast w, ucast (drop_bit 8 w)]"

definition load16 :: "u8 \<Rightarrow> u8 \<Rightarrow> u16" where
  "load16 a b = ucast a OR push_bit 8 (ucast b)"

section \<open>Names\<close>

abbreviation (input) DOT :: u8 where "DOT \<equiv> 46"

definition slice :: "bytes \<Rightarrow> nat \<Rightarrow> nat \<Rightarrow> bytes" where
  "slice xs a b = take (b - a) (drop a xs)"

text \<open>\<open>None\<close> is the result -1; \<open>out\<close> is \<^verbatim>\<open>buf[0..pos)\<close>.\<close>

function dns_encode_loop :: "bytes \<Rightarrow> nat \<Rightarrow> nat \<Rightarrow> nat \<Rightarrow> bytes \<Rightarrow> (nat \<times> bytes) option" where
  "dns_encode_loop name buf_len len label_start out =
     (if len < length name then
        if name ! len = DOT then
          if length out + 1 + (len - label_start) \<ge> buf_len then None
          else dns_encode_loop name buf_len (len + 1) (len + 1)
                 (out @ [of_nat (len - label_start)] @ slice name label_start len)
        else dns_encode_loop name buf_len (len + 1) label_start out
      else Some (label_start, out))"
  by pat_completeness auto
termination
  by (relation "measure (\<lambda>(name, buf_len, len, label_start, out). length name - len)") auto

definition dns_encode_name :: "bytes \<Rightarrow> nat \<Rightarrow> bytes option" where
  "dns_encode_name name buf_len =
     (case dns_encode_loop name buf_len 0 0 [] of
        None \<Rightarrow> None
      | Some (label_start, out) \<Rightarrow>
          let len = length name in
          if len > label_start then
            if length out + 1 + (len - label_start) \<ge> buf_len then None
            else Some (out @ [of_nat (len - label_start)] @ slice name label_start len @ [0])
          else Some (out @ [0]))"

text \<open>The copy of one label: at most \<open>n\<close> bytes, as long as the response lasts and the name has room.\<close>

fun decode_label :: "bytes \<Rightarrow> nat \<Rightarrow> nat \<Rightarrow> nat \<Rightarrow> bytes \<Rightarrow> nat \<times> bytes" where
  "decode_label resp room 0 offset name = (offset, name)"
| "decode_label resp room (Suc n) offset name =
     (if offset < length resp then
        decode_label resp room n (offset + 1) (if length name < room then name @ [resp ! offset] else name)
      else (offset, name))"

text \<open>\<open>room\<close> is \<^verbatim>\<open>name_len - 1\<close>.\<close>

partial_function (option) dns_decode_loop ::
    "bytes \<Rightarrow> nat \<Rightarrow> nat \<Rightarrow> bytes \<Rightarrow> nat \<Rightarrow> bool \<Rightarrow> (int \<times> bytes) option" where
  "dns_decode_loop resp room offset name read_len jumped =
     (if offset < length resp then
        (let len = resp ! offset in
         if len = 0 then Some (int (if jumped then read_len else read_len + 1), name)
         else if len AND 0xC0 = 0xC0 then
           if offset + 1 \<ge> length resp then Some (- 1, name)
           else
             dns_decode_loop resp room (unat (push_bit 8 (ucast (len AND 0x3F)) OR ucast (resp ! (offset + 1)) :: u16)) name
               (if jumped then read_len else read_len + 2) True
         else
           (let read_len = (if jumped then read_len else read_len + 1 + unat len);
                name = (if length name > 0 \<and> length name < room then name @ [DOT] else name);
                (offset, name) = decode_label resp room (unat len) (offset + 1) name
            in dns_decode_loop resp room offset name read_len jumped))
      else Some (int read_len, name))"

definition dns_decode_name :: "bytes \<Rightarrow> nat \<Rightarrow> nat \<Rightarrow> (int \<times> bytes) option" where
  "dns_decode_name resp offset name_len =
     dns_decode_loop resp (if name_len = 0 then 2 ^ 64 - 1 else name_len - 1) offset [] 0 False"

section \<open>Queries and responses\<close>

record dns_cache_entry =
  ce_name :: bytes
  ce_ip :: u32
  ce_ttl :: u32
  ce_timestamp :: u64
  ce_valid :: bool

record dns =
  dns_cache :: "dns_cache_entry list"
  dns_servers :: "u32 list"
  num_dns_servers :: int
  dns_query_id :: u16

text \<open>The bytes written to the packet buffer.\<close>

definition dns_build_query :: "bytes \<Rightarrow> u16 \<Rightarrow> nat \<Rightarrow> dns \<Rightarrow> bytes option \<times> dns" where
  "dns_build_query name typ buf_len s =
     (if buf_len < DNS_HEADER_SIZE + DNS_MAX_NAME_LEN + 4 then (None, s)
      else
        (let hdr = store16 (dns_htons (dns_query_id s)) @ store16 (dns_htons DNS_FLAG_RD) @ store16 (dns_htons 1)
                   @ store16 0 @ store16 0 @ store16 0;
             s = s\<lparr>dns_query_id := dns_query_id s + 1\<rparr>
         in case dns_encode_name name (buf_len - DNS_HEADER_SIZE) of
              None \<Rightarrow> (None, s)
            | Some enc \<Rightarrow>
                (Some (hdr @ enc @ [ucast (drop_bit 8 typ AND 0xFF), ucast (typ AND 0xFF), 0, 1]), s)))"

definition rd :: "bytes \<Rightarrow> nat \<Rightarrow> u8 option" where
  "rd resp pos = (if pos < length resp then Some (resp ! pos) else None)"

text \<open>\<^verbatim>\<open>while (pos < len && response[pos] != 0)\<close>; the flag says that a compression pointer ended it.\<close>

function skip_name :: "bytes \<Rightarrow> nat \<Rightarrow> nat \<times> bool" where
  "skip_name resp pos =
     (if pos < length resp \<and> resp ! pos \<noteq> 0 then
        if resp ! pos AND 0xC0 = 0xC0 then (pos + 2, True)
        else skip_name resp (pos + 1 + unat (resp ! pos))
      else (pos, False))"
  by pat_completeness auto
termination
  by (relation "measure (\<lambda>(resp, pos). length resp - pos)") auto

fun skip_questions :: "bytes \<Rightarrow> nat \<Rightarrow> nat \<Rightarrow> nat option" where
  "skip_questions resp 0 pos = Some pos"
| "skip_questions resp (Suc n) pos =
     (let (pos, _) = skip_name resp pos in
      case rd resp pos of
        None \<Rightarrow> None
      | Some b \<Rightarrow> skip_questions resp n ((if b = 0 then pos + 1 else pos) + 4))"

definition rd16 :: "bytes \<Rightarrow> nat \<Rightarrow> u16 option" where
  "rd16 resp pos = do { a \<leftarrow> rd resp pos; b \<leftarrow> rd resp (pos + 1); Some (push_bit 8 (ucast a) OR ucast b) }"

definition rd32 :: "bytes \<Rightarrow> nat \<Rightarrow> u32 option" where
  "rd32 resp pos = do { a \<leftarrow> rd resp pos; b \<leftarrow> rd resp (pos + 1); c \<leftarrow> rd resp (pos + 2); d \<leftarrow> rd resp (pos + 3);
     Some (push_bit 24 (ucast a) OR push_bit 16 (ucast b) OR push_bit 8 (ucast c) OR ucast d) }"

text \<open>The inner option is the result: \<open>None\<close> for -1, \<open>Some ip\<close> for 0 with \<^verbatim>\<open>*ip_out = ip\<close>.\<close>

fun parse_answers :: "bytes \<Rightarrow> nat \<Rightarrow> nat \<Rightarrow> u32 option option" where
  "parse_answers resp 0 pos = Some None"
| "parse_answers resp (Suc n) pos =
     (if pos < length resp then
        do { let (pos, ptr) = skip_name resp pos;
             pos \<leftarrow> (if ptr then Some pos
                    else map_option (\<lambda>b. if b = 0 then pos + 1 else pos) (rd resp pos));
             if pos + 10 > length resp then Some None
             else do {
               typ \<leftarrow> rd16 resp pos;
               rdlength \<leftarrow> rd16 resp (pos + 8);
               if typ = DNS_TYPE_A \<and> rdlength = 4
               then map_option Some (rd32 resp (pos + 10))
               else parse_answers resp n (pos + 10 + unat rdlength)
             } }
      else Some None)"

definition dns_parse_response :: "bytes \<Rightarrow> u32 option option" where
  "dns_parse_response resp =
     (if length resp < DNS_HEADER_SIZE then Some None
      else
        (let flags = dns_ntohs (load16 (resp ! 2) (resp ! 3)) in
         if flags AND DNS_FLAG_QR = 0 then Some None
         else if flags AND DNS_RCODE_MASK \<noteq> 0 then Some None
         else
           (let qdcount = dns_ntohs (load16 (resp ! 4) (resp ! 5));
                ancount = dns_ntohs (load16 (resp ! 6) (resp ! 7))
            in if ancount = 0 then Some None
               else case skip_questions resp (unat qdcount) DNS_HEADER_SIZE of
                      None \<Rightarrow> None
                    | Some pos \<Rightarrow> parse_answers resp (unat ancount) pos)))"

section \<open>The cache\<close>

text \<open>\<open>at xs j\<close> is \<^verbatim>\<open>xs[j]\<close> of a zero-terminated array.\<close>

definition at :: "bytes \<Rightarrow> nat \<Rightarrow> u8" where
  "at xs j = (if j < length xs then xs ! j else 0)"

function name_match :: "bytes \<Rightarrow> bytes \<Rightarrow> nat \<Rightarrow> bool" where
  "name_match name entry j =
     (if at name j \<noteq> 0 \<or> at entry j \<noteq> 0 then
        if at name j \<noteq> at entry j then False else name_match name entry (j + 1)
      else True)"
  by pat_completeness auto
termination
  by (relation "measure (\<lambda>(name, entry, j). max (length name) (length entry) - j)") (auto simp: at_def split: if_splits)

definition dns_cache_lookup :: "bytes \<Rightarrow> dns \<Rightarrow> nat option" where
  "dns_cache_lookup name s =
     find (\<lambda>i. ce_valid (dns_cache s ! i) \<and> name_match name (ce_name (dns_cache s ! i)) 0) [0..<DNS_CACHE_SIZE]"

function cache_name_loop :: "bytes \<Rightarrow> nat \<Rightarrow> bytes \<Rightarrow> bytes" where
  "cache_name_loop name i buf =
     (if i < DNS_MAX_NAME_LEN - 1 \<and> at name i \<noteq> 0
      then cache_name_loop name (i + 1) (buf[i := at name i, i + 1 := 0])
      else buf)"
  by pat_completeness auto
termination
  by (relation "measure (\<lambda>(name, i, buf). DNS_MAX_NAME_LEN - i)") auto

definition dns_cache_add :: "bytes \<Rightarrow> u32 \<Rightarrow> u32 \<Rightarrow> dns \<Rightarrow> dns" where
  "dns_cache_add name ip ttl s =
     (let slot = (case find (\<lambda>i. \<not> ce_valid (dns_cache s ! i)) [0..<DNS_CACHE_SIZE] of None \<Rightarrow> 0 | Some i \<Rightarrow> i);
          e = dns_cache s ! slot
      in s\<lparr>dns_cache := (dns_cache s)[slot := e\<lparr>ce_valid := True, ce_ip := ip, ce_ttl := ttl, ce_timestamp := 0,
                                             ce_name := cache_name_loop name 0 (ce_name e)\<rparr>]\<rparr>)"

section \<open>Public functions\<close>

definition dns_resolve :: "bytes \<Rightarrow> dns \<Rightarrow> (int \<times> u32 option) \<times> dns" where
  "dns_resolve hostname s =
     (case dns_cache_lookup hostname s of
        Some i \<Rightarrow> ((0, Some (ce_ip (dns_cache s ! i))), s)
      | None \<Rightarrow> ((- 1, None), snd (dns_build_query hostname DNS_TYPE_A 512 s)))"

definition dns_set_server :: "int \<Rightarrow> u32 \<Rightarrow> dns \<Rightarrow> int \<times> dns" where
  "dns_set_server index ip s =
     (if index < 0 \<or> index \<ge> 4 then (- 1, s)
      else (0, s\<lparr>dns_servers := (dns_servers s)[nat index := ip],
                 num_dns_servers := (if index \<ge> num_dns_servers s then index + 1 else num_dns_servers s)\<rparr>))"

definition dns_init :: "dns \<Rightarrow> dns" where
  "dns_init s = s\<lparr>dns_cache := map (ce_valid_update (\<lambda>_. False)) (dns_cache s)\<rparr>"

declare dns_encode_loop.simps [simp del] skip_name.simps [simp del] name_match.simps [simp del]
  cache_name_loop.simps [simp del]

section \<open>Names as lists of labels\<close>

fun join_dots :: "bytes list \<Rightarrow> bytes" where
  "join_dots [] = []"
| "join_dots [l] = l"
| "join_dots (l # m # ls) = l @ DOT # join_dots (m # ls)"

definition enc_label :: "bytes \<Rightarrow> bytes" where
  "enc_label l = of_nat (length l) # l"

definition enc_labels :: "bytes list \<Rightarrow> bytes" where
  "enc_labels ls = concat (map enc_label ls) @ [0]"

text \<open>The labels the DNS allows: 1 to 63 bytes, none of them a dot.\<close>

definition valid_label :: "bytes \<Rightarrow> bool" where
  "valid_label l \<longleftrightarrow> l \<noteq> [] \<and> length l \<le> 63 \<and> DOT \<notin> set l"

lemma length_enc_label [simp]: "length (enc_label l) = length l + 1"
  by (simp add: enc_label_def)

lemma length_enc_labels: "ls \<noteq> [] \<Longrightarrow> length (enc_labels ls) = length (join_dots ls) + 2"
  by (induction ls rule: join_dots.induct) (auto simp: enc_labels_def)

lemma encode_scan:
  assumes "e \<le> length name" and "\<And>i. len \<le> i \<Longrightarrow> i < e \<Longrightarrow> name ! i \<noteq> DOT" and "len \<le> e"
  shows "dns_encode_loop name bl len st out = dns_encode_loop name bl e st out"
  using assms
proof (induction "e - len" arbitrary: len)
  case (Suc k)
  then have "len < e" "len < length name" "name ! len \<noteq> DOT" by auto
  then have "dns_encode_loop name bl len st out = dns_encode_loop name bl (len + 1) st out"
    by (subst dns_encode_loop.simps) simp
  then show ?case using Suc.hyps(1) [of "len + 1"] Suc.hyps(2) Suc.prems \<open>len < e\<close> by auto
qed simp

text \<open>The end of \<^verbatim>\<open>dns_encode_name\<close>, after the loop.\<close>

definition encode_last :: "bytes \<Rightarrow> nat \<Rightarrow> (nat \<times> bytes) option \<Rightarrow> bytes option" where
  "encode_last name buf_len r =
     (case r of None \<Rightarrow> None
      | Some (label_start, out) \<Rightarrow>
          let len = length name in
          if len > label_start then
            if length out + 1 + (len - label_start) \<ge> buf_len then None
            else Some (out @ [of_nat (len - label_start)] @ slice name label_start len @ [0])
          else Some (out @ [0]))"

lemma encode_labels:
  assumes "ls \<noteq> []" and "\<forall>l \<in> set ls. l \<noteq> [] \<and> DOT \<notin> set l"
    and "name = p @ join_dots ls" and "length out + length (concat (map enc_label ls)) < bl"
  shows "encode_last name bl (dns_encode_loop name bl (length p) (length p) out) = Some (out @ enc_labels ls)"
  using assms
proof (induction ls arbitrary: p out rule: join_dots.induct)
  case (2 l)
  have "name ! i \<noteq> DOT" if "length p \<le> i" "i < length name" for i
    using 2 that by (auto simp: nth_append in_set_conv_nth)
  then have "dns_encode_loop name bl (length p) (length p) out = dns_encode_loop name bl (length name) (length p) out"
    using 2 by (intro encode_scan) auto
  also have "\<dots> = Some (length p, out)" by (subst dns_encode_loop.simps) simp
  finally show ?case using 2 by (auto simp: encode_last_def slice_def enc_labels_def enc_label_def)
next
  case (3 l m ls)
  let ?e = "length p + length l" and ?out = "out @ enc_label l"
  have nm: "name = (p @ l @ [DOT]) @ join_dots (m # ls)" using 3 by simp
  have e: "?e < length name" "name ! ?e = DOT" "slice name (length p) ?e = l"
    using nm by (auto simp: nth_append slice_def)
  have "name ! i \<noteq> DOT" if "length p \<le> i" "i < ?e" for i
    using 3(3) nm that by (auto simp: nth_append in_set_conv_nth)
  then have "dns_encode_loop name bl (length p) (length p) out = dns_encode_loop name bl ?e (length p) out"
    using e by (intro encode_scan) auto
  also have "\<dots> = dns_encode_loop name bl (?e + 1) (?e + 1) ?out"
    using e 3(5) by (subst dns_encode_loop.simps) (simp add: enc_label_def)
  finally have step: "dns_encode_loop name bl (length p) (length p) out = dns_encode_loop name bl (?e + 1) (?e + 1) ?out" .
  have "encode_last name bl (dns_encode_loop name bl (length (p @ l @ [DOT])) (length (p @ l @ [DOT])) ?out)
      = Some (?out @ enc_labels (m # ls))"
    by (rule 3(1) [OF _ _ nm]) (use 3(3,5) in auto)
  then show ?case unfolding step by (simp add: enc_labels_def)
qed simp

lemma dns_encode_name_labels:
  assumes "ls \<noteq> []" and "\<forall>l \<in> set ls. l \<noteq> [] \<and> DOT \<notin> set l" and "length (join_dots ls) + 1 < bl"
  shows "dns_encode_name (join_dots ls) bl = Some (enc_labels ls)"
proof -
  have "length (concat (map enc_label ls)) < bl"
    using assms(3) length_enc_labels [OF assms(1)] by (simp add: enc_labels_def)
  then show ?thesis
    using encode_labels [OF assms(1,2), of _ "[]" "[]" bl]
    by (simp add: dns_encode_name_def encode_last_def)
qed

section \<open>Decoding\<close>

lemma decode_label_eq:
  assumes "offset + n \<le> length resp" and "length name + n \<le> room"
  shows "decode_label resp room n offset name = (offset + n, name @ take n (drop offset resp))"
  using assms
proof (induction n arbitrary: offset name)
  case (Suc n)
  then have "take (Suc n) (drop offset resp) = resp ! offset # take n (drop (offset + 1) resp)"
    by (metis Cons_nth_drop_Suc Suc_eq_plus1 add_Suc_right le_add1 less_eq_Suc_le order.strict_trans1 take_Suc_Cons)
  then show ?case using Suc by simp
qed simp

lemma label_length_byte:
  assumes "valid_label l"
  shows "unat (of_nat (length l) :: u8) = length l" "of_nat (length l) \<noteq> (0 :: u8)"
    "of_nat (length l) AND 0xC0 \<noteq> (0xC0 :: u8)"
proof -
  have l: "0 < length l" "length l \<le> 63" using assms by (auto simp: valid_label_def)
  show u: "unat (of_nat (length l) :: u8) = length l" using l by (intro unat_of_nat_small) simp
  then show "of_nat (length l) \<noteq> (0 :: u8)" using l by (metis unat_0 less_irrefl)
  have "of_nat (length l) AND (0xC0 :: u8) \<le> of_nat (length l)" by (rule word_and_le2)
  moreover have "of_nat (length l) < (0xC0 :: u8)" using u l by (simp add: word_less_nat_alt)
  ultimately show "of_nat (length l) AND 0xC0 \<noteq> (0xC0 :: u8)" by (metis leD)
qed

lemma decode_labels:
  assumes "\<forall>l \<in> set ls. valid_label l"
    and "resp = pre @ enc_labels ls @ post" and "length nm + length (join_dots ls) + 1 \<le> room"
  shows "dns_decode_loop resp room (length pre) nm rl False =
    Some (int (rl + length (enc_labels ls)),
          if ls = [] then nm else if nm = [] then join_dots ls else nm @ DOT # join_dots ls)"
  using assms
proof (induction ls arbitrary: pre nm rl rule: join_dots.induct)
  case 1
  then show ?case by (subst dns_decode_loop.simps) (simp add: enc_labels_def nth_append)
next
  case (2 l)
  let ?nm = "if nm = [] then [] else nm @ [DOT]"
  note b = label_length_byte [of l]
  have v: "valid_label l" and ln: "l \<noteq> []" using 2 by (auto simp: valid_label_def)
  have r: "length pre < length resp" "resp ! length pre = of_nat (length l)"
    "take (length l) (drop (length pre + 1) resp) = l" "length pre + 1 + length l < length resp"
    "resp ! (length pre + 1 + length l) = 0"
    using 2(2) by (auto simp: enc_labels_def enc_label_def nth_append nth_Cons')
  have dl: "decode_label resp room (length l) (length pre + 1) ?nm = (length pre + 1 + length l, ?nm @ l)"
    using 2(3) r by (subst decode_label_eq) auto
  have "dns_decode_loop resp room (length pre) nm rl False =
      dns_decode_loop resp room (length pre + 1 + length l) (?nm @ l) (rl + 1 + length l) False"
    using r b [OF v] dl 2(3) by (subst dns_decode_loop.simps) (auto simp: Let_def)
  also have "\<dots> = Some (int (rl + 2 + length l), ?nm @ l)"
    using r by (subst dns_decode_loop.simps) simp
  finally show ?case by (simp add: enc_labels_def)
next
  case (3 l m ls)
  let ?nm = "if nm = [] then [] else nm @ [DOT]"
  let ?pre = "pre @ enc_label l"
  note b = label_length_byte [of l]
  have v: "valid_label l" and ln: "l \<noteq> []" using 3(2) by (auto simp: valid_label_def)
  have resp: "resp = ?pre @ enc_labels (m # ls) @ post" using 3(3) by (simp add: enc_labels_def)
  have r: "length pre < length resp" "resp ! length pre = of_nat (length l)"
    "take (length l) (drop (length pre + 1) resp) = l" "length pre + 1 + length l \<le> length resp"
    using resp by (auto simp: enc_label_def nth_append nth_Cons')
  have dl: "decode_label resp room (length l) (length pre + 1) ?nm = (length pre + 1 + length l, ?nm @ l)"
    using 3(4) r by (subst decode_label_eq) auto
  have "dns_decode_loop resp room (length pre) nm rl False =
      dns_decode_loop resp room (length ?pre) (?nm @ l) (rl + 1 + length l) False"
    using r b [OF v] dl 3(4) by (subst dns_decode_loop.simps) (auto simp: Let_def)
  also have "\<dots> = Some (int (rl + 1 + length l + length (enc_labels (m # ls))), (?nm @ l) @ DOT # join_dots (m # ls))"
    using 3(1) [of ?pre "?nm @ l" "rl + 1 + length l"] 3(2,4) resp ln by (auto split: if_splits)
  finally show ?case by (simp add: enc_labels_def)
qed

section \<open>The cache as a map\<close>

lemma at_nonzero: "0 \<notin> set name \<Longrightarrow> j < length name \<Longrightarrow> at name j \<noteq> 0"
  by (metis at_def nth_mem)

lemma name_match_iff:
  assumes "0 \<notin> set name" and "length name < length buf" and "buf ! length name = 0"
    and "j \<le> length name"
  shows "name_match name buf j \<longleftrightarrow> (\<forall>i. j \<le> i \<and> i < length name \<longrightarrow> name ! i = buf ! i)"
  using assms(4)
proof (induction "length name - j" arbitrary: j)
  case 0
  then have "j = length name" by simp
  then show ?case using assms(2,3) by (subst name_match.simps) (auto simp: at_def)
next
  case (Suc k)
  then have j: "j < length name" by simp
  have nz: "at name j \<noteq> 0" using at_nonzero [OF assms(1) j] .
  have "name_match name buf j \<longleftrightarrow> name ! j = buf ! j \<and> name_match name buf (j + 1)"
    using nz j assms(2) by (subst name_match.simps) (auto simp: at_def)
  also have "\<dots> \<longleftrightarrow> name ! j = buf ! j \<and> (\<forall>i. j + 1 \<le> i \<and> i < length name \<longrightarrow> name ! i = buf ! i)"
    using Suc j by simp
  also have "\<dots> \<longleftrightarrow> (\<forall>i. j \<le> i \<and> i < length name \<longrightarrow> name ! i = buf ! i)"
    using j by (auto simp: Suc_le_eq dest: le_imp_less_or_eq)
  finally show ?case .
qed

lemma cache_name_loop_eq:
  assumes "0 \<notin> set name" and "length name < DNS_MAX_NAME_LEN" and "length buf = DNS_MAX_NAME_LEN"
    and "k \<le> length name"
  shows "length (cache_name_loop name k buf) = DNS_MAX_NAME_LEN"
    and "i < k \<Longrightarrow> cache_name_loop name k buf ! i = buf ! i"
    and "k \<le> i \<Longrightarrow> i < length name \<Longrightarrow> cache_name_loop name k buf ! i = name ! i"
    and "k < length name \<Longrightarrow> cache_name_loop name k buf ! length name = 0"
  using assms(3,4)
proof (induction "length name - k" arbitrary: k buf i)
  case 0
  { case 1 then show ?case using 0 assms by (subst cache_name_loop.simps) (simp add: at_def) }
  { case 2 then show ?case using 0 assms by (subst cache_name_loop.simps) (simp add: at_def) }
  { case 3 then show ?case using 0 by simp }
  { case 4 then show ?case using 0 by simp }
next
  case (Suc n)
  have k: "k < length name" using Suc.hyps(5) by simp
  have nz: "at name k = name ! k" "at name k \<noteq> 0" using at_nonzero [OF assms(1) k] k by (auto simp: at_def)
  have step: "cache_name_loop name k b = cache_name_loop name (k + 1) (b[k := name ! k, k + 1 := 0])" for b
  proof -
    have "k < DNS_MAX_NAME_LEN - 1" using k assms(2) by linarith
    then show ?thesis using nz by (subst cache_name_loop.simps) simp
  qed
  have n: "n = length name - (k + 1)" using Suc.hyps(5) by simp
  { case 1 then show ?case unfolding step using Suc.hyps(1) [OF n] k by simp }
  { case 2 then show ?case unfolding step using Suc.hyps(2) [OF n, of i] k by simp }
  { case 3
    show ?case
    proof (cases "i = k")
      case True
      then show ?thesis unfolding step using Suc.hyps(2) [OF n, of i] k 3 assms(2) by simp
    next
      case False
      then show ?thesis unfolding step using Suc.hyps(3) [OF n, of i] k 3 by simp
    qed }
  { case 4
    show ?case
    proof (cases "k + 1 < length name")
      case True
      then show ?thesis unfolding step using Suc.hyps(4) [OF n] 4 by simp
    next
      case False
      then have e: "k + 1 = length name" using k by simp
      have "cache_name_loop name (k + 1) b = b" for b
        using e by (subst cache_name_loop.simps) (simp add: at_def)
      then show ?thesis unfolding step using 4 e assms(2) by simp
    qed }
qed

definition cache_ok :: "dns \<Rightarrow> bool" where
  "cache_ok s \<longleftrightarrow> length (dns_cache s) = DNS_CACHE_SIZE \<and> (\<forall>e \<in> set (dns_cache s). length (ce_name e) = DNS_MAX_NAME_LEN)"

lemma cache_add_match:
  assumes "0 \<notin> set name" and "name \<noteq> []" and "length name < DNS_MAX_NAME_LEN" and "length buf = DNS_MAX_NAME_LEN"
  shows "name_match name (cache_name_loop name 0 buf) 0"
  using assms cache_name_loop_eq [OF assms(1,3,4), of 0]
  by (subst name_match_iff) auto

section \<open>Properties\<close>

text \<open>C27. Encoding a host name and decoding the result gives the name back: for every name made of one or more labels
  of 1 to 63 bytes, with a buffer that is large enough, \<^verbatim>\<open>dns_encode_name\<close> succeeds, and \<^verbatim>\<open>dns_decode_name\<close> ends,
  returns the name and consumes exactly the encoded bytes, wherever they stand in a packet.\<close>

theorem dns_name_roundtrip:
  assumes "ls \<noteq> []" and "\<forall>l \<in> set ls. valid_label l" and "name = join_dots ls"
    and "length name + 1 < buf_len" and "length name + 2 \<le> name_len"
  shows "\<exists>enc. dns_encode_name name buf_len = Some enc \<and> length enc \<le> buf_len
    \<and> dns_decode_name (pre @ enc @ post) (length pre) name_len = Some (int (length enc), name)"
proof -
  have "\<forall>l \<in> set ls. l \<noteq> [] \<and> DOT \<notin> set l" using assms(2) by (auto simp: valid_label_def)
  then have e: "dns_encode_name name buf_len = Some (enc_labels ls)"
    using assms dns_encode_name_labels by blast
  have "dns_decode_name (pre @ enc_labels ls @ post) (length pre) name_len = Some (int (length (enc_labels ls)), name)"
    using decode_labels [OF assms(2), of "pre @ enc_labels ls @ post" pre post "[]" "name_len - 1" 0] assms
    by (simp add: dns_decode_name_def)
  then show ?thesis using e length_enc_labels [OF assms(1)] assms(3,4) by auto
qed

theorem dns_name_roundtrip_witness:
  "\<exists>enc. dns_encode_name [97, 46, 98, 99] 64 = Some enc
     \<and> dns_decode_name (enc @ [1, 2]) 0 32 = Some (int (length enc), [97, 46, 98, 99])"
  using dns_name_roundtrip [of "[[97], [98, 99]]" "[97, 46, 98, 99]" 64 32 "[]" "[1, 2]"]
  by (auto simp: valid_label_def)

text \<open>The query builder writes \<open>length name + 18\<close> bytes for every name it accepts. Names up to the DNS limit fit,
  but the bound that \<^verbatim>\<open>dns_encode_name\<close> gets leaves no room for the four bytes of type and class, so a name
  just below the buffer size is accepted and the packet is written past the end of the buffer.\<close>

theorem dns_build_query_overruns:
  assumes "ls \<noteq> []" and "\<forall>l \<in> set ls. l \<noteq> [] \<and> DOT \<notin> set l" and "name = join_dots ls"
    and "DNS_HEADER_SIZE + DNS_MAX_NAME_LEN + 4 \<le> buf_len" and "length name + 13 < buf_len"
  shows "\<exists>pkt. fst (dns_build_query name typ buf_len s) = Some pkt \<and> length pkt = length name + 18
    \<and> (length name \<le> 253 \<longrightarrow> length pkt \<le> buf_len) \<and> (buf_len < length name + 18 \<longrightarrow> buf_len < length pkt)"
proof -
  have "dns_encode_name name (buf_len - DNS_HEADER_SIZE) = Some (enc_labels ls)"
    unfolding assms(3) using assms by (intro dns_encode_name_labels) (auto simp: DNS_HEADER_SIZE_def)
  then show ?thesis
    using assms(3,4) length_enc_labels [OF assms(1)]
    by (auto simp: dns_build_query_def Let_def store16_def DNS_HEADER_SIZE_def DNS_MAX_NAME_LEN_def)
qed

definition dns_boot :: dns where
  "dns_boot = \<lparr>dns_cache = replicate DNS_CACHE_SIZE \<lparr>ce_name = replicate DNS_MAX_NAME_LEN 0, ce_ip = 0, ce_ttl = 0,
     ce_timestamp = 0, ce_valid = False\<rparr>, dns_servers = [0x08080808, 0x08080404, 0, 0], num_dns_servers = 2,
     dns_query_id = 1\<rparr>"

theorem dns_build_query_overruns_witness:
  "\<exists>name pkt. length name = 498 \<and> fst (dns_build_query name DNS_TYPE_A 512 dns_boot) = Some pkt \<and> 512 < length pkt"
proof -
  define n where "n = replicate 498 (97 :: u8)"
  have l: "length n = 498" "n \<noteq> []" "DOT \<notin> set n" by (auto simp only: n_def length_replicate set_replicate_conv_if) auto
  have "\<exists>pkt. fst (dns_build_query n DNS_TYPE_A 512 dns_boot) = Some pkt \<and> length pkt = length n + 18
    \<and> (length n \<le> 253 \<longrightarrow> length pkt \<le> 512) \<and> (512 < length n + 18 \<longrightarrow> 512 < length pkt)"
    by (rule dns_build_query_overruns [of "[n]"])
      (use l in \<open>simp_all add: DNS_HEADER_SIZE_def DNS_MAX_NAME_LEN_def\<close>)
  then obtain pkt where "fst (dns_build_query n DNS_TYPE_A 512 dns_boot) = Some pkt" "512 < length pkt"
    using l(1) by auto
  with l(1) show ?thesis by blast
qed

text \<open>C28. A compression pointer that points at itself sends \<^verbatim>\<open>dns_decode_name\<close> into an endless loop: nothing bounds the
  number of jumps.\<close>

theorem dns_decode_self_pointer:
  assumes "k + 1 < length resp" and "resp ! k AND 0xC0 = 0xC0"
    and "unat (push_bit 8 (ucast (resp ! k AND 0x3F)) OR ucast (resp ! (k + 1)) :: u16) = k"
  shows "dns_decode_name resp k name_len = None"
proof -
  have nz: "resp ! k \<noteq> 0" using assms(2) by auto
  have "\<not> (r = resp \<and> offset = k)" if run: "dns_decode_loop r room offset name rl jumped = Some y"
    for r room offset name rl jumped y
  proof (rule dns_decode_loop.raw_induct [where P = "\<lambda>r room offset name rl jumped y. \<not> (r = resp \<and> offset = k)", OF _ run])
    fix f :: "bytes \<Rightarrow> nat \<Rightarrow> nat \<Rightarrow> bytes \<Rightarrow> nat \<Rightarrow> bool \<Rightarrow> (int \<times> bytes) option"
    fix r room offset name rl jumped y
    assume IH: "\<And>r room offset name rl jumped y. f r room offset name rl jumped = Some y \<Longrightarrow> \<not> (r = resp \<and> offset = k)"
    assume body: "(if offset < length r then
        (let len = r ! offset in
         if len = 0 then Some (int (if jumped then rl else rl + 1), name)
         else if len AND 0xC0 = 0xC0 then
           if offset + 1 \<ge> length r then Some (- 1, name)
           else f r room (unat (push_bit 8 (ucast (len AND 0x3F)) OR ucast (r ! (offset + 1)) :: u16)) name
               (if jumped then rl else rl + 2) True
         else
           (let rl = (if jumped then rl else rl + 1 + unat len);
                name = (if length name > 0 \<and> length name < room then name @ [DOT] else name);
                (offset, name) = decode_label r room (unat len) (offset + 1) name
            in f r room offset name rl jumped))
      else Some (int rl, name)) = Some y"
    show "\<not> (r = resp \<and> offset = k)"
    proof
      assume e: "r = resp \<and> offset = k"
      then have "f resp room k name (if jumped then rl else rl + 2) True = Some y"
        using body assms nz by (simp add: Let_def)
      then show False using IH by blast
    qed
  qed
  then show ?thesis unfolding dns_decode_name_def by (metis not_None_eq)
qed

theorem dns_decode_self_pointer_witness: "dns_decode_name [0xC0, 0] 0 64 = None"
  using dns_decode_self_pointer [of 0 "[0xC0, 0]" 64] by simp

text \<open>A name that was not cached is found after \<^verbatim>\<open>dns_cache_add\<close>, and \<^verbatim>\<open>dns_resolve\<close> then returns the address that was
  added; the name must be non-empty and shorter than the name field.\<close>

theorem dns_cache_add_resolve:
  assumes ok: "cache_ok s" and nm: "0 \<notin> set name" "name \<noteq> []" "length name < DNS_MAX_NAME_LEN"
    and new: "dns_cache_lookup name s = None"
  shows "fst (dns_resolve name (dns_cache_add name ip ttl s)) = (0, Some ip) \<and> cache_ok (dns_cache_add name ip ttl s)"
proof -
  define slot where "slot = (case find (\<lambda>i. \<not> ce_valid (dns_cache s ! i)) [0..<DNS_CACHE_SIZE] of None \<Rightarrow> 0 | Some i \<Rightarrow> i)"
  define e where "e = (dns_cache s ! slot)\<lparr>ce_valid := True, ce_ip := ip, ce_ttl := ttl, ce_timestamp := 0,
      ce_name := cache_name_loop name 0 (ce_name (dns_cache s ! slot))\<rparr>"
  have s': "dns_cache_add name ip ttl s = s\<lparr>dns_cache := (dns_cache s)[slot := e]\<rparr>"
    by (simp add: dns_cache_add_def Let_def slot_def e_def)
  have sl: "slot < DNS_CACHE_SIZE"
    by (auto simp: slot_def find_upt_Some DNS_CACHE_SIZE_def split: option.split)
  have len: "length (dns_cache s) = DNS_CACHE_SIZE" "length (ce_name (dns_cache s ! slot)) = DNS_MAX_NAME_LEN"
    using ok sl by (auto simp: cache_ok_def)
  have m: "name_match name (ce_name e) 0" using cache_add_match [OF nm len(2)] by (simp add: e_def)
  have no: "\<not> (ce_valid (dns_cache s ! i) \<and> name_match name (ce_name (dns_cache s ! i)) 0)" if "i < DNS_CACHE_SIZE" for i
    using new that unfolding dns_cache_lookup_def find_upt_None by blast
  have "dns_cache_lookup name (dns_cache_add name ip ttl s) = Some slot"
    unfolding dns_cache_lookup_def s' find_upt_Some
    using sl len(1) m no by (auto simp: e_def nth_list_update)
  then have "fst (dns_resolve name (dns_cache_add name ip ttl s)) = (0, Some ip)"
    using sl len(1) by (simp add: dns_resolve_def s' e_def)
  moreover have "length (ce_name e) = DNS_MAX_NAME_LEN"
    using cache_name_loop_eq(1) [OF nm(1,3) len(2), of 0] by (simp add: e_def)
  then have "cache_ok (dns_cache_add name ip ttl s)"
    using ok set_update_subset_insert [of "dns_cache s" slot e] by (auto simp: cache_ok_def s')
  ultimately show ?thesis by simp
qed

theorem dns_cache_add_resolve_witness:
  "fst (dns_resolve [97, 46, 98] (dns_cache_add [97, 46, 98] 0x7F000001 60 dns_boot)) = (0, Some 0x7F000001)"
proof -
  have "cache_ok dns_boot" by (simp add: cache_ok_def dns_boot_def)
  moreover have "dns_cache_lookup [97, 46, 98] dns_boot = None"
    unfolding dns_cache_lookup_def find_upt_None by (simp add: dns_boot_def)
  ultimately show ?thesis
    using dns_cache_add_resolve [of dns_boot "[97, 46, 98]" "0x7F000001" 60] by (simp add: DNS_MAX_NAME_LEN_def)
qed

end
