(* ===== verification/Inet.thy ===== *)
theory Inet
  imports Prelude
begin

text \<open>
  Byte order and the Internet checksum: \<^verbatim>\<open>htons\<close> and its relatives and \<^verbatim>\<open>ip_checksum\<close> of
  \<^verbatim>\<open>kernel/net/socket.c\<close>, \<^verbatim>\<open>checksum\<close> of \<^verbatim>\<open>kernel/net/tcp_ip.c\<close>. The targets are little-endian, so a 16-bit
  load of two bytes puts the first one low. Sums are 32-bit and wrap as the code's do.
\<close>

section \<open>Byte order\<close>

definition htons :: "u16 \<Rightarrow> u16" where
  "htons hostshort = (drop_bit 8 hostshort AND 0xFF) OR push_bit 8 (hostshort AND 0xFF)"

definition ntohs :: "u16 \<Rightarrow> u16" where "ntohs netshort = htons netshort"

definition htonl :: "u32 \<Rightarrow> u32" where
  "htonl hostlong =
     (drop_bit 24 hostlong AND 0xFF) OR (drop_bit 8 hostlong AND 0xFF00)
     OR push_bit 8 (hostlong AND 0xFF00) OR push_bit 24 (hostlong AND 0xFF)"

definition ntohl :: "u32 \<Rightarrow> u32" where "ntohl netlong = htonl netlong"

text \<open>Fields of packed structures in memory.\<close>

definition le16 :: "u16 \<Rightarrow> bytes" where "le16 w = [ucast w, ucast (drop_bit 8 w)]"

definition le32 :: "u32 \<Rightarrow> bytes" where
  "le32 w = [ucast w, ucast (drop_bit 8 w), ucast (drop_bit 16 w), ucast (drop_bit 24 w)]"

definition ld16 :: "u8 \<Rightarrow> u8 \<Rightarrow> u16" where "ld16 a b = ucast a OR push_bit 8 (ucast b)"

definition ld32 :: "u8 \<Rightarrow> u8 \<Rightarrow> u8 \<Rightarrow> u8 \<Rightarrow> u32" where
  "ld32 a b c d = ucast a OR push_bit 8 (ucast b) OR push_bit 16 (ucast c) OR push_bit 24 (ucast d)"

lemma ones_bits: "(0xFF :: 'a::len word) = mask 8" "(0xFF00 :: 'a word) = push_bit 8 (mask 8)"
  by (simp_all add: mask_eq_exp_minus_1 push_bit_eq_mult)

lemma bit_htons: "bit (htons w) n \<longleftrightarrow> (if n < 8 then bit w (n + 8) else n < 16 \<and> bit w (n - 8))"
  unfolding htons_def ones_bits by (auto simp: bit_simps add.commute dest: bit_imp_le_length)

lemma htons_htons [simp]: "htons (htons w) = w"
  by (rule bit_word_eqI) (auto simp: bit_htons)

lemma bit_htonl:
  "bit (htonl w) n \<longleftrightarrow>
     (if n < 8 then bit w (n + 24) else if n < 16 then bit w (n + 8)
      else if n < 24 then bit w (n - 8) else n < 32 \<and> bit w (n - 24))"
proof -
  have "bit (htonl w) n \<longleftrightarrow> (bit w (24 + n) \<and> n < 8) \<or> (bit w (8 + n) \<and> 8 \<le> n \<and> n < 16)
     \<or> (16 \<le> n \<and> n < 24 \<and> bit w (n - 8)) \<or> (24 \<le> n \<and> n < 32 \<and> bit w (n - 24))"
    unfolding htonl_def bit_or_iff bit_and_iff bit_drop_bit_eq bit_push_bit_iff ones_bits comp_def bit_mask_iff
    by (cases "n < 32") (auto simp: bit_simps)
  then show ?thesis by (auto simp: add.commute)
qed

lemma htonl_htonl [simp]: "htonl (htonl w) = w"
proof (rule bit_word_eqI)
  fix n assume "n < LENGTH(32)"
  then consider "n < 8" | "8 \<le> n" "n < 16" | "16 \<le> n" "n < 24" | "24 \<le> n" "n < 32" by fastforce
  then show "bit (htonl (htonl w)) n \<longleftrightarrow> bit w n" by cases (auto simp: bit_htonl)
qed

lemma length_le [simp]: "length (le16 w) = 2" "length (le32 v) = 4"
  by (simp_all add: le16_def le32_def)

lemma ld16_le16: "ld16 (ucast w) (ucast (drop_bit 8 w)) = w"
  unfolding ld16_def by (rule bit_word_eqI) (auto simp: bit_simps not_less)

lemma ld32_le32:
  "ld32 (ucast w) (ucast (drop_bit 8 w)) (ucast (drop_bit 16 w)) (ucast (drop_bit 24 w)) = w"
proof (rule bit_word_eqI)
  fix n assume "n < LENGTH(32)"
  then consider "n < 8" | "8 \<le> n" "n < 16" | "16 \<le> n" "n < 24" | "24 \<le> n" "n < 32" by fastforce
  then show "bit (ld32 (ucast w) (ucast (drop_bit 8 w)) (ucast (drop_bit 16 w)) (ucast (drop_bit 24 w))) n \<longleftrightarrow> bit w n"
    unfolding ld32_def by cases (auto simp: bit_simps)
qed

section \<open>The checksum\<close>

text \<open>The loop over 16-bit words and the odd byte at the end.\<close>

fun sum16 :: "bytes \<Rightarrow> u32 \<Rightarrow> u32" where
  "sum16 (a # b # rest) sm = sum16 rest (sm + ucast (ld16 a b))"
| "sum16 [a] sm = sm + ucast a"
| "sum16 [] sm = sm"

lemma fold16_less:
  assumes "drop_bit 16 (sm :: u32) \<noteq> 0"
  shows "unat ((sm AND 0xFFFF) + drop_bit 16 sm) = unat sm mod 65536 + unat sm div 65536"
    and "unat ((sm AND 0xFFFF) + drop_bit 16 sm) < unat sm"
proof -
  have m: "(0xFFFF :: u32) = mask 16" by (simp add: mask_eq_exp_minus_1)
  have a: "unat (sm AND 0xFFFF) = unat sm mod 65536"
    unfolding m take_bit_eq_mask [symmetric] by (simp only: unsigned_take_bit_eq) (simp add: take_bit_eq_mod)
  have b: "unat (drop_bit 16 sm) = unat sm div 65536" by (simp add: unat_drop_bit)
  have "unat sm < 2 ^ LENGTH(32)" by (rule unsigned_less)
  then have s: "unat sm < 2 ^ 32" by simp
  have lt: "unat sm mod 65536 + unat sm div 65536 < 2 ^ 32"
  proof -
    have "unat sm mod 65536 < 65536" by simp
    moreover have "unat sm div 65536 < 65536" using s by (simp add: div_less_iff_less_mult)
    ultimately have "unat sm mod 65536 + unat sm div 65536 < 131072" by linarith
    then show ?thesis by simp
  qed
  show e: "unat ((sm AND 0xFFFF) + drop_bit 16 sm) = unat sm mod 65536 + unat sm div 65536"
    using lt a b by (subst unat_add_lem [THEN iffD1]) simp_all
  have "unat sm div 65536 \<noteq> 0" using assms b by (metis unat_eq_zero)
  then have "65536 * (unat sm div 65536) > unat sm div 65536" by simp
  moreover have "unat sm = 65536 * (unat sm div 65536) + unat sm mod 65536" by simp
  ultimately show "unat ((sm AND 0xFFFF) + drop_bit 16 sm) < unat sm" unfolding e by linarith
qed

function fold16 :: "u32 \<Rightarrow> u32" where
  "fold16 sm = (if drop_bit 16 sm \<noteq> 0 then fold16 ((sm AND 0xFFFF) + drop_bit 16 sm) else sm)"
  by pat_completeness auto
termination
  by (relation "measure unat") (auto dest: fold16_less(2))

declare fold16.simps [simp del]

definition checksum :: "bytes \<Rightarrow> u16" where
  "checksum data = ucast (NOT (fold16 (sum16 data 0)))"

definition ip_checksum :: "bytes \<Rightarrow> u16" where
  "ip_checksum data = ucast (NOT (fold16 (sum16 data 0)))"

text \<open>A checksum that starts from the sum of a pseudo header.\<close>

definition checksum_from :: "u32 \<Rightarrow> bytes \<Rightarrow> u16" where
  "checksum_from sm data = ucast (NOT (fold16 (sum16 data sm)))"

section \<open>Folding is reduction modulo 65535\<close>

lemma fold16_unat:
  "unat (fold16 sm) < 65536 \<and> unat (fold16 sm) mod 65535 = unat sm mod 65535
   \<and> (unat (fold16 sm) = 0 \<longleftrightarrow> unat sm = 0)"
proof (induction sm rule: fold16.induct)
  case (1 sm)
  show ?case
  proof (cases "drop_bit 16 sm = 0")
    case True
    then have "unat sm div 65536 = 0" using unat_drop_bit [of 16 sm] by simp
    then have "unat sm < 65536" by (simp add: div_eq_0_iff)
    moreover have "fold16 sm = sm" using True by (simp add: fold16.simps [of sm])
    ultimately show ?thesis by simp
  next
    case False
    let ?n = "(sm AND 0xFFFF) + drop_bit 16 sm" and ?u = "unat sm"
    have e: "fold16 sm = fold16 ?n" using False by (simp add: fold16.simps [of sm])
    have n: "unat ?n = ?u mod 65536 + ?u div 65536" by (rule fold16_less(1) [OF False])
    have d: "65536 * (?u div 65536) + ?u mod 65536 = ?u" by (rule mult_div_mod_eq)
    then have "?u = unat ?n + 65535 * (?u div 65536)" unfolding n by linarith
    then have m: "?u mod 65535 = unat ?n mod 65535" by (metis mod_mult_self2)
    have nz: "unat ?n = 0 \<longleftrightarrow> ?u = 0" unfolding n using d by auto
    have IH: "unat (fold16 ?n) < 65536" "unat (fold16 ?n) mod 65535 = unat ?n mod 65535"
      "unat (fold16 ?n) = 0 \<longleftrightarrow> unat ?n = 0" using 1 [OF False] by blast+
    show ?thesis unfolding e using IH(1) IH(2) [folded m] IH(3) [unfolded nz] by blast
  qed
qed

text \<open>The sum over the integers.\<close>

fun nsum :: "bytes \<Rightarrow> nat" where
  "nsum (a # b # rest) = unat a + 256 * unat b + nsum rest"
| "nsum [a] = unat a"
| "nsum [] = 0"

lemma unat_u8: "unat (b :: u8) < 256"
proof -
  have "unat b < 2 ^ LENGTH(8)" by (rule unsigned_less)
  then show ?thesis by simp
qed

lemma unat_ld16: "unat (ld16 a b) = unat a + 256 * unat b"
proof -
  have d: "ld16 a b = of_nat (unat a + 256 * unat b)"
  proof -
    have "ucast a AND push_bit 8 (ucast b :: u16) = 0"
      by (rule bit_word_eqI) (auto simp: bit_simps dest: bit_imp_le_length)
    then have "ld16 a b = ucast a + push_bit 8 (ucast b)" unfolding ld16_def by (simp add: disjunctive_add_eq_or)
    then show ?thesis by (simp add: push_bit_eq_mult mult.commute)
  qed
  show ?thesis unfolding d using unat_u8 [of a] unat_u8 [of b] by (intro unat_of_nat_small) simp
qed

lemma nsum_le: "nsum data \<le> 65535 * (length data + 1)"
proof (induction data rule: nsum.induct)
  case (1 a b rest)
  then show ?case using unat_u8 [of a] unat_u8 [of b] by simp
next
  case (2 a)
  then show ?case using unat_u8 [of a] by simp
qed simp

lemma unat_sum16: "unat sm + nsum data < 2 ^ 32 \<Longrightarrow> unat (sum16 data sm) = unat sm + nsum data"
proof (induction data sm rule: sum16.induct)
  case (1 a b rest sm)
  have u: "unat (ucast (ld16 a b) :: u32) = unat a + 256 * unat b"
    using unat_ld16 [of a b] unat_u8 [of a] unat_u8 [of b] by (simp add: unsigned_ucast_eq take_bit_eq_mod)
  have "unat (sm + ucast (ld16 a b)) = unat sm + (unat a + 256 * unat b)"
    using 1(2) u by (subst unat_add_lem [THEN iffD1]) simp_all
  then show ?case using 1 by simp
next
  case (2 a sm)
  have u: "unat (ucast a :: u32) = unat a" using unat_u8 [of a] by (simp add: unsigned_ucast_eq take_bit_eq_mod)
  then show ?case using 2 by (subst sum16.simps, subst unat_add_lem [THEN iffD1]) simp_all
qed simp

lemma nsum_append: "even (length xs) \<Longrightarrow> nsum (xs @ ys) = nsum xs + nsum ys"
  by (induction xs rule: nsum.induct) auto

lemma nsum_le16: "nsum (le16 c) = unat c"
  using unat_ld16 [of "ucast c" "ucast (drop_bit 8 c)"] by (simp add: le16_def ld16_le16)

lemma unat_not_low: "unat w < 65536 \<Longrightarrow> unat (ucast (NOT w) :: u16) = 65535 - unat (w :: u32)"
proof -
  assume w: "unat w < 65536"
  have "ucast (NOT w) = NOT (ucast w :: u16)" by (rule bit_word_eqI) (auto simp: bit_simps)
  moreover have "unat (ucast w :: u16) = unat w" using w by (simp add: unsigned_ucast_eq take_bit_eq_mod)
  moreover have "unat (NOT v) = 65535 - unat v" for v :: u16
  proof -
    have "NOT v = - 1 - v" by (simp add: not_eq_complement)
    moreover have "v \<le> - 1" by simp
    moreover have "unat (- 1 :: u16) = 65535" by (simp add: unsigned_minus_1_eq_mask mask_eq_exp_minus_1)
    ultimately show ?thesis by (simp only: unat_sub)
  qed
  ultimately show ?thesis by simp
qed

lemma all_ones: "g < 65536 \<Longrightarrow> g mod 65535 = 0 \<Longrightarrow> g \<noteq> 0 \<Longrightarrow> g = (65535 :: nat)"
  using dvd_imp_le [of 65535 g] by (simp add: mod_eq_0_iff_dvd)

text \<open>Inserting the computed checksum at the place of the zero field makes the sum a positive
  multiple of 65535, which folds to all ones.\<close>

lemma checksum_from_verifies:
  assumes ev: "even (length pre)" and small: "unat sm + nsum (pre @ [0, 0] @ post) + 65535 < 2 ^ 32"
  defines "c \<equiv> checksum_from sm (pre @ [0, 0] @ post)"
  shows "checksum_from sm (pre @ le16 c @ post) = 0"
proof -
  let ?S = "unat sm + nsum (pre @ [0, 0] @ post)" and ?S' = "unat sm + nsum (pre @ le16 c @ post)"
  let ?F = "unat (fold16 (sum16 (pre @ [0, 0] @ post) sm))"
  have S: "unat (sum16 (pre @ [0, 0] @ post) sm) = ?S" using small by (intro unat_sum16) linarith
  note F = fold16_unat [of "sum16 (pre @ [0, 0] @ post) sm", unfolded S]
  have c: "unat c = 65535 - ?F" unfolding c_def checksum_from_def using F by (intro unat_not_low) blast
  have "nsum (pre @ le16 c @ post) = nsum (pre @ [0, 0] @ post) + unat c"
    using ev nsum_append [of pre "[0, 0] @ post"] nsum_append [of pre "le16 c @ post"]
      nsum_append [of "le16 c" post] nsum_append [of "[0, 0]" post] by (simp add: nsum_le16)
  then have S': "?S' = ?S + (65535 - ?F)" using c by simp
  have F1: "?F \<le> 65535" using F by simp
  have U: "unat (sum16 (pre @ le16 c @ post) sm) = ?S'"
    using small S' by (intro unat_sum16) linarith
  note G = fold16_unat [of "sum16 (pre @ le16 c @ post) sm", unfolded U]
  have "?S' mod 65535 = (?F + (65535 - ?F)) mod 65535"
  proof -
    have "?S mod 65535 = ?F mod 65535" using F by simp
    from mod_add_cong [OF this refl] show ?thesis unfolding S' .
  qed
  then have "?S' mod 65535 = 0" using F1 by simp
  moreover have "?S' \<noteq> 0"
  proof
    assume "?S' = 0"
    then have "?S = 0" "?F = 65535" using S' F1 by auto
    then show False using F by simp
  qed
  ultimately have "unat (fold16 (sum16 (pre @ le16 c @ post) sm)) = 65535"
  proof -
    let ?g = "unat (fold16 (sum16 (pre @ le16 c @ post) sm))"
    have "?g < 65536" by (rule conjunct1 [OF G])
    moreover have "?g mod 65535 = ?S' mod 65535" by (rule conjunct1 [OF conjunct2 [OF G]])
    moreover have "?g = 0 \<longleftrightarrow> ?S' = 0" by (rule conjunct2 [OF conjunct2 [OF G]])
    ultimately show ?thesis using \<open>?S' mod 65535 = 0\<close> \<open>?S' \<noteq> 0\<close> all_ones [of ?g] by argo
  qed
  then have "unat (checksum_from sm (pre @ le16 c @ post)) = 0"
    unfolding checksum_from_def using unat_not_low by simp
  then show ?thesis by (rule unat_eq_zero [THEN iffD1])
qed

lemma nsum_packet: "length data \<le> 65535 \<Longrightarrow> nsum data \<le> 65535 * 65536"
proof -
  assume "length data \<le> 65535"
  then have "65535 * (length data + 1) \<le> 65535 * (65535 + 1)" by (intro mult_le_mono2 add_le_mono1)
  from nsum_le this have "nsum data \<le> 65535 * (65535 + 1)" by (rule order_trans)
  then show ?thesis by simp
qed

lemma checksum_filled:
  assumes "even (length pre)" and "length (pre @ [0, 0] @ post) \<le> 65535"
  shows "checksum (pre @ le16 (checksum (pre @ [0, 0] @ post)) @ post) = 0"
proof -
  have "unat (0 :: u32) + nsum (pre @ [0, 0] @ post) + 65535 < 2 ^ 32" using nsum_packet [OF assms(2)] by simp
  from checksum_from_verifies [OF assms(1) this] show ?thesis by (simp add: checksum_from_def checksum_def)
qed

section \<open>Properties\<close>

text \<open>A packet whose checksum field was filled in as the code does it (computed with the field zero, then stored)
  verifies: the checksum over the whole packet is 0, wherever the field stands on a 16-bit boundary, for
  packets up to 65535 bytes. The two copies of the routine in the source are the same function.\<close>

theorem checksum_verifies:
  assumes "even (length pre)" and "length (pre @ [0, 0] @ post) \<le> 65535"
  shows "checksum (pre @ le16 (checksum (pre @ [0, 0] @ post)) @ post) = 0
    \<and> ip_checksum (pre @ [0, 0] @ post) = checksum (pre @ [0, 0] @ post)"
  using checksum_filled [OF assms] by (simp add: checksum_def ip_checksum_def)

theorem checksum_verifies_witness: "checksum ([0x45, 0] @ le16 (checksum ([0x45, 0] @ [0, 0] @ [192, 168])) @ [192, 168]) = 0"
  using checksum_verifies [of "[0x45, 0]" "[192, 168]"] by simp

end
