(* ===== verification/Tcp_Ip.thy ===== *)
theory Tcp_Ip
  imports Inet Kmalloc
begin

text \<open>
  The network stack, \<^verbatim>\<open>kernel/net/tcp_ip.c\<close>: Ethernet demultiplexing, the ARP cache, IP and ICMP, the TCP
  connection table with its state machine, and UDP. Packets are built in heap blocks and receive and send buffers are
  heap blocks, both over the memory of \<^verbatim>\<open>Kmalloc\<close>; connections are named by their index in the table.
  Frames handed to a driver are appended to \<open>wire\<close>. \<^term>\<open>None\<close> is undefined behaviour: a read behind
  the received frame, a write through a \<^verbatim>\<open>NULL\<close> buffer, or a heap walk that does not end.
\<close>

section \<open>Constants and state\<close>

definition ETH_ALEN :: nat where "ETH_ALEN = 6"
definition ETH_HLEN :: nat where "ETH_HLEN = 14"
definition ETH_P_IP :: u16 where "ETH_P_IP = 0x0800"
definition ETH_P_ARP :: u16 where "ETH_P_ARP = 0x0806"
definition IP_PROTO_ICMP :: u8 where "IP_PROTO_ICMP = 1"
definition IP_PROTO_TCP :: u8 where "IP_PROTO_TCP = 6"
definition IP_PROTO_UDP :: u8 where "IP_PROTO_UDP = 17"
definition TCP_FIN :: u8 where "TCP_FIN = 0x01"
definition TCP_SYN :: u8 where "TCP_SYN = 0x02"
definition TCP_RST :: u8 where "TCP_RST = 0x04"
definition TCP_PSH :: u8 where "TCP_PSH = 0x08"
definition TCP_ACK :: u8 where "TCP_ACK = 0x10"
definition ARP_CACHE_SIZE :: nat where "ARP_CACHE_SIZE = 64"
definition MAX_INTERFACES :: nat where "MAX_INTERFACES = 4"
definition MAX_TCP_CONNECTIONS :: nat where "MAX_TCP_CONNECTIONS = 256"

datatype tcp_state = TCP_CLOSED | TCP_LISTEN | TCP_SYN_SENT | TCP_SYN_RECEIVED | TCP_ESTABLISHED
  | TCP_FIN_WAIT_1 | TCP_FIN_WAIT_2 | TCP_CLOSE_WAIT | TCP_CLOSING | TCP_LAST_ACK | TCP_TIME_WAIT

record arp_entry =
  ae_ip :: u32
  ae_mac :: bytes
  ae_timestamp :: u64
  ae_valid :: bool

record net_interface =
  if_name :: bytes
  if_mac :: bytes
  if_ip :: u32
  if_netmask :: u32
  if_gateway :: u32
  if_up :: bool
  rx_packets :: u64
  tx_packets :: u64
  rx_bytes :: u64
  tx_bytes :: u64
  if_send :: bool

record tcp_connection =
  local_ip :: u32
  local_port :: u16
  remote_ip :: u32
  remote_port :: u16
  c_state :: tcp_state
  c_seq :: u32
  c_ack :: u32
  recv_wnd :: u32
  send_wnd :: u32
  recv_buf :: ptr
  recv_len :: u64
  recv_capacity :: u64
  send_buf :: ptr
  send_len :: u64
  send_capacity :: u64
  in_use :: bool

record net =
  heap :: kheap
  interfaces :: "net_interface list"
  num_interfaces :: nat
  arp_cache :: "arp_entry list"
  conns :: "tcp_connection list"
  next_ephemeral_port :: u16
  tcp_isn_counter :: u32
  wire :: "(nat \<times> bytes) list"

definition upd_if :: "nat \<Rightarrow> (net_interface \<Rightarrow> net_interface) \<Rightarrow> net \<Rightarrow> net" where
  "upd_if i f s = s\<lparr>interfaces := (interfaces s)[i := f (interfaces s ! i)]\<rparr>"

definition upd_conn :: "nat \<Rightarrow> (tcp_connection \<Rightarrow> tcp_connection) \<Rightarrow> net \<Rightarrow> net" where
  "upd_conn i f s = s\<lparr>conns := (conns s)[i := f (conns s ! i)]\<rparr>"

text \<open>Storing bytes in memory, and reading a received frame.\<close>

fun poke :: "ptr \<Rightarrow> bytes \<Rightarrow> memory \<Rightarrow> memory" where
  "poke p [] m = m"
| "poke p (b # bs) m = poke (p + 1) bs (m(p := b))"

definition upd_mem :: "(memory \<Rightarrow> memory) \<Rightarrow> net \<Rightarrow> net" where
  "upd_mem f s = s\<lparr>heap := (heap s)\<lparr>mem := f (mem (heap s))\<rparr>\<rparr>"

definition fr8 :: "bytes \<Rightarrow> nat \<Rightarrow> u8 option" where
  "fr8 frame k = (if k < length frame then Some (frame ! k) else None)"

definition fr16 :: "bytes \<Rightarrow> nat \<Rightarrow> u16 option" where
  "fr16 frame k = do { a \<leftarrow> fr8 frame k; b \<leftarrow> fr8 frame (k + 1); Some (ld16 a b) }"

definition fr32 :: "bytes \<Rightarrow> nat \<Rightarrow> u32 option" where
  "fr32 frame k = do { a \<leftarrow> fr8 frame k; b \<leftarrow> fr8 frame (k + 1); c \<leftarrow> fr8 frame (k + 2); d \<leftarrow> fr8 frame (k + 3);
     Some (ld32 a b c d) }"

section \<open>Frames\<close>

definition eth_hdr :: "bytes \<Rightarrow> bytes \<Rightarrow> u16 \<Rightarrow> bytes" where
  "eth_hdr dest src typ = dest @ src @ le16 (htons typ)"

definition arp_hdr :: "u16 \<Rightarrow> bytes \<Rightarrow> u32 \<Rightarrow> bytes \<Rightarrow> u32 \<Rightarrow> bytes" where
  "arp_hdr opcode sender_mac sender_ip target_mac target_ip =
     le16 (htons 1) @ le16 (htons ETH_P_IP) @ [of_nat ETH_ALEN, 4] @ le16 (htons opcode)
     @ sender_mac @ le32 sender_ip @ target_mac @ le32 target_ip"

text \<open>The IP header, first with a zero checksum field and then with the checksum stored.\<close>

definition ip_hdr_pre :: "u16 \<Rightarrow> u16 \<Rightarrow> u16 \<Rightarrow> u8 \<Rightarrow> bytes" where
  "ip_hdr_pre total_len ident flags_frag proto =
     [0x45, 0] @ le16 (htons total_len) @ le16 (htons ident) @ le16 flags_frag @ [64, proto]"

definition ip_hdr :: "u16 \<Rightarrow> u16 \<Rightarrow> u16 \<Rightarrow> u8 \<Rightarrow> u32 \<Rightarrow> u32 \<Rightarrow> bytes" where
  "ip_hdr total_len ident flags_frag proto src dst =
     (let pre = ip_hdr_pre total_len ident flags_frag proto; post = le32 src @ le32 dst
      in pre @ le16 (checksum (pre @ [0, 0] @ post)) @ post)"

definition icmp_hdr :: "u16 \<Rightarrow> u16 \<Rightarrow> bytes" where
  "icmp_hdr ident seq =
     (let post = le16 (htons ident) @ le16 (htons seq)
      in [8, 0] @ le16 (checksum ([8, 0] @ [0, 0] @ post)) @ post)"

text \<open>The sum of the TCP pseudo header, then the checksum over header and data.\<close>

definition pseudo_sum :: "u32 \<Rightarrow> u32 \<Rightarrow> nat \<Rightarrow> u32" where
  "pseudo_sum src dst tcp_len =
     (drop_bit 16 src AND 0xFFFF) + (src AND 0xFFFF) + (drop_bit 16 dst AND 0xFFFF) + (dst AND 0xFFFF)
     + ucast (htons (ucast IP_PROTO_TCP)) + ucast (htons (of_nat tcp_len))"

definition tcp_checksum :: "u32 \<Rightarrow> u32 \<Rightarrow> bytes \<Rightarrow> u16" where
  "tcp_checksum src dst seg = checksum_from (pseudo_sum src dst (length seg)) seg"

definition tcp_segment :: "tcp_connection \<Rightarrow> u8 \<Rightarrow> bytes \<Rightarrow> bytes" where
  "tcp_segment c flags data =
     (let pre = le16 (htons (local_port c)) @ le16 (htons (remote_port c)) @ le32 (htonl (c_seq c)) @ le32 (htonl (c_ack c))
                @ [push_bit 4 5, flags] @ le16 (htons (ucast (recv_wnd c)));
          post = le16 0 @ data
      in pre @ le16 (tcp_checksum (local_ip c) (remote_ip c) (pre @ [0, 0] @ post)) @ post)"

section \<open>ARP\<close>

definition arp_lookup :: "u32 \<Rightarrow> net \<Rightarrow> nat option" where
  "arp_lookup ip s = find (\<lambda>i. ae_valid (arp_cache s ! i) \<and> ae_ip (arp_cache s ! i) = ip) [0..<ARP_CACHE_SIZE]"

text \<open>The slot search: the first invalid entry, else the first entry with the least timestamp.\<close>

fun arp_slot :: "arp_entry list \<Rightarrow> nat \<Rightarrow> nat \<Rightarrow> u64 \<Rightarrow> nat" where
  "arp_slot [] i oldest oldest_time = oldest"
| "arp_slot (e # es) i oldest oldest_time =
     (if \<not> ae_valid e then i
      else if ae_timestamp e < oldest_time then arp_slot es (i + 1) i (ae_timestamp e)
      else arp_slot es (i + 1) oldest oldest_time)"

definition arp_add :: "u32 \<Rightarrow> bytes \<Rightarrow> net \<Rightarrow> net" where
  "arp_add ip mac s =
     (let oldest = arp_slot (arp_cache s) 0 0 (NOT 0)
      in s\<lparr>arp_cache := (arp_cache s)[oldest := \<lparr>ae_ip = ip, ae_mac = mac, ae_timestamp = 0, ae_valid = True\<rparr>]\<rparr>)"

definition drv_send :: "nat \<Rightarrow> bytes \<Rightarrow> net \<Rightarrow> net" where
  "drv_send i frame s = s\<lparr>wire := wire s @ [(i, frame)]\<rparr>"

definition drv_send_counted :: "nat \<Rightarrow> bytes \<Rightarrow> net \<Rightarrow> net" where
  "drv_send_counted i frame s =
     (if if_send (interfaces s ! i)
      then upd_if i (\<lambda>f. f\<lparr>tx_packets := tx_packets f + 1, tx_bytes := tx_bytes f + of_nat (length frame)\<rparr>)
             (drv_send i frame s)
      else s)"

definition arp_handle :: "nat \<Rightarrow> bytes \<Rightarrow> nat \<Rightarrow> net \<Rightarrow> net option" where
  "arp_handle i frame off s = do {
     opc \<leftarrow> fr16 frame (off + 6);
     sender_ip \<leftarrow> fr32 frame (off + 14);
     target_ip \<leftarrow> fr32 frame (off + 24);
     let sender_mac = take ETH_ALEN (drop (off + 8) frame);
     let iface = interfaces s ! i;
     Some (if ntohs opc = 1 then
             if target_ip = if_ip iface then
               (let packet = eth_hdr sender_mac (if_mac iface) ETH_P_ARP
                             @ arp_hdr 2 (if_mac iface) (if_ip iface) sender_mac sender_ip
                in if if_send iface then drv_send i packet s else s)
             else s
           else if ntohs opc = 2 then arp_add sender_ip sender_mac s
           else s)
   }"

definition arp_send_request :: "u32 \<Rightarrow> net \<Rightarrow> int \<times> net" where
  "arp_send_request target_ip s =
     (if num_interfaces s = 0 then (- 1, s)
      else
        (let iface = interfaces s ! 0;
             packet = eth_hdr (replicate ETH_ALEN 0xFF) (if_mac iface) ETH_P_ARP
                      @ arp_hdr 1 (if_mac iface) (if_ip iface) (replicate ETH_ALEN 0) target_ip
         in (0, drv_send_counted 0 packet s)))"

section \<open>ICMP and UDP\<close>

text \<open>A packet built in a fresh heap block, sent and released. \<open>build\<close> gets the destination bytes the block
  happened to hold, for the senders that leave the destination address unset.\<close>

definition send_built :: "nat \<Rightarrow> (bytes \<Rightarrow> bytes) \<Rightarrow> net \<Rightarrow> (int \<times> net) option" where
  "send_built total_len build s =
     (case kmalloc (of_nat total_len) 0 (heap s) of
        None \<Rightarrow> None
      | Some (p, h) \<Rightarrow>
          if p = NULL then Some (- 1, s\<lparr>heap := h\<rparr>)
          else
            (let frame = build (read_bytes (mem h) p ETH_ALEN);
                 s = upd_mem (poke p frame) (s\<lparr>heap := h\<rparr>);
                 s = drv_send_counted 0 frame s
             in Some (0, s\<lparr>heap := kfree p (heap s)\<rparr>)))"

definition icmp_send_echo :: "u32 \<Rightarrow> u16 \<Rightarrow> u16 \<Rightarrow> net \<Rightarrow> (int \<times> net) option" where
  "icmp_send_echo dest_ip ident seq s =
     (if num_interfaces s = 0 then Some (- 1, s)
      else
        (let iface = interfaces s ! 0 in
         send_built (ETH_HLEN + 20 + 8)
           (\<lambda>dest. eth_hdr dest (if_mac iface) ETH_P_IP @ ip_hdr (20 + 8) 1 0 IP_PROTO_ICMP (if_ip iface) dest_ip
                   @ icmp_hdr ident seq) s))"

definition udp_hdr :: "u16 \<Rightarrow> u16 \<Rightarrow> nat \<Rightarrow> bytes" where
  "udp_hdr src_port dest_port len = le16 (htons src_port) @ le16 (htons dest_port) @ le16 (htons (of_nat (8 + len))) @ le16 0"

definition udp_send :: "u32 \<Rightarrow> u16 \<Rightarrow> u16 \<Rightarrow> bytes \<Rightarrow> net \<Rightarrow> (int \<times> net) option" where
  "udp_send dest_ip src_port dest_port data s =
     (if num_interfaces s = 0 then Some (- 1, s)
      else
        (let iface = interfaces s ! 0; len = length data in
         map_option (\<lambda>(r, s). (if r < 0 then - 1 else int len, s))
           (send_built (ETH_HLEN + 20 + 8 + len)
             (\<lambda>dest. eth_hdr dest (if_mac iface) ETH_P_IP
                     @ ip_hdr (of_nat (20 + 8 + len)) 1 0 IP_PROTO_UDP (if_ip iface) dest_ip
                     @ udp_hdr src_port dest_port len @ data) s)))"

section \<open>TCP\<close>

definition tcp_alloc_connection :: "net \<Rightarrow> (nat option \<times> net) option" where
  "tcp_alloc_connection s =
     (case find (\<lambda>i. \<not> in_use (conns s ! i)) [0..<MAX_TCP_CONNECTIONS] of
        None \<Rightarrow> Some (None, s)
      | Some i \<Rightarrow> do {
          (rb, h) \<leftarrow> kmalloc 65536 0 (heap s);
          (sb, h) \<leftarrow> kmalloc 65536 0 h;
          Some (Some i, upd_conn i (\<lambda>c. c\<lparr>in_use := True, c_state := TCP_CLOSED, recv_capacity := 65536,
                          send_capacity := 65536, recv_buf := rb, send_buf := sb, recv_len := 0, send_len := 0,
                          recv_wnd := 65535, send_wnd := 65535\<rparr>) (s\<lparr>heap := h\<rparr>))
        })"

definition tcp_free_connection :: "nat \<Rightarrow> net \<Rightarrow> net" where
  "tcp_free_connection i s =
     (let c = conns s ! i;
          s = (if recv_buf c \<noteq> NULL then s\<lparr>heap := kfree (recv_buf c) (heap s)\<rparr> else s);
          s = (if send_buf c \<noteq> NULL then s\<lparr>heap := kfree (send_buf c) (heap s)\<rparr> else s)
      in upd_conn i (in_use_update (\<lambda>_. False)) s)"

text \<open>The packet \<^verbatim>\<open>tcp_send_packet\<close> builds, to the broadcast address.\<close>

definition tcp_frame :: "bytes \<Rightarrow> tcp_connection \<Rightarrow> u8 \<Rightarrow> bytes \<Rightarrow> bytes" where
  "tcp_frame mac c flags data =
     eth_hdr (replicate ETH_ALEN 0xFF) mac ETH_P_IP
     @ ip_hdr (of_nat (20 + (20 + length data))) (ucast (c_seq c AND 0xFFFF)) (htons 0x4000) IP_PROTO_TCP
              (local_ip c) (remote_ip c)
     @ tcp_segment c flags data"

definition tcp_send_packet :: "nat \<Rightarrow> u8 \<Rightarrow> bytes \<Rightarrow> net \<Rightarrow> (int \<times> net) option" where
  "tcp_send_packet i flags data s =
     (if num_interfaces s = 0 then Some (- 1, s)
      else
        (let iface = interfaces s ! 0; tcp_len = 20 + length data in
         send_built (ETH_HLEN + 20 + tcp_len) (\<lambda>_. tcp_frame (if_mac iface) (conns s ! i) flags data) s))"

definition tcp_generate_isn :: "net \<Rightarrow> u32 \<times> net" where
  "tcp_generate_isn s =
     (let n = tcp_isn_counter s * 1103515245 + 12345 in (n, s\<lparr>tcp_isn_counter := n\<rparr>))"

definition tcp_connect :: "u32 \<Rightarrow> u16 \<Rightarrow> net \<Rightarrow> (int \<times> net) option" where
  "tcp_connect dest_ip dest_port s =
     (case tcp_alloc_connection s of
        None \<Rightarrow> None
      | Some (None, s) \<Rightarrow> Some (- 1, s)
      | Some (Some i, s) \<Rightarrow>
          if num_interfaces s = 0 then Some (- 1, tcp_free_connection i s)
          else
            (let port = next_ephemeral_port s;
                 s = s\<lparr>next_ephemeral_port := (if port + 1 > 65000 then 49152 else port + 1)\<rparr>;
                 (isn, s) = tcp_generate_isn s;
                 s = upd_conn i (\<lambda>c. c\<lparr>local_ip := if_ip (interfaces s ! 0), local_port := port, remote_ip := dest_ip,
                                  remote_port := dest_port, c_seq := isn, c_ack := 0, c_state := TCP_SYN_SENT\<rparr>) s
             in case tcp_send_packet i TCP_SYN [] s of
                  None \<Rightarrow> None
                | Some (ret, s) \<Rightarrow>
                    if ret < 0 then Some (- 1, tcp_free_connection i s)
                    else Some (int i, upd_conn i (\<lambda>c. c\<lparr>c_seq := c_seq c + 1\<rparr>) s)))"

definition tcp_send :: "nat \<Rightarrow> bytes \<Rightarrow> net \<Rightarrow> (int \<times> net) option" where
  "tcp_send i data s =
     (let c = conns s ! i in
      if c_state c \<noteq> TCP_ESTABLISHED then Some (- 1, s)
      else if send_len c + of_nat (length data) > send_capacity c then Some (- 1, s)
      else if send_buf c = NULL \<and> data \<noteq> [] then None
      else
        (let s = upd_mem (poke (send_buf c + unat (send_len c)) data) s;
             s = upd_conn i (\<lambda>c. c\<lparr>send_len := send_len c + of_nat (length data)\<rparr>) s
         in case tcp_send_packet i (TCP_PSH OR TCP_ACK) data s of
              None \<Rightarrow> None
            | Some (ret, s) \<Rightarrow>
                if ret = 0 then Some (int (length data), upd_conn i (\<lambda>c. c\<lparr>c_seq := c_seq c + of_nat (length data)\<rparr>) s)
                else Some (- 1, s)))"

text \<open>The result and the bytes copied to the caller.\<close>

definition tcp_recv :: "nat \<Rightarrow> nat \<Rightarrow> net \<Rightarrow> (int \<times> bytes) \<times> net" where
  "tcp_recv i len s =
     (let c = conns s ! i; n = unat (recv_len c) in
      if n = 0 then ((0, []), s)
      else
        (let to_copy = (if len < n then len else n);
             out = read_bytes (mem (heap s)) (recv_buf c) to_copy;
             s = upd_mem (byte_copy (n - to_copy) (recv_buf c) (recv_buf c + to_copy)) s
         in ((int to_copy, out), upd_conn i (\<lambda>c. c\<lparr>recv_len := recv_len c - of_nat to_copy\<rparr>) s)))"

text \<open>\<open>None\<close> for the connection is a \<^verbatim>\<open>NULL\<close> pointer.\<close>

definition tcp_close :: "nat option \<Rightarrow> net \<Rightarrow> (int \<times> net) option" where
  "tcp_close conn s =
     (case conn of
        None \<Rightarrow> Some (- 1, s)
      | Some i \<Rightarrow>
          if \<not> in_use (conns s ! i) then Some (- 1, s)
          else
            (let fin = (\<lambda>st. map_option (\<lambda>(_, s). (0, upd_conn i (\<lambda>c. c\<lparr>c_seq := c_seq c + 1\<rparr>) s))
                         (tcp_send_packet i (TCP_FIN OR TCP_ACK) [] (upd_conn i (c_state_update (\<lambda>_. st)) s)))
             in case c_state (conns s ! i) of
                  TCP_ESTABLISHED \<Rightarrow> fin TCP_FIN_WAIT_1
                | TCP_CLOSE_WAIT \<Rightarrow> fin TCP_LAST_ACK
                | TCP_SYN_SENT \<Rightarrow> Some (0, tcp_free_connection i s)
                | TCP_LISTEN \<Rightarrow> Some (0, tcp_free_connection i s)
                | _ \<Rightarrow> Some (0, s)))"

definition tcp_find_connection :: "u32 \<Rightarrow> u16 \<Rightarrow> u32 \<Rightarrow> u16 \<Rightarrow> net \<Rightarrow> nat option" where
  "tcp_find_connection rip rport lip lport s =
     find (\<lambda>i. let c = conns s ! i in in_use c \<and> remote_ip c = rip \<and> remote_port c = rport
                 \<and> local_ip c = lip \<and> local_port c = lport) [0..<MAX_TCP_CONNECTIONS]"

definition send_ack :: "nat \<Rightarrow> net \<Rightarrow> net option" where
  "send_ack i s = map_option snd (tcp_send_packet i TCP_ACK [] s)"

text \<open>The copy of received data: \<open>n\<close> bytes of the frame from \<open>k\<close> on.\<close>

fun copy_in :: "nat \<Rightarrow> bytes \<Rightarrow> nat \<Rightarrow> ptr \<Rightarrow> memory \<Rightarrow> memory option" where
  "copy_in 0 frame k p m = Some m"
| "copy_in (Suc n) frame k p m = (if k < length frame then copy_in n frame (k + 1) (p + 1) (m(p := frame ! k)) else None)"

text \<open>The state machine on connection \<open>i\<close>; \<open>doff\<close> is where the segment's data starts in the frame.\<close>

definition tcp_input :: "nat \<Rightarrow> u32 \<Rightarrow> u8 \<Rightarrow> u64 \<Rightarrow> bytes \<Rightarrow> nat \<Rightarrow> net \<Rightarrow> net option" where
  "tcp_input i seq flags data_len frame doff s =
     (let c = conns s ! i;
          set_ack = (\<lambda>a. upd_conn i (c_ack_update (\<lambda>_. a)));
          set_state = (\<lambda>st. upd_conn i (c_state_update (\<lambda>_. st)))
      in case c_state c of
        TCP_SYN_SENT \<Rightarrow>
          if flags AND (TCP_SYN OR TCP_ACK) = TCP_SYN OR TCP_ACK
          then send_ack i (set_state TCP_ESTABLISHED (set_ack (seq + 1) s))
          else if flags AND TCP_RST \<noteq> 0 then Some (tcp_free_connection i (set_state TCP_CLOSED s))
          else Some s
      | TCP_ESTABLISHED \<Rightarrow>
          if flags AND TCP_FIN \<noteq> 0
          then send_ack i (set_state TCP_CLOSE_WAIT (set_ack (seq + ucast data_len + 1) s))
          else if data_len > 0 then
            if recv_len c + data_len \<le> recv_capacity c then
              if recv_buf c = NULL then None
              else do {
                m \<leftarrow> copy_in (unat data_len) frame doff (recv_buf c + unat (recv_len c)) (mem (heap s));
                let s = upd_conn i (\<lambda>c. c\<lparr>recv_len := recv_len c + data_len\<rparr>) (upd_mem (\<lambda>_. m) s);
                send_ack i (set_ack (seq + ucast data_len) s)
              }
            else Some s
          else Some s
      | TCP_FIN_WAIT_1 \<Rightarrow>
          (let s = (if flags AND TCP_ACK \<noteq> 0 then set_state TCP_FIN_WAIT_2 s else s) in
           if flags AND TCP_FIN \<noteq> 0 then do {
             s \<leftarrow> send_ack i (set_ack (seq + 1) s);
             Some (set_state (if c_state (conns s ! i) = TCP_FIN_WAIT_2 then TCP_TIME_WAIT else TCP_CLOSING) s)
           } else Some s)
      | TCP_FIN_WAIT_2 \<Rightarrow>
          if flags AND TCP_FIN \<noteq> 0
          then map_option (set_state TCP_TIME_WAIT) (send_ack i (set_ack (seq + 1) s)) else Some s
      | TCP_CLOSING \<Rightarrow> Some (if flags AND TCP_ACK \<noteq> 0 then set_state TCP_TIME_WAIT s else s)
      | TCP_LAST_ACK \<Rightarrow>
          Some (if flags AND TCP_ACK \<noteq> 0 then tcp_free_connection i (set_state TCP_CLOSED s) else s)
      | TCP_TIME_WAIT \<Rightarrow> Some (tcp_free_connection i s)
      | _ \<Rightarrow> Some s)"

definition tcp_handle_segment :: "u32 \<Rightarrow> u32 \<Rightarrow> bytes \<Rightarrow> nat \<Rightarrow> u64 \<Rightarrow> net \<Rightarrow> net option" where
  "tcp_handle_segment src_ip dst_ip frame off tcp_len s = do {
     sp \<leftarrow> fr16 frame off;
     dp \<leftarrow> fr16 frame (off + 2);
     sq \<leftarrow> fr32 frame (off + 4);
     ak \<leftarrow> fr32 frame (off + 8);
     flags \<leftarrow> fr8 frame (off + 13);
     case tcp_find_connection src_ip (ntohs sp) dst_ip (ntohs dp) s of
       None \<Rightarrow> Some s
     | Some i \<Rightarrow> do {
         d \<leftarrow> fr8 frame (off + 12);
         let header_len = unat (drop_bit 4 d AND 0xF) * 4;
         tcp_input i (ntohl sq) flags (tcp_len - of_nat header_len) frame (off + header_len) s
       }
   }"

section \<open>Receiving\<close>

definition ip_handle :: "bytes \<Rightarrow> nat \<Rightarrow> u64 \<Rightarrow> net \<Rightarrow> net option" where
  "ip_handle frame off len s = do {
     v \<leftarrow> fr8 frame off;
     if drop_bit 4 v \<noteq> 4 then Some s
     else do {
       tl \<leftarrow> fr16 frame (off + 2);
       proto \<leftarrow> fr8 frame (off + 9);
       src \<leftarrow> fr32 frame (off + 12);
       dst \<leftarrow> fr32 frame (off + 16);
       let ip_hlen = unat (v AND 0xF) * 4;
       let total_len = ucast (ntohs tl);
       if len < total_len then Some s
       else if proto = IP_PROTO_ICMP then do {
         typ \<leftarrow> fr8 frame (off + ip_hlen);
         if typ = 0 then map_option (\<lambda>_. s) (fr16 frame (off + ip_hlen + 6)) else Some s
       }
       else if proto = IP_PROTO_TCP then
         tcp_handle_segment src dst frame (off + ip_hlen) (total_len - of_nat ip_hlen) s
       else Some s
     }
   }"

definition net_rx :: "nat \<Rightarrow> bytes \<Rightarrow> net \<Rightarrow> net option" where
  "net_rx i frame s =
     (if length frame < ETH_HLEN then Some s
      else do {
        t \<leftarrow> fr16 frame 12;
        let s = upd_if i (\<lambda>f. f\<lparr>rx_packets := rx_packets f + 1, rx_bytes := rx_bytes f + of_nat (length frame)\<rparr>) s;
        let payload_len = length frame - ETH_HLEN;
        if ntohs t = ETH_P_ARP then (if payload_len \<ge> 28 then arp_handle i frame ETH_HLEN s else Some s)
        else if ntohs t = ETH_P_IP then
          (if payload_len \<ge> 20 then ip_handle frame ETH_HLEN (of_nat payload_len) s else Some s)
        else Some s
      })"

section \<open>Initialisation and interfaces\<close>

definition tcpip_init :: "net \<Rightarrow> net" where
  "tcpip_init s =
     (let s = s\<lparr>arp_cache := map (ae_valid_update (\<lambda>_. False)) (arp_cache s),
                conns := map (in_use_update (\<lambda>_. False)) (conns s)\<rparr>;
          i = num_interfaces s;
          s = s\<lparr>num_interfaces := i + 1\<rparr>
      in upd_if i (\<lambda>f. f\<lparr>if_name := (if_name f)[0 := 108, 1 := 111, 2 := 0], if_ip := 0x7F000001,
                         if_netmask := 0xFF000000, if_gateway := 0, if_up := True\<rparr>) s)"

definition net_add_interface :: "bytes \<Rightarrow> bytes \<Rightarrow> u32 \<Rightarrow> u32 \<Rightarrow> u32 \<Rightarrow> net \<Rightarrow> nat option \<times> net" where
  "net_add_interface name mac ip netmask gateway s =
     (if num_interfaces s \<ge> MAX_INTERFACES then (None, s)
      else
        (let i = num_interfaces s;
             s = s\<lparr>num_interfaces := i + 1\<rparr>;
             nm = take 15 name
         in (Some i, upd_if i (\<lambda>_. \<lparr>if_name = nm @ replicate (16 - length nm) 0, if_mac = mac, if_ip = ip,
               if_netmask = netmask, if_gateway = gateway, if_up = True, rx_packets = 0, tx_packets = 0, rx_bytes = 0,
               tx_bytes = 0, if_send = False\<rparr>) s)))"

definition is_lo :: "net_interface \<Rightarrow> bool" where
  "is_lo f \<longleftrightarrow> if_name f ! 0 = 108 \<and> if_name f ! 1 = 111 \<and> if_name f ! 2 = 0"

definition net_get_primary_interface_info :: "net \<Rightarrow> net_interface option" where
  "net_get_primary_interface_info s =
     (if num_interfaces s = 0 then None
      else case find (\<lambda>i. \<not> is_lo (interfaces s ! i)) [0..<num_interfaces s] of
             Some i \<Rightarrow> Some (interfaces s ! i)
           | None \<Rightarrow> Some (interfaces s ! 0))"

section \<open>Frame lemmas\<close>

lemma upd_conn_simps [simp]:
  "heap (upd_conn i f s) = heap s" "interfaces (upd_conn i f s) = interfaces s"
  "num_interfaces (upd_conn i f s) = num_interfaces s" "wire (upd_conn i f s) = wire s"
  "arp_cache (upd_conn i f s) = arp_cache s" "conns (upd_conn i f s) = (conns s)[i := f (conns s ! i)]"
  "next_ephemeral_port (upd_conn i f s) = next_ephemeral_port s"
  by (simp_all add: upd_conn_def)

lemma upd_mem_simps [simp]:
  "heap (upd_mem f s) = (heap s)\<lparr>mem := f (mem (heap s))\<rparr>" "interfaces (upd_mem f s) = interfaces s"
  "num_interfaces (upd_mem f s) = num_interfaces s" "wire (upd_mem f s) = wire s"
  "arp_cache (upd_mem f s) = arp_cache s" "conns (upd_mem f s) = conns s"
  by (simp_all add: upd_mem_def)

lemma upd_if_simps [simp]:
  "heap (upd_if i f s) = heap s" "interfaces (upd_if i f s) = (interfaces s)[i := f (interfaces s ! i)]"
  "num_interfaces (upd_if i f s) = num_interfaces s" "wire (upd_if i f s) = wire s"
  "arp_cache (upd_if i f s) = arp_cache s" "conns (upd_if i f s) = conns s"
  by (simp_all add: upd_if_def)

lemma drv_send_counted_simps [simp]:
  "heap (drv_send_counted i p s) = heap s" "num_interfaces (drv_send_counted i p s) = num_interfaces s"
  "arp_cache (drv_send_counted i p s) = arp_cache s" "conns (drv_send_counted i p s) = conns s"
  "wire (drv_send_counted i p s) = (if if_send (interfaces s ! i) then wire s @ [(i, p)] else wire s)"
  "map if_mac (interfaces (drv_send_counted i p s)) = map if_mac (interfaces s)"
  by (auto simp: drv_send_counted_def drv_send_def map_update list_update_id)
     (metis list_update_id map_update)

lemma poke_eq: "poke p bs m a = (if p \<le> a \<and> a < p + length bs then bs ! (a - p) else m a)"
proof (induction bs arbitrary: p m)
  case (Cons b bs)
  show ?case unfolding poke.simps Cons by (auto simp: nth_Cons' Suc_le_eq)
qed auto

lemma read_bytes_poke: "read_bytes (poke p bs m) p (length bs) = bs"
  by (rule nth_equalityI) (simp_all add: poke_eq)

text \<open>Building a packet in a fresh block, sending and releasing it leaves every live payload as it was.\<close>

lemma send_built_spec:
  assumes inv: "heap_inv (heap s)" and len: "\<And>d. length d = ETH_ALEN \<Longrightarrow> length (build d) = tot" and n: "tot < 2 ^ 64"
  obtains r s' where "send_built tot build s = Some (r, s')" "heap_inv (heap s')" "live (heap s') = live (heap s)"
    "conns s' = conns s" "num_interfaces s' = num_interfaces s" "map if_mac (interfaces s') = map if_mac (interfaces s)"
    "arp_cache s' = arp_cache s"
    "\<And>q m a. \<lbrakk> live (heap s) q = Some m; q \<le> a; a < q + m \<rbrakk> \<Longrightarrow> mem (heap s') a = mem (heap s) a"
    "r = 0 \<and> can_alloc (of_nat tot) (heap s)
       \<and> (\<exists>d. length d = ETH_ALEN \<and> wire s' = (if if_send (interfaces s ! 0) then wire s @ [(0, build d)] else wire s))
     \<or> r = - 1 \<and> \<not> can_alloc (of_nat tot) (heap s) \<and> wire s' = wire s"
proof -
  have u: "unat (of_nat tot :: u64) = tot" using n by (simp add: unat_of_nat_small)
  from kmalloc_cases [OF inv, of "of_nat tot" 0]
  consider p h' m where "can_alloc (of_nat tot) (heap s)" "kmalloc (of_nat tot) 0 (heap s) = Some (p, h')" "p \<noteq> NULL"
      "heap_inv h'" "live (heap s) p = None" "live h' = (live (heap s))(p \<mapsto> m)" "mem h' = mem (heap s)"
    | "\<not> can_alloc (of_nat tot) (heap s)" "kmalloc (of_nat tot) 0 (heap s) = Some (NULL, heap s)"
    by auto
  then show thesis
  proof cases
    case 1
    let ?f = "build (read_bytes (mem h') p ETH_ALEN)"
    define s1 where "s1 = drv_send_counted 0 ?f (upd_mem (poke p ?f) (s\<lparr>heap := h'\<rparr>))"
    have h1: "heap s1 = h'\<lparr>mem := poke p ?f (mem h')\<rparr>" by (simp add: s1_def)
    have e: "send_built tot build s = Some (0, s1\<lparr>heap := kfree p (heap s1)\<rparr>)"
      using 1(2,3) by (simp add: send_built_def Let_def s1_def)
    have l: "live (heap s1) p \<noteq> None" and i: "heap_inv (heap s1)" using 1 by (simp_all add: h1)
    have "mem (kfree p (heap s1)) a = mem (heap s) a" if "live (heap s) q = Some k" "q \<le> a" "a < q + k" for q k a
      using kh.alloc_apart(2) [OF inv 1(2,3) that(1)] that(2,3) len
      by (auto simp: kfree_mem h1 poke_eq u 1(7))
    moreover have "live (kfree p (heap s1)) = live (heap s)"
      using kh.release_lv [OF i l] 1(5,6) by (simp add: h1 fun_upd_idem)
    moreover have "\<exists>d. length d = ETH_ALEN \<and> wire s1 = (if if_send (interfaces s ! 0) then wire s @ [(0, build d)] else wire s)"
      by (rule exI [of _ "read_bytes (mem h') p ETH_ALEN"]) (simp add: s1_def)
    moreover have "conns s1 = conns s" "num_interfaces s1 = num_interfaces s" "arp_cache s1 = arp_cache s"
      "map if_mac (interfaces s1) = map if_mac (interfaces s)" by (simp_all add: s1_def)
    ultimately show thesis
      using kh.release_inv [OF i l] 1(1) by (intro that [OF e]) simp_all
  next
    case 2
    then show thesis using that [of "- 1" s] inv by (simp add: send_built_def)
  qed
qed

lemma send_built_conns: "send_built tot build s = Some (r, s') \<Longrightarrow> conns s' = conns s"
  by (auto simp: send_built_def Let_def split: option.splits if_splits)

lemma tcp_send_packet_conns: "tcp_send_packet i fl d s = Some (r, s') \<Longrightarrow> conns s' = conns s"
  by (auto simp: tcp_send_packet_def Let_def dest: send_built_conns split: if_splits)

lemma send_ack_conns: "send_ack i s = Some s' \<Longrightarrow> conns s' = conns s"
  by (auto simp: send_ack_def dest: tcp_send_packet_conns)

lemma tcp_free_connection_conns [simp]:
  "conns (tcp_free_connection i s) = (conns s)[i := (conns s ! i)\<lparr>in_use := False\<rparr>]"
  by (simp add: tcp_free_connection_def Let_def)

section \<open>Frames on the wire\<close>

text \<open>The layout of a TCP frame with its fields as parameters.\<close>

definition tcp_layout :: "bytes \<Rightarrow> u16 \<Rightarrow> u16 \<Rightarrow> u16 \<Rightarrow> u16 \<Rightarrow> u8 \<Rightarrow> u16 \<Rightarrow> u32 \<Rightarrow> u32 \<Rightarrow> u16 \<Rightarrow> u16 \<Rightarrow> u32 \<Rightarrow> u32 \<Rightarrow> u8 \<Rightarrow> u8
    \<Rightarrow> u16 \<Rightarrow> u16 \<Rightarrow> bytes \<Rightarrow> bytes" where
  "tcp_layout macs t len16 ident ff proto ck src dst sp dp sq ak off fl w tck data =
     macs @ le16 t @ ([0x45, 0] @ le16 len16 @ le16 ident @ le16 ff @ [64, proto]) @ le16 ck @ (le32 src @ le32 dst)
     @ (le16 sp @ le16 dp @ le32 sq @ le32 ak @ [off, fl] @ le16 w) @ le16 tck @ (le16 0 @ data)"

lemma fr_append [simp]:
  "length xs \<le> k \<Longrightarrow> fr8 (xs @ ys) k = fr8 ys (k - length xs)"
  "length xs \<le> k \<Longrightarrow> fr16 (xs @ ys) k = fr16 ys (k - length xs)"
  "length xs \<le> k \<Longrightarrow> fr32 (xs @ ys) k = fr32 ys (k - length xs)"
  by (auto simp: fr8_def fr16_def fr32_def nth_append Suc_diff_le)

lemma fr_Cons [simp]:
  "fr8 (x # ys) 0 = Some x"
  "0 < k \<Longrightarrow> fr8 (x # ys) k = fr8 ys (k - 1)" "0 < k \<Longrightarrow> fr16 (x # ys) k = fr16 ys (k - 1)"
  "0 < k \<Longrightarrow> fr32 (x # ys) k = fr32 ys (k - 1)"
  using fr_append [of "[x]" k ys] by (auto simp: fr8_def)

lemma fr_le [simp]:
  "fr16 (le16 w @ ys) 0 = Some w" "fr32 (le32 v @ ys) 0 = Some v"
  by (simp_all add: fr8_def fr16_def fr32_def le16_def le32_def ld16_le16 ld32_le32)

lemma tcp_layout_fields:
  assumes "length macs = 12" and "F = tcp_layout macs t len16 ident ff proto ck src dst sp dp sq ak off fl w tck data"
  shows "length F = 54 + length data" "fr16 F 12 = Some t" "fr8 F 14 = Some 0x45" "fr16 F 16 = Some len16"
    "fr8 F 23 = Some proto" "fr32 F 26 = Some src" "fr32 F 30 = Some dst" "fr16 F 34 = Some sp" "fr16 F 36 = Some dp"
    "fr32 F 38 = Some sq" "fr32 F 42 = Some ak" "fr8 F 46 = Some off" "fr8 F 47 = Some fl" "drop 54 F = data"
  unfolding assms(2) tcp_layout_def using assms(1) by simp_all

lemma unat_add_le: "unat (a + b :: 'a::len word) \<le> unat a + unat b"
  by (simp add: unat_word_ariths)

lemma unat_low16: "unat (w AND 0xFFFF :: u32) \<le> 65535" "unat (ucast v :: u32) \<le> 65535" for v :: u16
proof -
  have m: "(0xFFFF :: u32) = mask 16" by (simp add: mask_eq_exp_minus_1)
  show "unat (w AND 0xFFFF :: u32) \<le> 65535"
    unfolding m take_bit_eq_mask [symmetric] by (simp only: unsigned_take_bit_eq) (simp add: take_bit_eq_mod)
  have "unat v < 2 ^ LENGTH(16)" by (rule unsigned_less)
  then show "unat (ucast v :: u32) \<le> 65535" by (simp add: unsigned_ucast_eq take_bit_eq_mod)
qed

lemma pseudo_sum_le: "unat (pseudo_sum src dst n) \<le> 6 * 65535"
proof -
  have sum: "unat (x + y) \<le> (k + 1) * 65535" if "unat x \<le> k * 65535" "unat y \<le> 65535" for x y :: u32 and k
    using unat_add_le [of x y] that by (simp add: add_mult_distrib)
  note a = unat_low16
  have "unat (drop_bit 16 src AND 0xFFFF) \<le> 1 * 65535" using a(1) [of "drop_bit 16 src"] by simp
  note sum [OF sum [OF sum [OF sum [OF sum [OF this a(1)] a(1)] a(1)] a(2)] a(2)]
  then show ?thesis unfolding pseudo_sum_def by simp
qed

lemma tcp_segment_length: "length (tcp_segment c flags data) = 20 + length data"
  by (simp add: tcp_segment_def Let_def)

lemma tcp_segment_checksum:
  assumes "length data \<le> 65495"
  shows "tcp_checksum (local_ip c) (remote_ip c) (tcp_segment c flags data) = 0"
proof -
  define pre where "pre = le16 (htons (local_port c)) @ le16 (htons (remote_port c)) @ le32 (htonl (c_seq c)) @ le32 (htonl (c_ack c))
                @ [push_bit 4 5, flags] @ le16 (htons (ucast (recv_wnd c)))"
  define post where "post = le16 0 @ data"
  let ?sm = "pseudo_sum (local_ip c) (remote_ip c) (20 + length data)"
  have n: "length (pre @ [0, 0] @ post) = 20 + length data" "even (length pre)" by (simp_all add: pre_def post_def)
  have sg: "tcp_segment c flags data = pre @ le16 (checksum_from ?sm (pre @ [0, 0] @ post)) @ post"
    unfolding tcp_segment_def Let_def pre_def [symmetric] post_def [symmetric] tcp_checksum_def n(1) ..
  note l = tcp_segment_length [of c flags data]
  have "65535 * (length (pre @ [0, 0] @ post) + 1) \<le> 65535 * (65515 + 1)"
    using assms n(1) by (intro mult_le_mono2) simp
  note order_trans [OF nsum_le this]
  note add_le_mono [OF pseudo_sum_le this]
  then have "unat ?sm + nsum (pre @ [0, 0] @ post) \<le> 4293984270" by simp
  then have "unat ?sm + nsum (pre @ [0, 0] @ post) + 65535 < 2 ^ 32" by simp
  from checksum_from_verifies [OF n(2) this]
  show "tcp_checksum (local_ip c) (remote_ip c) (tcp_segment c flags data) = 0"
    unfolding tcp_checksum_def l unfolding sg .
qed

lemma ip_hdr_checksum: "checksum (ip_hdr n ident ff proto src dst) = 0" "length (ip_hdr n ident ff proto src dst) = 20"
proof -
  show "checksum (ip_hdr n ident ff proto src dst) = 0"
    unfolding ip_hdr_def Let_def by (rule checksum_filled) (simp_all add: ip_hdr_pre_def)
  show "length (ip_hdr n ident ff proto src dst) = 20" by (simp add: ip_hdr_def Let_def ip_hdr_pre_def)
qed

lemma tcp_frame_length: "length mac = ETH_ALEN \<Longrightarrow> length (tcp_frame mac c flags data) = 54 + length data"
  by (simp add: tcp_frame_def eth_hdr_def ip_hdr_checksum tcp_segment_length ETH_ALEN_def)

lemma tcp_frame_layout:
  obtains ck tck where "tcp_frame mac c flags data =
    tcp_layout (replicate 6 0xFF @ mac) (htons ETH_P_IP) (htons (of_nat (40 + length data)))
      (htons (ucast (c_seq c AND 0xFFFF))) (htons 0x4000) IP_PROTO_TCP ck (local_ip c) (remote_ip c)
      (htons (local_port c)) (htons (remote_port c)) (htonl (c_seq c)) (htonl (c_ack c)) (push_bit 4 5) flags
      (htons (ucast (recv_wnd c))) tck data"
  by (simp add: tcp_frame_def eth_hdr_def ip_hdr_def ip_hdr_pre_def tcp_segment_def tcp_layout_def Let_def ETH_ALEN_def)

lemma tcp_frame_checksums:
  assumes "length mac = ETH_ALEN" and "length data \<le> 65495"
  shows "checksum (take 20 (drop 14 (tcp_frame mac c flags data))) = 0"
    and "tcp_checksum (local_ip c) (remote_ip c) (drop 34 (tcp_frame mac c flags data)) = 0"
proof -
  let ?e = "eth_hdr (replicate ETH_ALEN 0xFF) mac ETH_P_IP"
  have e: "length ?e = 14" using assms(1) by (simp add: eth_hdr_def ETH_ALEN_def)
  note i = ip_hdr_checksum and t = tcp_segment_checksum [OF assms(2), of c flags]
  show "checksum (take 20 (drop 14 (tcp_frame mac c flags data))) = 0"
    unfolding tcp_frame_def using e i by simp
  show "tcp_checksum (local_ip c) (remote_ip c) (drop 34 (tcp_frame mac c flags data)) = 0"
    unfolding tcp_frame_def using e i t by (simp add: tcp_segment_length)
qed

section \<open>The state machine\<close>

text \<open>The edges of the TCP state diagram that a segment with the given flags may take.\<close>

inductive seg_edge :: "u8 \<Rightarrow> tcp_state \<Rightarrow> tcp_state \<Rightarrow> bool" for flags where
  stay: "seg_edge flags st st"
| syn_ack: "\<lbrakk> flags AND TCP_SYN \<noteq> 0; flags AND TCP_ACK \<noteq> 0 \<rbrakk> \<Longrightarrow> seg_edge flags TCP_SYN_SENT TCP_ESTABLISHED"
| refused: "flags AND TCP_RST \<noteq> 0 \<Longrightarrow> seg_edge flags TCP_SYN_SENT TCP_CLOSED"
| remote_close: "flags AND TCP_FIN \<noteq> 0 \<Longrightarrow> seg_edge flags TCP_ESTABLISHED TCP_CLOSE_WAIT"
| fin_acked: "\<lbrakk> flags AND TCP_ACK \<noteq> 0; flags AND TCP_FIN = 0 \<rbrakk> \<Longrightarrow> seg_edge flags TCP_FIN_WAIT_1 TCP_FIN_WAIT_2"
| both_close: "\<lbrakk> flags AND TCP_FIN \<noteq> 0; flags AND TCP_ACK = 0 \<rbrakk> \<Longrightarrow> seg_edge flags TCP_FIN_WAIT_1 TCP_CLOSING"
| fin_and_ack: "\<lbrakk> flags AND TCP_FIN \<noteq> 0; flags AND TCP_ACK \<noteq> 0 \<rbrakk> \<Longrightarrow> seg_edge flags TCP_FIN_WAIT_1 TCP_TIME_WAIT"
| remote_fin: "flags AND TCP_FIN \<noteq> 0 \<Longrightarrow> seg_edge flags TCP_FIN_WAIT_2 TCP_TIME_WAIT"
| closing_acked: "flags AND TCP_ACK \<noteq> 0 \<Longrightarrow> seg_edge flags TCP_CLOSING TCP_TIME_WAIT"
| last_acked: "flags AND TCP_ACK \<noteq> 0 \<Longrightarrow> seg_edge flags TCP_LAST_ACK TCP_CLOSED"

inductive_simps seg_edge_simps: "seg_edge flags st st'"

text \<open>What a segment may do to the connection it is for: address, port and sequence number stay, the state moves along
  an edge, data arrives only on an established connection, and the connection is released only in the states that
  end it.\<close>

definition seg_effect :: "u8 \<Rightarrow> tcp_connection \<Rightarrow> tcp_connection \<Rightarrow> bool" where
  "seg_effect flags c c' \<longleftrightarrow>
     seg_edge flags (c_state c) (c_state c') \<and> local_ip c' = local_ip c \<and> remote_ip c' = remote_ip c
     \<and> local_port c' = local_port c \<and> remote_port c' = remote_port c \<and> c_seq c' = c_seq c
     \<and> recv_buf c' = recv_buf c \<and> send_buf c' = send_buf c \<and> send_len c' = send_len c
     \<and> recv_capacity c' = recv_capacity c \<and> send_capacity c' = send_capacity c
     \<and> (recv_len c' \<noteq> recv_len c \<longrightarrow> c_state c = TCP_ESTABLISHED \<and> flags AND TCP_FIN = 0 \<and> recv_len c' \<le> recv_capacity c)
     \<and> (in_use c' \<noteq> in_use c \<longrightarrow> \<not> in_use c' \<and> c_state c \<in> {TCP_SYN_SENT, TCP_LAST_ACK, TCP_TIME_WAIT}
          \<and> c_state c' \<in> {TCP_CLOSED, TCP_TIME_WAIT})"

lemma syn_ack_flags: "(flags :: u8) AND (TCP_SYN OR TCP_ACK) = TCP_SYN OR TCP_ACK \<Longrightarrow> flags AND TCP_SYN \<noteq> 0 \<and> flags AND TCP_ACK \<noteq> 0"
proof -
  assume "flags AND (TCP_SYN OR TCP_ACK) = TCP_SYN OR TCP_ACK"
  then have "(flags AND (TCP_SYN OR TCP_ACK)) AND TCP_SYN = TCP_SYN" "(flags AND (TCP_SYN OR TCP_ACK)) AND TCP_ACK = TCP_ACK"
    by (simp_all add: TCP_SYN_def TCP_ACK_def)
  then show ?thesis by (auto simp: and.assoc TCP_SYN_def TCP_ACK_def)
qed

lemma tcp_input_effect:
  assumes "tcp_input i sq flags dl frame doff s = Some s'" and "i < length (conns s)"
  shows "conns s' = (conns s)[i := conns s' ! i]" and "seg_effect flags (conns s ! i) (conns s' ! i)"
proof -
  have "conns s' = (conns s)[i := conns s' ! i] \<and> seg_effect flags (conns s ! i) (conns s' ! i)"
    using assms syn_ack_flags
    by (cases "c_state (conns s ! i)")
       (auto simp: tcp_input_def Let_def seg_effect_def seg_edge_simps nth_list_update dest!: send_ack_conns
         split: if_splits bind_splits)
  then show "conns s' = (conns s)[i := conns s' ! i]" "seg_effect flags (conns s ! i) (conns s' ! i)" by blast+
qed

text \<open>The frame is a TCP segment for connection \<open>c\<close>, with the transport header at \<open>off\<close>.\<close>

definition addressed_to :: "bytes \<Rightarrow> nat \<Rightarrow> u8 \<Rightarrow> tcp_connection \<Rightarrow> bool" where
  "addressed_to frame off flags c \<longleftrightarrow>
     fr8 frame (ETH_HLEN + 9) = Some IP_PROTO_TCP
     \<and> fr32 frame (ETH_HLEN + 12) = Some (remote_ip c) \<and> fr32 frame (ETH_HLEN + 16) = Some (local_ip c)
     \<and> off = ETH_HLEN + unat (frame ! ETH_HLEN AND 0xF) * 4
     \<and> fr16 frame off = Some (htons (remote_port c)) \<and> fr16 frame (off + 2) = Some (htons (local_port c))
     \<and> fr8 frame (off + 13) = Some flags \<and> in_use c"

lemma tcp_find_connection_Some:
  "tcp_find_connection rip rp lip lp s = Some i \<Longrightarrow> i < MAX_TCP_CONNECTIONS \<and> in_use (conns s ! i) \<and> remote_ip (conns s ! i) = rip
     \<and> remote_port (conns s ! i) = rp \<and> local_ip (conns s ! i) = lip \<and> local_port (conns s ! i) = lp"
  by (auto simp: tcp_find_connection_def find_upt_Some Let_def)

lemma ntohs_eq: "ntohs a = b \<longleftrightarrow> a = htons b" and ntohl_eq: "ntohl c = d \<longleftrightarrow> c = htonl d"
  by (metis htons_htons ntohs_def, metis htonl_htonl ntohl_def)

lemma arp_handle_conns: "arp_handle k frame off s = Some s' \<Longrightarrow> conns s' = conns s"
  by (auto simp: arp_handle_def Let_def arp_add_def drv_send_def split: bind_splits if_splits)

lemma tcp_handle_segment_effect:
  assumes "tcp_handle_segment src dst frame off n s = Some s'" and "length (conns s) = MAX_TCP_CONNECTIONS"
  shows "conns s' = conns s \<or> (\<exists>i flags. i < MAX_TCP_CONNECTIONS \<and> in_use (conns s ! i)
     \<and> remote_ip (conns s ! i) = src \<and> local_ip (conns s ! i) = dst \<and> fr16 frame off = Some (htons (remote_port (conns s ! i)))
     \<and> fr16 frame (off + 2) = Some (htons (local_port (conns s ! i))) \<and> fr8 frame (off + 13) = Some flags
     \<and> conns s' = (conns s)[i := conns s' ! i] \<and> seg_effect flags (conns s ! i) (conns s' ! i))"
proof -
  from assms(1) obtain sp dp sq flags where f: "fr16 frame off = Some sp" "fr16 frame (off + 2) = Some dp"
      "fr8 frame (off + 13) = Some flags"
    and c: "(case tcp_find_connection src (ntohs sp) dst (ntohs dp) s of None \<Rightarrow> Some s
       | Some i \<Rightarrow> do { d \<leftarrow> fr8 frame (off + 12); let header_len = unat (drop_bit 4 d AND 0xF) * 4;
           tcp_input i (ntohl sq) flags (n - of_nat header_len) frame (off + header_len) s }) = Some s'"
    unfolding tcp_handle_segment_def by (auto split: bind_splits)
  show ?thesis
  proof (cases "tcp_find_connection src (ntohs sp) dst (ntohs dp) s")
    case None
    then show ?thesis using c by simp
  next
    case (Some i)
    note p = tcp_find_connection_Some [OF Some]
    obtain dl doff where "tcp_input i (ntohl sq) flags dl frame doff s = Some s'"
      using c Some by (auto simp: Let_def split: bind_splits)
    from tcp_input_effect [OF this] p assms(2)
    have "conns s' = (conns s)[i := conns s' ! i] \<and> seg_effect flags (conns s ! i) (conns s' ! i)" by simp
    moreover have "sp = htons (remote_port (conns s ! i))" "dp = htons (local_port (conns s ! i))"
      using p ntohs_eq by metis+
    ultimately show ?thesis using p f by blast
  qed
qed

lemma ip_handle_effect:
  assumes "ip_handle frame ETH_HLEN n s = Some s'" and "length (conns s) = MAX_TCP_CONNECTIONS"
  shows "conns s' = conns s \<or> (\<exists>i off flags. i < MAX_TCP_CONNECTIONS \<and> addressed_to frame off flags (conns s ! i)
     \<and> conns s' = (conns s)[i := conns s' ! i] \<and> seg_effect flags (conns s ! i) (conns s' ! i))"
proof (cases "conns s' = conns s")
  case False
  with assms(1) obtain v proto src dst tlen where f: "fr8 frame ETH_HLEN = Some v" "fr8 frame (ETH_HLEN + 9) = Some proto"
      "fr32 frame (ETH_HLEN + 12) = Some src" "fr32 frame (ETH_HLEN + 16) = Some dst" "proto = IP_PROTO_TCP"
      "tcp_handle_segment src dst frame (ETH_HLEN + unat (v AND 0xF) * 4) tlen s = Some s'"
    unfolding ip_handle_def Let_def by (auto split: bind_splits if_splits)
  moreover have "frame ! ETH_HLEN = v" using f(1) by (simp add: fr8_def split: if_splits)
  ultimately show ?thesis
    using tcp_handle_segment_effect [OF f(6) assms(2)] unfolding addressed_to_def by blast
qed simp

lemma net_rx_effect:
  assumes "net_rx k frame s = Some s'" and "length (conns s) = MAX_TCP_CONNECTIONS"
  shows "conns s' = conns s \<or> (\<exists>i off flags. i < MAX_TCP_CONNECTIONS \<and> addressed_to frame off flags (conns s ! i)
     \<and> conns s' = (conns s)[i := conns s' ! i] \<and> seg_effect flags (conns s ! i) (conns s' ! i))"
  using assms arp_handle_conns ip_handle_effect [where n = "of_nat (length frame - ETH_HLEN)", where s = "upd_if k _ s"]
  by (auto simp: net_rx_def Let_def split: bind_splits if_splits)

section \<open>Buffers of the connections\<close>

definition bufs :: "tcp_connection \<Rightarrow> ptr set" where
  "bufs c = (if in_use c then {recv_buf c, send_buf c} - {NULL} else {})"

definition conn_ok :: "kheap \<Rightarrow> tcp_connection \<Rightarrow> bool" where
  "conn_ok h c \<longleftrightarrow>
     (\<forall>p \<in> bufs c. \<exists>n \<ge> 65536. live h p = Some n)
     \<and> (in_use c \<longrightarrow> (recv_buf c = send_buf c \<longrightarrow> recv_buf c = NULL) \<and> recv_capacity c = 65536 \<and> send_capacity c = 65536
          \<and> recv_len c \<le> 65536 \<and> send_len c \<le> 65536 \<and> (recv_buf c = NULL \<longrightarrow> recv_len c = 0))
     \<and> (c_state c = TCP_ESTABLISHED \<longrightarrow> in_use c)"

definition conns_ok :: "kheap \<Rightarrow> tcp_connection list \<Rightarrow> bool" where
  "conns_ok h cs \<longleftrightarrow> (\<forall>i < length cs. conn_ok h (cs ! i))
     \<and> (\<forall>i < length cs. \<forall>j < length cs. i \<noteq> j \<longrightarrow> bufs (cs ! i) \<inter> bufs (cs ! j) = {})"

definition tables_ok :: "net \<Rightarrow> bool" where
  "tables_ok s \<longleftrightarrow> length (conns s) = MAX_TCP_CONNECTIONS \<and> length (interfaces s) = MAX_INTERFACES
     \<and> (\<forall>m \<in> set (map if_mac (interfaces s)). length m = ETH_ALEN)"

text \<open>The invariant of the stack: every buffer of a connection in use is a live heap block of the full capacity, and
  no two connections share one.\<close>

definition net_inv :: "net \<Rightarrow> bool" where
  "net_inv s \<longleftrightarrow> heap_inv (heap s) \<and> tables_ok s \<and> conns_ok (heap s) (conns s)"

lemma conn_ok_live: "live h' = live h \<Longrightarrow> conn_ok h' c = conn_ok h c"
  by (simp add: conn_ok_def)

lemma conns_ok_live: "live h' = live h \<Longrightarrow> conns_ok h' cs = conns_ok h cs"
  by (simp add: conns_ok_def conn_ok_live [of h' h])

lemma conns_ok_apart: "\<lbrakk> conns_ok h cs; i < length cs; j < length cs; j \<noteq> i; p \<in> bufs (cs ! j) \<rbrakk> \<Longrightarrow> p \<notin> bufs (cs ! i)"
  unfolding conns_ok_def by (simp add: disjoint_iff)

lemma conns_ok_update:
  assumes ok: "conns_ok h cs" and i: "i < length cs" and c: "conn_ok h' c'"
    and d: "\<And>j. \<lbrakk> j < length cs; j \<noteq> i \<rbrakk> \<Longrightarrow> bufs c' \<inter> bufs (cs ! j) = {}"
    and l: "\<And>j p. \<lbrakk> j < length cs; j \<noteq> i; p \<in> bufs (cs ! j) \<rbrakk> \<Longrightarrow> live h' p = live h p"
  shows "conns_ok h' (cs[i := c'])"
proof -
  have "conn_ok h' (cs ! j)" if "j < length cs" "j \<noteq> i" for j
    using ok that l [OF that] unfolding conns_ok_def conn_ok_def by auto
  moreover have "bufs (cs ! j) \<inter> bufs c' = {}" if "j < length cs" "j \<noteq> i" for j using d [OF that] by blast
  ultimately show ?thesis using ok i c d unfolding conns_ok_def by (auto simp: nth_list_update)
qed

text \<open>A change of one connection's own fields, the heap untouched.\<close>

lemma conns_ok_field:
  assumes "conns_ok h cs" and "i < length cs" and "conn_ok h c'" and "bufs c' \<subseteq> bufs (cs ! i)"
  shows "conns_ok h (cs[i := c'])"
proof (rule conns_ok_update [OF assms(1-3)])
  fix j assume "j < length cs" "j \<noteq> i"
  then show "bufs c' \<inter> bufs (cs ! j) = {}" using conns_ok_apart [OF assms(1,2)] assms(4) by blast
qed simp

lemma net_invD:
  assumes "net_inv s"
  shows "heap_inv (heap s)" "length (conns s) = MAX_TCP_CONNECTIONS" "length (interfaces s) = MAX_INTERFACES"
    "conns_ok (heap s) (conns s)" "tables_ok s" "length (if_mac (interfaces s ! 0)) = ETH_ALEN"
    "i < MAX_TCP_CONNECTIONS \<Longrightarrow> conn_ok (heap s) (conns s ! i)"
  using assms nth_mem [of 0 "interfaces s"] by (auto simp: net_inv_def tables_ok_def conns_ok_def MAX_INTERFACES_def)

lemma net_inv_field:
  assumes "net_inv s" and "i < MAX_TCP_CONNECTIONS" and "conn_ok (heap s) (f (conns s ! i))"
    and "bufs (f (conns s ! i)) \<subseteq> bufs (conns s ! i)"
  shows "net_inv (upd_conn i f s)"
  using conns_ok_field [OF net_invD(4) [OF assms(1)], of i "f (conns s ! i)"] assms
  by (simp add: net_inv_def tables_ok_def)

lemma net_inv_mem [simp]: "net_inv (upd_mem f s) = net_inv s"
  by (simp add: net_inv_def tables_ok_def conns_ok_def conn_ok_def)

lemma net_inv_rest [simp]:
  "net_inv (s\<lparr>next_ephemeral_port := x\<rparr>) = net_inv s" "net_inv (s\<lparr>tcp_isn_counter := y\<rparr>) = net_inv s"
  by (simp_all add: net_inv_def tables_ok_def)

lemma bufs_field [simp]:
  "bufs (c\<lparr>c_state := st\<rparr>) = bufs c" "bufs (c\<lparr>c_ack := a\<rparr>) = bufs c" "bufs (c\<lparr>c_seq := a\<rparr>) = bufs c"
  "bufs (c\<lparr>recv_len := r\<rparr>) = bufs c" "bufs (c\<lparr>send_len := r\<rparr>) = bufs c" "bufs (c\<lparr>in_use := False\<rparr>) = {}"
  "bufs (c\<lparr>local_ip := ip\<rparr>) = bufs c" "bufs (c\<lparr>local_port := pt\<rparr>) = bufs c" "bufs (c\<lparr>remote_ip := ip\<rparr>) = bufs c"
  "bufs (c\<lparr>remote_port := pt\<rparr>) = bufs c"
  by (simp_all add: bufs_def)

text \<open>Releasing a connection.\<close>

lemma tcp_free_connection_inv:
  assumes inv: "net_inv s" and i: "i < MAX_TCP_CONNECTIONS" and u: "in_use (conns s ! i)"
    and st: "c_state (conns s ! i) \<noteq> TCP_ESTABLISHED"
  shows "net_inv (tcp_free_connection i s)"
    and "live (heap (tcp_free_connection i s)) = (live (heap s)) |` (- bufs (conns s ! i))"
proof -
  define c where "c = conns s ! i"
  note D = net_invD [OF inv] and ok = net_invD(7) [OF inv i, folded c_def]
  define h1 where "h1 = kfree (recv_buf c) (heap s)"
  define h2 where "h2 = kfree (send_buf c) h1"
  have r: "recv_buf c = NULL \<or> live (heap s) (recv_buf c) \<noteq> None" and se: "send_buf c = NULL \<or> live (heap s) (send_buf c) \<noteq> None"
    using ok u [folded c_def] unfolding conn_ok_def bufs_def by fastforce+
  note h1 = kh.release_upd [OF D(1) r, folded h1_def]
  have "send_buf c = NULL \<or> live h1 (send_buf c) \<noteq> None"
    using se h1 ok u [folded c_def] by (auto simp: conn_ok_def)
  note h2 = kh.release_upd [OF h1(1) this, folded h2_def]
  have e: "tcp_free_connection i s = upd_conn i (in_use_update (\<lambda>_. False)) (s\<lparr>heap := h2\<rparr>)"
    using kh.release_NULL by (auto simp: tcp_free_connection_def Let_def h2_def h1_def c_def)
  have n: "live (heap s) NULL = None" by (rule kh.lv_NULL [OF D(1)])
  show l: "live (heap (tcp_free_connection i s)) = (live (heap s)) |` (- bufs (conns s ! i))"
    unfolding e using h1 h2 u n by (auto simp: c_def bufs_def restrict_map_def fun_eq_iff)
  have "conns_ok h2 ((conns s)[i := c\<lparr>in_use := False\<rparr>])"
  proof (rule conns_ok_update [OF D(4)])
    show "i < length (conns s)" using i D by simp
    show "conn_ok h2 (c\<lparr>in_use := False\<rparr>)" using st by (simp add: conn_ok_def c_def)
    fix j p assume j: "j < length (conns s)" "j \<noteq> i" "p \<in> bufs (conns s ! j)"
    have "p \<notin> bufs c" unfolding c_def using conns_ok_apart [OF D(4) _ j] i D(2) by simp
    moreover have "live h2 p = ((live (heap s)) |` (- bufs c)) p" using l unfolding e by (simp add: c_def)
    ultimately show "live h2 p = live (heap s) p" by simp
  qed simp
  then show "net_inv (tcp_free_connection i s)"
    unfolding e using D(5) h2(1) by (simp add: net_inv_def tables_ok_def c_def)
qed

text \<open>Taking a connection from the table: full when no slot is free, otherwise the first free slot with two fresh
  buffers, either of which may be \<^verbatim>\<open>NULL\<close>.\<close>

lemma two_buffers:
  assumes "heap_inv h"
  obtains rb sb h' where "do { (rb, h) \<leftarrow> kmalloc 65536 0 h; (sb, h) \<leftarrow> kmalloc 65536 0 h; Some (rb, sb, h) } = Some (rb, sb, h')"
    "heap_inv h'" "\<And>p. live h p \<noteq> None \<Longrightarrow> p \<noteq> rb \<and> p \<noteq> sb \<and> live h' p = live h p"
    "rb = sb \<Longrightarrow> rb = NULL" "\<And>p. p \<in> {rb, sb} - {NULL} \<Longrightarrow> \<exists>n \<ge> 65536. live h' p = Some n"
proof -
  have z: "unat (65536 :: u64) = 65536" by simp
  obtain rb h1 where k1: "kmalloc 65536 0 h = Some (rb, h1)" using kh.alloc_total [OF assms] by blast
  from kh.alloc_upd [OF assms k1] obtain e where e: "heap_inv h1" "live h1 = (live h)(rb := e)" "live h rb = None"
    "e = None \<longleftrightarrow> rb = NULL" "\<forall>n. e = Some n \<longrightarrow> unat (65536 :: u64) \<le> n" by blast
  obtain sb h2 where k2: "kmalloc 65536 0 h1 = Some (sb, h2)" using kh.alloc_total [OF e(1)] by blast
  from kh.alloc_upd [OF e(1) k2] obtain f where f: "heap_inv h2" "live h2 = (live h1)(sb := f)" "live h1 sb = None"
    "f = None \<longleftrightarrow> sb = NULL" "\<forall>n. f = Some n \<longrightarrow> unat (65536 :: u64) \<le> n" by blast
  show thesis
  proof (rule that [of rb sb h2])
    show "do { (rb, h) \<leftarrow> kmalloc 65536 0 h; (sb, h) \<leftarrow> kmalloc 65536 0 h; Some (rb, sb, h) } = Some (rb, sb, h2)"
      using k1 k2 by simp
    show "rb = NULL" if "rb = sb" using that e f by auto
    show "\<exists>n \<ge> 65536. live h2 p = Some n" if "p \<in> {rb, sb} - {NULL}" for p
      using that e(2-5) f(2-5) unfolding z by (cases e; cases f) (auto split: if_splits)
    show "p \<noteq> rb \<and> p \<noteq> sb \<and> live h2 p = live h p" if "live h p \<noteq> None" for p
      using that e(2,3) f(2,3) by (auto split: if_splits)
  qed (rule f(1))
qed

lemma tcp_alloc_connection_inv:
  assumes inv: "net_inv s"
  obtains "\<forall>i < MAX_TCP_CONNECTIONS. in_use (conns s ! i)" "tcp_alloc_connection s = Some (None, s)"
  | i s' where "tcp_alloc_connection s = Some (Some i, s')" "net_inv s'" "i < MAX_TCP_CONNECTIONS" "\<not> in_use (conns s ! i)"
      "conns s' = (conns s)[i := conns s' ! i]" "in_use (conns s' ! i)" "c_state (conns s' ! i) = TCP_CLOSED"
      "send_len (conns s' ! i) = 0" "recv_len (conns s' ! i) = 0" "num_interfaces s' = num_interfaces s"
      "interfaces s' = interfaces s" "next_ephemeral_port s' = next_ephemeral_port s"
proof (cases "find (\<lambda>i. \<not> in_use (conns s ! i)) [0..<MAX_TCP_CONNECTIONS]")
  case None
  then show thesis using that(1) by (simp add: tcp_alloc_connection_def) (simp add: find_upt_None)
next
  case (Some i)
  then have i: "i < MAX_TCP_CONNECTIONS" "\<not> in_use (conns s ! i)" by (auto simp: find_upt_Some)
  note D = net_invD [OF inv]
  obtain rb sb h' where B: "do { (rb, h) \<leftarrow> kmalloc 65536 0 (heap s); (sb, h) \<leftarrow> kmalloc 65536 0 h; Some (rb, sb, h) } = Some (rb, sb, h')"
    "heap_inv h'" "\<And>p. live (heap s) p \<noteq> None \<Longrightarrow> p \<noteq> rb \<and> p \<noteq> sb \<and> live h' p = live (heap s) p"
    "rb = sb \<Longrightarrow> rb = NULL" "\<And>p. p \<in> {rb, sb} - {NULL} \<Longrightarrow> \<exists>n \<ge> 65536. live h' p = Some n"
    using two_buffers [OF D(1)] by blast
  let ?f = "\<lambda>c. c\<lparr>in_use := True, c_state := TCP_CLOSED, recv_capacity := 65536, send_capacity := 65536, recv_buf := rb,
     send_buf := sb, recv_len := 0, send_len := 0, recv_wnd := 65535, send_wnd := 65535\<rparr>"
  define s' where "s' = upd_conn i ?f (s\<lparr>heap := h'\<rparr>)"
  have e: "tcp_alloc_connection s = Some (Some i, s')"
    using B(1) Some by (auto simp: tcp_alloc_connection_def s'_def split: bind_splits)
  have own: "live (heap s) p \<noteq> None" if "j < length (conns s)" "p \<in> bufs (conns s ! j)" for j p
    using D(4) that unfolding conns_ok_def conn_ok_def by fastforce
  have "conns_ok h' ((conns s)[i := ?f (conns s ! i)])"
  proof (rule conns_ok_update [OF D(4)])
    show "i < length (conns s)" using i D by simp
    show "conn_ok h' (?f (conns s ! i))" using B(4,5) by (simp add: conn_ok_def bufs_def)
    fix j assume j: "j < length (conns s)" "j \<noteq> i"
    have "bufs (?f (conns s ! i)) \<subseteq> {rb, sb}" by (auto simp: bufs_def)
    then show "bufs (?f (conns s ! i)) \<inter> bufs (conns s ! j) = {}" using B(3) [OF own [OF j(1)]] by blast
    show "live h' p = live (heap s) p" if "p \<in> bufs (conns s ! j)" for p using B(3) [OF own [OF j(1) that]] by simp
  qed
  then have "net_inv s'" using B(2) D(5) by (simp add: s'_def net_inv_def tables_ok_def)
  from that(2) [OF e this i] show thesis using i D(2) by (simp add: s'_def)
qed

text \<open>Sending a segment changes no connection and no live payload.\<close>

definition same_payloads :: "net \<Rightarrow> net \<Rightarrow> bool" where
  "same_payloads s s' \<longleftrightarrow> live (heap s') = live (heap s)
     \<and> (\<forall>q m. live (heap s) q = Some m \<longrightarrow> (\<forall>a. q \<le> a \<and> a < q + m \<longrightarrow> mem (heap s') a = mem (heap s) a))"

lemma tcp_send_packet_spec:
  assumes inv: "net_inv s" and d: "length data \<le> 65536"
  obtains r s' where "tcp_send_packet i flags data s = Some (r, s')" "net_inv s'" "conns s' = conns s"
    "num_interfaces s' = num_interfaces s" "same_payloads s s'" "r = 0 \<or> r = - 1"
    "r = 0 \<longleftrightarrow> num_interfaces s \<noteq> 0 \<and> can_alloc (of_nat (54 + length data)) (heap s)"
    "r = 0 \<Longrightarrow> if_send (interfaces s ! 0)
       \<Longrightarrow> wire s' = wire s @ [(0, tcp_frame (if_mac (interfaces s ! 0)) (conns s ! i) flags data)]"
proof (cases "num_interfaces s = 0")
  case True
  then show thesis using that [of "- 1" s] inv by (simp add: tcp_send_packet_def same_payloads_def)
next
  case False
  note D = net_invD [OF inv]
  let ?F = "tcp_frame (if_mac (interfaces s ! 0)) (conns s ! i) flags data"
  have F: "length ?F = 54 + length data"
    using D(6) by (rule tcp_frame_length)
  have n: "ETH_HLEN + 20 + (20 + length data) = 54 + length data" by (simp add: ETH_HLEN_def)
  have lt: "54 + length data < 2 ^ 64" using d by simp
  show thesis
  proof (rule send_built_spec [OF D(1), where build = "\<lambda>_. ?F", OF F lt])
    fix r s' assume a: "send_built (54 + length data) (\<lambda>_. ?F) s = Some (r, s')" "heap_inv (heap s')" "live (heap s') = live (heap s)"
      "conns s' = conns s" "num_interfaces s' = num_interfaces s" "map if_mac (interfaces s') = map if_mac (interfaces s)"
      "\<And>q m a. \<lbrakk> live (heap s) q = Some m; q \<le> a; a < q + m \<rbrakk> \<Longrightarrow> mem (heap s') a = mem (heap s) a"
      and w: "r = 0 \<and> can_alloc (of_nat (54 + length data)) (heap s)
         \<and> (\<exists>d. length d = ETH_ALEN \<and> wire s' = (if if_send (interfaces s ! 0) then wire s @ [(0, ?F)] else wire s))
       \<or> r = - 1 \<and> \<not> can_alloc (of_nat (54 + length data)) (heap s) \<and> wire s' = wire s"
    have "tcp_send_packet i flags data s = Some (r, s')"
      using False a(1) by (simp add: tcp_send_packet_def Let_def ETH_HLEN_def)
    moreover have "net_inv s'"
      using a(2-4) D(4,5) a(6) map_eq_imp_length_eq [OF a(6)]
      unfolding net_inv_def tables_ok_def by (simp add: conns_ok_live [OF a(3)])
    moreover have "same_payloads s s'" using a(3,7) by (simp add: same_payloads_def)
    ultimately show thesis using that a(4,5) w False by (metis zero_neq_neg_one)
  qed
qed

section \<open>Operations keep the invariant\<close>

lemma tcp_send_packet_field:
  assumes "net_inv s" and "i < MAX_TCP_CONNECTIONS" and "conn_ok (heap s) (f (conns s ! i))"
    and "bufs (f (conns s ! i)) \<subseteq> bufs (conns s ! i)"
  obtains r s' where "tcp_send_packet i flags [] (upd_conn i f s) = Some (r, s')" "net_inv s'"
    "conns s' = (conns s)[i := f (conns s ! i)]" "same_payloads s s'"
proof (rule tcp_send_packet_spec [OF net_inv_field [where f = f, OF assms], of "[]" i flags])
  fix r s' assume "tcp_send_packet i flags [] (upd_conn i f s) = Some (r, s')" "net_inv s'"
    "conns s' = conns (upd_conn i f s)" "same_payloads (upd_conn i f s) s'"
  then show thesis using that by (simp add: same_payloads_def)
qed simp

lemma tcp_connect_inv:
  assumes inv: "net_inv s"
  obtains r s' where "tcp_connect dest_ip dest_port s = Some (r, s')" "net_inv s'"
    "r = - 1 \<or> (\<exists>i < MAX_TCP_CONNECTIONS. r = int i \<and> \<not> in_use (conns s ! i) \<and> in_use (conns s' ! i)
        \<and> conns s' = (conns s)[i := conns s' ! i] \<and> c_state (conns s' ! i) = TCP_SYN_SENT \<and> remote_ip (conns s' ! i) = dest_ip
        \<and> remote_port (conns s' ! i) = dest_port \<and> local_port (conns s' ! i) = next_ephemeral_port s)"
proof (rule tcp_alloc_connection_inv [OF inv])
  assume "tcp_alloc_connection s = Some (None, s)"
  then show thesis using that [of "- 1" s] inv by (simp add: tcp_connect_def)
next
  fix i s1 assume a: "tcp_alloc_connection s = Some (Some i, s1)" "net_inv s1" "i < MAX_TCP_CONNECTIONS" "\<not> in_use (conns s ! i)"
    "conns s1 = (conns s)[i := conns s1 ! i]" "in_use (conns s1 ! i)" "c_state (conns s1 ! i) = TCP_CLOSED"
    "send_len (conns s1 ! i) = 0" "recv_len (conns s1 ! i) = 0" "next_ephemeral_port s1 = next_ephemeral_port s"
  show thesis
  proof (cases "num_interfaces s1 = 0")
    case True
    then show thesis
      using that [of "- 1" "tcp_free_connection i s1"] a tcp_free_connection_inv(1) [OF a(2,3,6)] by (simp add: tcp_connect_def)
  next
    case False
    define s2 where "s2 = snd (tcp_generate_isn (s1\<lparr>next_ephemeral_port :=
       (if next_ephemeral_port s1 + 1 > 65000 then 49152 else next_ephemeral_port s1 + 1)\<rparr>))"
    have s2: "net_inv s2" "conns s2 = conns s1" using a(2) by (simp_all add: s2_def tcp_generate_isn_def Let_def)
    define f where "f = (\<lambda>c :: tcp_connection. c\<lparr>local_ip := if_ip (interfaces s1 ! 0), local_port := next_ephemeral_port s1, remote_ip := dest_ip,
       remote_port := dest_port, c_seq := tcp_isn_counter s2, c_ack := 0, c_state := TCP_SYN_SENT\<rparr>)"
    have ok: "conn_ok (heap s2) (f (conns s2 ! i))" and b: "bufs (f (conns s2 ! i)) \<subseteq> bufs (conns s2 ! i)"
      using net_invD(7) [OF s2(1) a(3)] by (simp_all add: f_def conn_ok_def)
    have i: "i < length (conns s1)" "i < length (conns s)" using a(3) net_invD(2) a(2) inv by simp_all
    obtain ret s3 where t: "tcp_send_packet i TCP_SYN [] (upd_conn i f s2) = Some (ret, s3)" "net_inv s3"
      "conns s3 = (conns s2)[i := f (conns s2 ! i)]"
      using tcp_send_packet_field [where f = f, OF s2(1) a(3) ok b] by blast
    have c3: "conns s3 ! i = f (conns s1 ! i)" using t(3) s2 i by simp
    have e: "tcp_connect dest_ip dest_port s = (if ret < 0 then Some (- 1, tcp_free_connection i s3)
       else Some (int i, upd_conn i (\<lambda>c. c\<lparr>c_seq := c_seq c + 1\<rparr>) s3))"
      using a(1) False t(1) by (simp add: tcp_connect_def Let_def s2_def f_def tcp_generate_isn_def)
    show thesis
    proof (cases "ret < 0")
      case True
      have "net_inv (tcp_free_connection i s3)"
        using tcp_free_connection_inv(1) [OF t(2) a(3)] a(6) c3 by (simp add: f_def)
      then show thesis using that e True by simp
    next
      case False
      have "net_inv (upd_conn i (\<lambda>c. c\<lparr>c_seq := c_seq c + 1\<rparr>) s3)"
        using net_invD(7) [OF t(2) a(3)] by (intro net_inv_field [OF t(2) a(3)]) (simp_all add: conn_ok_def)
      moreover have "(conns s1)[i := x] = (conns s)[i := x]" for x using a(5) by (metis list_update_overwrite)
      ultimately show thesis
        using that [of "int i"] e False a(3,4,6,10) t(3) s2 i by (auto simp: f_def)
    qed
  qed
qed

text \<open>The unread data of a connection.\<close>

definition recv_data :: "net \<Rightarrow> nat \<Rightarrow> bytes" where
  "recv_data s i = read_bytes (mem (heap s)) (recv_buf (conns s ! i)) (unat (recv_len (conns s ! i)))"

lemma conn_okD:
  assumes "net_inv s" and "i < MAX_TCP_CONNECTIONS" and "in_use (conns s ! i)"
  shows "unat (recv_len (conns s ! i)) \<le> 65536" "unat (send_len (conns s ! i)) \<le> 65536"
    "recv_capacity (conns s ! i) = 65536" "send_capacity (conns s ! i) = 65536"
    "recv_buf (conns s ! i) = NULL \<Longrightarrow> recv_len (conns s ! i) = 0"
    "p \<in> bufs (conns s ! i) \<Longrightarrow> \<exists>n \<ge> 65536. live (heap s) p = Some n"
    "recv_buf (conns s ! i) \<noteq> NULL \<Longrightarrow> recv_buf (conns s ! i) \<in> bufs (conns s ! i)"
    "send_buf (conns s ! i) \<noteq> NULL \<Longrightarrow> send_buf (conns s ! i) \<in> bufs (conns s ! i)"
    "recv_buf (conns s ! i) \<noteq> NULL \<Longrightarrow> recv_buf (conns s ! i) \<noteq> send_buf (conns s ! i)"
  using net_invD(7) [OF assms(1,2)] assms(3) by (auto simp: conn_ok_def word_le_nat_alt bufs_def)

text \<open>Writing inside one buffer does not touch unread data in another.\<close>

lemma recv_data_apart:
  assumes inv: "net_inv s" and i: "i < MAX_TCP_CONNECTIONS" "in_use (conns s ! i)" "p \<in> bufs (conns s ! i)"
    and j: "j < MAX_TCP_CONNECTIONS" "in_use (conns s ! j)" and ne: "recv_buf (conns s ! j) \<noteq> p"
    and m: "\<And>a. \<not> (p \<le> a \<and> a < p + 65536) \<Longrightarrow> m' a = mem (heap s) a"
  shows "read_bytes m' (recv_buf (conns s ! j)) (unat (recv_len (conns s ! j))) = recv_data s j"
proof (cases "recv_buf (conns s ! j) = NULL")
  case True
  then show ?thesis using conn_okD(5) [OF inv j] by (simp add: recv_data_def read_bytes_def)
next
  case False
  obtain n where n: "65536 \<le> n" "live (heap s) p = Some n" using conn_okD(6) [OF inv i(1,2)] i(3) by blast
  obtain k where k: "65536 \<le> k" "live (heap s) (recv_buf (conns s ! j)) = Some k"
    using conn_okD(6) [OF inv j] conn_okD(7) [OF inv j False] by blast
  have "p + n \<le> recv_buf (conns s ! j) \<or> recv_buf (conns s ! j) + k \<le> p"
    using kh.lv_apart [OF net_invD(1) [OF inv]] n(2) k(2) ne by (metis linorder_neqE_nat)
  then show ?thesis unfolding recv_data_def
    by (intro read_bytes_cong m) (use n(1) k(1) conn_okD(1) [OF inv j] in linarith)
qed

lemma recv_data_same:
  assumes "net_inv s" and "j < MAX_TCP_CONNECTIONS" and "in_use (conns s ! j)" and "same_payloads s s'"
    and "recv_buf (conns s' ! j) = recv_buf (conns s ! j)" and "recv_len (conns s' ! j) = recv_len (conns s ! j)"
  shows "recv_data s' j = recv_data s j"
proof (cases "recv_buf (conns s ! j) = NULL")
  case True
  then show ?thesis using conn_okD(5) [OF assms(1-3)] assms(6) by (simp add: recv_data_def read_bytes_def)
next
  case False
  obtain k where k: "65536 \<le> k" "live (heap s) (recv_buf (conns s ! j)) = Some k"
    using conn_okD(6,7) [OF assms(1-3)] False by blast
  show ?thesis unfolding recv_data_def assms(5,6)
    using k conn_okD(1) [OF assms(1-3)] assms(4) by (intro read_bytes_cong) (auto simp: same_payloads_def)
qed

lemma read_bytes_take: "read_bytes m p (min k n) = take k (read_bytes m p n)"
  by (simp add: read_bytes_def take_map min_def)

lemma read_bytes_shift: "k \<le> n \<Longrightarrow> read_bytes (byte_copy (n - k) p (p + k) m) p (n - k) = drop k (read_bytes m p n)"
  by (rule nth_equalityI) (auto simp: byte_copy_eq add.assoc)

text \<open>Buffers of different connections in use differ.\<close>

lemma other_buf:
  assumes "net_inv s" and "i < MAX_TCP_CONNECTIONS" and "p \<in> bufs (conns s ! i)"
    and "j < MAX_TCP_CONNECTIONS" and "in_use (conns s ! j)" and "j \<noteq> i"
  shows "recv_buf (conns s ! j) \<noteq> p"
proof
  assume e: "recv_buf (conns s ! j) = p"
  then have "recv_buf (conns s ! j) \<noteq> NULL" using assms(3) by (auto simp: bufs_def split: if_splits)
  with e have "p \<in> bufs (conns s ! j)" using conn_okD(7) [OF assms(1,4,5)] by simp
  with conns_ok_apart [OF net_invD(4) [OF assms(1)], of i j p] show False
    using assms net_invD(2) [OF assms(1)] by simp
qed

lemma tcp_recv_spec:
  assumes inv: "net_inv s" and i: "i < MAX_TCP_CONNECTIONS" "in_use (conns s ! i)"
  obtains s' where "tcp_recv i n s = ((int (min n (length (recv_data s i))), take n (recv_data s i)), s')" "net_inv s'"
    "recv_data s' i = drop n (recv_data s i)"
    "\<And>j. \<lbrakk> j < MAX_TCP_CONNECTIONS; in_use (conns s ! j); j \<noteq> i \<rbrakk> \<Longrightarrow> conns s' ! j = conns s ! j \<and> recv_data s' j = recv_data s j"
proof -
  define c where "c = conns s ! i"
  define l where "l = unat (recv_len c)"
  define k where "k = min n l"
  have len: "length (recv_data s i) = l" by (simp add: recv_data_def c_def l_def)
  note ok = conn_okD [OF inv i, folded c_def]
  show thesis
  proof (cases "l = 0")
    case True
    then show thesis using that [of s] inv len by (simp add: tcp_recv_def c_def l_def)
  next
    case False
    then have b: "recv_buf c \<noteq> NULL" using ok(5) by (metis l_def unsigned_0)
    let ?m = "byte_copy (l - k) (recv_buf c) (recv_buf c + k) (mem (heap s))"
    define s' where "s' = upd_conn i (\<lambda>c. c\<lparr>recv_len := recv_len c - of_nat k\<rparr>) (upd_mem (\<lambda>_. ?m) s)"
    have k: "k \<le> l" "l \<le> 65536" using ok(1) by (simp_all add: k_def l_def)
    have u: "unat (recv_len c - of_nat k) = l - k"
    proof -
      have "of_nat k \<le> recv_len c" using k by (simp add: word_le_nat_alt l_def [symmetric] unat_of_nat_small)
      then show ?thesis using k by (simp add: unat_sub l_def [symmetric] unat_of_nat_small)
    qed
    have e: "tcp_recv i n s = ((int k, read_bytes (mem (heap s)) (recv_buf c) k), s')"
      using False by (simp add: tcp_recv_def Let_def c_def l_def k_def min_def s'_def upd_mem_def)
    have "read_bytes (mem (heap s)) (recv_buf c) k = take n (recv_data s i)"
      unfolding recv_data_def c_def [symmetric] l_def [symmetric] k_def by (rule read_bytes_take)
    with e have e: "tcp_recv i n s = ((int (min n (length (recv_data s i))), take n (recv_data s i)), s')"
      by (simp add: len k_def)
    have L: "i < length (conns s)" using i net_invD(2) [OF inv] by simp
    have "net_inv s'" unfolding s'_def
      using net_invD(7) [OF inv i(1)] u k
      by (intro net_inv_field) (auto simp: inv i conn_ok_def c_def [symmetric] word_le_nat_alt b)
    moreover have "recv_data s' i = drop n (recv_data s i)"
      using read_bytes_shift [OF k(1), of "recv_buf c" "mem (heap s)"] L u len
      by (simp add: recv_data_def s'_def c_def [symmetric] l_def [symmetric] k_def min_def split: if_splits)
    moreover have "conns s' ! j = conns s ! j \<and> recv_data s' j = recv_data s j"
      if j: "j < MAX_TCP_CONNECTIONS" "in_use (conns s ! j)" "j \<noteq> i" for j
    proof -
      have p: "recv_buf c \<in> bufs (conns s ! i)" using ok(7) b by (simp add: c_def)
      have "read_bytes ?m (recv_buf (conns s ! j)) (unat (recv_len (conns s ! j))) = recv_data s j"
        using k by (intro recv_data_apart [OF inv i p j(1,2) other_buf [OF inv i(1) p j]]) (auto simp: byte_copy_eq)
      then show ?thesis using j by (simp add: recv_data_def s'_def)
    qed
    ultimately show thesis using that [OF e] by blast
  qed
qed

lemma same_payloads_recv:
  assumes "net_inv s" and "same_payloads s s'" and "conns s' = conns s" and "j < MAX_TCP_CONNECTIONS" and "in_use (conns s ! j)"
  shows "recv_data s' j = recv_data s j"
  using recv_data_same [OF assms(1,4,5,2)] assms(3) by simp

lemma tcp_frame_fields [simp]:
  "tcp_frame mac (c\<lparr>send_len := n\<rparr>) flags data = tcp_frame mac c flags data"
  by (simp add: tcp_frame_def tcp_segment_def)

text \<open>Writing \<open>data\<close> into one of a connection's buffers, at offset \<open>off\<close>.\<close>

lemma poke_recv_data:
  assumes "net_inv s" and "i < MAX_TCP_CONNECTIONS" and "in_use (conns s ! i)" and "p \<in> bufs (conns s ! i)"
    and "j < MAX_TCP_CONNECTIONS" and "in_use (conns s ! j)" and "recv_buf (conns s ! j) \<noteq> p" and "off + length data \<le> 65536"
  shows "recv_data (upd_mem (poke (p + off) data) s) j = recv_data s j"
proof -
  have "read_bytes (poke (p + off) data (mem (heap s))) (recv_buf (conns s ! j)) (unat (recv_len (conns s ! j))) = recv_data s j"
    using assms(8) by (intro recv_data_apart [OF assms(1-7)]) (auto simp: poke_eq)
  then show ?thesis by (simp add: recv_data_def)
qed

lemma can_alloc_mem [simp]: "can_alloc sz (h\<lparr>mem := m\<rparr>) = can_alloc sz h"
  by (simp add: can_alloc_def)

definition queue_data :: "nat \<Rightarrow> bytes \<Rightarrow> net \<Rightarrow> net" where
  "queue_data i data s =
     upd_conn i (\<lambda>c. c\<lparr>send_len := send_len c + of_nat (length data)\<rparr>)
       (upd_mem (poke (send_buf (conns s ! i) + unat (send_len (conns s ! i))) data) s)"

lemma queue_data_spec:
  assumes inv: "net_inv s" and i: "i < MAX_TCP_CONNECTIONS" and u: "in_use (conns s ! i)"
    and sb: "send_buf (conns s ! i) \<noteq> NULL" and fits: "unat (send_len (conns s ! i)) + length data \<le> 65536"
  shows "net_inv (queue_data i data s)"
    and "unat (send_len (conns s ! i) + of_nat (length data)) = unat (send_len (conns s ! i)) + length data"
    and "\<And>j. \<lbrakk> j < MAX_TCP_CONNECTIONS; in_use (conns s ! j) \<rbrakk> \<Longrightarrow> recv_data (queue_data i data s) j = recv_data s j"
proof -
  note ok = conn_okD [OF inv i u]
  show n: "unat (send_len (conns s ! i) + of_nat (length data)) = unat (send_len (conns s ! i)) + length data"
    using fits by (subst unat_add_lem [THEN iffD1]) (simp_all add: unat_of_nat_small)
  have L: "i < length (conns s)" using i net_invD(2) [OF inv] by simp
  show "net_inv (queue_data i data s)" unfolding queue_data_def
    using net_invD(7) [OF inv i] n fits by (intro net_inv_field) (auto simp: inv i conn_ok_def word_le_nat_alt)
  fix j assume j: "j < MAX_TCP_CONNECTIONS" "in_use (conns s ! j)"
  have p: "send_buf (conns s ! i) \<in> bufs (conns s ! i)" using ok(8) sb by simp
  have "recv_buf (conns s ! j) \<noteq> send_buf (conns s ! i)"
    using other_buf [OF inv i p j] ok(9) sb by (cases "j = i") auto
  with poke_recv_data [OF inv i u p j this fits] show "recv_data (queue_data i data s) j = recv_data s j"
    using L by (cases "j = i") (simp_all add: recv_data_def queue_data_def)
qed

lemma tcp_send_spec:
  assumes inv: "net_inv s" and i: "i < MAX_TCP_CONNECTIONS" and st: "c_state (conns s ! i) = TCP_ESTABLISHED"
    and sb: "send_buf (conns s ! i) \<noteq> NULL" and fits: "unat (send_len (conns s ! i)) + length data \<le> 65536"
  obtains r s' where "tcp_send i data s = Some (r, s')" "net_inv s'"
    "r = (if num_interfaces s \<noteq> 0 \<and> can_alloc (of_nat (54 + length data)) (heap s) then int (length data) else - 1)"
    "0 \<le> r \<Longrightarrow> c_seq (conns s' ! i) = c_seq (conns s ! i) + of_nat (length data)"
    "0 \<le> r \<Longrightarrow> if_send (interfaces s ! 0)
       \<Longrightarrow> wire s' = wire s @ [(0, tcp_frame (if_mac (interfaces s ! 0)) (conns s ! i) (TCP_PSH OR TCP_ACK) data)]"
    "unat (send_len (conns s' ! i)) = unat (send_len (conns s ! i)) + length data"
    "\<And>j. \<lbrakk> j < MAX_TCP_CONNECTIONS; in_use (conns s ! j) \<rbrakk> \<Longrightarrow> recv_data s' j = recv_data s j"
    "\<And>j. j \<noteq> i \<Longrightarrow> conns s' ! j = conns s ! j" "c_state (conns s' ! i) = TCP_ESTABLISHED"
proof -
  have u: "in_use (conns s ! i)" using net_invD(7) [OF inv i] st by (simp add: conn_ok_def)
  define s2 where "s2 = queue_data i data s"
  note Q = queue_data_spec [OF inv i u sb fits, folded s2_def]
  have L: "i < length (conns s)" using i net_invD(2) [OF inv] by simp
  have s2: "conns s2 = (conns s)[i := (conns s ! i)\<lparr>send_len := send_len (conns s ! i) + of_nat (length data)\<rparr>]"
    "interfaces s2 = interfaces s" "num_interfaces s2 = num_interfaces s" "wire s2 = wire s"
    "can_alloc z (heap s2) = can_alloc z (heap s)" for z by (simp_all add: s2_def queue_data_def)
  have d: "length data \<le> 65536" using fits by simp
  have "\<not> send_len (conns s ! i) + of_nat (length data) > send_capacity (conns s ! i)"
    using Q(2) fits conn_okD(4) [OF inv i u] by (simp add: not_less word_le_nat_alt)
  then have e: "tcp_send i data s = (case tcp_send_packet i (TCP_PSH OR TCP_ACK) data s2 of None \<Rightarrow> None
     | Some (ret, s) \<Rightarrow> if ret = 0 then Some (int (length data), upd_conn i (\<lambda>c. c\<lparr>c_seq := c_seq c + of_nat (length data)\<rparr>) s)
                        else Some (- 1, s))"
    using st sb by (simp add: tcp_send_def Let_def s2_def queue_data_def)
  show thesis
  proof (rule tcp_send_packet_spec [OF Q(1) d, of i "TCP_PSH OR TCP_ACK"])
    fix r s3 assume t: "tcp_send_packet i (TCP_PSH OR TCP_ACK) data s2 = Some (r, s3)" "net_inv s3" "conns s3 = conns s2"
      "same_payloads s2 s3"
      "r = 0 \<longleftrightarrow> num_interfaces s2 \<noteq> 0 \<and> can_alloc (of_nat (54 + length data)) (heap s2)"
      and w: "r = 0 \<Longrightarrow> if_send (interfaces s2 ! 0)
        \<Longrightarrow> wire s3 = wire s2 @ [(0, tcp_frame (if_mac (interfaces s2 ! 0)) (conns s2 ! i) (TCP_PSH OR TCP_ACK) data)]"
    have rd: "recv_data s3 j = recv_data s j" if "j < MAX_TCP_CONNECTIONS" "in_use (conns s ! j)" for j
      using same_payloads_recv [OF Q(1) t(4,3), of j] Q(3) [OF that] that L by (cases "j = i") (simp_all add: s2)
    let ?f = "\<lambda>c. c\<lparr>c_seq := c_seq c + of_nat (length data)\<rparr>"
    show thesis
    proof (cases "r = 0")
      case True
      have "recv_data (upd_conn i ?f s3) j = recv_data s3 j" for j
        using L by (cases "j = i") (simp_all add: recv_data_def t(3) s2)
      moreover have "net_inv (upd_conn i ?f s3)"
        using net_invD(7) [OF t(2) i] by (intro net_inv_field [OF t(2) i]) (simp_all add: conn_ok_def)
      ultimately show thesis
        using that [of "int (length data)" "upd_conn i ?f s3"] e t True w rd L Q(2) st by (simp add: s2)
    next
      case False
      then show thesis using that [of "- 1" s3] e t rd L Q(2) st by (simp add: s2)
    qed
  qed
qed

text \<open>Received data.\<close>

lemma copy_in_eq: "k + n \<le> length frame \<Longrightarrow> copy_in n frame k p m = Some (poke p (take n (drop k frame)) m)"
proof (induction n arbitrary: k p m)
  case (Suc n)
  then have "take (Suc n) (drop k frame) = frame ! k # take n (drop (k + 1) frame)"
    by (simp add: Cons_nth_drop_Suc [symmetric])
  then show ?case using Suc by (simp add: fun_upd_def)
qed simp

lemma upd_conn_upd: "i < length (conns s) \<Longrightarrow> upd_conn i f (upd_conn i g s) = upd_conn i (\<lambda>c. f (g c)) s"
  by (simp add: upd_conn_def)

lemma send_ack_field:
  assumes "net_inv s" and "i < MAX_TCP_CONNECTIONS" and "conn_ok (heap s) (f (conns s ! i))"
    and "bufs (f (conns s ! i)) \<subseteq> bufs (conns s ! i)"
  obtains s' where "send_ack i (upd_conn i f s) = Some s'" "net_inv s'"
    "conns s' = (conns s)[i := f (conns s ! i)]" "same_payloads s s'"
proof (rule tcp_send_packet_field [where f = f, OF assms])
  fix r s' assume "tcp_send_packet i TCP_ACK [] (upd_conn i f s) = Some (r, s')" "net_inv s'"
    "conns s' = (conns s)[i := f (conns s ! i)]" "same_payloads s s'"
  then show thesis using that by (simp add: send_ack_def)
qed

lemma read_bytes_append: "read_bytes m p (n + k) = read_bytes m p n @ read_bytes m (p + n) k"
  by (rule nth_equalityI) (auto simp: nth_append)

lemma tcp_input_data:
  assumes inv: "net_inv s" and i: "i < MAX_TCP_CONNECTIONS" and st: "c_state (conns s ! i) = TCP_ESTABLISHED"
    and nofin: "flags AND TCP_FIN = 0" and rb: "recv_buf (conns s ! i) \<noteq> NULL" and dl: "0 < dl"
    and fits: "unat (recv_len (conns s ! i)) + unat dl \<le> 65536" and fr: "doff + unat dl \<le> length frame"
  obtains s' where "tcp_input i sq flags dl frame doff s = Some s'" "net_inv s'"
    "recv_data s' i = recv_data s i @ take (unat dl) (drop doff frame)" "c_ack (conns s' ! i) = sq + ucast dl" "in_use (conns s' ! i)"
    "\<And>j. \<lbrakk> j < MAX_TCP_CONNECTIONS; in_use (conns s ! j); j \<noteq> i \<rbrakk> \<Longrightarrow> recv_data s' j = recv_data s j"
proof -
  have u: "in_use (conns s ! i)" using net_invD(7) [OF inv i] st by (simp add: conn_ok_def)
  define c where "c = conns s ! i"
  note ok = conn_okD [OF inv i u, folded c_def]
  let ?d = "take (unat dl) (drop doff frame)"
  have dlen: "length ?d = unat dl" using fr by simp
  define s1 where "s1 = upd_mem (poke (recv_buf c + unat (recv_len c)) ?d) s"
  have n: "unat (recv_len c + dl) = unat (recv_len c) + unat dl"
    using fits by (subst unat_add_lem [THEN iffD1]) (simp_all add: c_def)
  let ?f = "\<lambda>c. (c\<lparr>recv_len := recv_len c + dl\<rparr>)\<lparr>c_ack := sq + ucast dl\<rparr>"
  have L: "i < length (conns s)" using i net_invD(2) [OF inv] by simp
  have "recv_len c + dl \<le> recv_capacity c" using n fits ok(3) by (simp add: word_le_nat_alt c_def)
  then have e: "tcp_input i sq flags dl frame doff s = send_ack i (upd_conn i ?f s1)"
    using st nofin dl rb copy_in_eq [OF fr] L
    by (simp add: tcp_input_def Let_def c_def s1_def upd_conn_upd upd_mem_def)
  have ok1: "conn_ok (heap s1) (?f (conns s1 ! i))"
    using net_invD(7) [OF inv i] n fits rb by (auto simp: s1_def conn_ok_def word_le_nat_alt c_def [symmetric])
  obtain s' where t: "send_ack i (upd_conn i ?f s1) = Some s'" "net_inv s'"
    "conns s' = (conns s1)[i := ?f (conns s1 ! i)]" "same_payloads s1 s'"
    by (rule send_ack_field [where f = ?f, OF _ i ok1]) (simp_all add: s1_def inv)
  note pb = ok(7) [OF rb [folded c_def]]
  have inv1: "net_inv s1" by (simp add: s1_def inv)
  have c1: "conns s1 = conns s" by (simp add: s1_def)
  have other: "recv_data s' j = recv_data s j" if j: "j < MAX_TCP_CONNECTIONS" "in_use (conns s ! j)" "j \<noteq> i" for j
  proof -
    have "recv_data s1 j = recv_data s j"
      unfolding s1_def c_def using fits dlen pb
      by (intro poke_recv_data [OF inv i u _ j(1,2) other_buf [OF inv i _ j]]) (simp_all add: c_def)
    then show ?thesis using recv_data_same [OF inv1 _ _ t(4), of j] j t(3) by (simp add: c1)
  qed
  have "recv_data s' i = read_bytes (mem (heap s1)) (recv_buf c) (unat (recv_len c) + unat dl)"
  proof -
    obtain k where k: "65536 \<le> k" "live (heap s) (recv_buf c) = Some k" using ok(6) pb by blast
    have "recv_data s' i = read_bytes (mem (heap s')) (recv_buf c) (unat (recv_len c) + unat dl)"
      using t(3) L n by (simp add: recv_data_def c1 c_def)
    also have "\<dots> = read_bytes (mem (heap s1)) (recv_buf c) (unat (recv_len c) + unat dl)"
      using t(4) k fits by (intro read_bytes_cong) (simp add: same_payloads_def s1_def c_def)
    finally show ?thesis .
  qed
  also have "\<dots> = recv_data s i @ ?d"
  proof -
    have "read_bytes (mem (heap s1)) (recv_buf c) (unat (recv_len c)) = recv_data s i"
      unfolding recv_data_def c_def by (intro read_bytes_cong) (simp add: s1_def poke_eq c_def)
    moreover have "read_bytes (mem (heap s1)) (recv_buf c + unat (recv_len c)) (unat dl) = ?d"
      using read_bytes_poke [of "recv_buf c + unat (recv_len c)" ?d] dlen by (simp add: s1_def)
    ultimately show ?thesis unfolding read_bytes_append by simp
  qed
  finally have "recv_data s' i = recv_data s i @ ?d" .
  then show thesis using that [of s'] e t(1,2,3) other L u by (simp add: c1)
qed

lemma set_state_inv:
  assumes "net_inv s" and "i < MAX_TCP_CONNECTIONS" and "in_use (conns s ! i)"
  shows "net_inv (upd_conn i (c_state_update (\<lambda>_. st)) s)" and "net_inv (upd_conn i (c_ack_update (\<lambda>_. a)) s)"
  using net_invD(7) [OF assms(1,2)] assms(3) by (auto intro!: net_inv_field assms simp: conn_ok_def)

text \<open>Acknowledging after a change of state or acknowledgement number, and freeing after a change of state.\<close>

lemma ack_inv:
  assumes "net_inv s"
  obtains s' where "send_ack i s = Some s'" "net_inv s'" "conns s' = conns s"
proof (rule tcp_send_packet_spec [OF assms, of "[]" i TCP_ACK])
  fix r s' assume "tcp_send_packet i TCP_ACK [] s = Some (r, s')" "net_inv s'" "conns s' = conns s"
  then show thesis using that by (simp add: send_ack_def)
qed simp

lemma free_state_inv:
  assumes "net_inv s" and "i < MAX_TCP_CONNECTIONS" and "in_use (conns s ! i)" and "st \<noteq> TCP_ESTABLISHED"
  shows "net_inv (tcp_free_connection i (upd_conn i (c_state_update (\<lambda>_. st)) s))"
  using assms set_state_inv(1) [OF assms(1-3)] net_invD(2) [OF assms(1)] by (intro tcp_free_connection_inv(1)) simp_all

lemma ack_state_inv:
  assumes "net_inv s" and "i < MAX_TCP_CONNECTIONS" and "in_use (conns s ! i)"
  shows "\<exists>s'. send_ack i (upd_conn i (c_state_update (\<lambda>_. st)) (upd_conn i (c_ack_update (\<lambda>_. a)) s)) = Some s' \<and> net_inv s'"
    and "\<exists>s'. send_ack i (upd_conn i (c_ack_update (\<lambda>_. a)) s) = Some s' \<and> net_inv s' \<and> in_use (conns s' ! i)
           \<and> c_state (conns s' ! i) = c_state (conns s ! i)"
proof -
  have L: "i < length (conns s)" using assms(2) net_invD(2) [OF assms(1)] by simp
  note S = set_state_inv(2) [OF assms, of a]
  have "in_use (conns (upd_conn i (c_ack_update (\<lambda>_. a)) s) ! i)" using assms(3) L by simp
  from ack_inv [OF set_state_inv(1) [OF S assms(2) this, of st], of i]
  show "\<exists>s'. send_ack i (upd_conn i (c_state_update (\<lambda>_. st)) (upd_conn i (c_ack_update (\<lambda>_. a)) s)) = Some s' \<and> net_inv s'"
    by blast
  obtain s' where "send_ack i (upd_conn i (c_ack_update (\<lambda>_. a)) s) = Some s'" "net_inv s'"
    "conns s' = conns (upd_conn i (c_ack_update (\<lambda>_. a)) s)" by (rule ack_inv [OF S])
  then show "\<exists>s'. send_ack i (upd_conn i (c_ack_update (\<lambda>_. a)) s) = Some s' \<and> net_inv s' \<and> in_use (conns s' ! i)
           \<and> c_state (conns s' ! i) = c_state (conns s ! i)"
    using assms(3) L by simp
qed

text \<open>The branches that acknowledge a \<^verbatim>\<open>FIN\<close> and then change state.\<close>

lemma ack_then_state_inv:
  assumes "net_inv s" and "i < MAX_TCP_CONNECTIONS" and "in_use (conns s ! i)"
  shows "\<exists>s'. do { s \<leftarrow> send_ack i (upd_conn i (c_ack_update (\<lambda>_. a)) s);
              Some (upd_conn i (c_state_update (\<lambda>_. f s)) s) } = Some s' \<and> net_inv s'"
proof -
  obtain s1 where "send_ack i (upd_conn i (c_ack_update (\<lambda>_. a)) s) = Some s1" "net_inv s1" "in_use (conns s1 ! i)"
    using ack_state_inv(2) [OF assms] by blast
  then show ?thesis using set_state_inv(1) [OF _ assms(2)] by simp
qed

text \<open>The state machine without the data branch.\<close>

lemma tcp_input_ctl_inv:
  assumes inv: "net_inv s" and i: "i < MAX_TCP_CONNECTIONS" and u: "in_use (conns s ! i)"
    and ctl: "\<not> (c_state (conns s ! i) = TCP_ESTABLISHED \<and> flags AND TCP_FIN = 0 \<and> 0 < dl)"
  shows "\<exists>s'. tcp_input i sq flags dl frame doff s = Some s' \<and> net_inv s'"
proof -
  have L: "i < length (conns s)" using i net_invD(2) [OF inv] by simp
  note S = set_state_inv(1) [OF inv i u]
  note A = ack_state_inv(1) [OF inv i u] and F = free_state_inv [OF inv i u] and T = ack_then_state_inv [OF inv i u]
  show ?thesis
  proof (cases "c_state (conns s ! i)")
    case TCP_FIN_WAIT_1
    define s1 where "s1 = (if flags AND TCP_ACK \<noteq> 0 then upd_conn i (c_state_update (\<lambda>_. TCP_FIN_WAIT_2)) s else s)"
    have s1: "net_inv s1" "in_use (conns s1 ! i)" using S inv u L by (simp_all add: s1_def)
    from ack_then_state_inv [OF s1(1) i s1(2)] show ?thesis
      using TCP_FIN_WAIT_1 s1(1) unfolding tcp_input_def Let_def s1_def [symmetric] by auto
  next
    case TCP_SYN_SENT
    then show ?thesis using A F [of TCP_CLOSED] inv by (simp add: tcp_input_def Let_def)
  next
    case TCP_ESTABLISHED
    then show ?thesis using A ctl inv by (auto simp: tcp_input_def Let_def)
  next
    case TCP_FIN_WAIT_2
    then show ?thesis using T [where f = "\<lambda>_. TCP_TIME_WAIT"] inv
      by (auto simp: tcp_input_def Let_def map_conv_bind_option comp_def)
  next
    case TCP_TIME_WAIT
    then show ?thesis using tcp_free_connection_inv(1) [OF inv i u] by (simp add: tcp_input_def)
  qed (use S F [of TCP_CLOSED] inv in \<open>simp_all add: tcp_input_def Let_def\<close>)
qed

lemma tcp_input_inv:
  assumes inv: "net_inv s" and i: "i < MAX_TCP_CONNECTIONS" and u: "in_use (conns s ! i)"
    and rb: "recv_buf (conns s ! i) \<noteq> NULL" and fr: "doff + unat dl \<le> length frame" and small: "length frame < 2 ^ 63"
  shows "\<exists>s'. tcp_input i sq flags dl frame doff s = Some s' \<and> net_inv s'"
proof (cases "c_state (conns s ! i) = TCP_ESTABLISHED \<and> flags AND TCP_FIN = 0 \<and> 0 < dl")
  case True
  show ?thesis
  proof (cases "recv_len (conns s ! i) + dl \<le> recv_capacity (conns s ! i)")
    case fits: True
    have "unat dl < 2 ^ 63" using fr small by simp
    then have "unat (recv_len (conns s ! i) + dl) = unat (recv_len (conns s ! i)) + unat dl"
      using conn_okD(1) [OF inv i u] by (subst unat_add_lem [THEN iffD1]) simp_all
    with fits have "unat (recv_len (conns s ! i)) + unat dl \<le> 65536"
      using conn_okD(3) [OF inv i u] by (simp add: word_le_nat_alt)
    with True show ?thesis using tcp_input_data [OF inv i _ _ rb _ _ fr] by metis
  next
    case False
    with True show ?thesis using inv by (simp add: tcp_input_def Let_def)
  qed
qed (rule tcp_input_ctl_inv [OF inv i u])

lemma tcp_close_inv:
  assumes inv: "net_inv s" and i: "i < MAX_TCP_CONNECTIONS"
  shows "\<exists>r s'. tcp_close (Some i) s = Some (r, s') \<and> net_inv s' \<and> r = (if in_use (conns s ! i) then 0 else - 1)
    \<and> (in_use (conns s ! i) \<longrightarrow> (c_state (conns s ! i), c_state (conns s' ! i)) \<in>
         {(TCP_ESTABLISHED, TCP_FIN_WAIT_1), (TCP_CLOSE_WAIT, TCP_LAST_ACK)}
       \<or> c_state (conns s' ! i) = c_state (conns s ! i))"
proof (cases "in_use (conns s ! i)")
  case True
  have L: "i < length (conns s)" using i net_invD(2) [OF inv] by simp
  have fin: "\<exists>s'. map_option (\<lambda>(_, s). (0 :: int, upd_conn i (\<lambda>c. c\<lparr>c_seq := c_seq c + 1\<rparr>) s))
       (tcp_send_packet i (TCP_FIN OR TCP_ACK) [] (upd_conn i (c_state_update (\<lambda>_. st)) s)) = Some (0, s')
     \<and> net_inv s' \<and> c_state (conns s' ! i) = st" for st
  proof (rule tcp_send_packet_spec [OF set_state_inv(1) [OF inv i True, of st], of "[]" i "TCP_FIN OR TCP_ACK"])
    fix r s' assume t: "tcp_send_packet i (TCP_FIN OR TCP_ACK) [] (upd_conn i (c_state_update (\<lambda>_. st)) s) = Some (r, s')" "net_inv s'"
      "conns s' = conns (upd_conn i (c_state_update (\<lambda>_. st)) s)"
    have "net_inv (upd_conn i (\<lambda>c. c\<lparr>c_seq := c_seq c + 1\<rparr>) s')"
      using net_invD(7) [OF t(2) i] by (intro net_inv_field [OF t(2) i]) (simp_all add: conn_ok_def)
    then show ?thesis using t L by simp
  qed simp
  show ?thesis
    using True fin [of TCP_FIN_WAIT_1] fin [of TCP_LAST_ACK] tcp_free_connection_inv(1) [OF inv i True] inv L
    by (cases "c_state (conns s ! i)") (auto simp: tcp_close_def Let_def)
next
  case False
  then show ?thesis using inv by (simp add: tcp_close_def)
qed

section \<open>From one host to another\<close>

lemma ntoh_hton [simp]: "ntohs (htons x) = x" "ntohl (htonl y) = y"
  by (simp_all add: ntohs_def ntohl_def)

lemma ucast_of_nat_small: "n < 65536 \<Longrightarrow> (ucast (of_nat n :: u16) :: u64) = of_nat n"
  by (rule word_unat_eq_iff [THEN iffD2]) (simp add: unsigned_ucast_eq take_bit_eq_mod unat_of_nat)

lemma net_rx_frame:
  fixes flags :: u8 and k :: nat
  assumes "length mac = ETH_ALEN" and d: "length data \<le> 65495"
    and find: "tcp_find_connection (local_ip c) (local_port c) (remote_ip c) (remote_port c) s = Some j"
  defines "F \<equiv> tcp_frame mac c flags data"
  defines "s1 \<equiv> upd_if k (\<lambda>f. f\<lparr>rx_packets := rx_packets f + 1, rx_bytes := rx_bytes f + of_nat (length F)\<rparr>) s"
  shows "net_rx k F s = tcp_input j (c_seq c) flags (of_nat (length data)) F 54 s1"
proof -
  obtain ck tck where F: "F = tcp_layout (replicate 6 0xFF @ mac) (htons ETH_P_IP) (htons (of_nat (40 + length data)))
      (htons (ucast (c_seq c AND 0xFFFF))) (htons 0x4000) IP_PROTO_TCP ck (local_ip c) (remote_ip c)
      (htons (local_port c)) (htons (remote_port c)) (htonl (c_seq c)) (htonl (c_ack c)) (push_bit 4 5) flags
      (htons (ucast (recv_wnd c))) tck data" unfolding F_def by (rule tcp_frame_layout)
  have "length (replicate 6 0xFF @ mac) = 12" using assms(1) by (simp add: ETH_ALEN_def)
  note fl = tcp_layout_fields [OF this F]
  have find1: "tcp_find_connection (local_ip c) (local_port c) (remote_ip c) (remote_port c) s1 = Some j"
    using find by (simp add: tcp_find_connection_def s1_def)
  have u: "(ucast (of_nat (40 + length data) :: u16) :: u64) = of_nat (40 + length data)"
    using d by (intro ucast_of_nat_small) simp
  have le: "\<not> of_nat (40 + length data) < (of_nat (40 + length data) :: u64)" by simp
  have seg: "tcp_handle_segment (local_ip c) (remote_ip c) F 34 (of_nat (40 + length data) - of_nat 20) s1
      = tcp_input j (c_seq c) flags (of_nat (length data)) F 54 s1"
    using fl(8-13) find1 by (simp add: tcp_handle_segment_def)
  have ip: "ip_handle F 14 (of_nat (40 + length data)) s1 = tcp_input j (c_seq c) flags (of_nat (length data)) F 54 s1"
    using fl(3-7) seg by (simp add: ip_handle_def u [simplified] IP_PROTO_TCP_def IP_PROTO_ICMP_def Let_def)
  show ?thesis
    using fl(1,2) ip unfolding net_rx_def Let_def s1_def [symmetric]
    by (simp add: ETH_HLEN_def ETH_P_IP_def ETH_P_ARP_def)
qed

lemma tcp_frame_payload:
  assumes "length mac = ETH_ALEN"
  shows "length (tcp_frame mac c flags data) = 54 + length data" "drop 54 (tcp_frame mac c flags data) = data"
  using assms tcp_frame_length [OF assms, of c flags data]
  by (simp_all add: tcp_frame_def eth_hdr_def ip_hdr_checksum tcp_segment_def Let_def ETH_ALEN_def)

lemma net_inv_upd_if:
  "net_inv s \<Longrightarrow> net_inv (upd_if k (\<lambda>f. f\<lparr>rx_packets := x f, rx_bytes := y f\<rparr>) s)"
proof -
  have "map if_mac ((interfaces s)[k := (interfaces s ! k)\<lparr>rx_packets := x (interfaces s ! k), rx_bytes := y (interfaces s ! k)\<rparr>])
      = map if_mac (interfaces s)" by (metis (mono_tags, lifting) list_update_id map_update net_interface.select_convs(2) net_interface.surjective net_interface.update_convs(7,9))
  then show "net_inv s \<Longrightarrow> net_inv (upd_if k (\<lambda>f. f\<lparr>rx_packets := x f, rx_bytes := y f\<rparr>) s)"
    unfolding net_inv_def tables_ok_def by (simp del: list.map set_map)
qed

lemma tcp_send_total:
  assumes inv: "net_inv s" and i: "i < MAX_TCP_CONNECTIONS" "in_use (conns s ! i)" and sb: "send_buf (conns s ! i) \<noteq> NULL"
    and d: "length data \<le> 65536"
  shows "\<exists>r s'. tcp_send i data s = Some (r, s') \<and> net_inv s'"
proof (cases "c_state (conns s ! i) = TCP_ESTABLISHED \<and> unat (send_len (conns s ! i)) + length data \<le> 65536")
  case True
  show ?thesis by (rule tcp_send_spec [OF inv i(1) conjunct1 [OF True] sb conjunct2 [OF True]]) blast
next
  case False
  have "unat (send_len (conns s ! i) + of_nat (length data)) = unat (send_len (conns s ! i)) + length data"
    using d conn_okD(2) [OF inv i] by (subst unat_add_lem [THEN iffD1]) (simp_all add: unat_of_nat_small)
  then have "tcp_send i data s = Some (- 1, s)"
    using False conn_okD(4) [OF inv i] by (auto simp: tcp_send_def Let_def word_less_nat_alt)
  then show ?thesis using inv by simp
qed

section \<open>Example hosts\<close>

text \<open>A heap with two 64 KB buffers in use and a free block behind them, and a host with one connection.\<close>

definition demo_heap :: kheap where
  "demo_heap = \<lparr>heap_region = 4096, heap_start = 4096, heap_end = 139392, free_list = 135296, heap_total = 135296,
     heap_used = 131200, heap_initialized = True,
     hdrs = (\<lambda>a. if a = 135296 then \<lparr>bh_size = 4096, bh_magic = BLOCK_MAGIC_FREE, bh_flags = 1, bh_owner = 0, bh_next = 0, bh_prev = 0\<rparr>
                 else \<lparr>bh_size = 65600, bh_magic = BLOCK_MAGIC_USED, bh_flags = 0, bh_owner = 0, bh_next = 0, bh_prev = 0\<rparr>),
     mem = (\<lambda>_. 0)\<rparr>"

lemma demo_heap_wf: "heap_wf demo_heap [4096, 69696, 135296] [135296]"
  by (simp add: heap_wf_def demo_heap_def used_bytes_def)

lemma demo_heap_inv: "heap_inv demo_heap" "blocks demo_heap = [4096, 69696, 135296]"
  "live demo_heap 4136 = Some 65560" "live demo_heap 69736 = Some 65560"
  using heap_wf_inv [OF demo_heap_wf] heap_wf_blocks [OF demo_heap_wf] heap_wf_live [OF demo_heap_wf]
  by (simp_all add: live_of_def demo_heap_def HDR_def)

lemma demo_can_alloc: "sz \<noteq> 0 \<Longrightarrow> unat sz \<le> 2000 \<Longrightarrow> can_alloc sz demo_heap"
  by (simp add: can_alloc_def demo_heap_inv MAX_ALLOC_def word_le_nat_alt) (simp add: demo_heap_def need_def)

definition demo_if :: "u32 \<Rightarrow> net_interface" where
  "demo_if ip = \<lparr>if_name = replicate 16 0, if_mac = replicate 6 2, if_ip = ip, if_netmask = 0, if_gateway = 0, if_up = True,
     rx_packets = 0, tx_packets = 0, rx_bytes = 0, tx_bytes = 0, if_send = True\<rparr>"

definition demo_conn :: "u32 \<Rightarrow> u16 \<Rightarrow> u32 \<Rightarrow> u16 \<Rightarrow> tcp_state \<Rightarrow> bool \<Rightarrow> tcp_connection" where
  "demo_conn lip lp rip rp st used = \<lparr>local_ip = lip, local_port = lp, remote_ip = rip, remote_port = rp, c_state = st, c_seq = 7, c_ack = 0,
     recv_wnd = 65535, send_wnd = 65535, recv_buf = 4136, recv_len = 0, recv_capacity = 65536, send_buf = 69736, send_len = 0,
     send_capacity = 65536, in_use = used\<rparr>"

definition demo_net :: "u32 \<Rightarrow> u16 \<Rightarrow> u32 \<Rightarrow> u16 \<Rightarrow> tcp_state \<Rightarrow> net" where
  "demo_net lip lp rip rp st = \<lparr>heap = demo_heap, interfaces = replicate 4 (demo_if lip), num_interfaces = 1, arp_cache = [],
     conns = demo_conn lip lp rip rp st True # replicate 255 (demo_conn 0 0 0 0 TCP_CLOSED False),
     next_ephemeral_port = 49152, tcp_isn_counter = 0x12345678, wire = []\<rparr>"

lemma demo_conns: "i < MAX_TCP_CONNECTIONS \<Longrightarrow>
    conns (demo_net lip lp rip rp st) ! i = (if i = 0 then demo_conn lip lp rip rp st True else demo_conn 0 0 0 0 TCP_CLOSED False)"
  by (cases i) (simp_all add: demo_net_def MAX_TCP_CONNECTIONS_def)

lemma demo_inv: "net_inv (demo_net lip lp rip rp st)"
proof -
  have "length (conns (demo_net lip lp rip rp st)) = MAX_TCP_CONNECTIONS" by (simp add: demo_net_def MAX_TCP_CONNECTIONS_def)
  moreover have "heap (demo_net lip lp rip rp st) = demo_heap" by (simp add: demo_net_def)
  moreover have "bufs (demo_conn 0 0 0 0 TCP_CLOSED False) = {}" "conn_ok demo_heap (demo_conn 0 0 0 0 TCP_CLOSED False)"
    "conn_ok demo_heap (demo_conn lip lp rip rp st True)"
    by (simp_all add: bufs_def demo_conn_def conn_ok_def demo_heap_inv)
  moreover have "tables_ok (demo_net lip lp rip rp st)"
    by (simp add: tables_ok_def demo_net_def MAX_TCP_CONNECTIONS_def MAX_INTERFACES_def demo_if_def ETH_ALEN_def)
  ultimately show ?thesis
    by (simp add: net_inv_def demo_heap_inv conns_ok_def demo_conns)
qed

lemma demo_find: "tcp_find_connection rip rp lip lp (demo_net lip lp rip rp st) = Some 0"
  by (simp add: tcp_find_connection_def find_upt_Some demo_conns MAX_TCP_CONNECTIONS_def demo_net_def demo_conn_def)

section \<open>Properties\<close>

text \<open>A segment handed to the driver is a frame of the right length whose IP header checksum and TCP checksum
  (over the pseudo header, the header and the data) both verify, whose address, port, sequence, acknowledgement and
  flag fields are the connection's in network byte order, and which carries the data unchanged. The packet buffer is
  released again: the live heap payloads and their bytes, and the connections, are as before.\<close>

theorem tcp_packet_on_the_wire:
  assumes "net_inv s" and "num_interfaces s \<noteq> 0" and "if_send (interfaces s ! 0)" and "length data \<le> 65495"
    and "can_alloc (of_nat (54 + length data)) (heap s)"
  shows "\<exists>s' frame. tcp_send_packet i flags data s = Some (0, s') \<and> wire s' = wire s @ [(0, frame)]
    \<and> net_inv s' \<and> same_payloads s s' \<and> conns s' = conns s
    \<and> length frame = 54 + length data \<and> checksum (take 20 (drop 14 frame)) = 0
    \<and> tcp_checksum (local_ip (conns s ! i)) (remote_ip (conns s ! i)) (drop 34 frame) = 0
    \<and> fr32 frame 26 = Some (local_ip (conns s ! i)) \<and> fr32 frame 30 = Some (remote_ip (conns s ! i))
    \<and> fr16 frame 34 = Some (htons (local_port (conns s ! i))) \<and> fr16 frame 36 = Some (htons (remote_port (conns s ! i)))
    \<and> fr32 frame 38 = Some (htonl (c_seq (conns s ! i))) \<and> fr32 frame 42 = Some (htonl (c_ack (conns s ! i)))
    \<and> fr8 frame 47 = Some flags \<and> drop 54 frame = data"
proof (rule tcp_send_packet_spec [OF assms(1), of data i flags])
  fix r s' assume t: "tcp_send_packet i flags data s = Some (r, s')" "net_inv s'" "conns s' = conns s" "same_payloads s s'"
    "r = 0 \<longleftrightarrow> num_interfaces s \<noteq> 0 \<and> can_alloc (of_nat (54 + length data)) (heap s)"
    "r = 0 \<Longrightarrow> if_send (interfaces s ! 0)
       \<Longrightarrow> wire s' = wire s @ [(0, tcp_frame (if_mac (interfaces s ! 0)) (conns s ! i) flags data)]"
  define F where "F = tcp_frame (if_mac (interfaces s ! 0)) (conns s ! i) flags data"
  note D = net_invD(6) [OF assms(1)]
  have m: "length (replicate 6 0xFF @ if_mac (interfaces s ! 0)) = 12" using D by (simp add: ETH_ALEN_def)
  from tcp_frame_layout obtain ck tck where "F = tcp_layout (replicate 6 0xFF @ if_mac (interfaces s ! 0)) (htons ETH_P_IP)
      (htons (of_nat (40 + length data))) (htons (ucast (c_seq (conns s ! i) AND 0xFFFF))) (htons 0x4000) IP_PROTO_TCP ck
      (local_ip (conns s ! i)) (remote_ip (conns s ! i)) (htons (local_port (conns s ! i))) (htons (remote_port (conns s ! i)))
      (htonl (c_seq (conns s ! i))) (htonl (c_ack (conns s ! i))) (push_bit 4 5) flags (htons (ucast (recv_wnd (conns s ! i)))) tck data"
    unfolding F_def by metis
  note fl = tcp_layout_fields [OF m this] and ck = tcp_frame_checksums [OF D assms(4), of "conns s ! i" flags, folded F_def]
  show ?thesis
    using t assms(2,3,5) fl ck by (intro exI [of _ s'] exI [of _ F]) (simp add: F_def)
qed (use assms(4) in simp)

theorem tcp_packet_on_the_wire_witness:
  "\<exists>s' frame. tcp_send_packet 0 TCP_ACK [1, 2, 3] (demo_net 1 80 2 90 TCP_ESTABLISHED) = Some (0, s') \<and> wire s' = [(0, frame)]
     \<and> length frame = 57 \<and> checksum (take 20 (drop 14 frame)) = 0 \<and> drop 54 frame = [1, 2, 3]"
proof -
  have "can_alloc (of_nat (54 + length [1 :: u8, 2, 3])) (heap (demo_net 1 80 2 90 TCP_ESTABLISHED))"
    using demo_can_alloc [of 57] by (simp add: demo_net_def)
  from tcp_packet_on_the_wire [OF demo_inv _ _ _ this, of 0 TCP_ACK] show ?thesis
    by (auto simp: demo_net_def demo_if_def)
qed

text \<open>C29. The TCP state machine under any received frame: at most one connection changes, it is one in use whose
  addresses and ports are those of the frame, its state moves only along an edge of the TCP state diagram that the
  flags of the segment allow, its addresses, sequence number and buffers stay, it takes in data only when established
  and no \<^verbatim>\<open>FIN\<close> is set, never beyond its capacity, and it is released only from \<^verbatim>\<open>SYN_SENT\<close>, \<^verbatim>\<open>LAST_ACK\<close> or
  \<^verbatim>\<open>TIME_WAIT\<close>.\<close>

theorem net_rx_state_machine:
  assumes "net_rx k frame s = Some s'" and "length (conns s) = MAX_TCP_CONNECTIONS"
  shows "conns s' = conns s \<or> (\<exists>i off flags. i < MAX_TCP_CONNECTIONS \<and> addressed_to frame off flags (conns s ! i)
     \<and> conns s' = (conns s)[i := conns s' ! i] \<and> seg_effect flags (conns s ! i) (conns s' ! i))"
  by (rule net_rx_effect [OF assms])

theorem net_rx_state_machine_witness:
  "\<exists>s'. net_rx 0 (tcp_frame (replicate 6 2) (demo_conn 2 90 1 80 TCP_ESTABLISHED True) TCP_ACK []) (demo_net 1 80 2 90 TCP_CLOSING) = Some s'
     \<and> c_state (conns s' ! 0) = TCP_TIME_WAIT \<and> conns s' \<noteq> conns (demo_net 1 80 2 90 TCP_CLOSING)
     \<and> (\<exists>i off flags. addressed_to (tcp_frame (replicate 6 2) (demo_conn 2 90 1 80 TCP_ESTABLISHED True) TCP_ACK []) off flags
            (conns (demo_net 1 80 2 90 TCP_CLOSING) ! i))"
proof -
  let ?c = "demo_conn 2 90 1 80 TCP_ESTABLISHED True" and ?s = "demo_net 1 80 2 90 TCP_CLOSING"
  have f: "tcp_find_connection (local_ip ?c) (local_port ?c) (remote_ip ?c) (remote_port ?c) ?s = Some 0"
    using demo_find [of 2 90 1 80] by (simp add: demo_conn_def)
  have c0: "c_state (conns ?s ! 0) = TCP_CLOSING" by (simp add: demo_net_def demo_conn_def)
  obtain s' where s': "net_rx 0 (tcp_frame (replicate 6 2) ?c TCP_ACK []) ?s = Some s'" "c_state (conns s' ! 0) = TCP_TIME_WAIT"
    using net_rx_frame [OF _ _ f, of "replicate 6 2" "[]" 0 TCP_ACK] c0
    by (simp add: ETH_ALEN_def tcp_input_def Let_def TCP_ACK_def) (simp add: demo_net_def)
  then have "conns s' \<noteq> conns ?s" using c0 by auto
  with s' net_rx_state_machine [OF s'(1)] net_invD(2) [OF demo_inv] show ?thesis by blast
qed



text \<open>C5. End to end: on two hosts whose connections mirror each other, data sent on one and received as a frame by the
  other is appended to the unread data there, in order and unchanged; the receiver's acknowledgement number is the
  sender's next sequence number, unread data of all other connections stays, and \<^verbatim>\<open>tcp_recv\<close> on the receiver then
  returns the first \<open>n\<close> bytes of the old and new data.\<close>

theorem tcp_end_to_end:
  assumes a: "net_inv a" "i < MAX_TCP_CONNECTIONS" "c_state (conns a ! i) = TCP_ESTABLISHED" "send_buf (conns a ! i) \<noteq> NULL"
      "unat (send_len (conns a ! i)) + length data \<le> 65536" "num_interfaces a \<noteq> 0" "if_send (interfaces a ! 0)"
      "can_alloc (of_nat (54 + length data)) (heap a)"
    and d: "0 < length data" "length data \<le> 65495"
    and b: "net_inv b" "tcp_find_connection (local_ip (conns a ! i)) (local_port (conns a ! i)) (remote_ip (conns a ! i))
        (remote_port (conns a ! i)) b = Some j"
      "c_state (conns b ! j) = TCP_ESTABLISHED" "recv_buf (conns b ! j) \<noteq> NULL" "unat (recv_len (conns b ! j)) + length data \<le> 65536"
  shows "\<exists>a' frame b' b''. tcp_send i data a = Some (int (length data), a') \<and> wire a' = wire a @ [(0, frame)] \<and> net_inv a'
    \<and> net_rx k frame b = Some b' \<and> net_inv b' \<and> recv_data b' j = recv_data b j @ data
    \<and> c_ack (conns b' ! j) = c_seq (conns a' ! i)
    \<and> (\<forall>l < MAX_TCP_CONNECTIONS. in_use (conns b ! l) \<and> l \<noteq> j \<longrightarrow> recv_data b' l = recv_data b l)
    \<and> tcp_recv j n b' = ((int (min n (length (recv_data b j @ data))), take n (recv_data b j @ data)), b'')
    \<and> recv_data b'' j = drop n (recv_data b j @ data)"
proof -
  define F where "F = tcp_frame (if_mac (interfaces a ! 0)) (conns a ! i) (TCP_PSH OR TCP_ACK) data"
  obtain a' where A: "tcp_send i data a = Some (int (length data), a')" "net_inv a'" "wire a' = wire a @ [(0, F)]"
      "c_seq (conns a' ! i) = c_seq (conns a ! i) + of_nat (length data)"
    by (rule tcp_send_spec [OF a(1-5)]) (use a(6-8) in \<open>simp add: F_def\<close>)
  define b1 where "b1 = upd_if k (\<lambda>f. f\<lparr>rx_packets := rx_packets f + 1, rx_bytes := rx_bytes f + of_nat (length F)\<rparr>) b"
  have rx: "net_rx k F b = tcp_input j (c_seq (conns a ! i)) (TCP_PSH OR TCP_ACK) (of_nat (length data)) F 54 b1"
    using net_rx_frame [OF net_invD(6) [OF a(1)] d(2) b(2)] by (simp add: F_def b1_def)
  have b1: "net_inv b1" "conns b1 = conns b" "recv_data b1 = recv_data b"
    using b(1) net_inv_upd_if by (auto simp: b1_def recv_data_def fun_eq_iff)
  have j: "j < MAX_TCP_CONNECTIONS" "in_use (conns b ! j)" using tcp_find_connection_Some [OF b(2)] by blast+
  have u: "unat (of_nat (length data) :: u64) = length data" using d by (simp add: unat_of_nat_small)
  have F: "length F = 54 + length data" "drop 54 F = data"
    using tcp_frame_payload [OF net_invD(6) [OF a(1)]] by (simp_all add: F_def)
  obtain b' where B: "net_rx k F b = Some b'" "net_inv b'" "recv_data b' j = recv_data b j @ data"
      "c_ack (conns b' ! j) = c_seq (conns a ! i) + of_nat (length data)"
      "\<And>l. \<lbrakk> l < MAX_TCP_CONNECTIONS; in_use (conns b ! l); l \<noteq> j \<rbrakk> \<Longrightarrow> recv_data b' l = recv_data b l"
      "in_use (conns b' ! j)"
  proof (rule tcp_input_data [OF b1(1) j(1), of "TCP_PSH OR TCP_ACK" "of_nat (length data)" 54 F "c_seq (conns a ! i)"])
    show "(TCP_PSH OR TCP_ACK) AND TCP_FIN = 0" by (simp add: TCP_PSH_def TCP_ACK_def TCP_FIN_def)
    show "(0 :: u64) < of_nat (length data)" using d(1) u by (simp add: word_less_nat_alt)
    fix s' assume s': "tcp_input j (c_seq (conns a ! i)) (TCP_PSH OR TCP_ACK) (of_nat (length data)) F 54 b1 = Some s'" "net_inv s'"
      "recv_data s' j = recv_data b1 j @ take (unat (of_nat (length data) :: u64)) (drop 54 F)"
      "c_ack (conns s' ! j) = c_seq (conns a ! i) + ucast (of_nat (length data) :: u64)" "in_use (conns s' ! j)"
      "\<And>l. \<lbrakk> l < MAX_TCP_CONNECTIONS; in_use (conns b1 ! l); l \<noteq> j \<rbrakk> \<Longrightarrow> recv_data s' l = recv_data b1 l"
    have "(ucast (of_nat (length data) :: u64) :: u32) = of_nat (length data)"
      by (metis of_nat_unat u)
    then show thesis using that [of s'] s' F u by (simp add: rx b1)
  qed (use b(3-5) u F in \<open>simp_all add: b1\<close>)
  obtain b'' where "tcp_recv j n b' = ((int (min n (length (recv_data b' j))), take n (recv_data b' j)), b'')"
      "recv_data b'' j = drop n (recv_data b' j)"
    by (rule tcp_recv_spec [OF B(2) j(1) B(6)])
  then show ?thesis using A B by (auto simp del: length_append take_append drop_append)
qed

theorem tcp_end_to_end_witness:
  "\<exists>a' frame b' b''. tcp_send 0 [104, 105] (demo_net 1 80 2 90 TCP_ESTABLISHED) = Some (2, a') \<and> wire a' = [(0, frame)]
     \<and> net_rx 0 frame (demo_net 2 90 1 80 TCP_ESTABLISHED) = Some b' \<and> recv_data b' 0 = [104, 105]
     \<and> tcp_recv 0 1 b' = ((1, [104]), b'') \<and> recv_data b'' 0 = [105]"
proof -
  let ?a = "demo_net 1 80 2 90 TCP_ESTABLISHED" and ?b = "demo_net 2 90 1 80 TCP_ESTABLISHED"
  let ?c = "demo_conn 1 80 2 90 TCP_ESTABLISHED True" and ?d = "demo_conn 2 90 1 80 TCP_ESTABLISHED True"
  have c: "conns ?a ! 0 = ?c" "conns ?b ! 0 = ?d" "num_interfaces ?a \<noteq> 0" "if_send (interfaces ?a ! 0)" "wire ?a = []"
    by (simp_all add: demo_net_def demo_if_def)
  have f: "tcp_find_connection (local_ip (conns ?a ! 0)) (local_port (conns ?a ! 0)) (remote_ip (conns ?a ! 0)) (remote_port (conns ?a ! 0)) ?b = Some 0"
    using demo_find [of 1 80 2 90 TCP_ESTABLISHED] by (simp add: c demo_conn_def)
  have al: "can_alloc (of_nat (54 + length [104 :: u8, 105])) (heap ?a)"
    using demo_can_alloc [of 56] by (simp add: demo_net_def)
  have e: "recv_data ?b 0 = []" by (simp add: recv_data_def c read_bytes_def demo_conn_def)
  have m: "0 < MAX_TCP_CONNECTIONS" by (simp add: MAX_TCP_CONNECTIONS_def)
  have h: "c_state (conns ?a ! 0) = TCP_ESTABLISHED" "send_buf (conns ?a ! 0) \<noteq> NULL" "unat (send_len (conns ?a ! 0)) + length [104 :: u8, 105] \<le> 65536"
    "c_state (conns ?b ! 0) = TCP_ESTABLISHED" "recv_buf (conns ?b ! 0) \<noteq> NULL" "unat (recv_len (conns ?b ! 0)) + length [104 :: u8, 105] \<le> 65536"
    by (simp_all add: c demo_conn_def)
  from tcp_end_to_end [OF demo_inv m h(1-3) c(3,4) al _ _ demo_inv f h(4-6), of 0 1]
  show ?thesis unfolding e c(5) by fastforce
qed

end
