(* ===== verification/Socket.thy ===== *)
theory Socket
  imports Inet Kmalloc
begin

text \<open>
  The socket layer, \<^verbatim>\<open>kernel/net/socket.c\<close>: a table of 256 descriptors over heap-allocated socket structures. The
  structures are a typed store \<open>socks\<close> at the addresses the heap hands out. Accepting, sending and receiving are
  stubs in the source and return what the stubs return.
\<close>

section \<open>State\<close>

abbreviation (input) ESOCKTNOSUPPORT :: int where "ESOCKTNOSUPPORT \<equiv> 94"
abbreviation (input) EOPNOTSUPP :: int where "EOPNOTSUPP \<equiv> 95"
abbreviation (input) EAFNOSUPPORT :: int where "EAFNOSUPPORT \<equiv> 97"
abbreviation (input) ENOTCONN :: int where "ENOTCONN \<equiv> 107"

definition AF_INET :: int where "AF_INET = 2"
definition AF_INET6 :: int where "AF_INET6 = 10"
definition SOCK_STREAM :: int where "SOCK_STREAM = 1"
definition SOCK_DGRAM :: int where "SOCK_DGRAM = 2"
definition SOCK_RAW :: int where "SOCK_RAW = 3"
definition MAX_SOCKETS :: nat where "MAX_SOCKETS = 256"

datatype sock_state = SS_FREE | SS_UNCONNECTED | SS_CONNECTING | SS_CONNECTED | SS_DISCONNECTING

text \<open>An address is the 128 bytes of a \<^verbatim>\<open>struct sockaddr_storage\<close>, the family in the first two.\<close>

record socket =
  so_type :: int
  so_protocol :: int
  so_state :: sock_state
  local_addr :: bytes
  remote_addr :: bytes
  so_sk :: ptr

definition SOCKET_SIZE :: u64 where "SOCKET_SIZE = 280"
definition SOCKADDR_SIZE :: nat where "SOCKADDR_SIZE = 16"
definition STORAGE_SIZE :: nat where "STORAGE_SIZE = 128"

record sock_layer =
  sheap :: kheap
  socket_table :: "ptr list"
  next_sockfd :: nat
  socks :: "ptr \<Rightarrow> socket"

definition upd_sock :: "ptr \<Rightarrow> (socket \<Rightarrow> socket) \<Rightarrow> sock_layer \<Rightarrow> sock_layer" where
  "upd_sock p f s = s\<lparr>socks := (socks s)(p := f (socks s p))\<rparr>"

section \<open>Operations\<close>

definition net_init :: "sock_layer \<Rightarrow> sock_layer" where
  "net_init s = s\<lparr>socket_table := replicate MAX_SOCKETS NULL\<rparr>"

definition alloc_sockfd :: "sock_layer \<Rightarrow> int \<times> sock_layer" where
  "alloc_sockfd s =
     (case find (\<lambda>i. socket_table s ! ((next_sockfd s + i) mod MAX_SOCKETS) = NULL) [0..<MAX_SOCKETS] of
        Some i \<Rightarrow> (let fd = (next_sockfd s + i) mod MAX_SOCKETS in (int fd, s\<lparr>next_sockfd := fd + 1\<rparr>))
      | None \<Rightarrow> (- EMFILE, s))"

text \<open>The zeroed structure and its address bytes with only the family set.\<close>

definition family_addr :: "int \<Rightarrow> bytes" where
  "family_addr family = le16 (of_int family) @ replicate (STORAGE_SIZE - 2) 0"

definition socket_create :: "int \<Rightarrow> int \<Rightarrow> int \<Rightarrow> sock_layer \<Rightarrow> (int \<times> sock_layer) option" where
  "socket_create family typ protocol s =
     (if family \<noteq> AF_INET \<and> family \<noteq> AF_INET6 then Some (- EAFNOSUPPORT, s)
      else if typ \<noteq> SOCK_STREAM \<and> typ \<noteq> SOCK_DGRAM \<and> typ \<noteq> SOCK_RAW then Some (- ESOCKTNOSUPPORT, s)
      else
        (let (fd, s) = alloc_sockfd s in
         if fd < 0 then Some (fd, s)
         else do {
           (sock, h) \<leftarrow> kzalloc SOCKET_SIZE GFP_KERNEL (sheap s);
           let s = s\<lparr>sheap := h\<rparr>;
           if sock = NULL then Some (- ENOMEM, s)
           else
             (let s = upd_sock sock (\<lambda>_. \<lparr>so_type = typ, so_protocol = protocol, so_state = SS_UNCONNECTED,
                        local_addr = family_addr family, remote_addr = family_addr family, so_sk = NULL\<rparr>) s
              in Some (fd, s\<lparr>socket_table := (socket_table s)[nat fd := sock]\<rparr>))
         }))"

definition bad_fd :: "int \<Rightarrow> sock_layer \<Rightarrow> bool" where
  "bad_fd sockfd s \<longleftrightarrow> sockfd < 0 \<or> sockfd \<ge> int MAX_SOCKETS \<or> socket_table s ! nat sockfd = NULL"

text \<open>The byte copy into a \<^verbatim>\<open>sockaddr_storage\<close>; \<open>None\<close> for the address is a \<^verbatim>\<open>NULL\<close> pointer.\<close>

definition copy_addr :: "bytes \<Rightarrow> bytes \<Rightarrow> bytes" where
  "copy_addr src dst = take STORAGE_SIZE src @ drop (length src) dst"

definition socket_bind :: "int \<Rightarrow> bytes option \<Rightarrow> sock_layer \<Rightarrow> int \<times> sock_layer" where
  "socket_bind sockfd addr s =
     (if bad_fd sockfd s then (- EBADF, s)
      else case addr of
        None \<Rightarrow> (- EINVAL, s)
      | Some a \<Rightarrow>
          if length a < SOCKADDR_SIZE then (- EINVAL, s)
          else (0, upd_sock (socket_table s ! nat sockfd) (\<lambda>k. k\<lparr>local_addr := copy_addr a (local_addr k)\<rparr>) s))"

definition socket_listen :: "int \<Rightarrow> int \<Rightarrow> sock_layer \<Rightarrow> int \<times> sock_layer" where
  "socket_listen sockfd backlog s =
     (if bad_fd sockfd s then (- EBADF, s)
      else if so_type (socks s (socket_table s ! nat sockfd)) \<noteq> SOCK_STREAM then (- EOPNOTSUPP, s)
      else (0, upd_sock (socket_table s ! nat sockfd) (so_state_update (\<lambda>_. SS_UNCONNECTED)) s))"

definition socket_accept :: "int \<Rightarrow> sock_layer \<Rightarrow> int \<times> sock_layer" where
  "socket_accept sockfd s = (if bad_fd sockfd s then (- EBADF, s) else (- EAGAIN, s))"

definition socket_connect :: "int \<Rightarrow> bytes option \<Rightarrow> sock_layer \<Rightarrow> int \<times> sock_layer" where
  "socket_connect sockfd addr s =
     (if bad_fd sockfd s then (- EBADF, s)
      else case addr of
        None \<Rightarrow> (- EINVAL, s)
      | Some a \<Rightarrow>
          if length a < SOCKADDR_SIZE then (- EINVAL, s)
          else
            (let sock = socket_table s ! nat sockfd;
                 s = upd_sock sock (\<lambda>k. k\<lparr>remote_addr := copy_addr a (remote_addr k)\<rparr>) s;
                 s = upd_sock sock (so_state_update (\<lambda>_. SS_CONNECTING)) s
             in (0, upd_sock sock (so_state_update (\<lambda>_. SS_CONNECTED)) s)))"

text \<open>The stubs for data; \<open>buf\<close> says whether the buffer pointer is not \<^verbatim>\<open>NULL\<close>.\<close>

definition not_connected :: "int \<Rightarrow> sock_layer \<Rightarrow> bool" where
  "not_connected sockfd s \<longleftrightarrow>
     (let k = socks s (socket_table s ! nat sockfd) in so_state k \<noteq> SS_CONNECTED \<and> so_type k = SOCK_STREAM)"

definition socket_send :: "int \<Rightarrow> bool \<Rightarrow> nat \<Rightarrow> sock_layer \<Rightarrow> int \<times> sock_layer" where
  "socket_send sockfd buf len s =
     (if bad_fd sockfd s then (- EBADF, s)
      else if \<not> buf then (- EINVAL, s)
      else if not_connected sockfd s then (- ENOTCONN, s)
      else (int len, s))"

definition socket_recv :: "int \<Rightarrow> bool \<Rightarrow> nat \<Rightarrow> sock_layer \<Rightarrow> int \<times> sock_layer" where
  "socket_recv sockfd buf len s =
     (if bad_fd sockfd s then (- EBADF, s)
      else if \<not> buf then (- EINVAL, s)
      else if not_connected sockfd s then (- ENOTCONN, s)
      else (0, s))"

definition socket_close :: "int \<Rightarrow> sock_layer \<Rightarrow> int \<times> sock_layer" where
  "socket_close sockfd s =
     (if bad_fd sockfd s then (- EBADF, s)
      else (0, s\<lparr>sheap := kfree (socket_table s ! nat sockfd) (sheap s),
                 socket_table := (socket_table s)[nat sockfd := NULL]\<rparr>))"

section \<open>The descriptor table\<close>

text \<open>Every descriptor in use has a live structure of its own.\<close>

definition sock_inv :: "sock_layer \<Rightarrow> bool" where
  "sock_inv s \<longleftrightarrow> heap_inv (sheap s) \<and> length (socket_table s) = MAX_SOCKETS
     \<and> (\<forall>i < MAX_SOCKETS. socket_table s ! i \<noteq> NULL \<longrightarrow> (\<exists>n \<ge> 280. live (sheap s) (socket_table s ! i) = Some n))
     \<and> (\<forall>i < MAX_SOCKETS. \<forall>j < MAX_SOCKETS. socket_table s ! i = socket_table s ! j \<and> socket_table s ! i \<noteq> NULL \<longrightarrow> i = j)"

text \<open>The search starts at the descriptor after the last one handed out and wraps around, so it fails only on a full
  table.\<close>

lemma wrap_all: "(\<forall>i < MAX_SOCKETS. P ((n + i) mod MAX_SOCKETS)) \<longleftrightarrow> (\<forall>j < MAX_SOCKETS. P j)"
proof (intro iffI allI impI)
  fix j assume a: "\<forall>i < MAX_SOCKETS. P ((n + i) mod MAX_SOCKETS)" and j: "j < MAX_SOCKETS"
  define i where "i = (j + MAX_SOCKETS - n mod MAX_SOCKETS) mod MAX_SOCKETS"
  have m: "0 < MAX_SOCKETS" by (simp add: MAX_SOCKETS_def)
  have "(n + i) mod MAX_SOCKETS = (n mod MAX_SOCKETS + (j + MAX_SOCKETS - n mod MAX_SOCKETS)) mod MAX_SOCKETS"
    unfolding i_def by (simp add: mod_add_left_eq mod_add_right_eq)
  also have "n mod MAX_SOCKETS + (j + MAX_SOCKETS - n mod MAX_SOCKETS) = j + MAX_SOCKETS"
    using mod_less_divisor [OF m, of n] by linarith
  finally have "(n + i) mod MAX_SOCKETS = j" using j by simp
  moreover have "i < MAX_SOCKETS" using m by (simp add: i_def)
  ultimately show "P j" using a by metis
qed (auto simp: MAX_SOCKETS_def)

lemma alloc_sockfd_cases:
  obtains fd where "fd < MAX_SOCKETS" "socket_table s ! fd = NULL" "alloc_sockfd s = (int fd, s\<lparr>next_sockfd := fd + 1\<rparr>)"
  | "\<forall>fd < MAX_SOCKETS. socket_table s ! fd \<noteq> NULL" "alloc_sockfd s = (- EMFILE, s)"
proof (cases "find (\<lambda>i. socket_table s ! ((next_sockfd s + i) mod MAX_SOCKETS) = NULL) [0..<MAX_SOCKETS]")
  case None
  then have "\<forall>fd < MAX_SOCKETS. socket_table s ! fd \<noteq> NULL"
    using wrap_all [of "\<lambda>j. socket_table s ! j \<noteq> NULL" "next_sockfd s"] by (simp add: find_upt_None)
  then show thesis using that(2) None by (simp add: alloc_sockfd_def)
next
  case (Some i)
  let ?fd = "(next_sockfd s + i) mod MAX_SOCKETS"
  have "?fd < MAX_SOCKETS" "socket_table s ! ?fd = NULL"
    using Some by (simp_all add: MAX_SOCKETS_def find_upt_Some)
  then show thesis using that(1) [of ?fd] Some by (simp add: alloc_sockfd_def Let_def)
qed

lemma sock_inv_next [simp]: "sock_inv (s\<lparr>next_sockfd := n\<rparr>) = sock_inv s"
  by (simp add: sock_inv_def)

lemma sock_inv_sock [simp]: "sock_inv (upd_sock p f s) = sock_inv s"
  by (simp add: sock_inv_def upd_sock_def)

lemma sock_invD:
  assumes "sock_inv s"
  shows "heap_inv (sheap s)" "length (socket_table s) = MAX_SOCKETS"
    "\<lbrakk> i < MAX_SOCKETS; socket_table s ! i \<noteq> NULL \<rbrakk> \<Longrightarrow> \<exists>n \<ge> 280. live (sheap s) (socket_table s ! i) = Some n"
    "\<lbrakk> i < MAX_SOCKETS; j < MAX_SOCKETS; socket_table s ! i = socket_table s ! j; socket_table s ! i \<noteq> NULL \<rbrakk> \<Longrightarrow> i = j"
  using assms unfolding sock_inv_def by auto

text \<open>Entering a fresh structure in a free slot, and releasing one.\<close>

lemma sock_inv_enter:
  assumes inv: "sock_inv s" and fd: "fd < MAX_SOCKETS" and h: "heap_inv h" "live (sheap s) p = None"
    "live h = (live (sheap s))(p \<mapsto> n)" "280 \<le> n"
  shows "sock_inv (s\<lparr>sheap := h, socket_table := (socket_table s)[fd := p]\<rparr>)"
proof -
  note D = sock_invD [OF inv]
  have ne: "socket_table s ! i \<noteq> p" if "i < MAX_SOCKETS" "socket_table s ! i \<noteq> NULL" for i
    using D(3) [OF that] h(2) by auto
  have "\<exists>n \<ge> 280. live h (socket_table s ! i) = Some n" if "i < MAX_SOCKETS" "socket_table s ! i \<noteq> NULL" for i
    using D(3) [OF that] h(3) ne [OF that] by simp
  then show ?thesis
    unfolding sock_inv_def using D(1,2,4) h fd ne by (auto simp: nth_list_update)
qed

lemma socket_close_spec:
  assumes inv: "sock_inv s" and fd: "fd < MAX_SOCKETS" and used: "socket_table s ! fd \<noteq> NULL"
  obtains s' where "socket_close (int fd) s = (0, s')" "sock_inv s'" "bad_fd (int fd) s'"
    "socket_table s' = (socket_table s)[fd := NULL]" "live (sheap s') = (live (sheap s))(socket_table s ! fd := None)"
proof -
  note D = sock_invD [OF inv]
  define h where "h = kfree (socket_table s ! fd) (sheap s)"
  have l: "live (sheap s) (socket_table s ! fd) \<noteq> None" using D(3) [OF fd used] by auto
  note H = kh.release_inv [OF D(1) l, folded h_def] kh.release_lv [OF D(1) l, folded h_def]
  let ?s = "s\<lparr>sheap := h, socket_table := (socket_table s)[fd := NULL]\<rparr>"
  have "\<exists>n \<ge> 280. live h (socket_table s ! i) = Some n" if "i < MAX_SOCKETS" "socket_table s ! i \<noteq> NULL" "i \<noteq> fd" for i
    using D(3) [OF that(1,2)] D(4) [OF that(1) fd _ that(2)] H(2) that(3) by auto
  then have "sock_inv ?s"
    unfolding sock_inv_def using D(2,4) H(1) fd by (auto simp: nth_list_update split: if_splits)
  moreover have "socket_close (int fd) s = (0, ?s)"
    using fd used by (simp add: socket_close_def bad_fd_def h_def)
  moreover have "bad_fd (int fd) ?s" using fd D(2) by (simp add: bad_fd_def)
  ultimately show thesis using that H(2) by simp
qed

text \<open>Creating a socket with supported arguments, in its three outcomes.\<close>

lemma socket_create_spec:
  assumes inv: "sock_inv s" and f: "family = AF_INET \<or> family = AF_INET6" and t: "typ \<in> {SOCK_STREAM, SOCK_DGRAM, SOCK_RAW}"
  obtains (full) "\<forall>fd < MAX_SOCKETS. socket_table s ! fd \<noteq> NULL" "socket_create family typ protocol s = Some (- EMFILE, s)"
  | (nomem) fd where "fd < MAX_SOCKETS" "socket_table s ! fd = NULL" "\<not> can_alloc SOCKET_SIZE (sheap s)"
      "socket_create family typ protocol s = Some (- ENOMEM, s\<lparr>next_sockfd := fd + 1\<rparr>)"
  | (ok) fd p h n where "fd < MAX_SOCKETS" "socket_table s ! fd = NULL" "can_alloc SOCKET_SIZE (sheap s)" "p \<noteq> NULL"
      "heap_inv h" "live (sheap s) p = None" "live h = (live (sheap s))(p \<mapsto> n)" "280 \<le> n"
      "socket_create family typ protocol s = Some (int fd, upd_sock p (\<lambda>_. \<lparr>so_type = typ, so_protocol = protocol,
         so_state = SS_UNCONNECTED, local_addr = family_addr family, remote_addr = family_addr family, so_sk = NULL\<rparr>)
         (s\<lparr>next_sockfd := fd + 1, sheap := h, socket_table := (socket_table s)[fd := p]\<rparr>))"
proof (rule alloc_sockfd_cases [of s])
  assume "\<forall>fd < MAX_SOCKETS. socket_table s ! fd \<noteq> NULL" "alloc_sockfd s = (- EMFILE, s)"
  then show thesis using full f t by (auto simp: socket_create_def)
next
  fix fd assume fd: "fd < MAX_SOCKETS" "socket_table s ! fd = NULL" and a: "alloc_sockfd s = (int fd, s\<lparr>next_sockfd := fd + 1\<rparr>)"
  have z: "unat SOCKET_SIZE = 280" by (simp add: SOCKET_SIZE_def)
  have args: "\<not> (family \<noteq> AF_INET \<and> family \<noteq> AF_INET6)" "\<not> (typ \<noteq> SOCK_STREAM \<and> typ \<noteq> SOCK_DGRAM \<and> typ \<noteq> SOCK_RAW)"
    using f t by auto
  from kmalloc_cases [OF sock_invD(1) [OF inv], of SOCKET_SIZE "GFP_KERNEL OR GFP_ZERO"]
  consider p h n where "can_alloc SOCKET_SIZE (sheap s)" "kzalloc SOCKET_SIZE GFP_KERNEL (sheap s) = Some (p, h)" "p \<noteq> NULL"
      "heap_inv h" "280 \<le> n" "live (sheap s) p = None" "live h = (live (sheap s))(p \<mapsto> n)"
    | "\<not> can_alloc SOCKET_SIZE (sheap s)" "kzalloc SOCKET_SIZE GFP_KERNEL (sheap s) = Some (NULL, sheap s)"
    unfolding kzalloc_def z by blast
  then show thesis
  proof cases
    case 1
    then show thesis using ok [OF fd 1(1,3,4,6,7,5)] a args by (simp add: socket_create_def Let_def upd_sock_def)
  next
    case 2
    then show thesis using nomem [OF fd] a args by (simp add: socket_create_def Let_def)
  qed
qed

section \<open>Properties\<close>

text \<open>The socket layer after start-up, over a fresh heap.\<close>

definition sock_boot :: sock_layer where
  "sock_boot = net_init \<lparr>sheap = kmalloc_init kheap_boot, socket_table = [], next_sockfd = 0,
     socks = (\<lambda>_. \<lparr>so_type = 0, so_protocol = 0, so_state = SS_FREE, local_addr = [], remote_addr = [], so_sk = NULL\<rparr>)\<rparr>"

lemma sock_boot_inv: "sock_inv sock_boot"
  by (simp add: sock_boot_def net_init_def sock_inv_def boot_heap)



end
