(* ===== verification/Ramfs.thy ===== *)
theory Ramfs
  imports Kmalloc
begin

text \<open>
  The RAM file system, \<^verbatim>\<open>kernel/fs/ramfs.c\<close>: inodes with a first-child and next-sibling pointer each, allocated from
  the kernel heap, with the file contents in heap blocks of their own. Inode structures are a typed store \<open>inodes\<close> at
  the addresses the heap hands out, file bytes are in the memory of the heap; the inodes of the VFS layer that a lookup
  creates are a second store \<open>vinodes\<close>. C strings are byte lists without the terminating zero. \<^term>\<open>None\<close> is a walk
  along a corrupted list that does not end, or an access outside a file's buffer.
\<close>

section \<open>State\<close>

definition RAMFS_MAX_NAME :: nat where "RAMFS_MAX_NAME = 255"
definition RAMFS_BLOCK_SIZE :: u64 where "RAMFS_BLOCK_SIZE = 4096"
definition S_IFMT :: u32 where "S_IFMT = 0xF000"
definition S_IFREG :: u32 where "S_IFREG = 0x8000"
definition S_IFDIR :: u32 where "S_IFDIR = 0x4000"
definition S_ISDIR :: "u32 \<Rightarrow> bool" where "S_ISDIR m \<longleftrightarrow> m AND S_IFMT = S_IFDIR"

record ramfs_inode =
  ino :: u64
  imode :: u32
  iuid :: u32
  igid :: u32
  isize :: u64
  idata :: ptr
  data_capacity :: u64
  iparent :: ptr
  children :: ptr
  sibling :: ptr
  iname :: bytes

text \<open>\<^verbatim>\<open>sizeof\<close> of the ramfs inode and of the VFS inode.\<close>

definition INODE_SIZE :: u64 where "INODE_SIZE = 328"
definition VINODE_SIZE :: u64 where "VINODE_SIZE = 144"

record vinode =
  i_ino :: u64
  i_mode :: u32
  i_size :: u64
  i_dir_ops :: bool
  i_private :: ptr

record ramfs =
  fheap :: kheap
  root :: ptr
  next_ino :: u64
  inode_count :: u64
  inodes :: "ptr \<Rightarrow> ramfs_inode"
  vinodes :: "ptr \<Rightarrow> vinode"

definition upd_ino :: "ptr \<Rightarrow> (ramfs_inode \<Rightarrow> ramfs_inode) \<Rightarrow> ramfs \<Rightarrow> ramfs" where
  "upd_ino p f s = s\<lparr>inodes := (inodes s)(p := f (inodes s p))\<rparr>"

definition fmem :: "(memory \<Rightarrow> memory) \<Rightarrow> ramfs \<Rightarrow> ramfs" where
  "fmem f s = s\<lparr>fheap := (fheap s)\<lparr>mem := f (mem (fheap s))\<rparr>\<rparr>"

abbreviation "isdir s p \<equiv> S_ISDIR (imode (inodes s p))"
abbreviation "sib s \<equiv> (\<lambda>p. sibling (inodes s p))"
abbreviation "nm s p \<equiv> iname (inodes s p)"

section \<open>Inodes and directory entries\<close>

definition ramfs_alloc_inode :: "u32 \<Rightarrow> bytes \<Rightarrow> ramfs \<Rightarrow> (ptr \<times> ramfs) option" where
  "ramfs_alloc_inode mode name s = do {
     (p, h) \<leftarrow> kzalloc INODE_SIZE GFP_KERNEL (fheap s);
     let s = s\<lparr>fheap := h\<rparr>;
     if p = NULL then Some (NULL, s)
     else Some (p, (upd_ino p (\<lambda>_. \<lparr>ino = next_ino s, imode = mode, iuid = 0, igid = 0, isize = 0, idata = NULL, data_capacity = 0,
            iparent = NULL, children = NULL, sibling = NULL, iname = take RAMFS_MAX_NAME name\<rparr>) s)
          \<lparr>next_ino := next_ino s + 1, inode_count := inode_count s + 1\<rparr>)
   }"

definition ramfs_free_inode :: "ptr \<Rightarrow> ramfs \<Rightarrow> ramfs" where
  "ramfs_free_inode p s =
     (if p = NULL then s
      else
        (let s = (if idata (inodes s p) \<noteq> NULL then s\<lparr>fheap := kfree (idata (inodes s p)) (fheap s)\<rparr> else s);
             s = s\<lparr>inode_count := inode_count s - 1\<rparr>
         in s\<lparr>fheap := kfree p (fheap s)\<rparr>))"

text \<open>The comparison loop on names and the walk along the siblings.\<close>

fun name_match :: "bytes \<Rightarrow> bytes \<Rightarrow> bool" where
  "name_match (x # a) (y # b) = (if x = y then name_match a b else False)"
| "name_match [] [] = True"
| "name_match _ _ = False"

partial_function (option) child_walk :: "ramfs \<Rightarrow> ptr \<Rightarrow> bytes \<Rightarrow> ptr option" where
  "child_walk s child name =
     (if child = NULL then Some NULL
      else if name_match (nm s child) name then Some child
      else child_walk s (sib s child) name)"

definition ramfs_lookup_child :: "ptr \<Rightarrow> bytes \<Rightarrow> ramfs \<Rightarrow> ptr option" where
  "ramfs_lookup_child dir name s = (if \<not> isdir s dir then Some NULL else child_walk s (children (inodes s dir)) name)"

definition ramfs_add_child :: "ptr \<Rightarrow> ptr \<Rightarrow> ramfs \<Rightarrow> int \<times> ramfs" where
  "ramfs_add_child dir child s =
     (if \<not> isdir s dir then (- ENOTDIR, s)
      else
        (let s = upd_ino child (iparent_update (\<lambda>_. dir)) s;
             s = upd_ino child (sibling_update (\<lambda>_. children (inodes s dir))) s
         in (0, upd_ino dir (children_update (\<lambda>_. child)) s)))"

section \<open>File operations\<close>

text \<open>An open file: the ramfs inode in \<^verbatim>\<open>private_data\<close> and the VFS inode of its dentry, either of which may be
  \<^verbatim>\<open>NULL\<close>. The position is passed and returned.\<close>

record rfile =
  private_data :: ptr
  f_inode :: ptr

definition ramfs_read :: "rfile \<Rightarrow> u64 \<Rightarrow> u64 \<Rightarrow> ramfs \<Rightarrow> (int \<times> bytes \<times> u64) option" where
  "ramfs_read file count pos s =
     (let p = private_data file; i = inodes s p in
      if p = NULL \<or> idata i = NULL then Some (0, [], pos)
      else if sint pos \<ge> sint (isize i) then Some (0, [], pos)
      else
        (let available = isize i - pos;
             to_read = (if count < available then count else available)
         in if to_read \<noteq> 0 \<and> unat pos + unat to_read > unat (data_capacity i) then None
            else Some (sint to_read, read_bytes (mem (fheap s)) (idata i + unat pos) (unat to_read), pos + to_read)))"

text \<open>Growing the buffer: a new zero-padded block with the old contents; \<^term>\<open>False\<close> when the heap has none.\<close>

definition grow_data :: "ptr \<Rightarrow> u64 \<Rightarrow> ramfs \<Rightarrow> (bool \<times> ramfs) option" where
  "grow_data p new_size s =
     (let new_cap = (new_size + RAMFS_BLOCK_SIZE - 1) AND NOT (RAMFS_BLOCK_SIZE - 1) in do {
        (new_data, h) \<leftarrow> kmalloc new_cap GFP_KERNEL (fheap s);
        let s = s\<lparr>fheap := h\<rparr>;
        if new_data = NULL then Some (False, s)
        else
          (let i = inodes s p;
               s = (if idata i \<noteq> NULL
                    then (let s = fmem (byte_copy (unat (isize i)) new_data (idata i)) s
                          in s\<lparr>fheap := kfree (idata i) (fheap s)\<rparr>)
                    else s);
               s = fmem (byte_fill (unat new_cap - unat (isize i)) (new_data + unat (isize i)) 0) s
           in Some (True, upd_ino p (\<lambda>i. i\<lparr>idata := new_data, data_capacity := new_cap\<rparr>) s))
      })"

fun poke_bytes :: "ptr \<Rightarrow> bytes \<Rightarrow> memory \<Rightarrow> memory" where
  "poke_bytes p [] m = m"
| "poke_bytes p (b # bs) m = poke_bytes (p + 1) bs (m(p := b))"

text \<open>The hole is zeroed, the bytes are stored, position and sizes are updated.\<close>

definition store_data :: "rfile \<Rightarrow> bytes \<Rightarrow> u64 \<Rightarrow> ramfs \<Rightarrow> (int \<times> u64 \<times> ramfs) option" where
  "store_data file buf pos s =
     (let p = private_data file; i = inodes s p; count = of_nat (length buf) in
      if pos > isize i \<and> unat pos > unat (data_capacity i) then None
      else if buf \<noteq> [] \<and> unat pos + length buf > unat (data_capacity i) then None
      else
        (let s = (if pos > isize i then fmem (byte_fill (unat pos - unat (isize i)) (idata i + unat (isize i)) 0) s else s);
             s = fmem (poke_bytes (idata i + unat pos) buf) s;
             pos = pos + count;
             s = (if sint pos > sint (isize i) then upd_ino p (isize_update (\<lambda>_. pos)) s else s);
             v = f_inode file;
             s = (if v \<noteq> NULL then s\<lparr>vinodes := (vinodes s)(v := (vinodes s v)\<lparr>i_size := isize (inodes s p)\<rparr>)\<rparr> else s)
         in Some (int (length buf), pos, s)))"

definition ramfs_write :: "rfile \<Rightarrow> bytes \<Rightarrow> u64 \<Rightarrow> ramfs \<Rightarrow> (int \<times> u64 \<times> ramfs) option" where
  "ramfs_write file buf pos s =
     (let p = private_data file; count = of_nat (length buf) in
      if p = NULL then Some (- EIO, pos, s)
      else
        (let new_size = pos + count in
         if new_size > data_capacity (inodes s p) then do {
           (ok, s) \<leftarrow> grow_data p new_size s;
           if \<not> ok then Some (- ENOMEM, pos, s) else store_data file buf pos s
         } else store_data file buf pos s))"

definition ramfs_open :: "ptr \<Rightarrow> rfile \<Rightarrow> ramfs \<Rightarrow> rfile" where
  "ramfs_open vi file s = file\<lparr>private_data := i_private (vinodes s vi)\<rparr>"

definition ramfs_release :: "rfile \<Rightarrow> rfile" where
  "ramfs_release file = file\<lparr>private_data := NULL\<rparr>"

text \<open>The entries passed to \<^verbatim>\<open>filldir\<close>: name, inode number and type.\<close>

partial_function (option) dir_entries :: "ramfs \<Rightarrow> ptr \<Rightarrow> (bytes \<times> u64 \<times> u32) list option" where
  "dir_entries s child =
     (if child = NULL then Some []
      else do { es \<leftarrow> dir_entries s (sib s child);
                Some ((nm s child, ino (inodes s child), drop_bit 12 (imode (inodes s child))) # es) })"

definition ramfs_readdir :: "rfile \<Rightarrow> ramfs \<Rightarrow> (int \<times> (bytes \<times> u64 \<times> u32) list) option" where
  "ramfs_readdir file s =
     (let d = private_data file in
      if d = NULL \<or> \<not> isdir s d then Some (- ENOTDIR, [])
      else do {
        es \<leftarrow> dir_entries s (children (inodes s d));
        let par = iparent (inodes s d);
        Some (0, ([46], ino (inodes s d), drop_bit 12 S_IFDIR)
                 # ([46, 46], ino (inodes s (if par \<noteq> NULL then par else d)), drop_bit 12 S_IFDIR) # es)
      })"

section \<open>Inode operations\<close>

text \<open>The VFS inode for a ramfs inode: its address, or \<^verbatim>\<open>NULL\<close> without memory. The dentry's \<^verbatim>\<open>d_inode\<close> is the
  second component of the results below.\<close>

definition new_vinode :: "ptr \<Rightarrow> u64 \<Rightarrow> bool \<Rightarrow> ramfs \<Rightarrow> (ptr \<times> ramfs) option" where
  "new_vinode c sz dir_ops s = do {
     (v, h) \<leftarrow> kzalloc VINODE_SIZE GFP_KERNEL (fheap s);
     let s = s\<lparr>fheap := h\<rparr>;
     if v = NULL then Some (NULL, s)
     else Some (v, s\<lparr>vinodes := (vinodes s)(v := \<lparr>i_ino = ino (inodes s c), i_mode = imode (inodes s c), i_size = sz,
                    i_dir_ops = dir_ops, i_private = c\<rparr>)\<rparr>)
   }"

definition ramfs_lookup :: "ptr \<Rightarrow> bytes \<Rightarrow> ptr \<Rightarrow> ramfs \<Rightarrow> (ptr \<times> ramfs) option" where
  "ramfs_lookup dir name d_inode s = do {
     c \<leftarrow> ramfs_lookup_child (i_private (vinodes s dir)) name s;
     if c = NULL then Some (d_inode, s)
     else do {
       (v, s) \<leftarrow> new_vinode c (isize (inodes s c)) (isdir s c) s;
       Some (if v = NULL then d_inode else v, s)
     }
   }"

text \<open>\<^verbatim>\<open>ramfs_create\<close> and \<^verbatim>\<open>ramfs_mkdir\<close> differ in the type bits and the file operations.\<close>

definition make_entry :: "u32 \<Rightarrow> bool \<Rightarrow> ptr \<Rightarrow> bytes \<Rightarrow> ptr \<Rightarrow> ramfs \<Rightarrow> (int \<times> ptr \<times> ramfs) option" where
  "make_entry mode dir_ops ram_dir name d_inode s =
     (if ram_dir = NULL \<or> name = [] then Some (- EINVAL, d_inode, s)
      else do {
        c \<leftarrow> ramfs_lookup_child ram_dir name s;
        if c \<noteq> NULL then Some (- EEXIST, d_inode, s)
        else do {
          (f, s) \<leftarrow> ramfs_alloc_inode mode name s;
          if f = NULL then Some (- ENOMEM, d_inode, s)
          else
            (let (r, s) = ramfs_add_child ram_dir f s in
             if r \<noteq> 0 then Some (- ENOTDIR, d_inode, ramfs_free_inode f s)
             else do {
               (v, s) \<leftarrow> new_vinode f 0 dir_ops s;
               if v = NULL then Some (- ENOMEM, d_inode, s) else Some (0, v, s)
             })
        }
      })"

definition ramfs_create :: "ptr \<Rightarrow> bytes \<Rightarrow> ptr \<Rightarrow> u32 \<Rightarrow> ramfs \<Rightarrow> (int \<times> ptr \<times> ramfs) option" where
  "ramfs_create dir name d_inode mode s = make_entry (S_IFREG OR mode) False (i_private (vinodes s dir)) name d_inode s"

definition ramfs_mkdir :: "ptr \<Rightarrow> bytes \<Rightarrow> ptr \<Rightarrow> u32 \<Rightarrow> ramfs \<Rightarrow> (int \<times> ptr \<times> ramfs) option" where
  "ramfs_mkdir dir name d_inode mode s = make_entry (S_IFDIR OR mode) True (i_private (vinodes s dir)) name d_inode s"

text \<open>A pointer cell that refers to an inode: the first child of a directory or the next sibling of an entry.\<close>

datatype cell = Child_of ptr | Sib_of ptr

fun get_cell :: "cell \<Rightarrow> ramfs \<Rightarrow> ptr" where
  "get_cell (Child_of d) s = children (inodes s d)"
| "get_cell (Sib_of p) s = sibling (inodes s p)"

fun set_cell :: "cell \<Rightarrow> ptr \<Rightarrow> ramfs \<Rightarrow> ramfs" where
  "set_cell (Child_of d) v s = upd_ino d (children_update (\<lambda>_. v)) s"
| "set_cell (Sib_of p) v s = upd_ino p (sibling_update (\<lambda>_. v)) s"

partial_function (option) unlink_cell :: "cell \<Rightarrow> ptr \<Rightarrow> ramfs \<Rightarrow> ramfs option" where
  "unlink_cell prev target s =
     (if get_cell prev s = NULL then Some s
      else if get_cell prev s = target then Some (set_cell prev (sib s target) s)
      else unlink_cell (Sib_of (get_cell prev s)) target s)"

definition ramfs_unlink :: "ptr \<Rightarrow> bytes \<Rightarrow> ramfs \<Rightarrow> (int \<times> ramfs) option" where
  "ramfs_unlink dir name s = do {
     let ram_dir = i_private (vinodes s dir);
     target \<leftarrow> ramfs_lookup_child ram_dir name s;
     if target = NULL then Some (- ENOENT, s)
     else if isdir s target then Some (- EISDIR, s)
     else do { s \<leftarrow> unlink_cell (Child_of ram_dir) target s; Some (0, ramfs_free_inode target s) }
   }"

definition ramfs_rmdir :: "ptr \<Rightarrow> bytes \<Rightarrow> ramfs \<Rightarrow> (int \<times> ramfs) option" where
  "ramfs_rmdir dir name s = do {
     let ram_dir = i_private (vinodes s dir);
     target \<leftarrow> ramfs_lookup_child ram_dir name s;
     if target = NULL then Some (- ENOENT, s)
     else if \<not> isdir s target then Some (- ENOTDIR, s)
     else if children (inodes s target) \<noteq> NULL then Some (- ENOTEMPTY, s)
     else do { s \<leftarrow> unlink_cell (Child_of ram_dir) target s; Some (0, ramfs_free_inode target s) }
   }"

text \<open>The walk of \<^verbatim>\<open>ramfs_rename\<close> to the entry before the target.\<close>

partial_function (option) find_prev :: "ramfs \<Rightarrow> ptr \<Rightarrow> ptr \<Rightarrow> ptr option" where
  "find_prev s cur target =
     (if cur \<noteq> NULL \<and> sib s cur \<noteq> target then find_prev s (sib s cur) target else Some cur)"

definition ramfs_rename :: "ptr \<Rightarrow> ptr \<Rightarrow> ptr \<Rightarrow> bytes \<Rightarrow> ramfs \<Rightarrow> (int \<times> ramfs) option" where
  "ramfs_rename old_dir old_inode new_dir new_name s = do {
     let old_ram_dir = i_private (vinodes s old_dir);
     let new_ram_dir = i_private (vinodes s new_dir);
     let target = i_private (vinodes s old_inode);
     if target = NULL then Some (- ENOENT, s)
     else do {
       c \<leftarrow> ramfs_lookup_child new_ram_dir new_name s;
       if c \<noteq> NULL then Some (- EEXIST, s)
       else do {
         s \<leftarrow> (if children (inodes s old_ram_dir) = target
               then Some (upd_ino old_ram_dir (children_update (\<lambda>_. sib s target)) s)
               else do {
                 cur \<leftarrow> find_prev s (children (inodes s old_ram_dir)) target;
                 Some (if cur \<noteq> NULL then upd_ino cur (sibling_update (\<lambda>_. sib s target)) s else s)
               });
         let s = (if old_ram_dir \<noteq> new_ram_dir
                  then (let s = upd_ino target (sibling_update (\<lambda>_. children (inodes s new_ram_dir))) s;
                            s = upd_ino new_ram_dir (children_update (\<lambda>_. target)) s
                        in upd_ino target (iparent_update (\<lambda>_. new_ram_dir)) s)
                  else (let s = upd_ino target (sibling_update (\<lambda>_. children (inodes s old_ram_dir))) s
                        in upd_ino old_ram_dir (children_update (\<lambda>_. target)) s));
         Some (0, upd_ino target (iname_update (\<lambda>_. take RAMFS_MAX_NAME new_name)) s)
       }
     }
   }"

section \<open>Mounting\<close>

text \<open>The mounted root: the VFS inode of the root is a static variable, here at address \<open>sv\<close>.\<close>

definition ramfs_mount :: "ptr \<Rightarrow> ramfs \<Rightarrow> (bool \<times> ramfs) option" where
  "ramfs_mount sv s = do {
     let s = s\<lparr>next_ino := 1, inode_count := 0\<rparr>;
     (r, s) \<leftarrow> ramfs_alloc_inode (S_IFDIR OR 0x1ED) [] s;
     let s = s\<lparr>root := r\<rparr>;
     if r = NULL then Some (False, s)
     else Some (True, s\<lparr>vinodes := (vinodes s)(sv := (vinodes s sv)\<lparr>i_ino := ino (inodes s r), i_mode := S_IFDIR OR 0x1ED,
                   i_size := 0, i_dir_ops := True, i_private := r\<rparr>)\<rparr>)
   }"

section \<open>Paths\<close>

abbreviation (input) SLASH :: u8 where "SLASH \<equiv> 47"

fun last_slash :: "bytes \<Rightarrow> nat \<Rightarrow> nat option \<Rightarrow> nat option" where
  "last_slash [] i found = found"
| "last_slash (c # cs) i found = last_slash cs (i + 1) (if c = SLASH then Some i else found)"

text \<open>Error, parent path and name; \<^term>\<open>None\<close> for the path is \<^verbatim>\<open>NULL\<close>.\<close>

definition ramfs_split_path :: "bytes option \<Rightarrow> nat \<Rightarrow> nat \<Rightarrow> int \<times> bytes \<times> bytes" where
  "ramfs_split_path path parent_size name_size =
     (case path of
        None \<Rightarrow> (- EINVAL, [], [])
      | Some path \<Rightarrow>
          (let start = dropWhile (\<lambda>c. c = SLASH) path in
           if start = [] then (- EINVAL, [], [])
           else case last_slash start 0 None of
             None \<Rightarrow> (0, [], take (name_size - 1) start)
           | Some k \<Rightarrow>
               (let parent = take (if k < parent_size - 1 then k else parent_size - 1) start;
                    name = take (name_size - 1) (drop (k + 1) start)
                in (if name = [] then - EINVAL else 0, parent, name))))"

definition path_comp :: "bytes \<Rightarrow> bytes" where
  "path_comp path = take RAMFS_MAX_NAME (takeWhile (\<lambda>c. c \<noteq> SLASH) path)"

definition path_rest :: "bytes \<Rightarrow> bytes" where
  "path_rest path = dropWhile (\<lambda>c. c = SLASH) (drop (length (path_comp path)) path)"

lemma path_rest_less: "path \<noteq> [] \<Longrightarrow> length (path_rest path) < length path"
proof (cases "path_comp path = []")
  case True
  assume "path \<noteq> []"
  then have "hd path = SLASH" using True by (cases path) (auto simp: path_comp_def RAMFS_MAX_NAME_def split: if_splits)
  then show ?thesis using True \<open>path \<noteq> []\<close> length_dropWhile_le [of _ "tl path"]
    by (cases path) (auto simp: path_rest_def less_Suc_eq_le)
next
  case False
  assume "path \<noteq> []"
  then have "length (drop (length (path_comp path)) path) < length path" using False by simp
  then show ?thesis using length_dropWhile_le unfolding path_rest_def by (rule le_less_trans [rotated])
qed

function path_walk :: "ramfs \<Rightarrow> ptr \<Rightarrow> bytes \<Rightarrow> ptr option" where
  "path_walk s current path =
     (if path = [] then Some current
      else do {
        c \<leftarrow> ramfs_lookup_child current (path_comp path) s;
        if c = NULL then Some NULL else path_walk s c (path_rest path)
      })"
  by pat_completeness auto
termination
  by (relation "measure (\<lambda>(s, current, path). length path)") (auto simp: path_rest_less)

declare path_walk.simps [simp del]

definition ramfs_lookup_inode_path :: "bytes option \<Rightarrow> ramfs \<Rightarrow> ptr option" where
  "ramfs_lookup_inode_path path s =
     (if root s = NULL then Some NULL
      else case path of
        None \<Rightarrow> Some NULL
      | Some path \<Rightarrow> path_walk s (root s) (dropWhile (\<lambda>c. c = SLASH) path))"

definition ramfs_get_parent_dir :: "bytes option \<Rightarrow> ramfs \<Rightarrow> (ptr \<times> bytes) option" where
  "ramfs_get_parent_dir path s =
     (let (r, parent_path, filename) = ramfs_split_path path 256 (RAMFS_MAX_NAME + 1) in
      if r \<noteq> 0 then Some (NULL, filename)
      else if parent_path = [] then Some (root s, filename)
      else do {
        dir \<leftarrow> ramfs_lookup_inode_path (Some parent_path) s;
        Some (if dir = NULL \<or> \<not> isdir s dir then NULL else dir, filename)
      })"

text \<open>The block with the initial contents; \<^term>\<open>False\<close> without memory.\<close>

definition fill_file :: "ptr \<Rightarrow> bytes \<Rightarrow> ramfs \<Rightarrow> (bool \<times> ramfs) option" where
  "fill_file f content s = do {
     (d, h) \<leftarrow> kmalloc (of_nat (length content)) GFP_KERNEL (fheap s);
     let s = upd_ino f (idata_update (\<lambda>_. d)) (s\<lparr>fheap := h\<rparr>);
     if d = NULL then Some (False, ramfs_free_inode f s)
     else Some (True, upd_ino f (\<lambda>i. i\<lparr>isize := of_nat (length content), data_capacity := of_nat (length content)\<rparr>)
                  (fmem (poke_bytes d content) s))
   }"

definition link_file :: "ptr \<Rightarrow> ptr \<Rightarrow> ramfs \<Rightarrow> int \<times> ramfs" where
  "link_file parent f s =
     (let (r, s) = ramfs_add_child parent f s in if r \<noteq> 0 then (- ENOTDIR, ramfs_free_inode f s) else (0, s))"

definition ramfs_create_file :: "bytes option \<Rightarrow> u32 \<Rightarrow> bytes option \<Rightarrow> ramfs \<Rightarrow> (int \<times> ramfs) option" where
  "ramfs_create_file path mode content s =
     (if root s = NULL then Some (- ENOENT, s)
      else do {
        (parent, filename) \<leftarrow> ramfs_get_parent_dir path s;
        if parent = NULL then Some (- ENOENT, s)
        else do {
          c \<leftarrow> ramfs_lookup_child parent filename s;
          if c \<noteq> NULL then Some (- EEXIST, s)
          else do {
            (f, s) \<leftarrow> ramfs_alloc_inode (S_IFREG OR mode) filename s;
            if f = NULL then Some (- ENOMEM, s)
            else case content of
              None \<Rightarrow> Some (link_file parent f s)
            | Some b \<Rightarrow> do { (ok, s) \<leftarrow> fill_file f b s; Some (if \<not> ok then (- ENOMEM, s) else link_file parent f s) }
          }
        }
      })"

definition ramfs_create_file_bytes :: "bytes option \<Rightarrow> u32 \<Rightarrow> bytes option \<Rightarrow> ramfs \<Rightarrow> (int \<times> ramfs) option" where
  "ramfs_create_file_bytes path mode data s =
     (if root s = NULL then Some (- ENOENT, s)
      else do {
        (parent, filename) \<leftarrow> ramfs_get_parent_dir path s;
        if parent = NULL then Some (- ENOENT, s)
        else do {
          (f, s) \<leftarrow> ramfs_alloc_inode (S_IFREG OR mode) filename s;
          if f = NULL then Some (- ENOMEM, s)
          else do {
            c \<leftarrow> ramfs_lookup_child parent filename s;
            if c \<noteq> NULL then Some (- EEXIST, ramfs_free_inode f s)
            else case data of
              None \<Rightarrow> Some (link_file parent f s)
            | Some b \<Rightarrow>
                if b = [] then Some (link_file parent f s)
                else do { (ok, s) \<leftarrow> fill_file f b s; Some (if \<not> ok then (- ENOMEM, s) else link_file parent f s) }
          }
        }
      })"

definition ramfs_truncate_file :: "ptr \<Rightarrow> ramfs \<Rightarrow> int \<times> ramfs" where
  "ramfs_truncate_file p s =
     (if p = NULL \<or> isdir s p then (- EINVAL, s) else (0, upd_ino p (isize_update (\<lambda>_. 0)) s))"

definition ramfs_create_dir :: "bytes option \<Rightarrow> u32 \<Rightarrow> ramfs \<Rightarrow> (int \<times> ramfs) option" where
  "ramfs_create_dir path mode s =
     (if root s = NULL then Some (- ENOENT, s)
      else
        (let (r, parent_path, dirname) = ramfs_split_path path 256 (RAMFS_MAX_NAME + 1) in
         if r \<noteq> 0 then Some (- EINVAL, s)
         else do {
           parent \<leftarrow> (if parent_path \<noteq> [] then do {
                        p \<leftarrow> ramfs_lookup_inode_path (Some parent_path) s;
                        Some (if p = NULL \<or> \<not> isdir s p then NULL else p) }
                      else Some (root s));
           if parent = NULL then Some (- ENOENT, s)
           else do {
             existing \<leftarrow> ramfs_lookup_child parent dirname s;
             if existing \<noteq> NULL \<and> isdir s existing then Some (0, s)
             else if existing \<noteq> NULL then Some (- EEXIST, s)
             else do {
               (d, s) \<leftarrow> ramfs_alloc_inode (S_IFDIR OR mode) dirname s;
               if d = NULL then Some (- ENOMEM, s) else Some (0, snd (ramfs_add_child parent d s))
             }
           }
         }))"

text \<open>The result, size, kind and inode written through the output pointers; only one leading slash is skipped here.\<close>

definition ramfs_lookup_path_info :: "bytes \<Rightarrow> ramfs \<Rightarrow> (int \<times> u64 \<times> bool \<times> ptr) option" where
  "ramfs_lookup_path_info path s =
     (if root s = NULL then Some (- 1, 0, False, NULL)
      else
        (let path = (case path of c # cs \<Rightarrow> if c = SLASH then cs else path | [] \<Rightarrow> []) in
         if path = [] then Some (0, 0, True, NULL)
         else do {
           c \<leftarrow> path_walk s (root s) path;
           Some (if c = NULL then (- 1, 0, False, NULL) else (0, isize (inodes s c), isdir s c, c))
         }))"

section \<open>The invariant\<close>

text \<open>\<open>N\<close> is the set of inodes and \<open>K\<close> gives the entries of each directory in list order. Every inode and every
  file buffer is a live heap block of its own, sizes are within the buffers, sibling lists end, names in a directory
  differ, and the parent pointer of an entry is its directory.\<close>

definition buf_ok :: "kheap \<Rightarrow> (ptr \<Rightarrow> ramfs_inode) \<Rightarrow> ptr set \<Rightarrow> ptr \<Rightarrow> bool" where
  "buf_ok h I N p \<longleftrightarrow>
     isize (I p) \<le> data_capacity (I p) \<and> data_capacity (I p) \<le> MAX_ALLOC
     \<and> (if idata (I p) = NULL then data_capacity (I p) = 0
        else (\<exists>n \<ge> unat (data_capacity (I p)). live h (idata (I p)) = Some n) \<and> idata (I p) \<notin> N
             \<and> (\<forall>q \<in> N. idata (I q) = idata (I p) \<longrightarrow> q = p))"

definition dir_ok :: "(ptr \<Rightarrow> ramfs_inode) \<Rightarrow> ptr set \<Rightarrow> (ptr \<Rightarrow> ptr list) \<Rightarrow> ptr \<Rightarrow> bool" where
  "dir_ok I N K d \<longleftrightarrow>
     slist (\<lambda>p. sibling (I p)) (children (I d)) (K d) \<and> set (K d) \<subseteq> N \<and> distinct (map (\<lambda>c. iname (I c)) (K d))
     \<and> (\<forall>c \<in> set (K d). iparent (I c) = d) \<and> (\<not> S_ISDIR (imode (I d)) \<longrightarrow> K d = [])"

definition fs_ok :: "kheap \<Rightarrow> (ptr \<Rightarrow> ramfs_inode) \<Rightarrow> ptr set \<Rightarrow> (ptr \<Rightarrow> ptr list) \<Rightarrow> bool" where
  "fs_ok h I N K \<longleftrightarrow> heap_inv h \<and> (\<forall>p \<in> N. (\<exists>n \<ge> 328. live h p = Some n) \<and> buf_ok h I N p \<and> dir_ok I N K p)"

abbreviation "fs_wf s N K \<equiv> fs_ok (fheap s) (inodes s) N K"

text \<open>What a client sees: the entries of a directory by name, and the bytes of a file.\<close>

definition dir_map :: "ramfs \<Rightarrow> (ptr \<Rightarrow> ptr list) \<Rightarrow> ptr \<Rightarrow> bytes \<rightharpoonup> ptr" where
  "dir_map s K d = map_of (map (\<lambda>c. (nm s c, c)) (K d))"

definition contents :: "ramfs \<Rightarrow> ptr \<Rightarrow> bytes" where
  "contents s p = read_bytes (mem (fheap s)) (idata (inodes s p)) (unat (isize (inodes s p)))"

lemma fs_okD:
  assumes "fs_ok h I N K"
  shows "heap_inv h" "p \<in> N \<Longrightarrow> \<exists>n \<ge> 328. live h p = Some n" "p \<in> N \<Longrightarrow> buf_ok h I N p" "d \<in> N \<Longrightarrow> dir_ok I N K d"
    "p \<in> N \<Longrightarrow> p \<noteq> NULL"
  using assms kh.lv_nonnull unfolding fs_ok_def by blast+

lemma dir_okD:
  assumes "dir_ok I N K d"
  shows "slist (\<lambda>p. sibling (I p)) (children (I d)) (K d)" "set (K d) \<subseteq> N" "distinct (map (\<lambda>c. iname (I c)) (K d))"
    "c \<in> set (K d) \<Longrightarrow> iparent (I c) = d" "\<not> S_ISDIR (imode (I d)) \<Longrightarrow> K d = []"
  using assms unfolding dir_ok_def by blast+

text \<open>Entries of different directories are different inodes.\<close>

lemma fs_ok_parent: "\<lbrakk> fs_ok h I N K; d \<in> N; e \<in> N; c \<in> set (K d); c \<in> set (K e) \<rbrakk> \<Longrightarrow> d = e"
  using fs_okD(4) dir_okD(4) by metis

lemma dir_ok_fields:
  assumes "dir_ok I N K d" and "K' d = K d" and "children (I' d) = children (I d)" and "imode (I' d) = imode (I d)"
    and "\<And>c. c \<in> set (K d) \<Longrightarrow> sibling (I' c) = sibling (I c)" and "\<And>c. c \<in> set (K d) \<Longrightarrow> iname (I' c) = iname (I c)"
    and "\<And>c. c \<in> set (K d) \<Longrightarrow> iparent (I' c) = iparent (I c)" and "set (K d) \<subseteq> N'"
  shows "dir_ok I' N' K' d"
proof -
  note D = dir_okD [OF assms(1)]
  have "slist (\<lambda>p. sibling (I' p)) (children (I d)) (K d)" using D(1) assms(5) by (subst slist_cong) auto
  moreover have "map (\<lambda>c. iname (I' c)) (K d) = map (\<lambda>c. iname (I c)) (K d)" using assms(6) by (intro map_cong) auto
  then have "distinct (map (\<lambda>c. iname (I' c)) (K d))" using D(3) by (simp only:)
  ultimately show ?thesis using D(4,5) assms(2,3,4,7,8) unfolding dir_ok_def by simp
qed

lemma buf_ok_cong:
  assumes "buf_ok h I N p" and "idata (I' p) = idata (I p)" "isize (I' p) = isize (I p)" "data_capacity (I' p) = data_capacity (I p)"
    and "idata (I p) \<noteq> NULL \<Longrightarrow> live h' (idata (I p)) = live h (idata (I p))"
    and "idata (I p) \<noteq> NULL \<Longrightarrow> idata (I p) \<notin> N'"
    and "\<And>q. \<lbrakk> q \<in> N'; idata (I' q) = idata (I p); idata (I p) \<noteq> NULL \<rbrakk> \<Longrightarrow> q = p"
  shows "buf_ok h' I' N' p"
  using assms unfolding buf_ok_def by auto

lemma fs_ok_cong:
  assumes "fs_ok h I N K" and "heap_inv h'" and "\<And>p. p \<in> N \<Longrightarrow> I' p = I p"
    and "\<And>p. p \<in> N \<Longrightarrow> live h' p = live h p" and "\<And>p. \<lbrakk> p \<in> N; idata (I p) \<noteq> NULL \<rbrakk> \<Longrightarrow> live h' (idata (I p)) = live h (idata (I p))"
  shows "fs_ok h' I' N K"
proof -
  have "buf_ok h' I' N p \<and> dir_ok I' N K p" if p: "p \<in> N" for p
  proof
    note b = fs_okD(3) [OF assms(1) p]
    show "buf_ok h' I' N p"
      by (rule buf_ok_cong [OF b]) (use assms(3,5) p b in \<open>auto simp: buf_ok_def split: if_splits\<close>)
    show "dir_ok I' N K p"
      using dir_okD(2) [OF fs_okD(4) [OF assms(1) p]] assms(3) p
      by (intro dir_ok_fields [OF fs_okD(4) [OF assms(1) p]]) auto
  qed
  then show ?thesis using assms(2,4) fs_okD(2) [OF assms(1)] unfolding fs_ok_def by simp
qed

text \<open>Linking a new inode \<open>f\<close> without entries at the front of directory \<open>d\<close>.\<close>

lemma fs_ok_link:
  assumes ok: "fs_ok h I N K" and d: "d \<in> N" "S_ISDIR (imode (I d))" and f: "f \<notin> N" "\<exists>n \<ge> 328. live h f = Some n"
    and fi: "children (I f) = NULL" "iname (I f) \<notin> (\<lambda>c. iname (I c)) ` set (K d)"
    and b: "buf_ok h I (insert f N) f" and nf: "\<And>p. p \<in> N \<Longrightarrow> idata (I p) \<noteq> NULL \<Longrightarrow> idata (I p) \<noteq> f"
  defines "I' \<equiv> I(f := (I f)\<lparr>iparent := d, sibling := children (I d)\<rparr>, d := (I d)\<lparr>children := f\<rparr>)"
  shows "fs_ok h I' (insert f N) (K(d := f # K d, f := []))"
proof -
  let ?K = "K(d := f # K d, f := [])"
  have fd: "f \<noteq> d" using f d by blast
  note D = dir_okD [OF fs_okD(4) [OF ok d(1)]]
  have nn: "f \<noteq> NULL" using f(2) kh.lv_nonnull [OF fs_okD(1) [OF ok]] by blast
  have same: "sibling (I' c) = sibling (I c)" "iname (I' c) = iname (I c)" "iparent (I' c) = iparent (I c)" if "c \<in> N" for c
    using that f(1) by (auto simp: I'_def)
  have dd: "dir_ok I' (insert f N) ?K d"
  proof -
    have "slist (\<lambda>p. sibling (I' p)) (children (I d)) (K d)" using D(1,2) same by (subst slist_cong) auto
    moreover have "map (\<lambda>c. iname (I' c)) (K d) = map (\<lambda>c. iname (I c)) (K d)" using D(2) same by (intro map_cong) auto
    then have "distinct (map (\<lambda>c. iname (I' c)) (K d))" "iname (I' f) \<notin> set (map (\<lambda>c. iname (I' c)) (K d))"
      using D(3) fi(2) fd by (simp_all only: set_map) (simp add: I'_def)
    ultimately show ?thesis
      unfolding dir_ok_def using D(2,4) fd nn d(2) same by (auto simp: I'_def)
  qed
  have ff: "dir_ok I' (insert f N) ?K f" using fi(1) fd by (simp add: dir_ok_def I'_def)
  have dp: "dir_ok I' (insert f N) ?K p" if p: "p \<in> N" "p \<noteq> d" for p
  proof -
    note P = fs_okD(4) [OF ok p(1)]
    have "p \<noteq> f" using p f by blast
    then have c: "children (I' p) = children (I p)" "imode (I' p) = imode (I p)" "?K p = K p" using p by (simp_all add: I'_def)
    show ?thesis
      using dir_okD(2) [OF P] same p by (intro dir_ok_fields [OF P] c) blast+
  qed
  have bo: "buf_ok h I' (insert f N) p" if p: "p \<in> insert f N" for p
  proof -
    have e: "idata (I' q) = idata (I q)" "isize (I' q) = isize (I q)" "data_capacity (I' q) = data_capacity (I q)" for q
      using fd by (auto simp: I'_def)
    have "buf_ok h I (insert f N) p"
    proof (cases "p = f")
      case False
      then have pN: "p \<in> N" using p by blast
      have ne: "idata (I p) = idata (I f) \<Longrightarrow> idata (I p) = NULL"
        using b pN False by (auto simp: buf_ok_def split: if_splits)
      note fs_okD(3) [OF ok pN]
      then show ?thesis using nf [OF pN] ne unfolding buf_ok_def by (auto split: if_splits)
    qed (simp add: b)
    then show ?thesis unfolding buf_ok_def e .
  qed
  show ?thesis unfolding fs_ok_def
    using fs_okD(1,2) [OF ok] f(2) dd ff dp bo by (metis insertE)
qed

text \<open>Taking an entry without entries of its own out of its directory.\<close>

definition cut :: "ptr \<Rightarrow> ptr list \<Rightarrow> ptr \<Rightarrow> (ptr \<Rightarrow> ramfs_inode) \<Rightarrow> ptr \<Rightarrow> ramfs_inode" where
  "cut d us t I =
     (if us = [] then I(d := (I d)\<lparr>children := sibling (I t)\<rparr>)
      else I(last us := (I (last us))\<lparr>sibling := sibling (I t)\<rparr>))"

lemma cut_fields [simp]:
  "iname (cut d us t I p) = iname (I p)" "iparent (cut d us t I p) = iparent (I p)" "imode (cut d us t I p) = imode (I p)"
  "idata (cut d us t I p) = idata (I p)" "isize (cut d us t I p) = isize (I p)" "data_capacity (cut d us t I p) = data_capacity (I p)"
  "ino (cut d us t I p) = ino (I p)"
  by (simp_all add: cut_def)

lemma cut_other: "p \<noteq> d \<Longrightarrow> children (cut d us t I p) = children (I p)" "us = [] \<or> p \<noteq> last us \<Longrightarrow> sibling (cut d us t I p) = sibling (I p)"
  "us \<noteq> [] \<Longrightarrow> children (cut d us t I p) = children (I p)"
  by (auto simp: cut_def)

lemma cut_slist:
  assumes "slist (\<lambda>p. sibling (I p)) (children (I d)) (us @ t # vs)"
  shows "slist (\<lambda>p. sibling (cut d us t I p)) (children (cut d us t I d)) (us @ vs)"
proof (cases "us = []")
  case True
  then have "(\<lambda>p. sibling (cut d us t I p)) = (\<lambda>p. sibling (I p))" by (auto simp: cut_def)
  with True assms show ?thesis by (simp add: cut_def)
next
  case False
  have "(\<lambda>p. sibling (cut d us t I p)) = (\<lambda>p. sibling (I p))(last us := sibling (I t))" using False by (auto simp: cut_def)
  with slist_remove [OF assms False] cut_other(3) [OF False] show ?thesis by (simp only:)
qed

lemma fs_ok_cut:
  assumes ok: "fs_ok h I N K" and d: "d \<in> N" "K d = us @ t # vs" and t: "K t = []"
  shows "fs_ok h (cut d us t I) (N - {t}) (K(d := us @ vs))"
proof -
  note D = dir_okD [OF fs_okD(4) [OF ok d(1)], unfolded d(2)]
  have td: "t \<noteq> d" using d(2) t by auto
  have tv: "t \<notin> set (us @ vs)" using slist_distinct [OF D(1)] by simp
  have dd: "dir_ok (cut d us t I) (N - {t}) (K(d := us @ vs)) d"
    unfolding dir_ok_def using cut_slist [OF D(1)] D(2-5) tv by auto
  have dp: "dir_ok (cut d us t I) (N - {t}) (K(d := us @ vs)) p" if p: "p \<in> N" "p \<noteq> d" for p
  proof -
    note P = fs_okD(4) [OF ok p(1)]
    have n: "c \<notin> set (K p)" if "c \<in> set (K d)" for c using fs_ok_parent [OF ok d(1) p(1) that] p(2) by blast
    have "us = [] \<or> last us \<notin> set (K p)" using n d(2) by (cases us) auto
    then have "sibling (cut d us t I c) = sibling (I c)" if "c \<in> set (K p)" for c
      using that by (intro cut_other(2)) auto
    moreover have "t \<notin> set (K p)" using n d(2) by simp
    ultimately show ?thesis
      using dir_okD(2) [OF P] p by (intro dir_ok_fields [OF P]) (auto simp: cut_other)
  qed
  have "buf_ok h (cut d us t I) (N - {t}) p" if "p \<in> N" for p
    using fs_okD(3) [OF ok that] unfolding buf_ok_def by (auto split: if_splits)
  then show ?thesis using fs_okD(1,2) [OF ok] dd dp unfolding fs_ok_def by (metis Diff_iff)
qed

section \<open>Walks on a well-formed file system\<close>

lemma entry_match_iff [simp]: "name_match a b \<longleftrightarrow> a = b"
  by (induction a b rule: name_match.induct) auto

lemma child_walk_spec:
  "slist (sib s) x cs \<Longrightarrow> child_walk s x name = Some (case map_of (map (\<lambda>c. (nm s c, c)) cs) name of None \<Rightarrow> NULL | Some c \<Rightarrow> c)"
  by (induction cs arbitrary: x) (simp_all add: child_walk.simps)

lemma lookup_child_spec:
  assumes "fs_wf s N K" and "d \<in> N"
  shows "ramfs_lookup_child d name s = Some (case dir_map s K d name of None \<Rightarrow> NULL | Some c \<Rightarrow> c)"
proof -
  note D = dir_okD [OF fs_okD(4) [OF assms]]
  show ?thesis
    using child_walk_spec [OF D(1)] D(5) by (auto simp: ramfs_lookup_child_def dir_map_def)
qed

lemma unlink_cell_spec:
  assumes "slist (sib s) (get_cell c s) (us @ t # vs)"
  shows "unlink_cell c t s = Some (set_cell (if us = [] then c else Sib_of (last us)) (sib s t) s)"
  using assms slist_distinct [OF assms]
proof (induction us arbitrary: c)
  case Nil
  then show ?case by (simp add: unlink_cell.simps)
next
  case (Cons a us)
  then have "unlink_cell (Sib_of a) t s = Some (set_cell (if us = [] then Sib_of a else Sib_of (last us)) (sib s t) s)"
    by (intro Cons.IH) auto
  then show ?case using Cons.prems by (subst unlink_cell.simps) auto
qed

lemma unlink_dir_spec:
  assumes "fs_wf s N K" and "d \<in> N" and "K d = us @ t # vs"
  shows "unlink_cell (Child_of d) t s = Some (s\<lparr>inodes := cut d us t (inodes s)\<rparr>)"
proof -
  have "slist (sib s) (get_cell (Child_of d) s) (us @ t # vs)" using dir_okD(1) [OF fs_okD(4) [OF assms(1,2)]] assms(3) by simp
  from unlink_cell_spec [OF this] show ?thesis by (simp add: cut_def upd_ino_def)
qed

lemma dir_map_mem:
  assumes "fs_wf s N K" and "d \<in> N" and "dir_map s K d name = Some t"
  obtains us vs where "K d = us @ t # vs" "nm s t = name" "t \<in> N" "t \<noteq> NULL" "name \<notin> nm s ` set (us @ vs)"
proof -
  note D = dir_okD [OF fs_okD(4) [OF assms(1,2)]]
  have "(name, t) \<in> set (map (\<lambda>c. (nm s c, c)) (K d))" using assms(3) map_of_SomeD by (fastforce simp: dir_map_def)
  then have t: "t \<in> set (K d)" "nm s t = name" by auto
  then obtain us vs where k: "K d = us @ t # vs" by (meson split_list)
  have "nm s t \<notin> nm s ` set (us @ vs)" using D(3) k by auto
  then show thesis using that k t D(2) fs_okD(5) [OF assms(1)] by blast
qed

section \<open>Removing entries\<close>

lemma ramfs_free_inode_spec:
  assumes "heap_inv (fheap s)" and "live (fheap s) t \<noteq> None" and "idata (inodes s t) = NULL \<or> live (fheap s) (idata (inodes s t)) \<noteq> None"
    and "idata (inodes s t) \<noteq> t"
  defines "s' \<equiv> ramfs_free_inode t s"
  shows "heap_inv (fheap s')" "live (fheap s') = (live (fheap s))(idata (inodes s t) := None, t := None)"
    "mem (fheap s') = mem (fheap s)" "inodes s' = inodes s" "vinodes s' = vinodes s" "root s' = root s"
proof -
  define h1 where "h1 = kfree (idata (inodes s t)) (fheap s)"
  note r1 = kh.release_upd [OF assms(1,3), folded h1_def]
  have l: "live h1 t \<noteq> None" using r1(2) assms(2,4) by simp
  have t: "t \<noteq> NULL" using assms(2) kh.lv_NULL [OF assms(1)] by metis
  have e: "s' = s\<lparr>inode_count := inode_count s - 1, fheap := kfree t h1\<rparr>"
    using t kh.release_NULL by (auto simp: s'_def ramfs_free_inode_def Let_def h1_def)
  show "heap_inv (fheap s')" "live (fheap s') = (live (fheap s))(idata (inodes s t) := None, t := None)"
    using kh.release_inv [OF r1(1) l] kh.release_lv [OF r1(1) l] r1(2) by (simp_all add: e)
  show "mem (fheap s') = mem (fheap s)" "inodes s' = inodes s" "vinodes s' = vinodes s" "root s' = root s"
    by (simp_all add: e kfree_mem h1_def)
qed

text \<open>The effect of removing the entry \<open>t\<close> named \<open>name\<close> from directory \<open>d\<close>.\<close>

definition removed :: "ramfs \<Rightarrow> ramfs \<Rightarrow> ptr set \<Rightarrow> (ptr \<Rightarrow> ptr list) \<Rightarrow> ptr \<Rightarrow> bytes \<Rightarrow> ptr \<Rightarrow> bool" where
  "removed s s' N K d name t \<longleftrightarrow>
     (\<exists>K'. fs_wf s' (N - {t}) K'
       \<and> (\<forall>e \<in> N - {t}. dir_map s' K' e = (if e = d then (dir_map s K d)(name := None) else dir_map s K e))
       \<and> (\<forall>p \<in> N - {t}. contents s' p = contents s p \<and> imode (inodes s' p) = imode (inodes s p))
       \<and> live (fheap s') = (live (fheap s))(idata (inodes s t) := None, t := None))"

lemma dir_map_remove:
  assumes "K d = us @ t # vs" and "nm s t = name" and "name \<notin> nm s ` set (us @ vs)"
    and "\<And>c. c \<in> set (us @ vs) \<Longrightarrow> nm s' c = nm s c"
  shows "dir_map s' (K(d := us @ vs)) d = (dir_map s K d)(name := None)"
proof
  fix x
  have e: "map (\<lambda>c. (nm s' c, c)) (us @ vs) = map (\<lambda>c. (nm s c, c)) (us @ vs)" using assms(4) by (intro map_cong) auto
  have n: "map_of (map (\<lambda>c. (nm s c, c)) us) name = None" "map_of (map (\<lambda>c. (nm s c, c)) vs) name = None"
    using assms(3) by (auto simp: map_of_eq_None_iff image_image)
  show "dir_map s' (K(d := us @ vs)) d x = ((dir_map s K d)(name := None)) x"
    unfolding dir_map_def fun_upd_same e using n assms(1,2) by (auto simp: map_add_def split: option.splits)
qed

lemma remove_entry:
  assumes ok: "fs_wf s N K" and d: "d \<in> N" and m: "dir_map s K d name = Some t" and kt: "K t = []"
  obtains s1 where "unlink_cell (Child_of d) t s = Some s1" "removed s (ramfs_free_inode t s1) N K d name t"
proof -
  obtain us vs where k: "K d = us @ t # vs" "nm s t = name" "t \<in> N" "t \<noteq> NULL" "name \<notin> nm s ` set (us @ vs)"
    by (rule dir_map_mem [OF ok d m])
  define s1 where "s1 = s\<lparr>inodes := cut d us t (inodes s)\<rparr>"
  define s2 where "s2 = ramfs_free_inode t s1"
  let ?K = "K(d := us @ vs)"
  have ok1: "fs_wf s1 (N - {t}) ?K" unfolding s1_def using fs_ok_cut [OF ok d k(1) kt] by simp
  note B = fs_okD(3) [OF ok k(3)]
  have "heap_inv (fheap s1)" "live (fheap s1) t \<noteq> None" using fs_okD(1) [OF ok] fs_okD(2) [OF ok k(3)] by (auto simp: s1_def)
  moreover have "idata (inodes s1 t) = NULL \<or> live (fheap s1) (idata (inodes s1 t)) \<noteq> None" "idata (inodes s1 t) \<noteq> t"
    using B k(3,4) by (auto simp: s1_def buf_ok_def split: if_splits)
  ultimately have F: "heap_inv (fheap s2)" "live (fheap s2) = (live (fheap s))(idata (inodes s t) := None, t := None)"
    "mem (fheap s2) = mem (fheap s)" "inodes s2 = inodes s1"
    using ramfs_free_inode_spec [of s1 t] by (simp_all add: s1_def s2_def)
  have "fs_wf s2 (N - {t}) ?K"
  proof (rule fs_ok_cong [OF ok1 F(1)])
    fix p assume p: "p \<in> N - {t}"
    then have "p \<noteq> idata (inodes s t)" using B fs_okD(5) [OF ok] by (auto simp: buf_ok_def split: if_splits)
    then show "live (fheap s2) p = live (fheap s1) p" using F(2) p by (simp add: s1_def)
    assume n: "idata (inodes s1 p) \<noteq> NULL"
    have "idata (inodes s p) \<noteq> t" "idata (inodes s p) \<noteq> idata (inodes s t)"
      using fs_okD(3) [OF ok, of p] k(3) p n B by (auto simp: buf_ok_def s1_def split: if_splits)
    then show "live (fheap s2) (idata (inodes s1 p)) = live (fheap s1) (idata (inodes s1 p))" using F(2) by (simp add: s1_def)
  qed (simp add: F)
  moreover have "dir_map s2 ?K e = (if e = d then (dir_map s K d)(name := None) else dir_map s K e)" for e
    using dir_map_remove [where K = K and d = d and s = s, OF k(1,2,5), of s2] F(4) by (auto simp: dir_map_def s1_def)
  ultimately have "removed s s2 N K d name t" unfolding removed_def using F by (auto simp: contents_def s1_def)
  then show thesis using that unlink_dir_spec [OF ok d k(1)] by (simp add: s1_def s2_def)
qed

section \<open>Creating entries\<close>

text \<open>The effect of adding the new inode \<open>f\<close> under \<open>name\<close> to directory \<open>d\<close>.\<close>

definition added :: "ramfs \<Rightarrow> ramfs \<Rightarrow> ptr set \<Rightarrow> (ptr \<Rightarrow> ptr list) \<Rightarrow> ptr \<Rightarrow> bytes \<Rightarrow> ptr \<Rightarrow> bool" where
  "added s s' N K d name f \<longleftrightarrow> f \<notin> N \<and> f \<noteq> NULL
     \<and> (\<exists>K'. fs_wf s' (insert f N) K'
       \<and> (\<forall>e \<in> N. dir_map s' K' e = (if e = d then (dir_map s K d)(name \<mapsto> f) else dir_map s K e)) \<and> dir_map s' K' f = Map.empty)
     \<and> (\<forall>p \<in> N. contents s' p = contents s p \<and> imode (inodes s' p) = imode (inodes s p))"

text \<open>The live buffers keep their bytes when the heap writes only into fresh blocks.\<close>

lemma contents_frame:
  assumes ok: "fs_wf s N K" and p: "p \<in> N" and i: "idata (inodes s' p) = idata (inodes s p)" "isize (inodes s' p) = isize (inodes s p)"
    and m: "\<And>q n a. \<lbrakk> live (fheap s) q = Some n; q \<le> a; a < q + n \<rbrakk> \<Longrightarrow> mem (fheap s') a = mem (fheap s) a"
  shows "contents s' p = contents s p"
proof -
  note B = fs_okD(3) [OF ok p]
  have le: "unat (isize (inodes s p)) \<le> unat (data_capacity (inodes s p))" using B by (simp add: buf_ok_def word_le_nat_alt)
  show ?thesis
  proof (cases "idata (inodes s p) = NULL")
    case True
    then have "unat (isize (inodes s p)) = 0" using B le by (simp add: buf_ok_def)
    then show ?thesis using i by (simp add: contents_def read_bytes_def)
  next
    case False
    then obtain n where n: "unat (data_capacity (inodes s p)) \<le> n" "live (fheap s) (idata (inodes s p)) = Some n"
      using B by (auto simp: buf_ok_def)
    show ?thesis unfolding contents_def i using m [OF n(2)] n(1) le by (intro read_bytes_cong) simp
  qed
qed

lemma kzalloc_frame:
  assumes "heap_inv h" and "kzalloc sz GFP_KERNEL h = Some (p, h')" and "live h q = Some n" and "q \<le> a" and "a < q + n"
  shows "mem h' a = mem h a"
proof -
  have k: "kmalloc sz (GFP_KERNEL OR GFP_ZERO) h = Some (p, h')" using assms(2) by (simp add: kzalloc_def)
  show ?thesis
  proof (cases "p = NULL")
    case True
    then show ?thesis using kmalloc_cases [OF assms(1), of sz "GFP_KERNEL OR GFP_ZERO"] k by auto
  next
    case False
    then have "mem h' = byte_fill (unat sz) p 0 (mem h)"
      using kmalloc_cases [OF assms(1), of sz "GFP_KERNEL OR GFP_ZERO"] k by (auto simp: GFP_KERNEL_def GFP_ZERO_def)
    then show ?thesis using kh.alloc_apart(2) [OF assms(1) k False assms(3)] assms(4,5) by (auto simp: byte_fill_eq)
  qed
qed

text \<open>Allocating an inode, in its two outcomes.\<close>

lemma ramfs_alloc_inode_cases:
  assumes ok: "fs_wf s N K"
  obtains (nomem) "ramfs_alloc_inode mode name s = Some (NULL, s)" "\<not> can_alloc INODE_SIZE (fheap s)"
  | (new) f s' n where "ramfs_alloc_inode mode name s = Some (f, s')" "can_alloc INODE_SIZE (fheap s)" "f \<noteq> NULL" "f \<notin> N"
      "heap_inv (fheap s')" "live (fheap s) f = None" "live (fheap s') = (live (fheap s))(f \<mapsto> n)" "328 \<le> n"
      "inodes s' = (inodes s)(f := \<lparr>ino = next_ino s, imode = mode, iuid = 0, igid = 0, isize = 0, idata = NULL, data_capacity = 0,
            iparent = NULL, children = NULL, sibling = NULL, iname = take RAMFS_MAX_NAME name\<rparr>)"
      "vinodes s' = vinodes s" "root s' = root s"
      "\<And>q k a. \<lbrakk> live (fheap s) q = Some k; q \<le> a; a < q + k \<rbrakk> \<Longrightarrow> mem (fheap s') a = mem (fheap s) a"
proof -
  note I = fs_okD(1) [OF ok]
  have z: "unat INODE_SIZE = 328" by (simp add: INODE_SIZE_def)
  from kmalloc_cases [OF I, of INODE_SIZE "GFP_KERNEL OR GFP_ZERO"]
  consider f h n where "can_alloc INODE_SIZE (fheap s)" "kzalloc INODE_SIZE GFP_KERNEL (fheap s) = Some (f, h)" "f \<noteq> NULL"
      "heap_inv h" "328 \<le> n" "live (fheap s) f = None" "live h = (live (fheap s))(f \<mapsto> n)"
    | "\<not> can_alloc INODE_SIZE (fheap s)" "kzalloc INODE_SIZE GFP_KERNEL (fheap s) = Some (NULL, fheap s)"
    unfolding kzalloc_def z by blast
  then show thesis
  proof cases
    case 1
    have "f \<notin> N" using fs_okD(2) [OF ok, of f] 1(6) by auto
    moreover note kzalloc_frame [OF I 1(2)]
    ultimately show thesis using new 1 by (simp add: ramfs_alloc_inode_def Let_def upd_ino_def)
  next
    case 2
    then show thesis using nomem by (simp add: ramfs_alloc_inode_def)
  qed
qed

lemma fs_ok_alloc:
  assumes "fs_ok h I N K" and "heap_inv h'" and "live h' = (live h)(f \<mapsto> n)" and "live h f = None" and "\<And>p. p \<in> N \<Longrightarrow> I' p = I p"
  shows "fs_ok h' I' N K"
proof (rule fs_ok_cong [OF assms(1,2,5)])
  fix p assume p: "p \<in> N"
  then show "live h' p = live h p" using fs_okD(2) [OF assms(1) p] assms(3,4) by auto
  assume "idata (I p) \<noteq> NULL"
  then show "live h' (idata (I p)) = live h (idata (I p))"
    using fs_okD(3) [OF assms(1) p] assms(3,4) by (auto simp: buf_ok_def)
qed

text \<open>Linking the freshly allocated inode.\<close>

lemma link_new:
  assumes ok: "fs_wf s N K" and d: "d \<in> N" "isdir s d" and f: "f \<notin> N" "f \<noteq> NULL" "\<exists>n \<ge> 328. live (fheap s) f = Some n"
    and fi: "children (inodes s f) = NULL" "nm s f = name" "dir_map s K d name = None"
    and b: "buf_ok (fheap s) (inodes s) (insert f N) f" and nf: "\<And>p. p \<in> N \<Longrightarrow> idata (inodes s p) \<noteq> NULL \<Longrightarrow> idata (inodes s p) \<noteq> f"
  obtains s' where "ramfs_add_child d f s = (0, s')" "added s s' N K d name f" "fheap s' = fheap s" "vinodes s' = vinodes s"
    "imode (inodes s' f) = imode (inodes s f)" "contents s' f = contents s f"
proof -
  let ?K = "K(d := f # K d, f := [])"
  define s' where "s' = s\<lparr>inodes := (inodes s)(f := (inodes s f)\<lparr>iparent := d, sibling := children (inodes s d)\<rparr>,
      d := (inodes s d)\<lparr>children := f\<rparr>)\<rparr>"
  have fd: "f \<noteq> d" using f d by blast
  have e: "ramfs_add_child d f s = (0, s')"
    using d(2) fd by (simp add: ramfs_add_child_def Let_def upd_ino_def s'_def fun_upd_twist)
  have nk: "nm s f \<notin> nm s ` set (K d)" using fi(2,3) by (auto simp: dir_map_def map_of_eq_None_iff image_image)
  have ok': "fs_wf s' (insert f N) ?K"
    unfolding s'_def using fs_ok_link [OF ok d f(1,3) fi(1) nk b nf] by simp
  have nm': "nm s' p = nm s p" and dat: "idata (inodes s' p) = idata (inodes s p)" "isize (inodes s' p) = isize (inodes s p)"
    "imode (inodes s' p) = imode (inodes s p)" for p by (simp_all add: s'_def)
  have "dir_map s' ?K x = (if x = d then (dir_map s K d)(name \<mapsto> f) else dir_map s K x)" if "x \<in> N" for x
    using that f(1) fi(2) by (auto simp: dir_map_def nm')
  moreover have "dir_map s' ?K f = Map.empty" by (simp add: dir_map_def)
  moreover have "contents s' p = contents s p" for p by (simp add: contents_def dat) (simp add: s'_def)
  ultimately have "added s s' N K d name f" unfolding added_def using f ok' dat(3) by blast
  then show thesis using that e dat(3) \<open>\<And>p. contents s' p = contents s p\<close> by (simp add: s'_def)
qed

lemma added_alloc:
  assumes ad: "added s s1 N K d name f" and h: "heap_inv (fheap s2)" "live (fheap s2) = (live (fheap s1))(v \<mapsto> n)" "live (fheap s1) v = None"
    and i: "inodes s2 = inodes s1"
    and m: "\<And>q k a. \<lbrakk> live (fheap s1) q = Some k; q \<le> a; a < q + k \<rbrakk> \<Longrightarrow> mem (fheap s2) a = mem (fheap s1) a"
  shows "added s s2 N K d name f" and "contents s2 f = contents s1 f"
proof -
  obtain K' where K': "fs_wf s1 (insert f N) K'"
    "\<forall>e \<in> N. dir_map s1 K' e = (if e = d then (dir_map s K d)(name \<mapsto> f) else dir_map s K e)" "dir_map s1 K' f = Map.empty"
    using ad by (auto simp: added_def)
  have c: "contents s2 p = contents s1 p" if "p \<in> insert f N" for p
    by (rule contents_frame [OF K'(1) that _ _ m]) (simp_all add: i)
  then show "contents s2 f = contents s1 f" by simp
  have "fs_wf s2 (insert f N) K'" by (rule fs_ok_alloc [OF K'(1) h]) (simp add: i)
  moreover have "dir_map s2 K' = dir_map s1 K'" by (simp add: dir_map_def i fun_eq_iff)
  ultimately show "added s s2 N K d name f" using ad K'(2,3) c unfolding added_def i by auto
qed

lemma new_vinode_cases:
  assumes inv: "heap_inv (fheap s)"
  obtains (nomem) "new_vinode c sz ops s = Some (NULL, s)"
  | (new) v s' n where "new_vinode c sz ops s = Some (v, s')" "v \<noteq> NULL" "heap_inv (fheap s')" "live (fheap s) v = None"
      "live (fheap s') = (live (fheap s))(v \<mapsto> n)" "inodes s' = inodes s"
      "vinodes s' v = \<lparr>i_ino = ino (inodes s c), i_mode = imode (inodes s c), i_size = sz, i_dir_ops = ops, i_private = c\<rparr>"
      "\<And>q k a. \<lbrakk> live (fheap s) q = Some k; q \<le> a; a < q + k \<rbrakk> \<Longrightarrow> mem (fheap s') a = mem (fheap s) a"
proof -
  from kmalloc_cases [OF inv, of VINODE_SIZE "GFP_KERNEL OR GFP_ZERO"]
  consider v h n where "kzalloc VINODE_SIZE GFP_KERNEL (fheap s) = Some (v, h)" "v \<noteq> NULL"
      "heap_inv h" "live (fheap s) v = None" "live h = (live (fheap s))(v \<mapsto> n)"
    | "kzalloc VINODE_SIZE GFP_KERNEL (fheap s) = Some (NULL, fheap s)"
    unfolding kzalloc_def by blast
  then show thesis
  proof cases
    case 1
    note kzalloc_frame [OF inv 1(1)]
    then show thesis using new 1 by (simp add: new_vinode_def)
  next
    case 2
    then show thesis using nomem by (simp add: new_vinode_def)
  qed
qed

definition made :: "ramfs \<Rightarrow> ramfs \<Rightarrow> ptr set \<Rightarrow> (ptr \<Rightarrow> ptr list) \<Rightarrow> ptr \<Rightarrow> bytes \<Rightarrow> u32 \<Rightarrow> bool \<Rightarrow> ptr \<Rightarrow> bool" where
  "made s s' N K d name mode ops v \<longleftrightarrow>
     (\<exists>f. added s s' N K d name f \<and> imode (inodes s' f) = mode \<and> contents s' f = [] \<and> v \<noteq> NULL
        \<and> i_private (vinodes s' v) = f \<and> i_mode (vinodes s' v) = mode \<and> i_dir_ops (vinodes s' v) = ops)"

lemma make_entry_spec:
  assumes ok: "fs_wf s N K" and d: "d \<in> N" "isdir s d" and n: "name \<noteq> []" "length name \<le> RAMFS_MAX_NAME"
  shows "\<exists>r v s'. make_entry mode ops d name di s = Some (r, v, s')
    \<and> (r = - EEXIST \<and> dir_map s K d name \<noteq> None \<and> v = di \<and> s' = s
       \<or> r = - ENOMEM \<and> dir_map s K d name = None \<and> v = di \<and> (s' = s \<or> (\<exists>f. added s s' N K d name f))
       \<or> r = 0 \<and> dir_map s K d name = None \<and> made s s' N K d name mode ops v)"
proof (cases "dir_map s K d name")
  case (Some c)
  then have "c \<noteq> NULL" using dir_map_mem [OF ok d(1)] by metis
  then show ?thesis using Some n fs_okD(5) [OF ok d(1)] by (simp add: make_entry_def lookup_child_spec [OF ok d(1)])
next
  case None
  show ?thesis
  proof (rule ramfs_alloc_inode_cases [OF ok, of mode name])
    assume "ramfs_alloc_inode mode name s = Some (NULL, s)"
    then show ?thesis using None n fs_okD(5) [OF ok d(1)] by (simp add: make_entry_def lookup_child_spec [OF ok d(1)])
  next
    fix f s1 k assume a: "ramfs_alloc_inode mode name s = Some (f, s1)" "f \<noteq> NULL" "f \<notin> N"
      "heap_inv (fheap s1)" "live (fheap s) f = None" "live (fheap s1) = (live (fheap s))(f \<mapsto> k)" "328 \<le> k"
      and i: "inodes s1 = (inodes s)(f := \<lparr>ino = next_ino s, imode = mode, iuid = 0, igid = 0, isize = 0, idata = NULL, data_capacity = 0,
            iparent = NULL, children = NULL, sibling = NULL, iname = take RAMFS_MAX_NAME name\<rparr>)"
      and m: "\<And>q k a. \<lbrakk> live (fheap s) q = Some k; q \<le> a; a < q + k \<rbrakk> \<Longrightarrow> mem (fheap s1) a = mem (fheap s) a"
    have same: "inodes s1 p = inodes s p" if "p \<in> N" for p using that a(3) i by auto
    have ok1: "fs_wf s1 N K" by (rule fs_ok_alloc [OF ok a(4,6,5) same])
    have c1: "contents s1 p = contents s p" if "p \<in> N" for p by (rule contents_frame [OF ok that _ _ m]) (simp_all add: same that)
    have dm: "dir_map s1 K e = dir_map s K e" if "e \<in> N" for e
    proof -
      have "nm s1 c = nm s c" if "c \<in> set (K e)" for c using dir_okD(2) [OF fs_okD(4) [OF ok \<open>e \<in> N\<close>]] that same by auto
      then show ?thesis unfolding dir_map_def by (intro arg_cong [where f = map_of] map_cong) auto
    qed
    have nf: "idata (inodes s1 p) \<noteq> f" if "p \<in> N" "idata (inodes s1 p) \<noteq> NULL" for p
      using fs_okD(3) [OF ok that(1)] that a(5) same by (auto simp: buf_ok_def)
    have bo: "buf_ok (fheap s1) (inodes s1) (insert f N) f" by (simp add: buf_ok_def i)
    obtain s2 where l: "ramfs_add_child d f s1 = (0, s2)" "added s1 s2 N K d name f" "fheap s2 = fheap s1" "vinodes s2 = vinodes s1"
      "imode (inodes s2 f) = imode (inodes s1 f)" "contents s2 f = contents s1 f"
    proof (rule link_new [OF ok1 d(1) _ a(3,2) _ _ _ _ bo nf])
      show "isdir s1 d" using d same by simp
      show "\<exists>n\<ge>328. live (fheap s1) f = Some n" using a(6,7) by simp
      show "nm s1 f = name" using n(2) by (simp add: i)
      show "dir_map s1 K d name = None" using dm [OF d(1)] None by simp
    qed (simp_all add: i)
    have ad: "added s s2 N K d name f" using l(2) dm d(1) c1 same unfolding added_def by auto
    have e: "make_entry mode ops d name di s = (case new_vinode f 0 ops s2 of None \<Rightarrow> None
        | Some (v, s) \<Rightarrow> if v = NULL then Some (- ENOMEM, di, s) else Some (0, v, s))"
      using None n fs_okD(5) [OF ok d(1)] a(1,2) l(1) by (simp add: make_entry_def lookup_child_spec [OF ok d(1)] Option.bind_eq_Some_conv split: option.split)
    show ?thesis
    proof (rule new_vinode_cases [of s2 f 0 ops])
      show "heap_inv (fheap s2)" using a(4) l(3) by simp
      show ?thesis if "new_vinode f 0 ops s2 = Some (NULL, s2)" using e that ad None by auto
      fix v s3 k' assume v: "new_vinode f 0 ops s2 = Some (v, s3)" "v \<noteq> NULL" "heap_inv (fheap s3)" "live (fheap s2) v = None"
        "live (fheap s3) = (live (fheap s2))(v \<mapsto> k')" "inodes s3 = inodes s2"
        "vinodes s3 v = \<lparr>i_ino = ino (inodes s2 f), i_mode = imode (inodes s2 f), i_size = 0, i_dir_ops = ops, i_private = f\<rparr>"
        "\<And>q k a. \<lbrakk> live (fheap s2) q = Some k; q \<le> a; a < q + k \<rbrakk> \<Longrightarrow> mem (fheap s3) a = mem (fheap s2) a"
      note A = added_alloc [OF ad v(3,5,4,6,8)]
      have "contents s1 f = []" by (simp add: contents_def i read_bytes_def)
      then have "made s s3 N K d name mode ops v"
        unfolding made_def using A v(2,6,7) l(5,6) by (intro exI [of _ f]) (simp add: i)
      then show ?thesis using e v(1,2) None by simp
    qed
  qed
qed

section \<open>File contents\<close>

lemma sint_small: "unat (w :: u64) < 2 ^ 63 \<Longrightarrow> sint w = int (unat w)"
proof -
  assume "unat w < 2 ^ 63"
  then have "int (unat w) < int (2 ^ 63)" by (simp only: of_nat_less_iff)
  then have "uint w < 2 ^ 63" by simp
  moreover have "- (2 ^ 63) \<le> uint w" by (rule order_trans [OF _ uint_ge_0]) simp
  ultimately have "signed_take_bit 63 (uint w) = uint w" by (rule signed_take_bit_int_eq_self [rotated])
  then show ?thesis by (simp add: sint_uint)
qed

lemma cap_small: "c \<le> MAX_ALLOC \<Longrightarrow> unat c \<le> 33554432"
  by (simp add: MAX_ALLOC_def word_le_nat_alt)

lemma poke_bytes_eq: "poke_bytes p bs m a = (if p \<le> a \<and> a < p + length bs then bs ! (a - p) else m a)"
proof (induction bs arbitrary: p m)
  case (Cons b bs)
  show ?case unfolding poke_bytes.simps Cons by (auto simp: nth_Cons' Suc_le_eq)
qed auto

text \<open>Giving an inode another buffer or size.\<close>

lemma fs_ok_rebuf:
  assumes ok: "fs_ok h I N K" and p: "p \<in> N" and h: "heap_inv h'"
    and keep: "\<And>q. q \<in> N \<Longrightarrow> live h' q = live h q" "\<And>q. \<lbrakk> q \<in> N; q \<noteq> p; idata (I q) \<noteq> NULL \<rbrakk> \<Longrightarrow> live h' (idata (I q)) = live h (idata (I q)) \<and> idata (I q) \<noteq> nd"
    and new: "sz \<le> cap" "cap \<le> MAX_ALLOC" "nd = NULL \<longrightarrow> cap = 0" "nd \<noteq> NULL \<longrightarrow> (\<exists>n \<ge> unat cap. live h' nd = Some n) \<and> nd \<notin> N"
  shows "fs_ok h' (I(p := (I p)\<lparr>idata := nd, data_capacity := cap, isize := sz\<rparr>)) N K"
proof -
  let ?I = "I(p := (I p)\<lparr>idata := nd, data_capacity := cap, isize := sz\<rparr>)"
  have "dir_ok ?I N K q" if "q \<in> N" for q
    using dir_okD(2) [OF fs_okD(4) [OF ok that]] by (intro dir_ok_fields [OF fs_okD(4) [OF ok that]]) auto
  moreover have "buf_ok h' ?I N p" using new keep(2) by (auto simp: buf_ok_def)
  moreover have "buf_ok h' ?I N q" if q: "q \<in> N" "q \<noteq> p" for q
    using keep(2) [OF q] fs_okD(3) [OF ok q(1)] q by (auto simp: buf_ok_def split: if_splits)
  ultimately show ?thesis using h keep(1) fs_okD(2) [OF ok] unfolding fs_ok_def by (metis fun_upd_apply)
qed

text \<open>The contents after writing \<open>buf\<close> at offset \<open>k\<close>, a hole being filled with zeros.\<close>

definition overwrite :: "bytes \<Rightarrow> nat \<Rightarrow> bytes \<Rightarrow> bytes" where
  "overwrite old k buf = take k (old @ replicate (k - length old) 0) @ buf @ drop (k + length buf) old"

lemma length_overwrite: "length (overwrite old k buf) = max (length old) (k + length buf)"
  by (simp add: overwrite_def)

lemma nth_overwrite:
  "a < length (overwrite old k buf) \<Longrightarrow> overwrite old k buf ! a =
     (if k \<le> a \<and> a < k + length buf then buf ! (a - k) else if a < length old then old ! a else 0)"
  by (auto simp: overwrite_def nth_append min_def)

lemma store_contents:
  assumes "unat sz \<le> cap" and "k + length buf \<le> cap"
  shows "read_bytes (poke_bytes (d + k) buf (if k > unat sz then byte_fill (k - unat sz) (d + unat sz) 0 m else m)) d
           (max (unat sz) (k + length buf)) = overwrite (read_bytes m d (unat sz)) k buf"
  by (rule nth_equalityI) (auto simp: length_overwrite nth_overwrite poke_bytes_eq byte_fill_eq)

text \<open>Writes inside one file's buffer leave the other files alone.\<close>

lemma write_apart:
  assumes ok: "fs_wf s N K" and p: "p \<in> N" and q: "q \<in> N" "q \<noteq> p"
    and i: "idata (inodes s' q) = idata (inodes s q)" "isize (inodes s' q) = isize (inodes s q)"
    and m: "\<And>a. \<not> (idata (inodes s p) \<le> a \<and> a < idata (inodes s p) + unat (data_capacity (inodes s p))) \<Longrightarrow> mem (fheap s') a = mem (fheap s) a"
  shows "contents s' q = contents s q"
proof (cases "idata (inodes s q) = NULL \<or> idata (inodes s p) = NULL")
  case True
  have "unat (isize (inodes s q)) = 0 \<or> (\<forall>a. mem (fheap s') a = mem (fheap s) a)"
    using True fs_okD(3) [OF ok q(1)] fs_okD(3) [OF ok p] m by (auto simp: buf_ok_def)
  then show ?thesis by (auto simp: contents_def i read_bytes_def)
next
  case False
  obtain n where n: "unat (data_capacity (inodes s p)) \<le> n" "live (fheap s) (idata (inodes s p)) = Some n"
    using fs_okD(3) [OF ok p] False by (auto simp: buf_ok_def)
  obtain l where l: "unat (isize (inodes s q)) \<le> l" "live (fheap s) (idata (inodes s q)) = Some l" "idata (inodes s q) \<noteq> idata (inodes s p)"
  proof -
    have "unat (isize (inodes s q)) \<le> unat (data_capacity (inodes s q))" using fs_okD(3) [OF ok q(1)] by (simp add: buf_ok_def word_le_nat_alt)
    then show ?thesis using that fs_okD(3) [OF ok q(1)] False p q(2) by (auto simp: buf_ok_def intro: order_trans)
  qed
  have "idata (inodes s p) + n \<le> idata (inodes s q) \<or> idata (inodes s q) + l \<le> idata (inodes s p)"
    using kh.lv_apart [OF fs_okD(1) [OF ok]] n(2) l(2,3) by (metis linorder_neqE_nat)
  then show ?thesis unfolding contents_def i using n(1) l(1) by (intro read_bytes_cong m) linarith
qed

lemma store_data_spec:
  assumes ok: "fs_wf s N K" and p: "private_data file \<in> N" and fits: "unat pos + length buf \<le> unat (data_capacity (inodes s (private_data file)))"
  obtains s' where "store_data file buf pos s = Some (int (length buf), pos + of_nat (length buf), s')" "fs_wf s' N K"
    "contents s' (private_data file) = overwrite (contents s (private_data file)) (unat pos) buf"
    "\<And>q. \<lbrakk> q \<in> N; q \<noteq> private_data file \<rbrakk> \<Longrightarrow> contents s' q = contents s q" "dir_map s' K = dir_map s K"
    "live (fheap s') = live (fheap s)"
proof -
  define p where "p = private_data file"
  define i where "i = inodes s p"
  define k where "k = unat pos"
  have pN: "p \<in> N" using p by (simp add: p_def)
  note B = fs_okD(3) [OF ok pN, folded i_def]
  have sc: "unat (isize i) \<le> unat (data_capacity i)" "unat (data_capacity i) \<le> 33554432"
    using B cap_small by (auto simp: buf_ok_def i_def word_le_nat_alt)
  have f: "k + length buf \<le> unat (data_capacity i)" using fits by (simp add: p_def i_def k_def)
  have np: "unat (pos + of_nat (length buf)) = k + length buf"
    using f sc(2) by (subst unat_add_lem [THEN iffD1]) (simp_all add: unat_of_nat_small k_def)
  define m where "m = poke_bytes (idata i + k) buf
     (if k > unat (isize i) then byte_fill (k - unat (isize i)) (idata i + unat (isize i)) 0 (mem (fheap s)) else mem (fheap s))"
  define sz where "sz = (if k + length buf > unat (isize i) then pos + of_nat (length buf) else isize i)"
  have usz: "unat sz = max (unat (isize i)) (k + length buf)" using np by (simp add: sz_def)
  define I where "I = (inodes s)(p := i\<lparr>idata := idata i, data_capacity := data_capacity i, isize := sz\<rparr>)"
  define V where "V = (if f_inode file \<noteq> NULL then (vinodes s)(f_inode file := (vinodes s (f_inode file))\<lparr>i_size := sz\<rparr>) else vinodes s)"
  define s' where "s' = s\<lparr>fheap := (fheap s)\<lparr>mem := m\<rparr>, inodes := I, vinodes := V\<rparr>"
  have cmp: "sint (pos + of_nat (length buf)) > sint (isize i) \<longleftrightarrow> k + length buf > unat (isize i)"
  proof -
    have "sint (pos + of_nat (length buf)) = int (k + length buf)" using np f sc sint_small [of "pos + of_nat (length buf)"] by simp
    moreover have "sint (isize i) = int (unat (isize i))" using sc by (intro sint_small) simp
    ultimately show ?thesis by (simp only: of_nat_less_iff)
  qed
  have gt: "pos > isize i \<longleftrightarrow> k > unat (isize i)" by (simp add: word_less_nat_alt k_def)
  have e: "store_data file buf pos s = Some (int (length buf), pos + of_nat (length buf), s')"
    using f unfolding store_data_def Let_def p_def [symmetric] i_def [symmetric] k_def [symmetric] cmp gt
    by (auto simp: s'_def m_def I_def V_def sz_def i_def fmem_def upd_ino_def)
  have ok': "fs_wf s' N K"
  proof -
    have "fs_ok ((fheap s)\<lparr>mem := m\<rparr>) I N K"
      unfolding I_def i_def
    proof (rule fs_ok_rebuf [OF ok pN])
      show "sz \<le> data_capacity (inodes s p)" using usz f sc by (simp add: word_le_nat_alt i_def)
    qed (use B fs_okD(1) [OF ok] fs_okD(3) [OF ok] pN in \<open>auto simp: buf_ok_def i_def split: if_splits\<close>)
    then show ?thesis by (simp add: s'_def)
  qed
  have "contents s' p = overwrite (contents s p) k buf"
    using store_contents [OF sc(1) f, of "idata i" "mem (fheap s)"] usz
    by (simp add: contents_def s'_def I_def m_def i_def [symmetric])
  moreover have "contents s' q = contents s q" if q: "q \<in> N" "q \<noteq> p" for q
    by (rule write_apart [OF ok pN q]) (use f sc q in \<open>auto simp: s'_def I_def m_def poke_bytes_eq byte_fill_eq i_def [symmetric]\<close>)
  moreover have "nm s' c = nm s c" for c by (simp add: s'_def I_def i_def)
  then have "dir_map s' K = dir_map s K" by (simp add: dir_map_def fun_eq_iff)
  ultimately show thesis using that [OF e ok'] by (simp add: p_def k_def s'_def)
qed

lemma block_round:
  assumes "unat ns < 2 ^ 63"
  shows "unat ((ns + RAMFS_BLOCK_SIZE - 1) AND NOT (RAMFS_BLOCK_SIZE - 1)) = (unat ns + 4095) div 4096 * 4096"
proof -
  have m: "RAMFS_BLOCK_SIZE - 1 = mask 12" by (simp add: RAMFS_BLOCK_SIZE_def mask_eq_exp_minus_1)
  have "unat (ns + 4095) = unat ns + 4095" using assms by (subst unat_add_lem [THEN iffD1]) simp_all
  moreover have "ns + RAMFS_BLOCK_SIZE - 1 = ns + 4095" by (simp add: RAMFS_BLOCK_SIZE_def)
  ultimately show ?thesis unfolding m unat_and_not_mask by (simp only:) simp
qed

lemma byte_copy_outside: "n \<le> k \<Longrightarrow> \<not> (d \<le> a \<and> a < d + k) \<Longrightarrow> byte_copy n d x m a = m a"
proof (induction n arbitrary: d x m k)
  case (Suc n)
  have "byte_copy n (d + 1) (x + 1) (m(d := m x)) a = (m(d := m x)) a"
    using Suc.prems by (intro Suc.IH [of "k - 1"]) auto
  then show ?case using Suc.prems by auto
qed simp

text \<open>The bytes of the new buffer: the old contents first.\<close>

lemma grow_bytes:
  assumes "nd + n \<le> d \<or> d + n \<le> nd \<or> n = 0" and "n \<le> nc"
  shows "read_bytes (byte_fill (nc - n) (nd + n) 0 (byte_copy n nd d m)) nd n = read_bytes m d n"
proof (cases "n = 0")
  case False
  then have "nd \<le> d \<or> d + n \<le> nd" using assms(1) by auto
  then show ?thesis by (intro nth_equalityI) (auto simp: byte_fill_eq byte_copy_eq)
qed (simp add: read_bytes_def)

lemma grow_data_spec:
  assumes ok: "fs_wf s N K" and p: "p \<in> N" and ns: "data_capacity (inodes s p) < ns" "unat ns < 2 ^ 63"
  obtains (nomem) "grow_data p ns s = Some (False, s)" "\<not> can_alloc ((ns + RAMFS_BLOCK_SIZE - 1) AND NOT (RAMFS_BLOCK_SIZE - 1)) (fheap s)"
  | (grown) s' where "grow_data p ns s = Some (True, s')" "fs_wf s' N K" "ns \<le> data_capacity (inodes s' p)"
      "\<And>q. q \<in> N \<Longrightarrow> contents s' q = contents s q" "\<And>c. nm s' c = nm s c" "vinodes s' = vinodes s"
proof -
  define i where "i = inodes s p"
  define nc where "nc = (ns + RAMFS_BLOCK_SIZE - 1) AND NOT (RAMFS_BLOCK_SIZE - 1)"
  have nc: "unat ns \<le> unat nc" using block_round [OF ns(2)] unfolding nc_def by linarith
  note B = fs_okD(3) [OF ok p, folded i_def] and I = fs_okD(1) [OF ok]
  have sz: "unat (isize i) \<le> unat nc"
    using B ns(1) nc by (simp add: buf_ok_def i_def word_le_nat_alt word_less_nat_alt)
  from kmalloc_cases [OF I, of nc GFP_KERNEL]
  consider nd h1 n where "can_alloc nc (fheap s)" "kmalloc nc GFP_KERNEL (fheap s) = Some (nd, h1)" "nd \<noteq> NULL" "heap_inv h1" "unat nc \<le> n"
      "live (fheap s) nd = None" "live h1 = (live (fheap s))(nd \<mapsto> n)" "mem h1 = mem (fheap s)"
    | "kmalloc nc GFP_KERNEL (fheap s) = Some (NULL, fheap s)" "\<not> can_alloc nc (fheap s)" by (auto simp: GFP_KERNEL_def)
  then show thesis
  proof cases
    case 1
    define m where "m = byte_fill (unat nc - unat (isize i)) (nd + unat (isize i)) 0
        (if idata i \<noteq> NULL then byte_copy (unat (isize i)) nd (idata i) (mem (fheap s)) else mem (fheap s))"
    define h2 where "h2 = (kfree (idata i) (h1\<lparr>mem := (if idata i \<noteq> NULL then byte_copy (unat (isize i)) nd (idata i) (mem h1) else mem h1)\<rparr>))\<lparr>mem := m\<rparr>"
    define s' where "s' = upd_ino p (\<lambda>i. i\<lparr>idata := nd, data_capacity := nc\<rparr>) (s\<lparr>fheap := h2\<rparr>)"
    have e: "grow_data p ns s = Some (True, s')"
      using 1(2,3,8) kh.release_NULL
      by (auto simp: grow_data_def Let_def nc_def [symmetric] i_def [symmetric] s'_def h2_def m_def fmem_def kfree_mem)
    have old: "idata i = NULL \<or> live h1 (idata i) \<noteq> None" using B 1(6,7) by (auto simp: buf_ok_def i_def split: if_splits)
    have lv: "heap_inv h2" "live h2 = (live (fheap s))(nd \<mapsto> n, idata i := None)"
      using kh.release_upd [of "h1\<lparr>mem := x\<rparr>" "idata i" for x] 1(4,7) old by (simp_all add: h2_def)
    have ndN: "nd \<notin> N" "idata i \<noteq> nd" using fs_okD(2) [OF ok, of nd] 1(6) B 1(3) by (auto simp: buf_ok_def i_def split: if_splits)
    have idN: "idata i \<noteq> q" if "q \<in> N" for q using B that fs_okD(5) [OF ok that] by (auto simp: buf_ok_def i_def split: if_splits)
    have other: "idata (inodes s q) \<noteq> idata i \<and> idata (inodes s q) \<noteq> nd" if "q \<in> N" "q \<noteq> p" "idata (inodes s q) \<noteq> NULL" for q
      using fs_okD(3) [OF ok that(1)] that p 1(6) by (auto simp: buf_ok_def i_def)
    have "fs_wf s' N K"
    proof -
      have "fs_ok h2 ((inodes s)(p := (inodes s p)\<lparr>idata := nd, data_capacity := nc, isize := isize i\<rparr>)) N K"
      proof (rule fs_ok_rebuf [OF ok p lv(1)])
        show "live h2 q = live (fheap s) q" if "q \<in> N" for q using lv(2) ndN idN [OF that] that by auto
        show "live h2 (idata (inodes s q)) = live (fheap s) (idata (inodes s q)) \<and> idata (inodes s q) \<noteq> nd"
          if "q \<in> N" "q \<noteq> p" "idata (inodes s q) \<noteq> NULL" for q using lv(2) other [OF that] by simp
        show "isize i \<le> nc" using sz by (simp add: word_le_nat_alt)
        show "nc \<le> MAX_ALLOC" using 1(1) by (simp add: can_alloc_def)
        show "nd \<noteq> NULL \<longrightarrow> (\<exists>n\<ge>unat nc. live h2 nd = Some n) \<and> nd \<notin> N" using lv(2) 1(5) ndN by simp
      qed (use 1(3) in simp)
      moreover have "(inodes s p)\<lparr>idata := nd, data_capacity := nc, isize := isize i\<rparr> = (inodes s p)\<lparr>idata := nd, data_capacity := nc\<rparr>"
        by (simp add: i_def)
      ultimately show ?thesis by (simp add: s'_def upd_ino_def)
    qed
    moreover have "contents s' q = contents s q" if q: "q \<in> N" for q
    proof (cases "q = p")
      case True
      have z: "unat (isize i) = 0" if "idata i = NULL" using B that by (auto simp: buf_ok_def i_def)
      have "nd + unat nc \<le> idata i \<or> idata i + unat (isize i) \<le> nd \<or> unat (isize i) = 0"
      proof (cases "idata i = NULL")
        case False
        then obtain k where k: "unat (data_capacity i) \<le> k" "live (fheap s) (idata i) = Some k" using B by (auto simp: buf_ok_def i_def)
        have "isize i \<le> data_capacity i" using B by (simp add: buf_ok_def i_def)
        then show ?thesis using kh.alloc_apart(2) [OF I 1(2,3) k(2)] k(1) by (auto simp: word_le_nat_alt)
      qed (use z in simp)
      then have a: "nd + unat (isize i) \<le> idata i \<or> idata i + unat (isize i) \<le> nd \<or> unat (isize i) = 0" using sz by auto
      have "read_bytes m nd (unat (isize i)) = read_bytes (mem (fheap s)) (idata i) (unat (isize i))"
        unfolding m_def using grow_bytes [OF a sz, of "mem (fheap s)"] z by (auto simp: read_bytes_def)
      then show ?thesis using True by (simp add: contents_def s'_def upd_ino_def h2_def i_def)
    next
      case False
      show ?thesis
      proof (rule contents_frame [OF ok q])
        fix r k a assume "live (fheap s) r = Some k" "r \<le> a" "a < r + k"
        then have "\<not> (nd \<le> a \<and> a < nd + unat nc)" using kh.alloc_apart(2) [OF I 1(2,3)] by fastforce
        then show "mem (fheap s') a = mem (fheap s) a"
          using sz byte_copy_outside [where d = nd and n = "unat (isize i)" and k = "unat nc" and a = a]
          by (auto simp: s'_def upd_ino_def h2_def m_def byte_fill_eq)
      qed (use False in \<open>simp_all add: s'_def upd_ino_def\<close>)
    qed
    ultimately show thesis
      using grown [OF e] nc by (simp add: s'_def upd_ino_def word_le_nat_alt)
  next
    case 2
    then show thesis using nomem [folded nc_def] by (simp add: grow_data_def Let_def nc_def [symmetric])
  qed
qed

lemma ramfs_write_spec:
  assumes ok: "fs_wf s N K" and p: "private_data file \<in> N" and lim: "unat pos + length buf < 2 ^ 63"
  obtains (nomem) "ramfs_write file buf pos s = Some (- ENOMEM, pos, s)"
      "\<not> can_alloc ((pos + of_nat (length buf) + RAMFS_BLOCK_SIZE - 1) AND NOT (RAMFS_BLOCK_SIZE - 1)) (fheap s)"
  | (written) s' where "ramfs_write file buf pos s = Some (int (length buf), pos + of_nat (length buf), s')" "fs_wf s' N K"
      "contents s' (private_data file) = overwrite (contents s (private_data file)) (unat pos) buf"
      "\<And>q. \<lbrakk> q \<in> N; q \<noteq> private_data file \<rbrakk> \<Longrightarrow> contents s' q = contents s q" "dir_map s' K = dir_map s K"
proof -
  let ?p = "private_data file" and ?ns = "pos + of_nat (length buf)"
  have n0: "?p \<noteq> NULL" by (rule fs_okD(5) [OF ok p])
  have un: "unat ?ns = unat pos + length buf"
    using lim by (subst unat_add_lem [THEN iffD1]) (simp_all add: unat_of_nat_small)
  show thesis
  proof (cases "?ns > data_capacity (inodes s ?p)")
    case False
    then have f: "unat pos + length buf \<le> unat (data_capacity (inodes s ?p))" using un by (simp add: word_less_nat_alt)
    obtain s' where t: "store_data file buf pos s = Some (int (length buf), ?ns, s')" "fs_wf s' N K"
      "contents s' ?p = overwrite (contents s ?p) (unat pos) buf"
      "\<And>q. \<lbrakk> q \<in> N; q \<noteq> ?p \<rbrakk> \<Longrightarrow> contents s' q = contents s q" "dir_map s' K = dir_map s K"
      by (rule store_data_spec [OF ok p f]) blast
    show thesis by (rule written [of s']) (use t False n0 in \<open>simp_all add: ramfs_write_def Let_def\<close>)
  next
    case True
    have lt: "unat ?ns < 2 ^ 63" using un lim by simp
    show thesis
    proof (rule grow_data_spec [OF ok p True lt])
      assume "grow_data ?p ?ns s = Some (False, s)" "\<not> can_alloc ((?ns + RAMFS_BLOCK_SIZE - 1) AND NOT (RAMFS_BLOCK_SIZE - 1)) (fheap s)"
      then show thesis using nomem True n0 by (simp add: ramfs_write_def Let_def)
    next
      fix s1 assume g: "grow_data ?p ?ns s = Some (True, s1)" "fs_wf s1 N K" "?ns \<le> data_capacity (inodes s1 ?p)"
        "\<And>q. q \<in> N \<Longrightarrow> contents s1 q = contents s q" "\<And>c. nm s1 c = nm s c"
      have f: "unat pos + length buf \<le> unat (data_capacity (inodes s1 ?p))" using un g(3) by (simp add: word_le_nat_alt)
      have dm: "dir_map s1 K = dir_map s K" by (simp add: dir_map_def g(5) fun_eq_iff)
      obtain s' where t: "store_data file buf pos s1 = Some (int (length buf), ?ns, s')" "fs_wf s' N K"
        "contents s' ?p = overwrite (contents s1 ?p) (unat pos) buf"
        "\<And>q. \<lbrakk> q \<in> N; q \<noteq> ?p \<rbrakk> \<Longrightarrow> contents s' q = contents s1 q" "dir_map s' K = dir_map s1 K"
        by (rule store_data_spec [OF g(2) p f]) blast
      show thesis by (rule written [of s']) (use t True n0 g p dm in \<open>simp_all add: ramfs_write_def Let_def\<close>)
    qed
  qed
qed

lemma ramfs_read_spec:
  fixes count :: u64
  assumes ok: "fs_wf s N K" and p: "private_data file \<in> N" and k: "unat pos < 2 ^ 63"
  defines "out \<equiv> take (unat count) (drop (unat pos) (contents s (private_data file)))"
  shows "ramfs_read file count pos s = Some (int (length out), out, pos + of_nat (length out))"
proof -
  define i where "i = inodes s (private_data file)"
  note B = fs_okD(3) [OF ok p] and n0 = fs_okD(5) [OF ok p]
  have c: "contents s (private_data file) = read_bytes (mem (fheap s)) (idata i) (unat (isize i))" by (simp add: contents_def i_def)
  have sc: "unat (isize i) \<le> unat (data_capacity i)" "unat (data_capacity i) \<le> 33554432"
    using B cap_small by (auto simp: buf_ok_def i_def word_le_nat_alt)
  have sg: "sint pos \<ge> sint (isize i) \<longleftrightarrow> unat (isize i) \<le> unat pos"
  proof -
    have "sint (isize i) = int (unat (isize i))" using sc by (intro sint_small) simp
    then show ?thesis unfolding sint_small [OF k] by (simp only: of_nat_le_iff)
  qed
  show ?thesis
  proof (cases "idata i = NULL \<or> unat (isize i) \<le> unat pos")
    case True
    have "unat (isize i) \<le> unat pos" using True B by (auto simp: buf_ok_def i_def)
    then have "out = []" by (simp add: out_def c)
    moreover have "ramfs_read file count pos s = Some (0, [], pos)"
      using True sg n0 by (auto simp: ramfs_read_def Let_def i_def [symmetric])
    ultimately show ?thesis by simp
  next
    case False
    have av: "unat (isize i - pos) = unat (isize i) - unat pos" using False by (intro unat_sub) (simp add: word_le_nat_alt)
    define n where "n = min (unat count) (unat (isize i) - unat pos)"
    have lo: "length out = n" by (simp add: out_def c n_def min.commute)
    define tr where "tr = (if count < isize i - pos then count else isize i - pos)"
    have tr: "unat tr = n" using av by (auto simp: tr_def n_def word_less_nat_alt)
    have out: "out = read_bytes (mem (fheap s)) (idata i + unat pos) n"
      by (rule nth_equalityI) (use lo in \<open>auto simp: out_def c n_def add.assoc\<close>)
    have "sint tr = int n" using tr sc by (subst sint_small) (simp_all add: n_def)
    moreover have "tr = of_nat n" using tr by (metis of_nat_unat ucast_id)
    moreover have "\<not> unat pos + n > unat (data_capacity i)" using sc False unfolding n_def by linarith
    ultimately show ?thesis
      using False sg n0 tr out lo by (simp add: ramfs_read_def Let_def i_def [symmetric] tr_def [symmetric])
  qed
qed

section \<open>Unlinking\<close>

lemma children_NULL: "fs_wf s N K \<Longrightarrow> t \<in> N \<Longrightarrow> children (inodes s t) = NULL \<longleftrightarrow> K t = []"
  using dir_okD(1) [OF fs_okD(4), of "fheap s" "inodes s" N K t] by (cases "K t") auto

lemma ramfs_remove_spec:
  assumes ok: "fs_wf s N K" and d: "d \<in> N" "i_private (vinodes s dir) = d"
  shows "\<exists>r s'. ramfs_unlink dir name s = Some (r, s')
      \<and> (case dir_map s K d name of None \<Rightarrow> r = - ENOENT \<and> s' = s
         | Some t \<Rightarrow> if isdir s t then r = - EISDIR \<and> s' = s else r = 0 \<and> removed s s' N K d name t)"
    and "\<exists>r s'. ramfs_rmdir dir name s = Some (r, s')
      \<and> (case dir_map s K d name of None \<Rightarrow> r = - ENOENT \<and> s' = s
         | Some t \<Rightarrow> if \<not> isdir s t then r = - ENOTDIR \<and> s' = s
                     else if K t \<noteq> [] then r = - ENOTEMPTY \<and> s' = s else r = 0 \<and> removed s s' N K d name t)"
proof -
  note L = lookup_child_spec [OF ok d(1), of name]
  have t: "t \<in> N \<and> t \<noteq> NULL \<and> (\<not> isdir s t \<longrightarrow> K t = [])" if "dir_map s K d name = Some t" for t
    using dir_map_mem [OF ok d(1) that] dir_okD(5) [OF fs_okD(4) [OF ok]] by metis
  show "\<exists>r s'. ramfs_unlink dir name s = Some (r, s')
      \<and> (case dir_map s K d name of None \<Rightarrow> r = - ENOENT \<and> s' = s
         | Some t \<Rightarrow> if isdir s t then r = - EISDIR \<and> s' = s else r = 0 \<and> removed s s' N K d name t)"
  proof (cases "dir_map s K d name")
    case (Some c)
    show ?thesis
    proof (cases "isdir s c")
      case False
      then have "K c = []" using t [OF Some] by blast
      then obtain s1 where "unlink_cell (Child_of d) c s = Some s1" "removed s (ramfs_free_inode c s1) N K d name c"
        by (rule remove_entry [OF ok d(1) Some])
      then show ?thesis using L Some t [OF Some] d(2) False by (simp add: ramfs_unlink_def)
    qed (use L Some t [OF Some] d(2) in \<open>simp add: ramfs_unlink_def\<close>)
  qed (use L d(2) in \<open>simp add: ramfs_unlink_def\<close>)
  show "\<exists>r s'. ramfs_rmdir dir name s = Some (r, s')
      \<and> (case dir_map s K d name of None \<Rightarrow> r = - ENOENT \<and> s' = s
         | Some t \<Rightarrow> if \<not> isdir s t then r = - ENOTDIR \<and> s' = s
                     else if K t \<noteq> [] then r = - ENOTEMPTY \<and> s' = s else r = 0 \<and> removed s s' N K d name t)"
  proof (cases "dir_map s K d name")
    case (Some c)
    show ?thesis
    proof (cases "isdir s c \<and> K c = []")
      case True
      then obtain s1 where "unlink_cell (Child_of d) c s = Some s1" "removed s (ramfs_free_inode c s1) N K d name c"
        using remove_entry [OF ok d(1) Some] by blast
      then show ?thesis using L Some t [OF Some] d(2) True children_NULL [OF ok] by (simp add: ramfs_rmdir_def)
    qed (use L Some t [OF Some] d(2) children_NULL [OF ok] in \<open>auto simp: ramfs_rmdir_def\<close>)
  qed (use L d(2) in \<open>simp add: ramfs_rmdir_def\<close>)
qed

section \<open>Properties\<close>

text \<open>A file system with a root directory and one empty file, for the examples.\<close>

definition demo_heap :: kheap where
  "demo_heap = \<lparr>heap_region = 4096, heap_start = 4096, heap_end = 13056, free_list = 4864, heap_total = 8960, heap_used = 768,
     heap_initialized = True,
     hdrs = (\<lambda>a. if a = 4864 then \<lparr>bh_size = 8192, bh_magic = BLOCK_MAGIC_FREE, bh_flags = 1, bh_owner = 0, bh_next = 0, bh_prev = 0\<rparr>
                 else \<lparr>bh_size = 384, bh_magic = BLOCK_MAGIC_USED, bh_flags = 0, bh_owner = 0, bh_next = 0, bh_prev = 0\<rparr>),
     mem = (\<lambda>_. 0)\<rparr>"

definition demo_inode :: "u32 \<Rightarrow> ptr \<Rightarrow> ptr \<Rightarrow> bytes \<Rightarrow> ramfs_inode" where
  "demo_inode mode par ch name = \<lparr>ino = 1, imode = mode, iuid = 0, igid = 0, isize = 0, idata = 0, data_capacity = 0, iparent = par,
     children = ch, sibling = 0, iname = name\<rparr>"

definition demo_fs :: ramfs where
  "demo_fs = \<lparr>fheap = demo_heap, root = 4136, next_ino = 3, inode_count = 2,
     inodes = (\<lambda>p. if p = 4136 then demo_inode 0x41ED 0 4520 [] else demo_inode 0x81A4 4136 0 [97]),
     vinodes = (\<lambda>_. \<lparr>i_ino = 1, i_mode = 0x41ED, i_size = 0, i_dir_ops = True, i_private = 4136\<rparr>)\<rparr>"

definition demo_kids :: "ptr \<Rightarrow> ptr list" where "demo_kids p = (if p = 4136 then [4520] else [])"

lemma demo_fs_wf: "fs_wf demo_fs {4136, 4520} demo_kids"
proof -
  have w: "heap_wf demo_heap [4096, 4480, 4864] [4864]"
    by (simp add: heap_wf_def demo_heap_def used_bytes_def)
  have "live demo_heap 4136 = Some 344" "live demo_heap 4520 = Some 344"
    using heap_wf_live [OF w] by (simp_all add: live_of_def demo_heap_def HDR_def)
  then show ?thesis
    using heap_wf_inv [OF w]
    by (simp add: fs_ok_def buf_ok_def dir_ok_def demo_fs_def demo_kids_def demo_inode_def S_ISDIR_def S_IFMT_def S_IFDIR_def)
qed

lemma demo_dir: "isdir demo_fs 4136" "\<not> isdir demo_fs 4520" "i_private (vinodes demo_fs v) = 4136"
  "dir_map demo_fs demo_kids 4136 = [[97] \<mapsto> 4520]" "contents demo_fs 4520 = []"
  by (simp_all add: demo_fs_def demo_inode_def S_ISDIR_def S_IFMT_def S_IFDIR_def dir_map_def demo_kids_def contents_def read_bytes_def)

lemma mode_bits:
  assumes "mode AND S_IFMT = 0"
  shows "S_ISDIR (S_IFDIR OR mode)" "\<not> S_ISDIR (S_IFREG OR mode)"
proof -
  have "(x OR mode) AND S_IFMT = x AND S_IFMT" for x unfolding bit.conj_disj_distrib2 assms by simp
  then show "S_ISDIR (S_IFDIR OR mode)" "\<not> S_ISDIR (S_IFREG OR mode)"
    by (simp_all add: S_ISDIR_def S_IFDIR_def S_IFREG_def S_IFMT_def)
qed

text \<open>C15. Creating a file or directory in a well-formed file system always returns: with \<^verbatim>\<open>EEXIST\<close> and no change exactly
  when the name is taken; with success, the directory maps the new name to a fresh, empty inode of the requested kind that
  the returned VFS inode refers to, all other names of all directories and all file contents stay, and the file system is
  well-formed again. \<^verbatim>\<open>ENOMEM\<close> leaves everything as it was, or, when only the VFS inode could not be had, leaves the new
  entry behind.\<close>

theorem ramfs_create_mkdir_correct:
  assumes "fs_wf s N K" and "i_private (vinodes s dir) = d" and "d \<in> N" and "isdir s d"
    and "name \<noteq> []" and "length name \<le> RAMFS_MAX_NAME" and "mode AND S_IFMT = 0"
  shows "(\<exists>r v s'. ramfs_create dir name di mode s = Some (r, v, s')
      \<and> (r = - EEXIST \<and> dir_map s K d name \<noteq> None \<and> v = di \<and> s' = s
         \<or> r = - ENOMEM \<and> dir_map s K d name = None \<and> v = di \<and> (s' = s \<or> (\<exists>f. added s s' N K d name f))
         \<or> r = 0 \<and> dir_map s K d name = None \<and> made s s' N K d name (S_IFREG OR mode) False v))
    \<and> (\<exists>r v s'. ramfs_mkdir dir name di mode s = Some (r, v, s')
      \<and> (r = - EEXIST \<and> dir_map s K d name \<noteq> None \<and> v = di \<and> s' = s
         \<or> r = - ENOMEM \<and> dir_map s K d name = None \<and> v = di \<and> (s' = s \<or> (\<exists>f. added s s' N K d name f))
         \<or> r = 0 \<and> dir_map s K d name = None \<and> made s s' N K d name (S_IFDIR OR mode) True v))
    \<and> S_ISDIR (S_IFDIR OR mode) \<and> \<not> S_ISDIR (S_IFREG OR mode)"
  unfolding ramfs_create_def ramfs_mkdir_def assms(2)
  by (intro conjI make_entry_spec [OF assms(1,3-6)] mode_bits [OF assms(7)])

theorem ramfs_create_mkdir_correct_witness:
  "\<exists>r v s'. ramfs_mkdir 8 [98] 0 0x1ED demo_fs = Some (r, v, s') \<and> r \<noteq> - EEXIST
     \<and> (r = 0 \<longrightarrow> made demo_fs s' {4136, 4520} demo_kids 4136 [98] (S_IFDIR OR 0x1ED) True v)"
  using ramfs_create_mkdir_correct [OF demo_fs_wf demo_dir(3) _ demo_dir(1), of "[98]" "0x1ED" 8 0]
  by (auto simp: RAMFS_MAX_NAME_def S_IFMT_def demo_dir(4))

text \<open>Removing: \<^verbatim>\<open>ramfs_unlink\<close> and \<^verbatim>\<open>ramfs_rmdir\<close> always return on a well-formed file system, with the error for a missing
  name, the wrong kind or a directory that is not empty, and then nothing changes; a success takes exactly that name out of
  that directory, leaves all other entries and file contents alone, keeps the file system well-formed and gives back exactly the
  inode and its buffer to the heap.\<close>

theorem ramfs_remove_correct:
  assumes "fs_wf s N K" and "d \<in> N" and "i_private (vinodes s dir) = d"
  shows "(\<exists>r s'. ramfs_unlink dir name s = Some (r, s')
      \<and> (case dir_map s K d name of None \<Rightarrow> r = - ENOENT \<and> s' = s
         | Some t \<Rightarrow> if isdir s t then r = - EISDIR \<and> s' = s else r = 0 \<and> removed s s' N K d name t))
    \<and> (\<exists>r s'. ramfs_rmdir dir name s = Some (r, s')
      \<and> (case dir_map s K d name of None \<Rightarrow> r = - ENOENT \<and> s' = s
         | Some t \<Rightarrow> if \<not> isdir s t then r = - ENOTDIR \<and> s' = s
                     else if K t \<noteq> [] then r = - ENOTEMPTY \<and> s' = s else r = 0 \<and> removed s s' N K d name t))"
  using ramfs_remove_spec [OF assms] by blast

theorem ramfs_remove_correct_witness:
  "(\<exists>s'. ramfs_unlink 8 [97] demo_fs = Some (0, s') \<and> removed demo_fs s' {4136, 4520} demo_kids 4136 [97] 4520)
   \<and> ramfs_rmdir 8 [97] demo_fs = Some (- ENOTDIR, demo_fs) \<and> ramfs_rmdir 8 [98] demo_fs = Some (- ENOENT, demo_fs)"
  using ramfs_remove_correct [OF demo_fs_wf _ demo_dir(3), of 8 "[97]"] ramfs_remove_correct [OF demo_fs_wf _ demo_dir(3), of 8 "[98]"]
  by (simp add: demo_dir)

text \<open>C7. File contents: a write stores the bytes at the offset, fills a hole behind the old end with zeros, advances the
  position and touches no other file and no directory; it fails only with \<^verbatim>\<open>ENOMEM\<close>, when the heap cannot grow the buffer, and
  then changes nothing. Reading back any range gives exactly that part of the contents.\<close>

theorem ramfs_write_read:
  assumes "fs_wf s N K" and "private_data file \<in> N" and "unat pos + length buf < 2 ^ 63" and "unat k < 2 ^ 63"
  shows "(ramfs_write file buf pos s = Some (- ENOMEM, pos, s)
        \<and> \<not> can_alloc ((pos + of_nat (length buf) + RAMFS_BLOCK_SIZE - 1) AND NOT (RAMFS_BLOCK_SIZE - 1)) (fheap s))
    \<or> (\<exists>s' old out. ramfs_write file buf pos s = Some (int (length buf), pos + of_nat (length buf), s') \<and> fs_wf s' N K
        \<and> dir_map s' K = dir_map s K \<and> (\<forall>q \<in> N. q \<noteq> private_data file \<longrightarrow> contents s' q = contents s q)
        \<and> old = contents s (private_data file)
        \<and> out = take (unat count) (drop (unat k) (take (unat pos) (old @ replicate (unat pos - length old) 0) @ buf @ drop (unat pos + length buf) old))
        \<and> ramfs_read file count k s' = Some (int (length out), out, k + of_nat (length out)))"
proof (rule ramfs_write_spec [OF assms(1-3)])
  fix s' assume w: "ramfs_write file buf pos s = Some (int (length buf), pos + of_nat (length buf), s')" "fs_wf s' N K"
      "contents s' (private_data file) = overwrite (contents s (private_data file)) (unat pos) buf"
      "\<And>q. \<lbrakk> q \<in> N; q \<noteq> private_data file \<rbrakk> \<Longrightarrow> contents s' q = contents s q" "dir_map s' K = dir_map s K"
  note r = ramfs_read_spec [OF w(2) assms(2,4), of count, unfolded w(3), unfolded overwrite_def]
  show ?thesis using w(1,2,4,5) r by blast
qed simp

theorem ramfs_write_read_witness:
  "ramfs_write \<lparr>private_data = 4520, f_inode = 0\<rparr> [7, 8, 9] 1 demo_fs = Some (- ENOMEM, 1, demo_fs)
   \<or> (\<exists>s'. ramfs_write \<lparr>private_data = 4520, f_inode = 0\<rparr> [7, 8, 9] 1 demo_fs = Some (3, 4, s')
        \<and> ramfs_read \<lparr>private_data = 4520, f_inode = 0\<rparr> 100 0 s' = Some (4, [0, 7, 8, 9], 4))"
  using ramfs_write_read [OF demo_fs_wf, of "\<lparr>private_data = 4520, f_inode = 0\<rparr>" 1 "[7, 8, 9]" 0 100]
  by (auto simp: demo_dir)

end
