(* ===== verification/Vfs.thy ===== *)
theory Vfs
  imports Ramfs
begin

text \<open>
  The virtual file system, \<^verbatim>\<open>kernel/fs/vfs.c\<close>, over the RAM file system. Dentries, open files and super blocks are typed
  stores at their addresses; dentries and files come from the kernel heap, which they share with the inodes of
  \<^verbatim>\<open>ramfs.c\<close>. The operation tables behind \<^verbatim>\<open>i_op\<close> and \<^verbatim>\<open>i_fop\<close> are records of optional functions, and the inodes of
  the model are those that ramfs creates. A \<^verbatim>\<open>const char *\<close> is a byte list without the terminating zero, or
  \<^term>\<open>None\<close> for \<^verbatim>\<open>NULL\<close> where a caller may pass it. The option type of the results is for undefined behaviour: \<^term>\<open>None\<close> is a
  dereferenced null pointer, a walk along a cyclic list, or undefined behaviour inside the file system.
\<close>

section \<open>State\<close>

definition NAME_MAX :: nat where "NAME_MAX = 255"
definition PATH_MAX :: nat where "PATH_MAX = 4096"
definition MAX_MOUNTS :: nat where "MAX_MOUNTS = 64"
definition S_ISREG :: "u32 \<Rightarrow> bool" where "S_ISREG m \<longleftrightarrow> m AND S_IFMT = S_IFREG"
definition O_WRONLY :: u32 where "O_WRONLY = 0x0001"
definition O_CREAT :: u32 where "O_CREAT = 0x0040"
definition O_TRUNC :: u32 where "O_TRUNC = 0x0200"
definition O_APPEND :: u32 where "O_APPEND = 0x0400"
definition VFS_SAVE_CREATE_PARENTS :: u32 where "VFS_SAVE_CREATE_PARENTS = 1"
definition VFS_SAVE_APPEND :: u32 where "VFS_SAVE_APPEND = 2"

record inode_operations =
  lookup_op :: "(ptr \<Rightarrow> bytes \<Rightarrow> ptr \<Rightarrow> ramfs \<Rightarrow> (ptr \<times> ramfs) option) option"
  create_op :: "(ptr \<Rightarrow> bytes \<Rightarrow> ptr \<Rightarrow> u32 \<Rightarrow> ramfs \<Rightarrow> (int \<times> ptr \<times> ramfs) option) option"
  mkdir_op :: "(ptr \<Rightarrow> bytes \<Rightarrow> ptr \<Rightarrow> u32 \<Rightarrow> ramfs \<Rightarrow> (int \<times> ptr \<times> ramfs) option) option"
  rmdir_op :: "(ptr \<Rightarrow> bytes \<Rightarrow> ramfs \<Rightarrow> (int \<times> ramfs) option) option"
  unlink_op :: "(ptr \<Rightarrow> bytes \<Rightarrow> ramfs \<Rightarrow> (int \<times> ramfs) option) option"
  rename_op :: "(ptr \<Rightarrow> ptr \<Rightarrow> ptr \<Rightarrow> bytes \<Rightarrow> ramfs \<Rightarrow> (int \<times> ramfs) option) option"

record file_operations =
  read_op :: "(rfile \<Rightarrow> u64 \<Rightarrow> u64 \<Rightarrow> ramfs \<Rightarrow> (int \<times> bytes \<times> u64) option) option"
  write_op :: "(rfile \<Rightarrow> bytes \<Rightarrow> u64 \<Rightarrow> ramfs \<Rightarrow> (int \<times> u64 \<times> ramfs) option) option"
  open_op :: "(ptr \<Rightarrow> rfile \<Rightarrow> ramfs \<Rightarrow> rfile) option"
  release_op :: "(rfile \<Rightarrow> rfile) option"
  readdir_op :: "(rfile \<Rightarrow> ramfs \<Rightarrow> (int \<times> (bytes \<times> u64 \<times> u32) list) option) option"

record dentry =
  d_name :: bytes
  d_inode :: ptr
  d_parent :: ptr
  d_sb :: ptr

record vfs_file =
  f_dentry :: ptr
  f_op :: "file_operations option"
  f_pos :: u64
  f_flags :: u32
  f_mode :: u32
  f_count :: int
  f_private :: ptr

record super_block =
  s_disk_index :: int
  s_root :: ptr

text \<open>The memory a file system's \<^verbatim>\<open>mount\<close> works on. The last three fields are the addresses of the static variables of
  \<^verbatim>\<open>ramfs_mount\<close>.\<close>

record vfs_mem =
  kern :: ramfs
  dentries :: "ptr \<Rightarrow> dentry"
  supers :: "ptr \<Rightarrow> super_block"
  st_sb :: ptr
  st_inode :: ptr
  st_dentry :: ptr

record file_system_type =
  fs_name :: "bytes option"
  fs_mount :: "(bytes \<Rightarrow> vfs_mem \<Rightarrow> (ptr \<times> vfs_mem) option) option"

record vfsmount =
  mnt_root :: ptr
  mnt_sb :: ptr
  mnt_mountpoint :: ptr
  mnt_parent :: "nat option"
  mnt_devname :: bytes
  mnt_target :: bytes
  mnt_fstype :: bytes

text \<open>A mount is referred to by its slot in \<^verbatim>\<open>mount_pool\<close>.\<close>

record vfs =
  om :: vfs_mem
  files :: "ptr \<Rightarrow> vfs_file"
  file_systems :: "file_system_type list"
  mounts :: "nat \<Rightarrow> nat option"
  mount_pool :: "nat \<Rightarrow> vfsmount"
  mount_slot_used :: "nat \<Rightarrow> bool"
  mount_count :: int
  root_mount :: "nat option"
  root_dentry :: ptr

text \<open>\<^verbatim>\<open>sizeof(struct dentry)\<close> and \<^verbatim>\<open>sizeof(struct file)\<close>.\<close>

definition DENTRY_SIZE :: u64 where "DENTRY_SIZE = 304"
definition FILE_SIZE :: u64 where "FILE_SIZE = 48"

abbreviation "krn s \<equiv> kern (om s)"
abbreviation "hp s \<equiv> fheap (kern (om s))"
abbreviation "den s \<equiv> dentries (om s)"

definition set_kern :: "ramfs \<Rightarrow> vfs \<Rightarrow> vfs" where
  "set_kern k s = s\<lparr>om := (om s)\<lparr>kern := k\<rparr>\<rparr>"

definition set_heap :: "kheap \<Rightarrow> vfs \<Rightarrow> vfs" where
  "set_heap h s = set_kern ((krn s)\<lparr>fheap := h\<rparr>) s"

definition upd_den :: "ptr \<Rightarrow> (dentry \<Rightarrow> dentry) \<Rightarrow> vfs \<Rightarrow> vfs" where
  "upd_den p f s = s\<lparr>om := (om s)\<lparr>dentries := (den s)(p := f (den s p))\<rparr>\<rparr>"

definition upd_file :: "ptr \<Rightarrow> (vfs_file \<Rightarrow> vfs_file) \<Rightarrow> vfs \<Rightarrow> vfs" where
  "upd_file p f s = s\<lparr>files := (files s)(p := f (files s p))\<rparr>"

text \<open>The operation tables of ramfs and the tables of an inode.\<close>

definition ramfs_inode_ops :: inode_operations where
  "ramfs_inode_ops = \<lparr>lookup_op = Some ramfs_lookup, create_op = Some ramfs_create, mkdir_op = Some ramfs_mkdir,
     rmdir_op = Some ramfs_rmdir, unlink_op = Some ramfs_unlink, rename_op = Some ramfs_rename\<rparr>"

definition ramfs_file_ops :: file_operations where
  "ramfs_file_ops = \<lparr>read_op = Some ramfs_read, write_op = Some ramfs_write, open_op = Some ramfs_open,
     release_op = Some ramfs_release, readdir_op = None\<rparr>"

definition ramfs_dir_ops :: file_operations where
  "ramfs_dir_ops = \<lparr>read_op = None, write_op = None, open_op = Some ramfs_open, release_op = Some ramfs_release,
     readdir_op = Some ramfs_readdir\<rparr>"

definition i_op :: "vinode \<Rightarrow> inode_operations option" where
  "i_op v = Some ramfs_inode_ops"

definition i_fop :: "vinode \<Rightarrow> file_operations option" where
  "i_fop v = Some (if i_dir_ops v then ramfs_dir_ops else ramfs_file_ops)"

text \<open>Heap objects: \<^verbatim>\<open>kzalloc\<close> clears them.\<close>

definition zero_dentry :: dentry where
  "zero_dentry = \<lparr>d_name = [], d_inode = NULL, d_parent = NULL, d_sb = NULL\<rparr>"

definition zero_file :: vfs_file where
  "zero_file = \<lparr>f_dentry = NULL, f_op = None, f_pos = 0, f_flags = 0, f_mode = 0, f_count = 0, f_private = NULL\<rparr>"

definition alloc_dentry :: "vfs \<Rightarrow> (ptr \<times> vfs) option" where
  "alloc_dentry s = do {
     (p, h) \<leftarrow> kzalloc DENTRY_SIZE GFP_KERNEL (hp s);
     let s = set_heap h s;
     Some (p, if p = NULL then s else upd_den p (\<lambda>_. zero_dentry) s)
   }"

definition alloc_file :: "vfs \<Rightarrow> (ptr \<times> vfs) option" where
  "alloc_file s = do {
     (p, h) \<leftarrow> kzalloc FILE_SIZE GFP_KERNEL (hp s);
     let s = set_heap h s;
     Some (p, if p = NULL then s else upd_file p (\<lambda>_. zero_file) s)
   }"

definition free_obj :: "ptr \<Rightarrow> vfs \<Rightarrow> vfs" where
  "free_obj p s = set_heap (kfree p (hp s)) s"

section \<open>Helper functions\<close>

fun name_eq :: "bytes \<Rightarrow> bytes \<Rightarrow> bool" where
  "name_eq (x # a) (y # b) = (if x = y then name_eq a b else False)"
| "name_eq [] [] = True"
| "name_eq _ _ = False"

definition find_filesystem :: "bytes \<Rightarrow> vfs \<Rightarrow> file_system_type option" where
  "find_filesystem name s = find (\<lambda>fs. case fs_name fs of None \<Rightarrow> False | Some a \<Rightarrow> name_eq a name) (file_systems s)"

text \<open>Trailing slashes do not count, except for a leading one.\<close>

function strip_slashes :: "bytes \<Rightarrow> bytes" where
  "strip_slashes a = (if length a > 1 \<and> last a = SLASH then strip_slashes (butlast a) else a)"
  by pat_completeness auto
termination
  by (relation "measure length") auto

declare strip_slashes.simps [simp del]

fun cmp_chars :: "bytes \<Rightarrow> bytes \<Rightarrow> int" where
  "cmp_chars [] [] = 0"
| "cmp_chars (x # a) [] = uint x"
| "cmp_chars [] (y # b) = - uint y"
| "cmp_chars (x # a) (y # b) = (if x \<noteq> y then uint x - uint y else if x = 0 then 0 else cmp_chars a b)"

definition path_compare :: "bytes option \<Rightarrow> bytes option \<Rightarrow> int" where
  "path_compare a b =
     (let a = (case a of None \<Rightarrow> [] | Some a \<Rightarrow> a); b = (case b of None \<Rightarrow> [] | Some b \<Rightarrow> b)
      in cmp_chars (strip_slashes a) (strip_slashes b))"

text \<open>The string that \<^verbatim>\<open>path_copy\<close> leaves in a buffer of \<open>n\<close> bytes.\<close>

definition path_copy :: "bytes option \<Rightarrow> nat \<Rightarrow> bytes" where
  "path_copy src n = (case src of None \<Rightarrow> [] | Some a \<Rightarrow> take (n - 1) a)"

definition dentry_is_mount_root :: "ptr \<Rightarrow> vfs \<Rightarrow> bool" where
  "dentry_is_mount_root d s \<longleftrightarrow> d \<noteq> NULL
     \<and> list_ex (\<lambda>i. case mounts s i of None \<Rightarrow> False | Some k \<Rightarrow> mnt_root (mount_pool s k) = d) [0..<MAX_MOUNTS]"

fun common_len :: "bytes \<Rightarrow> bytes \<Rightarrow> nat" where
  "common_len (x # a) (y # b) = (if x = y then Suc (common_len a b) else 0)"
| "common_len _ _ = 0"

text \<open>The matched length, or \<^term>\<open>None\<close> for the result 0.\<close>

definition path_has_mount_prefix :: "bytes \<Rightarrow> bytes \<Rightarrow> nat option" where
  "path_has_mount_prefix path target =
     (let i = common_len target path in
      if i < length target then None
      else if i = 1 \<and> target ! 0 = SLASH then Some 1
      else if i < length path \<and> path ! i \<noteq> SLASH then None
      else Some i)"

text \<open>The loop over the mount table: the best mount so far and its length.\<close>

fun best_mount :: "bytes \<Rightarrow> vfs \<Rightarrow> nat list \<Rightarrow> nat option \<times> nat \<Rightarrow> nat option \<times> nat" where
  "best_mount path s [] b = b"
| "best_mount path s (i # is) b =
     (case mounts s i of
        None \<Rightarrow> best_mount path s is b
      | Some k \<Rightarrow>
          if mnt_root (mount_pool s k) = NULL then best_mount path s is b
          else case path_has_mount_prefix path (mnt_target (mount_pool s k)) of
            None \<Rightarrow> best_mount path s is b
          | Some len \<Rightarrow> best_mount path s is (if len \<ge> snd b then (Some k, len) else b))"

definition find_mount_for_path :: "bytes \<Rightarrow> vfs \<Rightarrow> nat option \<times> nat" where
  "find_mount_for_path path s = best_mount path s [0..<MAX_MOUNTS] (None, 0)"

text \<open>The dentry to start from and the rest of the path.\<close>

definition resolve_path_root :: "bytes option \<Rightarrow> vfs \<Rightarrow> ptr \<times> bytes option" where
  "resolve_path_root path s =
     (case path of
        None \<Rightarrow> (root_dentry s, None)
      | Some path \<Rightarrow>
          (case find_mount_for_path path s of
             (Some k, len) \<Rightarrow> if mnt_root (mount_pool s k) \<noteq> NULL
                              then (mnt_root (mount_pool s k), Some (dropWhile (\<lambda>c. c = SLASH) (drop len path)))
                              else (root_dentry s, Some path)
           | (None, _) \<Rightarrow> (root_dentry s, Some path)))"

text \<open>The parent is read before the dentry is released.\<close>

partial_function (option) vfs_free_dentry_chain :: "ptr \<Rightarrow> vfs \<Rightarrow> vfs option" where
  "vfs_free_dentry_chain d s =
     (if d \<noteq> NULL \<and> d \<noteq> root_dentry s \<and> \<not> dentry_is_mount_root d s
      then (let parent = d_parent (den s d); s = free_obj d s
            in if parent = NULL \<or> parent = d then Some s else vfs_free_dentry_chain parent s)
      else Some s)"

definition find_mount_by_target :: "bytes option \<Rightarrow> vfs \<Rightarrow> nat option" where
  "find_mount_by_target target s =
     (if target = None then None
      else Option.bind (find (\<lambda>i. case mounts s i of None \<Rightarrow> False
                                | Some k \<Rightarrow> path_compare (Some (mnt_target (mount_pool s k))) target = 0) [0..<MAX_MOUNTS]) (mounts s))"

section \<open>Registration and mounting\<close>

definition register_filesystem :: "file_system_type option \<Rightarrow> vfs \<Rightarrow> int \<times> vfs" where
  "register_filesystem fs s =
     (case fs of
        None \<Rightarrow> (- EINVAL, s)
      | Some fs \<Rightarrow>
          (case fs_name fs of
             None \<Rightarrow> (- EINVAL, s)
           | Some name \<Rightarrow> if find_filesystem name s \<noteq> None then (- EBUSY, s)
                          else (0, s\<lparr>file_systems := fs # file_systems s\<rparr>)))"

text \<open>\<^verbatim>\<open>fat32_fs_type\<close> is the only built-in type.\<close>

definition vfs_init :: "file_system_type \<Rightarrow> vfs \<Rightarrow> vfs" where
  "vfs_init fat32_fs_type s =
     snd (register_filesystem (Some fat32_fs_type)
       (s\<lparr>mounts := (\<lambda>i. if i < MAX_MOUNTS then None else mounts s i),
          mount_slot_used := (\<lambda>i. if i < MAX_MOUNTS then False else mount_slot_used s i)\<rparr>))"

text \<open>\<^verbatim>\<open>ramfs_mount\<close> with the super block and the root dentry around the inodes of \<^const>\<open>ramfs_mount\<close>.\<close>

definition ramfs_mount_sb :: "bytes \<Rightarrow> vfs_mem \<Rightarrow> (ptr \<times> vfs_mem) option" where
  "ramfs_mount_sb dev_name m = do {
     (ok, k) \<leftarrow> ramfs_mount (st_inode m) (kern m);
     let m = m\<lparr>kern := k\<rparr>;
     if \<not> ok then Some (NULL, m)
     else Some (st_sb m, m\<lparr>supers := (supers m)(st_sb m := \<lparr>s_disk_index = - 1, s_root = st_dentry m\<rparr>),
                 dentries := (dentries m)(st_dentry m := \<lparr>d_name = [SLASH], d_inode = st_inode m, d_parent = st_dentry m, d_sb = st_sb m\<rparr>)\<rparr>)
   }"

definition ramfs_fs_type :: file_system_type where
  "ramfs_fs_type = \<lparr>fs_name = Some [114, 97, 109, 102, 115], fs_mount = Some ramfs_mount_sb\<rparr>"

definition ramfs_init :: "vfs \<Rightarrow> int \<times> vfs" where
  "ramfs_init s = register_filesystem (Some ramfs_fs_type) s"

text \<open>\<open>disk_index\<close> is \<^verbatim>\<open>storage_get_disk_index_by_location\<close> of the storage driver.\<close>

definition resolve_disk_index :: "(bytes \<Rightarrow> int) \<Rightarrow> bytes \<Rightarrow> int" where
  "resolve_disk_index disk_index source = (if source = [] then - 1 else disk_index source)"

text \<open>The new mount in its slot.\<close>

definition add_mount :: "bytes \<Rightarrow> bytes \<Rightarrow> bytes \<Rightarrow> ptr \<Rightarrow> nat \<Rightarrow> vfs \<Rightarrow> vfs" where
  "add_mount source target fstype sb slot s =
     (let r = s_root (supers (om s) sb);
          mnt = \<lparr>mnt_root = r, mnt_sb = sb, mnt_mountpoint = NULL, mnt_parent = root_mount s, mnt_devname = take 63 source,
                 mnt_target = path_copy (Some target) 64, mnt_fstype = path_copy (Some fstype) 32\<rparr>;
          s = s\<lparr>mount_slot_used := (mount_slot_used s)(slot := True), mount_pool := (mount_pool s)(slot := mnt),
                mounts := (mounts s)(slot := Some slot), mount_count := mount_count s + 1\<rparr>
      in if path_compare (Some target) (Some [SLASH]) = 0 then s\<lparr>root_mount := Some slot, root_dentry := r\<rparr> else s)"

definition vfs_mount :: "(bytes \<Rightarrow> int) \<Rightarrow> bytes \<Rightarrow> bytes \<Rightarrow> bytes \<Rightarrow> vfs \<Rightarrow> (int \<times> vfs) option" where
  "vfs_mount disk_index source target fstype s =
     (case find_filesystem fstype s of
        None \<Rightarrow> Some (- ENODEV, s)
      | Some fs \<Rightarrow>
          (case find_mount_by_target (Some target) s of
             Some k \<Rightarrow>
               Some (if path_compare (Some (mnt_devname (mount_pool s k))) (Some source) = 0
                        \<and> path_compare (Some (mnt_fstype (mount_pool s k))) (Some fstype) = 0
                     then 0 else - EBUSY, s)
           | None \<Rightarrow>
               if mount_count s \<ge> int MAX_MOUNTS then Some (- ENOMEM, s)
               else (case fs_mount fs of
                  None \<Rightarrow> Some (- ENOSYS, s)
                | Some mount \<Rightarrow> do {
                    (sb, m) \<leftarrow> mount source (om s);
                    let s = s\<lparr>om := m\<rparr>;
                    if sb = NULL then Some (- EIO, s)
                    else do {
                      let s = (if s_disk_index (supers (om s) sb) < 0
                               then s\<lparr>om := (om s)\<lparr>supers := (supers (om s))(sb := (supers (om s) sb)\<lparr>s_disk_index := resolve_disk_index disk_index source\<rparr>)\<rparr>\<rparr>
                               else s);
                      case find (\<lambda>i. \<not> mount_slot_used s i) [0..<MAX_MOUNTS] of
                        None \<Rightarrow> Some (- ENOMEM, s)
                      | Some slot \<Rightarrow> Some (0, add_mount source target fstype sb slot s)
                    }
                  })))"

definition vfs_umount :: "bytes \<Rightarrow> vfs \<Rightarrow> int \<times> vfs" where
  "vfs_umount target s =
     (case find (\<lambda>i. case mounts s i of None \<Rightarrow> False
                   | Some k \<Rightarrow> mnt_root (mount_pool s k) \<noteq> NULL \<and> path_compare (Some (mnt_target (mount_pool s k))) (Some target) = 0)
             [0..<MAX_MOUNTS] of
        None \<Rightarrow> (- ENOSYS, s)
      | Some i \<Rightarrow>
          (let slot = the (mounts s i);
               s = s\<lparr>mount_pool := (mount_pool s)(slot := \<lparr>mnt_root = NULL, mnt_sb = NULL, mnt_mountpoint = NULL, mnt_parent = None,
                       mnt_devname = [], mnt_target = [], mnt_fstype = []\<rparr>)\<rparr>;
               s = (if root_mount s = Some slot then s\<lparr>root_mount := None, root_dentry := NULL\<rparr> else s);
               s = s\<lparr>mounts := (mounts s)(i := None)\<rparr>;
               s = (if slot < MAX_MOUNTS then s\<lparr>mount_slot_used := (mount_slot_used s)(slot := False)\<rparr> else s);
               s = (if mount_count s > 0 then s\<lparr>mount_count := mount_count s - 1\<rparr> else s)
           in (0, s)))"

section \<open>Path lookup\<close>

text \<open>An operation of the table of a dentry's inode; \<^term>\<open>None\<close> without inode, table or entry.\<close>

definition dop :: "(inode_operations \<Rightarrow> 'f option) \<Rightarrow> ptr \<Rightarrow> vfs \<Rightarrow> 'f option" where
  "dop sel d s = (if d_inode (den s d) = NULL then None else Option.bind (i_op (vinodes (krn s) (d_inode (den s d)))) sel)"

definition call_lookup :: "(ptr \<Rightarrow> bytes \<Rightarrow> ptr \<Rightarrow> ramfs \<Rightarrow> (ptr \<times> ramfs) option) \<Rightarrow> ptr \<Rightarrow> ptr \<Rightarrow> vfs \<Rightarrow> vfs option" where
  "call_lookup f dir child s = do {
     (v, k) \<leftarrow> f (d_inode (den s dir)) (d_name (den s child)) (d_inode (den s child)) (krn s);
     Some (upd_den child (d_inode_update (\<lambda>_. v)) (set_kern k s))
   }"

definition call_create :: "(ptr \<Rightarrow> bytes \<Rightarrow> ptr \<Rightarrow> u32 \<Rightarrow> ramfs \<Rightarrow> (int \<times> ptr \<times> ramfs) option) \<Rightarrow> ptr \<Rightarrow> ptr \<Rightarrow> u32 \<Rightarrow> vfs \<Rightarrow> (int \<times> vfs) option" where
  "call_create f dir child mode s = do {
     (r, v, k) \<leftarrow> f (d_inode (den s dir)) (d_name (den s child)) (d_inode (den s child)) mode (krn s);
     Some (r, upd_den child (d_inode_update (\<lambda>_. v)) (set_kern k s))
   }"

definition path_head :: "bytes \<Rightarrow> bytes" where
  "path_head p = take NAME_MAX (takeWhile (\<lambda>c. c \<noteq> SLASH) p)"

definition path_tail :: "bytes \<Rightarrow> bytes" where
  "path_tail p = dropWhile (\<lambda>c. c = SLASH) (dropWhile (\<lambda>c. c \<noteq> SLASH) p)"

lemma path_tail_less: "p \<noteq> [] \<Longrightarrow> length (path_tail p) < length p"
proof (cases p)
  case (Cons c cs)
  have le: "length (dropWhile P (dropWhile Q cs)) \<le> length cs" for P Q
    by (rule order_trans [OF length_dropWhile_le length_dropWhile_le])
  show ?thesis
  proof (cases "c = SLASH")
    case True
    then show ?thesis using Cons length_dropWhile_le [of "\<lambda>c. c = SLASH" cs] by (simp add: path_tail_def)
  next
    case False
    then show ?thesis using Cons le by (simp add: path_tail_def le_imp_less_Suc)
  qed
qed simp

function parent_walk :: "ptr \<Rightarrow> bytes \<Rightarrow> vfs \<Rightarrow> (ptr \<times> bytes \<times> vfs) option" where
  "parent_walk d p s =
     (if p = [] then Some (NULL, [], s)
      else if path_tail p = [] then Some (d, path_head p, s)
      else (case dop lookup_op d s of
          None \<Rightarrow> do { s \<leftarrow> vfs_free_dentry_chain d s; Some (NULL, [], s) }
        | Some lookup \<Rightarrow> do {
            (child, s) \<leftarrow> alloc_dentry s;
            if child = NULL then do { s \<leftarrow> vfs_free_dentry_chain d s; Some (NULL, [], s) }
            else do {
              s \<leftarrow> call_lookup lookup d child (upd_den child (d_name_update (\<lambda>_. path_head p)) s);
              if d_inode (den s child) = NULL then do { s \<leftarrow> vfs_free_dentry_chain child s; Some (NULL, [], s) }
              else parent_walk child (path_tail p) s
            }
          }))"
  by pat_completeness auto
termination
  by (relation "measure (\<lambda>(d, p, s). length p)") (auto simp: path_tail_less)

declare parent_walk.simps [simp del]

text \<open>The directory, the last component and the state; \<^verbatim>\<open>NULL\<close> for the directory when there is none.\<close>

definition vfs_lookup_parent :: "bytes option \<Rightarrow> vfs \<Rightarrow> (ptr \<times> bytes \<times> vfs) option" where
  "vfs_lookup_parent path s =
     (if root_dentry s = NULL then Some (NULL, [], s)
      else case resolve_path_root path s of (d, rel) \<Rightarrow>
        if d = NULL then Some (NULL, [], s)
        else case rel of
          None \<Rightarrow> None
        | Some p \<Rightarrow> parent_walk d (dropWhile (\<lambda>c. c = SLASH) p) s)"

definition drop_parent :: "ptr \<Rightarrow> vfs \<Rightarrow> vfs option" where
  "drop_parent d s =
     (if d \<noteq> NULL \<and> d \<noteq> root_dentry s \<and> \<not> dentry_is_mount_root d s then vfs_free_dentry_chain d s else Some s)"

section \<open>Opening files\<close>

definition init_file :: "ptr \<Rightarrow> ptr \<Rightarrow> u32 \<Rightarrow> u32 \<Rightarrow> vfs \<Rightarrow> vfs" where
  "init_file f d flags mode s =
     (let v = vinodes (krn s) (d_inode (den s d)) in
      upd_file f (\<lambda>x. x\<lparr>f_dentry := d, f_op := i_fop v, f_private := i_private v, f_mode := mode, f_flags := flags, f_count := 1\<rparr>) s)"

text \<open>What a file operation of ramfs sees of an open file.\<close>

definition rfile_of :: "ptr \<Rightarrow> vfs \<Rightarrow> rfile" where
  "rfile_of f s = \<lparr>private_data = f_private (files s f),
     f_inode = (if f_dentry (files s f) = NULL then NULL else d_inode (den s (f_dentry (files s f))))\<rparr>"

definition fop :: "(file_operations \<Rightarrow> 'f option) \<Rightarrow> ptr \<Rightarrow> vfs \<Rightarrow> 'f option" where
  "fop sel f s = Option.bind (f_op (files s f)) sel"

definition open_mounted :: "ptr \<Rightarrow> u32 \<Rightarrow> u32 \<Rightarrow> vfs \<Rightarrow> (ptr \<times> vfs) option" where
  "open_mounted d flags mode s = do {
     (f, s) \<leftarrow> alloc_file s;
     if f = NULL then Some (NULL, s)
     else if d_inode (den s d) = NULL then None
     else Some (f, init_file f d flags mode s)
   }"

definition open_root :: "u32 \<Rightarrow> u32 \<Rightarrow> vfs \<Rightarrow> (ptr \<times> vfs) option" where
  "open_root flags mode s = do {
     (f, s) \<leftarrow> alloc_file s;
     if root_dentry s = NULL \<or> d_inode (den s (root_dentry s)) = NULL then Some (NULL, if f \<noteq> NULL then free_obj f s else s)
     else if f = NULL then None
     else Some (f, init_file f (root_dentry s) flags mode s)
   }"

text \<open>The effects of \<^verbatim>\<open>O_TRUNC\<close> and \<^verbatim>\<open>O_APPEND\<close> and the call of the file system's \<^verbatim>\<open>open\<close>.\<close>

definition truncate_inode :: "ptr \<Rightarrow> ptr \<Rightarrow> vfs \<Rightarrow> vfs" where
  "truncate_inode f v s =
     (let k = (krn s)\<lparr>vinodes := (vinodes (krn s))(v := (vinodes (krn s) v)\<lparr>i_size := 0\<rparr>)\<rparr>
      in set_kern (snd (ramfs_truncate_file (f_private (files s f)) k)) s)"

definition set_append :: "ptr \<Rightarrow> ptr \<Rightarrow> u32 \<Rightarrow> vfs \<Rightarrow> vfs" where
  "set_append f v flags s =
     (if flags AND O_APPEND \<noteq> 0 \<and> S_ISREG (i_mode (vinodes (krn s) v))
      then upd_file f (f_pos_update (\<lambda>_. i_size (vinodes (krn s) v))) s else s)"

definition finish_open :: "ptr \<Rightarrow> ptr \<Rightarrow> u32 \<Rightarrow> u32 \<Rightarrow> vfs \<Rightarrow> (ptr \<times> vfs) option" where
  "finish_open parent child flags mode s = do {
     (f, s) \<leftarrow> alloc_file s;
     if f = NULL then do { s \<leftarrow> vfs_free_dentry_chain child s; Some (NULL, s) }
     else if d_inode (den s child) = NULL then None
     else do {
       let s = init_file f child flags mode s;
       let v = d_inode (den s child);
       let s = (if flags AND O_TRUNC \<noteq> 0 \<and> S_ISREG (i_mode (vinodes (krn s) v)) then truncate_inode f v s else s);
       let s = set_append f v flags s;
       let s = (case fop open_op f s of
                  None \<Rightarrow> s
                | Some op \<Rightarrow> set_append f v flags (upd_file f (f_private_update (\<lambda>_. private_data (op v (rfile_of f s) (krn s)))) s));
       if parent \<noteq> NULL \<and> parent \<noteq> root_dentry s \<and> \<not> dentry_is_mount_root parent s
       then do { s \<leftarrow> vfs_free_dentry_chain parent (upd_den child (d_parent_update (\<lambda>_. root_dentry s)) s); Some (f, s) }
       else Some (f, s)
     }
   }"

text \<open>Creating the file with \<^verbatim>\<open>O_CREAT\<close> when the lookup found none.\<close>

definition ensure_inode :: "ptr \<Rightarrow> ptr \<Rightarrow> u32 \<Rightarrow> u32 \<Rightarrow> vfs \<Rightarrow> (bool \<times> vfs) option" where
  "ensure_inode parent child flags mode s =
     (if d_inode (den s child) \<noteq> NULL then Some (True, s)
      else if flags AND O_CREAT = 0 then Some (False, s)
      else if d_inode (den s parent) = NULL then None
      else case dop create_op parent s of
        None \<Rightarrow> Some (False, s)
      | Some create \<Rightarrow> do { (r, s) \<leftarrow> call_create create parent child mode s; Some (r = 0, s) })"

definition open_in :: "ptr \<Rightarrow> bytes \<Rightarrow> u32 \<Rightarrow> u32 \<Rightarrow> vfs \<Rightarrow> (ptr \<times> vfs) option" where
  "open_in parent name flags mode s = do {
     (child, s) \<leftarrow> alloc_dentry s;
     if child = NULL then do { s \<leftarrow> drop_parent parent s; Some (NULL, s) }
     else if name = [] then do { s \<leftarrow> drop_parent parent s; Some (NULL, free_obj child s) }
     else if parent = NULL then None
     else do {
       let s = upd_den child (\<lambda>d. d\<lparr>d_name := name, d_parent := parent, d_sb := d_sb (den s parent)\<rparr>) s;
       s \<leftarrow> (case dop lookup_op parent s of None \<Rightarrow> Some s | Some lookup \<Rightarrow> call_lookup lookup parent child s);
       (ok, s) \<leftarrow> ensure_inode parent child flags mode s;
       if \<not> ok then do { s \<leftarrow> vfs_free_dentry_chain child s; Some (NULL, s) }
       else finish_open parent child flags mode s
     }
   }"

definition open_path :: "bytes \<Rightarrow> u32 \<Rightarrow> u32 \<Rightarrow> vfs \<Rightarrow> (ptr \<times> vfs) option" where
  "open_path path flags mode s = do {
     (parent, name, s) \<leftarrow> vfs_lookup_parent (Some path) s;
     if parent \<noteq> NULL then open_in parent name flags mode s
     else
       (let p = dropWhile (\<lambda>c. c = SLASH) path in
        if dropWhile (\<lambda>c. c \<noteq> SLASH) p \<noteq> [] then Some (NULL, s) else open_in (root_dentry s) (path_head p) flags mode s)
   }"

definition vfs_open :: "bytes option \<Rightarrow> u32 \<Rightarrow> u32 \<Rightarrow> vfs \<Rightarrow> (ptr \<times> vfs) option" where
  "vfs_open path flags mode s =
     (case path of
        None \<Rightarrow> Some (NULL, s)
      | Some path \<Rightarrow>
          if path = [] then Some (NULL, s)
          else if path = [SLASH] then open_root flags mode s
          else case find_mount_by_target (Some path) s of
            None \<Rightarrow> open_path path flags mode s
          | Some k \<Rightarrow>
              if mnt_root (mount_pool s k) \<noteq> NULL \<and> path_compare (Some (mnt_target (mount_pool s k))) (Some path) = 0
              then open_mounted (mnt_root (mount_pool s k)) flags mode s
              else open_path path flags mode s)"

section \<open>Creating, removing and renaming\<close>

definition make_node :: "(inode_operations \<Rightarrow> (ptr \<Rightarrow> bytes \<Rightarrow> ptr \<Rightarrow> u32 \<Rightarrow> ramfs \<Rightarrow> (int \<times> ptr \<times> ramfs) option) option)
    \<Rightarrow> bytes option \<Rightarrow> u32 \<Rightarrow> vfs \<Rightarrow> (int \<times> vfs) option" where
  "make_node op path mode s = do {
     (parent, name, s) \<leftarrow> vfs_lookup_parent path s;
     if parent = NULL then Some (- ENOENT, s)
     else if name = [] then do { s \<leftarrow> drop_parent parent s; Some (- EINVAL, s) }
     else do {
       (child, s) \<leftarrow> alloc_dentry s;
       if child = NULL then do { s \<leftarrow> drop_parent parent s; Some (- ENOMEM, s) }
       else do {
         let s = upd_den child (\<lambda>d. d\<lparr>d_name := name, d_parent := parent, d_sb := d_sb (den s parent)\<rparr>) s;
         case dop op parent s of
           None \<Rightarrow> do { s \<leftarrow> vfs_free_dentry_chain child s; Some (- EPERM, s) }
         | Some f \<Rightarrow> do {
             (ret, s) \<leftarrow> call_create f parent child mode s;
             s \<leftarrow> vfs_free_dentry_chain child s;
             Some (ret, s)
           }
       }
     }
   }"

definition vfs_create :: "bytes option \<Rightarrow> u32 \<Rightarrow> vfs \<Rightarrow> (int \<times> vfs) option" where
  "vfs_create path mode s = make_node create_op path mode s"

definition vfs_mkdir :: "bytes option \<Rightarrow> u32 \<Rightarrow> vfs \<Rightarrow> (int \<times> vfs) option" where
  "vfs_mkdir path mode s = make_node mkdir_op path mode s"

text \<open>\<^verbatim>\<open>vfs_rmdir\<close> and \<^verbatim>\<open>vfs_unlink\<close> differ in the kind they demand, the error for the other kind and the operation.\<close>

definition remove_found :: "(inode_operations \<Rightarrow> (ptr \<Rightarrow> bytes \<Rightarrow> ramfs \<Rightarrow> (int \<times> ramfs) option) option) \<Rightarrow> bool \<Rightarrow> int
    \<Rightarrow> ptr \<Rightarrow> ptr \<Rightarrow> vfs \<Rightarrow> (int \<times> vfs) option" where
  "remove_found op dir err parent child s =
     (let v = d_inode (den s child) in
      if v = NULL then do { s \<leftarrow> vfs_free_dentry_chain child s; Some (- ENOENT, s) }
      else if S_ISDIR (i_mode (vinodes (krn s) v)) \<noteq> dir then do { s \<leftarrow> vfs_free_dentry_chain child s; Some (err, s) }
      else case dop op parent s of
        None \<Rightarrow> do { s \<leftarrow> vfs_free_dentry_chain child s; Some (- EPERM, s) }
      | Some f \<Rightarrow> do {
          (ret, k) \<leftarrow> f (d_inode (den s parent)) (d_name (den s child)) (krn s);
          s \<leftarrow> vfs_free_dentry_chain child (set_kern k s);
          Some (ret, s)
        })"

definition remove_node :: "(inode_operations \<Rightarrow> (ptr \<Rightarrow> bytes \<Rightarrow> ramfs \<Rightarrow> (int \<times> ramfs) option) option) \<Rightarrow> bool \<Rightarrow> int
    \<Rightarrow> bytes option \<Rightarrow> vfs \<Rightarrow> (int \<times> vfs) option" where
  "remove_node op dir err path s = do {
     (parent, name, s) \<leftarrow> vfs_lookup_parent path s;
     if parent = NULL then Some (- ENOENT, s)
     else do {
       (child, s) \<leftarrow> alloc_dentry s;
       if child = NULL then do { s \<leftarrow> drop_parent parent s; Some (- ENOMEM, s) }
       else if d_inode (den s parent) = NULL then None
       else do {
         let s = upd_den child (d_name_update (\<lambda>_. name)) s;
         s \<leftarrow> (case dop lookup_op parent s of None \<Rightarrow> Some s | Some lookup \<Rightarrow> call_lookup lookup parent child s);
         remove_found op dir err parent child s
       }
     }
   }"

definition vfs_rmdir :: "bytes option \<Rightarrow> vfs \<Rightarrow> (int \<times> vfs) option" where
  "vfs_rmdir path s = remove_node rmdir_op True (- ENOTDIR) path s"

definition vfs_unlink :: "bytes option \<Rightarrow> vfs \<Rightarrow> (int \<times> vfs) option" where
  "vfs_unlink path s = remove_node unlink_op False (- EISDIR) path s"

definition vfs_rename :: "bytes option \<Rightarrow> bytes option \<Rightarrow> vfs \<Rightarrow> (int \<times> vfs) option" where
  "vfs_rename old new s = do {
     (old_parent, old_name, s) \<leftarrow> vfs_lookup_parent old s;
     if old_parent = NULL then Some (- ENOENT, s)
     else do {
       (new_parent, new_name, s) \<leftarrow> vfs_lookup_parent new s;
       if new_parent = NULL then do { s \<leftarrow> drop_parent old_parent s; Some (- ENOENT, s) }
       else do {
         (old_child, s) \<leftarrow> alloc_dentry s;
         if old_child = NULL then do { s \<leftarrow> drop_parent old_parent s; s \<leftarrow> drop_parent new_parent s; Some (- ENOMEM, s) }
         else if d_inode (den s old_parent) = NULL then None
         else do {
           let s = upd_den old_child (\<lambda>d. d\<lparr>d_name := old_name, d_parent := old_parent, d_sb := d_sb (den s old_parent)\<rparr>) s;
           s \<leftarrow> (case dop lookup_op old_parent s of None \<Rightarrow> Some s | Some lookup \<Rightarrow> call_lookup lookup old_parent old_child s);
           if d_inode (den s old_child) = NULL then do { s \<leftarrow> vfs_free_dentry_chain old_child s; Some (- ENOENT, s) }
           else do {
             (new_child, s) \<leftarrow> alloc_dentry s;
             if new_child = NULL then do { s \<leftarrow> vfs_free_dentry_chain old_child s; s \<leftarrow> drop_parent new_parent s; Some (- ENOMEM, s) }
             else do {
               let s = upd_den new_child (\<lambda>d. d\<lparr>d_name := new_name, d_parent := new_parent, d_sb := d_sb (den s new_parent)\<rparr>) s;
               case dop rename_op old_parent s of
                 None \<Rightarrow> do { s \<leftarrow> vfs_free_dentry_chain old_child s; s \<leftarrow> vfs_free_dentry_chain new_child s; Some (- EPERM, s) }
               | Some f \<Rightarrow> do {
                   (ret, k) \<leftarrow> f (d_inode (den s old_parent)) (d_inode (den s old_child)) (d_inode (den s new_parent))
                                 (d_name (den s new_child)) (krn s);
                   s \<leftarrow> vfs_free_dentry_chain old_child (set_kern k s);
                   s \<leftarrow> vfs_free_dentry_chain new_child s;
                   Some (ret, s)
                 }
             }
           }
         }
       }
     }
   }"

section \<open>Operations on open files\<close>

definition vfs_readdir :: "ptr \<Rightarrow> vfs \<Rightarrow> (int \<times> (bytes \<times> u64 \<times> u32) list) option" where
  "vfs_readdir f s =
     (if f = NULL then Some (- EINVAL, [])
      else case fop readdir_op f s of None \<Rightarrow> Some (- EINVAL, []) | Some op \<Rightarrow> op (rfile_of f s) (krn s))"

definition vfs_close :: "ptr \<Rightarrow> vfs \<Rightarrow> (int \<times> vfs) option" where
  "vfs_close f s =
     (if f = NULL then Some (- EBADF, s)
      else do {
        let s = (case fop release_op f s of
                   None \<Rightarrow> s
                 | Some op \<Rightarrow> if f_dentry (files s f) = NULL then s
                              else upd_file f (f_private_update (\<lambda>_. private_data (op (rfile_of f s)))) s);
        let s = upd_file f (\<lambda>x. x\<lparr>f_count := f_count x - 1\<rparr>) s;
        if f_count (files s f) \<le> 0 then do { s \<leftarrow> drop_parent (f_dentry (files s f)) s; Some (0, free_obj f s) }
        else Some (0, s)
      })"

text \<open>The flag says whether the buffer is non-null; the bytes read are the second component.\<close>

definition vfs_read :: "ptr \<Rightarrow> bool \<Rightarrow> u64 \<Rightarrow> vfs \<Rightarrow> (int \<times> bytes \<times> vfs) option" where
  "vfs_read f buf count s =
     (if f = NULL then Some (- EBADF, [], s)
      else if \<not> buf then Some (- EFAULT, [], s)
      else case fop read_op f s of
        None \<Rightarrow> Some (- EINVAL, [], s)
      | Some op \<Rightarrow> do {
          (r, out, pos) \<leftarrow> op (rfile_of f s) count (f_pos (files s f)) (krn s);
          Some (r, out, upd_file f (f_pos_update (\<lambda>_. pos)) s)
        })"

definition vfs_write :: "ptr \<Rightarrow> bytes option \<Rightarrow> vfs \<Rightarrow> (int \<times> vfs) option" where
  "vfs_write f buf s =
     (if f = NULL then Some (- EBADF, s)
      else case buf of
        None \<Rightarrow> Some (- EFAULT, s)
      | Some b \<Rightarrow>
          (case fop write_op f s of
             None \<Rightarrow> Some (- EINVAL, s)
           | Some op \<Rightarrow> do {
               (r, pos, k) \<leftarrow> op (rfile_of f s) b (f_pos (files s f)) (krn s);
               Some (r, upd_file f (f_pos_update (\<lambda>_. pos)) (set_kern k s))
             }))"

text \<open>Signed overflow of the new position is undefined.\<close>

definition vfs_lseek :: "ptr \<Rightarrow> u64 \<Rightarrow> int \<Rightarrow> vfs \<Rightarrow> (int \<times> vfs) option" where
  "vfs_lseek f offset whence s =
     (if f = NULL then Some (- EBADF, s)
      else
        (let d = f_dentry (files s f); v = (if d = NULL then NULL else d_inode (den s d)) in
         if whence \<notin> {0, 1, 2} \<or> whence = 2 \<and> v = NULL then Some (- EINVAL, s)
         else
           (let base = (if whence = 0 then 0 else if whence = 1 then sint (f_pos (files s f)) else sint (i_size (vinodes (krn s) v)));
                new_pos = base + sint offset
            in if new_pos \<ge> 2 ^ 63 \<or> new_pos < - (2 ^ 63) then None
               else if new_pos < 0 then Some (- EINVAL, s)
               else Some (new_pos, upd_file f (f_pos_update (\<lambda>_. of_int new_pos)) s))))"

section \<open>Saving a whole file\<close>

text \<open>The last slash behind the first character, 0 without one.\<close>

definition last_slash_from_1 :: "bytes \<Rightarrow> nat" where
  "last_slash_from_1 path = fold (\<lambda>i l. if path ! i = SLASH then i else l) [1..<length path] 0"

text \<open>The results of \<^verbatim>\<open>vfs_mkdir\<close> are ignored.\<close>

fun make_dirs :: "bytes \<Rightarrow> nat list \<Rightarrow> vfs \<Rightarrow> vfs option" where
  "make_dirs path [] s = Some s"
| "make_dirs path (i # is) s =
     (if path ! i = SLASH \<and> i > 1 then do { (r, s) \<leftarrow> vfs_mkdir (Some (take i path)) 0x1ED s; make_dirs path is s }
      else make_dirs path is s)"

definition vfs_ensure_parent_dirs :: "bytes option \<Rightarrow> vfs \<Rightarrow> (int \<times> vfs) option" where
  "vfs_ensure_parent_dirs path s =
     (case path of
        None \<Rightarrow> Some (- EINVAL, s)
      | Some path \<Rightarrow>
          if path = [] \<or> path ! 0 \<noteq> SLASH \<or> length path \<ge> PATH_MAX then Some (- EINVAL, s)
          else
            (let l = last_slash_from_1 path in
             if l = 0 then Some (0, s)
             else do {
               s \<leftarrow> make_dirs path [1..<l] s;
               if l > 1 then do { (r, s) \<leftarrow> vfs_mkdir (Some (take l path)) 0x1ED s; Some (0, s) } else Some (0, s)
             }))"

function save_loop :: "ptr \<Rightarrow> bytes \<Rightarrow> nat \<Rightarrow> vfs \<Rightarrow> (int \<times> vfs) option" where
  "save_loop f data sent s =
     (if sent < length data then do {
        (written, s) \<leftarrow> vfs_write f (Some (drop sent data)) s;
        if written \<le> 0 then do { (r, s) \<leftarrow> vfs_close f s; Some (- EIO, s) }
        else save_loop f data (sent + nat written) s
      }
      else do { (r, s) \<leftarrow> vfs_close f s; Some (int sent, s) })"
  by pat_completeness auto
termination
  by (relation "measure (\<lambda>(f, data, sent, s). length data - sent)") auto

declare save_loop.simps [simp del]

text \<open>\<open>data\<close> holds the \<open>count\<close> bytes to write.\<close>

definition vfs_save_file :: "bytes option \<Rightarrow> bytes option \<Rightarrow> u64 \<Rightarrow> u32 \<Rightarrow> vfs \<Rightarrow> (int \<times> vfs) option" where
  "vfs_save_file path data count flags s =
     (if path = None \<or> path = Some [] \<or> data = None \<and> count > 0 then Some (- EINVAL, s)
      else if count > 0x7FFFFFFF then Some (- EFBIG, s)
      else do {
        s \<leftarrow> (if flags AND VFS_SAVE_CREATE_PARENTS \<noteq> 0 then map_option snd (vfs_ensure_parent_dirs path s) else Some s);
        (f, s) \<leftarrow> vfs_open path ((O_WRONLY OR O_CREAT) OR (if flags AND VFS_SAVE_APPEND \<noteq> 0 then O_APPEND else O_TRUNC)) 0x1A4 s;
        if f = NULL then Some (- ENOENT, s)
        else case data of
          None \<Rightarrow> save_loop f [] 0 s
        | Some d \<Rightarrow> if length d < unat count then None else save_loop f (take (unat count) d) 0 s
      })"

section \<open>Paths and mounts\<close>

lemma name_eq_iff [simp]: "name_eq a b \<longleftrightarrow> a = b"
  by (induction a b rule: name_eq.induct) auto

lemma uint_diff_0: "uint (x :: u8) - uint y = 0 \<longleftrightarrow> x = y"
  by (simp add: word_uint_eq_iff)

lemma cmp_chars_0: "0 \<notin> set a \<Longrightarrow> 0 \<notin> set b \<Longrightarrow> cmp_chars a b = 0 \<longleftrightarrow> a = b"
proof (induction a b rule: cmp_chars.induct)
  case (4 x a y b)
  show ?case
  proof (cases "x = y")
    case False
    then show ?thesis using uint_diff_0 [of x y] by simp
  qed (use 4 in auto)
qed (auto simp: uint_0_iff)

lemma set_strip: "set (strip_slashes a) \<subseteq> set a"
proof (induction a rule: strip_slashes.induct)
  case (1 a)
  then show ?case by (cases "length a > 1 \<and> last a = SLASH") (auto simp: strip_slashes.simps [of a] dest: in_set_butlastD)
qed

lemma path_compare_0:
  "0 \<notin> set a \<Longrightarrow> 0 \<notin> set b \<Longrightarrow> path_compare (Some a) (Some b) = 0 \<longleftrightarrow> strip_slashes a = strip_slashes b"
  unfolding path_compare_def Let_def option.case
  by (rule cmp_chars_0) (use set_strip [of a] set_strip [of b] in auto)

text \<open>A path is below a target when the target is a prefix that ends at a component boundary.\<close>

definition below :: "bytes \<Rightarrow> bytes \<Rightarrow> bool" where
  "below target path \<longleftrightarrow> take (length target) path = target
     \<and> (target = [SLASH] \<or> length path = length target \<or> path ! length target = SLASH)"

lemma common_len_le: "common_len a b \<le> length a" "common_len a b \<le> length b"
  by (induction a b rule: common_len.induct) auto

lemma common_len_full: "common_len a b = length a \<longleftrightarrow> take (length a) b = a"
  by (induction a b rule: common_len.induct) auto

lemma prefix_iff: "path_has_mount_prefix path target = (if below target path then Some (length target) else None)"
proof (cases "common_len target path = length target")
  case True
  then have t: "take (length target) path = target" by (simp add: common_len_full)
  have "length target \<le> length path" using common_len_le(2) [of target path] True by simp
  moreover have "length target = 1 \<and> target ! 0 = SLASH \<longleftrightarrow> target = [SLASH]" by (cases target) auto
  ultimately show ?thesis using True t by (auto simp: path_has_mount_prefix_def below_def Let_def)
next
  case False
  then have "common_len target path < length target" using common_len_le(1) [of target path] by simp
  moreover have "take (length target) path \<noteq> target" using False by (simp add: common_len_full)
  ultimately show ?thesis by (simp add: path_has_mount_prefix_def below_def Let_def)
qed

text \<open>The mount table: \<open>mounted\<close> slots that a path is below of.\<close>

definition candidate :: "bytes \<Rightarrow> vfs \<Rightarrow> nat \<Rightarrow> nat \<Rightarrow> bool" where
  "candidate path s i k \<longleftrightarrow> mounts s i = Some k \<and> mnt_root (mount_pool s k) \<noteq> NULL \<and> below (mnt_target (mount_pool s k)) path"

abbreviation "tlen s k \<equiv> length (mnt_target (mount_pool s k))"

lemma best_mount_spec:
  assumes "best_mount path s is b = (r, n)"
  shows "(r, n) = b \<or> (\<exists>i \<in> set is. \<exists>k. r = Some k \<and> candidate path s i k \<and> n = tlen s k)"
    and "snd b \<le> n" and "\<And>i k. i \<in> set is \<Longrightarrow> candidate path s i k \<Longrightarrow> tlen s k \<le> n"
    and "\<And>i k. i \<in> set is \<Longrightarrow> candidate path s i k \<Longrightarrow> r \<noteq> None \<or> tlen s k < snd b"
proof -
  have step: "best_mount path s (i # is) b = best_mount path s is
      (case mounts s i of None \<Rightarrow> b | Some k \<Rightarrow> if candidate path s i k \<and> tlen s k \<ge> snd b then (Some k, tlen s k) else b)" for i "is" b
    by (auto simp: candidate_def prefix_iff split: option.split)
  have *: "((r, n) = b \<or> (\<exists>i \<in> set is. \<exists>k. r = Some k \<and> candidate path s i k \<and> n = tlen s k)) \<and> snd b \<le> n
      \<and> (\<forall>i k. i \<in> set is \<longrightarrow> candidate path s i k \<longrightarrow> tlen s k \<le> n)
      \<and> (\<forall>i k. i \<in> set is \<longrightarrow> candidate path s i k \<longrightarrow> r \<noteq> None \<or> tlen s k < snd b)
      \<and> (fst b \<noteq> None \<longrightarrow> r \<noteq> None)"
    using assms
  proof (induction "is" arbitrary: b)
    case (Cons i "is")
    define b' where "b' = (case mounts s i of None \<Rightarrow> b | Some k \<Rightarrow> if candidate path s i k \<and> tlen s k \<ge> snd b then (Some k, tlen s k) else b)"
    have IH: "((r, n) = b' \<or> (\<exists>i \<in> set is. \<exists>k. r = Some k \<and> candidate path s i k \<and> n = tlen s k)) \<and> snd b' \<le> n
      \<and> (\<forall>i k. i \<in> set is \<longrightarrow> candidate path s i k \<longrightarrow> tlen s k \<le> n)
      \<and> (\<forall>i k. i \<in> set is \<longrightarrow> candidate path s i k \<longrightarrow> r \<noteq> None \<or> tlen s k < snd b')
      \<and> (fst b' \<noteq> None \<longrightarrow> r \<noteq> None)"
      using Cons.prems unfolding step b'_def [symmetric] by (rule Cons.IH)
    show ?case
    proof (cases "\<exists>k. candidate path s i k \<and> tlen s k \<ge> snd b")
      case True
      then obtain k where k: "candidate path s i k" "tlen s k \<ge> snd b" by blast
      then have b': "b' = (Some k, tlen s k)" by (simp add: b'_def candidate_def)
      have u: "k' = k" if "candidate path s i k'" for k' using that k(1) by (simp add: candidate_def)
      show ?thesis using IH k unfolding b' by (auto dest: u)
    next
      case False
      then have b': "b' = b" by (auto simp: b'_def split: option.split)
      show ?thesis using IH False unfolding b' by (auto simp: not_le)
    qed
  qed simp
  note parts = * [THEN conjunct1] * [THEN conjunct2, THEN conjunct1] * [THEN conjunct2, THEN conjunct2, THEN conjunct1]
    * [THEN conjunct2, THEN conjunct2, THEN conjunct2, THEN conjunct1]
  show "(r, n) = b \<or> (\<exists>i \<in> set is. \<exists>k. r = Some k \<and> candidate path s i k \<and> n = tlen s k)" "snd b \<le> n"
    using parts(1,2) .
  show "tlen s k \<le> n" "r \<noteq> None \<or> tlen s k < snd b" if "i \<in> set is" "candidate path s i k" for i k
    using parts(3,4) that by blast+
qed

text \<open>The mount table is consistent: slots agree with the table, targets differ, and the root mount is recorded.\<close>

definition mount_inv :: "vfs \<Rightarrow> bool" where
  "mount_inv s \<longleftrightarrow>
     (\<forall>i < MAX_MOUNTS. (mounts s i = None \<or> mounts s i = Some i) \<and> (mount_slot_used s i \<longleftrightarrow> mounts s i \<noteq> None))
   \<and> mount_count s = int (card {i. i < MAX_MOUNTS \<and> mounts s i \<noteq> None})
   \<and> (\<forall>i < MAX_MOUNTS. mounts s i \<noteq> None \<longrightarrow> mnt_root (mount_pool s i) \<noteq> NULL \<and> 0 \<notin> set (mnt_target (mount_pool s i)))
   \<and> inj_on (\<lambda>i. strip_slashes (mnt_target (mount_pool s i))) {i. i < MAX_MOUNTS \<and> mounts s i \<noteq> None}
   \<and> (case root_mount s of
        None \<Rightarrow> root_dentry s = NULL \<and> (\<forall>i < MAX_MOUNTS. mounts s i \<noteq> None \<longrightarrow> strip_slashes (mnt_target (mount_pool s i)) \<noteq> [SLASH])
      | Some k \<Rightarrow> k < MAX_MOUNTS \<and> mounts s k \<noteq> None \<and> root_dentry s = mnt_root (mount_pool s k)
                  \<and> strip_slashes (mnt_target (mount_pool s k)) = [SLASH])"

lemma mount_invD:
  assumes "mount_inv s" and "i < MAX_MOUNTS"
  shows "mounts s i = None \<or> mounts s i = Some i" and "mount_slot_used s i \<longleftrightarrow> mounts s i \<noteq> None"
    and "mounts s i \<noteq> None \<Longrightarrow> mnt_root (mount_pool s i) \<noteq> NULL" and "mounts s i \<noteq> None \<Longrightarrow> 0 \<notin> set (mnt_target (mount_pool s i))"
    and "\<lbrakk> j < MAX_MOUNTS; mounts s i \<noteq> None; mounts s j \<noteq> None;
           strip_slashes (mnt_target (mount_pool s i)) = strip_slashes (mnt_target (mount_pool s j)) \<rbrakk> \<Longrightarrow> i = j"
  using assms unfolding mount_inv_def inj_on_def by blast+

lemma candidate_slot: "mount_inv s \<Longrightarrow> i < MAX_MOUNTS \<Longrightarrow> candidate path s i k \<longleftrightarrow> k = i \<and> candidate path s i i"
  using mount_invD(1) by (fastforce simp: candidate_def)

text \<open>Two candidates of the same length have the same target.\<close>

lemma candidate_unique:
  assumes "mount_inv s" "i < MAX_MOUNTS" "j < MAX_MOUNTS" "candidate path s i i" "candidate path s j j" "tlen s i = tlen s j"
  shows "i = j"
proof (rule mount_invD(5) [OF assms(1-3)])
  have "mnt_target (mount_pool s i) = mnt_target (mount_pool s j)"
    using assms(4-6) unfolding candidate_def below_def by metis
  then show "strip_slashes (mnt_target (mount_pool s i)) = strip_slashes (mnt_target (mount_pool s j))" by simp
qed (use assms in \<open>auto simp: candidate_def\<close>)

lemma find_mount_None:
  assumes "mount_inv s"
  shows "(\<forall>i < MAX_MOUNTS. \<not> candidate path s i i) \<longleftrightarrow> find_mount_for_path path s = (None, 0)"
proof -
  obtain r n where f: "best_mount path s [0..<MAX_MOUNTS] (None, 0) = (r, n)" by (cases "best_mount path s [0..<MAX_MOUNTS] (None, 0)")
  note B = best_mount_spec [OF f]
  show ?thesis unfolding find_mount_for_path_def f
  proof
    assume no: "\<forall>i < MAX_MOUNTS. \<not> candidate path s i i"
    have "\<not> (\<exists>i \<in> set [0..<MAX_MOUNTS]. \<exists>k. r = Some k \<and> candidate path s i k \<and> n = tlen s k)"
    proof
      assume "\<exists>i \<in> set [0..<MAX_MOUNTS]. \<exists>k. r = Some k \<and> candidate path s i k \<and> n = tlen s k"
      then obtain i k where "i < MAX_MOUNTS" "candidate path s i k" by auto
      then show False using no candidate_slot [OF assms] by blast
    qed
    then show "(r, n) = (None, 0)" using B(1) by blast
  next
    assume "(r, n) = (None, 0)"
    then show "\<forall>i < MAX_MOUNTS. \<not> candidate path s i i" using B(4) by auto
  qed
qed

lemma find_mount_Some:
  assumes inv: "mount_inv s"
  shows "find_mount_for_path path s = (Some k, n) \<longleftrightarrow>
    k < MAX_MOUNTS \<and> candidate path s k k \<and> n = tlen s k \<and> (\<forall>j < MAX_MOUNTS. candidate path s j j \<longrightarrow> tlen s j \<le> tlen s k)"
proof -
  obtain r m where f: "best_mount path s [0..<MAX_MOUNTS] (None, 0) = (r, m)" by (cases "best_mount path s [0..<MAX_MOUNTS] (None, 0)")
  note B = best_mount_spec [OF f]
  have mx: "tlen s j \<le> m" if "j < MAX_MOUNTS" "candidate path s j j" for j using B(3) [of j j] that by simp
  have one: "i < MAX_MOUNTS \<and> candidate path s i i \<and> m = tlen s i" if "r = Some i" for i
  proof -
    obtain j k where "j < MAX_MOUNTS" "r = Some k" "candidate path s j k" "m = tlen s k" using B(1) \<open>r = Some i\<close> by (metis Pair_inject atLeastLessThan_iff option.distinct(1) set_upt)
    then show ?thesis using that candidate_slot [OF inv, of j path k] by auto
  qed
  show ?thesis unfolding find_mount_for_path_def f
  proof
    assume "(r, m) = (Some k, n)"
    then show "k < MAX_MOUNTS \<and> candidate path s k k \<and> n = tlen s k \<and> (\<forall>j < MAX_MOUNTS. candidate path s j j \<longrightarrow> tlen s j \<le> tlen s k)"
      using one [of k] mx by simp
  next
    assume k: "k < MAX_MOUNTS \<and> candidate path s k k \<and> n = tlen s k \<and> (\<forall>j < MAX_MOUNTS. candidate path s j j \<longrightarrow> tlen s j \<le> tlen s k)"
    then obtain i where i: "r = Some i" using B(4) [of k k] by auto
    have "tlen s i = tlen s k" using one [OF i] mx [of k] k by (simp add: le_antisym)
    then have "i = k" using candidate_unique [OF inv _ _ _ _] one [OF i] k by blast
    then show "(r, m) = (Some k, n)" using i one [OF i] k by simp
  qed
qed

lemma find_mount_ex:
  assumes inv: "mount_inv s" and "\<exists>i < MAX_MOUNTS. candidate path s i i"
  obtains k n where "find_mount_for_path path s = (Some k, n)"
proof -
  obtain r n where f: "best_mount path s [0..<MAX_MOUNTS] (None, 0) = (r, n)" by (cases "best_mount path s [0..<MAX_MOUNTS] (None, 0)")
  obtain i where "i < MAX_MOUNTS" "candidate path s i i" using assms(2) by blast
  then have "r \<noteq> None" using best_mount_spec(4) [OF f, of i i] by simp
  then show thesis using that f by (auto simp: find_mount_for_path_def)
qed

lemma find_target_None:
  assumes "mount_inv s" and "0 \<notin> set target"
  shows "find_mount_by_target (Some target) s = None
    \<longleftrightarrow> (\<forall>i < MAX_MOUNTS. mounts s i \<noteq> None \<longrightarrow> strip_slashes (mnt_target (mount_pool s i)) \<noteq> strip_slashes target)"
proof -
  have c: "(case mounts s i of None \<Rightarrow> False | Some k \<Rightarrow> path_compare (Some (mnt_target (mount_pool s k))) (Some target) = 0)
      \<longleftrightarrow> mounts s i \<noteq> None \<and> strip_slashes (mnt_target (mount_pool s i)) = strip_slashes target" if "i < MAX_MOUNTS" for i
    using mount_invD(1,4) [OF assms(1) that] path_compare_0 [OF _ assms(2)] by auto
  have m: "mounts s i \<noteq> None" if "find (\<lambda>i. case mounts s i of None \<Rightarrow> False
      | Some k \<Rightarrow> path_compare (Some (mnt_target (mount_pool s k))) (Some target) = 0) [0..<MAX_MOUNTS] = Some i" for i
    using that by (auto simp: find_upt_Some split: option.splits)
  have "find_mount_by_target (Some target) s = None \<longleftrightarrow> find (\<lambda>i. case mounts s i of None \<Rightarrow> False
      | Some k \<Rightarrow> path_compare (Some (mnt_target (mount_pool s k))) (Some target) = 0) [0..<MAX_MOUNTS] = None"
    using m unfolding find_mount_by_target_def
    by (cases "find (\<lambda>i. case mounts s i of None \<Rightarrow> False
      | Some k \<Rightarrow> path_compare (Some (mnt_target (mount_pool s k))) (Some target) = 0) [0..<MAX_MOUNTS]") auto
  then show ?thesis unfolding find_upt_None using c by blast
qed

text \<open>Resolution depends only on the mounted slots.\<close>

lemma find_mount_cong:
  assumes "\<And>i. i < MAX_MOUNTS \<Longrightarrow> mounts t i = mounts s i"
    and "\<And>i k. i < MAX_MOUNTS \<Longrightarrow> mounts s i = Some k \<Longrightarrow> mount_pool t k = mount_pool s k"
  shows "find_mount_for_path path t = find_mount_for_path path s"
proof -
  have "best_mount path t is b = best_mount path s is b" if "set is \<subseteq> {0..<MAX_MOUNTS}" for "is" b
    using that assms by (induction "is" arbitrary: b) (auto split: option.split)
  then show ?thesis unfolding find_mount_for_path_def by simp
qed

lemma resolve_cong:
  assumes inv: "mount_inv s" and "root_dentry t = root_dentry s" and "\<And>i. i < MAX_MOUNTS \<Longrightarrow> mounts t i = mounts s i"
    and "\<And>i k. i < MAX_MOUNTS \<Longrightarrow> mounts s i = Some k \<Longrightarrow> mount_pool t k = mount_pool s k"
  shows "resolve_path_root path t = resolve_path_root path s"
proof (cases path)
  case (Some p)
  have f: "find_mount_for_path p t = find_mount_for_path p s" by (rule find_mount_cong) (use assms in auto)
  have "mount_pool t k = mount_pool s k" if "find_mount_for_path p s = (Some k, n)" for k n
    using that assms(4) [of k k] by (simp add: find_mount_Some [OF inv] candidate_def)
  then show ?thesis
    by (cases "find_mount_for_path p s", cases "fst (find_mount_for_path p s)") (simp_all add: resolve_path_root_def Some f assms(2))
qed (simp add: resolve_path_root_def assms)

text \<open>The mount is added to the table of targets, and resolution prefers the longest target.\<close>

definition resolves :: "bytes \<Rightarrow> vfs \<Rightarrow> ptr \<Rightarrow> nat \<Rightarrow> bool" where
  "resolves path s d n \<longleftrightarrow> resolve_path_root (Some path) s = (d, Some (dropWhile (\<lambda>c. c = SLASH) (drop n path)))"

lemma strip_short: "strip_slashes [SLASH] = [SLASH]"
  by (simp add: strip_slashes.simps)

lemma add_mount_fields:
  fixes source target fstype sb slot
  defines "t \<equiv> \<lambda>s. add_mount source target fstype sb slot s"
  shows "mounts (t s) = (mounts s)(slot := Some slot)" "mount_count (t s) = mount_count s + 1"
    "mount_slot_used (t s) = (mount_slot_used s)(slot := True)" "om (t s) = om s"
    "mount_pool (t s) = (mount_pool s)(slot := \<lparr>mnt_root = s_root (supers (om s) sb), mnt_sb = sb, mnt_mountpoint = NULL,
       mnt_parent = root_mount s, mnt_devname = take 63 source, mnt_target = take 63 target, mnt_fstype = take 31 fstype\<rparr>)"
    "root_mount (t s) = (if path_compare (Some target) (Some [SLASH]) = 0 then Some slot else root_mount s)"
    "root_dentry (t s) = (if path_compare (Some target) (Some [SLASH]) = 0 then s_root (supers (om s) sb) else root_dentry s)"
  by (simp_all add: t_def add_mount_def Let_def path_copy_def)

lemma add_mount_inv:
  assumes inv: "mount_inv s" and slot: "slot < MAX_MOUNTS" "mounts s slot = None"
    and tg: "0 \<notin> set target" "length target \<le> 63" and r: "s_root (supers (om s) sb) \<noteq> NULL"
    and no: "\<And>i. \<lbrakk> i < MAX_MOUNTS; mounts s i \<noteq> None \<rbrakk> \<Longrightarrow> strip_slashes (mnt_target (mount_pool s i)) \<noteq> strip_slashes target"
  shows "mount_inv (add_mount source target fstype sb slot s)"
proof -
  let ?t = "add_mount source target fstype sb slot s"
  note F = add_mount_fields [of source target fstype sb slot s]
  have tt: "take 63 target = target" using tg(2) by simp
  have root: "path_compare (Some target) (Some [SLASH]) = 0 \<longleftrightarrow> strip_slashes target = [SLASH]"
    using path_compare_0 [OF tg(1), of "[SLASH]"] strip_short by simp
  have set: "{i. i < MAX_MOUNTS \<and> mounts ?t i \<noteq> None} = insert slot {i. i < MAX_MOUNTS \<and> mounts s i \<noteq> None}"
    using slot F(1) by auto
  have "mount_count ?t = int (card {i. i < MAX_MOUNTS \<and> mounts ?t i \<noteq> None})"
    unfolding set F(2) using inv slot by (simp add: mount_inv_def)
  moreover have "inj_on (\<lambda>i. strip_slashes (mnt_target (mount_pool ?t i))) {i. i < MAX_MOUNTS \<and> mounts ?t i \<noteq> None}"
  proof (rule inj_onI)
    fix i j assume ij: "i \<in> {i. i < MAX_MOUNTS \<and> mounts ?t i \<noteq> None}" "j \<in> {i. i < MAX_MOUNTS \<and> mounts ?t i \<noteq> None}"
      and e: "strip_slashes (mnt_target (mount_pool ?t i)) = strip_slashes (mnt_target (mount_pool ?t j))"
    consider "i = slot" "j = slot" | "i = slot" "j \<noteq> slot" | "i \<noteq> slot" "j = slot" | "i \<noteq> slot" "j \<noteq> slot" by blast
    then show "i = j"
    proof cases
      case 2 then show ?thesis using e ij no [of j] tt F(1,5) by simp
    next
      case 3 then show ?thesis using e ij no [of i] tt F(1,5) by simp
    next
      case 4 then show ?thesis using e ij mount_invD(5) [OF inv, of i j] F(1,5) by simp
    qed simp
  qed
  moreover have "(mounts ?t i = None \<or> mounts ?t i = Some i) \<and> (mount_slot_used ?t i \<longleftrightarrow> mounts ?t i \<noteq> None)" if "i < MAX_MOUNTS" for i
    using mount_invD(1,2) [OF inv that] F(1,3) by auto
  moreover have "mnt_root (mount_pool ?t i) \<noteq> NULL \<and> 0 \<notin> set (mnt_target (mount_pool ?t i))" if "i < MAX_MOUNTS" "mounts ?t i \<noteq> None" for i
    using that mount_invD(3,4) [OF inv that(1)] r tg(1) tt F(1,5) by (cases "i = slot") auto
  moreover have "case root_mount ?t of
        None \<Rightarrow> root_dentry ?t = NULL \<and> (\<forall>i < MAX_MOUNTS. mounts ?t i \<noteq> None \<longrightarrow> strip_slashes (mnt_target (mount_pool ?t i)) \<noteq> [SLASH])
      | Some k \<Rightarrow> k < MAX_MOUNTS \<and> mounts ?t k \<noteq> None \<and> root_dentry ?t = mnt_root (mount_pool ?t k)
                  \<and> strip_slashes (mnt_target (mount_pool ?t k)) = [SLASH]"
  proof (cases "strip_slashes target = [SLASH]")
    case True
    then show ?thesis using F slot root tt by simp
  next
    case False
    then show ?thesis using inv F root tt slot by (auto simp: mount_inv_def split: option.splits)
  qed
  ultimately show ?thesis unfolding mount_inv_def by blast
qed

lemma resolve_mounted:
  assumes inv: "mount_inv s" and k: "k < MAX_MOUNTS" "candidate path s k k"
    and mx: "\<And>j. \<lbrakk> j < MAX_MOUNTS; candidate path s j j \<rbrakk> \<Longrightarrow> tlen s j \<le> tlen s k"
  shows "resolves path s (mnt_root (mount_pool s k)) (tlen s k)"
proof -
  have "find_mount_for_path path s = (Some k, tlen s k)" using find_mount_Some [OF inv] k mx by blast
  then show ?thesis using k(2) by (simp add: resolves_def resolve_path_root_def candidate_def)
qed

text \<open>Mounting: the paths below the new target that no longer mount covers go to the new root, all others stay.\<close>

lemma add_mount_resolve:
  assumes inv: "mount_inv s" and slot: "slot < MAX_MOUNTS" "mounts s slot = None"
    and tg: "0 \<notin> set target" "length target \<le> 63" and r: "s_root (supers (om s) sb) \<noteq> NULL"
    and no: "\<And>i. \<lbrakk> i < MAX_MOUNTS; mounts s i \<noteq> None \<rbrakk> \<Longrightarrow> strip_slashes (mnt_target (mount_pool s i)) \<noteq> strip_slashes target"
    and t_def: "t = add_mount source target fstype sb slot s"
  shows "below target path \<Longrightarrow> (\<And>i. \<lbrakk> i < MAX_MOUNTS; candidate path s i i \<rbrakk> \<Longrightarrow> tlen s i \<le> length target)
      \<Longrightarrow> resolves path t (s_root (supers (om s) sb)) (length target)"
    and "\<not> below target path \<or> (\<exists>i < MAX_MOUNTS. candidate path s i i \<and> length target < tlen s i)
      \<Longrightarrow> strip_slashes target \<noteq> [SLASH] \<or> (\<exists>i < MAX_MOUNTS. candidate path s i i)
      \<Longrightarrow> resolve_path_root (Some path) t = resolve_path_root (Some path) s"
proof -
  note F = add_mount_fields [of source target fstype sb slot s, folded t_def]
  have invt: "mount_inv t" unfolding t_def by (rule add_mount_inv [OF inv slot tg r no])
  have tt: "take 63 target = target" using tg(2) by simp
  have new: "candidate path t slot slot \<longleftrightarrow> below target path" and tl: "tlen t slot = length target"
    using F(1,5) r tt by (simp_all add: candidate_def)
  have old: "candidate path t i i \<longleftrightarrow> candidate path s i i" "i < MAX_MOUNTS \<Longrightarrow> tlen t i = tlen s i" if "i \<noteq> slot" for i
    using F(1,5) that by (simp_all add: candidate_def)
  have ns: "\<not> candidate path s slot slot" using slot(2) by (simp add: candidate_def)
  show "resolves path t (s_root (supers (om s) sb)) (length target)"
    if "below target path" "\<And>i. \<lbrakk> i < MAX_MOUNTS; candidate path s i i \<rbrakk> \<Longrightarrow> tlen s i \<le> length target"
  proof -
    have "tlen t j \<le> tlen t slot" if "j < MAX_MOUNTS" "candidate path t j j" for j
      using that \<open>\<And>i. \<lbrakk> i < MAX_MOUNTS; candidate path s i i \<rbrakk> \<Longrightarrow> tlen s i \<le> length target\<close> [of j] old [of j] tl
      by (cases "j = slot") auto
    then have "resolves path t (mnt_root (mount_pool t slot)) (tlen t slot)"
      by (intro resolve_mounted [OF invt slot(1)]) (use new \<open>below target path\<close> in auto)
    then show ?thesis unfolding tl using F(5) by simp
  qed
  assume a: "\<not> below target path \<or> (\<exists>i < MAX_MOUNTS. candidate path s i i \<and> length target < tlen s i)"
    and b: "strip_slashes target \<noteq> [SLASH] \<or> (\<exists>i < MAX_MOUNTS. candidate path s i i)"
  show "resolve_path_root (Some path) t = resolve_path_root (Some path) s"
  proof (cases "\<exists>i < MAX_MOUNTS. candidate path s i i")
    case False
    then have nb: "\<not> below target path" and c: "strip_slashes target \<noteq> [SLASH]" using a b by blast+
    have "find_mount_for_path path s = (None, 0)" using find_mount_None [OF inv] False by blast
    moreover have "\<not> candidate path t i i" if "i < MAX_MOUNTS" for i
      using False new old(1) [of i] nb that by (cases "i = slot") auto
    then have "find_mount_for_path path t = (None, 0)" using find_mount_None [OF invt] by blast
    moreover have "root_dentry t = root_dentry s" using F(7) c path_compare_0 [OF tg(1), of "[SLASH]"] strip_short by simp
    ultimately show ?thesis by (simp add: resolve_path_root_def)
  next
    case True
    obtain k n where f: "find_mount_for_path path s = (Some k, n)" by (rule find_mount_ex [OF inv True])
    then have k: "k < MAX_MOUNTS" "candidate path s k k" "n = tlen s k" "\<forall>j < MAX_MOUNTS. candidate path s j j \<longrightarrow> tlen s j \<le> tlen s k"
      by (simp_all add: find_mount_Some [OF inv])
    have ks: "k \<noteq> slot" using k(2) ns by blast
    have "tlen t j \<le> tlen t k" if j: "j < MAX_MOUNTS" "candidate path t j j" for j
    proof (cases "j = slot")
      case True
      then obtain i where "i < MAX_MOUNTS" "candidate path s i i" "length target < tlen s i" using j(2) new a by blast
      then have "length target < tlen s k" using k(4) by fastforce
      then show ?thesis using True tl old(2) [OF ks k(1)] by simp
    next
      case False
      then show ?thesis using j k(4) old [OF False] old(2) [OF ks k(1)] by simp
    qed
    then have "find_mount_for_path path t = (Some k, n)"
      using find_mount_Some [OF invt] k old [OF ks] by simp
    moreover have "mount_pool t k = mount_pool s k" using F(5) ks by simp
    ultimately show ?thesis using f k(2) by (simp add: resolve_path_root_def candidate_def)
  qed
qed

lemma umount_added:
  assumes inv: "mount_inv s" and slot: "slot < MAX_MOUNTS" "mounts s slot = None"
    and tg: "0 \<notin> set target" "length target \<le> 63" and r: "s_root (supers (om s) sb) \<noteq> NULL"
    and no: "\<And>i. \<lbrakk> i < MAX_MOUNTS; mounts s i \<noteq> None \<rbrakk> \<Longrightarrow> strip_slashes (mnt_target (mount_pool s i)) \<noteq> strip_slashes target"
    and t_def: "t = add_mount source target fstype sb slot s"
  obtains u where "vfs_umount target t = (0, u)" "mounts u = mounts s" "mount_slot_used u = mount_slot_used s" "mount_count u = mount_count s"
    "root_mount u = root_mount s" "root_dentry u = root_dentry s" "\<forall>k. k \<noteq> slot \<longrightarrow> mount_pool u k = mount_pool s k" "om u = om s"
proof -
  note F = add_mount_fields [of source target fstype sb slot s, folded t_def]
  have tt: "take 63 target = target" using tg(2) by simp
  have root: "path_compare (Some target) (Some [SLASH]) = 0 \<longleftrightarrow> strip_slashes target = [SLASH]"
    using path_compare_0 [OF tg(1), of "[SLASH]"] strip_short by simp
  define P where "P = (\<lambda>i. case mounts t i of None \<Rightarrow> False
    | Some k \<Rightarrow> mnt_root (mount_pool t k) \<noteq> NULL \<and> path_compare (Some (mnt_target (mount_pool t k))) (Some target) = 0)"
  have "P slot" using F(1,5) r tt path_compare_0 [OF tg(1) tg(1)] by (simp add: P_def)
  moreover have "\<not> P i" if i: "i < MAX_MOUNTS" "i \<noteq> slot" for i
    using F(1,5) i mount_invD(1,4) [OF inv i(1)] no [OF i(1)] path_compare_0 [OF _ tg(1)] by (auto simp: P_def)
  ultimately have f: "find P [0..<MAX_MOUNTS] = Some slot" using slot(1) by (simp add: find_upt_Some)
  have rm: "root_mount s \<noteq> Some slot" "strip_slashes target = [SLASH] \<Longrightarrow> root_mount s = None \<and> root_dentry s = NULL"
    using inv slot(2) no by (auto simp: mount_inv_def split: option.splits)
  have cnt: "mount_count s \<ge> 0" using inv by (simp add: mount_inv_def)
  have used: "\<not> mount_slot_used s slot" using mount_invD(2) [OF inv slot(1)] slot(2) by simp
  have "\<exists>u. vfs_umount target t = (0, u) \<and> mounts u = mounts s \<and> mount_slot_used u = mount_slot_used s \<and> mount_count u = mount_count s
    \<and> root_mount u = root_mount s \<and> root_dentry u = root_dentry s \<and> (\<forall>k. k \<noteq> slot \<longrightarrow> mount_pool u k = mount_pool s k) \<and> om u = om s"
    unfolding vfs_umount_def P_def [symmetric] f
    using F slot rm cnt used root by (auto simp: Let_def fun_upd_idem)
  then show thesis using that by blast
qed

lemma free_slot:
  assumes inv: "mount_inv s" and "mount_count s < int MAX_MOUNTS"
  obtains slot where "find (\<lambda>i. \<not> mount_slot_used s i) [0..<MAX_MOUNTS] = Some slot" "slot < MAX_MOUNTS" "mounts s slot = None"
proof -
  have "card {i. i < MAX_MOUNTS \<and> mounts s i \<noteq> None} < MAX_MOUNTS" using assms by (simp add: mount_inv_def)
  then have ne: "{i. i < MAX_MOUNTS \<and> mounts s i \<noteq> None} \<noteq> {..<MAX_MOUNTS}" by (metis card_lessThan nat_less_le)
  have "{i. i < MAX_MOUNTS \<and> mounts s i \<noteq> None} \<subseteq> {..<MAX_MOUNTS}" by (rule subsetI) simp
  then obtain i where i: "i < MAX_MOUNTS" "mounts s i = None" using ne by fast
  then have "\<not> mount_slot_used s i" using mount_invD(2) [OF inv i(1)] by simp
  then have "find (\<lambda>i. \<not> mount_slot_used s i) [0..<MAX_MOUNTS] \<noteq> None" using i(1) unfolding find_upt_None by blast
  then obtain slot where f: "find (\<lambda>i. \<not> mount_slot_used s i) [0..<MAX_MOUNTS] = Some slot" by blast
  then have "slot < MAX_MOUNTS" "\<not> mount_slot_used s slot" unfolding find_upt_Some by blast+
  then show thesis using that f mount_invD(2) [OF inv] by blast
qed

lemma mount_inv_cong:
  assumes "mount_inv s" "mounts u = mounts s" "mount_slot_used u = mount_slot_used s" "mount_count u = mount_count s"
    "root_mount u = root_mount s" "root_dentry u = root_dentry s" "\<And>k. mounts s k \<noteq> None \<Longrightarrow> mount_pool u k = mount_pool s k"
  shows "mount_inv u"
proof -
  have "inj_on (\<lambda>i. strip_slashes (mnt_target (mount_pool u i))) {i. i < MAX_MOUNTS \<and> mounts s i \<noteq> None}
      \<longleftrightarrow> inj_on (\<lambda>i. strip_slashes (mnt_target (mount_pool s i))) {i. i < MAX_MOUNTS \<and> mounts s i \<noteq> None}"
    by (rule inj_on_cong) (simp add: assms(7))
  then show ?thesis using assms(1,7) unfolding mount_inv_def assms(2-6) by (auto split: option.splits)
qed

lemma vfs_mount_spec:
  assumes inv: "mount_inv s" and fs: "find_filesystem fstype s = Some fs" "fs_mount fs = Some mount" "mount source (om s) = Some (sb, m)"
    and sb: "sb \<noteq> NULL" "s_root (supers m sb) \<noteq> NULL" and tg: "0 \<notin> set target" "length target \<le> 63"
    and ex: "find_mount_by_target (Some target) s = None" and room: "mount_count s < int MAX_MOUNTS"
  obtains s' slot where "vfs_mount di source target fstype s = Some (0, add_mount source target fstype sb slot s')" "mount_inv s'"
    "slot < MAX_MOUNTS" "mounts s' slot = None" "mounts s' = mounts s" "mount_pool s' = mount_pool s" "root_dentry s' = root_dentry s"
    "s_root (supers (om s') sb) = s_root (supers m sb)"
proof -
  define s' where "s' = (if s_disk_index (supers m sb) < 0
      then s\<lparr>om := m\<lparr>supers := (supers m)(sb := (supers m sb)\<lparr>s_disk_index := resolve_disk_index di source\<rparr>)\<rparr>\<rparr> else s\<lparr>om := m\<rparr>)"
  have e: "mounts s' = mounts s" "mount_pool s' = mount_pool s" "mount_slot_used s' = mount_slot_used s" "mount_count s' = mount_count s"
    "root_mount s' = root_mount s" "root_dentry s' = root_dentry s" "s_root (supers (om s') sb) = s_root (supers m sb)"
    by (simp_all add: s'_def)
  have inv': "mount_inv s'" by (rule mount_inv_cong [OF inv]) (simp_all add: e)
  obtain slot where sl: "find (\<lambda>i. \<not> mount_slot_used s' i) [0..<MAX_MOUNTS] = Some slot" "slot < MAX_MOUNTS" "mounts s' slot = None"
    by (rule free_slot [OF inv']) (use room e in simp_all)
  have "vfs_mount di source target fstype s = Some (0, add_mount source target fstype sb slot s')"
    using fs sb(1) ex room sl(1) [unfolded e] by (simp add: vfs_mount_def s'_def Let_def)
  then show thesis using that inv' sl e by blast
qed

section \<open>Properties\<close>

text \<open>A system as the kernel sets it up: the RAM file system registered, nothing mounted yet.\<close>

definition vfs_boot :: vfs where
  "vfs_boot = snd (ramfs_init \<lparr>om = \<lparr>kern = \<lparr>fheap = kmalloc_init kheap_boot, root = 0, next_ino = 0, inode_count = 0,
        inodes = (\<lambda>_. demo_inode 0 0 0 []), vinodes = (\<lambda>_. \<lparr>i_ino = 0, i_mode = 0, i_size = 0, i_dir_ops = False, i_private = 0\<rparr>)\<rparr>,
      dentries = (\<lambda>_. zero_dentry), supers = (\<lambda>_. \<lparr>s_disk_index = 0, s_root = 0\<rparr>), st_sb = 16, st_inode = 24, st_dentry = 32\<rparr>,
     files = (\<lambda>_. zero_file), file_systems = [], mounts = (\<lambda>_. None),
     mount_pool = (\<lambda>_. \<lparr>mnt_root = 0, mnt_sb = 0, mnt_mountpoint = 0, mnt_parent = None, mnt_devname = [], mnt_target = [], mnt_fstype = []\<rparr>),
     mount_slot_used = (\<lambda>_. False), mount_count = 0, root_mount = None, root_dentry = 0\<rparr>)"

lemma vfs_boot_mount_inv: "mount_inv vfs_boot"
  by (simp add: mount_inv_def vfs_boot_def ramfs_init_def register_filesystem_def ramfs_fs_type_def find_filesystem_def)

lemma vfs_boot_fs: "find_filesystem [114, 97, 109, 102, 115] vfs_boot = Some ramfs_fs_type"
  by (simp add: vfs_boot_def ramfs_init_def register_filesystem_def ramfs_fs_type_def find_filesystem_def)

lemma vfs_boot_ramfs_mount:
  obtains m where "ramfs_mount_sb source (om vfs_boot) = Some (16, m)" "s_root (supers m 16) = 32"
proof -
  have h: "fheap (kern (om vfs_boot)) = kmalloc_init kheap_boot" and st: "st_sb (om vfs_boot) = 16" "st_dentry (om vfs_boot) = 32"
    by (simp_all add: vfs_boot_def ramfs_init_def register_filesystem_def ramfs_fs_type_def find_filesystem_def)
  have "can_alloc INODE_SIZE (kmalloc_init kheap_boot)" by (rule boot_can_alloc) (simp_all add: INODE_SIZE_def MAX_ALLOC_def)
  then obtain p h' where k: "kzalloc INODE_SIZE GFP_KERNEL (kmalloc_init kheap_boot) = Some (p, h')" "p \<noteq> NULL"
    using kmalloc_cases [OF boot_heap(1), of INODE_SIZE "GFP_KERNEL OR GFP_ZERO"] unfolding kzalloc_def by blast
  then have "\<exists>k'. ramfs_mount (st_inode (om vfs_boot)) (kern (om vfs_boot)) = Some (True, k')"
    by (simp add: ramfs_mount_def ramfs_alloc_inode_def h Let_def)
  then show thesis using that st by (auto simp: ramfs_mount_sb_def)
qed

text \<open>C21. Mounting and unmounting with a target of at most 63 characters that is not yet in use, on a consistent mount
  table with room, when the file system's mount function delivers a super block with a root: the mount
  succeeds, and every path below the target that no longer target covers now starts at the new root with the rest of the path
  behind the target; every other path resolves as before (for a root mount: every path some other mount covers). Unmounting the
  target again succeeds and gives back the resolution of every path; both keep the table consistent.\<close>

theorem vfs_mount_umount:
  assumes inv: "mount_inv s" and fs: "find_filesystem fstype s = Some fs" "fs_mount fs = Some mount" "mount source (om s) = Some (sb, m)"
    and sb: "sb \<noteq> NULL" "s_root (supers m sb) \<noteq> NULL" and tg: "0 \<notin> set target" "length target \<le> 63"
    and ex: "find_mount_by_target (Some target) s = None" and room: "mount_count s < int MAX_MOUNTS"
  shows "\<exists>t u. vfs_mount di source target fstype s = Some (0, t) \<and> mount_inv t
    \<and> (\<forall>path. below target path \<longrightarrow> (\<forall>i < MAX_MOUNTS. candidate path s i i \<longrightarrow> tlen s i \<le> length target)
          \<longrightarrow> resolves path t (s_root (supers m sb)) (length target))
    \<and> (\<forall>path. \<not> below target path \<or> (\<exists>i < MAX_MOUNTS. candidate path s i i \<and> length target < tlen s i)
          \<longrightarrow> strip_slashes target \<noteq> [SLASH] \<or> (\<exists>i < MAX_MOUNTS. candidate path s i i)
          \<longrightarrow> resolve_path_root (Some path) t = resolve_path_root (Some path) s)
    \<and> vfs_umount target t = (0, u) \<and> mount_inv u \<and> (\<forall>path. resolve_path_root path u = resolve_path_root path s)"
proof -
  obtain s' slot where v: "vfs_mount di source target fstype s = Some (0, add_mount source target fstype sb slot s')" "mount_inv s'"
    "slot < MAX_MOUNTS" "mounts s' slot = None" "mounts s' = mounts s" "mount_pool s' = mount_pool s" "root_dentry s' = root_dentry s"
    "s_root (supers (om s') sb) = s_root (supers m sb)"
    by (rule vfs_mount_spec [OF assms])
  define t where "t = add_mount source target fstype sb slot s'"
  have no: "strip_slashes (mnt_target (mount_pool s' i)) \<noteq> strip_slashes target" if "i < MAX_MOUNTS" "mounts s' i \<noteq> None" for i
    using ex find_target_None [OF inv tg(1)] that v(5,6) by simp
  have r: "s_root (supers (om s') sb) \<noteq> NULL" using sb(2) v(8) by simp
  have c: "candidate path s' i i \<longleftrightarrow> candidate path s i i" "tlen s' i = tlen s i" for path i using v(5,6) by (simp_all add: candidate_def)
  have res: "resolve_path_root path s' = resolve_path_root path s" for path by (rule resolve_cong [OF inv]) (simp_all add: v)
  note R = add_mount_resolve [OF v(2,3,4) tg r no t_def, unfolded c res v(8)]
  obtain u where u: "vfs_umount target t = (0, u)" "mounts u = mounts s'" "mount_slot_used u = mount_slot_used s'" "mount_count u = mount_count s'"
    "root_mount u = root_mount s'" "root_dentry u = root_dentry s'" "\<forall>k. k \<noteq> slot \<longrightarrow> mount_pool u k = mount_pool s' k" "om u = om s'"
    by (rule umount_added [OF v(2,3,4) tg r no t_def])
  have pool: "mount_pool u k = mount_pool s' k" if "mounts s' k \<noteq> None" for k using u(7) that v(4) by (cases "k = slot") auto
  have "mount_inv u" by (rule mount_inv_cong [OF v(2) u(2-6)]) (rule pool)
  moreover have "resolve_path_root path u = resolve_path_root path s" for path
  proof -
    have "mount_pool u k = mount_pool s' k" if "i < MAX_MOUNTS" "mounts s' i = Some k" for i k
      using pool [of k] mount_invD(1) [OF v(2) that(1)] that(2) by auto
    then show ?thesis using resolve_cong [OF v(2), of u path] u(2,6) res by simp
  qed
  moreover have "mount_inv t" unfolding t_def by (rule add_mount_inv [OF v(2,3,4) tg r no])
  ultimately show ?thesis using v(1) u(1) R unfolding t_def [symmetric] by (intro exI conjI) (assumption | blast)+
qed

theorem vfs_mount_umount_witness:
  "\<exists>t u. vfs_mount (\<lambda>_. 0) [114, 97, 109, 102, 115] [SLASH] [114, 97, 109, 102, 115] vfs_boot = Some (0, t) \<and> mount_inv t
     \<and> resolves [SLASH, 97] t 32 1 \<and> vfs_umount [SLASH] t = (0, u) \<and> mount_inv u"
proof -
  obtain m where m: "ramfs_mount_sb [114, 97, 109, 102, 115] (om vfs_boot) = Some (16, m)" "s_root (supers m 16) = 32"
    by (rule vfs_boot_ramfs_mount)
  have none: "mounts vfs_boot i = None" "mount_count vfs_boot = 0" for i
    by (simp_all add: vfs_boot_def ramfs_init_def register_filesystem_def ramfs_fs_type_def find_filesystem_def)
  have "find_mount_by_target (Some [SLASH]) vfs_boot = None"
    using find_target_None [OF vfs_boot_mount_inv, of "[SLASH]"] none by simp
  moreover have "fs_mount ramfs_fs_type = Some ramfs_mount_sb" by (simp add: ramfs_fs_type_def)
  moreover have "below [SLASH] [SLASH, 97]" by (simp add: below_def)
  moreover have "\<not> candidate path vfs_boot i i" for path i using none by (simp add: candidate_def)
  ultimately show ?thesis
    using vfs_mount_umount [where mount = ramfs_mount_sb and target = "[SLASH]" and di = "\<lambda>_. 0", OF vfs_boot_mount_inv vfs_boot_fs _ m(1)] m(2) none
    by (simp add: MAX_MOUNTS_def) blast
qed

end
