(* ===== verification/Vfs_Walk.thy ===== *)
theory Vfs_Walk
  imports Vfs
begin

text \<open>
  Path walks of the virtual file system (\<^verbatim>\<open>kernel/fs/vfs.c\<close>) on a mounted RAM file system. The temporary dentries and
  VFS inodes that a walk allocates live on the same heap as the file system, so the first part shows that such
  objects never disturb it; the second part is the invariant of the VFS layer and the specification of
  \<^verbatim>\<open>vfs_lookup_parent\<close>.
\<close>

section \<open>Extending the heap\<close>

text \<open>An address whose objects the heap does not give away: a live block, or one outside the heap.\<close>

definition keep :: "vfs \<Rightarrow> ptr \<Rightarrow> bool" where
  "keep s p \<longleftrightarrow> live (hp s) p \<noteq> None \<or> p < heap_start (hp s) \<or> heap_end (hp s) \<le> p"

text \<open>\<open>t\<close> has everything that \<open>s\<close> has, and at most \<open>n\<close> further heap blocks.\<close>

definition vext :: "nat \<Rightarrow> vfs \<Rightarrow> vfs \<Rightarrow> bool" where
  "vext n s t \<longleftrightarrow> heap_inv (hp t) \<and> live (hp s) \<subseteq>\<^sub>m live (hp t)
     \<and> finite (dom (live (hp t)) - dom (live (hp s))) \<and> card (dom (live (hp t)) - dom (live (hp s))) \<le> n
     \<and> heap_start (hp t) = heap_start (hp s) \<and> heap_end (hp t) = heap_end (hp s)
     \<and> (\<forall>q k a. live (hp s) q = Some k \<longrightarrow> q \<le> a \<longrightarrow> a < q + k \<longrightarrow> mem (hp t) a = mem (hp s) a)
     \<and> (\<forall>p. keep s p \<longrightarrow> inodes (krn t) p = inodes (krn s) p \<and> vinodes (krn t) p = vinodes (krn s) p
            \<and> den t p = den s p \<and> files t p = files s p)
     \<and> mounts t = mounts s \<and> mount_pool t = mount_pool s \<and> root_dentry t = root_dentry s"

lemma vextD:
  assumes "vext n s t"
  shows "heap_inv (hp t)" "live (hp s) \<subseteq>\<^sub>m live (hp t)" "live (hp s) q = Some k \<Longrightarrow> live (hp t) q = Some k"
    "heap_start (hp t) = heap_start (hp s)" "heap_end (hp t) = heap_end (hp s)"
    "\<lbrakk> live (hp s) q = Some k; q \<le> a; a < q + k \<rbrakk> \<Longrightarrow> mem (hp t) a = mem (hp s) a"
    "keep s p \<Longrightarrow> inodes (krn t) p = inodes (krn s) p" "keep s p \<Longrightarrow> vinodes (krn t) p = vinodes (krn s) p"
    "keep s p \<Longrightarrow> den t p = den s p" "keep s p \<Longrightarrow> files t p = files s p"
    "mounts t = mounts s" "mount_pool t = mount_pool s" "root_dentry t = root_dentry s"
  using assms unfolding vext_def by (auto simp: map_le_def dom_def)

lemma vext_refl: "heap_inv (hp s) \<Longrightarrow> vext 0 s s"
  by (simp add: vext_def)

lemma vext_mono: "vext m s t \<Longrightarrow> m \<le> n \<Longrightarrow> vext n s t"
  by (auto simp: vext_def)

lemma keep_vext: "vext n s t \<Longrightarrow> keep s p \<Longrightarrow> keep t p"
  using vextD(3,4,5) [of n s t] by (auto simp: keep_def)

lemma vext_trans:
  assumes a: "vext m s t" and b: "vext n t u"
  shows "vext (m + n) s u"
proof -
  have sub: "dom (live (hp u)) - dom (live (hp s)) \<subseteq> (dom (live (hp t)) - dom (live (hp s))) \<union> (dom (live (hp u)) - dom (live (hp t)))"
    by blast
  have fin: "finite (dom (live (hp t)) - dom (live (hp s)))" "finite (dom (live (hp u)) - dom (live (hp t)))"
    using a b by (auto simp: vext_def)
  have "card (dom (live (hp u)) - dom (live (hp s))) \<le> card ((dom (live (hp t)) - dom (live (hp s))) \<union> (dom (live (hp u)) - dom (live (hp t))))"
    using sub fin by (intro card_mono) auto
  also have "\<dots> \<le> card (dom (live (hp t)) - dom (live (hp s))) + card (dom (live (hp u)) - dom (live (hp t)))" by (rule card_Un_le)
  also have "\<dots> \<le> m + n" using a b unfolding vext_def by (meson add_mono)
  finally have c: "card (dom (live (hp u)) - dom (live (hp s))) \<le> m + n" .
  have "finite (dom (live (hp u)) - dom (live (hp s)))" using sub fin by (meson finite_UnI finite_subset)
  moreover have "live (hp s) \<subseteq>\<^sub>m live (hp u)" using vextD(2) [OF a] vextD(2) [OF b] by (rule map_le_trans)
  moreover have "mem (hp u) x = mem (hp s) x" if "live (hp s) q = Some k" "q \<le> x" "x < q + k" for q k x
    using vextD(6) [OF a that] vextD(6) [OF b vextD(3) [OF a that(1)] that(2,3)] by simp
  ultimately show ?thesis
    using c vextD [OF a] vextD [OF b] keep_vext [OF a] unfolding vext_def by auto
qed

text \<open>The file system part of an extension is the same file system.\<close>

lemma fs_wf_keep: "fs_wf (krn s) N K \<Longrightarrow> p \<in> N \<Longrightarrow> keep s p"
  using fs_okD(2) by (fastforce simp: keep_def)

lemma vext_fs:
  assumes e: "vext n s t" and ok: "fs_wf (krn s) N K"
  shows "fs_wf (krn t) N K" and "d \<in> N \<Longrightarrow> dir_map (krn t) K d = dir_map (krn s) K d"
    and "p \<in> N \<Longrightarrow> contents (krn t) p = contents (krn s) p" and "p \<in> N \<Longrightarrow> inodes (krn t) p = inodes (krn s) p"
proof -
  show i: "inodes (krn t) p = inodes (krn s) p" if "p \<in> N" for p using vextD(7) [OF e] fs_wf_keep [OF ok that] by blast
  show "fs_wf (krn t) N K"
  proof (rule fs_ok_cong [OF ok vextD(1) [OF e] i])
    fix p assume p: "p \<in> N"
    obtain k where "live (hp s) p = Some k" using fs_okD(2) [OF ok p] by blast
    then show "live (hp t) p = live (hp s) p" using vextD(3) [OF e] by simp
    assume "idata (inodes (krn s) p) \<noteq> NULL"
    then obtain k where "live (hp s) (idata (inodes (krn s) p)) = Some k" using fs_okD(3) [OF ok p] by (auto simp: buf_ok_def)
    then show "live (hp t) (idata (inodes (krn s) p)) = live (hp s) (idata (inodes (krn s) p))" using vextD(3) [OF e] by simp
  qed simp
  show "dir_map (krn t) K d = dir_map (krn s) K d" if "d \<in> N"
  proof -
    have "nm (krn t) c = nm (krn s) c" if "c \<in> set (K d)" for c using dir_okD(2) [OF fs_okD(4) [OF ok \<open>d \<in> N\<close>]] that i by auto
    then show ?thesis unfolding dir_map_def by (intro arg_cong [where f = map_of] map_cong) auto
  qed
  show "contents (krn t) p = contents (krn s) p" if "p \<in> N"
    by (rule contents_frame [OF ok that]) (use i that vextD(6) [OF e] in auto)
qed

text \<open>Allocating an object.\<close>

lemma kzalloc_obj:
  assumes inv: "heap_inv h" and sz: "sz \<noteq> 0"
  obtains (new) p h' n where "kzalloc sz GFP_KERNEL h = Some (p, h')" "p \<noteq> NULL" "heap_inv h'" "live h p = None" "live h' = (live h)(p \<mapsto> n)"
      "heap_start h' = heap_start h" "heap_end h' = heap_end h" "heap_start h \<le> p" "p < heap_end h"
      "\<forall>q k a. live h q = Some k \<longrightarrow> q \<le> a \<longrightarrow> a < q + k \<longrightarrow> mem h' a = mem h a"
  | (nomem) "\<not> can_alloc sz h" "kzalloc sz GFP_KERNEL h = Some (NULL, h)"
proof -
  from kmalloc_cases [OF inv, of sz "GFP_KERNEL OR GFP_ZERO"]
  consider p h' n where "kzalloc sz GFP_KERNEL h = Some (p, h')" "p \<noteq> NULL" "heap_inv h'" "unat sz \<le> n" "live h p = None"
      "live h' = (live h)(p \<mapsto> n)" "heap_start h' = heap_start h" "heap_end h' = heap_end h"
    | "\<not> can_alloc sz h" "kzalloc sz GFP_KERNEL h = Some (NULL, h)"
    unfolding kzalloc_def by blast
  then show thesis
  proof cases
    case 1
    obtain fs where wf: "heap_wf h' (blocks h') fs" using 1(3) by (auto simp: heap_inv_def)
    have "live h' p = Some n" using 1(6) by simp
    note b = live_ofD(6,7) [OF wf this]
    have "unat sz \<noteq> 0" using sz by (simp add: unat_eq_0)
    then have n: "n > 0" using 1(4) by linarith
    have "heap_start h \<le> p" "p < heap_end h" using b 1(7,8) n by linarith+
    moreover have "\<forall>q k a. live h q = Some k \<longrightarrow> q \<le> a \<longrightarrow> a < q + k \<longrightarrow> mem h' a = mem h a"
      using kzalloc_frame [OF inv 1(1)] by blast
    ultimately show thesis using new 1 by blast
  qed (rule nomem)
qed

lemma vext_fresh:
  assumes inv: "heap_inv (hp t)" and fresh: "live (hp s) p = None" "live (hp t) = (live (hp s))(p \<mapsto> n)"
    and b: "heap_start (hp t) = heap_start (hp s)" "heap_end (hp t) = heap_end (hp s)" "heap_start (hp s) \<le> p" "p < heap_end (hp s)"
    and m: "\<forall>q k a. live (hp s) q = Some k \<longrightarrow> q \<le> a \<longrightarrow> a < q + k \<longrightarrow> mem (hp t) a = mem (hp s) a"
    and same: "\<And>q. q \<noteq> p \<Longrightarrow> inodes (krn t) q = inodes (krn s) q \<and> vinodes (krn t) q = vinodes (krn s) q \<and> den t q = den s q \<and> files t q = files s q"
    and rest: "mounts t = mounts s" "mount_pool t = mount_pool s" "root_dentry t = root_dentry s"
  shows "vext 1 s t" and "\<not> keep s p" and "keep t p"
proof -
  show nk: "\<not> keep s p" "keep t p" using fresh b by (simp_all add: keep_def)
  have "dom (live (hp t)) - dom (live (hp s)) = {p}" using fresh by auto
  moreover have "live (hp s) \<subseteq>\<^sub>m live (hp t)" using fresh by (auto simp: map_le_def)
  moreover have "q \<noteq> p" if "keep s q" for q using that nk(1) by blast
  ultimately show "vext 1 s t" using inv b(1,2) m same rest unfolding vext_def by auto
qed

text \<open>Changing an object that only the extension has, and releasing it.\<close>

lemma vext_upd:
  assumes e: "vext n s t" and p: "\<not> keep s p"
    and same: "\<And>q. q \<noteq> p \<Longrightarrow> inodes (krn u) q = inodes (krn t) q \<and> vinodes (krn u) q = vinodes (krn t) q \<and> den u q = den t q \<and> files u q = files t q"
    and rest: "hp u = hp t" "mounts u = mounts t" "mount_pool u = mount_pool t" "root_dentry u = root_dentry t"
  shows "vext n s u"
  using e p same unfolding vext_def rest by metis

lemma vext_upd_den: "vext n s t \<Longrightarrow> \<not> keep s p \<Longrightarrow> vext n s (upd_den p f t)"
  by (rule vext_upd [of n s t p]) (simp_all add: upd_den_def)

lemma vext_upd_file: "vext n s t \<Longrightarrow> \<not> keep s p \<Longrightarrow> vext n s (upd_file p f t)"
  by (rule vext_upd [of n s t p]) (simp_all add: upd_file_def)

lemma kfree_bounds [simp]: "heap_start (kfree p h) = heap_start h" "heap_end (kfree p h) = heap_end h"
  by (simp_all add: kfree_def kfree_block_locked_def Let_def)

lemma free_obj_simps [simp]:
  "hp (free_obj p s) = kfree p (hp s)" "inodes (krn (free_obj p s)) = inodes (krn s)" "vinodes (krn (free_obj p s)) = vinodes (krn s)"
  "den (free_obj p s) = den s" "files (free_obj p s) = files s" "mounts (free_obj p s) = mounts s" "mount_pool (free_obj p s) = mount_pool s"
  "root_dentry (free_obj p s) = root_dentry s"
  by (simp_all add: free_obj_def set_heap_def set_kern_def)

lemma vext_free:
  assumes e: "vext n s t" and p: "live (hp s) p = None" "live (hp t) p \<noteq> None"
  shows "vext n s (free_obj p t)"
proof -
  note i = vextD(1) [OF e]
  have l: "live (hp (free_obj p t)) = (live (hp t))(p := None)" using kh.release_lv [OF i p(2)] by simp
  have "dom (live (hp (free_obj p t))) - dom (live (hp s)) \<subseteq> dom (live (hp t)) - dom (live (hp s))" unfolding l by auto
  moreover have "finite (dom (live (hp t)) - dom (live (hp s)))" "card (dom (live (hp t)) - dom (live (hp s))) \<le> n" using e by (auto simp: vext_def)
  ultimately have "finite (dom (live (hp (free_obj p t))) - dom (live (hp s)))" "card (dom (live (hp (free_obj p t))) - dom (live (hp s))) \<le> n"
    using finite_subset card_mono order_trans by metis+
  moreover have "live (hp s) \<subseteq>\<^sub>m live (hp (free_obj p t))" using vextD(2) [OF e] p(1) unfolding l by (auto simp: map_le_def dom_def)
  moreover have "heap_inv (hp (free_obj p t))" using kh.release_inv [OF i p(2)] by simp
  ultimately show ?thesis using e unfolding vext_def by (simp add: kfree_mem)
qed

lemma sizes_nonzero: "DENTRY_SIZE \<noteq> 0" "FILE_SIZE \<noteq> 0" "VINODE_SIZE \<noteq> 0" "INODE_SIZE \<noteq> 0"
  by (simp_all add: DENTRY_SIZE_def FILE_SIZE_def VINODE_SIZE_def INODE_SIZE_def)

lemma set_heap_same [simp]: "set_heap (hp s) s = s"
  by (simp add: set_heap_def set_kern_def)

lemma alloc_dentry_cases:
  assumes inv: "heap_inv (hp s)"
  obtains (nomem) "\<not> can_alloc DENTRY_SIZE (hp s)" "alloc_dentry s = Some (NULL, s)"
  | (new) p t where "alloc_dentry s = Some (p, t)" "p \<noteq> NULL" "vext 1 s t" "\<not> keep s p" "keep t p" "den t p = zero_dentry"
      "live (hp t) p \<noteq> None" "live (hp s) p = None"
proof (rule kzalloc_obj [OF inv sizes_nonzero(1)])
  assume "\<not> can_alloc DENTRY_SIZE (hp s)" "kzalloc DENTRY_SIZE GFP_KERNEL (hp s) = Some (NULL, hp s)"
  then show thesis using nomem by (simp add: alloc_dentry_def)
next
  fix p h n assume k: "kzalloc DENTRY_SIZE GFP_KERNEL (hp s) = Some (p, h)" "p \<noteq> NULL" "heap_inv h" "live (hp s) p = None"
    "live h = (live (hp s))(p \<mapsto> n)" "heap_start h = heap_start (hp s)" "heap_end h = heap_end (hp s)" "heap_start (hp s) \<le> p" "p < heap_end (hp s)"
    "\<forall>q k a. live (hp s) q = Some k \<longrightarrow> q \<le> a \<longrightarrow> a < q + k \<longrightarrow> mem h a = mem (hp s) a"
  define t where "t = upd_den p (\<lambda>_. zero_dentry) (set_heap h s)"
  have h: "hp t = h" by (simp add: t_def upd_den_def set_heap_def set_kern_def)
  have "inodes (krn t) q = inodes (krn s) q \<and> vinodes (krn t) q = vinodes (krn s) q \<and> den t q = den s q \<and> files t q = files s q" if "q \<noteq> p" for q
    using that by (simp add: t_def upd_den_def set_heap_def set_kern_def)
  moreover have "mounts t = mounts s" "mount_pool t = mount_pool s" "root_dentry t = root_dentry s"
    by (simp_all add: t_def upd_den_def set_heap_def set_kern_def)
  ultimately have "vext 1 s t" "\<not> keep s p" "keep t p" using vext_fresh [of t s p n, unfolded h, OF k(3-10)] by blast+
  moreover have "den t p = zero_dentry" by (simp add: t_def upd_den_def)
  moreover have "alloc_dentry s = Some (p, t)" using k(1,2) by (simp add: alloc_dentry_def t_def)
  ultimately show thesis using new k(2,4,5) h by simp
qed

lemma alloc_file_cases:
  assumes inv: "heap_inv (hp s)"
  obtains (nomem) "\<not> can_alloc FILE_SIZE (hp s)" "alloc_file s = Some (NULL, s)"
  | (new) p t where "alloc_file s = Some (p, t)" "p \<noteq> NULL" "vext 1 s t" "\<not> keep s p" "keep t p" "files t p = zero_file"
      "live (hp t) p \<noteq> None" "live (hp s) p = None"
proof (rule kzalloc_obj [OF inv sizes_nonzero(2)])
  assume "\<not> can_alloc FILE_SIZE (hp s)" "kzalloc FILE_SIZE GFP_KERNEL (hp s) = Some (NULL, hp s)"
  then show thesis using nomem by (simp add: alloc_file_def)
next
  fix p h n assume k: "kzalloc FILE_SIZE GFP_KERNEL (hp s) = Some (p, h)" "p \<noteq> NULL" "heap_inv h" "live (hp s) p = None"
    "live h = (live (hp s))(p \<mapsto> n)" "heap_start h = heap_start (hp s)" "heap_end h = heap_end (hp s)" "heap_start (hp s) \<le> p" "p < heap_end (hp s)"
    "\<forall>q k a. live (hp s) q = Some k \<longrightarrow> q \<le> a \<longrightarrow> a < q + k \<longrightarrow> mem h a = mem (hp s) a"
  define t where "t = upd_file p (\<lambda>_. zero_file) (set_heap h s)"
  have h: "hp t = h" by (simp add: t_def upd_file_def set_heap_def set_kern_def)
  have "inodes (krn t) q = inodes (krn s) q \<and> vinodes (krn t) q = vinodes (krn s) q \<and> den t q = den s q \<and> files t q = files s q" if "q \<noteq> p" for q
    using that by (simp add: t_def upd_file_def set_heap_def set_kern_def)
  moreover have "mounts t = mounts s" "mount_pool t = mount_pool s" "root_dentry t = root_dentry s"
    by (simp_all add: t_def upd_file_def set_heap_def set_kern_def)
  ultimately have "vext 1 s t" "\<not> keep s p" "keep t p" using vext_fresh [of t s p n, unfolded h, OF k(3-10)] by blast+
  moreover have "files t p = zero_file" by (simp add: t_def upd_file_def)
  moreover have "alloc_file s = Some (p, t)" using k(1,2) by (simp add: alloc_file_def t_def)
  ultimately show thesis using new k(2,4,5) h by simp
qed

section \<open>Dentries\<close>

text \<open>Dentry \<open>d\<close> stands for the ramfs inode \<open>x\<close>.\<close>

definition dref :: "vfs \<Rightarrow> ptr \<Rightarrow> ptr \<Rightarrow> bool" where
  "dref s d x \<longleftrightarrow> d \<noteq> NULL \<and> keep s d \<and> d_inode (den s d) \<noteq> NULL \<and> keep s (d_inode (den s d))
     \<and> i_private (vinodes (krn s) (d_inode (den s d))) = x"

lemma dref_vext: "vext n s t \<Longrightarrow> dref s d x \<Longrightarrow> dref t d x"
  using keep_vext vextD(8,9) by (auto simp: dref_def)

lemma keep_upd [simp]: "keep (upd_den p f s) q = keep s q" "keep (upd_file p g s) q = keep s q"
  by (simp_all add: keep_def upd_den_def upd_file_def)

lemma upd_den_simps [simp]:
  "den (upd_den p f s) = (den s)(p := f (den s p))" "krn (upd_den p f s) = krn s" "files (upd_den p f s) = files s"
  "mounts (upd_den p f s) = mounts s" "mount_pool (upd_den p f s) = mount_pool s" "root_dentry (upd_den p f s) = root_dentry s"
  by (simp_all add: upd_den_def)

lemma upd_file_simps [simp]:
  "files (upd_file p f s) = (files s)(p := f (files s p))" "krn (upd_file p f s) = krn s" "den (upd_file p f s) = den s" "om (upd_file p f s) = om s"
  "mounts (upd_file p f s) = mounts s" "mount_pool (upd_file p f s) = mount_pool s" "root_dentry (upd_file p f s) = root_dentry s"
  by (simp_all add: upd_file_def)

lemma set_kern_simps [simp]:
  "krn (set_kern k s) = k" "den (set_kern k s) = den s" "files (set_kern k s) = files s"
  "mounts (set_kern k s) = mounts s" "mount_pool (set_kern k s) = mount_pool s" "root_dentry (set_kern k s) = root_dentry s"
  by (simp_all add: set_kern_def)

lemma dref_upd: "d \<noteq> p \<Longrightarrow> dref (upd_den p f s) d x = dref s d x"
  by (simp add: dref_def)

definition is_root :: "vfs \<Rightarrow> ptr \<Rightarrow> bool" where
  "is_root s d \<longleftrightarrow> d = root_dentry s \<or> dentry_is_mount_root d s"

definition roots_ok :: "vfs \<Rightarrow> bool" where
  "roots_ok s \<longleftrightarrow> keep s (root_dentry s) \<and> (\<forall>i < MAX_MOUNTS. \<forall>k. mounts s i = Some k \<longrightarrow> keep s (mnt_root (mount_pool s k)))"

lemma is_root_cong: "mounts t = mounts s \<Longrightarrow> mount_pool t = mount_pool s \<Longrightarrow> root_dentry t = root_dentry s \<Longrightarrow> is_root t d = is_root s d"
  by (simp add: is_root_def dentry_is_mount_root_def cong: option.case_cong)

lemma is_root_vext: "vext n s t \<Longrightarrow> is_root t d = is_root s d"
  using vextD(11-13) by (intro is_root_cong) auto

lemma is_root_upd [simp]: "is_root (upd_den p f s) d = is_root s d" "is_root (free_obj p s) d = is_root s d" "is_root (set_kern k s) d = is_root s d"
  "is_root (upd_file p g s) d = is_root s d"
  by (rule is_root_cong; simp)+

lemma root_keep: "roots_ok s \<Longrightarrow> is_root s d \<Longrightarrow> keep s d"
  by (auto simp: is_root_def roots_ok_def dentry_is_mount_root_def list_ex_iff split: option.splits)

lemma chain_unfold:
  "vfs_free_dentry_chain d s =
     (if d \<noteq> NULL \<and> \<not> is_root s d
      then (if d_parent (den s d) = NULL \<or> d_parent (den s d) = d then Some (free_obj d s)
            else vfs_free_dentry_chain (d_parent (den s d)) (free_obj d s))
      else Some s)"
  by (subst vfs_free_dentry_chain.simps) (simp add: is_root_def Let_def)

lemma chain_root: "d = NULL \<or> is_root s d \<Longrightarrow> vfs_free_dentry_chain d s = Some s"
  and chain_one: "d \<noteq> NULL \<Longrightarrow> \<not> is_root s d \<Longrightarrow> d_parent (den s d) = NULL \<Longrightarrow> vfs_free_dentry_chain d s = Some (free_obj d s)"
  and chain_two: "\<lbrakk> d \<noteq> NULL; \<not> is_root s d; d_parent (den s d) = p; p \<noteq> NULL; p \<noteq> d \<rbrakk>
    \<Longrightarrow> vfs_free_dentry_chain d s = vfs_free_dentry_chain p (free_obj d s)"
  by (subst chain_unfold; auto)+

lemma drop_parent_eq: "drop_parent d s = vfs_free_dentry_chain d s"
  using chain_root [of d s] by (auto simp: drop_parent_def is_root_def)

text \<open>The current dentry of a path walk that started in state \<open>s0\<close>.\<close>

definition temp :: "vfs \<Rightarrow> vfs \<Rightarrow> ptr \<Rightarrow> bool" where
  "temp s0 s d \<longleftrightarrow> is_root s0 d \<or> \<not> keep s0 d \<and> live (hp s) d \<noteq> None \<and> d_parent (den s d) = NULL"

lemma not_keep_live: "\<not> keep s p \<Longrightarrow> live (hp s) p = None"
  by (simp add: keep_def)

lemma temp_free:
  assumes "temp s0 s d" and "vext n s0 s"
  obtains t where "vfs_free_dentry_chain d s = Some t" "vext n s0 t"
proof (cases "d = NULL \<or> is_root s0 d")
  case True
  then show thesis using that [of s] assms(2) is_root_vext [OF assms(2)] chain_root [of d s] by simp
next
  case False
  then have d: "\<not> keep s0 d" "live (hp s) d \<noteq> None" "d_parent (den s d) = NULL" using assms(1) by (auto simp: temp_def)
  then have "vfs_free_dentry_chain d s = Some (free_obj d s)" using False is_root_vext [OF assms(2)] chain_one [of d s] by simp
  then show thesis using that vext_free [OF assms(2) not_keep_live [OF d(1)] d(2)] by blast
qed

section \<open>Looking up a name\<close>

lemma ramfs_lookup_cases:
  assumes e: "vext n s0 s" and ok: "fs_wf (krn s0) N K" and x: "x \<in> N" and i: "i_private (vinodes (krn s) v) = x"
  obtains (none) "dir_map (krn s0) K x name = None" "ramfs_lookup v name di (krn s) = Some (di, krn s)"
  | (nomem) c where "dir_map (krn s0) K x name = Some c" "ramfs_lookup v name di (krn s) = Some (di, krn s)" "\<not> can_alloc VINODE_SIZE (hp s)"
  | (found) c w k where "dir_map (krn s0) K x name = Some c" "c \<in> N" "ramfs_lookup v name di (krn s) = Some (w, k)" "w \<noteq> NULL"
      "vext 1 s (set_kern k s)" "\<not> keep s w" "keep (set_kern k s) w"
      "vinodes k w = \<lparr>i_ino = ino (inodes (krn s0) c), i_mode = imode (inodes (krn s0) c), i_size = isize (inodes (krn s0) c),
         i_dir_ops = isdir (krn s0) c, i_private = c\<rparr>"
proof -
  note F = vext_fs [OF e ok]
  have L: "ramfs_lookup_child x name (krn s) = Some (case dir_map (krn s0) K x name of None \<Rightarrow> NULL | Some c \<Rightarrow> c)"
    using lookup_child_spec [OF F(1) x] F(2) [OF x] by simp
  show thesis
  proof (cases "dir_map (krn s0) K x name")
    case None
    then show thesis using none L i by (simp add: ramfs_lookup_def)
  next
    case (Some c)
    then have c: "c \<in> N" "c \<noteq> NULL" by (auto elim: dir_map_mem [OF ok x])
    have ci: "inodes (krn s) c = inodes (krn s0) c" by (rule F(4) [OF c(1)])
    show thesis
    proof (rule kzalloc_obj [OF vextD(1) [OF e] sizes_nonzero(3)])
      assume "\<not> can_alloc VINODE_SIZE (hp s)" "kzalloc VINODE_SIZE GFP_KERNEL (hp s) = Some (NULL, hp s)"
      then show thesis using nomem [OF Some] L i Some c by (simp add: ramfs_lookup_def new_vinode_def)
    next
      fix w h m assume k: "kzalloc VINODE_SIZE GFP_KERNEL (hp s) = Some (w, h)" "w \<noteq> NULL" "heap_inv h" "live (hp s) w = None"
        "live h = (live (hp s))(w \<mapsto> m)" "heap_start h = heap_start (hp s)" "heap_end h = heap_end (hp s)" "heap_start (hp s) \<le> w" "w < heap_end (hp s)"
        "\<forall>q k a. live (hp s) q = Some k \<longrightarrow> q \<le> a \<longrightarrow> a < q + k \<longrightarrow> mem h a = mem (hp s) a"
      define k' where "k' = (krn s)\<lparr>fheap := h, vinodes := (vinodes (krn s))(w := \<lparr>i_ino = ino (inodes (krn s0) c),
         i_mode = imode (inodes (krn s0) c), i_size = isize (inodes (krn s0) c), i_dir_ops = isdir (krn s0) c, i_private = c\<rparr>)\<rparr>"
      have h: "hp (set_kern k' s) = h" by (simp add: k'_def)
      have "inodes (krn (set_kern k' s)) q = inodes (krn s) q \<and> vinodes (krn (set_kern k' s)) q = vinodes (krn s) q
          \<and> den (set_kern k' s) q = den s q \<and> files (set_kern k' s) q = files s q" if "q \<noteq> w" for q
        using that by (simp add: k'_def)
      then have "vext 1 s (set_kern k' s)" "\<not> keep s w" "keep (set_kern k' s) w"
        using vext_fresh [of "set_kern k' s" s w m, unfolded h, OF k(3-10)] by simp_all
      moreover have "ramfs_lookup v name di (krn s) = Some (w, k')"
        using L i Some c k(1,2) ci by (simp add: ramfs_lookup_def new_vinode_def k'_def)
      ultimately show thesis using found [OF Some c(1), of w k'] k(2) by (simp add: k'_def)
    qed
  qed
qed

section \<open>Walking a path\<close>

text \<open>The components of a path and the walk along the directories, the specification of the path functions.\<close>

function path_parts :: "bytes \<Rightarrow> bytes list" where
  "path_parts p = (if p = [] then [] else path_head p # path_parts (path_tail p))"
  by pat_completeness auto
termination
  by (relation "measure length") (auto simp: path_tail_less)

declare path_parts.simps [simp del]

lemma path_parts_Nil [simp]: "path_parts [] = []" "path_parts p = [] \<longleftrightarrow> p = []"
  by (subst path_parts.simps; simp)+

primrec dir_walk :: "ramfs \<Rightarrow> (ptr \<Rightarrow> ptr list) \<Rightarrow> ptr \<Rightarrow> bytes list \<Rightarrow> ptr option" where
  "dir_walk k K d [] = Some d"
| "dir_walk k K d (c # cs) = Option.bind (dir_map k K d c) (\<lambda>e. dir_walk k K e cs)"

text \<open>A heap with at most \<open>n\<close> more blocks than that of \<open>s\<close> has no room for one of the objects of the VFS layer.\<close>

definition nomem :: "vfs \<Rightarrow> nat \<Rightarrow> bool" where
  "nomem s n \<longleftrightarrow> (\<exists>t. vext n s t \<and> (\<not> can_alloc DENTRY_SIZE (hp t) \<or> \<not> can_alloc VINODE_SIZE (hp t)
     \<or> \<not> can_alloc FILE_SIZE (hp t) \<or> \<not> can_alloc INODE_SIZE (hp t)))"

lemma nomem_mono: "nomem s m \<Longrightarrow> m \<le> n \<Longrightarrow> nomem s n"
  unfolding nomem_def using vext_mono by blast

lemma dop_simps:
  assumes "d_inode (den s d) \<noteq> NULL"
  shows "dop lookup_op d s = Some ramfs_lookup" "dop create_op d s = Some ramfs_create" "dop mkdir_op d s = Some ramfs_mkdir"
    "dop rmdir_op d s = Some ramfs_rmdir" "dop unlink_op d s = Some ramfs_unlink" "dop rename_op d s = Some ramfs_rename"
  using assms by (simp_all add: dop_def i_op_def ramfs_inode_ops_def)

text \<open>Looking up a name through a fresh dentry.\<close>

lemma call_lookup_cases:
  assumes e: "vext n s0 s" and ok: "fs_wf (krn s0) N K" and d: "dref s d x" "x \<in> N" "d \<noteq> child"
    and ch: "\<not> keep s0 child" "keep s child" "d_inode (den s child) = NULL" "d_name (den s child) = name"
  obtains (none) "dir_map (krn s0) K x name = None" "call_lookup ramfs_lookup d child s = Some s"
  | (nomem) c where "dir_map (krn s0) K x name = Some c" "c \<in> N" "call_lookup ramfs_lookup d child s = Some s" "nomem s0 n"
  | (found) c t where "dir_map (krn s0) K x name = Some c" "c \<in> N" "call_lookup ramfs_lookup d child s = Some t" "vext (n + 1) s0 t"
      "dref t child c" "dref t d x" "live (hp s) \<subseteq>\<^sub>m live (hp t)" "\<not> keep s0 (d_inode (den t child))"
      "den t child = (den s child)\<lparr>d_inode := d_inode (den t child)\<rparr>" "\<And>q. q \<noteq> child \<Longrightarrow> den t q = den s q"
      "vinodes (krn t) (d_inode (den t child)) = \<lparr>i_ino = ino (inodes (krn s0) c), i_mode = imode (inodes (krn s0) c),
         i_size = isize (inodes (krn s0) c), i_dir_ops = isdir (krn s0) c, i_private = c\<rparr>" "\<not> keep s (d_inode (den t child))"
proof -
  have same: "upd_den child (d_inode_update (\<lambda>_. NULL)) (set_kern (krn s) s) = s"
  proof -
    have "(den s child)\<lparr>d_inode := NULL\<rparr> = den s child" using ch(3) by simp
    then have "(den s)(child := (den s child)\<lparr>d_inode := NULL\<rparr>) = den s" by (simp only: fun_upd_triv)
    then show ?thesis by (simp add: upd_den_def set_kern_def)
  qed
  have i: "i_private (vinodes (krn s) (d_inode (den s d))) = x" "keep s d" "keep s (d_inode (den s d))" "d_inode (den s d) \<noteq> NULL" "d \<noteq> NULL"
    using d(1) by (auto simp: dref_def)
  show thesis
  proof (rule ramfs_lookup_cases [OF e ok d(2) i(1), of name NULL])
    assume "dir_map (krn s0) K x name = None" "ramfs_lookup (d_inode (den s d)) name NULL (krn s) = Some (NULL, krn s)"
    then show thesis using none same ch by (simp add: call_lookup_def)
  next
    fix c assume c: "dir_map (krn s0) K x name = Some c" "ramfs_lookup (d_inode (den s d)) name NULL (krn s) = Some (NULL, krn s)"
      "\<not> can_alloc VINODE_SIZE (hp s)"
    have "c \<in> N" using c(1) by (auto elim: dir_map_mem [OF ok d(2)])
    moreover have "nomem s0 n" using e c(3) by (auto simp: nomem_def)
    ultimately show thesis using nomem c(1,2) same ch by (simp add: call_lookup_def)
  next
    fix c w k assume c: "dir_map (krn s0) K x name = Some c" "c \<in> N" "ramfs_lookup (d_inode (den s d)) name NULL (krn s) = Some (w, k)" "w \<noteq> NULL"
      "vext 1 s (set_kern k s)" "\<not> keep s w" "keep (set_kern k s) w"
      "vinodes k w = \<lparr>i_ino = ino (inodes (krn s0) c), i_mode = imode (inodes (krn s0) c), i_size = isize (inodes (krn s0) c),
         i_dir_ops = isdir (krn s0) c, i_private = c\<rparr>"
    define t where "t = upd_den child (d_inode_update (\<lambda>_. w)) (set_kern k s)"
    have e2: "vext (n + 1) s0 (set_kern k s)" by (rule vext_trans [OF e c(5)])
    have "vext (n + 1) s0 t" unfolding t_def by (rule vext_upd_den [OF e2 ch(1)])
    moreover have "live (hp s) child \<noteq> None" using ch(1,2) vextD(4,5) [OF e] by (auto simp: keep_def)
    then have "child \<noteq> NULL" using kh.lv_NULL [OF vextD(1) [OF e]] by metis
    then have "dref t child c" using c(4,7,8) keep_vext [OF c(5) ch(2)] by (simp add: t_def dref_def)
    moreover have "dref t d x" unfolding t_def dref_upd [OF d(3)] by (rule dref_vext [OF c(5) d(1)])
    moreover have "live (hp s) \<subseteq>\<^sub>m live (hp t)" using vextD(2) [OF c(5)] by (simp add: t_def)
    moreover have "\<not> keep s0 w" using c(6) keep_vext [OF e] by blast
    moreover have "call_lookup ramfs_lookup d child s = Some t" using c(3) ch by (simp add: call_lookup_def t_def)
    moreover have "d_inode (den t child) = w" "den t child = (den s child)\<lparr>d_inode := w\<rparr>" "\<And>q. q \<noteq> child \<Longrightarrow> den t q = den s q"
      "vinodes (krn t) w = vinodes k w" by (simp_all add: t_def)
    ultimately show thesis using found [OF c(1,2), of t] c(6,8) by simp
  qed
qed

lemma dir_walk_in:
  assumes ok: "fs_wf k N K"
  shows "dir_walk k K x cs = Some y \<Longrightarrow> x \<in> N \<Longrightarrow> y \<in> N"
proof (induction cs arbitrary: x)
  case (Cons c cs)
  then obtain e where e: "dir_map k K x c = Some e" "dir_walk k K e cs = Some y" by (auto simp: Option.bind_eq_Some_conv)
  have "e \<in> N" by (rule dir_map_mem [OF ok Cons.prems(2) e(1)])
  then show ?case using Cons.IH e(2) by blast
qed simp

lemma parent_walk_spec:
  assumes ok: "fs_wf (krn s0) N K"
  shows "\<lbrakk> vext n s0 s; dref s d x; x \<in> N; temp s0 s d; p \<noteq> [] \<rbrakk> \<Longrightarrow>
    \<exists>r name t. parent_walk d p s = Some (r, name, t) \<and> vext (n + 2 * length (path_parts p)) s0 t
      \<and> (case dir_walk (krn s0) K x (butlast (path_parts p)) of None \<Rightarrow> r = NULL
         | Some y \<Rightarrow> y \<in> N \<and> (r = NULL \<and> nomem s0 (n + 2 * length (path_parts p))
                             \<or> dref t r y \<and> temp s0 t r \<and> name = last (path_parts p)))"
proof (induction p arbitrary: d x s n rule: length_induct)
  case (1 p)
  note prems = 1(2-6)
  have parts: "path_parts p = path_head p # path_parts (path_tail p)" using prems(5) by (subst path_parts.simps) simp
  show ?case
  proof (cases "path_tail p = []")
    case True
    then have "parent_walk d p s = Some (d, path_head p, s)" using prems(5) by (subst parent_walk.simps) simp
    moreover have "vext (n + 2 * length (path_parts p)) s0 s" by (rule vext_mono [OF prems(1)]) simp
    ultimately show ?thesis using prems(2-4) True parts by simp
  next
    case False
    let ?m = "n + 2 * length (path_parts p)"
    have m: "n + 2 + 2 * length (path_parts (path_tail p)) = ?m" and le: "n \<le> ?m" "n + 1 \<le> ?m" "n + 2 \<le> ?m" using parts by simp_all
    have bl: "butlast (path_parts p) = path_head p # butlast (path_parts (path_tail p))" "last (path_parts p) = last (path_parts (path_tail p))"
      using parts False by simp_all
    note F = vext_fs [OF prems(1) ok]
    have dl: "dop lookup_op d s = Some ramfs_lookup" using dop_simps(1) prems(2) by (simp add: dref_def)
    show ?thesis
    proof (rule alloc_dentry_cases [OF vextD(1) [OF prems(1)]])
      assume a: "\<not> can_alloc DENTRY_SIZE (hp s)" "alloc_dentry s = Some (NULL, s)"
      obtain t where t: "vfs_free_dentry_chain d s = Some t" "vext n s0 t" by (rule temp_free [OF prems(4,1)])
      have "parent_walk d p s = Some (NULL, [], t)" using prems(5) False dl a(2) t(1) by (subst parent_walk.simps) simp
      moreover have "nomem s0 ?m" using prems(1) a(1) vext_mono [OF prems(1) le(1)] unfolding nomem_def by blast
      moreover have "y \<in> N" if "dir_walk (krn s0) K x (butlast (path_parts p)) = Some y" for y
        using that prems(3) by (rule dir_walk_in [OF ok])
      ultimately show ?thesis using vext_mono [OF t(2) le(1)] by (auto split: option.split)
    next
      fix child t assume c: "alloc_dentry s = Some (child, t)" "child \<noteq> NULL" "vext 1 s t" "\<not> keep s child" "keep t child"
        "den t child = zero_dentry" "live (hp t) child \<noteq> None" "live (hp s) child = None"
      define t2 where "t2 = upd_den child (d_name_update (\<lambda>_. path_head p)) t"
      have nk: "\<not> keep s0 child" using c(4) keep_vext [OF prems(1)] by blast
      have e2: "vext (n + 1) s0 t2" unfolding t2_def by (rule vext_upd_den [OF vext_trans [OF prems(1) c(3)] nk])
      have dc: "d \<noteq> child" using prems(2) c(4) by (auto simp: dref_def)
      have d2: "dref t2 d x" unfolding t2_def dref_upd [OF dc] by (rule dref_vext [OF c(3) prems(2)])
      have z: "den t2 child = zero_dentry\<lparr>d_name := path_head p\<rparr>" "keep t2 child" "live (hp t2) child \<noteq> None"
        using c(5-7) by (simp_all add: t2_def)
      have zd: "d_inode (den t2 child) = NULL" "d_parent (den t2 child) = NULL" "d_name (den t2 child) = path_head p"
        by (simp_all add: z(1) zero_dentry_def)
      have pw: "parent_walk d p s = do { s \<leftarrow> call_lookup ramfs_lookup d child t2;
          if d_inode (den s child) = NULL then do { s \<leftarrow> vfs_free_dentry_chain child s; Some (NULL, [], s) } else parent_walk child (path_tail p) s }"
        using prems(5) False dl c(1,2) by (subst parent_walk.simps) (simp add: t2_def)
      have tmp: "temp s0 t2 child" using nk z(3) zd(2) by (simp add: temp_def)
      show ?thesis
      proof (rule call_lookup_cases [OF e2 ok d2 prems(3) dc nk z(2) zd(1,3)])
        assume l: "dir_map (krn s0) K x (path_head p) = None" "call_lookup ramfs_lookup d child t2 = Some t2"
        obtain u where u: "vfs_free_dentry_chain child t2 = Some u" "vext (n + 1) s0 u" by (rule temp_free [OF tmp e2])
        show ?thesis using pw l u zd(1) vext_mono [OF u(2) le(2)] bl by simp
      next
        fix e assume l: "dir_map (krn s0) K x (path_head p) = Some e" "e \<in> N" "call_lookup ramfs_lookup d child t2 = Some t2" "nomem s0 (n + 1)"
        obtain u where u: "vfs_free_dentry_chain child t2 = Some u" "vext (n + 1) s0 u" by (rule temp_free [OF tmp e2])
        have "y \<in> N" if "dir_walk (krn s0) K x (butlast (path_parts p)) = Some y" for y
          using that prems(3) by (rule dir_walk_in [OF ok])
        then show ?thesis
          using pw l(3) u zd(1) vext_mono [OF u(2) le(2)] nomem_mono [OF l(4) le(2)] by (auto split: option.split)
      next
        fix e t3 assume l: "dir_map (krn s0) K x (path_head p) = Some e" "e \<in> N" "call_lookup ramfs_lookup d child t2 = Some t3"
          "vext (n + 1 + 1) s0 t3" "dref t3 child e" "dref t3 d x" "live (hp t2) \<subseteq>\<^sub>m live (hp t3)" "\<not> keep s0 (d_inode (den t3 child))"
          "den t3 child = (den t2 child)\<lparr>d_inode := d_inode (den t3 child)\<rparr>"
        have "d_parent (den t3 child) = NULL" by (subst l(9)) (simp add: zd(2))
        moreover have "live (hp t3) child \<noteq> None" using l(7) z(3) by (auto simp: map_le_def dom_def)
        ultimately have tmp3: "temp s0 t3 child" using nk by (simp add: temp_def)
        have e3: "vext (n + 2) s0 t3" using l(4) by (simp add: add.commute)
        have "parent_walk d p s = parent_walk child (path_tail p) t3" using pw l(3,5) by (simp add: dref_def)
        moreover have "length (path_tail p) < length p" by (rule path_tail_less [OF prems(5)])
        note IH = 1(1) [rule_format, OF this e3 l(5,2) tmp3 False, unfolded m]
        ultimately show ?thesis using IH unfolding bl by (simp add: l(1))
      qed
    qed
  qed
qed

section \<open>The invariant\<close>

text \<open>The RAM file system is well-formed, and every root dentry and its VFS inode are static objects outside the heap that stand
  for an inode without a parent.\<close>

definition outside :: "vfs \<Rightarrow> ptr \<Rightarrow> bool" where
  "outside s p \<longleftrightarrow> p < heap_start (hp s) \<or> heap_end (hp s) \<le> p"

definition root_of :: "vfs \<Rightarrow> ptr \<Rightarrow> ptr" where
  "root_of s d = i_private (vinodes (krn s) (d_inode (den s d)))"

definition vfs_ok :: "vfs \<Rightarrow> ptr set \<Rightarrow> (ptr \<Rightarrow> ptr list) \<Rightarrow> bool" where
  "vfs_ok s N K \<longleftrightarrow> fs_wf (krn s) N K \<and> root_dentry s \<noteq> NULL
     \<and> (\<forall>d. is_root s d \<longrightarrow> outside s d \<and> (d \<noteq> NULL \<longrightarrow> d_inode (den s d) \<noteq> NULL \<and> outside s (d_inode (den s d))
          \<and> root_of s d \<in> N \<and> iparent (inodes (krn s) (root_of s d)) = NULL))"

text \<open>What no operation changes: the mount table and the objects outside the heap.\<close>

definition vframe :: "vfs \<Rightarrow> vfs \<Rightarrow> bool" where
  "vframe s t \<longleftrightarrow> heap_start (hp t) = heap_start (hp s) \<and> heap_end (hp t) = heap_end (hp s)
     \<and> (\<forall>p. outside s p \<longrightarrow> den t p = den s p \<and> vinodes (krn t) p = vinodes (krn s) p)
     \<and> mounts t = mounts s \<and> mount_pool t = mount_pool s \<and> root_dentry t = root_dentry s"

lemma vframe_refl: "vframe s s"
  by (simp add: vframe_def)

lemma vframe_trans: "vframe s t \<Longrightarrow> vframe t u \<Longrightarrow> vframe s u"
  by (auto simp: vframe_def outside_def)

lemma vext_vframe: "vext n s t \<Longrightarrow> vframe s t"
  using vextD(4,5,8,9,11-13) [of n s t] by (auto simp: vframe_def outside_def keep_def)

lemma vframe_free: "vframe s (free_obj p s)"
  by (simp add: vframe_def)

lemma vfs_okD:
  assumes "vfs_ok s N K"
  shows "fs_wf (krn s) N K" "root_dentry s \<noteq> NULL" "is_root s d \<Longrightarrow> outside s d" "heap_inv (hp s)"
    "is_root s d \<Longrightarrow> d \<noteq> NULL \<Longrightarrow> dref s d (root_of s d)" "is_root s d \<Longrightarrow> d \<noteq> NULL \<Longrightarrow> root_of s d \<in> N"
    "is_root s d \<Longrightarrow> keep s d"
  using assms fs_okD(1) by (auto simp: vfs_ok_def dref_def keep_def outside_def root_of_def)

lemma vfs_ok_frame:
  assumes ok: "vfs_ok s N K" and f: "vframe s t" and w: "fs_wf (krn t) N' K'"
    and r: "\<And>x. x \<in> N \<Longrightarrow> iparent (inodes (krn s) x) = NULL \<Longrightarrow> x \<in> N' \<and> iparent (inodes (krn t) x) = NULL"
  shows "vfs_ok t N' K'"
proof -
  have ir: "is_root t d = is_root s d" for d using f by (intro is_root_cong) (auto simp: vframe_def)
  have out: "outside t p = outside s p" for p using f by (auto simp: vframe_def outside_def)
  have "outside t d \<and> (d \<noteq> NULL \<longrightarrow> d_inode (den t d) \<noteq> NULL \<and> outside t (d_inode (den t d))
          \<and> root_of t d \<in> N' \<and> iparent (inodes (krn t) (root_of t d)) = NULL)" if d: "is_root t d" for d
  proof -
    have o: "outside s d" using vfs_okD(3) [OF ok] d ir by blast
    then have den: "den t d = den s d" using f by (simp add: vframe_def)
    show ?thesis
    proof (cases "d = NULL")
      case False
      then have *: "d_inode (den s d) \<noteq> NULL" "outside s (d_inode (den s d))" "root_of s d \<in> N" "iparent (inodes (krn s) (root_of s d)) = NULL"
        using ok d ir unfolding vfs_ok_def by blast+
      then have "root_of t d = root_of s d" using f den by (simp add: root_of_def vframe_def)
      then show ?thesis using * r [OF *(3,4)] o out den by simp
    qed (use o out in simp)
  qed
  moreover have "root_dentry t \<noteq> NULL" using vfs_okD(2) [OF ok] f by (simp add: vframe_def)
  ultimately show ?thesis using w unfolding vfs_ok_def by blast
qed

lemma vfs_ok_vext:
  assumes ok: "vfs_ok s N K" and e: "vext n s t"
  shows "vfs_ok t N K"
proof -
  note F = vext_fs [OF e vfs_okD(1) [OF ok]]
  show ?thesis by (rule vfs_ok_frame [OF ok vext_vframe [OF e] F(1)]) (simp add: F(4))
qed

text \<open>Where a path starts and its components.\<close>

definition vpath :: "vfs \<Rightarrow> bytes \<Rightarrow> ptr \<times> bytes list" where
  "vpath s path =
     (let (d, rest) = resolve_path_root (Some path) s
      in (root_of s d, path_parts (dropWhile (\<lambda>c. c = SLASH) (case rest of None \<Rightarrow> [] | Some p \<Rightarrow> p))))"

lemma resolve_root:
  assumes "root_dentry s \<noteq> NULL"
  obtains d rest where "resolve_path_root (Some path) s = (d, Some rest)" "is_root s d" "d \<noteq> NULL"
proof -
  obtain r n where f: "best_mount path s [0..<MAX_MOUNTS] (None, 0) = (r, n)" by (cases "best_mount path s [0..<MAX_MOUNTS] (None, 0)")
  show thesis
  proof (cases r)
    case None
    then show thesis using that [of "root_dentry s" path] assms f by (simp add: resolve_path_root_def find_mount_for_path_def is_root_def)
  next
    case (Some k)
    then obtain i where "i < MAX_MOUNTS" "mounts s i = Some k" "mnt_root (mount_pool s k) \<noteq> NULL"
      using best_mount_spec(1) [OF f] by (auto simp: candidate_def)
    then have "is_root s (mnt_root (mount_pool s k))"
      by (auto simp: is_root_def dentry_is_mount_root_def list_ex_iff intro!: bexI [of _ i])
    then show thesis using that f Some \<open>mnt_root (mount_pool s k) \<noteq> NULL\<close> by (simp add: resolve_path_root_def find_mount_for_path_def)
  qed
qed

lemma vpath_in: "vfs_ok s N K \<Longrightarrow> vpath s path = (x, cs) \<Longrightarrow> x \<in> N"
  by (rule resolve_root [OF vfs_okD(2), of s N K path]) (auto simp: vpath_def dest: vfs_okD(6))

lemma lookup_parent_spec:
  assumes ok: "vfs_ok s N K" and p: "vpath s path = (x, cs)"
  shows "\<exists>r name t. vfs_lookup_parent (Some path) s = Some (r, name, t) \<and> vext (2 * length cs) s t
    \<and> (if cs = [] then r = NULL else
       (case dir_walk (krn s) K x (butlast cs) of None \<Rightarrow> r = NULL
         | Some y \<Rightarrow> y \<in> N \<and> (r = NULL \<and> nomem s (2 * length cs) \<or> dref t r y \<and> temp s t r \<and> name = last cs)))"
proof -
  obtain d rest where d: "resolve_path_root (Some path) s = (d, Some rest)" "is_root s d" "d \<noteq> NULL"
    by (rule resolve_root [OF vfs_okD(2) [OF ok]])
  let ?p = "dropWhile (\<lambda>c. c = SLASH) rest"
  have cs: "cs = path_parts ?p" and x: "x = root_of s d" using p d(1) by (simp_all add: vpath_def)
  have l: "vfs_lookup_parent (Some path) s = parent_walk d ?p s"
    using vfs_okD(2) [OF ok] d by (simp add: vfs_lookup_parent_def)
  show ?thesis
  proof (cases "?p = []")
    case True
    then have "parent_walk d ?p s = Some (NULL, [], s)" by (subst parent_walk.simps) simp
    then show ?thesis using l cs True vext_refl [OF vfs_okD(4) [OF ok]] by (auto intro: vext_mono)
  next
    case False
    then have ne: "cs \<noteq> []" unfolding cs path_parts_Nil .
    have "temp s s d" using d(2) by (simp add: temp_def)
    note parent_walk_spec [OF vfs_okD(1) [OF ok] vext_refl [OF vfs_okD(4) [OF ok]] vfs_okD(5) [OF ok d(2,3)] vfs_okD(6) [OF ok d(2,3)] this False]
    then show ?thesis unfolding l if_not_P [OF ne] cs [symmetric] x [symmetric] add_0 .
  qed
qed

end
