(* ===== verification/Vfs_Tree.thy ===== *)
theory Vfs_Tree
  imports Vfs_Walk
begin

text \<open>
  The operations of the virtual file system (\<^verbatim>\<open>kernel/fs/vfs.c\<close>) on a mounted RAM file system that change the
  tree: creating and removing files and directories by path.
\<close>

section \<open>Names\<close>

lemma path_tail_no_slash: "path_tail p = [] \<or> hd (path_tail p) \<noteq> SLASH"
  using hd_dropWhile [of "\<lambda>c. c = SLASH" "dropWhile (\<lambda>c. c \<noteq> SLASH) p"] unfolding path_tail_def by blast

lemma path_parts_names:
  "p = [] \<or> hd p \<noteq> SLASH \<Longrightarrow> \<forall>c \<in> set (path_parts p). c \<noteq> [] \<and> length c \<le> NAME_MAX"
proof (induction p rule: path_parts.induct)
  case (1 p)
  show ?case
  proof (cases "p = []")
    case False
    then have "path_head p \<noteq> []" using 1(2) by (cases p) (auto simp: path_head_def NAME_MAX_def)
    moreover have "length (path_head p) \<le> NAME_MAX" by (simp add: path_head_def)
    moreover have "\<forall>c \<in> set (path_parts (path_tail p)). c \<noteq> [] \<and> length c \<le> NAME_MAX"
      using 1(1) [OF False] path_tail_no_slash by blast
    ultimately show ?thesis using False by (subst path_parts.simps) simp
  qed simp
qed

lemma vpath_names:
  assumes "vpath s path = (x, cs)"
  shows "\<forall>c \<in> set cs. c \<noteq> [] \<and> length c \<le> NAME_MAX"
proof -
  obtain p where "cs = path_parts (dropWhile (\<lambda>c. c = SLASH) p)" using assms by (auto simp: vpath_def split: prod.splits)
  moreover have "dropWhile (\<lambda>c. c = SLASH) p = [] \<or> hd (dropWhile (\<lambda>c. c = SLASH) p) \<noteq> SLASH"
    using hd_dropWhile [of "\<lambda>c. c = SLASH" p] by blast
  ultimately show ?thesis using path_parts_names by blast
qed

lemma dir_map_child:
  assumes "fs_wf k N K" and "y \<in> N" and "dir_map k K y name = Some c"
  shows "c \<in> N" "c \<noteq> NULL" "iparent (inodes k c) = y"
proof -
  obtain us vs where "K y = us @ c # vs" "nm k c = name" "c \<in> N" "c \<noteq> NULL" by (rule dir_map_mem [OF assms])
  then show "c \<in> N" "c \<noteq> NULL" "iparent (inodes k c) = y" using dir_okD(4) [OF fs_okD(4) [OF assms(1,2)], of c] by auto
qed

lemma dir_walk_last:
  assumes "cs \<noteq> []"
  shows "dir_walk k K x cs = Option.bind (dir_walk k K x (butlast cs)) (\<lambda>y. dir_map k K y (last cs))"
  using assms by (induction cs arbitrary: x) (auto simp: Option.bind_assoc)

section \<open>Blocks that are not the file system's\<close>

definition foreign :: "ramfs \<Rightarrow> ptr set \<Rightarrow> ptr \<Rightarrow> bool" where
  "foreign k N q \<longleftrightarrow> live (fheap k) q \<noteq> None \<and> q \<notin> N \<and> (\<forall>p \<in> N. idata (inodes k p) \<noteq> q)"

lemma vext_foreign:
  assumes ok: "fs_wf (krn s) N K" and e: "vext n s t" and q: "\<not> keep s q" "live (hp t) q \<noteq> None"
  shows "foreign (krn t) N q"
proof -
  have "q \<notin> N" using fs_wf_keep [OF ok] q(1) by blast
  moreover have "idata (inodes (krn t) p) \<noteq> q" if "p \<in> N" for p
  proof
    assume e': "idata (inodes (krn t) p) = q"
    have "q \<noteq> NULL" using q(2) kh.lv_NULL [OF vextD(1) [OF e]] by metis
    then have "live (hp s) q \<noteq> None" using fs_okD(3) [OF ok that] e' vext_fs(4) [OF e ok that] by (auto simp: buf_ok_def)
    then show False using q(1) by (simp add: keep_def)
  qed
  ultimately show ?thesis using q(2) by (simp add: foreign_def)
qed

lemma foreign_free:
  assumes ok: "fs_wf k N K" and q: "foreign k N q" and k': "k' = k\<lparr>fheap := kfree q (fheap k)\<rparr>"
  shows "fs_wf k' N K" and "dir_map k' K = dir_map k K" and "contents k' p = contents k p" and "foreign k N r \<Longrightarrow> r \<noteq> q \<Longrightarrow> foreign k' N r"
    and "live (fheap k') = (live (fheap k))(q := None)"
proof -
  have l: "live (fheap k) q \<noteq> None" using q by (simp add: foreign_def)
  note r = kh.release_inv [OF fs_okD(1) [OF ok] l] kh.release_lv [OF fs_okD(1) [OF ok] l]
  show "live (fheap k') = (live (fheap k))(q := None)" using r(2) by (simp add: k')
  show "fs_wf k' N K"
    by (rule fs_ok_cong [OF ok]) (use q r in \<open>auto simp: k' foreign_def\<close>)
  show "dir_map k' K = dir_map k K" "contents k' p = contents k p"
    by (simp_all add: k' dir_map_def contents_def kfree_mem fun_eq_iff)
  show "foreign k N r \<Longrightarrow> r \<noteq> q \<Longrightarrow> foreign k' N r" using r(2) by (simp add: foreign_def k')
qed

lemma krn_free_obj: "krn (free_obj q s) = (krn s)\<lparr>fheap := kfree q (fheap (krn s))\<rparr>"
  by (simp add: free_obj_def set_heap_def)

text \<open>The tree below a set of inodes is the same in two states.\<close>

definition same_tree :: "ramfs \<Rightarrow> ramfs \<Rightarrow> ptr set \<Rightarrow> (ptr \<Rightarrow> ptr list) \<Rightarrow> bool" where
  "same_tree k k' N K \<longleftrightarrow> fs_wf k' N K
     \<and> (\<forall>p \<in> N. dir_map k' K p = dir_map k K p \<and> contents k' p = contents k p \<and> inodes k' p = inodes k p)"

lemma vext_same_tree: "fs_wf (krn s) N K \<Longrightarrow> vext n s t \<Longrightarrow> same_tree (krn s) (krn t) N K"
  using vext_fs by (simp add: same_tree_def)

lemma added_pre:
  assumes "same_tree k0 k N K" and "added k k' N K d name f" and "d \<in> N"
  shows "added k0 k' N K d name f"
  using assms unfolding added_def same_tree_def by auto

lemma removed_pre:
  assumes "same_tree k0 k N K" and "removed k k' N K d name t" and "d \<in> N" and "t \<in> N"
  obtains K' where "fs_wf k' (N - {t}) K'"
    "\<forall>e \<in> N - {t}. dir_map k' K' e = (if e = d then (dir_map k0 K d)(name := None) else dir_map k0 K e)"
    "\<forall>p \<in> N - {t}. contents k' p = contents k0 p \<and> imode (inodes k' p) = imode (inodes k0 p)"
  using assms unfolding removed_def same_tree_def by auto

section \<open>Creating an entry\<close>

text \<open>What the creation of inode \<open>f\<close> does to the rest of the heap; \<open>S\<close> are the new blocks.\<close>

definition entry_frame :: "ramfs \<Rightarrow> ramfs \<Rightarrow> ptr \<Rightarrow> ptr set \<Rightarrow> bool" where
  "entry_frame k k' f S \<longleftrightarrow> heap_inv (fheap k') \<and> live (fheap k) \<subseteq>\<^sub>m live (fheap k')
     \<and> heap_start (fheap k') = heap_start (fheap k) \<and> heap_end (fheap k') = heap_end (fheap k)
     \<and> f \<in> S \<and> (\<forall>p \<in> S. live (fheap k) p = None \<and> live (fheap k') p \<noteq> None \<and> heap_start (fheap k) \<le> p \<and> p < heap_end (fheap k))
     \<and> (\<forall>p. p \<notin> S \<longrightarrow> idata (inodes k' p) = idata (inodes k p) \<and> iparent (inodes k' p) = iparent (inodes k p)
             \<and> vinodes k' p = vinodes k p)
     \<and> idata (inodes k' f) = NULL"

lemma make_entry_cases:
  assumes inv: "heap_inv (fheap k)" and d: "d \<noteq> NULL" "live (fheap k) d \<noteq> None" and n: "name \<noteq> []" "length name \<le> RAMFS_MAX_NAME"
    and l: "ramfs_lookup_child d name k = Some c"
  obtains (exists) "c \<noteq> NULL" "make_entry mode ops d name di k = Some (- EEXIST, di, k)"
  | (full) "c = NULL" "make_entry mode ops d name di k = Some (- ENOMEM, di, k)" "\<not> can_alloc INODE_SIZE (fheap k)"
  | (nodir) f k' where "c = NULL" "\<not> isdir k d" "make_entry mode ops d name di k = Some (- ENOTDIR, di, k')" "heap_inv (fheap k')"
      "live (fheap k') = live (fheap k)" "heap_start (fheap k') = heap_start (fheap k)" "heap_end (fheap k') = heap_end (fheap k)"
      "\<forall>q n a. live (fheap k) q = Some n \<longrightarrow> q \<le> a \<longrightarrow> a < q + n \<longrightarrow> mem (fheap k') a = mem (fheap k) a"
      "live (fheap k) f = None" "heap_start (fheap k) \<le> f" "f < heap_end (fheap k)" "\<forall>p. p \<noteq> f \<longrightarrow> inodes k' p = inodes k p" "vinodes k' = vinodes k"
  | (half) f k' where "isdir k d" "make_entry mode ops d name di k = Some (- ENOMEM, di, k')" "entry_frame k k' f {f}"
      "ramfs_lookup_child d name k' = Some f"
  | (made) f v k' where "isdir k d" "make_entry mode ops d name di k = Some (0, v, k')" "entry_frame k k' f {f, v}" "f \<noteq> v" "v \<noteq> NULL"
      "i_private (vinodes k' v) = f" "ramfs_lookup_child d name k' = Some f" "i_size (vinodes k' v) = 0"
proof (cases "c = NULL")
  case False
  then show thesis using exists d(1) n l by (simp add: make_entry_def)
next
  case c: True
  show thesis
  proof (rule kzalloc_obj [OF inv sizes_nonzero(4)])
    assume "\<not> can_alloc INODE_SIZE (fheap k)" "kzalloc INODE_SIZE GFP_KERNEL (fheap k) = Some (NULL, fheap k)"
    then show thesis using full c d(1) n l by (simp add: make_entry_def ramfs_alloc_inode_def)
  next
    fix f h1 m assume a: "kzalloc INODE_SIZE GFP_KERNEL (fheap k) = Some (f, h1)" "f \<noteq> NULL" "heap_inv h1" "live (fheap k) f = None"
      "live h1 = (live (fheap k))(f \<mapsto> m)" "heap_start h1 = heap_start (fheap k)" "heap_end h1 = heap_end (fheap k)"
      "heap_start (fheap k) \<le> f" "f < heap_end (fheap k)"
      "\<forall>q n a. live (fheap k) q = Some n \<longrightarrow> q \<le> a \<longrightarrow> a < q + n \<longrightarrow> mem h1 a = mem (fheap k) a"
    have fd: "f \<noteq> d" using a(4) d(2) by metis
    define k1 where "k1 = (upd_ino f (\<lambda>_. \<lparr>ino = next_ino k, imode = mode, iuid = 0, igid = 0, isize = 0, idata = NULL, data_capacity = 0,
            iparent = NULL, children = NULL, sibling = NULL, iname = take RAMFS_MAX_NAME name\<rparr>) (k\<lparr>fheap := h1\<rparr>))
          \<lparr>next_ino := next_ino k + 1, inode_count := inode_count k + 1\<rparr>"
    have al: "ramfs_alloc_inode mode name k = Some (f, k1)" using a(1,2) by (simp add: ramfs_alloc_inode_def k1_def)
    have dd: "isdir k1 d = isdir k d" using fd by (simp add: k1_def upd_ino_def)
    show thesis
    proof (cases "isdir k d")
      case False
      define k2 where "k2 = ramfs_free_inode f k1"
      have e: "k2 = k1\<lparr>inode_count := inode_count k1 - 1, fheap := kfree f h1\<rparr>"
        using a(2) by (simp add: k2_def ramfs_free_inode_def Let_def k1_def upd_ino_def)
      have lf: "live h1 f \<noteq> None" using a(5) by simp
      have "make_entry mode ops d name di k = Some (- ENOTDIR, di, k2)"
        using c d(1) n l al a(2) False dd by (simp add: make_entry_def ramfs_add_child_def k2_def)
      moreover have "live (fheap k2) = live (fheap k)" using kh.release_lv [OF a(3) lf] a(4,5) by (simp add: e fun_upd_idem)
      ultimately show thesis
        using nodir [OF c False, of k2 f] kh.release_inv [OF a(3) lf] a by (simp add: e kfree_mem k1_def upd_ino_def)
    next
      case True
      define k2 where "k2 = snd (ramfs_add_child d f k1)"
      have ac: "ramfs_add_child d f k1 = (0, k2)" using True dd by (simp add: ramfs_add_child_def k2_def Let_def)
      have k2: "fheap k2 = h1" "vinodes k2 = vinodes k" "idata (inodes k2 p) = (if p = f then NULL else idata (inodes k p))"
        "p \<noteq> f \<Longrightarrow> iparent (inodes k2 p) = iparent (inodes k p)" for p
        using True dd fd by (auto simp: k2_def ramfs_add_child_def Let_def upd_ino_def k1_def)
      have lk: "ramfs_lookup_child d name k'' = Some f" if "inodes k'' = inodes k2" for k''
        using True dd fd a(2) n(2) that
        by (simp add: k2_def ramfs_add_child_def Let_def upd_ino_def k1_def ramfs_lookup_child_def child_walk.simps [of _ f])
      have me: "make_entry mode ops d name di k = do { (v, s) \<leftarrow> new_vinode f 0 ops k2; if v = NULL then Some (- ENOMEM, di, s) else Some (0, v, s) }"
        using c d(1) n l al a(2) ac by (simp add: make_entry_def)
      have ef: "entry_frame k k2 f {f}"
        using a k2 by (auto simp: entry_frame_def map_le_def)
      show thesis
      proof (rule kzalloc_obj [OF a(3) sizes_nonzero(3)])
        assume "kzalloc VINODE_SIZE GFP_KERNEL h1 = Some (NULL, h1)"
        then have "new_vinode f 0 ops k2 = Some (NULL, k2)" by (simp add: new_vinode_def k2(1) [symmetric])
        then show thesis using half [OF True _ ef lk] me by simp
      next
        fix v h2 m' assume b: "kzalloc VINODE_SIZE GFP_KERNEL h1 = Some (v, h2)" "v \<noteq> NULL" "heap_inv h2" "live h1 v = None"
          "live h2 = (live h1)(v \<mapsto> m')" "heap_start h2 = heap_start h1" "heap_end h2 = heap_end h1" "heap_start h1 \<le> v" "v < heap_end h1"
        define k3 where "k3 = k2\<lparr>fheap := h2, vinodes := (vinodes k2)(v := \<lparr>i_ino = ino (inodes k2 f), i_mode = imode (inodes k2 f), i_size = 0,
            i_dir_ops = ops, i_private = f\<rparr>)\<rparr>"
        have "new_vinode f 0 ops k2 = Some (v, k3)" using b(1,2) by (simp add: new_vinode_def k2(1) k3_def)
        then have "make_entry mode ops d name di k = Some (0, v, k3)" using me b(2) by simp
        moreover have fv: "f \<noteq> v" using b(4) a(5) by auto
        have lv: "live (fheap k) v = None" using b(4) a(5) fv by simp
        have "entry_frame k k3 f {f, v}"
          unfolding entry_frame_def using a b k2 lv fv by (auto simp: k3_def map_le_def)
        moreover have "ramfs_lookup_child d name k3 = Some f" by (rule lk) (simp add: k3_def)
        ultimately show thesis using made [OF True, of v k3 f] fv b(2) by (simp add: k3_def)
      qed
    qed
  qed
qed

lemma entry_frame_foreign:
  assumes ok: "fs_wf k N K" and e: "entry_frame k k' f S" and q: "foreign k N q"
  shows "foreign k' (insert f N) q"
proof -
  have l: "live (fheap k) q \<noteq> None" "q \<notin> N" "\<forall>p \<in> N. idata (inodes k p) \<noteq> q" using q by (simp_all add: foreign_def)
  have q0: "q \<noteq> NULL" using l(1) kh.lv_NULL [OF fs_okD(1) [OF ok]] by metis
  have "p \<notin> S" if "p \<in> N" for p using fs_okD(2) [OF ok that] e by (fastforce simp: entry_frame_def)
  then have "idata (inodes k' p) \<noteq> q" if "p \<in> insert f N" for p using that l(3) q0 e by (auto simp: entry_frame_def)
  moreover have "q \<noteq> f" using l(1) e by (auto simp: entry_frame_def)
  moreover have "live (fheap k') q \<noteq> None" using l(1) e by (auto simp: entry_frame_def map_le_def dom_def)
  ultimately show ?thesis using l(2) by (simp add: foreign_def)
qed

section \<open>Releasing the dentries of a walk\<close>

lemma chain_release:
  assumes ok: "fs_wf (krn u) M K" and c: "foreign (krn u) M child" "child \<noteq> NULL" "\<not> is_root u child" "d_parent (den u child) = r"
    and r: "r \<noteq> NULL" "r \<noteq> child" "is_root u r \<or> foreign (krn u) M r \<and> d_parent (den u r) = NULL"
  obtains t where "vfs_free_dentry_chain child u = Some t" "same_tree (krn u) (krn t) M K" "inodes (krn t) = inodes (krn u)" "vframe u t"
proof -
  let ?u = "free_obj child u"
  note F = foreign_free [OF ok c(1) krn_free_obj]
  have ch: "vfs_free_dentry_chain child u = vfs_free_dentry_chain r ?u" by (rule chain_two [OF c(2-4) r(1,2)])
  show thesis
  proof (cases "is_root u r")
    case True
    then have "vfs_free_dentry_chain r ?u = Some ?u" by (intro chain_root) simp
    then show thesis using that [of ?u] ch F(1-3) vframe_free by (simp add: same_tree_def)
  next
    case False
    then have "foreign (krn u) M r" "d_parent (den ?u r) = NULL" using r(3) by auto
    note G = foreign_free [OF F(1) F(4) [OF this(1) r(2)] krn_free_obj] and p = this(2)
    have "vfs_free_dentry_chain r ?u = Some (free_obj r ?u)" by (rule chain_one [OF r(1) _ p]) (use False in simp)
    then show thesis
      using that [of "free_obj r ?u"] ch F(1-3) G(1-3) vframe_trans [OF vframe_free vframe_free] by (simp add: same_tree_def)
  qed
qed

lemma chain_vext:
  assumes e: "vext n s u" and c: "\<not> keep s child" "live (hp u) child \<noteq> None" "d_parent (den u child) = r" "\<not> is_root s child"
    and r: "temp s u r" "r \<noteq> child" "r \<noteq> NULL"
  obtains t where "vfs_free_dentry_chain child u = Some t" "vext n s t"
proof -
  have "child \<noteq> NULL" using c(2) kh.lv_NULL [OF vextD(1) [OF e]] by metis
  then have ch: "vfs_free_dentry_chain child u = vfs_free_dentry_chain r (free_obj child u)"
    using c(3,4) r(2,3) is_root_vext [OF e] by (intro chain_two) auto
  have e2: "vext n s (free_obj child u)" by (rule vext_free [OF e not_keep_live [OF c(1)] c(2)])
  have "live (hp (free_obj child u)) r = live (hp u) r" using kh.release_lv [OF vextD(1) [OF e] c(2)] r(2) by simp
  then have "temp s (free_obj child u) r" using r(1) by (simp add: temp_def)
  then obtain t where "vfs_free_dentry_chain r (free_obj child u) = Some t" "vext n s t" by (rule temp_free [OF _ e2])
  then show thesis using that ch by simp
qed

text \<open>The fresh dentry for the last component, with its parent set.\<close>

lemma new_child:
  assumes ok: "vfs_ok s N K" and e: "vext n s s1" and r: "dref s1 r y" "temp s s1 r"
  obtains (nomem) t where "alloc_dentry s1 = Some (NULL, s1)" "vfs_free_dentry_chain r s1 = Some t" "vext n s t" "nomem s n"
  | (new) child s2 where "alloc_dentry s1 = Some (child, s2)" "child \<noteq> NULL" "\<not> keep s child" "r \<noteq> child" "\<not> is_root s child"
      "vext (n + 1) s s2" "live (hp s2) child \<noteq> None" "dref s2 r y" "temp s s2 r" "den s2 child = zero_dentry" "den s2 r = den s1 r"
proof (rule alloc_dentry_cases [OF vextD(1) [OF e]])
  assume a: "\<not> can_alloc DENTRY_SIZE (hp s1)" "alloc_dentry s1 = Some (NULL, s1)"
  obtain t where "vfs_free_dentry_chain r s1 = Some t" "vext n s t" by (rule temp_free [OF r(2) e])
  moreover have "nomem s n" using a(1) e unfolding nomem_def by blast
  ultimately show thesis using nomem a(2) by blast
next
  fix child s2 assume c: "alloc_dentry s1 = Some (child, s2)" "child \<noteq> NULL" "vext 1 s1 s2" "\<not> keep s1 child" "keep s2 child"
    "den s2 child = zero_dentry" "live (hp s2) child \<noteq> None" "live (hp s1) child = None"
  have nk: "\<not> keep s child" using c(4) keep_vext [OF e] by blast
  have kr: "keep s1 r" using r(1) by (simp add: dref_def)
  have dr: "den s2 r = den s1 r" by (rule vextD(9) [OF c(3) kr])
  have "live (hp s2) r \<noteq> None" if "live (hp s1) r \<noteq> None" using that vextD(3) [OF c(3)] by auto
  then have "temp s s2 r" using r(2) dr by (auto simp: temp_def)
  moreover have "\<not> is_root s child" using nk vfs_okD(7) [OF ok] by blast
  moreover have "r \<noteq> child" using kr c(4) by blast
  ultimately show thesis using new [OF c(1,2) nk] vext_trans [OF e c(3)] c(6,7) dref_vext [OF c(3) r(1)] dr by simp
qed

section \<open>Making a file or directory by path\<close>

text \<open>The new inode \<open>f\<close> is in directory \<open>d\<close> under \<open>name\<close>, everything else is as before.\<close>

definition vfs_added :: "vfs \<Rightarrow> vfs \<Rightarrow> ptr set \<Rightarrow> (ptr \<Rightarrow> ptr list) \<Rightarrow> ptr \<Rightarrow> bytes \<Rightarrow> ptr \<Rightarrow> bool" where
  "vfs_added s t N K d name f \<longleftrightarrow> f \<notin> N
     \<and> (\<exists>K'. vfs_ok t (insert f N) K' \<and> dir_map (krn t) K' f = Map.empty
       \<and> (\<forall>e \<in> N. dir_map (krn t) K' e = (if e = d then (dir_map (krn s) K d)(name \<mapsto> f) else dir_map (krn s) K e)))
     \<and> (\<forall>p \<in> N. contents (krn t) p = contents (krn s) p \<and> imode (inodes (krn t) p) = imode (inodes (krn s) p))"

lemma entry_frame_vframe:
  assumes "entry_frame (krn s) k' f S" and "\<not> outside s child"
  shows "vframe s (upd_den child g (set_kern k' s))"
proof -
  have "vinodes k' p = vinodes (krn s) p" if "outside s p" for p
  proof -
    have "p \<notin> S" using assms(1) that by (auto simp: entry_frame_def outside_def)
    then show ?thesis using assms(1) by (simp add: entry_frame_def)
  qed
  then show ?thesis using assms by (auto simp: vframe_def entry_frame_def)
qed

lemma added_vfs:
  assumes ok: "vfs_ok s N K" and e: "vext n s s3" and ad: "added (krn s3) k' N K y name f" and ef: "entry_frame (krn s3) k' f S" and y: "y \<in> N"
    and K': "\<forall>e \<in> N. dir_map k' K' e = (if e = y then (dir_map (krn s3) K y)(name \<mapsto> f) else dir_map (krn s3) K e)" "dir_map k' K' f = Map.empty"
    and u: "vframe s3 u" and t: "same_tree k' (krn t) (insert f N) K'" "inodes (krn t) = inodes k'" "vframe u t"
  shows "vfs_added s t N K y name f"
proof -
  note F = vext_fs [OF e vfs_okD(1) [OF ok]]
  have "p \<notin> S" if "p \<in> N" for p
    using fs_okD(2) [OF F(1) that] ef by (fastforce simp: entry_frame_def)
  then have ip: "iparent (inodes (krn t) p) = iparent (inodes (krn s) p)" if "p \<in> N" for p
    using that ef t(2) F(4) [OF that] by (simp add: entry_frame_def)
  have fr: "vframe s t" by (rule vframe_trans [OF vext_vframe [OF e] vframe_trans [OF u t(3)]])
  have "vfs_ok t (insert f N) K'"
    by (rule vfs_ok_frame [OF ok fr]) (use t(1) ip in \<open>auto simp: same_tree_def\<close>)
  moreover have "f \<notin> N" using ad by (simp add: added_def)
  moreover have "dir_map (krn t) K' e = (if e = y then (dir_map (krn s) K y)(name \<mapsto> f) else dir_map (krn s) K e)" if "e \<in> N" for e
    using t(1) K'(1) that F(2) y by (auto simp: same_tree_def)
  moreover have "contents (krn t) p = contents (krn s) p \<and> imode (inodes (krn t) p) = imode (inodes (krn s) p)" if "p \<in> N" for p
    using t(1,2) ad that F(3,4) [OF that] by (auto simp: same_tree_def added_def)
  moreover have "dir_map (krn t) K' f = Map.empty" using t(1) K'(2) by (simp add: same_tree_def)
  ultimately show ?thesis unfolding vfs_added_def by blast
qed

lemma added_lookup:
  assumes "added k k' N K y name f'" and "y \<in> N" and "ramfs_lookup_child y name k' = Some f"
  shows "f' = f"
proof -
  obtain K' where "fs_wf k' (insert f' N) K'" "dir_map k' K' y name = Some f'" using assms(1,2) by (auto simp: added_def)
  then show ?thesis using lookup_child_spec [of k' "insert f' N" K' y name] assms(2,3) by simp
qed

lemma make_node_step:
  assumes l: "vfs_lookup_parent (Some path) s = Some (r, name, s1)" and ne: "r \<noteq> NULL" "name \<noteq> []" "alloc_dentry s1 = Some (child, s2)" "child \<noteq> NULL"
    and s3: "s3 = upd_den child (\<lambda>d. d\<lparr>d_name := name, d_parent := r, d_sb := d_sb (den s2 r)\<rparr>) s2"
    and d: "dref s3 r y" and z: "d_name (den s3 child) = name" "d_inode (den s3 child) = NULL"
    and op: "op = create_op \<and> mo = S_IFREG OR mode \<and> dops = False \<or> op = mkdir_op \<and> mo = S_IFDIR OR mode \<and> dops = True"
  shows "make_node op (Some path) mode s = do {
          (ret, v, k) \<leftarrow> make_entry mo dops y name NULL (krn s3);
          t \<leftarrow> vfs_free_dentry_chain child (upd_den child (d_inode_update (\<lambda>_. v)) (set_kern k s3)); Some (ret, t) }"
proof -
  define F where "F = (\<lambda>v nm di (m :: u32) k. make_entry mo dops (i_private (vinodes k v)) nm di k)"
  have i: "d_inode (den s3 r) \<noteq> NULL" "i_private (vinodes (krn s3) (d_inode (den s3 r))) = y" using d by (simp_all add: dref_def)
  obtain G where G: "dop op r s3 = Some G" "\<And>v nm di k. G v nm di mode k = F v nm di mode k"
    using op dop_simps(2,3) [OF i(1)] by (auto simp: F_def ramfs_create_def ramfs_mkdir_def)
  show ?thesis
    using l ne G z i by (simp add: make_node_def s3 [symmetric] call_create_def F_def Option.bind_assoc split_def)
qed

lemma make_node_finish:
  assumes ok: "vfs_ok s N K" and e3: "vext n s s3" and c: "child \<noteq> NULL" "\<not> keep s child" "r \<noteq> child" "\<not> is_root s child"
    and z: "d_parent (den s3 child) = r" "d_inode (den s3 child) = NULL" "live (hp s3) child \<noteq> None"
    and d3: "dref s3 r y" and t3: "temp s s3 r" and y: "y \<in> N" and nm: "name \<noteq> []" "length name \<le> RAMFS_MAX_NAME"
    and mk: "M = do {
          (ret, v, k) \<leftarrow> make_entry mo dops y name NULL (krn s3);
          t \<leftarrow> vfs_free_dentry_chain child (upd_den child (d_inode_update (\<lambda>_. v)) (set_kern k s3)); Some (ret, t) }"
  shows "\<exists>ret t. M = Some (ret, t)
    \<and> (vfs_ok t N K \<and> same_tree (krn s) (krn t) N K
         \<and> (ret = - ENOTDIR \<and> \<not> isdir (krn s) y \<or> ret = - EEXIST \<and> dir_map (krn s) K y name \<noteq> None \<or> ret = - ENOMEM \<and> nomem s n)
      \<or> (\<exists>f. isdir (krn s) y \<and> dir_map (krn s) K y name = None \<and> vfs_added s t N K y name f
           \<and> (ret = - ENOMEM \<or> ret = 0 \<and> imode (inodes (krn t) f) = mo \<and> contents (krn t) f = [])))"
proof -
  note wf = vfs_okD(1) [OF ok] and F = vext_fs [OF e3 vfs_okD(1) [OF ok]]
  have r0: "r \<noteq> NULL" using d3 by (simp add: dref_def)
  have same: "vfs_ok t N K \<and> same_tree (krn s) (krn t) N K" if "vext m s t" for m t
    using vfs_ok_vext [OF ok that] vext_same_tree [OF wf that] by blast
  have dir: "isdir (krn s3) y = isdir (krn s) y" using F(4) [OF y] by simp
  have L: "ramfs_lookup_child y name (krn s3) = Some (case dir_map (krn s) K y name of None \<Rightarrow> NULL | Some c \<Rightarrow> c)"
    using lookup_child_spec [OF F(1) y] F(2) [OF y] by simp
  have cn: "(case dir_map (krn s) K y name of None \<Rightarrow> NULL | Some c \<Rightarrow> c) = NULL \<longleftrightarrow> dir_map (krn s) K y name = None"
    by (auto split: option.splits elim: dir_map_mem [OF wf y])
  have undone: "\<exists>t. M = Some (ret, t) \<and> vfs_ok t N K \<and> same_tree (krn s) (krn t) N K"
    if m: "make_entry mo dops y name NULL (krn s3) = Some (ret, NULL, k')" "vext n s (set_kern k' s3)" "live (fheap k') = live (hp s3)" for ret k'
  proof -
    let ?u = "upd_den child (d_inode_update (\<lambda>_. NULL)) (set_kern k' s3)"
    have lk: "live (fheap k') child \<noteq> None" using m(3) z(3) by simp
    have tm: "temp s ?u r" using t3 c(3) m(3) by (auto simp: temp_def)
    obtain t where "vfs_free_dentry_chain child ?u = Some t" "vext n s t"
      by (rule chain_vext [OF vext_upd_den [OF m(2) c(2)] c(2) _ _ c(4) tm c(3) r0]) (use lk z(1) in simp_all)
    then show ?thesis using mk m(1) same by simp
  qed
  have sk: "set_kern (krn s3) s3 = s3" by (simp add: set_kern_def)
  have y0: "y \<noteq> NULL" by (rule fs_okD(5) [OF wf y])
  have ly: "live (hp s3) y \<noteq> None" using fs_okD(2) [OF F(1) y] by auto
  have fc: "foreign (krn s3) N child" by (rule vext_foreign [OF wf e3 c(2) z(3)])
  have fr: "is_root s r \<or> foreign (krn s3) N r \<and> d_parent (den s3 r) = NULL"
    using t3 vext_foreign [OF wf e3] by (auto simp: temp_def)
  have new: "\<exists>t f. M = Some (ret, t) \<and> vfs_added s t N K y name f \<and> inodes (krn t) = inodes k' \<and> contents (krn t) f = contents k' f
      \<and> f = f'"
    if m: "make_entry mo dops y name NULL (krn s3) = Some (ret, v, k')" "entry_frame (krn s3) k' f' S" "added (krn s3) k' N K y name f'" for ret v k' f' S
  proof -
    define u where "u = upd_den child (d_inode_update (\<lambda>_. v)) (set_kern k' s3)"
    have out: "\<not> outside s3 child" using c(2) vextD(4,5) [OF e3] by (auto simp: keep_def outside_def)
    have vf: "vframe s3 u" unfolding u_def by (rule entry_frame_vframe [OF m(2) out])
    obtain K' where K': "fs_wf (krn u) (insert f' N) K'"
      "\<forall>e \<in> N. dir_map k' K' e = (if e = y then (dir_map (krn s3) K y)(name \<mapsto> f') else dir_map (krn s3) K e)" "dir_map k' K' f' = Map.empty"
      using m(3) by (auto simp: added_def u_def)
    note ff = entry_frame_foreign [OF F(1) m(2)]
    have "\<not> is_root u child" "is_root u r \<or> foreign (krn u) (insert f' N) r \<and> d_parent (den u r) = NULL"
      using c(3,4) fr ff is_root_vext [OF e3] by (auto simp: u_def)
    moreover have "foreign (krn u) (insert f' N) child" using ff [OF fc] by (simp add: u_def)
    moreover have "d_parent (den u child) = r" using z(1) by (simp add: u_def)
    ultimately obtain t where t: "vfs_free_dentry_chain child u = Some t" "same_tree (krn u) (krn t) (insert f' N) K'"
      "inodes (krn t) = inodes (krn u)" "vframe u t"
      using chain_release [OF K'(1) _ c(1) _ _ r0 c(3)] by blast
    have ku: "krn u = k'" by (simp add: u_def)
    have "vfs_added s t N K y name f'"
      by (rule added_vfs [OF ok e3 m(3,2) y K'(2,3) vf t(2,3,4) [unfolded ku]])
    moreover have "M = Some (ret, t)" using mk m(1) t(1) by (simp add: u_def)
    moreover have "contents (krn t) f' = contents k' f'" using t(2) ku by (simp add: same_tree_def)
    ultimately show ?thesis using t(3) ku by blast
  qed
  show ?thesis
  proof (rule make_entry_cases [OF fs_okD(1) [OF F(1)] y0 ly nm L, of mo dops NULL])
    assume a: "(case dir_map (krn s) K y name of None \<Rightarrow> NULL | Some c \<Rightarrow> c) \<noteq> NULL" "make_entry mo dops y name NULL (krn s3) = Some (- EEXIST, NULL, krn s3)"
    then show ?thesis using undone [OF a(2)] e3 sk cn by auto
  next
    assume a: "make_entry mo dops y name NULL (krn s3) = Some (- ENOMEM, NULL, krn s3)" "\<not> can_alloc INODE_SIZE (hp s3)"
    have "nomem s n" using a(2) e3 unfolding nomem_def by blast
    then show ?thesis using undone [OF a(1)] e3 sk by auto
  next
    fix f k' assume a: "\<not> isdir (krn s3) y" "make_entry mo dops y name NULL (krn s3) = Some (- ENOTDIR, NULL, k')" "heap_inv (fheap k')"
      "live (fheap k') = live (hp s3)" "heap_start (fheap k') = heap_start (hp s3)" "heap_end (fheap k') = heap_end (hp s3)"
      "\<forall>q n a. live (hp s3) q = Some n \<longrightarrow> q \<le> a \<longrightarrow> a < q + n \<longrightarrow> mem (fheap k') a = mem (hp s3) a"
      "live (hp s3) f = None" "heap_start (hp s3) \<le> f" "f < heap_end (hp s3)" "\<forall>p. p \<noteq> f \<longrightarrow> inodes k' p = inodes (krn s3) p" "vinodes k' = vinodes (krn s3)"
    have "inodes k' p = inodes (krn s3) p" if "keep s3 p" for p using that a(8-11) by (cases "p = f") (auto simp: keep_def)
    then have "vext 0 s3 (set_kern k' s3)" using a(3-7,12) unfolding vext_def by simp
    then have "vext n s (set_kern k' s3)" using vext_trans [OF e3] by fastforce
    then show ?thesis using undone [OF a(2) _ a(4)] a(1) dir by auto
  next
    fix f k' assume a: "isdir (krn s3) y" "make_entry mo dops y name NULL (krn s3) = Some (- ENOMEM, NULL, k')" "entry_frame (krn s3) k' f {f}"
      "ramfs_lookup_child y name k' = Some f"
    have "k' \<noteq> krn s3" using a(3) by (auto simp: entry_frame_def)
    then obtain f' where f': "added (krn s3) k' N K y name f'" "dir_map (krn s3) K y name = None"
      using make_entry_spec [OF F(1) y a(1) nm, of mo dops NULL] a(2) by auto
    have "f' = f" by (rule added_lookup [OF f'(1) y a(4)])
    then show ?thesis using new [OF a(2,3)] f' dir a(1) F(2) [OF y] by metis
  next
    fix f v k' assume a: "isdir (krn s3) y" "make_entry mo dops y name NULL (krn s3) = Some (0, v, k')" "entry_frame (krn s3) k' f {f, v}" "f \<noteq> v" "v \<noteq> NULL"
      "i_private (vinodes k' v) = f" "ramfs_lookup_child y name k' = Some f"
    then obtain f' where f': "added (krn s3) k' N K y name f'" "dir_map (krn s3) K y name = None" "imode (inodes k' f') = mo" "contents k' f' = []"
      using make_entry_spec [OF F(1) y a(1) nm, of mo dops NULL] by (auto simp: made_def)
    have "f' = f" by (rule added_lookup [OF f'(1) y a(7)])
    then show ?thesis using new [OF a(2,3)] f' dir a(1) F(2) [OF y] by metis
  qed
qed

lemma make_node_spec:
  assumes ok: "vfs_ok s N K" and p: "vpath s path = (x, cs)"
    and op: "op = create_op \<and> mo = S_IFREG OR mode \<and> dops = False \<or> op = mkdir_op \<and> mo = S_IFDIR OR mode \<and> dops = True"
  shows "\<exists>ret t. make_node op (Some path) mode s = Some (ret, t)
    \<and> (vfs_ok t N K \<and> same_tree (krn s) (krn t) N K
         \<and> (case (if cs = [] then None else dir_walk (krn s) K x (butlast cs)) of
              None \<Rightarrow> ret = - ENOENT
            | Some y \<Rightarrow> ret = - ENOTDIR \<and> \<not> isdir (krn s) y \<or> ret = - EEXIST \<and> dir_map (krn s) K y (last cs) \<noteq> None
                       \<or> (ret = - ENOENT \<or> ret = - ENOMEM) \<and> nomem s (2 * length cs + 1))
      \<or> (\<exists>y f. cs \<noteq> [] \<and> dir_walk (krn s) K x (butlast cs) = Some y \<and> y \<in> N \<and> isdir (krn s) y \<and> dir_map (krn s) K y (last cs) = None
           \<and> vfs_added s t N K y (last cs) f
           \<and> (ret = - ENOMEM \<or> ret = 0 \<and> imode (inodes (krn t) f) = mo \<and> contents (krn t) f = [])))"
proof -
  note wf = vfs_okD(1) [OF ok]
  obtain r name s1 where l: "vfs_lookup_parent (Some path) s = Some (r, name, s1)" "vext (2 * length cs) s s1"
    and lr: "if cs = [] then r = NULL else
       (case dir_walk (krn s) K x (butlast cs) of None \<Rightarrow> r = NULL
         | Some y \<Rightarrow> y \<in> N \<and> (r = NULL \<and> nomem s (2 * length cs) \<or> dref s1 r y \<and> temp s s1 r \<and> name = last cs))"
    using lookup_parent_spec [OF ok p] by blast
  have same: "vfs_ok t N K \<and> same_tree (krn s) (krn t) N K" if "vext n s t" for n t
    using vfs_ok_vext [OF ok that] vext_same_tree [OF wf that] by blast
  show ?thesis
  proof (cases "r = NULL")
    case True
    then have "make_node op (Some path) mode s = Some (- ENOENT, s1)" using l(1) by (simp add: make_node_def)
    then show ?thesis using same [OF l(2)] lr True nomem_mono by (auto simp: dref_def split: option.splits)
  next
    case False
    then obtain y where cs: "cs \<noteq> []" and y: "dir_walk (krn s) K x (butlast cs) = Some y" "y \<in> N" "dref s1 r y" "temp s s1 r" "name = last cs"
      using lr by (auto split: if_splits option.splits)
    have nm: "name \<noteq> []" "length name \<le> RAMFS_MAX_NAME"
      using vpath_names [OF p] y(5) cs by (simp_all add: NAME_MAX_def RAMFS_MAX_NAME_def)
    let ?n = "2 * length cs"
    show ?thesis
    proof (rule new_child [OF ok l(2) y(3,4)])
      fix t assume t: "alloc_dentry s1 = Some (NULL, s1)" "vfs_free_dentry_chain r s1 = Some t" "vext ?n s t" "nomem s ?n"
      then have "make_node op (Some path) mode s = Some (- ENOMEM, t)" using l(1) False nm(1) by (simp add: make_node_def drop_parent_eq)
      then show ?thesis using same [OF t(3)] cs y(1) nomem_mono [OF t(4)] by simp
    next
      fix child s2 assume c: "alloc_dentry s1 = Some (child, s2)" "child \<noteq> NULL" "\<not> keep s child" "r \<noteq> child" "\<not> is_root s child"
        "vext (?n + 1) s s2" "live (hp s2) child \<noteq> None" "dref s2 r y" "temp s s2 r" "den s2 child = zero_dentry" "den s2 r = den s1 r"
      define s3 where "s3 = upd_den child (\<lambda>d. d\<lparr>d_name := name, d_parent := r, d_sb := d_sb (den s2 r)\<rparr>) s2"
      have e3: "vext (?n + 1) s s3" unfolding s3_def by (rule vext_upd_den [OF c(6,3)])
      have z: "d_name (den s3 child) = name" "d_parent (den s3 child) = r" "d_inode (den s3 child) = NULL" "den s3 r = den s1 r"
        "live (hp s3) child \<noteq> None" "krn s3 = krn s2"
        using c(4,7,10,11) by (simp_all add: s3_def zero_dentry_def)
      have d3: "dref s3 r y" unfolding s3_def dref_upd [OF c(4)] by (rule c(8))
      have t3: "temp s s3 r" using c(4,9) by (auto simp: temp_def s3_def)
      have mk: "make_node op (Some path) mode s = do {
          (ret, v, k) \<leftarrow> make_entry mo dops y name NULL (krn s3);
          t \<leftarrow> vfs_free_dentry_chain child (upd_den child (d_inode_update (\<lambda>_. v)) (set_kern k s3)); Some (ret, t) }"
        by (rule make_node_step [OF l(1) False nm(1) c(1,2) s3_def d3 z(1,3) op])
      obtain ret t where R: "make_node op (Some path) mode s = Some (ret, t)"
        "vfs_ok t N K \<and> same_tree (krn s) (krn t) N K
          \<and> (ret = - ENOTDIR \<and> \<not> isdir (krn s) y \<or> ret = - EEXIST \<and> dir_map (krn s) K y name \<noteq> None \<or> ret = - ENOMEM \<and> nomem s (?n + 1))
         \<or> (\<exists>f. isdir (krn s) y \<and> dir_map (krn s) K y name = None \<and> vfs_added s t N K y name f
           \<and> (ret = - ENOMEM \<or> ret = 0 \<and> imode (inodes (krn t) f) = mo \<and> contents (krn t) f = []))"
        using make_node_finish [OF ok e3 c(2-5) z(2,3,5) d3 t3 y(2) nm mk] by blast
      have cd: "(if cs = [] then None else dir_walk (krn s) K x (butlast cs)) = Some y" using cs y(1) by simp
      show ?thesis unfolding cd option.case y(5) [symmetric]
        by (intro exI [of _ ret] exI [of _ t] conjI R(1)) (use R(2) cs y(1,2) in blast)
    qed
  qed
qed

section \<open>Removing by path\<close>

text \<open>The inode \<open>c\<close> is gone from directory \<open>d\<close>, everything else is as before.\<close>

definition vfs_removed :: "vfs \<Rightarrow> vfs \<Rightarrow> ptr set \<Rightarrow> (ptr \<Rightarrow> ptr list) \<Rightarrow> ptr \<Rightarrow> bytes \<Rightarrow> ptr \<Rightarrow> bool" where
  "vfs_removed s t N K d name c \<longleftrightarrow>
     (\<exists>K'. vfs_ok t (N - {c}) K'
       \<and> (\<forall>e \<in> N - {c}. dir_map (krn t) K' e = (if e = d then (dir_map (krn s) K d)(name := None) else dir_map (krn s) K e)))
     \<and> (\<forall>p \<in> N - {c}. contents (krn t) p = contents (krn s) p \<and> imode (inodes (krn t) p) = imode (inodes (krn s) p))"

lemma unlink_frame:
  assumes ok: "fs_wf k N K" and y: "y \<in> N" and c: "dir_map k K y name = Some c"
    and u: "unlink_cell (Child_of y) c k = Some k1" and k': "k' = ramfs_free_inode c k1"
  shows "iparent (inodes k' p) = iparent (inodes k p)" "idata (inodes k' p) = idata (inodes k p)" "vinodes k' = vinodes k"
    "heap_start (fheap k') = heap_start (fheap k)" "heap_end (fheap k') = heap_end (fheap k)"
proof -
  obtain us vs where kd: "K y = us @ c # vs" by (rule dir_map_mem [OF ok y c])
  have k1: "k1 = k\<lparr>inodes := cut y us c (inodes k)\<rparr>" using u unlink_dir_spec [OF ok y kd] by simp
  show "iparent (inodes k' p) = iparent (inodes k p)" "idata (inodes k' p) = idata (inodes k p)" "vinodes k' = vinodes k"
    "heap_start (fheap k') = heap_start (fheap k)" "heap_end (fheap k') = heap_end (fheap k)"
    by (simp_all add: k' k1 ramfs_free_inode_def Let_def)
qed

text \<open>Both removing operations on a directory inode, in one form.\<close>

lemma remove_op_spec:
  assumes ok: "fs_wf k N K" and y: "y \<in> N" "i_private (vinodes k v) = y" and c: "dir_map k K y name = Some c"
    and op: "f = ramfs_unlink \<and> \<not> isdir k c \<or> f = ramfs_rmdir \<and> isdir k c"
  obtains (notempty) "f v name k = Some (- ENOTEMPTY, k)" "K c \<noteq> []"
  | (gone) k' where "f v name k = Some (0, k')" "removed k k' N K y name c" "\<And>p. iparent (inodes k' p) = iparent (inodes k p)"
      "\<And>p. idata (inodes k' p) = idata (inodes k p)" "vinodes k' = vinodes k"
      "heap_start (fheap k') = heap_start (fheap k)" "heap_end (fheap k') = heap_end (fheap k)" "K c = []"
proof -
  note cN = dir_map_child [OF ok y(1) c]
  note L = lookup_child_spec [OF ok y(1), of name]
  have kc: "\<not> isdir k c \<Longrightarrow> K c = []" using dir_okD(5) [OF fs_okD(4) [OF ok cN(1)]] by blast
  show thesis
  proof (cases "K c = []")
    case True
    obtain k1 where k1: "unlink_cell (Child_of y) c k = Some k1" "removed k (ramfs_free_inode c k1) N K y name c"
      by (rule remove_entry [OF ok y(1) c True])
    have "f v name k = Some (0, ramfs_free_inode c k1)"
      using op L c y(2) cN k1(1) True children_NULL [OF ok cN(1)] by (auto simp: ramfs_unlink_def ramfs_rmdir_def)
    then show thesis using gone k1(2) unlink_frame [OF ok y(1) c k1(1) refl] True by blast
  next
    case False
    then have "f = ramfs_rmdir" "isdir k c" using op kc by blast+
    then show thesis using notempty False L c y(2) cN children_NULL [OF ok cN(1)] by (simp add: ramfs_rmdir_def)
  qed
qed

lemma removed_vfs:
  assumes ok: "vfs_ok s N K" and e: "vext n s s3" and rm: "removed (krn s3) k' N K y name c" and y: "y \<in> N" and c: "dir_map (krn s) K y name = Some c"
    and fr: "\<And>p. iparent (inodes k' p) = iparent (inodes (krn s3) p)" "\<And>p. idata (inodes k' p) = idata (inodes (krn s3) p)" "vinodes k' = vinodes (krn s3)"
      "heap_start (fheap k') = heap_start (hp s3)" "heap_end (fheap k') = heap_end (hp s3)"
    and q: "foreign (krn s3) N child" and t: "t = free_obj child (set_kern k' s3)"
  shows "vfs_removed s t N K y name c"
proof -
  note wf = vfs_okD(1) [OF ok] and F = vext_fs [OF e vfs_okD(1) [OF ok]]
  note cN = dir_map_child(1,3) [OF wf y c]
  obtain K' where K': "fs_wf k' (N - {c}) K'"
    "\<forall>e \<in> N - {c}. dir_map k' K' e = (if e = y then (dir_map (krn s) K y)(name := None) else dir_map (krn s) K e)"
    "\<forall>p \<in> N - {c}. contents k' p = contents (krn s) p \<and> imode (inodes k' p) = imode (inodes (krn s) p)"
    by (rule removed_pre [OF vext_same_tree [OF wf e] rm y cN(1)])
  have "live (fheap k') child \<noteq> None"
    using q rm cN(1) by (auto simp: removed_def foreign_def)
  then have fo: "foreign k' (N - {c}) child" using q fr(2) by (auto simp: foreign_def)
  have kt: "krn t = k'\<lparr>fheap := kfree child (fheap k')\<rparr>" by (simp add: t krn_free_obj)
  note G = foreign_free [OF K'(1) fo kt]
  have "vframe s3 t" using fr(3-5) by (simp add: vframe_def t)
  then have vf: "vframe s t" using vframe_trans [OF vext_vframe [OF e]] by blast
  have "vfs_ok t (N - {c}) K'"
  proof (rule vfs_ok_frame [OF ok vf G(1)])
    fix x assume x: "x \<in> N" "iparent (inodes (krn s) x) = NULL"
    then have "x \<noteq> c" using cN(2) fs_okD(5) [OF wf y] by auto
    moreover have "iparent (inodes (krn t) x) = NULL" using fr(1) F(4) [OF x(1)] x(2) by (simp add: kt)
    ultimately show "x \<in> N - {c} \<and> iparent (inodes (krn t) x) = NULL" using x(1) by blast
  qed
  then show ?thesis unfolding vfs_removed_def using K'(2,3) G(2,3) by (auto simp: kt intro!: exI [of _ K'])
qed

lemma remove_found_spec:
  assumes ok: "vfs_ok s N K" and e4: "vext n s s4" and c: "child \<noteq> NULL" "\<not> keep s child" "\<not> is_root s child" "live (hp s4) child \<noteq> None"
    and ch: "d_parent (den s4 child) = NULL" "d_name (den s4 child) = name" and d: "dref s4 r y" "y \<in> N" and e: "dir_map (krn s) K y name = Some e"
    and v: "dref s4 child e" "i_mode (vinodes (krn s4) (d_inode (den s4 child))) = imode (inodes (krn s) e)"
    and op: "op = unlink_op \<and> dir = False \<and> err = - EISDIR \<or> op = rmdir_op \<and> dir = True \<and> err = - ENOTDIR"
  shows "\<exists>ret t. remove_found op dir err r child s4 = Some (ret, t)
    \<and> (vfs_ok t N K \<and> same_tree (krn s) (krn t) N K \<and> (ret = err \<and> isdir (krn s) e \<noteq> dir \<or> ret = - ENOTEMPTY \<and> dir \<and> K e \<noteq> [])
      \<or> isdir (krn s) e = dir \<and> K e = [] \<and> ret = 0 \<and> vfs_removed s t N K y name e)"
proof -
  note wf = vfs_okD(1) [OF ok] and F = vext_fs [OF e4 vfs_okD(1) [OF ok]]
  have tm: "temp s s4 child" using c(2,4) ch(1) by (simp add: temp_def)
  obtain t where t: "vfs_free_dentry_chain child s4 = Some t" "vext n s t" by (rule temp_free [OF tm e4])
  have same: "vfs_ok t N K \<and> same_tree (krn s) (krn t) N K" using vfs_ok_vext [OF ok t(2)] vext_same_tree [OF wf t(2)] by blast
  have v0: "d_inode (den s4 child) \<noteq> NULL" using v(1) by (simp add: dref_def)
  have i: "d_inode (den s4 r) \<noteq> NULL" "i_private (vinodes (krn s4) (d_inode (den s4 r))) = y" using d(1) by (simp_all add: dref_def)
  show ?thesis
  proof (cases "isdir (krn s) e = dir")
    case False
    then show ?thesis using t(1) v0 v(2) same by (simp add: remove_found_def)
  next
    case True
    obtain f where f: "dop op r s4 = Some f" "f = ramfs_unlink \<and> \<not> isdir (krn s4) e \<or> f = ramfs_rmdir \<and> isdir (krn s4) e"
      using op dop_simps(4,5) [OF i(1)] True F(4) [OF dir_map_child(1) [OF wf d(2) e]] by auto
    have rf: "remove_found op dir err r child s4 = do { (ret, k) \<leftarrow> f (d_inode (den s4 r)) name (krn s4);
        t \<leftarrow> vfs_free_dentry_chain child (set_kern k s4); Some (ret, t) }"
      using v0 v(2) True f(1) ch(2) by (simp add: remove_found_def)
    have e': "dir_map (krn s4) K y name = Some e" using e F(2) [OF d(2)] by simp
    show ?thesis
    proof (rule remove_op_spec [OF F(1) d(2) i(2) e' f(2)])
      assume "f (d_inode (den s4 r)) name (krn s4) = Some (- ENOTEMPTY, krn s4)" and ne: "K e \<noteq> []"
      moreover have "set_kern (krn s4) s4 = s4" by (simp add: set_kern_def)
      moreover have "isdir (krn s) e"
        using ne dir_okD(5) [OF fs_okD(4) [OF wf dir_map_child(1) [OF wf d(2) e]]] by blast
      ultimately show ?thesis using rf t(1) same True by simp
    next
      fix k' assume g: "f (d_inode (den s4 r)) name (krn s4) = Some (0, k')" "removed (krn s4) k' N K y name e"
        "\<And>p. iparent (inodes k' p) = iparent (inodes (krn s4) p)" "\<And>p. idata (inodes k' p) = idata (inodes (krn s4) p)" "vinodes k' = vinodes (krn s4)"
        "heap_start (fheap k') = heap_start (hp s4)" "heap_end (fheap k') = heap_end (hp s4)" "K e = []"
      have "vfs_free_dentry_chain child (set_kern k' s4) = Some (free_obj child (set_kern k' s4))"
        by (rule chain_one) (use c(1,3) ch(1) is_root_vext [OF e4] in simp_all)
      moreover have "vfs_removed s (free_obj child (set_kern k' s4)) N K y name e"
        by (rule removed_vfs [OF ok e4 g(2) d(2) e g(3-7) vext_foreign [OF wf e4 c(2,4)] refl])
      ultimately show ?thesis using rf g(1,8) True by simp
    qed
  qed
qed

lemma remove_node_spec:
  assumes ok: "vfs_ok s N K" and p: "vpath s path = (x, cs)"
    and op: "op = unlink_op \<and> dir = False \<and> err = - EISDIR \<or> op = rmdir_op \<and> dir = True \<and> err = - ENOTDIR"
  shows "\<exists>ret t. remove_node op dir err (Some path) s = Some (ret, t)
    \<and> (vfs_ok t N K \<and> same_tree (krn s) (krn t) N K
         \<and> (case (if cs = [] then None else dir_walk (krn s) K x cs) of
              None \<Rightarrow> ret = - ENOENT \<or> ret = - ENOMEM \<and> nomem s (2 * length cs + 1)
            | Some c \<Rightarrow> ret = err \<and> isdir (krn s) c \<noteq> dir \<or> ret = - ENOTEMPTY \<and> dir \<and> K c \<noteq> []
                       \<or> (ret = - ENOENT \<or> ret = - ENOMEM) \<and> nomem s (2 * length cs + 1))
      \<or> (\<exists>y c. cs \<noteq> [] \<and> dir_walk (krn s) K x (butlast cs) = Some y \<and> y \<in> N \<and> dir_map (krn s) K y (last cs) = Some c
           \<and> isdir (krn s) c = dir \<and> K c = [] \<and> ret = 0 \<and> vfs_removed s t N K y (last cs) c))"
proof -
  note wf = vfs_okD(1) [OF ok]
  obtain r name s1 where l: "vfs_lookup_parent (Some path) s = Some (r, name, s1)" "vext (2 * length cs) s s1"
    and lr: "if cs = [] then r = NULL else
       (case dir_walk (krn s) K x (butlast cs) of None \<Rightarrow> r = NULL
         | Some y \<Rightarrow> y \<in> N \<and> (r = NULL \<and> nomem s (2 * length cs) \<or> dref s1 r y \<and> temp s s1 r \<and> name = last cs))"
    using lookup_parent_spec [OF ok p] by blast
  have same: "vfs_ok t N K \<and> same_tree (krn s) (krn t) N K" if "vext n s t" for n t
    using vfs_ok_vext [OF ok that] vext_same_tree [OF wf that] by blast
  let ?n = "2 * length cs"
  show ?thesis
  proof (cases "r = NULL")
    case True
    then have "remove_node op dir err (Some path) s = Some (- ENOENT, s1)" using l(1) by (simp add: remove_node_def)
    moreover have "nomem s (?n + 1)" if "cs \<noteq> []" "dir_walk (krn s) K x cs = Some c" for c
      using lr True that dir_walk_last [OF that(1)] nomem_mono [of s ?n] by (auto simp: dref_def Option.bind_eq_Some_conv)
    ultimately show ?thesis using same [OF l(2)] by (auto split: option.split)
  next
    case False
    then obtain y where cs: "cs \<noteq> []" and y: "dir_walk (krn s) K x (butlast cs) = Some y" "y \<in> N" "dref s1 r y" "temp s s1 r" "name = last cs"
      using lr by (auto split: if_splits option.splits)
    have dw: "(if cs = [] then None else dir_walk (krn s) K x cs) = dir_map (krn s) K y name" using cs dir_walk_last [OF cs] y(1,5) by simp
    show ?thesis
    proof (rule new_child [OF ok l(2) y(3,4)])
      fix t assume t: "alloc_dentry s1 = Some (NULL, s1)" "vfs_free_dentry_chain r s1 = Some t" "vext ?n s t" "nomem s ?n"
      then have "remove_node op dir err (Some path) s = Some (- ENOMEM, t)" using l(1) False by (simp add: remove_node_def drop_parent_eq)
      then show ?thesis using same [OF t(3)] nomem_mono [OF t(4)] by (auto split: option.split)
    next
      fix child s2 assume c: "alloc_dentry s1 = Some (child, s2)" "child \<noteq> NULL" "\<not> keep s child" "r \<noteq> child" "\<not> is_root s child"
        "vext (?n + 1) s s2" "live (hp s2) child \<noteq> None" "dref s2 r y" "temp s s2 r" "den s2 child = zero_dentry" "den s2 r = den s1 r"
      define s3 where "s3 = upd_den child (d_name_update (\<lambda>_. name)) s2"
      have e3: "vext (?n + 1) s s3" unfolding s3_def by (rule vext_upd_den [OF c(6,3)])
      have z: "d_name (den s3 child) = name" "d_parent (den s3 child) = NULL" "d_inode (den s3 child) = NULL" "live (hp s3) child \<noteq> None" "keep s3 child"
        using c(7,10) by (simp_all add: s3_def zero_dentry_def keep_def)
      have d3: "dref s3 r y" unfolding s3_def dref_upd [OF c(4)] by (rule c(8))
      have i3: "d_inode (den s3 r) \<noteq> NULL" "d_inode (den s2 r) \<noteq> NULL" using d3 c(8) by (simp_all add: dref_def)
      have R: "remove_node op dir err (Some path) s = do { u \<leftarrow> call_lookup ramfs_lookup r child s3; remove_found op dir err r child u }"
        using l(1) False c(1,2) i3 dop_simps(1) [OF i3(1)] by (simp add: remove_node_def s3_def [symmetric])
      have tm: "temp s s3 child" using c(3) z(2,4) by (simp add: temp_def)
      obtain t where t: "vfs_free_dentry_chain child s3 = Some t" "vext (?n + 1) s t" by (rule temp_free [OF tm e3])
      have gone: "remove_found op dir err r child s3 = Some (- ENOENT, t)" using t(1) z(3) by (simp add: remove_found_def)
      show ?thesis
      proof (rule call_lookup_cases [OF e3 wf d3 y(2) c(4,3) z(5,3,1)])
        assume a: "dir_map (krn s) K y name = None" "call_lookup ramfs_lookup r child s3 = Some s3"
        then show ?thesis unfolding dw using R gone same [OF t(2)] by simp
      next
        fix e assume a: "dir_map (krn s) K y name = Some e" "e \<in> N" "call_lookup ramfs_lookup r child s3 = Some s3" "nomem s (?n + 1)"
        then show ?thesis unfolding dw using R gone same [OF t(2)] by simp
      next
        fix e s4 assume a: "dir_map (krn s) K y name = Some e" "e \<in> N" "call_lookup ramfs_lookup r child s3 = Some s4" "vext (?n + 1 + 1) s s4"
          "dref s4 child e" "dref s4 r y" "live (hp s3) \<subseteq>\<^sub>m live (hp s4)" "\<not> keep s (d_inode (den s4 child))"
          "den s4 child = (den s3 child)\<lparr>d_inode := d_inode (den s4 child)\<rparr>" "\<And>q. q \<noteq> child \<Longrightarrow> den s4 q = den s3 q"
          "vinodes (krn s4) (d_inode (den s4 child)) = \<lparr>i_ino = ino (inodes (krn s) e), i_mode = imode (inodes (krn s) e),
             i_size = isize (inodes (krn s) e), i_dir_ops = isdir (krn s) e, i_private = e\<rparr>"
        have ch: "d_parent (den s4 child) = NULL" "d_name (den s4 child) = name" by (subst a(9), simp add: z(1,2))+
        have lv: "live (hp s4) child \<noteq> None" using a(7) z(4) by (auto simp: map_le_def dom_def)
        have im: "i_mode (vinodes (krn s4) (d_inode (den s4 child))) = imode (inodes (krn s) e)" by (simp add: a(11))
        obtain ret t where "remove_found op dir err r child s4 = Some (ret, t)"
          "vfs_ok t N K \<and> same_tree (krn s) (krn t) N K \<and> (ret = err \<and> isdir (krn s) e \<noteq> dir \<or> ret = - ENOTEMPTY \<and> dir \<and> K e \<noteq> [])
           \<or> isdir (krn s) e = dir \<and> K e = [] \<and> ret = 0 \<and> vfs_removed s t N K y name e"
          using remove_found_spec [OF ok a(4) c(2,3,5) lv ch a(6) y(2) a(1,5) im op] by blast
        then show ?thesis unfolding dw using R a(1,3) cs y(1,2,5) by auto
      qed
    qed
  qed
qed

section \<open>Properties of the tree operations\<close>

text \<open>The specification of \<^verbatim>\<open>vfs_create\<close> and \<^verbatim>\<open>vfs_mkdir\<close> for the path with components \<open>cs\<close> from the inode \<open>x\<close>: result
  \<open>ret\<close>, state \<open>t\<close> and the mode \<open>mo\<close> of the new inode.\<close>

definition make_result :: "vfs \<Rightarrow> ptr set \<Rightarrow> (ptr \<Rightarrow> ptr list) \<Rightarrow> ptr \<Rightarrow> bytes list \<Rightarrow> u32 \<Rightarrow> int \<Rightarrow> vfs \<Rightarrow> bool" where
  "make_result s N K x cs mo ret t \<longleftrightarrow>
     vfs_ok t N K \<and> same_tree (krn s) (krn t) N K
         \<and> (case (if cs = [] then None else dir_walk (krn s) K x (butlast cs)) of
              None \<Rightarrow> ret = - ENOENT
            | Some y \<Rightarrow> ret = - ENOTDIR \<and> \<not> isdir (krn s) y \<or> ret = - EEXIST \<and> dir_map (krn s) K y (last cs) \<noteq> None
                       \<or> (ret = - ENOENT \<or> ret = - ENOMEM) \<and> nomem s (2 * length cs + 1))
     \<or> (\<exists>y f. cs \<noteq> [] \<and> dir_walk (krn s) K x (butlast cs) = Some y \<and> y \<in> N \<and> isdir (krn s) y \<and> dir_map (krn s) K y (last cs) = None
           \<and> vfs_added s t N K y (last cs) f
           \<and> (ret = - ENOMEM \<or> ret = 0 \<and> imode (inodes (krn t) f) = mo \<and> contents (krn t) f = []))"

text \<open>The specification of \<^verbatim>\<open>vfs_unlink\<close> and \<^verbatim>\<open>vfs_rmdir\<close>; \<open>dir\<close> is the kind of entry they remove and \<open>err\<close> the error for the other
  kind.\<close>

definition remove_result :: "vfs \<Rightarrow> ptr set \<Rightarrow> (ptr \<Rightarrow> ptr list) \<Rightarrow> ptr \<Rightarrow> bytes list \<Rightarrow> bool \<Rightarrow> int \<Rightarrow> int \<Rightarrow> vfs \<Rightarrow> bool" where
  "remove_result s N K x cs dir err ret t \<longleftrightarrow>
     vfs_ok t N K \<and> same_tree (krn s) (krn t) N K
         \<and> (case (if cs = [] then None else dir_walk (krn s) K x cs) of
              None \<Rightarrow> ret = - ENOENT \<or> ret = - ENOMEM \<and> nomem s (2 * length cs + 1)
            | Some c \<Rightarrow> ret = err \<and> isdir (krn s) c \<noteq> dir \<or> ret = - ENOTEMPTY \<and> dir \<and> K c \<noteq> []
                       \<or> (ret = - ENOENT \<or> ret = - ENOMEM) \<and> nomem s (2 * length cs + 1))
     \<or> (\<exists>y c. cs \<noteq> [] \<and> dir_walk (krn s) K x (butlast cs) = Some y \<and> y \<in> N \<and> dir_map (krn s) K y (last cs) = Some c
           \<and> isdir (krn s) c = dir \<and> K c = [] \<and> ret = 0 \<and> vfs_removed s t N K y (last cs) c)"

text \<open>A mounted file system for the examples: the statics of ramfs lie below the heap of \<^const>\<open>demo_fs\<close>.\<close>

definition demo_vfs :: vfs where
  "demo_vfs = \<lparr>om = \<lparr>kern = demo_fs, dentries = (\<lambda>d. if d = 32 then \<lparr>d_name = [SLASH], d_inode = 24, d_parent = 32, d_sb = 16\<rparr> else zero_dentry),
       supers = (\<lambda>_. \<lparr>s_disk_index = 0, s_root = 32\<rparr>), st_sb = 16, st_inode = 24, st_dentry = 32\<rparr>,
     files = (\<lambda>_. zero_file), file_systems = [ramfs_fs_type], mounts = (\<lambda>_. None),
     mount_pool = (\<lambda>_. \<lparr>mnt_root = 0, mnt_sb = 0, mnt_mountpoint = 0, mnt_parent = None, mnt_devname = [], mnt_target = [], mnt_fstype = []\<rparr>),
     mount_slot_used = (\<lambda>_. False), mount_count = 0, root_mount = None, root_dentry = 32\<rparr>"

lemma demo_vfs_ok: "vfs_ok demo_vfs {4136, 4520} demo_kids"
proof -
  have f: "krn demo_vfs = demo_fs" "root_dentry demo_vfs = 32" "den demo_vfs 32 = \<lparr>d_name = [SLASH], d_inode = 24, d_parent = 32, d_sb = 16\<rparr>"
    "mounts demo_vfs i = None" for i by (simp_all add: demo_vfs_def)
  have r: "is_root demo_vfs d \<longleftrightarrow> d = 32" for d by (simp add: is_root_def dentry_is_mount_root_def f list_ex_iff)
  have h: "heap_start demo_heap = 4096" "heap_end demo_heap = 13056" "fheap demo_fs = demo_heap" by (simp_all add: demo_heap_def demo_fs_def)
  have "iparent (inodes demo_fs 4136) = 0" by (simp add: demo_fs_def demo_inode_def)
  then show ?thesis using demo_fs_wf demo_dir(3) by (simp add: vfs_ok_def r f outside_def root_of_def h)
qed

lemma demo_vpath: "a \<noteq> SLASH \<Longrightarrow> vpath demo_vfs [SLASH, a] = (4136, [[a]])"
proof -
  assume a: "a \<noteq> SLASH"
  have m: "mounts demo_vfs = (\<lambda>_. None)" by (simp add: demo_vfs_def)
  have "best_mount path demo_vfs is b = b" for path "is" b by (induction "is") (simp_all add: m)
  then have "resolve_path_root (Some [SLASH, a]) demo_vfs = (32, Some [SLASH, a])"
    by (simp add: resolve_path_root_def find_mount_for_path_def) (simp add: demo_vfs_def)
  moreover have "root_of demo_vfs 32 = 4136" using demo_dir(3) by (simp add: root_of_def) (simp add: demo_vfs_def demo_dir(3))
  moreover have "path_parts [a] = [[a]]" using a by (subst path_parts.simps) (simp add: path_head_def path_tail_def NAME_MAX_def)
  ultimately show ?thesis using a by (simp add: vpath_def)
qed



text \<open>C20. \<^verbatim>\<open>vfs_unlink\<close> and \<^verbatim>\<open>vfs_rmdir\<close> by path always return. An error leaves the tree as it was: \<^verbatim>\<open>ENOENT\<close> for a path that does
  not exist, \<^verbatim>\<open>EISDIR\<close> respectively \<^verbatim>\<open>ENOTDIR\<close> for an entry of the other kind, \<^verbatim>\<open>ENOTEMPTY\<close> for a directory with entries, and
  otherwise only when a temporary object did not fit on the heap. A success removes exactly the last component from its parent
  and leaves every other entry, content and mode alone; the invariant holds in all cases.\<close>

theorem vfs_unlink_rmdir_correct:
  assumes "vfs_ok s N K" and "vpath s path = (x, cs)"
  shows "(\<exists>ret t. vfs_unlink (Some path) s = Some (ret, t) \<and> remove_result s N K x cs False (- EISDIR) ret t)
    \<and> (\<exists>ret t. vfs_rmdir (Some path) s = Some (ret, t) \<and> remove_result s N K x cs True (- ENOTDIR) ret t)"
  unfolding vfs_unlink_def vfs_rmdir_def remove_result_def using remove_node_spec [OF assms] by blast

theorem vfs_unlink_rmdir_correct_witness:
  "(\<exists>ret t. vfs_unlink (Some [SLASH, 97]) demo_vfs = Some (ret, t)
      \<and> remove_result demo_vfs {4136, 4520} demo_kids 4136 [[97]] False (- EISDIR) ret t)
   \<and> (\<exists>ret t. vfs_rmdir (Some [SLASH, 98]) demo_vfs = Some (ret, t)
      \<and> remove_result demo_vfs {4136, 4520} demo_kids 4136 [[98]] True (- ENOTDIR) ret t)"
  using vfs_unlink_rmdir_correct [OF demo_vfs_ok demo_vpath, of 97] vfs_unlink_rmdir_correct [OF demo_vfs_ok demo_vpath, of 98] by simp

end
