(* ===== verification/Vfs_Files.thy ===== *)
theory Vfs_Files
  imports Vfs_Tree
begin

text \<open>
  Open files of the virtual file system (\<^verbatim>\<open>kernel/fs/vfs.c\<close>) on a mounted RAM file system: \<^verbatim>\<open>vfs_open\<close> with its flags,
  \<^verbatim>\<open>vfs_read\<close>, \<^verbatim>\<open>vfs_write\<close>, \<^verbatim>\<open>vfs_close\<close>, and saving a whole file with \<^verbatim>\<open>vfs_save_file\<close>.
\<close>

section \<open>Open files\<close>

lemma entry_frame_ok:
  assumes ok: "vfs_ok u N K" and fr: "vframe u t" and w: "fs_wf (krn t) N K" and i: "\<And>p. p \<in> N \<Longrightarrow> iparent (inodes (krn t) p) = iparent (inodes (krn u) p)"
  shows "vfs_ok t N K"
  by (rule vfs_ok_frame [OF ok fr w]) (simp add: i)

text \<open>A block that is not the file system's stays so when the heap is extended.\<close>

lemma foreign_vext:
  assumes ok: "fs_wf (krn u) N K" and e: "vext n u t" and q: "foreign (krn u) N q"
  shows "foreign (krn t) N q"
  using q vextD(3) [OF e] vext_fs(4) [OF e ok] by (auto simp: foreign_def)

lemma foreign_keep: "foreign (krn u) N q \<Longrightarrow> keep u q"
  by (simp add: foreign_def keep_def)

lemma foreign_not_outside:
  assumes "vfs_ok u N K" "foreign (krn u) N q"
  shows "\<not> outside u q"
proof -
  obtain n fs where l: "live (hp u) q = Some n" "heap_wf (hp u) (blocks (hp u)) fs"
    using assms vfs_okD(4) [OF assms(1)] by (auto simp: foreign_def heap_inv_def)
  note b = live_ofD(4-7) [OF l(2,1)]
  then show ?thesis by (auto simp: outside_def HDR_def)
qed

text \<open>The dentry of a file about to be opened: \<open>child\<close> for inode \<open>c\<close> in the directory of \<open>r\<close>.\<close>

definition open_pre :: "vfs \<Rightarrow> ptr set \<Rightarrow> (ptr \<Rightarrow> ptr list) \<Rightarrow> ptr \<Rightarrow> ptr \<Rightarrow> ptr \<Rightarrow> bool" where
  "open_pre u N K r child c \<longleftrightarrow> vfs_ok u N K \<and> c \<in> N \<and> child \<noteq> NULL \<and> foreign (krn u) N child \<and> \<not> is_root u child
     \<and> d_parent (den u child) = r \<and> r \<noteq> NULL \<and> r \<noteq> child \<and> (is_root u r \<or> foreign (krn u) N r \<and> d_parent (den u r) = NULL)
     \<and> (let v = d_inode (den u child) in v \<noteq> NULL \<and> v \<noteq> r \<and> foreign (krn u) N v
        \<and> vinodes (krn u) v = \<lparr>i_ino = i_ino (vinodes (krn u) v), i_mode = imode (inodes (krn u) c), i_size = isize (inodes (krn u) c),
             i_dir_ops = isdir (krn u) c, i_private = c\<rparr>)"

text \<open>An open file on inode \<open>c\<close>: it and its dentry are heap blocks of their own.\<close>

definition file_ok :: "vfs \<Rightarrow> ptr set \<Rightarrow> ptr \<Rightarrow> ptr \<Rightarrow> bool" where
  "file_ok t N f c \<longleftrightarrow> f \<noteq> NULL \<and> c \<in> N \<and> foreign (krn t) N f \<and> f_private (files t f) = c \<and> f_count (files t f) = 1
     \<and> f_op (files t f) = Some (if isdir (krn t) c then ramfs_dir_ops else ramfs_file_ops)
     \<and> (let d = f_dentry (files t f) in d \<noteq> NULL \<and> d \<noteq> f \<and> foreign (krn t) N d \<and> \<not> is_root t d \<and> is_root t (d_parent (den t d))
        \<and> d_parent (den t d) \<noteq> d \<and> d_inode (den t d) \<noteq> NULL \<and> foreign (krn t) N (d_inode (den t d)))"

text \<open>\<^verbatim>\<open>O_TRUNC\<close> on a regular file.\<close>

lemma truncate_spec:
  assumes ok: "fs_wf k N K" and c: "c \<in> N" "\<not> isdir k c" and k': "k' = snd (ramfs_truncate_file c k)"
  shows "fs_wf k' N K" "dir_map k' K = dir_map k K" "contents k' c = []" "\<And>p. p \<noteq> c \<Longrightarrow> contents k' p = contents k p"
    "inodes k' = (inodes k)(c := (inodes k c)\<lparr>isize := 0\<rparr>)" "fheap k' = fheap k" "vinodes k' = vinodes k"
proof -
  have c0: "c \<noteq> NULL" by (rule fs_okD(5) [OF ok c(1)])
  show i: "inodes k' = (inodes k)(c := (inodes k c)\<lparr>isize := 0\<rparr>)" "fheap k' = fheap k" "vinodes k' = vinodes k"
    using c(2) c0 by (simp_all add: k' ramfs_truncate_file_def upd_ino_def)
  note B = fs_okD(3) [OF ok c(1)]
  have "fs_ok (fheap k) ((inodes k)(c := (inodes k c)\<lparr>idata := idata (inodes k c), data_capacity := data_capacity (inodes k c), isize := 0\<rparr>)) N K"
  proof (rule fs_ok_rebuf [OF ok c(1) fs_okD(1) [OF ok]])
    fix q assume q: "q \<in> N" "q \<noteq> c" "idata (inodes k q) \<noteq> NULL"
    show "live (fheap k) (idata (inodes k q)) = live (fheap k) (idata (inodes k q)) \<and> idata (inodes k q) \<noteq> idata (inodes k c)"
      using fs_okD(3) [OF ok q(1)] q c(1) by (auto simp: buf_ok_def)
  qed (use B in \<open>auto simp: buf_ok_def split: if_splits\<close>)
  then show "fs_wf k' N K" unfolding i by simp
  have n: "nm k' p = nm k p" for p by (simp add: i)
  show "dir_map k' K = dir_map k K" by (simp add: dir_map_def n fun_eq_iff)
  show "contents k' c = []" "\<And>p. p \<noteq> c \<Longrightarrow> contents k' p = contents k p" by (simp_all add: contents_def i read_bytes_def)
qed

text \<open>All that opening and writing the file of inode \<open>c\<close> may change in the tree is its contents.\<close>

definition tree_frame :: "ramfs \<Rightarrow> ramfs \<Rightarrow> ptr set \<Rightarrow> (ptr \<Rightarrow> ptr list) \<Rightarrow> ptr \<Rightarrow> bool" where
  "tree_frame k k' N K c \<longleftrightarrow>
     (\<forall>p \<in> N. dir_map k' K p = dir_map k K p \<and> imode (inodes k' p) = imode (inodes k p) \<and> iparent (inodes k' p) = iparent (inodes k p))
     \<and> (\<forall>p \<in> N. p \<noteq> c \<longrightarrow> contents k' p = contents k p)"

lemma tree_frame_trans: "tree_frame k k' N K c \<Longrightarrow> tree_frame k' k'' N K c \<Longrightarrow> tree_frame k k'' N K c"
  by (simp add: tree_frame_def)

lemma same_tree_frame: "same_tree k k' N K \<Longrightarrow> tree_frame k k' N K c"
  by (simp add: same_tree_def tree_frame_def)

lemma foreign_cong:
  assumes "live (fheap k') = live (fheap k)" and "\<And>p. p \<in> N \<Longrightarrow> idata (inodes k' p) = idata (inodes k p)"
  shows "foreign k' N q = foreign k N q"
  using assms by (simp add: foreign_def)

lemma isreg_not_dir: "S_ISREG m \<Longrightarrow> \<not> S_ISDIR m"
  by (auto simp: S_ISREG_def S_ISDIR_def S_IFREG_def S_IFDIR_def)

lemma fop_ramfs:
  assumes "f_op (files s f) = Some (if d then ramfs_dir_ops else ramfs_file_ops)"
  shows "fop open_op f s = Some ramfs_open" "fop release_op f s = Some ramfs_release"
    "fop read_op f s = (if d then None else Some ramfs_read)" "fop write_op f s = (if d then None else Some ramfs_write)"
    "fop readdir_op f s = (if d then Some ramfs_readdir else None)"
  using assms by (simp_all add: fop_def ramfs_dir_ops_def ramfs_file_ops_def)

text \<open>The file system behind a freshly opened file.\<close>

definition open_kern :: "ptr \<Rightarrow> u32 \<Rightarrow> ramfs \<Rightarrow> ramfs" where
  "open_kern v flags k =
     (if flags AND O_TRUNC \<noteq> 0 \<and> S_ISREG (i_mode (vinodes k v))
      then snd (ramfs_truncate_file (i_private (vinodes k v)) (k\<lparr>vinodes := (vinodes k)(v := (vinodes k v)\<lparr>i_size := 0\<rparr>)\<rparr>)) else k)"

lemma open_kern_vinode:
  "vinodes (open_kern v flags k) =
     (if flags AND O_TRUNC \<noteq> 0 \<and> S_ISREG (i_mode (vinodes k v)) then (vinodes k)(v := (vinodes k v)\<lparr>i_size := 0\<rparr>) else vinodes k)"
  by (simp add: open_kern_def ramfs_truncate_file_def upd_ino_def)

lemma finish_open_eq:
  assumes a: "alloc_file u = Some (f, u1)" "f \<noteq> NULL" "files u1 f = zero_file" and v: "v = d_inode (den u1 child)" "v \<noteq> NULL"
    and k: "k = open_kern v flags (krn u1)"
  obtains t where "finish_open r child flags mode u = (if r \<noteq> NULL \<and> \<not> is_root u1 r
        then do { s \<leftarrow> vfs_free_dentry_chain r (upd_den child (d_parent_update (\<lambda>_. root_dentry u1)) t); Some (f, s) } else Some (f, t))"
    "krn t = k" "den t = den u1" "mounts t = mounts u1" "mount_pool t = mount_pool u1" "root_dentry t = root_dentry u1"
    "files t f = \<lparr>f_dentry = child, f_op = i_fop (vinodes (krn u1) v),
       f_pos = (if flags AND O_APPEND \<noteq> 0 \<and> S_ISREG (i_mode (vinodes (krn u1) v)) then i_size (vinodes k v) else 0),
       f_flags = flags, f_mode = mode, f_count = 1, f_private = i_private (vinodes (krn u1) v)\<rparr>"
proof -
  define w where "w = vinodes (krn u1) v"
  have m: "i_mode (vinodes k v) = i_mode w" "i_private (vinodes k v) = i_private w" by (simp_all add: k open_kern_vinode w_def)
  define pos where "pos = (if flags AND O_APPEND \<noteq> 0 \<and> S_ISREG (i_mode w) then i_size (vinodes k v) else 0)"
  define F where "F = \<lparr>f_dentry = child, f_op = i_fop w, f_pos = 0, f_flags = flags, f_mode = mode, f_count = 1, f_private = i_private w\<rparr>"
  define u2 where "u2 = init_file f child flags mode u1"
  define u3 where "u3 = (if flags AND O_TRUNC \<noteq> 0 \<and> S_ISREG (i_mode w) then truncate_inode f v u2 else u2)"
  define u4 where "u4 = set_append f v flags u3"
  define t where "t = set_append f v flags (upd_file f (f_private_update (\<lambda>_. private_data (ramfs_open v (rfile_of f u4) (krn u4)))) u4)"
  have s2: "files u2 f = F" "krn u2 = krn u1" "den u2 = den u1" "mounts u2 = mounts u1" "mount_pool u2 = mount_pool u1" "root_dentry u2 = root_dentry u1"
    using v a(3) by (simp_all add: u2_def init_file_def Let_def F_def w_def zero_file_def)
  have s3: "files u3 f = F" "krn u3 = k" "den u3 = den u1" "mounts u3 = mounts u1" "mount_pool u3 = mount_pool u1" "root_dentry u3 = root_dentry u1"
    using s2 by (simp_all add: u3_def truncate_inode_def k open_kern_def w_def F_def)
  have s4: "files u4 f = F\<lparr>f_pos := pos\<rparr>" "krn u4 = k" "den u4 = den u1" "mounts u4 = mounts u1" "mount_pool u4 = mount_pool u1" "root_dentry u4 = root_dentry u1"
    using s3 m by (simp_all add: u4_def set_append_def pos_def F_def)
  have st: "files t f = F\<lparr>f_pos := pos\<rparr>" "krn t = k" "den t = den u1" "mounts t = mounts u1" "mount_pool t = mount_pool u1" "root_dentry t = root_dentry u1"
    using s4 m by (simp_all add: t_def set_append_def pos_def F_def ramfs_open_def)
  have op: "fop open_op f u4 = Some ramfs_open" by (rule fop_ramfs(1)) (simp add: s4(1) F_def i_fop_def)
  have ir: "is_root t r = is_root u1 r" by (rule is_root_cong) (simp_all add: st)
  have "finish_open r child flags mode u = (if r \<noteq> NULL \<and> \<not> is_root t r
        then do { s \<leftarrow> vfs_free_dentry_chain r (upd_den child (d_parent_update (\<lambda>_. root_dentry t)) t); Some (f, s) } else Some (f, t))"
    unfolding finish_open_def a(1) bind.bind_lunit prod.case Let_def u2_def [symmetric] s2(2,3) v(1) [symmetric] w_def [symmetric]
      u3_def [symmetric] u4_def [symmetric] op option.case t_def [symmetric]
    using a(2) v(2) by (simp add: is_root_def)
  then show thesis using that [of t] st ir unfolding st(6) by (simp add: F_def pos_def w_def)
qed

lemma open_kern_spec:
  assumes ok: "fs_wf k N K" and c: "c \<in> N"
    and v: "i_mode (vinodes k v) = imode (inodes k c)" "i_size (vinodes k v) = isize (inodes k c)" "i_private (vinodes k v) = c"
    and k': "k' = open_kern v flags k" and tr: "tr = (flags AND O_TRUNC \<noteq> 0 \<and> S_ISREG (imode (inodes k c)))"
  shows "fs_wf k' N K" "tree_frame k k' N K c" "contents k' c = (if tr then [] else contents k c)" "fheap k' = fheap k"
    "\<And>p. idata (inodes k' p) = idata (inodes k p)" "\<And>p. imode (inodes k' p) = imode (inodes k p)" "\<And>p. iparent (inodes k' p) = iparent (inodes k p)"
    "i_size (vinodes k' v) = isize (inodes k' c)" "\<And>p. p \<noteq> v \<Longrightarrow> vinodes k' p = vinodes k p"
proof -
  define k0 where "k0 = (if tr then k\<lparr>vinodes := (vinodes k)(v := (vinodes k v)\<lparr>i_size := 0\<rparr>)\<rparr> else k)"
  have e: "k' = (if tr then snd (ramfs_truncate_file c k0) else k)" by (simp add: k' open_kern_def tr v k0_def)
  have d: "\<not> isdir k c" if tr using that tr isreg_not_dir by blast
  have k0: "fheap k0 = fheap k" "inodes k0 = inodes k" by (simp_all add: k0_def)
  have c0: "contents k0 p = contents k p" "dir_map k0 K = dir_map k K" for p by (simp_all add: contents_def dir_map_def k0 fun_eq_iff)
  have "fs_wf k' N K \<and> tree_frame k k' N K c \<and> contents k' c = (if tr then [] else contents k c) \<and> fheap k' = fheap k
    \<and> inodes k' = (if tr then (inodes k)(c := (inodes k c)\<lparr>isize := 0\<rparr>) else inodes k) \<and> vinodes k' = vinodes k0"
  proof (cases tr)
    case True
    have w: "fs_wf k0 N K" "\<not> isdir k0 c" using ok d [OF True] by (simp_all add: k0)
    have e': "k' = snd (ramfs_truncate_file c k0)" using e True by simp
    note T = truncate_spec [OF w(1) c w(2) e', unfolded k0 c0]
    have "imode (inodes k' p) = imode (inodes k p) \<and> iparent (inodes k' p) = iparent (inodes k p)" for p using T(5) by simp
    then have "tree_frame k k' N K c" using T(2,4) by (simp add: tree_frame_def)
    then show ?thesis using T True by simp
  qed (use e ok in \<open>simp add: tree_frame_def k0_def\<close>)
  note R = this
  then show "fs_wf k' N K" "tree_frame k k' N K c" "contents k' c = (if tr then [] else contents k c)" "fheap k' = fheap k" by blast+
  have i: "inodes k' = (if tr then (inodes k)(c := (inodes k c)\<lparr>isize := 0\<rparr>) else inodes k)" using R by blast
  have vi: "vinodes k' = vinodes k0" using R by blast
  show "idata (inodes k' p) = idata (inodes k p)" "imode (inodes k' p) = imode (inodes k p)" "iparent (inodes k' p) = iparent (inodes k p)" for p
    by (simp_all add: i)
  show "i_size (vinodes k' v) = isize (inodes k' c)" using v(2) by (simp add: vi i k0_def)
  show "vinodes k' p = vinodes k p" if "p \<noteq> v" for p using that by (simp add: vi k0_def)
qed

lemma open_preD:
  assumes "open_pre u N K r child c"
  shows "vfs_ok u N K" "c \<in> N" "child \<noteq> NULL" "foreign (krn u) N child" "\<not> is_root u child" "d_parent (den u child) = r" "r \<noteq> NULL" "r \<noteq> child"
    "is_root u r \<or> foreign (krn u) N r \<and> d_parent (den u r) = NULL" "d_inode (den u child) \<noteq> NULL" "foreign (krn u) N (d_inode (den u child))"
    "vinodes (krn u) (d_inode (den u child)) = \<lparr>i_ino = i_ino (vinodes (krn u) (d_inode (den u child))), i_mode = imode (inodes (krn u) c),
       i_size = isize (inodes (krn u) c), i_dir_ops = isdir (krn u) c, i_private = c\<rparr>" "d_inode (den u child) \<noteq> r"
  using assms unfolding open_pre_def Let_def by blast+

text \<open>An extension of the heap keeps the precondition.\<close>

lemma open_pre_vext:
  assumes p: "open_pre u N K r child c" and e: "vext n u t"
  shows "open_pre t N K r child c"
proof -
  note P = open_preD [OF p] and F = vext_fs(4) [OF e vfs_okD(1) [OF open_preD(1) [OF p]] open_preD(2) [OF p]]
  note fo = foreign_vext [OF vfs_okD(1) [OF P(1)] e]
  have d: "den t child = den u child" by (rule vextD(9) [OF e foreign_keep [OF P(4)]])
  have v: "vinodes (krn t) (d_inode (den u child)) = vinodes (krn u) (d_inode (den u child))" by (rule vextD(8) [OF e foreign_keep [OF P(11)]])
  have "is_root t r \<or> foreign (krn t) N r \<and> d_parent (den t r) = NULL"
    using P(9) fo is_root_vext [OF e] vextD(9) [OF e foreign_keep] by fastforce
  then show ?thesis
    unfolding open_pre_def Let_def d v F
    using vfs_ok_vext [OF P(1) e] P(2-8,10-13) fo is_root_vext [OF e] by (intro conjI) simp_all
qed

lemma finish_open_spec:
  assumes pre: "open_pre u N K r child c"
  obtains (full) t where "finish_open r child flags mode u = Some (NULL, t)" "\<not> can_alloc FILE_SIZE (hp u)" "vfs_ok t N K" "vframe u t"
      "same_tree (krn u) (krn t) N K"
  | (opened) f t where "finish_open r child flags mode u = Some (f, t)" "vfs_ok t N K" "vframe u t" "tree_frame (krn u) (krn t) N K c"
      "contents (krn t) c = (if flags AND O_TRUNC \<noteq> 0 \<and> S_ISREG (imode (inodes (krn u) c)) then [] else contents (krn u) c)" "file_ok t N f c"
      "f_pos (files t f) = (if flags AND O_APPEND \<noteq> 0 \<and> S_ISREG (imode (inodes (krn u) c)) then isize (inodes (krn t) c) else 0)"
proof -
  note P = open_preD [OF pre] and wf = vfs_okD(1) [OF open_preD(1) [OF pre]]
  show thesis
  proof (rule alloc_file_cases [OF vfs_okD(4) [OF P(1)]])
    assume a: "\<not> can_alloc FILE_SIZE (hp u)" "alloc_file u = Some (NULL, u)"
    obtain t where t: "vfs_free_dentry_chain child u = Some t" "same_tree (krn u) (krn t) N K" "inodes (krn t) = inodes (krn u)" "vframe u t"
      by (rule chain_release [OF wf P(4,3,5-9)])
    have "vfs_ok t N K" by (rule entry_frame_ok [OF P(1) t(4)]) (use t(2,3) in \<open>simp_all add: same_tree_def\<close>)
    then show thesis using full a t by (simp add: finish_open_def)
  next
    fix f u1 assume a: "alloc_file u = Some (f, u1)" "f \<noteq> NULL" "vext 1 u u1" "\<not> keep u f" "keep u1 f" "files u1 f = zero_file"
      "live (hp u1) f \<noteq> None" "live (hp u) f = None"
    note Q = open_preD [OF open_pre_vext [OF pre a(3)]] and F = vext_fs [OF a(3) wf]
    define v where "v = d_inode (den u1 child)"
    define k where "k = open_kern v flags (krn u1)"
    note vi = Q(12) [folded v_def]
    have v: "i_mode (vinodes (krn u1) v) = imode (inodes (krn u1) c)" "i_size (vinodes (krn u1) v) = isize (inodes (krn u1) c)"
      "i_private (vinodes (krn u1) v) = c" "i_dir_ops (vinodes (krn u1) v) = isdir (krn u1) c" by (subst vi, simp)+
    have v0: "v \<noteq> NULL" using Q(10) by (simp add: v_def)
    obtain t where t: "finish_open r child flags mode u = (if r \<noteq> NULL \<and> \<not> is_root u1 r
        then do { s \<leftarrow> vfs_free_dentry_chain r (upd_den child (d_parent_update (\<lambda>_. root_dentry u1)) t); Some (f, s) } else Some (f, t))"
      "krn t = k" "den t = den u1" "mounts t = mounts u1" "mount_pool t = mount_pool u1" "root_dentry t = root_dentry u1"
      "files t f = \<lparr>f_dentry = child, f_op = i_fop (vinodes (krn u1) v),
         f_pos = (if flags AND O_APPEND \<noteq> 0 \<and> S_ISREG (i_mode (vinodes (krn u1) v)) then i_size (vinodes k v) else 0),
         f_flags = flags, f_mode = mode, f_count = 1, f_private = i_private (vinodes (krn u1) v)\<rparr>"
      by (rule finish_open_eq [OF a(1,2,6) v_def v0 k_def])
    note O = open_kern_spec [OF F(1) P(2) v(1-3) k_def refl]
    have fo: "foreign k N q = foreign (krn u1) N q" for q by (rule foreign_cong) (simp_all add: O)
    have ff: "foreign (krn u1) N f" by (rule vext_foreign [OF wf a(3,4,7)])
    have fch: "f \<noteq> child" using foreign_keep [OF P(4)] a(4) by blast
    have fr: "f \<noteq> r" using P(9) foreign_keep vfs_okD(7) [OF P(1)] a(4) by blast
    define t1 where "t1 = (if is_root u1 r then t else upd_den child (d_parent_update (\<lambda>_. root_dentry u1)) t)"
    have t1: "krn t1 = k" "files t1 f = files t f" "mounts t1 = mounts u1" "mount_pool t1 = mount_pool u1" "root_dentry t1 = root_dentry u1"
      "d_inode (den t1 child) = v" "q \<noteq> child \<Longrightarrow> den t1 q = den u1 q" for q using t by (simp_all add: t1_def v_def)
    have ir: "is_root t1 q = is_root u1 q" for q by (rule is_root_cong) (simp_all add: t1)
    have pr: "is_root u1 (d_parent (den t1 child))" "d_parent (den t1 child) \<noteq> child" using t(3) Q(5,6,8) by (auto simp: t1_def is_root_def)
    define t2 where "t2 = (if is_root u1 r then t1 else free_obj r t1)"
    have r0: "foreign (krn t1) N r \<and> d_parent (den t1 r) = NULL" if "\<not> is_root u1 r" using that Q(9) t1(1,7) Q(8) fo by simp
    have fin: "finish_open r child flags mode u = Some (f, t2)"
    proof (cases "is_root u1 r")
      case False
      have "vfs_free_dentry_chain r t1 = Some (free_obj r t1)" by (rule chain_one) (use False ir Q(7) r0 in simp_all)
      then show ?thesis using t(1) False Q(7) by (simp add: t2_def t1_def)
    qed (use t(1) in \<open>simp add: t2_def t1_def\<close>)
    have k2: "krn t2 = (if is_root u1 r then k else k\<lparr>fheap := kfree r (fheap k)\<rparr>)" by (simp add: t2_def t1(1) krn_free_obj)
    have fs2: "fs_wf (krn t2) N K \<and> dir_map (krn t2) K = dir_map k K \<and> (\<forall>p. contents (krn t2) p = contents k p)
        \<and> (\<forall>q. foreign k N q \<longrightarrow> q \<noteq> r \<longrightarrow> foreign (krn t2) N q) \<and> inodes (krn t2) = inodes k"
    proof (cases "is_root u1 r")
      case False
      then have "foreign k N r" using r0 t1(1) by simp
      note foreign_free [OF O(1) this, of "krn t2"]
      then show ?thesis using False k2 by simp
    qed (use k2 O(1) in simp)
    have st2: "files t2 = files t1" "den t2 = den t1" "vinodes (krn t2) = vinodes k" "mounts t2 = mounts u1" "mount_pool t2 = mount_pool u1"
      "root_dentry t2 = root_dentry u1" "heap_start (hp t2) = heap_start (hp u1)" "heap_end (hp t2) = heap_end (hp u1)"
      using t1 O(4) by (simp_all add: t2_def)
    have "vframe u1 t2"
    proof -
      have "den t2 p = den u1 p \<and> vinodes (krn t2) p = vinodes (krn u1) p" if o: "outside u1 p" for p
      proof -
        have "p \<noteq> child" "p \<noteq> v" using foreign_not_outside [OF Q(1)] Q(4,11) o v_def by blast+
        then show ?thesis using st2(2,3) t1(7) O(9) by simp
      qed
      then show ?thesis using st2 by (simp add: vframe_def)
    qed
    then have vf: "vframe u t2" using vframe_trans [OF vext_vframe [OF a(3)]] by blast
    have "fs_wf (krn t2) N K" using fs2 by blast
    then have ok: "vfs_ok t2 N K" by (rule entry_frame_ok [OF P(1) vf]) (use fs2 O(7) F(4) in simp)
    have tf: "tree_frame (krn u) (krn t2) N K c"
      using same_tree_frame [OF vext_same_tree [OF wf a(3)]] O(2) fs2 by (auto simp: tree_frame_def)
    have ir2: "is_root t2 q = is_root u1 q" for q by (rule is_root_cong) (simp_all add: st2)
    have fl: "files t2 f = files t f" by (simp add: st2 t1)
    have rch: "r \<noteq> child" "v \<noteq> r" by (rule Q(8)) (use Q(13) v_def in simp)
    have "file_ok t2 N f c"
      unfolding file_ok_def Let_def fl t(7) vfs_file.simps st2(2) t1(6)
      using a(2) P(2,3) fs2 fo ff Q(4,11) fch fr rch v0 v v_def Q(5) pr ir2 O(6) by (simp add: i_fop_def)
    then show thesis
      using opened [OF fin ok vf tf] fs2 O(3,8) F(3,4) [OF P(2)] fl t(7) v(1) by simp
  qed
qed

section \<open>Creating the file on opening\<close>

lemma entry_frame_new_foreign:
  assumes ok: "fs_wf k N K" and e: "entry_frame k k' f S" and v: "v \<in> S" "v \<noteq> f" "v \<noteq> NULL"
  shows "foreign k' (insert f N) v"
proof -
  have vS: "live (fheap k) v = None" "live (fheap k') v \<noteq> None" using e v(1) by (auto simp: entry_frame_def)
  have nS: "p \<notin> S" if "p \<in> N" for p using fs_okD(2) [OF ok that] e by (fastforce simp: entry_frame_def)
  have "idata (inodes k' p) \<noteq> v" if "p \<in> N" for p
  proof -
    have "idata (inodes k' p) = idata (inodes k p)" using e nS [OF that] by (simp add: entry_frame_def)
    then show ?thesis using fs_okD(3) [OF ok that] vS(1) v(3) by (auto simp: buf_ok_def split: if_splits)
  qed
  moreover have "idata (inodes k' f) = NULL" using e by (simp add: entry_frame_def)
  moreover have "v \<notin> N" using nS v(1) by blast
  ultimately show ?thesis using vS v by (auto simp: foreign_def)
qed

text \<open>After a successful creation the file is ready to be opened.\<close>

lemma made_open_pre:
  assumes ok: "vfs_ok s N K" and e3: "vext n s s3" and c: "child \<noteq> NULL" "\<not> keep s child" "r \<noteq> child" "\<not> is_root s child"
    and z: "d_parent (den s3 child) = r" "live (hp s3) child \<noteq> None" and d3: "r \<noteq> NULL" and t3: "temp s s3 r" and y: "y \<in> N"
    and m: "entry_frame (krn s3) k' f {f, v}" "f \<noteq> v" "v \<noteq> NULL" "added (krn s3) k' N K y name f" "contents k' f = []" "i_size (vinodes k' v) = 0"
      "i_mode (vinodes k' v) = imode (inodes k' f)" "i_dir_ops (vinodes k' v) = isdir k' f" "i_private (vinodes k' v) = f"
    and u: "u = upd_den child (d_inode_update (\<lambda>_. v)) (set_kern k' s3)"
  obtains K' where "open_pre u (insert f N) K' r child f" "f \<notin> N" "vframe s u" "dir_map (krn u) K' f = Map.empty"
    "\<forall>e \<in> N. dir_map (krn u) K' e = (if e = y then (dir_map (krn s) K y)(name \<mapsto> f) else dir_map (krn s) K e)"
    "\<forall>p \<in> N. contents (krn u) p = contents (krn s) p \<and> imode (inodes (krn u) p) = imode (inodes (krn s) p)"
proof -
  note wf = vfs_okD(1) [OF ok] and F = vext_fs [OF e3 vfs_okD(1) [OF ok]]
  have ku: "krn u = k'" by (simp add: u)
  obtain K' where K': "fs_wf (krn u) (insert f N) K'"
    "\<forall>e \<in> N. dir_map k' K' e = (if e = y then (dir_map (krn s3) K y)(name \<mapsto> f) else dir_map (krn s3) K e)" "dir_map k' K' f = Map.empty"
    using m(4) by (auto simp: added_def ku)
  have out: "\<not> outside s3 child" using c(2) vextD(4,5) [OF e3] by (auto simp: keep_def outside_def)
  have vf3: "vframe s3 u" unfolding u by (rule entry_frame_vframe [OF m(1) out])
  have vf: "vframe s u" by (rule vframe_trans [OF vext_vframe [OF e3] vf3])
  have iu: "is_root u q = is_root s q" for q using is_root_vext [OF e3] by (simp add: u)
  have "p \<notin> {f, v}" if "p \<in> N" for p using fs_okD(2) [OF F(1) that] m(1) by (fastforce simp: entry_frame_def)
  then have ip: "iparent (inodes k' p) = iparent (inodes (krn s) p)" if "p \<in> N" for p using that m(1) F(4) [OF that] by (simp add: entry_frame_def)
  have vok: "vfs_ok u (insert f N) K'" by (rule vfs_ok_frame [OF ok vf K'(1)]) (simp add: ip ku)
  note ff = entry_frame_foreign [OF F(1) m(1)]
  have fc: "foreign (krn u) (insert f N) child" using ff [OF vext_foreign [OF wf e3 c(2) z(2)]] by (simp add: ku)
  have fv: "foreign (krn u) (insert f N) v" using entry_frame_new_foreign [OF F(1) m(1) _ _ m(3)] m(2) by (simp add: ku)
  have r: "is_root u r \<or> foreign (krn u) (insert f N) r \<and> d_parent (den u r) = NULL"
    using t3 vext_foreign [OF wf e3] ff c(3) iu by (auto simp: temp_def u)
  have vr: "v \<noteq> r"
  proof
    assume vr: "v = r"
    have "live (hp s3) r = None" "\<not> outside s3 r" using m(1) vr by (auto simp: entry_frame_def outside_def)
    then show False using t3 vfs_okD(3) [OF ok] vextD(4,5) [OF e3] by (auto simp: temp_def outside_def)
  qed
  have sz: "isize (inodes k' f) = 0" using m(5) by (auto simp: contents_def read_bytes_def unat_eq_0)
  have dc: "d_inode (den u child) = v" "d_parent (den u child) = r" using z(1) by (simp_all add: u)
  have "open_pre u (insert f N) K' r child f"
    unfolding open_pre_def Let_def dc iu
    using vok c fc d3 r [unfolded iu] m(3) vr fv m(6-9) sz by (simp add: ku)
  moreover have "f \<notin> N" using m(4) by (simp add: added_def)
  moreover have "dir_map k' K' e = (if e = y then (dir_map (krn s) K y)(name \<mapsto> f) else dir_map (krn s) K e)" if "e \<in> N" for e
    using K'(2) that F(2) y by simp
  moreover have "contents k' p = contents (krn s) p \<and> imode (inodes k' p) = imode (inodes (krn s) p)" if "p \<in> N" for p
    using m(4) that F(3,4) [OF that] by (auto simp: added_def)
  ultimately show thesis using that [of K'] vf K'(3) unfolding ku by blast
qed

lemma create_mode: "mode AND S_IFMT = 0 \<Longrightarrow> S_ISREG (S_IFREG OR mode)"
proof -
  assume "mode AND S_IFMT = 0"
  then have "(S_IFREG OR mode) AND S_IFMT = S_IFREG AND S_IFMT" unfolding bit.conj_disj_distrib2 by simp
  then show ?thesis by (simp add: S_ISREG_def S_IFREG_def S_IFMT_def)
qed

text \<open>The outcome of opening \<open>name\<close> in the directory \<open>y\<close>: failure without a trace; an existing file; or a new file, which stays
  when there is no memory left for the open file.\<close>

definition open_outcome :: "vfs \<Rightarrow> ptr set \<Rightarrow> (ptr \<Rightarrow> ptr list) \<Rightarrow> ptr \<Rightarrow> bytes \<Rightarrow> u32 \<Rightarrow> u32 \<Rightarrow> nat \<Rightarrow> ptr \<Rightarrow> vfs \<Rightarrow> bool" where
  "open_outcome s N K y name flags mode n f t \<longleftrightarrow>
     f = NULL \<and> vfs_ok t N K \<and> same_tree (krn s) (krn t) N K
       \<and> (dir_map (krn s) K y name = None \<and> (flags AND O_CREAT = 0 \<or> \<not> isdir (krn s) y) \<or> nomem s n)
     \<or> (\<exists>c. dir_map (krn s) K y name = Some c \<and> vfs_ok t N K \<and> vframe s t \<and> file_ok t N f c \<and> tree_frame (krn s) (krn t) N K c
         \<and> contents (krn t) c = (if flags AND O_TRUNC \<noteq> 0 \<and> S_ISREG (imode (inodes (krn s) c)) then [] else contents (krn s) c)
         \<and> f_pos (files t f) = (if flags AND O_APPEND \<noteq> 0 \<and> S_ISREG (imode (inodes (krn s) c)) then isize (inodes (krn t) c) else 0))
     \<or> flags AND O_CREAT \<noteq> 0 \<and> isdir (krn s) y \<and> dir_map (krn s) K y name = None
         \<and> (\<exists>e. vfs_added s t N K y name e
             \<and> (f = NULL \<or> vframe s t \<and> file_ok t (insert e N) f e \<and> imode (inodes (krn t) e) = S_IFREG OR mode
                 \<and> contents (krn t) e = [] \<and> f_pos (files t f) = 0))"

lemma vfs_added_frame:
  assumes "f \<notin> N" and "dir_map (krn u) K' f = Map.empty"
    and "\<forall>e \<in> N. dir_map (krn u) K' e = (if e = y then (dir_map (krn s) K y)(name \<mapsto> f) else dir_map (krn s) K e)"
    and "\<forall>p \<in> N. contents (krn u) p = contents (krn s) p \<and> imode (inodes (krn u) p) = imode (inodes (krn s) p)"
    and "vfs_ok t (insert f N) K'" and "tree_frame (krn u) (krn t) (insert f N) K' f"
  shows "vfs_added s t N K y name f"
proof -
  have "dir_map (krn t) K' p = dir_map (krn u) K' p" "imode (inodes (krn t) p) = imode (inodes (krn u) p)" if "p \<in> insert f N" for p
    using assms(6) that by (auto simp: tree_frame_def)
  moreover have "contents (krn t) p = contents (krn u) p" if "p \<in> N" for p using assms(1,6) that by (auto simp: tree_frame_def)
  ultimately show ?thesis unfolding vfs_added_def using assms(1-5) by (intro conjI exI [of _ K']) simp_all
qed

lemma create_open:
  assumes ok: "vfs_ok s N K" and e3: "vext n s s3" and c: "child \<noteq> NULL" "\<not> keep s child" "r \<noteq> child" "\<not> is_root s child"
    and z: "d_parent (den s3 child) = r" "d_inode (den s3 child) = NULL" "live (hp s3) child \<noteq> None" "d_name (den s3 child) = name"
    and d3: "dref s3 r y" and t3: "temp s s3 r" and y: "y \<in> N" and nm: "name \<noteq> []" "length name \<le> RAMFS_MAX_NAME"
    and cr: "flags AND O_CREAT \<noteq> 0" and mode: "mode AND S_IFMT = 0" and some: "dir_map (krn s) K y name \<noteq> None \<Longrightarrow> nomem s n"
    and C: "C = do { (ok, s) \<leftarrow> ensure_inode r child flags mode s3;
       if \<not> ok then do { s \<leftarrow> vfs_free_dentry_chain child s; Some (NULL, s) } else finish_open r child flags mode s }"
  shows "\<exists>f t. C = Some (f, t) \<and> open_outcome s N K y name flags mode n f t"
proof -
  note F = vext_fs [OF e3 vfs_okD(1) [OF ok]]
  let ?mo = "S_IFREG OR mode"
  have i: "d_inode (den s3 r) \<noteq> NULL" "i_private (vinodes (krn s3) (d_inode (den s3 r))) = y" "r \<noteq> NULL" using d3 by (simp_all add: dref_def)
  have en: "ensure_inode r child flags mode s3 = do { (ret, v, k) \<leftarrow> make_entry ?mo False y name NULL (krn s3);
      Some (ret = 0, upd_den child (d_inode_update (\<lambda>_. v)) (set_kern k s3)) }"
    using z(2,4) cr i dop_simps(2) [OF i(1)] by (simp add: ensure_inode_def call_create_def ramfs_create_def split_def)
  define M where "M = do { (ret, v, k) \<leftarrow> make_entry ?mo False y name NULL (krn s3);
          t \<leftarrow> vfs_free_dentry_chain child (upd_den child (d_inode_update (\<lambda>_. v)) (set_kern k s3)); Some (ret, t) }"
  obtain ret t where M: "M = Some (ret, t)"
    and R: "vfs_ok t N K \<and> same_tree (krn s) (krn t) N K
         \<and> (ret = - ENOTDIR \<and> \<not> isdir (krn s) y \<or> ret = - EEXIST \<and> dir_map (krn s) K y name \<noteq> None \<or> ret = - ENOMEM \<and> nomem s n)
      \<or> (\<exists>f. isdir (krn s) y \<and> dir_map (krn s) K y name = None \<and> vfs_added s t N K y name f
           \<and> (ret = - ENOMEM \<or> ret = 0 \<and> imode (inodes (krn t) f) = ?mo \<and> contents (krn t) f = []))"
    using make_node_finish [OF ok e3 c z(1-3) d3 t3 y nm M_def] by blast
  obtain v k where mk: "make_entry ?mo False y name NULL (krn s3) = Some (ret, v, k)"
    and ch: "vfs_free_dentry_chain child (upd_den child (d_inode_update (\<lambda>_. v)) (set_kern k s3)) = Some t"
    using M by (auto simp: M_def Option.bind_eq_Some_conv)
  define u where "u = upd_den child (d_inode_update (\<lambda>_. v)) (set_kern k s3)"
  show ?thesis
  proof (cases "ret = 0")
    case False
    then have "C = Some (NULL, t)" using C en mk ch by simp
    moreover have "open_outcome s N K y name flags mode n NULL t"
      unfolding open_outcome_def using R False cr some by blast
    ultimately show ?thesis by blast
  next
    case True
    have C': "C = finish_open r child flags mode u" using C en mk True by (simp add: u_def)
    have y0: "y \<noteq> NULL" "live (hp s3) y \<noteq> None" using fs_okD(2,5) [OF F(1) y] by auto
    have dm: "isdir (krn s3) y" "dir_map (krn s3) K y name = None" "isdir (krn s) y" "dir_map (krn s) K y name = None"
      using R True F(2,4) [OF y] by auto
    have L: "ramfs_lookup_child y name (krn s3) = Some NULL" using lookup_child_spec [OF F(1) y, of name] dm(2) by simp
    have neq: "- EEXIST \<noteq> 0" "- ENOMEM \<noteq> 0" "- ENOTDIR \<noteq> 0" by simp_all
    obtain f where f: "entry_frame (krn s3) k f {f, v}" "f \<noteq> v" "v \<noteq> NULL" "i_private (vinodes k v) = f" "i_size (vinodes k v) = 0"
    proof (rule make_entry_cases [OF fs_okD(1) [OF F(1)] y0 nm L, of ?mo False NULL])
      fix g w k1 assume a: "make_entry ?mo False y name NULL (krn s3) = Some (0, w, k1)" "entry_frame (krn s3) k1 g {g, w}" "g \<noteq> w" "w \<noteq> NULL"
        "i_private (vinodes k1 w) = g" "ramfs_lookup_child y name k1 = Some g" "i_size (vinodes k1 w) = 0"
      then have "w = v" "k1 = k" using mk by simp_all
      then show thesis using that [of g] a by simp
    qed (use mk True neq dm(1) in simp_all)
    have md: "made (krn s3) k N K y name ?mo False v"
      using make_entry_spec [OF F(1) y dm(1) nm, of ?mo False NULL] mk True neq by auto
    then have ad: "added (krn s3) k N K y name f" "imode (inodes k f) = ?mo" "contents k f = []" "i_mode (vinodes k v) = ?mo" "\<not> i_dir_ops (vinodes k v)"
      using f(4) by (auto simp: made_def)
    have reg: "S_ISREG ?mo" "\<not> S_ISDIR ?mo" using create_mode [OF mode] isreg_not_dir by blast+
    obtain K' where K': "open_pre u (insert f N) K' r child f" "f \<notin> N" "vframe s u" "dir_map (krn u) K' f = Map.empty"
      "\<forall>e \<in> N. dir_map (krn u) K' e = (if e = y then (dir_map (krn s) K y)(name \<mapsto> f) else dir_map (krn s) K e)"
      "\<forall>p \<in> N. contents (krn u) p = contents (krn s) p \<and> imode (inodes (krn u) p) = imode (inodes (krn s) p)"
      by (rule made_open_pre [OF ok e3 c z(1,3) i(3) t3 y f(1-3) ad(1,3) f(5) _ _ f(4) u_def]) (use ad reg in simp_all)
    have ku: "krn u = k" by (simp add: u_def)
    note added = vfs_added_frame [OF K'(2,4-6)]
    show ?thesis
    proof (rule finish_open_spec [OF K'(1), of flags mode])
      fix t assume t: "finish_open r child flags mode u = Some (NULL, t)" "vfs_ok t (insert f N) K'" "same_tree (krn u) (krn t) (insert f N) K'"
      then have "vfs_added s t N K y name f" using added same_tree_frame by blast
      then show ?thesis using C' t(1) dm cr unfolding open_outcome_def by blast
    next
      fix g t assume t: "finish_open r child flags mode u = Some (g, t)" "vfs_ok t (insert f N) K'" "vframe u t" "tree_frame (krn u) (krn t) (insert f N) K' f"
        "contents (krn t) f = (if flags AND O_TRUNC \<noteq> 0 \<and> S_ISREG (imode (inodes (krn u) f)) then [] else contents (krn u) f)" "file_ok t (insert f N) g f"
        "f_pos (files t g) = (if flags AND O_APPEND \<noteq> 0 \<and> S_ISREG (imode (inodes (krn u) f)) then isize (inodes (krn t) f) else 0)"
      have ct: "contents (krn t) f = []" using t(5) ad(3) by (simp add: ku)
      then have "isize (inodes (krn t) f) = 0" by (auto simp: contents_def read_bytes_def unat_eq_0)
      then have "f_pos (files t g) = 0" using t(7) by simp
      moreover have "imode (inodes (krn t) f) = ?mo" using t(4) ad(2) by (simp add: tree_frame_def ku)
      moreover have "vfs_added s t N K y name f" by (rule added [OF t(2,4)])
      ultimately show ?thesis using C' t(1,6) ct dm cr vframe_trans [OF K'(3) t(3)] unfolding open_outcome_def by blast
    qed
  qed
qed

lemma open_outcome_mono: "open_outcome s N K y name flags mode m f t \<Longrightarrow> m \<le> n \<Longrightarrow> open_outcome s N K y name flags mode n f t"
  unfolding open_outcome_def using nomem_mono by blast

lemma found_open_pre:
  assumes ok: "vfs_ok s N K" and e: "vext n s s4" and c: "child \<noteq> NULL" "\<not> keep s child" "r \<noteq> child" "\<not> is_root s child" "live (hp s4) child \<noteq> None"
    and r: "r \<noteq> NULL" "temp s s4 r" and z: "d_parent (den s4 child) = r" "c \<in> N"
    and v: "d_inode (den s4 child) \<noteq> NULL" "d_inode (den s4 child) \<noteq> r" "\<not> keep s (d_inode (den s4 child))" "keep s4 (d_inode (den s4 child))"
      "vinodes (krn s4) (d_inode (den s4 child)) = \<lparr>i_ino = i, i_mode = imode (inodes (krn s) c), i_size = isize (inodes (krn s) c),
         i_dir_ops = isdir (krn s) c, i_private = c\<rparr>"
  shows "open_pre s4 N K r child c"
proof -
  note wf = vfs_okD(1) [OF ok] and F = vext_fs(4) [OF e vfs_okD(1) [OF ok] z(2)]
  have lv: "live (hp s4) (d_inode (den s4 child)) \<noteq> None" using v(3,4) vextD(4,5) [OF e] by (auto simp: keep_def)
  have fr: "is_root s4 r \<or> foreign (krn s4) N r \<and> d_parent (den s4 r) = NULL"
    using r(2) vext_foreign [OF wf e] is_root_vext [OF e] by (auto simp: temp_def)
  show ?thesis
    unfolding open_pre_def Let_def
    using vfs_ok_vext [OF ok e] vext_foreign [OF wf e c(2,5)] vext_foreign [OF wf e v(3) lv] c is_root_vext [OF e] r(1) z v(1,2,5) fr F by simp
qed

lemma open_in_spec:
  assumes ok: "vfs_ok s N K" and e: "vext n s s1" and r: "dref s1 r y" "temp s s1 r" and y: "y \<in> N"
    and nm: "name \<noteq> []" "length name \<le> RAMFS_MAX_NAME" and mode: "mode AND S_IFMT = 0"
  shows "\<exists>f t. open_in r name flags mode s1 = Some (f, t) \<and> open_outcome s N K y name flags mode (n + 2) f t"
proof -
  note wf = vfs_okD(1) [OF ok]
  have same: "vfs_ok t N K \<and> same_tree (krn s) (krn t) N K" if "vext m s t" for m t
    using vfs_ok_vext [OF ok that] vext_same_tree [OF wf that] by blast
  have r0: "r \<noteq> NULL" using r(1) by (simp add: dref_def)
  show ?thesis
  proof (rule new_child [OF ok e r])
    fix t assume t: "alloc_dentry s1 = Some (NULL, s1)" "vfs_free_dentry_chain r s1 = Some t" "vext n s t" "nomem s n"
    then have "open_in r name flags mode s1 = Some (NULL, t)" by (simp add: open_in_def drop_parent_eq)
    then show ?thesis using same [OF t(3)] nomem_mono [OF t(4), of "n + 2"] by (simp add: open_outcome_def)
  next
    fix child s2 assume c: "alloc_dentry s1 = Some (child, s2)" "child \<noteq> NULL" "\<not> keep s child" "r \<noteq> child" "\<not> is_root s child"
      "vext (n + 1) s s2" "live (hp s2) child \<noteq> None" "dref s2 r y" "temp s s2 r" "den s2 child = zero_dentry" "den s2 r = den s1 r"
    define s3 where "s3 = upd_den child (\<lambda>d. d\<lparr>d_name := name, d_parent := r, d_sb := d_sb (den s2 r)\<rparr>) s2"
    have e3: "vext (n + 1) s s3" unfolding s3_def by (rule vext_upd_den [OF c(6,3)])
    have z: "d_parent (den s3 child) = r" "d_inode (den s3 child) = NULL" "live (hp s3) child \<noteq> None" "d_name (den s3 child) = name" "keep s3 child"
      using c(7,10) by (simp_all add: s3_def zero_dentry_def keep_def)
    have d3: "dref s3 r y" unfolding s3_def dref_upd [OF c(4)] by (rule c(8))
    have t3: "temp s s3 r" using c(4,9) by (auto simp: temp_def s3_def)
    define C where "C = (\<lambda>u. do { (ok, s) \<leftarrow> ensure_inode r child flags mode u;
       if \<not> ok then do { s \<leftarrow> vfs_free_dentry_chain child s; Some (NULL, s) } else finish_open r child flags mode s })"
    have i3: "d_inode (den s3 r) \<noteq> NULL" using d3 by (simp add: dref_def)
    have O: "open_in r name flags mode s1 = do { u \<leftarrow> call_lookup ramfs_lookup r child s3; C u }"
      using c(1,2) nm(1) r0 dop_simps(1) [OF i3] by (simp add: open_in_def s3_def [symmetric] C_def)
    have miss: "\<exists>f t. C s3 = Some (f, t) \<and> open_outcome s N K y name flags mode (n + 2) f t"
      if n: "dir_map (krn s) K y name \<noteq> None \<Longrightarrow> nomem s (n + 1)"
    proof (cases "flags AND O_CREAT = 0")
      case True
      obtain t where t: "vfs_free_dentry_chain child s3 = Some t" "vext (n + 1) s t" by (rule chain_vext [OF e3 c(3) z(3,1) c(5) t3 c(4) r0])
      then have "C s3 = Some (NULL, t)" using True z(2) by (simp add: C_def ensure_inode_def)
      then show ?thesis using same [OF t(2)] True n nomem_mono [of s "n + 1" "n + 2"] unfolding open_outcome_def by (cases "dir_map (krn s) K y name") auto
    next
      case False
      obtain f t where "C s3 = Some (f, t)" "open_outcome s N K y name flags mode (n + 1) f t"
        using create_open [OF ok e3 c(2-5) z(1-4) d3 t3 y nm False mode n, of "C s3"] by (auto simp: C_def)
      then show ?thesis using open_outcome_mono by fastforce
    qed
    show ?thesis
    proof (rule call_lookup_cases [OF e3 wf d3 y c(4,3) z(5,2,4)])
      assume "dir_map (krn s) K y name = None" "call_lookup ramfs_lookup r child s3 = Some s3"
      then show ?thesis using O miss by simp
    next
      fix x assume "call_lookup ramfs_lookup r child s3 = Some s3" "nomem s (n + 1)"
      then show ?thesis using O miss by simp
    next
      fix x s4 assume a: "dir_map (krn s) K y name = Some x" "x \<in> N" "call_lookup ramfs_lookup r child s3 = Some s4" "vext (n + 1 + 1) s s4"
        "dref s4 child x" "dref s4 r y" "live (hp s3) \<subseteq>\<^sub>m live (hp s4)" "\<not> keep s (d_inode (den s4 child))"
        "den s4 child = (den s3 child)\<lparr>d_inode := d_inode (den s4 child)\<rparr>" "\<And>q. q \<noteq> child \<Longrightarrow> den s4 q = den s3 q"
        "vinodes (krn s4) (d_inode (den s4 child)) = \<lparr>i_ino = ino (inodes (krn s) x), i_mode = imode (inodes (krn s) x),
           i_size = isize (inodes (krn s) x), i_dir_ops = isdir (krn s) x, i_private = x\<rparr>" "\<not> keep s3 (d_inode (den s4 child))"
      have l4: "live (hp s4) q \<noteq> None" if "live (hp s3) q \<noteq> None" for q using a(7) that by (auto simp: map_le_def dom_def)
      have t4: "temp s s4 r" using t3 l4 a(10) [OF c(4)] by (auto simp: temp_def)
      have p4: "d_parent (den s4 child) = r" by (subst a(9)) (simp add: z(1))
      have v4: "d_inode (den s4 child) \<noteq> NULL" "keep s4 (d_inode (den s4 child))" using a(5) by (simp_all add: dref_def)
      have vr: "d_inode (den s4 child) \<noteq> r" using a(12) d3 by (auto simp: dref_def)
      have pre: "open_pre s4 N K r child x"
        by (rule found_open_pre [OF ok a(4) c(2-5) l4 [OF z(3)] r0 t4 p4 a(2) v4(1) vr a(8) v4(2) a(11)])
      have "C s4 = finish_open r child flags mode s4" using v4(1) by (simp add: C_def ensure_inode_def)
      then have O4: "open_in r name flags mode s1 = finish_open r child flags mode s4" using O a(3) by simp
      note F = vext_fs(3,4) [OF a(4) wf a(2)]
      have tf: "tree_frame (krn s) (krn s4) N K x" by (rule same_tree_frame [OF vext_same_tree [OF wf a(4)]])
      show ?thesis
      proof (rule finish_open_spec [OF pre, of flags mode])
        fix t assume t: "finish_open r child flags mode s4 = Some (NULL, t)" "\<not> can_alloc FILE_SIZE (hp s4)" "vfs_ok t N K" "same_tree (krn s4) (krn t) N K"
        have "nomem s (n + 2)" using t(2) a(4) unfolding nomem_def by (auto simp: add.assoc)
        moreover have "same_tree (krn s) (krn t) N K" using t(4) same [OF a(4)] by (simp add: same_tree_def)
        ultimately show ?thesis using O4 t(1,3) by (simp add: open_outcome_def)
      next
        fix f t assume t: "finish_open r child flags mode s4 = Some (f, t)" "vfs_ok t N K" "vframe s4 t" "tree_frame (krn s4) (krn t) N K x"
          "contents (krn t) x = (if flags AND O_TRUNC \<noteq> 0 \<and> S_ISREG (imode (inodes (krn s4) x)) then [] else contents (krn s4) x)" "file_ok t N f x"
          "f_pos (files t f) = (if flags AND O_APPEND \<noteq> 0 \<and> S_ISREG (imode (inodes (krn s4) x)) then isize (inodes (krn t) x) else 0)"
        have "open_outcome s N K y name flags mode (n + 2) f t"
          unfolding open_outcome_def
          using a(1) t(2,6) vframe_trans [OF vext_vframe [OF a(4)] t(3)] tree_frame_trans [OF tf t(4)] t(5,7) [unfolded F] by simp
        then show ?thesis using O4 t(1) by simp
      qed
    qed
  qed
qed

section \<open>Opening by path\<close>

lemma slash_in_rest: "SLASH \<in> set p \<Longrightarrow> p = [] \<or> hd p \<noteq> SLASH \<Longrightarrow> SLASH \<in> set (dropWhile (\<lambda>c. c = SLASH) (zs @ p))"
proof (induction zs)
  case Nil
  then show ?case by (cases p) auto
qed auto

text \<open>Without a parent directory the path has several components, so \<^verbatim>\<open>vfs_open\<close> does not fall back to the root directory.\<close>

lemma lookup_parent_null:
  assumes ok: "vfs_ok s N K" and p: "vpath s path = (x, cs)" "cs \<noteq> []" and l: "vfs_lookup_parent (Some path) s = Some (NULL, name, t)"
  shows "dropWhile (\<lambda>c. c \<noteq> SLASH) (dropWhile (\<lambda>c. c = SLASH) path) \<noteq> []"
proof -
  obtain d rest where d: "resolve_path_root (Some path) s = (d, Some rest)" "is_root s d" "d \<noteq> NULL"
    by (rule resolve_root [OF vfs_okD(2) [OF ok]])
  define q where "q = dropWhile (\<lambda>c. c = SLASH) rest"
  have "cs = path_parts q" using p(1) d(1) by (simp add: vpath_def q_def)
  then have q: "q \<noteq> []" using p(2) by auto
  have "parent_walk d q s = Some (NULL, name, t)" using l vfs_okD(2) [OF ok] d by (simp add: vfs_lookup_parent_def q_def)
  then have "path_tail q \<noteq> []" using q d(3) parent_walk.simps [of d q s] by auto
  then have "dropWhile (\<lambda>c. c \<noteq> SLASH) q \<noteq> []" unfolding path_tail_def by (metis dropWhile.simps(1))
  then have sl: "SLASH \<in> set q" unfolding dropWhile_eq_Nil_conv by blast
  obtain zs where "path = zs @ q"
  proof -
    obtain i j where "rest = dropWhile (\<lambda>c. c = SLASH) (drop i path) \<or> rest = path"
      using d(1) by (auto simp: resolve_path_root_def split: prod.splits option.splits if_splits)
    moreover have "\<exists>zs. ys = zs @ dropWhile (\<lambda>c. c = SLASH) ys" for ys :: bytes by (metis takeWhile_dropWhile_id)
    moreover have "\<exists>zs. path = zs @ drop i path" by (metis append_take_drop_id)
    ultimately show thesis using that unfolding q_def by (metis append.assoc)
  qed
  moreover have "q = [] \<or> hd q \<noteq> SLASH" unfolding q_def using hd_dropWhile [of "\<lambda>c. c = SLASH" rest] by blast
  ultimately have "SLASH \<in> set (dropWhile (\<lambda>c. c = SLASH) path)" using slash_in_rest [OF sl] by blast
  then show ?thesis by auto
qed

text \<open>The specification of \<^verbatim>\<open>vfs_open\<close> for the path with components \<open>cs\<close> from the inode \<open>x\<close>.\<close>

definition open_result :: "vfs \<Rightarrow> ptr set \<Rightarrow> (ptr \<Rightarrow> ptr list) \<Rightarrow> ptr \<Rightarrow> bytes list \<Rightarrow> u32 \<Rightarrow> u32 \<Rightarrow> ptr \<Rightarrow> vfs \<Rightarrow> bool" where
  "open_result s N K x cs flags mode f t \<longleftrightarrow>
     (case dir_walk (krn s) K x (butlast cs) of
        None \<Rightarrow> f = NULL \<and> vfs_ok t N K \<and> same_tree (krn s) (krn t) N K
      | Some y \<Rightarrow> open_outcome s N K y (last cs) flags mode (2 * length cs + 2) f t
                 \<or> f = NULL \<and> vfs_ok t N K \<and> same_tree (krn s) (krn t) N K \<and> nomem s (2 * length cs))"

lemma vfs_open_spec:
  assumes ok: "vfs_ok s N K" and p: "vpath s path = (x, cs)" "cs \<noteq> []" "path \<noteq> [SLASH]" "find_mount_by_target (Some path) s = None"
    and mode: "mode AND S_IFMT = 0"
  shows "\<exists>f t. vfs_open (Some path) flags mode s = Some (f, t) \<and> open_result s N K x cs flags mode f t"
proof -
  have "path \<noteq> []"
  proof
    assume e: "path = []"
    obtain d rest where d: "resolve_path_root (Some path) s = (d, Some rest)" by (rule resolve_root [OF vfs_okD(2) [OF ok]])
    then have "rest = []" using e by (auto simp: resolve_path_root_def split: prod.splits option.splits if_splits)
    then show False using p(1,2) d by (simp add: vpath_def)
  qed
  then have O: "vfs_open (Some path) flags mode s = open_path path flags mode s" using p(3,4) by (simp add: vfs_open_def)
  obtain r name s1 where l: "vfs_lookup_parent (Some path) s = Some (r, name, s1)" "vext (2 * length cs) s s1"
    and lr: "case dir_walk (krn s) K x (butlast cs) of None \<Rightarrow> r = NULL
         | Some y \<Rightarrow> y \<in> N \<and> (r = NULL \<and> nomem s (2 * length cs) \<or> dref s1 r y \<and> temp s s1 r \<and> name = last cs)"
    using lookup_parent_spec [OF ok p(1)] p(2) by auto
  have same: "vfs_ok s1 N K \<and> same_tree (krn s) (krn s1) N K"
    using vfs_ok_vext [OF ok l(2)] vext_same_tree [OF vfs_okD(1) [OF ok] l(2)] by blast
  show ?thesis
  proof (cases "r = NULL")
    case True
    then have "vfs_lookup_parent (Some path) s = Some (NULL, name, s1)" using l(1) by simp
    then have "open_path path flags mode s = Some (NULL, s1)"
      using lookup_parent_null [OF ok p(1,2)] by (simp add: open_path_def)
    moreover have "open_result s N K x cs flags mode NULL s1"
      using same lr True by (auto simp: open_result_def dref_def split: option.splits)
    ultimately show ?thesis using O by simp
  next
    case False
    then obtain y where y: "dir_walk (krn s) K x (butlast cs) = Some y" "y \<in> N" "dref s1 r y" "temp s s1 r" "name = last cs"
      using lr by (auto split: option.splits)
    have nm: "name \<noteq> []" "length name \<le> RAMFS_MAX_NAME"
      using vpath_names [OF p(1)] y(5) p(2) by (simp_all add: NAME_MAX_def RAMFS_MAX_NAME_def)
    have "open_path path flags mode s = open_in r name flags mode s1" using l(1) False by (simp add: open_path_def)
    then show ?thesis
      using open_in_spec [OF ok l(2) y(3,4,2) nm mode, of flags] O y(1,5) unfolding open_result_def by auto
  qed
qed

section \<open>Closing, reading and writing\<close>

lemma file_okD:
  assumes "file_ok t N f c"
  shows "f \<noteq> NULL" "c \<in> N" "foreign (krn t) N f" "f_private (files t f) = c" "f_count (files t f) = 1"
    "f_op (files t f) = Some (if isdir (krn t) c then ramfs_dir_ops else ramfs_file_ops)"
    "f_dentry (files t f) \<noteq> NULL" "f_dentry (files t f) \<noteq> f" "foreign (krn t) N (f_dentry (files t f))" "\<not> is_root t (f_dentry (files t f))"
    "is_root t (d_parent (den t (f_dentry (files t f))))" "d_parent (den t (f_dentry (files t f))) \<noteq> f_dentry (files t f)"
    "d_inode (den t (f_dentry (files t f))) \<noteq> NULL" "foreign (krn t) N (d_inode (den t (f_dentry (files t f))))"
  using assms unfolding file_ok_def Let_def by blast+

lemma root_nonnull: "vfs_ok s N K \<Longrightarrow> is_root s d \<Longrightarrow> d \<noteq> NULL"
  using vfs_okD(2) by (auto simp: is_root_def dentry_is_mount_root_def)

lemma vfs_close_spec:
  assumes ok: "vfs_ok t N K" and f: "file_ok t N f c"
  obtains t' where "vfs_close f t = Some (0, t')" "vfs_ok t' N K" "vframe t t'" "same_tree (krn t) (krn t') N K"
proof -
  note P = file_okD [OF f] and wf = vfs_okD(1) [OF ok]
  define d where "d = f_dentry (files t f)"
  define u where "u = upd_file f (\<lambda>x. x\<lparr>f_count := f_count x - 1\<rparr>)
     (upd_file f (f_private_update (\<lambda>_. private_data (ramfs_release (rfile_of f t)))) t)"
  have u: "files u f = (files t f)\<lparr>f_private := NULL, f_count := 0\<rparr>" "krn u = krn t" "den u = den t" "mounts u = mounts t" "mount_pool u = mount_pool t"
    "root_dentry u = root_dentry t" using P(5) by (simp_all add: u_def ramfs_release_def)
  have iu: "is_root u q = is_root t q" for q by (simp add: u_def)
  let ?p = "d_parent (den u d)"
  have r: "is_root t ?p" "?p \<noteq> NULL" "?p \<noteq> d" using P(11,12) root_nonnull [OF ok P(11)] by (simp_all add: u d_def)
  have "vfs_free_dentry_chain d u = vfs_free_dentry_chain ?p (free_obj d u)"
    by (rule chain_two [OF _ _ refl r(2,3)]) (use P(7,10) in \<open>simp_all add: d_def iu\<close>)
  also have "\<dots> = Some (free_obj d u)" by (rule chain_root) (simp add: iu r(1))
  finally have dp: "drop_parent d u = Some (free_obj d u)" by (simp add: drop_parent_eq)
  define t' where "t' = free_obj f (free_obj d u)"
  have cl: "vfs_close f t = Some (0, t')"
    unfolding vfs_close_def fop_ramfs(2) [OF P(6)] option.case
    using P(1,5,7) dp u(1) by (simp add: Let_def u_def [symmetric] d_def t'_def)
  have fd: "foreign (krn u) N d" "foreign (krn u) N f" "f \<noteq> d" using P(3,8,9) by (simp_all add: u d_def)
  have wu: "fs_wf (krn u) N K" using wf by (simp add: u)
  note A = foreign_free [OF wu fd(1) krn_free_obj]
  note B = foreign_free [OF A(1) A(4) [OF fd(2,3)] krn_free_obj, folded t'_def]
  have st: "same_tree (krn t) (krn t') N K"
    unfolding same_tree_def using A(2,3) B(1-3) by (simp add: u) (simp add: t'_def u)
  have vf: "vframe t t'" by (simp add: vframe_def t'_def u)
  have "vfs_ok t' N K" by (rule entry_frame_ok [OF ok vf]) (use st in \<open>simp_all add: same_tree_def\<close>)
  then show thesis using that cl vf st by blast
qed

text \<open>What a write leaves alone besides the other files.\<close>

definition write_frame :: "ramfs \<Rightarrow> ramfs \<Rightarrow> ptr set \<Rightarrow> ptr \<Rightarrow> bool" where
  "write_frame k k' N v \<longleftrightarrow> heap_start (fheap k') = heap_start (fheap k) \<and> heap_end (fheap k') = heap_end (fheap k)
     \<and> (\<forall>p. imode (inodes k' p) = imode (inodes k p) \<and> iparent (inodes k' p) = iparent (inodes k p))
     \<and> (\<forall>p. p \<noteq> v \<longrightarrow> vinodes k' p = vinodes k p) \<and> (\<forall>q. foreign k N q \<longrightarrow> foreign k' N q)"

lemma write_frame_trans: "write_frame k k' N v \<Longrightarrow> write_frame k' k'' N v \<Longrightarrow> write_frame k k'' N v"
  by (simp add: write_frame_def)

lemma store_data_frame:
  assumes "store_data file buf pos k = Some (r, pos', k')"
  shows "write_frame k k' N (f_inode file)"
proof -
  have "live (fheap k') = live (fheap k) \<and> heap_start (fheap k') = heap_start (fheap k) \<and> heap_end (fheap k') = heap_end (fheap k)
    \<and> (\<forall>p. idata (inodes k' p) = idata (inodes k p) \<and> imode (inodes k' p) = imode (inodes k p) \<and> iparent (inodes k' p) = iparent (inodes k p))
    \<and> (\<forall>p. p \<noteq> f_inode file \<longrightarrow> vinodes k' p = vinodes k p)"
    using assms by (auto simp: store_data_def Let_def fmem_def upd_ino_def split: if_splits)
  then show ?thesis using foreign_cong [of k' k N] by (simp add: write_frame_def)
qed

lemma grow_data_frame:
  assumes ok: "fs_wf k N K" and p: "p \<in> N" and g: "grow_data p ns k = Some (True, k')"
  shows "write_frame k k' N v"
proof -
  define i where "i = inodes k p"
  define nc where "nc = (ns + RAMFS_BLOCK_SIZE - 1) AND NOT (RAMFS_BLOCK_SIZE - 1)"
  note B = fs_okD(3) [OF ok p, folded i_def] and I = fs_okD(1) [OF ok]
  from kmalloc_cases [OF I, of nc GFP_KERNEL]
  consider nd h1 n where "kmalloc nc GFP_KERNEL (fheap k) = Some (nd, h1)" "nd \<noteq> NULL" "heap_inv h1"
      "live (fheap k) nd = None" "live h1 = (live (fheap k))(nd \<mapsto> n)" "heap_start h1 = heap_start (fheap k)" "heap_end h1 = heap_end (fheap k)"
    | "kmalloc nc GFP_KERNEL (fheap k) = Some (NULL, fheap k)" by blast
  then show ?thesis
  proof cases
    case 1
    define h2 where "h2 = h1\<lparr>mem := (if idata i \<noteq> NULL then byte_copy (unat (isize i)) nd (idata i) (mem h1) else mem h1)\<rparr>"
    define h3 where "h3 = kfree (idata i) h2"
    obtain m where k': "k' = upd_ino p (\<lambda>i. i\<lparr>idata := nd, data_capacity := nc\<rparr>) (k\<lparr>fheap := h3\<lparr>mem := m\<rparr>\<rparr>)"
    proof
      show "k' = upd_ino p (\<lambda>i. i\<lparr>idata := nd, data_capacity := nc\<rparr>)
          (k\<lparr>fheap := h3\<lparr>mem := byte_fill (unat nc - unat (isize i)) (nd + unat (isize i)) 0 (mem h3)\<rparr>\<rparr>)"
        using g 1(1,2) kh.release_NULL [of h1]
        by (cases "idata i = NULL") (simp_all add: grow_data_def Let_def nc_def [symmetric] i_def [symmetric] h3_def h2_def fmem_def)
    qed
    have old: "idata i = NULL \<or> live h2 (idata i) \<noteq> None" using B 1(4,5) by (auto simp: buf_ok_def i_def h2_def split: if_splits)
    have h2: "heap_inv h2" "live h2 = (live (fheap k))(nd \<mapsto> n)" using 1(3,5) by (simp_all add: h2_def)
    have lv: "live h3 = (live h2)(idata i := None)" using kh.release_upd(2) [OF h2(1) old] by (simp add: h3_def)
    have "foreign k' N q" if q: "foreign k N q" for q
    proof -
      have "q \<noteq> nd" "q \<noteq> idata i" using q 1(4) p by (auto simp: foreign_def i_def)
      then show ?thesis using q by (auto simp: foreign_def k' upd_ino_def lv h2(2))
    qed
    then show ?thesis using 1(6,7) by (simp add: write_frame_def k' upd_ino_def h3_def h2_def)
  next
    case 2
    then show ?thesis using g by (simp add: grow_data_def Let_def nc_def [symmetric])
  qed
qed

lemma ramfs_write_frame:
  assumes ok: "fs_wf k N K" and p: "private_data file \<in> N" and w: "ramfs_write file buf pos k = Some (r, pos', k')" "r \<noteq> - ENOMEM"
  shows "write_frame k k' N (f_inode file)"
proof -
  let ?p = "private_data file" and ?ns = "pos + of_nat (length buf)"
  have p0: "?p \<noteq> NULL" by (rule fs_okD(5) [OF ok p])
  show ?thesis
  proof (cases "?ns > data_capacity (inodes k ?p)")
    case True
    then obtain k1 where k1: "grow_data ?p ?ns k = Some (True, k1)" "store_data file buf pos k1 = Some (r, pos', k')"
      using w p0 by (auto simp: ramfs_write_def Let_def Option.bind_eq_Some_conv split: if_splits)
    show ?thesis by (rule write_frame_trans [OF grow_data_frame [OF ok p k1(1)] store_data_frame [OF k1(2)]])
  next
    case False
    then show ?thesis using w p0 store_data_frame by (simp add: ramfs_write_def Let_def)
  qed
qed

lemma vfs_write_spec:
  assumes ok: "vfs_ok t N K" and f: "file_ok t N f c" "\<not> isdir (krn t) c" and lim: "unat (f_pos (files t f)) + length buf < 2 ^ 63"
  obtains (nomem) t' where "vfs_write f (Some buf) t = Some (- ENOMEM, t')" "vfs_ok t' N K" "vframe t t'" "file_ok t' N f c"
      "same_tree (krn t) (krn t') N K"
  | (written) t' where "vfs_write f (Some buf) t = Some (int (length buf), t')" "vfs_ok t' N K" "vframe t t'" "file_ok t' N f c"
      "tree_frame (krn t) (krn t') N K c" "contents (krn t') c = overwrite (contents (krn t) c) (unat (f_pos (files t f))) buf"
      "f_pos (files t' f) = f_pos (files t f) + of_nat (length buf)"
proof -
  note P = file_okD [OF f(1)] and wf = vfs_okD(1) [OF ok]
  define rf where "rf = rfile_of f t"
  define v where "v = d_inode (den t (f_dentry (files t f)))"
  define pos where "pos = f_pos (files t f)"
  have rf: "private_data rf = c" "f_inode rf = v" using P(4,7) by (simp_all add: rf_def rfile_of_def v_def)
  have op: "fop write_op f t = Some ramfs_write" using fop_ramfs(4) [OF P(6)] f(2) by simp
  have W: "vfs_write f (Some buf) t = do { (r, pos, k) \<leftarrow> ramfs_write rf buf pos (krn t);
      Some (r, upd_file f (f_pos_update (\<lambda>_. pos)) (set_kern k t)) }"
    using P(1) op by (simp add: vfs_write_def rf_def pos_def)
  have cN: "private_data rf \<in> N" using P(2) rf by simp
  have lim': "unat pos + length buf < 2 ^ 63" using lim by (simp add: pos_def)
  show thesis
  proof (rule ramfs_write_spec [OF wf cN lim'])
    assume a: "ramfs_write rf buf pos (krn t) = Some (- ENOMEM, pos, krn t)"
    define t' where "t' = upd_file f (f_pos_update (\<lambda>_. pos)) (set_kern (krn t) t)"
    have e: "krn t' = krn t" "den t' = den t" "mounts t' = mounts t" "mount_pool t' = mount_pool t" "root_dentry t' = root_dentry t"
      "files t' f = files t f" by (simp_all add: t'_def pos_def)
    have vf: "vframe t t'" by (simp add: vframe_def e)
    have ir: "is_root t' q = is_root t q" for q by (rule is_root_cong) (simp_all add: e)
    have "vfs_ok t' N K" by (rule entry_frame_ok [OF ok vf]) (simp_all add: e wf)
    moreover have "file_ok t' N f c" using f(1) by (simp add: file_ok_def e ir)
    moreover have "same_tree (krn t) (krn t') N K" using wf by (simp add: same_tree_def e)
    ultimately show thesis using nomem vf W a by (simp add: t'_def)
  next
    fix k assume a: "ramfs_write rf buf pos (krn t) = Some (int (length buf), pos + of_nat (length buf), k)" "fs_wf k N K"
      "contents k (private_data rf) = overwrite (contents (krn t) (private_data rf)) (unat pos) buf"
      "\<And>q. \<lbrakk> q \<in> N; q \<noteq> private_data rf \<rbrakk> \<Longrightarrow> contents k q = contents (krn t) q" "dir_map k K = dir_map (krn t) K"
    define t' where "t' = upd_file f (f_pos_update (\<lambda>_. pos + of_nat (length buf))) (set_kern k t)"
    have e: "krn t' = k" "den t' = den t" "mounts t' = mounts t" "mount_pool t' = mount_pool t" "root_dentry t' = root_dentry t"
      "files t' f = (files t f)\<lparr>f_pos := pos + of_nat (length buf)\<rparr>" by (simp_all add: t'_def)
    have "int (length buf) \<noteq> - ENOMEM" by simp
    then have fr: "write_frame (krn t) k N v" using ramfs_write_frame [OF wf cN a(1)] rf(2) by simp
    have "\<not> outside t v" by (rule foreign_not_outside [OF ok P(14) [folded v_def]])
    then have vf: "vframe t t'" using fr by (auto simp: vframe_def e write_frame_def)
    have ir: "is_root t' q = is_root t q" for q by (rule is_root_cong) (simp_all add: e)
    have "vfs_ok t' N K" by (rule entry_frame_ok [OF ok vf]) (use a(2) fr in \<open>simp_all add: e write_frame_def\<close>)
    moreover have "file_ok t' N f c"
      unfolding file_ok_def Let_def using P fr by (simp add: e ir write_frame_def)
    moreover have "tree_frame (krn t) (krn t') N K c" using fr a(4,5) rf(1) by (simp add: tree_frame_def e write_frame_def)
    ultimately show thesis using written [of t'] vf W a(1,3) rf(1) by (simp add: t'_def pos_def)
  qed
qed

lemma vfs_read_spec:
  fixes count :: u64
  assumes ok: "vfs_ok t N K" and f: "file_ok t N f c" "\<not> isdir (krn t) c" and lim: "unat (f_pos (files t f)) < 2 ^ 63"
  defines "out \<equiv> take (unat count) (drop (unat (f_pos (files t f))) (contents (krn t) c))"
  shows "vfs_read f True count t = Some (int (length out), out, upd_file f (f_pos_update (\<lambda>_. f_pos (files t f) + of_nat (length out))) t)"
proof -
  note P = file_okD [OF f(1)] and wf = vfs_okD(1) [OF ok]
  have rf: "private_data (rfile_of f t) = c" using P(4) by (simp add: rfile_of_def)
  have op: "fop read_op f t = Some ramfs_read" using fop_ramfs(3) [OF P(6)] f(2) by simp
  have cN: "private_data (rfile_of f t) \<in> N" using P(2) rf by simp
  have "ramfs_read (rfile_of f t) count (f_pos (files t f)) (krn t) = Some (int (length out), out, f_pos (files t f) + of_nat (length out))"
    using ramfs_read_spec [OF wf cN lim, of count] by (simp add: rf out_def)
  then show ?thesis using P(1) op by (simp add: vfs_read_def)
qed

text \<open>The loop of \<^verbatim>\<open>vfs_save_file\<close>: the file system takes all bytes at once or none.\<close>

lemma save_loop_spec:
  assumes ok: "vfs_ok t N K" and f: "file_ok t N f c" "\<not> isdir (krn t) c" and lim: "unat (f_pos (files t f)) + length data < 2 ^ 63"
  obtains (failed) t' where "save_loop f data 0 t = Some (- EIO, t')" "vfs_ok t' N K" "vframe t t'" "same_tree (krn t) (krn t') N K" "data \<noteq> []"
  | (saved) t' where "save_loop f data 0 t = Some (int (length data), t')" "vfs_ok t' N K" "vframe t t'" "tree_frame (krn t) (krn t') N K c"
      "contents (krn t') c = (if data = [] then contents (krn t) c else overwrite (contents (krn t) c) (unat (f_pos (files t f))) data)"
proof (cases "data = []")
  case True
  obtain t' where t': "vfs_close f t = Some (0, t')" "vfs_ok t' N K" "vframe t t'" "same_tree (krn t) (krn t') N K" by (rule vfs_close_spec [OF ok f(1)])
  then have "save_loop f data 0 t = Some (int (length data), t')" using True by (subst save_loop.simps) simp
  then show thesis using saved t' True same_tree_frame file_okD(2) [OF f(1)] by (simp add: same_tree_def)
next
  case False
  show thesis
  proof (rule vfs_write_spec [OF ok f lim])
    fix u assume u: "vfs_write f (Some data) t = Some (- ENOMEM, u)" "vfs_ok u N K" "vframe t u" "file_ok u N f c" "same_tree (krn t) (krn u) N K"
    obtain t' where t': "vfs_close f u = Some (0, t')" "vfs_ok t' N K" "vframe u t'" "same_tree (krn u) (krn t') N K" by (rule vfs_close_spec [OF u(2,4)])
    have "save_loop f data 0 t = Some (- EIO, t')" using False u(1) t'(1) by (subst save_loop.simps) simp
    then show thesis using failed t'(2,4) u(5) vframe_trans [OF u(3) t'(3)] False by (simp add: same_tree_def)
  next
    fix u assume u: "vfs_write f (Some data) t = Some (int (length data), u)" "vfs_ok u N K" "vframe t u" "file_ok u N f c"
      "tree_frame (krn t) (krn u) N K c" "contents (krn u) c = overwrite (contents (krn t) c) (unat (f_pos (files t f))) data"
    obtain t' where t': "vfs_close f u = Some (0, t')" "vfs_ok t' N K" "vframe u t'" "same_tree (krn u) (krn t') N K" by (rule vfs_close_spec [OF u(2,4)])
    have "save_loop f data (length data) u = Some (int (length data), t')" using t'(1) by (subst save_loop.simps) simp
    then have "save_loop f data 0 t = Some (int (length data), t')" using False u(1) by (subst save_loop.simps) simp
    moreover have "contents (krn t') c = contents (krn u) c" using t'(4) file_okD(2) [OF f(1)] by (simp add: same_tree_def)
    ultimately show thesis
      using saved t'(2) vframe_trans [OF u(3) t'(3)] tree_frame_trans [OF u(5) same_tree_frame [OF t'(4)]] u(6) False by simp
  qed
qed

section \<open>Saving a file\<close>

lemma dir_walk_mono:
  assumes ok: "fs_wf k N K" and le: "\<And>d. d \<in> N \<Longrightarrow> dir_map k K d \<subseteq>\<^sub>m dir_map k' K' d"
  shows "x \<in> N \<Longrightarrow> dir_walk k K x cs = Some y \<Longrightarrow> dir_walk k' K' x cs = Some y"
proof (induction cs arbitrary: x)
  case (Cons c cs)
  then obtain e where e: "dir_map k K x c = Some e" "dir_walk k K e cs = Some y" by (auto simp: Option.bind_eq_Some_conv)
  have "e \<in> N" by (rule dir_map_child(1) [OF ok Cons.prems(1) e(1)])
  moreover have "dir_map k' K' x c = Some e" using le [OF Cons.prems(1)] e(1) by (auto simp: map_le_def dom_def)
  ultimately show ?case using Cons.IH e(2) by simp
qed simp

lemma vpath_frame:
  assumes ok: "vfs_ok s N K" and f: "vframe s t"
  shows "vpath t path = vpath s path" "find_mount_by_target target t = find_mount_by_target target s"
proof -
  have e: "mounts t = mounts s" "mount_pool t = mount_pool s" "root_dentry t = root_dentry s" using f by (simp_all add: vframe_def)
  have "best_mount path t is b = best_mount path s is b" for "is" b
    by (induction "is" arbitrary: b) (simp_all add: e split: option.split)
  then have r: "resolve_path_root (Some path) t = resolve_path_root (Some path) s" unfolding resolve_path_root_def find_mount_for_path_def e by simp
  obtain d rest where d: "resolve_path_root (Some path) s = (d, Some rest)" "is_root s d" "d \<noteq> NULL" by (rule resolve_root [OF vfs_okD(2) [OF ok]])
  have "outside s d" "outside s (d_inode (den s d))" using ok d(2,3) unfolding vfs_ok_def by blast+
  then have "root_of t d = root_of s d" using f by (simp add: root_of_def vframe_def)
  then show "vpath t path = vpath s path" using d(1) r by (simp add: vpath_def)
  show "find_mount_by_target target t = find_mount_by_target target s" unfolding find_mount_by_target_def e ..
qed

lemma size_small:
  assumes "fs_wf k N K" and "c \<in> N"
  shows "unat (isize (inodes k c)) \<le> 33554432" "length (contents k c) = unat (isize (inodes k c))"
proof -
  have "isize (inodes k c) \<le> data_capacity (inodes k c)" "data_capacity (inodes k c) \<le> MAX_ALLOC" using fs_okD(3) [OF assms] by (simp_all add: buf_ok_def)
  then show "unat (isize (inodes k c)) \<le> 33554432" using cap_small order_trans by blast
  show "length (contents k c) = unat (isize (inodes k c))" by (simp add: contents_def)
qed

lemma overwrite_end: "n = length old \<Longrightarrow> overwrite old n buf = old @ buf"
  by (simp add: overwrite_def)

text \<open>The file has been saved: a file of inode \<open>c\<close> with the given contents is at the path, and all other files of \<open>N\<close> are as
  before.\<close>

definition saved_as :: "vfs \<Rightarrow> vfs \<Rightarrow> ptr set \<Rightarrow> ptr \<Rightarrow> bytes list \<Rightarrow> bytes \<Rightarrow> bool" where
  "saved_as s t N x cs bs \<longleftrightarrow> vframe s t \<and> (\<exists>N' K' c. vfs_ok t N' K' \<and> N \<subseteq> N' \<and> dir_walk (krn t) K' x cs = Some c \<and> c \<in> N'
     \<and> S_ISREG (imode (inodes (krn t) c)) \<and> contents (krn t) c = bs \<and> (\<forall>p \<in> N. p \<noteq> c \<longrightarrow> contents (krn t) p = contents (krn s) p))"

text \<open>Nothing but the file itself has changed.\<close>

definition others_kept :: "vfs \<Rightarrow> vfs \<Rightarrow> ptr set \<Rightarrow> (ptr \<Rightarrow> ptr list) \<Rightarrow> ptr \<Rightarrow> bytes list \<Rightarrow> bool" where
  "others_kept s t N K x cs \<longleftrightarrow>
     (\<exists>N' K'. vfs_ok t N' K' \<and> N \<subseteq> N' \<and> (\<forall>p \<in> N. dir_walk (krn s) K x cs \<noteq> Some p \<longrightarrow> contents (krn t) p = contents (krn s) p))"

lemma save_open:
  assumes ok: "vfs_ok t N K" and f: "file_ok t N f c" "S_ISREG (imode (inodes (krn t) c))" and pos: "unat (f_pos (files t f)) = length (contents (krn t) c)"
    and d: "length data \<le> 2147483647" and x: "x \<in> N" "dir_walk (krn t) K x cs = Some c"
  shows "\<exists>ret t'. save_loop f data 0 t = Some (ret, t') \<and> vframe t t' \<and> vfs_ok t' N K \<and> tree_frame (krn t) (krn t') N K c
    \<and> (ret = - EIO \<and> data \<noteq> [] \<or> ret = int (length data) \<and> dir_walk (krn t') K x cs = Some c \<and> contents (krn t') c = contents (krn t) c @ data)"
proof -
  note wf = vfs_okD(1) [OF ok]
  have nd: "\<not> isdir (krn t) c" using f(2) isreg_not_dir by blast
  have lim: "unat (f_pos (files t f)) + length data < 2 ^ 63" using size_small [OF wf file_okD(2) [OF f(1)]] pos d by simp
  show ?thesis
  proof (rule save_loop_spec [OF ok f(1) nd lim])
    fix t' assume t': "save_loop f data 0 t = Some (- EIO, t')" "vfs_ok t' N K" "vframe t t'" "same_tree (krn t) (krn t') N K" "data \<noteq> []"
    then show ?thesis using same_tree_frame by blast
  next
    fix t' assume t': "save_loop f data 0 t = Some (int (length data), t')" "vfs_ok t' N K" "vframe t t'" "tree_frame (krn t) (krn t') N K c"
      "contents (krn t') c = (if data = [] then contents (krn t) c else overwrite (contents (krn t) c) (unat (f_pos (files t f))) data)"
    have "contents (krn t') c = contents (krn t) c @ data" using t'(5) overwrite_end [OF pos] by simp
    moreover have "dir_walk (krn t') K x cs = Some c"
      by (rule dir_walk_mono [OF wf _ x]) (use t'(4) in \<open>simp add: tree_frame_def\<close>)
    ultimately show ?thesis using t'(1-4) by blast
  qed
qed

lemma save_flags:
  fixes flags :: u32
  defines "oflags \<equiv> (O_WRONLY OR O_CREAT) OR (if flags AND VFS_SAVE_APPEND \<noteq> 0 then O_APPEND else O_TRUNC)"
  shows "oflags AND O_CREAT \<noteq> 0" "oflags AND O_TRUNC \<noteq> 0 \<longleftrightarrow> flags AND VFS_SAVE_APPEND = 0" "oflags AND O_APPEND \<noteq> 0 \<longleftrightarrow> flags AND VFS_SAVE_APPEND \<noteq> 0"
  by (simp_all add: oflags_def O_WRONLY_def O_CREAT_def O_APPEND_def O_TRUNC_def)

text \<open>The bytes in front of the saved ones.\<close>

definition kept_bytes :: "vfs \<Rightarrow> (ptr \<Rightarrow> ptr list) \<Rightarrow> ptr \<Rightarrow> bytes list \<Rightarrow> u32 \<Rightarrow> bytes" where
  "kept_bytes s K x cs flags =
     (case dir_walk (krn s) K x cs of None \<Rightarrow> []
      | Some c \<Rightarrow> if flags AND VFS_SAVE_APPEND \<noteq> 0 then contents (krn s) c else [])"

lemma vfs_save_spec:
  assumes ok: "vfs_ok s N K" and p: "vpath s path = (x, cs)" "cs \<noteq> []" "path \<noteq> [SLASH]" "find_mount_by_target (Some path) s = None"
    and d: "length data \<le> 2147483647" and fl: "flags AND VFS_SAVE_CREATE_PARENTS = 0"
    and reg: "\<And>c. dir_walk (krn s) K x cs = Some c \<Longrightarrow> S_ISREG (imode (inodes (krn s) c))"
  shows "\<exists>ret t. vfs_save_file (Some path) (Some data) (of_nat (length data)) flags s = Some (ret, t) \<and> others_kept s t N K x cs
    \<and> (ret = - ENOENT \<or> ret = - EIO \<and> data \<noteq> []
       \<or> ret = int (length data) \<and> saved_as s t N x cs (kept_bytes s K x cs flags @ data))"
proof -
  note wf = vfs_okD(1) [OF ok] and xN = vpath_in [OF ok p(1)]
  define oflags where "oflags = (O_WRONLY OR O_CREAT) OR (if flags AND VFS_SAVE_APPEND \<noteq> 0 then O_APPEND else O_TRUNC)"
  note of = save_flags [of flags, folded oflags_def]
  have md: "(0x1A4 :: u32) AND S_IFMT = 0" by (simp add: S_IFMT_def)
  have un: "unat (of_nat (length data) :: u64) = length data" using d by (intro unat_of_nat_small) simp
  obtain f u where o: "vfs_open (Some path) oflags 0x1A4 s = Some (f, u)" "open_result s N K x cs oflags 0x1A4 f u"
    using vfs_open_spec [OF ok p md, of oflags] by blast
  have pn: "path \<noteq> []" using o(1) p by (auto simp: vfs_open_def vpath_def resolve_path_root_def split: prod.splits option.splits if_splits)
  have big: "\<not> (of_nat (length data) :: u64) > 0x7FFFFFFF" using un d by (simp add: word_less_nat_alt)
  have S: "vfs_save_file (Some path) (Some data) (of_nat (length data)) flags s = (if f = NULL then Some (- ENOENT, u) else save_loop f data 0 u)"
    using pn big fl o(1) un by (simp add: vfs_save_file_def oflags_def [symmetric])
  show ?thesis
  proof (cases "f = NULL")
    case True
    have "others_kept s u N K x cs"
      using o(2) True unfolding open_result_def others_kept_def open_outcome_def
      by (auto simp: same_tree_def vfs_added_def file_ok_def split: option.splits)
    then show ?thesis using S True by simp
  next
    case False
    then obtain y where y: "dir_walk (krn s) K x (butlast cs) = Some y" "open_outcome s N K y (last cs) oflags 0x1A4 (2 * length cs + 2) f u"
      using o(2) by (auto simp: open_result_def split: option.splits)
    have dw: "dir_walk (krn s) K x cs = dir_map (krn s) K y (last cs)" using dir_walk_last [OF p(2)] y(1) by simp
    from y(2) False consider c where "dir_map (krn s) K y (last cs) = Some c" "vfs_ok u N K" "vframe s u" "file_ok u N f c" "tree_frame (krn s) (krn u) N K c"
         "contents (krn u) c = (if oflags AND O_TRUNC \<noteq> 0 \<and> S_ISREG (imode (inodes (krn s) c)) then [] else contents (krn s) c)"
         "f_pos (files u f) = (if oflags AND O_APPEND \<noteq> 0 \<and> S_ISREG (imode (inodes (krn s) c)) then isize (inodes (krn u) c) else 0)"
      | e where "dir_map (krn s) K y (last cs) = None" "vfs_added s u N K y (last cs) e" "vframe s u" "file_ok u (insert e N) f e"
         "imode (inodes (krn u) e) = S_IFREG OR 0x1A4" "contents (krn u) e = []" "f_pos (files u f) = 0"
      unfolding open_outcome_def by blast
    then show ?thesis
    proof cases
      case 1
      have dc: "dir_walk (krn s) K x cs = Some c" using dw 1(1) by simp
      note r = reg [OF dc] and cN = file_okD(2) [OF 1(4)]
      have ct: "contents (krn u) c = kept_bytes s K x cs flags" using 1(6) r dc of(2) by (simp add: kept_bytes_def)
      have ru: "S_ISREG (imode (inodes (krn u) c))" using 1(5) r cN by (simp add: tree_frame_def)
      have pos: "unat (f_pos (files u f)) = length (contents (krn u) c)"
        using 1(6,7) r of(2,3) size_small(2) [OF vfs_okD(1) [OF 1(2)] cN] by (cases "flags AND VFS_SAVE_APPEND = 0") simp_all
      have du: "dir_walk (krn u) K x cs = Some c" by (rule dir_walk_mono [OF wf _ xN dc]) (use 1(5) in \<open>simp add: tree_frame_def\<close>)
      obtain ret t where t: "save_loop f data 0 u = Some (ret, t)" "vframe u t" "vfs_ok t N K" "tree_frame (krn u) (krn t) N K c"
        "ret = - EIO \<and> data \<noteq> [] \<or> ret = int (length data) \<and> dir_walk (krn t) K x cs = Some c \<and> contents (krn t) c = contents (krn u) c @ data"
        using save_open [OF 1(2,4) ru pos d xN du] by blast
      have tf: "tree_frame (krn s) (krn t) N K c" by (rule tree_frame_trans [OF 1(5) t(4)])
      have "others_kept s t N K x cs" unfolding others_kept_def using t(3) tf dc by (auto simp: tree_frame_def)
      moreover have "saved_as s t N x cs (kept_bytes s K x cs flags @ data)" if "ret = int (length data)"
      proof -
        have "dir_walk (krn t) K x cs = Some c" "contents (krn t) c = kept_bytes s K x cs flags @ data" using t(5) that ct by auto
        moreover have "S_ISREG (imode (inodes (krn t) c))" using tf r cN by (simp add: tree_frame_def)
        moreover have "\<forall>p \<in> N. p \<noteq> c \<longrightarrow> contents (krn t) p = contents (krn s) p" using tf by (simp add: tree_frame_def)
        ultimately show ?thesis unfolding saved_as_def using vframe_trans [OF 1(3) t(2)] t(3) cN by blast
      qed
      ultimately show ?thesis using S False t(1,5) by auto
    next
      case 2
      have dn: "dir_walk (krn s) K x cs = None" using dw 2(1) by simp
      obtain K' where K': "vfs_ok u (insert e N) K'" "e \<notin> N"
        "\<forall>g \<in> N. dir_map (krn u) K' g = (if g = y then (dir_map (krn s) K y)(last cs \<mapsto> e) else dir_map (krn s) K g)"
        "\<forall>p \<in> N. contents (krn u) p = contents (krn s) p" using 2(2) by (auto simp: vfs_added_def)
      have yN: "y \<in> N" by (rule dir_walk_in [OF wf y(1) xN])
      have "dir_walk (krn u) K' x (butlast cs) = Some y"
        by (rule dir_walk_mono [OF wf _ xN y(1)]) (use K'(3) 2(1) in \<open>auto simp: map_le_def\<close>)
      then have du: "dir_walk (krn u) K' x cs = Some e" using dir_walk_last [OF p(2)] K'(3) yN by simp
      have ru: "S_ISREG (imode (inodes (krn u) e))" using create_mode [OF md] 2(5) by simp
      have pos: "unat (f_pos (files u f)) = length (contents (krn u) e)" using 2(6,7) by simp
      obtain ret t where t: "save_loop f data 0 u = Some (ret, t)" "vframe u t" "vfs_ok t (insert e N) K'" "tree_frame (krn u) (krn t) (insert e N) K' e"
        "ret = - EIO \<and> data \<noteq> [] \<or> ret = int (length data) \<and> dir_walk (krn t) K' x cs = Some e \<and> contents (krn t) e = contents (krn u) e @ data"
        using save_open [OF K'(1) 2(4) ru pos d _ du] xN by blast
      have ck: "\<forall>p \<in> N. contents (krn t) p = contents (krn s) p" using t(4) K'(2,4) by (auto simp: tree_frame_def)
      have "others_kept s t N K x cs" unfolding others_kept_def using t(3) ck by blast
      moreover have "saved_as s t N x cs (kept_bytes s K x cs flags @ data)" if "ret = int (length data)"
      proof -
        have "dir_walk (krn t) K' x cs = Some e" "contents (krn t) e = kept_bytes s K x cs flags @ data"
          using t(5) that 2(6) dn by (auto simp: kept_bytes_def)
        moreover have "S_ISREG (imode (inodes (krn t) e))" using t(4) ru by (simp add: tree_frame_def)
        ultimately show ?thesis unfolding saved_as_def using vframe_trans [OF 2(3) t(2)] t(3) ck by blast
      qed
      ultimately show ?thesis using S False t(1,5) by auto
    qed
  qed
qed

section \<open>Properties\<close>

lemma saved_read:
  assumes p: "vpath t path = (x, cs)" "cs \<noteq> []" "path \<noteq> [SLASH]" "find_mount_by_target (Some path) t = None"
    and sv: "saved_as s t N x cs bs"
  shows "\<exists>f u. vfs_open (Some path) 0 0 t = Some (f, u)
    \<and> (f = NULL \<and> nomem t (2 * length cs + 2)
       \<or> (\<exists>u'. vfs_read f True count u = Some (int (length (take (unat count) bs)), take (unat count) bs, u')))"
proof -
  obtain N' K' c where c: "vfs_ok t N' K'" "dir_walk (krn t) K' x cs = Some c" "c \<in> N'" "S_ISREG (imode (inodes (krn t) c))" "contents (krn t) c = bs"
    using sv by (auto simp: saved_as_def)
  have md: "(0 :: u32) AND S_IFMT = 0" by simp
  obtain f u where o: "vfs_open (Some path) 0 0 t = Some (f, u)" "open_result t N' K' x cs 0 0 f u"
    using vfs_open_spec [OF c(1) p md, of 0] by blast
  obtain y where y: "dir_walk (krn t) K' x (butlast cs) = Some y" "dir_map (krn t) K' y (last cs) = Some c"
    using c(2) dir_walk_last [OF p(2)] by (auto simp: Option.bind_eq_Some_conv)
  show ?thesis
  proof (cases "f = NULL")
    case True
    then have "nomem t (2 * length cs + 2)"
      using o(2) y nomem_mono [of t "2 * length cs" "2 * length cs + 2"] by (auto simp: open_result_def open_outcome_def file_ok_def)
    then show ?thesis using o(1) True by blast
  next
    case False
    then have u: "vfs_ok u N' K'" "file_ok u N' f c" "tree_frame (krn t) (krn u) N' K' c" "contents (krn u) c = bs" "f_pos (files u f) = 0"
      using o(2) y c(5) by (auto simp: open_result_def open_outcome_def)
    have "\<not> isdir (krn u) c" using u(3) c(3,4) isreg_not_dir by (simp add: tree_frame_def)
    then have "\<exists>u'. vfs_read f True count u = Some (int (length (take (unat count) bs)), take (unat count) bs, u')"
      using vfs_read_spec [OF u(1,2), of count] u(4,5) by simp
    then show ?thesis using o(1) by blast
  qed
qed

text \<open>Opening a file by path (not the root of a mount): \<^verbatim>\<open>vfs_open\<close> always returns. A null result leaves the tree as it was, and then
  the path does not lead to a file and \<^verbatim>\<open>O_CREAT\<close> was not given or has no directory to create it in, or an object did
  not fit on the heap; only when memory ran out after the file was created the new empty file stays. A file that is returned refers
  to the inode at the path, an existing one or with \<^verbatim>\<open>O_CREAT\<close> a new empty regular file; \<^verbatim>\<open>O_TRUNC\<close> empties an existing
  regular file, \<^verbatim>\<open>O_APPEND\<close> puts the position at its end, and no other file or directory changes.\<close>

theorem vfs_open_correct:
  assumes "vfs_ok s N K" and "vpath s path = (x, cs)" and "cs \<noteq> []" and "path \<noteq> [SLASH]" and "find_mount_by_target (Some path) s = None"
    and "mode AND S_IFMT = 0"
  shows "\<exists>f t. vfs_open (Some path) flags mode s = Some (f, t) \<and> open_result s N K x cs flags mode f t"
  by (rule vfs_open_spec [OF assms])

lemma demo_no_mount: "find_mount_by_target (Some path) demo_vfs = None"
  by (simp add: find_mount_by_target_def demo_vfs_def find_None_iff)

theorem vfs_open_correct_witness:
  "\<exists>f t. vfs_open (Some [SLASH, 97]) O_TRUNC 0x1A4 demo_vfs = Some (f, t)
     \<and> open_result demo_vfs {4136, 4520} demo_kids 4136 [[97]] O_TRUNC 0x1A4 f t"
  using vfs_open_correct [OF demo_vfs_ok demo_vpath _ _ demo_no_mount, of 97 "0x1A4" O_TRUNC] by (simp add: S_IFMT_def)



end
