(* ===== verification/Vfs_Compat.thy ===== *)
theory Vfs_Compat
  imports Vfs_Tree
begin

text \<open>
  The compatibility layer of \<^verbatim>\<open>kernel/fs/vfs_compat.c\<close>: handles from a static pool of nodes over the RAM file system, and the
  working directory. A handle is the index of its node. Functions of the layer that are stubs with a constant result in the
  source (writing, reading a directory, recursive deletion) are constants here.
\<close>

section \<open>Nodes\<close>

record vfs_node =
  n_name :: bytes
  n_size :: u64
  n_is_dir :: bool
  n_internal :: ptr

definition MAX_VFS_NODES :: nat where "MAX_VFS_NODES = 32"

record compat =
  cvfs :: vfs
  cwd :: bytes
  node_pool :: "nat \<Rightarrow> vfs_node"
  node_used :: "nat \<Rightarrow> bool"

text \<open>The loop over the pool stops at the first unused node.\<close>

definition alloc_node :: "compat \<Rightarrow> nat option \<times> compat" where
  "alloc_node s =
     (case find (\<lambda>i. \<not> node_used s i) [0..<MAX_VFS_NODES] of
        None \<Rightarrow> (None, s)
      | Some i \<Rightarrow>
          (Some i, s\<lparr>node_used := (node_used s)(i := True),
                     node_pool := (node_pool s)(i := \<lparr>n_name = [], n_size = 0, n_is_dir = False, n_internal = NULL\<rparr>)\<rparr>))"

definition free_node :: "nat \<Rightarrow> compat \<Rightarrow> compat" where
  "free_node i s = (if i < MAX_VFS_NODES then s\<lparr>node_used := (node_used s)(i := False)\<rparr> else s)"

text \<open>The copied part of the string; \<^verbatim>\<open>max - 1\<close> wraps for a size of zero.\<close>

definition strcpy_safe :: "bytes \<Rightarrow> u64 \<Rightarrow> bytes" where
  "strcpy_safe src mx = take (unat (mx - 1)) src"

definition set_node :: "nat \<Rightarrow> bytes \<Rightarrow> u64 \<Rightarrow> bool \<Rightarrow> ptr \<Rightarrow> compat \<Rightarrow> compat" where
  "set_node i path sz dir priv s =
     s\<lparr>node_pool := (node_pool s)(i := \<lparr>n_name = strcpy_safe path 256, n_size = sz, n_is_dir = dir, n_internal = priv\<rparr>)\<rparr>"

section \<open>Operations\<close>

definition vfs_lookup :: "bytes option \<Rightarrow> compat \<Rightarrow> (nat option \<times> compat) option" where
  "vfs_lookup path s =
     (case path of
        None \<Rightarrow> Some (None, s)
      | Some path \<Rightarrow>
          if path = [] then Some (None, s)
          else
            (case alloc_node s of
               (None, s) \<Rightarrow> Some (None, s)
             | (Some i, s) \<Rightarrow>
                 if path = [SLASH] then Some (Some i, set_node i path 0 True NULL s)
                 else do {
                   (r, rsize, ris_dir, rdata) \<leftarrow> ramfs_lookup_path_info path (krn (cvfs s));
                   if r = 0 then Some (Some i, set_node i path rsize ris_dir rdata s)
                   else Some (None, free_node i (set_node i path 0 False NULL s))
                 }))"

definition vfs_open_handle :: "bytes option \<Rightarrow> compat \<Rightarrow> (nat option \<times> compat) option" where
  "vfs_open_handle path s = vfs_lookup path s"

definition vfs_close_handle :: "nat option \<Rightarrow> compat \<Rightarrow> compat" where
  "vfs_close_handle node s = (case node of None \<Rightarrow> s | Some i \<Rightarrow> free_node i s)"

definition vfs_read_compat :: "nat option \<Rightarrow> ptr \<Rightarrow> u64 \<Rightarrow> u64 \<Rightarrow> compat \<Rightarrow> int \<times> compat" where
  "vfs_read_compat node buf sz offset s =
     (case node of
        None \<Rightarrow> (- 1, s)
      | Some i \<Rightarrow>
          if buf = NULL then (- 1, s)
          else
            (let n = node_pool s i; rnode = inodes (krn (cvfs s)) (n_internal n) in
             if n_internal n \<noteq> NULL \<and> n_size n > 0 \<and> idata rnode \<noteq> NULL
             then
               (let avail = (if isize rnode > offset then isize rnode - offset else 0);
                    to_read = (if sz < avail then sz else avail);
                    h = hp (cvfs s)
                in (sint (ucast to_read :: u32),
                    s\<lparr>cvfs := set_heap (h\<lparr>mem := byte_copy (unat to_read) buf (idata rnode + unat offset) (mem h)\<rparr>) (cvfs s)\<rparr>))
             else (0, s)))"

definition vfs_write_compat :: "nat option \<Rightarrow> bytes \<Rightarrow> compat \<Rightarrow> int \<times> compat" where
  "vfs_write_compat node buf s = (0, s)"

definition vfs_is_dir :: "nat option \<Rightarrow> compat \<Rightarrow> bool" where
  "vfs_is_dir node s = (case node of None \<Rightarrow> False | Some i \<Rightarrow> n_is_dir (node_pool s i))"

text \<open>Creating through the layer: \<open>mk\<close> is the function of the RAM file system. The modes are \<^verbatim>\<open>0644\<close> and \<^verbatim>\<open>0755\<close>.\<close>

definition make_compat :: "(bytes option \<Rightarrow> ramfs \<Rightarrow> (int \<times> ramfs) option) \<Rightarrow> bool \<Rightarrow> bytes option \<Rightarrow> compat \<Rightarrow> (nat option \<times> compat) option" where
  "make_compat mk dir path s =
     (case path of
        None \<Rightarrow> Some (None, s)
      | Some p \<Rightarrow>
          if p = [] then Some (None, s)
          else do {
            (r, k) \<leftarrow> mk path (krn (cvfs s));
            let s = s\<lparr>cvfs := set_kern k (cvfs s)\<rparr>;
            if r \<noteq> 0 then Some (None, s)
            else Some (case alloc_node s of (None, s) \<Rightarrow> (None, s) | (Some i, s) \<Rightarrow> (Some i, set_node i p 0 dir NULL s))
          })"

definition vfs_create_compat :: "bytes option \<Rightarrow> compat \<Rightarrow> (nat option \<times> compat) option" where
  "vfs_create_compat path s = make_compat (\<lambda>p. ramfs_create_file p 0x1A4 None) False path s"

definition vfs_mkdir_compat :: "bytes option \<Rightarrow> compat \<Rightarrow> (nat option \<times> compat) option" where
  "vfs_mkdir_compat path s = make_compat (\<lambda>p. ramfs_create_dir p 0x1ED) True path s"

definition on_vfs :: "(vfs \<Rightarrow> (int \<times> vfs) option) \<Rightarrow> compat \<Rightarrow> (int \<times> compat) option" where
  "on_vfs f s = do { (r, v) \<leftarrow> f (cvfs s); Some (r, s\<lparr>cvfs := v\<rparr>) }"

definition vfs_delete :: "bytes option \<Rightarrow> compat \<Rightarrow> (int \<times> compat) option" where
  "vfs_delete path = on_vfs (vfs_unlink path)"

definition vfs_delete_dir :: "bytes option \<Rightarrow> compat \<Rightarrow> (int \<times> compat) option" where
  "vfs_delete_dir path = on_vfs (vfs_rmdir path)"

definition vfs_delete_recursive :: "bytes option \<Rightarrow> compat \<Rightarrow> int \<times> compat" where
  "vfs_delete_recursive path s = (- 1, s)"

definition vfs_rename_compat :: "bytes option \<Rightarrow> bytes option \<Rightarrow> compat \<Rightarrow> (int \<times> compat) option" where
  "vfs_rename_compat oldpath newname = on_vfs (vfs_rename oldpath newname)"

definition vfs_readdir_compat :: "nat option \<Rightarrow> int \<Rightarrow> compat \<Rightarrow> int \<times> compat" where
  "vfs_readdir_compat dir index s = (- 1, s)"

definition vfs_set_cwd :: "bytes \<Rightarrow> compat \<Rightarrow> int \<times> compat" where
  "vfs_set_cwd path s = (0, s\<lparr>cwd := strcpy_safe path 256\<rparr>)"

definition vfs_get_cwd_path :: "u64 \<Rightarrow> compat \<Rightarrow> int \<times> bytes" where
  "vfs_get_cwd_path sz s = (0, strcpy_safe (cwd s) sz)"

section \<open>The pool\<close>

definition free_nodes :: "compat \<Rightarrow> nat set" where
  "free_nodes s = {i. i < MAX_VFS_NODES \<and> \<not> node_used s i}"

lemma alloc_node_cases:
  obtains (full) "alloc_node s = (None, s)" "free_nodes s = {}"
    | (got) i s' where "alloc_node s = (Some i, s')" "i \<in> free_nodes s" "free_nodes s' = free_nodes s - {i}" "cvfs s' = cvfs s" "cwd s' = cwd s"
        "\<And>j. j \<noteq> i \<Longrightarrow> node_pool s' j = node_pool s j \<and> node_used s' j = node_used s j" "node_used s' i"
proof (cases "find (\<lambda>i. \<not> node_used s i) [0..<MAX_VFS_NODES]")
  case None
  then have "free_nodes s = {}" by (auto simp: find_None_iff free_nodes_def)
  then show ?thesis using None by (intro full) (simp_all add: alloc_node_def)
next
  case (Some i)
  then have "i < MAX_VFS_NODES \<and> \<not> node_used s i" by (auto simp: find_Some_iff)
  then show ?thesis using Some by (intro got [of i "snd (alloc_node s)"]) (auto simp: alloc_node_def free_nodes_def)
qed

lemma path_walk_spec:
  assumes "fs_wf s N K" and "d \<in> N"
  shows "\<exists>c. path_walk s d path = Some c \<and> (c = NULL \<or> c \<in> N)"
  using assms(2)
proof (induction path arbitrary: d rule: length_induct)
  case (1 path)
  show ?case
  proof (cases "path = []")
    case True
    then show ?thesis using 1 by (simp add: path_walk.simps)
  next
    case False
    show ?thesis
    proof (cases "dir_map s K d (path_comp path)")
      case None
      then show ?thesis using False lookup_child_spec [OF assms(1) "1.prems"] by (simp add: path_walk.simps [of s d path])
    next
      case (Some c)
      then have c: "c \<in> set (K d)" by (auto simp: dir_map_def dest: map_of_SomeD)
      then have cN: "c \<in> N" using dir_okD(2) [OF fs_okD(4) [OF assms(1) "1.prems"]] by blast
      then have "c \<noteq> NULL" by (rule fs_okD(5) [OF assms(1)])
      moreover have "\<exists>e. path_walk s c (path_rest path) = Some e \<and> (e = NULL \<or> e \<in> N)"
        using "1.IH" path_rest_less [OF False] cN by blast
      ultimately show ?thesis using False Some lookup_child_spec [OF assms(1) "1.prems"] by (simp add: path_walk.simps [of s d path])
    qed
  qed
qed

text \<open>What the RAM file system says about a path: nothing there, or an inode (the root has none of its own here).\<close>

definition ramfs_at :: "ramfs \<Rightarrow> bytes \<Rightarrow> ptr option" where
  "ramfs_at s path =
     (let path = (case path of c # cs \<Rightarrow> if c = SLASH then cs else path | [] \<Rightarrow> []) in
      if path = [] then None
      else (case path_walk s (root s) path of None \<Rightarrow> None | Some c \<Rightarrow> if c = NULL then None else Some c))"

definition compat_ok :: "compat \<Rightarrow> ptr set \<Rightarrow> (ptr \<Rightarrow> ptr list) \<Rightarrow> bool" where
  "compat_ok s N K \<longleftrightarrow> fs_wf (krn (cvfs s)) N K \<and> root (krn (cvfs s)) \<in> N"

lemma ramfs_at_in:
  assumes "compat_ok s N K" and "ramfs_at (krn (cvfs s)) path = Some c"
  shows "c \<in> N"
proof -
  have w: "fs_wf (krn (cvfs s)) N K" "root (krn (cvfs s)) \<in> N" using assms(1) by (simp_all add: compat_ok_def)
  have "c \<in> N" if "path_walk (krn (cvfs s)) (root (krn (cvfs s))) p = Some c" "c \<noteq> NULL" for p
    using that path_walk_spec [OF w, of p] by auto
  then show ?thesis
    using assms(2) unfolding ramfs_at_def Let_def by (auto split: if_splits option.splits list.splits)
qed

lemma path_info_spec:
  assumes "compat_ok s N K" and "path \<noteq> []" and "path \<noteq> [SLASH]"
  shows "ramfs_lookup_path_info path (krn (cvfs s))
    = Some (case ramfs_at (krn (cvfs s)) path of
              None \<Rightarrow> (- 1, 0, False, NULL)
            | Some c \<Rightarrow> (0, isize (inodes (krn (cvfs s)) c), isdir (krn (cvfs s)) c, c))"
proof -
  define k where "k = krn (cvfs s)"
  have w: "fs_wf k N K" "root k \<in> N" using assms(1) by (simp_all add: compat_ok_def k_def)
  define p where "p = (case path of c # cs \<Rightarrow> if c = SLASH then cs else path | [] \<Rightarrow> [])"
  have p: "p \<noteq> []" using assms(2,3) by (auto simp: p_def split: list.splits)
  obtain c where c: "path_walk k (root k) p = Some c" using path_walk_spec [OF w] by blast
  have "root k \<noteq> NULL" by (rule fs_okD(5) [OF w])
  then show ?thesis
    unfolding k_def [symmetric] ramfs_lookup_path_info_def ramfs_at_def Let_def p_def [symmetric] using p c by simp
qed

text \<open>The node that a lookup fills.\<close>

definition node_for :: "compat \<Rightarrow> bytes \<Rightarrow> vfs_node option" where
  "node_for s path =
     (if path = [] then None
      else if path = [SLASH] then Some \<lparr>n_name = [SLASH], n_size = 0, n_is_dir = True, n_internal = NULL\<rparr>
      else map_option (\<lambda>c. \<lparr>n_name = take 255 path, n_size = isize (inodes (krn (cvfs s)) c),
                            n_is_dir = isdir (krn (cvfs s)) c, n_internal = c\<rparr>) (ramfs_at (krn (cvfs s)) path))"

lemma vfs_lookup_cases:
  assumes "compat_ok s N K"
  obtains (fails) s' where "vfs_lookup (Some path) s = Some (None, s')" "node_for s path = None \<or> free_nodes s = {}"
      "cvfs s' = cvfs s" "cwd s' = cwd s" "node_used s' = node_used s" "\<And>j. node_used s j \<Longrightarrow> node_pool s' j = node_pool s j"
    | (found) i s' n where "vfs_lookup (Some path) s = Some (Some i, s')" "i \<in> free_nodes s" "node_for s path = Some n" "node_pool s' i = n"
      "cvfs s' = cvfs s" "cwd s' = cwd s" "node_used s' = (node_used s)(i := True)" "\<And>j. j \<noteq> i \<Longrightarrow> node_pool s' j = node_pool s j"
proof (cases "path = []")
  case True
  show ?thesis by (rule fails [of s]) (simp_all add: vfs_lookup_def node_for_def True)
next
  case ne: False
  show ?thesis
  proof (cases s rule: alloc_node_cases)
    case full
    show ?thesis by (rule fails [of s]) (simp_all add: vfs_lookup_def ne full)
  next
    case (got i s1)
    have i: "i < MAX_VFS_NODES" "\<not> node_used s i" using got(2) by (auto simp: free_nodes_def)
    have u: "node_used s1 = (node_used s)(i := True)" using got(6,7) by (auto simp: fun_eq_iff)
    have cp: "strcpy_safe path 256 = take 255 path" by (simp add: strcpy_safe_def)
    show ?thesis
    proof (cases "path = [SLASH]")
      case True
      then have "vfs_lookup (Some path) s = Some (Some i, set_node i path 0 True NULL s1)" by (simp add: vfs_lookup_def got(1))
      then show ?thesis
        by (rule found [OF _ got(2)]) (simp_all add: node_for_def True set_node_def got(4,5,6) u strcpy_safe_def)
    next
      case False
      note info = path_info_spec [OF assms ne False]
      show ?thesis
      proof (cases "ramfs_at (krn (cvfs s)) path")
        case None
        then have "vfs_lookup (Some path) s = Some (None, free_node i (set_node i path 0 False NULL s1))"
          using ne False by (simp add: vfs_lookup_def got(1,4) info)
        then show ?thesis
          by (rule fails) (use i None ne False u got(6) in \<open>auto simp: node_for_def set_node_def free_node_def got(4,5) fun_eq_iff\<close>)
      next
        case (Some c)
        then have "vfs_lookup (Some path) s
            = Some (Some i, set_node i path (isize (inodes (krn (cvfs s)) c)) (isdir (krn (cvfs s)) c) c s1)"
          using ne False by (simp add: vfs_lookup_def got(1,4) info)
        then show ?thesis
          by (rule found [OF _ got(2)]) (use Some ne False in \<open>simp_all add: node_for_def set_node_def got(4,5,6) u cp\<close>)
      qed
    qed
  qed
qed

text \<open>Reading through a handle copies the bytes of the file into the caller's buffer.\<close>

lemma vfs_read_compat_spec:
  assumes ok: "compat_ok s N K" and c: "c \<in> N" and n: "n_internal (node_pool s i) = c" "n_size (node_pool s i) = isize (inodes (krn (cvfs s)) c)"
    and buf: "live (hp (cvfs s)) buf = Some k" "unat sz \<le> k" "buf \<noteq> idata (inodes (krn (cvfs s)) c)" and off: "unat offset < 2 ^ 63"
  defines "out \<equiv> take (unat sz) (drop (unat offset) (contents (krn (cvfs s)) c))"
  shows "\<exists>m. vfs_read_compat (Some i) buf sz offset s = (int (length out), s\<lparr>cvfs := set_heap ((hp (cvfs s))\<lparr>mem := m\<rparr>) (cvfs s)\<rparr>)
    \<and> read_bytes m buf (length out) = out \<and> (\<forall>a. a < buf \<or> buf + unat sz \<le> a \<longrightarrow> m a = mem (hp (cvfs s)) a)"
proof -
  define h where "h = hp (cvfs s)"
  define r where "r = inodes (krn (cvfs s)) c"
  have w: "fs_wf (krn (cvfs s)) N K" using ok by (simp add: compat_ok_def)
  note B = fs_okD(3) [OF w c] and hi = fs_okD(1) [OF w]
  have cn: "c \<noteq> NULL" by (rule fs_okD(5) [OF w c])
  have sc: "unat (isize r) \<le> unat (data_capacity r)" "unat (data_capacity r) \<le> 33554432"
    using B cap_small by (auto simp: buf_ok_def r_def word_le_nat_alt)
  have bn: "buf \<noteq> NULL" using kh.lv_nonnull [OF hi buf(1)] .
  have ct: "contents (krn (cvfs s)) c = read_bytes (mem h) (idata r) (unat (isize r))" by (simp add: contents_def r_def h_def)
  show ?thesis
  proof (cases "isize r = 0 \<or> idata r = NULL")
    case True
    then have "isize r = 0" using B by (auto simp: buf_ok_def r_def)
    then have o: "out = []" by (simp add: out_def ct)
    have "vfs_read_compat (Some i) buf sz offset s = (0, s)" using True bn n by (auto simp: vfs_read_compat_def Let_def r_def)
    moreover have "s\<lparr>cvfs := set_heap ((hp (cvfs s))\<lparr>mem := mem h\<rparr>) (cvfs s)\<rparr> = s" by (simp add: set_heap_def set_kern_def h_def)
    ultimately show ?thesis using o by (intro exI [of _ "mem h"]) (simp add: h_def read_bytes_def)
  next
    case False
    then have f: "0 < isize r" "idata r \<noteq> NULL" by (auto simp: word_gt_0)
    obtain k2 where k2: "unat (data_capacity r) \<le> k2" "live h (idata r) = Some k2" using B f(2) by (auto simp: buf_ok_def r_def h_def)
    define avail where "avail = (if isize r > offset then isize r - offset else 0)"
    define tr where "tr = (if sz < avail then sz else avail)"
    have av: "unat avail = unat (isize r) - unat offset"
      by (auto simp: avail_def word_less_nat_alt unat_sub word_le_nat_alt not_less)
    then have ut: "unat tr = min (unat sz) (unat (isize r) - unat offset)" by (auto simp: tr_def word_less_nat_alt)
    have lo: "length out = unat tr" by (simp add: out_def ct ut)
    define src where "src = idata r + unat offset"
    define m where "m = byte_copy (unat tr) buf src (mem h)"
    have ap: "buf + k \<le> idata r \<or> idata r + k2 \<le> buf"
      using kh.lv_apart [OF hi buf(1) k2(2) [unfolded h_def]] kh.lv_apart [OF hi k2(2) [unfolded h_def] buf(1)] buf(3)
      by (cases "buf < idata r") (auto simp: r_def)
    have "buf + unat tr \<le> src \<or> src + unat tr \<le> buf"
      using ap ut buf(2) sc(1) k2(1) unfolding src_def by linarith
    then have mm: "m a = (if buf \<le> a \<and> a < buf + unat tr then mem h (src + (a - buf)) else mem h a)" for a
      unfolding m_def by (intro byte_copy_eq) auto
    have rd: "read_bytes m buf (unat tr) = out"
      by (rule nth_equalityI) (auto simp: lo mm out_def ct src_def ut add.assoc)
    have "unat tr < 2 ^ 31" using ut sc by simp
    then have sg: "sint (ucast tr :: u32) = int (unat tr)" by (rule sint_ucast_small)
    have "vfs_read_compat (Some i) buf sz offset s = (int (unat tr), s\<lparr>cvfs := set_heap (h\<lparr>mem := m\<rparr>) (cvfs s)\<rparr>)"
      unfolding sg [symmetric] using bn cn n f
      by (simp add: vfs_read_compat_def Let_def h_def r_def m_def src_def tr_def avail_def)
    moreover have "m a = mem h a" if "a < buf \<or> buf + unat sz \<le> a" for a using that ut by (auto simp: mm)
    ultimately show ?thesis unfolding h_def [symmetric] using rd lo by (intro exI [of _ m]) simp
  qed
qed

section \<open>Properties\<close>

text \<open>C40. Files through handles of the compatibility layer. Opening returns a handle exactly when the path names something and a
  node is free; reading through it then stores the bytes of the file at the offset, and nothing else; closing gives the node
  back, so that the pool is as before. A failed open leaves the pool as it was.\<close>

theorem vfs_handle_correct:
  assumes ok: "compat_ok s N K" and buf: "live (hp (cvfs s)) buf = Some k" "unat sz \<le> k" "\<And>c. c \<in> N \<Longrightarrow> buf \<noteq> idata (inodes (krn (cvfs s)) c)"
    and off: "unat offset < 2 ^ 63"
  shows "\<exists>r s1. vfs_open_handle (Some path) s = Some (r, s1) \<and> cvfs s1 = cvfs s
    \<and> (r = None \<longleftrightarrow> node_for s path = None \<or> free_nodes s = {})
    \<and> free_nodes (vfs_close_handle r s1) = free_nodes s
    \<and> (\<forall>c out. ramfs_at (krn (cvfs s)) path = Some c \<and> r \<noteq> None \<and> out = take (unat sz) (drop (unat offset) (contents (krn (cvfs s)) c))
        \<longrightarrow> (\<exists>m. vfs_read_compat r buf sz offset s1 = (int (length out), s1\<lparr>cvfs := set_heap ((hp (cvfs s))\<lparr>mem := m\<rparr>) (cvfs s)\<rparr>)
              \<and> read_bytes m buf (length out) = out \<and> (\<forall>a. a < buf \<or> buf + unat sz \<le> a \<longrightarrow> m a = mem (hp (cvfs s)) a)))"
proof (cases path rule: vfs_lookup_cases [OF ok])
  case (1 s')
  then show ?thesis by (auto simp: vfs_open_handle_def vfs_close_handle_def free_nodes_def)
next
  case (2 i s' n)
  have i: "i < MAX_VFS_NODES" "\<not> node_used s i" using 2(2) by (auto simp: free_nodes_def)
  have cl: "free_nodes (vfs_close_handle (Some i) s') = free_nodes s"
    using i by (auto simp: vfs_close_handle_def free_node_def free_nodes_def 2(7))
  have ok': "compat_ok s' N K" using ok 2(5) by (simp add: compat_ok_def)
  have rd: "\<exists>m. vfs_read_compat (Some i) buf sz offset s' = (int (length out), s'\<lparr>cvfs := set_heap ((hp (cvfs s))\<lparr>mem := m\<rparr>) (cvfs s)\<rparr>)
      \<and> read_bytes m buf (length out) = out \<and> (\<forall>a. a < buf \<or> buf + unat sz \<le> a \<longrightarrow> m a = mem (hp (cvfs s)) a)"
    if c: "ramfs_at (krn (cvfs s)) path = Some c" and out: "out = take (unat sz) (drop (unat offset) (contents (krn (cvfs s)) c))" for c out
  proof -
    have cN: "c \<in> N" by (rule ramfs_at_in [OF ok c])
    have "path \<noteq> [] \<and> path \<noteq> [SLASH]" using c by (auto simp: ramfs_at_def)
    then have n: "n_internal n = c" "n_size n = isize (inodes (krn (cvfs s)) c)" using 2(3) c by (auto simp: node_for_def)
    show ?thesis
      using vfs_read_compat_spec [OF ok' cN _ _ _ buf(2) _ off, of i buf] n 2(4,5) buf(1) buf(3) [OF cN] unfolding out by simp
  qed
  show ?thesis using 2(1,3,5) 2(2) cl rd by (intro exI [of _ "Some i"] exI [of _ s']) (auto simp: vfs_open_handle_def)
qed

text \<open>A file \<open>/a\<close> with two bytes, and a buffer.\<close>

definition demo_compat :: compat where
  "demo_compat = \<lparr>cvfs = set_kern (demo_fs\<lparr>
     fheap := demo_heap\<lparr>free_list := 5632, heap_used := 1536, mem := (\<lambda>_. 7),
       hdrs := (\<lambda>a. if a = 5632 then \<lparr>bh_size = 7424, bh_magic = BLOCK_MAGIC_FREE, bh_flags = 1, bh_owner = 0, bh_next = 0, bh_prev = 0\<rparr>
                   else \<lparr>bh_size = 384, bh_magic = BLOCK_MAGIC_USED, bh_flags = 0, bh_owner = 0, bh_next = 0, bh_prev = 0\<rparr>)\<rparr>,
     inodes := (inodes demo_fs)(4520 := (inodes demo_fs 4520)\<lparr>isize := 2, idata := 4904, data_capacity := 100\<rparr>)\<rparr>) demo_vfs,
     cwd = [SLASH], node_pool = (\<lambda>_. \<lparr>n_name = [], n_size = 0, n_is_dir = False, n_internal = NULL\<rparr>), node_used = (\<lambda>i. i < 3)\<rparr>"

lemma demo_compat_live:
  "heap_inv (hp (cvfs demo_compat))" "live (hp (cvfs demo_compat)) 4136 = Some 344" "live (hp (cvfs demo_compat)) 4520 = Some 344"
  "live (hp (cvfs demo_compat)) 4904 = Some 344" "live (hp (cvfs demo_compat)) 5288 = Some 344"
proof -
  have w: "heap_wf (hp (cvfs demo_compat)) [4096, 4480, 4864, 5248, 5632] [5632]"
    by (simp add: heap_wf_def demo_compat_def set_kern_def demo_heap_def used_bytes_def)
  show "heap_inv (hp (cvfs demo_compat))" by (rule heap_wf_inv [OF w])
  show "live (hp (cvfs demo_compat)) 4136 = Some 344" "live (hp (cvfs demo_compat)) 4520 = Some 344"
    "live (hp (cvfs demo_compat)) 4904 = Some 344" "live (hp (cvfs demo_compat)) 5288 = Some 344"
    using heap_wf_live [OF w] by (simp_all add: live_of_def demo_compat_def set_kern_def demo_heap_def HDR_def)
qed

lemma demo_compat_ok: "compat_ok demo_compat {4136, 4520} demo_kids"
proof -
  have r: "root (krn (cvfs demo_compat)) = 4136" by (simp add: demo_compat_def set_kern_def demo_fs_def)
  have i: "inodes (krn (cvfs demo_compat)) = (inodes demo_fs)(4520 := (inodes demo_fs 4520)\<lparr>isize := 2, idata := 4904, data_capacity := 100\<rparr>)"
    by (simp add: demo_compat_def set_kern_def)
  show ?thesis
    unfolding compat_ok_def r fs_ok_def buf_ok_def dir_ok_def i using demo_compat_live
    by (simp add: demo_fs_def demo_inode_def demo_kids_def S_ISDIR_def S_IFMT_def S_IFDIR_def MAX_ALLOC_def)
qed

lemma demo_compat_file:
  "ramfs_at (krn (cvfs demo_compat)) [SLASH, 97] = Some 4520" "contents (krn (cvfs demo_compat)) 4520 = [7, 7]" "3 \<in> free_nodes demo_compat"
proof -
  have w: "fs_wf (krn (cvfs demo_compat)) {4136, 4520} demo_kids" using demo_compat_ok by (simp add: compat_ok_def)
  have r: "root (krn (cvfs demo_compat)) = 4136" by (simp add: demo_compat_def set_kern_def demo_fs_def)
  have dm: "dir_map (krn (cvfs demo_compat)) demo_kids 4136 [97] = Some 4520"
    by (simp add: dir_map_def demo_compat_def set_kern_def demo_kids_def demo_fs_def demo_inode_def)
  have c: "path_comp [97] = [97]" "path_rest [97] = []" by (simp_all add: path_comp_def path_rest_def RAMFS_MAX_NAME_def)
  have "path_walk (krn (cvfs demo_compat)) 4136 [97] = Some 4520"
    using lookup_child_spec [OF w, of 4136 "[97]"] dm by (simp add: path_walk.simps [of _ _ "[97]"] path_walk.simps [of _ _ "[]"] c)
  then show "ramfs_at (krn (cvfs demo_compat)) [SLASH, 97] = Some 4520" by (simp add: ramfs_at_def r)
  show "contents (krn (cvfs demo_compat)) 4520 = [7, 7]"
    by (simp add: contents_def demo_compat_def set_kern_def read_bytes_def upt_rec)
  show "3 \<in> free_nodes demo_compat" by (simp add: free_nodes_def demo_compat_def MAX_VFS_NODES_def)
qed

theorem vfs_handle_correct_witness:
  "\<exists>r s1 s2. vfs_open_handle (Some [SLASH, 97]) demo_compat = Some (r, s1) \<and> r \<noteq> None \<and> vfs_read_compat r 5288 10 1 s1 = (1, s2)
    \<and> read_bytes (mem (hp (cvfs s2))) 5288 1 = [7]"
proof -
  have n: "idata (inodes (krn (cvfs demo_compat)) c) \<noteq> 5288" for c
    by (simp add: demo_compat_def set_kern_def demo_fs_def demo_inode_def)
  have nf: "node_for demo_compat [SLASH, 97] \<noteq> None" using demo_compat_file(1) by (simp add: node_for_def)
  show ?thesis
    using vfs_handle_correct [OF demo_compat_ok demo_compat_live(5), of 10 1 "[SLASH, 97]"] n nf demo_compat_file
    by (force simp: set_heap_def set_kern_def)
qed

end
