(* ===== verification/Elf.thy ===== *)
theory Elf
  imports Prelude
begin

text \<open>
  The ELF64 loader, \<^verbatim>\<open>kernel/loader/elf.c\<close>. The file image and the destination of the segments lie in
  one memory, a function from 64-bit addresses to bytes, so that a segment that overwrites the
  headers would be seen by the loop that goes on reading them. Pointers are 64-bit words and wrap
  as the \<^verbatim>\<open>uint64_t\<close> arithmetic does. \<^term>\<open>None\<close> stands for an execution without a defined result: a
  signed overflow in \<^verbatim>\<open>i * e_phentsize\<close>, a division by a zero \<^verbatim>\<open>DT_RELAENT\<close>, or a dynamic section
  that never ends.
\<close>

section \<open>Memory\<close>

type_synonym mem = "u64 \<Rightarrow> u8"

definition rd16 :: "mem \<Rightarrow> u64 \<Rightarrow> u16" where
  "rd16 m a = ucast (m a) OR push_bit 8 (ucast (m (a + 1)))"

definition rd32 :: "mem \<Rightarrow> u64 \<Rightarrow> u32" where
  "rd32 m a = ucast (rd16 m a) OR push_bit 16 (ucast (rd16 m (a + 2)))"

definition rd64 :: "mem \<Rightarrow> u64 \<Rightarrow> u64" where
  "rd64 m a = ucast (rd32 m a) OR push_bit 32 (ucast (rd32 m (a + 4)))"

text \<open>\<^verbatim>\<open>*(uint64_t *)a = v\<close>: eight bytes, the low one first.\<close>

fun wr_bytes :: "nat \<Rightarrow> u64 \<Rightarrow> u64 \<Rightarrow> mem \<Rightarrow> mem" where
  "wr_bytes 0 a v m = m"
| "wr_bytes (Suc n) a v m = wr_bytes n (a + 1) (drop_bit 8 v) (m(a := ucast v))"

definition wr64 :: "u64 \<Rightarrow> u64 \<Rightarrow> mem \<Rightarrow> mem" where
  "wr64 a v m = wr_bytes 8 a v m"

section \<open>File format\<close>

record Elf64_Ehdr =
  e_ident :: bytes
  e_type :: u16
  e_machine :: u16
  e_version :: u32
  e_entry :: u64
  e_phoff :: u64
  e_shoff :: u64
  e_flags :: u32
  e_ehsize :: u16
  e_phentsize :: u16
  e_phnum :: u16
  e_shentsize :: u16
  e_shnum :: u16
  e_shstrndx :: u16

record Elf64_Phdr =
  p_type :: u32
  p_flags :: u32
  p_offset :: u64
  p_vaddr :: u64
  p_paddr :: u64
  p_filesz :: u64
  p_memsz :: u64
  p_align :: u64

record Elf64_Dyn =
  d_tag :: u64
  d_val :: u64

record Elf64_Rela =
  r_offset :: u64
  r_info :: u64
  r_addend :: u64

record elf_load_info_t =
  entry :: u64
  load_base :: u64
  load_size :: u64

definition read_ehdr :: "mem \<Rightarrow> u64 \<Rightarrow> Elf64_Ehdr" where
  "read_ehdr m a = \<lparr>e_ident = map (\<lambda>i. m (a + of_nat i)) [0..<16], e_type = rd16 m (a + 16),
     e_machine = rd16 m (a + 18), e_version = rd32 m (a + 20), e_entry = rd64 m (a + 24),
     e_phoff = rd64 m (a + 32), e_shoff = rd64 m (a + 40), e_flags = rd32 m (a + 48),
     e_ehsize = rd16 m (a + 52), e_phentsize = rd16 m (a + 54), e_phnum = rd16 m (a + 56),
     e_shentsize = rd16 m (a + 58), e_shnum = rd16 m (a + 60), e_shstrndx = rd16 m (a + 62)\<rparr>"

definition read_phdr :: "mem \<Rightarrow> u64 \<Rightarrow> Elf64_Phdr" where
  "read_phdr m a = \<lparr>p_type = rd32 m a, p_flags = rd32 m (a + 4), p_offset = rd64 m (a + 8),
     p_vaddr = rd64 m (a + 16), p_paddr = rd64 m (a + 24), p_filesz = rd64 m (a + 32),
     p_memsz = rd64 m (a + 40), p_align = rd64 m (a + 48)\<rparr>"

definition read_dyn :: "mem \<Rightarrow> u64 \<Rightarrow> Elf64_Dyn" where
  "read_dyn m a = \<lparr>d_tag = rd64 m a, d_val = rd64 m (a + 8)\<rparr>"

definition read_rela :: "mem \<Rightarrow> u64 \<Rightarrow> Elf64_Rela" where
  "read_rela m a = \<lparr>r_offset = rd64 m a, r_info = rd64 m (a + 8), r_addend = rd64 m (a + 16)\<rparr>"

definition SIZEOF_EHDR :: u64 where "SIZEOF_EHDR = 64"
definition SIZEOF_RELA :: u64 where "SIZEOF_RELA = 24"
definition SIZEOF_DYN :: u64 where "SIZEOF_DYN = 16"

definition PT_LOAD :: u32 where "PT_LOAD = 1"
definition PT_DYNAMIC :: u32 where "PT_DYNAMIC = 2"
definition DT_NULL :: u64 where "DT_NULL = 0"
definition DT_RELA :: u64 where "DT_RELA = 7"
definition DT_RELASZ :: u64 where "DT_RELASZ = 8"
definition DT_RELAENT :: u64 where "DT_RELAENT = 9"
definition R_AARCH64_RELATIVE :: u64 where "R_AARCH64_RELATIVE = 0x403"
definition ELFCLASS64 :: u8 where "ELFCLASS64 = 2"
definition ELFDATA2LSB :: u8 where "ELFDATA2LSB = 1"
definition EM_AARCH64 :: u16 where "EM_AARCH64 = 183"
definition ET_EXEC :: u16 where "ET_EXEC = 2"
definition ET_DYN :: u16 where "ET_DYN = 3"

section \<open>The loader\<close>

fun elf_memcpy :: "nat \<Rightarrow> u64 \<Rightarrow> u64 \<Rightarrow> mem \<Rightarrow> mem" where
  "elf_memcpy 0 d s m = m"
| "elf_memcpy (Suc n) d s m = elf_memcpy n (d + 1) (s + 1) (m(d := m s))"

fun elf_memset :: "nat \<Rightarrow> u64 \<Rightarrow> u8 \<Rightarrow> mem \<Rightarrow> mem" where
  "elf_memset 0 p c m = m"
| "elf_memset (Suc n) p c m = elf_memset n (p + 1) c (m(p := c))"

definition elf_validate :: "mem \<Rightarrow> u64 \<Rightarrow> u64 \<Rightarrow> int" where
  "elf_validate m data sz =
     (if sz < SIZEOF_EHDR then -1
      else
        (let ehdr = read_ehdr m data in
         if e_ident ehdr ! 0 \<noteq> 0x7F \<or> e_ident ehdr ! 1 \<noteq> 0x45 \<or> e_ident ehdr ! 2 \<noteq> 0x4C
              \<or> e_ident ehdr ! 3 \<noteq> 0x46 then -2
         else if e_ident ehdr ! 4 \<noteq> ELFCLASS64 then -3
         else if e_ident ehdr ! 5 \<noteq> ELFDATA2LSB then -4
         else if e_machine ehdr \<noteq> EM_AARCH64 then -5
         else if e_type ehdr \<noteq> ET_EXEC \<and> e_type ehdr \<noteq> ET_DYN then -6
         else 0))"

definition elf_entry :: "mem \<Rightarrow> u64 \<Rightarrow> u64" where
  "elf_entry m data = e_entry (read_ehdr m data)"

text \<open>\<^verbatim>\<open>i * ehdr->e_phentsize\<close>: both operands are promoted to \<^verbatim>\<open>int\<close>, and the product is converted to
  64 bits only when it is added to \<^verbatim>\<open>e_phoff\<close>.\<close>

definition phdr_offset :: "nat \<Rightarrow> u16 \<Rightarrow> u64 option" where
  "phdr_offset i entsize =
     (if i * unat entsize < 2 ^ 31 then Some (of_nat (i * unat entsize)) else None)"

fun calc_size_loop :: "mem \<Rightarrow> u64 \<Rightarrow> Elf64_Ehdr \<Rightarrow> nat list \<Rightarrow> u64 \<Rightarrow> u64 \<Rightarrow> (u64 \<times> u64) option" where
  "calc_size_loop m data ehdr [] min_addr max_addr = Some (min_addr, max_addr)"
| "calc_size_loop m data ehdr (i # is) min_addr max_addr =
     do { off \<leftarrow> phdr_offset i (e_phentsize ehdr);
          let phdr = read_phdr m (data + e_phoff ehdr + off);
          if p_type phdr \<noteq> PT_LOAD then calc_size_loop m data ehdr is min_addr max_addr
          else
            (let min_addr = (if p_vaddr phdr < min_addr then p_vaddr phdr else min_addr);
                 end_addr = p_vaddr phdr + p_memsz phdr;
                 max_addr = (if end_addr > max_addr then end_addr else max_addr)
             in calc_size_loop m data ehdr is min_addr max_addr) }"

definition elf_calc_size :: "mem \<Rightarrow> u64 \<Rightarrow> u64 \<Rightarrow> u64 option" where
  "elf_calc_size m data sz =
     (if elf_validate m data sz \<noteq> 0 then Some 0
      else
        (let ehdr = read_ehdr m data in
         do { (min_addr, max_addr) \<leftarrow> calc_size_loop m data ehdr [0..<unat (e_phnum ehdr)] (-1) 0;
              Some (if max_addr \<le> min_addr then 0 else max_addr - min_addr) }))"

partial_function (option) dyn_scan :: "mem \<Rightarrow> u64 \<Rightarrow> u64 \<Rightarrow> u64 \<Rightarrow> u64 \<Rightarrow> (u64 \<times> u64 \<times> u64) option" where
  "dyn_scan m a rela_addr rela_size rela_ent =
     (let dyn = read_dyn m a in
      if d_tag dyn = DT_NULL then Some (rela_addr, rela_size, rela_ent)
      else
        dyn_scan m (a + SIZEOF_DYN)
          (if d_tag dyn = DT_RELA then d_val dyn else rela_addr)
          (if d_tag dyn = DT_RELASZ then d_val dyn else rela_size)
          (if d_tag dyn = DT_RELAENT then d_val dyn else rela_ent))"

text \<open>One relocation: \<^verbatim>\<open>rela[i]\<close> is read from memory, which earlier relocations may have changed.\<close>

definition apply_rela :: "u64 \<Rightarrow> u64 \<Rightarrow> nat \<Rightarrow> mem \<Rightarrow> mem" where
  "apply_rela base rela i m =
     (let r = read_rela m (rela + of_nat i * SIZEOF_RELA);
          typ = r_info r AND 0xFFFFFFFF
      in if typ = R_AARCH64_RELATIVE then wr64 (base + r_offset r) (base + r_addend r) m else m)"

definition elf_process_relocations :: "u64 \<Rightarrow> u64 \<Rightarrow> mem \<Rightarrow> mem option" where
  "elf_process_relocations base dynamic m =
     do { (rela_addr, rela_size, rela_ent) \<leftarrow> dyn_scan m dynamic 0 0 SIZEOF_RELA;
          if rela_addr = 0 \<or> rela_size = 0 then Some m
          else if rela_ent = 0 then None
          else
            (let rela = base + rela_addr;
                 num_relas = nat (sint (ucast (rela_size div rela_ent) :: u32))
             in Some (fold (apply_rela base rela) [0..<num_relas] m)) }"

text \<open>The body of the segment loop for a \<^verbatim>\<open>PT_LOAD\<close> header that passed the bounds check.\<close>

definition dest_of :: "bool \<Rightarrow> u64 \<Rightarrow> Elf64_Phdr \<Rightarrow> u64" where
  "dest_of is_pie base phdr = (if is_pie then base + p_vaddr phdr else p_vaddr phdr)"

definition load_segment :: "u64 \<Rightarrow> bool \<Rightarrow> u64 \<Rightarrow> Elf64_Phdr \<Rightarrow> mem \<Rightarrow> mem" where
  "load_segment data is_pie base phdr m =
     (let dest = dest_of is_pie base phdr;
          src = data + p_offset phdr;
          m = (if p_filesz phdr > 0 then elf_memcpy (unat (p_filesz phdr)) dest src m else m)
      in if p_memsz phdr > p_filesz phdr
         then elf_memset (unat (p_memsz phdr - p_filesz phdr)) (dest + p_filesz phdr) 0 m else m)"

lemma unat_u16: "unat (w :: u16) < 65536"
  using unsigned_less [of w, where 'a = nat] by simp

lemma phnum_measure: "i < unat (w :: u16) \<Longrightarrow> 65535 - i < 65536 - i"
  using unat_u16 [of w] by linarith

text \<open>The loop over the program headers; the error is the early \<^verbatim>\<open>return -1\<close>.\<close>

function load_loop ::
  "u64 \<Rightarrow> u64 \<Rightarrow> u64 \<Rightarrow> bool \<Rightarrow> nat \<Rightarrow> u64 \<Rightarrow> u64 \<Rightarrow> mem \<Rightarrow> ((u64 \<times> u64) option \<times> mem) option" where
  "load_loop data sz base is_pie i total_size dynamic m =
     (let ehdr = read_ehdr m data in
      if i < unat (e_phnum ehdr) then
        (case (phdr_offset (i + 1) (e_phentsize ehdr), phdr_offset i (e_phentsize ehdr)) of
           (Some past, Some off) \<Rightarrow>
             if e_phoff ehdr + past > sz then Some (None, m)
             else
               (let phdr = read_phdr m (data + e_phoff ehdr + off) in
                if p_type phdr = PT_DYNAMIC
                then load_loop data sz base is_pie (i + 1) total_size (base + p_vaddr phdr) m
                else if p_type phdr \<noteq> PT_LOAD
                then load_loop data sz base is_pie (i + 1) total_size dynamic m
                else if p_offset phdr > sz \<or> p_filesz phdr > sz - p_offset phdr then Some (None, m)
                else
                  (let seg_end = p_vaddr phdr + p_memsz phdr in
                   load_loop data sz base is_pie (i + 1)
                     (if seg_end > total_size then seg_end else total_size) dynamic
                     (load_segment data is_pie base phdr m)))
         | _ \<Rightarrow> None)
      else Some (Some (total_size, dynamic), m))"
  by pat_completeness auto
termination
  by (relation "measure (\<lambda>(data, sz, base, is_pie, i, total_size, dynamic, m). 2 ^ 16 - i)")
    (auto intro: phnum_measure)

declare load_loop.simps [simp del]

definition elf_load_at ::
  "mem \<Rightarrow> u64 \<Rightarrow> u64 \<Rightarrow> u64 \<Rightarrow> elf_load_info_t option \<Rightarrow> (int \<times> mem \<times> elf_load_info_t option) option" where
  "elf_load_at m data sz base info =
     (if elf_validate m data sz \<noteq> 0 then Some (-1, m, info)
      else
        (let is_pie = (e_type (read_ehdr m data) = ET_DYN) in
         do { (res, m) \<leftarrow> load_loop data sz base is_pie 0 0 0 m;
              case res of
                None \<Rightarrow> Some (-1, m, info)
              | Some (total_size, dynamic) \<Rightarrow>
                  do { m \<leftarrow> (if is_pie \<and> dynamic \<noteq> 0 then elf_process_relocations base dynamic m else Some m);
                       let ehdr = read_ehdr m data;
                       let entry_addr = (if is_pie then base + e_entry ehdr else e_entry ehdr);
                       Some (0, m, (case info of
                                      None \<Rightarrow> None
                                    | Some _ \<Rightarrow> Some \<lparr>entry = entry_addr, load_base = base, load_size = total_size\<rparr>)) }}))"

section \<open>Address ranges\<close>

text \<open>An address lies in the \<^term>\<open>n\<close> bytes that start at \<^term>\<open>d\<close>, wrapping included.\<close>

definition in_rng :: "u64 \<Rightarrow> nat \<Rightarrow> u64 \<Rightarrow> bool" where
  "in_rng d n a \<longleftrightarrow> unat (a - d) < n"

lemma in_rng_0 [simp]: "\<not> in_rng d 0 a"
  by (simp add: in_rng_def)

lemma unat_distance: "a \<noteq> d \<Longrightarrow> unat (a - d) = Suc (unat (a - (d + 1)))" for a d :: u64
proof -
  assume ne: "a \<noteq> d"
  then have "unat (a - d) \<noteq> 0" by (simp add: unat_eq_0)
  moreover have "unat (a - d - 1) = unat (a - d) - 1" using ne by (intro unat_minus_one) simp
  ultimately show ?thesis by (simp add: diff_diff_eq [symmetric])
qed

lemma in_rng_Suc: "in_rng d (Suc n) a \<longleftrightarrow> a = d \<or> in_rng (d + 1) n a" if "n < 2 ^ 64"
proof (cases "a = d")
  case False
  then show ?thesis using unat_distance [OF False] by (simp add: in_rng_def)
qed (simp add: in_rng_def)

lemma in_rng_start: "Suc n \<le> 2 ^ 64 \<Longrightarrow> \<not> in_rng (d + 1) n d"
proof -
  assume n: "Suc n \<le> 2 ^ 64"
  have "unat (- 1 :: u64) = 2 ^ 64 - 1" by (simp add: unsigned_minus_1_eq_mask mask_eq_exp_minus_1)
  then show ?thesis using n by (simp add: in_rng_def)
qed

lemma in_rng_mono: "in_rng d n a \<Longrightarrow> n \<le> k \<Longrightarrow> in_rng d k a"
  by (simp add: in_rng_def)

lemma in_rng_offset: "in_rng d n (d + of_nat k)" if "k < n" "n \<le> 2 ^ 64"
  using that unat_of_nat_small [of k, where 'a = 64] by (simp add: in_rng_def)

lemma memcpy_spec:
  assumes "n \<le> 2 ^ 64" and "\<And>a. in_rng d n a \<Longrightarrow> \<not> in_rng s n a"
  shows "elf_memcpy n d s m a = (if in_rng d n a then m (s + (a - d)) else m a)"
  using assms
proof (induction n arbitrary: d s m)
  case (Suc n)
  have n: "n < 2 ^ 64" using Suc.prems(1) by simp
  note rng = in_rng_Suc [OF n]
  have "elf_memcpy n (d + 1) (s + 1) (m(d := m s)) a =
      (if in_rng (d + 1) n a then (m(d := m s)) (s + 1 + (a - (d + 1))) else (m(d := m s)) a)"
    using Suc.prems rng by (intro Suc.IH) auto
  moreover have "s + 1 + (a - (d + 1)) = s + (a - d)" by simp
  moreover have "s + (a - d) \<noteq> d" if "in_rng (d + 1) n a"
  proof
    assume e: "s + (a - d) = d"
    have "in_rng d (Suc n) a" using that rng by simp
    then have "in_rng s (Suc n) (s + (a - d))" by (simp add: in_rng_def)
    moreover have "in_rng d (Suc n) d" by (simp add: in_rng_def)
    ultimately show False using Suc.prems(2) [of d] unfolding e by simp
  qed
  moreover have "\<not> in_rng (d + 1) n d" using Suc.prems(1) by (rule in_rng_start)
  ultimately show ?case by (auto simp: rng)
qed simp

lemma memset_spec:
  assumes "n \<le> 2 ^ 64"
  shows "elf_memset n d c m a = (if in_rng d n a then c else m a)"
  using assms
proof (induction n arbitrary: d m)
  case (Suc n)
  then show ?case using in_rng_Suc [of n d a] by auto
qed simp

text \<open>Readers of multi-byte fields look at the bytes of the field only.\<close>

definition agree :: "mem \<Rightarrow> mem \<Rightarrow> u64 \<Rightarrow> nat \<Rightarrow> bool" where
  "agree m m' a n \<longleftrightarrow> (\<forall>k<n. m' (a + of_nat k) = m (a + of_nat k))"

lemma agree_shift: "agree m m' a n \<Longrightarrow> k + j \<le> n \<Longrightarrow> agree m m' (a + of_nat k) j"
proof (unfold agree_def, intro allI impI)
  fix l assume a: "\<forall>k<n. m' (a + of_nat k) = m (a + of_nat k)" and "k + j \<le> n" "l < j"
  then have "k + l < n" by simp
  with a have "m' (a + of_nat (k + l)) = m (a + of_nat (k + l))" by blast
  then show "m' (a + of_nat k + of_nat l) = m (a + of_nat k + of_nat l)" by (simp add: add.assoc)
qed

lemma rd16_cong: "agree m m' a 2 \<Longrightarrow> rd16 m' a = rd16 m a"
proof -
  assume "agree m m' a 2"
  then have "m' (a + of_nat k) = m (a + of_nat k)" if "k < 2" for k using that by (simp add: agree_def)
  from this [of 0] this [of 1] show ?thesis by (simp add: rd16_def)
qed

lemma rd32_cong: "agree m m' a 4 \<Longrightarrow> rd32 m' a = rd32 m a"
  using rd16_cong [OF agree_shift [of m m' a 4 0 2]] rd16_cong [OF agree_shift [of m m' a 4 2 2]]
  by (simp add: rd32_def)

lemma rd64_cong: "agree m m' a 8 \<Longrightarrow> rd64 m' a = rd64 m a"
  using rd32_cong [OF agree_shift [of m m' a 8 0 4]] rd32_cong [OF agree_shift [of m m' a 8 4 4]]
  by (simp add: rd64_def)

lemma read_phdr_cong:
  assumes "agree m m' a 56"
  shows "read_phdr m' a = read_phdr m a"
proof -
  have r: "rd64 m' (a + of_nat k) = rd64 m (a + of_nat k)" if "k + 8 \<le> 56" for k
    using that by (intro rd64_cong agree_shift [OF assms])
  have "rd32 m' (a + of_nat k) = rd32 m (a + of_nat k)" if "k + 4 \<le> 56" for k
    using that by (intro rd32_cong agree_shift [OF assms])
  from this [of 0] this [of 4] r [of 8] r [of 16] r [of 24] r [of 32] r [of 40] r [of 48]
  show ?thesis by (simp add: read_phdr_def)
qed

lemma read_ehdr_cong:
  assumes "agree m m' a 64"
  shows "read_ehdr m' a = read_ehdr m a"
proof -
  have r64: "rd64 m' (a + of_nat k) = rd64 m (a + of_nat k)" if "k + 8 \<le> 64" for k
    using that by (intro rd64_cong agree_shift [OF assms])
  have r32: "rd32 m' (a + of_nat k) = rd32 m (a + of_nat k)" if "k + 4 \<le> 64" for k
    using that by (intro rd32_cong agree_shift [OF assms])
  have r16: "rd16 m' (a + of_nat k) = rd16 m (a + of_nat k)" if "k + 2 \<le> 64" for k
    using that by (intro rd16_cong agree_shift [OF assms])
  have "map (\<lambda>i. m' (a + of_nat i)) [0..<16] = map (\<lambda>i. m (a + of_nat i)) [0..<16]"
    using assms by (simp only: map_eq_conv) (simp add: agree_def)
  then show ?thesis
    using r64 [of 24] r64 [of 32] r64 [of 40] r32 [of 20] r32 [of 48] r16 [of 16] r16 [of 18] r16 [of 52]
      r16 [of 54] r16 [of 56] r16 [of 58] r16 [of 60] r16 [of 62]
    by (simp add: read_ehdr_def)
qed

section \<open>Loading the segments\<close>

lemma in_rng_after:
  assumes a: "in_rng (d + of_nat k) n a" and k: "k + n \<le> 2 ^ 64"
  shows "in_rng d (k + n) a" and "\<not> in_rng d k a"
proof -
  have "a - d = of_nat (unat (a - (d + of_nat k)) + k)" by simp
  moreover have lt: "unat (a - (d + of_nat k)) + k < k + n" using a by (simp add: in_rng_def)
  moreover have "unat (of_nat (unat (a - (d + of_nat k)) + k) :: u64) = unat (a - (d + of_nat k)) + k"
    by (rule unat_of_nat_small) (use lt k in simp)
  ultimately have e: "unat (a - d) = unat (a - (d + of_nat k)) + k" by simp
  show "in_rng d (k + n) a" "\<not> in_rng d k a" using e lt by (simp_all add: in_rng_def)
qed

text \<open>The number of bytes that loading a segment writes.\<close>

definition extent :: "Elf64_Phdr \<Rightarrow> nat" where
  "extent phdr = max (unat (p_filesz phdr)) (unat (p_memsz phdr))"

definition in_bss :: "u64 \<Rightarrow> Elf64_Phdr \<Rightarrow> u64 \<Rightarrow> bool" where
  "in_bss dest phdr a \<longleftrightarrow> in_rng (dest + p_filesz phdr) (unat (p_memsz phdr) - unat (p_filesz phdr)) a"

lemma in_bss_extent:
  assumes "in_bss dest phdr a"
  shows "in_rng dest (extent phdr) a" and "\<not> in_rng dest (unat (p_filesz phdr)) a"
proof -
  let ?f = "unat (p_filesz phdr)" and ?z = "unat (p_memsz phdr)"
  have r: "in_rng (dest + of_nat ?f) (?z - ?f) a" using assms by (simp add: in_bss_def)
  have b: "?f + (?z - ?f) \<le> 2 ^ 64"
    using unsigned_less [of "p_filesz phdr", where 'a = nat] unsigned_less [of "p_memsz phdr", where 'a = nat] by simp
  have "?f + (?z - ?f) = extent phdr" by (simp add: extent_def)
  then show "in_rng dest (extent phdr) a" "\<not> in_rng dest ?f a" using in_rng_after [OF r b] by simp_all
qed

lemma unat_le_64: "unat (w :: u64) \<le> 2 ^ 64"
  using unsigned_less [of w, where 'a = nat] by simp

lemma load_segment_spec:
  assumes apart: "\<And>a. in_rng (dest_of pie base phdr) (extent phdr) a \<Longrightarrow>
      \<not> in_rng (data + p_offset phdr) (unat (p_filesz phdr)) a"
  shows "load_segment data pie base phdr m a =
    (if in_rng (dest_of pie base phdr) (unat (p_filesz phdr)) a
     then m (data + p_offset phdr + (a - dest_of pie base phdr))
     else if in_bss (dest_of pie base phdr) phdr a then 0 else m a)"
proof -
  let ?d = "dest_of pie base phdr" and ?f = "unat (p_filesz phdr)" and ?z = "unat (p_memsz phdr)"
  let ?src = "data + p_offset phdr"
  define m1 where "m1 = (if p_filesz phdr > 0 then elf_memcpy ?f ?d ?src m else m)"
  have m1: "m1 x = (if in_rng ?d ?f x then m (?src + (x - ?d)) else m x)" for x
  proof (cases "p_filesz phdr > 0")
    case True
    have "\<not> in_rng ?src ?f x" if "in_rng ?d ?f x" for x
      using that apart in_rng_mono [of ?d ?f x "extent phdr"] by (simp add: extent_def)
    then show ?thesis using memcpy_spec [where n = ?f and d = ?d and s = ?src and m = m and a = x, OF unat_le_64] True by (simp add: m1_def)
  next
    case False
    then have "?f = 0" by (simp add: word_less_nat_alt)
    then show ?thesis using False by (simp add: m1_def)
  qed
  have "load_segment data pie base phdr m a =
      (if p_memsz phdr > p_filesz phdr then elf_memset (unat (p_memsz phdr - p_filesz phdr)) (?d + p_filesz phdr) 0 m1
       else m1) a"
    by (simp add: load_segment_def Let_def m1_def)
  also have "\<dots> = (if in_bss ?d phdr a then 0 else m1 a)"
  proof (cases "p_memsz phdr > p_filesz phdr")
    case True
    then have "unat (p_memsz phdr - p_filesz phdr) = ?z - ?f"
      using unat_sub [of "p_filesz phdr" "p_memsz phdr"] by simp
    then show ?thesis
      using True memset_spec [where n = "unat (p_memsz phdr - p_filesz phdr)" and d = "?d + p_filesz phdr" and c = 0
          and m = m1 and a = a, OF unat_le_64]
      by (simp add: in_bss_def)
  next
    case False
    then have "?z - ?f = 0" by (simp add: word_less_nat_alt)
    then show ?thesis using False by (simp add: in_bss_def)
  qed
  also have "\<dots> = (if in_rng ?d ?f a then m (?src + (a - ?d)) else if in_bss ?d phdr a then 0 else m a)"
    using in_bss_extent(2) [of ?d phdr a] by (auto simp: m1)
  finally show ?thesis .
qed

section \<open>The program headers\<close>

definition hdr_offset :: "mem \<Rightarrow> u64 \<Rightarrow> nat \<Rightarrow> nat" where
  "hdr_offset m data i = i * unat (e_phentsize (read_ehdr m data))"

definition phdr_of :: "mem \<Rightarrow> u64 \<Rightarrow> nat \<Rightarrow> Elf64_Phdr" where
  "phdr_of m data i = read_phdr m (data + e_phoff (read_ehdr m data) + of_nat (hdr_offset m data i))"

definition phnum :: "mem \<Rightarrow> u64 \<Rightarrow> nat" where
  "phnum m data = unat (e_phnum (read_ehdr m data))"

text \<open>The bounds checks of the loop: the header lies in the file, and so does the data of a segment.\<close>

definition hdr_in :: "mem \<Rightarrow> u64 \<Rightarrow> u64 \<Rightarrow> nat \<Rightarrow> bool" where
  "hdr_in m data sz i \<longleftrightarrow> unat (e_phoff (read_ehdr m data)) + hdr_offset m data (Suc i) \<le> unat sz"

definition data_in :: "u64 \<Rightarrow> Elf64_Phdr \<Rightarrow> bool" where
  "data_in sz phdr \<longleftrightarrow> unat (p_offset phdr) + unat (p_filesz phdr) \<le> unat sz"

definition header_ok :: "mem \<Rightarrow> u64 \<Rightarrow> u64 \<Rightarrow> nat \<Rightarrow> bool" where
  "header_ok m data sz i \<longleftrightarrow>
     hdr_in m data sz i \<and> (p_type (phdr_of m data i) = PT_LOAD \<longrightarrow> data_in sz (phdr_of m data i))"

text \<open>The segments that a load writes.\<close>

definition segment :: "mem \<Rightarrow> u64 \<Rightarrow> u64 \<Rightarrow> nat \<Rightarrow> bool" where
  "segment m data sz i \<longleftrightarrow> i < phnum m data \<and> header_ok m data sz i \<and> p_type (phdr_of m data i) = PT_LOAD"

definition is_pie :: "mem \<Rightarrow> u64 \<Rightarrow> bool" where
  "is_pie m data \<longleftrightarrow> e_type (read_ehdr m data) = ET_DYN"

definition seg_dest :: "mem \<Rightarrow> u64 \<Rightarrow> u64 \<Rightarrow> nat \<Rightarrow> u64" where
  "seg_dest m data base i = dest_of (is_pie m data) base (phdr_of m data i)"

definition in_segment :: "mem \<Rightarrow> u64 \<Rightarrow> u64 \<Rightarrow> nat \<Rightarrow> u64 \<Rightarrow> bool" where
  "in_segment m data base i a \<longleftrightarrow> in_rng (seg_dest m data base i) (extent (phdr_of m data i)) a"

text \<open>Images whose header table does not make the address computations overflow, whose entries have
  at least the size of a program header, and whose segments go to places of their own, away from
  the file image.\<close>

definition loadable :: "mem \<Rightarrow> u64 \<Rightarrow> u64 \<Rightarrow> u64 \<Rightarrow> bool" where
  "loadable m data sz base \<longleftrightarrow>
     56 \<le> unat (e_phentsize (read_ehdr m data)) \<and> hdr_offset m data (phnum m data) < 2 ^ 31
     \<and> unat (e_phoff (read_ehdr m data)) + hdr_offset m data (phnum m data) < 2 ^ 64
     \<and> (\<forall>i a. segment m data sz i \<longrightarrow> in_segment m data base i a \<longrightarrow> \<not> in_rng data (unat sz) a)
     \<and> (\<forall>i j a. segment m data sz i \<longrightarrow> segment m data sz j \<longrightarrow> i \<noteq> j \<longrightarrow> in_segment m data base i a
            \<longrightarrow> \<not> in_segment m data base j a)"

text \<open>Memory after the first \<^term>\<open>k\<close> headers: file data, cleared rest, everything else untouched.\<close>

definition loaded :: "mem \<Rightarrow> u64 \<Rightarrow> u64 \<Rightarrow> u64 \<Rightarrow> nat \<Rightarrow> mem \<Rightarrow> bool" where
  "loaded m data sz base k m' \<longleftrightarrow>
     (\<forall>i<k. segment m data sz i \<longrightarrow>
        (let ph = phdr_of m data i; d = seg_dest m data base i in
         (\<forall>a. in_rng d (unat (p_filesz ph)) a \<longrightarrow> m' a = m (data + p_offset ph + (a - d)))
         \<and> (\<forall>a. in_bss d ph a \<longrightarrow> m' a = 0)))
     \<and> (\<forall>a. (\<forall>i<k. segment m data sz i \<longrightarrow> \<not> in_segment m data base i a) \<longrightarrow> m' a = m a)"

definition load_top :: "mem \<Rightarrow> u64 \<Rightarrow> u64 \<Rightarrow> nat \<Rightarrow> u64" where
  "load_top m data sz k =
     fold (\<lambda>i t. if segment m data sz i then max (p_vaddr (phdr_of m data i) + p_memsz (phdr_of m data i)) t else t)
       [0..<k] 0"

definition dynamic_of :: "mem \<Rightarrow> u64 \<Rightarrow> u64 \<Rightarrow> nat \<Rightarrow> u64" where
  "dynamic_of m data base k =
     fold (\<lambda>i d. if p_type (phdr_of m data i) = PT_DYNAMIC then base + p_vaddr (phdr_of m data i) else d) [0..<k] 0"

lemma phdr_offset_Some:
  "hdr_offset m data i < 2 ^ 31 \<Longrightarrow> phdr_offset i (e_phentsize (read_ehdr m data)) = Some (of_nat (hdr_offset m data i))"
  by (simp add: phdr_offset_def hdr_offset_def)

lemma hdr_offset_mono: "i \<le> j \<Longrightarrow> hdr_offset m data i \<le> hdr_offset m data j"
  by (simp add: hdr_offset_def)

lemma hdr_in_word:
  assumes "unat (e_phoff (read_ehdr m data)) + hdr_offset m data (Suc i) < 2 ^ 64"
  shows "e_phoff (read_ehdr m data) + of_nat (hdr_offset m data (Suc i)) > sz \<longleftrightarrow> \<not> hdr_in m data sz i"
proof -
  let ?x = "e_phoff (read_ehdr m data)" and ?y = "hdr_offset m data (Suc i)"
  have "?x + of_nat ?y = of_nat (unat ?x + ?y)" by simp
  moreover have "unat (of_nat (unat ?x + ?y) :: u64) = unat ?x + ?y" by (rule unat_of_nat_small) (use assms in simp)
  ultimately show ?thesis by (simp add: word_less_nat_alt hdr_in_def not_le)
qed

lemma data_in_word:
  "(p_offset ph > sz \<or> p_filesz ph > sz - p_offset ph) \<longleftrightarrow> \<not> data_in sz ph"
proof (cases "p_offset ph \<le> sz")
  case True
  then have "unat (sz - p_offset ph) = unat sz - unat (p_offset ph)" by (rule unat_sub)
  then show ?thesis using True by (auto simp: word_less_nat_alt word_le_nat_alt data_in_def)
next
  case False
  then show ?thesis by (auto simp: word_less_nat_alt word_le_nat_alt data_in_def)
qed

text \<open>Loading leaves the file image alone, so the headers read the same in every iteration.\<close>

lemma loaded_image:
  assumes "loadable m data sz base" and "loaded m data sz base k m'" and "in_rng data (unat sz) a"
  shows "m' a = m a"
  using assms unfolding loadable_def loaded_def by blast

lemma agree_image:
  assumes ld: "loadable m data sz base" "loaded m data sz base k m'" and b: "x + n \<le> unat sz"
  shows "agree m m' (data + of_nat x) n"
proof (unfold agree_def, intro allI impI)
  fix j assume "j < n"
  then have "in_rng data (unat sz) (data + of_nat (x + j))"
    using b unat_le_64 [of sz] by (intro in_rng_offset) simp_all
  then have "m' (data + of_nat (x + j)) = m (data + of_nat (x + j))" by (rule loaded_image [OF ld])
  then show "m' (data + of_nat x + of_nat j) = m (data + of_nat x + of_nat j)" by (simp add: add.assoc)
qed

lemma ehdr_stable:
  assumes "loadable m data sz base" and "loaded m data sz base k m'" and "64 \<le> unat sz"
  shows "read_ehdr m' data = read_ehdr m data"
  using agree_image [OF assms(1,2), of 0 64] assms(3) by (intro read_ehdr_cong) simp

lemma phdr_stable:
  assumes ld: "loadable m data sz base" "loaded m data sz base k m'" and i: "hdr_in m data sz i"
  shows "read_phdr m' (data + e_phoff (read_ehdr m data) + of_nat (hdr_offset m data i)) = phdr_of m data i"
proof -
  let ?x = "unat (e_phoff (read_ehdr m data)) + hdr_offset m data i"
  have "?x + 56 \<le> unat sz"
    using i ld(1) by (simp add: hdr_in_def loadable_def hdr_offset_def)
  then have "agree m m' (data + of_nat ?x) 56" by (rule agree_image [OF ld])
  then have "read_phdr m' (data + of_nat ?x) = read_phdr m (data + of_nat ?x)" by (rule read_phdr_cong)
  then show ?thesis by (simp add: phdr_of_def add.assoc)
qed

lemma source_in_file:
  assumes "data_in sz ph" and "in_rng (data + p_offset ph) (unat (p_filesz ph)) a"
  shows "in_rng data (unat sz) a"
proof -
  have r: "in_rng (data + of_nat (unat (p_offset ph))) (unat (p_filesz ph)) a" using assms(2) by simp
  have b: "unat (p_offset ph) + unat (p_filesz ph) \<le> 2 ^ 64"
    using assms(1) unat_le_64 [of sz] by (simp add: data_in_def)
  show ?thesis using in_rng_after(1) [OF r b] assms(1) by (auto simp: data_in_def intro: in_rng_mono)
qed

lemma loaded_skip: "\<not> segment m data sz k \<Longrightarrow> loaded m data sz base k m' \<Longrightarrow> loaded m data sz base (Suc k) m'"
  unfolding loaded_def by (auto simp: less_Suc_eq)

lemma loaded_Suc:
  assumes ld: "loadable m data sz base" and l: "loaded m data sz base k m'" and k: "segment m data sz k"
  shows "loaded m data sz base (Suc k) (load_segment data (is_pie m data) base (phdr_of m data k) m')"
proof -
  let ?ph = "phdr_of m data k" and ?d = "seg_dest m data base k"
  define m2 where "m2 = load_segment data (is_pie m data) base ?ph m'"
  have din: "data_in sz ?ph" using k by (simp add: segment_def header_ok_def)
  have far: "\<not> in_rng data (unat sz) a" if "in_segment m data base k a" for a
    using ld k that unfolding loadable_def by blast
  have apart: "\<not> in_rng (data + p_offset ?ph) (unat (p_filesz ?ph)) a"
    if "in_rng (dest_of (is_pie m data) base ?ph) (extent ?ph) a" for a
    using far [of a] that source_in_file [OF din] by (auto simp: in_segment_def seg_dest_def)
  have m2: "m2 a = (if in_rng ?d (unat (p_filesz ?ph)) a then m' (data + p_offset ?ph + (a - ?d))
      else if in_bss ?d ?ph a then 0 else m' a)" for a
    using load_segment_spec [OF apart, where m = m' and a = a] by (simp add: m2_def seg_dest_def)
  have out: "m2 a = m' a" if "\<not> in_segment m data base k a" for a
  proof -
    have "\<not> in_rng ?d (unat (p_filesz ?ph)) a"
      using that in_rng_mono [of ?d "unat (p_filesz ?ph)" a "extent ?ph"] by (auto simp: in_segment_def extent_def)
    moreover have "\<not> in_bss ?d ?ph a" using that in_bss_extent(1) by (auto simp: in_segment_def)
    ultimately show ?thesis by (simp add: m2)
  qed
  have src: "m' (data + p_offset ?ph + (a - ?d)) = m (data + p_offset ?ph + (a - ?d))"
    if "in_rng ?d (unat (p_filesz ?ph)) a" for a
  proof -
    have "in_rng (data + p_offset ?ph) (unat (p_filesz ?ph)) (data + p_offset ?ph + (a - ?d))"
      using that by (simp add: in_rng_def)
    then show ?thesis by (intro loaded_image [OF ld l] source_in_file [OF din])
  qed
  have seg: "(\<forall>a. in_rng (seg_dest m data base i) (unat (p_filesz (phdr_of m data i))) a \<longrightarrow>
            m2 a = m (data + p_offset (phdr_of m data i) + (a - seg_dest m data base i)))
      \<and> (\<forall>a. in_bss (seg_dest m data base i) (phdr_of m data i) a \<longrightarrow> m2 a = 0)"
    if i: "i < Suc k" "segment m data sz i" for i
  proof (cases "i = k")
    case True
    then show ?thesis using m2 src in_bss_extent(2) [of ?d ?ph] by auto
  next
    case False
    then have ik: "i < k" using i by simp
    have "\<not> in_segment m data base k a" if "in_segment m data base i a" for a
      using ld i(2) k False that unfolding loadable_def by blast
    then have same: "m2 a = m' a" if "in_segment m data base i a" for a using out that by blast
    have "in_segment m data base i a" if "in_rng (seg_dest m data base i) (unat (p_filesz (phdr_of m data i))) a" for a
      using that in_rng_mono by (auto simp: in_segment_def extent_def)
    moreover have "in_segment m data base i a" if "in_bss (seg_dest m data base i) (phdr_of m data i) a" for a
      using that in_bss_extent(1) by (simp add: in_segment_def)
    ultimately show ?thesis using l ik i(2) same unfolding loaded_def Let_def by simp
  qed
  have "m2 a = m a" if "\<forall>i<Suc k. segment m data sz i \<longrightarrow> \<not> in_segment m data base i a" for a
    using l that out [of a] k unfolding loaded_def by simp
  then show ?thesis using seg unfolding loaded_def m2_def [symmetric] Let_def by blast
qed

lemma load_loop_spec:
  assumes ld: "loadable m data sz base" and sz: "64 \<le> unat sz"
    and "loaded m data sz base i m'" and "i \<le> phnum m data"
    and "tot = load_top m data sz i" and "dyn = dynamic_of m data base i"
  shows "\<exists>res m2. load_loop data sz base (is_pie m data) i tot dyn m' = Some (res, m2)
    \<and> (if \<forall>j. i \<le> j \<and> j < phnum m data \<longrightarrow> header_ok m data sz j
       then res = Some (load_top m data sz (phnum m data), dynamic_of m data base (phnum m data))
            \<and> loaded m data sz base (phnum m data) m2
       else res = None \<and> (\<exists>k<phnum m data. loaded m data sz base k m2))"
  using assms(3-6)
proof (induction "phnum m data - i" arbitrary: i m' tot dyn)
  case 0
  then have i: "i = phnum m data" by simp
  then have "load_loop data sz base (is_pie m data) i tot dyn m' = Some (Some (tot, dyn), m')"
    using ehdr_stable [OF ld 0(2) sz] by (subst load_loop.simps) (simp add: phnum_def Let_def)
  then show ?case using 0 i by auto
next
  case (Suc d)
  then have i: "i < phnum m data" and d: "d = phnum m data - Suc i" "Suc i \<le> phnum m data" by simp_all
  let ?eh = "read_ehdr m data" and ?ph = "phdr_of m data i"
  have eh: "read_ehdr m' data = ?eh" by (rule ehdr_stable [OF ld Suc.prems(1) sz])
  have "hdr_offset m data (Suc i) \<le> hdr_offset m data (phnum m data)" using i by (intro hdr_offset_mono) simp
  moreover have "hdr_offset m data i \<le> hdr_offset m data (Suc i)" by (intro hdr_offset_mono) simp
  ultimately have off: "hdr_offset m data (Suc i) < 2 ^ 31" "hdr_offset m data i < 2 ^ 31"
    "unat (e_phoff ?eh) + hdr_offset m data (Suc i) < 2 ^ 64"
    using ld unfolding loadable_def by linarith+
  note po = phdr_offset_Some [OF off(1)] phdr_offset_Some [OF off(2)]
  note in_file = hdr_in_word [OF off(3), of sz]
  have step: "load_loop data sz base (is_pie m data) i tot dyn m' =
      (if \<not> hdr_in m data sz i then Some (None, m')
       else if p_type ?ph = PT_DYNAMIC
         then load_loop data sz base (is_pie m data) (Suc i) tot (base + p_vaddr ?ph) m'
       else if p_type ?ph \<noteq> PT_LOAD then load_loop data sz base (is_pie m data) (Suc i) tot dyn m'
       else if \<not> data_in sz ?ph then Some (None, m')
       else load_loop data sz base (is_pie m data) (Suc i)
              (if p_vaddr ?ph + p_memsz ?ph > tot then p_vaddr ?ph + p_memsz ?ph else tot) dyn
              (load_segment data (is_pie m data) base ?ph m'))"
    using i in_file phdr_stable [OF ld Suc.prems(1)] data_in_word [where ph = ?ph and sz = sz]
    by (subst load_loop.simps) (simp add: eh po phnum_def Let_def)
  have tops: "load_top m data sz (Suc i) = (if segment m data sz i then max (p_vaddr ?ph + p_memsz ?ph) (load_top m data sz i)
        else load_top m data sz i)"
    "dynamic_of m data base (Suc i) = (if p_type ?ph = PT_DYNAMIC then base + p_vaddr ?ph else dynamic_of m data base i)"
    by (simp_all add: load_top_def dynamic_of_def)
  have all: "(\<forall>j. i \<le> j \<and> j < phnum m data \<longrightarrow> header_ok m data sz j) \<longleftrightarrow>
      header_ok m data sz i \<and> (\<forall>j. Suc i \<le> j \<and> j < phnum m data \<longrightarrow> header_ok m data sz j)"
    using i by (metis Suc_leD le_eq_less_or_eq Suc_le_eq)
  have ne: "PT_LOAD \<noteq> PT_DYNAMIC" by (simp add: PT_LOAD_def PT_DYNAMIC_def)
  show ?case
  proof (cases "header_ok m data sz i")
    case False
    then have "load_loop data sz base (is_pie m data) i tot dyn m' = Some (None, m')"
      unfolding step using ne by (auto simp: header_ok_def)
    then show ?thesis using False Suc.prems(1) i all by auto
  next
    case ok: True
    show ?thesis
    proof (cases "p_type ?ph = PT_LOAD")
      case True
      then have seg: "segment m data sz i" using ok i by (simp add: segment_def)
      let ?m = "load_segment data (is_pie m data) base ?ph m'"
      have "load_loop data sz base (is_pie m data) i tot dyn m' =
          load_loop data sz base (is_pie m data) (Suc i) (load_top m data sz (Suc i)) (dynamic_of m data base (Suc i)) ?m"
        using ok True ne seg Suc.prems(3,4) unfolding step tops
        by (simp add: header_ok_def)
      then show ?thesis
        using Suc.hyps(1) [OF d(1) loaded_Suc [OF ld Suc.prems(1) seg] d(2) refl refl] all ok by simp
    next
      case False
      then have seg: "\<not> segment m data sz i" by (simp add: segment_def)
      have "load_loop data sz base (is_pie m data) i tot dyn m' =
          load_loop data sz base (is_pie m data) (Suc i) (load_top m data sz (Suc i)) (dynamic_of m data base (Suc i)) m'"
        using ok False seg Suc.prems(3,4) unfolding step tops by (simp add: header_ok_def)
      then show ?thesis
        using Suc.hyps(1) [OF d(1) loaded_skip [OF seg Suc.prems(1)] d(2) refl refl] all ok by simp
    qed
  qed
qed

lemma load_at_spec:
  assumes ld: "loadable m data sz base"
  shows "if elf_validate m data sz = 0 \<and> (\<forall>i<phnum m data. header_ok m data sz i)
    then \<exists>m1. loaded m data sz base (phnum m data) m1
      \<and> elf_load_at m data sz base info =
          do { m' \<leftarrow> (if is_pie m data \<and> dynamic_of m data base (phnum m data) \<noteq> 0
                     then elf_process_relocations base (dynamic_of m data base (phnum m data)) m1 else Some m1);
               Some (0, m', map_option (\<lambda>_. \<lparr>entry = (if is_pie m data then base + elf_entry m' data else elf_entry m' data),
                 load_base = base, load_size = load_top m data sz (phnum m data)\<rparr>) info) }
    else \<exists>m1 k. loaded m data sz base k m1 \<and> elf_load_at m data sz base info = Some (-1, m1, info)"
proof (cases "elf_validate m data sz = 0")
  case True
  then have sz: "64 \<le> unat sz"
    by (auto simp: elf_validate_def SIZEOF_EHDR_def word_less_nat_alt split: if_splits)
  have "loaded m data sz base 0 m" by (simp add: loaded_def)
  then obtain res m2 where l: "load_loop data sz base (is_pie m data) 0 0 0 m = Some (res, m2)"
    and c: "if \<forall>j. 0 \<le> j \<and> j < phnum m data \<longrightarrow> header_ok m data sz j
       then res = Some (load_top m data sz (phnum m data), dynamic_of m data base (phnum m data))
            \<and> loaded m data sz base (phnum m data) m2
       else res = None \<and> (\<exists>k<phnum m data. loaded m data sz base k m2)"
    using load_loop_spec [OF ld sz, of 0 m 0 0] by (auto simp: load_top_def dynamic_of_def)
  show ?thesis
  proof (cases "\<forall>i<phnum m data. header_ok m data sz i")
    case ok: True
    then have "res = Some (load_top m data sz (phnum m data), dynamic_of m data base (phnum m data))"
      "loaded m data sz base (phnum m data) m2" using c by simp_all
    then show ?thesis
      using True ok l
      by (cases info) (auto simp: elf_load_at_def elf_entry_def is_pie_def [symmetric] map_option_case Let_def intro!: exI [of _ m2])
  next
    case False
    then have "res = None" "\<exists>k<phnum m data. loaded m data sz base k m2" using c by auto
    then show ?thesis using False True l by (auto simp: elf_load_at_def is_pie_def [symmetric])
  qed
next
  case False
  then have "loaded m data sz base 0 m" "elf_load_at m data sz base info = Some (-1, m, info)"
    by (simp_all add: loaded_def elf_load_at_def)
  then show ?thesis using False by auto
qed

section \<open>Relocations\<close>

lemma wr_bytes_spec:
  "n \<le> 8 \<Longrightarrow> wr_bytes n a v m x = (if in_rng a n x then ucast (drop_bit (8 * unat (x - a)) v) else m x)"
proof (induction n arbitrary: a v m)
  case (Suc n)
  have n: "n < 2 ^ 64" using Suc.prems by simp
  have "unat (x - a) = Suc (unat (x - (a + 1)))" if "in_rng (a + 1) n x"
  proof -
    have "x \<noteq> a" using that in_rng_start [of n a] n by auto
    then show ?thesis by (rule unat_distance)
  qed
  moreover have "\<not> in_rng (a + 1) n a" using n by (intro in_rng_start) simp
  ultimately show ?case using Suc in_rng_Suc [OF n, of a x] by (auto simp: ac_simps)
qed simp

lemma wr64_other: "\<not> in_rng a 8 x \<Longrightarrow> wr64 a v m x = m x"
  by (simp add: wr64_def wr_bytes_spec)

lemma wr64_byte: "k < 8 \<Longrightarrow> wr64 a v m (a + of_nat k) = ucast (drop_bit (8 * k) v)"
  using in_rng_offset [of k 8 a] unat_of_nat_small [of k, where 'a = 64] by (simp add: wr64_def wr_bytes_spec)

lemma join16:
  "(ucast (ucast w :: u8) :: u16) OR push_bit 8 (ucast (ucast (drop_bit 8 w) :: u8)) = ucast w" for w :: u64
  by (rule bit_word_eqI) (auto simp: bit_simps)

lemma join32:
  "(ucast (ucast w :: u16) :: u32) OR push_bit 16 (ucast (ucast (drop_bit 16 w) :: u16)) = ucast w" for w :: u64
  by (rule bit_word_eqI) (auto simp: bit_simps)

lemma join64:
  "(ucast (ucast w :: u32) :: u64) OR push_bit 32 (ucast (ucast (drop_bit 32 w) :: u32)) = w" for w :: u64
  by (rule bit_word_eqI) (auto simp: bit_simps)

lemma rd64_wr64: "rd64 (wr64 a v m) a = v"
proof -
  have b: "wr64 a v m (a + of_nat k) = ucast (drop_bit (8 * k) v)" if "k < 8" for k using that by (rule wr64_byte)
  have r16: "rd16 (wr64 a v m) (a + of_nat k) = ucast (drop_bit (8 * k) v)" if "k < 7" for k
    using b [of k] b [of "Suc k"] that join16 [of "drop_bit (8 * k) v"] by (simp add: rd16_def ac_simps)
  have r32: "rd32 (wr64 a v m) (a + of_nat k) = ucast (drop_bit (8 * k) v)" if "k < 5" for k
    using r16 [of k] r16 [of "k + 2"] that join32 [of "drop_bit (8 * k) v"] by (simp add: rd32_def ac_simps)
  show ?thesis using r32 [of 0] r32 [of 4] join64 [of v] by (simp add: rd64_def)
qed

text \<open>The dynamic section: entries up to the first \<^verbatim>\<open>DT_NULL\<close>; the last entry with a tag counts.\<close>

fun dyn_list :: "mem \<Rightarrow> u64 \<Rightarrow> Elf64_Dyn list \<Rightarrow> bool" where
  "dyn_list m a [] \<longleftrightarrow> d_tag (read_dyn m a) = DT_NULL"
| "dyn_list m a (d # ds) \<longleftrightarrow> read_dyn m a = d \<and> d_tag d \<noteq> DT_NULL \<and> dyn_list m (a + SIZEOF_DYN) ds"

definition dyn_val :: "u64 \<Rightarrow> Elf64_Dyn list \<Rightarrow> u64 \<Rightarrow> u64" where
  "dyn_val tag ds v = fold (\<lambda>d v. if d_tag d = tag then d_val d else v) ds v"

lemma dyn_scan_list:
  "dyn_list m a ds \<Longrightarrow> dyn_scan m a x y z = Some (dyn_val DT_RELA ds x, dyn_val DT_RELASZ ds y, dyn_val DT_RELAENT ds z)"
proof (induction ds arbitrary: a x y z)
  case Nil
  then show ?case by (subst dyn_scan.simps) (simp add: dyn_val_def)
next
  case (Cons d ds)
  then show ?case by (subst dyn_scan.simps) (simp add: dyn_val_def Let_def)
qed

text \<open>A relocation table: entry \<^term>\<open>i\<close>, whether it is applied, and where.\<close>

definition rela_of :: "mem \<Rightarrow> u64 \<Rightarrow> nat \<Rightarrow> Elf64_Rela" where
  "rela_of m rela i = read_rela m (rela + of_nat i * SIZEOF_RELA)"

definition relative :: "Elf64_Rela \<Rightarrow> bool" where
  "relative r \<longleftrightarrow> r_info r AND 0xFFFFFFFF = R_AARCH64_RELATIVE"

definition in_target :: "mem \<Rightarrow> u64 \<Rightarrow> u64 \<Rightarrow> nat \<Rightarrow> u64 \<Rightarrow> bool" where
  "in_target m base rela i a \<longleftrightarrow> relative (rela_of m rela i) \<and> in_rng (base + r_offset (rela_of m rela i)) 8 a"

text \<open>Targets overlap neither each other nor the table.\<close>

definition relocatable :: "mem \<Rightarrow> u64 \<Rightarrow> u64 \<Rightarrow> nat \<Rightarrow> bool" where
  "relocatable m base rela n \<longleftrightarrow>
     (\<forall>i<n. \<forall>a. in_target m base rela i a \<longrightarrow> \<not> in_rng rela (n * 24) a)
     \<and> (\<forall>i<n. \<forall>j<n. \<forall>a. i \<noteq> j \<longrightarrow> in_target m base rela i a \<longrightarrow> \<not> in_target m base rela j a)"

definition relocated :: "mem \<Rightarrow> u64 \<Rightarrow> u64 \<Rightarrow> nat \<Rightarrow> mem \<Rightarrow> bool" where
  "relocated m base rela k m' \<longleftrightarrow>
     (\<forall>i<k. relative (rela_of m rela i) \<longrightarrow>
        rd64 m' (base + r_offset (rela_of m rela i)) = base + r_addend (rela_of m rela i))
     \<and> (\<forall>a. (\<forall>i<k. \<not> in_target m base rela i a) \<longrightarrow> m' a = m a)"

lemma read_rela_cong:
  assumes "agree m m' a 24"
  shows "read_rela m' a = read_rela m a"
proof -
  have "rd64 m' (a + of_nat k) = rd64 m (a + of_nat k)" if "k + 8 \<le> 24" for k
    using that by (intro rd64_cong agree_shift [OF assms])
  from this [of 0] this [of 8] this [of 16] show ?thesis by (simp add: read_rela_def)
qed

lemma rela_stable:
  assumes ok: "relocatable m base rela n" and r: "relocated m base rela k m'" and k: "k < n" "n < 2 ^ 31"
  shows "read_rela m' (rela + of_nat k * SIZEOF_RELA) = rela_of m rela k"
proof -
  have "agree m m' (rela + of_nat (k * 24)) 24"
  proof (unfold agree_def, intro allI impI)
    fix j :: nat assume j: "j < 24"
    have "k * 24 + j < n * 24" using j k(1) by linarith
    then have "in_rng rela (n * 24) (rela + of_nat (k * 24 + j))"
      using k(2) by (intro in_rng_offset) simp_all
    then have "\<not> in_target m base rela i (rela + of_nat (k * 24 + j))" if "i < k" for i
      using ok that k(1) less_trans unfolding relocatable_def by blast
    then have "m' (rela + of_nat (k * 24 + j)) = m (rela + of_nat (k * 24 + j))"
      using r unfolding relocated_def by blast
    then show "m' (rela + of_nat (k * 24) + of_nat j) = m (rela + of_nat (k * 24) + of_nat j)"
      by (simp add: add.assoc)
  qed
  then have "read_rela m' (rela + of_nat (k * 24)) = read_rela m (rela + of_nat (k * 24))" by (rule read_rela_cong)
  then show ?thesis by (simp add: rela_of_def SIZEOF_RELA_def)
qed

lemma relocated_Suc:
  assumes ok: "relocatable m base rela n" and r: "relocated m base rela k m'" and k: "k < n" "n < 2 ^ 31"
  shows "relocated m base rela (Suc k) (apply_rela base rela k m')"
proof -
  let ?r = "rela_of m rela k" and ?m = "apply_rela base rela k m'"
  let ?t = "base + r_offset ?r"
  have m: "?m = (if relative ?r then wr64 ?t (base + r_addend ?r) m' else m')"
    using rela_stable [OF ok r k] by (simp add: apply_rela_def relative_def Let_def)
  have same: "?m a = m' a" if "\<not> in_target m base rela k a" for a
    using that wr64_other [of ?t a] by (simp add: m in_target_def)
  have "rd64 ?m (base + r_offset (rela_of m rela i)) = base + r_addend (rela_of m rela i)"
    if i: "i < Suc k" "relative (rela_of m rela i)" for i
  proof (cases "i = k")
    case True
    then show ?thesis using i rd64_wr64 by (simp add: m)
  next
    case False
    then have ik: "i < k" using i by simp
    have "agree m' ?m (base + r_offset (rela_of m rela i)) 8"
    proof (unfold agree_def, intro allI impI)
      fix j :: nat assume "j < 8"
      then have "in_target m base rela i (base + r_offset (rela_of m rela i) + of_nat j)"
        using i(2) in_rng_offset [of j 8] by (simp add: in_target_def)
      then have "\<not> in_target m base rela k (base + r_offset (rela_of m rela i) + of_nat j)"
        using ok ik k(1) unfolding relocatable_def by (metis less_trans nat_neq_iff)
      then show "?m (base + r_offset (rela_of m rela i) + of_nat j) = m' (base + r_offset (rela_of m rela i) + of_nat j)"
        by (rule same)
    qed
    then have "rd64 ?m (base + r_offset (rela_of m rela i)) = rd64 m' (base + r_offset (rela_of m rela i))"
      by (rule rd64_cong)
    then show ?thesis using r ik i(2) by (simp add: relocated_def)
  qed
  moreover have "?m a = m a" if "\<forall>i<Suc k. \<not> in_target m base rela i a" for a
    using that same [of a] r by (simp add: relocated_def)
  ultimately show ?thesis unfolding relocated_def by blast
qed

lemma relocations_spec:
  assumes ok: "relocatable m base rela n" and n: "n < 2 ^ 31" and "k \<le> n"
  shows "relocated m base rela k (fold (apply_rela base rela) [0..<k] m)"
  using assms(3)
proof (induction k)
  case 0
  show ?case by (simp add: relocated_def)
next
  case (Suc k)
  then show ?case using relocated_Suc [OF ok _ _ n, of k] by simp
qed

section \<open>The size of an image\<close>

lemma calc_size_loop_spec:
  assumes "hdr_offset m data (phnum m data) < 2 ^ 31" and "k \<le> phnum m data"
  shows "\<exists>lo hi. calc_size_loop m data (read_ehdr m data) [k..<phnum m data] lo0 hi0 = Some (lo, hi)
    \<and> lo \<le> lo0 \<and> hi0 \<le> hi
    \<and> (\<forall>i. k \<le> i \<longrightarrow> i < phnum m data \<longrightarrow> p_type (phdr_of m data i) = PT_LOAD \<longrightarrow>
         lo \<le> p_vaddr (phdr_of m data i) \<and> p_vaddr (phdr_of m data i) + p_memsz (phdr_of m data i) \<le> hi)"
  using assms(2)
proof (induction "phnum m data - k" arbitrary: k lo0 hi0)
  case 0
  then show ?case by simp
next
  case (Suc d)
  then have k: "k < phnum m data" and d: "d = phnum m data - Suc k" "Suc k \<le> phnum m data" by simp_all
  let ?ph = "phdr_of m data k"
  define load where "load \<longleftrightarrow> p_type ?ph = PT_LOAD"
  define lo1 where "lo1 = (if load then min (p_vaddr ?ph) lo0 else lo0)"
  define hi1 where "hi1 = (if load then max (p_vaddr ?ph + p_memsz ?ph) hi0 else hi0)"
  have "hdr_offset m data k < 2 ^ 31" using hdr_offset_mono [of k "phnum m data" m data] k assms(1) by simp
  then have po: "phdr_offset k (e_phentsize (read_ehdr m data)) = Some (of_nat (hdr_offset m data k))"
    by (rule phdr_offset_Some)
  have mm: "(if a < b then a else b) = min a b" "(if a > b then a else b) = max a b" for a b :: u64
    by (auto simp: min_def max_def)
  have step: "calc_size_loop m data (read_ehdr m data) [k..<phnum m data] lo0 hi0 =
      calc_size_loop m data (read_ehdr m data) [Suc k..<phnum m data] lo1 hi1"
    unfolding upt_conv_Cons [OF k] calc_size_loop.simps po mm lo1_def hi1_def load_def Let_def
    by (simp add: phdr_of_def [symmetric])
  from Suc.hyps(1) [OF d, of lo1 hi1] obtain lo hi where
    r: "calc_size_loop m data (read_ehdr m data) [Suc k..<phnum m data] lo1 hi1 = Some (lo, hi)" "lo \<le> lo1" "hi1 \<le> hi"
      "\<forall>i. Suc k \<le> i \<longrightarrow> i < phnum m data \<longrightarrow> p_type (phdr_of m data i) = PT_LOAD \<longrightarrow>
         lo \<le> p_vaddr (phdr_of m data i) \<and> p_vaddr (phdr_of m data i) + p_memsz (phdr_of m data i) \<le> hi"
    by blast
  have lh: "lo1 \<le> lo0" "hi0 \<le> hi1" "load \<Longrightarrow> lo1 \<le> p_vaddr ?ph \<and> p_vaddr ?ph + p_memsz ?ph \<le> hi1"
    by (simp_all add: lo1_def hi1_def)
  have "lo \<le> p_vaddr (phdr_of m data i) \<and> p_vaddr (phdr_of m data i) + p_memsz (phdr_of m data i) \<le> hi"
    if "k \<le> i" "i < phnum m data" "p_type (phdr_of m data i) = PT_LOAD" for i
  proof (cases "i = k")
    case True
    then have "load" using that(3) by (simp add: load_def)
    then show ?thesis using lh(3) r(2,3) True order_trans by blast
  qed (use r(4) that in auto)
  moreover have "lo \<le> lo0" "hi0 \<le> hi" using r(2,3) lh(1,2) by simp_all
  ultimately show ?case using step r(1) by auto
qed

section \<open>Properties\<close>


text \<open>Relocation. For a dynamic section that ends and whose relocation table is described by
  \<^verbatim>\<open>DT_RELA\<close>, \<^verbatim>\<open>DT_RELASZ\<close> and \<^verbatim>\<open>DT_RELAENT\<close>, every \<^verbatim>\<open>R_AARCH64_RELATIVE\<close> entry leaves the load base
  plus its addend at its target, and no byte outside the targets changes.\<close>

theorem elf_relocations_correct:
  assumes dyn: "dyn_list m dynamic ds"
    and addr: "dyn_val DT_RELA ds 0 \<noteq> 0" and size: "dyn_val DT_RELASZ ds 0 \<noteq> 0"
    and ent: "dyn_val DT_RELAENT ds SIZEOF_RELA \<noteq> 0"
    and n: "n = unat (dyn_val DT_RELASZ ds 0 div dyn_val DT_RELAENT ds SIZEOF_RELA)" "n < 2 ^ 31"
    and ok: "relocatable m base (base + dyn_val DT_RELA ds 0) n"
  shows "\<exists>m'. elf_process_relocations base dynamic m = Some m'
    \<and> relocated m base (base + dyn_val DT_RELA ds 0) n m'"
proof -
  let ?q = "dyn_val DT_RELASZ ds 0 div dyn_val DT_RELAENT ds SIZEOF_RELA"
  let ?c = "ucast ?q :: u32"
  have u: "unat ?c = n" using n by (simp add: unsigned_ucast_eq take_bit_eq_mod)
  then have lt: "int (unat ?c) < int (2 ^ 31)" using n(2) by (simp only: of_nat_less_iff)
  have "signed_take_bit 31 (uint ?c) = uint ?c"
  proof (rule signed_take_bit_int_eq_self)
    show "- (2 ^ 31) \<le> uint ?c" by (rule order_trans [OF _ uint_ge_0]) simp
    show "uint ?c < 2 ^ 31" using lt by simp
  qed
  then have "sint ?c = int (unat ?c)" by (simp add: sint_uint)
  then have "nat (sint ?c) = n" using u by simp
  then have "elf_process_relocations base dynamic m =
      Some (fold (apply_rela base (base + dyn_val DT_RELA ds 0)) [0..<n] m)"
    using addr size ent by (simp add: elf_process_relocations_def dyn_scan_list [OF dyn] Let_def)
  then show ?thesis using relocations_spec [OF ok n(2) order_refl] by blast
qed

text \<open>\<^verbatim>\<open>elf_calc_size\<close> is large enough: some address is such that all \<^verbatim>\<open>PT_LOAD\<close> segments lie within
  the computed number of bytes from it, as long as no segment wraps around the address space.\<close>

theorem elf_calc_size_covers:
  assumes v: "elf_validate m data sz = 0" and off: "hdr_offset m data (phnum m data) < 2 ^ 31"
    and nowrap: "\<forall>i<phnum m data. p_type (phdr_of m data i) = PT_LOAD \<longrightarrow>
       unat (p_vaddr (phdr_of m data i)) + unat (p_memsz (phdr_of m data i)) < 2 ^ 64"
  shows "\<exists>(lo :: u64) n. elf_calc_size m data sz = Some n
    \<and> (\<forall>i<phnum m data. p_type (phdr_of m data i) = PT_LOAD \<longrightarrow>
         unat lo \<le> unat (p_vaddr (phdr_of m data i))
         \<and> unat (p_vaddr (phdr_of m data i)) + unat (p_memsz (phdr_of m data i)) \<le> unat lo + unat n)"
proof -
  obtain lo hi where r: "calc_size_loop m data (read_ehdr m data) [0..<phnum m data] (-1) 0 = Some (lo, hi)"
    and b: "\<forall>i. 0 \<le> i \<longrightarrow> i < phnum m data \<longrightarrow> p_type (phdr_of m data i) = PT_LOAD \<longrightarrow>
         lo \<le> p_vaddr (phdr_of m data i) \<and> p_vaddr (phdr_of m data i) + p_memsz (phdr_of m data i) \<le> hi"
    using calc_size_loop_spec [OF off, of 0 "-1" 0] by blast
  let ?n = "if hi \<le> lo then 0 else hi - lo"
  have size: "elf_calc_size m data sz = Some ?n"
    using v r by (simp add: elf_calc_size_def phnum_def Let_def)
  have "unat lo \<le> unat (p_vaddr ph) \<and> unat (p_vaddr ph) + unat (p_memsz ph) \<le> unat lo + unat ?n"
    if i: "i < phnum m data" "p_type ph = PT_LOAD" "ph = phdr_of m data i" for i ph
  proof -
    have l: "unat lo \<le> unat (p_vaddr ph)" using b i by (simp add: word_le_nat_alt)
    have "unat (p_vaddr ph + p_memsz ph) = unat (p_vaddr ph) + unat (p_memsz ph)"
      using nowrap i unat_add_lem [of "p_vaddr ph" "p_memsz ph"] by simp
    moreover have "p_vaddr ph + p_memsz ph \<le> hi" using b i by simp
    ultimately have h: "unat (p_vaddr ph) + unat (p_memsz ph) \<le> unat hi" by (simp add: word_le_nat_alt)
    have "unat hi \<le> unat lo + unat ?n"
      using unat_sub [of lo hi] by (auto simp: word_le_nat_alt)
    then show ?thesis using l h by linarith
  qed
  from this [OF _ _ refl] have "\<forall>i<phnum m data. p_type (phdr_of m data i) = PT_LOAD \<longrightarrow>
      unat lo \<le> unat (p_vaddr (phdr_of m data i))
      \<and> unat (p_vaddr (phdr_of m data i)) + unat (p_memsz (phdr_of m data i)) \<le> unat lo + unat ?n"
    by blast
  with size show ?thesis by blast
qed

section \<open>Witnesses\<close>

text \<open>An executable of one four-byte segment with four bytes of cleared memory behind it, in memory at
  0x1000, and a dynamic section with one relocation at 0x2000.\<close>

definition demo_image :: bytes where
  "demo_image = [127, 69, 76, 70, 2, 1, 1, 0, 0, 0, 0, 0, 0, 0, 0, 0, 2, 0, 183, 0, 1, 0, 0, 0, 0, 0, 64, 0, 0, 0, 0, 0,
     64, 0, 0, 0, 0, 0, 0, 0, 0, 0, 0, 0, 0, 0, 0, 0, 0, 0, 0, 0, 64, 0, 56, 0, 1, 0, 0, 0, 0, 0, 0, 0,
     1, 0, 0, 0, 5, 0, 0, 0, 120, 0, 0, 0, 0, 0, 0, 0, 0, 0, 64, 0, 0, 0, 0, 0, 0, 0, 64, 0, 0, 0, 0, 0,
     4, 0, 0, 0, 0, 0, 0, 0, 8, 0, 0, 0, 0, 0, 0, 0, 0, 16, 0, 0, 0, 0, 0, 0, 31, 32, 3, 213]"

definition demo_dyn :: bytes where
  "demo_dyn = [7, 0, 0, 0, 0, 0, 0, 0, 64, 0, 0, 0, 0, 0, 0, 0, 8, 0, 0, 0, 0, 0, 0, 0, 24, 0, 0, 0, 0, 0, 0, 0,
     9, 0, 0, 0, 0, 0, 0, 0, 24, 0, 0, 0, 0, 0, 0, 0, 0, 0, 0, 0, 0, 0, 0, 0, 0, 0, 0, 0, 0, 0, 0, 0,
     0, 1, 0, 0, 0, 0, 0, 0, 3, 4, 0, 0, 0, 0, 0, 0, 8, 0, 0, 0, 0, 0, 0, 0]"

definition demo_mem :: mem where
  "demo_mem a = (if a - 0x1000 < 124 then demo_image ! unat (a - 0x1000)
     else if a - 0x2000 < 88 then demo_dyn ! unat (a - 0x2000) else 0)"

lemma demo_header:
  "elf_validate demo_mem 0x1000 124 = 0" "phnum demo_mem 0x1000 = 1" "is_pie demo_mem 0x1000 = False"
  "e_phentsize (read_ehdr demo_mem 0x1000) = 56" "e_phoff (read_ehdr demo_mem 0x1000) = 64"
  by code_simp+

lemma demo_segment:
  "phdr_of demo_mem 0x1000 0 = \<lparr>p_type = 1, p_flags = 5, p_offset = 120, p_vaddr = 0x400000, p_paddr = 0x400000,
     p_filesz = 4, p_memsz = 8, p_align = 4096\<rparr>"
  by code_simp

lemma in_rng_apart:
  assumes "unat (e - d) + n \<le> 2 ^ 64" and "k \<le> unat (e - d)" and "in_rng e n a"
  shows "\<not> in_rng d k a"
proof -
  have "a - d = (a - e) + (e - d)" by simp
  moreover have "unat (a - e) + unat (e - d) < 2 ^ LENGTH(64)" using assms(1,3) by (simp add: in_rng_def)
  ultimately have "unat (a - d) = unat (a - e) + unat (e - d)" by (metis unat_add_lem)
  then show ?thesis using assms(2) by (simp add: in_rng_def)
qed

lemma demo_loadable: "loadable demo_mem 0x1000 124 0"
proof -
  have i: "i = 0" if "segment demo_mem 0x1000 124 i" for i using that demo_header by (simp add: segment_def)
  have "\<not> in_rng 0x1000 124 a" if "in_rng 0x400000 8 a" for a by (rule in_rng_apart [OF _ _ that]) simp_all
  then have "\<not> in_rng 0x1000 (unat (124 :: u64)) a" if "segment demo_mem 0x1000 124 i" "in_segment demo_mem 0x1000 0 i a" for i a
    using that(2) i [OF that(1)]
    by (simp add: in_segment_def seg_dest_def dest_of_def demo_header demo_segment extent_def)
  moreover have "i = j" if "segment demo_mem 0x1000 124 i" "segment demo_mem 0x1000 124 j" for i j
    using i [OF that(1)] i [OF that(2)] by simp
  ultimately show ?thesis unfolding loadable_def by (auto simp: demo_header hdr_offset_def)
qed


theorem elf_relocations_correct_witness:
  "\<exists>ds. dyn_list demo_mem 0x2000 ds \<and> dyn_val DT_RELA ds 0 \<noteq> 0
     \<and> (\<exists>m'. elf_process_relocations 0x2000 0x2000 demo_mem = Some m' \<and> rd64 m' 0x2100 = 0x2008)"
proof -
  let ?ds = "[\<lparr>d_tag = 7, d_val = 0x40\<rparr>, \<lparr>d_tag = 8, d_val = 24\<rparr>, \<lparr>d_tag = 9, d_val = 24\<rparr>]"
  have d: "dyn_list demo_mem 0x2000 ?ds" by code_simp
  have v: "dyn_val DT_RELA ?ds 0 = 0x40" "dyn_val DT_RELASZ ?ds 0 = 24" "dyn_val DT_RELAENT ?ds SIZEOF_RELA = 24"
    by (simp_all add: dyn_val_def DT_RELA_def DT_RELASZ_def DT_RELAENT_def)
  have r: "rela_of demo_mem 0x2040 0 = \<lparr>r_offset = 0x100, r_info = 0x403, r_addend = 8\<rparr>" by code_simp
  have ok: "relocatable demo_mem 0x2000 0x2040 1"
  proof -
    have "\<not> in_rng 0x2040 24 a" if "in_rng 0x2100 8 a" for a by (rule in_rng_apart [OF _ _ that]) simp_all
    then show ?thesis by (simp add: relocatable_def in_target_def r)
  qed
  have "\<exists>m'. elf_process_relocations 0x2000 0x2000 demo_mem = Some m'
      \<and> relocated demo_mem 0x2000 (0x2000 + dyn_val DT_RELA ?ds 0) 1 m'"
    by (rule elf_relocations_correct [OF d]) (simp_all add: v ok [simplified])
  then show ?thesis
    using d v(1) r by (auto simp: v relocated_def relative_def R_AARCH64_RELATIVE_def intro!: exI [of _ ?ds])
qed

theorem elf_calc_size_covers_witness:
  "elf_validate demo_mem 0x1000 124 = 0 \<and> hdr_offset demo_mem 0x1000 1 < 2 ^ 31
   \<and> (\<exists>n. elf_calc_size demo_mem 0x1000 124 = Some n \<and> 8 \<le> unat n)"
proof -
  have "\<exists>(lo :: u64) n. elf_calc_size demo_mem 0x1000 124 = Some n
    \<and> (\<forall>i<phnum demo_mem 0x1000. p_type (phdr_of demo_mem 0x1000 i) = PT_LOAD \<longrightarrow>
         unat lo \<le> unat (p_vaddr (phdr_of demo_mem 0x1000 i))
         \<and> unat (p_vaddr (phdr_of demo_mem 0x1000 i)) + unat (p_memsz (phdr_of demo_mem 0x1000 i)) \<le> unat lo + unat n)"
    by (rule elf_calc_size_covers [OF demo_header(1)]) (simp_all add: demo_header hdr_offset_def demo_segment)
  then obtain lo :: u64 and n where "elf_calc_size demo_mem 0x1000 124 = Some n" "unat lo \<le> 0x400000" "0x400008 \<le> unat lo + unat n"
    by (auto simp: demo_header demo_segment PT_LOAD_def)
  then show ?thesis by (auto simp: demo_header hdr_offset_def)
qed

end
