(* ===== verification/Vmm.thy ===== *)
theory Vmm
  imports Pmm
begin

text \<open>
  The virtual memory manager, \<^verbatim>\<open>kernel/mm/vmm.c\<close>: ARM64 page tables with four levels of 512
  entries. Page tables are page-aligned, so the memory they live in is a map from the address
  of a table and an entry index to the 64-bit entry. The linker places \<^verbatim>\<open>kernel_pgd\<close> and
  \<^verbatim>\<open>early_tables\<close>; their addresses are fields of the state that no operation writes. The other
  tables are pages of the physical allocator (theory \<^verbatim>\<open>Pmm\<close>), at their physical addresses, as
  the code uses them. A \<^verbatim>\<open>struct mm_struct *\<close> and a \<^verbatim>\<open>struct vm_area *\<close> are indices into their
  static pools. The inline assembly is modelled by what the instructions do to the system
  registers and to the TLB, a partial map from page numbers to entries. Operations return an
  \<^typ>\<open>'a option\<close> because the page allocator does.
\<close>

section \<open>Entries and flags\<close>

definition VMM_LEVEL0_SHIFT :: nat where "VMM_LEVEL0_SHIFT = 39"
definition VMM_LEVEL1_SHIFT :: nat where "VMM_LEVEL1_SHIFT = 30"
definition VMM_LEVEL2_SHIFT :: nat where "VMM_LEVEL2_SHIFT = 21"
definition VMM_LEVEL3_SHIFT :: nat where "VMM_LEVEL3_SHIFT = 12"
definition VMM_ENTRIES :: int where "VMM_ENTRIES = 512"

definition PTE_VALID :: u64 where "PTE_VALID = push_bit 0 1"
definition PTE_TABLE :: u64 where "PTE_TABLE = push_bit 1 1"
definition PTE_BLOCK :: u64 where "PTE_BLOCK = push_bit 1 0"
definition PTE_PAGE :: u64 where "PTE_PAGE = push_bit 1 1"
definition PTE_USER :: u64 where "PTE_USER = push_bit 6 1"
definition PTE_RDONLY :: u64 where "PTE_RDONLY = push_bit 7 1"
definition PTE_ACCESSED :: u64 where "PTE_ACCESSED = push_bit 10 1"
definition PTE_ATTR_IDX :: "u64 \<Rightarrow> u64" where "PTE_ATTR_IDX n = push_bit 2 n"
definition PTE_ATTR_NORMAL :: u64 where "PTE_ATTR_NORMAL = PTE_ATTR_IDX 0"
definition PTE_ATTR_DEVICE :: u64 where "PTE_ATTR_DEVICE = PTE_ATTR_IDX 1"
definition PTE_SH_NONE :: u64 where "PTE_SH_NONE = push_bit 8 0"
definition PTE_SH_INNER :: u64 where "PTE_SH_INNER = push_bit 8 3"
definition PTE_UXN :: u64 where "PTE_UXN = push_bit 54 1"
definition PTE_PXN :: u64 where "PTE_PXN = push_bit 53 1"
definition PTE_ADDR_MASK :: u64 where "PTE_ADDR_MASK = 0x0000FFFFFFFFF000"

definition VM_WRITE :: u32 where "VM_WRITE = push_bit 1 1"
definition VM_EXEC :: u32 where "VM_EXEC = push_bit 2 1"
definition VM_USER :: u32 where "VM_USER = push_bit 3 1"
definition VM_DEVICE :: u32 where "VM_DEVICE = push_bit 5 1"

definition USER_VMA_END :: u64 where "USER_VMA_END = 0x0000800000000000"

section \<open>State\<close>

record vm_area =
  va_start :: u64
  va_end :: u64
  va_flags :: u32
  va_next :: "nat option"

record mm_struct =
  pgd :: u64
  vma_list :: "nat option"
  total_vm :: u64
  users :: int
  start_code :: u64
  end_code :: u64
  start_data :: u64
  end_data :: u64
  start_brk :: u64
  brk :: u64
  start_stack :: u64
  arg_start :: u64
  arg_end :: u64
  env_start :: u64
  env_end :: u64

datatype arch = ARCH_ARM64 | ARCH_X86_64 | ARCH_X86

record cpu =
  mair_el1 :: u64
  tcr_el1 :: u64
  ttbr0_el1 :: u64
  ttbr1_el1 :: u64
  sctlr_el1 :: u64
  cr3 :: u64
  tlb :: "u64 \<rightharpoonup> u64"

type_synonym tables = "u64 \<Rightarrow> int \<Rightarrow> u64"

record vmm =
  kernel_pgd :: u64
  early_tables :: u64
  early_table_index :: nat
  tabs :: tables
  frames :: pmm
  mm_pool :: "nat \<Rightarrow> mm_struct"
  mm_index :: nat
  vma_pool :: "nat \<Rightarrow> vm_area"
  vma_index :: nat
  cpu_regs :: cpu

definition EARLY_TABLES_COUNT :: nat where "EARLY_TABLES_COUNT = 4"
definition MM_POOL_SIZE :: nat where "MM_POOL_SIZE = 64"
definition VMA_POOL_SIZE :: nat where "VMA_POOL_SIZE = 256"

text \<open>\<^verbatim>\<open>early_tables[k]\<close>\<close>

definition early_table :: "vmm \<Rightarrow> nat \<Rightarrow> u64" where
  "early_table s k = early_tables s + of_nat k * PAGE_SIZE"

definition get_kernel_pgd :: "vmm \<Rightarrow> u64" where
  "get_kernel_pgd s = kernel_pgd s"

text \<open>\<^verbatim>\<open>table[idx] = e\<close>\<close>

definition set_entry :: "u64 \<Rightarrow> int \<Rightarrow> u64 \<Rightarrow> vmm \<Rightarrow> vmm" where
  "set_entry t i e s = s\<lparr>tabs := (tabs s)(t := (tabs s t)(i := e))\<rparr>"

definition upd_mm :: "nat \<Rightarrow> (mm_struct \<Rightarrow> mm_struct) \<Rightarrow> vmm \<Rightarrow> vmm" where
  "upd_mm i f s = s\<lparr>mm_pool := (mm_pool s)(i := f (mm_pool s i))\<rparr>"

section \<open>Helper functions\<close>

definition pte_index :: "u64 \<Rightarrow> nat \<Rightarrow> int" where
  "pte_index vaddr level =
     (if level = 0 then uint (drop_bit VMM_LEVEL0_SHIFT vaddr AND (of_int VMM_ENTRIES - 1))
      else if level = 1 then uint (drop_bit VMM_LEVEL1_SHIFT vaddr AND (of_int VMM_ENTRIES - 1))
      else if level = 2 then uint (drop_bit VMM_LEVEL2_SHIFT vaddr AND (of_int VMM_ENTRIES - 1))
      else if level = 3 then uint (drop_bit VMM_LEVEL3_SHIFT vaddr AND (of_int VMM_ENTRIES - 1))
      else -1)"

definition pte_is_valid :: "u64 \<Rightarrow> bool" where
  "pte_is_valid pte \<longleftrightarrow> pte AND PTE_VALID \<noteq> 0"

definition pte_is_table :: "u64 \<Rightarrow> bool" where
  "pte_is_table pte \<longleftrightarrow> pte AND (PTE_VALID OR PTE_TABLE) = PTE_VALID OR PTE_TABLE"

definition pte_to_phys :: "u64 \<Rightarrow> u64" where
  "pte_to_phys pte = pte AND PTE_ADDR_MASK"

definition phys_to_pte :: "u64 \<Rightarrow> u64 \<Rightarrow> u64" where
  "phys_to_pte paddr flags = (paddr AND PTE_ADDR_MASK) OR flags"

definition vm_flags_to_pte :: "u32 \<Rightarrow> u64" where
  "vm_flags_to_pte flags =
     (let pte_flags = PTE_VALID OR PTE_TABLE OR PTE_ACCESSED;
          pte_flags = (if flags AND VM_DEVICE \<noteq> 0 then pte_flags OR (PTE_ATTR_DEVICE OR PTE_SH_NONE)
                       else pte_flags OR (PTE_ATTR_NORMAL OR PTE_SH_INNER));
          pte_flags = (if flags AND VM_USER \<noteq> 0 then pte_flags OR PTE_USER else pte_flags);
          pte_flags = (if flags AND VM_WRITE = 0 then pte_flags OR PTE_RDONLY else pte_flags)
      in if flags AND VM_EXEC = 0
         then (if flags AND VM_USER \<noteq> 0 then pte_flags OR PTE_UXN else pte_flags OR PTE_PXN)
         else pte_flags)"

text \<open>The loop that clears the 512 entries of a table.\<close>

definition zero_table :: "u64 \<Rightarrow> vmm \<Rightarrow> vmm" where
  "zero_table t s =
     s\<lparr>tabs := (tabs s)(t := (\<lambda>i. if 0 \<le> i \<and> i < VMM_ENTRIES then 0 else tabs s t i))\<rparr>"

definition alloc_page_table :: "vmm \<Rightarrow> (u64 \<times> vmm) option" where
  "alloc_page_table s =
     (if early_table_index s < EARLY_TABLES_COUNT then
        (let table = early_table s (early_table_index s) in
         Some (table, zero_table table (s\<lparr>early_table_index := early_table_index s + 1\<rparr>)))
      else do {
        (paddr, fr) \<leftarrow> pmm_alloc_page (frames s);
        let s = s\<lparr>frames := fr\<rparr>;
        if paddr = 0 then Some (0, s) else Some (paddr, zero_table paddr s) })"

section \<open>Page table walking\<close>

function walk_from :: "nat \<Rightarrow> u64 \<Rightarrow> u64 \<Rightarrow> bool \<Rightarrow> vmm \<Rightarrow> (u64 \<times> vmm) option" where
  "walk_from level table vaddr allocate s =
     (if level < 3 then
        (let idx = pte_index vaddr level; pte = tabs s table idx in
         if \<not> pte_is_valid pte then
           (if \<not> allocate then Some (0, s)
            else (case alloc_page_table s of
                    None \<Rightarrow> None
                  | Some (new_table, s) \<Rightarrow>
                      if new_table = 0 then Some (0, s)
                      else walk_from (Suc level) new_table vaddr allocate
                             (set_entry table idx (phys_to_pte new_table (PTE_VALID OR PTE_TABLE)) s)))
         else if pte_is_table pte then walk_from (Suc level) (pte_to_phys pte) vaddr allocate s
         else Some (0, s))
      else Some (table, s))"
  by pat_completeness auto
termination
  by (relation "measure (\<lambda>(level, table, vaddr, allocate, s). 3 - level)") auto

declare walk_from.simps [simp del]

definition walk_page_table :: "u64 \<Rightarrow> u64 \<Rightarrow> bool \<Rightarrow> vmm \<Rightarrow> (u64 \<times> vmm) option" where
  "walk_page_table root vaddr allocate s = walk_from 0 root vaddr allocate s"

section \<open>Translation look-aside buffer\<close>

definition vmm_flush_tlb :: "vmm \<Rightarrow> vmm" where
  "vmm_flush_tlb s = s\<lparr>cpu_regs := (cpu_regs s)\<lparr>tlb := Map.empty\<rparr>\<rparr>"

definition vmm_flush_tlb_page :: "u64 \<Rightarrow> vmm \<Rightarrow> vmm" where
  "vmm_flush_tlb_page vaddr s =
     s\<lparr>cpu_regs := (cpu_regs s)\<lparr>tlb := (tlb (cpu_regs s))(drop_bit 12 vaddr := None)\<rparr>\<rparr>"

section \<open>Initialisation\<close>

definition MAIR_VALUE :: u64 where
  "MAIR_VALUE = push_bit 0 0xFF OR push_bit 8 0x00 OR push_bit 16 0x44"

definition TCR_VALUE :: u64 where
  "TCR_VALUE = push_bit 0 16 OR push_bit 16 16 OR push_bit 14 0 OR push_bit 30 2 OR push_bit 8 1
     OR push_bit 10 1 OR push_bit 12 3 OR push_bit 24 1 OR push_bit 26 1 OR push_bit 28 3
     OR push_bit 32 5"

text \<open>The register writes before and after the tables are built.\<close>

definition set_attributes :: "arch \<Rightarrow> cpu \<Rightarrow> cpu" where
  "set_attributes ar c =
     (case ar of ARCH_ARM64 \<Rightarrow> c\<lparr>mair_el1 := MAIR_VALUE, tcr_el1 := TCR_VALUE\<rparr> | _ \<Rightarrow> c)"

definition load_tables :: "arch \<Rightarrow> u64 \<Rightarrow> cpu \<Rightarrow> cpu" where
  "load_tables ar root c =
     (case ar of
        ARCH_ARM64 \<Rightarrow> c\<lparr>ttbr0_el1 := root, ttbr1_el1 := root,
                        sctlr_el1 := sctlr_el1 c OR push_bit 0 1 OR push_bit 2 1 OR push_bit 12 1\<rparr>
      | ARCH_X86_64 \<Rightarrow> c\<lparr>cr3 := root, tlb := Map.empty\<rparr>
      | ARCH_X86 \<Rightarrow> c\<lparr>cr3 := ucast (ucast root :: u32), tlb := Map.empty\<rparr>)"

definition vmm_init :: "arch \<Rightarrow> vmm \<Rightarrow> (int \<times> vmm) option" where
  "vmm_init ar s =
     (if ar = ARCH_X86_64 then Some (0, s)
      else
        (let s = s\<lparr>cpu_regs := set_attributes ar (cpu_regs s)\<rparr>;
             idx0 = pte_index 0 0 in
         do { (l1, s) \<leftarrow> alloc_page_table s;
              if l1 = 0 then Some (-1, s)
              else
                (let s = set_entry (kernel_pgd s) idx0 (phys_to_pte l1 (PTE_VALID OR PTE_TABLE)) s;
                     s = set_entry l1 0 ((0 AND PTE_ADDR_MASK) OR PTE_VALID OR PTE_BLOCK
                           OR PTE_ATTR_DEVICE OR PTE_SH_NONE OR PTE_ACCESSED) s;
                     s = set_entry l1 1 ((0x40000000 AND PTE_ADDR_MASK) OR PTE_VALID OR PTE_BLOCK
                           OR PTE_ATTR_NORMAL OR PTE_SH_INNER OR PTE_ACCESSED) s;
                     s = set_entry l1 256 ((0x4000000000 AND PTE_ADDR_MASK) OR PTE_VALID OR PTE_BLOCK
                           OR PTE_ATTR_DEVICE OR PTE_SH_NONE OR PTE_ACCESSED) s
                 in Some (0, s\<lparr>cpu_regs := load_tables ar (kernel_pgd s) (cpu_regs s)\<rparr>)) }))"

section \<open>Kernel mappings\<close>

definition vmm_map_page :: "u64 \<Rightarrow> u64 \<Rightarrow> u32 \<Rightarrow> vmm \<Rightarrow> (int \<times> vmm) option" where
  "vmm_map_page vaddr paddr flags s =
     do { (pte_table, s) \<leftarrow> walk_page_table (kernel_pgd s) vaddr True s;
          if pte_table = 0 then Some (-1, s)
          else
            (let idx = pte_index vaddr 3 in
             if pte_is_valid (tabs s pte_table idx) then Some (-1, s)
             else
               (let pte_flags = vm_flags_to_pte flags;
                    s = set_entry pte_table idx (phys_to_pte paddr pte_flags) s
                in Some (0, vmm_flush_tlb_page vaddr s))) }"

definition vmm_unmap_page :: "u64 \<Rightarrow> vmm \<Rightarrow> (int \<times> vmm) option" where
  "vmm_unmap_page vaddr s =
     do { (pte_table, s) \<leftarrow> walk_page_table (kernel_pgd s) vaddr False s;
          if pte_table = 0 then Some (-1, s)
          else
            (let idx = pte_index vaddr 3 in
             if \<not> pte_is_valid (tabs s pte_table idx) then Some (-1, s)
             else Some (0, vmm_flush_tlb_page vaddr (set_entry pte_table idx 0 s))) }"

partial_function (option) unmap_loop :: "u64 \<Rightarrow> u64 \<Rightarrow> u64 \<Rightarrow> vmm \<Rightarrow> vmm option" where
  "unmap_loop vaddr sz offset s =
     (if offset < sz
      then do { (ret, s) \<leftarrow> vmm_unmap_page (vaddr + offset) s;
                unmap_loop vaddr sz (offset + PAGE_SIZE) s }
      else Some s)"

definition vmm_unmap_range :: "u64 \<Rightarrow> u64 \<Rightarrow> vmm \<Rightarrow> (int \<times> vmm) option" where
  "vmm_unmap_range vaddr sz s =
     do { s \<leftarrow> unmap_loop (PAGE_ALIGN_DOWN vaddr) (PAGE_ALIGN sz) 0 s; Some (0, s) }"

partial_function (option) map_loop ::
  "u64 \<Rightarrow> u64 \<Rightarrow> u64 \<Rightarrow> u32 \<Rightarrow> u64 \<Rightarrow> vmm \<Rightarrow> (int \<times> vmm) option" where
  "map_loop vaddr paddr sz flags offset s =
     (if offset < sz
      then do { (ret, s) \<leftarrow> vmm_map_page (vaddr + offset) (paddr + offset) flags s;
                if ret < 0
                then do { (_, s) \<leftarrow> vmm_unmap_range vaddr offset s; Some (ret, s) }
                else map_loop vaddr paddr sz flags (offset + PAGE_SIZE) s }
      else Some (0, s))"

definition vmm_map_range :: "u64 \<Rightarrow> u64 \<Rightarrow> u64 \<Rightarrow> u32 \<Rightarrow> vmm \<Rightarrow> (int \<times> vmm) option" where
  "vmm_map_range vaddr paddr sz flags s =
     map_loop (PAGE_ALIGN_DOWN vaddr) (PAGE_ALIGN_DOWN paddr) (PAGE_ALIGN sz) flags 0 s"

definition vmm_virt_to_phys :: "u64 \<Rightarrow> vmm \<Rightarrow> u64 option" where
  "vmm_virt_to_phys vaddr s =
     do { (pte_table, s) \<leftarrow> walk_page_table (kernel_pgd s) vaddr False s;
          if pte_table = 0 then Some 0
          else
            (let pte = tabs s pte_table (pte_index vaddr 3) in
             if \<not> pte_is_valid pte then Some 0
             else Some (pte_to_phys pte OR (vaddr AND (PAGE_SIZE - 1)))) }"

section \<open>Address spaces\<close>

definition vmm_create_address_space :: "vmm \<Rightarrow> (nat option \<times> vmm) option" where
  "vmm_create_address_space s =
     (if mm_index s \<ge> MM_POOL_SIZE then Some (None, s)
      else
        (let mm = mm_index s; s = s\<lparr>mm_index := mm + 1\<rparr> in
         do { (t, s) \<leftarrow> alloc_page_table s;
              let s = upd_mm mm (\<lambda>m. m\<lparr>pgd := t\<rparr>) s;
              if t = 0 then Some (None, s)
              else
                (let s = upd_mm mm (\<lambda>m. m\<lparr>vma_list := None, total_vm := 0, users := 1\<rparr>) s;
                     s = s\<lparr>tabs := (tabs s)(t := (\<lambda>i. if VMM_ENTRIES div 2 \<le> i \<and> i < VMM_ENTRIES
                                                   then tabs s (kernel_pgd s) i else tabs s t i))\<rparr>
                 in Some (Some mm, s)) }))"

text \<open>The loop over the VM areas frees nothing, so it has no effect on the state.\<close>

definition vmm_destroy_address_space :: "nat option \<Rightarrow> vmm \<Rightarrow> vmm" where
  "vmm_destroy_address_space mm s =
     (case mm of
        None \<Rightarrow> s
      | Some i \<Rightarrow>
          (let t = pgd (mm_pool s i);
               s = (if t \<noteq> 0
                    then s\<lparr>tabs := (tabs s)(t := (\<lambda>j. if 0 \<le> j \<and> j < VMM_ENTRIES div 2 then 0
                                                   else tabs s t j))\<rparr>
                    else s)
           in upd_mm i (\<lambda>m. m\<lparr>pgd := 0, vma_list := None\<rparr>) s))"

text \<open>One level of the walk of \<^verbatim>\<open>vmm_map_user_page\<close>: \<^term>\<open>None\<close> inside when no table can be
  allocated.\<close>

definition user_table :: "u64 \<Rightarrow> int \<Rightarrow> vmm \<Rightarrow> (u64 option \<times> vmm) option" where
  "user_table t idx s =
     (if tabs s t idx AND PTE_VALID = 0 then
        do { (n, s) \<leftarrow> alloc_page_table s;
             if n = 0 then Some (None, s)
             else (let s = set_entry t idx ((n AND PTE_ADDR_MASK) OR PTE_VALID OR PTE_TABLE) s
                   in Some (Some (tabs s t idx AND PTE_ADDR_MASK), s)) }
      else Some (Some (tabs s t idx AND PTE_ADDR_MASK), s))"

definition user_pte_flags :: "u32 \<Rightarrow> u64" where
  "user_pte_flags flags =
     (let pte_flags = PTE_VALID OR PTE_PAGE OR PTE_USER OR PTE_ATTR_NORMAL OR PTE_SH_INNER OR PTE_ACCESSED;
          pte_flags = (if flags AND VM_WRITE = 0 then pte_flags OR PTE_RDONLY else pte_flags);
          pte_flags = (if flags AND VM_EXEC = 0 then pte_flags OR PTE_UXN else pte_flags)
      in pte_flags OR PTE_PXN)"

definition vmm_map_user_page ::
  "nat option \<Rightarrow> u64 \<Rightarrow> u64 \<Rightarrow> u32 \<Rightarrow> vmm \<Rightarrow> (int \<times> vmm) option" where
  "vmm_map_user_page mm vaddr paddr flags s =
     (case mm of
        None \<Rightarrow> Some (-1, s)
      | Some i \<Rightarrow>
          if pgd (mm_pool s i) = 0 then Some (-1, s)
          else if USER_VMA_END \<le> vaddr then Some (-1, s)
          else do {
            (l1, s) \<leftarrow> user_table (pgd (mm_pool s i)) (pte_index vaddr 0) s;
            case l1 of None \<Rightarrow> Some (-1, s) | Some l1 \<Rightarrow> do {
            (l2, s) \<leftarrow> user_table l1 (pte_index vaddr 1) s;
            case l2 of None \<Rightarrow> Some (-1, s) | Some l2 \<Rightarrow> do {
            (l3, s) \<leftarrow> user_table l2 (pte_index vaddr 2) s;
            case l3 of None \<Rightarrow> Some (-1, s) | Some l3 \<Rightarrow>
              Some (0, set_entry l3 (pte_index vaddr 3)
                         ((paddr AND PTE_ADDR_MASK) OR user_pte_flags flags) s) }}})"

definition vmm_add_vma :: "nat option \<Rightarrow> u64 \<Rightarrow> u64 \<Rightarrow> u32 \<Rightarrow> vmm \<Rightarrow> int \<times> vmm" where
  "vmm_add_vma mm start stop flags s =
     (case mm of
        None \<Rightarrow> (-1, s)
      | Some i \<Rightarrow>
          if vma_index s \<ge> VMA_POOL_SIZE then (-1, s)
          else
            (let v = vma_index s;
                 s = s\<lparr>vma_index := v + 1,
                       vma_pool := (vma_pool s)(v := \<lparr>va_start = start, va_end = stop, va_flags = flags,
                                                      va_next = vma_list (mm_pool s i)\<rparr>)\<rparr>
             in (0, upd_mm i (\<lambda>m. m\<lparr>vma_list := Some v, total_vm := total_vm m + (stop - start)\<rparr>) s)))"

partial_function (option) find_vma_from :: "vmm \<Rightarrow> u64 \<Rightarrow> nat option \<Rightarrow> nat option option" where
  "find_vma_from s addr vma =
     (case vma of
        None \<Rightarrow> Some None
      | Some v \<Rightarrow>
          if va_start (vma_pool s v) \<le> addr \<and> addr < va_end (vma_pool s v) then Some (Some v)
          else find_vma_from s addr (va_next (vma_pool s v)))"

definition vmm_find_vma :: "nat option \<Rightarrow> u64 \<Rightarrow> vmm \<Rightarrow> nat option option" where
  "vmm_find_vma mm addr s =
     (case mm of None \<Rightarrow> Some None | Some i \<Rightarrow> find_vma_from s addr (vma_list (mm_pool s i)))"

partial_function (option) user_range_loop ::
  "nat option \<Rightarrow> u64 \<Rightarrow> u64 \<Rightarrow> u32 \<Rightarrow> vmm \<Rightarrow> (int \<times> vmm) option" where
  "user_range_loop mm addr stop flags s =
     (if addr < stop
      then do { (paddr, fr) \<leftarrow> pmm_alloc_page (frames s);
                let s = s\<lparr>frames := fr\<rparr>;
                if paddr = 0 then Some (-1, s)
                else do {
                  (ret, s) \<leftarrow> vmm_map_user_page mm addr paddr flags s;
                  if ret \<noteq> 0
                  then do { fr \<leftarrow> pmm_free_page paddr (frames s); Some (ret, s\<lparr>frames := fr\<rparr>) }
                  else user_range_loop mm (addr + PAGE_SIZE) stop flags s }}
      else Some (0, s))"

definition vmm_map_user_range :: "nat option \<Rightarrow> u64 \<Rightarrow> u64 \<Rightarrow> u32 \<Rightarrow> vmm \<Rightarrow> (int \<times> vmm) option" where
  "vmm_map_user_range mm vaddr sz flags s =
     (if mm = None then Some (-1, s)
      else
        (let stop = (vaddr + sz + PAGE_SIZE - 1) AND NOT (PAGE_SIZE - 1);
             vaddr = vaddr AND NOT (PAGE_SIZE - 1);
             (_, s) = vmm_add_vma mm vaddr stop flags s
         in user_range_loop mm vaddr stop flags s))"

definition vmm_switch_address_space :: "arch \<Rightarrow> nat option \<Rightarrow> vmm \<Rightarrow> vmm" where
  "vmm_switch_address_space ar mm s =
     (case mm of
        None \<Rightarrow> s
      | Some i \<Rightarrow>
          (let root = pgd (mm_pool s i) in
           if root = 0 then s
           else
             vmm_flush_tlb (s\<lparr>cpu_regs :=
               (case ar of
                  ARCH_ARM64 \<Rightarrow> (cpu_regs s)\<lparr>ttbr0_el1 := root\<rparr>
                | ARCH_X86_64 \<Rightarrow> (cpu_regs s)\<lparr>cr3 := root\<rparr>
                | ARCH_X86 \<Rightarrow> (cpu_regs s)\<lparr>cr3 := ucast (ucast root :: u32)\<rparr>)\<rparr>)))"

section \<open>Bits of an entry\<close>

lemmas pte_bit_defs = PTE_VALID_def PTE_TABLE_def PTE_BLOCK_def PTE_PAGE_def PTE_USER_def
  PTE_RDONLY_def PTE_ACCESSED_def PTE_ATTR_IDX_def PTE_ATTR_NORMAL_def PTE_ATTR_DEVICE_def
  PTE_SH_NONE_def PTE_SH_INNER_def PTE_UXN_def PTE_PXN_def PTE_ADDR_MASK_def

lemma PTE_ADDR_MASK_eq: "PTE_ADDR_MASK = push_bit 12 (mask 36)"
  by (simp add: PTE_ADDR_MASK_def mask_eq_exp_minus_1 push_bit_eq_mult)

lemma bit_PTE_ADDR_MASK: "bit PTE_ADDR_MASK n \<longleftrightarrow> 12 \<le> n \<and> n < 48"
  by (auto simp: PTE_ADDR_MASK_eq bit_simps)

lemma pte_is_valid_bit: "pte_is_valid e \<longleftrightarrow> bit e 0"
  using and_push_bit_1_eq_0 [of e 0] by (simp add: pte_is_valid_def PTE_VALID_def)

lemma pte_is_table_bit: "pte_is_table e \<longleftrightarrow> bit e 0 \<and> bit e 1"
proof -
  have "PTE_VALID OR PTE_TABLE = mask 2"
    by (simp add: PTE_VALID_def PTE_TABLE_def push_bit_of_1 mask_eq_exp_minus_1)
  then have "pte_is_table e \<longleftrightarrow> take_bit 2 e = mask 2"
    by (simp add: pte_is_table_def take_bit_eq_mask)
  also have "\<dots> \<longleftrightarrow> (\<forall>n<2. bit e n)"
  proof
    assume eq: "take_bit 2 e = mask 2"
    show "\<forall>n<2. bit e n"
    proof (intro allI impI)
      fix n :: nat assume "n < 2"
      then have "bit (take_bit 2 e) n" by (simp add: eq bit_mask_iff)
      then show "bit e n" by (simp add: bit_take_bit_iff)
    qed
  next
    assume "\<forall>n<2. bit e n"
    then show "take_bit 2 e = mask 2" by (intro bit_word_eqI) (auto simp: bit_simps)
  qed
  also have "\<dots> \<longleftrightarrow> bit e 0 \<and> bit e 1" by (auto simp: less_2_cases_iff)
  finally show ?thesis .
qed

lemma pte_zero [simp]: "\<not> pte_is_valid 0" "\<not> pte_is_table 0"
  by (simp_all add: pte_is_valid_bit pte_is_table_bit)

lemma pte_table_valid: "pte_is_table e \<Longrightarrow> pte_is_valid e"
  by (simp add: pte_is_valid_bit pte_is_table_bit)

text \<open>The address of a table fits the address field of an entry.\<close>

definition addr_ok :: "u64 \<Rightarrow> bool" where
  "addr_ok a \<longleftrightarrow> a \<noteq> 0 \<and> a AND PTE_ADDR_MASK = a"

lemma table_entry:
  assumes "addr_ok n"
  shows "pte_is_table (phys_to_pte n (PTE_VALID OR PTE_TABLE))"
    and "pte_to_phys (phys_to_pte n (PTE_VALID OR PTE_TABLE)) = n"
proof -
  show "pte_is_table (phys_to_pte n (PTE_VALID OR PTE_TABLE))"
    by (simp add: pte_is_table_bit phys_to_pte_def bit_or_iff PTE_VALID_def PTE_TABLE_def bit_push_bit_iff)
  have "(PTE_VALID OR PTE_TABLE) AND PTE_ADDR_MASK = 0" by (simp add: pte_bit_defs)
  moreover have "n AND PTE_ADDR_MASK = n" using assms by (simp add: addr_ok_def)
  ultimately show "pte_to_phys (phys_to_pte n (PTE_VALID OR PTE_TABLE)) = n"
    by (simp add: pte_to_phys_def phys_to_pte_def bit.conj_disj_distrib2)
qed

lemma vm_flags_to_pte_bits:
  "vm_flags_to_pte flags AND PTE_ADDR_MASK = 0" "bit (vm_flags_to_pte flags) 0"
  by (simp_all add: vm_flags_to_pte_def Let_def pte_bit_defs)

lemma user_pte_flags_bits:
  "user_pte_flags flags AND PTE_ADDR_MASK = 0" "bit (user_pte_flags flags) 0"
  by (simp_all add: user_pte_flags_def Let_def pte_bit_defs)

lemma leaf_entry:
  assumes "fl AND PTE_ADDR_MASK = 0" and "bit fl 0"
  shows "pte_is_valid ((p AND PTE_ADDR_MASK) OR fl)"
    and "pte_to_phys ((p AND PTE_ADDR_MASK) OR fl) = p AND PTE_ADDR_MASK"
  using assms by (simp_all add: pte_is_valid_bit bit_or_iff pte_to_phys_def bit.conj_disj_distrib2 and.assoc)

section \<open>Entry indices\<close>

text \<open>The number of the page that an address selects: bits 12 to 47, the only ones the walk
  reads.\<close>

definition vpn :: "u64 \<Rightarrow> nat" where
  "vpn v = unat v div 4096 mod 2 ^ 36"

lemma pte_index_shift:
  "uint (drop_bit n v AND (of_int VMM_ENTRIES - 1)) = int (unat v div 2 ^ n mod 512)" for v :: u64
proof -
  have "(of_int VMM_ENTRIES - 1 :: u64) = mask 9" by (simp add: VMM_ENTRIES_def mask_eq_exp_minus_1)
  then have "uint (drop_bit n v AND (of_int VMM_ENTRIES - 1)) = uint (take_bit 9 (drop_bit n v))"
    by (simp add: take_bit_eq_mask)
  also have "\<dots> = take_bit 9 (uint (drop_bit n v))" by (simp add: unsigned_take_bit_eq)
  also have "\<dots> = int (unat (drop_bit n v)) mod 512" by (simp add: take_bit_eq_mod)
  also have "\<dots> = int (unat v div 2 ^ n mod 512)" by (simp add: unat_drop_bit zmod_int)
  finally show ?thesis .
qed

lemma vpn_bits: "vpn v = take_bit 36 (drop_bit 12 (unat v))"
  by (simp add: vpn_def take_bit_eq_mod drop_bit_eq_div)

lemma nat_field:
  "m + k \<le> 36 \<Longrightarrow> take_bit m (drop_bit k (take_bit 36 (drop_bit 12 x))) = take_bit m (drop_bit (12 + k) x)"
  for x :: nat
  by (rule bit_eqI) (auto simp: bit_simps ac_simps)

lemma pte_index_field: "k + 9 \<le> 36 \<Longrightarrow>
   uint (drop_bit (12 + k) v AND (of_int VMM_ENTRIES - 1)) = int (vpn v div 2 ^ k mod 512)"
  using nat_field [of 9 k "unat v"] unfolding pte_index_shift vpn_bits
  by (simp add: take_bit_eq_mod drop_bit_eq_div)

lemma vpn_less: "vpn v < 2 ^ 36"
  by (simp add: vpn_def)

lemma pte_index_vpn:
  "pte_index v 0 = int (vpn v div 2 ^ 27)" "pte_index v 1 = int (vpn v div 2 ^ 18 mod 512)"
  "pte_index v 2 = int (vpn v div 2 ^ 9 mod 512)" "pte_index v 3 = int (vpn v mod 512)"
proof -
  have "vpn v div 2 ^ 27 < 512" using vpn_less [of v] by (simp add: less_mult_imp_div_less)
  then show "pte_index v 0 = int (vpn v div 2 ^ 27)"
    using pte_index_field [of 27 v] by (simp add: pte_index_def VMM_LEVEL0_SHIFT_def)
  show "pte_index v 1 = int (vpn v div 2 ^ 18 mod 512)"
    using pte_index_field [of 18 v] by (simp add: pte_index_def VMM_LEVEL1_SHIFT_def)
  show "pte_index v 2 = int (vpn v div 2 ^ 9 mod 512)"
    using pte_index_field [of 9 v] by (simp add: pte_index_def VMM_LEVEL2_SHIFT_def)
  show "pte_index v 3 = int (vpn v mod 512)"
    using pte_index_field [of 0 v] by (simp add: pte_index_def VMM_LEVEL3_SHIFT_def)
qed

lemma pte_index_range: "level < 4 \<Longrightarrow> 0 \<le> pte_index v level \<and> pte_index v level < VMM_ENTRIES"
proof -
  assume "level < 4"
  then consider "level = 0" | "level = 1" | "level = 2" | "level = 3" by linarith
  moreover have "vpn v div 2 ^ 27 < 512" using vpn_less [of v] by (simp add: less_mult_imp_div_less)
  ultimately show ?thesis
    by cases (simp_all only: pte_index_vpn VMM_ENTRIES_def, auto)
qed

text \<open>The indices of the three upper levels, the path to the last table.\<close>

definition path :: "u64 \<Rightarrow> int list" where
  "path v = [pte_index v 0, pte_index v 1, pte_index v 2]"

lemma path_vpn: "path v = path w \<and> pte_index v 3 = pte_index w 3 \<longleftrightarrow> vpn v = vpn w"
proof
  assume a: "path v = path w \<and> pte_index v 3 = pte_index w 3"
  have eq: "x = x div 2 ^ 27 * 2 ^ 27 + (x div 2 ^ 18 mod 512) * 2 ^ 18 + (x div 2 ^ 9 mod 512) * 2 ^ 9
      + x mod 512" for x :: nat
  proof -
    have "x = x div 2 ^ 9 * 2 ^ 9 + x mod 512" by simp
    also have "x div 2 ^ 9 = x div 2 ^ 9 div 512 * 512 + x div 2 ^ 9 mod 512" by simp
    also have "x div 2 ^ 9 div 512 = x div 2 ^ 18" by (simp add: div_mult2_eq [symmetric])
    also have "x div 2 ^ 18 = x div 2 ^ 18 div 512 * 512 + x div 2 ^ 18 mod 512" by simp
    also have "x div 2 ^ 18 div 512 = x div 2 ^ 27" by (simp add: div_mult2_eq [symmetric])
    finally show ?thesis by (simp add: algebra_simps)
  qed
  have "vpn v div 2 ^ 27 = vpn w div 2 ^ 27" "vpn v div 2 ^ 18 mod 512 = vpn w div 2 ^ 18 mod 512"
    "vpn v div 2 ^ 9 mod 512 = vpn w div 2 ^ 9 mod 512" "vpn v mod 512 = vpn w mod 512"
    using a unfolding path_def pte_index_vpn by simp_all
  then show "vpn v = vpn w" by (metis eq [of "vpn v"] eq [of "vpn w"])
next
  assume "vpn v = vpn w"
  then show "path v = path w \<and> pte_index v 3 = pte_index w 3"
    by (simp only: path_def pte_index_vpn)
qed

lemma user_index: "v < USER_VMA_END \<Longrightarrow> pte_index v 0 < 256"
proof -
  assume "v < USER_VMA_END"
  then have "unat v < 2 ^ 47" by (simp add: word_less_nat_alt USER_VMA_END_def)
  then have "unat v div 4096 < 2 ^ 35" by (simp add: less_mult_imp_div_less)
  then have "vpn v < 2 ^ 35" using mod_less_eq_dividend [of "unat v div 4096" "2 ^ 36"] by (simp add: vpn_def)
  then have "vpn v div 2 ^ 27 < 256" by (simp add: less_mult_imp_div_less)
  then show ?thesis by (simp add: pte_index_vpn)
qed

section \<open>The tree of page tables\<close>

text \<open>The table that a path of indices leads to from a root.\<close>

fun tab :: "tables \<Rightarrow> u64 \<Rightarrow> int list \<Rightarrow> u64 option" where
  "tab m a [] = Some a"
| "tab m a (i # is) = (if pte_is_table (m a i) then tab m (pte_to_phys (m a i)) is else None)"

lemma tab_append: "tab m a (p @ q) = (case tab m a p of None \<Rightarrow> None | Some b \<Rightarrow> tab m b q)"
  by (induction p arbitrary: a) auto

lemma tab_agree:
  assumes "\<And>q j x b. p = q @ j # x \<Longrightarrow> tab m a q = Some b \<Longrightarrow> m' b j = m b j"
  shows "tab m' a p = tab m a p"
  using assms
proof (induction p arbitrary: a)
  case (Cons i p)
  have eq: "m' a i = m a i" using Cons.prems [of "[]" i p a] by simp
  show ?case
  proof (cases "pte_is_table (m a i)")
    case True
    have "tab m' (pte_to_phys (m a i)) p = tab m (pte_to_phys (m a i)) p"
    proof (rule Cons.IH)
      fix q j x b assume "p = q @ j # x" and "tab m (pte_to_phys (m a i)) q = Some b"
      then show "m' b j = m b j" using Cons.prems [of "i # q" j x b] True by simp
    qed
    then show ?thesis by (simp add: eq)
  qed (simp add: eq)
qed simp

text \<open>Roots are the kernel's table (\<^term>\<open>None\<close>) and the tables of the live address spaces. An
  address space owns the lower half of its root: the upper half shares the kernel's tables.\<close>

definition root_of :: "vmm \<Rightarrow> nat option \<Rightarrow> u64 option" where
  "root_of s r =
     (case r of
        None \<Rightarrow> Some (kernel_pgd s)
      | Some i \<Rightarrow> if i < mm_index s \<and> pgd (mm_pool s i) \<noteq> 0 then Some (pgd (mm_pool s i)) else None)"

definition own :: "nat option \<Rightarrow> int list \<Rightarrow> bool" where
  "own r p \<longleftrightarrow> length p \<le> 3 \<and> set p \<subseteq> {0..<VMM_ENTRIES} \<and> (r \<noteq> None \<longrightarrow> p \<noteq> [] \<longrightarrow> hd p < VMM_ENTRIES div 2)"

definition node :: "vmm \<Rightarrow> nat option \<Rightarrow> int list \<Rightarrow> u64 option" where
  "node s r p = (case root_of s r of None \<Rightarrow> None | Some a \<Rightarrow> tab (tabs s) a p)"

text \<open>The entry that maps an address, if the address is mapped by a page.\<close>

definition lookup :: "vmm \<Rightarrow> nat option \<Rightarrow> u64 \<Rightarrow> u64 option" where
  "lookup s r v =
     (case node s r (path v) of
        None \<Rightarrow> None
      | Some t \<Rightarrow> if pte_is_valid (tabs s t (pte_index v 3)) then Some (tabs s t (pte_index v 3)) else None)"

text \<open>A block entry on the way to an address: the walk gives up there.\<close>

definition blocked :: "vmm \<Rightarrow> u64 \<Rightarrow> bool" where
  "blocked s v \<longleftrightarrow> (\<exists>l<3. \<exists>t. node s None (take l (path v)) = Some t
     \<and> pte_is_valid (tabs s t (pte_index v l)) \<and> \<not> pte_is_table (tabs s t (pte_index v l)))"

text \<open>Addresses whose mapping belongs to an address space.\<close>

definition owned_addr :: "nat option \<Rightarrow> u64 \<Rightarrow> bool" where
  "owned_addr r v \<longleftrightarrow> (r \<noteq> None \<longrightarrow> v < USER_VMA_END)"

text \<open>Tables that \<^verbatim>\<open>alloc_page_table\<close> may still hand out.\<close>

definition avail :: "vmm \<Rightarrow> u64 set" where
  "avail s = early_table s ` {early_table_index s..<EARLY_TABLES_COUNT} \<union> page_addr ` free_set (frames s)"

definition pool_ok :: "vmm \<Rightarrow> bool" where
  "pool_ok s \<longleftrightarrow> pmm_inv (frames s) \<and> inj_on (early_table s) {..<EARLY_TABLES_COUNT}
     \<and> (\<forall>k < EARLY_TABLES_COUNT. addr_ok (early_table s k) \<and> early_table s k \<notin> page_addr ` free_set (frames s))"

text \<open>The invariant: no table of a tree can be handed out again, no table is in two places, and
  the trees of the address spaces hold no block entries.\<close>

definition vm_inv :: "vmm \<Rightarrow> bool" where
  "vm_inv s \<longleftrightarrow> pool_ok s
     \<and> (\<forall>r p a. own r p \<longrightarrow> node s r p = Some a \<longrightarrow> a \<notin> avail s \<and> a \<noteq> 0)
     \<and> (\<forall>r p r' p' a. own r p \<longrightarrow> own r' p' \<longrightarrow> node s r p = Some a \<longrightarrow> node s r' p' = Some a
            \<longrightarrow> r = r' \<and> p = p')
     \<and> (\<forall>i p j a. own (Some i) (p @ [j]) \<longrightarrow> node s (Some i) p = Some a \<longrightarrow> pte_is_valid (tabs s a j)
            \<longrightarrow> pte_is_table (tabs s a j))"

lemma ownD: "own r (p @ q) \<Longrightarrow> own r p"
  by (auto simp: own_def hd_append split: if_splits)

lemma own_path: "owned_addr r v \<Longrightarrow> own r (path v)"
  using pte_index_range [of 0 v] pte_index_range [of 1 v] pte_index_range [of 2 v] user_index [of v]
  by (auto simp: own_def path_def owned_addr_def VMM_ENTRIES_def)

lemma own_take: "own None (take l (path v))"
  using ownD [of None "take l (path v)" "drop l (path v)"] own_path [of None v] by (simp add: owned_addr_def)

lemma vm_invD:
  assumes "vm_inv s"
  shows "pool_ok s"
    and "\<And>r p a. own r p \<Longrightarrow> node s r p = Some a \<Longrightarrow> a \<notin> avail s \<and> a \<noteq> 0"
    and "\<And>r p r' p' a. own r p \<Longrightarrow> own r' p' \<Longrightarrow> node s r p = Some a \<Longrightarrow> node s r' p' = Some a
            \<Longrightarrow> r = r' \<and> p = p'"
    and "\<And>i p j a. own (Some i) (p @ [j]) \<Longrightarrow> node s (Some i) p = Some a \<Longrightarrow> pte_is_valid (tabs s a j)
            \<Longrightarrow> pte_is_table (tabs s a j)"
  using assms unfolding vm_inv_def by blast+

section \<open>Allocating a table\<close>

text \<open>What the operations on the tables leave alone.\<close>

definition same_rest :: "vmm \<Rightarrow> vmm \<Rightarrow> bool" where
  "same_rest s s' \<longleftrightarrow> kernel_pgd s' = kernel_pgd s \<and> early_tables s' = early_tables s
     \<and> mm_pool s' = mm_pool s \<and> mm_index s' = mm_index s
     \<and> vma_pool s' = vma_pool s \<and> vma_index s' = vma_index s"

lemma same_rest_refl [simp]: "same_rest s s"
  by (simp add: same_rest_def)

lemma same_rest_trans: "same_rest s s' \<Longrightarrow> same_rest s' s'' \<Longrightarrow> same_rest s s''"
  by (simp add: same_rest_def)

lemma same_rest_root: "same_rest s s' \<Longrightarrow> root_of s' r = root_of s r"
  by (simp add: same_rest_def root_of_def split: option.split)

lemma page_addr_ok: "j < N_PAGES \<Longrightarrow> addr_ok (page_addr j)"
proof -
  assume j: "j < N_PAGES"
  have k: "0x40000 + j < 2 ^ 52" using j by (simp add: N_PAGES_def)
  have u: "unat (page_addr j) = (0x40000 + j) * 4096"
    unfolding page_addr_mult by (rule unat_mult_page [OF k])
  have "PTE_ADDR_MASK = NOT (mask 12) AND mask 48"
    by (simp add: PTE_ADDR_MASK_def mask_eq_exp_minus_1)
  then have "page_addr j AND PTE_ADDR_MASK = take_bit 48 (page_addr j AND NOT (mask 12))"
    by (simp add: take_bit_eq_mask and.assoc)
  also have "\<dots> = page_addr j"
  proof (rule word_unat_eq_iff [THEN iffD2])
    have "(0x40000 + j) * 4096 < (2 :: nat) ^ 48" using j by (simp add: N_PAGES_def)
    then have "unat (page_addr j AND NOT (mask 12)) < 2 ^ 48"
      unfolding unat_and_not_mask u by simp
    then show "unat (take_bit 48 (page_addr j AND NOT (mask 12))) = unat (page_addr j)"
      unfolding unsigned_take_bit_eq unat_and_not_mask u by (simp add: take_bit_eq_mod)
  qed
  finally show ?thesis using page_addr_nonzero [OF j] by (simp add: addr_ok_def)
qed

lemma alloc_page_table_spec:
  assumes ok: "pool_ok s"
  obtains (none) "alloc_page_table s = Some (0, s)" and "avail s = {}"
  | (table) n z s1 where "alloc_page_table s = Some (n, s1)" and "n \<in> avail s" and "addr_ok n"
      and "tabs s1 = (tabs s)(n := z)" and "\<forall>j. 0 \<le> j \<and> j < VMM_ENTRIES \<longrightarrow> z j = 0"
      and "same_rest s s1" and "cpu_regs s1 = cpu_regs s" and "pool_ok s1" and "avail s1 = avail s - {n}"
      and "free_set (frames s1) \<subseteq> free_set (frames s)"
proof (cases "early_table_index s < EARLY_TABLES_COUNT")
  case True
  define k where "k = early_table_index s"
  define n where "n = early_table s k"
  define s1 where "s1 = zero_table n (s\<lparr>early_table_index := k + 1\<rparr>)"
  have k: "k < EARLY_TABLES_COUNT" using True by (simp add: k_def)
  have et: "early_table s1 = early_table s" by (rule ext) (simp add: s1_def zero_table_def early_table_def)
  have fr: "frames s1 = frames s" by (simp add: s1_def zero_table_def)
  have inj: "inj_on (early_table s) {..<EARLY_TABLES_COUNT}"
    and st: "\<And>k. k < EARLY_TABLES_COUNT \<Longrightarrow> addr_ok (early_table s k) \<and> early_table s k \<notin> page_addr ` free_set (frames s)"
    using ok by (simp_all add: pool_ok_def)
  have "early_table s ` {k + 1..<EARLY_TABLES_COUNT} = early_table s ` {k..<EARLY_TABLES_COUNT} - {n}"
  proof -
    have "n \<notin> early_table s ` {k + 1..<EARLY_TABLES_COUNT}"
      unfolding n_def using k by (auto dest!: inj_onD [OF inj])
    moreover have "{k..<EARLY_TABLES_COUNT} = insert k {k + 1..<EARLY_TABLES_COUNT}" using k by auto
    ultimately show ?thesis by (auto simp: n_def)
  qed
  moreover have "n \<notin> page_addr ` free_set (frames s)" using st [OF k] by (simp add: n_def)
  ultimately have av: "avail s1 = avail s - {n}"
    unfolding avail_def et fr by (auto simp: s1_def zero_table_def k_def)
  have al: "alloc_page_table s = Some (n, s1)"
    using True by (simp add: alloc_page_table_def s1_def n_def k_def Let_def)
  have "n \<in> avail s" using k by (auto simp: avail_def n_def k_def)
  moreover have "addr_ok n" using st [OF k] by (simp add: n_def)
  moreover have "tabs s1 = (tabs s)(n := (\<lambda>i. if 0 \<le> i \<and> i < VMM_ENTRIES then 0 else tabs s n i))"
    by (simp add: s1_def zero_table_def cong: if_cong)
  moreover have "same_rest s s1" "cpu_regs s1 = cpu_regs s"
    by (simp_all add: s1_def zero_table_def same_rest_def)
  moreover have "pool_ok s1" using ok by (simp add: pool_ok_def et fr)
  ultimately show thesis by (intro table [where z = "\<lambda>i. if 0 \<le> i \<and> i < VMM_ENTRIES then 0 else tabs s n i", OF al _ _ _ _ _ _ _ av])
      (simp_all add: fr)
next
  case False
  have "pmm_inv (frames s)" using ok by (simp add: pool_ok_def)
  then show thesis
  proof (cases rule: pmm_alloc_page_spec)
    case none
    then have "alloc_page_table s = Some (0, s)" "avail s = {}"
      using False by (simp_all add: alloc_page_table_def avail_def)
    then show ?thesis by (rule that(1))
  next
    case (page j fr)
    let ?a = "page_addr j"
    define s1 where "s1 = zero_table ?a (s\<lparr>frames := fr\<rparr>)"
    have jN: "i < N_PAGES" if "i \<in> free_set (frames s)" for i using that by (simp add: free_set_def page_free_def)
    have et: "early_table s1 = early_table s" by (rule ext) (simp add: s1_def zero_table_def early_table_def)
    have fr: "frames s1 = fr" by (simp add: s1_def zero_table_def)
    have ei: "early_table_index s1 = early_table_index s" by (simp add: s1_def zero_table_def)
    have al: "alloc_page_table s = Some (?a, s1)"
      using page(1,2) False by (simp add: alloc_page_table_def s1_def)
    have "page_addr ` (free_set (frames s) - {j}) = page_addr ` free_set (frames s) - {?a}"
      using page(5) jN page_addr_inj by auto
    then have av: "avail s1 = avail s - {?a}"
      using False unfolding avail_def et fr ei page(6) by simp
    have "pool_ok s1" using ok page(4,6) by (auto simp: pool_ok_def et fr)
    moreover have "?a \<in> avail s" using page(5) by (simp add: avail_def)
    moreover have "addr_ok ?a" using page(3) by (rule page_addr_ok)
    moreover have "tabs s1 = (tabs s)(?a := (\<lambda>i. if 0 \<le> i \<and> i < VMM_ENTRIES then 0 else tabs s ?a i))"
      by (simp add: s1_def zero_table_def cong: if_cong)
    moreover have "same_rest s s1" "cpu_regs s1 = cpu_regs s"
      by (simp_all add: s1_def zero_table_def same_rest_def)
    moreover have "free_set (frames s1) \<subseteq> free_set (frames s)" by (simp add: fr page(6))
    ultimately show ?thesis by (intro that(2) [where z = "\<lambda>i. if 0 \<le> i \<and> i < VMM_ENTRIES then 0 else tabs s ?a i", OF al _ _ _ _ _ _ _ av])
        simp_all
  qed
qed

section \<open>Growing the tree and writing a leaf\<close>

lemma node_append:
  "node s r (p @ q) = (case node s r p of None \<Rightarrow> None | Some b \<Rightarrow> tab (tabs s) b q)"
  by (simp add: node_def tab_append split: option.split)

lemma node_agree:
  assumes "root_of s' r = root_of s r"
    and "\<And>q j x b. p = q @ j # x \<Longrightarrow> node s r q = Some b \<Longrightarrow> tabs s' b j = tabs s b j"
  shows "node s' r p = node s r p"
proof (cases "root_of s r")
  case (Some a)
  have "tab (tabs s') a p = tab (tabs s) a p"
    using assms(2) Some by (intro tab_agree) (simp add: node_def)
  then show ?thesis using assms(1) Some by (simp add: node_def)
qed (use assms(1) in \<open>simp add: node_def\<close>)

text \<open>Hanging a fresh, cleared table into an invalid entry adds exactly one node.\<close>

lemma grow_node:
  assumes inv: "vm_inv s" and q: "own r (q @ [i])" and t: "node s r q = Some t"
    and nv: "\<not> pte_is_valid (tabs s t i)" and n: "n \<in> avail s" "addr_ok n"
    and z: "\<forall>j. 0 \<le> j \<and> j < VMM_ENTRIES \<longrightarrow> z j = 0"
    and rest: "same_rest s s'"
    and tabs': "tabs s' = (tabs s)(n := z, t := (tabs s t)(i := phys_to_pte n (PTE_VALID OR PTE_TABLE)))"
    and p: "own r' p"
  shows "node s' r' p = (if r' = r \<and> p = q @ [i] then Some n else node s r' p)"
proof -
  have q': "own r q" using q by (rule ownD)
  have tn: "t \<noteq> n" using vm_invD(2) [OF inv q' t] n by auto
  have other: "node s' r' p = node s r' p" if no: "\<And>x. \<not> (r' = r \<and> p = q @ i # x)" and p: "own r' p" for r' p
  proof (rule node_agree [OF same_rest_root [OF rest]])
    fix q2 j x b assume p2: "p = q2 @ j # x" and b: "node s r' q2 = Some b"
    have o2: "own r' q2" using p p2 ownD by simp
    have "b \<noteq> n" using vm_invD(2) [OF inv o2 b] n by auto
    moreover have "j \<noteq> i" if "b = t"
      using vm_invD(3) [OF inv o2 q' b] t that no p2 by auto
    ultimately show "tabs s' b j = tabs s b j" by (simp add: tabs')
  qed
  have qt: "node s' r q = Some t" using other [OF _ q'] t by auto
  show ?thesis
  proof (cases "\<exists>x. r' = r \<and> p = q @ i # x")
    case True
    then obtain x where x: "r' = r" "p = q @ i # x" by blast
    have "node s r p = None"
      using t nv pte_table_valid by (auto simp: x node_append)
    moreover have "node s' r p = (if x = [] then Some n else None)"
    proof (cases x)
      case (Cons j y)
      have "0 \<le> j \<and> j < VMM_ENTRIES" using p x(2) Cons by (simp add: own_def)
      then show ?thesis
        using qt tn z table_entry [OF n(2)] Cons by (simp add: x node_append tabs')
    qed (use qt tn table_entry [OF n(2)] in \<open>simp add: x node_append tabs'\<close>)
    ultimately show ?thesis using x by simp
  next
    case False
    then show ?thesis using other [OF _ p] by auto
  qed
qed

lemma grow:
  assumes inv: "vm_inv s" and q: "own r (q @ [i])" and t: "node s r q = Some t"
    and nv: "\<not> pte_is_valid (tabs s t i)" and n: "n \<in> avail s" "addr_ok n"
    and z: "\<forall>j. 0 \<le> j \<and> j < VMM_ENTRIES \<longrightarrow> z j = 0"
    and rest: "same_rest s s'"
    and tabs': "tabs s' = (tabs s)(n := z, t := (tabs s t)(i := phys_to_pte n (PTE_VALID OR PTE_TABLE)))"
    and pool: "pool_ok s'" "avail s' = avail s - {n}"
  shows "vm_inv s'" and "node s' r (q @ [i]) = Some n"
    and "owned_addr r' v \<Longrightarrow> lookup s' r' v = lookup s r' v"
    and "own r' p \<Longrightarrow> node s' r' p = Some a \<Longrightarrow> node s r' p = Some a \<or> a \<in> avail s"
    and "blocked s' w \<Longrightarrow> blocked s w"
proof -
  note nd = grow_node [OF inv q t nv n z rest tabs']
  have q': "own r q" using q by (rule ownD)
  have tn: "t \<noteq> n" using vm_invD(2) [OF inv q' t] n by auto
  have old: "a \<noteq> n" if "own r' p" and "node s r' p = Some a" for r' p a
    using vm_invD(2) [OF inv that] n by auto
  show nn: "node s' r (q @ [i]) = Some n" by (subst nd [OF q]) simp
  show "node s r' p = Some a \<or> a \<in> avail s" if "own r' p" and "node s' r' p = Some a"
    using that(2) n(1) unfolding nd [OF that(1)] by (auto split: if_splits)
  show "blocked s w" if "blocked s' w"
  proof -
    from that obtain l b where l: "l < 3" and b: "node s' None (take l (path w)) = Some b"
      and e: "pte_is_valid (tabs s' b (pte_index w l))" "\<not> pte_is_table (tabs s' b (pte_index w l))"
      by (auto simp: blocked_def)
    have range: "0 \<le> pte_index w l" "pte_index w l < VMM_ENTRIES" using pte_index_range [of l w] l by simp_all
    have "b \<noteq> n" using e(1) z range tn by (auto simp: tabs')
    then have "node s None (take l (path w)) = Some b"
      using b unfolding nd [OF own_take] by (auto split: if_splits)
    moreover have "tabs s' b (pte_index w l) = tabs s b (pte_index w l)"
      using e(2) \<open>b \<noteq> n\<close> table_entry(1) [OF n(2)] by (auto simp: tabs' split: if_splits)
    ultimately show ?thesis using l e by (auto simp: blocked_def)
  qed
  show "vm_inv s'"
    unfolding vm_inv_def
  proof (intro conjI allI impI)
    show "pool_ok s'" by (rule pool)
  next
    fix r' p a assume o: "own r' p" and a: "node s' r' p = Some a"
    show "a \<notin> avail s'" "a \<noteq> 0"
      using a vm_invD(2) [OF inv o] n(2) unfolding nd [OF o] pool(2)
      by (auto simp: addr_ok_def split: if_splits)
  next
    fix r1 p1 r2 p2 a
    assume o: "own r1 p1" "own r2 p2" and a: "node s' r1 p1 = Some a" "node s' r2 p2 = Some a"
    show "r1 = r2" "p1 = p2"
      using a vm_invD(3) [OF inv o] old [OF o(1)] old [OF o(2)] unfolding nd [OF o(1)] nd [OF o(2)]
      by (auto split: if_splits)
  next
    fix k p j a assume o: "own (Some k) (p @ [j])" and a: "node s' (Some k) p = Some a"
      and v: "pte_is_valid (tabs s' a j)"
    have j: "0 \<le> j" "j < VMM_ENTRIES" using o by (simp_all add: own_def)
    have "a \<noteq> n" using v z j tn by (auto simp: tabs')
    then have a': "node s (Some k) p = Some a" using a unfolding nd [OF ownD [OF o]] by (auto split: if_splits)
    show "pte_is_table (tabs s' a j)"
      using v vm_invD(4) [OF inv o a'] table_entry(1) [OF n(2)] \<open>a \<noteq> n\<close> tn
      by (auto simp: tabs' split: if_splits)
  qed
  show "lookup s' r' v = lookup s r' v" if "owned_addr r' v"
  proof -
    have o: "own r' (path v)" using that by (rule own_path)
    have l3: "length (path v) = 3" "length q < 3" using q by (simp_all add: path_def own_def)
    have i3: "0 \<le> pte_index v 3" "pte_index v 3 < VMM_ENTRIES" using pte_index_range [of 3 v] by simp_all
    show ?thesis
    proof (cases "r' = r \<and> path v = q @ [i]")
      case True
      have "tabs s' n (pte_index v 3) = 0" using tn z i3 by (simp add: tabs')
      moreover have "node s r (path v) = None"
        using True t nv pte_table_valid by (auto simp: node_append)
      ultimately show ?thesis using True nn by (simp add: lookup_def)
    next
      case False
      then have eq: "node s' r' (path v) = node s r' (path v)" unfolding nd [OF o] by auto
      have "tabs s' a (pte_index v 3) = tabs s a (pte_index v 3)" if "node s r' (path v) = Some a" for a
        using old [OF o that] vm_invD(3) [OF inv o q' that] t l3 by (auto simp: tabs')
      then show ?thesis unfolding lookup_def eq by (auto split: option.split)
    qed
  qed
qed

text \<open>Writing an entry of a last-level table changes one mapping and no node.\<close>

lemma set_leaf:
  assumes inv: "vm_inv s" and q: "own r q" "length q = 3" and t: "node s r q = Some t"
  shows "vm_inv (set_entry t i e s)"
    and "owned_addr r' v \<Longrightarrow> lookup (set_entry t i e s) r' v =
      (if r' = r \<and> path v = q \<and> pte_index v 3 = i then (if pte_is_valid e then Some e else None)
       else lookup s r' v)"
    and "blocked (set_entry t i e s) w \<Longrightarrow> blocked s w" and "avail (set_entry t i e s) = avail s"
proof -
  let ?s = "set_entry t i e s"
  have rest: "same_rest s ?s" by (simp add: set_entry_def same_rest_def)
  have short: "b \<noteq> t" if "own r' p" and "length p < 3" and "node s r' p = Some b" for r' p b
    using vm_invD(3) [OF inv that(1) q(1) that(3)] t that(2) q(2) by (metis less_irrefl)
  have nd: "node ?s r' p = node s r' p" if o: "own r' p" for r' p
  proof (rule node_agree [OF same_rest_root [OF rest]])
    fix q2 j x b assume p2: "p = q2 @ j # x" and b: "node s r' q2 = Some b"
    have o2: "own r' q2" using o p2 ownD by simp
    have "length q2 < 3" using o p2 by (simp add: own_def)
    then show "tabs ?s b j = tabs s b j" using short [OF o2 _ b] by (simp add: set_entry_def)
  qed
  have av: "avail ?s = avail s" "pool_ok ?s = pool_ok s"
    by (simp_all add: avail_def pool_ok_def set_entry_def early_table_def inj_on_def)
  show "avail ?s = avail s" by (rule av)
  show "blocked s w" if "blocked ?s w"
  proof -
    from that obtain l b where l: "l < 3" and b: "node ?s None (take l (path w)) = Some b"
      and e: "pte_is_valid (tabs ?s b (pte_index w l))" "\<not> pte_is_table (tabs ?s b (pte_index w l))"
      by (auto simp: blocked_def)
    have b': "node s None (take l (path w)) = Some b" using b unfolding nd [OF own_take] .
    have "b \<noteq> t" using short [OF own_take _ b'] l by simp
    then show ?thesis using l e b' by (auto simp: blocked_def set_entry_def)
  qed
  show "vm_inv ?s"
    unfolding vm_inv_def av
  proof (intro conjI allI impI)
    show "pool_ok s" by (rule vm_invD(1) [OF inv])
  next
    fix r' p a assume o: "own r' p" and a: "node ?s r' p = Some a"
    show "a \<notin> avail s" "a \<noteq> 0" using a vm_invD(2) [OF inv o] unfolding nd [OF o] by simp_all
  next
    fix r1 p1 r2 p2 a
    assume o: "own r1 p1" "own r2 p2" and a: "node ?s r1 p1 = Some a" "node ?s r2 p2 = Some a"
    have "node s r1 p1 = Some a" "node s r2 p2 = Some a"
      using a unfolding nd [OF o(1)] nd [OF o(2)] .
    then show "r1 = r2" "p1 = p2" using vm_invD(3) [OF inv o] by simp_all
  next
    fix k p j a assume o: "own (Some k) (p @ [j])" and a: "node ?s (Some k) p = Some a"
      and v: "pte_is_valid (tabs ?s a j)"
    have a': "node s (Some k) p = Some a" using a unfolding nd [OF ownD [OF o]] .
    have "length p < 3" using o by (simp add: own_def)
    then have "a \<noteq> t" using short [OF ownD [OF o] _ a'] by simp
    then show "pte_is_table (tabs ?s a j)"
      using v vm_invD(4) [OF inv o a'] by (simp add: set_entry_def)
  qed
  show "lookup ?s r' v =
      (if r' = r \<and> path v = q \<and> pte_index v 3 = i then (if pte_is_valid e then Some e else None)
       else lookup s r' v)" if "owned_addr r' v"
  proof -
    have o: "own r' (path v)" using that by (rule own_path)
    show ?thesis
    proof (cases "node s r' (path v) = Some t")
      case True
      have "r' = r" "path v = q" using vm_invD(3) [OF inv o q(1) True t] by simp_all
      then show ?thesis
        using True nd [OF o] by (simp add: lookup_def set_entry_def)
    next
      case False
      then have "\<not> (r' = r \<and> path v = q)" using t by metis
      moreover have "lookup ?s r' v = lookup s r' v"
        using False unfolding lookup_def nd [OF o] by (simp add: set_entry_def split: option.split)
      ultimately show ?thesis by metis
    qed
  qed
qed

section \<open>Walks\<close>

lemma walk_lookup:
  "walk_page_table root v False s = Some (case tab (tabs s) root (path v) of None \<Rightarrow> 0 | Some t \<Rightarrow> t, s)"
proof -
  have v: "pte_is_valid e" if "pte_is_table e" for e using that by (rule pte_table_valid)
  show ?thesis
    unfolding walk_page_table_def path_def
    by (simp add: walk_from.simps [of 0] walk_from.simps [of "Suc 0"] walk_from.simps [of "Suc (Suc 0)"]
        walk_from.simps [of "Suc (Suc (Suc 0))"] Let_def v numeral_2_eq_2)
qed

lemma walk_kernel:
  "walk_page_table (kernel_pgd s) v False s = Some (case node s None (path v) of None \<Rightarrow> 0 | Some t \<Rightarrow> t, s)"
  by (simp add: walk_lookup node_def root_of_def)

lemma owned_kernel [simp]: "owned_addr None v"
  by (simp add: owned_addr_def)

lemma virt_to_phys_lookup:
  assumes "vm_inv s"
  shows "vmm_virt_to_phys v s =
    Some (case lookup s None v of None \<Rightarrow> 0 | Some e \<Rightarrow> pte_to_phys e OR (v AND (PAGE_SIZE - 1)))"
  using vm_invD(2) [OF assms own_path [of None v]]
  by (simp add: vmm_virt_to_phys_def walk_kernel lookup_def Let_def split: option.split)

text \<open>What a walk that may allocate does: tables are added, no mapping changes.\<close>

definition grown :: "vmm \<Rightarrow> vmm \<Rightarrow> bool" where
  "grown s s' \<longleftrightarrow> vm_inv s' \<and> same_rest s s' \<and> cpu_regs s' = cpu_regs s
     \<and> free_set (frames s') \<subseteq> free_set (frames s) \<and> avail s' \<subseteq> avail s
     \<and> (\<forall>r p a. own r p \<longrightarrow> node s' r p = Some a \<longrightarrow> node s r p = Some a \<or> a \<in> avail s)
     \<and> (\<forall>r v. owned_addr r v \<longrightarrow> lookup s' r v = lookup s r v) \<and> (\<forall>v. blocked s' v \<longrightarrow> blocked s v)"

lemma grown_refl: "vm_inv s \<Longrightarrow> grown s s"
  by (simp add: grown_def)

lemma grown_trans: "grown s s' \<Longrightarrow> grown s' s'' \<Longrightarrow> grown s s''"
  unfolding grown_def by (intro conjI) (auto intro: same_rest_trans, metis in_mono)

lemma grown_step:
  assumes inv: "vm_inv s" and q: "own r (q @ [i])" and t: "node s r q = Some t"
    and nv: "\<not> pte_is_valid (tabs s t i)"
  obtains (none) "alloc_page_table s = Some (0, s)" and "avail s = {}"
  | (table) n s1 s2 where "alloc_page_table s = Some (n, s1)" and "n \<noteq> 0"
      and "s2 = set_entry t i (phys_to_pte n (PTE_VALID OR PTE_TABLE)) s1"
      and "grown s s2" and "node s2 r (q @ [i]) = Some n" and "tabs s2 t i AND PTE_ADDR_MASK = n"
      and "\<forall>j. 0 \<le> j \<and> j < VMM_ENTRIES \<longrightarrow> tabs s2 n j = 0" and "addr_ok n" and "t \<noteq> n"
proof (rule alloc_page_table_spec [OF vm_invD(1) [OF inv]])
  assume "alloc_page_table s = Some (0, s)" "avail s = {}"
  then show thesis by (rule none)
next
  fix n z s1
  assume al: "alloc_page_table s = Some (n, s1)" and n: "n \<in> avail s" "addr_ok n"
    and tabs1: "tabs s1 = (tabs s)(n := z)" and z: "\<forall>j. 0 \<le> j \<and> j < VMM_ENTRIES \<longrightarrow> z j = 0"
    and rest: "same_rest s s1" and cpu: "cpu_regs s1 = cpu_regs s" and pool: "pool_ok s1" "avail s1 = avail s - {n}"
    and fr: "free_set (frames s1) \<subseteq> free_set (frames s)"
  define s2 where "s2 = set_entry t i (phys_to_pte n (PTE_VALID OR PTE_TABLE)) s1"
  have tn: "t \<noteq> n" using vm_invD(2) [OF inv ownD [OF q] t] n by auto
  have tabs2: "tabs s2 = (tabs s)(n := z, t := (tabs s t)(i := phys_to_pte n (PTE_VALID OR PTE_TABLE)))"
    using tn by (simp add: s2_def set_entry_def tabs1)
  have rest2: "same_rest s s2" using rest by (simp add: s2_def set_entry_def same_rest_def)
  have pool2: "pool_ok s2" "avail s2 = avail s - {n}"
    using pool by (simp_all add: s2_def set_entry_def pool_ok_def avail_def early_table_def inj_on_def)
  note g = grow [OF inv q t nv n z rest2 tabs2 pool2]
  have "grown s s2"
    unfolding grown_def
  proof (intro conjI allI impI)
    show "vm_inv s2" "same_rest s s2" by (fact g(1), fact rest2)
    show "cpu_regs s2 = cpu_regs s" "free_set (frames s2) \<subseteq> free_set (frames s)"
      using cpu fr by (simp_all add: s2_def set_entry_def)
    show "avail s2 \<subseteq> avail s" by (auto simp: pool2(2))
    fix r' p a assume "own r' p" "node s2 r' p = Some a"
    then show "node s r' p = Some a \<or> a \<in> avail s" by (rule g(4))
  next
    fix r' v assume "owned_addr r' v"
    then show "lookup s2 r' v = lookup s r' v" by (rule g(3))
  next
    fix v assume "blocked s2 v"
    then show "blocked s v" by (rule g(5))
  qed
  moreover have "tabs s2 t i AND PTE_ADDR_MASK = n"
    using tn table_entry(2) [OF n(2)] by (simp add: tabs2 pte_to_phys_def)
  moreover have "n \<noteq> 0" using n(2) by (simp add: addr_ok_def)
  moreover have "\<forall>j. 0 \<le> j \<and> j < VMM_ENTRIES \<longrightarrow> tabs s2 n j = 0" using z tn by (simp add: tabs2)
  ultimately show thesis using n(2) tn by (intro table [OF al _ s2_def _ g(2)])
qed

lemma path_take_Suc: "level < 3 \<Longrightarrow> take (Suc level) (path v) = take level (path v) @ [pte_index v level]"
  by (auto simp: path_def less_Suc_eq numeral_3_eq_3 numeral_2_eq_2)

lemma walk_from_spec:
  assumes "vm_inv s" and "level \<le> 3" and "node s None (take level (path v)) = Some table"
  shows "\<exists>t s'. walk_from level table v True s = Some (t, s') \<and> grown s s'
    \<and> (t \<noteq> 0 \<longrightarrow> node s' None (path v) = Some t) \<and> (t = 0 \<longrightarrow> blocked s v \<or> avail s' = {})"
  using assms
proof (induction "3 - level" arbitrary: level table s)
  case 0
  then have "level = 3" by simp
  moreover have "table \<noteq> 0" using vm_invD(2) [OF 0(2) own_take 0(4)] by simp
  ultimately show ?case using 0 by (simp add: walk_from.simps grown_refl path_def)
next
  case (Suc d)
  then have l: "level < 3" by simp
  define idx where "idx = pte_index v level"
  have path: "take (Suc level) (path v) = take level (path v) @ [idx]"
    unfolding idx_def by (rule path_take_Suc [OF l])
  have o: "own None (take level (path v) @ [idx])" using own_take [of "Suc level" v] by (simp only: path)
  consider (table) "pte_is_table (tabs s table idx)"
    | (block) "pte_is_valid (tabs s table idx)" "\<not> pte_is_table (tabs s table idx)"
    | (invalid) "\<not> pte_is_valid (tabs s table idx)" by blast
  then show ?case
  proof cases
    case table
    then have "node s None (take (Suc level) (path v)) = Some (pte_to_phys (tabs s table idx))"
      using Suc.prems(3) by (simp add: path node_append)
    then show ?thesis
      using Suc.hyps(1) [of "Suc level" s] Suc.hyps(2) Suc.prems(1) l table pte_table_valid [OF table]
      by (simp add: walk_from.simps [of level] idx_def)
  next
    case block
    then have "blocked s v" using l Suc.prems(3) by (auto simp: blocked_def idx_def)
    then show ?thesis
      using block l Suc.prems(1) by (simp add: walk_from.simps [of level] idx_def grown_refl)
  next
    case invalid
    from Suc.prems(1) o Suc.prems(3) invalid show ?thesis
    proof (cases rule: grown_step)
      case none
      then show ?thesis
        using l Suc.prems(1) invalid by (simp add: walk_from.simps [of level] idx_def grown_refl)
    next
      case (table n s1 s2)
      have "node s2 None (take (Suc level) (path v)) = Some n" using table(5) by (simp only: path)
      moreover have "vm_inv s2" using table(4) by (simp add: grown_def)
      ultimately obtain t s' where "walk_from (Suc level) n v True s2 = Some (t, s')" "grown s2 s'"
          "t \<noteq> 0 \<longrightarrow> node s' None (path v) = Some t" "t = 0 \<longrightarrow> blocked s2 v \<or> avail s' = {}"
        using Suc.hyps(1) [of "Suc level" s2 n] Suc.hyps(2) l by force
      moreover from this have "walk_from level table v True s = Some (t, s')"
        using l invalid table(1,2,3) by (simp add: walk_from.simps [of level] idx_def Let_def)
      moreover have "blocked s2 v \<longrightarrow> blocked s v" using table(4) by (simp add: grown_def)
      ultimately show ?thesis using grown_trans [OF table(4)] by blast
    qed
  qed
qed

lemma walk_alloc_spec:
  assumes "vm_inv s"
  obtains t s' where "walk_page_table (kernel_pgd s) v True s = Some (t, s')" and "grown s s'"
    and "t \<noteq> 0 \<Longrightarrow> node s' None (path v) = Some t" and "t = 0 \<Longrightarrow> blocked s v \<or> avail s' = {}"
proof -
  have "node s None (take 0 (path v)) = Some (kernel_pgd s)" by (simp add: node_def root_of_def)
  from walk_from_spec [OF assms _ this] that show thesis by (auto simp: walk_page_table_def)
qed

section \<open>Mapping and unmapping a kernel page\<close>

lemma flush_page_simps [simp]:
  "vm_inv (vmm_flush_tlb_page v s) = vm_inv s" "lookup (vmm_flush_tlb_page v s) r w = lookup s r w"
  "same_rest s0 (vmm_flush_tlb_page v s) = same_rest s0 s" "frames (vmm_flush_tlb_page v s) = frames s"
  "avail (vmm_flush_tlb_page v s) = avail s" "blocked (vmm_flush_tlb_page v s) w = blocked s w"
proof -
  have [simp]: "node (vmm_flush_tlb_page v s) = node s" "tabs (vmm_flush_tlb_page v s) = tabs s"
    "avail (vmm_flush_tlb_page v s) = avail s" "pool_ok (vmm_flush_tlb_page v s) = pool_ok s" for s
    by (simp_all add: fun_eq_iff node_def root_of_def vmm_flush_tlb_page_def avail_def pool_ok_def early_table_def
        inj_on_def split: option.split)
  show "vm_inv (vmm_flush_tlb_page v s) = vm_inv s" by (simp add: vm_inv_def)
  show "avail (vmm_flush_tlb_page v s) = avail s" "blocked (vmm_flush_tlb_page v s) w = blocked s w"
    by (simp_all add: blocked_def)
  show "lookup (vmm_flush_tlb_page v s) r w = lookup s r w" by (simp add: lookup_def cong: if_cong option.case_cong)
  show "same_rest s0 (vmm_flush_tlb_page v s) = same_rest s0 s" "frames (vmm_flush_tlb_page v s) = frames s"
    by (simp_all add: same_rest_def vmm_flush_tlb_page_def)
qed

lemma lookup_vpn: "vpn v = vpn w \<Longrightarrow> lookup s r v = lookup s r w"
  using path_vpn [of v w] by (simp add: lookup_def cong: if_cong option.case_cong)

lemma map_page_spec:
  assumes inv: "vm_inv s"
  obtains (failed) s' where "vmm_map_page v p f s = Some (-1, s')" and "grown s s'"
      and "lookup s None v \<noteq> None \<or> blocked s v \<or> avail s' = {}"
  | (mapped) s' where "vmm_map_page v p f s = Some (0, s')" and "vm_inv s'" and "same_rest s s'"
      and "lookup s None v = None" and "tlb (cpu_regs s') = (tlb (cpu_regs s))(drop_bit 12 v := None)"
      and "\<And>r w. owned_addr r w \<Longrightarrow> lookup s' r w =
             (if r = None \<and> vpn w = vpn v then Some (phys_to_pte p (vm_flags_to_pte f)) else lookup s r w)"
      and "\<And>w. blocked s' w \<Longrightarrow> blocked s w"
proof (rule walk_alloc_spec [OF inv, of v])
  fix t s1 assume w: "walk_page_table (kernel_pgd s) v True s = Some (t, s1)" and g: "grown s s1"
    and t: "t \<noteq> 0 \<Longrightarrow> node s1 None (path v) = Some t" and t0: "t = 0 \<Longrightarrow> blocked s v \<or> avail s1 = {}"
  show thesis
  proof (cases "t = 0 \<or> pte_is_valid (tabs s1 t (pte_index v 3))")
    case True
    then have "vmm_map_page v p f s = Some (-1, s1)" using w by (auto simp: vmm_map_page_def Let_def)
    moreover have "lookup s1 None v = lookup s None v" using g by (simp add: grown_def)
    then have "lookup s None v \<noteq> None \<or> blocked s v \<or> avail s1 = {}"
      using True t t0 by (cases "t = 0") (auto simp: lookup_def [of s1])
    ultimately show ?thesis using g by (intro failed)
  next
    case False
    let ?e = "phys_to_pte p (vm_flags_to_pte f)"
    define s2 where "s2 = set_entry t (pte_index v 3) ?e s1"
    have nt: "node s1 None (path v) = Some t" using False t by simp
    have inv1: "vm_inv s1" using g by (simp add: grown_def)
    note leaf = set_leaf [OF inv1 own_path [OF owned_kernel] _ nt, where i = "pte_index v 3" and e = ?e, folded s2_def]
    have ve: "pte_is_valid ?e" using leaf_entry [OF vm_flags_to_pte_bits] by (simp add: phys_to_pte_def)
    have m: "vmm_map_page v p f s = Some (0, vmm_flush_tlb_page v s2)"
      using w False by (simp add: vmm_map_page_def Let_def s2_def)
    have lk: "lookup (vmm_flush_tlb_page v s2) r w =
        (if r = None \<and> vpn w = vpn v then Some ?e else lookup s r w)" if "owned_addr r w" for r w
      using leaf(2) [OF _ that] g that ve path_vpn [of w v] by (simp add: path_def grown_def)
    have "lookup s1 None v = None" using False nt by (simp add: lookup_def)
    then have none: "lookup s None v = None" using g by (simp add: grown_def)
    have "same_rest s (vmm_flush_tlb_page v s2)" "cpu_regs s2 = cpu_regs s"
      using g by (simp_all add: grown_def same_rest_def s2_def set_entry_def vmm_flush_tlb_page_def)
    moreover have "vm_inv (vmm_flush_tlb_page v s2)" using leaf(1) by (simp add: path_def)
    moreover have "blocked s w" if "blocked s2 w" for w
    proof -
      have "blocked s1 w" using leaf(3) that by (simp add: path_def)
      then show ?thesis using g by (simp add: grown_def)
    qed
    ultimately show ?thesis
      by (intro mapped [OF m _ _ none _ lk]) (simp_all, simp_all add: vmm_flush_tlb_page_def)
  qed
qed

lemma unmap_page_spec:
  assumes inv: "vm_inv s"
  obtains (failed) "vmm_unmap_page v s = Some (-1, s)" and "lookup s None v = None"
  | (unmapped) s' where "vmm_unmap_page v s = Some (0, s')" and "vm_inv s'" and "same_rest s s'"
      and "lookup s None v \<noteq> None" and "tlb (cpu_regs s') = (tlb (cpu_regs s))(drop_bit 12 v := None)"
      and "\<And>r w. owned_addr r w \<Longrightarrow> lookup s' r w = (if r = None \<and> vpn w = vpn v then None else lookup s r w)"
      and "frames s' = frames s" and "avail s' = avail s"
proof (cases "lookup s None v")
  case None
  have "vmm_unmap_page v s = Some (-1, s)"
    using None by (auto simp: vmm_unmap_page_def walk_kernel lookup_def Let_def split: option.splits if_splits)
  then show ?thesis using None by (rule failed)
next
  case (Some e)
  then obtain t where nt: "node s None (path v) = Some t" and ve: "pte_is_valid (tabs s t (pte_index v 3))"
    by (auto simp: lookup_def split: option.splits if_splits)
  have t0: "t \<noteq> 0" using vm_invD(2) [OF inv own_path [OF owned_kernel] nt] by simp
  define s2 where "s2 = set_entry t (pte_index v 3) 0 s"
  note leaf = set_leaf [OF inv own_path [OF owned_kernel] _ nt, where i = "pte_index v 3" and e = 0, folded s2_def]
  have m: "vmm_unmap_page v s = Some (0, vmm_flush_tlb_page v s2)"
    using nt ve t0 by (simp add: vmm_unmap_page_def walk_kernel Let_def s2_def)
  have lk: "lookup (vmm_flush_tlb_page v s2) r w = (if r = None \<and> vpn w = vpn v then None else lookup s r w)"
    if "owned_addr r w" for r w
    using leaf(2) [OF _ that] path_vpn [of w v] by (simp add: path_def)
  have "same_rest s (vmm_flush_tlb_page v s2)" "cpu_regs s2 = cpu_regs s" "frames s2 = frames s"
    by (simp_all add: same_rest_def s2_def set_entry_def vmm_flush_tlb_page_def)
  moreover have "vm_inv (vmm_flush_tlb_page v s2)" using leaf(1) by (simp add: path_def)
  moreover have "avail s2 = avail s" using leaf(4) by (simp add: path_def)
  ultimately show ?thesis
    using Some by (intro unmapped [OF m _ _ _ _ lk]) (simp_all, simp_all add: vmm_flush_tlb_page_def)
qed

section \<open>Ranges\<close>

text \<open>The address of the \<^term>\<open>k\<close>-th page of a range.\<close>

definition page_of :: "u64 \<Rightarrow> nat \<Rightarrow> u64" where
  "page_of v k = v + of_nat k * PAGE_SIZE"

definition pages_of :: "u64 \<Rightarrow> nat set \<Rightarrow> nat set" where
  "pages_of v K = (\<lambda>k. vpn (page_of v k)) ` K"

lemma offset_less: "k \<le> n \<Longrightarrow> n < 2 ^ 52 \<Longrightarrow> of_nat k * PAGE_SIZE < of_nat n * PAGE_SIZE \<longleftrightarrow> k < n"
  using unat_mult_page [of k] unat_mult_page [of n] by (simp add: word_less_nat_alt PAGE_SIZE_eq)

lemma offset_Suc: "of_nat k * PAGE_SIZE + PAGE_SIZE = of_nat (Suc k) * PAGE_SIZE"
  by (simp add: algebra_simps)

lemma page_align_pages: "PAGE_ALIGN sz = of_nat (unat (sz + PAGE_SIZE - 1) div 4096) * PAGE_SIZE"
  unfolding PAGE_ALIGN_def align_down_mult by (simp only: PAGE_SIZE_eq)

lemma pages_bound: "unat (a :: u64) div 4096 < 2 ^ 52"
proof -
  have "unat a < 2 ^ 64" using unsigned_less [of a] by simp
  then show ?thesis by (simp add: less_mult_imp_div_less)
qed

lemma unmap_loop_spec:
  assumes "vm_inv s" and "k \<le> n" and "n < 2 ^ 52"
  shows "\<exists>s'. unmap_loop v (of_nat n * PAGE_SIZE) (of_nat k * PAGE_SIZE) s = Some s' \<and> vm_inv s'
    \<and> same_rest s s' \<and> avail s' = avail s
    \<and> (\<forall>r w. owned_addr r w \<longrightarrow> lookup s' r w =
         (if r = None \<and> vpn w \<in> pages_of v {k..<n} then None else lookup s r w))"
  using assms
proof (induction "n - k" arbitrary: k s)
  case 0
  then have "\<not> of_nat k * PAGE_SIZE < (of_nat n * PAGE_SIZE :: u64)" by simp
  then have "unmap_loop v (of_nat n * PAGE_SIZE) (of_nat k * PAGE_SIZE) s = Some s"
    by (subst unmap_loop.simps) simp
  then show ?case using 0 by (simp add: pages_of_def)
next
  case (Suc d)
  then have k: "k < n" by simp
  then have lt: "of_nat k * PAGE_SIZE < (of_nat n * PAGE_SIZE :: u64)" using offset_less Suc.prems by simp
  obtain ret s1 where u: "vmm_unmap_page (page_of v k) s = Some (ret, s1)" and inv1: "vm_inv s1"
    and r1: "same_rest s s1" "avail s1 = avail s"
    and l1: "\<And>r w. owned_addr r w \<Longrightarrow> lookup s1 r w =
       (if r = None \<and> vpn w = vpn (page_of v k) then None else lookup s r w)"
  proof (rule unmap_page_spec [OF Suc.prems(1), of "page_of v k"])
    assume f: "vmm_unmap_page (page_of v k) s = Some (-1, s)" "lookup s None (page_of v k) = None"
    have "lookup s None w = None" if "vpn w = vpn (page_of v k)" for w using lookup_vpn [OF that] f(2) by simp
    then show thesis using f(1) Suc.prems(1) by (intro that) auto
  qed (use that in blast)
  have "{k..<n} = insert k {Suc k..<n}" using k by auto
  then have "pages_of v {k..<n} = insert (vpn (page_of v k)) (pages_of v {Suc k..<n})"
    by (simp add: pages_of_def)
  moreover obtain s' where "unmap_loop v (of_nat n * PAGE_SIZE) (of_nat (Suc k) * PAGE_SIZE) s1 = Some s'"
      "vm_inv s'" "same_rest s1 s'" "avail s' = avail s1"
      "\<forall>r w. owned_addr r w \<longrightarrow> lookup s' r w =
         (if r = None \<and> vpn w \<in> pages_of v {Suc k..<n} then None else lookup s1 r w)"
  proof -
    have "d = n - Suc k" "Suc k \<le> n" using Suc.hyps(2) k by simp_all
    from Suc.hyps(1) [OF this(1) inv1 this(2) Suc.prems(3)] that show thesis by blast
  qed
  moreover from this(1) have "unmap_loop v (of_nat n * PAGE_SIZE) (of_nat k * PAGE_SIZE) s = Some s'"
    using u lt offset_Suc [of k] by (subst unmap_loop.simps) (simp add: page_of_def)
  ultimately show ?case
    using r1 l1 same_rest_trans [of s s1 s'] by auto
qed

text \<open>The state in the loop of \<^verbatim>\<open>vmm_map_range\<close>: the first \<^term>\<open>k\<close> pages, unmapped at the start,
  are mapped in order, and no other mapping has changed.\<close>

definition mapped_range :: "vmm \<Rightarrow> u64 \<Rightarrow> u64 \<Rightarrow> u32 \<Rightarrow> nat \<Rightarrow> vmm \<Rightarrow> bool" where
  "mapped_range s0 v p f k s \<longleftrightarrow> vm_inv s \<and> same_rest s0 s
     \<and> (\<forall>j<k. lookup s0 None (page_of v j) = None
            \<and> lookup s None (page_of v j) = Some (phys_to_pte (page_of p j) (vm_flags_to_pte f)))
     \<and> (\<forall>r w. owned_addr r w \<longrightarrow> \<not> (r = None \<and> vpn w \<in> pages_of v {..<k}) \<longrightarrow> lookup s r w = lookup s0 r w)
     \<and> (\<forall>w. blocked s w \<longrightarrow> blocked s0 w)"

text \<open>Why a page of a range cannot be mapped: it is mapped already, at the start or by an earlier
  page of the range, or a block entry is in the way.\<close>

definition range_conflict :: "vmm \<Rightarrow> u64 \<Rightarrow> nat \<Rightarrow> bool" where
  "range_conflict s v k \<longleftrightarrow> lookup s None (page_of v k) \<noteq> None \<or> blocked s (page_of v k)
     \<or> vpn (page_of v k) \<in> pages_of v {..<k}"

lemma mapped_range_Suc:
  assumes m: "mapped_range s0 v p f k s" and inv: "vm_inv s'" and rest: "same_rest s s'"
    and none: "lookup s None (page_of v k) = None"
    and lk: "\<And>r w. owned_addr r w \<Longrightarrow> lookup s' r w = (if r = None \<and> vpn w = vpn (page_of v k)
              then Some (phys_to_pte (page_of p k) (vm_flags_to_pte f)) else lookup s r w)"
    and bl: "\<And>w. blocked s' w \<Longrightarrow> blocked s w"
  shows "mapped_range s0 v p f (Suc k) s'"
proof -
  have old: "lookup s0 None (page_of v j) = None"
    "lookup s None (page_of v j) = Some (phys_to_pte (page_of p j) (vm_flags_to_pte f))" if "j < k" for j
    using m that by (simp_all add: mapped_range_def)
  have other: "lookup s r w = lookup s0 r w" if "owned_addr r w" "\<not> (r = None \<and> vpn w \<in> pages_of v {..<k})" for r w
    using m that unfolding mapped_range_def by blast
  have new: "vpn (page_of v j) \<noteq> vpn (page_of v k)" if "j < k" for j
    using old(2) [OF that] none lookup_vpn [of "page_of v j" "page_of v k" s None] by auto
  then have "vpn (page_of v k) \<notin> pages_of v {..<k}" by (auto simp: pages_of_def) metis
  then have k0: "lookup s0 None (page_of v k) = None"
    using other [of None "page_of v k"] none by simp
  have "pages_of v {..<Suc k} = insert (vpn (page_of v k)) (pages_of v {..<k})"
    by (simp add: pages_of_def lessThan_Suc)
  then have "lookup s' r w = lookup s0 r w" if "owned_addr r w" "\<not> (r = None \<and> vpn w \<in> pages_of v {..<Suc k})" for r w
    using lk [OF that(1)] other [OF that(1)] that(2) by auto
  moreover have "lookup s0 None (page_of v j) = None
      \<and> lookup s' None (page_of v j) = Some (phys_to_pte (page_of p j) (vm_flags_to_pte f))" if "j < Suc k" for j
  proof (cases "j = k")
    case True
    then show ?thesis using k0 lk [of None "page_of v k"] by simp
  next
    case False
    then have "j < k" using that by simp
    then show ?thesis using old new lk [of None "page_of v j"] by simp
  qed
  moreover have "same_rest s0 s'" using m rest same_rest_trans by (auto simp: mapped_range_def)
  moreover have "blocked s0 w" if "blocked s' w" for w using m bl [OF that] by (simp add: mapped_range_def)
  ultimately show ?thesis using inv by (simp add: mapped_range_def)
qed

text \<open>Unmapping the first \<^term>\<open>k\<close> pages again restores every mapping.\<close>

lemma mapped_range_undo:
  assumes m: "mapped_range s0 v p f k s" and g: "grown s s1"
    and lk: "\<And>r w. owned_addr r w \<Longrightarrow> lookup s' r w =
         (if r = None \<and> vpn w \<in> pages_of v {0..<k} then None else lookup s1 r w)"
    and o: "owned_addr r w"
  shows "lookup s' r w = lookup s0 r w"
proof (cases "r = None \<and> vpn w \<in> pages_of v {0..<k}")
  case True
  then obtain j where "j < k" "vpn w = vpn (page_of v j)" by (auto simp: pages_of_def)
  then have "lookup s0 None w = None"
    using m lookup_vpn [of w "page_of v j" s0 None] by (simp add: mapped_range_def)
  then show ?thesis using lk [OF o] True by simp
next
  case False
  then have "lookup s r w = lookup s0 r w" using m o unfolding mapped_range_def lessThan_atLeast0 by blast
  then show ?thesis using lk [OF o] g o False by (auto simp: grown_def)
qed

lemma unmap_range_pages:
  assumes "vm_inv s" and "k < 2 ^ 52" and "PAGE_ALIGN_DOWN v = v"
  obtains s' where "vmm_unmap_range v (of_nat k * PAGE_SIZE) s = Some (0, s')" and "vm_inv s'"
    and "same_rest s s'" and "avail s' = avail s"
    and "\<And>r w. owned_addr r w \<Longrightarrow> lookup s' r w =
         (if r = None \<and> vpn w \<in> pages_of v {0..<k} then None else lookup s r w)"
proof -
  have u: "unat (of_nat k * 4096 :: u64) = k * 4096" using assms(2) by (rule unat_mult_page)
  have "unat (of_nat k * PAGE_SIZE + PAGE_SIZE - 1 :: u64) = k * 4096 + 4095"
  proof -
    have "(of_nat k * PAGE_SIZE + PAGE_SIZE - 1 :: u64) = of_nat (k * 4096 + 4095)"
      by (simp add: PAGE_SIZE_eq)
    moreover have "k * 4096 + 4095 < 2 ^ LENGTH(64)" using assms(2) by simp
    ultimately show ?thesis using unat_of_nat_small by metis
  qed
  then have "PAGE_ALIGN (of_nat k * PAGE_SIZE) = of_nat k * PAGE_SIZE"
    by (simp add: page_align_pages)
  then show thesis
    using unmap_loop_spec [OF assms(1) _ assms(2), of 0 v] assms(3) that
    by (auto simp: vmm_unmap_range_def)
qed

lemma map_loop_spec:
  assumes "mapped_range s0 v p f k s" and "k \<le> n" and "n < 2 ^ 52" and v: "PAGE_ALIGN_DOWN v = v"
  shows "\<exists>ret s'. map_loop v p (of_nat n * PAGE_SIZE) f (of_nat k * PAGE_SIZE) s = Some (ret, s')
    \<and> (ret = 0 \<and> mapped_range s0 v p f n s'
       \<or> ret = -1 \<and> vm_inv s' \<and> same_rest s0 s' \<and> (\<forall>r w. owned_addr r w \<longrightarrow> lookup s' r w = lookup s0 r w)
         \<and> (avail s' = {} \<or> (\<exists>k<n. range_conflict s0 v k)))"
  using assms(1-3)
proof (induction "n - k" arbitrary: k s)
  case 0
  then show ?case by (subst map_loop.simps) simp
next
  case (Suc d)
  then have k: "k < n" by simp
  then have lt: "of_nat k * PAGE_SIZE < (of_nat n * PAGE_SIZE :: u64)" using offset_less Suc.prems by simp
  have inv: "vm_inv s" using Suc.prems(1) by (simp add: mapped_range_def)
  have addr: "v + of_nat k * PAGE_SIZE = page_of v k" "p + of_nat k * PAGE_SIZE = page_of p k"
    by (simp_all add: page_of_def)
  from inv show ?case
  proof (cases rule: map_page_spec [where v = "page_of v k" and p = "page_of p k" and f = f])
    case (failed s1)
    have inv1: "vm_inv s1" using failed(2) by (simp add: grown_def)
    have "k < 2 ^ 52" using k Suc.prems(3) by simp
    from inv1 this v obtain s' where u: "vmm_unmap_range v (of_nat k * PAGE_SIZE) s1 = Some (0, s')"
        "vm_inv s'" "same_rest s1 s'" "avail s' = avail s1"
        "\<And>r w. owned_addr r w \<Longrightarrow> lookup s' r w =
           (if r = None \<and> vpn w \<in> pages_of v {0..<k} then None else lookup s1 r w)"
      by (rule unmap_range_pages) blast
    have "map_loop v p (of_nat n * PAGE_SIZE) f (of_nat k * PAGE_SIZE) s = Some (-1, s')"
      using lt failed(1) u(1) by (subst map_loop.simps) (simp add: addr)
    moreover have "same_rest s0 s'"
      using Suc.prems(1) failed(2) u(3) same_rest_trans by (auto simp: mapped_range_def grown_def)
    moreover have "avail s' = {} \<or> (\<exists>k<n. range_conflict s0 v k)"
    proof (cases "avail s1 = {}")
      case False
      then have "lookup s None (page_of v k) \<noteq> None \<or> blocked s (page_of v k)" using failed(3) by blast
      then have "range_conflict s0 v k"
        using Suc.prems(1) unfolding mapped_range_def range_conflict_def by (metis owned_kernel)
      then show ?thesis using k by blast
    qed (simp add: u(4))
    ultimately show ?thesis
      using u(2) mapped_range_undo [OF Suc.prems(1) failed(2) u(5)] by blast
  next
    case (mapped s1)
    have "mapped_range s0 v p f (Suc k) s1"
      using mapped_range_Suc [OF Suc.prems(1) mapped(2,3,4,6,7)] by blast
    then have "\<exists>ret s'. map_loop v p (of_nat n * PAGE_SIZE) f (of_nat (Suc k) * PAGE_SIZE) s1 = Some (ret, s')
      \<and> (ret = 0 \<and> mapped_range s0 v p f n s'
         \<or> ret = -1 \<and> vm_inv s' \<and> same_rest s0 s' \<and> (\<forall>r w. owned_addr r w \<longrightarrow> lookup s' r w = lookup s0 r w)
           \<and> (avail s' = {} \<or> (\<exists>k<n. range_conflict s0 v k)))"
      using Suc.hyps(1) [of "Suc k" s1] Suc.hyps(2) Suc.prems(3) k by simp
    moreover have "map_loop v p (of_nat n * PAGE_SIZE) f (of_nat k * PAGE_SIZE) s =
        map_loop v p (of_nat n * PAGE_SIZE) f (of_nat (Suc k) * PAGE_SIZE) s1"
      using lt mapped(1) by (subst map_loop.simps) (simp add: addr offset_Suc del: of_nat_Suc)
    ultimately show ?thesis by simp
  qed
qed

section \<open>User mappings\<close>

lemma user_table_spec:
  assumes inv: "vm_inv s" and q: "own (Some i) (q @ [idx])" and t: "node s (Some i) q = Some t"
  obtains (none) "user_table t idx s = Some (None, s)" and "avail s = {}"
  | (table) n s' where "user_table t idx s = Some (Some n, s')" and "grown s s'"
      and "node s' (Some i) (q @ [idx]) = Some n"
proof (cases "pte_is_valid (tabs s t idx)")
  case True
  then have tb: "pte_is_table (tabs s t idx)" using vm_invD(4) [OF inv q t] by simp
  have "user_table t idx s = Some (Some (pte_to_phys (tabs s t idx)), s)"
    using True by (simp add: user_table_def pte_is_valid_def pte_to_phys_def)
  moreover have "node s (Some i) (q @ [idx]) = Some (pte_to_phys (tabs s t idx))"
    using t tb by (simp add: node_append)
  ultimately show ?thesis using grown_refl [OF inv] by (intro table)
next
  case False
  from inv q t False show ?thesis
  proof (cases rule: grown_step)
    case none
    then have "user_table t idx s = Some (None, s)"
      using False by (simp add: user_table_def pte_is_valid_def)
    then show ?thesis using none(2) by (rule that(1))
  next
    case (table n s1 s2)
    then have "user_table t idx s = Some (Some n, s2)"
      using False by (simp add: user_table_def pte_is_valid_def phys_to_pte_def Let_def)
    then show ?thesis using table(4,5) by (rule that(2))
  qed
qed

lemma user_own: "v < USER_VMA_END \<Longrightarrow> own (Some i) (path v)"
  by (rule own_path) (simp add: owned_addr_def)

lemma map_user_page_spec:
  assumes inv: "vm_inv s" and i: "i < mm_index s"
  obtains (failed) s' where "vmm_map_user_page (Some i) v p f s = Some (-1, s')" and "grown s s'"
      and "pgd (mm_pool s i) = 0 \<or> USER_VMA_END \<le> v \<or> avail s' = {}"
  | (mapped) s' where "vmm_map_user_page (Some i) v p f s = Some (0, s')" and "vm_inv s'" and "same_rest s s'"
      and "v < USER_VMA_END" and "free_set (frames s') \<subseteq> free_set (frames s)"
      and "\<And>r w. owned_addr r w \<Longrightarrow> lookup s' r w = (if r = Some i \<and> vpn w = vpn v
             then Some ((p AND PTE_ADDR_MASK) OR user_pte_flags f) else lookup s r w)"
proof (cases "pgd (mm_pool s i) = 0 \<or> USER_VMA_END \<le> v")
  case True
  then have "vmm_map_user_page (Some i) v p f s = Some (-1, s)" by (auto simp: vmm_map_user_page_def)
  then show ?thesis using grown_refl [OF inv] True by (intro failed) auto
next
  case False
  then have g0: "pgd (mm_pool s i) \<noteq> 0" and v: "v < USER_VMA_END" by auto
  let ?i0 = "pte_index v 0" and ?i1 = "pte_index v 1" and ?i2 = "pte_index v 2"
  have o3: "own (Some i) [?i0, ?i1, ?i2]" using user_own [OF v] by (simp add: path_def)
  have o2: "own (Some i) [?i0, ?i1]" using ownD [of _ "[?i0, ?i1]" "[?i2]"] o3 by simp
  have o1: "own (Some i) [?i0]" using ownD [of _ "[?i0]" "[?i1]"] o2 by simp
  have n0: "node s (Some i) [] = Some (pgd (mm_pool s i))" using i g0 by (simp add: node_def root_of_def)
  have fail: thesis if "vmm_map_user_page (Some i) v p f s = Some (-1, s')" "grown s s'" "avail s' = {}" for s'
    using that by (intro failed) auto
  show thesis
  proof (rule user_table_spec [OF inv, of i "[]" ?i0, unfolded append.simps, OF o1 n0])
    assume "user_table (pgd (mm_pool s i)) ?i0 s = Some (None, s)" "avail s = {}"
    then show thesis using g0 v inv by (intro fail [of s]) (simp_all add: vmm_map_user_page_def grown_refl)
  next
    fix l1 s1 assume u1: "user_table (pgd (mm_pool s i)) ?i0 s = Some (Some l1, s1)" and g1: "grown s s1"
      and n1: "node s1 (Some i) [?i0] = Some l1"
    have inv1: "vm_inv s1" using g1 by (simp add: grown_def)
    show thesis
    proof (rule user_table_spec [OF inv1, of i "[?i0]" ?i1, unfolded append.simps, OF o2 n1])
      assume "user_table l1 ?i1 s1 = Some (None, s1)" "avail s1 = {}"
      then show thesis using g0 v u1 g1 by (intro fail [of s1]) (simp_all add: vmm_map_user_page_def)
    next
      fix l2 s2 assume u2: "user_table l1 ?i1 s1 = Some (Some l2, s2)" and g2: "grown s1 s2"
        and n2: "node s2 (Some i) [?i0, ?i1] = Some l2"
      have inv2: "vm_inv s2" using g2 by (simp add: grown_def)
      show thesis
      proof (rule user_table_spec [OF inv2, of i "[?i0, ?i1]" ?i2, unfolded append.simps, OF o3 n2])
        assume "user_table l2 ?i2 s2 = Some (None, s2)" "avail s2 = {}"
        then show thesis using g0 v u1 u2 grown_trans [OF g1 g2]
          by (intro fail [of s2]) (simp_all add: vmm_map_user_page_def)
      next
        fix l3 s3 assume u3: "user_table l2 ?i2 s2 = Some (Some l3, s3)" and g3: "grown s2 s3"
          and n3: "node s3 (Some i) [?i0, ?i1, ?i2] = Some l3"
        let ?e = "(p AND PTE_ADDR_MASK) OR user_pte_flags f"
        define s4 where "s4 = set_entry l3 (pte_index v 3) ?e s3"
        have g: "grown s s3" using grown_trans [OF grown_trans [OF g1 g2] g3] .
        have inv3: "vm_inv s3" using g by (simp add: grown_def)
        have n3': "node s3 (Some i) (path v) = Some l3" using n3 by (simp add: path_def)
        note leaf = set_leaf [OF inv3 user_own [OF v] _ n3', where i = "pte_index v 3" and e = ?e, folded s4_def]
        have m: "vmm_map_user_page (Some i) v p f s = Some (0, s4)"
          using g0 v u1 u2 u3 by (simp add: vmm_map_user_page_def s4_def)
        have lk: "lookup s4 r w = (if r = Some i \<and> vpn w = vpn v then Some ?e else lookup s r w)"
          if "owned_addr r w" for r w
          using leaf(2) [OF _ that] g that leaf_entry(1) [OF user_pte_flags_bits] path_vpn [of w v]
          by (simp add: path_def grown_def)
        have "same_rest s s4" "free_set (frames s4) \<subseteq> free_set (frames s)"
          using g by (simp_all add: grown_def same_rest_def s4_def set_entry_def)
        moreover have "vm_inv s4" using leaf(1) by (simp add: path_def)
        ultimately show thesis by (intro mapped [OF m _ _ v _ lk])
      qed
    qed
  qed
qed

lemma frames_simps [simp]:
  "node (s\<lparr>frames := fr\<rparr>) = node s" "lookup (s\<lparr>frames := fr\<rparr>) = lookup s"
  "early_table (s\<lparr>frames := fr\<rparr>) = early_table s"
  by (simp_all add: fun_eq_iff node_def root_of_def lookup_def early_table_def split: option.split)

lemma frames_shrink:
  assumes "vm_inv s" and "pmm_inv fr" and "free_set fr \<subseteq> free_set (frames s)"
  shows "vm_inv (s\<lparr>frames := fr\<rparr>)"
proof -
  have "avail (s\<lparr>frames := fr\<rparr>) \<subseteq> avail s" using assms(3) by (auto simp: avail_def)
  moreover have "pool_ok (s\<lparr>frames := fr\<rparr>)"
    using vm_invD(1) [OF assms(1)] assms(2,3) by (auto simp: pool_ok_def)
  ultimately show ?thesis using assms(1) unfolding vm_inv_def by (auto 0 3)
qed

lemma frames_give_back:
  assumes inv: "vm_inv s" and "pmm_inv fr" and fs: "free_set fr = insert j (free_set (frames s))"
    and no: "\<And>r p. own r p \<Longrightarrow> node s r p \<noteq> Some (page_addr j)"
    and early: "\<forall>k < EARLY_TABLES_COUNT. early_table s k \<noteq> page_addr j"
  shows "vm_inv (s\<lparr>frames := fr\<rparr>)"
proof -
  have "avail (s\<lparr>frames := fr\<rparr>) = insert (page_addr j) (avail s)" using fs by (auto simp: avail_def)
  moreover have "pool_ok (s\<lparr>frames := fr\<rparr>)"
    using vm_invD(1) [OF inv] assms(2) fs early by (auto simp: pool_ok_def)
  ultimately show ?thesis using inv no unfolding vm_inv_def by (auto 0 3)
qed

text \<open>The state in the loop of \<^verbatim>\<open>vmm_map_user_range\<close>: the first \<^term>\<open>k\<close> pages of the range are
  backed by the frames \<^term>\<open>js\<close>, all different and free at the start.\<close>

definition user_mapped ::
  "vmm \<Rightarrow> nat \<Rightarrow> u64 \<Rightarrow> u32 \<Rightarrow> nat \<Rightarrow> (nat \<Rightarrow> nat) \<Rightarrow> vmm \<Rightarrow> bool" where
  "user_mapped s0 i v f k js s \<longleftrightarrow> vm_inv s \<and> same_rest s0 s
     \<and> free_set (frames s) \<subseteq> free_set (frames s0) \<and> inj_on js {..<k}
     \<and> (\<forall>l<k. page_of v l < USER_VMA_END \<and> js l \<in> free_set (frames s0) - free_set (frames s)
            \<and> lookup s (Some i) (page_of v l) = Some ((page_addr (js l) AND PTE_ADDR_MASK) OR user_pte_flags f))
     \<and> (\<forall>r w. owned_addr r w \<longrightarrow> \<not> (r = Some i \<and> vpn w \<in> pages_of v {..<k}) \<longrightarrow> lookup s r w = lookup s0 r w)"

lemma unat_page_of:
  assumes "unat v + k * 4096 < 2 ^ 64"
  shows "unat (page_of v k) = unat v + k * 4096"
proof -
  have "page_of v k = of_nat (unat v + k * 4096)" by (simp add: page_of_def PAGE_SIZE_eq)
  then show ?thesis using unat_of_nat_small [of "unat v + k * 4096", where 'a = 64] assms by simp
qed

lemma vpn_page_of:
  assumes "unat v + k * 4096 < 2 ^ 47"
  shows "vpn (page_of v k) = unat v div 4096 + k"
proof -
  have "unat (page_of v k) = unat v + k * 4096" using assms by (intro unat_page_of) simp
  moreover have "unat v div 4096 + k < 2 ^ 36"
    using assms by (simp add: less_mult_imp_div_less flip: div_mult_self1_is_m add_mult_distrib)
  ultimately show ?thesis by (simp add: vpn_def)
qed

lemma user_mapped_Suc:
  assumes m: "user_mapped s0 i v f k js s" and j: "j \<in> free_set (frames s)"
    and inv: "vm_inv s'" and rest: "same_rest s s'" and v: "page_of v k < USER_VMA_END"
    and b: "unat v + k * 4096 < 2 ^ 64"
    and fs: "free_set (frames s') \<subseteq> free_set (frames s) - {j}"
    and lk: "\<And>r w. owned_addr r w \<Longrightarrow> lookup s' r w = (if r = Some i \<and> vpn w = vpn (page_of v k)
             then Some ((page_addr j AND PTE_ADDR_MASK) OR user_pte_flags f) else lookup s r w)"
  shows "user_mapped s0 i v f (Suc k) (js(k := j)) s'"
proof -
  have old: "page_of v l < USER_VMA_END" "js l \<in> free_set (frames s0) - free_set (frames s)"
    "lookup s (Some i) (page_of v l) = Some ((page_addr (js l) AND PTE_ADDR_MASK) OR user_pte_flags f)"
    if "l < k" for l
    using m that by (simp_all add: user_mapped_def)
  have fs0: "free_set (frames s) \<subseteq> free_set (frames s0)" and inj: "inj_on js {..<k}" and r0: "same_rest s0 s"
    using m by (simp_all add: user_mapped_def)
  have other: "lookup s r w = lookup s0 r w" if "owned_addr r w" "\<not> (r = Some i \<and> vpn w \<in> pages_of v {..<k})" for r w
    using m that unfolding user_mapped_def by blast
  have u: "unat v + k * 4096 < 2 ^ 47"
    using v unat_page_of [OF b] by (simp add: word_less_nat_alt USER_VMA_END_def)
  have new: "vpn (page_of v l) \<noteq> vpn (page_of v k)" if "l < k" for l
    using that u vpn_page_of [of v k] vpn_page_of [of v l] by simp
  have page: "page_of v l < USER_VMA_END \<and> (js(k := j)) l \<in> free_set (frames s0) - free_set (frames s')
      \<and> lookup s' (Some i) (page_of v l) = Some ((page_addr ((js(k := j)) l) AND PTE_ADDR_MASK) OR user_pte_flags f)"
    if "l < Suc k" for l
  proof (cases "l = k")
    case True
    then show ?thesis using v j fs fs0 lk [of "Some i" "page_of v k"] by (auto simp: owned_addr_def)
  next
    case False
    then have "l < k" using that by simp
    then show ?thesis
      using False old new fs lk [of "Some i" "page_of v l"] by (auto simp: owned_addr_def)
  qed
  have "j \<notin> js ` {..<k}" using old(2) j by auto
  then have "inj_on (js(k := j)) {..<Suc k}"
    using inj by (auto simp: lessThan_Suc inj_on_def)
  moreover have "pages_of v {..<Suc k} = insert (vpn (page_of v k)) (pages_of v {..<k})"
    by (simp add: pages_of_def lessThan_Suc)
  then have "lookup s' r w = lookup s0 r w" if "owned_addr r w" "\<not> (r = Some i \<and> vpn w \<in> pages_of v {..<Suc k})" for r w
    using lk [OF that(1)] other [OF that(1)] that(2) by auto
  moreover have "same_rest s0 s'" using r0 rest by (rule same_rest_trans)
  moreover have "free_set (frames s') \<subseteq> free_set (frames s0)" using fs fs0 by blast
  ultimately show ?thesis using inv page unfolding user_mapped_def by blast
qed

lemma give_back_frame:
  assumes inv: "vm_inv s" and j: "j \<in> free_set (frames s)" "j < N_PAGES"
    and fr: "pmm_inv fr" "free_set fr = free_set (frames s) - {j}"
    and g: "grown (s\<lparr>frames := fr\<rparr>) s2"
  obtains fr' where "pmm_free_page (page_addr j) (frames s2) = Some fr'" and "vm_inv (s2\<lparr>frames := fr'\<rparr>)"
    and "free_set fr' = insert j (free_set (frames s2))"
proof -
  let ?s1 = "s\<lparr>frames := fr\<rparr>"
  have inv2: "vm_inv s2" and fs2: "free_set (frames s2) \<subseteq> free_set fr"
    and nd: "\<And>r p a. own r p \<Longrightarrow> node s2 r p = Some a \<Longrightarrow> node s r p = Some a \<or> a \<in> avail ?s1"
    and et: "early_table s2 = early_table s"
    using g by (auto simp: grown_def same_rest_def early_table_def fun_eq_iff)
  have "pmm_inv (frames s2)" using vm_invD(1) [OF inv2] by (simp add: pool_ok_def)
  moreover have "j \<notin> free_set (frames s2)" using fs2 fr(2) by auto
  ultimately obtain fr' where fr': "pmm_free_page (page_addr j) (frames s2) = Some fr'" "pmm_inv fr'"
      "free_set fr' = insert j (free_set (frames s2))"
    using pmm_free_page_spec [OF _ j(2)] by blast
  have early: "early_table s k \<noteq> page_addr j" if "k < EARLY_TABLES_COUNT" for k
    using vm_invD(1) [OF inv] that j(1) by (auto simp: pool_ok_def)
  have "page_addr j \<notin> page_addr ` free_set fr"
    using page_addr_inj j(2) fr(2) by (auto simp: free_set_def page_free_def)
  then have out: "page_addr j \<notin> avail ?s1" using early by (fastforce simp: avail_def)
  have "page_addr j \<in> avail s" using j(1) by (simp add: avail_def)
  then have "node s2 r p \<noteq> Some (page_addr j)" if "own r p" for r p
    using nd [OF that] out vm_invD(2) [OF inv that] by blast
  then have "vm_inv (s2\<lparr>frames := fr'\<rparr>)"
    using early et by (intro frames_give_back [OF inv2 fr'(2,3)]) auto
  then show thesis using fr'(1,3) that by blast
qed

lemma user_range_spec:
  assumes "user_mapped s0 i v f k js s" and i: "i < mm_index s0" and "k \<le> n" and b: "unat v + n * 4096 < 2 ^ 64"
  shows "\<exists>ret s' js'. user_range_loop (Some i) (page_of v k) (page_of v n) f s = Some (ret, s')
    \<and> (ret = 0 \<and> user_mapped s0 i v f n js' s'
       \<or> ret = -1 \<and> vm_inv s' \<and> same_rest s0 s'
         \<and> (\<forall>r w. owned_addr r w \<longrightarrow> \<not> (r = Some i \<and> vpn w \<in> pages_of v {..<n}) \<longrightarrow> lookup s' r w = lookup s0 r w)
         \<and> (card (free_set (frames s')) \<le> 1 \<or> pgd (mm_pool s0 i) = 0 \<or> (\<exists>k<n. USER_VMA_END \<le> page_of v k)))"
  using assms(1,3)
proof (induction "n - k" arbitrary: k s js)
  case 0
  then show ?case by (subst user_range_loop.simps) auto
next
  case (Suc d)
  then have k: "k < n" and d: "d = n - Suc k" "Suc k \<le> n" by simp_all
  have bk: "unat v + k * 4096 < 2 ^ 64" using b k by simp
  have lt: "page_of v k < page_of v n"
    using unat_page_of [OF b] unat_page_of [OF bk] k by (simp add: word_less_nat_alt)
  have nxt: "page_of v k + PAGE_SIZE = page_of v (Suc k)" by (simp add: page_of_def algebra_simps)
  have inv: "vm_inv s" and r0: "same_rest s0 s" using Suc.prems(1) by (simp_all add: user_mapped_def)
  have sub: "pages_of v {..<k} \<subseteq> pages_of v {..<n}" using k by (auto simp: pages_of_def)
  have other: "lookup s r w = lookup s0 r w" if "owned_addr r w" "\<not> (r = Some i \<and> vpn w \<in> pages_of v {..<n})" for r w
    using Suc.prems(1) that sub unfolding user_mapped_def by blast
  have "pmm_inv (frames s)" using vm_invD(1) [OF inv] by (simp add: pool_ok_def)
  then show ?case
  proof (cases rule: pmm_alloc_page_spec)
    case none
    then have "user_range_loop (Some i) (page_of v k) (page_of v n) f s = Some (-1, s)"
      using lt by (subst user_range_loop.simps) simp
    moreover have "card (free_set (frames s)) \<le> 1" using none(2) by simp
    ultimately show ?thesis using inv r0 other by blast
  next
    case (page j fr)
    have inv1: "vm_inv (s\<lparr>frames := fr\<rparr>)" using inv page(4,6) by (intro frames_shrink) auto
    have i1: "i < mm_index (s\<lparr>frames := fr\<rparr>)" using i r0 by (simp add: same_rest_def)
    have r1: "same_rest s0 s'" if "same_rest (s\<lparr>frames := fr\<rparr>) s'" for s'
      using that r0 by (simp add: same_rest_def)
    from inv1 i1 show ?thesis
    proof (cases rule: map_user_page_spec [where v = "page_of v k" and p = "page_addr j" and f = f])
      case (failed s2)
      obtain fr' where fr': "pmm_free_page (page_addr j) (frames s2) = Some fr'" "vm_inv (s2\<lparr>frames := fr'\<rparr>)"
          "free_set fr' = insert j (free_set (frames s2))"
        using give_back_frame [OF inv page(5,3,4,6) failed(2)] .
      have "user_range_loop (Some i) (page_of v k) (page_of v n) f s = Some (-1, s2\<lparr>frames := fr'\<rparr>)"
        using lt page(1,2) failed(1) fr'(1) by (subst user_range_loop.simps) simp
      moreover have "same_rest s0 (s2\<lparr>frames := fr'\<rparr>)"
        using r1 [of s2] failed(2) by (simp add: grown_def same_rest_def)
      moreover have "card (free_set (frames (s2\<lparr>frames := fr'\<rparr>))) \<le> 1 \<or> pgd (mm_pool s0 i) = 0
          \<or> (\<exists>k<n. USER_VMA_END \<le> page_of v k)"
        using failed(3) r0 k by (auto simp: fr'(3) same_rest_def avail_def)
      ultimately show ?thesis using fr'(2) failed(2) other by (simp add: grown_def)
    next
      case (mapped s2)
      have "user_mapped s0 i v f (Suc k) (js(k := j)) s2"
        using user_mapped_Suc [OF Suc.prems(1) page(5) mapped(2) _ mapped(4) bk] mapped(3,5,6) page(6)
        by (simp add: same_rest_def)
      moreover have "user_range_loop (Some i) (page_of v k) (page_of v n) f s =
          user_range_loop (Some i) (page_of v (Suc k)) (page_of v n) f s2"
        using lt page(1,2) mapped(1) nxt by (subst user_range_loop.simps) simp
      ultimately show ?thesis using Suc.hyps(1) [OF d(1) _ d(2)] by simp
    qed
  qed
qed

section \<open>Address spaces come and go\<close>

lemma vm_inv_new_root:
  assumes inv: "vm_inv s" and r: "root_of s (Some m) = None" and a: "a \<in> avail s" "a \<noteq> 0"
    and pool: "pool_ok s'" "avail s' = avail s - {a}"
    and roots: "\<And>r. root_of s' r = (if r = Some m then Some a else root_of s r)"
    and tabs': "tabs s' = (tabs s)(a := z)" and z: "\<forall>j. 0 \<le> j \<and> j < VMM_ENTRIES div 2 \<longrightarrow> z j = 0"
  shows "vm_inv s'" and "owned_addr r v \<Longrightarrow> lookup s' r v = lookup s r v"
proof -
  have other: "node s' r p = node s r p" if "r \<noteq> Some m" and p: "own r p" for r p
  proof (rule node_agree)
    show "root_of s' r = root_of s r" using that(1) roots by simp
    fix q j x b assume "p = q @ j # x" and b: "node s r q = Some b"
    then have "own r q" using p ownD by simp
    then have "b \<noteq> a" using vm_invD(2) [OF inv _ b] a by auto
    then show "tabs s' b j = tabs s b j" by (simp add: tabs')
  qed
  have new: "node s' (Some m) p = (if p = [] then Some a else None)" if "own (Some m) p" for p
  proof (cases p)
    case (Cons j q)
    then have "0 \<le> j" "j < VMM_ENTRIES div 2" using that by (simp_all add: own_def)
    then show ?thesis using Cons z by (simp add: node_def roots tabs')
  qed (simp add: node_def roots)
  have gone: "node s (Some m) p = None" for p using r by (simp add: node_def)
  have nd: "node s' r p = (if r = Some m \<and> p = [] then Some a else node s r p)" if "own r p" for r p
    using that other [OF _ that] new gone by (cases "r = Some m") auto
  have old: "b \<noteq> a" if "own r p" and "node s r p = Some b" for r p b
    using vm_invD(2) [OF inv that] a by auto
  show "vm_inv s'"
    unfolding vm_inv_def
  proof (intro conjI allI impI)
    show "pool_ok s'" by (rule pool)
  next
    fix r p b assume o: "own r p" and b: "node s' r p = Some b"
    show "b \<notin> avail s'" "b \<noteq> 0"
      using b vm_invD(2) [OF inv o] a unfolding nd [OF o] pool(2) by (auto split: if_splits)
  next
    fix r1 p1 r2 p2 b
    assume o: "own r1 p1" "own r2 p2" and b: "node s' r1 p1 = Some b" "node s' r2 p2 = Some b"
    show "r1 = r2" "p1 = p2"
      using b vm_invD(3) [OF inv o] old [OF o(1)] old [OF o(2)] unfolding nd [OF o(1)] nd [OF o(2)]
      by (auto split: if_splits)
  next
    fix i p j b assume o: "own (Some i) (p @ [j])" and b: "node s' (Some i) p = Some b"
      and v: "pte_is_valid (tabs s' b j)"
    show "pte_is_table (tabs s' b j)"
    proof (cases "b = a")
      case True
      have "p = []" using b old [OF ownD [OF o]] True unfolding nd [OF ownD [OF o]] by (auto split: if_splits)
      then show ?thesis using o v z True by (simp add: own_def tabs')
    next
      case False
      then have "node s (Some i) p = Some b" using b unfolding nd [OF ownD [OF o]] by (auto split: if_splits)
      then show ?thesis using v vm_invD(4) [OF inv o] False by (simp add: tabs')
    qed
  qed
  show "lookup s' r v = lookup s r v" if "owned_addr r v"
  proof -
    have o: "own r (path v)" using that by (rule own_path)
    have "path v \<noteq> []" by (simp add: path_def)
    then have eq: "node s' r (path v) = node s r (path v)" unfolding nd [OF o] by simp
    have "tabs s' b = tabs s b" if "node s r (path v) = Some b" for b using old [OF o that] by (simp add: tabs')
    then show ?thesis unfolding lookup_def eq by (auto split: option.split)
  qed
qed

lemma create_spec:
  assumes inv: "vm_inv s"
  obtains (failed) s' where "vmm_create_address_space s = Some (None, s')" and "vm_inv s'"
      and "\<And>r w. owned_addr r w \<Longrightarrow> lookup s' r w = lookup s r w" and "MM_POOL_SIZE \<le> mm_index s \<or> avail s = {}"
  | (created) s' where "vmm_create_address_space s = Some (Some (mm_index s), s')" and "vm_inv s'"
      and "mm_index s' = Suc (mm_index s)" and "pgd (mm_pool s' (mm_index s)) \<noteq> 0"
      and "\<And>r w. owned_addr r w \<Longrightarrow> lookup s' r w = (if r = Some (mm_index s) then None else lookup s r w)"
      and "\<And>j. VMM_ENTRIES div 2 \<le> j \<Longrightarrow> j < VMM_ENTRIES \<Longrightarrow>
             tabs s' (pgd (mm_pool s' (mm_index s))) j = tabs s' (kernel_pgd s') j"
proof (cases "MM_POOL_SIZE \<le> mm_index s")
  case True
  then show thesis using inv by (intro failed [of s]) (simp_all add: vmm_create_address_space_def)
next
  case False
  let ?m = "mm_index s"
  define s0 where "s0 = s\<lparr>mm_index := ?m + 1\<rparr>"
  have "pool_ok s0" using vm_invD(1) [OF inv] by (simp add: s0_def pool_ok_def early_table_def inj_on_def)
  then show thesis
  proof (cases rule: alloc_page_table_spec)
    case none
    define s' where "s' = upd_mm ?m (\<lambda>m. m\<lparr>pgd := 0\<rparr>) s0"
    have c: "vmm_create_address_space s = Some (None, s')"
      using False none(1) by (simp add: vmm_create_address_space_def s0_def s'_def Let_def)
    have roots: "root_of s' r = root_of s r" for r
      by (simp add: root_of_def s'_def upd_mm_def s0_def split: option.split)
    moreover have [simp]: "tabs s' = tabs s" by (simp add: s'_def upd_mm_def s0_def)
    ultimately have [simp]: "node s' = node s" by (simp add: fun_eq_iff node_def split: option.split)
    have "pool_ok s' = pool_ok s" "avail s' = avail s"
      by (simp_all add: pool_ok_def avail_def s'_def upd_mm_def s0_def early_table_def inj_on_def)
    then have "vm_inv s'" using inv by (simp add: vm_inv_def)
    moreover have "lookup s' = lookup s" by (simp add: fun_eq_iff lookup_def split: option.split)
    moreover have "avail s = {}" using none(2) by (simp add: avail_def s0_def early_table_def)
    ultimately show ?thesis by (intro failed [OF c]) simp_all
  next
    case (table a z s1)
    let ?up = "\<lambda>i. if VMM_ENTRIES div 2 \<le> i \<and> i < VMM_ENTRIES then tabs s1 (kernel_pgd s1) i else tabs s1 a i"
    define s2 where "s2 = upd_mm ?m (\<lambda>m. m\<lparr>vma_list := None, total_vm := 0, users := 1\<rparr>)
        (upd_mm ?m (\<lambda>m. m\<lparr>pgd := a\<rparr>) s1)"
    define s' where "s' = s2\<lparr>tabs := (tabs s2)(a := ?up)\<rparr>"
    have a0: "a \<noteq> 0" using table(3) by (simp add: addr_ok_def)
    have tk: "tabs s2 = tabs s1" "kernel_pgd s2 = kernel_pgd s1" by (simp_all add: s2_def upd_mm_def)
    have c: "vmm_create_address_space s = Some (Some ?m, s')"
      using False table(1) a0
      by (simp add: vmm_create_address_space_def s0_def s'_def Let_def tk cong: if_cong flip: s2_def)
    have av0: "avail s0 = avail s" "tabs s0 = tabs s" by (simp_all add: avail_def s0_def early_table_def)
    have rest: "mm_pool s1 = mm_pool s" "mm_index s1 = Suc ?m" "kernel_pgd s1 = kernel_pgd s"
      using table(6) by (simp_all add: same_rest_def s0_def)
    have ka: "kernel_pgd s \<noteq> a"
      using vm_invD(2) [OF inv, of None "[]" "kernel_pgd s"] table(2) av0
      by (auto simp: own_def node_def root_of_def)
    have tabs': "tabs s' = (tabs s)(a := ?up)" using table(4) av0 by (simp add: s'_def tk)
    have pool: "pool_ok s'" "avail s' = avail s - {a}"
      using table(8,9) av0
      by (simp_all add: pool_ok_def avail_def s'_def s2_def upd_mm_def early_table_def inj_on_def)
    have roots: "root_of s' r = (if r = Some ?m then Some a else root_of s r)" for r
      using rest a0 by (auto simp: root_of_def s'_def s2_def upd_mm_def split: option.split)
    have r0: "root_of s (Some ?m) = None" by (simp add: root_of_def)
    have z: "\<forall>j. 0 \<le> j \<and> j < VMM_ENTRIES div 2 \<longrightarrow> ?up j = 0"
      using table(5) by (simp add: table(4) VMM_ENTRIES_def)
    have aav: "a \<in> avail s" using table(2) av0 by simp
    note new = vm_inv_new_root [OF inv r0 aav a0 pool roots tabs' z]
    have lk: "lookup s' r w = (if r = Some ?m then None else lookup s r w)" if "owned_addr r w" for r w
      using new(2) [OF that] r0 by (simp add: lookup_def node_def)
    have pg: "pgd (mm_pool s' ?m) = a" "kernel_pgd s' = kernel_pgd s1"
      by (simp_all add: s'_def s2_def upd_mm_def)
    have "mm_index s' = Suc ?m" using rest by (simp add: s'_def s2_def upd_mm_def)
    moreover have "tabs s' (pgd (mm_pool s' ?m)) j = tabs s' (kernel_pgd s') j"
      if "VMM_ENTRIES div 2 \<le> j" "j < VMM_ENTRIES" for j
      using that ka rest table(4) av0 by (simp add: pg tabs')
    ultimately show ?thesis using a0 pg by (intro created [OF c new(1) _ _ lk]) auto
  qed
qed

lemma destroy_spec:
  assumes inv: "vm_inv s" and i: "i < mm_index s"
  shows "vm_inv (vmm_destroy_address_space (Some i) s)"
    and "owned_addr r w \<Longrightarrow> lookup (vmm_destroy_address_space (Some i) s) r w =
           (if r = Some i then None else lookup s r w)"
proof -
  let ?t = "pgd (mm_pool s i)" and ?s = "vmm_destroy_address_space (Some i) s"
  have roots: "root_of ?s r = (if r = Some i then None else root_of s r)" for r
    by (auto simp: root_of_def vmm_destroy_address_space_def upd_mm_def Let_def split: option.split)
  have t: "node s (Some i) [] = Some ?t" if "?t \<noteq> 0" using i that by (simp add: node_def root_of_def)
  have tabs': "tabs ?s b = tabs s b" if "own r q" "node s r q = Some b" "r \<noteq> Some i" for r q b
  proof -
    have "own (Some i) []" by (simp add: own_def)
    then have "?t = 0 \<or> b \<noteq> ?t" using vm_invD(3) [OF inv that(1) _ that(2)] t that(3) by blast
    then show ?thesis by (auto simp: vmm_destroy_address_space_def upd_mm_def Let_def)
  qed
  have nd: "node ?s r p = (if r = Some i then None else node s r p)" if p: "own r p" for r p
  proof (cases "r = Some i")
    case False
    have "node ?s r p = node s r p"
    proof (rule node_agree)
      show "root_of ?s r = root_of s r" using False roots by simp
      fix q j x b assume "p = q @ j # x" and b: "node s r q = Some b"
      then show "tabs ?s b j = tabs s b j" using p ownD tabs' [OF _ b False] by simp
    qed
    then show ?thesis using False by simp
  qed (simp add: node_def roots)
  have pool: "pool_ok ?s = pool_ok s" "avail ?s = avail s"
    by (simp_all add: pool_ok_def avail_def vmm_destroy_address_space_def upd_mm_def Let_def early_table_def inj_on_def)
  show "vm_inv ?s"
    unfolding vm_inv_def pool
  proof (intro conjI allI impI)
    show "pool_ok s" by (rule vm_invD(1) [OF inv])
  next
    fix r p b assume o: "own r p" and b: "node ?s r p = Some b"
    show "b \<notin> avail s" "b \<noteq> 0"
      using b vm_invD(2) [OF inv o] unfolding nd [OF o] by (auto split: if_splits)
  next
    fix r1 p1 r2 p2 b
    assume o: "own r1 p1" "own r2 p2" and b: "node ?s r1 p1 = Some b" "node ?s r2 p2 = Some b"
    show "r1 = r2" "p1 = p2"
      using b vm_invD(3) [OF inv o] unfolding nd [OF o(1)] nd [OF o(2)] by (auto split: if_splits)
  next
    fix k p j b assume o: "own (Some k) (p @ [j])" and b: "node ?s (Some k) p = Some b"
      and v: "pte_is_valid (tabs ?s b j)"
    have b': "k \<noteq> i" "node s (Some k) p = Some b" using b unfolding nd [OF ownD [OF o]] by (auto split: if_splits)
    then show "pte_is_table (tabs ?s b j)"
      using v vm_invD(4) [OF inv o b'(2)] tabs' [OF ownD [OF o] b'(2)] by simp
  qed
  show "lookup ?s r w = (if r = Some i then None else lookup s r w)" if "owned_addr r w"
  proof -
    have o: "own r (path w)" using that by (rule own_path)
    have "tabs ?s b = tabs s b" if "r \<noteq> Some i" "node s r (path w) = Some b" for b
      using tabs' [OF o that(2,1)] .
    then show ?thesis unfolding lookup_def nd [OF o] by (auto split: option.split)
  qed
qed

section \<open>Boot\<close>

text \<open>Writing a block entry over an invalid one adds no table and no page mapping.\<close>

lemma set_block:
  assumes inv: "vm_inv s" and q: "own None (q @ [i])" and t: "node s None q = Some t"
    and nv: "\<not> pte_is_valid (tabs s t i)" and e: "\<not> pte_is_table e"
  shows "vm_inv (set_entry t i e s)" and "own r p \<Longrightarrow> node (set_entry t i e s) r p = node s r p"
    and "owned_addr r v \<Longrightarrow> lookup (set_entry t i e s) r v = lookup s r v"
proof -
  let ?s = "set_entry t i e s"
  have q': "own None q" using q by (rule ownD)
  have rest: "same_rest s ?s" by (simp add: set_entry_def same_rest_def)
  have root: "root_of ?s r = root_of s r" for r by (rule same_rest_root [OF rest])
  have uniq: "r = None \<and> p = q" if "own r p" and "node s r p = Some t" for r p
    using vm_invD(3) [OF inv that(1) q' that(2) t] .
  have nt: "\<not> pte_is_table (tabs s t i)" using nv pte_table_valid by blast
  have nd: "node ?s r p = node s r p" if o: "own r p" for r p
  proof (cases "\<exists>x. r = None \<and> p = q @ i # x")
    case True
    then obtain x where x: "r = None" "p = q @ i # x" by blast
    have "node ?s None q = node s None q"
    proof (rule node_agree [OF root])
      fix q2 j y b assume y: "q = q2 @ j # y" and b: "node s None q2 = Some b"
      have "own None q2" using q' y ownD by simp
      then have "b \<noteq> t" using uniq b y by auto
      then show "tabs ?s b j = tabs s b j" by (simp add: set_entry_def)
    qed
    then show ?thesis using t nt e by (simp add: x node_append set_entry_def)
  next
    case False
    show ?thesis
    proof (rule node_agree [OF root])
      fix q2 j y b assume y: "p = q2 @ j # y" and b: "node s r q2 = Some b"
      have "own r q2" using o y ownD by simp
      then have "j \<noteq> i" if "b = t" using uniq b y that False by auto
      then show "tabs ?s b j = tabs s b j" by (simp add: set_entry_def)
    qed
  qed
  then show "own r p \<Longrightarrow> node ?s r p = node s r p" .
  have pool: "avail ?s = avail s" "pool_ok ?s = pool_ok s"
    by (simp_all add: avail_def pool_ok_def set_entry_def early_table_def inj_on_def)
  show "vm_inv ?s"
    unfolding vm_inv_def pool
  proof (intro conjI allI impI)
    show "pool_ok s" by (rule vm_invD(1) [OF inv])
  next
    fix r p a assume o: "own r p" and a: "node ?s r p = Some a"
    show "a \<notin> avail s" "a \<noteq> 0" using a vm_invD(2) [OF inv o] unfolding nd [OF o] by simp_all
  next
    fix r1 p1 r2 p2 a
    assume o: "own r1 p1" "own r2 p2" and a: "node ?s r1 p1 = Some a" "node ?s r2 p2 = Some a"
    have "node s r1 p1 = Some a" "node s r2 p2 = Some a" using a unfolding nd [OF o(1)] nd [OF o(2)] .
    then show "r1 = r2" "p1 = p2" using vm_invD(3) [OF inv o] by simp_all
  next
    fix k p j a assume o: "own (Some k) (p @ [j])" and a: "node ?s (Some k) p = Some a"
      and v: "pte_is_valid (tabs ?s a j)"
    have a': "node s (Some k) p = Some a" using a unfolding nd [OF ownD [OF o]] .
    then have "a \<noteq> t" using uniq [OF ownD [OF o]] by auto
    then show "pte_is_table (tabs ?s a j)" using v vm_invD(4) [OF inv o a'] by (simp add: set_entry_def)
  qed
  show "lookup ?s r v = lookup s r v" if "owned_addr r v"
  proof -
    have o: "own r (path v)" using that by (rule own_path)
    have "length q < 3" using q by (simp add: own_def)
    then have "b \<noteq> t" if "node s r (path v) = Some b" for b
      using uniq [OF o] that by (auto simp: path_def)
    then show ?thesis unfolding lookup_def nd [OF o] by (auto simp: set_entry_def split: option.split)
  qed
qed

text \<open>The statically initialised state: cleared tables, no address space yet.\<close>

definition vmm_boot :: "u64 \<Rightarrow> u64 \<Rightarrow> pmm \<Rightarrow> (nat \<Rightarrow> mm_struct) \<Rightarrow> (nat \<Rightarrow> vm_area) \<Rightarrow> cpu \<Rightarrow> vmm" where
  "vmm_boot root et fr mms vmas c = \<lparr>kernel_pgd = root, early_tables = et, early_table_index = 0,
     tabs = (\<lambda>_ _. 0), frames = fr, mm_pool = mms, mm_index = 0, vma_pool = vmas, vma_index = 0, cpu_regs = c\<rparr>"

lemma vmm_boot_inv:
  assumes "pool_ok (vmm_boot root et fr mms vmas c)" and "root \<noteq> 0"
    and "root \<notin> avail (vmm_boot root et fr mms vmas c)"
  shows "vm_inv (vmm_boot root et fr mms vmas c)" and "lookup (vmm_boot root et fr mms vmas c) r v = None"
proof -
  let ?s = "vmm_boot root et fr mms vmas c"
  have nd: "node ?s r p = (if r = None \<and> p = [] then Some root else None)" for r p
    by (cases p) (auto simp: node_def root_of_def vmm_boot_def split: option.split)
  show "vm_inv ?s"
    unfolding vm_inv_def nd using assms by (auto split: if_splits)
  show "lookup ?s r v = None" by (simp add: lookup_def nd path_def)
qed

text \<open>How the processor translates an address when a level-1 block entry covers it (the output
  address is bits 30 to 47 of the entry and the low 30 bits of the address).\<close>

definition mmu_block :: "tables \<Rightarrow> u64 \<Rightarrow> u64 \<Rightarrow> u64 option" where
  "mmu_block m root v =
     (let e0 = m root (pte_index v 0); e1 = m (pte_to_phys e0) (pte_index v 1) in
      if pte_is_table e0 \<and> pte_is_valid e1 \<and> \<not> pte_is_table e1
      then Some ((pte_to_phys e1 AND NOT (mask 30)) OR (v AND mask 30)) else None)"

lemma identity_blocks:
  assumes l0: "m root 0 = phys_to_pte l1 (PTE_VALID OR PTE_TABLE)" "addr_ok l1"
    and l1: "m l1 0 = 0x405" "m l1 1 = 0x40000701" and v: "unat v < 2 ^ 31"
  shows "mmu_block m root v = Some v"
proof -
  have vp: "vpn v = unat v div 4096"
    unfolding vpn_def by (rule mod_less) (use v in \<open>simp add: less_mult_imp_div_less\<close>)
  have "unat v div 4096 < 2 ^ 19" using v by (simp add: less_mult_imp_div_less)
  then have i0: "pte_index v 0 = 0" by (simp add: pte_index_vpn vp)
  have q: "unat v div 4096 div 2 ^ 18 = unat v div 2 ^ 30" by (simp add: div_mult2_eq [symmetric])
  have "unat v div 2 ^ 30 < 2" using v by (simp add: less_mult_imp_div_less)
  then have i1: "pte_index v 1 = int (unat v div 2 ^ 30)" unfolding pte_index_vpn(2) vp q by simp
  have split: "v = push_bit 30 (drop_bit 30 v) OR (v AND mask 30)"
    by (rule bit_word_eqI) (auto simp: bit_simps)
  have d: "drop_bit 30 v = of_nat (unat v div 2 ^ 30)"
    unfolding unat_drop_bit [symmetric] by simp
  have e0: "pte_is_table (m root 0)" "pte_to_phys (m root 0) = l1"
    using table_entry [OF l0(2)] l0(1) by simp_all
  consider (low) "unat v div 2 ^ 30 = 0" | (high) "unat v div 2 ^ 30 = 1"
    using \<open>unat v div 2 ^ 30 < 2\<close> by linarith
  then show ?thesis
  proof cases
    case low
    have "(pte_to_phys 0x405 AND NOT (mask 30)) OR (v AND mask 30) = v"
      using split d low by (simp add: pte_to_phys_def PTE_ADDR_MASK_def)
    then show ?thesis
      using i0 i1 low e0 l1 by (simp add: mmu_block_def pte_is_valid_bit pte_is_table_bit [of "0x405"])
  next
    case high
    have "(pte_to_phys 0x40000701 AND NOT (mask 30)) OR (v AND mask 30) = v"
      using split d high by (simp add: pte_to_phys_def PTE_ADDR_MASK_def mask_eq_exp_minus_1)
    then show ?thesis
      using i0 i1 high e0 l1 by (simp add: mmu_block_def pte_is_valid_bit pte_is_table_bit [of "0x40000701"])
  qed
qed

lemma vmm_init_spec:
  assumes pool: "pool_ok s" and s: "s = vmm_boot root et fr mms vmas c" and root: "root \<noteq> 0" "root \<notin> avail s"
  obtains s' l1 where "vmm_init ARCH_ARM64 s = Some (0, s')" and "vm_inv s'"
    and "\<And>r v. owned_addr r v \<Longrightarrow> lookup s' r v = None"
    and "kernel_pgd s' = root" and "tabs s' root 0 = phys_to_pte l1 (PTE_VALID OR PTE_TABLE)" and "addr_ok l1"
    and "tabs s' l1 0 = 0x405" and "tabs s' l1 1 = 0x40000701" and "tabs s' l1 256 = 0x4000000405"
    and "cpu_regs s' = load_tables ARCH_ARM64 root (set_attributes ARCH_ARM64 c)" and "frames s' = fr"
proof -
  define s0 where "s0 = s\<lparr>cpu_regs := set_attributes ARCH_ARM64 c\<rparr>"
  have s0: "s0 = vmm_boot root et fr mms vmas (set_attributes ARCH_ARM64 c)"
    by (simp add: s0_def s vmm_boot_def)
  have pool0: "pool_ok s0" "avail s0 = avail s"
    using pool by (simp_all add: s0_def pool_ok_def avail_def early_table_def inj_on_def)
  have inv0: "vm_inv s0" and lk0: "\<And>r v. lookup s0 r v = None"
    using vmm_boot_inv [of root et fr mms vmas "set_attributes ARCH_ARM64 c"] pool0 root unfolding s0 by auto
  have idx0: "pte_index 0 0 = 0" by (simp add: pte_index_vpn vpn_def)
  have n0: "node s0 None [] = Some root" by (simp add: s0 vmm_boot_def node_def root_of_def)
  have o0: "own None ([] @ [0])" by (simp add: own_def VMM_ENTRIES_def)
  have "early_table_index s0 < EARLY_TABLES_COUNT" by (simp add: s0 vmm_boot_def EARLY_TABLES_COUNT_def)
  then have av: "avail s0 \<noteq> {}" by (auto simp: avail_def)
  have nv: "\<not> pte_is_valid (tabs s0 root 0)" by (simp add: s0 vmm_boot_def)
  from inv0 o0 n0 nv show thesis
  proof (cases rule: grown_step)
    case none
    then show ?thesis using av by simp
  next
    case (table l1 s1 s2)
    have inv2: "vm_inv s2" and r2: "same_rest s0 s2" "cpu_regs s2 = cpu_regs s0"
      and lk2: "\<And>r v. owned_addr r v \<Longrightarrow> lookup s2 r v = lookup s0 r v"
      using table(4) by (simp_all add: grown_def)
    have zero: "tabs s2 l1 j = 0" if "0 \<le> j" "j < VMM_ENTRIES" for j using table(7) that by simp
    have n2: "node s2 None [0] = Some l1" using table(5) by simp
    have own: "own None ([0] @ [j])" if "0 \<le> j" "j < VMM_ENTRIES" for j
      using that by (simp add: own_def VMM_ENTRIES_def)
    have o1: "own None [0]" by (simp add: own_def VMM_ENTRIES_def)
    define s3 where "s3 = set_entry l1 0 0x405 s2"
    define s4 where "s4 = set_entry l1 1 0x40000701 s3"
    define s5 where "s5 = set_entry l1 256 0x4000000405 s4"
    have nt: "\<not> pte_is_table 0x405" "\<not> pte_is_table 0x40000701" "\<not> pte_is_table 0x4000000405"
      by (simp_all add: pte_is_table_bit)
    have range: "0 \<le> (1::int)" "1 < VMM_ENTRIES" "0 \<le> (256::int)" "256 < VMM_ENTRIES" "0 < VMM_ENTRIES"
      by (simp_all add: VMM_ENTRIES_def)
    have nv2: "\<not> pte_is_valid (tabs s2 l1 0)" using zero range by simp
    note b3 = set_block [OF inv2 own [of 0] n2 nv2 nt(1), folded s3_def]
    have n3: "node s3 None [0] = Some l1" using b3(2) [OF _ _ o1] n2 range by simp
    have nv3: "\<not> pte_is_valid (tabs s3 l1 1)" using zero range by (simp add: s3_def set_entry_def)
    note b4 = set_block [OF b3(1) own [of 1] n3 nv3 nt(2), folded s4_def]
    have n4: "node s4 None [0] = Some l1" using b4(2) [OF _ _ _ _ o1] n3 range by simp
    have nv4: "\<not> pte_is_valid (tabs s4 l1 256)" using zero range by (simp add: s4_def s3_def set_entry_def)
    note b5 = set_block [OF b4(1) own [of 256] n4 nv4 nt(3), folded s5_def]
    have root5: "kernel_pgd s5 = root" "cpu_regs s5 = set_attributes ARCH_ARM64 c"
      using r2 by (simp_all add: s5_def s4_def s3_def set_entry_def same_rest_def s0 vmm_boot_def)
    define s6 where "s6 = s5\<lparr>cpu_regs := load_tables ARCH_ARM64 root (set_attributes ARCH_ARM64 c)\<rparr>"
    have same: "node s6 = node s5" "tabs s6 = tabs s5" "pool_ok s6 = pool_ok s5" "avail s6 = avail s5"
      by (simp_all add: fun_eq_iff s6_def node_def root_of_def pool_ok_def avail_def early_table_def inj_on_def
          split: option.split)
    have "vmm_init ARCH_ARM64 s = Some (0, s6)"
    proof -
      have cr: "cpu_regs s = c" by (simp add: s vmm_boot_def)
      have al: "alloc_page_table (s\<lparr>cpu_regs := set_attributes ARCH_ARM64 c\<rparr>) = Some (l1, s1)"
        using table(1) by (simp add: s0_def)
      have k1: "kernel_pgd s1 = root"
        using r2(1) by (simp add: table(3) set_entry_def same_rest_def s0 vmm_boot_def)
      have e: "(0 AND PTE_ADDR_MASK) OR PTE_VALID OR PTE_BLOCK OR PTE_ATTR_DEVICE OR PTE_SH_NONE OR PTE_ACCESSED = 0x405"
        "(0x40000000 AND PTE_ADDR_MASK) OR PTE_VALID OR PTE_BLOCK OR PTE_ATTR_NORMAL OR PTE_SH_INNER
           OR PTE_ACCESSED = 0x40000701"
        "(0x4000000000 AND PTE_ADDR_MASK) OR PTE_VALID OR PTE_BLOCK OR PTE_ATTR_DEVICE OR PTE_SH_NONE
           OR PTE_ACCESSED = 0x4000000405"
        by (simp_all add: pte_bit_defs)
      have s5: "set_entry l1 256 0x4000000405 (set_entry l1 1 0x40000701 (set_entry l1 0 0x405
          (set_entry (kernel_pgd s1) 0 (phys_to_pte l1 (PTE_VALID OR PTE_TABLE)) s1))) = s5"
        by (simp add: s5_def s4_def s3_def table(3) k1)
      show ?thesis
        unfolding vmm_init_def Let_def cr e idx0
        by (simp add: al table(2) s5 root5 s6_def)
    qed
    moreover have "vm_inv s6" using b5(1) b4(1) b3(1) range by (simp add: vm_inv_def same)
    moreover have "lookup s6 r v = None" if "owned_addr r v" for r v
    proof -
      have "lookup s6 r v = lookup s5 r v" by (simp add: lookup_def same split: option.split)
      then show ?thesis
        using b5(3) [OF _ _ _ _ _ _ that] b4(3) [OF _ _ _ _ that] b3(3) [OF _ _ that] lk2 [OF that] lk0 range
        by simp
    qed
    moreover have "kernel_pgd s6 = root" "cpu_regs s6 = load_tables ARCH_ARM64 root (set_attributes ARCH_ARM64 c)"
      using root5 by (simp_all add: s6_def)
    moreover have "tabs s6 root 0 = phys_to_pte l1 (PTE_VALID OR PTE_TABLE)" "tabs s6 l1 0 = 0x405"
      "tabs s6 l1 1 = 0x40000701" "tabs s6 l1 256 = 0x4000000405"
      using table(9) by (simp_all add: same s5_def s4_def s3_def set_entry_def table(3))
    moreover have "frames s6 = fr"
      using table(1) \<open>early_table_index s0 < EARLY_TABLES_COUNT\<close>
      by (auto simp: s6_def s5_def s4_def s3_def table(3) set_entry_def alloc_page_table_def zero_table_def Let_def
          s0 vmm_boot_def)
    ultimately show ?thesis using that table(8) by blast
  qed
qed

section \<open>Properties\<close>

lemma virt_to_phys_cong:
  "vm_inv s \<Longrightarrow> vm_inv s' \<Longrightarrow> lookup s' None w = lookup s None w \<Longrightarrow> vmm_virt_to_phys w s' = vmm_virt_to_phys w s"
  by (simp add: virt_to_phys_lookup)

lemma virt_to_phys_mapped:
  "vm_inv s \<Longrightarrow> lookup s None w = Some (phys_to_pte p (vm_flags_to_pte f)) \<Longrightarrow>
   vmm_virt_to_phys w s = Some ((p AND PTE_ADDR_MASK) OR (w AND (PAGE_SIZE - 1)))"
  using leaf_entry(2) [OF vm_flags_to_pte_bits] by (simp add: virt_to_phys_lookup phys_to_pte_def)

lemma map_unmap_spec:
  assumes inv: "vm_inv s" and inv': "vm_inv s'" and none: "lookup s None v = None"
    and lk: "\<And>r w. owned_addr r w \<Longrightarrow> lookup s' r w = (if r = None \<and> vpn w = vpn v then Some e else lookup s r w)"
  shows "\<exists>s''. vmm_unmap_page v s' = Some (0, s'') \<and> vm_inv s'' \<and> tlb (cpu_regs s'') (drop_bit 12 v) = None
    \<and> (\<forall>w. vmm_virt_to_phys w s'' = vmm_virt_to_phys w s)"
  using inv'
proof (cases rule: unmap_page_spec [where v = v])
  case failed
  then show ?thesis using lk [of None v] by simp
next
  case (unmapped s'')
  have "lookup s'' None w = lookup s None w" for w
    using unmapped(6) [of None w] lk [of None w] none lookup_vpn [of w v s None] by (cases "vpn w = vpn v") simp_all
  then have "\<forall>w. vmm_virt_to_phys w s'' = vmm_virt_to_phys w s"
    using virt_to_phys_cong [OF inv unmapped(2)] by blast
  moreover have "tlb (cpu_regs s'') (drop_bit 12 v) = None" by (simp add: unmapped(5))
  ultimately show ?thesis using unmapped(1,2) by blast
qed

text \<open>Mapping a kernel page. \<^verbatim>\<open>vmm_map_page\<close> always returns and keeps the page-table
  invariant. Result 0: the page was not mapped; now \<^verbatim>\<open>vmm_virt_to_phys\<close> translates its addresses to
  the given frame, all other addresses as before, and \<^verbatim>\<open>vmm_unmap_page\<close> undoes exactly this mapping
  and drops the TLB entry. Result -1: no translation changes, and the page was mapped, a block
  entry covers it, or no table could be allocated. User mappings never change.\<close>

theorem vmm_map_page_correct:
  assumes inv: "vm_inv s"
  shows "\<exists>ret s'. vmm_map_page v p f s = Some (ret, s') \<and> vm_inv s'
    \<and> (ret = 0 \<and> lookup s None v = None
         \<and> (\<forall>w. vmm_virt_to_phys w s' =
               (if vpn w = vpn v then Some ((p AND PTE_ADDR_MASK) OR (w AND (PAGE_SIZE - 1)))
                else vmm_virt_to_phys w s))
         \<and> (\<exists>s''. vmm_unmap_page v s' = Some (0, s'') \<and> vm_inv s'' \<and> tlb (cpu_regs s'') (drop_bit 12 v) = None
               \<and> (\<forall>w. vmm_virt_to_phys w s'' = vmm_virt_to_phys w s))
       \<or> ret = -1 \<and> (\<forall>w. vmm_virt_to_phys w s' = vmm_virt_to_phys w s)
         \<and> (lookup s None v \<noteq> None \<or> blocked s v \<or> avail s' = {}))
    \<and> (\<forall>i w. w < USER_VMA_END \<longrightarrow> lookup s' (Some i) w = lookup s (Some i) w)"
  using inv
proof (cases rule: map_page_spec [where v = v and p = p and f = f])
  case (failed s')
  have "\<forall>w. vmm_virt_to_phys w s' = vmm_virt_to_phys w s"
    using failed(2) virt_to_phys_cong [OF inv, of s'] by (simp add: grown_def)
  moreover have "\<forall>i w. w < USER_VMA_END \<longrightarrow> lookup s' (Some i) w = lookup s (Some i) w"
    using failed(2) by (simp add: grown_def owned_addr_def)
  moreover have "vm_inv s'" using failed(2) by (simp add: grown_def)
  ultimately show ?thesis using failed(1,3) by blast
next
  case (mapped s')
  have "vmm_virt_to_phys w s' = (if vpn w = vpn v then Some ((p AND PTE_ADDR_MASK) OR (w AND (PAGE_SIZE - 1)))
                else vmm_virt_to_phys w s)" for w
    using mapped(6) [of None w] virt_to_phys_mapped [OF mapped(2), of w] virt_to_phys_cong [OF inv mapped(2), of w]
    by (cases "vpn w = vpn v") simp_all
  moreover have "\<forall>i w. w < USER_VMA_END \<longrightarrow> lookup s' (Some i) w = lookup s (Some i) w"
    using mapped(6) by (simp add: owned_addr_def)
  ultimately show ?thesis
    using mapped(1,2,4) map_unmap_spec [OF inv mapped(2,4,6)] by blast
qed

text \<open>C3. Mapping a range is all or nothing. \<^verbatim>\<open>vmm_map_range\<close> always returns. Result 0: every page
  of the rounded range was unmapped and now translates to the frame at the same offset, and no
  other translation changed. Result -1: no translation changed at all, and either the tables ran
  out or some page of the range was mapped, occurs twice in the range, or is covered by a block.\<close>

theorem vmm_map_range_atomic:
  fixes vaddr paddr sz :: u64
  assumes inv: "vm_inv s"
  defines "v \<equiv> PAGE_ALIGN_DOWN vaddr" and "p \<equiv> PAGE_ALIGN_DOWN paddr" and "n \<equiv> unat (PAGE_ALIGN sz) div 4096"
  shows "\<exists>ret s'. vmm_map_range vaddr paddr sz f s = Some (ret, s') \<and> vm_inv s'
    \<and> (ret = 0
         \<and> (\<forall>k<n. lookup s None (page_of v k) = None
               \<and> (\<forall>w. vpn w = vpn (page_of v k) \<longrightarrow>
                    vmm_virt_to_phys w s' = Some ((page_of p k AND PTE_ADDR_MASK) OR (w AND (PAGE_SIZE - 1)))))
         \<and> (\<forall>w. vpn w \<notin> pages_of v {..<n} \<longrightarrow> vmm_virt_to_phys w s' = vmm_virt_to_phys w s)
       \<or> ret = -1 \<and> (\<forall>w. vmm_virt_to_phys w s' = vmm_virt_to_phys w s)
         \<and> (avail s' = {} \<or> (\<exists>k<n. range_conflict s v k)))"
proof -
  define m where "m = unat (sz + PAGE_SIZE - 1) div 4096"
  have m: "m < 2 ^ 52" unfolding m_def by (rule pages_bound)
  have al: "PAGE_ALIGN sz = of_nat m * PAGE_SIZE" by (simp add: page_align_pages m_def)
  then have nm: "n = m" using unat_mult_page [OF m] by (simp add: n_def PAGE_SIZE_eq)
  have v: "PAGE_ALIGN_DOWN v = v"
    unfolding v_def PAGE_ALIGN_DOWN_def by (simp add: and.assoc)
  have "mapped_range s v p f 0 s" using inv by (simp add: mapped_range_def)
  from map_loop_spec [OF this _ m v] obtain ret s' where
    r: "vmm_map_range vaddr paddr sz f s = Some (ret, s')"
    and c: "ret = 0 \<and> mapped_range s v p f m s'
       \<or> ret = -1 \<and> vm_inv s' \<and> same_rest s s' \<and> (\<forall>r w. owned_addr r w \<longrightarrow> lookup s' r w = lookup s r w)
         \<and> (avail s' = {} \<or> (\<exists>k<m. range_conflict s v k))"
    by (auto simp: vmm_map_range_def al v_def p_def)
  show ?thesis
  proof (rule disjE [OF c])
    assume r0: "ret = 0 \<and> mapped_range s v p f m s'"
    then have mr: "mapped_range s v p f m s'" by simp
    then have inv': "vm_inv s'" by (simp add: mapped_range_def)
    have page: "lookup s None (page_of v k) = None"
      "lookup s' None (page_of v k) = Some (phys_to_pte (page_of p k) (vm_flags_to_pte f))" if "k < n" for k
      using mr that by (simp_all add: mapped_range_def nm)
    have "vmm_virt_to_phys w s' = Some ((page_of p k AND PTE_ADDR_MASK) OR (w AND (PAGE_SIZE - 1)))"
      if "k < n" "vpn w = vpn (page_of v k)" for k w
      using page(2) [OF that(1)] lookup_vpn [OF that(2)] by (intro virt_to_phys_mapped [OF inv']) simp
    moreover have "vmm_virt_to_phys w s' = vmm_virt_to_phys w s" if "vpn w \<notin> pages_of v {..<n}" for w
      using mr that by (intro virt_to_phys_cong [OF inv inv']) (simp add: mapped_range_def nm)
    ultimately show ?thesis using r r0 inv' page(1) by blast
  next
    assume f: "ret = -1 \<and> vm_inv s' \<and> same_rest s s' \<and> (\<forall>r w. owned_addr r w \<longrightarrow> lookup s' r w = lookup s r w)
         \<and> (avail s' = {} \<or> (\<exists>k<m. range_conflict s v k))"
    then have "\<forall>w. vmm_virt_to_phys w s' = vmm_virt_to_phys w s"
      using virt_to_phys_cong [OF inv, of s'] by simp
    then show ?thesis using r f unfolding nm by blast
  qed
qed

lemma add_vma_simps:
  assumes "s1 = snd (vmm_add_vma (Some i) a b f s)"
  shows "lookup s1 = lookup s" and "vm_inv s1 = vm_inv s" and "frames s1 = frames s" and "mm_index s1 = mm_index s"
    and "pgd (mm_pool s1 j) = pgd (mm_pool s j)"
proof -
  have f: "tabs s1 = tabs s" "kernel_pgd s1 = kernel_pgd s" "mm_index s1 = mm_index s" "frames s1 = frames s"
    "early_tables s1 = early_tables s" "early_table_index s1 = early_table_index s"
    "pgd (mm_pool s1 j) = pgd (mm_pool s j)" for j
    using assms by (auto simp: vmm_add_vma_def upd_mm_def Let_def)
  have r: "root_of s1 = root_of s" by (simp add: fun_eq_iff root_of_def f split: option.split)
  have nd: "node s1 = node s" by (simp add: fun_eq_iff node_def r f split: option.split)
  show "lookup s1 = lookup s" by (simp add: fun_eq_iff lookup_def nd f split: option.split)
  have "early_table s1 = early_table s" by (simp add: fun_eq_iff early_table_def f)
  then have "pool_ok s1 = pool_ok s" "avail s1 = avail s" by (simp_all add: pool_ok_def avail_def f)
  then show "vm_inv s1 = vm_inv s" by (simp add: vm_inv_def nd f)
qed (use assms in \<open>auto simp: vmm_add_vma_def upd_mm_def Let_def\<close>)

lemma find_new_vma:
  assumes s1: "s1 = snd (vmm_add_vma (Some i) a b f s)" and room: "vma_index s < VMA_POOL_SIZE"
    and rest: "same_rest s1 s'" and x: "a \<le> x" "x < b"
  shows "vmm_find_vma (Some i) x s' = Some (Some (vma_index s)) \<and> va_flags (vma_pool s' (vma_index s)) = f"
proof -
  have "vma_list (mm_pool s' i) = Some (vma_index s)" "vma_pool s' (vma_index s) = \<lparr>va_start = a, va_end = b, va_flags = f, va_next = vma_list (mm_pool s i)\<rparr>"
    using room rest by (simp_all add: s1 vmm_add_vma_def upd_mm_def Let_def same_rest_def)
  then show ?thesis using x by (simp add: vmm_find_vma_def find_vma_from.simps)
qed

lemma user_range_bounds:
  assumes b: "unat vaddr + unat sz + 4095 < 2 ^ 64"
  shows "(vaddr + sz + PAGE_SIZE - 1) AND NOT (PAGE_SIZE - 1) =
      page_of (PAGE_ALIGN_DOWN vaddr) ((unat vaddr + unat sz + 4095) div 4096 - unat vaddr div 4096)"
    and "unat (PAGE_ALIGN_DOWN vaddr) + ((unat vaddr + unat sz + 4095) div 4096 - unat vaddr div 4096) * 4096 < 2 ^ 64"
proof -
  let ?a = "unat vaddr div 4096" and ?e = "(unat vaddr + unat sz + 4095) div 4096"
  have w: "vaddr + sz + PAGE_SIZE - 1 = of_nat (unat vaddr + unat sz + 4095)" by (simp add: PAGE_SIZE_eq)
  have "unat (vaddr + sz + PAGE_SIZE - 1) = unat vaddr + unat sz + 4095"
    unfolding w by (rule unat_of_nat_small) (use b in simp)
  then have e: "(vaddr + sz + PAGE_SIZE - 1) AND NOT (PAGE_SIZE - 1) = of_nat ?e * 4096"
    unfolding align_down_mult by simp
  have a: "PAGE_ALIGN_DOWN vaddr = of_nat ?a * 4096" unfolding PAGE_ALIGN_DOWN_def by (rule align_down_mult)
  have ae: "?a \<le> ?e" by (rule div_le_mono) simp
  then show "(vaddr + sz + PAGE_SIZE - 1) AND NOT (PAGE_SIZE - 1) = page_of (PAGE_ALIGN_DOWN vaddr) (?e - ?a)"
    by (subst e) (simp add: a page_of_def PAGE_SIZE_eq of_nat_diff left_diff_distrib)
  have "unat (PAGE_ALIGN_DOWN vaddr) = ?a * 4096"
    unfolding a by (rule unat_mult_page) (rule pages_bound)
  then have "unat (PAGE_ALIGN_DOWN vaddr) + (?e - ?a) * 4096 = ?e * 4096"
    using ae by (simp add: add_mult_distrib [symmetric])
  also have "\<dots> \<le> unat vaddr + unat sz + 4095" by (simp add: div_times_less_eq_dividend)
  finally show "unat (PAGE_ALIGN_DOWN vaddr) + (?e - ?a) * 4096 < 2 ^ 64" using b by simp
qed


text \<open>Address spaces are created empty and destroyed without touching others. A new one maps
  no user page, shares the upper half of the kernel's root table, and leaves every other mapping
  alone; creation fails only when the pool of 64 is used up or no table is left. Destroying an
  address space removes its mappings and no others. The page-table invariant holds throughout.\<close>

theorem vmm_address_space_lifecycle:
  assumes inv: "vm_inv s"
  shows "\<exists>mm s'. vmm_create_address_space s = Some (mm, s') \<and> vm_inv s'
    \<and> (mm = None \<and> (MM_POOL_SIZE \<le> mm_index s \<or> avail s = {})
         \<and> (\<forall>r w. owned_addr r w \<longrightarrow> lookup s' r w = lookup s r w)
       \<or> mm = Some (mm_index s) \<and> mm_index s' = Suc (mm_index s)
         \<and> (\<forall>r w. owned_addr r w \<longrightarrow> lookup s' r w = (if r = mm then None else lookup s r w))
         \<and> (\<forall>j. VMM_ENTRIES div 2 \<le> j \<and> j < VMM_ENTRIES \<longrightarrow>
               tabs s' (pgd (mm_pool s' (mm_index s))) j = tabs s' (kernel_pgd s') j))
    \<and> (\<forall>i < mm_index s'. vm_inv (vmm_destroy_address_space (Some i) s')
         \<and> (\<forall>r w. owned_addr r w \<longrightarrow> lookup (vmm_destroy_address_space (Some i) s') r w =
               (if r = Some i then None else lookup s' r w)))"
  using inv
proof (cases rule: create_spec)
  case (failed s')
  then show ?thesis using destroy_spec [OF failed(2)] by blast
next
  case (created s')
  have "\<forall>r w. owned_addr r w \<longrightarrow> lookup s' r w = (if r = Some (mm_index s) then None else lookup s r w)"
    using created(5) by blast
  then show ?thesis using created(1,2,3,6) destroy_spec [OF created(2)] by blast
qed

text \<open>Boot. From the statically cleared tables \<^verbatim>\<open>vmm_init\<close> on ARM64 succeeds, establishes the
  page-table invariant, loads the kernel's root table into both translation registers and switches
  the MMU on; the processor then translates every address below 2 GB to itself. The software walk
  does not understand the block entries this uses: \<^verbatim>\<open>vmm_virt_to_phys\<close> answers 0 (not mapped) for
  all of them.\<close>

theorem vmm_init_identity_map:
  assumes pool: "pool_ok (vmm_boot root et fr mms vmas c)" and root: "root \<noteq> 0"
    and out: "root \<notin> avail (vmm_boot root et fr mms vmas c)"
  shows "\<exists>s'. vmm_init ARCH_ARM64 (vmm_boot root et fr mms vmas c) = Some (0, s') \<and> vm_inv s'
    \<and> ttbr0_el1 (cpu_regs s') = root \<and> ttbr1_el1 (cpu_regs s') = root \<and> bit (sctlr_el1 (cpu_regs s')) 0
    \<and> (\<forall>v. unat v < 2 ^ 31 \<longrightarrow> mmu_block (tabs s') root v = Some v)
    \<and> (\<forall>v. vmm_virt_to_phys v s' = Some 0)"
proof -
  obtain s' l1 where s': "vmm_init ARCH_ARM64 (vmm_boot root et fr mms vmas c) = Some (0, s')" "vm_inv s'"
    and lk: "\<And>r v. owned_addr r v \<Longrightarrow> lookup s' r v = None"
    and k: "kernel_pgd s' = root" and l0: "tabs s' root 0 = phys_to_pte l1 (PTE_VALID OR PTE_TABLE)" "addr_ok l1"
    and l1: "tabs s' l1 0 = 0x405" "tabs s' l1 1 = 0x40000701" "tabs s' l1 256 = 0x4000000405"
    and c: "cpu_regs s' = load_tables ARCH_ARM64 root (set_attributes ARCH_ARM64 c)"
    by (rule vmm_init_spec [OF pool refl root out]) blast
  have "mmu_block (tabs s') root v = Some v" if v: "unat v < 2 ^ 31" for v
    by (rule identity_blocks [OF l0 l1(1,2) v])
  moreover have "vmm_virt_to_phys v s' = Some 0" for v
    using virt_to_phys_lookup [OF s'(2)] lk by simp
  moreover have "ttbr0_el1 (cpu_regs s') = root" "ttbr1_el1 (cpu_regs s') = root" "bit (sctlr_el1 (cpu_regs s')) 0"
    by (simp_all add: c load_tables_def bit_simps)
  ultimately show ?thesis using s' by blast
qed

section \<open>Witnesses\<close>

text \<open>A boot state with the static tables at 1 MB, below the memory of the page allocator, and the
  state after an address space has been created there.\<close>

definition mm_zero :: mm_struct where
  "mm_zero = \<lparr>pgd = 0, vma_list = None, total_vm = 0, users = 0, start_code = 0, end_code = 0, start_data = 0,
     end_data = 0, start_brk = 0, brk = 0, start_stack = 0, arg_start = 0, arg_end = 0, env_start = 0, env_end = 0\<rparr>"

definition demo_vm :: vmm where
  "demo_vm = vmm_boot 0x100000 0x101000 pmm_ready (\<lambda>_. mm_zero)
     (\<lambda>_. \<lparr>va_start = 0, va_end = 0, va_flags = 0, va_next = None\<rparr>)
     \<lparr>mair_el1 = 0, tcr_el1 = 0, ttbr0_el1 = 0, ttbr1_el1 = 0, sctlr_el1 = 0, cr3 = 0, tlb = Map.empty\<rparr>"

lemma demo_early: "k < EARLY_TABLES_COUNT \<Longrightarrow> unat (early_table demo_vm k) = 0x101000 + k * 0x1000"
proof -
  assume k: "k < EARLY_TABLES_COUNT"
  have "early_table demo_vm k = of_nat (0x101000 + k * 0x1000)"
    by (simp add: early_table_def demo_vm_def vmm_boot_def PAGE_SIZE_eq)
  then show ?thesis
    using unat_of_nat_small [of "0x101000 + k * 0x1000", where 'a = 64] k by (simp add: EARLY_TABLES_COUNT_def)
qed

lemma demo_low: "unat a < 0x40000000 \<Longrightarrow> a \<notin> page_addr ` free_set fr"
proof
  assume a: "unat a < 0x40000000" and "a \<in> page_addr ` free_set fr"
  then obtain j where j: "a = page_addr j" "j < N_PAGES" by (auto simp: free_set_def page_free_def)
  have "unat (page_addr j) = (0x40000 + j) * 4096"
    unfolding page_addr_mult by (rule unat_mult_page) (use j(2) in \<open>simp add: N_PAGES_def\<close>)
  then show False using a j(1) by simp
qed

lemma demo_pool: "pool_ok demo_vm"
proof -
  have "addr_ok (early_table demo_vm k)" if "k < EARLY_TABLES_COUNT" for k
  proof -
    have "k = 0 \<or> k = 1 \<or> k = 2 \<or> k = 3" using that by (auto simp: EARLY_TABLES_COUNT_def)
    then show ?thesis
      by (elim disjE) (simp_all add: addr_ok_def early_table_def demo_vm_def vmm_boot_def PAGE_SIZE_eq PTE_ADDR_MASK_def)
  qed
  moreover have "inj_on (early_table demo_vm) {..<EARLY_TABLES_COUNT}"
    by (rule inj_onI) (metis demo_early add_left_cancel lessThan_iff mult_right_cancel zero_neq_numeral)
  moreover have "early_table demo_vm k \<notin> page_addr ` free_set fr" if "k < EARLY_TABLES_COUNT" for k fr
    using demo_early [OF that] that by (intro demo_low) (simp add: EARLY_TABLES_COUNT_def)
  moreover have "frames demo_vm = pmm_ready" by (simp add: demo_vm_def vmm_boot_def)
  ultimately show ?thesis using pmm_inv_ready by (simp add: pool_ok_def)
qed

lemma demo_root: "0x100000 \<notin> avail demo_vm"
proof -
  have "early_table demo_vm k \<noteq> 0x100000" if "k < EARLY_TABLES_COUNT" for k
    using demo_early [OF that] by auto
  then show ?thesis using demo_low [of "0x100000"] by (auto simp: avail_def)
qed

lemma demo_vm_inv: "vm_inv demo_vm"
  using vmm_boot_inv(1) demo_pool demo_root unfolding demo_vm_def by simp

lemma demo_lookup: "lookup demo_vm r v = None"
  using vmm_boot_inv(2) demo_pool demo_root unfolding demo_vm_def by simp

theorem vmm_map_page_correct_witness:
  "vm_inv demo_vm \<and> (\<exists>ret s'. vmm_map_page 0x80000000 0x40005000 3 demo_vm = Some (ret, s') \<and> vm_inv s')"
  using vmm_map_page_correct [OF demo_vm_inv, of "0x80000000" "0x40005000" 3] demo_vm_inv by blast

theorem vmm_map_range_atomic_witness:
  "vm_inv demo_vm \<and> (\<exists>ret s'. vmm_map_range 0x80000000 0x40005000 0x2001 3 demo_vm = Some (ret, s') \<and> vm_inv s')"
  using vmm_map_range_atomic [OF demo_vm_inv, of "0x80000000" "0x40005000" "0x2001" 3] demo_vm_inv by blast

theorem vmm_address_space_lifecycle_witness:
  "vm_inv demo_vm \<and> (\<exists>s'. vmm_create_address_space demo_vm = Some (Some 0, s') \<and> vm_inv s' \<and> mm_index s' = 1)"
proof -
  have "mm_index demo_vm = 0" "early_table_index demo_vm = 0" by (simp_all add: demo_vm_def vmm_boot_def)
  moreover from this have "avail demo_vm \<noteq> {}" by (auto simp: avail_def EARLY_TABLES_COUNT_def)
  ultimately show ?thesis
    using vmm_address_space_lifecycle [OF demo_vm_inv] demo_vm_inv by (auto simp: MM_POOL_SIZE_def)
qed

lemma demo_space: "\<exists>s. vm_inv s \<and> 0 < mm_index s \<and> pgd (mm_pool s 0) \<noteq> 0"
  using demo_vm_inv
proof (cases rule: create_spec)
  case (failed s')
  then show ?thesis by (auto simp: avail_def demo_vm_def vmm_boot_def EARLY_TABLES_COUNT_def MM_POOL_SIZE_def)
next
  case (created s')
  then show ?thesis by (auto simp: demo_vm_def vmm_boot_def)
qed


theorem vmm_init_identity_map_witness:
  "pool_ok demo_vm \<and> (0x100000 :: u64) \<noteq> 0 \<and> 0x100000 \<notin> avail demo_vm
   \<and> (\<exists>s'. vmm_init ARCH_ARM64 demo_vm = Some (0, s') \<and> mmu_block (tabs s') 0x100000 0x40080000 = Some 0x40080000
        \<and> vmm_virt_to_phys 0x40080000 s' = Some 0)"
proof -
  have "unat (0x40080000 :: u64) < 2 ^ 31" by simp
  then show ?thesis
    using vmm_init_identity_map [OF demo_pool [unfolded demo_vm_def] _ demo_root [unfolded demo_vm_def]]
      demo_pool demo_root unfolding demo_vm_def by auto
qed

end
