(* ===== verification/Aslr.thy ===== *)
theory Aslr
  imports Vmm
begin

text \<open>
  Address space layout randomisation, \<^verbatim>\<open>kernel/mm/aslr.c\<close>: a linear congruential generator seeded from the timer, and the offsets of
  stack, heap, program and mappings taken from its low bits.
\<close>

unbundle bit_operations_syntax

section \<open>The generator\<close>

definition LCG_MULTIPLIER :: u64 where "LCG_MULTIPLIER = 6364136223846793005"
definition LCG_INCREMENT :: u64 where "LCG_INCREMENT = 1442695040888963407"

definition ASLR_STACK_BITS :: nat where "ASLR_STACK_BITS = 12"
definition ASLR_HEAP_BITS :: nat where "ASLR_HEAP_BITS = 12"
definition ASLR_MMAP_BITS :: nat where "ASLR_MMAP_BITS = 16"
definition ASLR_EXEC_BITS :: nat where "ASLR_EXEC_BITS = 16"

text \<open>The static variables, and the values that the timer registers deliver one after the other.\<close>

record aslr =
  aslr_seed :: u64
  aslr_initialized :: bool
  timer :: "nat \<Rightarrow> u64"
  timer_reads :: nat

definition read_timer :: "aslr \<Rightarrow> u64 \<times> aslr" where
  "read_timer s = (timer s (timer_reads s), s\<lparr>timer_reads := timer_reads s + 1\<rparr>)"

text \<open>An architecture without a branch of its own is \<^term>\<open>None\<close>.\<close>

definition get_hardware_entropy :: "arch option \<Rightarrow> aslr \<Rightarrow> u64 \<times> aslr" where
  "get_hardware_entropy ar s =
     (case ar of
        Some ARCH_ARM64 \<Rightarrow>
          (let (cntpct, s) = read_timer s; (cntvct, s) = read_timer s
           in (cntpct XOR push_bit 13 cntvct XOR drop_bit 7 cntvct, s))
      | Some _ \<Rightarrow>
          (let (tsc, s) = read_timer s; lo = ucast tsc :: u32; hi = ucast (drop_bit 32 tsc) :: u32
           in (push_bit 32 (ucast hi) OR ucast lo, s))
      | None \<Rightarrow> (0x1234567890ABCDEF, s))"

definition next_random :: "aslr \<Rightarrow> u64 \<times> aslr" where
  "next_random s = (let seed = aslr_seed s * LCG_MULTIPLIER + LCG_INCREMENT in (seed, s\<lparr>aslr_seed := seed\<rparr>))"

definition aslr_init :: "arch option \<Rightarrow> aslr \<Rightarrow> aslr" where
  "aslr_init ar s =
     (let (entropy1, s) = get_hardware_entropy ar s;
          (entropy2, s) = get_hardware_entropy ar s;
          s = s\<lparr>aslr_seed := entropy1 XOR push_bit 13 entropy2 XOR drop_bit 7 entropy2\<rparr>;
          s = ((\<lambda>s. snd (next_random s)) ^^ 8) s
      in s\<lparr>aslr_initialized := True\<rparr>)"

definition aslr_random :: "arch option \<Rightarrow> aslr \<Rightarrow> u64 \<times> aslr" where
  "aslr_random ar s = next_random (if \<not> aslr_initialized s then aslr_init ar s else s)"

section \<open>Offsets\<close>

definition aslr_stack_offset :: "arch option \<Rightarrow> aslr \<Rightarrow> u64 \<times> aslr" where
  "aslr_stack_offset ar s =
     (let (random, s) = aslr_random ar s in (push_bit 12 (random AND (push_bit ASLR_STACK_BITS 1 - 1)), s))"

definition aslr_heap_offset :: "arch option \<Rightarrow> aslr \<Rightarrow> u64 \<times> aslr" where
  "aslr_heap_offset ar s =
     (let (random, s) = aslr_random ar s in (push_bit 12 (random AND (push_bit ASLR_HEAP_BITS 1 - 1)), s))"

definition aslr_exec_offset :: "arch option \<Rightarrow> aslr \<Rightarrow> u64 \<times> aslr" where
  "aslr_exec_offset ar s =
     (let (random, s) = aslr_random ar s in (push_bit 16 (random AND (push_bit ASLR_EXEC_BITS 1 - 1)), s))"

definition aslr_mmap_offset :: "arch option \<Rightarrow> aslr \<Rightarrow> u64 \<times> aslr" where
  "aslr_mmap_offset ar s =
     (let (random, s) = aslr_random ar s in (push_bit 12 (random AND (push_bit ASLR_MMAP_BITS 1 - 1)), s))"

section \<open>The low bits\<close>

text \<open>An offset of \<open>b\<close> bits is the remainder of the random number, so it is aligned and bounded, and it is a function of the low bits.\<close>

lemma masked_offset:
  fixes r :: u64
  assumes "b + sh < 64"
  shows "unat (push_bit sh (r AND (push_bit b 1 - 1))) = (unat r mod 2 ^ b) * 2 ^ sh"
proof -
  have "push_bit b 1 - 1 = (mask b :: u64)" by (simp add: mask_eq_exp_minus_1 push_bit_eq_mult)
  then have m: "r AND (push_bit b 1 - 1) = take_bit b r" by (simp add: take_bit_eq_mask)
  have u: "unat (take_bit b r) = unat r mod 2 ^ b" unfolding unsigned_take_bit_eq by (simp add: take_bit_eq_mod)
  have "(unat r mod 2 ^ b) * 2 ^ sh < 2 ^ b * 2 ^ sh" by simp
  also have "\<dots> \<le> 2 ^ 64" unfolding power_add [symmetric] using assms by (intro power_increasing) simp_all
  finally have lt: "(unat r mod 2 ^ b) * 2 ^ sh < 2 ^ 64" .
  have "unat (push_bit sh (take_bit b r)) = take_bit 64 (push_bit sh (unat (take_bit b r)))" by (simp only: unsigned_push_bit_eq) simp
  also have "\<dots> = (unat r mod 2 ^ b) * 2 ^ sh" unfolding u push_bit_eq_mult by (rule take_bit_nat_eq_self [OF lt])
  finally show ?thesis unfolding m .
qed

text \<open>The low \<open>b\<close> bits of the seed evolve on their own.\<close>

lemma next_low_bits:
  assumes "b \<le> 64" and "unat (aslr_seed s) mod 2 ^ b = unat (aslr_seed t) mod 2 ^ b"
  shows "unat (aslr_seed (snd (next_random s))) mod 2 ^ b = unat (aslr_seed (snd (next_random t))) mod 2 ^ b"
proof -
  have e: "unat (x * LCG_MULTIPLIER + LCG_INCREMENT) mod 2 ^ b = (unat x mod 2 ^ b * unat LCG_MULTIPLIER + unat LCG_INCREMENT) mod 2 ^ b"
    for x :: u64
  proof -
    have d: "(2 :: nat) ^ b dvd 2 ^ 64" using assms(1) by (rule le_imp_power_dvd)
    have "unat (x * LCG_MULTIPLIER + LCG_INCREMENT) = (unat x * unat LCG_MULTIPLIER + unat LCG_INCREMENT) mod 2 ^ 64"
      by (simp add: unat_word_ariths mod_simps)
    then have "unat (x * LCG_MULTIPLIER + LCG_INCREMENT) mod 2 ^ b = (unat x * unat LCG_MULTIPLIER + unat LCG_INCREMENT) mod 2 ^ b"
      using mod_mod_cancel [OF d] by simp
    also have "\<dots> = (unat x mod 2 ^ b * unat LCG_MULTIPLIER + unat LCG_INCREMENT) mod 2 ^ b"
      by (metis mod_add_left_eq mod_mult_left_eq)
    finally show ?thesis .
  qed
  show ?thesis using assms(2) by (simp add: next_random_def Let_def e)
qed

section \<open>Properties\<close>

lemma random_initialized: "aslr_initialized (snd (aslr_random ar s))"
  by (simp add: aslr_random_def next_random_def aslr_init_def Let_def split: prod.splits)

lemma aslr_random_low_bits:
  assumes "aslr_initialized s" and "aslr_initialized t" and "b \<le> 64"
    and "unat (aslr_seed s) mod 2 ^ b = unat (aslr_seed t) mod 2 ^ b"
  shows "unat (fst (aslr_random ar s)) mod 2 ^ b = unat (fst (aslr_random ar' t)) mod 2 ^ b
    \<and> unat (aslr_seed (snd (aslr_random ar s))) mod 2 ^ b = unat (aslr_seed (snd (aslr_random ar' t))) mod 2 ^ b"
  using next_low_bits [OF assms(3,4)] assms(1,2) by (simp add: aslr_random_def next_random_def Let_def)

text \<open>The offsets drawn by \<open>n\<close> calls for programs.\<close>

fun exec_offsets :: "arch option \<Rightarrow> nat \<Rightarrow> aslr \<Rightarrow> u64 list" where
  "exec_offsets ar 0 s = []"
| "exec_offsets ar (Suc n) s = (case aslr_exec_offset ar s of (off, s) \<Rightarrow> off # exec_offsets ar n s)"

lemmas offset_defs = aslr_stack_offset_def aslr_heap_offset_def aslr_mmap_offset_def aslr_exec_offset_def

lemma offset_values:
  "unat (fst (aslr_stack_offset ar s)) = (unat (fst (aslr_random ar s)) mod 2 ^ 12) * 2 ^ 12"
  "unat (fst (aslr_heap_offset ar s)) = (unat (fst (aslr_random ar s)) mod 2 ^ 12) * 2 ^ 12"
  "unat (fst (aslr_mmap_offset ar s)) = (unat (fst (aslr_random ar s)) mod 2 ^ 16) * 2 ^ 12"
  "unat (fst (aslr_exec_offset ar s)) = (unat (fst (aslr_random ar s)) mod 2 ^ 16) * 2 ^ 16"
  using masked_offset [of 12 12] masked_offset [of 16 12] masked_offset [of 16 16]
  by (simp_all only: offset_defs Let_def fst_conv split_beta ASLR_STACK_BITS_def ASLR_HEAP_BITS_def ASLR_MMAP_BITS_def ASLR_EXEC_BITS_def)

lemma exec_offsets_low_bits:
  assumes "aslr_initialized s" and "aslr_initialized t" and "unat (aslr_seed s) mod 2 ^ 16 = unat (aslr_seed t) mod 2 ^ 16"
  shows "exec_offsets ar n s = exec_offsets ar' n t"
  using assms
proof (induction n arbitrary: s t)
  case (Suc n)
  define s' t' where "s' = snd (aslr_random ar s)" and "t' = snd (aslr_random ar' t)"
  have st: "snd (aslr_exec_offset ar s) = s'" "snd (aslr_exec_offset ar' t) = t'"
    by (simp_all add: aslr_exec_offset_def Let_def s'_def t'_def split: prod.splits)
  note low = aslr_random_low_bits [OF Suc.prems(1,2) _ Suc.prems(3), of ar ar']
  have "unat (fst (aslr_exec_offset ar s)) = unat (fst (aslr_exec_offset ar' t))" using low by (simp add: offset_values)
  then have "fst (aslr_exec_offset ar s) = fst (aslr_exec_offset ar' t)" by (simp add: word_unat_eq_iff)
  moreover have "exec_offsets ar n s' = exec_offsets ar' n t'"
    using low by (intro Suc.IH) (simp_all add: s'_def t'_def random_initialized)
  ultimately show ?case using st by (simp add: split_beta)
qed simp

text \<open>C39. Every offset is page-aligned, the one of a program even 64~KB-aligned, and stays in its range: 16~MB for stack and heap,
  256~MB for mappings and 4~GB for programs. The offsets of programs are determined by the low 16 bits of the seed alone: two
  generators that agree on them deliver the same offsets for ever, so nothing above the bits that \<^verbatim>\<open>aslr_init\<close> prints to the log
  keeps them secret.\<close>

theorem aslr_offsets_bounded_and_predictable:
  "4096 dvd unat (fst (aslr_stack_offset ar s)) \<and> unat (fst (aslr_stack_offset ar s)) < 16 * 1024 * 1024
   \<and> 4096 dvd unat (fst (aslr_heap_offset ar s)) \<and> unat (fst (aslr_heap_offset ar s)) < 16 * 1024 * 1024
   \<and> 4096 dvd unat (fst (aslr_mmap_offset ar s)) \<and> unat (fst (aslr_mmap_offset ar s)) < 256 * 1024 * 1024
   \<and> 65536 dvd unat (fst (aslr_exec_offset ar s)) \<and> unat (fst (aslr_exec_offset ar s)) < 4 * 1024 * 1024 * 1024
   \<and> (aslr_initialized s \<and> aslr_initialized t \<and> unat (aslr_seed s) mod 65536 = unat (aslr_seed t) mod 65536
      \<longrightarrow> exec_offsets ar n s = exec_offsets ar' n t)"
proof -
  have b: "x mod 2 ^ k * 2 ^ j < 2 ^ (k + j)" for x k j :: nat by (simp add: power_add)
  show ?thesis
    unfolding offset_values using exec_offsets_low_bits [of s t ar n ar'] b [of _ 12 12] b [of _ 16 12] b [of _ 16 16] by simp
qed

theorem aslr_offsets_bounded_and_predictable_witness:
  "exec_offsets None 3 \<lparr>aslr_seed = 7, aslr_initialized = True, timer = (\<lambda>_. 0), timer_reads = 0\<rparr>
   = exec_offsets None 3 \<lparr>aslr_seed = 7 + 5 * 65536, aslr_initialized = True, timer = (\<lambda>_. 0), timer_reads = 0\<rparr>"
  using aslr_offsets_bounded_and_predictable [of None "\<lparr>aslr_seed = 7, aslr_initialized = True, timer = (\<lambda>_. 0), timer_reads = 0\<rparr>"
      "\<lparr>aslr_seed = 7 + 5 * 65536, aslr_initialized = True, timer = (\<lambda>_. 0), timer_reads = 0\<rparr>" 3 None] by simp

end
