(* ===== verification/Process.thy ===== *)
theory Process
  imports Vfs_Compat Elf Aslr
begin

text \<open>
  Processes, \<^verbatim>\<open>kernel/core/process.c\<close>: a table of sixteen slots, creation of a process from a program file (over the
  compatibility layer, the kernel heap, the loader and the address randomisation), preemptive round-robin scheduling, exit and
  killing a process with its children.

  A process is referred to by its slot. The function \<^verbatim>\<open>switch_context\<close> exchanges the registers of the processor with a saved
  context; what a function of the source does behind such a call happens when control comes back, and is only the re-enabling
  of interrupts. Each function is one step: the table lock is held or interrupts are off while the table changes, except that
  \<^verbatim>\<open>process_create\<close> works on a slot it has reserved. \<^term>\<open>None\<close> stands for undefined behaviour (a wrapped process number, a
  program image that is loaded over the kernel heap) or for a loop that does not end.
\<close>

section \<open>State\<close>

definition MAX_PROCESSES :: nat where "MAX_PROCESSES = 16"
definition PROCESS_NAME_MAX :: nat where "PROCESS_NAME_MAX = 32"
definition PROCESS_STACK_SIZE :: u64 where "PROCESS_STACK_SIZE = 0x100000"
definition PROGRAM_LOAD_BASE :: u64 where "PROGRAM_LOAD_BASE = 0x44000000"
definition PROCESS_TIME_SLICE_TICKS :: u32 where "PROCESS_TIME_SLICE_TICKS = 20"

datatype proc_state = PROC_STATE_FREE | PROC_STATE_READY | PROC_STATE_RUNNING | PROC_STATE_BLOCKED | PROC_STATE_ZOMBIE

text \<open>Registers by name; the stack pointer, program counter and flags have fields of their own.\<close>

record cpu_context =
  c_sp :: u64
  c_pc :: u64
  c_flags :: u64
  c_regs :: "string \<Rightarrow> u64"

definition zero_context :: cpu_context where
  "zero_context = \<lparr>c_sp = 0, c_pc = 0, c_flags = 0, c_regs = (\<lambda>_. 0)\<rparr>"

record process =
  p_pid :: int
  p_name :: bytes
  p_state :: proc_state
  p_load_base :: u64
  p_load_size :: u64
  p_stack_base :: ptr
  p_stack_size :: u64
  p_entry :: u64
  p_context :: cpu_context
  p_exit_status :: int
  p_parent_pid :: int

record psys =
  fsys :: compat
  rng :: aslr
  proc_table :: "nat \<Rightarrow> process"
  current_pid :: int
  current_process :: "nat option"
  next_pid :: int
  preempt_ticks :: u32
  program_base :: u64
  next_load_addr :: u64
  kernel_context :: cpu_context
  regs :: cpu_context
  irq_on :: bool

abbreviation "pheap s \<equiv> hp (cvfs (fsys s))"
abbreviation "pst s i \<equiv> p_state (proc_table s i)"

definition upd_proc :: "nat \<Rightarrow> (process \<Rightarrow> process) \<Rightarrow> psys \<Rightarrow> psys" where
  "upd_proc i f s = s\<lparr>proc_table := (proc_table s)(i := f (proc_table s i))\<rparr>"

definition set_state :: "nat \<Rightarrow> proc_state \<Rightarrow> psys \<Rightarrow> psys" where
  "set_state i st s = upd_proc i (p_state_update (\<lambda>_. st)) s"

definition set_pheap :: "kheap \<Rightarrow> psys \<Rightarrow> psys" where
  "set_pheap h s = s\<lparr>fsys := (fsys s)\<lparr>cvfs := set_heap h (cvfs (fsys s))\<rparr>\<rparr>"

definition ALIGN_64K :: "u64 \<Rightarrow> u64" where
  "ALIGN_64K x = (x + 0xFFFF) AND NOT 0xFFFF"

section \<open>Contexts\<close>

text \<open>The 32-bit architecture keeps the low half.\<close>

definition reg_width :: "arch \<Rightarrow> u64 \<Rightarrow> u64" where
  "reg_width ar v = (if ar = ARCH_X86 then ucast (ucast v :: u32) else v)"

definition arch_context_set_sp :: "arch \<Rightarrow> u64 \<Rightarrow> cpu_context \<Rightarrow> cpu_context" where
  "arch_context_set_sp ar v c = c\<lparr>c_sp := reg_width ar v\<rparr>"

definition arch_context_set_pc :: "arch \<Rightarrow> u64 \<Rightarrow> cpu_context \<Rightarrow> cpu_context" where
  "arch_context_set_pc ar v c = c\<lparr>c_pc := reg_width ar v\<rparr>"

definition arch_context_set_flags :: "arch \<Rightarrow> u64 \<Rightarrow> cpu_context \<Rightarrow> cpu_context" where
  "arch_context_set_flags ar v c = c\<lparr>c_flags := reg_width ar v\<rparr>"

fun set_regs :: "arch \<Rightarrow> (string \<times> u64) list \<Rightarrow> cpu_context \<Rightarrow> cpu_context" where
  "set_regs ar [] c = c"
| "set_regs ar ((r, v) # rs) c = set_regs ar rs (c\<lparr>c_regs := (c_regs c)(r := reg_width ar v)\<rparr>)"

text \<open>The addresses of the entry stubs and of the kernel interface.\<close>

record symbols =
  process_entry_wrapper :: u64
  x86_process_entry :: u64
  kapi :: u64

definition init_context :: "arch \<Rightarrow> symbols \<Rightarrow> u64 \<Rightarrow> u64 \<Rightarrow> u64 \<Rightarrow> u64 \<Rightarrow> cpu_context" where
  "init_context ar sy stack_top ep argc argv =
     (let c = arch_context_set_pc ar (process_entry_wrapper sy) (arch_context_set_sp ar stack_top zero_context) in
      case ar of
        ARCH_ARM64 \<Rightarrow>
          set_regs ar [(''x19'', ep), (''x20'', kapi sy), (''x21'', argc), (''x22'', argv)] (arch_context_set_flags ar 0x3c5 c)
      | ARCH_X86_64 \<Rightarrow>
          set_regs ar [(''r12'', ep), (''r13'', kapi sy), (''r14'', argc), (''r15'', argv)] (arch_context_set_flags ar 0x2 c)
      | ARCH_X86 \<Rightarrow>
          arch_context_set_pc ar (x86_process_entry sy)
            (set_regs ar [(''cs'', 0x08), (''ds'', 0x10), (''es'', 0x10), (''fs'', 0x10), (''gs'', 0x10), (''ss'', 0x10),
                          (''ebx'', ep), (''esi'', kapi sy), (''edi'', argc), (''ebp'', argv)] (arch_context_set_flags ar 0x2 c)))"

datatype ctx = Kernel | Slot nat

definition switch_context :: "ctx \<Rightarrow> ctx \<Rightarrow> psys \<Rightarrow> psys" where
  "switch_context old new s =
     (let s = (case old of
                 Kernel \<Rightarrow> s\<lparr>kernel_context := regs s\<rparr>
               | Slot i \<Rightarrow> upd_proc i (p_context_update (\<lambda>_. regs s)) s)
      in s\<lparr>regs := (case new of Kernel \<Rightarrow> kernel_context s | Slot i \<Rightarrow> p_context (proc_table s i))\<rparr>)"

section \<open>The table\<close>

definition process_init :: "psys \<Rightarrow> psys" where
  "process_init s =
     s\<lparr>proc_table := (\<lambda>i. if i < MAX_PROCESSES then (proc_table s i)\<lparr>p_state := PROC_STATE_FREE, p_pid := 0, p_context := zero_context\<rparr>
                          else proc_table s i),
       current_pid := - 1, current_process := None, next_pid := 1,
       program_base := ALIGN_64K PROGRAM_LOAD_BASE, next_load_addr := ALIGN_64K PROGRAM_LOAD_BASE\<rparr>"

definition find_free_slot_unlocked :: "psys \<Rightarrow> nat option" where
  "find_free_slot_unlocked s = find (\<lambda>i. pst s i = PROC_STATE_FREE) [0..<MAX_PROCESSES]"

text \<open>All fields of a slot that is reserved or released.\<close>

definition empty_process :: "int \<Rightarrow> proc_state \<Rightarrow> process" where
  "empty_process pid st =
     \<lparr>p_pid = pid, p_name = [], p_state = st, p_load_base = 0, p_load_size = 0, p_stack_base = NULL, p_stack_size = 0, p_entry = 0,
      p_context = zero_context, p_exit_status = 0, p_parent_pid = - 1\<rparr>"

definition release_reserved_slot_unlocked :: "nat \<Rightarrow> psys \<Rightarrow> psys" where
  "release_reserved_slot_unlocked slot s = upd_proc slot (\<lambda>_. empty_process 0 PROC_STATE_FREE) s"

definition process_current_slot :: "psys \<Rightarrow> nat option" where
  "process_current_slot s = (if current_pid s < 0 then None else Some (nat (current_pid s)))"

definition process_get :: "int \<Rightarrow> psys \<Rightarrow> nat option" where
  "process_get pid s = find (\<lambda>i. p_pid (proc_table s i) = pid \<and> pst s i \<noteq> PROC_STATE_FREE) [0..<MAX_PROCESSES]"

definition process_count_ready :: "psys \<Rightarrow> nat" where
  "process_count_ready s =
     length (filter (\<lambda>i. pst s i = PROC_STATE_READY \<or> pst s i = PROC_STATE_RUNNING) [0..<MAX_PROCESSES])"

text \<open>The name, cut to the caller's buffer, and the state.\<close>

definition process_get_info :: "int \<Rightarrow> int \<Rightarrow> psys \<Rightarrow> (bytes option \<times> proc_state) option" where
  "process_get_info index name_size s =
     (if index < 0 \<or> index \<ge> int MAX_PROCESSES then None
      else
        (let p = proc_table s (nat index) in
         if p_state p = PROC_STATE_FREE then None
         else Some (if name_size > 0 then Some (take (nat (name_size - 1)) (p_name p)) else None, p_state p)))"

section \<open>Creation\<close>

text \<open>The file in a heap buffer: its address and size, or nothing.\<close>

definition read_image :: "bytes option \<Rightarrow> psys \<Rightarrow> ((ptr \<times> u64) option \<times> psys) option" where
  "read_image fname s = do {
     (file, c) \<leftarrow> vfs_lookup fname (fsys s);
     let s = s\<lparr>fsys := c\<rparr>;
     case file of
       None \<Rightarrow> Some (None, s)
     | Some i \<Rightarrow>
         if vfs_is_dir file c then Some (None, s)
         else
           (let sz = n_size (node_pool c i) in
            if sz = 0 then Some (None, s)
            else do {
              (data, h) \<leftarrow> kmalloc sz 0 (pheap s);
              let s = set_pheap h s;
              if data = NULL then Some (None, s)
              else
                (let (n, c) = vfs_read_compat file data sz 0 (fsys s); s = s\<lparr>fsys := c\<rparr> in
                 if n \<noteq> sint (ucast sz :: u32) then Some (None, set_pheap (kfree data (pheap s)) s)
                 else Some (Some (data, sz), s))
            })
   }"

text \<open>The loader works on the same memory; a store into the kernel heap would destroy its block headers.\<close>

definition loader_mem :: "kheap \<Rightarrow> Elf.mem" where
  "loader_mem h = (\<lambda>a. mem h (unat a))"

definition put_loader_mem :: "Elf.mem \<Rightarrow> kheap \<Rightarrow> kheap option" where
  "put_loader_mem m h =
     (if list_ex (\<lambda>a. m (of_nat a) \<noteq> mem h a) [heap_start h..<heap_end h] then None
      else Some (h\<lparr>mem := (\<lambda>a. if a < 2 ^ 64 then m (of_nat a) else mem h a)\<rparr>))"

definition load_image :: "arch option \<Rightarrow> ptr \<Rightarrow> u64 \<Rightarrow> psys \<Rightarrow> (elf_load_info_t option \<times> psys) option" where
  "load_image ar data sz s = do {
     prog_size \<leftarrow> elf_calc_size (loader_mem (pheap s)) (of_nat data) sz;
     if prog_size = 0 then Some (None, set_pheap (kfree data (pheap s)) s)
     else
       (let (off, g) = aslr_exec_offset ar (rng s); s = s\<lparr>rng := g\<rparr>;
            load_addr = ALIGN_64K (next_load_addr s + off)
        in do {
          (r, m, info) \<leftarrow> elf_load_at (loader_mem (pheap s)) (of_nat data) sz load_addr (Some \<lparr>entry = 0, load_base = 0, load_size = 0\<rparr>);
          h \<leftarrow> put_loader_mem m (pheap s);
          let s = set_pheap (kfree data h) s;
          if r \<noteq> 0 then Some (None, s)
          else Some (info, s\<lparr>next_load_addr := ALIGN_64K (load_addr + load_size (the info) + 0x10000)\<rparr>)
        })
   }"

definition build_process :: "arch \<Rightarrow> symbols \<Rightarrow> nat \<Rightarrow> bytes \<Rightarrow> u64 \<Rightarrow> u64 \<Rightarrow> elf_load_info_t \<Rightarrow> psys \<Rightarrow> (int \<times> psys) option" where
  "build_process ar sy slot fname argc argv info s = do {
     let s = upd_proc slot (\<lambda>p. p\<lparr>p_name := take (PROCESS_NAME_MAX - 1) fname, p_load_base := load_base info, p_load_size := load_size info,
               p_entry := entry info, p_parent_pid := current_pid s, p_exit_status := 0, p_stack_size := PROCESS_STACK_SIZE\<rparr>) s;
     (sb, h) \<leftarrow> kmalloc PROCESS_STACK_SIZE 0 (pheap s);
     let s = upd_proc slot (\<lambda>p. p\<lparr>p_stack_base := sb\<rparr>) (set_pheap h s);
     if sb = NULL then Some (- 1, release_reserved_slot_unlocked slot s)
     else
       (let stack_top = (of_nat sb + PROCESS_STACK_SIZE) AND NOT 0xF;
            s = upd_proc slot (\<lambda>p. p\<lparr>p_context := init_context ar sy stack_top (p_entry p) argc argv, p_state := PROC_STATE_READY\<rparr>) s
        in Some (p_pid (proc_table s slot), s))
   }"

definition process_create :: "arch \<Rightarrow> symbols \<Rightarrow> bytes \<Rightarrow> u64 \<Rightarrow> u64 \<Rightarrow> psys \<Rightarrow> (int \<times> psys) option" where
  "process_create ar sy fname argc argv s =
     (case find_free_slot_unlocked s of
        None \<Rightarrow> Some (- 1, s)
      | Some slot \<Rightarrow>
          if next_pid s \<ge> 2 ^ 31 - 1 then None
          else
            (let pid = next_pid s;
                 s = upd_proc slot (\<lambda>_. empty_process pid PROC_STATE_BLOCKED) (s\<lparr>next_pid := pid + 1\<rparr>)
             in do {
               (image, s) \<leftarrow> read_image (Some fname) s;
               case image of
                 None \<Rightarrow> Some (- 1, release_reserved_slot_unlocked slot s)
               | Some (data, sz) \<Rightarrow> do {
                   (info, s) \<leftarrow> load_image (Some ar) data sz s;
                   case info of
                     None \<Rightarrow> Some (- 1, release_reserved_slot_unlocked slot s)
                   | Some info \<Rightarrow> build_process ar sy slot fname argc argv info s
                 }
             }))"

definition get_current_stack_top :: "psys \<Rightarrow> u32" where
  "get_current_stack_top s =
     (case current_process s of
        None \<Rightarrow> 0
      | Some i \<Rightarrow> of_nat (p_stack_base (proc_table s i)) + ucast (p_stack_size (proc_table s i)))"

definition process_start :: "int \<Rightarrow> psys \<Rightarrow> int \<times> psys" where
  "process_start pid s =
     (case process_get pid s of
        None \<Rightarrow> (- 1, s)
      | Some i \<Rightarrow> if pst s i = PROC_STATE_FREE then (- 1, s) else (0, set_state i PROC_STATE_READY s))"

section \<open>Exit and kill\<close>

text \<open>One entry of the table in the loop of \<^verbatim>\<open>kill_children\<close>; the work stack has its top at the head.\<close>

definition kill_slot :: "nat \<Rightarrow> psys \<Rightarrow> psys" where
  "kill_slot i s =
     (let sb = p_stack_base (proc_table s i);
          s = (if sb \<noteq> NULL then upd_proc i (p_stack_base_update (\<lambda>_. NULL)) (set_pheap (kfree sb (pheap s)) s) else s)
      in upd_proc i (\<lambda>p. p\<lparr>p_state := PROC_STATE_FREE, p_pid := 0\<rparr>) s)"

definition kill_entry :: "int \<Rightarrow> nat \<Rightarrow> int list \<times> psys \<Rightarrow> int list \<times> psys" where
  "kill_entry par i = (\<lambda>(ws, s).
     (if pst s i \<noteq> PROC_STATE_FREE \<and> p_parent_pid (proc_table s i) = par
      then (if length ws < MAX_PROCESSES then p_pid (proc_table s i) # ws else ws,
            if int i \<noteq> current_pid s then kill_slot i s else s)
      else (ws, s)))"

partial_function (option) kill_loop :: "int list \<Rightarrow> psys \<Rightarrow> psys option" where
  "kill_loop ws s =
     (case ws of
        [] \<Rightarrow> Some s
      | par # ws \<Rightarrow> (case fold (kill_entry par) [0..<MAX_PROCESSES] (ws, s) of (ws, s) \<Rightarrow> kill_loop ws s))"

definition kill_children :: "int \<Rightarrow> psys \<Rightarrow> psys option" where
  "kill_children parent_pid s = kill_loop [parent_pid] s"

definition process_kill :: "int \<Rightarrow> psys \<Rightarrow> (int \<times> psys) option" where
  "process_kill pid s =
     (if pid \<le> 0 then Some (- 1, s)
      else
        (case process_get pid s of
           None \<Rightarrow> Some (- 1, s)
         | Some slot \<Rightarrow>
             if int slot = current_pid s then Some (- 1, s)
             else do { s \<leftarrow> kill_children pid s; Some (0, kill_slot slot s) }))"

text \<open>A kernel context without program counter or stack hangs the machine.\<close>

definition process_exit :: "int \<Rightarrow> psys \<Rightarrow> psys option" where
  "process_exit status s =
     (if current_pid s < 0 then Some (s\<lparr>irq_on := True\<rparr>)
      else
        (let slot = nat (current_pid s) in do {
           s \<leftarrow> kill_children (p_pid (proc_table s slot)) (s\<lparr>irq_on := False\<rparr>);
           let s = upd_proc slot (\<lambda>p. p\<lparr>p_exit_status := status, p_state := PROC_STATE_FREE\<rparr>) s;
           let s = s\<lparr>current_pid := - 1, current_process := None\<rparr>;
           if c_pc (kernel_context s) = 0 \<or> c_sp (kernel_context s) = 0 then None
           else Some (switch_context (Slot slot) Kernel s)
         }))"

section \<open>Scheduling\<close>

text \<open>The slots in the order of the search, and the one that is found.\<close>

definition scan_order :: "int \<Rightarrow> nat list" where
  "scan_order old = (let start = (if old \<ge> 0 then nat old + 1 else 0) in map (\<lambda>i. (start + i) mod MAX_PROCESSES) [0..<MAX_PROCESSES])"

definition context_of :: "int \<Rightarrow> ctx" where
  "context_of slot = (if slot \<ge> 0 then Slot (nat slot) else Kernel)"

text \<open>The previous process becomes ready if it was running, the next one runs.\<close>

definition run_next :: "nat \<Rightarrow> psys \<Rightarrow> psys" where
  "run_next next s =
     (let old = current_pid s;
          s = (if old \<ge> 0 \<and> pst s (nat old) = PROC_STATE_RUNNING then set_state (nat old) PROC_STATE_READY s else s)
      in (set_state next PROC_STATE_RUNNING s)\<lparr>current_pid := int next, current_process := Some next\<rparr>)"

definition process_schedule :: "psys \<Rightarrow> psys" where
  "process_schedule s =
     (let s = s\<lparr>irq_on := False\<rparr>; old = current_pid s in
      case find (\<lambda>i. pst s i = PROC_STATE_READY) (scan_order old) of
        None \<Rightarrow>
          if old \<ge> 0 \<and> pst s (nat old) = PROC_STATE_RUNNING then s\<lparr>irq_on := True\<rparr>
          else if old \<ge> 0 then switch_context (Slot (nat old)) Kernel (s\<lparr>current_pid := - 1, current_process := None\<rparr>)
          else s\<lparr>irq_on := True\<rparr>
      | Some next \<Rightarrow>
          if int next = old \<and> pst s (nat old) = PROC_STATE_RUNNING then s\<lparr>irq_on := True\<rparr>
          else if int next = old \<and> pst s (nat old) = PROC_STATE_READY then (set_state next PROC_STATE_RUNNING s)\<lparr>irq_on := True\<rparr>
          else switch_context (context_of old) (Slot next) (run_next next s))"

definition process_yield :: "psys \<Rightarrow> psys" where
  "process_yield s =
     process_schedule (if current_pid s \<ge> 0 then set_state (nat (current_pid s)) PROC_STATE_READY s else s)"

definition process_preempt_quantum_expired :: "psys \<Rightarrow> bool \<times> psys" where
  "process_preempt_quantum_expired s =
     (let t = preempt_ticks s + 1 in
      if t < PROCESS_TIME_SLICE_TICKS then (False, s\<lparr>preempt_ticks := t\<rparr>) else (True, s\<lparr>preempt_ticks := 0\<rparr>))"

definition runnable :: "process \<Rightarrow> bool" where
  "runnable p \<longleftrightarrow> p_state p = PROC_STATE_READY \<and> c_sp (p_context p) \<noteq> 0 \<and> c_pc (p_context p) \<noteq> 0"

definition process_pick_next_ready :: "int \<Rightarrow> psys \<Rightarrow> nat option" where
  "process_pick_next_ready old s = find (\<lambda>i. runnable (proc_table s i)) (scan_order old)"

text \<open>The decision that both interrupt paths share: the slot to switch to.\<close>

definition irq_choice :: "psys \<Rightarrow> nat option" where
  "irq_choice s =
     (let ready_count = process_count_ready s; old = current_pid s in
      if old \<ge> 0 \<and> ready_count \<le> 1 then None
      else if old < 0 \<and> ready_count = 0 then None
      else (case process_pick_next_ready old s of None \<Rightarrow> None | Some next \<Rightarrow> if int next = old then None else Some next))"

definition process_schedule_from_irq :: "psys \<Rightarrow> psys" where
  "process_schedule_from_irq s =
     (let (expired, s) = process_preempt_quantum_expired s in
      if \<not> expired then s else (case irq_choice s of None \<Rightarrow> s | Some next \<Rightarrow> run_next next s))"

definition process_preempt_from_irq :: "psys \<Rightarrow> psys" where
  "process_preempt_from_irq s =
     (let (expired, s) = process_preempt_quantum_expired s in
      if \<not> expired then s
      else (case irq_choice s of
              None \<Rightarrow> s
            | Some next \<Rightarrow> switch_context (context_of (current_pid s)) (Slot next) (run_next next s)))"

definition process_run_kernel_slice :: "psys \<Rightarrow> int \<times> psys" where
  "process_run_kernel_slice s =
     (if current_pid s \<ge> 0 then (0, s) else if process_count_ready s = 0 then (0, s) else (1, process_schedule s))"

section \<open>Execute and wait\<close>

text \<open>\<open>run\<close> is what happens from a switch to a process until control comes back to the kernel.\<close>

partial_function (option) exec_wait :: "(psys \<Rightarrow> psys option) \<Rightarrow> nat \<Rightarrow> psys \<Rightarrow> (int \<times> psys) option" where
  "exec_wait run slot s =
     (if pst s slot \<noteq> PROC_STATE_FREE \<and> pst s slot \<noteq> PROC_STATE_ZOMBIE
      then do { s \<leftarrow> run (process_schedule s); exec_wait run slot s }
      else Some (p_exit_status (proc_table s slot), s))"

definition process_exec_args :: "(psys \<Rightarrow> psys option) \<Rightarrow> arch \<Rightarrow> symbols \<Rightarrow> bytes \<Rightarrow> u64 \<Rightarrow> u64 \<Rightarrow> psys \<Rightarrow> (int \<times> psys) option" where
  "process_exec_args run ar sy fname argc argv s = do {
     (pid, s) \<leftarrow> process_create ar sy fname argc argv s;
     if pid < 0 then Some (pid, s)
     else
       (let s = snd (process_start pid s) in
        case find (\<lambda>i. p_pid (proc_table s i) = pid) [0..<MAX_PROCESSES] of
          None \<Rightarrow> Some (- 1, s)
        | Some slot \<Rightarrow> exec_wait run slot s)
   }"

section \<open>Invariant\<close>

definition active :: "psys \<Rightarrow> nat \<Rightarrow> bool" where
  "active s i \<longleftrightarrow> i < MAX_PROCESSES \<and> pst s i \<noteq> PROC_STATE_FREE"

abbreviation "pidof s i \<equiv> p_pid (proc_table s i)"
abbreviation "parent s i \<equiv> p_parent_pid (proc_table s i)"
abbreviation "stk s i \<equiv> p_stack_base (proc_table s i)"

text \<open>Who runs: the kernel, or the process in the current slot, and only that one is marked as running.\<close>

definition current_ok :: "psys \<Rightarrow> bool" where
  "current_ok s \<longleftrightarrow>
     (current_pid s = - 1 \<and> current_process s = None \<or> (\<exists>i. active s i \<and> current_pid s = int i \<and> current_process s = Some i))
     \<and> (\<forall>i. active s i \<and> pst s i = PROC_STATE_RUNNING \<longrightarrow> current_pid s = int i)"

text \<open>Process numbers differ, grow along the table and along the recorded parents.\<close>

definition pids_ok :: "psys \<Rightarrow> bool" where
  "pids_ok s \<longleftrightarrow> 1 \<le> next_pid s
     \<and> (\<forall>i. active s i \<longrightarrow> int i < pidof s i \<and> pidof s i < next_pid s \<and> parent s i < pidof s i)
     \<and> (\<forall>i j. active s i \<and> active s j \<and> pidof s i = pidof s j \<longrightarrow> i = j)"

text \<open>Stacks are heap blocks of their own, apart from those of the file system.\<close>

definition stacks_ok :: "psys \<Rightarrow> ptr set \<Rightarrow> bool" where
  "stacks_ok s N \<longleftrightarrow>
     (\<forall>i. active s i \<and> stk s i \<noteq> NULL \<longrightarrow>
        (\<exists>n \<ge> unat PROCESS_STACK_SIZE. live (pheap s) (stk s i) = Some n) \<and> stk s i \<notin> N
        \<and> (\<forall>c \<in> N. idata (inodes (krn (cvfs (fsys s))) c) \<noteq> stk s i)
        \<and> (\<forall>j. active s j \<and> stk s j = stk s i \<longrightarrow> j = i))"

definition proc_inv :: "psys \<Rightarrow> ptr set \<Rightarrow> (ptr \<Rightarrow> ptr list) \<Rightarrow> bool" where
  "proc_inv s N K \<longleftrightarrow> compat_ok (fsys s) N K \<and> current_ok s \<and> pids_ok s \<and> stacks_ok s N"

lemma proc_invD:
  assumes "proc_inv s N K"
  shows "heap_inv (pheap s)" "compat_ok (fsys s) N K" "current_ok s" "pids_ok s" "stacks_ok s N"
  using assms fs_okD(1) by (auto simp: proc_inv_def compat_ok_def)

lemma stacks_okD:
  assumes "stacks_ok s N" and "active s i" and "stk s i \<noteq> NULL"
  shows "\<exists>n \<ge> unat PROCESS_STACK_SIZE. live (pheap s) (stk s i) = Some n" "stk s i \<notin> N"
    "c \<in> N \<Longrightarrow> idata (inodes (krn (cvfs (fsys s))) c) \<noteq> stk s i" "active s j \<Longrightarrow> stk s j = stk s i \<Longrightarrow> j = i"
  using assms unfolding stacks_ok_def by auto

lemma heap_simps [simp]:
  "pheap (set_pheap h s) = h" "proc_table (set_pheap h s) = proc_table s" "current_pid (set_pheap h s) = current_pid s"
  "current_process (set_pheap h s) = current_process s" "next_pid (set_pheap h s) = next_pid s"
  "inodes (krn (cvfs (fsys (set_pheap h s)))) = inodes (krn (cvfs (fsys s)))" "root (krn (cvfs (fsys (set_pheap h s)))) = root (krn (cvfs (fsys s)))"
  "set_pheap (pheap s) s = s" "set_pheap h (set_pheap h' s) = set_pheap h s" "active (set_pheap h s) = active s"
  "set_pheap h (s\<lparr>proc_table := t\<rparr>) = (set_pheap h s)\<lparr>proc_table := t\<rparr>"
  by (simp_all add: set_pheap_def set_heap_def set_kern_def active_def fun_eq_iff)

section \<open>Killing\<close>

definition dead :: "process \<Rightarrow> process" where
  "dead p = p\<lparr>p_stack_base := NULL, p_state := PROC_STATE_FREE, p_pid := 0\<rparr>"

text \<open>The slots \<open>P\<close> are emptied and their stacks released, and nothing else changes.\<close>

definition kills :: "psys \<Rightarrow> nat set \<Rightarrow> psys \<Rightarrow> bool" where
  "kills s P t \<longleftrightarrow>
     t = set_pheap (pheap t) (s\<lparr>proc_table := (\<lambda>i. if i \<in> P then dead (proc_table s i) else proc_table s i)\<rparr>)
     \<and> heap_inv (pheap t) \<and> live (pheap t) = (\<lambda>p. if p \<noteq> NULL \<and> p \<in> stk s ` P then None else live (pheap s) p)"

lemma kills_empty: "heap_inv (pheap s) \<Longrightarrow> kills s {} s"
  by (simp add: kills_def)

lemma killsD:
  assumes "kills s P t"
  shows "proc_table t i = (if i \<in> P then dead (proc_table s i) else proc_table s i)" "current_pid t = current_pid s"
    "current_process t = current_process s" "next_pid t = next_pid s"
    "inodes (krn (cvfs (fsys t))) = inodes (krn (cvfs (fsys s)))" "root (krn (cvfs (fsys t))) = root (krn (cvfs (fsys s)))"
    "active t i \<longleftrightarrow> active s i \<and> i \<notin> P"
proof -
  obtain h where t: "t = set_pheap h (s\<lparr>proc_table := (\<lambda>i. if i \<in> P then dead (proc_table s i) else proc_table s i)\<rparr>)"
    using assms unfolding kills_def by blast
  show "proc_table t i = (if i \<in> P then dead (proc_table s i) else proc_table s i)" "current_pid t = current_pid s"
    "current_process t = current_process s" "next_pid t = next_pid s"
    "inodes (krn (cvfs (fsys t))) = inodes (krn (cvfs (fsys s)))" "root (krn (cvfs (fsys t))) = root (krn (cvfs (fsys s)))"
    by (simp_all add: t set_pheap_def set_heap_def set_kern_def)
  show "active t i \<longleftrightarrow> active s i \<and> i \<notin> P"
    by (auto simp: active_def t set_pheap_def set_heap_def set_kern_def dead_def)
qed

lemma kills_contexts: "kills s P t \<Longrightarrow> kernel_context t = kernel_context s \<and> regs t = regs s"
proof -
  assume "kills s P t"
  then obtain h where "t = set_pheap h (s\<lparr>proc_table := (\<lambda>i. if i \<in> P then dead (proc_table s i) else proc_table s i)\<rparr>)"
    unfolding kills_def by blast
  then show ?thesis by (simp add: set_pheap_def)
qed

lemma kill_slot_kills:
  assumes inv: "heap_inv (pheap s)" "stacks_ok s N" and k: "kills s P t" and i: "active s i" "i \<notin> P" and P: "\<forall>j \<in> P. active s j"
  shows "kills s (insert i P) (kill_slot i t)"
proof -
  note D = killsD [OF k]
  have ti: "proc_table t i = proc_table s i" using D(1) i(2) by simp
  define h' where "h' = (if stk s i \<noteq> NULL then kfree (stk s i) (pheap t) else pheap t)"
  have hk: "heap_inv (pheap t)" "live (pheap t) = (\<lambda>p. if p \<noteq> NULL \<and> p \<in> stk s ` P then None else live (pheap s) p)"
    using k unfolding kills_def by blast+
  have lv: "live (pheap t) (stk s i) \<noteq> None" if nz: "stk s i \<noteq> NULL"
  proof -
    have "stk s i \<notin> stk s ` P" using stacks_okD(4) [OF inv(2) i(1) nz] i(2) P by force
    moreover obtain n where "live (pheap s) (stk s i) = Some n" using stacks_okD(1) [OF inv(2) i(1) nz] by blast
    ultimately show ?thesis by (simp add: hk(2))
  qed
  have h': "heap_inv h'" "live h' = (\<lambda>p. if p \<noteq> NULL \<and> p \<in> stk s ` insert i P then None else live (pheap s) p)"
    using kh.release_inv [OF hk(1) lv] kh.release_lv [OF hk(1) lv] hk by (cases "stk s i = NULL"; auto simp: h'_def fun_eq_iff)+
  have ks: "kill_slot i t = set_pheap h' (t\<lparr>proc_table := (proc_table t)(i := dead (proc_table s i))\<rparr>)"
    by (cases "proc_table s i"; cases "stk s i = NULL") (simp_all add: kill_slot_def ti h'_def upd_proc_def dead_def)
  have tt: "t = set_pheap (pheap t) (s\<lparr>proc_table := (\<lambda>i. if i \<in> P then dead (proc_table s i) else proc_table s i)\<rparr>)"
    using k unfolding kills_def by blast
  have eq: "kill_slot i t = set_pheap h' (s\<lparr>proc_table := (\<lambda>j. if j \<in> insert i P then dead (proc_table s j) else proc_table s j)\<rparr>)"
  proof -
    define T where "T = (\<lambda>i. if i \<in> P then dead (proc_table s i) else proc_table s i)"
    have e: "T(i := dead (proc_table s i)) = (\<lambda>j. if j \<in> insert i P then dead (proc_table s j) else proc_table s j)"
      by (simp add: fun_eq_iff T_def)
    have "t\<lparr>proc_table := T(i := dead (proc_table s i))\<rparr> = set_pheap (pheap t) (s\<lparr>proc_table := T(i := dead (proc_table s i))\<rparr>)"
      by (subst tt) (simp add: T_def [symmetric])
    moreover have "proc_table t = T" using D(1) by (simp add: fun_eq_iff T_def)
    ultimately show ?thesis unfolding ks e [symmetric] by (simp only: heap_simps)
  qed
  have "pheap (kill_slot i t) = h'" unfolding eq by simp
  then show ?thesis using eq h' unfolding kills_def by (simp only:)
qed


text \<open>The processes whose recorded parents lead to the process number \<open>r\<close>.\<close>

inductive descends :: "psys \<Rightarrow> int \<Rightarrow> nat \<Rightarrow> bool" for s r where
  child: "\<lbrakk> active s i; parent s i = r \<rbrakk> \<Longrightarrow> descends s r i"
| grandchild: "\<lbrakk> descends s r j; active s i; parent s i = pidof s j \<rbrakk> \<Longrightarrow> descends s r i"

lemma descends_active: "descends s r i \<Longrightarrow> active s i"
  by (induction rule: descends.induct) auto

lemma descends_irq [simp]: "descends (s\<lparr>irq_on := b\<rparr>) r = descends s r"
proof -
  have a: "active (s\<lparr>irq_on := b\<rparr>) i = active s i" for i by (simp add: active_def)
  have "descends (s\<lparr>irq_on := b\<rparr>) r i" if "descends s r i" for i
    using that by induction (auto simp: a intro: descends.intros)
  moreover have "descends s r i" if "descends (s\<lparr>irq_on := b\<rparr>) r i" for i
    using that by induction (auto simp: a intro: descends.intros)
  ultimately show ?thesis by blast
qed

text \<open>The children of one parent, in one pass over the table.\<close>

definition kids :: "psys \<Rightarrow> int \<Rightarrow> nat set" where
  "kids s par = {i. active s i \<and> parent s i = par}"

lemma finite_kids [simp]: "finite (kids s par)"
  by (rule finite_subset [of _ "{..<MAX_PROCESSES}"]) (auto simp: kids_def active_def)

definition not_current :: "psys \<Rightarrow> nat set \<Rightarrow> nat set" where
  "not_current s P = {i \<in> P. int i \<noteq> current_pid s}"

lemma kill_pass:
  assumes inv: "heap_inv (pheap s)" "stacks_ok s N" and k: "kills s (not_current s P) t" and P: "\<forall>j \<in> P. active s j"
    and new: "P \<inter> kids s par \<inter> set xs = {}" and xs: "distinct xs" "set xs \<subseteq> {..<MAX_PROCESSES}"
    and room: "length ws + card (kids s par \<inter> set xs) \<le> MAX_PROCESSES"
  shows "\<exists>t'. fold (kill_entry par) xs (ws, t) = (rev (map (pidof s) (filter (\<lambda>i. i \<in> kids s par) xs)) @ ws, t')
    \<and> kills s (not_current s (P \<union> (kids s par \<inter> set xs))) t'"
  using k P new xs room
proof (induction xs arbitrary: P ws t)
  case Nil
  then show ?case by simp
next
  case (Cons i xs)
  note D = killsD [OF Cons.prems(1)]
  show ?case
  proof (cases "i \<in> kids s par")
    case False
    have "kill_entry par i (ws, t) = (ws, t)"
    proof (cases "i \<in> not_current s P")
      case True
      then show ?thesis using D(1) [of i] by (simp add: kill_entry_def dead_def)
    next
      case out: False
      then show ?thesis using D(1) [of i] False Cons.prems(5) by (auto simp: kill_entry_def kids_def active_def)
    qed
    moreover have "kids s par \<inter> set (i # xs) = kids s par \<inter> set xs" using False by auto
    ultimately show ?thesis using Cons.IH [OF Cons.prems(1,2)] Cons.prems(3-6) False by simp
  next
    case True
    then have a: "active s i" "parent s i = par" by (auto simp: kids_def)
    have iP: "i \<notin> P" using Cons.prems(3) True by auto
    then have ti: "proc_table t i = proc_table s i" using D(1) [of i] by (simp add: not_current_def)
    have sp: "kids s par \<inter> set (i # xs) = insert i (kids s par \<inter> set xs)" using True by auto
    have cd: "card (kids s par \<inter> set (i # xs)) = Suc (card (kids s par \<inter> set xs))"
      unfolding sp using Cons.prems(4) by (intro card_insert_disjoint) auto
    define t1 where "t1 = (if int i \<noteq> current_pid s then kill_slot i t else t)"
    have ke: "kill_entry par i (ws, t) = (pidof s i # ws, t1)"
      using a Cons.prems(6) cd ti D(2) by (simp add: kill_entry_def active_def t1_def)
    have k1: "kills s (not_current s (insert i P)) t1"
    proof (cases "int i = current_pid s")
      case True
      then have "not_current s (insert i P) = not_current s P" by (auto simp: not_current_def)
      then show ?thesis using Cons.prems(1) True by (simp add: t1_def)
    next
      case False
      then have e: "not_current s (insert i P) = insert i (not_current s P)" by (auto simp: not_current_def)
      have "kills s (insert i (not_current s P)) (kill_slot i t)"
        by (rule kill_slot_kills [OF inv Cons.prems(1) a(1)]) (use iP Cons.prems(2) in \<open>auto simp: not_current_def\<close>)
      then show ?thesis using False e by (simp add: t1_def)
    qed
    have "\<exists>t'. fold (kill_entry par) xs (pidof s i # ws, t1) = (rev (map (pidof s) (filter (\<lambda>i. i \<in> kids s par) xs)) @ (pidof s i # ws), t')
      \<and> kills s (not_current s (insert i P \<union> (kids s par \<inter> set xs))) t'"
      by (rule Cons.IH [OF k1]) (use Cons.prems a cd in auto)
    then show ?thesis using True by (simp add: ke sp)
  qed
qed


text \<open>The state of the work list: \<open>Q\<close> are the numbers taken from the stack \<open>ws\<close> so far, and the children of exactly these have been seen.\<close>

definition seen :: "psys \<Rightarrow> int set \<Rightarrow> nat set" where
  "seen s Q = {i. active s i \<and> parent s i \<in> Q}"

definition work_inv :: "psys \<Rightarrow> int \<Rightarrow> int set \<Rightarrow> int list \<Rightarrow> bool" where
  "work_inv s r Q ws \<longleftrightarrow> distinct ws \<and> set ws \<inter> Q = {} \<and> set ws \<union> Q = insert r (pidof s ` seen s Q) \<and> (\<forall>q \<in> set ws \<union> Q. r \<le> q)
     \<and> (if Q = {} then ws = [r] else r \<in> Q) \<and> (\<forall>i \<in> seen s Q. descends s r i)"

lemma finite_active: "finite {i. active s i \<and> B i}" and card_active: "card {i. active s i \<and> B i} \<le> MAX_PROCESSES"
proof -
  have sub: "{i. active s i \<and> B i} \<subseteq> {..<MAX_PROCESSES}" by (auto simp: active_def)
  then show "finite {i. active s i \<and> B i}" by (rule finite_subset) simp
  show "card {i. active s i \<and> B i} \<le> MAX_PROCESSES" using card_mono [OF _ sub] by simp
qed

lemma pids_okD:
  assumes "pids_ok s"
  shows "1 \<le> next_pid s" "active s i \<Longrightarrow> int i < pidof s i" "active s i \<Longrightarrow> pidof s i < next_pid s" "active s i \<Longrightarrow> parent s i < pidof s i"
    "active s i \<Longrightarrow> active s j \<Longrightarrow> pidof s i = pidof s j \<Longrightarrow> i = j"
  using assms unfolding pids_ok_def by auto

lemma seen_insert: "seen s (insert par Q) = seen s Q \<union> kids s par"
  by (auto simp: seen_def kids_def)

lemma work_room:
  assumes "work_inv s r Q (par # ws)"
  shows "length ws + card (kids s par) \<le> MAX_PROCESSES"
proof -
  have "set ws \<subseteq> pidof s ` seen s Q"
  proof (cases "Q = {}")
    case True
    then show ?thesis using assms by (simp add: work_inv_def)
  next
    case False
    then have "r \<in> Q" "set ws \<subseteq> insert r (pidof s ` seen s Q)" "set ws \<inter> Q = {}" using assms by (auto simp: work_inv_def)
    then show ?thesis by blast
  qed
  then have "card (set ws) \<le> card (seen s Q)" using finite_active by (auto simp: seen_def intro!: surj_card_le)
  then have l: "length ws \<le> card (seen s Q)" using assms by (simp add: work_inv_def distinct_card)
  have d: "seen s Q \<inter> kids s par = {}" using assms by (auto simp: work_inv_def seen_def kids_def)
  have "card (seen s Q) + card (kids s par) = card (seen s Q \<union> kids s par)"
    using d finite_active by (intro card_Un_disjoint [symmetric]) (auto simp: seen_def)
  also have "\<dots> = card {i. active s i \<and> parent s i \<in> insert par Q}" unfolding seen_insert [symmetric] by (simp only: seen_def)
  also have "\<dots> \<le> MAX_PROCESSES" by (rule card_active)
  finally show ?thesis using l by simp
qed

lemma work_step:
  assumes p: "pids_ok s" and w: "work_inv s r Q (par # ws)"
  defines "ws' \<equiv> rev (map (pidof s) (filter (\<lambda>i. i \<in> kids s par) [0..<MAX_PROCESSES])) @ ws"
  shows "work_inv s r (insert par Q) ws'" "length ws' = length ws + card (kids s par)"
proof -
  note P = pids_okD [OF p]
  have W: "distinct ws" "par \<notin> set ws" "par \<notin> Q" "set ws \<inter> Q = {}" "insert par (set ws \<union> Q) = insert r (pidof s ` seen s Q)" "r \<le> par"
    "\<forall>q \<in> set ws \<union> Q. r \<le> q" "\<forall>i \<in> seen s Q. descends s r i" "if Q = {} then ws = [] \<and> par = r else r \<in> Q"
    using w by (auto simp: work_inv_def split: if_splits)
  have flt: "set (filter (\<lambda>i. i \<in> kids s par) [0..<MAX_PROCESSES]) = kids s par" by (auto simp: kids_def active_def)
  have inj: "inj_on (pidof s) (kids s par)" using P(5) by (auto simp: inj_on_def kids_def)
  have kid: "active s i" "parent s i = par" "par < pidof s i" if "i \<in> kids s par" for i using that P(4) [of i] by (auto simp: kids_def)
  have fresh: "pidof s i \<notin> insert par (set ws \<union> Q)" if i: "i \<in> kids s par" for i
  proof
    assume "pidof s i \<in> insert par (set ws \<union> Q)"
    then have "pidof s i = r \<or> pidof s i \<in> pidof s ` seen s Q" using W(5) by blast
    moreover have "pidof s i \<noteq> r" using kid [OF i] W(6) by simp
    ultimately obtain j where j: "j \<in> seen s Q" "pidof s i = pidof s j" by blast
    then have "i = j" using P(5) kid(1) [OF i] by (simp add: seen_def)
    then show False using j(1) kid(2) [OF i] W(3) by (simp add: seen_def)
  qed
  have dsc: "descends s r i" if i: "i \<in> kids s par" for i
  proof (cases "par = r")
    case True
    then show ?thesis using kid [OF i] by (auto intro: descends.child)
  next
    case False
    then obtain j where "j \<in> seen s Q" "par = pidof s j" using W(5) by blast
    then show ?thesis using kid [OF i] W(8) by (auto intro: descends.grandchild)
  qed
  have "length (filter (\<lambda>i. i \<in> kids s par) [0..<MAX_PROCESSES]) = card (kids s par)"
    using distinct_card [of "filter (\<lambda>i. i \<in> kids s par) [0..<MAX_PROCESSES]"] unfolding flt by simp
  then show "length ws' = length ws + card (kids s par)" by (simp add: ws'_def)
  have set': "set ws' = pidof s ` kids s par \<union> set ws" unfolding ws'_def using flt by simp
  have "distinct (map (pidof s) (filter (\<lambda>i. i \<in> kids s par) [0..<MAX_PROCESSES]))" using inj flt by (simp add: distinct_map)
  then have ds: "distinct ws'" unfolding ws'_def using W(1) fresh flt by auto
  have un: "set ws' \<union> insert par Q = insert r (pidof s ` (seen s Q \<union> kids s par))"
  proof -
    have "set ws' \<union> insert par Q = pidof s ` kids s par \<union> insert par (set ws \<union> Q)" unfolding set' by blast
    then show ?thesis unfolding W(5) by blast
  qed
  have le: "\<forall>q \<in> set ws' \<union> insert par Q. r \<le> q" unfolding set' using W(6,7) kid(3) by fastforce
  have rQ: "r \<in> insert par Q" using W(9) by (auto split: if_splits)
  have dj: "set ws' \<inter> insert par Q = {}" unfolding set' using fresh W(2,4) by blast
  have de: "\<forall>i \<in> seen s Q \<union> kids s par. descends s r i" using W(8) dsc by blast
  show "work_inv s r (insert par Q) ws'"
    unfolding work_inv_def seen_insert using ds dj un le rQ de by simp
qed

lemma kill_loop_kills:
  assumes inv: "heap_inv (pheap s)" "stacks_ok s N" "pids_ok s" and w: "work_inv s r Q ws" and k: "kills s (not_current s (seen s Q)) t"
  shows "\<exists>t'. kill_loop ws t = Some t' \<and> kills s (not_current s {i. descends s r i}) t'"
  using w k
proof (induction "card {i. active s i \<and> parent s i \<notin> Q} + length ws" arbitrary: Q ws t rule: less_induct)
  case less
  show ?case
  proof (cases ws)
    case Nil
    then have Q: "Q = insert r (pidof s ` seen s Q)" "\<forall>i \<in> seen s Q. descends s r i" using less.prems(1) by (auto simp: work_inv_def)
    have "i \<in> seen s Q" if "descends s r i" for i
      using that
    proof induction
      case (child i)
      moreover have "r \<in> Q" using Q(1) by blast
      ultimately show ?case by (simp add: seen_def)
    next
      case (grandchild j i)
      have "pidof s j \<in> Q" using Q(1) grandchild.IH by blast
      then show ?case using grandchild.hyps by (simp add: seen_def)
    qed
    then have "{i. descends s r i} = seen s Q" using Q(2) by blast
    then show ?thesis using less.prems(2) Nil by (subst kill_loop.simps) simp
  next
    case (Cons par ws1)
    note w = less.prems(1) [unfolded Cons]
    define ws' where "ws' = rev (map (pidof s) (filter (\<lambda>i. i \<in> kids s par) [0..<MAX_PROCESSES])) @ ws1"
    note st = work_step [OF inv(3) w, folded ws'_def]
    have pQ: "par \<notin> Q" using w by (simp add: work_inv_def)
    have kx: "kids s par \<inter> set [0..<MAX_PROCESSES] = kids s par" by (auto simp: kids_def active_def)
    have "\<exists>t1. fold (kill_entry par) [0..<MAX_PROCESSES] (ws1, t) = (ws', t1) \<and> kills s (not_current s (seen s Q \<union> (kids s par \<inter> set [0..<MAX_PROCESSES]))) t1"
      unfolding ws'_def by (rule kill_pass [OF inv(1,2) less.prems(2)]) (use pQ work_room [OF w] kx in \<open>auto simp: seen_def kids_def\<close>)
    then obtain t1 where t1: "fold (kill_entry par) [0..<MAX_PROCESSES] (ws1, t) = (ws', t1)" "kills s (not_current s (seen s (insert par Q))) t1"
      unfolding kx seen_insert by blast
    have A: "{i. active s i \<and> parent s i \<notin> Q} = {i. active s i \<and> parent s i \<notin> insert par Q} \<union> kids s par"
      using pQ by (auto simp: kids_def)
    have "card {i. active s i \<and> parent s i \<notin> Q} = card {i. active s i \<and> parent s i \<notin> insert par Q} + card (kids s par)"
      unfolding A using finite_active by (intro card_Un_disjoint) (auto simp: kids_def)
    then have "\<exists>t'. kill_loop ws' t1 = Some t' \<and> kills s (not_current s {i. descends s r i}) t'"
      using st t1(2) Cons by (intro less.hyps) simp_all
    then show ?thesis using Cons t1(1) by (subst kill_loop.simps) simp
  qed
qed

lemma kill_children_kills:
  assumes "heap_inv (pheap s)" and "stacks_ok s N" and "pids_ok s"
  shows "\<exists>t. kill_children r s = Some t \<and> kills s (not_current s {i. descends s r i}) t"
proof -
  have "work_inv s r {} [r]" by (auto simp: work_inv_def seen_def)
  moreover have "not_current s (seen s {}) = {}" by (simp add: not_current_def seen_def)
  then have "kills s (not_current s (seen s {})) s" using kills_empty [OF assms(1)] by simp
  ultimately show ?thesis unfolding kill_children_def by (rule kill_loop_kills [OF assms])
qed


section \<open>Every operation keeps the invariant\<close>

lemma compat_ok_heap:
  assumes "compat_ok c N K" and "inodes (krn (cvfs c')) = inodes (krn (cvfs c))" and "root (krn (cvfs c')) = root (krn (cvfs c))"
    and "heap_inv (hp (cvfs c'))" and "\<And>p. p \<in> N \<Longrightarrow> live (hp (cvfs c')) p = live (hp (cvfs c)) p"
    and "\<And>p. p \<in> N \<Longrightarrow> idata (inodes (krn (cvfs c)) p) \<noteq> NULL \<Longrightarrow>
      live (hp (cvfs c')) (idata (inodes (krn (cvfs c)) p)) = live (hp (cvfs c)) (idata (inodes (krn (cvfs c)) p))"
  shows "compat_ok c' N K"
proof -
  have w: "fs_ok (hp (cvfs c)) (inodes (krn (cvfs c))) N K" using assms(1) by (simp add: compat_ok_def)
  have "fs_ok (hp (cvfs c')) (inodes (krn (cvfs c'))) N K"
    by (rule fs_ok_cong [OF w assms(4)]) (use assms(2,5,6) in auto)
  then show ?thesis using assms(1,3) by (simp add: compat_ok_def)
qed

lemma kills_inv:
  assumes inv: "proc_inv s N K" and k: "kills s P t" and P: "\<And>i. i \<in> P \<Longrightarrow> active s i \<and> int i \<noteq> current_pid s"
  shows "proc_inv t N K"
proof -
  note I = proc_invD [OF inv] and D = killsD [OF k]
  have hk: "heap_inv (pheap t)" "live (pheap t) = (\<lambda>p. if p \<noteq> NULL \<and> p \<in> stk s ` P then None else live (pheap s) p)"
    using k unfolding kills_def by blast+
  have keep: "live (pheap t) p = live (pheap s) p" if "p \<in> N \<or> (\<exists>c \<in> N. p = idata (inodes (krn (cvfs (fsys s))) c))" for p
  proof -
    have "p \<noteq> stk s i" if "i \<in> P" "p \<noteq> NULL" for i
      using stacks_okD(2,3) [OF I(5)] P [OF that(1)] that(2) \<open>p \<in> N \<or> (\<exists>c \<in> N. p = idata (inodes (krn (cvfs (fsys s))) c))\<close> by metis
    then show ?thesis by (auto simp: hk(2))
  qed
  have c: "compat_ok (fsys t) N K" by (rule compat_ok_heap [OF I(2) D(5,6) hk(1)]) (use keep in blast)+
  have tb: "proc_table t i = proc_table s i" if "active t i" for i using that D(1,7) [of i] by simp
  have "i \<notin> P" if "current_pid s = int i" for i using P [of i] that by auto
  then have cur: "current_ok t" using I(3) D(1) unfolding current_ok_def D(2,3,7) by auto
  have pids: "pids_ok t" using I(4) tb D(4,7) unfolding pids_ok_def by auto
  have "stacks_ok t N"
    unfolding stacks_ok_def
  proof (intro allI impI)
    fix i assume i: "active t i \<and> stk t i \<noteq> NULL"
    then have si: "active s i" "i \<notin> P" "stk t i = stk s i" "stk s i \<noteq> NULL" using D(7) tb by auto
    note S = stacks_okD [OF I(5) si(1,4)]
    have "stk s i \<notin> stk s ` P" using S(4) si(2) P by force
    then have "live (pheap t) (stk s i) = live (pheap s) (stk s i)" by (simp add: hk(2))
    then show "(\<exists>n \<ge> unat PROCESS_STACK_SIZE. live (pheap t) (stk t i) = Some n) \<and> stk t i \<notin> N
        \<and> (\<forall>c \<in> N. idata (inodes (krn (cvfs (fsys t))) c) \<noteq> stk t i) \<and> (\<forall>j. active t j \<and> stk t j = stk t i \<longrightarrow> j = i)"
      unfolding si(3) D(5) using S(1-3) S(4) D(7) tb by auto
  qed
  then show ?thesis using c cur pids by (simp add: proc_inv_def)
qed

text \<open>The invariant looks at these parts of the state only.\<close>

lemma proc_inv_cong:
  assumes "fsys t = fsys s" and "current_pid t = current_pid s" and "current_process t = current_process s" and "next_pid t = next_pid s"
    and "\<And>i. pst t i = pst s i \<and> pidof t i = pidof s i \<and> parent t i = parent s i \<and> stk t i = stk s i"
  shows "proc_inv t N K = proc_inv s N K"
proof -
  have "active t = active s" using assms(5) by (simp add: active_def fun_eq_iff)
  then show ?thesis using assms by (simp add: proc_inv_def current_ok_def pids_ok_def stacks_ok_def)
qed

lemma switch_context_fields [simp]:
  "fsys (switch_context a b s) = fsys s" "current_pid (switch_context a b s) = current_pid s"
  "current_process (switch_context a b s) = current_process s" "next_pid (switch_context a b s) = next_pid s"
  "pst (switch_context a b s) i = pst s i" "pidof (switch_context a b s) i = pidof s i" "parent (switch_context a b s) i = parent s i"
  "stk (switch_context a b s) i = stk s i" "p_exit_status (proc_table (switch_context a b s) i) = p_exit_status (proc_table s i)"
  "irq_on (switch_context a b s) = irq_on s" "preempt_ticks (switch_context a b s) = preempt_ticks s"
  by (auto simp: switch_context_def Let_def upd_proc_def split: ctx.splits)

lemma switch_context_inv [simp]: "proc_inv (switch_context a b s) N K = proc_inv s N K"
  by (rule proc_inv_cong) simp_all

lemma irq_inv [simp]: "proc_inv (s\<lparr>irq_on := b\<rparr>) N K = proc_inv s N K" "proc_inv (s\<lparr>preempt_ticks := n\<rparr>) N K = proc_inv s N K"
  by (rule proc_inv_cong; simp)+

text \<open>A change of states and of the current process.\<close>

lemma proc_inv_states:
  assumes inv: "proc_inv s N K" and f: "fsys t = fsys s" "next_pid t = next_pid s" and cur: "current_ok t"
    and p: "\<And>i. active t i \<Longrightarrow> active s i \<and> pidof t i = pidof s i \<and> parent t i = parent s i \<and> stk t i = stk s i"
  shows "proc_inv t N K"
proof -
  note I = proc_invD [OF inv]
  have "pids_ok t" using I(4) p f(2) unfolding pids_ok_def by auto
  moreover have "stacks_ok t N"
    unfolding stacks_ok_def f(1)
  proof (intro allI impI)
    fix i assume i: "active t i \<and> stk t i \<noteq> NULL"
    then have si: "active s i" "stk t i = stk s i" "stk s i \<noteq> NULL" using p by auto
    note S = stacks_okD [OF I(5) si(1,3)]
    show "(\<exists>n \<ge> unat PROCESS_STACK_SIZE. live (pheap s) (stk t i) = Some n) \<and> stk t i \<notin> N
        \<and> (\<forall>c \<in> N. idata (inodes (krn (cvfs (fsys s))) c) \<noteq> stk t i) \<and> (\<forall>j. active t j \<and> stk t j = stk t i \<longrightarrow> j = i)"
      unfolding si(2) using S(1-3) S(4) p by auto
  qed
  ultimately show ?thesis using I(2) cur f(1) by (simp add: proc_inv_def)
qed

lemma set_state_fields [simp]:
  "fsys (set_state i st s) = fsys s" "next_pid (set_state i st s) = next_pid s" "current_pid (set_state i st s) = current_pid s"
  "current_process (set_state i st s) = current_process s" "pidof (set_state i st s) j = pidof s j" "parent (set_state i st s) j = parent s j"
  "stk (set_state i st s) j = stk s j" "pst (set_state i st s) j = (if j = i then st else pst s j)"
  "p_context (proc_table (set_state i st s) j) = p_context (proc_table s j)" "preempt_ticks (set_state i st s) = preempt_ticks s"
  by (simp_all add: set_state_def upd_proc_def)

lemma set_state_active [simp]: "active (set_state i st s) j \<longleftrightarrow> (if j = i then i < MAX_PROCESSES \<and> st \<noteq> PROC_STATE_FREE else active s j)"
  by (simp add: active_def)

lemma proc_state_inv:
  assumes inv: "proc_inv s N K" and i: "active s i" and st: "st = PROC_STATE_READY \<or> st = PROC_STATE_RUNNING \<and> current_pid s = int i"
  shows "proc_inv (set_state i st s) N K"
proof (rule proc_inv_states [OF inv])
  have i16: "i < MAX_PROCESSES" using i by (simp add: active_def)
  show "current_ok (set_state i st s)"
    using proc_invD(3) [OF inv] st i16 i unfolding current_ok_def by (auto split: if_splits)
qed (use i in \<open>auto split: if_splits\<close>)

lemma run_next_fields:
  "fsys (run_next n s) = fsys s" "next_pid (run_next n s) = next_pid s" "current_pid (run_next n s) = int n" "current_process (run_next n s) = Some n"
  "pidof (run_next n s) j = pidof s j" "parent (run_next n s) j = parent s j" "stk (run_next n s) j = stk s j"
  "p_context (proc_table (run_next n s) j) = p_context (proc_table s j)" "preempt_ticks (run_next n s) = preempt_ticks s"
  "pst (run_next n s) j = (if j = n then PROC_STATE_RUNNING else if int j = current_pid s \<and> pst s j = PROC_STATE_RUNNING then PROC_STATE_READY else pst s j)"
  by (simp_all add: run_next_def Let_def) (auto simp: set_state_def upd_proc_def)

lemma run_next_inv:
  assumes inv: "proc_inv s N K" and n: "active s n"
  shows "proc_inv (run_next n s) N K"
proof (rule proc_inv_states [OF inv])
  have act: "active (run_next n s) j \<longleftrightarrow> active s j" for j using n by (auto simp: active_def run_next_fields)
  note C = proc_invD(3) [OF inv]
  show "current_ok (run_next n s)"
    using C n unfolding current_ok_def act by (auto simp: run_next_fields)
  show "active s j \<and> pidof (run_next n s) j = pidof s j \<and> parent (run_next n s) j = parent s j \<and> stk (run_next n s) j = stk s j"
    if "active (run_next n s) j" for j using that act by (simp add: run_next_fields)
qed (simp_all add: run_next_fields)

lemma find_Some_set: "find Q xs = Some x \<Longrightarrow> x \<in> set xs \<and> Q x"
  by (auto simp: find_Some_iff)

lemma scan_order_set: "set (scan_order old) \<subseteq> {..<MAX_PROCESSES}"
  by (auto simp: scan_order_def Let_def MAX_PROCESSES_def)

lemma find_scan_active:
  assumes "find Q (scan_order old) = Some i" and "\<And>i. Q i \<Longrightarrow> pst s i \<noteq> PROC_STATE_FREE"
  shows "active s i"
  using find_Some_set [OF assms(1)] assms(2) scan_order_set [of old] by (auto simp: active_def)

lemma process_get_active: "process_get pid s = Some i \<Longrightarrow> active s i \<and> pidof s i = pid"
  by (auto simp: process_get_def active_def find_upt_Some)

lemma process_start_inv: "proc_inv s N K \<Longrightarrow> proc_inv (snd (process_start pid s)) N K"
  using process_get_active by (auto simp: process_start_def intro: proc_state_inv split: option.splits)

lemma process_schedule_inv:
  assumes inv: "proc_inv s N K"
  shows "proc_inv (process_schedule s) N K"
proof -
  define u where "u = s\<lparr>irq_on := False\<rparr>"
  have iu: "proc_inv u N K" using inv by (simp add: u_def)
  note C = proc_invD(3) [OF iu]
  have leave: "proc_inv (u\<lparr>current_pid := - 1, current_process := None\<rparr>) N K"
    if "current_pid u \<ge> 0" "pst u (nat (current_pid u)) \<noteq> PROC_STATE_RUNNING"
    by (rule proc_inv_states [OF iu]) (use that C in \<open>auto simp: current_ok_def active_def\<close>)
  show ?thesis
  proof (cases "find (\<lambda>i. pst u i = PROC_STATE_READY) (scan_order (current_pid u))")
    case None
    then show ?thesis
      unfolding process_schedule_def u_def [symmetric] Let_def using iu leave by auto
  next
    case (Some n)
    have a: "active u n" by (rule find_scan_active [OF Some]) simp
    have "proc_inv (run_next n u) N K" by (rule run_next_inv [OF iu a])
    moreover have "proc_inv (set_state n PROC_STATE_RUNNING u) N K" if "int n = current_pid u"
      by (rule proc_state_inv [OF iu a]) (use that in simp)
    ultimately show ?thesis
      unfolding process_schedule_def u_def [symmetric] Let_def using iu Some by auto
  qed
qed

lemma current_active: "proc_inv s N K \<Longrightarrow> 0 \<le> current_pid s \<Longrightarrow> active s (nat (current_pid s))"
  using proc_invD(3) [of s N K] by (auto simp: current_ok_def)

lemma process_yield_inv: "proc_inv s N K \<Longrightarrow> proc_inv (process_yield s) N K"
  unfolding process_yield_def
  using current_active by (intro process_schedule_inv) (auto intro: proc_state_inv)

lemma irq_choice_active: "irq_choice s = Some n \<Longrightarrow> active s n \<and> runnable (proc_table s n) \<and> int n \<noteq> current_pid s"
  unfolding irq_choice_def Let_def process_pick_next_ready_def
  using scan_order_set by (fastforce simp: active_def runnable_def dest: find_Some_set split: if_splits option.splits)

lemma irq_inv_ops:
  assumes "proc_inv s N K"
  shows "proc_inv (process_schedule_from_irq s) N K" "proc_inv (process_preempt_from_irq s) N K"
proof -
  obtain e u where q: "process_preempt_quantum_expired s = (e, u)" by fastforce
  have u: "proc_inv u N K" using q assms by (auto simp: process_preempt_quantum_expired_def Let_def split: if_splits)
  show "proc_inv (process_schedule_from_irq s) N K" "proc_inv (process_preempt_from_irq s) N K"
    using u run_next_inv [OF u] irq_choice_active
    by (auto simp: process_schedule_from_irq_def process_preempt_from_irq_def q split: option.splits)
qed

lemma process_kill_spec:
  assumes inv: "proc_inv s N K"
  shows "\<exists>r t. process_kill pid s = Some (r, t) \<and> proc_inv t N K
    \<and> (if \<exists>i. active s i \<and> pidof s i = pid \<and> int i \<noteq> current_pid s
       then r = 0 \<and> kills s (not_current s {j. active s j \<and> pidof s j = pid \<or> descends s pid j}) t
       else r = - 1 \<and> t = s)"
proof -
  note I = proc_invD [OF inv] and P = pids_okD [OF proc_invD(4) [OF inv]]
  show ?thesis
  proof (cases "process_get pid s")
    case None
    then have "\<not> (\<exists>i. active s i \<and> pidof s i = pid)" by (auto simp: process_get_def find_None_iff active_def)
    then show ?thesis using None inv by (auto simp: process_kill_def)
  next
    case (Some i)
    then have i: "active s i" "pidof s i = pid" using process_get_active by auto
    have pos: "\<not> pid \<le> 0" using P(2) [OF i(1)] i(2) by linarith
    show ?thesis
    proof (cases "int i = current_pid s")
      case True
      then have "\<not> (\<exists>j. active s j \<and> pidof s j = pid \<and> int j \<noteq> current_pid s)" using P(5) i by metis
      then show ?thesis using Some True pos inv by (auto simp: process_kill_def)
    next
      case False
      obtain u where u: "kill_children pid s = Some u" "kills s (not_current s {j. descends s pid j}) u"
        using kill_children_kills [OF I(1,5,4)] by blast
      have up: "descends s pid j \<Longrightarrow> pid < pidof s j" for j
        by (induction rule: descends.induct) (use P(4) in fastforce)+
      have nd: "\<not> descends s pid i" using up i(2) by fastforce
      define t where "t = kill_slot i u"
      have k: "kills s (insert i (not_current s {j. descends s pid j})) t"
        unfolding t_def by (rule kill_slot_kills [OF I(1,5) u(2) i(1)]) (use nd descends_active in \<open>auto simp: not_current_def\<close>)
      have e: "insert i (not_current s {j. descends s pid j}) = not_current s {j. active s j \<and> pidof s j = pid \<or> descends s pid j}"
        using i False P(5) by (auto simp: not_current_def)
      have "process_kill pid s = Some (0, t)" using Some False pos u(1) by (simp add: process_kill_def t_def)
      moreover have "proc_inv t N K"
        by (rule kills_inv [OF inv k]) (use i False descends_active in \<open>auto simp: not_current_def\<close>)
      ultimately show ?thesis using k e i False by auto
    qed
  qed
qed

lemma process_exit_spec:
  assumes inv: "proc_inv s N K" and cur: "0 \<le> current_pid s" and ctx: "c_pc (kernel_context s) \<noteq> 0" "c_sp (kernel_context s) \<noteq> 0"
  defines "i \<equiv> nat (current_pid s)"
  shows "\<exists>t u. process_exit status s = Some t \<and> proc_inv t N K \<and> current_pid t = - 1 \<and> current_process t = None
    \<and> kills (s\<lparr>irq_on := False\<rparr>) (not_current s {j. descends s (pidof s i) j}) u
    \<and> (\<forall>j. pst t j = (if j = i then PROC_STATE_FREE else pst u j)) \<and> p_exit_status (proc_table t i) = status
    \<and> regs t = kernel_context s \<and> pheap t = pheap u \<and> stk t i = stk s i"
proof -
  define v where "v = s\<lparr>irq_on := False\<rparr>"
  have iv: "proc_inv v N K" using inv by (simp add: v_def)
  note I = proc_invD [OF iv]
  obtain u where u: "kill_children (pidof v i) v = Some u" "kills v (not_current v {j. descends v (pidof v i) j}) u"
    using kill_children_kills [OF I(1,5,4)] by blast
  note D = killsD [OF u(2)]
  have iu: "proc_inv u N K" by (rule kills_inv [OF iv u(2)]) (auto simp: not_current_def dest: descends_active)
  have ci: "current_pid s = int i" "active u i" using cur current_active [OF iu] D(2) by (auto simp: i_def v_def)
  define w where "w = (upd_proc i (\<lambda>p. p\<lparr>p_exit_status := status, p_state := PROC_STATE_FREE\<rparr>) u)\<lparr>current_pid := - 1, current_process := None\<rparr>"
  have act: "active w j \<longleftrightarrow> active u j \<and> j \<noteq> i" for j by (auto simp: w_def upd_proc_def active_def)
  have iw: "proc_inv w N K"
  proof (rule proc_inv_states [OF iu])
    show "current_ok w" using proc_invD(3) [OF iu] ci(1) D(2) unfolding current_ok_def act by (auto simp: w_def upd_proc_def v_def)
    show "active u j \<and> pidof w j = pidof u j \<and> parent w j = parent u j \<and> stk w j = stk u j" if "active w j" for j
      using that act by (auto simp: w_def upd_proc_def)
  qed (simp_all add: w_def upd_proc_def)
  have kc: "kernel_context w = kernel_context s" using kills_contexts [OF u(2)] by (simp add: w_def upd_proc_def v_def)
  have ex: "process_exit status s = Some (switch_context (Slot i) Kernel w)"
    using cur u(1) kc ctx by (simp add: process_exit_def Let_def i_def [symmetric] v_def w_def)
  have ps: "pst w j = (if j = i then PROC_STATE_FREE else pst u j)" for j by (simp add: w_def upd_proc_def)
  have st: "stk w i = stk s i" using D(1) [of i] ci(1) by (simp add: w_def upd_proc_def not_current_def v_def)
  have wf: "current_pid w = - 1" "current_process w = None" "p_exit_status (proc_table w i) = status" "fsys w = fsys u"
    by (simp_all add: w_def upd_proc_def)
  have rg: "regs (switch_context (Slot i) Kernel w) = kernel_context s" using kc by (simp add: switch_context_def upd_proc_def)
  have k: "kills (s\<lparr>irq_on := False\<rparr>) (not_current s {j. descends s (pidof s i) j}) u" using u(2) by (simp add: v_def not_current_def)
  show ?thesis
    by (rule exI [of _ "switch_context (Slot i) Kernel w"], rule exI [of _ u]) (use ex iw k ps st wf rg in simp)
qed

section \<open>Creation\<close>

text \<open>A step on the heap and the file handles: the table and the inodes stay, and \<open>L\<close> are the heap blocks afterwards.\<close>

definition hstep :: "psys \<Rightarrow> psys \<Rightarrow> (ptr \<rightharpoonup> nat) \<Rightarrow> bool" where
  "hstep s t L \<longleftrightarrow> proc_table t = proc_table s \<and> current_pid t = current_pid s \<and> current_process t = current_process s \<and> next_pid t = next_pid s
     \<and> inodes (krn (cvfs (fsys t))) = inodes (krn (cvfs (fsys s))) \<and> root (krn (cvfs (fsys t))) = root (krn (cvfs (fsys s)))
     \<and> heap_inv (pheap t) \<and> live (pheap t) = L"

lemma hstep_compat:
  assumes h: "hstep s t L" and ok: "compat_ok (fsys s) N K" and sub: "live (pheap s) \<subseteq>\<^sub>m L"
  shows "compat_ok (fsys t) N K"
proof -
  have w: "fs_wf (krn (cvfs (fsys s))) N K" using ok by (simp add: compat_ok_def)
  have "live (pheap s) p = Some n \<Longrightarrow> live (pheap t) p = Some n" for p n
    using sub h unfolding hstep_def map_le_def by (metis domI)
  then have mono: "live (pheap t) p = live (pheap s) p" if "live (pheap s) p \<noteq> None" for p using that by fastforce
  have "live (pheap s) p \<noteq> None" if "p \<in> N" for p using fs_okD(2) [OF w that] by auto
  moreover have "live (pheap s) (idata (inodes (krn (cvfs (fsys s))) p)) \<noteq> None"
    if "p \<in> N" "idata (inodes (krn (cvfs (fsys s))) p) \<noteq> NULL" for p
    using fs_okD(3) [OF w that(1)] that(2) by (auto simp: buf_ok_def)
  ultimately show ?thesis
    using h mono by (intro compat_ok_heap [OF ok]) (simp_all add: hstep_def)
qed

lemma hstep_inv:
  assumes h: "hstep s t L" and inv: "proc_inv s N K" and sub: "live (pheap s) \<subseteq>\<^sub>m L"
  shows "proc_inv t N K"
proof -
  note I = proc_invD [OF inv]
  have act: "active t = active s" using h by (simp add: hstep_def active_def fun_eq_iff)
  have mono: "live (pheap s) p = Some n \<Longrightarrow> live (pheap t) p = Some n" for p n
    using sub h unfolding hstep_def map_le_def by (metis domI)
  have "current_ok t" "pids_ok t" using I(3,4) h by (simp_all add: current_ok_def pids_ok_def act hstep_def)
  moreover have "stacks_ok t N" using I(5) h mono unfolding stacks_ok_def act hstep_def by metis
  ultimately show ?thesis using hstep_compat [OF h I(2) sub] by (simp add: proc_inv_def)
qed

lemma alloc_cases:
  assumes "heap_inv h"
  obtains (full) "kmalloc sz 0 h = Some (NULL, h)"
    | (got) p h' n where "kmalloc sz 0 h = Some (p, h')" "p \<noteq> NULL" "live h p = None" "unat sz \<le> n" "live h' = (live h)(p \<mapsto> n)" "heap_inv h'"
      "mem h' = mem h"
  using kmalloc_cases [OF assms, of sz 0] by auto

text \<open>What reading the program file leaves: nothing, or a fresh heap block with the bytes of the file. A node of the
  compatibility layer stays in use whenever the path exists.\<close>

definition node_spent :: "psys \<Rightarrow> bytes \<Rightarrow> psys \<Rightarrow> bool" where
  "node_spent s f t \<longleftrightarrow>
     (if node_for (fsys s) f = None \<or> free_nodes (fsys s) = {} then free_nodes (fsys t) = free_nodes (fsys s)
      else \<exists>i \<in> free_nodes (fsys s). free_nodes (fsys t) = free_nodes (fsys s) - {i})"

lemma read_image_cases:
  assumes ok: "compat_ok (fsys s) N K"
  obtains (none) t where "read_image (Some f) s = Some (None, t)" "hstep s t (live (pheap s))" "node_spent s f t"
    | (image) t data sz n c where "read_image (Some f) s = Some (Some (data, sz), t)" "hstep s t ((live (pheap s))(data \<mapsto> n))" "node_spent s f t"
      "live (pheap s) data = None" "data \<noteq> NULL" "unat sz \<le> n" "ramfs_at (krn (cvfs (fsys s))) f = Some c" "sz = isize (inodes (krn (cvfs (fsys s))) c)"
      "read_bytes (mem (pheap t)) data (unat sz) = contents (krn (cvfs (fsys s))) c"
proof -
  have w: "fs_wf (krn (cvfs (fsys s))) N K" using ok by (simp add: compat_ok_def)
  note hi = fs_okD(1) [OF w]
  show ?thesis
  proof (cases f rule: vfs_lookup_cases [OF ok])
    case (1 c')
    have "hstep s (s\<lparr>fsys := c'\<rparr>) (live (pheap s))" using 1(3) hi by (simp add: hstep_def)
    moreover have "node_spent s f (s\<lparr>fsys := c'\<rparr>)" using 1(2,5) by (auto simp: node_spent_def free_nodes_def)
    ultimately show ?thesis using 1(1) by (intro none) (simp_all add: read_image_def)
  next
    case (2 i c' nd)
    define u where "u = s\<lparr>fsys := c'\<rparr>"
    have hu: "hstep s u (live (pheap s))" using 2(5) hi by (simp add: hstep_def u_def)
    have fn: "free_nodes c' = free_nodes (fsys s) - {i}" using 2(7) by (auto simp: free_nodes_def)
    have spent: "node_spent s f v" if "free_nodes (fsys v) = free_nodes c'" for v
      using that fn 2(2,3) by (auto simp: node_spent_def)
    show ?thesis
    proof (cases "n_is_dir nd \<or> n_size nd = 0")
      case True
      then have "read_image (Some f) s = Some (None, u)" using 2(1,4) by (auto simp: read_image_def vfs_is_dir_def u_def Let_def)
      then show ?thesis by (rule none [OF _ hu]) (simp add: spent u_def)
    next
      case False
      then obtain c where c: "ramfs_at (krn (cvfs (fsys s))) f = Some c" "n_internal nd = c" "n_size nd = isize (inodes (krn (cvfs (fsys s))) c)"
        using 2(3) by (auto simp: node_for_def split: if_splits)
      have cN: "c \<in> N" by (rule ramfs_at_in [OF ok c(1)])
      define sz where "sz = n_size nd"
      have sz: "sz = isize (inodes (krn (cvfs (fsys s))) c)" "unat sz < 2 ^ 31"
        using c(3) fs_okD(3) [OF w cN] cap_small [of "data_capacity (inodes (krn (cvfs (fsys s))) c)"]
        by (auto simp: sz_def buf_ok_def word_le_nat_alt)
      have rd: "read_image (Some f) s = do {
          (data, h) \<leftarrow> kmalloc sz 0 (pheap u);
          let v = set_pheap h u;
          if data = NULL then Some (None, v)
          else (let (n, c) = vfs_read_compat (Some i) data sz 0 (fsys v); v = v\<lparr>fsys := c\<rparr> in
                if n \<noteq> sint (ucast sz :: u32) then Some (None, set_pheap (kfree data (pheap v)) v) else Some (Some (data, sz), v)) }"
        unfolding sz_def u_def using False 2(1,4) by (simp add: read_image_def vfs_is_dir_def Let_def)
      have hi': "heap_inv (pheap u)" using hu by (simp add: hstep_def)
      show ?thesis
      proof (cases sz rule: alloc_cases [OF hi'])
        case 1
        then have "read_image (Some f) s = Some (None, u)" unfolding rd by simp
        then show ?thesis by (rule none [OF _ hu]) (simp add: spent u_def)
      next
        case (2 data h n)
        define v where "v = set_pheap h u"
        have L: "live (pheap u) = live (pheap s)" using hu by (simp add: hstep_def)
        have hv: "hstep s v ((live (pheap s))(data \<mapsto> n))" using hu 2(5,6) L by (simp add: hstep_def v_def)
        have fresh: "live (pheap s) data = None" using 2(3) L by simp
        then have sub: "live (pheap s) \<subseteq>\<^sub>m (live (pheap s))(data \<mapsto> n)" by (auto simp: map_le_def)
        have okv: "compat_ok (fsys v) N K" by (rule hstep_compat [OF hv ok sub])
        have iv: "inodes (krn (cvfs (fsys v))) = inodes (krn (cvfs (fsys s)))" using hv by (simp add: hstep_def)
        have np: "node_pool (fsys v) i = nd" using \<open>node_pool c' i = nd\<close> by (simp add: v_def u_def set_pheap_def)
        have nid: "data \<noteq> idata (inodes (krn (cvfs (fsys v))) c)"
          using fs_okD(3) [OF w cN] fresh 2(2) unfolding iv by (auto simp: buf_ok_def split: if_splits)
        have mv: "mem (pheap v) = mem (pheap s)" using 2(7) \<open>cvfs c' = cvfs (fsys s)\<close> by (simp add: v_def u_def)
        have ct: "contents (krn (cvfs (fsys v))) c = contents (krn (cvfs (fsys s))) c" by (simp add: contents_def iv mv)
        have lc: "length (contents (krn (cvfs (fsys s))) c) = unat sz" by (simp add: contents_def sz(1))
        have "live (pheap v) data = Some n" using hv by (simp add: hstep_def)
        from vfs_read_compat_spec [OF okv cN _ _ this 2(4) nid, of i 0] np c(2,3) sz(1)
        obtain m where m: "vfs_read_compat (Some i) data sz 0 (fsys v)
              = (int (unat sz), (fsys v)\<lparr>cvfs := set_heap ((pheap v)\<lparr>mem := m\<rparr>) (cvfs (fsys v))\<rparr>)"
            "read_bytes m data (unat sz) = contents (krn (cvfs (fsys s))) c"
          by (auto simp: iv ct lc)
        define t where "t = set_pheap ((pheap v)\<lparr>mem := m\<rparr>) v"
        have tv: "v\<lparr>fsys := (fsys v)\<lparr>cvfs := set_heap ((pheap v)\<lparr>mem := m\<rparr>) (cvfs (fsys v))\<rparr>\<rparr> = t" by (simp add: t_def set_pheap_def)
        have "read_image (Some f) s = Some (Some (data, sz), t)"
          unfolding rd using 2(1,2) m(1) sint_ucast_small [OF sz(2)] by (simp add: v_def [symmetric] tv)
        moreover have "hstep s t ((live (pheap s))(data \<mapsto> n))" using hv by (simp add: hstep_def t_def)
        moreover have "node_spent s f t" by (rule spent) (simp add: t_def v_def u_def set_pheap_def free_nodes_def)
        moreover have "read_bytes (mem (pheap t)) data (unat sz) = contents (krn (cvfs (fsys s))) c" using m(2) by (simp add: t_def)
        ultimately show ?thesis using fresh 2(2,4) c(1) sz(1) by (intro image)
      qed
    qed
  qed
qed

lemma load_image_cases:
  assumes h: "heap_inv (pheap s)" and d: "live (pheap s) data \<noteq> None"
  shows "load_image ar data sz s = None
    \<or> (\<exists>info t. load_image ar data sz s = Some (info, t) \<and> hstep s t ((live (pheap s))(data := None)) \<and> node_used (fsys t) = node_used (fsys s)
         \<and> (\<forall>a. heap_start (pheap s) \<le> a \<and> a < heap_end (pheap s) \<longrightarrow> mem (pheap t) a = mem (pheap s) a))"
proof -
  have fin: "hstep s (set_pheap (kfree data (h'\<lparr>mem := m\<rparr>)) v) ((live (pheap s))(data := None))
      \<and> mem (pheap (set_pheap (kfree data (h'\<lparr>mem := m\<rparr>)) v)) = m"
    if "h' = pheap s" "proc_table v = proc_table s" "current_pid v = current_pid s" "current_process v = current_process s" "next_pid v = next_pid s"
      "fsys v = fsys s" for m v h'
  proof -
    have i: "heap_inv (h'\<lparr>mem := m\<rparr>)" "live (h'\<lparr>mem := m\<rparr>) data \<noteq> None" using h d that(1) by simp_all
    show ?thesis using kh.release_inv [OF i] kh.release_lv [OF i] that kfree_mem by (simp add: hstep_def)
  qed
  show ?thesis
  proof (cases "elf_calc_size (loader_mem (pheap s)) (of_nat data) sz")
    case None
    then show ?thesis by (simp add: load_image_def)
  next
    case (Some prog_size)
    show ?thesis
    proof (cases "prog_size = 0")
      case True
      then have "load_image ar data sz s = Some (None, set_pheap (kfree data ((pheap s)\<lparr>mem := mem (pheap s)\<rparr>)) s)"
        using Some by (simp add: load_image_def)
      then show ?thesis using fin [of "pheap s" s "mem (pheap s)"] by (auto simp: set_pheap_def)
    next
      case False
      obtain off g where g: "aslr_exec_offset ar (rng s) = (off, g)" by fastforce
      define la where "la = ALIGN_64K (next_load_addr s + off)"
      show ?thesis
      proof (cases "elf_load_at (loader_mem (pheap s)) (of_nat data) sz la (Some \<lparr>entry = 0, load_base = 0, load_size = 0\<rparr>)")
        case None
        then show ?thesis using Some False g by (simp add: load_image_def la_def Let_def)
      next
        case E: (Some x)
        obtain r m info where x: "x = (r, m, info)" by (cases x) auto
        show ?thesis
        proof (cases "put_loader_mem m (pheap s)")
          case None
          then show ?thesis using Some False g E x by (simp add: load_image_def la_def Let_def)
        next
          case P: (Some h')
          define M where "M = (\<lambda>a. if a < 2 ^ 64 then m (of_nat a) else mem (pheap s) a)"
          have h': "h' = (pheap s)\<lparr>mem := M\<rparr>" and ag: "\<forall>a. heap_start (pheap s) \<le> a \<and> a < heap_end (pheap s) \<longrightarrow> M a = mem (pheap s) a"
            using P by (auto simp: put_loader_mem_def M_def list_ex_iff split: if_splits)
          define v where "v = s\<lparr>rng := g\<rparr>"
          define w where "w = v\<lparr>next_load_addr := ALIGN_64K (la + load_size (the info) + 0x10000)\<rparr>"
          have "load_image ar data sz s = Some (if r \<noteq> 0 then None else info, set_pheap (kfree data ((pheap s)\<lparr>mem := M\<rparr>)) (if r \<noteq> 0 then v else w))"
            using Some False g E x P h' by (simp add: load_image_def la_def v_def w_def Let_def set_pheap_def)
          moreover have "hstep s (set_pheap (kfree data ((pheap s)\<lparr>mem := M\<rparr>)) (if r \<noteq> 0 then v else w)) ((live (pheap s))(data := None))
              \<and> mem (pheap (set_pheap (kfree data ((pheap s)\<lparr>mem := M\<rparr>)) (if r \<noteq> 0 then v else w))) = M"
            by (rule fin) (simp_all add: v_def w_def)
          ultimately show ?thesis using ag by (auto simp: v_def w_def set_pheap_def)
        qed
      qed
    qed
  qed
qed

text \<open>Reserving a slot, and giving it its stack and context.\<close>

lemma reserve_inv:
  assumes inv: "proc_inv s N K" and slot: "find_free_slot_unlocked s = Some i"
  defines "t \<equiv> upd_proc i (\<lambda>_. empty_process (next_pid s) PROC_STATE_BLOCKED) (s\<lparr>next_pid := next_pid s + 1\<rparr>)"
  shows "proc_inv t N K" "\<not> active s i" "active t i" "\<And>j. j \<noteq> i \<Longrightarrow> active t j = active s j"
proof -
  note I = proc_invD [OF inv] and P = pids_okD [OF proc_invD(4) [OF inv]]
  have i: "i < MAX_PROCESSES" "pst s i = PROC_STATE_FREE" "\<forall>j < i. pst s j \<noteq> PROC_STATE_FREE"
    using slot [unfolded find_free_slot_unlocked_def find_upt_Some] by auto
  show na: "\<not> active s i" using i by (simp add: active_def)
  show ai: "active t i" using i by (simp add: active_def t_def upd_proc_def empty_process_def)
  show oth: "active t j = active s j" if "j \<noteq> i" for j using that by (simp add: active_def t_def upd_proc_def)
  have act: "active t j \<longleftrightarrow> j = i \<or> active s j" for j using na ai oth by (cases "j = i") auto
  have tt: "proc_table t j = (if j = i then empty_process (next_pid s) PROC_STATE_BLOCKED else proc_table s j)" for j by (simp add: t_def upd_proc_def)
  have fx: "fsys t = fsys s" "current_pid t = current_pid s" "current_process t = current_process s" "next_pid t = next_pid s + 1"
    by (simp_all add: t_def upd_proc_def)
  have big: "int i < next_pid s"
  proof (cases i)
    case 0
    then show ?thesis using P(1) by simp
  next
    case (Suc k)
    then have "active s k" using i by (simp add: active_def)
    then show ?thesis using P(2,3) [of k] Suc by linarith
  qed
  have "current_ok t" using I(3) na unfolding current_ok_def act fx by (auto simp: tt empty_process_def)
  moreover have "pids_ok t"
    unfolding pids_ok_def act fx
  proof (intro conjI allI impI)
    show "1 \<le> next_pid s + 1" using P(1) by simp
    fix j assume j: "j = i \<or> active s j"
    show "int j < pidof t j" "pidof t j < next_pid s + 1" "parent t j < pidof t j"
      using j P(2-4) [of j] P(1) big na by (auto simp: tt empty_process_def)
  next
    fix j k assume jk: "(j = i \<or> active s j) \<and> (k = i \<or> active s k) \<and> pidof t j = pidof t k"
    have lt: "pidof t x < next_pid s" if "x \<noteq> i" "active s x" for x using that P(3) [of x] by (simp add: tt)
    have "pidof t i = next_pid s" by (simp add: tt empty_process_def)
    then have "j = i \<longleftrightarrow> k = i" using jk lt [of j] lt [of k] by (metis less_irrefl)
    then show "j = k" using jk P(5) [of j k] tt by (cases "j = i") simp_all
  qed
  moreover have "stacks_ok t N"
    unfolding stacks_ok_def act fx
  proof (intro allI impI)
    fix j assume "(j = i \<or> active s j) \<and> stk t j \<noteq> NULL"
    then have j: "j \<noteq> i" "active s j" "stk t j = stk s j" "stk s j \<noteq> NULL" by (auto simp: tt empty_process_def split: if_splits)
    have o: "k = j" if "k = i \<or> active s k" "stk t k = stk s j" for k
      using that j(4) stacks_okD(4) [OF I(5) j(2,4), of k] by (auto simp: tt empty_process_def split: if_splits)
    show "(\<exists>n \<ge> unat PROCESS_STACK_SIZE. live (pheap s) (stk t j) = Some n) \<and> stk t j \<notin> N
        \<and> (\<forall>c \<in> N. idata (inodes (krn (cvfs (fsys s))) c) \<noteq> stk t j) \<and> (\<forall>k. (k = i \<or> active s k) \<and> stk t k = stk t j \<longrightarrow> k = j)"
      unfolding j(3) using stacks_okD(1-3) [OF I(5) j(2,4)] o by blast
  qed
  ultimately show "proc_inv t N K" using I(2) fx(1) by (simp add: proc_inv_def)
qed

lemma release_inv:
  assumes inv: "proc_inv s N K" and i: "current_pid s \<noteq> int i"
  shows "proc_inv (release_reserved_slot_unlocked i s) N K"
proof (rule proc_inv_states [OF inv])
  let ?t = "release_reserved_slot_unlocked i s"
  have tt: "proc_table ?t j = (if j = i then empty_process 0 PROC_STATE_FREE else proc_table s j)" for j
    by (simp add: release_reserved_slot_unlocked_def upd_proc_def)
  have act: "active ?t j \<longleftrightarrow> active s j \<and> j \<noteq> i" for j by (auto simp: active_def tt empty_process_def)
  show "current_ok ?t" using proc_invD(3) [OF inv] i unfolding current_ok_def act
    by (auto simp: tt) (auto simp: release_reserved_slot_unlocked_def upd_proc_def)
  show "active s j \<and> pidof ?t j = pidof s j \<and> parent ?t j = parent s j \<and> stk ?t j = stk s j" if "active ?t j" for j
    using that by (simp add: act tt)
qed (simp_all add: release_reserved_slot_unlocked_def upd_proc_def)


lemma fill_slot_inv:
  assumes inv: "proc_inv s N K" and i: "active s i" "stk s i = NULL" "current_pid s \<noteq> int i"
    and p: "p_pid p = pidof s i" "p_parent_pid p = current_pid s" "p_state p = PROC_STATE_READY" "p_stack_base p = sb"
    and new: "pidof s i = next_pid s - 1"
    and sb: "live (pheap s) sb = Some n" "unat PROCESS_STACK_SIZE \<le> n" "sb \<notin> N" "\<And>c. c \<in> N \<Longrightarrow> idata (inodes (krn (cvfs (fsys s))) c) \<noteq> sb"
      "\<And>j. active s j \<Longrightarrow> stk s j \<noteq> sb"
  shows "proc_inv (upd_proc i (\<lambda>_. p) s) N K"
proof -
  define t where "t = upd_proc i (\<lambda>_. p) s"
  note I = proc_invD [OF inv] and P = pids_okD [OF proc_invD(4) [OF inv]]
  have tt: "proc_table t j = (if j = i then p else proc_table s j)" for j by (simp add: t_def upd_proc_def)
  have fx: "fsys t = fsys s" "current_pid t = current_pid s" "current_process t = current_process s" "next_pid t = next_pid s"
    by (simp_all add: t_def upd_proc_def)
  have act: "active t j \<longleftrightarrow> active s j" for j using i(1) p(3) by (auto simp: active_def tt)
  have pid: "pidof t j = pidof s j" for j using p(1) by (simp add: tt)
  have cur: "current_ok t" using I(3) p(3) unfolding current_ok_def act fx by (auto simp: tt)
  have "current_pid s < pidof s i"
  proof (cases "current_pid s < 0")
    case True
    then show ?thesis using P(2) [OF i(1)] by linarith
  next
    case False
    then obtain k where k: "active s k" "current_pid s = int k" using I(3) by (auto simp: current_ok_def)
    then have "pidof s k \<noteq> pidof s i" using P(5) [OF k(1) i(1)] i(3) by auto
    then show ?thesis using P(2,3) [OF k(1)] k(2) new by linarith
  qed
  then have "pids_ok t" using I(4) p(2) unfolding pids_ok_def act fx pid by (auto simp: tt)
  moreover have "stacks_ok t N"
    unfolding stacks_ok_def act fx
  proof (intro allI impI)
    fix j assume j: "active s j \<and> stk t j \<noteq> NULL"
    show "(\<exists>n \<ge> unat PROCESS_STACK_SIZE. live (pheap s) (stk t j) = Some n) \<and> stk t j \<notin> N
        \<and> (\<forall>c \<in> N. idata (inodes (krn (cvfs (fsys s))) c) \<noteq> stk t j) \<and> (\<forall>k. active s k \<and> stk t k = stk t j \<longrightarrow> k = j)"
    proof (cases "j = i")
      case True
      then have e: "stk t j = sb" using p(4) by (simp add: tt)
      have "k = j" if "active s k" "stk t k = sb" for k using that sb(5) [of k] True by (simp add: tt split: if_splits)
      then show ?thesis unfolding e using sb by blast
    next
      case False
      then have e: "stk t j = stk s j" "stk s j \<noteq> NULL" using j by (simp_all add: tt)
      note S = stacks_okD [OF I(5) conjunct1 [OF j] e(2)]
      have "k = j" if "active s k" "stk t k = stk s j" for k
      proof (cases "k = i")
        case True
        then have "stk s j = sb" using that(2) p(4) by (simp add: tt)
        then show ?thesis using sb(5) j by blast
      next
        case False
        then show ?thesis using that S(4) [of k] by (simp add: tt)
      qed
      then show ?thesis unfolding e(1) using S(1-3) by blast
    qed
  qed
  ultimately show ?thesis using I(2) cur fx(1) unfolding t_def [symmetric] by (simp add: proc_inv_def)
qed

text \<open>A created process: its slot was free, it is ready, runs from the entry stub on a stack of its own, and nothing else changed.\<close>

definition created :: "arch \<Rightarrow> symbols \<Rightarrow> bytes \<Rightarrow> u64 \<Rightarrow> u64 \<Rightarrow> psys \<Rightarrow> int \<Rightarrow> psys \<Rightarrow> bool" where
  "created ar sy f argc argv s pid t \<longleftrightarrow>
     pid = next_pid s \<and> next_pid t = pid + 1
     \<and> (\<exists>i n. i < MAX_PROCESSES \<and> pst s i = PROC_STATE_FREE \<and> (\<forall>j. j \<noteq> i \<longrightarrow> proc_table t j = proc_table s j)
          \<and> pst t i = PROC_STATE_READY \<and> pidof t i = pid \<and> parent t i = current_pid s \<and> p_name (proc_table t i) = take 31 f
          \<and> stk t i \<noteq> NULL \<and> live (pheap s) (stk t i) = None \<and> 0x100000 \<le> n \<and> live (pheap t) = (live (pheap s))(stk t i \<mapsto> n)
          \<and> p_context (proc_table t i)
            = init_context ar sy ((of_nat (stk t i) + PROCESS_STACK_SIZE) AND NOT 0xF) (p_entry (proc_table t i)) argc argv)"

text \<open>A failed creation: the table keeps its processes and the heap its blocks.\<close>

definition not_created :: "psys \<Rightarrow> psys \<Rightarrow> bool" where
  "not_created s t \<longleftrightarrow> (\<forall>i. active t i = active s i) \<and> (\<forall>i. active s i \<longrightarrow> proc_table t i = proc_table s i)
     \<and> current_pid t = current_pid s \<and> live (pheap t) = live (pheap s)"

lemma build_process_spec:
  assumes inv: "proc_inv s N K" and i: "active s i" "stk s i = NULL" "current_pid s \<noteq> int i" and new: "pidof s i = next_pid s - 1"
  shows "\<exists>r t. build_process ar sy i f argc argv info s = Some (r, t) \<and> proc_inv t N K
    \<and> next_pid t = next_pid s \<and> current_pid t = current_pid s \<and> (\<forall>j. j \<noteq> i \<longrightarrow> proc_table t j = proc_table s j) \<and> node_used (fsys t) = node_used (fsys s)
    \<and> (r = - 1 \<and> pst t i = PROC_STATE_FREE \<and> live (pheap t) = live (pheap s)
       \<or> r = pidof s i \<and> pst t i = PROC_STATE_READY \<and> pidof t i = r \<and> parent t i = current_pid s \<and> p_name (proc_table t i) = take 31 f
         \<and> stk t i \<noteq> NULL \<and> live (pheap s) (stk t i) = None
         \<and> (\<exists>n \<ge> 0x100000. live (pheap t) = (live (pheap s))(stk t i \<mapsto> n))
         \<and> p_context (proc_table t i)
            = init_context ar sy ((of_nat (stk t i) + PROCESS_STACK_SIZE) AND NOT 0xF) (p_entry (proc_table t i)) argc argv)"
proof -
  note I = proc_invD [OF inv]
  define q where "q = (proc_table s i)\<lparr>p_name := take (PROCESS_NAME_MAX - 1) f, p_load_base := load_base info, p_load_size := load_size info,
               p_entry := entry info, p_parent_pid := current_pid s, p_exit_status := 0, p_stack_size := PROCESS_STACK_SIZE\<rparr>"
  show ?thesis
  proof (cases PROCESS_STACK_SIZE rule: alloc_cases [OF I(1)])
    case 1
    have "build_process ar sy i f argc argv info s = Some (- 1, release_reserved_slot_unlocked i s)"
      using 1 by (simp add: build_process_def upd_proc_def release_reserved_slot_unlocked_def)
    then show ?thesis
      using release_inv [OF inv i(3)] by (simp add: release_reserved_slot_unlocked_def upd_proc_def empty_process_def)
  next
    case (2 sb h n)
    define u where "u = set_pheap h s"
    have hu: "hstep s u ((live (pheap s))(sb \<mapsto> n))" using 2 by (simp add: hstep_def u_def)
    have sub: "live (pheap s) \<subseteq>\<^sub>m (live (pheap s))(sb \<mapsto> n)" using 2(3) by (auto simp: map_le_def)
    have iu: "proc_inv u N K" by (rule hstep_inv [OF hu inv sub])
    define p where "p = q\<lparr>p_stack_base := sb, p_context := init_context ar sy ((of_nat sb + PROCESS_STACK_SIZE) AND NOT 0xF) (entry info) argc argv,
        p_state := PROC_STATE_READY\<rparr>"
    define t where "t = upd_proc i (\<lambda>_. p) u"
    have b: "build_process ar sy i f argc argv info s = Some (pidof s i, t)"
      using 2(1,2) by (simp add: build_process_def t_def p_def q_def u_def upd_proc_def Let_def set_pheap_def)
    have w: "fs_wf (krn (cvfs (fsys s))) N K" using I(2) by (simp add: compat_ok_def)
    have "sb \<notin> N" using 2(3) fs_okD(2) [OF w, of sb] by auto
    moreover have "idata (inodes (krn (cvfs (fsys s))) c) \<noteq> sb" if "c \<in> N" for c
      using fs_okD(3) [OF w that] 2(2,3) by (auto simp: buf_ok_def split: if_splits)
    moreover have "stk s j \<noteq> sb" if "active s j" for j
      using stacks_okD(1) [OF I(5) that] 2(2,3) by (cases "stk s j = NULL") auto
    ultimately have it: "proc_inv t N K"
      unfolding t_def using i new 2(4,5)
      by (intro fill_slot_inv [OF iu, where sb = sb and n = n]) (simp_all add: u_def p_def q_def)
    have tf: "proc_table t i = p" "\<And>j. j \<noteq> i \<Longrightarrow> proc_table t j = proc_table s j" "next_pid t = next_pid s" "current_pid t = current_pid s"
      "pheap t = h" "node_used (fsys t) = node_used (fsys s)" by (simp_all add: t_def u_def upd_proc_def set_pheap_def set_heap_def set_kern_def)
    have n: "0x100000 \<le> n" using 2(4) by (simp add: PROCESS_STACK_SIZE_def)
    have pf: "p_stack_base p = sb" "p_state p = PROC_STATE_READY" "p_pid p = pidof s i" "p_parent_pid p = current_pid s" "p_name p = take 31 f"
      "p_entry p = entry info" "p_context p = init_context ar sy ((of_nat sb + PROCESS_STACK_SIZE) AND NOT 0xF) (entry info) argc argv"
      by (simp_all add: p_def q_def PROCESS_NAME_MAX_def)
    show ?thesis
      by (rule exI [of _ "pidof s i"], rule exI [of _ t]) (use b it tf n pf 2(2,3,5) in auto)
  qed
qed


text \<open>The loader does not return on the image of a file: the one way for \<^verbatim>\<open>process_create\<close> not to return.\<close>

definition loader_stuck :: "arch \<Rightarrow> bytes \<Rightarrow> psys \<Rightarrow> bool" where
  "loader_stuck ar f s \<longleftrightarrow>
     (\<exists>i data sz t. find_free_slot_unlocked s = Some i \<and> load_image (Some ar) data sz t = None
        \<and> read_image (Some f) (upd_proc i (\<lambda>_. empty_process (next_pid s) PROC_STATE_BLOCKED) (s\<lparr>next_pid := next_pid s + 1\<rparr>)) = Some (Some (data, sz), t))"

lemma process_create_spec:
  assumes inv: "proc_inv s N K" and np: "next_pid s < 2 ^ 31 - 1"
  shows "process_create ar sy f argc argv s = None \<and> loader_stuck ar f s
    \<or> (\<exists>r t. process_create ar sy f argc argv s = Some (r, t) \<and> proc_inv t N K
         \<and> (r = - 1 \<and> not_created s t \<or> created ar sy f argc argv s r t)
         \<and> (find_free_slot_unlocked s = None \<or> node_spent s f t))"
proof (cases "find_free_slot_unlocked s")
  case None
  then show ?thesis using inv by (auto simp: process_create_def not_created_def)
next
  case (Some i)
  define u where "u = upd_proc i (\<lambda>_. empty_process (next_pid s) PROC_STATE_BLOCKED) (s\<lparr>next_pid := next_pid s + 1\<rparr>)"
  note R = reserve_inv [OF inv Some, folded u_def]
  have uf: "fsys u = fsys s" "next_pid u = next_pid s + 1" "current_pid u = current_pid s" "pidof u i = next_pid s" "stk u i = NULL"
    "\<And>j. j \<noteq> i \<Longrightarrow> proc_table u j = proc_table s j" by (simp_all add: u_def upd_proc_def empty_process_def)
  have ic: "current_pid u \<noteq> int i"
  proof
    assume "current_pid u = int i"
    then have "active s i" using proc_invD(3) [OF inv] uf(3) by (auto simp: current_ok_def)
    then show False using R(2) by blast
  qed
  have i: "i < MAX_PROCESSES" "pst s i = PROC_STATE_FREE" using Some [unfolded find_free_slot_unlocked_def find_upt_Some] by auto
  have spent: "node_spent s f w" if "node_spent u f v" "node_used (fsys w) = node_used (fsys v)" for v w
  proof -
    have "free_nodes (fsys w) = free_nodes (fsys v)" using that(2) by (simp add: free_nodes_def)
    then show ?thesis using that(1) unfolding node_spent_def uf(1) by (simp only:)
  qed
  have pc: "process_create ar sy f argc argv s = do {
      (image, s) \<leftarrow> read_image (Some f) u;
      case image of
        None \<Rightarrow> Some (- 1, release_reserved_slot_unlocked i s)
      | Some (data, sz) \<Rightarrow> do {
          (info, s) \<leftarrow> load_image (Some ar) data sz s;
          case info of
            None \<Rightarrow> Some (- 1, release_reserved_slot_unlocked i s)
          | Some info \<Rightarrow> build_process ar sy i f argc argv info s } }"
    using Some np by (simp add: process_create_def u_def Let_def)
  have fail: "proc_inv (release_reserved_slot_unlocked i v) N K \<and> not_created s (release_reserved_slot_unlocked i v)"
    if h: "hstep u v (live (pheap u))" for v
  proof -
    have iv: "proc_inv v N K" by (rule hstep_inv [OF h R(1)]) simp
    have vc: "current_pid v \<noteq> int i" "proc_table v = proc_table u" "live (pheap v) = live (pheap s)" "current_pid v = current_pid s"
      using ic h uf(1,3) by (simp_all add: hstep_def)
    have tt: "proc_table (release_reserved_slot_unlocked i v) j = (if j = i then empty_process 0 PROC_STATE_FREE else proc_table s j)" for j
      using vc(2) uf(6) by (simp add: release_reserved_slot_unlocked_def upd_proc_def)
    have "active (release_reserved_slot_unlocked i v) j = active s j" for j using R(2) by (auto simp: active_def tt empty_process_def)
    moreover have "proc_table (release_reserved_slot_unlocked i v) j = proc_table s j" if "active s j" for j using that R(2) tt by auto
    ultimately show ?thesis
      using release_inv [OF iv vc(1)] vc(3,4) by (simp add: not_created_def) (simp add: release_reserved_slot_unlocked_def upd_proc_def)
  qed
  have rel: "node_used (fsys (release_reserved_slot_unlocked i v)) = node_used (fsys v)" for v
    by (simp add: release_reserved_slot_unlocked_def upd_proc_def)
  show ?thesis
  proof (cases f rule: read_image_cases [OF proc_invD(2) [OF R(1)]])
    case (1 v)
    have "process_create ar sy f argc argv s = Some (- 1, release_reserved_slot_unlocked i v)" unfolding pc 1(1) by simp
    then show ?thesis using fail [OF 1(2)] spent [OF 1(3) rel] by blast
  next
    case (2 v data sz n c)
    have hv: "heap_inv (pheap v)" "live (pheap v) data \<noteq> None" using 2(2) by (simp_all add: hstep_def)
    show ?thesis
    proof (cases "load_image (Some ar) data sz v")
      case None
      then show ?thesis using pc 2(1) Some by (auto simp: loader_stuck_def u_def)
    next
      case L: (Some x)
      then obtain info w where x: "x = (info, w)" "hstep v w ((live (pheap v))(data := None))" "node_used (fsys w) = node_used (fsys v)"
        using load_image_cases [OF hv, of "Some ar" sz] by auto
      have hw: "hstep u w (live (pheap u))" using 2(2,4) x(2) by (auto simp: hstep_def fun_eq_iff)
      show ?thesis
      proof (cases info)
        case None
        have "process_create ar sy f argc argv s = Some (- 1, release_reserved_slot_unlocked i w)" unfolding pc 2(1) using L x(1) None by simp
        moreover have "node_spent s f (release_reserved_slot_unlocked i w)" by (rule spent [OF 2(3)]) (simp add: rel x(3))
        ultimately show ?thesis using fail [OF hw] by blast
      next
        case (Some inf)
        have iw: "proc_inv w N K" by (rule hstep_inv [OF hw R(1)]) simp
        have wf: "proc_table w = proc_table u" "next_pid w = next_pid s + 1" "current_pid w = current_pid s" "live (pheap w) = live (pheap s)"
          using hw uf by (simp_all add: hstep_def)
        have ai: "active w i" using R(3) wf(1) by (simp add: active_def)
        have e: "process_create ar sy f argc argv s = build_process ar sy i f argc argv inf w" unfolding pc 2(1) using L x(1) Some by simp
        obtain r t where B: "build_process ar sy i f argc argv inf w = Some (r, t)" "proc_inv t N K" "next_pid t = next_pid w" "current_pid t = current_pid w"
            "\<forall>j. j \<noteq> i \<longrightarrow> proc_table t j = proc_table w j" "node_used (fsys t) = node_used (fsys w)"
            "r = - 1 \<and> pst t i = PROC_STATE_FREE \<and> live (pheap t) = live (pheap w)
             \<or> r = pidof w i \<and> pst t i = PROC_STATE_READY \<and> pidof t i = r \<and> parent t i = current_pid w \<and> p_name (proc_table t i) = take 31 f
               \<and> stk t i \<noteq> NULL \<and> live (pheap w) (stk t i) = None \<and> (\<exists>n \<ge> 0x100000. live (pheap t) = (live (pheap w))(stk t i \<mapsto> n))
               \<and> p_context (proc_table t i)
                  = init_context ar sy ((of_nat (stk t i) + PROCESS_STACK_SIZE) AND NOT 0xF) (p_entry (proc_table t i)) argc argv"
          using build_process_spec [OF iw ai, of ar sy f argc argv inf] ic wf uf by auto
        have sp: "node_spent s f t" by (rule spent [OF 2(3)]) (simp add: B(6) x(3))
        have oth: "\<forall>j. j \<noteq> i \<longrightarrow> proc_table t j = proc_table s j" using B(5) wf(1) uf(6) by simp
        from B(7) have "r = - 1 \<and> not_created s t \<or> created ar sy f argc argv s r t"
        proof
          assume a: "r = - 1 \<and> pst t i = PROC_STATE_FREE \<and> live (pheap t) = live (pheap w)"
          have "active t j = active s j" for j using a oth R(2) by (cases "j = i") (auto simp: active_def)
          moreover have "proc_table t j = proc_table s j" if "active s j" for j using that oth R(2) by auto
          ultimately show ?thesis using a wf(3,4) B(4) by (simp add: not_created_def)
        next
          assume a: "r = pidof w i \<and> pst t i = PROC_STATE_READY \<and> pidof t i = r \<and> parent t i = current_pid w \<and> p_name (proc_table t i) = take 31 f
               \<and> stk t i \<noteq> NULL \<and> live (pheap w) (stk t i) = None \<and> (\<exists>n \<ge> 0x100000. live (pheap t) = (live (pheap w))(stk t i \<mapsto> n))
               \<and> p_context (proc_table t i)
                  = init_context ar sy ((of_nat (stk t i) + PROCESS_STACK_SIZE) AND NOT 0xF) (p_entry (proc_table t i)) argc argv"
          then obtain m where "0x100000 \<le> m" "live (pheap t) = (live (pheap s))(stk t i \<mapsto> m)" using wf(4) by auto
          then have "created ar sy f argc argv s r t"
            unfolding created_def using a i oth B(3) wf uf(4) by (intro conjI exI [of _ i] exI [of _ m]) simp_all
          then show ?thesis ..
        qed
        then show ?thesis using e B(1,2) sp by auto
      qed
    qed
  qed
qed


section \<open>Round robin\<close>

text \<open>A timer tick of the preemptive path, and how many slots the search passes before it comes to slot \<open>j\<close>.\<close>

abbreviation "tick \<equiv> process_schedule_from_irq"

definition ahead :: "psys \<Rightarrow> nat \<Rightarrow> nat" where
  "ahead s j = (j + 16 - nat (current_pid s + 1)) mod 16"

text \<open>The kernel or a running process has the processor, and slot \<open>j\<close> waits for it.\<close>

definition waiting :: "psys \<Rightarrow> nat \<Rightarrow> bool" where
  "waiting s j \<longleftrightarrow> j < MAX_PROCESSES \<and> runnable (proc_table s j)
     \<and> (current_pid s = - 1 \<or> (\<exists>c < MAX_PROCESSES. current_pid s = int c \<and> pst s c = PROC_STATE_RUNNING))"

lemma scan_nth:
  assumes "- 1 \<le> old" and "i < MAX_PROCESSES"
  shows "scan_order old ! i = (nat (old + 1) + i) mod 16" "length (scan_order old) = 16"
proof -
  have "(if 0 \<le> old then nat old + 1 else 0) = nat (old + 1)" using assms(1) by auto
  then show "scan_order old ! i = (nat (old + 1) + i) mod 16" using assms(2) by (simp add: scan_order_def MAX_PROCESSES_def)
qed (simp add: scan_order_def MAX_PROCESSES_def)

lemma ahead_reaches:
  assumes "j < 16" and "st \<le> (16 :: nat)"
  shows "(st + (j + 16 - st) mod 16) mod 16 = j"
  using assms by (simp add: mod_add_right_eq)

lemma ahead_step:
  assumes "e < d" and "d < (16 :: nat)" and "n = (st + e) mod 16" and "j = (st + d) mod 16"
  shows "(j + 16 - (n + 1)) mod 16 = d - e - 1"
proof -
  have n: "n < 16" using assms(3) by simp
  have "int (j + 16 - (n + 1)) = int (d - e - 1) + 16 * (1 + (int st + int e) div 16 - (int st + int d) div 16)"
  proof -
    have "int n = int st + int e - 16 * ((int st + int e) div 16)" "int j = int st + int d - 16 * ((int st + int d) div 16)"
      unfolding assms(3,4) by (simp_all add: zmod_int minus_mult_div_eq_mod)
    then show ?thesis using n assms(1) by (simp add: of_nat_diff algebra_simps)
  qed
  then have "int (j + 16 - (n + 1)) mod 16 = int (d - e - 1) mod 16" by (simp only: mod_mult_self2)
  then have "int ((j + 16 - (n + 1)) mod 16) = int ((d - e - 1) mod 16)" by (simp only: zmod_int of_nat_numeral)
  then show ?thesis using assms(2) by simp
qed

lemma irq_choice_waiting:
  assumes w: "waiting s j"
  shows "\<exists>n. irq_choice s = Some n \<and> n < MAX_PROCESSES \<and> runnable (proc_table s n) \<and> int n \<noteq> current_pid s
    \<and> (n = j \<or> (j + 16 - (n + 1)) mod 16 < ahead s j)"
proof -
  have j: "j < 16" "runnable (proc_table s j)" using w by (simp_all add: waiting_def MAX_PROCESSES_def)
  have cur: "- 1 \<le> current_pid s" "nat (current_pid s + 1) \<le> 16" using w by (auto simp: waiting_def MAX_PROCESSES_def)
  note S = scan_nth [OF cur(1)]
  define d where "d = ahead s j"
  have d: "d < 16" by (simp add: d_def ahead_def)
  have jd: "scan_order (current_pid s) ! d = j"
    using S(1) [of d] d ahead_reaches [OF j(1) cur(2)] by (simp add: d_def ahead_def MAX_PROCESSES_def)
  have len: "length (scan_order (current_pid s)) = 16" using S(2) [of 0] by (simp add: MAX_PROCESSES_def)
  have "find (\<lambda>i. runnable (proc_table s i)) (scan_order (current_pid s)) \<noteq> None"
    unfolding find_None_iff using j(2) jd nth_mem [of d "scan_order (current_pid s)"] d len by auto
  then obtain n where n: "find (\<lambda>i. runnable (proc_table s i)) (scan_order (current_pid s)) = Some n" by blast
  then obtain e where e: "e < 16" "scan_order (current_pid s) ! e = n" "runnable (proc_table s n)"
      "\<forall>k < e. \<not> runnable (proc_table s (scan_order (current_pid s) ! k))"
    using len by (auto simp: find_Some_iff)
  have ed: "e \<le> d" using e(4) j(2) jd by (metis not_le)
  have ne: "n = (nat (current_pid s + 1) + e) mod 16" using S(1) [of e] e by (simp add: MAX_PROCESSES_def)
  have je: "j = (nat (current_pid s + 1) + d) mod 16" using S(1) [of d] d jd by (simp add: MAX_PROCESSES_def)
  have dist: "n = j \<or> (j + 16 - (n + 1)) mod 16 < d"
  proof (cases "e = d")
    case True
    then show ?thesis using ne je by simp
  next
    case False
    then show ?thesis using ahead_step [of e d n _ j, OF _ d ne je] ed by simp
  qed
  have nc: "int n \<noteq> current_pid s" using w e(3) by (auto simp: waiting_def runnable_def)
  have "j \<in> set (filter (\<lambda>i. pst s i = PROC_STATE_READY \<or> pst s i = PROC_STATE_RUNNING) [0..<MAX_PROCESSES])"
    using j by (simp add: MAX_PROCESSES_def runnable_def)
  then have one: "0 < process_count_ready s" unfolding process_count_ready_def by (metis length_pos_if_in_set)
  have two: "1 < process_count_ready s" if c: "c < MAX_PROCESSES" "current_pid s = int c" "pst s c = PROC_STATE_RUNNING" for c
  proof -
    let ?l = "filter (\<lambda>i. pst s i = PROC_STATE_READY \<or> pst s i = PROC_STATE_RUNNING) [0..<MAX_PROCESSES]"
    have "{c, j} \<subseteq> set ?l" using c j by (auto simp: MAX_PROCESSES_def runnable_def)
    moreover have "c \<noteq> j" using c(3) j(2) by (auto simp: runnable_def)
    ultimately have "2 \<le> card (set ?l)" using card_mono [of "set ?l" "{c, j}"] by simp
    then show ?thesis unfolding process_count_ready_def using distinct_card [of ?l] by simp
  qed
  have "irq_choice s = Some n"
    using w one two n nc unfolding irq_choice_def process_pick_next_ready_def waiting_def Let_def by (auto dest!: two)
  then show ?thesis using e ne dist nc unfolding d_def by (auto simp: MAX_PROCESSES_def)
qed

lemma tick_count:
  assumes "unat (preempt_ticks s) + k < 20"
  shows "(tick ^^ k) s = s\<lparr>preempt_ticks := preempt_ticks s + of_nat k\<rparr>"
  using assms
proof (induction k)
  case (Suc k)
  define u where "u = s\<lparr>preempt_ticks := preempt_ticks s + of_nat k\<rparr>"
  have ih: "(tick ^^ k) s = u" using Suc by (simp add: u_def)
  have "unat (preempt_ticks s + of_nat (Suc k)) < 20"
    using Suc.prems by (simp add: unat_word_ariths unat_of_nat)
  moreover have "preempt_ticks u + 1 = preempt_ticks s + of_nat (Suc k)" by (simp add: u_def ac_simps)
  moreover have "unat PROCESS_TIME_SLICE_TICKS = 20" by (simp add: PROCESS_TIME_SLICE_TICKS_def)
  ultimately have "preempt_ticks u + 1 < PROCESS_TIME_SLICE_TICKS" unfolding word_less_nat_alt by (simp only:)
  then have "tick u = u\<lparr>preempt_ticks := preempt_ticks u + 1\<rparr>"
    by (simp add: process_schedule_from_irq_def process_preempt_quantum_expired_def Let_def)
  then show ?case using ih by (simp add: u_def add.assoc add.commute)
qed simp


lemma quantum:
  assumes w: "waiting s j" and t: "unat (preempt_ticks s) < 20"
  shows "\<exists>n. (tick ^^ (20 - unat (preempt_ticks s))) s = run_next n (s\<lparr>preempt_ticks := 0\<rparr>) \<and> n < MAX_PROCESSES
    \<and> (n = j \<or> (j + 16 - (n + 1)) mod 16 < ahead s j)"
proof -
  define k where "k = 19 - unat (preempt_ticks s)"
  define u where "u = s\<lparr>preempt_ticks := preempt_ticks s + of_nat k\<rparr>"
  have c: "(tick ^^ k) s = u" unfolding u_def by (rule tick_count) (use t in \<open>simp add: k_def\<close>)
  have "unat (preempt_ticks s) + k = 19" using t by (simp add: k_def)
  then have "(of_nat (unat (preempt_ticks s)) + of_nat k :: u32) = of_nat 19" by (simp only: of_nat_add [symmetric])
  then have "preempt_ticks u = of_nat 19" by (simp add: u_def)
  then have p: "process_preempt_quantum_expired u = (True, s\<lparr>preempt_ticks := 0\<rparr>)"
    by (simp add: process_preempt_quantum_expired_def Let_def PROCESS_TIME_SLICE_TICKS_def u_def)
  have ic: "irq_choice (s\<lparr>preempt_ticks := 0\<rparr>) = irq_choice s"
    by (simp add: irq_choice_def process_count_ready_def process_pick_next_ready_def Let_def)
  obtain n where n: "irq_choice s = Some n" "n < MAX_PROCESSES" "n = j \<or> (j + 16 - (n + 1)) mod 16 < ahead s j"
    using irq_choice_waiting [OF w] by blast
  have "20 - unat (preempt_ticks s) = Suc k" using t by (simp add: k_def)
  moreover have "tick u = run_next n (s\<lparr>preempt_ticks := 0\<rparr>)" using p ic n(1) by (simp add: process_schedule_from_irq_def)
  ultimately show ?thesis using c n(2,3) by (intro exI [of _ n]) simp
qed

lemma waiting_served:
  assumes "waiting s j" and "unat (preempt_ticks s) < 20"
  shows "\<exists>k \<le> 20 * (ahead s j + 1). current_pid ((tick ^^ k) s) = int j \<and> pst ((tick ^^ k) s) j = PROC_STATE_RUNNING"
  using assms
proof (induction "ahead s j" arbitrary: s rule: less_induct)
  case less
  define m where "m = 20 - unat (preempt_ticks s)"
  obtain n where n: "(tick ^^ m) s = run_next n (s\<lparr>preempt_ticks := 0\<rparr>)" "n < MAX_PROCESSES" "n = j \<or> (j + 16 - (n + 1)) mod 16 < ahead s j"
    using quantum [OF less.prems] unfolding m_def by blast
  define u where "u = run_next n (s\<lparr>preempt_ticks := 0\<rparr>)"
  have m: "m \<le> 20" by (simp add: m_def)
  show ?case
  proof (cases "n = j")
    case True
    then have "current_pid ((tick ^^ m) s) = int j" "pst ((tick ^^ m) s) j = PROC_STATE_RUNNING" using n(1) by (simp_all add: run_next_fields)
    then show ?thesis using m by (intro exI [of _ m]) simp
  next
    case False
    have cu: "current_pid u = int n" by (simp add: u_def run_next_fields)
    have "waiting u j"
      using less.prems(1) n(2) False unfolding waiting_def runnable_def by (auto simp: u_def run_next_fields)
    moreover have a: "ahead u j < ahead s j" using n(3) False by (simp add: ahead_def cu nat_add_distrib)
    moreover have "unat (preempt_ticks u) < 20" by (simp add: u_def run_next_fields)
    ultimately obtain k where k: "k \<le> 20 * (ahead u j + 1)" "current_pid ((tick ^^ k) u) = int j \<and> pst ((tick ^^ k) u) j = PROC_STATE_RUNNING"
      using less.hyps [of u] by blast
    have "(tick ^^ (k + m)) s = (tick ^^ k) u" using n(1) by (simp add: funpow_add u_def)
    then show ?thesis using k a m by (intro exI [of _ "k + m"]) simp
  qed
qed

section \<open>Reachable states\<close>

text \<open>The steps of the process subsystem; between them programs run and change the registers.\<close>

inductive proc_step :: "arch \<Rightarrow> symbols \<Rightarrow> psys \<Rightarrow> psys \<Rightarrow> bool" for ar sy where
  create: "process_create ar sy f argc argv s = Some (r, t) \<Longrightarrow> proc_step ar sy s t"
| start: "process_start pid s = (r, t) \<Longrightarrow> proc_step ar sy s t"
| kill: "process_kill pid s = Some (r, t) \<Longrightarrow> proc_step ar sy s t"
| exit: "process_exit status s = Some t \<Longrightarrow> proc_step ar sy s t"
| yield: "proc_step ar sy s (process_yield s)"
| schedule: "proc_step ar sy s (process_schedule s)"
| irq: "proc_step ar sy s (process_schedule_from_irq s)"
| preempt: "proc_step ar sy s (process_preempt_from_irq s)"
| kernel_slice: "process_run_kernel_slice s = (r, t) \<Longrightarrow> proc_step ar sy s t"
| registers: "proc_step ar sy s (s\<lparr>regs := c, irq_on := b\<rparr>)"

inductive_cases proc_step_cases: "proc_step ar sy s t"

definition proc_boot :: "psys \<Rightarrow> ptr set \<Rightarrow> (ptr \<Rightarrow> ptr list) \<Rightarrow> bool" where
  "proc_boot s N K \<longleftrightarrow> (\<exists>s0. s = process_init s0 \<and> compat_ok (fsys s0) N K)"

lemma process_exit_inv:
  assumes inv: "proc_inv s N K" and e: "process_exit status s = Some t"
  shows "proc_inv t N K"
proof (cases "current_pid s < 0")
  case True
  then have "t = s\<lparr>irq_on := True\<rparr>" using e by (simp add: process_exit_def)
  then show ?thesis using inv by simp
next
  case False
  have iv: "proc_inv (s\<lparr>irq_on := False\<rparr>) N K" using inv by simp
  note I = proc_invD [OF iv]
  obtain u where u: "kill_children (pidof s (nat (current_pid s))) (s\<lparr>irq_on := False\<rparr>) = Some u"
      "kills (s\<lparr>irq_on := False\<rparr>) (not_current (s\<lparr>irq_on := False\<rparr>) {j. descends (s\<lparr>irq_on := False\<rparr>) (pidof s (nat (current_pid s))) j}) u"
    using kill_children_kills [OF I(1,5,4)] by blast
  have "c_pc (kernel_context s) \<noteq> 0 \<and> c_sp (kernel_context s) \<noteq> 0"
    using e False u(1) kills_contexts [OF u(2)] by (simp add: process_exit_def Let_def upd_proc_def split: if_splits)
  then show ?thesis using process_exit_spec [OF inv _ _ _, of status] False e by auto
qed

lemma proc_step_inv:
  assumes "proc_inv s N K" and "proc_step ar sy s t"
  shows "proc_inv t N K"
  using assms(2)
proof (cases rule: proc_step.cases)
  case (create f argc argv r)
  then have "next_pid s < 2 ^ 31 - 1 \<or> find_free_slot_unlocked s = None" by (auto simp: process_create_def split: option.splits if_splits)
  then show ?thesis
  proof
    assume "next_pid s < 2 ^ 31 - 1"
    then show ?thesis using process_create_spec [OF assms(1), of ar sy f argc argv] create by auto
  next
    assume "find_free_slot_unlocked s = None"
    then show ?thesis using create assms(1) by (simp add: process_create_def)
  qed
next
  case (start pid r)
  then show ?thesis using process_start_inv [OF assms(1), of pid] by simp
next
  case (kill pid r)
  then show ?thesis using process_kill_spec [OF assms(1), of pid] by auto
next
  case (exit status)
  then show ?thesis by (rule process_exit_inv [OF assms(1)])
next
  case (kernel_slice r)
  then show ?thesis using assms(1) process_schedule_inv [OF assms(1)] by (auto simp: process_run_kernel_slice_def split: if_splits)
next
  case (registers b c)
  then show ?thesis using assms(1) proc_inv_cong [of "s\<lparr>regs := c, irq_on := b\<rparr>" s N K] by simp
qed (use assms(1) process_yield_inv process_schedule_inv irq_inv_ops in auto)

lemma proc_boot_inv: "proc_boot s N K \<Longrightarrow> proc_inv s N K"
  by (auto simp: proc_boot_def proc_inv_def process_init_def current_ok_def pids_ok_def stacks_ok_def active_def)

interpretation ps: safe_system "\<lambda>s. proc_boot s N K" "proc_step ar sy" "\<lambda>s. proc_inv s N K" for N K ar sy
  by unfold_locales (auto intro: proc_boot_inv proc_step_inv)


section \<open>Properties\<close>

text \<open>Three processes for the examples: the first one runs, the other two wait; the third was created by the second.\<close>

definition demo_process :: "int \<Rightarrow> proc_state \<Rightarrow> int \<Rightarrow> process" where
  "demo_process pid st par = (empty_process pid st)\<lparr>p_parent_pid := par, p_context := zero_context\<lparr>c_sp := 4096, c_pc := 8192\<rparr>\<rparr>"

definition demo_psys :: psys where
  "demo_psys = \<lparr>fsys = demo_compat, rng = \<lparr>aslr_seed = 0, aslr_initialized = True, timer = (\<lambda>_. 0), timer_reads = 0\<rparr>,
     proc_table = (\<lambda>i. if i = 0 then demo_process 1 PROC_STATE_RUNNING (- 1) else if i = 1 then demo_process 2 PROC_STATE_READY 0
                       else if i = 2 then demo_process 3 PROC_STATE_READY 1 else empty_process 0 PROC_STATE_FREE),
     current_pid = 0, current_process = Some 0, next_pid = 4, preempt_ticks = 5, program_base = PROGRAM_LOAD_BASE,
     next_load_addr = PROGRAM_LOAD_BASE, kernel_context = zero_context\<lparr>c_sp := 1, c_pc := 1\<rparr>, regs = zero_context, irq_on = True\<rparr>"

lemma demo_active: "active demo_psys i \<longleftrightarrow> i = 0 \<or> i = 1 \<or> i = 2"
  by (auto simp: active_def demo_psys_def demo_process_def empty_process_def MAX_PROCESSES_def)

lemma demo_fields:
  "pidof demo_psys 0 = 1" "pidof demo_psys (Suc 0) = 2" "pidof demo_psys 2 = 3" "parent demo_psys 0 = - 1" "parent demo_psys (Suc 0) = 0"
  "parent demo_psys 2 = 1" "stk demo_psys i = NULL" "pst demo_psys 0 = PROC_STATE_RUNNING" "pst demo_psys (Suc 0) = PROC_STATE_READY"
  "pst demo_psys 2 = PROC_STATE_READY" "next_pid demo_psys = 4" "current_pid demo_psys = 0" "current_process demo_psys = Some 0" "fsys demo_psys = demo_compat"
  by (simp_all add: demo_psys_def demo_process_def empty_process_def)

lemma demo_procs_inv: "proc_inv demo_psys {4136, 4520} demo_kids"
proof -
  have "current_ok demo_psys" unfolding current_ok_def demo_active by (auto simp: demo_fields)
  moreover have "pids_ok demo_psys" unfolding pids_ok_def demo_active by (auto simp: demo_fields)
  moreover have "stacks_ok demo_psys N" for N unfolding stacks_ok_def by (simp add: demo_fields)
  ultimately show ?thesis using demo_compat_ok by (simp add: proc_inv_def demo_fields)
qed

text \<open>The first load address lies inside the kernel heap of \<^verbatim>\<open>kmalloc.c\<close>.\<close>

lemma programs_load_into_the_heap:
  "HEAP_BASE \<le> unat PROGRAM_LOAD_BASE \<and> unat PROGRAM_LOAD_BASE < HEAP_BASE + HEAP_SIZE"
  by (simp add: HEAP_BASE_def HEAP_SIZE_def PROGRAM_LOAD_BASE_def)

text \<open>C11. \<^verbatim>\<open>process_kill\<close> always returns. It succeeds exactly on the number of a process other than the current one; then this process and
  all processes whose recorded parents lead to it, except the current one, leave the table, their stacks go back to the heap, and
  nothing else changes. The work list never overflows and no process is missed.\<close>

theorem process_kill_correct:
  assumes "proc_inv s N K"
  shows "\<exists>r t. process_kill pid s = Some (r, t) \<and> proc_inv t N K
    \<and> (if \<exists>i. active s i \<and> pidof s i = pid \<and> int i \<noteq> current_pid s
       then r = 0 \<and> kills s (not_current s {j. active s j \<and> pidof s j = pid \<or> descends s pid j}) t
       else r = - 1 \<and> t = s)"
  by (rule process_kill_spec [OF assms])

theorem process_kill_correct_witness:
  "(\<exists>t. process_kill 3 demo_psys = Some (0, t) \<and> \<not> active t 2 \<and> active t 1) \<and> process_kill 1 demo_psys = Some (- 1, demo_psys)"
proof
  have nd: "\<not> descends demo_psys 3 j" for j
  proof
    assume "descends demo_psys 3 j"
    then show False by induction (auto simp: demo_active demo_fields)
  qed
  have e: "\<exists>i. active demo_psys i \<and> pidof demo_psys i = 3 \<and> int i \<noteq> current_pid demo_psys"
    by (intro exI [of _ 2]) (simp add: demo_active demo_fields)
  from process_kill_correct [OF demo_procs_inv, of 3] e
  obtain t where t: "process_kill 3 demo_psys = Some (0, t)"
      "kills demo_psys (not_current demo_psys {j. active demo_psys j \<and> pidof demo_psys j = 3 \<or> descends demo_psys 3 j}) t" by auto
  show "\<exists>t. process_kill 3 demo_psys = Some (0, t) \<and> \<not> active t 2 \<and> active t 1"
    using t(1) killsD(7) [OF t(2)] nd by (intro exI [of _ t]) (simp add: not_current_def demo_active demo_fields)
  have "\<not> (\<exists>i. active demo_psys i \<and> pidof demo_psys i = 1 \<and> int i \<noteq> current_pid demo_psys)" by (auto simp: demo_active demo_fields)
  then show "process_kill 1 demo_psys = Some (- 1, demo_psys)" using process_kill_correct [OF demo_procs_inv, of 1] by auto
qed

text \<open>The recorded parent is the slot of the creator and not its number, so killing a process leaves the processes it created.\<close>

lemma kill_misses_children: "\<exists>t. process_kill 2 demo_psys = Some (0, t) \<and> parent demo_psys 2 = 1 \<and> active t 2"
proof -
  have nd: "\<not> descends demo_psys 2 j" for j
  proof
    assume "descends demo_psys 2 j"
    then show False by induction (auto simp: demo_active demo_fields)
  qed
  have e: "\<exists>i. active demo_psys i \<and> pidof demo_psys i = 2 \<and> int i \<noteq> current_pid demo_psys"
    by (intro exI [of _ 1]) (simp add: demo_active demo_fields)
  from process_kill_spec [OF demo_procs_inv, of 2] e
  obtain t where t: "process_kill 2 demo_psys = Some (0, t)"
      "kills demo_psys (not_current demo_psys {j. active demo_psys j \<and> pidof demo_psys j = 2 \<or> descends demo_psys 2 j}) t" by auto
  show ?thesis
    using t(1) killsD(7) [OF t(2)] nd by (intro exI [of _ t]) (simp add: not_current_def demo_active demo_fields)
qed





text \<open>C14. Round robin under the timer: while the kernel or a running process has the processor, every process that is ready with a
  valid context gets it within 320 ticks, that is within one time slice for each slot of the table.\<close>

theorem preemption_no_starvation:
  assumes "waiting s j" and "unat (preempt_ticks s) < 20"
  shows "\<exists>k \<le> 320. current_pid ((process_schedule_from_irq ^^ k) s) = int j \<and> pst ((process_schedule_from_irq ^^ k) s) j = PROC_STATE_RUNNING"
proof -
  have "ahead s j < 16" by (simp add: ahead_def)
  then have "20 * (ahead s j + 1) \<le> 320" by simp
  then show ?thesis using waiting_served [OF assms] by (meson le_trans)
qed

theorem preemption_no_starvation_witness:
  "\<exists>k \<le> 320. current_pid ((process_schedule_from_irq ^^ k) demo_psys) = int 2 \<and> pst ((process_schedule_from_irq ^^ k) demo_psys) 2 = PROC_STATE_RUNNING"
proof -
  have "waiting demo_psys 2"
    by (simp add: waiting_def runnable_def MAX_PROCESSES_def demo_fields) (simp add: demo_psys_def demo_process_def)
  moreover have "unat (preempt_ticks demo_psys) < 20" by (simp add: demo_psys_def)
  ultimately show ?thesis by (rule preemption_no_starvation)
qed

end
