(* ===== verification/Spinlock.thy ===== *)
theory Spinlock
  imports Prelude
begin

text \<open>
  Spin locks, \<^verbatim>\<open>kernel/sync/spinlock.c\<close>, for any number of processors and each of the four
  implementations the file selects from. A processor is at one instruction of the lock code; a
  step executes that instruction. On ARM64 the load-exclusive arms the monitor of the processor,
  a store to the lock by another processor clears it and signals the event that \<^verbatim>\<open>wfe\<close> waits for,
  and a store-exclusive succeeds only with the monitor armed. At any moment the monitor of a
  processor may be lost to an exception and its event register may be set for another reason. The \<^verbatim>\<open>lock\<close>-prefixed instructions
  and the compiler intrinsics are single steps. Memory is sequentially consistent: the code uses
  acquire loads and release stores for exactly this effect.
\<close>

section \<open>State\<close>

datatype lock_arch = LK_ARM64 | LK_X86_64 | LK_X86 | LK_OTHER

text \<open>Where a processor is: outside, at an instruction of \<^verbatim>\<open>spin_lock\<close> or \<^verbatim>\<open>spin_trylock\<close>, in the
  critical section, or in \<^verbatim>\<open>spin_unlock_irqrestore\<close> after the unlock.\<close>

datatype lock_pc = Out
  | A_sevl | A_wfe | A_ldaxr | A_cbnz1 | A_stxr | A_cbnz2
  | T_ldaxr | T_cbnz | T_stxr | T_cbz
  | X_spin | X_cmpxchg | X_xchg | F_tas
  | T_xchg
  | Held | Restore

record lock_cpu =
  pc :: lock_pc
  tmp :: u32
  monitor :: bool
  event :: bool
  irq_flags :: u64
  saved :: "u64 option"
  result :: int

record spin =
  lock_word :: u32
  cpus :: "nat \<Rightarrow> lock_cpu"

definition upd_cpu :: "nat \<Rightarrow> (lock_cpu \<Rightarrow> lock_cpu) \<Rightarrow> spin \<Rightarrow> spin" where
  "upd_cpu c f s = s\<lparr>cpus := (cpus s)(c := f (cpus s c))\<rparr>"

definition goto_pc :: "nat \<Rightarrow> lock_pc \<Rightarrow> spin \<Rightarrow> spin" where
  "goto_pc c p = upd_cpu c (pc_update (\<lambda>_. p))"

text \<open>A store to the lock word clears the monitors that other processors have armed on it, which
  sets their event registers.\<close>

definition store_lock :: "nat \<Rightarrow> u32 \<Rightarrow> spin \<Rightarrow> spin" where
  "store_lock c v s =
     s\<lparr>lock_word := v,
       cpus := (\<lambda>d. if d \<noteq> c \<and> monitor (cpus s d) then (cpus s d)\<lparr>monitor := False, event := True\<rparr> else cpus s d)\<rparr>"

definition spin_lock_init :: "spin \<Rightarrow> spin" where
  "spin_lock_init s = s\<lparr>lock_word := 0\<rparr>"

section \<open>Interrupt flags\<close>

text \<open>\<^verbatim>\<open>irq_flags\<close> is the DAIF register on ARM64 and the flags register on x86, where it has 64 or 32
  bits. \<^verbatim>\<open>msr daifset, #0xf\<close> sets bits 6 to 9, \<^verbatim>\<open>cli\<close> clears bit 9.\<close>

definition arch_irq_save_local :: "lock_arch \<Rightarrow> u64 \<Rightarrow> u64 \<times> u64" where
  "arch_irq_save_local ar reg =
     (case ar of LK_ARM64 \<Rightarrow> (reg, reg OR 0x3C0)
               | LK_X86_64 \<Rightarrow> (reg, reg AND NOT 0x200)
               | LK_X86 \<Rightarrow> (reg, reg AND NOT 0x200)
               | LK_OTHER \<Rightarrow> (0, reg))"

definition arch_irq_restore_local :: "lock_arch \<Rightarrow> u64 \<Rightarrow> u64 \<Rightarrow> u64" where
  "arch_irq_restore_local ar flags reg =
     (case ar of LK_ARM64 \<Rightarrow> flags
               | LK_X86_64 \<Rightarrow> flags
               | LK_X86 \<Rightarrow> ucast (ucast flags :: u32)
               | LK_OTHER \<Rightarrow> reg)"

definition irqs_masked :: "lock_arch \<Rightarrow> u64 \<Rightarrow> bool" where
  "irqs_masked ar reg =
     (case ar of LK_ARM64 \<Rightarrow> reg AND 0x3C0 = 0x3C0
               | LK_X86_64 \<Rightarrow> \<not> bit reg 9
               | LK_X86 \<Rightarrow> \<not> bit reg 9
               | LK_OTHER \<Rightarrow> False)"

definition reg_ok :: "lock_arch \<Rightarrow> u64 \<Rightarrow> bool" where
  "reg_ok ar reg \<longleftrightarrow> ar = LK_X86 \<longrightarrow> reg < 2 ^ 32"

section \<open>Instructions\<close>

definition ldaxr :: "nat \<Rightarrow> lock_pc \<Rightarrow> spin \<Rightarrow> spin" where
  "ldaxr c nxt s = upd_cpu c (\<lambda>p. p\<lparr>tmp := lock_word s, monitor := True, pc := nxt\<rparr>) s"

definition stxr :: "nat \<Rightarrow> u32 \<Rightarrow> lock_pc \<Rightarrow> spin \<Rightarrow> spin" where
  "stxr c v nxt s =
     (if monitor (cpus s c)
      then upd_cpu c (\<lambda>p. p\<lparr>tmp := 0, monitor := False, pc := nxt\<rparr>) (store_lock c v s)
      else upd_cpu c (\<lambda>p. p\<lparr>tmp := 1, pc := nxt\<rparr>) s)"

text \<open>\<^verbatim>\<open>lock cmpxchgl\<close>, \<^verbatim>\<open>lock xchgl\<close> and \<^verbatim>\<open>__sync_lock_test_and_set\<close>: the old value ends up in a register.\<close>

definition cmpxchg :: "nat \<Rightarrow> u32 \<Rightarrow> u32 \<Rightarrow> spin \<Rightarrow> spin" where
  "cmpxchg c expected desired s =
     (let old = lock_word s; s = (if old = expected then store_lock c desired s else s)
      in upd_cpu c (tmp_update (\<lambda>_. old)) s)"

definition xchg :: "nat \<Rightarrow> u32 \<Rightarrow> spin \<Rightarrow> spin" where
  "xchg c v s = (let old = lock_word s in upd_cpu c (tmp_update (\<lambda>_. old)) (store_lock c v s))"

text \<open>One instruction of processor \<^term>\<open>c\<close>; \<^term>\<open>None\<close> when it waits in \<^verbatim>\<open>wfe\<close> or is in none of the
  functions.\<close>

definition exec :: "lock_arch \<Rightarrow> nat \<Rightarrow> spin \<Rightarrow> spin option" where
  "exec ar c s =
     (let t = tmp (cpus s c) in
      case pc (cpus s c) of
        A_sevl \<Rightarrow> Some (upd_cpu c (\<lambda>p. p\<lparr>event := True, pc := A_wfe\<rparr>) s)
      | A_wfe \<Rightarrow> if event (cpus s c) then Some (upd_cpu c (\<lambda>p. p\<lparr>event := False, pc := A_ldaxr\<rparr>) s) else None
      | A_ldaxr \<Rightarrow> Some (ldaxr c A_cbnz1 s)
      | A_cbnz1 \<Rightarrow> Some (goto_pc c (if t \<noteq> 0 then A_wfe else A_stxr) s)
      | A_stxr \<Rightarrow> Some (stxr c 1 A_cbnz2 s)
      | A_cbnz2 \<Rightarrow> Some (goto_pc c (if t \<noteq> 0 then A_ldaxr else Held) s)
      | T_ldaxr \<Rightarrow> Some (ldaxr c T_cbnz s)
      | T_cbnz \<Rightarrow> Some (if t \<noteq> 0 then upd_cpu c (\<lambda>p. p\<lparr>result := 0, pc := Out\<rparr>) s else goto_pc c T_stxr s)
      | T_stxr \<Rightarrow> Some (stxr c 1 T_cbz s)
      | T_cbz \<Rightarrow> Some (if t = 0 then upd_cpu c (\<lambda>p. p\<lparr>result := 1, pc := Held\<rparr>) s
                       else upd_cpu c (\<lambda>p. p\<lparr>result := 0, pc := Out\<rparr>) s)
      | X_spin \<Rightarrow> Some (goto_pc c (if lock_word s \<noteq> 0 then X_spin
                                  else if ar = LK_X86 then X_xchg else X_cmpxchg) s)
      | X_cmpxchg \<Rightarrow> (let s = cmpxchg c 0 1 s in Some (goto_pc c (if tmp (cpus s c) = 0 then Held else X_spin) s))
      | X_xchg \<Rightarrow> (let s = xchg c 1 s in Some (goto_pc c (if tmp (cpus s c) = 0 then Held else X_spin) s))
      | F_tas \<Rightarrow> (let s = xchg c 1 s in Some (goto_pc c (if tmp (cpus s c) = 0 then Held else F_tas) s))
      | T_xchg \<Rightarrow> (let s = xchg c 1 s in
                   Some (if tmp (cpus s c) = 0 then upd_cpu c (\<lambda>p. p\<lparr>result := 1, pc := Held\<rparr>) s
                         else upd_cpu c (\<lambda>p. p\<lparr>result := 0, pc := Out\<rparr>) s))
      | Restore \<Rightarrow> (case saved (cpus s c) of None \<Rightarrow> None
                    | Some flags \<Rightarrow> Some (upd_cpu c (\<lambda>p. p\<lparr>irq_flags := arch_irq_restore_local ar flags (irq_flags p),
                                                        saved := None, pc := Out\<rparr>) s))
      | Out \<Rightarrow> None | Held \<Rightarrow> None)"

section \<open>Calls\<close>

definition spin_lock_entry :: "lock_arch \<Rightarrow> lock_pc" where
  "spin_lock_entry ar = (case ar of LK_ARM64 \<Rightarrow> A_sevl | LK_X86_64 \<Rightarrow> X_spin | LK_X86 \<Rightarrow> X_spin | LK_OTHER \<Rightarrow> F_tas)"

definition spin_lock :: "lock_arch \<Rightarrow> nat \<Rightarrow> spin \<Rightarrow> spin" where
  "spin_lock ar c s = goto_pc c (spin_lock_entry ar) s"

definition spin_trylock :: "lock_arch \<Rightarrow> nat \<Rightarrow> spin \<Rightarrow> spin" where
  "spin_trylock ar c s = goto_pc c (if ar = LK_ARM64 then T_ldaxr else T_xchg) s"

definition spin_unlock :: "nat \<Rightarrow> spin \<Rightarrow> spin" where
  "spin_unlock c s = goto_pc c Out (store_lock c 0 s)"

definition spin_lock_irqsave :: "lock_arch \<Rightarrow> nat \<Rightarrow> spin \<Rightarrow> spin" where
  "spin_lock_irqsave ar c s =
     (let (flags, reg) = arch_irq_save_local ar (irq_flags (cpus s c))
      in spin_lock ar c (upd_cpu c (\<lambda>p. p\<lparr>saved := Some flags, irq_flags := reg\<rparr>) s))"

definition spin_unlock_irqrestore :: "nat \<Rightarrow> spin \<Rightarrow> spin" where
  "spin_unlock_irqrestore c s = goto_pc c Restore (spin_unlock c s)"

text \<open>The whole system: any processor may call any function that fits its state, execute its next
  instruction, lose its monitor or receive an event, and change its interrupt flags outside the
  interrupt-safe sections.\<close>

inductive lock_step :: "lock_arch \<Rightarrow> spin \<Rightarrow> spin \<Rightarrow> bool" for ar where
  lock: "pc (cpus s c) = Out \<Longrightarrow> lock_step ar s (spin_lock ar c s)"
| trylock: "pc (cpus s c) = Out \<Longrightarrow> lock_step ar s (spin_trylock ar c s)"
| lock_irqsave: "pc (cpus s c) = Out \<Longrightarrow> lock_step ar s (spin_lock_irqsave ar c s)"
| unlock: "pc (cpus s c) = Held \<Longrightarrow> saved (cpus s c) = None \<Longrightarrow> lock_step ar s (spin_unlock c s)"
| unlock_irqrestore: "pc (cpus s c) = Held \<Longrightarrow> saved (cpus s c) \<noteq> None \<Longrightarrow> lock_step ar s (spin_unlock_irqrestore c s)"
| instr: "exec ar c s = Some t \<Longrightarrow> lock_step ar s t"
| lose_monitor: "monitor (cpus s c) \<Longrightarrow> lock_step ar s (upd_cpu c (\<lambda>p. p\<lparr>monitor := False, event := True\<rparr>) s)"
| other_event: "lock_step ar s (upd_cpu c (event_update (\<lambda>_. True)) s)"
| set_flags: "saved (cpus s c) = None \<Longrightarrow> reg_ok ar reg \<Longrightarrow> lock_step ar s (upd_cpu c (irq_flags_update (\<lambda>_. reg)) s)"

definition lock_start :: "lock_arch \<Rightarrow> spin \<Rightarrow> bool" where
  "lock_start ar s \<longleftrightarrow> (\<exists>s0. s = spin_lock_init s0 \<and>
     (\<forall>c. pc (cpus s0 c) = Out \<and> saved (cpus s0 c) = None \<and> \<not> monitor (cpus s0 c) \<and> reg_ok ar (irq_flags (cpus s0 c))))"

section \<open>Invariant\<close>

text \<open>A processor owns the lock once its store-exclusive has succeeded or its exchange returned 0.\<close>

definition owns :: "lock_cpu \<Rightarrow> bool" where
  "owns p \<longleftrightarrow> pc p = Held \<or> (pc p = A_cbnz2 \<or> pc p = T_cbz) \<and> tmp p = 0"

text \<open>What the lock word tells a processor at each instruction: an armed monitor means that the word
  has not changed since it was loaded, and a processor asleep in \<^verbatim>\<open>wfe\<close> has its monitor armed on a
  taken lock.\<close>

definition cpu_ok :: "u32 \<Rightarrow> lock_cpu \<Rightarrow> bool" where
  "cpu_ok w p \<longleftrightarrow>
     (pc p = A_stxr \<or> pc p = T_stxr \<longrightarrow> monitor p \<longrightarrow> w = 0)
   \<and> (pc p = A_cbnz1 \<or> pc p = T_cbnz \<longrightarrow> monitor p \<longrightarrow> tmp p = w)
   \<and> (pc p = A_cbnz1 \<longrightarrow> monitor p \<or> event p)
   \<and> (pc p = A_wfe \<longrightarrow> \<not> event p \<longrightarrow> monitor p \<and> w \<noteq> 0)"

definition flags_inv :: "lock_arch \<Rightarrow> lock_cpu \<Rightarrow> bool" where
  "flags_inv ar p \<longleftrightarrow> reg_ok ar (irq_flags p) \<and> (pc p = Restore \<longrightarrow> saved p \<noteq> None)
     \<and> (pc p \<in> {Out, T_ldaxr, T_cbnz, T_stxr, T_cbz, T_xchg} \<longrightarrow> saved p = None)
     \<and> (\<forall>flags. saved p = Some flags \<longrightarrow> reg_ok ar flags \<and> (ar \<noteq> LK_OTHER \<longrightarrow> irqs_masked ar (irq_flags p)))"

definition lock_inv :: "lock_arch \<Rightarrow> spin \<Rightarrow> bool" where
  "lock_inv ar s \<longleftrightarrow> (lock_word s = 0 \<or> lock_word s = 1)
     \<and> (lock_word s = 1 \<longleftrightarrow> (\<exists>c. owns (cpus s c)))
     \<and> (\<forall>c d. owns (cpus s c) \<longrightarrow> owns (cpus s d) \<longrightarrow> c = d)
     \<and> (\<forall>c. cpu_ok (lock_word s) (cpus s c)) \<and> (\<forall>c. flags_inv ar (cpus s c))"

lemmas upd_simps = upd_cpu_def goto_pc_def store_lock_def

text \<open>The three ways a step acts on the lock: not at all, taking it, and giving it back.\<close>

lemma inv_local:
  assumes inv: "lock_inv ar s" and "owns (f (cpus s c)) = owns (cpus s c)"
    and "cpu_ok (lock_word s) (f (cpus s c))" "flags_inv ar (f (cpus s c))"
  shows "lock_inv ar (upd_cpu c f s)"
proof -
  have o: "owns (((cpus s)(c := f (cpus s c))) d) = owns (cpus s d)" for d using assms by simp
  show ?thesis using assms unfolding lock_inv_def upd_cpu_def by (simp add: o del: fun_upd_apply) auto
qed

definition signalled :: "lock_cpu \<Rightarrow> lock_cpu" where
  "signalled p = (if monitor p then p\<lparr>monitor := False, event := True\<rparr> else p)"

lemma signalled_simps [simp]:
  "pc (signalled p) = pc p" "tmp (signalled p) = tmp p" "saved (signalled p) = saved p"
  "irq_flags (signalled p) = irq_flags p" "result (signalled p) = result p" "owns (signalled p) = owns p"
  "flags_inv ar (signalled p) = flags_inv ar p"
  by (simp_all add: signalled_def owns_def flags_inv_def)

lemma signalled_ok: "cpu_ok w p \<Longrightarrow> cpu_ok v (signalled p)"
  by (auto simp: cpu_ok_def signalled_def)

lemma cpus_store: "cpus (store_lock c v s) d = (if d = c then cpus s c else signalled (cpus s d))"
  by (simp add: store_lock_def signalled_def)

lemma inv_store:
  assumes inv: "lock_inv ar s" and v: "v = 0 \<or> v = 1"
    and own: "\<And>d. d \<noteq> c \<Longrightarrow> owns (cpus s d) \<Longrightarrow> v = 1 \<and> \<not> owns (f (cpus s c))"
    and c: "owns (f (cpus s c)) \<Longrightarrow> v = 1" "v = 1 \<Longrightarrow> owns (f (cpus s c)) \<or> (\<exists>d. d \<noteq> c \<and> owns (cpus s d))"
    and ok: "cpu_ok v (f (cpus s c))" "flags_inv ar (f (cpus s c))"
  shows "lock_inv ar (upd_cpu c f (store_lock c v s))"
proof -
  define t where "t = upd_cpu c f (store_lock c v s)"
  have t: "cpus t d = (if d = c then f (cpus s c) else signalled (cpus s d))" for d
    by (simp add: t_def upd_cpu_def cpus_store)
  have w: "lock_word t = v" by (simp add: t_def upd_simps)
  have own_t: "owns (cpus t d) = (if d = c then owns (f (cpus s c)) else owns (cpus s d))" for d by (simp add: t)
  have "v = 1 \<longleftrightarrow> (\<exists>d. owns (cpus t d))" unfolding own_t using own c by metis
  moreover have "owns (cpus t d) \<longrightarrow> owns (cpus t e) \<longrightarrow> d = e" for d e
    unfolding own_t using own inv by (auto simp: lock_inv_def)
  moreover have "cpu_ok v (cpus t d)" for d
    unfolding t using ok inv by (auto simp: lock_inv_def intro: signalled_ok)
  moreover have "flags_inv ar (cpus t d)" for d unfolding t using ok inv by (simp add: lock_inv_def)
  ultimately show ?thesis using v unfolding t_def [symmetric] by (auto simp: lock_inv_def w)
qed

lemma free_no_owner: "lock_inv ar s \<Longrightarrow> lock_word s = 0 \<longleftrightarrow> (\<forall>c. \<not> owns (cpus s c))"
  by (auto simp: lock_inv_def)

lemma inv_acquire:
  assumes "lock_inv ar s" "lock_word s = 0" "owns (f (cpus s c))" "cpu_ok 1 (f (cpus s c))" "flags_inv ar (f (cpus s c))"
  shows "lock_inv ar (upd_cpu c f (store_lock c 1 s))"
  using assms free_no_owner [of ar s] by (intro inv_store) auto

lemma inv_taken:
  assumes "lock_inv ar s" "lock_word s \<noteq> 0" "\<not> owns (cpus s c)" "\<not> owns (f (cpus s c))"
    "cpu_ok 1 (f (cpus s c))" "flags_inv ar (f (cpus s c))"
  shows "lock_inv ar (upd_cpu c f (store_lock c 1 s))"
proof -
  obtain d where "owns (cpus s d)" using assms free_no_owner [of ar s] by auto
  then show ?thesis using assms by (intro inv_store) auto
qed

lemma inv_release:
  assumes "lock_inv ar s" "owns (cpus s c)" "\<not> owns (f (cpus s c))" "cpu_ok 0 (f (cpus s c))" "flags_inv ar (f (cpus s c))"
  shows "lock_inv ar (upd_cpu c f (store_lock c 0 s))"
  using assms by (intro inv_store) (auto simp: lock_inv_def)

section \<open>Every step keeps the invariant\<close>

lemma cpus_upd [simp]: "cpus (upd_cpu c f s) d = (if d = c then f (cpus s c) else cpus s d)"
  by (simp add: upd_cpu_def)

lemma lock_word_upd [simp]: "lock_word (upd_cpu c f s) = lock_word s"
  by (simp add: upd_cpu_def)

lemma upd_upd [simp]: "upd_cpu c g (upd_cpu c f s) = upd_cpu c (g \<circ> f) s"
  by (simp add: upd_cpu_def)

lemma irq_save_spec:
  assumes "arch_irq_save_local ar reg = (flags, reg')" and "reg_ok ar reg"
  shows "reg_ok ar reg'" and "reg_ok ar flags" and "ar \<noteq> LK_OTHER \<Longrightarrow> irqs_masked ar reg'"
    and "ar \<noteq> LK_OTHER \<Longrightarrow> flags = reg"
proof -
  have le: "reg AND NOT 0x200 \<le> reg" by (rule word_and_le2)
  have bits: "bit (0x200 :: u64) 9" by simp
  have "(reg OR 0x3C0) AND 0x3C0 = 0x3C0" for reg :: u64 by (rule bit_word_eqI) (auto simp: bit_simps)
  then show "ar \<noteq> LK_OTHER \<Longrightarrow> irqs_masked ar reg'" "ar \<noteq> LK_OTHER \<Longrightarrow> flags = reg"
    using assms bits
    by (auto simp: arch_irq_save_local_def irqs_masked_def bit_and_iff bit_not_iff bit_or_iff
        word_ao_absorbs split: lock_arch.splits)
  show "reg_ok ar reg'" "reg_ok ar flags"
    using assms le by (auto simp: arch_irq_save_local_def reg_ok_def split: lock_arch.splits)
qed

lemma ucast_ucast_32: "(w :: u64) < 2 ^ 32 \<Longrightarrow> ucast (ucast w :: u32) = w"
proof -
  assume "w < 2 ^ 32"
  then have "unat w < 2 ^ 32" by (simp add: word_less_nat_alt)
  then show ?thesis
    by (intro word_unat_eq_iff [THEN iffD2]) (simp add: unsigned_ucast_eq take_bit_eq_mod unat_mod)
qed

lemma local_kept:
  assumes "lock_inv ar s" and "\<And>p. p = cpus s c \<Longrightarrow> owns (f p) = owns p"
    and "\<And>p. p = cpus s c \<Longrightarrow> cpu_ok (lock_word s) p \<Longrightarrow> cpu_ok (lock_word s) (f p)"
    and "\<And>p. p = cpus s c \<Longrightarrow> flags_inv ar p \<Longrightarrow> flags_inv ar (f p)"
  shows "lock_inv ar (upd_cpu c f s)"
proof -
  have "cpu_ok (lock_word s) (cpus s c)" "flags_inv ar (cpus s c)"
    using assms(1) unfolding lock_inv_def by blast+
  then show ?thesis by (intro inv_local assms) simp_all
qed

lemmas cpu_defs = owns_def cpu_ok_def flags_inv_def goto_pc_def

lemma spin_lock_entry_cases: "spin_lock_entry ar \<in> {A_sevl, X_spin, F_tas}"
  by (cases ar) (simp_all add: spin_lock_entry_def)

lemma spin_lock_inv: "lock_inv ar s \<Longrightarrow> pc (cpus s c) = Out \<Longrightarrow> lock_inv ar (spin_lock ar c s)"
  unfolding spin_lock_def goto_pc_def
  by (rule local_kept) (use spin_lock_entry_cases [of ar] in \<open>auto simp: cpu_defs\<close>)

lemma spin_trylock_inv: "lock_inv ar s \<Longrightarrow> pc (cpus s c) = Out \<Longrightarrow> lock_inv ar (spin_trylock ar c s)"
  unfolding spin_trylock_def goto_pc_def by (rule local_kept) (auto simp: cpu_defs)

lemma spin_lock_irqsave_inv:
  assumes inv: "lock_inv ar s" and out: "pc (cpus s c) = Out"
  shows "lock_inv ar (spin_lock_irqsave ar c s)"
proof -
  obtain flags reg where fr: "arch_irq_save_local ar (irq_flags (cpus s c)) = (flags, reg)"
    by (cases "arch_irq_save_local ar (irq_flags (cpus s c))")
  have "reg_ok ar (irq_flags (cpus s c))" using inv by (simp add: lock_inv_def flags_inv_def)
  note fs = irq_save_spec [OF fr this]
  show ?thesis
    unfolding spin_lock_irqsave_def spin_lock_def fr goto_pc_def
    by (simp, rule local_kept [OF inv])
      (use out fs spin_lock_entry_cases [of ar] in \<open>auto simp: cpu_defs\<close>)
qed

lemma spin_unlock_inv:
  assumes "lock_inv ar s" "pc (cpus s c) = Held" "saved (cpus s c) = None"
  shows "lock_inv ar (spin_unlock c s)"
  unfolding spin_unlock_def goto_pc_def
  by (rule inv_release) (use assms in \<open>auto simp: cpu_defs lock_inv_def\<close>)

lemma spin_unlock_irqrestore_inv:
  assumes "lock_inv ar s" "pc (cpus s c) = Held" "saved (cpus s c) \<noteq> None"
  shows "lock_inv ar (spin_unlock_irqrestore c s)"
  unfolding spin_unlock_irqrestore_def spin_unlock_def goto_pc_def upd_upd
  by (rule inv_release) (use assms in \<open>auto simp: cpu_defs lock_inv_def\<close>)

text \<open>The instructions that leave the lock word alone.\<close>

lemma exec_inv_local:
  assumes inv: "lock_inv ar s" and e: "exec ar c s = Some t"
    and p: "pc (cpus s c) \<in> {A_sevl, A_wfe, A_ldaxr, A_cbnz1, A_cbnz2, T_ldaxr, T_cbnz, T_cbz, X_spin, Restore}"
  shows "lock_inv ar t"
proof -
  have word: "tmp (cpus s c) = 0 \<Longrightarrow> pc (cpus s c) \<in> {A_cbnz1, T_cbnz} \<Longrightarrow> monitor (cpus s c) \<Longrightarrow> lock_word s = 0"
    and word': "tmp (cpus s c) \<noteq> 0 \<Longrightarrow> pc (cpus s c) = A_cbnz1 \<Longrightarrow> monitor (cpus s c) \<Longrightarrow> lock_word s \<noteq> 0"
    using inv by (auto simp: lock_inv_def cpu_ok_def)
  from p consider "pc (cpus s c) = A_sevl" | "pc (cpus s c) = A_wfe" | "pc (cpus s c) = A_ldaxr" | "pc (cpus s c) = A_cbnz1"
    | "pc (cpus s c) = A_cbnz2" | "pc (cpus s c) = T_ldaxr" | "pc (cpus s c) = T_cbnz" | "pc (cpus s c) = T_cbz"
    | "pc (cpus s c) = X_spin" | "pc (cpus s c) = Restore" by blast
  then show ?thesis
  proof cases
    case 10
    then obtain flags where "saved (cpus s c) = Some flags"
      and t: "t = upd_cpu c (\<lambda>p. p\<lparr>irq_flags := arch_irq_restore_local ar flags (irq_flags p), saved := None, pc := Out\<rparr>) s"
      using e by (auto simp: exec_def split: option.splits)
    moreover have "reg_ok ar (arch_irq_restore_local ar flags (irq_flags (cpus s c)))"
      using inv calculation(1) ucast_ucast_32 [of flags]
      by (auto simp: lock_inv_def flags_inv_def reg_ok_def arch_irq_restore_local_def split: lock_arch.splits)
    ultimately show ?thesis unfolding t using 10 by (intro local_kept [OF inv]) (auto simp: cpu_defs)
  qed (use inv e word word' in \<open>auto simp: exec_def goto_pc_def ldaxr_def cpu_defs split: if_splits intro!: local_kept\<close>)
qed

text \<open>The instructions that may take the lock.\<close>

lemma stxr_inv:
  assumes inv: "lock_inv ar s" and p: "pc (cpus s c) = A_stxr \<and> nxt = A_cbnz2 \<or> pc (cpus s c) = T_stxr \<and> nxt = T_cbz"
  shows "lock_inv ar (stxr c 1 nxt s)"
proof (cases "monitor (cpus s c)")
  case True
  then have "lock_word s = 0" using inv p by (auto simp: lock_inv_def cpu_ok_def)
  moreover have "flags_inv ar (cpus s c)" using inv by (simp add: lock_inv_def)
  ultimately show ?thesis
    unfolding stxr_def using True p by (simp, intro inv_acquire [OF inv]) (auto simp: cpu_defs)
next
  case False
  then show ?thesis
    unfolding stxr_def using p by (simp, intro local_kept [OF inv]) (auto simp: cpu_defs)
qed

lemma cmpxchg_inv:
  assumes inv: "lock_inv ar s" and p: "pc (cpus s c) = X_cmpxchg"
  shows "lock_inv ar (let s = cmpxchg c 0 1 s in goto_pc c (if tmp (cpus s c) = 0 then Held else X_spin) s)"
proof -
  have f: "flags_inv ar (cpus s c)" using inv by (simp add: lock_inv_def)
  show ?thesis
  proof (cases "lock_word s = 0")
    case True
    then show ?thesis unfolding cmpxchg_def goto_pc_def Let_def
      using p f by (simp add: cpus_store, intro inv_acquire [OF inv]) (auto simp: cpu_defs)
  next
    case False
    then show ?thesis unfolding cmpxchg_def goto_pc_def Let_def
      using p by (simp, intro local_kept [OF inv]) (auto simp: cpu_defs)
  qed
qed

lemma xchg_inv:
  assumes inv: "lock_inv ar s" and no: "\<not> owns (cpus s c)"
    and got: "\<forall>p. pc (f p) = Held \<and> saved (f p) = saved p \<and> irq_flags (f p) = irq_flags p"
    and not: "\<forall>p. pc (g p) = q \<and> saved (g p) = saved p \<and> irq_flags (g p) = irq_flags p"
      "q = X_spin \<or> q = F_tas \<or> q = Out \<and> saved (cpus s c) = None"
  shows "lock_inv ar (let s = xchg c 1 s in upd_cpu c (if tmp (cpus s c) = 0 then f else g) s)"
proof -
  have fl: "flags_inv ar (cpus s c)" using inv by (simp add: lock_inv_def)
  show ?thesis
  proof (cases "lock_word s = 0")
    case True
    then show ?thesis unfolding xchg_def Let_def
      using fl got by (simp add: cpus_store, intro inv_acquire [OF inv]) (auto simp: cpu_defs)
  next
    case False
    then show ?thesis unfolding xchg_def Let_def
      using fl not no by (simp add: cpus_store, intro inv_taken [OF inv]) (auto simp: cpu_defs)
  qed
qed

lemma exec_inv:
  assumes inv: "lock_inv ar s" and e: "exec ar c s = Some t"
  shows "lock_inv ar t"
proof (cases "pc (cpus s c) \<in> {A_sevl, A_wfe, A_ldaxr, A_cbnz1, A_cbnz2, T_ldaxr, T_cbnz, T_cbz, X_spin, Restore}")
  case True
  then show ?thesis by (rule exec_inv_local [OF inv e])
next
  case False
  then consider "pc (cpus s c) = A_stxr" | "pc (cpus s c) = T_stxr" | "pc (cpus s c) = X_cmpxchg" | "pc (cpus s c) = X_xchg"
    | "pc (cpus s c) = F_tas" | "pc (cpus s c) = T_xchg" | "pc (cpus s c) \<in> {Out, Held}"
    by (cases "pc (cpus s c)") auto
  then show ?thesis
  proof cases
    case 3
    then show ?thesis using cmpxchg_inv [OF inv 3] e by (simp add: exec_def Let_def)
  next
    case 4
    then show ?thesis using xchg_inv [OF inv, of c "\<lambda>p. p\<lparr>pc := Held\<rparr>" "\<lambda>p. p\<lparr>pc := X_spin\<rparr>" X_spin] e
      by (auto simp: exec_def Let_def goto_pc_def owns_def split: if_splits)
  next
    case 5
    then show ?thesis using xchg_inv [OF inv, of c "\<lambda>p. p\<lparr>pc := Held\<rparr>" "\<lambda>p. p\<lparr>pc := F_tas\<rparr>" F_tas] e
      by (auto simp: exec_def Let_def goto_pc_def owns_def split: if_splits)
  next
    case 6
    moreover have "saved (cpus s c) = None" using 6 inv by (auto simp: lock_inv_def flags_inv_def)
    ultimately show ?thesis
      using xchg_inv [OF inv, of c "\<lambda>p. p\<lparr>result := 1, pc := Held\<rparr>" "\<lambda>p. p\<lparr>result := 0, pc := Out\<rparr>" Out] e
      by (auto simp: exec_def Let_def owns_def split: if_splits)
  qed (use stxr_inv [OF inv] e in \<open>auto simp: exec_def\<close>)
qed

lemma lock_step_inv:
  assumes "lock_step ar s t" "lock_inv ar s"
  shows "lock_inv ar t"
  using assms
proof cases
  case (lose_monitor c)
  then show ?thesis using assms by (auto intro!: local_kept simp: cpu_defs)
next
  case (other_event c)
  then show ?thesis using assms by (auto intro!: local_kept simp: cpu_defs)
next
  case (set_flags c reg)
  then show ?thesis using assms by (auto intro!: local_kept simp: cpu_defs)
qed (auto intro: spin_lock_inv spin_trylock_inv spin_lock_irqsave_inv spin_unlock_inv spin_unlock_irqrestore_inv exec_inv)

lemma lock_start_inv: "lock_start ar s \<Longrightarrow> lock_inv ar s"
  by (auto simp: lock_start_def lock_inv_def spin_lock_init_def owns_def cpu_ok_def flags_inv_def)

interpretation sl: safe_system "lock_start ar" "lock_step ar" "lock_inv ar" for ar
  by unfold_locales (auto intro: lock_start_inv lock_step_inv)

section \<open>Progress\<close>

primrec exec_n :: "lock_arch \<Rightarrow> nat \<Rightarrow> nat \<Rightarrow> spin \<Rightarrow> spin option" where
  "exec_n ar 0 c s = Some s"
| "exec_n ar (Suc n) c s = do { s \<leftarrow> exec ar c s; exec_n ar n c s }"

definition in_spin_lock :: "lock_pc \<Rightarrow> bool" where
  "in_spin_lock p \<longleftrightarrow> p \<in> {A_sevl, A_wfe, A_ldaxr, A_cbnz1, A_stxr, A_cbnz2, X_spin, X_cmpxchg, X_xchg, F_tas}"

definition acquires :: "lock_arch \<Rightarrow> nat \<Rightarrow> nat \<Rightarrow> spin \<Rightarrow> bool" where
  "acquires ar n c s = (case exec_n ar n c s of None \<Rightarrow> False | Some t \<Rightarrow> pc (cpus t c) = Held)"

lemma acquires_0: "acquires ar 0 c s \<longleftrightarrow> pc (cpus s c) = Held"
  by (simp add: acquires_def)

lemma acquires_Suc: "exec ar c s = Some t \<Longrightarrow> acquires ar (Suc n) c s \<longleftrightarrow> acquires ar n c t"
  by (simp add: acquires_def)

lemma acquires_arm:
  assumes "lock_word s = 0"
  shows "pc (cpus s c) = A_cbnz2 \<Longrightarrow> tmp (cpus s c) = 0 \<Longrightarrow> acquires ar 1 c s"
    and "pc (cpus s c) = A_stxr \<Longrightarrow> monitor (cpus s c) \<Longrightarrow> acquires ar 2 c s"
    and "pc (cpus s c) = A_ldaxr \<Longrightarrow> acquires ar 4 c s"
    and "pc (cpus s c) = A_wfe \<Longrightarrow> event (cpus s c) \<Longrightarrow> acquires ar 5 c s"
    and "pc (cpus s c) = A_sevl \<Longrightarrow> acquires ar 6 c s"
    and "pc (cpus s c) = A_cbnz1 \<Longrightarrow> monitor (cpus s c) \<Longrightarrow> tmp (cpus s c) = 0 \<Longrightarrow> acquires ar 3 c s"
    and "pc (cpus s c) = A_cbnz2 \<Longrightarrow> tmp (cpus s c) \<noteq> 0 \<Longrightarrow> acquires ar 5 c s"
    and "pc (cpus s c) = A_stxr \<Longrightarrow> \<not> monitor (cpus s c) \<Longrightarrow> acquires ar 6 c s"
    and "pc (cpus s c) = A_cbnz1 \<Longrightarrow> \<not> monitor (cpus s c) \<Longrightarrow> tmp (cpus s c) = 0 \<Longrightarrow> acquires ar 7 c s"
    and "pc (cpus s c) = A_cbnz1 \<Longrightarrow> event (cpus s c) \<Longrightarrow> tmp (cpus s c) \<noteq> 0 \<Longrightarrow> acquires ar 6 c s"
  using assms by (simp_all add: acquires_def numeral_eq_Suc exec_def ldaxr_def stxr_def upd_simps)

lemma acquires_other:
  assumes "lock_word s = 0"
  shows "pc (cpus s c) = X_spin \<Longrightarrow> acquires ar 2 c s"
    and "pc (cpus s c) \<in> {X_cmpxchg, X_xchg, F_tas} \<Longrightarrow> acquires ar 1 c s"
  using assms by (auto simp: acquires_def numeral_eq_Suc exec_def Let_def cmpxchg_def xchg_def upd_simps)

lemma progress_spec:
  assumes inv: "lock_inv ar s" and free: "\<forall>d. \<not> owns (cpus s d)" and p: "in_spin_lock (pc (cpus s c))"
  shows "\<exists>n \<le> 7. acquires ar n c s"
proof -
  have w: "lock_word s = 0" using free_no_owner [OF inv] free by simp
  have ok: "cpu_ok (lock_word s) (cpus s c)" using inv by (simp add: lock_inv_def)
  have "\<exists>n \<in> {1, 2, 3, 4, 5, 6, 7}. acquires ar n c s"
    using p acquires_arm [OF w, of c ar] acquires_other [OF w, of c ar] ok w
    unfolding in_spin_lock_def cpu_ok_def
    by (cases "pc (cpus s c)"; cases "monitor (cpus s c)"; cases "event (cpus s c)"; cases "tmp (cpus s c) = 0")
      simp_all
  then obtain n where "n \<in> {1, 2, 3, 4, 5, 6, 7}" and a: "acquires ar n c s" by blast
  then have "n \<le> 7" by auto
  then show ?thesis using a by blast
qed

lemma asleep_spec:
  assumes inv: "lock_inv ar s" and p: "in_spin_lock (pc (cpus s c))" and e: "exec ar c s = None"
  shows "\<exists>d. d \<noteq> c \<and> owns (cpus s d) \<and> event (cpus (spin_unlock d s) c)"
proof -
  have a: "pc (cpus s c) = A_wfe" "\<not> event (cpus s c)"
    using p e by (auto simp: in_spin_lock_def exec_def Let_def split: if_splits)
  then have m: "monitor (cpus s c)" "lock_word s \<noteq> 0" using inv by (auto simp: lock_inv_def cpu_ok_def)
  then obtain d where d: "owns (cpus s d)" using free_no_owner [OF inv] by auto
  then have "d \<noteq> c" using a by (auto simp: owns_def)
  then show ?thesis using d m by (auto simp: spin_unlock_def goto_pc_def store_lock_def)
qed

text \<open>Interrupt flags: only the restore gives up the saved value, and it puts it back.\<close>

lemma saved_store [simp]: "saved (cpus (store_lock d v s) c) = saved (cpus s c)"
  "irq_flags (cpus (store_lock d v s) c) = irq_flags (cpus s c)"
  by (simp_all add: cpus_store)

lemma exec_saved:
  assumes inv: "lock_inv ar s" and e: "exec ar d s = Some t" and s: "saved (cpus s c) = Some flags" and ar: "ar \<noteq> LK_OTHER"
  shows "saved (cpus t c) = Some flags \<or> saved (cpus t c) = None \<and> irq_flags (cpus t c) = flags"
proof (cases "d = c \<and> pc (cpus s d) = Restore")
  case True
  have "reg_ok ar flags" using inv s by (simp add: lock_inv_def flags_inv_def)
  then have "arch_irq_restore_local ar flags reg = flags" for reg
    using ar ucast_ucast_32 [of flags] by (auto simp: arch_irq_restore_local_def reg_ok_def split: lock_arch.split)
  then show ?thesis using True e s by (auto simp: exec_def)
next
  case False
  then have "saved (cpus t c) = saved (cpus s c)"
    using e by (cases "pc (cpus s d)")
      (auto simp: exec_def Let_def goto_pc_def ldaxr_def stxr_def cmpxchg_def xchg_def split: if_splits option.splits)
  then show ?thesis using s by simp
qed

lemma step_saved:
  assumes inv: "lock_inv ar s" and st: "lock_step ar s t" and s: "saved (cpus s c) = Some flags" and ar: "ar \<noteq> LK_OTHER"
  shows "saved (cpus t c) = Some flags \<or> saved (cpus t c) = None \<and> irq_flags (cpus t c) = flags"
proof -
  have out: "pc (cpus s c) \<noteq> Out" using inv s by (auto simp: lock_inv_def flags_inv_def)
  show ?thesis
    using st
  proof cases
    case (instr d)
    then show ?thesis using exec_saved [OF inv _ s ar] by blast
  qed (use s out in \<open>auto simp: spin_lock_def spin_trylock_def spin_lock_irqsave_def spin_unlock_def
      spin_unlock_irqrestore_def goto_pc_def split: prod.splits\<close>)
qed

section \<open>Properties\<close>

definition cpu0 :: lock_cpu where
  "cpu0 = \<lparr>pc = Out, tmp = 0, monitor = False, event = False, irq_flags = 0x200, saved = None, result = 0\<rparr>"

definition spin0 :: spin where
  "spin0 = spin_lock_init \<lparr>lock_word = 7, cpus = (\<lambda>_. cpu0)\<rparr>"

lemma spin0_start: "lock_start ar spin0"
  unfolding lock_start_def spin0_def by (rule exI, rule conjI [OF refl]) (simp add: cpu0_def reg_ok_def)

lemma spin0_step: "lock_step ar spin0 (spin_lock_irqsave ar 0 spin0)"
  by (rule lock_step.lock_irqsave) (simp add: spin0_def cpu0_def spin_lock_init_def)

text \<open>C23. For each of the four implementations and any number of processors, in every interleaving of
  their instructions: at most one processor is in the critical section, the lock word is 1 exactly
  while some processor has the lock and 0 otherwise, a processor inside \<^verbatim>\<open>spin_lock_irqsave\<close> or the
  section it opens has its interrupts masked on the three real architectures, and it keeps the saved flags until
  \<^verbatim>\<open>spin_unlock_irqrestore\<close> puts back exactly their value.\<close>

theorem spin_lock_mutual_exclusion:
  assumes start: "lock_start ar s0" and run: "(lock_step ar)\<^sup>*\<^sup>* s0 s"
  shows "(pc (cpus s c) = Held \<longrightarrow> pc (cpus s d) = Held \<longrightarrow> c = d)
    \<and> lock_word s = (if \<exists>c. owns (cpus s c) then 1 else 0)
    \<and> (saved (cpus s c) = Some flags \<longrightarrow> ar \<noteq> LK_OTHER \<longrightarrow> irqs_masked ar (irq_flags (cpus s c)))
    \<and> (saved (cpus s c) = Some flags \<longrightarrow> ar \<noteq> LK_OTHER \<longrightarrow> lock_step ar s t
      \<longrightarrow> saved (cpus t c) = Some flags \<or> saved (cpus t c) = None \<and> irq_flags (cpus t c) = flags)"
proof -
  have inv: "lock_inv ar s" by (rule sl.inv_reachable [OF run start])
  have "pc (cpus s c) = Held \<longrightarrow> pc (cpus s d) = Held \<longrightarrow> c = d" using inv by (auto simp: lock_inv_def owns_def)
  moreover have "lock_word s = (if \<exists>c. owns (cpus s c) then 1 else 0)" using inv unfolding lock_inv_def by auto
  moreover have "saved (cpus s c) = Some flags \<longrightarrow> ar \<noteq> LK_OTHER \<longrightarrow> irqs_masked ar (irq_flags (cpus s c))"
    using inv by (auto simp: lock_inv_def flags_inv_def)
  moreover have "saved (cpus s c) = Some flags \<longrightarrow> ar \<noteq> LK_OTHER \<longrightarrow> lock_step ar s t
      \<longrightarrow> saved (cpus t c) = Some flags \<or> saved (cpus t c) = None \<and> irq_flags (cpus t c) = flags"
    using step_saved [OF inv] by blast
  ultimately show ?thesis by blast
qed

theorem spin_lock_mutual_exclusion_witness:
  "lock_start LK_X86_64 spin0 \<and> lock_step LK_X86_64 spin0 (spin_lock_irqsave LK_X86_64 0 spin0)
   \<and> lock_word (spin_lock_irqsave LK_X86_64 0 spin0) = 0
   \<and> irqs_masked LK_X86_64 (irq_flags (cpus (spin_lock_irqsave LK_X86_64 0 spin0) 0))"
proof -
  note r = spin_lock_mutual_exclusion [OF spin0_start r_into_rtranclp [where r = "lock_step LK_X86_64", OF spin0_step]]
  have "saved (cpus (spin_lock_irqsave LK_X86_64 0 spin0) 0) = Some 0x200"
    by (simp add: spin_lock_irqsave_def arch_irq_save_local_def spin_lock_def spin0_def cpu0_def spin_lock_init_def goto_pc_def)
  then have "irqs_masked LK_X86_64 (irq_flags (cpus (spin_lock_irqsave LK_X86_64 0 spin0) 0))"
    using r by blast
  moreover have "lock_word (spin_lock_irqsave LK_X86_64 0 spin0) = 0"
    by (simp add: spin_lock_irqsave_def arch_irq_save_local_def spin_lock_def spin0_def spin_lock_init_def goto_pc_def)
  ultimately show ?thesis using spin0_start spin0_step by blast
qed

text \<open>C31. No wake-up is lost and a free lock is always obtained: a processor in \<^verbatim>\<open>spin_lock\<close> when no processor
  has the lock acquires it after at most seven of its own instructions, and one that sleeps in
  \<^verbatim>\<open>wfe\<close> does so only while another processor has the lock, whose unlock wakes it.\<close>

theorem spin_lock_progress:
  assumes start: "lock_start ar s0" and run: "(lock_step ar)\<^sup>*\<^sup>* s0 s" and c: "in_spin_lock (pc (cpus s c))"
  shows "((\<forall>d. \<not> owns (cpus s d)) \<longrightarrow> (\<exists>n \<le> 7. acquires ar n c s))
    \<and> (exec ar c s = None \<longrightarrow> (\<exists>d. d \<noteq> c \<and> owns (cpus s d) \<and> event (cpus (spin_unlock d s) c)))"
  using progress_spec [OF sl.inv_reachable [OF run start] _ c] asleep_spec [OF sl.inv_reachable [OF run start] c]
  by blast

theorem spin_lock_progress_witness:
  "lock_start LK_ARM64 spin0 \<and> lock_step LK_ARM64 spin0 (spin_lock_irqsave LK_ARM64 0 spin0)
   \<and> (\<exists>n \<le> 7. acquires LK_ARM64 n 0 (spin_lock_irqsave LK_ARM64 0 spin0))"
proof -
  have c: "in_spin_lock (pc (cpus (spin_lock_irqsave LK_ARM64 0 spin0) 0))"
    by (simp add: spin_lock_irqsave_def arch_irq_save_local_def spin_lock_def goto_pc_def spin_lock_entry_def in_spin_lock_def)
  have "\<forall>d. \<not> owns (cpus (spin_lock_irqsave LK_ARM64 0 spin0) d)"
    by (simp add: spin_lock_irqsave_def arch_irq_save_local_def spin_lock_def goto_pc_def spin_lock_entry_def owns_def
        spin0_def spin_lock_init_def cpu0_def)
  then show ?thesis
    using spin_lock_progress [OF spin0_start r_into_rtranclp [where r = "lock_step LK_ARM64", OF spin0_step] c] spin0_start spin0_step by simp
qed

end
