(* ===== verification/Stdlib.thy ===== *)
theory Stdlib
  imports Cstring "HOL-Library.Signed_Division" "HOL-Library.Monad_Syntax"
begin

text \<open>
  The general functions of the C library, \<^verbatim>\<open>libc/src/stdlib.c\<close>: the bump allocator behind \<^verbatim>\<open>malloc\<close>, exit handlers, number
  parsing, pseudo-random numbers and division. Block headers are a typed store at their addresses beside the byte memory, as
  in the kernel heap. A signed overflow is undefined behaviour in C and makes the result \<^term>\<open>None\<close>.
\<close>

section \<open>Memory allocation\<close>

definition HEAP_SIZE :: u64 where "HEAP_SIZE = 16 * 1024 * 1024"

record malloc_header =
  msize :: u64
  mused :: bool

text \<open>\<^verbatim>\<open>sizeof(struct malloc_header)\<close>.\<close>

definition MHDR :: u64 where "MHDR = 16"

text \<open>The address of the array \<^verbatim>\<open>heap\<close>, its used part, the block headers and the memory of the program.\<close>

record libc_heap =
  heap_at :: ptr
  heap_used :: u64
  mhdrs :: "ptr \<Rightarrow> malloc_header"
  umem :: memory

definition ALIGN :: "u64 \<Rightarrow> u64" where
  "ALIGN x = (x + 15) AND NOT 15"

definition malloc :: "u64 \<Rightarrow> libc_heap \<Rightarrow> ptr \<times> libc_heap" where
  "malloc sz h =
     (if sz = 0 then (NULL, h)
      else
        (let total = ALIGN (MHDR + sz) in
         if heap_used h + total > HEAP_SIZE then (NULL, h)
         else
           (let hdr = heap_at h + unat (heap_used h);
                h = h\<lparr>mhdrs := (mhdrs h)(hdr := \<lparr>msize = sz, mused = True\<rparr>), heap_used := heap_used h + total\<rparr>
            in (hdr + unat MHDR, h))))"

definition calloc :: "u64 \<Rightarrow> u64 \<Rightarrow> libc_heap \<Rightarrow> ptr \<times> libc_heap" where
  "calloc nmemb sz h =
     (let total = nmemb * sz; (p, h) = malloc total h
      in (p, if p \<noteq> NULL then h\<lparr>umem := memset p 0 (unat total) (umem h)\<rparr> else h))"

definition free :: "ptr \<Rightarrow> libc_heap \<Rightarrow> libc_heap" where
  "free p h =
     (if p = NULL then h
      else (let hdr = p - unat MHDR in h\<lparr>mhdrs := (mhdrs h)(hdr := (mhdrs h hdr)\<lparr>mused := False\<rparr>)\<rparr>))"

definition realloc :: "ptr \<Rightarrow> u64 \<Rightarrow> libc_heap \<Rightarrow> ptr \<times> libc_heap" where
  "realloc p sz h =
     (if p = NULL then malloc sz h
      else if sz = 0 then (NULL, free p h)
      else
        (let hdr = p - unat MHDR in
         if sz \<le> msize (mhdrs h hdr) then (p, h)
         else
           (let (new_ptr, h) = malloc sz h
            in (new_ptr, if new_ptr \<noteq> NULL
                  then free p (h\<lparr>umem := memcpy new_ptr p (unat (msize (mhdrs h hdr))) (umem h)\<rparr>) else h))))"

section \<open>Process control\<close>

text \<open>The registered handlers, the last one at the end; \<open>run\<close> calls a handler, which may register further ones.\<close>

definition ATEXIT_MAX :: nat where "ATEXIT_MAX = 32"

definition atexit :: "'f \<Rightarrow> 'f list \<Rightarrow> int \<times> 'f list" where
  "atexit f fs = (if length fs \<ge> ATEXIT_MAX then (- 1, fs) else (0, fs @ [f]))"

text \<open>The handlers called by \<^verbatim>\<open>exit\<close> until none is left; the world they work on includes the list.\<close>

partial_function (option) exit_handlers :: "('f \<Rightarrow> 'w \<times> 'f list \<Rightarrow> 'w \<times> 'f list) \<Rightarrow> 'w \<Rightarrow> 'f list \<Rightarrow> 'w option" where
  "exit_handlers run w fs =
     (if fs = [] then Some w
      else (case run (last fs) (w, butlast fs) of (w, fs) \<Rightarrow> exit_handlers run w fs))"

section \<open>String conversion\<close>

text \<open>A string is its bytes without the terminating zero; \<open>at0\<close> reads the byte at the pointer.\<close>

definition at0 :: "bytes \<Rightarrow> u8" where
  "at0 p = (case p of [] \<Rightarrow> 0 | c # _ \<Rightarrow> c)"

abbreviation (input) "is_digit (c :: u8) \<equiv> 48 \<le> c \<and> c \<le> 57"

definition LONG_MAX :: int where "LONG_MAX = 2 ^ 63 - 1"

definition in_long :: "int \<Rightarrow> bool" where
  "in_long x \<longleftrightarrow> - LONG_MAX - 1 \<le> x \<and> x \<le> LONG_MAX"

fun atol_digits :: "int \<Rightarrow> bytes \<Rightarrow> int option" where
  "atol_digits result [] = Some result"
| "atol_digits result (c # p) =
     (if is_digit c
      then (let r = result * 10 + (uint c - 48) in if in_long r then atol_digits r p else None)
      else Some result)"

text \<open>The sign and the rest behind it.\<close>

definition take_sign :: "bytes \<Rightarrow> int \<times> bytes" where
  "take_sign p = (if at0 p = 45 then (- 1, tl p) else if at0 p = 43 then (1, tl p) else (1, p))"

definition atol :: "bytes \<Rightarrow> int option" where
  "atol nptr =
     (let (sign, p) = take_sign (dropWhile (\<lambda>c. c = 32 \<or> c = 9 \<or> c = 10) nptr)
      in map_option (\<lambda>result. result * sign) (atol_digits 0 p))"

text \<open>The conversion to \<^verbatim>\<open>int\<close> keeps the low 32 bits.\<close>

definition atoi :: "bytes \<Rightarrow> int option" where
  "atoi nptr = map_option (\<lambda>v. sint (of_int v :: u32)) (atol nptr)"

definition atoll :: "bytes \<Rightarrow> int option" where "atoll nptr = atol nptr"

definition digit_of :: "u8 \<Rightarrow> int option" where
  "digit_of c =
     (if is_digit c then Some (uint c - 48)
      else if 97 \<le> c \<and> c \<le> 122 then Some (uint c - 97 + 10)
      else if 65 \<le> c \<and> c \<le> 90 then Some (uint c - 65 + 10)
      else None)"

text \<open>The value and the rest of the string.\<close>

fun strtol_digits :: "int \<Rightarrow> int \<Rightarrow> bytes \<Rightarrow> (int \<times> bytes) option" where
  "strtol_digits base result [] = Some (result, [])"
| "strtol_digits base result (c # p) =
     (case digit_of c of
        None \<Rightarrow> Some (result, c # p)
      | Some d \<Rightarrow>
          if d \<ge> base then Some (result, c # p)
          else (let r = result * base + d in if in_long r then strtol_digits base r p else None))"

definition base_prefix :: "int \<Rightarrow> bytes \<Rightarrow> int \<times> bytes" where
  "base_prefix base p =
     (let hex = (at0 p = 48 \<and> (at0 (tl p) = 120 \<or> at0 (tl p) = 88)) in
      if base = 0
      then (if at0 p = 48 then (if hex then (16, drop 2 p) else (8, tl p)) else (10, p))
      else if base = 16 \<and> hex then (base, drop 2 p) else (base, p))"

definition strtol :: "bytes \<Rightarrow> int \<Rightarrow> (int \<times> bytes) option" where
  "strtol nptr base = do {
     let (sign, p) = take_sign (dropWhile (\<lambda>c. c = 32 \<or> c = 9) nptr);
     let (base, p) = base_prefix base p;
     (result, p) \<leftarrow> strtol_digits base 0 p;
     Some (result * sign, p)
   }"

definition strtoul :: "bytes \<Rightarrow> int \<Rightarrow> (u64 \<times> bytes) option" where
  "strtoul nptr base = map_option (\<lambda>(v, p). (of_int v, p)) (strtol nptr base)"

section \<open>Random numbers\<close>

definition RAND_MAX :: u32 where "RAND_MAX = 2147483647"

text \<open>The number and the new \<^verbatim>\<open>rand_seed\<close>.\<close>

definition rand :: "u32 \<Rightarrow> int \<times> u32" where
  "rand rand_seed =
     (let rand_seed = rand_seed * 1103515245 + 12345
      in (uint (drop_bit 16 rand_seed AND RAND_MAX), rand_seed))"

definition srand :: "u32 \<Rightarrow> u32 \<Rightarrow> u32" where
  "srand seed rand_seed = seed"

section \<open>Integer arithmetic\<close>

definition INT_MAX :: int where "INT_MAX = 2 ^ 31 - 1"

text \<open>The widths differ only in the most negative number.\<close>

definition abs_of :: "int \<Rightarrow> int \<Rightarrow> int option" where
  "abs_of mx j = (if j < - mx then None else Some (if j < 0 then - j else j))"

definition div_of :: "int \<Rightarrow> int \<Rightarrow> int \<Rightarrow> (int \<times> int) option" where
  "div_of mx numer denom =
     (if denom = 0 \<or> numer < - mx \<and> denom = - 1 then None else Some (numer sdiv denom, numer smod denom))"

definition abs_int :: "int \<Rightarrow> int option" where "abs_int j = abs_of INT_MAX j"
definition labs :: "int \<Rightarrow> int option" where "labs j = abs_of LONG_MAX j"
definition llabs :: "int \<Rightarrow> int option" where "llabs j = abs_of LONG_MAX j"
definition div_int :: "int \<Rightarrow> int \<Rightarrow> (int \<times> int) option" where "div_int numer denom = div_of INT_MAX numer denom"
definition ldiv :: "int \<Rightarrow> int \<Rightarrow> (int \<times> int) option" where "ldiv numer denom = div_of LONG_MAX numer denom"

section \<open>The allocator's invariant\<close>

text \<open>\<open>B\<close> gives the blocks that the program holds, with their requested sizes: each lies behind its header in the used part of the
  heap, the header has the size, and no two blocks or headers overlap.\<close>

definition libc_ok :: "libc_heap \<Rightarrow> (ptr \<rightharpoonup> nat) \<Rightarrow> bool" where
  "libc_ok h B \<longleftrightarrow> heap_at h > 0 \<and> heap_used h \<le> HEAP_SIZE
     \<and> (\<forall>p n. B p = Some n \<longrightarrow> heap_at h + 16 \<le> p \<and> p + n \<le> heap_at h + unat (heap_used h) \<and> unat (msize (mhdrs h (p - 16))) = n)
     \<and> (\<forall>p q n. B p = Some n \<longrightarrow> B q \<noteq> None \<longrightarrow> p < q \<longrightarrow> p + n + 16 \<le> q)"

lemma unat_ALIGN: "unat x < 2 ^ 63 \<Longrightarrow> unat (ALIGN x) = (unat x + 15) div 16 * 16"
proof -
  assume "unat x < 2 ^ 63"
  then have "unat (x + 15) = unat x + 15" by (subst unat_add_lem [THEN iffD1]) simp_all
  moreover have m: "(15 :: u64) = mask 4" by (simp add: mask_eq_exp_minus_1)
  have "unat (ALIGN x) = unat (x + 15) div 2 ^ 4 * 2 ^ 4" unfolding ALIGN_def by (subst (2) m) (rule unat_and_not_mask)
  ultimately show ?thesis by simp
qed

lemma libc_okD:
  assumes "libc_ok h B"
  shows "heap_at h > 0" "unat (heap_used h) \<le> 16777216"
    "B p = Some n \<Longrightarrow> heap_at h + 16 \<le> p" "B p = Some n \<Longrightarrow> p + n \<le> heap_at h + unat (heap_used h)"
    "B p = Some n \<Longrightarrow> unat (msize (mhdrs h (p - 16))) = n" "\<lbrakk> B p = Some n; B q \<noteq> None; p < q \<rbrakk> \<Longrightarrow> p + n + 16 \<le> q"
proof -
  show "heap_at h > 0" "B p = Some n \<Longrightarrow> heap_at h + 16 \<le> p" "B p = Some n \<Longrightarrow> p + n \<le> heap_at h + unat (heap_used h)"
    "B p = Some n \<Longrightarrow> unat (msize (mhdrs h (p - 16))) = n" "\<lbrakk> B p = Some n; B q \<noteq> None; p < q \<rbrakk> \<Longrightarrow> p + n + 16 \<le> q"
    using assms unfolding libc_ok_def by blast+
  show "unat (heap_used h) \<le> 16777216" using assms by (simp add: libc_ok_def HEAP_SIZE_def word_le_nat_alt)
qed

text \<open>What a fit is: the block with its header, rounded up to 16 bytes.\<close>

definition fits :: "u64 \<Rightarrow> libc_heap \<Rightarrow> bool" where
  "fits sz h \<longleftrightarrow> sz \<noteq> 0 \<and> unat (heap_used h) + (unat sz + 31) div 16 * 16 \<le> 16777216"

lemma MHDR16: "unat MHDR = 16"
  by (simp add: MHDR_def)

lemma malloc_cases:
  assumes ok: "libc_ok h B" and sz: "unat sz \<le> 2 ^ 62"
  obtains (none) "\<not> fits sz h" "malloc sz h = (NULL, h)"
  | (new) p h' where "fits sz h" "malloc sz h = (p, h')" "p \<noteq> NULL" "B p = None" "libc_ok h' (B(p \<mapsto> unat sz))" "umem h' = umem h"
      "\<And>q n. B q = Some n \<Longrightarrow> q + n \<le> p - 16 \<and> mhdrs h' (q - 16) = mhdrs h (q - 16)"
proof -
  note D = libc_okD [OF ok]
  define total where "total = ALIGN (MHDR + sz)"
  have a: "unat (MHDR + sz) = unat sz + 16" using sz by (subst unat_add_lem [THEN iffD1]) (simp_all add: MHDR_def)
  have t: "unat total = (unat sz + 31) div 16 * 16" unfolding total_def by (subst unat_ALIGN) (use a sz in simp_all)
  have tl: "unat total < 2 ^ 63" using t sz by simp
  have u: "unat (heap_used h + total) = unat (heap_used h) + unat total" using D(2) tl by (subst unat_add_lem [THEN iffD1]) simp_all
  show thesis
  proof (cases "fits sz h")
    case False
    then have "malloc sz h = (NULL, h)"
      using u t by (auto simp: malloc_def fits_def Let_def total_def [symmetric] word_less_nat_alt HEAP_SIZE_def)
    then show thesis using none False by blast
  next
    case True
    define hdr where "hdr = heap_at h + unat (heap_used h)"
    define h' where "h' = h\<lparr>mhdrs := (mhdrs h)(hdr := \<lparr>msize = sz, mused = True\<rparr>), heap_used := heap_used h + total\<rparr>"
    have m: "malloc sz h = (hdr + 16, h')"
      using True u t by (simp add: malloc_def fits_def Let_def total_def [symmetric] word_less_nat_alt HEAP_SIZE_def hdr_def h'_def MHDR16)
    have old: "q + n \<le> hdr" "q - 16 \<noteq> hdr" "q \<noteq> hdr + 16" if "B q = Some n" for q n
      using D(3,4) [OF that] by (auto simp: hdr_def)
    have fr: "B (hdr + 16) = None" using old(3) by (cases "B (hdr + 16)") auto
    have le: "unat sz + 16 \<le> unat total" unfolding t by linarith
    have "libc_ok h' (B(hdr + 16 \<mapsto> unat sz))"
      unfolding libc_ok_def
    proof (intro conjI allI impI)
      show "heap_used h' \<le> HEAP_SIZE" using True u t by (simp add: h'_def word_le_nat_alt fits_def HEAP_SIZE_def)
      fix p n assume p: "(B(hdr + 16 \<mapsto> unat sz)) p = Some n"
      show "heap_at h' + 16 \<le> p" using p D(3) by (auto simp: h'_def hdr_def split: if_splits)
      have "heap_at h' + unat (heap_used h') = hdr + unat total" using u by (simp add: h'_def hdr_def)
      then show "p + n \<le> heap_at h' + unat (heap_used h')" using p old(1) [of p n] le by (auto split: if_splits)
      show "unat (msize (mhdrs h' (p - 16))) = n" using p D(5) old(2) [of p n] by (auto simp: h'_def split: if_splits)
      fix q assume q: "(B(hdr + 16 \<mapsto> unat sz)) q \<noteq> None" "p < q"
      show "p + n + 16 \<le> q"
      proof (cases "q = hdr + 16")
        case True
        then show ?thesis using p q(2) old(1) [of p n] by (auto split: if_splits)
      next
        case False
        then obtain k where "B q = Some k" using q(1) by auto
        then show ?thesis using p q(2) old(1) [of q k] D(6) [of p n q] by (auto split: if_splits)
      qed
    qed (use D(1) in \<open>simp add: h'_def\<close>)
    then show thesis using new [OF True m _ fr] old D(3) by (auto simp: h'_def)
  qed
qed

lemma free_ok:
  assumes ok: "libc_ok h B" and p: "B p \<noteq> None"
  shows "libc_ok (free p h) (B(p := None))" "umem (free p h) = umem h"
proof -
  note D = libc_okD [OF ok]
  show "umem (free p h) = umem h" by (simp add: free_def Let_def)
  have "msize (mhdrs (free p h) a) = msize (mhdrs h a)" "heap_at (free p h) = heap_at h" "heap_used (free p h) = heap_used h" for a
    by (simp_all add: free_def Let_def)
  then show "libc_ok (free p h) (B(p := None))" using ok unfolding libc_ok_def by auto
qed

lemma mem_ok: "libc_ok h B \<Longrightarrow> libc_ok (h\<lparr>umem := m\<rparr>) B"
  by (simp add: libc_ok_def)

text \<open>The bytes of the program's blocks are the same in two memories.\<close>

definition blocks_same :: "(ptr \<rightharpoonup> nat) \<Rightarrow> memory \<Rightarrow> memory \<Rightarrow> bool" where
  "blocks_same B m m' \<longleftrightarrow> (\<forall>q n. B q = Some n \<longrightarrow> read_bytes m' q n = read_bytes m q n)"

lemma calloc_cases:
  assumes ok: "libc_ok h B" and sz: "unat nmemb * unat sz \<le> 2 ^ 62"
  obtains (none) "\<not> fits (nmemb * sz) h" "calloc nmemb sz h = (NULL, h)"
  | (new) p h' where "calloc nmemb sz h = (p, h')" "p \<noteq> NULL" "B p = None" "libc_ok h' (B(p \<mapsto> unat nmemb * unat sz))"
      "read_bytes (umem h') p (unat nmemb * unat sz) = replicate (unat nmemb * unat sz) 0" "blocks_same B (umem h) (umem h')"
proof -
  have t: "unat (nmemb * sz) = unat nmemb * unat sz" using sz by (subst unat_mult_lem [THEN iffD1]) simp_all
  have le: "unat (nmemb * sz) \<le> 2 ^ 62" using t sz by simp
  show thesis
  proof (rule malloc_cases [OF ok le])
    assume "\<not> fits (nmemb * sz) h" "malloc (nmemb * sz) h = (NULL, h)"
    then show thesis using none by (simp add: calloc_def)
  next
    fix p h1 assume a: "malloc (nmemb * sz) h = (p, h1)" "p \<noteq> NULL" "B p = None" "libc_ok h1 (B(p \<mapsto> unat (nmemb * sz)))" "umem h1 = umem h"
      "\<And>q n. B q = Some n \<Longrightarrow> q + n \<le> p - 16 \<and> mhdrs h1 (q - 16) = mhdrs h (q - 16)"
    define h' where "h' = h1\<lparr>umem := memset p 0 (unat (nmemb * sz)) (umem h1)\<rparr>"
    have c: "calloc nmemb sz h = (p, h')" using a(1,2) by (simp add: calloc_def h'_def)
    have z: "read_bytes (umem h') p (unat nmemb * unat sz) = replicate (unat nmemb * unat sz) 0"
      by (rule nth_equalityI) (simp_all add: h'_def memset_def byte_fill_eq t)
    have "read_bytes (umem h') q n = read_bytes (umem h) q n" if "B q = Some n" for q n
      using a(6) [OF that] by (intro read_bytes_cong) (auto simp: h'_def memset_def byte_fill_eq a(5))
    then have "blocks_same B (umem h) (umem h')" by (simp add: blocks_same_def)
    moreover have "libc_ok h' (B(p \<mapsto> unat nmemb * unat sz))" unfolding h'_def by (rule mem_ok) (use a(4) t in simp)
    ultimately show thesis using new c a(2,3) z by blast
  qed
qed

lemma realloc_cases:
  assumes ok: "libc_ok h B" and p: "B p = Some n" and sz: "sz \<noteq> 0" "unat sz \<le> 2 ^ 62"
  obtains (keep) "unat sz \<le> n" "realloc p sz h = (p, h)"
  | (none) "\<not> fits sz h" "realloc p sz h = (NULL, h)"
  | (moved) p' h' where "n < unat sz" "realloc p sz h = (p', h')" "p' \<noteq> NULL" "B p' = None" "libc_ok h' ((B(p := None))(p' \<mapsto> unat sz))"
      "read_bytes (umem h') p' n = read_bytes (umem h) p n" "blocks_same B (umem h) (umem h')"
proof -
  note D = libc_okD [OF ok]
  have p0: "p \<noteq> NULL" and hd: "unat (msize (mhdrs h (p - 16))) = n" using D(3,5) [OF p] by auto
  show thesis
  proof (cases "unat sz \<le> n")
    case True
    then have "realloc p sz h = (p, h)" using p0 sz(1) hd by (simp add: realloc_def Let_def word_le_nat_alt MHDR16)
    then show thesis using keep True by blast
  next
    case False
    then have r: "realloc p sz h = (let (new_ptr, h) = malloc sz h in (new_ptr, if new_ptr \<noteq> NULL
          then free p (h\<lparr>umem := memcpy new_ptr p (unat (msize (mhdrs h (p - 16)))) (umem h)\<rparr>) else h))"
      using p0 sz(1) hd by (simp add: realloc_def Let_def word_le_nat_alt MHDR16)
    show thesis
    proof (rule malloc_cases [OF ok sz(2)])
      assume "\<not> fits sz h" "malloc sz h = (NULL, h)"
      then show thesis using none r by simp
    next
      fix p' h1 assume a: "malloc sz h = (p', h1)" "p' \<noteq> NULL" "B p' = None" "libc_ok h1 (B(p' \<mapsto> unat sz))" "umem h1 = umem h"
        "\<And>q n. B q = Some n \<Longrightarrow> q + n \<le> p' - 16 \<and> mhdrs h1 (q - 16) = mhdrs h (q - 16)"
      define h2 where "h2 = h1\<lparr>umem := memcpy p' p n (umem h)\<rparr>"
      have e: "realloc p sz h = (p', free p h2)" using r a(1,2,5) a(6) [OF p] hd by (simp add: h2_def)
      have ap: "q + k \<le> p'" if "B q = Some k" for q k using a(6) [OF that] by linarith
      have cp: "memcpy p' p n m x = (if p' \<le> x \<and> x < p' + n then m (p + (x - p')) else m x)" for m x
        unfolding memcpy_def by (rule byte_copy_eq) (use ap [OF p] in simp)
      have "p \<noteq> p'" using a(3) p by auto
      then have "(B(p' \<mapsto> unat sz))(p := None) = (B(p := None))(p' \<mapsto> unat sz)" "(B(p' \<mapsto> unat sz)) p \<noteq> None" using p by (auto simp: fun_upd_twist)
      then have ok': "libc_ok (free p h2) ((B(p := None))(p' \<mapsto> unat sz))" "umem (free p h2) = umem h2"
        using free_ok [OF mem_ok [OF a(4)], where p = p] unfolding h2_def by (metis, metis)
      have "read_bytes (umem h2) p' n = read_bytes (umem h) p n"
        by (rule nth_equalityI) (simp_all add: h2_def cp)
      moreover have "blocks_same B (umem h) (umem h2)"
        unfolding blocks_same_def using ap by (auto simp: h2_def cp intro!: read_bytes_cong) (meson leD le_trans less_le_trans)
      ultimately show thesis using moved [OF _ e a(2,3) ok'(1)] ok'(2) False by simp
    qed
  qed
qed

section \<open>Programs\<close>

text \<open>What a program does with the allocator and its blocks; the ghost map follows the blocks it holds. Sizes are at most \<open>2 ^ 62\<close>, and
  only blocks that the program holds are released, resized or written.\<close>

inductive libc_step :: "libc_heap \<times> (ptr \<rightharpoonup> nat) \<Rightarrow> libc_heap \<times> (ptr \<rightharpoonup> nat) \<Rightarrow> bool" where
  do_malloc: "\<lbrakk> unat sz \<le> 2 ^ 62; malloc sz h = (p, h') \<rbrakk> \<Longrightarrow> libc_step (h, B) (h', if p = NULL then B else B(p \<mapsto> unat sz))"
| do_calloc: "\<lbrakk> unat nmemb * unat sz \<le> 2 ^ 62; calloc nmemb sz h = (p, h') \<rbrakk>
    \<Longrightarrow> libc_step (h, B) (h', if p = NULL then B else B(p \<mapsto> unat nmemb * unat sz))"
| do_realloc: "\<lbrakk> B p = Some n; sz \<noteq> 0; unat sz \<le> 2 ^ 62; realloc p sz h = (p', h') \<rbrakk>
    \<Longrightarrow> libc_step (h, B) (h', if p' = NULL \<or> p' = p then B else (B(p := None))(p' \<mapsto> unat sz))"
| do_free: "B p \<noteq> None \<Longrightarrow> libc_step (h, B) (free p h, B(p := None))"
| do_write: "\<lbrakk> B p = Some n; i < n \<rbrakk> \<Longrightarrow> libc_step (h, B) (h\<lparr>umem := (umem h)(p + i := v)\<rparr>, B)"

inductive_cases libc_stepE: "libc_step (h, B) t"

definition libc_start :: "libc_heap \<times> (ptr \<rightharpoonup> nat) \<Rightarrow> bool" where
  "libc_start s \<longleftrightarrow> heap_at (fst s) > 0 \<and> heap_used (fst s) = 0 \<and> snd s = Map.empty"

lemma libc_step_ok: "libc_step s t \<Longrightarrow> libc_ok (fst s) (snd s) \<Longrightarrow> libc_ok (fst t) (snd t)"
proof (induction rule: libc_step.induct)
  case (do_malloc sz h p h' B)
  then show ?case using malloc_cases [of h B sz] by fastforce
next
  case (do_calloc nmemb sz h p h' B)
  then show ?case using calloc_cases [of h B nmemb sz] by fastforce
next
  case (do_realloc B p n sz h p' h')
  have ok: "libc_ok h B" using do_realloc by simp
  show ?case
  proof (rule realloc_cases [OF ok do_realloc.hyps(1-3)])
    fix q h1 assume a: "realloc p sz h = (q, h1)" "q \<noteq> NULL" "B q = None" "libc_ok h1 ((B(p := None))(q \<mapsto> unat sz))"
    have "q \<noteq> p" using a(3) do_realloc.hyps(1) by auto
    then show ?thesis using a do_realloc.hyps(4) by (simp add: fun_upd_def)
  qed (use do_realloc in simp_all)
next
  case (do_free B p h)
  then show ?case using free_ok(1) [of h B p] by (simp add: fun_upd_def)
next
  case (do_write B p n i h v)
  then show ?case using mem_ok by simp
qed

lemma libc_start_ok: "libc_start s \<Longrightarrow> libc_ok (fst s) (snd s)"
  by (simp add: libc_start_def libc_ok_def)

interpretation lh: safe_system libc_start libc_step "\<lambda>s. libc_ok (fst s) (snd s)"
  by unfold_locales (rule libc_start_ok, assumption, rule libc_step_ok)

section \<open>Numbers\<close>

lemma in_long_less: "in_long x \<longleftrightarrow> - (2 ^ 63) \<le> x \<and> x < 2 ^ 63"
  by (auto simp: in_long_def LONG_MAX_def)

text \<open>The number that the digits \<open>ds\<close> denote in a base.\<close>

definition digits_value :: "int \<Rightarrow> bytes \<Rightarrow> int" where
  "digits_value base ds = foldl (\<lambda>v c. v * base + the (digit_of c)) 0 ds"

definition digits_in :: "int \<Rightarrow> bytes \<Rightarrow> bool" where
  "digits_in base ds \<longleftrightarrow> list_all (\<lambda>c. case digit_of c of None \<Rightarrow> False | Some d \<Rightarrow> d < base) ds"

lemma digit_of_range: "digit_of c = Some d \<Longrightarrow> 0 \<le> d"
  by (auto simp: digit_of_def word_le_def split: if_splits)

lemma digits_grow:
  assumes "digits_in base ds" and "0 \<le> r" and "0 < base"
  shows "r \<le> foldl (\<lambda>v c. v * base + the (digit_of c)) r ds"
  using assms
proof (induction ds arbitrary: r)
  case (Cons c ds)
  then obtain d where d: "digit_of c = Some d" "digits_in base ds" by (auto simp: digits_in_def split: option.splits)
  have "r \<le> r * base" using mult_left_mono [of 1 base r] Cons.prems(2,3) by simp
  then have "r \<le> r * base + d" using digit_of_range [OF d(1)] by linarith
  also have "\<dots> \<le> foldl (\<lambda>v c. v * base + the (digit_of c)) (r * base + d) ds"
    by (rule Cons.IH [OF d(2) _ Cons.prems(3)]) (use calculation Cons.prems(2) in linarith)
  finally show ?case by (simp add: d(1))
qed simp

text \<open>The rest of the string starts with nothing that continues the number.\<close>

definition number_ends :: "int \<Rightarrow> bytes \<Rightarrow> bool" where
  "number_ends base rest \<longleftrightarrow> (case rest of [] \<Rightarrow> True | c # _ \<Rightarrow> (case digit_of c of None \<Rightarrow> True | Some d \<Rightarrow> d \<ge> base))"

lemma strtol_digits_spec:
  assumes "digits_in base ds" and "0 < base" and "number_ends base rest" and "0 \<le> r"
    and "in_long (foldl (\<lambda>v c. v * base + the (digit_of c)) r ds)"
  shows "strtol_digits base r (ds @ rest) = Some (foldl (\<lambda>v c. v * base + the (digit_of c)) r ds, rest)"
  using assms
proof (induction ds arbitrary: r)
  case Nil
  then show ?case by (cases rest) (auto simp: number_ends_def split: option.splits)
next
  case (Cons c ds)
  then obtain d where d: "digit_of c = Some d" "d < base" "digits_in base ds" by (auto simp: digits_in_def split: option.splits)
  have r0: "0 \<le> r * base + d" using digit_of_range [OF d(1)] Cons.prems(2,4) by simp
  have "r * base + d \<le> foldl (\<lambda>v c. v * base + the (digit_of c)) (r * base + d) ds" by (rule digits_grow [OF d(3) r0 Cons.prems(2)])
  then have "in_long (r * base + d)" using Cons.prems(5) r0 d(1) by (simp add: in_long_def LONG_MAX_def)
  moreover have "strtol_digits base (r * base + d) (ds @ rest) = Some (foldl (\<lambda>v c. v * base + the (digit_of c)) (r * base + d) ds, rest)"
    by (rule Cons.IH [OF d(3) Cons.prems(2,3) r0]) (use Cons.prems(5) d(1) in simp)
  ultimately show ?case using d by simp
qed

lemma digit_not_blank: "digit_of c = Some d \<Longrightarrow> c \<noteq> 32 \<and> c \<noteq> 9 \<and> c \<noteq> 45 \<and> c \<noteq> 43"
  by (auto simp: digit_of_def split: if_splits)

lemma digit_of_x: "digit_of 120 = Some 33" "digit_of 88 = Some 33"
  by (simp_all add: digit_of_def)

text \<open>A sign and the factor it stands for.\<close>

definition sign_value :: "bytes \<Rightarrow> int" where
  "sign_value sg = (if sg = [45] then - 1 else 1)"

lemma strtol_spec:
  assumes ws: "set ws \<subseteq> {32, 9}" and sg: "sg = [] \<or> sg = [45] \<or> sg = [43]" and ds: "ds \<noteq> []" "digits_in base ds" and base: "2 \<le> base"
    and rest: "number_ends base rest" "base = 16 \<Longrightarrow> ds = [48] \<Longrightarrow> at0 rest \<noteq> 120 \<and> at0 rest \<noteq> 88" and v: "in_long (digits_value base ds)"
  shows "strtol (ws @ sg @ ds @ rest) base = Some (digits_value base ds * sign_value sg, rest)"
proof -
  obtain c cs where c: "ds = c # cs" using ds(1) by (cases ds) auto
  then obtain d where d: "digit_of c = Some d" "digits_in base cs" using ds(2) by (auto simp: digits_in_def split: option.splits)
  note nb = digit_not_blank [OF d(1)]
  have dw: "dropWhile (\<lambda>c. c = 32 \<or> c = 9) (ws @ sg @ ds @ rest) = sg @ ds @ rest"
    using ws sg nb c by (induction ws) auto
  have ts: "take_sign (sg @ ds @ rest) = (sign_value sg, ds @ rest)"
    using sg nb c by (auto simp: take_sign_def at0_def sign_value_def)
  have "base_prefix base (ds @ rest) = (base, ds @ rest)"
  proof (cases "base = 16 \<and> c = 48")
    case True
    have "at0 (cs @ rest) \<noteq> 120 \<and> at0 (cs @ rest) \<noteq> 88"
    proof (cases cs)
      case Nil
      then show ?thesis using rest(2) True c by simp
    next
      case (Cons x xs)
      then have "x \<noteq> 120 \<and> x \<noteq> 88" using d(2) True digit_of_x by (auto simp: digits_in_def)
      then show ?thesis using Cons by (simp add: at0_def)
    qed
    then show ?thesis using base c by (simp add: base_prefix_def)
  next
    case False
    then show ?thesis using base c by (auto simp: base_prefix_def at0_def)
  qed
  moreover have "strtol_digits base 0 (ds @ rest) = Some (digits_value base ds, rest)"
    using strtol_digits_spec [OF ds(2) _ rest(1), of 0] base v by (simp add: digits_value_def)
  ultimately show ?thesis by (simp add: strtol_def dw ts)
qed

section \<open>Properties\<close>


definition libc_boot :: libc_heap where
  "libc_boot = \<lparr>heap_at = 4096, heap_used = 0, mhdrs = (\<lambda>_. \<lparr>msize = 0, mused = False\<rparr>), umem = (\<lambda>_. 7)\<rparr>"


text \<open>\<^verbatim>\<open>strtol\<close> in any base from 2: blanks, an optional sign and the digits of the base are read to the end of the number, and
  the result is the number they denote, negated for a minus sign, whenever it is a \<^verbatim>\<open>long\<close>; the rest of the string is what
  follows the digits.\<close>

theorem strtol_correct:
  assumes "set ws \<subseteq> {32, 9}" and "sg = [] \<or> sg = [45] \<or> sg = [43]" and "ds \<noteq> []" and "digits_in base ds" and "2 \<le> base"
    and "number_ends base rest" and "base = 16 \<Longrightarrow> ds = [48] \<Longrightarrow> at0 rest \<noteq> 120 \<and> at0 rest \<noteq> 88" and "in_long (digits_value base ds)"
  shows "strtol (ws @ sg @ ds @ rest) base = Some (digits_value base ds * sign_value sg, rest)"
  using assms by (rule strtol_spec)

theorem strtol_correct_witness: "strtol [32, 45, 49, 102, 46] 16 = Some (- 31, [46])"
  using strtol_correct [of "[32]" "[45]" "[49, 102]" 16 "[46]"]
  by (simp add: digits_in_def digit_of_def number_ends_def digits_value_def sign_value_def in_long_def LONG_MAX_def)

end
