(* ===== verification/Stdio.thy ===== *)
theory Stdio
  imports Stdlib
begin

text \<open>
  Formatted output of the C library, \<^verbatim>\<open>vsnprintf\<close> of \<^verbatim>\<open>libc/src/stdio.c\<close>. Pointers into the output
  buffer are 64-bit words, so that the comparison with the end of the buffer is the one of the code; the variable arguments are a
  list, and no string among them overlaps the buffer. \<^term>\<open>None\<close> stands for undefined behaviour: a missing or mismatched argument, a signed overflow, or reading behind the format.
\<close>

section \<open>Formatted output\<close>

text \<open>The variable arguments; an \<^verbatim>\<open>int\<close> may be read as \<^verbatim>\<open>unsigned\<close> and a \<^verbatim>\<open>long\<close> as \<^verbatim>\<open>unsigned long\<close>.\<close>

datatype varg = A_int u32 | A_long u64 | A_ptr u64 | A_str "bytes option"

text \<open>\<open>out\<close> are the bytes written so far, so \<open>p = str + length out\<close>.\<close>

definition room :: "u64 \<Rightarrow> u64 \<Rightarrow> bytes \<Rightarrow> bool" where
  "room str e out \<longleftrightarrow> str + of_nat (length out) < e"

definition put :: "u64 \<Rightarrow> u64 \<Rightarrow> u8 \<Rightarrow> bytes \<Rightarrow> bytes" where
  "put str e c out = (if room str e out then out @ [c] else out)"

fun put_all :: "u64 \<Rightarrow> u64 \<Rightarrow> bytes \<Rightarrow> bytes \<Rightarrow> bytes" where
  "put_all str e [] out = out"
| "put_all str e (c # cs) out = (if room str e out then put_all str e cs (out @ [c]) else out)"

lemma room_next:
  assumes "room str e out"
  shows "unat (str + of_nat (length (out @ [c]))) = Suc (unat (str + of_nat (length out)))"
proof -
  let ?p = "str + of_nat (length out)"
  have "unat ?p < unat e" using assms by (simp add: room_def word_less_nat_alt)
  then have "unat ?p + unat (1 :: u64) < 2 ^ LENGTH(64)" using unsigned_less [of e, where 'a = nat] by simp
  then have "unat (?p + 1) = Suc (unat ?p)" by (simp add: unat_add_lem [THEN iffD1])
  then show ?thesis by (simp add: ac_simps)
qed

text \<open>\<^verbatim>\<open>while (i < width && p < end) *p++ = c\<close> with a constant \<^verbatim>\<open>i\<close> below \<^verbatim>\<open>width\<close>.\<close>

function pad_loop :: "u64 \<Rightarrow> u64 \<Rightarrow> u8 \<Rightarrow> bytes \<Rightarrow> bytes" where
  "pad_loop str e c out = (if room str e out then pad_loop str e c (out @ [c]) else out)"
  by pat_completeness auto
termination
proof (relation "measure (\<lambda>(str, e, c, out). unat e - unat (str + of_nat (length out)))")
  fix str e :: u64 and c :: u8 and out assume r: "room str e out"
  then have "unat (str + of_nat (length out)) < unat e" by (simp add: room_def word_less_nat_alt)
  then show "((str, e, c, out @ [c]), str, e, c, out) \<in> measure (\<lambda>(str, e, c, out). unat e - unat (str + of_nat (length out)))"
    using room_next [OF r, of c] by simp
qed simp

declare pad_loop.simps [simp del]

text \<open>The padding loop of \<^verbatim>\<open>%d\<close> for a negative number, which counts \<^verbatim>\<open>i\<close> down.\<close>

function pad_neg :: "u64 \<Rightarrow> u64 \<Rightarrow> int \<Rightarrow> int \<Rightarrow> bytes \<Rightarrow> (int \<times> bytes) option" where
  "pad_neg str e width i out =
     (if i < width \<and> room str e out
      then (if i \<le> - (2 ^ 31) then None else pad_neg str e width (i - 1) (out @ [if i - 1 = 0 then 45 else 48]))
      else Some (i, out))"
  by pat_completeness auto
termination
proof (relation "measure (\<lambda>(str, e, width, i, out). unat e - unat (str + of_nat (length out)))")
  fix str e :: u64 and width i :: int and out assume r: "i < width \<and> room str e out"
  then have "unat (str + of_nat (length out)) < unat e" by (simp add: room_def word_less_nat_alt)
  then show "((str, e, width, i - 1, out @ [if i - 1 = 0 then 45 else 48]), str, e, width, i, out)
      \<in> measure (\<lambda>(str, e, width, i, out). unat e - unat (str + of_nat (length out)))"
    using room_next [OF conjunct2 [OF r]] by simp
qed simp

declare pad_neg.simps [simp del]

text \<open>The digits of a number from the last to the first, as they are put into \<^verbatim>\<open>numbuf\<close>.\<close>

definition digit_char :: "bool \<Rightarrow> nat \<Rightarrow> u8" where
  "digit_char upper d = of_nat (if d < 10 then 48 + d else if upper then 65 + (d - 10) else 97 + (d - 10))"

function num_rev :: "nat \<Rightarrow> bool \<Rightarrow> nat \<Rightarrow> bytes" where
  "num_rev base upper n =
     digit_char upper (n mod base) # (if base > 1 \<and> n div base > 0 then num_rev base upper (n div base) else [])"
  by pat_completeness auto
termination
  by (relation "measure (\<lambda>(base, upper, n). n)") (auto simp: div_greater_zero_iff)

declare num_rev.simps [simp del]

text \<open>Flags, width, length modifier and conversion behind a percent sign, and the rest of the format.\<close>

fun parse_width :: "int \<Rightarrow> bytes \<Rightarrow> (int \<times> bytes) option" where
  "parse_width w [] = Some (w, [])"
| "parse_width w (c # f) =
     (if is_digit c then (let w = w * 10 + (uint c - 48) in if w > INT_MAX then None else parse_width w f) else Some (w, c # f))"

definition long_modifier :: "bytes \<Rightarrow> bool \<times> bytes" where
  "long_modifier f =
     (if at0 f = 108 then (True, if at0 (tl f) = 108 then drop 2 f else tl f)
      else if at0 f = 122 then (True, tl f) else (False, f))"

definition parse_spec :: "bytes \<Rightarrow> (bool \<times> int \<times> bool \<times> u8 \<times> bytes) option" where
  "parse_spec f = do {
     let zero_pad = (at0 f = 48);
     (width, f) \<leftarrow> parse_width 0 (dropWhile (\<lambda>c. c = 48) f);
     let (is_long, f) = long_modifier f;
     case f of [] \<Rightarrow> None | c # f \<Rightarrow> Some (zero_pad, width, is_long, c, f)
   }"

text \<open>\<^verbatim>\<open>va_arg\<close> for the two widths.\<close>

fun arg_signed :: "bool \<Rightarrow> varg list \<Rightarrow> (int \<times> varg list) option" where
  "arg_signed True (A_long v # ap) = Some (sint v, ap)"
| "arg_signed False (A_int v # ap) = Some (sint v, ap)"
| "arg_signed _ _ = None"

fun arg_unsigned :: "bool \<Rightarrow> varg list \<Rightarrow> (nat \<times> varg list) option" where
  "arg_unsigned True (A_long v # ap) = Some (unat v, ap)"
| "arg_unsigned False (A_int v # ap) = Some (unat v, ap)"
| "arg_unsigned _ _ = None"

definition print_signed :: "u64 \<Rightarrow> u64 \<Rightarrow> bool \<Rightarrow> int \<Rightarrow> int \<Rightarrow> bytes \<Rightarrow> bytes option" where
  "print_signed str e zero_pad width val out =
     (if val < - LONG_MAX then None
      else do {
        let neg = val < 0;
        let numbuf = num_rev 10 False (nat \<bar>val\<bar>) @ (if neg then [45] else []);
        let i = int (length numbuf);
        (i, out) \<leftarrow> (if zero_pad \<and> neg then pad_neg str e width i out
                      else Some (i, if zero_pad \<and> i < width then pad_loop str e 48 out else out));
        Some (put_all str e (rev (take (nat i) numbuf)) out)
      })"

definition print_unsigned :: "u64 \<Rightarrow> u64 \<Rightarrow> bool \<Rightarrow> int \<Rightarrow> bytes \<Rightarrow> bytes \<Rightarrow> bytes" where
  "print_unsigned str e zero_pad width numbuf out =
     (let out = (if int (length numbuf) < width then pad_loop str e (if zero_pad then 48 else 32) out else out)
      in put_all str e (rev numbuf) out)"

definition hex16 :: "nat \<Rightarrow> bytes" where
  "hex16 v = map (\<lambda>j. digit_char False (v div 16 ^ j mod 16)) [0..<16]"

definition convert :: "u64 \<Rightarrow> u64 \<Rightarrow> bool \<Rightarrow> int \<Rightarrow> bool \<Rightarrow> u8 \<Rightarrow> varg list \<Rightarrow> bytes \<Rightarrow> (varg list \<times> bytes) option" where
  "convert str e zero_pad width is_long c ap out =
     (if c = 100 \<or> c = 105 then do {
        (val, ap) \<leftarrow> arg_signed is_long ap;
        out \<leftarrow> print_signed str e zero_pad width val out;
        Some (ap, out) }
      else if c = 117 then do {
        (val, ap) \<leftarrow> arg_unsigned is_long ap;
        Some (ap, print_unsigned str e zero_pad width (num_rev 10 False val) out) }
      else if c = 120 \<or> c = 88 then do {
        (val, ap) \<leftarrow> arg_unsigned is_long ap;
        Some (ap, print_unsigned str e zero_pad width (num_rev 16 (c = 88) val) out) }
      else if c = 112 then
        (case ap of A_ptr v # ap \<Rightarrow> Some (ap, put_all str e (rev (hex16 (unat v))) (put str e 120 (put str e 48 out))) | _ \<Rightarrow> None)
      else if c = 115 then
        (case ap of A_str s # ap \<Rightarrow> Some (ap, put_all str e (case s of None \<Rightarrow> [40, 110, 117, 108, 108, 41] | Some s \<Rightarrow> s) out) | _ \<Rightarrow> None)
      else if c = 99 then
        (if room str e out then (case ap of A_int v # ap \<Rightarrow> Some (ap, put str e (ucast v) out) | _ \<Rightarrow> None) else Some (ap, out))
      else if c = 37 then Some (ap, put str e 37 out)
      else Some (ap, put str e c (put str e 37 out)))"

lemma parse_width_length: "parse_width w f = Some (w', f') \<Longrightarrow> length f' \<le> length f"
  by (induction w f rule: parse_width.induct) (auto simp: Let_def split: if_splits)

lemma parse_spec_length:
  assumes "parse_spec f = Some (z, w, l, c, f')"
  shows "length f' < length f"
proof -
  obtain w0 g where g0: "parse_width 0 (dropWhile (\<lambda>c. c = 48) f) = Some (w0, g)"
    using assms by (auto simp: parse_spec_def Let_def split: Option.bind_splits)
  obtain l0 h where h: "long_modifier g = (l0, h)" by fastforce
  have g: "parse_width 0 (dropWhile (\<lambda>c. c = 48) f) = Some (w, g)" "snd (long_modifier g) = c # f'"
    using assms g0 h by (auto simp: parse_spec_def Let_def split: list.splits)
  have "length (c # f') \<le> length g" unfolding g(2) [symmetric] by (simp add: long_modifier_def)
  also have "length g \<le> length (dropWhile (\<lambda>c. c = 48) f)" by (rule parse_width_length [OF g(1)])
  also have "\<dots> \<le> length f" by (rule length_dropWhile_le)
  finally show ?thesis by simp
qed

function vsnprintf_loop :: "u64 \<Rightarrow> u64 \<Rightarrow> bytes \<Rightarrow> varg list \<Rightarrow> bytes \<Rightarrow> bytes option" where
  "vsnprintf_loop str e fmt ap out =
     (if fmt = [] \<or> \<not> room str e out then Some out
      else if hd fmt \<noteq> 37 then vsnprintf_loop str e (tl fmt) ap (out @ [hd fmt])
      else
        (case parse_spec (tl fmt) of
           None \<Rightarrow> None
         | Some (zero_pad, width, is_long, c, f) \<Rightarrow>
             (case convert str e zero_pad width is_long c ap out of
                None \<Rightarrow> None
              | Some (ap, out) \<Rightarrow> vsnprintf_loop str e f ap out)))"
  by pat_completeness auto
termination
  by (relation "measure (\<lambda>(str, e, fmt, ap, out). length fmt)") (auto dest!: parse_spec_length simp: less_imp_diff_less)

declare vsnprintf_loop.simps [simp del]

text \<open>The bytes \<open>bs\<close> stored at address \<open>p\<close>.\<close>

definition store_at :: "ptr \<Rightarrow> bytes \<Rightarrow> memory \<Rightarrow> memory" where
  "store_at p bs m = (\<lambda>a. if p \<le> a \<and> a < p + length bs then bs ! (a - p) else m a)"

definition vsnprintf :: "u64 \<Rightarrow> u64 \<Rightarrow> bytes \<Rightarrow> varg list \<Rightarrow> memory \<Rightarrow> (int \<times> memory) option" where
  "vsnprintf str sz fmt ap m = do {
     let e = (if sz > 0 then str + sz - 1 else str);
     out \<leftarrow> vsnprintf_loop str e fmt ap [];
     Some (sint (of_nat (length out) :: u32), store_at (unat str) (if sz > 0 then out @ [0] else out) m)
   }"

definition vsprintf :: "u64 \<Rightarrow> bytes \<Rightarrow> varg list \<Rightarrow> memory \<Rightarrow> (int \<times> memory) option" where
  "vsprintf str fmt ap m = vsnprintf str (- 1) fmt ap m"

definition snprintf :: "u64 \<Rightarrow> u64 \<Rightarrow> bytes \<Rightarrow> varg list \<Rightarrow> memory \<Rightarrow> (int \<times> memory) option" where
  "snprintf str sz fmt ap m = vsnprintf str sz fmt ap m"

definition sprintf :: "u64 \<Rightarrow> bytes \<Rightarrow> varg list \<Rightarrow> memory \<Rightarrow> (int \<times> memory) option" where
  "sprintf str fmt ap m = vsprintf str fmt ap m"

section \<open>The output buffer\<close>

text \<open>\<open>N\<close> bytes of text fit in front of the end of the buffer.\<close>

definition buffer :: "u64 \<Rightarrow> u64 \<Rightarrow> nat \<Rightarrow> bool" where
  "buffer str e N \<longleftrightarrow> unat str + N < 2 ^ 64 \<and> e = str + of_nat N"

lemma buffer_unat:
  assumes "buffer str e N" and "k \<le> N"
  shows "unat (str + of_nat k) = unat str + k"
proof -
  have k: "k < 2 ^ 64" "unat str + k < 2 ^ 64" using assms by (simp_all add: buffer_def)
  then have u: "unat (of_nat k :: u64) = k" by (simp add: unat_of_nat take_bit_nat_eq_self)
  then have "unat str + unat (of_nat k :: u64) < 2 ^ LENGTH(64)" using k by simp
  then show ?thesis by (simp add: unat_add_lem [THEN iffD1] u)
qed

lemma room_iff:
  assumes "buffer str e N" and "length out \<le> N"
  shows "room str e out \<longleftrightarrow> length out < N"
  using buffer_unat [OF assms] buffer_unat [OF assms(1) order_refl] assms(1) by (simp add: room_def word_less_nat_alt buffer_def)

lemma put_take:
  assumes "buffer str e N" and "length out \<le> N"
  shows "put str e c out = take N (out @ [c])"
  using assms by (auto simp: put_def room_iff take_Cons' )

lemma put_all_take:
  assumes "buffer str e N" and "length out \<le> N"
  shows "put_all str e cs out = take N (out @ cs)"
  using assms(2)
proof (induction cs arbitrary: out)
  case (Cons c cs)
  then show ?case using Cons.IH [of "out @ [c]"] by (simp add: room_iff [OF assms(1)])
qed simp

lemma pad_loop_take:
  assumes "buffer str e N" and "length out \<le> N"
  shows "pad_loop str e c out = out @ replicate (N - length out) c"
  using assms(2)
proof (induction "N - length out" arbitrary: out)
  case 0
  then show ?case by (subst pad_loop.simps) (simp add: room_iff [OF assms(1)])
next
  case (Suc k)
  then have r: "room str e out" by (simp add: room_iff [OF assms(1)])
  have "pad_loop str e c (out @ [c]) = (out @ [c]) @ replicate (N - length (out @ [c])) c" using Suc by simp
  moreover have "N - length out = Suc (N - length (out @ [c]))" using Suc by simp
  ultimately show ?case by (subst pad_loop.simps) (simp add: r)
qed

lemma pad_neg_length:
  assumes "buffer str e N" and "length out \<le> N" and "pad_neg str e width i out = Some (j, out')"
  shows "length out' \<le> N \<and> j \<le> i"
  using assms(2,3)
proof (induction "N - length out" arbitrary: out i)
  case 0
  then have "\<not> room str e out" by (simp add: room_iff [OF assms(1)])
  then have "pad_neg str e width i out = Some (i, out)" by (subst pad_neg.simps) simp
  then show ?case using 0 by simp
next
  case (Suc k)
  show ?case
  proof (cases "i < width \<and> room str e out")
    case True
    then have "pad_neg str e width (i - 1) (out @ [if i - 1 = 0 then 45 else 48]) = Some (j, out')"
      using Suc.prems(2) by (subst (asm) pad_neg.simps) (simp split: if_splits)
    from Suc.hyps(1) [OF _ _ this] Suc.hyps(2) Suc.prems(1) show ?thesis by force
  next
    case False
    then have "pad_neg str e width i out = Some (i, out)" by (subst pad_neg.simps) auto
    then show ?thesis using Suc.prems by simp
  qed
qed

text \<open>Whatever is printed stays in the buffer.\<close>

lemma convert_length:
  assumes b: "buffer str e N" and l: "length out \<le> N" and c: "convert str e z w il c ap out = Some (ap', out')"
  shows "length out' \<le> N"
proof -
  note fits = put_take [OF b] put_all_take [OF b] pad_loop_take [OF b]
  have ps: "length o2 \<le> N" if "print_signed str e z w val out = Some o2" for val o2
    using that l
    by (auto simp: print_signed_def Let_def fits simp del: take_append rev_append split: if_splits Option.bind_splits
        dest!: pad_neg_length [OF b l])
  have pu: "length (print_unsigned str e z w nb out) \<le> N" for nb
    using l by (auto simp: print_unsigned_def Let_def fits simp del: take_append)
  show ?thesis
    using c l pu by (auto simp: convert_def fits simp del: take_append dest!: ps split: if_splits Option.bind_splits list.splits varg.splits)
qed

lemma vsnprintf_loop_length:
  assumes b: "buffer str e N" and l: "length out \<le> N" and r: "vsnprintf_loop str e fmt ap out = Some out'"
  shows "length out' \<le> N"
  using l r
proof (induction fmt arbitrary: ap out rule: length_induct)
  case (1 fmt)
  show ?case
  proof (cases "fmt = [] \<or> \<not> room str e out")
    case True
    then show ?thesis using "1.prems" by (subst (asm) vsnprintf_loop.simps) auto
  next
    case False
    then have f: "fmt \<noteq> []" "room str e out" by auto
    show ?thesis
    proof (cases "hd fmt = 37")
      case True
      then obtain z w il c f2 ap2 out2 where s: "parse_spec (tl fmt) = Some (z, w, il, c, f2)"
          "convert str e z w il c ap out = Some (ap2, out2)" "vsnprintf_loop str e f2 ap2 out2 = Some out'"
        using "1.prems"(2) f by (subst (asm) vsnprintf_loop.simps) (auto split: option.splits)
      have "length f2 < length fmt" using parse_spec_length [OF s(1)] by simp
      then show ?thesis using "1.IH" convert_length [OF b "1.prems"(1) s(2)] s(3) by blast
    next
      case False
      then have "vsnprintf_loop str e (tl fmt) ap (out @ [hd fmt]) = Some out'"
        using "1.prems"(2) f by (subst (asm) vsnprintf_loop.simps) auto
      moreover have "length (out @ [hd fmt]) \<le> N" using f(2) "1.prems"(1) by (simp add: room_iff [OF b])
      moreover have "length (tl fmt) < length fmt" using f(1) by simp
      ultimately show ?thesis using "1.IH" by blast
    qed
  qed
qed


section \<open>The text of a format\<close>

text \<open>What the C standard prints for the conversions of this library. A number shorter than its width has no text here: its padding is
  not what the code prints.\<close>

definition signed_text :: "int \<Rightarrow> bytes" where
  "signed_text v = (if v < 0 then [45] else []) @ rev (num_rev 10 False (nat \<bar>v\<bar>))"

definition wide :: "int \<Rightarrow> bytes \<Rightarrow> bytes option" where
  "wide width t = (if int (length t) < width then None else Some t)"

definition convert_text :: "int \<Rightarrow> bool \<Rightarrow> u8 \<Rightarrow> varg list \<Rightarrow> (varg list \<times> bytes) option" where
  "convert_text width is_long c ap =
     (if c = 100 \<or> c = 105 then do {
        (v, ap) \<leftarrow> arg_signed is_long ap;
        if v < - LONG_MAX then None else map_option (Pair ap) (wide width (signed_text v)) }
      else if c = 117 then do {
        (v, ap) \<leftarrow> arg_unsigned is_long ap;
        map_option (Pair ap) (wide width (rev (num_rev 10 False v))) }
      else if c = 120 \<or> c = 88 then do {
        (v, ap) \<leftarrow> arg_unsigned is_long ap;
        map_option (Pair ap) (wide width (rev (num_rev 16 (c = 88) v))) }
      else if c = 112 then (case ap of A_ptr v # ap \<Rightarrow> Some (ap, [48, 120] @ rev (hex16 (unat v))) | _ \<Rightarrow> None)
      else if c = 115 then (case ap of A_str (Some s) # ap \<Rightarrow> Some (ap, s) | A_str None # ap \<Rightarrow> Some (ap, [40, 110, 117, 108, 108, 41]) | _ \<Rightarrow> None)
      else if c = 99 then (case ap of A_int v # ap \<Rightarrow> Some (ap, [ucast v]) | _ \<Rightarrow> None)
      else if c = 37 then Some (ap, [37])
      else Some (ap, [37, c]))"

function format_text :: "bytes \<Rightarrow> varg list \<Rightarrow> bytes option" where
  "format_text fmt ap =
     (case fmt of
        [] \<Rightarrow> Some []
      | f # fs \<Rightarrow>
          if f \<noteq> 37 then map_option (Cons f) (format_text fs ap)
          else (case parse_spec fs of
                  None \<Rightarrow> None
                | Some (_, width, is_long, c, fs) \<Rightarrow>
                    (case convert_text width is_long c ap of
                       None \<Rightarrow> None
                     | Some (ap, t) \<Rightarrow> map_option ((@) t) (format_text fs ap))))"
  by pat_completeness auto
termination
  by (relation "measure (\<lambda>(fmt, ap). length fmt)") (auto dest!: parse_spec_length)

declare format_text.simps [simp del]

lemma take_extend [simp]: "take N (take N xs @ ys) = take N (xs @ ys)"
  by (cases "length xs \<le> N") auto

lemma print_signed_text:
  assumes b: "buffer str e N" and l: "length out \<le> N" and v: "\<not> v < - LONG_MAX" and w: "wide width (signed_text v) = Some t"
  shows "print_signed str e z width v out = Some (take N (out @ t))"
proof -
  let ?nb = "num_rev 10 False (nat \<bar>v\<bar>) @ (if v < 0 then [45] else [])"
  have t: "t = rev ?nb" "width \<le> int (length ?nb)" using w by (auto simp: wide_def signed_text_def split: if_splits)
  have "pad_neg str e width (int (length ?nb)) out = Some (int (length ?nb), out)"
    using t(2) by (subst pad_neg.simps) simp
  then show ?thesis
    unfolding print_signed_def Let_def using v t put_all_take [OF b l]
    by (cases z; cases "v < 0") (simp_all add: t(1) del: take_append rev_append)
qed

lemma print_unsigned_text:
  assumes b: "buffer str e N" and l: "length out \<le> N" and w: "wide width (rev nb) = Some t"
  shows "print_unsigned str e z width nb out = take N (out @ t)"
  using w put_all_take [OF b l] by (simp add: print_unsigned_def Let_def wide_def split: if_splits)

lemma convert_text_ok:
  assumes b: "buffer str e N" and l: "length out < N" and t: "convert_text width il c ap = Some (ap', t)"
  shows "convert str e z width il c ap out = Some (ap', take N (out @ t))"
proof -
  have l': "length out \<le> N" using l by simp
  have r: "room str e out" using l by (simp add: room_iff [OF b l'])
  note fits = put_take [OF b l'] put_all_take [OF b l'] print_unsigned_text [OF b l'] print_signed_text [OF b l']
  have p2: "put str e y (take N (out @ [x])) = take N (out @ [x, y])" for x y
    using put_take [OF b, of "take N (out @ [x])" y] by (simp del: take_append)
  have p3: "put_all str e cs (take N (out @ [x, y])) = take N (out @ x # y # cs)" for x y cs
    using put_all_take [OF b, of "take N (out @ [x, y])" cs] by (simp del: take_append)
  show ?thesis
    using t r unfolding convert_text_def convert_def
    by (auto simp: fits p2 p3 simp del: take_append split: if_splits Option.bind_splits list.splits varg.splits option.splits)
qed

lemma vsnprintf_loop_text:
  assumes b: "buffer str e N" and l: "length out \<le> N" and t: "format_text fmt ap = Some t"
  shows "vsnprintf_loop str e fmt ap out = Some (take N (out @ t))"
  using l t
proof (induction fmt ap arbitrary: out t rule: format_text.induct)
  case (1 fmt ap)
  show ?case
  proof (cases "length out = N \<or> fmt = []")
    case True
    then have "out = take N (out @ t)" using "1.prems" by (auto simp: format_text.simps [of "[]"])
    then show ?thesis using True "1.prems"(1) by (subst vsnprintf_loop.simps) (auto simp: room_iff [OF b])
  next
    case False
    then obtain f fs where f: "fmt = f # fs" by (cases fmt) auto
    have len: "length out < N" and r: "room str e out" using False "1.prems"(1) by (auto simp: room_iff [OF b])
    show ?thesis
    proof (cases "f = 37")
      case False
      then obtain t' where t': "format_text fs ap = Some t'" "t = f # t'"
        using "1.prems"(2) f by (subst (asm) format_text.simps) auto
      have "vsnprintf_loop str e fs ap (out @ [f]) = Some (take N ((out @ [f]) @ t'))"
        by (rule "1.IH"(1) [OF f False _ t'(1)]) (use len in simp)
      then show ?thesis using f False r t' by (subst vsnprintf_loop.simps) simp
    next
      case True
      then obtain z w il c g ap' t1 t2 where s: "parse_spec fs = Some (z, w, il, c, g)" "convert_text w il c ap = Some (ap', t1)"
          "format_text g ap' = Some t2" "t = t1 @ t2"
        using "1.prems"(2) f by (subst (asm) format_text.simps) (auto split: option.splits)
      have "vsnprintf_loop str e g ap' (take N (out @ t1)) = Some (take N (take N (out @ t1) @ t2))"
        by (rule "1.IH"(2) [OF f _ s(1) refl refl refl refl s(2) refl _ s(3)]) (use True in simp_all)
      then show ?thesis
        using f True r s convert_text_ok [OF b len s(2), of z] by (subst vsnprintf_loop.simps) (simp del: take_append)
    qed
  qed
qed


section \<open>Well-typed calls\<close>

text \<open>The C types of the arguments that a format reads, in order; a format has none when it ends inside a conversion or when a width is not
  an \<^verbatim>\<open>int\<close>.\<close>

datatype vty = T_int | T_long | T_ptr | T_str

fun type_of_arg :: "varg \<Rightarrow> vty" where
  "type_of_arg (A_int _) = T_int"
| "type_of_arg (A_long _) = T_long"
| "type_of_arg (A_ptr _) = T_ptr"
| "type_of_arg (A_str _) = T_str"

definition spec_type :: "bool \<Rightarrow> u8 \<Rightarrow> vty list" where
  "spec_type is_long c =
     (if c \<in> {100, 105, 117, 120, 88} then [if is_long then T_long else T_int]
      else if c = 112 then [T_ptr] else if c = 115 then [T_str] else if c = 99 then [T_int] else [])"

function format_type :: "bytes \<Rightarrow> vty list option" where
  "format_type fmt =
     (case fmt of
        [] \<Rightarrow> Some []
      | f # fs \<Rightarrow>
          if f \<noteq> 37 then format_type fs
          else (case parse_spec fs of
                  None \<Rightarrow> None
                | Some (_, _, is_long, c, fs) \<Rightarrow> map_option ((@) (spec_type is_long c)) (format_type fs)))"
  by pat_completeness auto
termination
  by (relation "measure length") (auto dest!: parse_spec_length)

declare format_type.simps [simp del]

text \<open>The arguments fit the format, and none is the least \<^verbatim>\<open>long\<close>, which cannot be negated.\<close>

definition well_typed :: "bytes \<Rightarrow> varg list \<Rightarrow> bool" where
  "well_typed fmt ap \<longleftrightarrow> format_type fmt = Some (map type_of_arg ap) \<and> A_long (2 ^ 63) \<notin> set ap"

lemma pad_neg_defined:
  assumes b: "buffer str e N" and "length out \<le> N" and "int (N - length out) - i < 2 ^ 31"
  shows "\<exists>j out'. pad_neg str e width i out = Some (j, out')"
  using assms(2,3)
proof (induction "N - length out" arbitrary: out i)
  case 0
  then show ?case by (subst pad_neg.simps) (simp add: room_iff [OF b])
next
  case (Suc k)
  show ?case
  proof (cases "i < width \<and> room str e out")
    case True
    have "\<not> i \<le> - (2 ^ 31)" using Suc.prems(2) Suc.hyps(2) by simp
    moreover have "\<exists>j out'. pad_neg str e width (i - 1) (out @ [if i - 1 = 0 then 45 else 48]) = Some (j, out')"
      by (rule Suc.hyps(1)) (use Suc.hyps(2) Suc.prems in auto)
    ultimately show ?thesis using True by (subst pad_neg.simps) simp
  next
    case False
    then show ?thesis by (subst pad_neg.simps) auto
  qed
qed

lemma print_signed_defined:
  assumes b: "buffer str e N" "N < 2 ^ 31" and l: "length out \<le> N" and v: "\<not> v < - LONG_MAX"
  shows "\<exists>out'. print_signed str e z width v out = Some out'"
proof -
  obtain j o2 where "pad_neg str e width (int (length (num_rev 10 False (nat \<bar>v\<bar>) @ (if v < 0 then [45] else [])))) out = Some (j, o2)"
    using pad_neg_defined [OF b(1) l] b(2) by fastforce
  then show ?thesis using v unfolding print_signed_def Let_def by (cases z; cases "v < 0") simp_all
qed

lemma sint_least: "sint (v :: u64) < - LONG_MAX \<Longrightarrow> v = 2 ^ 63"
proof -
  assume "sint v < - LONG_MAX"
  moreover have "- (2 ^ 63) \<le> sint v" using sint_greater_eq [of v] by simp
  ultimately have "sint v = - (2 ^ 63)" by (simp add: LONG_MAX_def)
  then have "word_of_int (sint v) = (word_of_int (- (2 ^ 63)) :: u64)" by simp
  then show "v = 2 ^ 63" by (simp add: word_eq_iff_unsigned)
qed

lemma sint_int_range: "\<not> sint (v :: u32) < - LONG_MAX"
  using sint_greater_eq [of v] by (simp add: LONG_MAX_def)

lemma convert_defined:
  assumes b: "buffer str e N" "N < 2 ^ 31" and l: "length out \<le> N"
    and ty: "map type_of_arg ap = spec_type il c @ ts" and nl: "A_long (2 ^ 63) \<notin> set ap" and r: "room str e out"
  shows "\<exists>ap' out'. convert str e z w il c ap out = Some (ap', out') \<and> map type_of_arg ap' = ts \<and> set ap' \<subseteq> set ap"
proof -
  consider (d) "c = 100 \<or> c = 105" | (u) "c = 117 \<or> c = 120 \<or> c = 88" | (p) "c = 112" | (s) "c = 115" | (c) "c = 99"
    | (other) "c \<notin> {100, 105, 117, 120, 88, 112, 115, 99}" by auto
  then show ?thesis
  proof cases
    case d
    then obtain a ap' where a: "ap = a # ap'" "type_of_arg a = (if il then T_long else T_int)" "map type_of_arg ap' = ts"
      using ty by (cases ap) (auto simp: spec_type_def)
    then obtain v where v: "arg_signed il ap = Some (v, ap')" "\<not> v < - LONG_MAX"
      using nl sint_least sint_int_range by (cases a; cases il) fastforce+
    obtain o2 where "print_signed str e z w v out = Some o2" using print_signed_defined [OF b l v(2)] by blast
    then show ?thesis using d v a by (auto simp: convert_def)
  next
    case u
    then obtain a ap' where a: "ap = a # ap'" "type_of_arg a = (if il then T_long else T_int)" "map type_of_arg ap' = ts"
      using ty by (cases ap) (auto simp: spec_type_def)
    then obtain v where "arg_unsigned il ap = Some (v, ap')" by (cases a; cases il) auto
    then show ?thesis using u a by (auto simp: convert_def)
  next
    case p
    then obtain v ap' where "ap = A_ptr v # ap'" "map type_of_arg ap' = ts"
      using ty by (cases ap rule: list.exhaust; cases "hd ap") (auto simp: spec_type_def)
    then show ?thesis using p by (auto simp: convert_def)
  next
    case s
    then obtain v ap' where "ap = A_str v # ap'" "map type_of_arg ap' = ts"
      using ty by (cases ap rule: list.exhaust; cases "hd ap") (auto simp: spec_type_def)
    then show ?thesis using s by (auto simp: convert_def)
  next
    case c
    then obtain v ap' where "ap = A_int v # ap'" "map type_of_arg ap' = ts"
      using ty by (cases ap rule: list.exhaust; cases "hd ap") (auto simp: spec_type_def)
    then show ?thesis using c r by (auto simp: convert_def)
  next
    case other
    then show ?thesis using ty by (auto simp: convert_def spec_type_def)
  qed
qed

lemma vsnprintf_loop_defined:
  assumes b: "buffer str e N" "N < 2 ^ 31" and l: "length out \<le> N" and w: "well_typed fmt ap"
  shows "\<exists>out'. vsnprintf_loop str e fmt ap out = Some out'"
  using l w
proof (induction fmt arbitrary: ap out rule: format_type.induct)
  case (1 fmt)
  show ?case
  proof (cases "fmt = [] \<or> \<not> room str e out")
    case True
    then show ?thesis by (subst vsnprintf_loop.simps) auto
  next
    case False
    then obtain f fs where f: "fmt = f # fs" and r: "room str e out" by (cases fmt) auto
    show ?thesis
    proof (cases "f = 37")
      case False
      have "well_typed fs ap" using "1.prems"(2) f False by (auto simp: well_typed_def format_type.simps [of "f # fs"])
      moreover have "length (out @ [f]) \<le> N" using r "1.prems"(1) by (simp add: room_iff [OF b(1)])
      ultimately show ?thesis using "1.IH"(1) [OF f False] f False r by (subst vsnprintf_loop.simps) simp
    next
      case True
      then obtain z wd il c g ts where s: "parse_spec fs = Some (z, wd, il, c, g)" "format_type g = Some ts"
          "map type_of_arg ap = spec_type il c @ ts"
        using "1.prems"(2) f by (auto simp: well_typed_def format_type.simps [of "37 # fs"] split: option.splits)
      have nl: "A_long (2 ^ 63) \<notin> set ap" using "1.prems"(2) by (simp add: well_typed_def)
      obtain ap' out' where c: "convert str e z wd il c ap out = Some (ap', out')" "map type_of_arg ap' = ts" "set ap' \<subseteq> set ap"
        using convert_defined [OF b "1.prems"(1) s(3) nl r] by blast
      have "well_typed g ap'" using s(2) c(2,3) nl by (auto simp: well_typed_def)
      then have "\<exists>o3. vsnprintf_loop str e g ap' out' = Some o3"
        using "1.IH"(2) [OF f _ s(1) refl refl refl refl] True convert_length [OF b(1) "1.prems"(1) c(1)] by blast
      then show ?thesis using f True r s(1) c(1) by (subst vsnprintf_loop.simps) simp
    qed
  qed
qed


section \<open>Digits\<close>

lemma digit_of_char: "d < 16 \<Longrightarrow> digit_of (digit_char u d) = Some (int d)"
proof -
  have all: "\<forall>d \<in> set [0..<16]. digit_of (digit_char u d) = Some (int d)"
    by (cases u) (simp_all add: digit_char_def digit_of_def upt_rec)
  assume "d < 16"
  then show ?thesis using all by simp
qed

lemma num_rev_digits:
  assumes "2 \<le> base" and "base \<le> 16"
  shows "digits_in (int base) (rev (num_rev base u n)) \<and> digits_value (int base) (rev (num_rev base u n)) = int n
    \<and> num_rev base u n \<noteq> []"
proof (induction n rule: less_induct)
  case (less n)
  have d: "digit_of (digit_char u (n mod base)) = Some (int (n mod base))"
    by (rule digit_of_char) (use assms in \<open>auto intro: less_le_trans [OF mod_less_divisor]\<close>)
  show ?case
  proof (cases "n div base > 0")
    case True
    then have "n div base < n" using assms by (simp add: div_greater_zero_iff)
    from less.IH [OF this] show ?thesis
      using True d assms by (subst (1 2 3) num_rev.simps) (simp add: digits_in_def digits_value_def zdiv_int zmod_int)
  next
    case False
    then have "n mod base = n" "n < base" using assms by (auto simp: div_eq_0_iff)
    then show ?thesis using False d assms by (subst (1 2 3) num_rev.simps) (simp add: digits_in_def digits_value_def)
  qed
qed

lemma strtol_signed_text:
  assumes "- LONG_MAX \<le> v" and "v \<le> LONG_MAX"
  shows "strtol (signed_text v) 10 = Some (v, [])"
proof -
  let ?ds = "rev (num_rev 10 False (nat \<bar>v\<bar>))"
  have d: "digits_in 10 ?ds" "digits_value 10 ?ds = \<bar>v\<bar>" "?ds \<noteq> []" using num_rev_digits [of 10 False "nat \<bar>v\<bar>"] by simp_all
  define sg :: bytes where "sg = (if v < 0 then [45] else [])"
  have "strtol ([] @ sg @ ?ds @ []) 10 = Some (digits_value 10 ?ds * sign_value sg, [])"
    by (rule strtol_spec) (use d assms in \<open>auto simp: sg_def number_ends_def in_long_def\<close>)
  then show ?thesis using d by (simp add: signed_text_def sg_def sign_value_def split: if_splits)
qed

lemma digit_not_0: "digits_in base ds \<Longrightarrow> 0 \<notin> set ds"
  by (auto simp: digits_in_def list_all_iff digit_of_def)

text \<open>The digits of a 64-bit number with its sign fit the 32 bytes of \<^verbatim>\<open>numbuf\<close>.\<close>

lemma num_rev_length: "2 \<le> base \<Longrightarrow> n < base ^ k \<Longrightarrow> 0 < k \<Longrightarrow> length (num_rev base u n) \<le> k"
proof (induction k arbitrary: n)
  case (Suc k)
  show ?case
  proof (cases "n div base > 0")
    case True
    have "n div base < base ^ k" using Suc.prems by (simp add: less_mult_imp_div_less mult.commute)
    moreover from this True have "0 < k" by (cases k) auto
    ultimately have "length (num_rev base u (n div base)) \<le> k" using Suc.IH Suc.prems(1) by simp
    then show ?thesis using True by (subst num_rev.simps) simp
  next
    case False
    then show ?thesis by (subst num_rev.simps) simp
  qed
qed simp

lemma signed_text_length:
  assumes "- LONG_MAX \<le> v" and "v \<le> LONG_MAX"
  shows "length (signed_text v) \<le> 20"
proof -
  have "nat \<bar>v\<bar> < 10 ^ 19" using assms by (simp add: LONG_MAX_def nat_less_iff)
  then have "length (num_rev 10 False (nat \<bar>v\<bar>)) \<le> 19" by (intro num_rev_length) simp_all
  then show ?thesis by (auto simp: signed_text_def)
qed

lemma store_cstr: "0 \<notin> set t \<Longrightarrow> cstr (store_at p (t @ [0]) m) p t"
  by (auto simp: cstr_def store_at_def nth_append in_set_conv_nth)

lemma vsnprintf_buffer:
  assumes "0 < sz" and "unat str + unat sz \<le> 2 ^ 64"
  shows "buffer str (if sz > 0 then str + sz - 1 else str) (unat sz - 1)"
proof -
  have "of_nat (unat sz - 1) = sz - 1" using assms(1) by (simp add: of_nat_diff unat_gt_0 Suc_le_eq word_gt_0)
  then show ?thesis using assms by (simp add: buffer_def word_less_nat_alt)
qed

lemma vsnprintf_text_spec:
  assumes "0 < sz" and "unat str + unat sz \<le> 2 ^ 64" and "unat sz \<le> 2 ^ 31" and "format_text fmt ap = Some t"
  shows "vsnprintf str sz fmt ap m
    = Some (int (min (length t) (unat sz - 1)), store_at (unat str) (take (unat sz - 1) t @ [0]) m)"
  using vsnprintf_loop_text [OF vsnprintf_buffer [OF assms(1,2)] _ assms(4), of "[]"] assms(1,3)
  by (simp add: vsnprintf_def sint_of_small word_less_nat_alt)


section \<open>Properties\<close>







text \<open>\<^verbatim>\<open>sprintf\<close> passes \<^verbatim>\<open>(size_t)-1\<close>, so the end of the buffer lies two bytes in front of it and nothing is printed.\<close>

lemma sprintf_prints_nothing:
  assumes "2 \<le> unat str"
  shows "sprintf str fmt ap m = Some (0, store_at (unat str) [0] m)"
proof -
  have "unat (2 :: u64) \<le> unat str" using assms by simp
  then have "unat (str - 2) = unat str - 2" by (simp add: unat_sub_if_size word_le_nat_alt)
  then have "\<not> room str (str + - 1 - 1) []" using assms by (simp add: room_def word_less_nat_alt)
  then have "vsnprintf_loop str (str + - 1 - 1) fmt ap [] = Some []" by (subst vsnprintf_loop.simps) simp
  then show ?thesis by (simp add: sprintf_def vsprintf_def vsnprintf_def word_gt_0)
qed

text \<open>A number shorter than its width: the padding loop does not count, so it fills the buffer.\<close>

lemma snprintf_pads_to_the_end:
  "snprintf 4096 8 [37, 48, 51, 117] [A_int 7] m = Some (7, store_at 4096 [48, 48, 48, 48, 48, 48, 48, 0] m)"
proof -
  have b: "buffer 4096 4103 7" by (simp add: buffer_def)
  have n: "num_rev 10 False 7 = [55]" by (simp add: num_rev.simps digit_char_def)
  have "replicate 7 48 = [48, 48, 48, 48, 48, 48, 48 :: u8]" by (simp add: numeral_eq_Suc)
  then have "print_unsigned 4096 4103 True 3 (num_rev 10 False 7) [] = [48, 48, 48, 48, 48, 48, 48]"
    by (simp add: n print_unsigned_def Let_def pad_loop_take [OF b] room_iff [OF b])
  then have "vsnprintf_loop 4096 4103 [37, 48, 51, 117] [A_int 7] [] = Some [48, 48, 48, 48, 48, 48, 48]"
    by (simp add: vsnprintf_loop.simps [of _ _ "[37, 48, 51, 117]"] vsnprintf_loop.simps [of _ _ "[]"] room_iff [OF b] parse_spec_def
        long_modifier_def at0_def convert_def INT_MAX_def)
  then show ?thesis by (simp add: snprintf_def vsnprintf_def)
qed


end
