(* ===== verification/Sandbox.thy ===== *)
theory Sandbox
  imports Kmalloc
begin

text \<open>
  The sandbox for media decoders, \<^verbatim>\<open>kernel/sandbox/sandbox.c\<close>: a context with a stack, a result buffer and a save area on
  the kernel heap, and the execution of a function that may fault. Contexts belong to the callers and are found by
  their address. The lock protects single assignments and is left out. The save area is entered and left by inline
  assembly; where control arrives after a jump is a parameter of \<open>sandbox_execute\<close>, and the instructions of the x86-64
  version, which fix it, are modelled at the end.
\<close>

section \<open>State\<close>

record sandbox_ctx =
  stack :: ptr
  stack_size :: u64
  result_buffer :: ptr
  result_size :: u64
  faulted :: bool
  fault_addr :: u64
  fault_type :: u64
  recovery_state :: ptr

definition SANDBOX_FAULT_NONE :: u64 where "SANDBOX_FAULT_NONE = 0"
definition SANDBOX_FAULT_ACCESS :: u64 where "SANDBOX_FAULT_ACCESS = 1"

record sandbox_sys =
  box_heap :: kheap
  ctxs :: "ptr \<Rightarrow> sandbox_ctx"
  current_sandbox :: ptr

text \<open>The size of \<^verbatim>\<open>sandbox_jmpbuf_t\<close> under each conditional.\<close>

datatype box_arch = BOX_ARM64 | BOX_X86_64 | BOX_OTHER

fun JMPBUF_SIZE :: "box_arch \<Rightarrow> u64" where
  "JMPBUF_SIZE BOX_ARM64 = 13 * 8"
| "JMPBUF_SIZE BOX_X86_64 = 8 * 8"
| "JMPBUF_SIZE BOX_OTHER = 16 * 8"

definition ctx_zero :: sandbox_ctx where
  "ctx_zero = \<lparr>stack = NULL, stack_size = 0, result_buffer = NULL, result_size = 0, faulted = False, fault_addr = 0,
     fault_type = SANDBOX_FAULT_NONE, recovery_state = NULL\<rparr>"

definition put_ctx :: "ptr \<Rightarrow> sandbox_ctx \<Rightarrow> kheap \<Rightarrow> sandbox_sys \<Rightarrow> sandbox_sys" where
  "put_ctx ctx c h s = s\<lparr>box_heap := h, ctxs := (ctxs s)(ctx := c)\<rparr>"

section \<open>Set-up and teardown\<close>

definition sandbox_init :: "box_arch \<Rightarrow> ptr \<Rightarrow> u64 \<Rightarrow> u64 \<Rightarrow> sandbox_sys \<Rightarrow> (int \<times> sandbox_sys) option" where
  "sandbox_init ar ctx stk res s =
     (if ctx = NULL then Some (- 1, s)
      else do {
        let c = ctx_zero\<lparr>stack_size := (if stk > 0 then stk else 64 * 1024)\<rparr>;
        (p, h) \<leftarrow> kmalloc (stack_size c) 0 (box_heap s);
        let c = c\<lparr>stack := p\<rparr>;
        if p = NULL then Some (- 1, put_ctx ctx c h s)
        else do {
          (q, h) \<leftarrow> (if res > 0 then kmalloc res 0 h else Some (NULL, h));
          if res > 0 \<and> q = NULL then Some (- 1, put_ctx ctx (c\<lparr>result_buffer := q, stack := NULL\<rparr>) (kfree p h) s)
          else do {
            let c = c\<lparr>result_buffer := q, result_size := (if res > 0 then res else 0)\<rparr>;
            (r, h) \<leftarrow> kmalloc (JMPBUF_SIZE ar) 0 h;
            let c = c\<lparr>recovery_state := r\<rparr>;
            if r = NULL then
              let h = kfree p h; h = (if q \<noteq> NULL then kfree q h else h)
              in Some (- 1, put_ctx ctx c h s)
            else Some (0, put_ctx ctx (c\<lparr>faulted := False, fault_addr := 0, fault_type := SANDBOX_FAULT_NONE\<rparr>) h s) }}})"

definition sandbox_destroy :: "ptr \<Rightarrow> sandbox_sys \<Rightarrow> sandbox_sys" where
  "sandbox_destroy ctx s =
     (if ctx = NULL then s
      else
        let c = ctxs s ctx; h = box_heap s;
            (c, h) = (if stack c \<noteq> NULL then (c\<lparr>stack := NULL\<rparr>, kfree (stack c) h) else (c, h));
            (c, h) = (if result_buffer c \<noteq> NULL then (c\<lparr>result_buffer := NULL\<rparr>, kfree (result_buffer c) h) else (c, h));
            (c, h) = (if recovery_state c \<noteq> NULL then (c\<lparr>recovery_state := NULL\<rparr>, kfree (recovery_state c) h) else (c, h))
        in put_ctx ctx c h s)"

section \<open>Execution\<close>

text \<open>The function runs until it returns or an instruction of it faults; \<open>None\<close>: neither ever happens. The exception
  handler of the kernel then calls \<^verbatim>\<open>sandbox_handle_fault\<close>, which returns (\<open>False\<close>) or ends in \<^verbatim>\<open>sandbox_longjmp\<close> with
  value 1 (\<open>True\<close>).\<close>

datatype box_outcome = Returned int | Fault u64 u64

definition sandbox_handle_fault :: "u64 \<Rightarrow> u64 \<Rightarrow> sandbox_sys \<Rightarrow> bool \<times> sandbox_sys" where
  "sandbox_handle_fault addr ty s =
     (let ctx = current_sandbox s in
      if ctx = NULL \<or> recovery_state (ctxs s ctx) = NULL then (False, s)
      else (True, put_ctx ctx ((ctxs s ctx)\<lparr>faulted := True, fault_addr := addr, fault_type := ty\<rparr>) (box_heap s) s))"

text \<open>From \<^verbatim>\<open>sandbox_setjmp\<close> on. \<open>again\<close> is the value \<^verbatim>\<open>sandbox_setjmp\<close> has after the jump (1 by its comment, none where the
  jump halts the machine); the normal path is entered whenever it is 0. A fault that \<^verbatim>\<open>sandbox_handle_fault\<close> leaves to the
  kernel, or that would jump into the frame of another activation, has no outcome here.\<close>

partial_function (option) sandbox_run ::
  "int option \<Rightarrow> ('a \<Rightarrow> ptr \<Rightarrow> u64 \<Rightarrow> sandbox_sys \<Rightarrow> (box_outcome \<times> sandbox_sys) option) \<Rightarrow> 'a \<Rightarrow> ptr \<Rightarrow> ptr \<Rightarrow> sandbox_sys \<Rightarrow> (int \<times> sandbox_sys) option" where
  "sandbox_run again fn arg ctx prev s =
     do { (res, s) \<leftarrow> fn arg (result_buffer (ctxs s ctx)) (result_size (ctxs s ctx)) s;
          case res of
            Returned r \<Rightarrow> Some (r, s\<lparr>current_sandbox := prev\<rparr>)
          | Fault addr ty \<Rightarrow>
              if current_sandbox s \<noteq> ctx \<or> \<not> fst (sandbox_handle_fault addr ty s) then None
              else (case again of
                      None \<Rightarrow> None
                    | Some v \<Rightarrow>
                        if v = 0 then sandbox_run again fn arg ctx prev (snd (sandbox_handle_fault addr ty s))
                        else Some (- 1, (snd (sandbox_handle_fault addr ty s))\<lparr>current_sandbox := prev\<rparr>)) }"

definition sandbox_enter :: "ptr \<Rightarrow> sandbox_sys \<Rightarrow> sandbox_sys" where
  "sandbox_enter ctx s =
     (put_ctx ctx ((ctxs s ctx)\<lparr>faulted := False, fault_type := SANDBOX_FAULT_NONE\<rparr>) (box_heap s) s)\<lparr>current_sandbox := ctx\<rparr>"

definition sandbox_execute ::
  "int option \<Rightarrow> ptr \<Rightarrow> ('a \<Rightarrow> ptr \<Rightarrow> u64 \<Rightarrow> sandbox_sys \<Rightarrow> (box_outcome \<times> sandbox_sys) option) option \<Rightarrow> 'a \<Rightarrow> sandbox_sys \<Rightarrow> (int \<times> sandbox_sys) option" where
  "sandbox_execute again ctx fn arg s =
     (case fn of
        None \<Rightarrow> Some (- 1, s)
      | Some f \<Rightarrow>
          if ctx = NULL \<or> recovery_state (ctxs s ctx) = NULL then Some (- 1, s)
          else sandbox_run again f arg ctx (current_sandbox s) (sandbox_enter ctx s))"

definition sandbox_is_active :: "sandbox_sys \<Rightarrow> bool" where
  "sandbox_is_active s \<longleftrightarrow> current_sandbox s \<noteq> NULL"

definition sandbox_get_current :: "sandbox_sys \<Rightarrow> ptr" where
  "sandbox_get_current s = current_sandbox s"

section \<open>The save area on x86-64\<close>

text \<open>The inline assembly, with the register \<open>b\<close> that the compiler takes for the buffer. \<open>setjmp_rest\<close> starts at the
  instruction behind \<^verbatim>\<open>leaq (%rip), %rax\<close>, whose address \<open>here\<close> is what that instruction puts into \<^verbatim>\<open>rax\<close>. The result
  operand is \<^verbatim>\<open>eax\<close>.\<close>

datatype reg = RAX | RBX | RCX | RDX | RSI | RDI | RBP | RSP | R8 | R9 | R10 | R11 | R12 | R13 | R14 | R15

record x86 =
  regs :: "reg \<Rightarrow> u64"
  cells :: "u64 \<Rightarrow> u64"

definition st :: "reg \<Rightarrow> u64 \<Rightarrow> reg \<Rightarrow> x86 \<Rightarrow> x86" where
  "st b off r m = m\<lparr>cells := (cells m)(regs m b + off := regs m r)\<rparr>"

definition ld :: "reg \<Rightarrow> u64 \<Rightarrow> reg \<Rightarrow> x86 \<Rightarrow> x86" where
  "ld b off r m = m\<lparr>regs := (regs m)(r := cells m (regs m b + off))\<rparr>"

definition setjmp_save :: "reg \<Rightarrow> u64 \<Rightarrow> x86 \<Rightarrow> x86" where
  "setjmp_save b here m =
     (let m = st b 48 RSP (st b 40 R15 (st b 32 R14 (st b 24 R13 (st b 16 R12 (st b 8 RBP (st b 0 RBX m))))))
      in m\<lparr>regs := (regs m)(RAX := here)\<rparr>)"

definition setjmp_rest :: "reg \<Rightarrow> x86 \<Rightarrow> x86" where
  "setjmp_rest b m = (let m = st b 56 RAX m in m\<lparr>regs := (regs m)(RAX := 0)\<rparr>)"

definition sandbox_setjmp :: "reg \<Rightarrow> u64 \<Rightarrow> x86 \<Rightarrow> u64 \<times> x86" where
  "sandbox_setjmp b here m = (let m = setjmp_rest b (setjmp_save b here m) in (regs m RAX, m))"

text \<open>The jump: the address it goes to and the registers there.\<close>

definition sandbox_longjmp :: "reg \<Rightarrow> 32 word \<Rightarrow> x86 \<Rightarrow> u64 \<times> x86" where
  "sandbox_longjmp b val m =
     (let m = ld b 56 RCX (ld b 48 RSP (ld b 40 R15 (ld b 32 R14 (ld b 24 R13 (ld b 16 R12 (ld b 8 RBP (ld b 0 RBX m)))))));
          m = m\<lparr>regs := (regs m)(RAX := ucast val)\<rparr>
      in (regs m RCX, m))"

section \<open>Lemmas\<close>

lemma put_ctx_simps [simp]:
  "box_heap (put_ctx ctx c h s) = h" "ctxs (put_ctx ctx c h s) = (ctxs s)(ctx := c)"
  "current_sandbox (put_ctx ctx c h s) = current_sandbox s"
  by (simp_all add: put_ctx_def)

lemma JMPBUF_SIZE_pos [simp]: "JMPBUF_SIZE ar \<noteq> 0"
  by (cases ar) simp_all

text \<open>What a successful \<open>sandbox_init\<close> gives its context: three different payloads that were free before.\<close>

definition ctx_owns :: "box_arch \<Rightarrow> u64 \<Rightarrow> u64 \<Rightarrow> sandbox_ctx \<Rightarrow> kheap \<Rightarrow> kheap \<Rightarrow> bool" where
  "ctx_owns ar stk res c h h' \<longleftrightarrow>
     (\<exists>n e k. live h' = (live h)(stack c \<mapsto> n, result_buffer c := e, recovery_state c \<mapsto> k)
        \<and> unat (stack_size c) \<le> n \<and> unat (JMPBUF_SIZE ar) \<le> k
        \<and> (if res > 0 then \<exists>m. e = Some m \<and> unat res \<le> m else e = None))
     \<and> stack c \<noteq> NULL \<and> recovery_state c \<noteq> NULL \<and> (result_buffer c \<noteq> NULL \<longleftrightarrow> res > 0)
     \<and> distinct [stack c, result_buffer c, recovery_state c]
     \<and> live h (stack c) = None \<and> live h (result_buffer c) = None \<and> live h (recovery_state c) = None"

text \<open>Why \<open>sandbox_init\<close> fails: the heap refused one of the three requests, with at most the other two blocks in addition.\<close>

definition ctx_refused :: "box_arch \<Rightarrow> u64 \<Rightarrow> u64 \<Rightarrow> kheap \<Rightarrow> bool" where
  "ctx_refused ar stk res h \<longleftrightarrow> (\<exists>sz \<in> {if stk > 0 then stk else 64 * 1024, res, JMPBUF_SIZE ar}. sz \<noteq> 0
     \<and> (\<exists>h' p n q m. heap_inv h' \<and> live h' = (live h)(p := n, q := m) \<and> live h p = None \<and> live h q = None
           \<and> kmalloc sz 0 h' = Some (NULL, h')))"

lemma ctx_refusedI:
  assumes "sz \<in> {if stk > 0 then stk else 64 * 1024, res, JMPBUF_SIZE ar}" and "sz \<noteq> 0" and "heap_inv h'"
    and "live h' = (live h)(p := n, q := m)" "live h p = None" "live h q = None" and "kmalloc sz 0 h' = Some (NULL, h'')"
  shows "ctx_refused ar stk res h"
  unfolding ctx_refused_def using assms kh.alloc_fails [OF assms(3,7)] by blast

lemma sandbox_destroy_owned:
  assumes "heap_inv h'" and "heap_inv h" and own: "ctx_owns ar stk res c h h'" and "ctx \<noteq> NULL"
    and "box_heap s = h'" "ctxs s ctx = c"
  shows "heap_inv (box_heap (sandbox_destroy ctx s)) \<and> live (box_heap (sandbox_destroy ctx s)) = live h
    \<and> stack (ctxs (sandbox_destroy ctx s) ctx) = NULL \<and> result_buffer (ctxs (sandbox_destroy ctx s) ctx) = NULL
    \<and> recovery_state (ctxs (sandbox_destroy ctx s) ctx) = NULL"
proof -
  note o = own [unfolded ctx_owns_def]
  have z: "stack c \<noteq> NULL" "recovery_state c \<noteq> NULL" using o by auto
  define h1 where "h1 = kfree (stack c) h'"
  define h2 where "h2 = kfree (result_buffer c) h1"
  define h3 where "h3 = kfree (recovery_state c) h2"
  obtain n k e where l: "live h' = (live h)(stack c \<mapsto> n, result_buffer c := e, recovery_state c \<mapsto> k)"
      "e = None \<longleftrightarrow> result_buffer c = NULL"
    using o by (metis option.discI)
  have d: "stack c \<noteq> result_buffer c" "stack c \<noteq> recovery_state c" "result_buffer c \<noteq> recovery_state c" using o by auto
  have 1: "heap_inv h1" "live h1 = (live h')(stack c := None)"
    unfolding h1_def by (rule kh.release_upd; use assms(1) l d in simp)+
  have 2: "heap_inv h2" "live h2 = (live h1)(result_buffer c := None)"
    unfolding h2_def by (rule kh.release_upd; use 1 l d in auto)+
  have 3: "heap_inv h3" "live h3 = (live h2)(recovery_state c := None)"
    unfolding h3_def by (rule kh.release_upd; use 1 2 l d in simp)+
  have "live h3 = live h"
    using o l d by (simp add: 1 2 3 fun_eq_iff)
  moreover have "sandbox_destroy ctx s = put_ctx ctx (c\<lparr>stack := NULL, result_buffer := NULL, recovery_state := NULL\<rparr>) h3 s"
    using z assms(4) by (cases c) (auto simp: sandbox_destroy_def h1_def h2_def h3_def Let_def kh.release_NULL assms(5,6))
  ultimately show ?thesis using 3(1) by simp
qed

text \<open>The result buffer is optional.\<close>

lemma optional_alloc:
  assumes "heap_inv h"
  shows "\<exists>q h' e. (if res > 0 then kmalloc res 0 h else Some (NULL, h)) = Some (q, h') \<and> heap_inv h' \<and> live h' = (live h)(q := e)
    \<and> live h q = None \<and> (e = None \<longleftrightarrow> q = NULL) \<and> (res > 0 \<longrightarrow> (\<forall>m. e = Some m \<longrightarrow> unat res \<le> m)) \<and> (res = 0 \<longrightarrow> q = NULL)"
proof (cases "res > 0")
  case True
  obtain q h' where a: "kmalloc res 0 h = Some (q, h')" using kh.alloc_total [OF assms] by blast
  show ?thesis by (rule kh.alloc_upd [OF assms a]) (use a True in auto)
qed (use assms kh.lv_NULL [OF assms] in \<open>auto simp: fun_upd_idem\<close>)

text \<open>Every path through \<open>sandbox_init\<close>. On the last failure the context keeps the pointers to the released blocks.\<close>

lemma sandbox_init_cases:
  assumes inv: "heap_inv (box_heap s)" and "ctx \<noteq> NULL"
  obtains c h where "sandbox_init ar ctx stk res s = Some (0, put_ctx ctx c h s)" "heap_inv h" "ctx_owns ar stk res c (box_heap s) h"
      "stack_size c = (if stk > 0 then stk else 64 * 1024)" "result_size c = res" "\<not> faulted c"
    | c h where "sandbox_init ar ctx stk res s = Some (- 1, put_ctx ctx c h s)" "heap_inv h" "live h = live (box_heap s)"
      "recovery_state c = NULL" "ctx_refused ar stk res (box_heap s)"
proof -
  define sz where "sz = (if stk > 0 then stk else 64 * 1024 :: u64)"
  define h0 where "h0 = box_heap s"
  have i0: "heap_inv h0" using inv by (simp add: h0_def)
  obtain p h1 where a1: "kmalloc sz 0 h0 = Some (p, h1)" using kh.alloc_total [OF i0] by blast
  obtain n where l1: "heap_inv h1" "live h1 = (live h0)(p := n)" "live h0 p = None" "n = None \<longleftrightarrow> p = NULL" "\<forall>m. n = Some m \<longrightarrow> unat sz \<le> m"
    by (rule kh.alloc_upd [OF i0 a1])
  show thesis
  proof (cases "p = NULL")
    case True
    then have "sandbox_init ar ctx stk res s = Some (- 1, put_ctx ctx (ctx_zero\<lparr>stack_size := sz, stack := p\<rparr>) h1 s)"
      using assms(2) a1 by (simp add: sandbox_init_def Let_def sz_def h0_def)
    moreover have "ctx_refused ar stk res h0"
      by (rule ctx_refusedI [OF _ _ i0, of sz _ _ _ _ NULL None NULL None]) (use a1 True kh.lv_NULL [OF i0] in \<open>auto simp: sz_def fun_upd_idem\<close>)
    ultimately show thesis using that(2) l1 True by (simp add: ctx_zero_def h0_def fun_upd_idem)
  next
    case p: False
    obtain q h2 e where a2: "(if res > 0 then kmalloc res 0 h1 else Some (NULL, h1)) = Some (q, h2)"
        and l2: "heap_inv h2" "live h2 = (live h1)(q := e)" "live h1 q = None" "e = None \<longleftrightarrow> q = NULL"
          "res > 0 \<longrightarrow> (\<forall>m. e = Some m \<longrightarrow> unat res \<le> m)" "res = 0 \<longrightarrow> q = NULL"
      using optional_alloc [OF l1(1), of res] by blast
    define c where "c = ctx_zero\<lparr>stack_size := sz, stack := p\<rparr>"
    have pq: "p \<noteq> q" using l1 l2 p by auto
    have f1: "heap_inv (kfree p h2)" "live (kfree p h2) = (live h2)(p := None)"
      by (rule kh.release_upd [OF l2(1)]; use l1 l2 p pq in auto)+
    show thesis
    proof (cases "res > 0 \<and> q = NULL")
      case True
      then have "sandbox_init ar ctx stk res s = Some (- 1, put_ctx ctx (c\<lparr>result_buffer := q, stack := NULL\<rparr>) (kfree p h2) s)"
        using assms(2) a1 a2 p by (simp add: sandbox_init_def Let_def sz_def h0_def c_def)
      moreover have "live (kfree p h2) = live h0" using f1 l1 l2 True kh.lv_NULL [OF i0] by (auto simp: fun_eq_iff)
      moreover have "ctx_refused ar stk res h0"
        by (rule ctx_refusedI [OF _ _ l1(1), of res _ _ _ _ p n NULL None])
          (use a2 True l1 kh.lv_NULL [OF i0] p in \<open>auto simp: fun_eq_iff split: if_splits\<close>)
      ultimately show thesis using that(2) f1(1) by (simp add: c_def ctx_zero_def h0_def)
    next
      case q: False
      obtain r h3 where a3: "kmalloc (JMPBUF_SIZE ar) 0 h2 = Some (r, h3)" using kh.alloc_total [OF l2(1)] by blast
      obtain k where l3: "heap_inv h3" "live h3 = (live h2)(r := k)" "live h2 r = None" "k = None \<longleftrightarrow> r = NULL"
          "\<forall>m. k = Some m \<longrightarrow> unat (JMPBUF_SIZE ar) \<le> m"
        by (rule kh.alloc_upd [OF l2(1) a3])
      define c' where "c' = c\<lparr>result_buffer := q, result_size := res, recovery_state := r\<rparr>"
      have run: "sandbox_init ar ctx stk res s =
          (if r = NULL then Some (- 1, put_ctx ctx c' (kfree q (kfree p h3)) s) else Some (0, put_ctx ctx c' h3 s))"
        using assms(2) a1 a2 a3 p q kh.release_NULL
        by (auto simp: sandbox_init_def Let_def sz_def h0_def c_def c'_def ctx_zero_def word_gt_0)
      show thesis
      proof (cases "r = NULL")
        case True
        then have h3: "h3 = h2" using kh.alloc_fails a3 l2(1) by blast
        have f2: "heap_inv (kfree q (kfree p h2))" "live (kfree q (kfree p h2)) = (live (kfree p h2))(q := None)"
          by (rule kh.release_upd [OF f1(1)]; use f1 l2 pq in auto)+
        moreover have "live (kfree q (kfree p h2)) = live h0" using f1 f2 l1 l2 pq by (auto simp: fun_eq_iff)
        moreover have "ctx_refused ar stk res h0"
          by (rule ctx_refusedI [OF _ _ l2(1), of "JMPBUF_SIZE ar" _ _ _ _ p n q e]) (use a3 True l1 l2 pq in auto)
        ultimately show thesis
          using that(2) [of c' "kfree q (kfree p h2)"] run True h3 by (simp add: c'_def c_def h0_def)
      next
        case r: False
        have "distinct [p, q, r]" using l1 l2 l3 p r pq by auto
        moreover have "live h0 q = None" "live h0 r = None" using l1 l2 l3 pq calculation by (auto split: if_splits)
        ultimately have "ctx_owns ar stk res c' h0 h3"
          using l1 l2 l3 p q r unfolding ctx_owns_def
          by (intro conjI exI [of _ "the n"] exI [of _ e] exI [of _ "the k"]) (auto simp: c'_def c_def word_gt_0)
        then show thesis using that(1) run r l3(1) by (simp add: c'_def c_def h0_def sz_def ctx_zero_def)
      qed
    qed
  qed
qed

text \<open>A function that returns, and one that faults.\<close>

lemma sandbox_run_Returned:
  assumes "fn arg (result_buffer (ctxs s ctx)) (result_size (ctxs s ctx)) s = Some (Returned r, s')"
  shows "sandbox_run again fn arg ctx prev s = Some (r, s'\<lparr>current_sandbox := prev\<rparr>)"
  by (subst sandbox_run.simps) (simp add: assms)

lemma sandbox_run_Fault:
  assumes "fn arg (result_buffer (ctxs s ctx)) (result_size (ctxs s ctx)) s = Some (Fault addr ty, s')"
    and "current_sandbox s' = ctx" "ctx \<noteq> NULL" "recovery_state (ctxs s' ctx) \<noteq> NULL"
    and "s'' = put_ctx ctx ((ctxs s' ctx)\<lparr>faulted := True, fault_addr := addr, fault_type := ty\<rparr>) (box_heap s') s'"
  shows "sandbox_run again fn arg ctx prev s =
    (case again of None \<Rightarrow> None | Some v \<Rightarrow> if v = 0 then sandbox_run again fn arg ctx prev s'' else Some (- 1, s''\<lparr>current_sandbox := prev\<rparr>))"
  using assms(2-4) by (subst sandbox_run.simps) (simp add: assms(1,5) sandbox_handle_fault_def split: option.split)

text \<open>When \<^verbatim>\<open>sandbox_setjmp\<close> gives 0 again after the jump, a function that always faults runs for ever.\<close>

lemma sandbox_run_diverges:
  assumes "\<And>buf n s. \<exists>a ty s'. fn arg buf n s = Some (Fault a ty, s')"
  shows "sandbox_run (Some 0) fn arg ctx prev s = None"
proof -
  have "again = Some 0 \<and> (\<forall>buf n s. \<exists>a ty s'. fn arg buf n s = Some (Fault a ty, s')) \<longrightarrow> False"
    if "sandbox_run again fn arg ctx prev s = Some y" for again fn s y
    using that
  proof (induction again fn arg ctx prev s y rule: sandbox_run.raw_induct [rotated, consumes 1, case_names step])
    case (step run again fn arg ctx prev s y)
    show ?case
    proof
      assume a: "again = Some 0 \<and> (\<forall>buf n s. \<exists>a ty s'. fn arg buf n s = Some (Fault a ty, s'))"
      then obtain f ty s' where "fn arg (result_buffer (ctxs s ctx)) (result_size (ctxs s ctx)) s = Some (Fault f ty, s')" by metis
      with step(2) a have "run again fn arg ctx prev (snd (sandbox_handle_fault f ty s')) = Some y" by (auto split: if_splits)
      from step(1) [OF this] a show False by blast
    qed
  qed
  then show ?thesis using assms by (metis option.exhaust)
qed

text \<open>The x86-64 assembly: the jump arrives behind the \<^verbatim>\<open>leaq\<close>, where \<^verbatim>\<open>eax\<close> is cleared again, so \<^verbatim>\<open>sandbox_setjmp\<close> gives 0 a
  second time; the first instruction there has by then put the value of the jump into the saved address.\<close>

definition buf_kept :: "u64 \<Rightarrow> x86 \<Rightarrow> x86 \<Rightarrow> bool" where
  "buf_kept buf m m' \<longleftrightarrow> (\<forall>off \<in> {0, 8, 16, 24, 32, 40, 48, 56}. cells m' (buf + off) = cells m (buf + off))"

lemma setjmp_first: "fst (sandbox_setjmp b here m) = 0"
  by (simp add: sandbox_setjmp_def setjmp_rest_def Let_def)

lemma setjmp_saves_here:
  assumes "b \<noteq> RAX"
  shows "cells (snd (sandbox_setjmp b here m)) (regs m b + 56) = here"
  using assms by (simp add: sandbox_setjmp_def setjmp_rest_def setjmp_save_def st_def Let_def)

lemma longjmp_target:
  assumes "b \<notin> {RBX, RBP, R12, R13, R14, R15, RSP}"
  shows "fst (sandbox_longjmp b v m) = cells m (regs m b + 56)" and "regs (snd (sandbox_longjmp b v m)) RAX = ucast v"
  using assms by (simp_all add: sandbox_longjmp_def ld_def Let_def)

lemma setjmp_second: "regs (setjmp_rest b m) RAX = 0"
  by (simp add: setjmp_rest_def Let_def)

lemma setjmp_x86_64_never_one:
  assumes "b \<noteq> RAX" and "b' \<notin> {RBX, RBP, R12, R13, R14, R15, RSP}" and "regs m' b' = regs m b"
    and "buf_kept (regs m b) (snd (sandbox_setjmp b here m)) m'"
  shows "fst (sandbox_longjmp b' 1 m') = here \<and> regs (setjmp_rest b (snd (sandbox_longjmp b' 1 m'))) RAX = 0"
  using assms setjmp_saves_here [OF assms(1)] by (simp add: longjmp_target setjmp_second buf_kept_def)

text \<open>A function that keeps to its sandbox: it ends, and leaves the context, the current sandbox and the blocks of the heap
  as they are (what it allocates it releases; it may write to memory).\<close>

definition stays_inside :: "('a \<Rightarrow> ptr \<Rightarrow> u64 \<Rightarrow> sandbox_sys \<Rightarrow> (box_outcome \<times> sandbox_sys) option) \<Rightarrow> 'a \<Rightarrow> ptr \<Rightarrow> bool" where
  "stays_inside fn arg ctx \<longleftrightarrow> (\<forall>b n t. \<exists>res t'. fn arg b n t = Some (res, t') \<and> ctxs t' ctx = ctxs t ctx
     \<and> current_sandbox t' = current_sandbox t
     \<and> (heap_inv (box_heap t) \<longrightarrow> heap_inv (box_heap t') \<and> live (box_heap t') = live (box_heap t)))"

lemma stays_insideE:
  assumes "stays_inside fn arg ctx"
  obtains res t' where "fn arg b n t = Some (res, t')" "ctxs t' ctx = ctxs t ctx" "current_sandbox t' = current_sandbox t"
    "heap_inv (box_heap t) \<longrightarrow> heap_inv (box_heap t') \<and> live (box_heap t') = live (box_heap t)"
  using assms unfolding stays_inside_def by metis

text \<open>The outcome of a run, when \<^verbatim>\<open>sandbox_setjmp\<close> behaves as its comment says.\<close>

definition outcome_code :: "box_outcome \<Rightarrow> int" where
  "outcome_code res = (case res of Returned r \<Rightarrow> r | Fault _ _ \<Rightarrow> - 1)"

definition fault_recorded :: "box_outcome \<Rightarrow> sandbox_ctx \<Rightarrow> bool" where
  "fault_recorded res c \<longleftrightarrow> (case res of Returned _ \<Rightarrow> \<not> faulted c | Fault a ty \<Rightarrow> faulted c \<and> fault_addr c = a \<and> fault_type c = ty)"

lemma sandbox_execute_spec:
  assumes "ctx \<noteq> NULL" and c: "recovery_state (ctxs s ctx) \<noteq> NULL" and "stays_inside fn arg ctx" and "heap_inv (box_heap s)"
  obtains res t s' where "fn arg (result_buffer (ctxs s ctx)) (result_size (ctxs s ctx)) (sandbox_enter ctx s) = Some (res, t)"
    "sandbox_execute (Some 1) ctx (Some fn) arg s = Some (outcome_code res, s')" "fault_recorded res (ctxs s' ctx)"
    "current_sandbox s' = current_sandbox s" "heap_inv (box_heap s')" "live (box_heap s') = live (box_heap s)"
    "stack (ctxs s' ctx) = stack (ctxs s ctx)" "result_buffer (ctxs s' ctx) = result_buffer (ctxs s ctx)"
    "recovery_state (ctxs s' ctx) = recovery_state (ctxs s ctx)" "stack_size (ctxs s' ctx) = stack_size (ctxs s ctx)"
proof -
  define e where "e = sandbox_enter ctx s"
  obtain res t where f: "fn arg (result_buffer (ctxs s ctx)) (result_size (ctxs s ctx)) e = Some (res, t)"
      and t: "ctxs t ctx = ctxs e ctx" "current_sandbox t = current_sandbox e"
        "heap_inv (box_heap e) \<longrightarrow> heap_inv (box_heap t) \<and> live (box_heap t) = live (box_heap e)"
    using assms(3) by (rule stays_insideE)
  have f': "fn arg (result_buffer (ctxs e ctx)) (result_size (ctxs e ctx)) e = Some (res, t)"
    using f by (simp add: e_def sandbox_enter_def)
  define d where "d = (case res of Returned _ \<Rightarrow> t
    | Fault a ty \<Rightarrow> put_ctx ctx ((ctxs t ctx)\<lparr>faulted := True, fault_addr := a, fault_type := ty\<rparr>) (box_heap t) t)"
  have "sandbox_run (Some 1) fn arg ctx (current_sandbox s) e = Some (outcome_code res, d\<lparr>current_sandbox := current_sandbox s\<rparr>)"
  proof (cases res)
    case (Returned r)
    then show ?thesis using sandbox_run_Returned [of fn arg e ctx r t] f' by (simp add: outcome_code_def d_def)
  next
    case (Fault a ty)
    show ?thesis
      using sandbox_run_Fault [of fn arg e ctx a ty t d] f' t assms(1) c
      by (simp add: Fault outcome_code_def d_def e_def sandbox_enter_def)
  qed
  then have "sandbox_execute (Some 1) ctx (Some fn) arg s = Some (outcome_code res, d\<lparr>current_sandbox := current_sandbox s\<rparr>)"
    using assms(1) c by (simp add: sandbox_execute_def e_def)
  then show thesis
    using that [OF f [unfolded e_def]] t assms(4)
    by (simp add: d_def fault_recorded_def e_def sandbox_enter_def split: box_outcome.splits)
qed

text \<open>When only the save area cannot be had, the context is left with a pointer to the stack that was just released:
  \<open>sandbox_destroy\<close> on it would release the block a second time.\<close>

lemma sandbox_init_dangling:
  assumes inv: "heap_inv (box_heap s)" and "ctx \<noteq> NULL" "stk > 0" and a: "kmalloc stk 0 (box_heap s) = Some (p, h)" "p \<noteq> NULL"
    and b: "kmalloc (JMPBUF_SIZE ar) 0 h = Some (NULL, h')"
  shows "\<exists>s'. sandbox_init ar ctx stk 0 s = Some (- 1, s') \<and> stack (ctxs s' ctx) = p \<and> live (box_heap s') p = None"
proof -
  have h: "heap_inv h" "live h p \<noteq> None" using kh.alloc_inv [OF inv a(1)] kh.alloc_live [OF inv a] by auto
  then have "h' = h" using kh.alloc_fails b by blast
  moreover have "live (kfree p h) p = None" using kh.release_lv [OF h] by simp
  ultimately show ?thesis using assms by (simp add: sandbox_init_def Let_def)
qed

section \<open>Properties\<close>


definition box_boot :: sandbox_sys where
  "box_boot = \<lparr>box_heap = kmalloc_init kheap_boot, ctxs = (\<lambda>_. ctx_zero), current_sandbox = NULL\<rparr>"

text \<open>A decoder that reads through a bad pointer when its argument is odd.\<close>

definition decoder :: "nat \<Rightarrow> ptr \<Rightarrow> u64 \<Rightarrow> sandbox_sys \<Rightarrow> (box_outcome \<times> sandbox_sys) option" where
  "decoder k buf n s = Some (if odd k then Fault 0xDEAD SANDBOX_FAULT_ACCESS else Returned 0, s)"


end
