(* ===== verification/Syscall.thy ===== *)
theory Syscall
  imports Process Vfs_Files Sched Cstring
begin

text \<open>
  System calls, \<^verbatim>\<open>kernel/syscall/syscall.c\<close>: the table of file descriptors over the virtual file system, the user heap, the
  calls that load a program or end a task, and the dispatcher.

  User memory is the memory of the kernel, as in the source: a buffer is an address range. A range that wraps around or
  meets the kernel heap, where the call would read or overwrite the data of the allocator and the file system, has no outcome
  in the model (\<open>None\<close>), like a string without an end or a read from the keyboard that never gets a key.
\<close>

section \<open>State\<close>

abbreviation (input) ENOEXEC :: int where "ENOEXEC \<equiv> 8"

definition MAX_FDS :: nat where "MAX_FDS = 256"
definition NR_syscalls :: nat where "NR_syscalls = 512"
definition KERNEL_START :: u64 where "KERNEL_START = 0x40000000"
definition KERNEL_END :: u64 where "KERNEL_END = 0x50000000"
definition USER_HEAP_START :: u64 where "USER_HEAP_START = 0x10000000"
definition USER_HEAP_SIZE :: u64 where "USER_HEAP_SIZE = 0x04000000"
definition USER_CODE_BASE :: u64 where "USER_CODE_BASE = 0x400000"
definition MAP_ANONYMOUS :: u64 where "MAP_ANONYMOUS = 0x20"
definition PF_USER :: u32 where "PF_USER = 8"

record fd_entry =
  fd_file :: ptr
  fd_flags :: u32
  fd_in_use :: bool

text \<open>The functions that the table of system calls points to.\<close>

datatype sysfn = FN_read | FN_write | FN_openat | FN_close | FN_lseek | FN_exit | FN_exit_group | FN_getpid | FN_getppid | FN_getuid
  | FN_getgid | FN_gettid | FN_brk | FN_mmap | FN_munmap | FN_clone | FN_execve | FN_uname | FN_sched_yield | FN_nanosleep
  | FN_not_implemented

text \<open>\<open>keys\<close> are the results that \<^verbatim>\<open>getc\<close> of the kernel interface is going to have, negative when there is no key;
  \<open>console\<close> is what went to the serial line.\<close>

record ksys =
  kvfs :: vfs
  ksched :: sched
  fd_table :: "nat \<Rightarrow> fd_entry"
  fd_table_initialized :: bool
  user_brk_current :: u64
  user_mmap_current :: u64
  syscall_table :: "nat \<Rightarrow> sysfn option"
  keys :: "int list"
  console :: bytes

abbreviation "kmem s \<equiv> mem (hp (kvfs s))"

definition upd_fd :: "nat \<Rightarrow> (fd_entry \<Rightarrow> fd_entry) \<Rightarrow> ksys \<Rightarrow> ksys" where
  "upd_fd i f s = s\<lparr>fd_table := (fd_table s)(i := f (fd_table s i))\<rparr>"

section \<open>Buffers of the caller\<close>

definition user_range :: "u64 \<Rightarrow> nat \<Rightarrow> ksys \<Rightarrow> bool" where
  "user_range p n s \<longleftrightarrow> n = 0 \<or> unat p + n \<le> 2 ^ 64
     \<and> (unat p + n \<le> heap_start (hp (kvfs s)) \<or> heap_end (hp (kvfs s)) \<le> unat p)"

definition set_kmem :: "memory \<Rightarrow> ksys \<Rightarrow> ksys" where
  "set_kmem m s = s\<lparr>kvfs := set_heap ((hp (kvfs s))\<lparr>mem := m\<rparr>) (kvfs s)\<rparr>"

definition put_user :: "u64 \<Rightarrow> bytes \<Rightarrow> ksys \<Rightarrow> ksys option" where
  "put_user p bs s = (if user_range p (length bs) s then Some (set_kmem (poke_bytes (unat p) bs (kmem s)) s) else None)"

definition get_user :: "u64 \<Rightarrow> nat \<Rightarrow> ksys \<Rightarrow> bytes option" where
  "get_user p n s = (if user_range p n s then Some (read_bytes (kmem s) (unat p) n) else None)"

text \<open>A string argument: the null pointer or the characters before the NUL.\<close>

definition user_string :: "u64 \<Rightarrow> ksys \<Rightarrow> bytes option option" where
  "user_string p s =
     (if p = 0 then Some None
      else do { e \<leftarrow> str_end (unat p) (kmem s);
                if user_range p (e + 1 - unat p) s then Some (Some (read_bytes (kmem s) (unat p) (e - unat p))) else None })"

section \<open>File descriptors\<close>

definition init_fd_table :: "ksys \<Rightarrow> ksys" where
  "init_fd_table s =
     (if fd_table_initialized s then s
      else s\<lparr>fd_table := (\<lambda>i. if i < MAX_FDS then \<lparr>fd_file = NULL, fd_flags = 0, fd_in_use = i < 3\<rparr> else fd_table s i),
             fd_table_initialized := True\<rparr>)"

definition alloc_fd :: "ksys \<Rightarrow> int \<times> ksys" where
  "alloc_fd s =
     (let s = init_fd_table s in
      case find (\<lambda>i. \<not> fd_in_use (fd_table s i)) [3..<MAX_FDS] of
        None \<Rightarrow> (- 1, s)
      | Some i \<Rightarrow> (int i, upd_fd i (fd_in_use_update (\<lambda>_. True)) s))"

definition free_fd :: "int \<Rightarrow> ksys \<Rightarrow> ksys" where
  "free_fd fd s = (if fd \<ge> 0 \<and> fd < int MAX_FDS then upd_fd (nat fd) (\<lambda>_. \<lparr>fd_file = NULL, fd_flags = 0, fd_in_use = False\<rparr>) s else s)"

definition get_file :: "int \<Rightarrow> ksys \<Rightarrow> ptr" where
  "get_file fd s = (if fd < 0 \<or> fd \<ge> int MAX_FDS \<or> \<not> fd_in_use (fd_table s (nat fd)) then NULL else fd_file (fd_table s (nat fd)))"

text \<open>\<^verbatim>\<open>(int)fd\<close>\<close>

definition as_int :: "u64 \<Rightarrow> int" where
  "as_int x = sint (ucast x :: u32)"

section \<open>Pointer validation\<close>

definition is_valid_user_ptr :: "u64 \<Rightarrow> u64 \<Rightarrow> bool" where
  "is_valid_user_ptr p len =
     (if p = 0 then False
      else if len > 0 \<and> p > - 1 - len then False
      else let e = p + len in
        if p \<ge> 0x10000000 \<and> e \<le> 0x14000000 then True
        else if p \<ge> 0x44000000 \<and> e < 0x50000000 then True
        else if p \<ge> KERNEL_START \<and> p < KERNEL_END then False
        else True)"

section \<open>Files\<close>

text \<open>Standard input: keys up to a line end, which is stored as a newline; what was typed so far when the keyboard is
  empty; waiting for the first key.\<close>

fun read_keys :: "nat \<Rightarrow> bytes \<Rightarrow> int list \<Rightarrow> (bytes \<times> int list) option" where
  "read_keys count p [] = (if length p < count then None else Some (p, []))"
| "read_keys count p (c # ks) =
     (if length p < count then
        if c \<ge> 0 then
          if c = 10 \<or> c = 13 then Some (p @ [10], ks) else read_keys count (p @ [of_int c]) ks
        else if length p > 0 then Some (p, ks)
        else read_keys count p ks
      else Some (p, c # ks))"

definition sys_read :: "u64 \<Rightarrow> u64 \<Rightarrow> u64 \<Rightarrow> ksys \<Rightarrow> (int \<times> ksys) option" where
  "sys_read fd buf count s =
     (let s = init_fd_table s in
      if \<not> is_valid_user_ptr buf count then Some (- EFAULT, s)
      else if fd = 0 then do {
        (p, ks) \<leftarrow> read_keys (unat count) [] (keys s);
        s \<leftarrow> put_user buf p s;
        Some (int (length p), s\<lparr>keys := ks\<rparr>)
      }
      else
        (let f = get_file (as_int fd) s in
         if f = NULL then Some (- EBADF, s)
         else do {
           (r, out, v) \<leftarrow> vfs_read f True count (kvfs s);
           s \<leftarrow> put_user buf out (s\<lparr>kvfs := v\<rparr>);
           Some (r, s)
         }))"

definition sys_write :: "u64 \<Rightarrow> u64 \<Rightarrow> u64 \<Rightarrow> ksys \<Rightarrow> (int \<times> ksys) option" where
  "sys_write fd buf count s =
     (let s = init_fd_table s in
      if fd = 1 \<or> fd = 2 then do {
        str \<leftarrow> get_user buf (unat count) s;
        Some (sint count, s\<lparr>console := console s @ str\<rparr>)
      }
      else
        (let f = get_file (as_int fd) s in
         if f = NULL then Some (- EBADF, s)
         else do {
           b \<leftarrow> (if buf = 0 then Some None else map_option Some (get_user buf (unat count) s));
           (r, v) \<leftarrow> vfs_write f b (kvfs s);
           Some (r, s\<lparr>kvfs := v\<rparr>)
         }))"

definition sys_openat :: "u64 \<Rightarrow> u64 \<Rightarrow> u64 \<Rightarrow> u64 \<Rightarrow> ksys \<Rightarrow> (int \<times> ksys) option" where
  "sys_openat dirfd pathname flags mode s =
     (let (fd, s) = alloc_fd (init_fd_table s) in
      if fd < 0 then Some (- EMFILE, s)
      else do {
        str \<leftarrow> user_string pathname s;
        (f, v) \<leftarrow> vfs_open str (ucast flags) (ucast mode) (kvfs s);
        let s = s\<lparr>kvfs := v\<rparr>;
        if f = NULL then Some (- ENOENT, free_fd fd s)
        else Some (fd, upd_fd (nat fd) (\<lambda>e. e\<lparr>fd_file := f, fd_flags := ucast flags\<rparr>) s)
      })"

definition sys_close :: "u64 \<Rightarrow> ksys \<Rightarrow> (int \<times> ksys) option" where
  "sys_close fd s =
     (let s = init_fd_table s in
      if fd < 3 then Some (0, s)
      else
        (let f = get_file (as_int fd) s in
         if f = NULL then Some (- EBADF, s)
         else do {
           (_, v) \<leftarrow> vfs_close f (kvfs s);
           Some (0, free_fd (as_int fd) (s\<lparr>kvfs := v\<rparr>))
         }))"

definition sys_lseek :: "u64 \<Rightarrow> u64 \<Rightarrow> u64 \<Rightarrow> ksys \<Rightarrow> (int \<times> ksys) option" where
  "sys_lseek fd offset whence s =
     (let s = init_fd_table s; f = get_file (as_int fd) s in
      if f = NULL then Some (- EBADF, s)
      else do { (r, v) \<leftarrow> vfs_lseek f offset (as_int whence) (kvfs s); Some (r, s\<lparr>kvfs := v\<rparr>) })"

section \<open>Tasks\<close>

text \<open>The scheduler switches away from a task that ends; the result belongs to whoever runs next.\<close>

definition sys_exit :: "u64 \<Rightarrow> ksys \<Rightarrow> (int \<times> ksys) option" where
  "sys_exit error_code s = Some (0, s\<lparr>ksched := exit_task (as_int error_code) (ksched s)\<rparr>)"

definition sys_exit_group :: "u64 \<Rightarrow> ksys \<Rightarrow> (int \<times> ksys) option" where
  "sys_exit_group error_code s = sys_exit error_code s"

definition sys_getpid :: "ksys \<Rightarrow> int" where
  "sys_getpid s = (let cur = get_current (ksched s) in if cur \<noteq> NULL then t_pid (tasks (ksched s) cur) else - 1)"

definition sys_getppid :: "ksys \<Rightarrow> int" where
  "sys_getppid s =
     (let cur = get_current (ksched s) in
      if cur \<noteq> NULL \<and> t_parent (tasks (ksched s) cur) \<noteq> NULL then t_pid (tasks (ksched s) (t_parent (tasks (ksched s) cur))) else 0)"

definition sys_getuid :: "ksys \<Rightarrow> int" where
  "sys_getuid s = (let cur = get_current (ksched s) in if cur \<noteq> NULL then uint (t_uid (tasks (ksched s) cur)) else 0)"

definition sys_getgid :: "ksys \<Rightarrow> int" where
  "sys_getgid s = (let cur = get_current (ksched s) in if cur \<noteq> NULL then uint (t_gid (tasks (ksched s) cur)) else 0)"

definition sys_gettid :: "ksys \<Rightarrow> int" where
  "sys_gettid s = (let cur = get_current (ksched s) in if cur \<noteq> NULL then t_pid (tasks (ksched s) cur) else - 1)"

definition sys_sched_yield :: "ksys \<Rightarrow> (int \<times> ksys) option" where
  "sys_sched_yield s = Some (0, s\<lparr>ksched := schedule (ksched s)\<rparr>)"

section \<open>The user heap\<close>

definition sys_brk :: "u64 \<Rightarrow> ksys \<Rightarrow> int \<times> ksys" where
  "sys_brk newbrk s =
     (if newbrk = 0 \<or> newbrk < USER_HEAP_START then (sint (user_brk_current s), s)
      else if newbrk > USER_HEAP_START + USER_HEAP_SIZE div 2 then (sint (user_brk_current s), s)
      else (sint newbrk, s\<lparr>user_brk_current := newbrk\<rparr>))"

definition sys_mmap :: "u64 \<Rightarrow> u64 \<Rightarrow> u64 \<Rightarrow> u64 \<Rightarrow> u64 \<Rightarrow> u64 \<Rightarrow> ksys \<Rightarrow> (int \<times> ksys) option" where
  "sys_mmap addr len prot flags fd offset s =
     (if flags AND MAP_ANONYMOUS = 0 \<or> sint fd \<noteq> - 1 then Some (- ENOSYS, s)
      else
        (let len = (len + PAGE_SIZE - 1) AND NOT (PAGE_SIZE - 1) in
         if user_mmap_current s + len > USER_HEAP_START + USER_HEAP_SIZE then Some (- ENOMEM, s)
         else
           (let p = user_mmap_current s; s = s\<lparr>user_mmap_current := p + len\<rparr> in
            if user_range p (unat len) s then Some (sint p, set_kmem (byte_fill (unat len) (unat p) 0 (kmem s)) s)
            else None)))"

definition sys_munmap :: "u64 \<Rightarrow> u64 \<Rightarrow> int" where
  "sys_munmap addr len = 0"

definition sys_clone :: "u64 \<Rightarrow> u64 \<Rightarrow> int" where
  "sys_clone flags newsp = - ENOSYS"

definition sys_nanosleep :: "u64 \<Rightarrow> u64 \<Rightarrow> int" where
  "sys_nanosleep req rem = 0"

definition sys_not_implemented :: int where
  "sys_not_implemented = - ENOSYS"

section \<open>Programs\<close>

text \<open>The name of the task, read from the path argument behind the load: at most fifteen characters and a NUL.\<close>

definition set_comm :: "u64 \<Rightarrow> ksys \<Rightarrow> string \<Rightarrow> string" where
  "set_comm fname s comm =
     (let n = takeWhile (\<lambda>b. b \<noteq> 0) (read_bytes (kmem s) (unat fname) (TASK_COMM_LEN - 1))
      in map (\<lambda>b. char_of (unat b)) n @ [CHR 0x00] @ drop (length n + 1) comm)"

definition exec_image :: "u64 \<Rightarrow> ptr \<Rightarrow> u64 \<Rightarrow> ksys \<Rightarrow> (int \<times> ksys) option" where
  "exec_image fname buf file_size s =
     (let drop_buf = (\<lambda>s. s\<lparr>kvfs := set_heap (kfree buf (hp (kvfs s))) (kvfs s)\<rparr>);
          m = loader_mem (hp (kvfs s))
      in if elf_validate m (of_nat buf) file_size \<noteq> 0 then Some (- ENOEXEC, drop_buf s)
         else do {
           mem_size \<leftarrow> elf_calc_size m (of_nat buf) file_size;
           if mem_size = 0 then Some (- ENOEXEC, drop_buf s)
           else do {
             (ret, m, info) \<leftarrow> elf_load_at m (of_nat buf) file_size USER_CODE_BASE (Some \<lparr>entry = 0, load_base = 0, load_size = 0\<rparr>);
             h \<leftarrow> put_loader_mem m (hp (kvfs s));
             let s = drop_buf (s\<lparr>kvfs := set_heap h (kvfs s)\<rparr>);
             if ret \<noteq> 0 then Some (- ENOEXEC, s)
             else
               (let cur = get_current (ksched s);
                    s = (if cur \<noteq> NULL
                         then s\<lparr>ksched := upd_task cur (\<lambda>t. t\<lparr>t_flags := (t_flags t OR PF_USER) AND NOT PF_KTHREAD,
                                                              t_comm := set_comm fname s (t_comm t)\<rparr>) (ksched s)\<rparr>
                         else s)
                in Some (sint (entry (the info)), s))
           }
         })"

definition sys_execve :: "u64 \<Rightarrow> ksys \<Rightarrow> (int \<times> ksys) option" where
  "sys_execve filename s = do {
     str \<leftarrow> user_string filename s;
     (f, v) \<leftarrow> vfs_open str 0 0 (kvfs s);
     if f = NULL then Some (- ENOENT, s\<lparr>kvfs := v\<rparr>)
     else
       (let d = f_dentry (files v f);
            file_size = (if d \<noteq> NULL \<and> d_inode (den v d) \<noteq> NULL then i_size (vinodes (krn v) (d_inode (den v d))) else 0)
        in if file_size = 0 \<or> file_size > 64 * 1024 * 1024 then do {
             (_, v) \<leftarrow> vfs_close f v;
             Some (- ENOEXEC, s\<lparr>kvfs := v\<rparr>)
           }
           else do {
             (buf, h) \<leftarrow> kmalloc file_size 0 (hp v);
             let v = set_heap h v;
             if buf = NULL then do { (_, v) \<leftarrow> vfs_close f v; Some (- ENOMEM, s\<lparr>kvfs := v\<rparr>) }
             else do {
               (n, out, v) \<leftarrow> vfs_read f True file_size v;
               let v = set_heap ((hp v)\<lparr>mem := poke_bytes buf out (mem (hp v))\<rparr>) v;
               (_, v) \<leftarrow> vfs_close f v;
               if n \<noteq> sint file_size then Some (- EIO, s\<lparr>kvfs := set_heap (kfree buf (hp v)) v\<rparr>)
               else exec_image filename buf file_size (s\<lparr>kvfs := v\<rparr>)
             }
           })
   }"

text \<open>Each field has 65 bytes, of which the characters and the last byte are written.\<close>

definition uname_fields :: "string list" where
  "uname_fields = [''OS8'', ''localhost'', ''0.1.0'', ''0.1.0-arm64'', ''aarch64'', '''']"

fun put_fields :: "ptr \<Rightarrow> string list \<Rightarrow> memory \<Rightarrow> memory" where
  "put_fields p [] m = m"
| "put_fields p (x # xs) m =
     put_fields (p + 65) xs ((poke_bytes p (map (\<lambda>c. of_nat (of_char c)) (take 64 x)) m)(p + 64 := 0))"

definition sys_uname :: "u64 \<Rightarrow> ksys \<Rightarrow> (int \<times> ksys) option" where
  "sys_uname buf s =
     (if user_range buf (65 * length uname_fields) s then Some (0, set_kmem (put_fields (unat buf) uname_fields (kmem s)) s) else None)"

section \<open>Dispatch\<close>

definition syscall_init :: "ksys \<Rightarrow> ksys" where
  "syscall_init s =
     s\<lparr>syscall_table := (\<lambda>i. if i < NR_syscalls then Some FN_not_implemented else syscall_table s i)
        (63 \<mapsto> FN_read, 64 \<mapsto> FN_write, 56 \<mapsto> FN_openat, 57 \<mapsto> FN_close, 62 \<mapsto> FN_lseek, 93 \<mapsto> FN_exit, 94 \<mapsto> FN_exit_group,
         172 \<mapsto> FN_getpid, 173 \<mapsto> FN_getppid, 174 \<mapsto> FN_getuid, 175 \<mapsto> FN_getuid, 176 \<mapsto> FN_getgid, 177 \<mapsto> FN_getgid,
         178 \<mapsto> FN_gettid, 214 \<mapsto> FN_brk, 222 \<mapsto> FN_mmap, 215 \<mapsto> FN_munmap, 220 \<mapsto> FN_clone, 221 \<mapsto> FN_execve, 160 \<mapsto> FN_uname,
         124 \<mapsto> FN_sched_yield, 101 \<mapsto> FN_nanosleep)\<rparr>"

definition call_sysfn :: "sysfn \<Rightarrow> u64 \<Rightarrow> u64 \<Rightarrow> u64 \<Rightarrow> u64 \<Rightarrow> u64 \<Rightarrow> u64 \<Rightarrow> ksys \<Rightarrow> (int \<times> ksys) option" where
  "call_sysfn fn a0 a1 a2 a3 a4 a5 s =
     (case fn of
        FN_read \<Rightarrow> sys_read a0 a1 a2 s
      | FN_write \<Rightarrow> sys_write a0 a1 a2 s
      | FN_openat \<Rightarrow> sys_openat a0 a1 a2 a3 s
      | FN_close \<Rightarrow> sys_close a0 s
      | FN_lseek \<Rightarrow> sys_lseek a0 a1 a2 s
      | FN_exit \<Rightarrow> sys_exit a0 s
      | FN_exit_group \<Rightarrow> sys_exit_group a0 s
      | FN_getpid \<Rightarrow> Some (sys_getpid s, s)
      | FN_getppid \<Rightarrow> Some (sys_getppid s, s)
      | FN_getuid \<Rightarrow> Some (sys_getuid s, s)
      | FN_getgid \<Rightarrow> Some (sys_getgid s, s)
      | FN_gettid \<Rightarrow> Some (sys_gettid s, s)
      | FN_brk \<Rightarrow> Some (sys_brk a0 s)
      | FN_mmap \<Rightarrow> sys_mmap a0 a1 a2 a3 a4 a5 s
      | FN_munmap \<Rightarrow> Some (sys_munmap a0 a1, s)
      | FN_clone \<Rightarrow> Some (sys_clone a0 a1, s)
      | FN_execve \<Rightarrow> sys_execve a0 s
      | FN_uname \<Rightarrow> sys_uname a0 s
      | FN_sched_yield \<Rightarrow> sys_sched_yield s
      | FN_nanosleep \<Rightarrow> Some (sys_nanosleep a0 a1, s)
      | FN_not_implemented \<Rightarrow> Some (sys_not_implemented, s))"

text \<open>An entry of the table that was never set is a jump to address 0.\<close>

definition handle_syscall :: "(nat \<Rightarrow> u64) \<Rightarrow> ksys \<Rightarrow> (int \<times> ksys) option" where
  "handle_syscall r s =
     (let nr = r 8 in
      if unat nr \<ge> NR_syscalls then Some (- ENOSYS, s)
      else case syscall_table s (unat nr) of
        None \<Rightarrow> None
      | Some fn \<Rightarrow> call_sysfn fn (r 0) (r 1) (r 2) (r 3) (r 4) (r 5) s)"

text \<open>The message of the panic a synchronous exception ends in, or nothing for a system call instruction.\<close>

definition handle_sync_exception :: "arch \<Rightarrow> u64 \<Rightarrow> string option" where
  "handle_sync_exception ar esr =
     (let ec = (if ar = ARCH_ARM64 then drop_bit 26 esr AND 0x3F else 0) in
      if ec = 0x15 then None
      else if ec = 0x20 \<or> ec = 0x21 then Some ''Instruction abort''
      else if ec = 0x24 \<or> ec = 0x25 then Some ''Data abort''
      else if ec = 0 then Some ''Unknown exception''
      else Some ''Unhandled exception'')"


section \<open>User memory and the file system\<close>

text \<open>Stores outside the kernel heap leave the file system as it is.\<close>

lemma set_kmem_simps [simp]:
  "kmem (set_kmem m s) = m" "files (kvfs (set_kmem m s)) = files (kvfs s)" "den (kvfs (set_kmem m s)) = den (kvfs s)"
  "inodes (krn (kvfs (set_kmem m s))) = inodes (krn (kvfs s))" "vinodes (krn (kvfs (set_kmem m s))) = vinodes (krn (kvfs s))"
  "hp (kvfs (set_kmem m s)) = (hp (kvfs s))\<lparr>mem := m\<rparr>" "fd_table (set_kmem m s) = fd_table s"
  "fd_table_initialized (set_kmem m s) = fd_table_initialized s" "keys (set_kmem m s) = keys s"
  "mounts (kvfs (set_kmem m s)) = mounts (kvfs s)" "mount_pool (kvfs (set_kmem m s)) = mount_pool (kvfs s)"
  "root_dentry (kvfs (set_kmem m s)) = root_dentry (kvfs s)"
  by (simp_all add: set_kmem_def set_heap_def set_kern_def)

definition heap_agrees :: "memory \<Rightarrow> ksys \<Rightarrow> bool" where
  "heap_agrees m s \<longleftrightarrow> (\<forall>a. heap_start (hp (kvfs s)) \<le> a \<longrightarrow> a < heap_end (hp (kvfs s)) \<longrightarrow> m a = kmem s a)"

lemma poke_agrees:
  assumes "user_range p (length bs) s"
  shows "heap_agrees (poke_bytes (unat p) bs (kmem s)) s"
  using assms by (auto simp: heap_agrees_def user_range_def poke_bytes_eq)

lemma set_kmem_is_root: "is_root (kvfs (set_kmem m s)) d = is_root (kvfs s) d"
  by (rule is_root_cong) simp_all

lemma set_kmem_vframe: "vframe (kvfs s) (kvfs (set_kmem m s))"
  by (simp add: vframe_def)

lemma set_kmem_ok:
  assumes "vfs_ok (kvfs s) N K"
  shows "vfs_ok (kvfs (set_kmem m s)) N K"
  by (rule entry_frame_ok [OF assms set_kmem_vframe]) (use vfs_okD(1) [OF assms] in \<open>simp_all add: fs_ok_def buf_ok_def\<close>)

lemma set_kmem_file_ok: "file_ok (kvfs (set_kmem m s)) N f c = file_ok (kvfs s) N f c"
  by (simp add: file_ok_def foreign_def set_kmem_is_root)

lemma set_kmem_contents:
  assumes ok: "vfs_ok (kvfs s) N K" and "heap_agrees m s" and c: "c \<in> N"
  shows "contents (krn (kvfs (set_kmem m s))) c = contents (krn (kvfs s)) c"
proof -
  let ?i = "inodes (krn (kvfs s)) c" and ?h = "hp (kvfs s)"
  note wf = vfs_okD(1) [OF ok]
  have b: "buf_ok ?h (inodes (krn (kvfs s))) N c" by (rule fs_okD(3) [OF wf c])
  have "m a = kmem s a" if a: "idata ?i \<le> a" "a < idata ?i + unat (isize ?i)" for a
  proof -
    have sz: "unat (isize ?i) \<le> unat (data_capacity ?i)" using b by (simp add: buf_ok_def word_le_nat_alt)
    then have "data_capacity ?i \<noteq> 0" using a by auto
    then have "idata ?i \<noteq> NULL" using b by (metis buf_ok_def)
    then obtain n fs where n: "unat (data_capacity ?i) \<le> n" "live ?h (idata ?i) = Some n" and hw: "heap_wf ?h (blocks ?h) fs"
      using b fs_okD(1) [OF wf] by (auto simp: buf_ok_def heap_inv_def)
    show ?thesis
      using assms(2) a sz n(1) live_ofD(6,7) [OF hw n(2)] by (simp add: heap_agrees_def)
  qed
  then show ?thesis using read_bytes_cong [of "idata ?i" "unat (isize ?i)" m "kmem s"] by (simp add: contents_def)
qed


lemma set_kmem_tree:
  assumes ok: "vfs_ok (kvfs s) N K" and "heap_agrees m s"
  shows "same_tree (krn (kvfs s)) (krn (kvfs (set_kmem m s))) N K"
  unfolding same_tree_def
  using vfs_okD(1) [OF set_kmem_ok [OF ok]] set_kmem_contents [OF assms] by (simp add: dir_map_def)

section \<open>An open descriptor\<close>

text \<open>Descriptor \<open>fd\<close> is open on the regular file of inode \<open>c\<close>.\<close>

definition fd_open :: "ksys \<Rightarrow> ptr set \<Rightarrow> nat \<Rightarrow> ptr \<Rightarrow> ptr \<Rightarrow> bool" where
  "fd_open s N fd f c \<longleftrightarrow> 3 \<le> fd \<and> fd < MAX_FDS \<and> fd_table_initialized s \<and> fd_in_use (fd_table s fd) \<and> fd_file (fd_table s fd) = f
     \<and> file_ok (kvfs s) N f c \<and> \<not> isdir (krn (kvfs s)) c"

lemma init_fd_table_done [simp]: "fd_table_initialized s \<Longrightarrow> init_fd_table s = s"
  by (simp add: init_fd_table_def)

lemma as_int_small: "n < 2 ^ 31 \<Longrightarrow> as_int (of_nat n) = int n"
  using sint_ucast_small [of "of_nat n"] by (simp add: as_int_def unat_of_nat_small)

lemma fd_openD:
  assumes "fd_open s N fd f c"
  shows "init_fd_table s = s" "get_file (as_int (of_nat fd)) s = f" "f \<noteq> NULL" "as_int (of_nat fd) = int fd"
    "(of_nat fd :: u64) \<notin> {0, 1, 2}" "\<not> (of_nat fd :: u64) < 3" "file_ok (kvfs s) N f c" "\<not> isdir (krn (kvfs s)) c"
    "fd < MAX_FDS"
proof -
  note d = assms [unfolded fd_open_def]
  show a: "as_int (of_nat fd) = int fd" using d by (intro as_int_small) (simp add: MAX_FDS_def)
  show "init_fd_table s = s" "get_file (as_int (of_nat fd)) s = f" "f \<noteq> NULL" "file_ok (kvfs s) N f c" "\<not> isdir (krn (kvfs s)) c"
    "fd < MAX_FDS" using d file_okD(1) unfolding a by (auto simp: get_file_def)
  have u: "unat (of_nat fd :: u64) = fd" using d by (intro unat_of_nat_small) (simp add: MAX_FDS_def)
  show "\<not> (of_nat fd :: u64) < 3" using u d by (simp add: word_less_nat_alt)
  have "fd = k" if "(of_nat fd :: u64) = of_nat k" "k < 3" for k
    using arg_cong [OF that(1), of unat] u unat_of_nat_small [of k, where 'a = 64] that(2) by simp
  from this [of 0] this [of 1] this [of 2] d show "(of_nat fd :: u64) \<notin> {0, 1, 2}" by auto
qed

lemma fd_open_mono:
  assumes "fd_open s N fd f c" "file_ok (kvfs t) N f c" "\<not> isdir (krn (kvfs t)) c" "fd_table t fd = fd_table s fd"
    "fd_table_initialized t = fd_table_initialized s"
  shows "fd_open t N fd f c"
  using assms by (simp add: fd_open_def)

text \<open>Reading through a descriptor: the bytes at the position arrive in the buffer.\<close>

lemma sys_read_spec:
  fixes count :: u64
  assumes ok: "vfs_ok (kvfs s) N K" and fd: "fd_open s N fd f c" and pos: "unat (f_pos (files (kvfs s) f)) < 2 ^ 63"
    and buf: "is_valid_user_ptr buf count" "user_range buf (unat count) s"
  defines "out \<equiv> take (unat count) (drop (unat (f_pos (files (kvfs s) f))) (contents (krn (kvfs s)) c))"
  obtains t where "sys_read (of_nat fd) buf count s = Some (int (length out), t)" "vfs_ok (kvfs t) N K" "fd_open t N fd f c"
    "same_tree (krn (kvfs s)) (krn (kvfs t)) N K" "read_bytes (kmem t) (unat buf) (length out) = out"
    "fd_table t = fd_table s" "vframe (kvfs s) (kvfs t)"
proof -
  note D = fd_openD [OF fd]
  define v where "v = upd_file f (f_pos_update (\<lambda>_. f_pos (files (kvfs s) f) + of_nat (length out))) (kvfs s)"
  define u where "u = s\<lparr>kvfs := v\<rparr>"
  have r: "vfs_read f True count (kvfs s) = Some (int (length out), out, v)"
    unfolding v_def out_def by (rule vfs_read_spec [OF ok D(7,8) pos])
  have e: "krn v = krn (kvfs s)" "den v = den (kvfs s)" "mounts v = mounts (kvfs s)" "mount_pool v = mount_pool (kvfs s)"
    "root_dentry v = root_dentry (kvfs s)" by (simp_all add: v_def)
  have "length out \<le> unat count" by (simp add: out_def)
  then have ur: "user_range buf (length out) u" using buf(2) by (auto simp: user_range_def u_def e)
  define t where "t = set_kmem (poke_bytes (unat buf) out (kmem u)) u"
  have pu: "put_user buf out u = Some t" using ur by (simp add: put_user_def t_def)
  have run: "sys_read (of_nat fd) buf count s = Some (int (length out), t)"
    using D(1-5) buf(1) r pu by (simp add: sys_read_def Let_def u_def)
  have vf: "vframe (kvfs s) v" by (simp add: vframe_def e)
  have ir: "is_root v q = is_root (kvfs s) q" for q by (rule is_root_cong) (simp_all add: e)
  have okv: "vfs_ok (kvfs u) N K" unfolding u_def by (simp, rule entry_frame_ok [OF ok vf]) (use vfs_okD(1) [OF ok] in \<open>simp_all add: e\<close>)
  have "file_ok v N f c" using D(7) by (simp add: file_ok_def e ir) (simp add: v_def)
  then have fo: "file_ok (kvfs t) N f c" "\<not> isdir (krn (kvfs t)) c" using D(8) by (simp_all add: t_def set_kmem_file_ok u_def e)
  have st: "same_tree (krn (kvfs u)) (krn (kvfs t)) N K" unfolding t_def by (rule set_kmem_tree [OF okv poke_agrees [OF ur]])
  have "same_tree (krn (kvfs s)) (krn (kvfs t)) N K" using st by (simp add: u_def e)
  moreover have "vframe (kvfs s) (kvfs t)" using vframe_trans [OF vf, of "kvfs t"] set_kmem_vframe [of u] by (simp add: t_def u_def)
  moreover have "read_bytes (kmem t) (unat buf) (length out) = out"
    by (rule nth_equalityI) (simp_all add: t_def poke_bytes_eq)
  ultimately show thesis
    using that run set_kmem_ok [OF okv] fd_open_mono [OF fd fo] by (simp add: t_def u_def)
qed

text \<open>Writing through a descriptor: all bytes of the buffer at the position, or nothing for lack of memory.\<close>

lemma sys_write_spec:
  fixes count :: u64
  assumes ok: "vfs_ok (kvfs s) N K" and fd: "fd_open s N fd f c"
    and pos: "unat (f_pos (files (kvfs s) f)) + unat count < 2 ^ 63" and buf: "buf \<noteq> 0" "user_range buf (unat count) s"
  defines "data \<equiv> read_bytes (kmem s) (unat buf) (unat count)"
  obtains (nomem) t where "sys_write (of_nat fd) buf count s = Some (- ENOMEM, t)" "vfs_ok (kvfs t) N K" "fd_open t N fd f c"
      "same_tree (krn (kvfs s)) (krn (kvfs t)) N K" "fd_table t = fd_table s" "vframe (kvfs s) (kvfs t)"
  | (written) t where "sys_write (of_nat fd) buf count s = Some (int (unat count), t)" "vfs_ok (kvfs t) N K" "fd_open t N fd f c"
      "tree_frame (krn (kvfs s)) (krn (kvfs t)) N K c"
      "contents (krn (kvfs t)) c = overwrite (contents (krn (kvfs s)) c) (unat (f_pos (files (kvfs s) f))) data"
      "fd_table t = fd_table s" "vframe (kvfs s) (kvfs t)"
proof -
  note D = fd_openD [OF fd]
  have l: "unat (f_pos (files (kvfs s) f)) + length data < 2 ^ 63" using pos by (simp add: data_def)
  have g: "get_user buf (unat count) s = Some data" using buf(2) by (simp add: get_user_def data_def)
  have run: "sys_write (of_nat fd) buf count s = map_option (\<lambda>(r, v). (r, s\<lparr>kvfs := v\<rparr>)) (vfs_write f (Some data) (kvfs s))"
    using D(1-5) buf(1) g by (cases "vfs_write f (Some data) (kvfs s)") (auto simp: sys_write_def Let_def)
  have ini: "fd_table_initialized s" using fd by (simp add: fd_open_def)
  show thesis
  proof (rule vfs_write_spec [OF ok D(7,8) l])
    fix v assume v: "vfs_write f (Some data) (kvfs s) = Some (- ENOMEM, v)" "vfs_ok v N K" "vframe (kvfs s) v" "file_ok v N f c"
      "same_tree (krn (kvfs s)) (krn v) N K"
    have "\<not> isdir (krn v) c" using v(5) D(7,8) file_okD(2) by (auto simp: same_tree_def)
    then have "fd_open (s\<lparr>kvfs := v\<rparr>) N fd f c" using fd v(4) by (simp add: fd_open_def)
    then show thesis using nomem [of "s\<lparr>kvfs := v\<rparr>"] run v by simp
  next
    fix v assume v: "vfs_write f (Some data) (kvfs s) = Some (int (length data), v)" "vfs_ok v N K" "vframe (kvfs s) v" "file_ok v N f c"
      "tree_frame (krn (kvfs s)) (krn v) N K c" "contents (krn v) c = overwrite (contents (krn (kvfs s)) c) (unat (f_pos (files (kvfs s) f))) data"
    have "\<not> isdir (krn v) c" using v(5) D(7,8) file_okD(2) by (auto simp: tree_frame_def)
    then have "fd_open (s\<lparr>kvfs := v\<rparr>) N fd f c" using fd v(4) by (simp add: fd_open_def)
    then show thesis using written [of "s\<lparr>kvfs := v\<rparr>"] run v by (simp add: data_def)
  qed
qed

text \<open>Setting the position.\<close>

lemma sys_lseek_spec:
  assumes ok: "vfs_ok (kvfs s) N K" and fd: "fd_open s N fd f c" and off: "unat off < 2 ^ 63"
  obtains t where "sys_lseek (of_nat fd) off 0 s = Some (int (unat off), t)" "vfs_ok (kvfs t) N K" "fd_open t N fd f c"
    "krn (kvfs t) = krn (kvfs s)" "f_pos (files (kvfs t) f) = off" "fd_table t = fd_table s" "vframe (kvfs s) (kvfs t)"
proof -
  note D = fd_openD [OF fd]
  have so: "sint off = int (unat off)" by (rule sint_small [OF off])
  have "uint off < 9223372036854775808" using off by (simp add: nat_less_iff flip: nat_uint_eq)
  then have b: "\<not> 9223372036854775808 \<le> uint off" "\<not> uint off < - 9223372036854775808"
    using uint_ge_0 [of off] by linarith+
  define v where "v = upd_file f (f_pos_update (\<lambda>_. off)) (kvfs s)"
  have r: "vfs_lseek f off 0 (kvfs s) = Some (int (unat off), v)"
    using D(3) b unfolding vfs_lseek_def Let_def so by (simp add: v_def)
  have run: "sys_lseek (of_nat fd) off 0 s = Some (int (unat off), s\<lparr>kvfs := v\<rparr>)"
    using D(1-3) r by (simp add: sys_lseek_def Let_def as_int_def)
  have e: "krn v = krn (kvfs s)" "den v = den (kvfs s)" "mounts v = mounts (kvfs s)" "mount_pool v = mount_pool (kvfs s)"
    "root_dentry v = root_dentry (kvfs s)" "f_pos (files v f) = off" by (simp_all add: v_def)
  have vf: "vframe (kvfs s) v" by (simp add: vframe_def e)
  have ir: "is_root v q = is_root (kvfs s) q" for q by (rule is_root_cong) (simp_all add: e)
  have "vfs_ok v N K" by (rule entry_frame_ok [OF ok vf]) (use vfs_okD(1) [OF ok] in \<open>simp_all add: e\<close>)
  moreover have "file_ok v N f c" using D(7) by (simp add: file_ok_def e ir) (simp add: v_def)
  then have "fd_open (s\<lparr>kvfs := v\<rparr>) N fd f c" using fd by (simp add: fd_open_def e)
  ultimately show thesis using that [of "s\<lparr>kvfs := v\<rparr>"] run e vf by simp
qed

text \<open>Closing frees the descriptor.\<close>

lemma sys_close_spec:
  assumes ok: "vfs_ok (kvfs s) N K" and fd: "fd_open s N fd f c"
  obtains t where "sys_close (of_nat fd) s = Some (0, t)" "vfs_ok (kvfs t) N K" "same_tree (krn (kvfs s)) (krn (kvfs t)) N K"
    "fd_table t = (fd_table s)(fd := \<lparr>fd_file = NULL, fd_flags = 0, fd_in_use = False\<rparr>)" "vframe (kvfs s) (kvfs t)"
proof -
  note D = fd_openD [OF fd]
  obtain v where v: "vfs_close f (kvfs s) = Some (0, v)" "vfs_ok v N K" "vframe (kvfs s) v" "same_tree (krn (kvfs s)) (krn v) N K"
    by (rule vfs_close_spec [OF ok D(7)])
  have "sys_close (of_nat fd) s = Some (0, free_fd (int fd) (s\<lparr>kvfs := v\<rparr>))"
    using D(1-4,6) v(1) by (simp add: sys_close_def Let_def)
  then show thesis using that v(2-4) D(9) by (simp add: free_fd_def upd_fd_def)
qed

section \<open>Opening\<close>

text \<open>Opening a path for writing from scratch: a descriptor on an empty regular file at the path, existing or new, with
  every other file as it was.\<close>

definition opened_at :: "vfs \<Rightarrow> vfs \<Rightarrow> ptr set \<Rightarrow> ptr \<Rightarrow> bytes list \<Rightarrow> ptr \<Rightarrow> ptr set \<Rightarrow> (ptr \<Rightarrow> ptr list) \<Rightarrow> ptr \<Rightarrow> bool" where
  "opened_at s u N x cs f N' K' c \<longleftrightarrow> vfs_ok u N' K' \<and> N \<subseteq> N' \<and> x \<in> N' \<and> file_ok u N' f c \<and> S_ISREG (imode (inodes (krn u) c))
     \<and> dir_walk (krn u) K' x cs = Some c \<and> contents (krn u) c = [] \<and> f_pos (files u f) = 0 \<and> vframe s u
     \<and> (\<forall>p \<in> N. p \<noteq> c \<longrightarrow> contents (krn u) p = contents (krn s) p)"

lemma open_for_writing:
  assumes ok: "vfs_ok s N K" and p: "vpath s pth = (x, cs)" "cs \<noteq> []" "pth \<noteq> [SLASH]" "find_mount_by_target (Some pth) s = None"
    and md: "mode AND S_IFMT = 0" and fl: "flags AND O_TRUNC \<noteq> 0" "flags AND O_APPEND = 0"
    and reg: "\<And>c. dir_walk (krn s) K x cs = Some c \<Longrightarrow> S_ISREG (imode (inodes (krn s) c))"
  obtains f u where "vfs_open (Some pth) flags mode s = Some (f, u)" "f = NULL" "others_kept s u N K x cs"
  | f u N' K' c where "vfs_open (Some pth) flags mode s = Some (f, u)" "opened_at s u N x cs f N' K' c"
proof -
  note wf = vfs_okD(1) [OF ok] and xN = vpath_in [OF ok p(1)]
  obtain f u where o: "vfs_open (Some pth) flags mode s = Some (f, u)" "open_result s N K x cs flags mode f u"
    using vfs_open_spec [OF ok p md, of flags] by blast
  show thesis
  proof (cases "f = NULL")
    case True
    have "others_kept s u N K x cs"
      using o(2) True unfolding open_result_def others_kept_def open_outcome_def
      by (auto simp: same_tree_def vfs_added_def file_ok_def split: option.splits)
    then show thesis using that(1) o(1) True by blast
  next
    case False
    then obtain y where y: "dir_walk (krn s) K x (butlast cs) = Some y" "open_outcome s N K y (last cs) flags mode (2 * length cs + 2) f u"
      using o(2) by (auto simp: open_result_def split: option.splits)
    have dw: "dir_walk (krn s) K x cs = dir_map (krn s) K y (last cs)" using dir_walk_last [OF p(2)] y(1) by simp
    from y(2) False consider c where "dir_map (krn s) K y (last cs) = Some c" "vfs_ok u N K" "vframe s u" "file_ok u N f c" "tree_frame (krn s) (krn u) N K c"
         "contents (krn u) c = (if flags AND O_TRUNC \<noteq> 0 \<and> S_ISREG (imode (inodes (krn s) c)) then [] else contents (krn s) c)"
         "f_pos (files u f) = (if flags AND O_APPEND \<noteq> 0 \<and> S_ISREG (imode (inodes (krn s) c)) then isize (inodes (krn u) c) else 0)"
      | e where "dir_map (krn s) K y (last cs) = None" "vfs_added s u N K y (last cs) e" "vframe s u" "file_ok u (insert e N) f e"
         "imode (inodes (krn u) e) = S_IFREG OR mode" "contents (krn u) e = []" "f_pos (files u f) = 0"
      unfolding open_outcome_def by blast
    then show thesis
    proof cases
      case 1
      have dc: "dir_walk (krn s) K x cs = Some c" using dw 1(1) by simp
      have "dir_walk (krn u) K x cs = Some c" by (rule dir_walk_mono [OF wf _ xN dc]) (use 1(5) in \<open>simp add: tree_frame_def\<close>)
      then have "opened_at s u N x cs f N K c"
        unfolding opened_at_def using 1 reg [OF dc] fl xN file_okD(2) [OF 1(4)] by (auto simp: tree_frame_def)
      then show thesis using that(2) o(1) by blast
    next
      case 2
      obtain K' where K': "vfs_ok u (insert e N) K'" "e \<notin> N"
        "\<forall>g \<in> N. dir_map (krn u) K' g = (if g = y then (dir_map (krn s) K y)(last cs \<mapsto> e) else dir_map (krn s) K g)"
        "\<forall>p \<in> N. contents (krn u) p = contents (krn s) p" using 2(2) by (auto simp: vfs_added_def)
      have "dir_walk (krn u) K' x (butlast cs) = Some y"
        by (rule dir_walk_mono [OF wf _ xN y(1)]) (use K'(3) 2(1) in \<open>auto simp: map_le_def\<close>)
      then have "dir_walk (krn u) K' x cs = Some e" using dir_walk_last [OF p(2)] K'(3) dir_walk_in [OF wf y(1) xN] by simp
      then have "opened_at s u N x cs f (insert e N) K' e"
        unfolding opened_at_def using 2 K' create_mode [OF md] xN by auto
      then show thesis using that(2) o(1) by blast
    qed
  qed
qed

text \<open>The lowest free descriptor.\<close>

definition lowest_free :: "ksys \<Rightarrow> nat \<Rightarrow> bool" where
  "lowest_free s fd \<longleftrightarrow> 3 \<le> fd \<and> fd < MAX_FDS \<and> \<not> fd_in_use (fd_table s fd) \<and> (\<forall>i. 3 \<le> i \<and> i < fd \<longrightarrow> fd_in_use (fd_table s i))"

lemma init_fd_table_simps [simp]:
  "kvfs (init_fd_table s) = kvfs s" "fd_table_initialized (init_fd_table s)" "init_fd_table (init_fd_table s) = init_fd_table s"
  by (simp_all add: init_fd_table_def)

lemma alloc_fd_cases:
  obtains (full) "alloc_fd s = (- 1, init_fd_table s)" "\<forall>i. 3 \<le> i \<and> i < MAX_FDS \<longrightarrow> fd_in_use (fd_table (init_fd_table s) i)"
  | (free) fd where "alloc_fd s = (int fd, upd_fd fd (fd_in_use_update (\<lambda>_. True)) (init_fd_table s))" "lowest_free (init_fd_table s) fd"
proof (cases "find (\<lambda>i. \<not> fd_in_use (fd_table (init_fd_table s) i)) [3..<MAX_FDS]")
  case None
  then have "alloc_fd s = (- 1, init_fd_table s)" by (simp add: alloc_fd_def Let_def)
  then show thesis using full None by (auto simp: find_None_iff)
next
  case (Some fd)
  then obtain k where k: "k < length [3..<MAX_FDS]" "[3..<MAX_FDS] ! k = fd" "\<not> fd_in_use (fd_table (init_fd_table s) fd)"
    "\<forall>j<k. fd_in_use (fd_table (init_fd_table s) ([3..<MAX_FDS] ! j))"
    by (auto simp: find_Some_iff)
  have "fd_in_use (fd_table (init_fd_table s) i)" if "3 \<le> i" "i < fd" for i
    using k(4) [rule_format, of "i - 3"] k(1,2) that by simp
  then have "lowest_free (init_fd_table s) fd" using k by (auto simp: lowest_free_def)
  then show thesis using free Some by (simp add: alloc_fd_def Let_def)
qed

lemma sys_openat_spec:
  assumes ok: "vfs_ok (kvfs s) N K" and str: "user_string pathname s = Some (Some pth)"
    and p: "vpath (kvfs s) pth = (x, cs)" "cs \<noteq> []" "pth \<noteq> [SLASH]" "find_mount_by_target (Some pth) (kvfs s) = None"
    and md: "ucast mode AND S_IFMT = 0" and fl: "ucast flags AND O_TRUNC \<noteq> 0" "ucast flags AND O_APPEND = 0"
    and reg: "\<And>c. dir_walk (krn (kvfs s)) K x cs = Some c \<Longrightarrow> S_ISREG (imode (inodes (krn (kvfs s)) c))"
  obtains (emfile) "sys_openat dirfd pathname flags mode s = Some (- EMFILE, init_fd_table s)"
      "\<forall>i. 3 \<le> i \<and> i < MAX_FDS \<longrightarrow> fd_in_use (fd_table (init_fd_table s) i)"
  | (failed) fd t where "sys_openat dirfd pathname flags mode s = Some (- ENOENT, t)" "lowest_free (init_fd_table s) fd"
      "fd_table t = (fd_table (init_fd_table s))(fd := \<lparr>fd_file = NULL, fd_flags = 0, fd_in_use = False\<rparr>)"
      "others_kept (kvfs s) (kvfs t) N K x cs"
  | (opened) fd t f N' K' c where "sys_openat dirfd pathname flags mode s = Some (int fd, t)" "lowest_free (init_fd_table s) fd"
      "opened_at (kvfs s) (kvfs t) N x cs f N' K' c" "fd_open t N' fd f c"
      "fd_table t = (fd_table (init_fd_table s))(fd := \<lparr>fd_file = f, fd_flags = ucast flags, fd_in_use = True\<rparr>)"
proof (cases rule: alloc_fd_cases [of "init_fd_table s"])
  case full
  then show thesis using emfile by (simp add: sys_openat_def)
next
  case (free fd)
  define s1 where "s1 = upd_fd fd (fd_in_use_update (\<lambda>_. True)) (init_fd_table s)"
  have a: "alloc_fd (init_fd_table s) = (int fd, s1)" and lf: "lowest_free (init_fd_table s) fd" using free by (simp_all add: s1_def)
  have k: "kvfs s1 = kvfs s" by (simp add: s1_def upd_fd_def)
  have st: "user_string pathname s1 = Some (Some pth)" using str unfolding user_string_def user_range_def k .
  have r: "3 \<le> fd" "fd < MAX_FDS" using lf by (simp_all add: lowest_free_def)
  show thesis
  proof (rule open_for_writing [OF ok p md fl])
    show "S_ISREG (imode (inodes (krn (kvfs s)) c))" if "dir_walk (krn (kvfs s)) K x cs = Some c" for c by (rule reg [OF that])
  next
    fix f u assume 1: "vfs_open (Some pth) (ucast flags) (ucast mode) (kvfs s) = Some (f, u)" "f = NULL" "others_kept (kvfs s) u N K x cs"
    define t where "t = free_fd (int fd) (s1\<lparr>kvfs := u\<rparr>)"
    have "sys_openat dirfd pathname flags mode s = Some (- ENOENT, t)"
      using 1(1,2) by (simp add: sys_openat_def a st k t_def)
    moreover have "fd_table t = (fd_table (init_fd_table s))(fd := \<lparr>fd_file = NULL, fd_flags = 0, fd_in_use = False\<rparr>)" "kvfs t = u"
      using r by (simp_all add: t_def free_fd_def s1_def upd_fd_def)
    ultimately show thesis using failed lf 1(3) by simp
  next
    fix f u N' K' c assume 2: "vfs_open (Some pth) (ucast flags) (ucast mode) (kvfs s) = Some (f, u)" "opened_at (kvfs s) u N x cs f N' K' c"
    define t where "t = upd_fd fd (\<lambda>e. e\<lparr>fd_file := f, fd_flags := ucast flags\<rparr>) (s1\<lparr>kvfs := u\<rparr>)"
    have fo: "file_ok u N' f c" "\<not> isdir (krn u) c" using 2(2) isreg_not_dir by (auto simp: opened_at_def)
    have "sys_openat dirfd pathname flags mode s = Some (int fd, t)"
      using 2(1) file_okD(1) [OF fo(1)] by (simp add: sys_openat_def a st k t_def)
    moreover have tt: "fd_table t = (fd_table (init_fd_table s))(fd := \<lparr>fd_file = f, fd_flags = ucast flags, fd_in_use = True\<rparr>)"
      "kvfs t = u" "fd_table_initialized t"
      by (cases "fd_table (init_fd_table s) fd"; simp add: t_def s1_def upd_fd_def)+
    moreover have "fd_open t N' fd f c" using fo r tt by (simp add: fd_open_def)
    ultimately show thesis using opened lf 2(2) by simp
  qed
qed

section \<open>Dispatch and names\<close>

text \<open>With the table set up, every number is answered: those without a function, and those beyond the table, by \<^verbatim>\<open>ENOSYS\<close>. Nothing
  in the kernel calls \<^verbatim>\<open>syscall_init\<close>, though, and without it the dispatcher jumps to a null pointer.\<close>

definition implemented :: "nat set" where
  "implemented = {56, 57, 62, 63, 64, 93, 94, 101, 124, 160, 172, 173, 174, 175, 176, 177, 178, 214, 215, 220, 221, 222}"

lemma syscall_table_init:
  assumes "nr < NR_syscalls"
  shows "syscall_table (syscall_init s) nr \<noteq> None"
    and "nr \<notin> implemented \<Longrightarrow> syscall_table (syscall_init s) nr = Some FN_not_implemented"
  using assms by (simp_all add: syscall_init_def implemented_def)

lemma syscall_unknown:
  assumes "unat (r 8) \<notin> implemented"
  shows "handle_syscall r (syscall_init s) = Some (- ENOSYS, syscall_init s)"
  using syscall_table_init(2) [OF _ assms] by (simp add: handle_syscall_def Let_def call_sysfn_def sys_not_implemented_def)

lemma syscall_without_init:
  assumes "syscall_table s = (\<lambda>_. None)" and "unat (r 8) < NR_syscalls"
  shows "handle_syscall r s = None"
  using assms by (simp add: handle_syscall_def)

text \<open>\<^verbatim>\<open>uname\<close> does not end its strings: the byte behind the characters of a field keeps what it was, unless it is the
  last of the field.\<close>

lemma put_fields_before: "a < p \<Longrightarrow> put_fields p xs m a = m a"
  by (induction p xs m rule: put_fields.induct) (simp_all add: poke_bytes_eq)

lemma sys_uname_unterminated:
  assumes "sys_uname buf s = Some (r, t)"
  shows "kmem t (unat buf + 3) = kmem s (unat buf + 3)"
proof -
  have "put_fields p (x # xs) m (p + k) = m (p + k)" if "length x \<le> k" "k < 64" for p x xs m k
    using that by (simp add: put_fields_before poke_bytes_eq)
  from this [of "''OS8''" 3] show ?thesis
    using assms by (auto simp: sys_uname_def uname_fields_def simp del: put_fields.simps split: if_splits)
qed

section \<open>Properties\<close>

text \<open>A write at the start of an empty file that is then read from the start.\<close>

lemma write_seek_read:
  fixes count :: u64
  assumes op: "opened_at s0 (kvfs s) N x cs f N' K' c" and fd: "fd_open s N' fd f c" and n: "unat count < 2 ^ 63"
    and buf: "buf \<noteq> 0" "user_range buf (unat count) s" and buf': "is_valid_user_ptr buf' count" "user_range buf' (unat count) s"
  defines "data \<equiv> read_bytes (kmem s) (unat buf) (unat count)"
  shows "\<exists>w s2. sys_write (of_nat fd) buf count s = Some (w, s2)
    \<and> (w = - ENOMEM
       \<or> w = int (unat count)
         \<and> (\<exists>s3 s4 s5. sys_lseek (of_nat fd) 0 0 s2 = Some (0, s3) \<and> sys_read (of_nat fd) buf' count s3 = Some (int (unat count), s4)
             \<and> read_bytes (kmem s4) (unat buf') (unat count) = data \<and> sys_close (of_nat fd) s4 = Some (0, s5)
             \<and> fd_table s5 = (fd_table s)(fd := \<lparr>fd_file = NULL, fd_flags = 0, fd_in_use = False\<rparr>)
             \<and> saved_as s0 (kvfs s5) N x cs data))"
proof -
  have O: "vfs_ok (kvfs s) N' K'" "N \<subseteq> N'" "x \<in> N'" "S_ISREG (imode (inodes (krn (kvfs s)) c))" "dir_walk (krn (kvfs s)) K' x cs = Some c"
    "contents (krn (kvfs s)) c = []" "f_pos (files (kvfs s) f) = 0" "vframe s0 (kvfs s)"
    "\<forall>p \<in> N. p \<noteq> c \<longrightarrow> contents (krn (kvfs s)) p = contents (krn s0) p"
    using op by (auto simp: opened_at_def)
  have cN: "c \<in> N'" by (rule file_okD(2) [OF fd_openD(7) [OF fd]])
  have l: "unat (f_pos (files (kvfs s) f)) + unat count < 2 ^ 63" using O(7) n by simp
  show ?thesis
  proof (rule sys_write_spec [OF O(1) fd l buf])
    fix t assume "sys_write (of_nat fd) buf count s = Some (- ENOMEM, t)"
    then show ?thesis by blast
  next
    fix s2 assume w: "sys_write (of_nat fd) buf count s = Some (int (unat count), s2)" "vfs_ok (kvfs s2) N' K'" "fd_open s2 N' fd f c"
      "tree_frame (krn (kvfs s)) (krn (kvfs s2)) N' K' c"
      "contents (krn (kvfs s2)) c = overwrite (contents (krn (kvfs s)) c) (unat (f_pos (files (kvfs s) f))) (read_bytes (kmem s) (unat buf) (unat count))"
      "fd_table s2 = fd_table s" "vframe (kvfs s) (kvfs s2)"
    have c2: "contents (krn (kvfs s2)) c = data" using w(5) O(6,7) by (simp add: overwrite_def data_def)
    obtain s3 where s3: "sys_lseek (of_nat fd) 0 0 s2 = Some (int (unat (0 :: u64)), s3)" "vfs_ok (kvfs s3) N' K'" "fd_open s3 N' fd f c"
        "krn (kvfs s3) = krn (kvfs s2)" "f_pos (files (kvfs s3) f) = 0" "fd_table s3 = fd_table s2" "vframe (kvfs s2) (kvfs s3)"
      by (rule sys_lseek_spec [OF w(2,3), of 0]) simp_all
    have ur: "user_range buf' (unat count) s3"
      using buf'(2) w(7) s3(4) by (simp add: user_range_def vframe_def)
    have p3: "unat (f_pos (files (kvfs s3) f)) < 2 ^ 63" by (simp add: s3(5))
    have o3: "take (unat count) (drop (unat (f_pos (files (kvfs s3) f))) (contents (krn (kvfs s3)) c)) = data"
      using s3(4,5) c2 by (simp add: data_def)
    obtain s4 where s4: "sys_read (of_nat fd) buf' count s3 = Some (int (length data), s4)" "vfs_ok (kvfs s4) N' K'" "fd_open s4 N' fd f c"
        "same_tree (krn (kvfs s3)) (krn (kvfs s4)) N' K'" "read_bytes (kmem s4) (unat buf') (length data) = data" "fd_table s4 = fd_table s3"
        "vframe (kvfs s3) (kvfs s4)"
      using sys_read_spec [OF s3(2,3) p3 buf'(1) ur] unfolding o3 by blast
    obtain s5 where s5: "sys_close (of_nat fd) s4 = Some (0, s5)" "vfs_ok (kvfs s5) N' K'" "same_tree (krn (kvfs s4)) (krn (kvfs s5)) N' K'"
        "fd_table s5 = (fd_table s4)(fd := \<lparr>fd_file = NULL, fd_flags = 0, fd_in_use = False\<rparr>)" "vframe (kvfs s4) (kvfs s5)"
      by (rule sys_close_spec [OF s4(2,3)])
    have tf: "tree_frame (krn (kvfs s)) (krn (kvfs s5)) N' K' c"
      using tree_frame_trans [OF w(4), of "krn (kvfs s5)"] tree_frame_trans [OF same_tree_frame [OF s4(4)] same_tree_frame [OF s5(3)], of c] s3(4) by simp
    have c5: "contents (krn (kvfs s5)) c = data" using c2 s3(4) s4(4) s5(3) cN by (simp add: same_tree_def)
    have vf: "vframe s0 (kvfs s5)"
      by (rule vframe_trans [OF O(8) vframe_trans [OF w(7) vframe_trans [OF s3(7) vframe_trans [OF s4(7) s5(5)]]]])
    have "dir_walk (krn (kvfs s5)) K' x cs = Some c"
      by (rule dir_walk_mono [OF vfs_okD(1) [OF O(1)] _ O(3,5)]) (use tf in \<open>simp add: tree_frame_def\<close>)
    moreover have "S_ISREG (imode (inodes (krn (kvfs s5)) c))" using tf O(4) cN by (simp add: tree_frame_def)
    moreover have "\<forall>p \<in> N. p \<noteq> c \<longrightarrow> contents (krn (kvfs s5)) p = contents (krn s0) p" using tf O(2,9) by (auto simp: tree_frame_def)
    ultimately have "saved_as s0 (kvfs s5) N x cs data" unfolding saved_as_def using vf s5(2) O(2) cN c5 by blast
    moreover have "length data = unat count" by (simp add: data_def)
    ultimately show ?thesis using w(1,6) s3(1,6) s4(1,5,6) s5(1,4) by auto
  qed
qed


text \<open>A system with the path \<^verbatim>\<open>/a\<close> and a buffer in user memory, for the examples.\<close>

definition demo_ksys :: ksys where
  "demo_ksys = set_kmem (poke_bytes 0x10000000 [47, 97, 0, 1, 2, 3] (mem (hp demo_vfs)))
     \<lparr>kvfs = demo_vfs, ksched = sched_init \<lparr>runqueue = \<lparr>rq_current = 0, rq_idle = 0, rq_head = 0, rq_tail = 0, rq_nr_running = 0, rq_clock = 0\<rparr>,
        tasks = (\<lambda>_. init_task), task_pool_index = 0, sched.next_pid = 1, mm_users = (\<lambda>_. 0), loaded_mm = 0, phys = pmm_boot\<rparr>,
      fd_table = (\<lambda>_. \<lparr>fd_file = 0, fd_flags = 0, fd_in_use = False\<rparr>), fd_table_initialized = False,
      user_brk_current = USER_HEAP_START, user_mmap_current = USER_HEAP_START + USER_HEAP_SIZE div 2,
      syscall_table = (\<lambda>_. None), keys = [], console = []\<rparr>"

lemma demo_ksys_facts:
  "vfs_ok (kvfs demo_ksys) {4136, 4520} demo_kids" "vpath (kvfs demo_ksys) [SLASH, 97] = (4136, [[97]])"
  "find_mount_by_target (Some [SLASH, 97]) (kvfs demo_ksys) = None" "inodes (krn (kvfs demo_ksys)) = inodes demo_fs"
  "heap_start (hp (kvfs demo_ksys)) = 4096" "heap_end (hp (kvfs demo_ksys)) = 13056"
  "kmem demo_ksys = poke_bytes 0x10000000 [47, 97, 0, 1, 2, 3] (mem (hp demo_vfs))"
proof -
  obtain s m where s: "demo_ksys = set_kmem m s" "kvfs s = demo_vfs" "m = poke_bytes 0x10000000 [47, 97, 0, 1, 2, 3] (mem (hp demo_vfs))"
    by (simp add: demo_ksys_def)
  have f: "vframe demo_vfs (kvfs demo_ksys)" using set_kmem_vframe [of s m] s by simp
  show "vfs_ok (kvfs demo_ksys) {4136, 4520} demo_kids" using set_kmem_ok [of s _ _ m] demo_vfs_ok unfolding s(1,2) .
  show "vpath (kvfs demo_ksys) [SLASH, 97] = (4136, [[97]])" using vpath_frame(1) [OF demo_vfs_ok f] demo_vpath [of 97] by simp
  show "find_mount_by_target (Some [SLASH, 97]) (kvfs demo_ksys) = None" using vpath_frame(2) [OF demo_vfs_ok f] demo_no_mount by simp
  show "inodes (krn (kvfs demo_ksys)) = inodes demo_fs" unfolding s(1) set_kmem_simps s(2) by (simp add: demo_vfs_def)
  show "heap_start (hp (kvfs demo_ksys)) = 4096" "heap_end (hp (kvfs demo_ksys)) = 13056"
    unfolding s(1) set_kmem_simps s(2) by (simp_all add: demo_vfs_def demo_fs_def demo_heap_def)
  show "kmem demo_ksys = poke_bytes 0x10000000 [47, 97, 0, 1, 2, 3] (mem (hp demo_vfs))" unfolding s(1) set_kmem_simps s(3) by simp
qed

lemma demo_ksys_string: "user_string 0x10000000 demo_ksys = Some (Some [SLASH, 97])"
proof -
  have m: "kmem demo_ksys 0x10000000 = 47" "kmem demo_ksys 0x10000001 = 97" "kmem demo_ksys 0x10000002 = 0"
    unfolding demo_ksys_facts(7) poke_bytes_eq by simp_all
  have "str_end 0x10000000 (kmem demo_ksys) = Some 0x10000002"
    by (subst str_end.simps, subst str_end.simps, subst str_end.simps) (simp add: m)
  moreover have "read_bytes (kmem demo_ksys) 0x10000000 2 = [SLASH, 97]" by (simp add: read_bytes_def upt_rec m)
  ultimately show ?thesis by (simp add: user_string_def user_range_def demo_ksys_facts(5,6))
qed


text \<open>What the pointer check accepts: ranges that do not wrap and, if they start in the kernel's area, lie in the region for
  programs.\<close>

lemma is_valid_user_ptr_iff:
  "is_valid_user_ptr p len \<longleftrightarrow> p \<noteq> 0 \<and> unat p + unat len < 2 ^ 64
     \<and> (p < KERNEL_START \<or> KERNEL_END \<le> p \<or> 0x44000000 \<le> p \<and> unat p + unat len < 0x50000000)"
proof -
  have b: "unat p < 2 ^ 64" "unat len < 2 ^ 64" using unsigned_less [of p] unsigned_less [of len] by simp_all
  have "unat (- 1 - len) = unat (- 1 :: u64) - unat len" by (rule unat_sub) simp
  then have "unat (- 1 - len) = 2 ^ 64 - 1 - unat len" by (simp add: unsigned_minus_1_eq_mask mask_eq_exp_minus_1)
  then have w: "len > 0 \<and> p > - 1 - len \<longleftrightarrow> \<not> unat p + unat len < 2 ^ 64"
    using b by (auto simp: word_less_nat_alt)
  show ?thesis
  proof (cases "unat p + unat len < 2 ^ 64")
    case True
    then have "unat (p + len) = unat p + unat len" by (simp add: unat_add_lem [where 'a = 64, simplified, symmetric])
    then show ?thesis using True unfolding is_valid_user_ptr_def w
      by (auto simp: Let_def word_less_nat_alt word_le_nat_alt KERNEL_START_def KERNEL_END_def)
  qed (simp only: is_valid_user_ptr_def w if_True if_False simp_thms, simp)
qed

text \<open>Rounding a length up to pages.\<close>

lemma page_round:
  assumes "unat (len :: u64) < 2 ^ 63"
  defines "l \<equiv> (len + PAGE_SIZE - 1) AND NOT (PAGE_SIZE - 1)"
  shows "unat l = (unat len + 4095) div 4096 * 4096" "unat l \<le> unat len + 4095"
proof -
  have "unat (len + 4095) = unat len + 4095" using assms(1) by (subst unat_add_lem [THEN iffD1]) simp_all
  moreover have "len + PAGE_SIZE - 1 = len + 4095" by (simp add: PAGE_SIZE_eq)
  ultimately have "unat (len + PAGE_SIZE - 1) = unat len + 4095" by (simp only:)
  then show l: "unat l = (unat len + 4095) div 4096 * 4096"
    unfolding l_def PAGE_SIZE_mask unat_and_not_mask by simp
  show "unat l \<le> unat len + 4095" unfolding l by (rule div_times_less_eq_dividend)
qed

text \<open>C36. The check of user pointers accepts exactly the non-null ranges that do not wrap around and that start outside the kernel's
  area, or lie in its region for programs. It does not keep the kernel heap from user buffers: the region for programs
  overlaps the heap, and a range that starts below the kernel may reach through all of it.\<close>

theorem user_pointer_check:
  "(\<forall>p len. is_valid_user_ptr p len \<longleftrightarrow> p \<noteq> 0 \<and> unat p + unat len < 2 ^ 64
      \<and> (p < KERNEL_START \<or> KERNEL_END \<le> p \<or> 0x44000000 \<le> p \<and> unat p + unat len < 0x50000000))
   \<and> (\<exists>p len. is_valid_user_ptr p len \<and> len > 0 \<and> HEAP_BASE \<le> unat p \<and> unat p + unat len \<le> HEAP_BASE + HEAP_SIZE)
   \<and> (\<exists>p len. is_valid_user_ptr p len \<and> p < KERNEL_START \<and> KERNEL_END \<le> p + len)"
proof (intro conjI allI)
  show "is_valid_user_ptr p len \<longleftrightarrow> p \<noteq> 0 \<and> unat p + unat len < 2 ^ 64
      \<and> (p < KERNEL_START \<or> KERNEL_END \<le> p \<or> 0x44000000 \<le> p \<and> unat p + unat len < 0x50000000)" for p len
    by (rule is_valid_user_ptr_iff)
  show "\<exists>p len. is_valid_user_ptr p len \<and> len > 0 \<and> HEAP_BASE \<le> unat p \<and> unat p + unat len \<le> HEAP_BASE + HEAP_SIZE"
    by (rule exI [of _ "0x44000000"], rule exI [of _ "0x1000"]) (simp add: is_valid_user_ptr_def HEAP_BASE_def HEAP_SIZE_def)
  show "\<exists>p len. is_valid_user_ptr p len \<and> p < KERNEL_START \<and> KERNEL_END \<le> p + len"
    by (rule exI [of _ "0x3FFFF000"], rule exI [of _ "0x20000000"]) (simp add: is_valid_user_ptr_def KERNEL_START_def KERNEL_END_def)
qed

text \<open>The user heap: the break in the lower half, the mappings in the upper half, and the kernel heap elsewhere.\<close>

definition user_heap_ok :: "ksys \<Rightarrow> bool" where
  "user_heap_ok s \<longleftrightarrow> 0x10000000 \<le> unat (user_brk_current s) \<and> unat (user_brk_current s) \<le> 0x12000000
     \<and> 0x12000000 \<le> unat (user_mmap_current s) \<and> unat (user_mmap_current s) \<le> 0x14000000 \<and> unat (user_mmap_current s) mod 4096 = 0
     \<and> 0x14000000 \<le> heap_start (hp (kvfs s))"

lemma user_heap_limits:
  "USER_HEAP_START + USER_HEAP_SIZE div 2 = 0x12000000" "USER_HEAP_START + USER_HEAP_SIZE = 0x14000000" "USER_HEAP_START = 0x10000000"
  by (simp_all add: USER_HEAP_START_def USER_HEAP_SIZE_def)

lemma sys_brk_spec:
  assumes "user_heap_ok s"
  shows "fst (sys_brk b s) = int (unat (user_brk_current (snd (sys_brk b s)))) \<and> user_heap_ok (snd (sys_brk b s))
    \<and> user_mmap_current (snd (sys_brk b s)) = user_mmap_current s"
proof -
  have "sint (user_brk_current s) = int (unat (user_brk_current s))" using assms by (intro sint_small) (simp add: user_heap_ok_def)
  moreover have "sint b = int (unat b)" if "\<not> b > 0x12000000" using that by (intro sint_small) (simp add: word_less_nat_alt)
  ultimately show ?thesis
    using assms unfolding sys_brk_def user_heap_limits(1) unfolding user_heap_limits(3) user_heap_ok_def by (auto simp: word_less_nat_alt)
qed

lemma sys_mmap_spec:
  assumes ok: "user_heap_ok s" and len: "unat len < 2 ^ 63" and fl: "flags AND MAP_ANONYMOUS \<noteq> 0"
  shows "\<exists>r t. sys_mmap addr len prot flags (- 1) off s = Some (r, t) \<and> user_heap_ok t \<and> user_brk_current t = user_brk_current s
    \<and> (if unat (user_mmap_current s) + (unat len + 4095) div 4096 * 4096 > 0x14000000 then r = - ENOMEM \<and> t = s
       else r = int (unat (user_mmap_current s))
         \<and> unat (user_mmap_current t) = unat (user_mmap_current s) + (unat len + 4095) div 4096 * 4096
         \<and> (\<forall>a. kmem t a = (if unat (user_mmap_current s) \<le> a \<and> a < unat (user_mmap_current t) then 0 else kmem s a)))"
proof -
  define c where "c = user_mmap_current s"
  define l where "l = (len + PAGE_SIZE - 1) AND NOT (PAGE_SIZE - 1)"
  have c: "0x12000000 \<le> unat c" "unat c \<le> 0x14000000" "unat c mod 4096 = 0" "0x14000000 \<le> heap_start (hp (kvfs s))"
    using ok by (simp_all add: user_heap_ok_def c_def)
  have l: "unat l = (unat len + 4095) div 4096 * 4096" unfolding l_def by (rule page_round(1) [OF len])
  have "unat l \<le> unat len + 4095" unfolding l_def by (rule page_round(2) [OF len])
  then have u: "unat (c + l) = unat c + unat l" using c(2) len by (subst unat_add_lem [THEN iffD1]) simp_all
  have so: "sint c = int (unat c)" using c(2) by (intro sint_small) simp
  have S: "sys_mmap addr len prot flags (- 1) off s =
      (if unat c + unat l > 0x14000000 then Some (- ENOMEM, s)
       else Some (int (unat c), set_kmem (byte_fill (unat l) (unat c) 0 (kmem s)) (s\<lparr>user_mmap_current := c + l\<rparr>)))"
  proof -
    have e: "0x14000000 < c + l \<longleftrightarrow> unat c + unat l > 0x14000000" using u by (simp add: word_less_nat_alt)
    have "user_range c (unat l) (s\<lparr>user_mmap_current := c + l\<rparr>)" if "\<not> unat c + unat l > 0x14000000"
      using that c(4) by (simp add: user_range_def)
    then show ?thesis
      using fl so unfolding sys_mmap_def l_def [symmetric] c_def [symmetric] Let_def user_heap_limits(2) e by simp
  qed
  show ?thesis
  proof (cases "unat c + unat l > 0x14000000")
    case True
    then show ?thesis using S ok by (simp add: l c_def)
  next
    case False
    define t where "t = set_kmem (byte_fill (unat l) (unat c) 0 (kmem s)) (s\<lparr>user_mmap_current := c + l\<rparr>)"
    have t: "user_mmap_current t = c + l" "user_brk_current t = user_brk_current s" "kmem t = byte_fill (unat l) (unat c) 0 (kmem s)"
      "heap_start (hp (kvfs t)) = heap_start (hp (kvfs s))" by (simp_all add: t_def set_kmem_def set_heap_def set_kern_def)
    have "(unat c + unat l) mod 4096 = 0" using c(3) by (simp add: l mod_add_eq [of "unat c", symmetric])
    then have "user_heap_ok t" using ok False c u by (simp add: user_heap_ok_def t)
    moreover have "kmem t a = (if unat c \<le> a \<and> a < unat (user_mmap_current t) then 0 else kmem s a)" for a
      unfolding t(3) byte_fill_eq t(1) u ..
    moreover have "sys_mmap addr len prot flags (- 1) off s = Some (int (unat c), t)" using S False unfolding t_def by simp
    ultimately show ?thesis using False u t(1,2) unfolding l [symmetric] c_def [symmetric]
      by (intro exI [of _ "int (unat c)"] exI [of _ t]) simp
  qed
qed

text \<open>C37. The user heap. \<^verbatim>\<open>brk\<close> returns the break, which stays in the lower half of the user heap, and leaves the mappings alone. \<^verbatim>\<open>mmap\<close> of
  an anonymous length below \<open>2^63\<close> returns \<^verbatim>\<open>ENOMEM\<close> exactly when the rounded length does not fit behind the earlier mappings, and otherwise
  the page-aligned end of them, with the rounded length cleared and no other byte of memory changed; so no two mappings
  and no mapping and the break area overlap. The largest length, however, is rounded to zero: the call succeeds without
  reserving any memory.\<close>

theorem user_heap_safe:
  assumes "user_heap_ok s" and "unat len < 2 ^ 63" and "flags AND MAP_ANONYMOUS \<noteq> 0"
  shows "(\<exists>r t. sys_brk b s = (r, t) \<and> r = int (unat (user_brk_current t)) \<and> user_heap_ok t \<and> user_mmap_current t = user_mmap_current s)
    \<and> (\<exists>r t. sys_mmap addr len prot flags (- 1) off s = Some (r, t) \<and> user_heap_ok t \<and> user_brk_current t = user_brk_current s
         \<and> (if unat (user_mmap_current s) + (unat len + 4095) div 4096 * 4096 > 0x14000000 then r = - ENOMEM \<and> t = s
            else r = int (unat (user_mmap_current s))
              \<and> unat (user_mmap_current t) = unat (user_mmap_current s) + (unat len + 4095) div 4096 * 4096
              \<and> (\<forall>a. kmem t a = (if unat (user_mmap_current s) \<le> a \<and> a < unat (user_mmap_current t) then 0 else kmem s a))))
    \<and> (\<exists>t. sys_mmap addr (- 1) prot flags (- 1) off s = Some (int (unat (user_mmap_current s)), t) \<and> user_mmap_current t = user_mmap_current s)"
proof (intro conjI)
  show "\<exists>r t. sys_brk b s = (r, t) \<and> r = int (unat (user_brk_current t)) \<and> user_heap_ok t \<and> user_mmap_current t = user_mmap_current s"
    using sys_brk_spec [OF assms(1), of b] by (metis prod.collapse)
next
  have "(- 1 + PAGE_SIZE - 1) AND NOT (PAGE_SIZE - 1) = (0 :: u64)" by (simp add: PAGE_SIZE_eq)
  moreover have "sint (user_mmap_current s) = int (unat (user_mmap_current s))" using assms(1) by (intro sint_small) (simp add: user_heap_ok_def)
  moreover have "\<not> 0x14000000 < user_mmap_current s" using assms(1) by (simp add: user_heap_ok_def word_less_nat_alt)
  ultimately show "\<exists>t. sys_mmap addr (- 1) prot flags (- 1) off s = Some (int (unat (user_mmap_current s)), t) \<and> user_mmap_current t = user_mmap_current s"
    using assms(3) unfolding sys_mmap_def user_heap_limits(2) by (simp add: user_range_def) (simp add: set_kmem_def)
qed (rule sys_mmap_spec [OF assms])

definition demo_user :: ksys where
  "demo_user = demo_ksys\<lparr>kvfs := set_heap (kmalloc_init kheap_boot) (kvfs demo_ksys)\<rparr>"

lemma demo_user_ok: "user_heap_ok demo_user" "unat (user_mmap_current demo_user) = 0x12000000"
proof -
  have "user_brk_current demo_ksys = 0x10000000" "user_mmap_current demo_ksys = 0x12000000"
    by (simp_all add: demo_ksys_def set_kmem_def user_heap_limits USER_HEAP_START_def USER_HEAP_SIZE_def)
  moreover have "heap_start (hp (kvfs demo_user)) = HEAP_BASE"
    by (simp add: demo_user_def set_heap_def set_kern_def kmalloc_init_def kheap_boot_def Let_def)
  ultimately show "user_heap_ok demo_user" "unat (user_mmap_current demo_user) = 0x12000000"
    by (simp_all add: user_heap_ok_def HEAP_BASE_def) (simp_all add: demo_user_def)
qed

theorem user_heap_safe_witness:
  "\<exists>t. sys_mmap 0 5000 3 0x22 (- 1) 0 demo_user = Some (0x12000000, t) \<and> unat (user_mmap_current t) = 0x12002000 \<and> kmem t 0x12001FFF = 0"
  using user_heap_safe [OF demo_user_ok(1), of 5000 "0x22" 0 0 3 0] unfolding demo_user_ok(2) by (auto simp: MAP_ANONYMOUS_def)

end
