(* ===== verification/Spec2Isabelle.thy ===== *)
theory Spec2Isabelle
  imports Pipe Signal Cstring Dns Tcp_Ip Socket Vfs_Files Process Spinlock Stdio Sandbox Syscall
begin

text \<open>
  A verification of the core of OS8 (UnixOS), a small Unix-like kernel in C. File names below are relative to the
  repository's \<^verbatim>\<open>kernel/\<close> directory unless they start with \<^verbatim>\<open>libc/\<close>.

  \<^bold>\<open>The program.\<close> At boot \<^verbatim>\<open>core/main.c\<close> brings up the page allocator, the page tables and the kernel heap, in this
  order. Everything else lives on the heap: pipes, sockets and TCP connections, the inodes of the RAM file system, the
  dentries and open files of the virtual file system in front of it, the stacks of processes. Programs are ELF images, read
  through a compatibility layer over the virtual file system and copied into a fixed arena; a table of sixteen processes
  is scheduled by the timer. A second scheduler (\<^verbatim>\<open>sched/\<close>) with its own task pool and signals exists beside it. User
  programs are linked with a small C library.

  \<^bold>\<open>Theories and sources.\<close> Each theory models one source file, function by function and in its order, with the C names
  (suffixed where HOL has the name already); the parts come first, then the invariant, the lemmas about single
  functions, and a section \<^emph>\<open>Properties\<close>.

  \<^item> \<open>Prelude\<close>: integer types, error numbers, bitmaps, byte loops, and the locale \<open>safe_system\<close> (an invariant of a step
    relation holds in all reachable states), interpreted in \<open>Stdlib\<close>, \<open>Spinlock\<close> and \<open>Process\<close>.
  \<^item> \<open>Linked_List\<close>: doubly and singly linked lists through a store, shared by the heap, the run queue and the file system.
  \<^item> \<open>Pmm\<close> (\<^verbatim>\<open>mm/pmm.c\<close>): the bitmap of page frames; first fit for every order, exact accounting, the buddy path.
  \<^item> \<open>Vmm\<close> (\<^verbatim>\<open>mm/vmm.c\<close>): page tables as a store of 64-bit entries, kernel and user mappings, address spaces. The tables
    form a tree without sharing; a map operation changes exactly its translations or, after its roll-back, none.
  \<^item> \<open>Kmalloc\<close> (\<^verbatim>\<open>mm/kmalloc.c\<close>): the first-fit heap with splitting and coalescing. The invariant \<open>heap_inv\<close> ties the chain of
    blocks to the free list. The locale \<open>allocator\<close> states what a client may rely on; its interpretation \<open>kh\<close> on
    \<^verbatim>\<open>kmalloc\<close> and \<^verbatim>\<open>kfree\<close> carries the heap facts of all later theories.
  \<^item> \<open>Aslr\<close> (\<^verbatim>\<open>mm/aslr.c\<close>): the random offsets and how little entropy they have.
  \<^item> \<open>Sched\<close> (\<^verbatim>\<open>sched/sched.c\<close>): tasks, run queue, threads. The locale \<open>run_queue\<close> is the list contract of the queue,
    interpreted on \<^verbatim>\<open>enqueue_task\<close> and \<^verbatim>\<open>dequeue_task\<close>. \<open>Signal\<close> (\<^verbatim>\<open>sched/signal.c\<close>): masks, actions and delivery; SIGKILL and
    SIGSTOP stay protected under any sequence of calls.
  \<^item> \<open>Spinlock\<close> (\<^verbatim>\<open>sync/spinlock.c\<close>): the four implementations instruction by instruction, interleaved over any number of
    processors, with mutual exclusion and progress.
  \<^item> \<open>Pipe\<close> (\<^verbatim>\<open>ipc/pipe.c\<close>): critical sections of readers, writers and closes as an interleaving relation that refines a
    queue; the ring buffer interprets the locale \<open>bounded_fifo\<close>.
  \<^item> \<open>Inet\<close>, \<open>Tcp_Ip\<close> (\<^verbatim>\<open>net/tcp_ip.c\<close>): byte order, checksum, ARP, ICMP, UDP, the TCP state machine, and delivery from one
    host to another. \<open>Socket\<close> (\<^verbatim>\<open>net/socket.c\<close>): the descriptor table. \<open>Dns\<close> (\<^verbatim>\<open>net/dns.c\<close>): names, packets and cache.
  \<^item> \<open>Ramfs\<close> (\<^verbatim>\<open>fs/ramfs.c\<close>): inodes on the heap; the invariant makes them a tree, and each directory refines a map from
    names. \<open>Vfs\<close>, \<open>Vfs_Walk\<close>, \<open>Vfs_Tree\<close>, \<open>Vfs_Files\<close> (\<^verbatim>\<open>fs/vfs.c\<close>): definitions and mount table; path walks; creating and
    removing by path; open files. \<open>Vfs_Compat\<close> (\<^verbatim>\<open>fs/vfs_compat.c\<close>): the pool of handles.
  \<^item> \<open>Elf\<close> (\<^verbatim>\<open>loader/elf.c\<close>): validation, loading and relocation of ELF64 images.
  \<^item> \<open>Process\<close> (\<^verbatim>\<open>core/process.c\<close>): the process table over the heap, the compatibility layer, the loader and the random
    offsets: creation, exit, the work list of kill, preemption. \<open>proc_step\<close> is the relation of all its calls.
  \<^item> \<open>Cstring\<close> (\<^verbatim>\<open>libc/src/string.c\<close> and \<^verbatim>\<open>lib/string.c\<close>), \<open>Stdlib\<close> (\<^verbatim>\<open>libc/src/stdlib.c\<close>), \<open>Stdio\<close> (the formatted output of
    \<^verbatim>\<open>libc/src/stdio.c\<close>).
  \<^item> \<open>Syscall\<close> (\<^verbatim>\<open>syscall/syscall.c\<close>): file descriptors over \<open>Vfs_Files\<close>, the user heap, loading a program over \<open>Elf\<close>, the calls into
    \<open>Sched\<close>, the dispatcher. Sessions of calls on a file are round trips through all layers.
  \<^item> \<open>Sandbox\<close> (\<^verbatim>\<open>sandbox/sandbox.c\<close>): contexts on the heap and the execution of a function that may fault. After a fault
    control arrives where a parameter says; the x86-64 instructions that determine it are modelled too.
  \<^item> This theory composes \<open>Pmm\<close>, \<open>Vmm\<close> and \<open>Kmalloc\<close> the way phase 2 of \<^verbatim>\<open>init_subsystems\<close> (\<^verbatim>\<open>core/main.c\<close>) does.

  \<^bold>\<open>Conventions.\<close> A struct is a record and its table of function pointers a datatype or a parameter; a machine integer is a
  word of its width where wrapping can be observed, and an \<open>int\<close> or \<open>nat\<close> where the invariant excludes it. Memory is an
  explicit store: typed cells for structs in heap blocks, a byte function for buffers. An operation takes the state and
  returns its result with the new state. The value \<open>None\<close> stands for a run that has no defined outcome: an access outside
  the object, a null pointer, or a loop that never ends. Loops that follow pointers or strings are \<open>partial_function\<close>s in
  the option type and there is no fuel, so each theorem of the form \<open>f x = Some y\<close> includes that the code returns.
  Negative error numbers are ordinary results. Where the kernel disables interrupts or holds a lock around a function, the
  function is one step; \<open>Pipe\<close> and \<open>Spinlock\<close>, whose subject is interleaving, have finer steps. Messages printed on
  the way are left out. Code outside the repository or in assembly is a parameter: user signal handlers, the readings of
  the timer, the addresses of the entry stubs.

  \<^bold>\<open>What the theorems show.\<close> For the allocators: success exactly when there is room, freshness, disjointness, and that
  nothing else changes. For the file systems, pipes, sockets, queues and the process table: every operation returns, keeps
  the invariant, and acts as the abstract operation on a map, tree or queue, with each error in exactly its case. For
  encodings (names, numbers, files, frames): round trips. Some theorems record where the code does not do what its
  comments say: \<open>schedule\<close> does not rotate, a DNS name with a pointer to itself is decoded for ever, the heap region is not
  taken out of the page allocator, the random offsets repeat, the check of user pointers lets buffers in the kernel heap
  through.

  \<^bold>\<open>Not modelled.\<close> \<^verbatim>\<open>sched/fork.c\<close> loads through the page tables of another address space, which needs a model of memory
  accesses by virtual address. The
  streams and the input side of \<^verbatim>\<open>libc/src/stdio.c\<close> wrap the read and write system calls. The on-disk file
  systems, drivers, interrupt controllers and boot loaders are memory-mapped I/O and assembly; the windowing system, its applications and
  the media decoders are drawing code, third-party code and image data. The tree \<^verbatim>\<open>os-x86_64/\<close> is a second copy of the
  kernel; the modelled files are those of the main tree.
\<close>

section \<open>Bringing up memory\<close>

text \<open>Phase 2 of \<^verbatim>\<open>init_subsystems\<close> (\<^verbatim>\<open>kernel/core/main.c\<close>): the page allocator, the page tables and the
  kernel heap, in this order. A negative result ends in \<^verbatim>\<open>panic\<close>, which does not return.\<close>

record memory_system =
  vm :: vmm
  kernel_heap :: kheap

datatype boot_result = PANIC string | UP memory_system

definition init_memory :: "arch \<Rightarrow> u64 \<Rightarrow> u64 \<Rightarrow> memory_system \<Rightarrow> boot_result option" where
  "init_memory ar kernel_start kernel_end s =
     do { (ret, fr) \<leftarrow> pmm_init kernel_start kernel_end (frames (vm s));
          if ret < 0 then Some (PANIC ''Failed to initialize physical memory manager!'')
          else do {
            (ret, v) \<leftarrow> vmm_init ar ((vm s)\<lparr>frames := fr\<rparr>);
            if ret < 0 then Some (PANIC ''Failed to initialize virtual memory manager!'')
            else Some (UP \<lparr>vm = v, kernel_heap = kmalloc_init (kernel_heap s)\<rparr>) }}"

text \<open>The static tables are pages of the kernel image.\<close>

definition in_image :: "u64 \<Rightarrow> u64 \<Rightarrow> nat \<Rightarrow> bool" where
  "in_image kernel_start kernel_end i \<longleftrightarrow> i < N_PAGES
     \<and> PAGE_ALIGN_DOWN kernel_start \<le> page_addr i \<and> page_addr i < PAGE_ALIGN kernel_end"


lemma in_image_inj: "in_image ks ke i \<Longrightarrow> in_image ks ke j \<Longrightarrow> page_addr i = page_addr j \<longleftrightarrow> i = j"
  by (simp add: in_image_def page_addr_inj)

lemma boot_pool:
  assumes inv: "pmm_inv fr" and free: "\<forall>i. page_free fr i \<longleftrightarrow> i < N_PAGES \<and> \<not> in_image ks ke i"
    and e: "\<forall>k<EARLY_TABLES_COUNT. in_image ks ke (e + k)" and r: "in_image ks ke r" "r < e \<or> e + EARLY_TABLES_COUNT \<le> r"
    and s_def: "s = vmm_boot (page_addr r) (page_addr e) fr mms vmas c"
  shows "pool_ok s" and "page_addr r \<notin> avail s" and "page_addr r \<noteq> 0"
proof -
  have et: "early_table s k = page_addr (e + k)" for k
    by (simp add: s_def early_table_def vmm_boot_def page_addr_add)
  have img: "page_addr i \<notin> page_addr ` free_set fr" if "in_image ks ke i" for i
  proof
    assume "page_addr i \<in> page_addr ` free_set fr"
    then obtain j where "j \<in> free_set fr" "page_addr i = page_addr j" by blast
    then have "page_free fr j" "j = i" using that page_addr_inj by (auto simp: free_set_def page_free_def in_image_def)
    then show False using that free by blast
  qed
  have "inj_on (early_table s) {..<EARLY_TABLES_COUNT}"
    unfolding et using e in_image_inj by (intro inj_onI) (metis add_left_cancel lessThan_iff)
  then show "pool_ok s"
    using inv e img page_addr_ok by (simp add: pool_ok_def et) (simp add: s_def vmm_boot_def in_image_def)
  have "page_addr r \<noteq> page_addr (e + k)" if "k < EARLY_TABLES_COUNT" for k
    using in_image_inj [OF r(1), of "e + k"] e r(2) that by auto
  then show "page_addr r \<notin> avail s" using img [OF r(1)] by (auto simp: avail_def et) (auto simp: s_def vmm_boot_def)
  show "page_addr r \<noteq> 0" using r(1) by (intro page_addr_nonzero) (simp add: in_image_def)
qed

text \<open>C18. Booting memory on ARM64. With the page tables of the kernel image inside the image, phase 2
  never panics. It leaves the page-table invariant, which includes the accounting of the page
  allocator, a well-formed empty heap, the MMU on with the first 2 GB mapped to themselves, and
  exactly the pages of the kernel image reserved. The heap region is not reserved: when the image
  ends below the heap, every page of the heap is also a free page of the page allocator.\<close>

theorem memory_boot:
  assumes e: "\<forall>k<EARLY_TABLES_COUNT. in_image ks ke (e + k)"
    and r: "in_image ks ke r" "r < e \<or> e + EARLY_TABLES_COUNT \<le> r"
    and heap: "0 < heap_region h"
  shows "\<exists>s. init_memory ARCH_ARM64 ks ke
        \<lparr>vm = vmm_boot (page_addr r) (page_addr e) pmm_boot mms vmas c, kernel_heap = h\<rparr> = Some (UP s)
    \<and> vm_inv (vm s) \<and> heap_wf (kernel_heap s) [heap_region h] [heap_region h] \<and> live (kernel_heap s) = Map.empty
    \<and> bit (sctlr_el1 (cpu_regs (vm s))) 0
    \<and> (\<forall>v. unat v < 2 ^ 31 \<longrightarrow> mmu_block (tabs (vm s)) (ttbr0_el1 (cpu_regs (vm s))) v = Some v)
    \<and> (\<forall>i. page_free (frames (vm s)) i \<longleftrightarrow> i < N_PAGES \<and> \<not> in_image ks ke i)
    \<and> (unat (PAGE_ALIGN ke) \<le> HEAP_BASE \<longrightarrow>
         (\<forall>i. HEAP_BASE \<le> unat (page_addr i) \<and> unat (page_addr i) < HEAP_BASE + Kmalloc.HEAP_SIZE \<and> i < N_PAGES \<longrightarrow>
            page_free (frames (vm s)) i))"
proof -
  obtain fr where fr: "pmm_init ks ke pmm_boot = Some (0, fr)" "pmm_inv fr"
      "\<forall>i. page_free fr i \<longleftrightarrow> i < N_PAGES \<and> \<not> (PAGE_ALIGN_DOWN ks \<le> page_addr i \<and> page_addr i < PAGE_ALIGN ke)"
    using pmm_init_spec by blast
  then have free: "\<forall>i. page_free fr i \<longleftrightarrow> i < N_PAGES \<and> \<not> in_image ks ke i" by (auto simp: in_image_def)
  note b = boot_pool [where mms = mms and vmas = vmas and c = c, OF fr(2) free e r refl]
  have upd: "(vmm_boot (page_addr r) (page_addr e) pmm_boot mms vmas c)\<lparr>frames := fr\<rparr> =
      vmm_boot (page_addr r) (page_addr e) fr mms vmas c" "frames (vmm_boot (page_addr r) (page_addr e) pmm_boot mms vmas c) = pmm_boot"
    by (simp_all add: vmm_boot_def)
  obtain v l1 where v: "vmm_init ARCH_ARM64 (vmm_boot (page_addr r) (page_addr e) fr mms vmas c) = Some (0, v)"
      "vm_inv v" "cpu_regs v = load_tables ARCH_ARM64 (page_addr r) (set_attributes ARCH_ARM64 c)" "frames v = fr"
      and l: "tabs v (page_addr r) 0 = phys_to_pte l1 (PTE_VALID OR PTE_TABLE)" "addr_ok l1"
        "tabs v l1 0 = 0x405" "tabs v l1 1 = 0x40000701"
    by (rule vmm_init_spec [OF b(1) refl b(3,2)]) blast
  let ?s = "\<lparr>vm = v, kernel_heap = kmalloc_init h\<rparr>"
  have "init_memory ARCH_ARM64 ks ke \<lparr>vm = vmm_boot (page_addr r) (page_addr e) pmm_boot mms vmas c, kernel_heap = h\<rparr>
      = Some (UP ?s)"
    using fr(1) v(1) by (simp add: init_memory_def upd)
  moreover have "page_free fr i"
    if "unat (PAGE_ALIGN ke) \<le> HEAP_BASE" "HEAP_BASE \<le> unat (page_addr i)" "i < N_PAGES" for i
  proof -
    have "\<not> page_addr i < PAGE_ALIGN ke" using that(1,2) by (simp add: word_less_nat_alt)
    then show ?thesis using free that(3) by (simp add: in_image_def)
  qed
  moreover have "bit (sctlr_el1 (cpu_regs v)) 0" "ttbr0_el1 (cpu_regs v) = page_addr r"
    by (simp_all add: v(3) load_tables_def bit_simps)
  ultimately show ?thesis
    using v(2,4) free identity_blocks [OF l] kmalloc_init_wf [OF heap] kmalloc_init_live [OF heap] by (intro exI [of _ ?s]) auto
qed

text \<open>An image of 1 MB at the start of memory, with the root table on page 16 and the early tables on
  pages 17 to 20.\<close>

theorem memory_boot_witness:
  "in_image 0x40000000 0x40100000 16 \<and> in_image 0x40000000 0x40100000 17 \<and> in_image 0x40000000 0x40100000 18
   \<and> in_image 0x40000000 0x40100000 19 \<and> in_image 0x40000000 0x40100000 20
   \<and> 0 < heap_region kheap_boot
   \<and> (\<exists>s. init_memory ARCH_ARM64 0x40000000 0x40100000
        \<lparr>vm = vmm_boot (page_addr 16) (page_addr 17) pmm_boot (\<lambda>_. mm_zero)
           (\<lambda>_. \<lparr>va_start = 0, va_end = 0, va_flags = 0, va_next = None\<rparr>) (cpu_regs demo_vm),
         kernel_heap = kheap_boot\<rparr> = Some (UP s) \<and> vm_inv (vm s) \<and> page_free (frames (vm s)) 0x2000)"
proof -
  have u: "unat (page_addr i) = (0x40000 + i) * 4096" if "i < N_PAGES" for i
    unfolding page_addr_mult by (rule unat_mult_page) (use that in \<open>simp add: N_PAGES_def\<close>)
  have al: "PAGE_ALIGN_DOWN 0x40000000 = 0x40000000" "PAGE_ALIGN 0x40100000 = 0x40100000"
    by (simp_all add: PAGE_ALIGN_DOWN_def PAGE_ALIGN_def PAGE_SIZE_eq)
  have img: "in_image 0x40000000 0x40100000 i" if "i < 256" for i
    using that u [of i] by (simp add: in_image_def al word_le_nat_alt word_less_nat_alt N_PAGES_def)
  have e: "\<forall>k<EARLY_TABLES_COUNT. in_image 0x40000000 0x40100000 (17 + k)" by (auto simp: EARLY_TABLES_COUNT_def intro: img)
  have r: "in_image 0x40000000 0x40100000 16" by (rule img) simp
  have h: "0 < heap_region kheap_boot" by (simp add: kheap_boot_def HEAP_BASE_def)
  have p: "0x2000 < N_PAGES" "unat (page_addr 0x2000) = 0x42000000" using u [of "0x2000"] by (simp_all add: N_PAGES_def)
  have "HEAP_BASE \<le> unat (page_addr 0x2000) \<and> unat (page_addr 0x2000) < HEAP_BASE + Kmalloc.HEAP_SIZE \<and> 0x2000 < N_PAGES"
    using p by (simp add: HEAP_BASE_def Kmalloc.HEAP_SIZE_def)
  moreover have "unat (PAGE_ALIGN 0x40100000) \<le> HEAP_BASE" by (simp add: al HEAP_BASE_def)
  ultimately show ?thesis
    using memory_boot [OF e r _ h, of "\<lambda>_. mm_zero" "\<lambda>_. \<lparr>va_start = 0, va_end = 0, va_flags = 0, va_next = None\<rparr>"
        "cpu_regs demo_vm"] img [of 17] img [of 18] img [of 19] img [of 20] r h by auto
qed

end
